(* ===== verification/Prelude.thy ===== *)
theory Prelude
  imports Main "HOL-Library.Code_Target_Numeral" "HOL-Library.Sublist" "HOL-Library.AList" "HOL-Library.Char_ord" "HOL-Library.List_Lexorder"
begin

section \<open>Shared vocabulary of the development\<close>

text \<open>
  What every component theory uses: the theorem collections, the Go string functions the code
  calls, association tables standing for Go maps that are also counted and swept, and the two
  generic interfaces of the development (a keyed table, and a state machine with an invariant).

  A Go \<open>string\<close> and a Go \<open>[]byte\<close> are both HOL's \<^typ>\<open>string\<close>, a list of 8-bit
  characters, so \<open>len\<close> counts bytes here as it does in Go. An instant of time is an \<^typ>\<open>int\<close>
  of nanoseconds unless a theory says otherwise.
\<close>

named_theorems go_string \<open>rewriting of the Go string functions\<close>
named_theorems table_simps \<open>what a table looks like after an operation\<close>
named_theorems inv_intros \<open>one rule per operation: it keeps its component's invariant\<close>

type_synonym bytes = string
type_synonym time = int

subsection \<open>Go string functions\<close>

text \<open>\<open>strings.HasPrefix(s, p)\<close>, with the subject first as in Go.\<close>

fun has_prefix :: "string \<Rightarrow> string \<Rightarrow> bool" where
  "has_prefix s [] = True"
| "has_prefix [] (p # ps) = False"
| "has_prefix (x # xs) (p # ps) = (x = p \<and> has_prefix xs ps)"

lemma has_prefix_iff [go_string]: "has_prefix s p \<longleftrightarrow> prefix p s"
  by (induction s p rule: has_prefix.induct) auto

definition has_suffix :: "string \<Rightarrow> string \<Rightarrow> bool" where
  "has_suffix s p = has_prefix (rev s) (rev p)"

lemma has_suffix_iff [go_string]: "has_suffix s p \<longleftrightarrow> suffix p s"
  by (simp add: has_suffix_def has_prefix_iff suffix_to_prefix)

text \<open>\<open>strings.Split(s, sep)\<close> for a separator of one byte.\<close>

fun split_on :: "char \<Rightarrow> string \<Rightarrow> string list" where
  "split_on c [] = [[]]"
| "split_on c (x # xs) =
     (if x = c then [] # split_on c xs
      else (case split_on c xs of [] \<Rightarrow> [[x]] | y # ys \<Rightarrow> (x # y) # ys))"

text \<open>Every element preceded by the separator, the way the path code writes its result.\<close>

definition prefixed_by :: "char \<Rightarrow> string list \<Rightarrow> string" where
  "prefixed_by c xs = concat (map (\<lambda>x. c # x) xs)"

text \<open>\<open>strings.Join(xs, sep)\<close> for a separator of one byte.\<close>

fun join_with :: "char \<Rightarrow> string list \<Rightarrow> string" where
  "join_with c [] = []"
| "join_with c [x] = x"
| "join_with c (x # y # ys) = x @ c # join_with c (y # ys)"

text \<open>\<open>strings.Cut(s, sep)\<close> for a separator of one byte.\<close>

fun cut_at :: "char \<Rightarrow> string \<Rightarrow> (string \<times> string) option" where
  "cut_at c [] = None"
| "cut_at c (x # xs) =
     (if x = c then Some ([], xs) else map_option (\<lambda>(a, b). (x # a, b)) (cut_at c xs))"

text \<open>\<open>strings.TrimRight(s, c)\<close> for a cutset of one byte.\<close>

definition trim_right_char :: "char \<Rightarrow> string \<Rightarrow> string" where
  "trim_right_char c s = rev (dropWhile (\<lambda>x. x = c) (rev s))"

lemma split_on_not_Nil [simp]: "split_on c s \<noteq> []"
  by (induction s) (auto split: list.splits)

lemma split_on_no_sep: "x \<in> set (split_on c s) \<Longrightarrow> c \<notin> set x"
proof (induction s arbitrary: x)
  case (Cons a s)
  then show ?case
    by (cases "split_on c s") (auto split: if_splits)
qed simp

lemma split_on_id: "c \<notin> set s \<Longrightarrow> split_on c s = [s]"
  by (induction s) auto

lemma split_on_append:
  "c \<notin> set x \<Longrightarrow> split_on c (x @ c # s) = x # split_on c s"
  by (induction x) auto

lemma split_on_prefixed_by:
  "(\<And>x. x \<in> set xs \<Longrightarrow> c \<notin> set x) \<Longrightarrow> split_on c (prefixed_by c xs) = [] # xs"
proof (induction xs)
  case Nil
  then show ?case by (simp add: prefixed_by_def)
next
  case (Cons x xs)
  then have IH: "split_on c (prefixed_by c xs) = [] # xs" by simp
  have "split_on c (x @ prefixed_by c xs) = x # xs"
  proof (cases xs)
    case Nil
    with Cons.prems show ?thesis by (simp add: prefixed_by_def split_on_id)
  next
    case (Cons y ys)
    then have "prefixed_by c xs = c # y @ prefixed_by c ys" by (simp add: prefixed_by_def)
    with IH Cons.prems show ?thesis by (simp add: split_on_append)
  qed
  then show ?case by (simp add: prefixed_by_def)
qed

lemma prefixed_by_inject:
  assumes "\<And>x. x \<in> set xs \<Longrightarrow> c \<notin> set x" "\<And>x. x \<in> set ys \<Longrightarrow> c \<notin> set x"
    and "prefixed_by c xs = prefixed_by c ys"
  shows "xs = ys"
proof -
  have "[] # xs = split_on c (prefixed_by c xs)"
    using assms(1) by (rule split_on_prefixed_by [symmetric])
  also have "\<dots> = [] # ys"
    unfolding assms(3) using assms(2) by (rule split_on_prefixed_by)
  finally show ?thesis by simp
qed

lemma prefixed_by_append [simp]: "prefixed_by c (xs @ ys) = prefixed_by c xs @ prefixed_by c ys"
  by (simp add: prefixed_by_def)

lemma prefixed_by_Nil_iff [simp]: "prefixed_by c xs = [] \<longleftrightarrow> xs = []"
  by (cases xs) (auto simp: prefixed_by_def)


text \<open>
  White space, as \<open>strings.TrimSpace\<close> and \<open>strings.Fields\<close> see it: \<open>unicode.IsSpace\<close> of the
  decoded rune. The encodings of the non-ASCII white-space runes start with a lead byte, which no
  other encoding contains after its first byte, so looking for the byte pattern at each position
  finds exactly the runes that decoding finds. \<open>space_head\<close> is the width of the white-space rune
  a string starts with, 0 when it starts with anything else.
\<close>

definition ascii_space :: "char \<Rightarrow> bool" where
  "ascii_space c \<longleftrightarrow> c \<in> {CHR 0x09, CHR 0x0A, CHR 0x0B, CHR 0x0C, CHR 0x0D, CHR 0x20}"

definition space2 :: "char \<Rightarrow> char \<Rightarrow> bool" where
  "space2 a b \<longleftrightarrow> a = CHR 0xC2 \<and> (b = CHR 0x85 \<or> b = CHR 0xA0)"

definition space3 :: "char \<Rightarrow> char \<Rightarrow> char \<Rightarrow> bool" where
  "space3 a b c \<longleftrightarrow>
     (a = CHR 0xE1 \<and> b = CHR 0x9A \<and> c = CHR 0x80)
   \<or> (a = CHR 0xE2 \<and> b = CHR 0x80 \<and>
       ((128 \<le> (of_char c :: nat) \<and> (of_char c :: nat) \<le> 138) \<or> c = CHR 0xA8 \<or> c = CHR 0xA9 \<or> c = CHR 0xAF))
   \<or> (a = CHR 0xE2 \<and> b = CHR 0x81 \<and> c = CHR 0x9F)
   \<or> (a = CHR 0xE3 \<and> b = CHR 0x80 \<and> c = CHR 0x80)"

fun space_head :: "string \<Rightarrow> nat" where
  "space_head [] = 0"
| "space_head [a] = (if ascii_space a then 1 else 0)"
| "space_head [a, b] = (if ascii_space a then 1 else if space2 a b then 2 else 0)"
| "space_head (a # b # c # s) =
     (if ascii_space a then 1 else if space2 a b then 2 else if space3 a b c then 3 else 0)"

fun space_tail :: "string \<Rightarrow> nat" where
  \<comment> \<open>the same for the end of a string, given reversed\<close>
  "space_tail [] = 0"
| "space_tail [a] = (if ascii_space a then 1 else 0)"
| "space_tail [a, b] = (if ascii_space a then 1 else if space2 b a then 2 else 0)"
| "space_tail (a # b # c # s) =
     (if ascii_space a then 1 else if space2 b a then 2 else if space3 c b a then 3 else 0)"

lemma space_head_le: "space_head s \<le> length s"
  by (induction s rule: space_head.induct) auto

lemma space_tail_le: "space_tail s \<le> length s"
  by (induction s rule: space_tail.induct) auto

lemma space_head_less: "0 < space_head s \<Longrightarrow> length s - space_head s < length s"
  by (cases s) auto

lemma space_tail_less: "0 < space_tail s \<Longrightarrow> length s - space_tail s < length s"
  by (cases s) auto

function trim_left :: "string \<Rightarrow> string" where
  "trim_left s = (if space_head s = 0 then s else trim_left (drop (space_head s) s))"
  by pat_completeness auto
termination
  by (relation "measure length") (auto intro: space_head_less)

function trim_tail :: "string \<Rightarrow> string" where
  "trim_tail s = (if space_tail s = 0 then s else trim_tail (drop (space_tail s) s))"
  by pat_completeness auto
termination
  by (relation "measure length") (auto intro: space_tail_less)

declare trim_left.simps [simp del] trim_tail.simps [simp del]

definition trim_space :: "string \<Rightarrow> string" where
  "trim_space s = rev (trim_tail (rev (trim_left s)))"

fun take_word :: "string \<Rightarrow> string" where
  "take_word [] = []"
| "take_word (c # s) = (if space_head (c # s) = 0 then c # take_word s else [])"

lemma length_trim_left: "length (trim_left s) \<le> length s"
proof (induction s rule: trim_left.induct)
  case (1 s)
  then show ?case by (subst trim_left.simps) (auto intro: le_trans)
qed

lemma space_head_trim_left [simp]: "space_head (trim_left s) = 0"
proof (induction s rule: trim_left.induct)
  case (1 s)
  then show ?case by (cases "space_head s = 0") (simp_all add: trim_left.simps [of s])
qed

lemma take_word_nonempty: "s \<noteq> [] \<Longrightarrow> space_head s = 0 \<Longrightarrow> take_word s \<noteq> []"
  by (cases s) auto

text \<open>\<open>strings.Fields\<close>.\<close>

function go_fields :: "string \<Rightarrow> string list" where
  "go_fields s =
     (let t = trim_left s
      in if t = [] then [] else take_word t # go_fields (drop (length (take_word t)) t))"
  by pat_completeness auto
termination
proof (relation "measure length")
  fix s t :: string
  assume "t = trim_left s" "t \<noteq> []"
  then have "take_word t \<noteq> []" "length t \<le> length s"
    using take_word_nonempty length_trim_left by auto
  with \<open>t \<noteq> []\<close> show "(drop (length (take_word t)) t, s) \<in> measure length"
    by (cases "take_word t"; cases t) auto
qed auto

declare go_fields.simps [simp del]

lemma take_word_no_space: "c \<in> set (take_word s) \<Longrightarrow> \<not> ascii_space c"
proof (induction s)
  case (Cons a s)
  then show ?case
    by (cases s; cases "tl s") (auto split: if_splits)
qed simp

text \<open>A field never holds an ASCII white-space byte.\<close>

lemma go_fields_no_space: "w \<in> set (go_fields s) \<Longrightarrow> c \<in> set w \<Longrightarrow> \<not> ascii_space c"
proof (induction s rule: go_fields.induct)
  case (1 s)
  then show ?case
    by (auto simp: go_fields.simps [of s] Let_def take_word_no_space split: if_splits)
qed

text \<open>\<open>strings.ToLower\<close> and \<open>strings.EqualFold\<close> on ASCII strings, which is what they are applied to.\<close>

definition lower_char :: "char \<Rightarrow> char" where
  "lower_char c =
     (if 65 \<le> (of_char c :: nat) \<and> (of_char c :: nat) \<le> 90 then char_of (of_char c + 32 :: nat) else c)"

definition to_lower :: "string \<Rightarrow> string" where
  "to_lower s = map lower_char s"

definition equal_fold :: "string \<Rightarrow> string \<Rightarrow> bool" where
  "equal_fold s t \<longleftrightarrow> to_lower s = to_lower t"

definition is_digit :: "char \<Rightarrow> bool" where
  "is_digit c \<longleftrightarrow> 48 \<le> (of_char c :: nat) \<and> (of_char c :: nat) \<le> 57"

definition digit_val :: "char \<Rightarrow> nat" where
  "digit_val c = of_char c - 48"

lemma of_char_less: "(of_char c :: nat) < 256"
  using of_char_mod_256 [of c, where 'a = nat] by (metis mod_less_divisor zero_less_numeral)

text \<open>The value of a digit string, and \<open>strconv.Itoa\<close>.\<close>

definition digits_val :: "string \<Rightarrow> nat" where
  "digits_val s = foldl (\<lambda>n c. 10 * n + digit_val c) 0 s"

function nat_digits :: "nat \<Rightarrow> string" where
  "nat_digits n =
     (if n < 10 then [char_of (n + 48)] else nat_digits (n div 10) @ [char_of (n mod 10 + 48)])"
  by pat_completeness auto
termination
  by (relation "measure id") auto

declare nat_digits.simps [simp del]

definition itoa :: "int \<Rightarrow> string" where
  "itoa n = (if n < 0 then CHR ''-'' # nat_digits (nat (- n)) else nat_digits (nat n))"

text \<open>
  \<open>strconv.Atoi\<close>: an optional sign and at least one decimal digit, within 64 bits.
\<close>

definition atoi :: "string \<Rightarrow> int option" where
  "atoi s =
     (let neg = (s \<noteq> [] \<and> hd s = CHR ''-'');
          d = (if s \<noteq> [] \<and> (hd s = CHR ''-'' \<or> hd s = CHR ''+'') then tl s else s)
      in if d = [] \<or> \<not> list_all is_digit d then None
         else let v = int (digits_val d); n = (if neg then - v else v)
              in if - (2 ^ 63) \<le> n \<and> n < 2 ^ 63 then Some n else None)"

lemma digit_val_char_of: "(n :: nat) < 10 \<Longrightarrow> digit_val (char_of (n + 48)) = n"
  by (simp add: digit_val_def)

lemma is_digit_char_of: "(n :: nat) < 10 \<Longrightarrow> is_digit (char_of (n + 48))"
  by (simp add: is_digit_def)

lemma digits_val_snoc [simp]: "digits_val (s @ [c]) = 10 * digits_val s + digit_val c"
  by (simp add: digits_val_def)

lemma digits_val_Nil [simp]: "digits_val [] = 0"
  by (simp add: digits_val_def)

lemma nat_digits_roundtrip: "digits_val (nat_digits n) = n"
proof (induction n rule: nat_digits.induct)
  case (1 n)
  show ?case
  proof (cases "n < 10")
    case True
    then have "digits_val ([] @ [char_of (n + 48)]) = n"
      by (simp only: digits_val_snoc digits_val_Nil digit_val_char_of)
    with True show ?thesis by (simp add: nat_digits.simps [of n])
  next
    case False
    with 1 show ?thesis by (simp add: nat_digits.simps [of n] digit_val_char_of)
  qed
qed

lemma nat_digits_digits: "list_all is_digit (nat_digits n)"
proof (induction n rule: nat_digits.induct)
  case (1 n)
  then show ?case by (auto simp: nat_digits.simps [of n] is_digit_char_of)
qed

lemma nat_digits_not_Nil: "nat_digits n \<noteq> []"
  by (simp add: nat_digits.simps [of n])


subsection \<open>Counted, sweepable Go maps\<close>

text \<open>
  A Go map whose size the code compares with a bound, or whose entries it sweeps, is an
  association list with distinct keys. \<open>tput\<close> overwrites in place, as a map assignment does.
\<close>

type_synonym ('k, 'v) table = "('k \<times> 'v) list"

definition tget :: "('k, 'v) table \<Rightarrow> 'k \<Rightarrow> 'v option" where
  "tget t k = map_of t k"

definition tput :: "'k \<Rightarrow> 'v \<Rightarrow> ('k, 'v) table \<Rightarrow> ('k, 'v) table" where
  "tput k v t = AList.update k v t"

definition tdel :: "'k \<Rightarrow> ('k, 'v) table \<Rightarrow> ('k, 'v) table" where
  "tdel k t = AList.delete k t"

definition tkeep :: "('v \<Rightarrow> bool) \<Rightarrow> ('k, 'v) table \<Rightarrow> ('k, 'v) table" where
  \<comment> \<open>a range loop that deletes what does not satisfy the test\<close>
  "tkeep P t = filter (\<lambda>(k, v). P v) t"

definition tlen :: "('k, 'v) table \<Rightarrow> nat" where
  "tlen t = length t"

definition table_ok :: "('k, 'v) table \<Rightarrow> bool" where
  "table_ok t \<longleftrightarrow> distinct (map fst t)"

lemma tget_empty [table_simps, simp]: "tget [] k = None"
  by (simp add: tget_def)

lemma tget_tput [table_simps, simp]: "tget (tput k v t) k' = (if k' = k then Some v else tget t k')"
  by (simp add: tget_def tput_def update_conv')

lemma tget_tdel [table_simps, simp]: "tget (tdel k t) k' = (if k' = k then None else tget t k')"
  by (simp add: tget_def tdel_def delete_conv')

lemma table_ok_empty [simp]: "table_ok []"
  by (simp add: table_ok_def)

lemma table_ok_tput [inv_intros, simp]: "table_ok t \<Longrightarrow> table_ok (tput k v t)"
  by (simp add: table_ok_def tput_def distinct_update)

lemma table_ok_tdel [inv_intros, simp]: "table_ok t \<Longrightarrow> table_ok (tdel k t)"
  by (simp add: table_ok_def tdel_def distinct_delete)

lemma table_ok_tkeep [inv_intros, simp]: "table_ok t \<Longrightarrow> table_ok (tkeep P t)"
  by (simp add: table_ok_def tkeep_def distinct_map_filter)

lemma tget_tkeep [table_simps]:
  "table_ok t \<Longrightarrow>
   tget (tkeep P t) k = (case tget t k of None \<Rightarrow> None | Some v \<Rightarrow> if P v then Some v else None)"
proof (induction t)
  case (Cons e t)
  then show ?case
    by (cases e) (auto simp: tget_def tkeep_def table_ok_def split: option.splits
        dest!: map_of_SomeD intro: rev_image_eqI)
qed (simp add: tget_def tkeep_def)

lemma tlen_tput_le: "tlen (tput k v t) \<le> Suc (tlen t)"
proof (induction t)
  case (Cons e t)
  then show ?case by (cases e) (simp add: tlen_def tput_def)
qed (simp add: tlen_def tput_def)

lemma tlen_tput_present: "tget t k \<noteq> None \<Longrightarrow> tlen (tput k v t) = tlen t"
proof (induction t)
  case (Cons e t)
  then show ?case by (cases e) (auto simp: tlen_def tput_def tget_def)
qed (simp add: tget_def)

lemma tlen_tput_absent: "tget t k = None \<Longrightarrow> tlen (tput k v t) = Suc (tlen t)"
proof (induction t)
  case (Cons e t)
  then show ?case by (cases e) (auto simp: tlen_def tput_def tget_def split: if_splits)
qed (simp add: tlen_def tput_def tget_def)

lemma tlen_tdel_le: "tlen (tdel k t) \<le> tlen t"
  by (simp add: tlen_def tdel_def length_delete_le)

lemma tlen_tdel_present: "tget t k \<noteq> None \<Longrightarrow> tlen (tdel k t) < tlen t"
proof (induction t)
  case (Cons e t)
  show ?case
  proof (cases "fst e = k")
    case True
    then show ?thesis
      using length_delete_le [of k t] by (cases e) (simp add: tlen_def tdel_def le_imp_less_Suc)
  next
    case False
    with Cons show ?thesis by (cases e) (auto simp: tlen_def tdel_def tget_def)
  qed
qed (simp add: tget_def)

lemma tlen_tkeep_le: "tlen (tkeep P t) \<le> tlen t"
  by (simp add: tlen_def tkeep_def)

text \<open>Counting the entries of a list that one of them leaves or enters.\<close>

lemma filter_length_update:
  "i < length xs \<Longrightarrow>
   length (filter P (xs[i := y])) + of_bool (P (xs ! i)) = length (filter P xs) + of_bool (P y)"
proof (induction xs arbitrary: i)
  case (Cons x xs)
  then show ?case by (cases i) auto
qed simp

subsection \<open>Interfaces\<close>

text \<open>
  A keyed table with a length: what a bounded cache needs to know of its store. The client lemmas
  say that a cache which makes room before it inserts, or refuses when full, never exceeds its
  bound; they are used by every bounded table of the program.
\<close>

locale keyed_table =
  fixes get :: "'t \<Rightarrow> 'k \<Rightarrow> 'v option"
    and put :: "'k \<Rightarrow> 'v \<Rightarrow> 't \<Rightarrow> 't"
    and del :: "'k \<Rightarrow> 't \<Rightarrow> 't"
    and len :: "'t \<Rightarrow> nat"
  assumes get_put: "get (put k v t) k' = (if k' = k then Some v else get t k')"
    and get_del: "get (del k t) k' = (if k' = k then None else get t k')"
    and len_put: "len (put k v t) = (if get t k = None then Suc (len t) else len t)"
    and len_del: "len (del k t) \<le> len t"
    and len_del_present: "get t k \<noteq> None \<Longrightarrow> len (del k t) < len t"
begin

lemma put_bounded: "len t \<le> n \<Longrightarrow> len t < n \<or> get t k \<noteq> None \<Longrightarrow> len (put k v t) \<le> n"
  by (auto simp: len_put)

lemma evict_then_put_bounded:
  "len t \<le> n \<Longrightarrow> get t j \<noteq> None \<Longrightarrow> len (put k v (del j t)) \<le> n"
  using len_del_present [of t j] by (auto simp: len_put)

lemma del_put_same: "get (del k (put k v t)) k' = get (del k t) k'"
  by (simp add: get_put get_del)

end

interpretation alist: keyed_table "tget :: ('k, 'v) table \<Rightarrow> 'k \<Rightarrow> 'v option" tput tdel tlen
  by unfold_locales
    (auto simp: tlen_tput_present tlen_tput_absent tlen_tdel_le intro: tlen_tdel_present)

text \<open>
  A component as a machine: a step function over its operations and an invariant every operation
  keeps. Whatever sequence of operations runs, the invariant holds after it, and a function of the
  state that no operation lowers only grows along a run.
\<close>

locale invariant_machine =
  fixes step :: "'s \<Rightarrow> 'e \<Rightarrow> 's"
    and inv :: "'s \<Rightarrow> bool"
  assumes step_inv: "inv s \<Longrightarrow> inv (step s e)"
begin

lemma run_inv: "inv s \<Longrightarrow> inv (foldl step s es)"
  by (induction es arbitrary: s) (auto intro: step_inv)

lemma run_invariant_of:
  assumes "\<And>s e. inv s \<Longrightarrow> P s \<Longrightarrow> Q e \<Longrightarrow> P (step s e)"
  shows "inv s \<Longrightarrow> P s \<Longrightarrow> list_all Q es \<Longrightarrow> P (foldl step s es)"
  using assms by (induction es arbitrary: s) (auto intro: step_inv)

lemma run_mono:
  fixes f :: "'s \<Rightarrow> 'a::preorder"
  assumes "\<And>s e. inv s \<Longrightarrow> f s \<le> f (step s e)"
  shows "inv s \<Longrightarrow> f s \<le> f (foldl step s es)"
proof (induction es arbitrary: s)
  case (Cons e es)
  then have "f s \<le> f (step s e)" "inv (step s e)" using assms step_inv by auto
  then show ?case using Cons.IH [of "step s e"] order_trans by fastforce
qed simp

end

subsection \<open>Decimal numbers and joined lists are read back\<close>

lemma itoa_inject [simp]: "itoa a = itoa b \<longleftrightarrow> a = b"
proof
  have d: "hd (nat_digits n) \<noteq> CHR ''-''" "nat_digits n \<noteq> CHR ''-'' # xs" for n xs
    using nat_digits_digits [of n] nat_digits_not_Nil [of n] by (cases "nat_digits n"; auto simp: is_digit_def)+
  have i: "nat_digits m = nat_digits n \<longleftrightarrow> m = n" for m n using nat_digits_roundtrip by metis
  assume e: "itoa a = itoa b"
  then have "(a < 0) = (b < 0)" using d(2) [of "nat b"] d(2) [of "nat a"] by (auto simp: itoa_def split: if_splits dest: sym)
  then show "a = b" using e i by (auto simp: itoa_def split: if_splits)
qed simp

lemma itoa_no_comma: "CHR '','' \<notin> set (itoa n)"
proof -
  have "CHR '','' \<notin> set (nat_digits k)" for k using nat_digits_digits [of k] by (auto simp: list_all_iff is_digit_def)
  then show ?thesis by (simp add: itoa_def)
qed

lemma split_join: "xs \<noteq> [] \<Longrightarrow> \<forall>x \<in> set xs. c \<notin> set x \<Longrightarrow> split_on c (join_with c xs) = xs"
proof (induction c xs rule: join_with.induct)
  case (2 c x)
  then show ?case by (simp add: split_on_id)
next
  case (3 c x y ys)
  then show ?case by (simp add: split_on_append)
qed simp

lemma join_empty: "\<forall>x \<in> set xs. x \<noteq> [] \<Longrightarrow> join_with c xs = [] \<Longrightarrow> xs = []"
  by (induction c xs rule: join_with.induct) auto

lemma join_inject:
  assumes "\<forall>x \<in> set xs \<union> set ys. x \<noteq> [] \<and> c \<notin> set x" "join_with c xs = join_with c ys"
  shows "xs = ys"
proof (cases "xs = [] \<or> ys = []")
  case True
  have "join_with c xs = [] \<Longrightarrow> xs = []" "join_with c ys = [] \<Longrightarrow> ys = []" using join_empty [of xs c] join_empty [of ys c] assms(1) by blast+
  then show ?thesis using True assms(2) by (cases "xs = []") simp_all
next
  case False
  have "split_on c (join_with c xs) = xs" "split_on c (join_with c ys) = ys" using False assms(1) by (auto intro: split_join)
  then show ?thesis unfolding assms(2) by (rule trans [OF sym])
qed

lemma itoa_not_Nil: "itoa n \<noteq> []"
  by (simp add: itoa_def nat_digits_not_Nil)

subsection \<open>64-bit sums\<close>

text \<open>An \<open>int64\<close> sum kept as an integer: every addition wraps.\<close>

definition wrap64 :: "int \<Rightarrow> int" where
  "wrap64 n = signed_take_bit 63 n"

definition add_int64 :: "int list \<Rightarrow> int" where
  "add_int64 ns = foldl (\<lambda>a n. wrap64 (a + n)) 0 ns"

lemma wrap64_small: "- (2 ^ 63) \<le> n \<Longrightarrow> n < 2 ^ 63 \<Longrightarrow> wrap64 n = n"
  unfolding wrap64_def by (rule signed_take_bit_int_eq_self) simp_all

end
