(* ===== verification/Fsx_Path.thy ===== *)
theory Fsx_Path
  imports Prelude
begin

section \<open>API paths (internal/fsx/path.go)\<close>

text \<open>
  \<open>Clean\<close>, \<open>ValidName\<close>, \<open>Join\<close>, \<open>Parent\<close>, \<open>Base\<close> and \<open>IsWithin\<close>, over a model of the Go
  standard library's lexical \<open>path.Clean\<close>, \<open>path.Dir\<close>, \<open>path.Base\<close> and \<open>path.Join\<close>. A clean path
  is the rendering of a list of components; \<open>IsWithin\<close> is then exactly the prefix order on
  component lists, which is the interface \<open>path_order\<close> the guard and the mount table rely on.
\<close>

text \<open>The sentinels of errors.go that the daemon refuses with on its own.\<close>

datatype sentinel =
    ErrNotAbsolute | ErrBadName | ErrOutsideRoot | ErrProtected | ErrReadOnly | ErrRAMDisk
  | ErrCrossDevice | ErrNoSpace | ErrConfirmRequired | ErrUnsupported | ErrWorkerGone
  | ErrQueueFull | ErrOwnerUnset | ErrTooLarge | ErrChanged | ErrInvalidTarget

subsection \<open>The standard library's path package\<close>

text \<open>
  One component of \<open>path.Clean\<close>, over the components kept so far, innermost first. A leading
  \<open>..\<close> is kept on a relative path and dropped at the root.
\<close>

definition clean_step :: "bool \<Rightarrow> string list \<Rightarrow> string \<Rightarrow> string list" where
  "clean_step rooted out el =
     (if el = [] \<or> el = ''.'' then out
      else if el = ''..'' then
        (case out of
           [] \<Rightarrow> if rooted then [] else [el]
         | x # xs \<Rightarrow> if x = ''..'' then el # out else xs)
      else el # out)"

definition render :: "string list \<Rightarrow> string" where
  "render cs = (if cs = [] then ''/'' else prefixed_by CHR ''/'' cs)"

definition path_clean :: "string \<Rightarrow> string" where
  "path_clean p =
     (if p = [] then ''.''
      else let rooted = has_prefix p ''/'';
               out = rev (foldl (clean_step rooted) [] (split_on CHR ''/'' p))
           in if rooted then render out
              else if out = [] then ''.'' else join_with CHR ''/'' out)"

definition path_dir :: "string \<Rightarrow> string" where
  "path_dir p = path_clean (rev (dropWhile (\<lambda>c. c \<noteq> CHR ''/'') (rev p)))"

definition path_base :: "string \<Rightarrow> string" where
  "path_base p =
     (if p = [] then ''.''
      else let q = trim_right_char CHR ''/'' p;
               b = rev (takeWhile (\<lambda>c. c \<noteq> CHR ''/'') (rev q))
           in if b = [] then ''/'' else b)"

definition path_join :: "string list \<Rightarrow> string" where
  "path_join es =
     (let ne = filter (\<lambda>e. e \<noteq> []) es
      in if ne = [] then [] else path_clean (join_with CHR ''/'' ne))"

subsection \<open>path.go\<close>

fun clean_loop :: "string list \<Rightarrow> string \<Rightarrow> sentinel + string" where
  "clean_loop [] b = (if b = [] then Inr ''/'' else Inr b)"
| "clean_loop (el # els) b =
     (if el = [] then clean_loop els b
      else if el = ''.'' \<or> el = ''..'' then Inl ErrBadName
      else clean_loop els (b @ CHR ''/'' # el))"

definition Clean :: "string \<Rightarrow> sentinel + string" where
  "Clean p =
     (if p = [] then Inl ErrNotAbsolute
      else if CHR 0x00 \<in> set p then Inl ErrBadName
      else if has_prefix p ''//'' then Inl ErrBadName
      else if \<not> has_prefix p ''/'' then Inl ErrNotAbsolute
      else clean_loop (split_on CHR ''/'' p) [])"

definition Join :: "string \<Rightarrow> string list \<Rightarrow> string" where
  "Join base elem = path_join (base # elem)"

definition Parent :: "string \<Rightarrow> string" where
  "Parent p = path_dir p"

definition Base :: "string \<Rightarrow> string" where
  "Base p = path_base p"

definition ValidName :: "string \<Rightarrow> sentinel option" where
  "ValidName name =
     (if name = [] then Some ErrBadName
      else if name = ''.'' \<or> name = ''..'' then Some ErrBadName
      else if CHR ''/'' \<in> set name then Some ErrBadName
      else if CHR 0x00 \<in> set name then Some ErrBadName
      else None)"

definition IsWithin :: "string \<Rightarrow> string \<Rightarrow> bool" where
  "IsWithin p pre =
     (let p = path_clean p; pre = path_clean pre
      in if pre = ''/'' then has_prefix p ''/''
         else if p = pre then True
         else has_prefix p (pre @ ''/''))"

subsection \<open>Components and clean paths\<close>

definition comps :: "string \<Rightarrow> string list" where
  "comps p = filter (\<lambda>c. c \<noteq> []) (split_on CHR ''/'' p)"

definition valid_comp :: "string \<Rightarrow> bool" where
  "valid_comp c \<longleftrightarrow> ValidName c = None"

definition clean_path :: "string \<Rightarrow> bool" where
  "clean_path p \<longleftrightarrow> Clean p = Inr p"

lemma valid_comp_iff:
  "valid_comp c \<longleftrightarrow>
   c \<noteq> [] \<and> c \<noteq> ''.'' \<and> c \<noteq> ''..'' \<and> CHR ''/'' \<notin> set c \<and> CHR 0x00 \<notin> set c"
  by (auto simp: valid_comp_def ValidName_def)

definition slashed :: "string list \<Rightarrow> string" where
  "slashed els = prefixed_by CHR ''/'' (filter (\<lambda>c. c \<noteq> []) els)"

lemma slashed_simps [simp]:
  "slashed [] = []"
  "slashed ([] # els) = slashed els"
  "el \<noteq> [] \<Longrightarrow> slashed (el # els) = CHR ''/'' # el @ slashed els"
  by (simp_all add: slashed_def prefixed_by_def)

lemma clean_loop_ok:
  "clean_loop els b = Inr q \<longleftrightarrow>
   (\<forall>el \<in> set els. el \<noteq> ''.'' \<and> el \<noteq> ''..'') \<and>
   q = (if b @ slashed els = [] then ''/'' else b @ slashed els)"
proof (induction els b rule: clean_loop.induct)
  case (1 b)
  then show ?case by auto
next
  case (2 el els b)
  show ?case
  proof (cases "el = [] \<or> el = ''.'' \<or> el = ''..''")
    case True
    with 2(1) show ?thesis by (elim disjE) simp_all
  next
    case False
    with 2(2) show ?thesis by simp
  qed
qed

lemma clean_loop_err: "clean_loop els b = Inl e \<Longrightarrow> e = ErrBadName"
  by (induction els b rule: clean_loop.induct) (auto split: if_splits)

lemma split_on_render:
  assumes "\<And>c. c \<in> set cs \<Longrightarrow> valid_comp c"
  shows "split_on CHR ''/'' (render cs) = (if cs = [] then [[], []] else [] # cs)"
  using assms split_on_prefixed_by [of cs "CHR ''/''"] by (auto simp: render_def valid_comp_iff)

lemma comps_render:
  assumes "\<And>c. c \<in> set cs \<Longrightarrow> valid_comp c"
  shows "comps (render cs) = cs"
proof -
  from assms have "filter (\<lambda>c. c \<noteq> []) cs = cs" by (auto simp: filter_id_conv valid_comp_iff)
  then show ?thesis by (simp add: comps_def split_on_render [OF assms])
qed

lemma set_split_on: "x \<in> set (split_on c s) \<Longrightarrow> set x \<subseteq> set s"
proof (induction s arbitrary: x)
  case (Cons a s)
  then show ?case by (cases "split_on c s") (fastforce split: if_splits)+
qed simp

text \<open>What \<open>Clean\<close> accepts and what it returns: the rendering of the path's components.\<close>

lemma Clean_ok:
  "Clean p = Inr q \<longleftrightarrow>
   CHR 0x00 \<notin> set p \<and> has_prefix p ''/'' \<and> \<not> has_prefix p ''//'' \<and>
   (\<forall>el \<in> set (split_on CHR ''/'' p). el \<noteq> ''.'' \<and> el \<noteq> ''..'') \<and> q = render (comps p)"
proof -
  have "slashed (split_on CHR ''/'' p) = prefixed_by CHR ''/'' (comps p)"
    by (simp add: slashed_def comps_def)
  then show ?thesis
    by (cases "p = []"; cases "comps p = []") (auto simp: Clean_def clean_loop_ok render_def)
qed

lemma Clean_comps_valid:
  assumes "Clean p = Inr q" "c \<in> set (comps p)"
  shows "valid_comp c"
proof -
  from assms(2) have c: "c \<in> set (split_on CHR ''/'' p)" "c \<noteq> []" by (auto simp: comps_def)
  then have "CHR ''/'' \<notin> set c" "set c \<subseteq> set p" by (auto dest: split_on_no_sep set_split_on)
  with assms(1) c show ?thesis by (auto simp: Clean_ok valid_comp_iff)
qed

lemma has_prefix_render: "has_prefix (render cs) ''/''"
  by (cases cs) (auto simp: render_def prefixed_by_def)

lemma has_prefix_render2:
  assumes "\<And>c. c \<in> set cs \<Longrightarrow> valid_comp c"
  shows "\<not> has_prefix (render cs) ''//''"
proof (cases cs)
  case (Cons c cs')
  with assms have "c \<noteq> []" "CHR ''/'' \<notin> set c" by (auto simp: valid_comp_iff)
  with Cons show ?thesis by (cases c) (auto simp: render_def prefixed_by_def)
qed (simp add: render_def)

lemma set_render: "set (render cs) \<subseteq> {CHR ''/''} \<union> \<Union> (set ` set cs)"
  by (auto simp: render_def prefixed_by_def split: if_splits)

lemma Clean_render:
  assumes "\<And>c. c \<in> set cs \<Longrightarrow> valid_comp c"
  shows "Clean (render cs) = Inr (render cs)"
proof -
  have "CHR 0x00 \<notin> set (render cs)"
    using set_render [of cs] assms by (fastforce simp: valid_comp_iff)
  moreover have "\<forall>el \<in> set (split_on CHR ''/'' (render cs)). el \<noteq> ''.'' \<and> el \<noteq> ''..''"
    using assms by (auto simp: split_on_render valid_comp_iff)
  ultimately show ?thesis
    using assms by (simp add: Clean_ok has_prefix_render has_prefix_render2 comps_render)
qed

lemma clean_path_iff: "clean_path p \<longleftrightarrow> (\<exists>cs. (\<forall>c \<in> set cs. valid_comp c) \<and> p = render cs)"
proof
  assume "clean_path p"
  then have "Clean p = Inr p" by (simp add: clean_path_def)
  then have "p = render (comps p)" "\<forall>c \<in> set (comps p). valid_comp c"
    by (simp add: Clean_ok, blast dest: Clean_comps_valid)
  then show "\<exists>cs. (\<forall>c \<in> set cs. valid_comp c) \<and> p = render cs" by blast
next
  assume "\<exists>cs. (\<forall>c \<in> set cs. valid_comp c) \<and> p = render cs"
  then show "clean_path p" by (auto simp: clean_path_def Clean_render)
qed

lemma clean_pathE:
  assumes "clean_path p"
  obtains "p = render (comps p)" "\<And>c. c \<in> set (comps p) \<Longrightarrow> valid_comp c"
  using assms by (auto simp: clean_path_iff comps_render)

lemma Clean_clean_path: "Clean p = Inr q \<Longrightarrow> clean_path q"
  using Clean_comps_valid by (auto simp: clean_path_iff Clean_ok)

lemma clean_path_comps_inject: "clean_path p \<Longrightarrow> clean_path q \<Longrightarrow> comps p = comps q \<Longrightarrow> p = q"
  by (metis clean_pathE)

subsection \<open>path.Clean leaves a clean path alone\<close>

lemma foldl_clean_step:
  "(\<And>c. c \<in> set cs \<Longrightarrow> valid_comp c) \<Longrightarrow> foldl (clean_step r) out cs = rev cs @ out"
proof (induction cs arbitrary: out)
  case (Cons c cs)
  then have "clean_step r out c = c # out" by (simp add: clean_step_def valid_comp_iff)
  with Cons show ?case by simp
qed simp

lemma path_clean_render:
  assumes "\<And>c. c \<in> set cs \<Longrightarrow> valid_comp c"
  shows "path_clean (render cs) = render cs"
proof -
  have "foldl (clean_step True) [] (split_on CHR ''/'' (render cs)) = rev cs"
    using assms foldl_clean_step [of cs True "[]"]
    by (simp add: split_on_render) (simp add: clean_step_def)
  moreover have "render cs \<noteq> []" by (simp add: render_def)
  ultimately show ?thesis by (simp add: path_clean_def has_prefix_render)
qed

lemma path_clean_id: "clean_path p \<Longrightarrow> path_clean p = p"
  by (auto simp: clean_path_iff path_clean_render)

text \<open>Containment on clean paths is the prefix order of the component lists.\<close>

lemma prefix_prefixed_by:
  assumes "\<And>c. c \<in> set xs \<union> set ys \<Longrightarrow> CHR ''/'' \<notin> set c"
  shows "prefixed_by CHR ''/'' xs = prefixed_by CHR ''/'' ys \<or>
         prefix (prefixed_by CHR ''/'' ys @ ''/'') (prefixed_by CHR ''/'' xs)
         \<longleftrightarrow> prefix ys xs"
proof
  assume A: "prefixed_by CHR ''/'' xs = prefixed_by CHR ''/'' ys \<or>
    prefix (prefixed_by CHR ''/'' ys @ ''/'') (prefixed_by CHR ''/'' xs)"
  then show "prefix ys xs"
  proof
    assume "prefixed_by CHR ''/'' xs = prefixed_by CHR ''/'' ys"
    with assms have "ys = xs" by (intro prefixed_by_inject) auto
    then show ?thesis by simp
  next
    assume "prefix (prefixed_by CHR ''/'' ys @ ''/'') (prefixed_by CHR ''/'' xs)"
    then obtain t where t: "prefixed_by CHR ''/'' xs = prefixed_by CHR ''/'' ys @ CHR ''/'' # t"
      by (auto simp: prefix_def)
    have "CHR ''/'' # t = prefixed_by CHR ''/'' (split_on CHR ''/'' t)"
      by (induction t) (auto simp: prefixed_by_def split: list.splits)
    with t have eq: "prefixed_by CHR ''/'' xs = prefixed_by CHR ''/'' (ys @ split_on CHR ''/'' t)"
      by simp
    have "xs = ys @ split_on CHR ''/'' t"
      using assms eq by (intro prefixed_by_inject) (auto dest: split_on_no_sep)
    then show ?thesis by simp
  qed
next
  assume "prefix ys xs"
  then obtain zs where "xs = ys @ zs" by (auto simp: prefix_def)
  then show "prefixed_by CHR ''/'' xs = prefixed_by CHR ''/'' ys \<or>
    prefix (prefixed_by CHR ''/'' ys @ ''/'') (prefixed_by CHR ''/'' xs)"
    by (cases zs) (auto simp: prefixed_by_def)
qed

lemma render_root_iff:
  "(\<And>c. c \<in> set cs \<Longrightarrow> valid_comp c) \<Longrightarrow> render cs = ''/'' \<longleftrightarrow> cs = []"
  by (cases cs) (auto simp: render_def prefixed_by_def valid_comp_iff)

lemma IsWithin_comps:
  assumes "clean_path p" and "clean_path q"
  shows "IsWithin p q \<longleftrightarrow> prefix (comps q) (comps p)"
proof -
  from assms obtain ps qs where ps: "p = render ps" "\<forall>c \<in> set ps. valid_comp c"
    and qs: "q = render qs" "\<forall>c \<in> set qs. valid_comp c"
    by (auto simp: clean_path_iff)
  then have cp: "comps p = ps" "comps q = qs" by (simp_all add: comps_render)
  show ?thesis
  proof (cases "qs = []")
    case True
    then have "path_clean q = ''/''" using qs path_clean_render [of "[]"] by (simp add: render_def)
    with True ps show ?thesis
      by (simp add: IsWithin_def path_clean_render has_prefix_render cp)
  next
    case False
    then have "render qs \<noteq> ''/''" using qs by (simp add: render_root_iff)
    then have W: "IsWithin p q \<longleftrightarrow> render ps = render qs \<or> prefix (render qs @ ''/'') (render ps)"
      using ps qs by (simp add: IsWithin_def Let_def path_clean_render has_prefix_iff)
    show ?thesis
    proof (cases "ps = []")
      case True
      then have "render ps = ''/''" by (simp add: render_def)
      moreover have "prefix (render qs @ ''/'') ''/'' \<Longrightarrow> render qs = []"
        by (auto dest: prefix_length_le)
      moreover have "render qs \<noteq> []" by (simp add: render_def)
      ultimately have "\<not> IsWithin p q" using W \<open>render qs \<noteq> ''/''\<close> by auto
      with True False show ?thesis by (simp add: cp)
    next
      case ps': False
      have "\<And>c. c \<in> set ps \<union> set qs \<Longrightarrow> CHR ''/'' \<notin> set c"
        using ps qs by (auto simp: valid_comp_iff)
      note pp = prefix_prefixed_by [OF this]
      have R: "render ps = prefixed_by CHR ''/'' ps" "render qs = prefixed_by CHR ''/'' qs"
        using False ps' by (simp_all add: render_def)
      show ?thesis unfolding W cp R by (rule pp)
    qed
  qed
qed


subsection \<open>The containment interface\<close>

text \<open>
  What the users of path containment rely on: it is a partial order on well-formed paths, and the
  paths that contain a given one form a chain. The guard's rule table and the mount table's
  longest-prefix lookup are both built on exactly this.
\<close>

locale path_order =
  fixes within :: "'p \<Rightarrow> 'p \<Rightarrow> bool"
    and ok :: "'p \<Rightarrow> bool"
    and depth :: "'p \<Rightarrow> nat"
  assumes within_refl: "ok p \<Longrightarrow> within p p"
    and within_trans: "ok p \<Longrightarrow> ok q \<Longrightarrow> ok r \<Longrightarrow> within p q \<Longrightarrow> within q r \<Longrightarrow> within p r"
    and within_depth: "ok p \<Longrightarrow> ok q \<Longrightarrow> within p q \<Longrightarrow> depth q \<le> depth p"
    and within_chain: "ok p \<Longrightarrow> ok q \<Longrightarrow> ok r \<Longrightarrow> within p q \<Longrightarrow> within p r \<Longrightarrow>
      depth q \<le> depth r \<Longrightarrow> within r q"
    and within_same_depth: "ok p \<Longrightarrow> ok q \<Longrightarrow> within p q \<Longrightarrow> depth p \<le> depth q \<Longrightarrow> p = q"
begin

lemma within_antisym: "ok p \<Longrightarrow> ok q \<Longrightarrow> within p q \<Longrightarrow> within q p \<Longrightarrow> p = q"
  using within_depth within_same_depth by blast

text \<open>Two containers of one path at the same depth are the same container.\<close>

lemma container_unique:
  "ok p \<Longrightarrow> ok q \<Longrightarrow> ok r \<Longrightarrow> within p q \<Longrightarrow> within p r \<Longrightarrow> depth q = depth r \<Longrightarrow> q = r"
  using within_chain within_same_depth by (metis order_refl)

text \<open>Proper containment never runs both ways, and carries over to everything inside.\<close>

lemma proper_asym: "ok p \<Longrightarrow> ok q \<Longrightarrow> p \<noteq> q \<Longrightarrow> within p q \<Longrightarrow> \<not> within q p"
  using within_antisym by blast

lemma proper_trans:
  "ok p \<Longrightarrow> ok q \<Longrightarrow> ok r \<Longrightarrow> within p q \<Longrightarrow> within q r \<Longrightarrow> q \<noteq> r \<Longrightarrow> p \<noteq> r"
  using within_antisym by blast

end

interpretation api: path_order IsWithin clean_path "\<lambda>p. length (comps p)"
proof unfold_locales
  fix p q r :: string
  assume "clean_path p" "clean_path q" "clean_path r"
    "IsWithin p q" "IsWithin p r" "length (comps q) \<le> length (comps r)"
  then show "IsWithin r q" by (auto simp: IsWithin_comps intro: prefix_length_prefix)
next
  fix p q :: string
  assume "clean_path p" "clean_path q" "IsWithin p q" "length (comps p) \<le> length (comps q)"
  then show "p = q"
    by (intro clean_path_comps_inject) (auto simp: IsWithin_comps prefix_def)
qed (auto simp: IsWithin_comps prefix_length_le intro: prefix_order.trans)

subsection \<open>Properties\<close>

text \<open>
  What Clean accepts and returns. It returns a path exactly when its argument is absolute,
  holds no NUL, does not start with two slashes and has no "." or ".." component; the result is
  then the argument's non-empty components, each after one slash ("/" when there are none).
\<close>

theorem Clean_characterised:
  "Clean p = Inr q \<longleftrightarrow>
   CHR 0x00 \<notin> set p \<and> has_prefix p ''/'' \<and> \<not> has_prefix p ''//'' \<and>
   list_all (\<lambda>el. el \<noteq> ''.'' \<and> el \<noteq> ''..'') (split_on CHR ''/'' p) \<and> q = render (comps p)"
  by (simp add: Clean_ok list_all_iff)

text \<open>
  Clean is canonical: its result is a fixed point of Clean, the standard library's lexical
  path.Clean leaves it alone, and its components are all names ValidName accepts.
\<close>

theorem Clean_canonical:
  assumes "Clean p = Inr q"
  shows "Clean q = Inr q \<and> path_clean q = q \<and> list_all (\<lambda>c. ValidName c = None) (comps q)"
proof -
  from assms have q: "clean_path q" by (rule Clean_clean_path)
  then have "Clean q = Inr q" by (simp add: clean_path_def)
  then have "list_all valid_comp (comps q)" by (auto simp: list_all_iff dest: Clean_comps_valid)
  with q \<open>Clean q = Inr q\<close> show ?thesis
    by (simp add: path_clean_id valid_comp_def [abs_def])
qed

theorem Clean_canonical_witness:
  "Clean ''/share//Public/'' = Inr ''/share/Public'' \<and>
   Clean ''/share/Public'' = Inr ''/share/Public'' \<and> path_clean ''/share/Public'' = ''/share/Public''"
proof -
  have h: "Clean ''/share//Public/'' = Inr ''/share/Public''" by code_simp
  show ?thesis using h Clean_canonical [OF h] by simp
qed

text \<open>
  IsWithin compares whole path elements: on clean paths it holds exactly when the second
  path's component list is a prefix of the first's, so a sibling sharing a textual prefix is never
  within.
\<close>

theorem IsWithin_whole_elements:
  assumes "Clean p = Inr p" and "Clean q = Inr q"
  shows "IsWithin p q \<longleftrightarrow> prefix (comps q) (comps p)"
  using assms by (intro IsWithin_comps) (simp_all add: clean_path_def)

theorem IsWithin_whole_elements_witness:
  "\<not> IsWithin ''/etc/configuration'' ''/etc/config'' \<and> IsWithin ''/etc/config/x'' ''/etc/config''"
proof -
  have a: "Clean ''/etc/configuration'' = Inr ''/etc/configuration''" by code_simp
  have b: "Clean ''/etc/config'' = Inr ''/etc/config''" by code_simp
  have c: "Clean ''/etc/config/x'' = Inr ''/etc/config/x''" by code_simp
  have "comps ''/etc/configuration'' = [''etc'', ''configuration'']"
    "comps ''/etc/config'' = [''etc'', ''config'']" "comps ''/etc/config/x'' = [''etc'', ''config'', ''x'']"
    by code_simp+
  then show ?thesis
    using IsWithin_whole_elements [OF a b] IsWithin_whole_elements [OF c b] by simp
qed

end
