(* ===== verification/Fsx_Errors.thy ===== *)
theory Fsx_Errors
  imports Fsx_Path
begin

section \<open>The error vocabulary (internal/fsx/errors.go, workerpool/client.go, web/jsonhttp.go)\<close>

text \<open>
  An error value is the list of the values its chain of \<open>Unwrap\<close> calls reaches: sentinels of the
  program, the standard library's own, raw errno numbers, and anything else. \<open>errors.Is\<close> asks
  whether some value of the chain is, or by \<open>syscall.Errno.Is\<close> stands for, the target. The same
  code vocabulary crosses three places: the worker names an error (\<open>Code\<close>), the front end
  rebuilds one from the name (\<open>Unwrap\<close>) and the HTTP layer gives it a status (\<open>statusCode\<close>).
\<close>

datatype err_value =
    Own sentinel
  | FsNotExist | FsExist | FsPermission
  | CtxCanceled | CtxDeadline
  | Sys nat
  | Opaque string

type_synonym error = "err_value list"

text \<open>Linux errno numbers.\<close>

definition EPERM :: nat where "EPERM = 1"
definition ENOENT :: nat where "ENOENT = 2"
definition EACCES :: nat where "EACCES = 13"
definition EBUSY :: nat where "EBUSY = 16"
definition EEXIST :: nat where "EEXIST = 17"
definition EXDEV :: nat where "EXDEV = 18"
definition ENOSPC :: nat where "ENOSPC = 28"
definition EROFS :: nat where "EROFS = 30"
definition ENAMETOOLONG :: nat where "ENAMETOOLONG = 36"
definition ENOTEMPTY :: nat where "ENOTEMPTY = 39"
definition ELOOP :: nat where "ELOOP = 40"
definition EDQUOT :: nat where "EDQUOT = 122"

lemmas errno_defs = EPERM_def ENOENT_def EACCES_def EBUSY_def EEXIST_def EXDEV_def ENOSPC_def
  EROFS_def ENAMETOOLONG_def ENOTEMPTY_def ELOOP_def EDQUOT_def

text \<open>\<open>syscall.Errno.Is\<close> on Linux: which errno numbers stand for which \<open>io/fs\<close> error.\<close>

fun leaf_is :: "err_value \<Rightarrow> err_value \<Rightarrow> bool" where
  "leaf_is (Sys n) FsPermission = (n = EACCES \<or> n = EPERM)"
| "leaf_is (Sys n) FsExist = (n = EEXIST \<or> n = ENOTEMPTY)"
| "leaf_is (Sys n) FsNotExist = (n = ENOENT)"
| "leaf_is x y = (x = y)"

definition errors_is :: "error \<Rightarrow> err_value \<Rightarrow> bool" where
  "errors_is e target = list_ex (\<lambda>x. leaf_is x target) e"

subsection \<open>errors.go\<close>

definition Code :: "error option \<Rightarrow> string" where
  "Code err =
     (case err of
        None \<Rightarrow> ''''
      | Some e \<Rightarrow>
          if errors_is e (Own ErrProtected) then ''protected''
          else if errors_is e (Own ErrReadOnly) then ''readonly''
          else if errors_is e (Own ErrRAMDisk) then ''ramdisk''
          else if errors_is e (Own ErrConfirmRequired) then ''confirm_required''
          else if errors_is e (Own ErrQueueFull) then ''queue_full''
          else if errors_is e (Own ErrOwnerUnset) then ''owner_unset''
          else if errors_is e (Own ErrInvalidTarget) then ''invalid_target''
          else if errors_is e (Own ErrChanged) then ''changed''
          else if errors_is e (Own ErrTooLarge) then ''too_large''
          else if errors_is e (Own ErrUnsupported) then ''unsupported''
          else if errors_is e (Own ErrCrossDevice) then ''cross_device''
          else if errors_is e (Own ErrNoSpace) then ''no_space''
          else if errors_is e (Own ErrNotAbsolute) \<or> errors_is e (Own ErrBadName)
                  \<or> errors_is e (Own ErrOutsideRoot) then ''bad_request''
          else if errors_is e (Own ErrWorkerGone) then ''worker_gone''
          else if errors_is e CtxCanceled then ''cancelled''
          else if errors_is e FsNotExist then ''not_found''
          else if errors_is e (Sys ENOTEMPTY) then ''not_empty''
          else if errors_is e FsExist then ''exists''
          else if errors_is e (Sys EXDEV) then ''cross_device''
          else if errors_is e (Sys ENOSPC) then ''no_space''
          else if errors_is e (Sys EDQUOT) then ''no_space''
          else if errors_is e (Sys EROFS) then ''readonly''
          else if errors_is e (Sys ELOOP) then ''bad_request''
          else if errors_is e (Sys ENAMETOOLONG) then ''bad_request''
          else if errors_is e (Sys EBUSY) then ''conflict''
          else if errors_is e FsPermission then ''permission''
          else ''internal'')"

definition WorkerCodes :: "string list" where
  "WorkerCodes =
     [''bad_request'', ''cancelled'', ''changed'', ''conflict'', ''cross_device'', ''exists'',
      ''invalid_target'', ''no_space'', ''not_empty'', ''not_found'', ''owner_unset'',
      ''permission'', ''protected'', ''queue_full'', ''readonly'', ''too_large'',
      ''unsupported'', ''worker_gone'']"

text \<open>\<open>Errno\<close>: the first errno of the chain, 0 when there is none.\<close>

fun Errno :: "error \<Rightarrow> nat" where
  "Errno [] = 0"
| "Errno (Sys n # e) = n"
| "Errno (x # e) = Errno e"

subsection \<open>RemoteError (workerpool/client.go)\<close>

text \<open>The sentinel a code name is turned back into, if any.\<close>

definition remote_unwrap :: "string \<Rightarrow> err_value option" where
  "remote_unwrap code =
     (if code = ''not_found'' then Some FsNotExist
      else if code = ''permission'' then Some FsPermission
      else if code = ''exists'' then Some FsExist
      else if code = ''not_empty'' then Some (Sys ENOTEMPTY)
      else if code = ''conflict'' then Some (Sys EBUSY)
      else if code = ''bad_request'' then Some (Own ErrBadName)
      else if code = ''protected'' then Some (Own ErrProtected)
      else if code = ''readonly'' then Some (Own ErrReadOnly)
      else if code = ''ramdisk'' then Some (Own ErrRAMDisk)
      else if code = ''cross_device'' then Some (Own ErrCrossDevice)
      else if code = ''no_space'' then Some (Own ErrNoSpace)
      else if code = ''unsupported'' then Some (Own ErrUnsupported)
      else if code = ''confirm_required'' then Some (Own ErrConfirmRequired)
      else if code = ''queue_full'' then Some (Own ErrQueueFull)
      else if code = ''owner_unset'' then Some (Own ErrOwnerUnset)
      else if code = ''too_large'' then Some (Own ErrTooLarge)
      else if code = ''changed'' then Some (Own ErrChanged)
      else if code = ''invalid_target'' then Some (Own ErrInvalidTarget)
      else if code = ''worker_gone'' then Some (Own ErrWorkerGone)
      else if code = ''cancelled'' then Some CtxCanceled
      else None)"

text \<open>The chain of the error the front end sees: the RemoteError itself, then its sentinel.\<close>

definition remote_error :: "string \<Rightarrow> string \<Rightarrow> error" where
  "remote_error code msg =
     Opaque msg # (case remote_unwrap code of None \<Rightarrow> [] | Some v \<Rightarrow> [v])"

subsection \<open>statusCode (web/jsonhttp.go)\<close>

definition statusCode :: "string \<Rightarrow> nat" where
  "statusCode code =
     (if code = ''bad_request'' \<or> code = ''ramdisk'' then 400
      else if code = ''unauthorized'' then 401
      else if code = ''auth_failed'' then 401
      else if code = ''locked_out'' then 429
      else if code = ''permission'' \<or> code = ''protected'' \<or> code = ''readonly'' \<or> code = ''read_only'' then 403
      else if code = ''not_found'' then 404
      else if code = ''exists'' \<or> code = ''not_empty'' \<or> code = ''cross_device'' \<or> code = ''conflict'' then 409
      else if code = ''invalid_target'' \<or> code = ''changed'' then 409
      else if code = ''owner_unset'' then 409
      else if code = ''no_trash'' then 409
      else if code = ''too_large'' then 413
      else if code = ''unsupported'' then 415
      else if code = ''queue_full'' then 429
      else if code = ''worker_gone'' then 503
      else if code = ''no_space'' then 507
      else if code = ''confirm_required'' then 428
      else if code = ''cancelled'' then 408
      else if code = ''audit_unavailable'' then 500
      else 500)"

subsection \<open>Lemmas\<close>

lemma errors_is_Own: "errors_is e (Own s) \<longleftrightarrow> Own s \<in> set e"
proof -
  have "leaf_is x (Own s) \<longleftrightarrow> x = Own s" for x by (cases x) auto
  then show ?thesis by (auto simp: errors_is_def list_ex_iff)
qed

lemma errors_is_Sys: "errors_is e (Sys n) \<longleftrightarrow> Sys n \<in> set e"
proof -
  have "leaf_is x (Sys n) \<longleftrightarrow> x = Sys n" for x by (cases x) auto
  then show ?thesis by (auto simp: errors_is_def list_ex_iff)
qed

definition all_codes :: "string list" where
  "all_codes = WorkerCodes @ [''ramdisk'', ''confirm_required'', ''internal'']"

text \<open>Every branch of \<open>Code\<close> names a code of the vocabulary.\<close>

lemma Code_in_all: "Code (Some e) \<in> set all_codes"
  unfolding Code_def option.case all_codes_def WorkerCodes_def by (simp split: if_split)

lemma remote_roundtrip_codes: "list_all (\<lambda>c. Code (Some (remote_error c msg)) = c) all_codes"
  by (simp add: all_codes_def WorkerCodes_def remote_error_def remote_unwrap_def Code_def
      errors_is_def errno_defs)

subsection \<open>Properties\<close>

text \<open>
  The error vocabulary survives the socket: whatever error a worker hit, naming it (Code),
  rebuilding an error from the name on the front end (Unwrap) and naming that again gives the same
  code, so the front end never reports a worker's error under another code.
\<close>

theorem code_roundtrip: "Code (Some (remote_error (Code (Some e)) msg)) = Code (Some e)"
  using Code_in_all [of e] remote_roundtrip_codes [of msg] by (simp add: list_all_iff)

text \<open>
  Every code a worker can put on the wire has a deliberate HTTP status: each of WorkerCodes
  round-trips through Unwrap and Code, and none of them is answered with 500.
\<close>

theorem worker_codes_covered:
  "list_all (\<lambda>c. Code (Some (remote_error c msg)) = c \<and> statusCode c \<noteq> 500) WorkerCodes"
  using remote_roundtrip_codes [of msg]
  by (simp add: all_codes_def WorkerCodes_def statusCode_def)

text \<open>
  The daemon's own refusal wins over the kernel error it wraps: an error whose chain holds
  ErrProtected is "protected", one that holds ErrReadOnly and not ErrProtected is "readonly",
  whatever else the chain holds; and a full directory (ENOTEMPTY) is never reported as "exists".
\<close>

theorem own_refusal_wins:
  "(Own ErrProtected \<in> set e \<longrightarrow> Code (Some e) = ''protected'') \<and>
   (Own ErrReadOnly \<in> set e \<and> Own ErrProtected \<notin> set e \<longrightarrow> Code (Some e) = ''readonly'') \<and>
   (Sys ENOTEMPTY \<in> set e \<longrightarrow> Code (Some e) \<noteq> ''exists'')"
  by (simp add: Code_def errors_is_Own errors_is_Sys)

theorem own_refusal_wins_witness:
  "Code (Some [Opaque ''delete'', Own ErrProtected, Sys EACCES]) = ''protected'' \<and>
   Code (Some [Sys ENOTEMPTY]) \<noteq> ''exists''"
  using own_refusal_wins [of "[Opaque ''delete'', Own ErrProtected, Sys EACCES]"]
    own_refusal_wins [of "[Sys ENOTEMPTY]"] by simp

end
