(* ===== verification/Guard.thy ===== *)
theory Guard
  imports Fsx_Errors "HOL-Library.Word"
begin

unbundle bit_operations_syntax

section \<open>The guard (internal/guard/guard.go, rules.go)\<close>

text \<open>
  The front end's safety layer: a table of protected path prefixes, read-only mode, the never-write
  components, mount points and the ancestors of the daemon's own installation. Operations are the
  bits of a 16-bit flag word. The mount-point predicate is the injected function the code calls.
\<close>

type_synonym op = "16 word"

definition OpRead :: op where "OpRead = 1"
definition OpTraverse :: op where "OpTraverse = 2"
definition OpCreate :: op where "OpCreate = 4"
definition OpWrite :: op where "OpWrite = 8"
definition OpDelete :: op where "OpDelete = 16"
definition OpRename :: op where "OpRename = 32"
definition OpChmod :: op where "OpChmod = 64"
definition OpChown :: op where "OpChown = 128"

definition writeOps :: op where
  "writeOps = OpCreate OR OpWrite OR OpDelete OR OpRename OR OpChmod OR OpChown"

lemmas op_defs = OpRead_def OpTraverse_def OpCreate_def OpWrite_def OpDelete_def OpRename_def
  OpChmod_def OpChown_def

record rule =
  rule_Prefix :: string
  rule_Deny :: op
  rule_Warn :: op
  rule_Reason :: string
  rule_Exact :: bool

record guard =
  rules :: "rule list"
  installDir :: string
  installDirCanon :: string
  shareIsRAM :: bool
  readOnly :: bool
  mountFn :: "(string \<Rightarrow> bool) option"

definition mk_rule :: "string \<Rightarrow> op \<Rightarrow> op \<Rightarrow> string \<Rightarrow> bool \<Rightarrow> rule" where
  "mk_rule p d w why ex =
     \<lparr>rule_Prefix = p, rule_Deny = d, rule_Warn = w, rule_Reason = why, rule_Exact = ex\<rparr>"

subsection \<open>rules.go\<close>

definition systemDirs :: "string list" where
  "systemDirs =
     [''/'', ''/bin'', ''/etc'', ''/lib'', ''/lib64'', ''/sbin'', ''/usr'', ''/var'',
      ''/home'', ''/root'', ''/opt'', ''/mnt'', ''/share'', ''/dev'', ''/proc'', ''/sys'']"

definition defaultRules :: "string \<Rightarrow> bool \<Rightarrow> rule list" where
  "defaultRules dir ram =
     map (\<lambda>d. mk_rule d (OpDelete OR OpRename) 0 ''a top-level system directory'' True) systemDirs
   @ [mk_rule ''/dev'' (OpDelete OR OpRename OR OpWrite) (OpChmod OR OpChown)
        ''deleting or writing a device node breaks the running system'' False]
   @ [mk_rule ''/etc/config'' 0 (OpCreate OR OpWrite OR OpDelete OR OpChmod OR OpChown OR OpRename)
        ''QTS firmware configuration'' False,
      mk_rule ''/etc/config'' OpDelete 0 ''the QTS firmware configuration directory'' True,
      mk_rule ''/mnt/HDA_ROOT/.config'' 0
        (OpCreate OR OpWrite OR OpDelete OR OpChmod OR OpChown OR OpRename)
        ''firmware configuration on the DOM'' False,
      mk_rule ''/mnt/HDA_ROOT/.config'' OpDelete 0
        ''the firmware configuration directory on the DOM'' True]
   @ (if ram then [mk_rule ''/share'' OpCreate 0
        ''the NAS system RAM disk, where files are lost on reboot'' True] else [])
   @ (if dir \<noteq> [] then
        [mk_rule dir writeOps 0 ''the file manager's own installation directory'' False,
         mk_rule (dir @ ''/config'') (writeOps OR OpRead OR OpTraverse) 0
           ''the file manager's configuration, which holds the password hash'' False,
         mk_rule (dir @ ''/logs'') (writeOps OR OpRead OR OpTraverse) 0
           ''the file manager's own logs, including the audit trail'' False]
      else [])"

subsection \<open>guard.go: construction\<close>

definition newGuard :: "string \<Rightarrow> bool \<Rightarrow> guard" where
  "newGuard dir ram =
     (let dir = (if dir \<noteq> [] then path_clean dir else dir)
      in \<lparr>rules = defaultRules dir ram, installDir = dir, installDirCanon = [],
          shareIsRAM = ram, readOnly = False, mountFn = None\<rparr>)"

text \<open>The loop over the table: one more rule per prefix that resolves to another spelling.\<close>

fun canonical_extra :: "(string \<Rightarrow> string option) \<Rightarrow> rule list \<Rightarrow> rule list" where
  "canonical_extra resolve [] = []"
| "canonical_extra resolve (r # rs) =
     (case resolve (rule_Prefix r) of
        None \<Rightarrow> canonical_extra resolve rs
      | Some canon \<Rightarrow>
          if canon = [] \<or> canon = rule_Prefix r then canonical_extra resolve rs
          else r\<lparr>rule_Prefix := canon\<rparr> # canonical_extra resolve rs)"

definition CanonicalizeRoots :: "(string \<Rightarrow> string option) \<Rightarrow> guard \<Rightarrow> guard" where
  "CanonicalizeRoots resolve g =
     (let g' = g\<lparr>rules := rules g @ canonical_extra resolve (rules g)\<rparr>
      in if installDir g \<noteq> [] then
           (case resolve (installDir g) of
              None \<Rightarrow> g'
            | Some canon \<Rightarrow>
                if canon \<noteq> [] \<and> canon \<noteq> installDir g then g'\<lparr>installDirCanon := canon\<rparr> else g')
         else g')"

definition SetReadOnly :: "bool \<Rightarrow> guard \<Rightarrow> guard" where
  "SetReadOnly v g = g\<lparr>readOnly := v\<rparr>"

definition SetMountPointChecker :: "(string \<Rightarrow> bool) option \<Rightarrow> guard \<Rightarrow> guard" where
  "SetMountPointChecker fn g = g\<lparr>mountFn := fn\<rparr>"

subsection \<open>guard.go: matching\<close>

definition strictAncestor :: "string \<Rightarrow> string \<Rightarrow> bool" where
  "strictAncestor p child \<longleftrightarrow> child \<noteq> [] \<and> p \<noteq> child \<and> IsWithin child p"

definition isInstallAncestor :: "guard \<Rightarrow> string \<Rightarrow> bool" where
  "isInstallAncestor g p \<longleftrightarrow> strictAncestor p (installDir g) \<or> strictAncestor p (installDirCanon g)"

definition rule_matches :: "rule \<Rightarrow> string \<Rightarrow> bool" where
  "rule_matches r p \<longleftrightarrow> (if rule_Exact r then p = rule_Prefix r else IsWithin p (rule_Prefix r))"

text \<open>\<open>splitComponents\<close>: the loop over the bytes, with the component read so far.\<close>

fun components_loop :: "string \<Rightarrow> string \<Rightarrow> string list" where
  "components_loop [] cur = (if cur = [] then [] else [cur])"
| "components_loop (c # s) cur =
     (if c = CHR ''/'' then (if cur = [] then components_loop s [] else cur # components_loop s [])
      else components_loop s (cur @ [c]))"

definition splitComponents :: "string \<Rightarrow> string list" where
  "splitComponents p = (if p = [] \<or> p = ''/'' then [] else components_loop p [])"

definition neverWriteReason :: "string \<Rightarrow> string option" where
  "neverWriteReason p =
     (if IsWithin p ''/proc'' \<or> IsWithin p ''/sys'' then Some ''a kernel pseudo-filesystem''
      else if list_ex (\<lambda>el. el = ''.zfs'') (splitComponents p)
        then Some ''a read-only ZFS snapshot directory''
      else None)"

definition mount_hit :: "guard \<Rightarrow> string \<Rightarrow> bool" where
  "mount_hit g p = (case mountFn g of None \<Rightarrow> False | Some fn \<Rightarrow> fn p)"

subsection \<open>guard.go: Check, Classify, Reasons, Contains\<close>

text \<open>
  A refusal is the sentinel the error wraps and the explanation it carries. The rule loop remembers
  the first non-empty warning reason and returns at the first deny.
\<close>

type_synonym refusal = "(sentinel \<times> string) option"

fun check_rules :: "rule list \<Rightarrow> op \<Rightarrow> string \<Rightarrow> string \<Rightarrow> refusal" where
  "check_rules [] op p warn = (if warn \<noteq> [] then Some (ErrConfirmRequired, warn) else None)"
| "check_rules (r # rs) op p warn =
     (if \<not> rule_matches r p then check_rules rs op p warn
      else if rule_Deny r AND op \<noteq> 0 then Some (ErrProtected, rule_Reason r)
      else if rule_Warn r AND op \<noteq> 0 \<and> warn = [] then check_rules rs op p (rule_Reason r)
      else check_rules rs op p warn)"

definition mount_reason :: string where
  "mount_reason = ''this is a mount point; deleting or renaming it would unmount a volume''"

definition Check :: "guard \<Rightarrow> op \<Rightarrow> string \<Rightarrow> refusal" where
  "Check g op p =
     (if readOnly g \<and> op AND writeOps \<noteq> 0 then Some (ErrReadOnly, ''read-only mode blocks this operation'')
      else case (if op AND writeOps \<noteq> 0 then neverWriteReason p else None) of
        Some reason \<Rightarrow> Some (ErrProtected, reason)
      | None \<Rightarrow>
          if op AND (OpDelete OR OpRename) \<noteq> 0 \<and> mount_hit g p then Some (ErrProtected, mount_reason)
          else if op AND (OpDelete OR OpRename) \<noteq> 0 \<and> isInstallAncestor g p
            then Some (ErrProtected, ''contains the file manager's own installation and audit trail'')
          else check_rules (rules g) op p [])"

fun class_loop :: "rule list \<Rightarrow> string \<Rightarrow> bool \<times> bool \<Rightarrow> bool \<times> bool" where
  \<comment> \<open>(deny, warn)\<close>
  "class_loop [] p dw = dw"
| "class_loop (r # rs) p (deny, warn) =
     (if \<not> rule_matches r p then class_loop rs p (deny, warn)
      else class_loop rs p (deny \<or> rule_Deny r \<noteq> 0, warn \<or> rule_Warn r \<noteq> 0))"

definition Classify :: "guard \<Rightarrow> string \<Rightarrow> string" where
  "Classify g p =
     (if neverWriteReason p \<noteq> None then ''protected''
      else if mount_hit g p then ''protected''
      else if isInstallAncestor g p then ''protected''
      else let (deny, warn) = class_loop (rules g) p (False, False)
           in if warn then ''warn'' else if deny then ''protected'' else ''normal'')"

definition add_reason :: "string list \<Rightarrow> string \<Rightarrow> string list" where
  "add_reason out s = (if s = [] \<or> s \<in> set out then out else out @ [s])"

definition Reasons :: "guard \<Rightarrow> op \<Rightarrow> string \<Rightarrow> string list" where
  "Reasons g op p =
     (let o1 = (if op AND writeOps \<noteq> 0 then
                  (case neverWriteReason p of None \<Rightarrow> [] | Some r \<Rightarrow> add_reason [] r) else []);
          o2 = (if op AND (OpDelete OR OpRename) \<noteq> 0 \<and> mount_hit g p
                then add_reason o1 mount_reason else o1)
      in foldl add_reason o2
           (map rule_Reason
             (filter (\<lambda>r. rule_matches r p \<and> (rule_Deny r AND op \<noteq> 0 \<or> rule_Warn r AND op \<noteq> 0)) (rules g))))"

record containment =
  con_Prefix :: string
  con_Deny :: bool
  con_Reason :: string

text \<open>The \<open>consider\<close> closure of \<open>Contains\<close>: \<open>None\<close> until something has been found.\<close>

definition consider_cand :: "string \<Rightarrow> containment option \<Rightarrow> string \<times> bool \<times> string \<Rightarrow> containment option" where
  "consider_cand p deepest cand =
     (case cand of (pre, deny, reason) \<Rightarrow>
        if \<not> strictAncestor p pre then deepest
        else case deepest of
          None \<Rightarrow> Some \<lparr>con_Prefix = pre, con_Deny = deny, con_Reason = reason\<rparr>
        | Some d \<Rightarrow>
            if deny \<and> \<not> con_Deny d \<or> (deny = con_Deny d \<and> length pre > length (con_Prefix d))
            then Some \<lparr>con_Prefix = pre, con_Deny = deny, con_Reason = reason\<rparr> else deepest)"

definition contain_candidates :: "guard \<Rightarrow> (string \<times> bool \<times> string) list" where
  "contain_candidates g =
     map (\<lambda>r. (rule_Prefix r, rule_Deny r \<noteq> 0, rule_Reason r))
       (filter (\<lambda>r. rule_Deny r \<noteq> 0 \<or> rule_Warn r \<noteq> 0) (rules g))
   @ map (\<lambda>d. (d, True, ''the file manager's own installation directory''))
       [installDir g, installDirCanon g]"

definition Contains :: "guard \<Rightarrow> string \<Rightarrow> containment option" where
  "Contains g p = foldl (consider_cand p) None (contain_candidates g)"


subsection \<open>Severity\<close>

text \<open>
  How strict a verdict is. The routes check a path under two spellings and let the stricter verdict
  govern, so verdicts are compared in this order.
\<close>

datatype severity = Allowed | Confirmable | Denied

fun severity_rank :: "severity \<Rightarrow> nat" where
  "severity_rank Allowed = 0"
| "severity_rank Confirmable = 1"
| "severity_rank Denied = 2"

lemma severity_rank_inject: "severity_rank a = severity_rank b \<longleftrightarrow> a = b"
  by (cases a; cases b) simp_all

instantiation severity :: linorder
begin

definition less_eq_severity :: "severity \<Rightarrow> severity \<Rightarrow> bool" where
  "less_eq_severity a b \<longleftrightarrow> severity_rank a \<le> severity_rank b"

definition less_severity :: "severity \<Rightarrow> severity \<Rightarrow> bool" where
  "less_severity a b \<longleftrightarrow> severity_rank a < severity_rank b"

instance
  by standard (auto simp: less_eq_severity_def less_severity_def severity_rank_inject)

end

definition sev :: "refusal \<Rightarrow> severity" where
  "sev v =
     (case v of
        None \<Rightarrow> Allowed
      | Some (s, _) \<Rightarrow> if s = ErrConfirmRequired then Confirmable else Denied)"

lemma sev_simps [simp]:
  "sev None = Allowed" "sev (Some (ErrConfirmRequired, m)) = Confirmable"
  "sev (Some (ErrProtected, m)) = Denied" "sev (Some (ErrReadOnly, m)) = Denied"
  by (simp_all add: sev_def)

lemma severity_le [simp]:
  "Allowed \<le> s" "s \<le> Denied" "Denied \<le> s \<longleftrightarrow> s = Denied" "Confirmable \<le> s \<longleftrightarrow> s \<noteq> Allowed"
  by (cases s; simp add: less_eq_severity_def)+

subsection \<open>The rule table\<close>

definition denies :: "op \<Rightarrow> string \<Rightarrow> rule \<Rightarrow> bool" where
  "denies op p r \<longleftrightarrow> rule_matches r p \<and> rule_Deny r AND op \<noteq> 0"

definition warns :: "op \<Rightarrow> string \<Rightarrow> rule \<Rightarrow> bool" where
  "warns op p r \<longleftrightarrow> rule_matches r p \<and> rule_Warn r AND op \<noteq> 0 \<and> rule_Reason r \<noteq> []"

lemma check_rules_warned:
  "w \<noteq> [] \<Longrightarrow>
   check_rules rs op p w =
     (case find (denies op p) rs of
        Some r \<Rightarrow> Some (ErrProtected, rule_Reason r) | None \<Rightarrow> Some (ErrConfirmRequired, w))"
  by (induction rs) (auto simp: denies_def)

text \<open>The first deny decides, wherever it stands; else the first warning with a reason.\<close>

lemma check_rules_find:
  "check_rules rs op p [] =
     (case find (denies op p) rs of
        Some r \<Rightarrow> Some (ErrProtected, rule_Reason r)
      | None \<Rightarrow> (case find (warns op p) rs of
          Some r \<Rightarrow> Some (ErrConfirmRequired, rule_Reason r) | None \<Rightarrow> None))"
proof (induction rs)
  case (Cons r rs)
  have d: "denies op p r \<longleftrightarrow> rule_matches r p \<and> rule_Deny r AND op \<noteq> 0"
    and w: "warns op p r \<longleftrightarrow> rule_matches r p \<and> rule_Warn r AND op \<noteq> 0 \<and> rule_Reason r \<noteq> []"
    by (simp_all add: denies_def warns_def)
  show ?case
  proof (cases "warns op p r \<and> \<not> denies op p r")
    case True
    then have "check_rules (r # rs) op p [] = check_rules rs op p (rule_Reason r)"
      and "rule_Reason r \<noteq> []"
      using d w by auto
    with True show ?thesis by (simp add: check_rules_warned split: option.split)
  next
    case False
    then consider "denies op p r" | "\<not> denies op p r" "\<not> warns op p r" by blast
    then show ?thesis
    proof cases
      case 1
      then have "rule_matches r p" "rule_Deny r AND op \<noteq> 0" using d by auto
      with 1 show ?thesis by simp
    next
      case 2
      then have "check_rules (r # rs) op p [] = check_rules rs op p []" using d w by auto
      moreover from 2 have "find (denies op p) (r # rs) = find (denies op p) rs"
        "find (warns op p) (r # rs) = find (warns op p) rs" by simp_all
      ultimately show ?thesis using Cons by (simp only:)
    qed
  qed
qed simp

lemma find_None_iff_ex: "find P xs = None \<longleftrightarrow> \<not> list_ex P xs"
  by (induction xs) auto

lemma sev_check_rules:
  "sev (check_rules rs op p []) =
     (if list_ex (denies op p) rs then Denied
      else if list_ex (warns op p) rs then Confirmable else Allowed)"
  by (auto simp: check_rules_find find_None_iff_ex [symmetric] split: option.splits)

lemma sev_check_rules_mono:
  assumes "set rs \<subseteq> set rs'"
  shows "sev (check_rules rs op p []) \<le> sev (check_rules rs' op p [])"
proof -
  have "list_ex P rs \<Longrightarrow> list_ex P rs'" for P using assms by (auto simp: list_ex_iff)
  then show ?thesis by (simp add: sev_check_rules)
qed

subsection \<open>Flag words\<close>

lemma writeOps_flags [simp]:
  "(OpDelete OR OpRename) AND writeOps = OpDelete OR OpRename"
  "OpRead AND writeOps = 0" "OpTraverse AND writeOps = 0"
  "OpCreate AND writeOps \<noteq> 0" "OpWrite AND writeOps \<noteq> 0" "OpDelete AND writeOps \<noteq> 0"
  "OpRename AND writeOps \<noteq> 0" "OpChmod AND writeOps \<noteq> 0" "OpChown AND writeOps \<noteq> 0"
  by (simp_all add: op_defs writeOps_def)

lemma delete_rename_is_write:
  assumes "op AND (OpDelete OR OpRename) \<noteq> 0"
  shows "op AND writeOps \<noteq> 0"
proof
  assume "op AND writeOps = 0"
  then have "(op AND writeOps) AND (OpDelete OR OpRename) = 0" by simp
  moreover have "writeOps AND (OpDelete OR OpRename) = OpDelete OR OpRename"
    by (simp add: op_defs writeOps_def)
  ultimately show False using assms by (simp only: and.assoc)
qed

subsection \<open>What the guard says, case by case\<close>

text \<open>The four layers before the table, each with its own refusal.\<close>

lemma Check_readOnly: "readOnly g \<Longrightarrow> op AND writeOps \<noteq> 0 \<Longrightarrow> sev (Check g op p) = Denied"
  by (simp add: Check_def)

lemma Check_neverWrite: "op AND writeOps \<noteq> 0 \<Longrightarrow> neverWriteReason p \<noteq> None \<Longrightarrow> sev (Check g op p) = Denied"
  by (auto simp: Check_def)

lemma Check_mount:
  "op AND (OpDelete OR OpRename) \<noteq> 0 \<Longrightarrow> mount_hit g p \<Longrightarrow> sev (Check g op p) = Denied"
  by (auto simp: Check_def split: option.splits)

lemma Check_ancestor:
  "op AND (OpDelete OR OpRename) \<noteq> 0 \<Longrightarrow> isInstallAncestor g p \<Longrightarrow> sev (Check g op p) = Denied"
  by (auto simp: Check_def split: option.splits)

definition never_write :: "string \<Rightarrow> bool" where
  "never_write p \<longleftrightarrow> neverWriteReason p \<noteq> None"

lemma sev_Check:
  "sev (Check g op p) =
     (if (op AND writeOps \<noteq> 0 \<and> (readOnly g \<or> neverWriteReason p \<noteq> None))
         \<or> (op AND (OpDelete OR OpRename) \<noteq> 0 \<and> (mount_hit g p \<or> isInstallAncestor g p))
         \<or> list_ex (denies op p) (rules g)
      then Denied else if list_ex (warns op p) (rules g) then Confirmable else Allowed)"
  by (cases "neverWriteReason p")
    (simp_all add: Check_def sev_check_rules delete_rename_is_write)

lemma Check_rule_denied:
  "r \<in> set (rules g) \<Longrightarrow> denies op p r \<Longrightarrow> sev (Check g op p) = Denied"
  by (auto simp: sev_Check list_ex_iff)

subsection \<open>Canonicalised rules\<close>

lemma canonical_extra_iff:
  "r \<in> set (canonical_extra res rs) \<longleftrightarrow>
   (\<exists>r0 \<in> set rs. \<exists>c. res (rule_Prefix r0) = Some c \<and> c \<noteq> [] \<and> c \<noteq> rule_Prefix r0 \<and>
     r = r0\<lparr>rule_Prefix := c\<rparr>)"
  by (induction rs) (auto split: option.split)

lemma CanonicalizeRoots_sel [simp]:
  "rules (CanonicalizeRoots res g) = rules g @ canonical_extra res (rules g)"
  "installDir (CanonicalizeRoots res g) = installDir g"
  "readOnly (CanonicalizeRoots res g) = readOnly g"
  "mountFn (CanonicalizeRoots res g) = mountFn g"
  by (auto simp: CanonicalizeRoots_def Let_def split: option.split)

lemma mount_hit_CanonicalizeRoots [simp]: "mount_hit (CanonicalizeRoots res g) = mount_hit g"
  by (simp add: mount_hit_def fun_eq_iff)

lemma CanonicalizeRoots_ancestor:
  "installDirCanon g = [] \<Longrightarrow> isInstallAncestor g p \<Longrightarrow> isInstallAncestor (CanonicalizeRoots res g) p"
  by (auto simp: isInstallAncestor_def strictAncestor_def)

lemma CanonicalizeRoots_canon:
  assumes "installDir g \<noteq> []" "res (installDir g) = Some c" "c \<noteq> []" "c \<noteq> installDir g"
  shows "installDirCanon (CanonicalizeRoots res g) = c"
  using assms by (simp add: CanonicalizeRoots_def Let_def)

text \<open>The rules that matter for one prefix, in the lexical and in the resolved spelling.\<close>

lemma CanonicalizeRoots_rule:
  assumes "r \<in> set (rules g)" "res (rule_Prefix r) = Some c" "c \<noteq> []"
  shows "r\<lparr>rule_Prefix := c\<rparr> \<in> set (rules (CanonicalizeRoots res g))"
proof (cases "c = rule_Prefix r")
  case True
  then have "r\<lparr>rule_Prefix := c\<rparr> = r" by (cases r) simp
  with assms show ?thesis by simp
next
  case False
  with assms show ?thesis by (auto simp: canonical_extra_iff)
qed

lemma newGuard_sel [simp]:
  "rules (newGuard dir ram) = defaultRules (if dir \<noteq> [] then path_clean dir else dir) ram"
  "installDir (newGuard dir ram) = (if dir \<noteq> [] then path_clean dir else dir)"
  "installDirCanon (newGuard dir ram) = []" "readOnly (newGuard dir ram) = False"
  "mountFn (newGuard dir ram) = None"
  by (simp_all add: newGuard_def Let_def)

definition install_rules :: "string \<Rightarrow> rule list" where
  "install_rules dir =
     [mk_rule dir writeOps 0 ''the file manager's own installation directory'' False,
      mk_rule (dir @ ''/config'') (writeOps OR OpRead OR OpTraverse) 0
        ''the file manager's configuration, which holds the password hash'' False,
      mk_rule (dir @ ''/logs'') (writeOps OR OpRead OR OpTraverse) 0
        ''the file manager's own logs, including the audit trail'' False]"

lemma install_rules_in: "dir \<noteq> [] \<Longrightarrow> set (install_rules dir) \<subseteq> set (defaultRules dir ram)"
  by (simp add: install_rules_def defaultRules_def)

lemma clean_path_nonempty: "clean_path p \<Longrightarrow> p \<noteq> []"
  by (auto simp: clean_path_def Clean_def)

text \<open>A spelling of a protected directory: the configured one, or the one it resolves to.\<close>

definition spelling_of :: "(string \<Rightarrow> string option) \<Rightarrow> string \<Rightarrow> string \<Rightarrow> bool" where
  "spelling_of res d c \<longleftrightarrow> c = d \<or> (res d = Some c \<and> c \<noteq> [])"

lemma install_rule_denies:
  assumes dir: "clean_path dir" and r: "r \<in> set (install_rules dir)"
    and c: "spelling_of res (rule_Prefix r) c" "IsWithin p c" and op: "rule_Deny r AND op \<noteq> 0"
    and g: "rules g = rules (CanonicalizeRoots res (newGuard dir ram))"
  shows "sev (Check g op p) = Denied"
proof -
  let ?g0 = "newGuard dir ram"
  have "rules ?g0 = defaultRules dir ram"
    using dir by (simp add: clean_path_nonempty path_clean_id)
  then have r0: "r \<in> set (rules ?g0)"
    using r install_rules_in [of dir ram] dir clean_path_nonempty by auto
  have "r\<lparr>rule_Prefix := c\<rparr> \<in> set (rules g)"
  proof (cases "c = rule_Prefix r")
    case True
    then have "r\<lparr>rule_Prefix := c\<rparr> = r" by (cases r) simp
    with r0 g show ?thesis by simp
  next
    case False
    with c have "res (rule_Prefix r) = Some c" "c \<noteq> []" by (auto simp: spelling_of_def)
    then show ?thesis unfolding g by (rule CanonicalizeRoots_rule [OF r0])
  qed
  moreover have "\<not> rule_Exact r" using r by (auto simp: install_rules_def mk_rule_def)
  then have "denies op p (r\<lparr>rule_Prefix := c\<rparr>)"
    using c op by (simp add: denies_def rule_matches_def)
  ultimately show ?thesis by (rule Check_rule_denied)
qed

subsection \<open>Contains\<close>

definition beneath :: "guard \<Rightarrow> string \<Rightarrow> (string \<times> bool \<times> string) list" where
  "beneath g p = filter (\<lambda>c. strictAncestor p (fst c)) (contain_candidates g)"

definition outranks :: "string \<times> bool \<times> string \<Rightarrow> string \<times> bool \<times> string \<Rightarrow> bool" where
  "outranks c d \<longleftrightarrow>
     (fst (snd c) \<and> \<not> fst (snd d)) \<or> (fst (snd c) = fst (snd d) \<and> length (fst c) > length (fst d))"

definition as_candidate :: "containment \<Rightarrow> string \<times> bool \<times> string" where
  "as_candidate d = (con_Prefix d, con_Deny d, con_Reason d)"

text \<open>What the fold has found after any initial part of the candidates.\<close>

definition found :: "(string \<times> bool \<times> string) list \<Rightarrow> containment option \<Rightarrow> bool" where
  "found cs d \<longleftrightarrow>
     (case d of
        None \<Rightarrow> cs = []
      | Some d \<Rightarrow> \<exists>xs ys. cs = xs @ as_candidate d # ys \<and>
          list_all (outranks (as_candidate d)) xs \<and>
          list_all (\<lambda>c. \<not> outranks c (as_candidate d)) ys)"

lemma outranks_trans: "outranks a b \<Longrightarrow> outranks b c \<Longrightarrow> outranks a c"
  by (auto simp: outranks_def)

lemma outranks_le_trans: "outranks a b \<Longrightarrow> \<not> outranks c b \<Longrightarrow> outranks a c"
  by (auto simp: outranks_def)

lemma foundI:
  "cs = xs @ as_candidate d # ys \<Longrightarrow> list_all (outranks (as_candidate d)) xs \<Longrightarrow>
   list_all (\<lambda>c. \<not> outranks c (as_candidate d)) ys \<Longrightarrow> found cs (Some d)"
  unfolding found_def option.case by blast

lemma foundE:
  assumes "found cs (Some d)"
  obtains xs ys where "cs = xs @ as_candidate d # ys" "list_all (outranks (as_candidate d)) xs"
    "list_all (\<lambda>c. \<not> outranks c (as_candidate d)) ys"
  using assms unfolding found_def option.case by blast

text \<open>One more candidate strictly beneath the directory.\<close>

lemma consider_cand_beneath:
  assumes anc: "strictAncestor p (fst c)" and found: "found cs d"
  shows "found (cs @ [c]) (consider_cand p d c)"
proof -
  obtain pre deny why where c: "c = (pre, deny, why)" by (cases c)
  let ?new = "\<lparr>con_Prefix = pre, con_Deny = deny, con_Reason = why\<rparr>"
  have new: "as_candidate ?new = c" by (simp add: as_candidate_def c)
  show ?thesis
  proof (cases d)
    case None
    then have "cs = []" "consider_cand p d c = Some ?new"
      using assms by (simp_all add: found_def consider_cand_def c)
    then show ?thesis using foundI [of "[c]" "[]" ?new "[]"] new by simp
  next
    case (Some e)
    from found obtain xs ys where split: "cs = xs @ as_candidate e # ys"
      and xs: "list_all (outranks (as_candidate e)) xs"
      and ys: "list_all (\<lambda>c. \<not> outranks c (as_candidate e)) ys"
      unfolding Some by (rule foundE)
    show ?thesis
    proof (cases "outranks c (as_candidate e)")
      case True
      then have k: "consider_cand p d c = Some ?new"
        using anc unfolding consider_cand_def outranks_def as_candidate_def c Some
        by (simp del: not_less add: not_less [symmetric]) 
      have "outranks c x" if "x \<in> set cs" for x
      proof -
        from that split have "x \<in> set xs \<or> x = as_candidate e \<or> x \<in> set ys" by auto
        then show ?thesis
          using xs ys True unfolding list_all_iff
          by (elim disjE) (blast intro: outranks_trans outranks_le_trans)+
      qed
      then have "list_all (outranks c) cs" by (simp add: list_all_iff)
      then show ?thesis unfolding k by (intro foundI [of _ cs _ "[]"]) (simp_all add: new)
    next
      case False
      then have k: "consider_cand p d c = Some e"
        using anc unfolding consider_cand_def outranks_def as_candidate_def c Some
        by (cases deny; cases "con_Deny e") simp_all
      show ?thesis unfolding k
        using split xs ys False by (intro foundI [of _ xs _ "ys @ [c]"]) simp_all
    qed
  qed
qed

lemma consider_cand_found:
  assumes "found (filter (\<lambda>c. strictAncestor p (fst c)) cs) d"
  shows "found (filter (\<lambda>c. strictAncestor p (fst c)) (cs @ [c])) (consider_cand p d c)"
proof (cases "strictAncestor p (fst c)")
  case False
  then have "consider_cand p d c = d" by (cases c) (simp add: consider_cand_def)
  with False assms show ?thesis by simp
next
  case True
  with consider_cand_beneath [OF True assms] show ?thesis by simp
qed

lemma consider_fold_found:
  "found (filter (\<lambda>c. strictAncestor p (fst c)) cs) (foldl (consider_cand p) None cs)"
proof (induction cs rule: rev_induct)
  case Nil
  then show ?case by (simp add: found_def)
next
  case (snoc c cs)
  then have "found (filter (\<lambda>c. strictAncestor p (fst c)) (cs @ [c]))
    (consider_cand p (foldl (consider_cand p) None cs) c)" by (rule consider_cand_found)
  then show ?case by simp
qed

subsection \<open>Properties\<close>

text \<open>
  C1: What Check decides. The verdict is a refusal exactly when read-only mode or a never-write
  region blocks a mutation, a delete or rename hits a mount point or an ancestor of the
  installation, or some rule of the table denies the operation there; it is a demand for
  confirmation exactly when none of that holds and some rule warns. The order of the table is
  irrelevant: a deny wins wherever it stands.
\<close>

theorem Check_verdict:
  "sev (Check g op p) =
     (if (op AND writeOps \<noteq> 0 \<and> (readOnly g \<or> never_write p))
         \<or> (op AND (OpDelete OR OpRename) \<noteq> 0 \<and> (mount_hit g p \<or> isInstallAncestor g p))
         \<or> list_ex (denies op p) (rules g)
      then Denied else if list_ex (warns op p) (rules g) then Confirmable else Allowed)"
  by (simp add: sev_Check never_write_def)

text \<open>
  C2: The installation protects itself. For a guard built by New for a clean installation
  directory and canonicalised with any resolver, with read-only mode and the mount predicate set
  any way at all: every mutation inside the directory is refused, and inside its config and logs
  directories so is every read and traversal, whether the path is given under the configured
  spelling of the directory or under the one it resolves to.
\<close>

theorem install_tree_sealed:
  assumes "clean_path dir"
    and "rules g = rules (CanonicalizeRoots res (newGuard dir ram))"
  shows "(spelling_of res dir c \<and> IsWithin p c \<and> op AND writeOps \<noteq> 0 \<longrightarrow> sev (Check g op p) = Denied) \<and>
    ((spelling_of res (dir @ ''/config'') c \<or> spelling_of res (dir @ ''/logs'') c) \<and> IsWithin p c \<and>
      op AND (writeOps OR OpRead OR OpTraverse) \<noteq> 0 \<longrightarrow> sev (Check g op p) = Denied)"
proof (intro conjI impI)
  note deny = install_rule_denies [OF assms(1) _ _ _ _ assms(2), where c = c]
  assume "spelling_of res dir c \<and> IsWithin p c \<and> op AND writeOps \<noteq> 0"
  then show "sev (Check g op p) = Denied"
    by (intro deny [of "install_rules dir ! 0"])
      (simp_all add: install_rules_def mk_rule_def and.commute)
next
  note deny = install_rule_denies [OF assms(1) _ _ _ _ assms(2), where c = c]
  assume A: "(spelling_of res (dir @ ''/config'') c \<or> spelling_of res (dir @ ''/logs'') c) \<and>
    IsWithin p c \<and> op AND (writeOps OR OpRead OR OpTraverse) \<noteq> 0"
  then show "sev (Check g op p) = Denied"
  proof (elim conjE disjE)
    assume "spelling_of res (dir @ ''/config'') c"
    with A show ?thesis
      by (intro deny [of "install_rules dir ! 1"])
        (simp_all add: install_rules_def mk_rule_def and.commute)
  next
    assume "spelling_of res (dir @ ''/logs'') c"
    with A show ?thesis
      by (intro deny [of "install_rules dir ! 2"])
        (simp_all add: install_rules_def mk_rule_def and.commute)
  qed
qed

definition sample_resolve :: "string \<Rightarrow> string option" where
  "sample_resolve p =
     (if p = ''/alias/app'' then Some ''/data/app''
      else if p = ''/alias/app/config'' then Some ''/data/app/config'' else None)"

definition sample_guard :: guard where
  "sample_guard = CanonicalizeRoots sample_resolve (newGuard ''/alias/app'' True)"

theorem install_tree_sealed_witness:
  "sev (Check sample_guard OpWrite ''/data/app/bin'') = Denied \<and>
   sev (Check sample_guard OpRead ''/data/app/config/c.json'') = Denied"
proof -
  have c: "clean_path ''/alias/app''" by code_simp
  have r: "spelling_of sample_resolve ''/alias/app'' ''/data/app''"
    "spelling_of sample_resolve (''/alias/app'' @ ''/config'') ''/data/app/config''"
    by (simp_all add: spelling_of_def sample_resolve_def)
  have w: "IsWithin ''/data/app/bin'' ''/data/app''"
    "IsWithin ''/data/app/config/c.json'' ''/data/app/config''" by code_simp+
  have o: "OpRead AND (writeOps OR OpRead OR OpTraverse) \<noteq> 0" by (simp add: op_defs writeOps_def)
  have "rules sample_guard = rules (CanonicalizeRoots sample_resolve (newGuard ''/alias/app'' True))"
    by (simp add: sample_guard_def)
  note t = install_tree_sealed [OF c this]
  show ?thesis
    using t [THEN conjunct1, THEN mp, OF conjI [OF r(1) conjI [OF w(1)]], of OpWrite]
      t [THEN conjunct2, THEN mp, OF conjI [OF disjI1 [OF r(2)] conjI [OF w(2) o]]] by simp
qed

text \<open>
  Nothing that contains the installation can be moved or deleted: for the guard New and
  CanonicalizeRoots build, a delete or rename of a strict ancestor of the installation directory,
  in its configured or its resolved spelling, is refused.
\<close>

theorem install_ancestor_kept:
  assumes "clean_path dir" and "spelling_of res dir c" and "strictAncestor p c"
    and "op AND (OpDelete OR OpRename) \<noteq> 0"
  shows "sev (Check (CanonicalizeRoots res (newGuard dir ram)) op p) = Denied"
proof -
  have dir: "dir \<noteq> []" "path_clean dir = dir" using assms(1) by (auto simp: clean_path_nonempty path_clean_id)
  have "isInstallAncestor (CanonicalizeRoots res (newGuard dir ram)) p"
  proof (cases "c = dir")
    case True
    with assms dir show ?thesis by (simp add: isInstallAncestor_def)
  next
    case False
    with assms dir have "installDirCanon (CanonicalizeRoots res (newGuard dir ram)) = c"
      by (intro CanonicalizeRoots_canon) (auto simp: spelling_of_def)
    with assms show ?thesis by (simp add: isInstallAncestor_def)
  qed
  then show ?thesis by (rule Check_ancestor [OF assms(4)])
qed

theorem install_ancestor_kept_witness:
  "sev (Check sample_guard OpRename ''/data'') = Denied \<and> sev (Check sample_guard OpRename ''/alias'') = Denied"
proof -
  have c: "clean_path ''/alias/app''" by code_simp
  have r: "spelling_of sample_resolve ''/alias/app'' ''/data/app''"
    "spelling_of sample_resolve ''/alias/app'' ''/alias/app''"
    by (simp_all add: spelling_of_def sample_resolve_def)
  have a: "strictAncestor ''/data'' ''/data/app''" "strictAncestor ''/alias'' ''/alias/app''"
    by code_simp+
  have "OpRename AND (OpDelete OR OpRename) \<noteq> 0" by (simp add: op_defs)
  then show ?thesis
    using install_ancestor_kept [OF c r(1) a(1)] install_ancestor_kept [OF c r(2) a(2)]
    by (simp add: sample_guard_def)
qed

text \<open>
  Canonicalising the protected roots only adds protection: whatever the resolver says, no
  operation on any path gets a milder verdict from the canonicalised guard than from the guard New
  built.
\<close>

theorem canonicalize_never_weakens:
  "sev (Check (newGuard dir ram) op p) \<le> sev (Check (CanonicalizeRoots res (newGuard dir ram)) op p)"
proof -
  let ?g = "newGuard dir ram"
  have anc: "isInstallAncestor ?g p \<Longrightarrow> isInstallAncestor (CanonicalizeRoots res ?g) p"
    by (rule CanonicalizeRoots_ancestor) simp
  have "sev (check_rules (rules ?g) op p []) \<le> sev (check_rules (rules (CanonicalizeRoots res ?g)) op p [])"
    by (rule sev_check_rules_mono) simp
  then have "list_ex (denies op p) (rules ?g) \<Longrightarrow> list_ex (denies op p) (rules (CanonicalizeRoots res ?g))"
    by simp
  then show ?thesis using anc by (auto simp: sev_Check)
qed

text \<open>
  Contains reports the most specific protected location strictly beneath a directory. Among
  the rule prefixes and installation spellings strictly beneath it, the answer is the first of
  those no other outranks, a deny outranking every warning and a longer prefix a shorter one of the
  same severity; it reports nothing exactly when there is none.
\<close>

theorem Contains_most_specific:
  "case Contains g p of
     None \<Rightarrow> beneath g p = []
   | Some d \<Rightarrow> \<exists>xs ys. beneath g p = xs @ as_candidate d # ys \<and>
       list_all (outranks (as_candidate d)) xs \<and> list_all (\<lambda>c. \<not> outranks c (as_candidate d)) ys"
  using consider_fold_found [of p "contain_candidates g"]
  unfolding found_def Contains_def beneath_def .

end
