(* ===== verification/Confirm.thy ===== *)
theory Confirm
  imports Guard "HOL-Library.Char_ord" "HOL-Library.List_Lexorder" "HOL-Library.Multiset"
begin

section \<open>Confirmation tokens (internal/guard/confirm.go) and their use (web/routes_mutate.go)\<close>

text \<open>
  A token is the base64url spelling of nonce, expiry and an HMAC over a length-prefixed encoding of
  the operation. The guard keeps the spent tokens and a bounded ledger of measured costs. The HMAC
  is the parameter \<open>mac\<close> (key, message); random nonces and clock readings are arguments, one per
  reading the code makes, in nanoseconds.
\<close>

subsection \<open>encoding/binary and encoding/base64\<close>

definition put_uint64 :: "64 word \<Rightarrow> bytes" where
  "put_uint64 w = map (\<lambda>i. char_of (unat w div 256 ^ i mod 256)) [7, 6, 5, 4, 3, 2, 1, 0]"

definition get_uint64 :: "bytes \<Rightarrow> 64 word" where
  "get_uint64 bs = of_nat (foldl (\<lambda>n b. 256 * n + of_char b) 0 bs)"

definition b64_alphabet :: string where
  "b64_alphabet = ''ABCDEFGHIJKLMNOPQRSTUVWXYZabcdefghijklmnopqrstuvwxyz0123456789-_''"

definition b64_char :: "nat \<Rightarrow> char" where
  "b64_char n = b64_alphabet ! n"

fun index_in :: "string \<Rightarrow> char \<Rightarrow> nat option" where
  "index_in [] c = None"
| "index_in (x # xs) c = (if x = c then Some 0 else map_option Suc (index_in xs c))"

definition b64_val :: "char \<Rightarrow> nat option" where
  "b64_val c = index_in b64_alphabet c"

text \<open>\<open>base64.RawURLEncoding.EncodeToString\<close>.\<close>

fun b64_encode :: "bytes \<Rightarrow> string" where
  "b64_encode [] = []"
| "b64_encode [a] =
     (let n = of_char a * 65536 :: nat in [b64_char (n div 262144), b64_char (n div 4096 mod 64)])"
| "b64_encode [a, b] =
     (let n = of_char a * 65536 + of_char b * 256 :: nat
      in [b64_char (n div 262144), b64_char (n div 4096 mod 64), b64_char (n div 64 mod 64)])"
| "b64_encode (a # b # c # bs) =
     (let n = of_char a * 65536 + of_char b * 256 + of_char c :: nat
      in b64_char (n div 262144) # b64_char (n div 4096 mod 64) # b64_char (n div 64 mod 64)
         # b64_char (n mod 64) # b64_encode bs)"

text \<open>
  \<open>base64.RawURLEncoding.DecodeString\<close>: CR and LF are skipped wherever they stand, a last group of
  one character is an error, and unused low bits of a short last group are not looked at.
\<close>

fun b64_groups :: "nat list \<Rightarrow> bytes option" where
  "b64_groups [] = Some []"
| "b64_groups [a] = None"
| "b64_groups [a, b] = Some [char_of ((a * 64 + b) div 16)]"
| "b64_groups [a, b, c] =
     (let n = (a * 4096 + b * 64 + c) div 4 in Some [char_of (n div 256), char_of (n mod 256)])"
| "b64_groups (a # b # c # d # vs) =
     (let n = a * 262144 + b * 4096 + c * 64 + d
      in map_option (\<lambda>bs. char_of (n div 65536) # char_of (n div 256 mod 256) # char_of (n mod 256) # bs)
           (b64_groups vs))"

fun b64_values :: "string \<Rightarrow> nat list option" where
  "b64_values [] = Some []"
| "b64_values (c # s) =
     (if c = CHR 0x0A \<or> c = CHR 0x0D then b64_values s
      else case b64_val c of
        None \<Rightarrow> None | Some v \<Rightarrow> map_option (\<lambda>vs. v # vs) (b64_values s))"

definition b64_decode :: "string \<Rightarrow> bytes option" where
  "b64_decode s = (case b64_values s of None \<Rightarrow> None | Some vs \<Rightarrow> b64_groups vs)"

subsection \<open>confirm.go\<close>

type_synonym mac_fun = "bytes \<Rightarrow> bytes \<Rightarrow> bytes"

definition confirmTTL :: time where "confirmTTL = 60 * 10 ^ 9"
definition confirmNonce :: nat where "confirmNonce = 16"
definition confirmTagLen :: nat where "confirmTagLen = 32"
definition confirmExpLen :: nat where "confirmExpLen = 8"
definition confirmTokLen :: nat where "confirmTokLen = confirmNonce + confirmExpLen + confirmTagLen"
definition confirmFileMax :: int where "confirmFileMax = 100"
definition confirmByteMax :: int where "confirmByteMax = 2 ^ 30"
definition maxIssuedCosts :: nat where "maxIssuedCosts = 4096"

lemmas confirm_consts = confirmTTL_def confirmNonce_def confirmTagLen_def confirmExpLen_def
  confirmTokLen_def

definition unix :: "time \<Rightarrow> int" where
  "unix t = t div 10 ^ 9"

record summary =
  sum_Files :: int
  sum_Bytes :: int
  sum_Warnings :: "string list"
  sum_Capped :: bool

record issuedCost =
  ic_files :: int
  ic_bytes :: int
  ic_capped :: bool
  ic_exp :: int

text \<open>The fields of \<open>Guard\<close> that confirm.go adds.\<close>

record token_guard = guard +
  serverKey :: bytes
  seen :: "(bytes, int) table"
  issued :: "(bytes, issuedCost) table"

definition sortedCopy :: "string list \<Rightarrow> string list" where
  "sortedCopy paths = sort paths"

definition canonParts :: "string list \<Rightarrow> bool \<Rightarrow> string list" where
  "canonParts parts ordered = (if ordered then parts else sortedCopy parts)"

definition write_field :: "bytes \<Rightarrow> bytes" where
  "write_field b = put_uint64 (of_nat (length b)) @ b"

definition canon_message :: "string \<Rightarrow> string list \<Rightarrow> 64 word \<Rightarrow> bytes \<Rightarrow> bytes" where
  "canon_message op parts expiry nonce =
     write_field op @ put_uint64 (of_nat (length parts)) @ concat (map write_field parts)
     @ put_uint64 expiry @ write_field nonce"

definition confirmTag :: "mac_fun \<Rightarrow> token_guard \<Rightarrow> string \<Rightarrow> string list \<Rightarrow> 64 word \<Rightarrow> bytes \<Rightarrow> bytes" where
  "confirmTag mac g op parts expiry nonce = mac (serverKey g) (canon_message op parts expiry nonce)"

definition sweepLocked :: "int \<Rightarrow> token_guard \<Rightarrow> token_guard" where
  "sweepLocked nowUnix g =
     g\<lparr>seen := tkeep (\<lambda>exp. \<not> nowUnix > exp) (seen g),
       issued := tkeep (\<lambda>rec. \<not> nowUnix > ic_exp rec) (issued g)\<rparr>"

definition recordCost :: "time \<Rightarrow> bytes \<Rightarrow> summary \<Rightarrow> int \<Rightarrow> token_guard \<Rightarrow> token_guard" where
  "recordCost now key s exp g =
     (if sum_Files s = 0 \<and> sum_Bytes s = 0 \<and> \<not> sum_Capped s then g
      else let g1 = sweepLocked (unix now) g
           in if tlen (issued g1) \<ge> maxIssuedCosts then g1
              else g1\<lparr>issued := tput key
                 \<lparr>ic_files = sum_Files s, ic_bytes = sum_Bytes s, ic_capped = sum_Capped s, ic_exp = exp\<rparr>
                 (issued g1)\<rparr>)"

text \<open>
  The seconds of an instant travel as \<open>int64\<close>: \<open>exp_word\<close> is the 64-bit value, read back with its
  sign.
\<close>

definition exp_word :: "time \<Rightarrow> 64 word" where
  "exp_word now = word_of_int (unix (now + confirmTTL))"

definition token_bytes :: "mac_fun \<Rightarrow> token_guard \<Rightarrow> time \<Rightarrow> bytes \<Rightarrow> string \<Rightarrow> string list \<Rightarrow> bool \<Rightarrow> bytes" where
  "token_bytes mac g now nonce op parts ordered =
     nonce @ put_uint64 (exp_word now)
     @ confirmTag mac g op (canonParts parts ordered) (exp_word now) nonce"

definition Issue :: "mac_fun \<Rightarrow> time \<Rightarrow> bytes \<Rightarrow> time \<Rightarrow> string \<Rightarrow> summary \<Rightarrow> string list \<Rightarrow> bool
    \<Rightarrow> token_guard \<Rightarrow> token_guard \<times> string \<times> time" where
  "Issue mac now nonce now2 op s parts ordered g =
     (let tok = token_bytes mac g now nonce op parts ordered
      in (recordCost now2 tok s (sint (exp_word now)) g, b64_encode tok, now + confirmTTL))"

definition tok_nonce :: "bytes \<Rightarrow> bytes" where
  "tok_nonce raw = take confirmNonce raw"

definition tok_exp :: "bytes \<Rightarrow> 64 word" where
  "tok_exp raw = get_uint64 (take confirmExpLen (drop confirmNonce raw))"

definition tok_tag :: "bytes \<Rightarrow> bytes" where
  "tok_tag raw = drop (confirmNonce + confirmExpLen) raw"

definition verifyToken :: "mac_fun \<Rightarrow> time \<Rightarrow> string \<Rightarrow> string \<Rightarrow> string list \<Rightarrow> bool \<Rightarrow> token_guard
    \<Rightarrow> bytes option" where
  "verifyToken mac now token op parts ordered g =
     (case b64_decode token of
        None \<Rightarrow> None
      | Some raw \<Rightarrow>
          if length raw \<noteq> confirmTokLen then None
          else if b64_encode raw \<noteq> token then None
          else if unix now > sint (tok_exp raw) then None
          else if tok_tag raw \<noteq> confirmTag mac g op (canonParts parts ordered) (tok_exp raw) (tok_nonce raw)
            then None
          else Some raw)"

definition Peek :: "mac_fun \<Rightarrow> time \<Rightarrow> string \<Rightarrow> string \<Rightarrow> string list \<Rightarrow> bool \<Rightarrow> token_guard
    \<Rightarrow> summary option" where
  "Peek mac now token op parts ordered g =
     (case verifyToken mac now token op parts ordered g of
        None \<Rightarrow> None
      | Some raw \<Rightarrow>
          if tget (seen g) raw \<noteq> None then None
          else map_option (\<lambda>rec. \<lparr>sum_Files = ic_files rec, sum_Bytes = ic_bytes rec,
                 sum_Warnings = [], sum_Capped = ic_capped rec\<rparr>) (tget (issued g) raw))"

definition ErrConfirmInvalid :: error where
  "ErrConfirmInvalid = [Opaque ''confirmation token is invalid or expired'', Own ErrBadName]"

text \<open>\<open>Redeem\<close> reads the clock twice: \<open>now\<close> in verifyToken and \<open>now2\<close> for the sweep.\<close>

definition Redeem :: "mac_fun \<Rightarrow> time \<Rightarrow> time \<Rightarrow> string \<Rightarrow> string \<Rightarrow> string list \<Rightarrow> bool \<Rightarrow> token_guard
    \<Rightarrow> error option \<times> token_guard" where
  "Redeem mac now now2 token op parts ordered g =
     (case verifyToken mac now token op parts ordered g of
        None \<Rightarrow> (Some ErrConfirmInvalid, g)
      | Some raw \<Rightarrow>
          let g1 = sweepLocked (unix now2) g
          in if tget (seen g1) raw \<noteq> None then (Some ErrConfirmInvalid, g1)
             else (None, g1\<lparr>seen := tput raw (sint (tok_exp raw)) (seen g1),
                            issued := tdel raw (issued g1)\<rparr>))"

definition NeedsConfirm :: "op \<Rightarrow> int \<Rightarrow> int \<Rightarrow> bool" where
  "NeedsConfirm op cnt n =
     (if op AND writeOps = 0 then False else cnt > confirmFileMax \<or> n > confirmByteMax)"

subsection \<open>The encodings round-trip\<close>

lemma get_uint64_digits:
  "foldl (\<lambda>n b. 256 * n + of_char b) m (map (\<lambda>i. char_of (n div 256 ^ i mod 256)) (rev [0..<k]))
   = m * 256 ^ k + n mod (256 :: nat) ^ k"
proof (induction k arbitrary: m)
  case (Suc k)
  have "n mod 256 ^ Suc k = 256 ^ k * (n div 256 ^ k mod 256) + n mod 256 ^ k"
    using mod_mult2_eq [of n "256 ^ k" 256] by (simp add: mult.commute)
  with Suc [of "256 * m + of_char (char_of (n div 256 ^ k mod 256))"] show ?case
    by (simp add: algebra_simps)
qed simp

lemma put_uint64_rev: "put_uint64 w = map (\<lambda>i. char_of (unat w div 256 ^ i mod 256)) (rev [0..<8])"
proof -
  have "rev [0..<8] = [7, 6, 5, 4, 3, 2, 1, 0 :: nat]" by code_simp
  then show ?thesis by (simp add: put_uint64_def)
qed

lemma length_put_uint64 [simp]: "length (put_uint64 w) = 8"
  by (simp add: put_uint64_def)

lemma get_put_uint64 [simp]: "get_uint64 (put_uint64 w) = w"
proof -
  have "unat w < 256 ^ 8" using unsigned_less [of w] by simp
  then have "foldl (\<lambda>n b. 256 * n + of_char b) 0 (put_uint64 w) = unat w"
    unfolding put_uint64_rev get_uint64_digits by simp
  then show ?thesis by (simp add: get_uint64_def)
qed

lemma put_uint64_inject [simp]: "put_uint64 v = put_uint64 w \<longleftrightarrow> v = w"
  by (metis get_put_uint64)

lemma append_put_uint64_inject [simp]:
  "put_uint64 v @ s = put_uint64 w @ t \<longleftrightarrow> v = w \<and> s = t"
  by (simp add: append_eq_append_conv)

text \<open>The 6-bit values of an encoding.\<close>

fun sixes :: "bytes \<Rightarrow> nat list" where
  "sixes [] = []"
| "sixes [a] = (let n = of_char a * 65536 in [n div 262144, n div 4096 mod 64])"
| "sixes [a, b] =
     (let n = of_char a * 65536 + of_char b * 256 in [n div 262144, n div 4096 mod 64, n div 64 mod 64])"
| "sixes (a # b # c # bs) =
     (let n = of_char a * 65536 + of_char b * 256 + of_char c
      in n div 262144 # n div 4096 mod 64 # n div 64 mod 64 # n mod 64 # sixes bs)"

lemma b64_encode_sixes: "b64_encode bs = map b64_char (sixes bs)"
  by (induction bs rule: b64_encode.induct) (simp_all add: Let_def)

lemma div_sixes:
  "(n :: nat) div 262144 = n div 64 div 64 div 64" "n div 4096 = n div 64 div 64"
  by (simp_all add: div_mult2_eq [symmetric])

lemma top_six: "n < 16777216 \<Longrightarrow> (n :: nat) div 262144 < 64"
  by (simp add: less_mult_imp_div_less)

lemma sixes_less: "list_all (\<lambda>v. v < 64) (sixes bs)"
proof (induction bs rule: sixes.induct)
  case (2 a)
  then show ?case using of_char_less [of a] by (simp add: Let_def less_mult_imp_div_less)
next
  case (3 a b)
  have "of_char a * 65536 + of_char b * 256 < (16777216 :: nat)"
    using of_char_less [of a] of_char_less [of b] by linarith
  then show ?case by (simp add: Let_def top_six)
next
  case (4 a b c bs)
  have "of_char a * 65536 + of_char b * 256 + of_char c < (16777216 :: nat)"
    using of_char_less [of a] of_char_less [of b] of_char_less [of c] by linarith
  with 4 show ?case by (simp add: Let_def top_six)
qed simp

lemma b64_alphabet_facts:
  "list_all (\<lambda>k. b64_val (b64_char k) = Some k \<and> b64_char k \<noteq> CHR 0x0A \<and> b64_char k \<noteq> CHR 0x0D) [0..<64]"
  by code_simp

lemma b64_values_map: "list_all (\<lambda>v. v < 64) vs \<Longrightarrow> b64_values (map b64_char vs) = Some vs"
  using b64_alphabet_facts by (induction vs) (simp_all add: list_all_iff)

lemma six_arith: "(n :: nat) div 262144 * 64 + n div 4096 mod 64 = n div 4096"
    "n div 4096 * 64 + n div 64 mod 64 = n div 64" "n div 64 * 64 + n mod 64 = n"
  by (simp_all add: div_sixes)

lemma six_sum3:
  "(n :: nat) div 262144 * 4096 + n div 4096 mod 64 * 64 + n div 64 mod 64 = n div 64"
  using six_arith [of n] by linarith

lemma six_sum4:
  "(n :: nat) div 262144 * 262144 + n div 4096 mod 64 * 4096 + n div 64 mod 64 * 64 + n mod 64 = n"
  using six_arith [of n] by linarith

lemma bytes_of_sum:
  assumes "b < 256" "c < (256 :: nat)" "n = a * 65536 + b * 256 + c"
  shows "n div 65536 = a" "n div 256 mod 256 = b" "n mod 256 = c"
proof -
  define x where "x = a * 256 + b"
  have n: "n = x * 256 + c" using assms(3) by (simp add: x_def)
  then have m: "n div 256 = x" using assms(2) by simp
  moreover have "x div 256 = a" "x mod 256 = b" using assms(1) by (simp_all add: x_def)
  ultimately show "n div 65536 = a" "n div 256 mod 256 = b"
    using div_mult2_eq [of n 256 256] by simp_all
  show "n mod 256 = c" using assms(2) by (simp add: n)
qed

lemma b64_groups_sixes: "b64_groups (sixes bs) = Some bs"
proof (induction bs rule: sixes.induct)
  case (2 a)
  define n where "n = (of_char a * 65536 :: nat)"
  have "n div 4096 div 16 = of_char a" by (simp add: n_def div_mult2_eq [symmetric])
  then show ?case
    by (simp only: sixes.simps Let_def b64_groups.simps n_def [symmetric] six_arith(1) char_of_char)
next
  case (3 a b)
  define n where "n = (of_char a * 65536 + of_char b * 256 :: nat)"
  have "n = (of_char a * 256 + of_char b) * 256" by (simp add: n_def)
  then have m: "n div 64 div 4 = of_char a * 256 + of_char b"
    by (simp only: div_mult2_eq [symmetric]) simp
  have "(of_char a * 256 + of_char b) div 256 = (of_char a :: nat)"
    "(of_char a * 256 + of_char b) mod 256 = (of_char b :: nat)"
    using of_char_less [of b] by simp_all
  then show ?case
    by (simp only: sixes.simps Let_def b64_groups.simps n_def [symmetric] six_sum3 m char_of_char)
next
  case (4 a b c bs)
  define n where "n = (of_char a * 65536 + of_char b * 256 + of_char c :: nat)"
  have "n div 65536 = of_char a" "n div 256 mod 256 = of_char b" "n mod 256 = of_char c"
    using bytes_of_sum [OF of_char_less of_char_less n_def] by simp_all
  with 4 show ?case
    by (simp only: sixes.simps Let_def b64_groups.simps n_def [symmetric] six_sum4 char_of_char
        option.map)
qed simp

lemma b64_decode_encode [simp]: "b64_decode (b64_encode bs) = Some bs"
  by (simp add: b64_decode_def b64_encode_sixes b64_values_map sixes_less b64_groups_sixes)

subsection \<open>What the HMAC covers\<close>

lemma of_nat_64_inject:
  "(a :: nat) < 2 ^ 64 \<Longrightarrow> b < 2 ^ 64 \<Longrightarrow> (of_nat a :: 64 word) = of_nat b \<longleftrightarrow> a = b"
  by (simp add: word_of_nat_eq_iff take_bit_nat_eq_self)

lemma write_field_inject:
  assumes "length b < 2 ^ 64" "length c < 2 ^ 64"
  shows "write_field b @ s = write_field c @ t \<longleftrightarrow> b = c \<and> s = t"
proof -
  have "(of_nat (length b) :: 64 word) = of_nat (length c) \<longleftrightarrow> length b = length c"
    using assms by (rule of_nat_64_inject)
  then show ?thesis by (auto simp: write_field_def append_eq_append_conv)
qed

lemma write_fields_inject:
  assumes "list_all (\<lambda>b. length b < 2 ^ 64) bs" "list_all (\<lambda>b. length b < 2 ^ 64) cs"
    and "length bs = length cs"
  shows "concat (map write_field bs) @ s = concat (map write_field cs) @ t \<longleftrightarrow> bs = cs \<and> s = t"
  using assms(3,1,2)
proof (induction bs cs rule: list_induct2)
  case (Cons b bs c cs)
  then show ?case by (simp add: write_field_inject)
qed simp

text \<open>Sizes that fit the length prefixes.\<close>

definition sized :: "string \<Rightarrow> string list \<Rightarrow> bool" where
  "sized op parts \<longleftrightarrow> length op < 2 ^ 64 \<and> length parts < 2 ^ 64 \<and> list_all (\<lambda>b. length b < 2 ^ 64) parts"

lemma canon_message_inject:
  assumes "sized op parts" "sized op' parts'" "length nonce < 2 ^ 64" "length nonce' < 2 ^ 64"
    and "canon_message op parts e nonce = canon_message op' parts' e' nonce'"
  shows "op = op' \<and> parts = parts' \<and> e = e' \<and> nonce = nonce'"
proof -
  from assms have 1: "op = op'"
    and 2: "(of_nat (length parts) :: 64 word) = of_nat (length parts')"
    and 3: "concat (map write_field parts) @ put_uint64 e @ write_field nonce =
      concat (map write_field parts') @ put_uint64 e' @ write_field nonce'"
    by (simp_all add: canon_message_def write_field_inject sized_def)
  from 2 assms have "length parts = length parts'"
    by (subst (asm) of_nat_64_inject) (simp_all add: sized_def)
  with 3 assms have "parts = parts'" "put_uint64 e @ write_field nonce = put_uint64 e' @ write_field nonce'"
    by (simp_all add: write_fields_inject sized_def)
  with 1 assms write_field_inject [of nonce nonce' "[]" "[]"] show ?thesis by simp
qed

lemma sized_canonParts: "sized op parts \<Longrightarrow> sized op (canonParts parts ordered)"
  by (simp add: sized_def canonParts_def sortedCopy_def list_all_iff)

subsection \<open>Verification\<close>

lemma verifyToken_Some:
  "verifyToken mac now token op parts ordered g = Some raw \<longleftrightarrow>
   token = b64_encode raw \<and> length raw = confirmTokLen \<and> unix now \<le> sint (tok_exp raw) \<and>
   tok_tag raw = confirmTag mac g op (canonParts parts ordered) (tok_exp raw) (tok_nonce raw)"
  by (auto simp: verifyToken_def split: option.splits)

lemma token_bytes_parts:
  assumes "length nonce = confirmNonce"
  shows "tok_nonce (token_bytes mac g now nonce op parts ordered) = nonce"
    "tok_exp (token_bytes mac g now nonce op parts ordered) = exp_word now"
    "tok_tag (token_bytes mac g now nonce op parts ordered)
     = confirmTag mac g op (canonParts parts ordered) (exp_word now) nonce"
  using assms
  by (simp_all add: token_bytes_def tok_nonce_def tok_exp_def tok_tag_def confirm_consts)

lemma verifyToken_issued:
  assumes "length nonce = confirmNonce"
    and "length (confirmTag mac g op (canonParts parts ordered) (exp_word now) nonce) = confirmTagLen"
    and "unix now' \<le> sint (exp_word now)"
  shows "verifyToken mac now' (b64_encode (token_bytes mac g now nonce op parts ordered)) op parts ordered g
    = Some (token_bytes mac g now nonce op parts ordered)"
proof -
  let ?raw = "token_bytes mac g now nonce op parts ordered"
  have "length ?raw = confirmTokLen" using assms by (simp add: token_bytes_def confirm_consts)
  then show ?thesis using assms by (simp add: verifyToken_Some token_bytes_parts)
qed

text \<open>Verification looks at nothing but the key.\<close>

lemma verifyToken_key:
  assumes "serverKey g = serverKey g'"
  shows "verifyToken mac now token op parts ordered g = verifyToken mac now token op parts ordered g'"
proof -
  have "confirmTag mac g = confirmTag mac g'" using assms by (simp add: confirmTag_def fun_eq_iff)
  then show ?thesis by (simp only: verifyToken_def)
qed

subsection \<open>The ledger as a machine\<close>

datatype token_event =
    EvIssue time bytes time string summary "string list" bool
  | EvRedeem time time string string "string list" bool
  | EvPeek time string string "string list" bool

fun token_step :: "mac_fun \<Rightarrow> token_guard \<Rightarrow> token_event \<Rightarrow> token_guard" where
  "token_step mac g (EvIssue t nonce t2 op s parts ordered) = fst (Issue mac t nonce t2 op s parts ordered g)"
| "token_step mac g (EvRedeem t t2 tok op parts ordered) = snd (Redeem mac t t2 tok op parts ordered g)"
| "token_step mac g (EvPeek t tok op parts ordered) = g"

text \<open>The last clock reading of an event, the one a sweep is done with.\<close>

fun sweep_time :: "token_event \<Rightarrow> time" where
  "sweep_time (EvIssue t nonce t2 op s parts ordered) = t2"
| "sweep_time (EvRedeem t t2 tok op parts ordered) = t2"
| "sweep_time (EvPeek t tok op parts ordered) = t"

definition ledger_ok :: "token_guard \<Rightarrow> bool" where
  "ledger_ok g \<longleftrightarrow> table_ok (seen g) \<and> table_ok (issued g) \<and> tlen (issued g) \<le> maxIssuedCosts \<and>
     (\<forall>raw e. tget (seen g) raw = Some e \<longrightarrow> e = sint (tok_exp raw))"

lemma sweep_seen:
  "table_ok (seen g) \<Longrightarrow>
   tget (seen (sweepLocked now g)) raw =
     (case tget (seen g) raw of None \<Rightarrow> None | Some e \<Rightarrow> if now > e then None else Some e)"
  by (simp add: sweepLocked_def tget_tkeep split: option.split)

lemma ledger_ok_sweep [inv_intros]: "ledger_ok g \<Longrightarrow> ledger_ok (sweepLocked now g)"
  using tlen_tkeep_le [of _ "issued g"]
  by (auto simp: ledger_ok_def sweep_seen split: option.splits if_splits)
    (auto simp: sweepLocked_def intro: le_trans [OF tlen_tkeep_le])

lemma ledger_ok_recordCost [inv_intros]: "ledger_ok g \<Longrightarrow> ledger_ok (recordCost now key s e g)"
  using ledger_ok_sweep [of g "unix now"]
  by (auto simp: recordCost_def Let_def ledger_ok_def intro!: alist.put_bounded)

lemma ledger_ok_Redeem [inv_intros]:
  assumes "ledger_ok g"
  shows "ledger_ok (snd (Redeem mac t t2 tok op parts ordered g))"
proof (cases "verifyToken mac t tok op parts ordered g")
  case (Some raw)
  have s: "ledger_ok (sweepLocked (unix t2) g)" using assms by (rule ledger_ok_sweep)
  then have "tlen (tdel raw (issued (sweepLocked (unix t2) g))) \<le> maxIssuedCosts"
    by (auto simp: ledger_ok_def intro: le_trans [OF tlen_tdel_le])
  with s Some show ?thesis by (simp add: Redeem_def Let_def ledger_ok_def)
qed (use assms in \<open>simp add: Redeem_def\<close>)

lemma ledger_ok_step: "ledger_ok g \<Longrightarrow> ledger_ok (token_step mac g ev)"
  by (cases ev) (auto simp: Issue_def Let_def intro: inv_intros)

interpretation ledger: invariant_machine "token_step mac" ledger_ok
  by unfold_locales (rule ledger_ok_step)

lemma serverKey_step [simp]: "serverKey (token_step mac g ev) = serverKey g"
  by (cases ev) (auto simp: Issue_def Redeem_def recordCost_def sweepLocked_def Let_def split: option.split)

text \<open>A spent token stays spent as long as no sweep reads a clock past its expiry.\<close>

definition spent :: "bytes \<Rightarrow> token_guard \<Rightarrow> bool" where
  "spent raw g \<longleftrightarrow> tget (seen g) raw \<noteq> None"

lemma spent_sweep:
  "ledger_ok g \<Longrightarrow> spent raw g \<Longrightarrow> now \<le> sint (tok_exp raw) \<Longrightarrow> spent raw (sweepLocked now g)"
  by (auto simp: spent_def ledger_ok_def sweep_seen split: option.splits)

lemma spent_recordCost:
  "ledger_ok g \<Longrightarrow> spent raw g \<Longrightarrow> unix now \<le> sint (tok_exp raw) \<Longrightarrow> spent raw (recordCost now key s e g)"
  using spent_sweep [of g raw "unix now"] by (auto simp: recordCost_def Let_def spent_def)

lemma spent_Redeem:
  assumes "ledger_ok g" "spent raw g" "unix t2 \<le> sint (tok_exp raw)"
  shows "spent raw (snd (Redeem mac t t2 tok op parts ordered g))"
  using assms spent_sweep [OF assms]
  by (cases "verifyToken mac t tok op parts ordered g") (auto simp: Redeem_def Let_def spent_def)

lemma spent_step:
  assumes "ledger_ok g" "spent raw g" "unix (sweep_time ev) \<le> sint (tok_exp raw)"
  shows "spent raw (token_step mac g ev)"
  using assms
  by (cases ev) (auto simp: Issue_def Let_def intro: spent_recordCost spent_Redeem)

lemma Redeem_ok_spends:
  assumes "Redeem mac t t2 tok op parts ordered g = (None, g')"
  shows "\<exists>raw. verifyToken mac t tok op parts ordered g = Some raw \<and> spent raw g'"
  using assms
  by (cases "verifyToken mac t tok op parts ordered g")
    (auto simp: Redeem_def Let_def spent_def split: if_splits)

lemma Redeem_spent_refused:
  assumes "ledger_ok g" "spent raw g" "tok = b64_encode raw" "unix t2 \<le> sint (tok_exp raw)"
  shows "fst (Redeem mac t t2 tok op parts ordered g) = Some ErrConfirmInvalid"
proof (cases "verifyToken mac t tok op parts ordered g")
  case (Some raw')
  then have "b64_encode raw' = b64_encode raw" using assms(3) by (simp add: verifyToken_Some)
  then have "raw' = raw" by (metis b64_decode_encode option.inject)
  with Some spent_sweep [OF assms(1,2,4)] show ?thesis by (simp add: Redeem_def Let_def spent_def)
qed (simp add: Redeem_def)

text \<open>A sample guard, key and message authentication code for the witnesses.\<close>

definition sample_mac :: mac_fun where
  "sample_mac key msg = take 32 (rev msg @ key @ replicate 32 CHR 0x00)"

definition sample_tokens :: token_guard where
  "sample_tokens = guard.extend (newGuard ''/share/app'' False)
     \<lparr>serverKey = ''key'', seen = [], issued = []\<rparr>"

definition sample_summary :: summary where
  "sample_summary = \<lparr>sum_Files = 3, sum_Bytes = 10, sum_Warnings = [], sum_Capped = False\<rparr>"

definition sample_nonce :: bytes where
  "sample_nonce = ''0123456789abcdef''"

definition sample_issue :: "token_guard \<times> string \<times> time" where
  "sample_issue = Issue sample_mac 0 sample_nonce 0 ''delete'' sample_summary [''/b'', ''/a''] False sample_tokens"

definition sample_tok :: string where
  "sample_tok = fst (snd sample_issue)"

definition sample_raw :: bytes where
  "sample_raw = token_bytes sample_mac sample_tokens 0 sample_nonce ''delete'' [''/b'', ''/a''] False"

definition sample_redeem :: "time \<Rightarrow> time \<Rightarrow> token_guard \<Rightarrow> error option \<times> token_guard" where
  "sample_redeem t t2 g = Redeem sample_mac t t2 sample_tok ''delete'' [''/a'', ''/b''] False g"

lemma sample_tokens_sel: "serverKey sample_tokens = ''key''" "seen sample_tokens = []" "issued sample_tokens = []"
  by (simp_all add: sample_tokens_def guard.defs)

lemma sample_ledger_ok: "ledger_ok sample_tokens"
  by (simp add: ledger_ok_def sample_tokens_def guard.defs tlen_def maxIssuedCosts_def)

lemma sample_tok_raw: "sample_tok = b64_encode sample_raw"
  by (simp add: sample_tok_def sample_issue_def sample_raw_def Issue_def Let_def)

lemma sample_issue_ok: "ledger_ok (fst sample_issue)"
  using ledger_ok_step [OF sample_ledger_ok,
      of sample_mac "EvIssue 0 sample_nonce 0 ''delete'' sample_summary [''/b'', ''/a''] False"]
  by (simp add: sample_issue_def)

lemma sample_exp: "exp_word 0 = 60" "tok_exp sample_raw = 60"
proof -
  show e: "exp_word 0 = 60" by (simp add: exp_word_def unix_def confirmTTL_def)
  show "tok_exp sample_raw = 60"
    by (simp add: sample_raw_def token_bytes_parts e sample_nonce_def confirmNonce_def)
qed

lemma sample_parts: "canonParts [''/b'', ''/a''] False = [''/a'', ''/b'']"
    "canonParts [''/a'', ''/b''] False = [''/a'', ''/b'']"
  by (simp_all add: canonParts_def sortedCopy_def)

lemma sample_verify:
  assumes "serverKey g = ''key''" "unix t \<le> 60"
  shows "verifyToken sample_mac t sample_tok ''delete'' [''/a'', ''/b''] False g = Some sample_raw"
proof -
  have "verifyToken sample_mac t sample_tok ''delete'' [''/b'', ''/a''] False sample_tokens = Some sample_raw"
    unfolding sample_tok_raw sample_raw_def using assms(2)
    by (intro verifyToken_issued)
      (simp_all add: sample_nonce_def confirm_consts sample_exp confirmTag_def sample_mac_def)
  then have "verifyToken sample_mac t sample_tok ''delete'' [''/a'', ''/b''] False sample_tokens = Some sample_raw"
    by (simp add: verifyToken_Some sample_parts)
  then show ?thesis using verifyToken_key [of g sample_tokens] assms(1) by (simp add: sample_tokens_sel)
qed

lemma sample_issue_sel: "serverKey (fst sample_issue) = ''key''" "seen (fst sample_issue) = []"
  by (simp_all add: sample_issue_def Issue_def Let_def recordCost_def sweepLocked_def tkeep_def
      sample_tokens_def guard.defs)

lemma sample_first_redeem:
  shows "fst (sample_redeem 0 0 (fst sample_issue)) = None"
    and "serverKey (snd (sample_redeem 0 0 (fst sample_issue))) = ''key''"
    and "spent sample_raw (snd (sample_redeem 0 0 (fst sample_issue)))"
    and "ledger_ok (snd (sample_redeem 0 0 (fst sample_issue)))"
proof -
  have v: "verifyToken sample_mac 0 sample_tok ''delete'' [''/a'', ''/b''] False (fst sample_issue) = Some sample_raw"
    by (intro sample_verify) (simp_all add: sample_issue_sel unix_def)
  have "tget (seen (sweepLocked (unix 0) (fst sample_issue))) sample_raw = None"
    by (simp add: sweepLocked_def sample_issue_sel tkeep_def)
  then have r: "sample_redeem 0 0 (fst sample_issue) = (None,
     (sweepLocked (unix 0) (fst sample_issue))
       \<lparr>seen := tput sample_raw 60 (seen (sweepLocked (unix 0) (fst sample_issue))),
        issued := tdel sample_raw (issued (sweepLocked (unix 0) (fst sample_issue)))\<rparr>)"
    by (simp add: sample_redeem_def Redeem_def v Let_def sample_exp)
  then show "fst (sample_redeem 0 0 (fst sample_issue)) = None" by simp
  show "serverKey (snd (sample_redeem 0 0 (fst sample_issue))) = ''key''"
    using r by (simp add: sweepLocked_def sample_issue_sel)
  show "spent sample_raw (snd (sample_redeem 0 0 (fst sample_issue)))"
    using r by (simp add: spent_def)
  show "ledger_ok (snd (sample_redeem 0 0 (fst sample_issue)))"
    unfolding sample_redeem_def by (intro ledger_ok_Redeem sample_issue_ok)
qed

subsection \<open>Properties\<close>

text \<open>
  C3: A confirmation token is single use. Once Redeem has accepted a token, every later Redeem of
  the same token, for any operation and parts, is refused with ErrConfirmInvalid, whatever Issue,
  Redeem and Peek calls run in between, as long as the clock readings the sweeps are done with
  (those of the calls in between and the second reading of the later Redeem) are not past the
  second of the token's expiry.
\<close>

theorem token_single_use:
  assumes "ledger_ok g" and "Redeem mac t t2 tok op parts ordered g = (None, g')"
    and "b64_decode tok = Some raw"
    and "list_all (\<lambda>ev. unix (sweep_time ev) \<le> sint (tok_exp raw)) evs"
    and "unix t2' \<le> sint (tok_exp raw)"
  shows "fst (Redeem mac t' t2' tok op' parts' ordered' (foldl (token_step mac) g' evs)) = Some ErrConfirmInvalid"
proof -
  from Redeem_ok_spends [OF assms(2)] obtain raw' where
    v: "verifyToken mac t tok op parts ordered g = Some raw'" "spent raw' g'" by blast
  then have tok: "tok = b64_encode raw'" by (simp add: verifyToken_Some)
  with assms(3) have raw: "raw' = raw" by simp
  have g': "ledger_ok g'" using ledger_ok_Redeem [OF assms(1), of mac t t2 tok op parts ordered] assms(2) by simp
  have "spent raw (foldl (token_step mac) g' evs)"
    using g' v(2) assms(4) unfolding raw
    by (intro ledger.run_invariant_of [where P = "spent raw"
          and Q = "\<lambda>ev. unix (sweep_time ev) \<le> sint (tok_exp raw)"]) (auto intro: spent_step)
  with ledger.run_inv [OF g'] tok raw assms(5) show ?thesis by (intro Redeem_spent_refused) auto
qed

theorem token_single_use_witness:
  "fst (sample_redeem (59 * 10 ^ 9) (60 * 10 ^ 9)
     (foldl (token_step sample_mac) (snd (sample_redeem 0 0 (fst sample_issue))) [])) = Some ErrConfirmInvalid"
proof -
  have "sample_redeem 0 0 (fst sample_issue) = (None, snd (sample_redeem 0 0 (fst sample_issue)))"
    using sample_first_redeem(1) by (metis prod.collapse)
  note r = this [unfolded sample_redeem_def]
  have d: "b64_decode sample_tok = Some sample_raw" by (simp add: sample_tok_raw)
  have "unix (60 * 10 ^ 9) \<le> sint (tok_exp sample_raw)" by (simp add: sample_exp unix_def)
  then show ?thesis
    unfolding sample_redeem_def
    by (intro token_single_use [OF sample_issue_ok r d]) simp_all
qed

text \<open>
  What the second clock reading costs. A spent token is accepted again when verifyToken still
  reads the second of its expiry and the sweep then reads a later one: the sweep drops the record
  that said it was spent.
\<close>

theorem spent_token_returns:
  assumes "ledger_ok g" and "spent raw g" and "verifyToken mac t tok op parts ordered g = Some raw"
    and "unix t2 > sint (tok_exp raw)"
  shows "fst (Redeem mac t t2 tok op parts ordered g) = None"
proof -
  have "tget (seen (sweepLocked (unix t2) g)) raw = None"
    using assms by (auto simp: sweep_seen ledger_ok_def spent_def)
  with assms(3) show ?thesis by (simp add: Redeem_def Let_def)
qed

theorem spent_token_returns_witness:
  "fst (sample_redeem 0 0 (fst sample_issue)) = None \<and>
   fst (sample_redeem (60 * 10 ^ 9 + 999) (61 * 10 ^ 9) (snd (sample_redeem 0 0 (fst sample_issue)))) = None"
proof -
  have "verifyToken sample_mac (60 * 10 ^ 9 + 999) sample_tok ''delete'' [''/a'', ''/b''] False
      (snd (sample_redeem 0 0 (fst sample_issue))) = Some sample_raw"
    by (intro sample_verify) (simp_all add: sample_first_redeem unix_def)
  moreover have "unix (61 * 10 ^ 9) > sint (tok_exp sample_raw)" by (simp add: sample_exp unix_def)
  ultimately show ?thesis
    using spent_token_returns [OF sample_first_redeem(4,3)] sample_first_redeem(1)
    by (simp add: sample_redeem_def)
qed

text \<open>
  A freshly issued token works: with a 16-byte nonce, an HMAC of 32 bytes, the same operation
  and the same parts (in any order, for an unordered operation) it is accepted until the second of
  its expiry, provided it was not already among the spent ones.
\<close>

theorem issued_token_redeems:
  assumes "Issue mac t nonce t2 op s parts ordered g = (g', tok, e)"
    and "length nonce = confirmNonce"
    and "length (confirmTag mac g op (canonParts parts ordered) (exp_word t) nonce) = confirmTagLen"
    and "unix t' \<le> sint (exp_word t)" and "mset parts' = mset parts" and "ordered \<longrightarrow> parts' = parts"
    and "ledger_ok g" and "\<not> spent (token_bytes mac g t nonce op parts ordered) g"
  shows "fst (Redeem mac t' t2' tok op parts' ordered g') = None"
proof -
  let ?raw = "token_bytes mac g t nonce op parts ordered"
  have g': "g' = recordCost t2 ?raw s (sint (exp_word t)) g" and tok: "tok = b64_encode ?raw"
    using assms(1) by (simp_all add: Issue_def Let_def)
  have key: "serverKey g' = serverKey g"
    by (simp add: g' recordCost_def sweepLocked_def Let_def)
  have parts: "canonParts parts' ordered = canonParts parts ordered"
    using assms(5,6) by (cases ordered) (simp_all add: canonParts_def sortedCopy_def properties_for_sort)
  have "verifyToken mac t' tok op parts ordered g = Some ?raw"
    unfolding tok using assms(2-4) by (rule verifyToken_issued)
  then have "verifyToken mac t' tok op parts' ordered g = Some ?raw"
    by (simp add: verifyToken_Some parts)
  then have v: "verifyToken mac t' tok op parts' ordered g' = Some ?raw"
    using verifyToken_key [OF key] by simp
  have ok: "ledger_ok g'" unfolding g' using assms(7) by (rule ledger_ok_recordCost)
  have "tget (seen g') ?raw = None"
    using assms(7,8) by (auto simp: g' recordCost_def Let_def sweep_seen spent_def ledger_ok_def)
  then have "tget (seen (sweepLocked (unix t2') g')) ?raw = None"
    using ok by (simp add: sweep_seen ledger_ok_def)
  with v show ?thesis by (simp add: Redeem_def Let_def)
qed

theorem issued_token_redeems_witness:
  "fst (Redeem sample_mac 5 6 (fst (snd sample_issue)) ''delete'' [''/a'', ''/b''] False (fst sample_issue)) = None"
proof -
  have i: "Issue sample_mac 0 sample_nonce 0 ''delete'' sample_summary [''/b'', ''/a''] False sample_tokens
      = (fst sample_issue, fst (snd sample_issue), snd (snd sample_issue))"
    by (simp add: sample_issue_def)
  show ?thesis
    by (rule issued_token_redeems [OF i])
      (simp_all add: sample_nonce_def confirm_consts sample_exp unix_def sample_ledger_ok confirmTag_def
        sample_mac_def spent_def sample_tokens_sel add_mset_commute)
qed

text \<open>
  C4: A token authorises one operation only. If one token verifies for two operations under one
  key, then they are the same operation on the same canonical parts, or the HMAC gives one tag for
  two different messages that the theorem names: the length-prefixed encoding leaves no other way
  for a token of one operation to pass for another.
\<close>

theorem token_binds_operation:
  assumes "verifyToken mac t tok op parts ordered g = Some raw"
    and "verifyToken mac t' tok op' parts' ordered' g' = Some raw'"
    and "serverKey g' = serverKey g" and "sized op parts" and "sized op' parts'"
  shows "raw' = raw \<and>
    ((op' = op \<and> canonParts parts' ordered' = canonParts parts ordered) \<or>
     (canon_message op' (canonParts parts' ordered') (tok_exp raw) (tok_nonce raw)
        \<noteq> canon_message op (canonParts parts ordered) (tok_exp raw) (tok_nonce raw) \<and>
      mac (serverKey g) (canon_message op' (canonParts parts' ordered') (tok_exp raw) (tok_nonce raw))
        = mac (serverKey g) (canon_message op (canonParts parts ordered) (tok_exp raw) (tok_nonce raw))))"
proof -
  have "b64_encode raw' = b64_encode raw" using assms(1,2) by (simp add: verifyToken_Some)
  then have raw: "raw' = raw" by (metis b64_decode_encode option.inject)
  have n: "length (tok_nonce raw) < 2 ^ 64" by (simp add: tok_nonce_def confirmNonce_def)
  have "canon_message op' (canonParts parts' ordered') (tok_exp raw) (tok_nonce raw)
      = canon_message op (canonParts parts ordered) (tok_exp raw) (tok_nonce raw) \<Longrightarrow>
    op' = op \<and> canonParts parts' ordered' = canonParts parts ordered"
    using canon_message_inject [OF sized_canonParts sized_canonParts n n] assms(4,5) by blast
  moreover have "mac (serverKey g) (canon_message op' (canonParts parts' ordered') (tok_exp raw) (tok_nonce raw))
      = mac (serverKey g) (canon_message op (canonParts parts ordered) (tok_exp raw) (tok_nonce raw))"
    using assms(1-3) by (simp add: verifyToken_Some confirmTag_def raw)
  ultimately show ?thesis using raw by blast
qed

theorem token_binds_operation_witness:
  "canonParts [''/b'', ''/a''] False = canonParts [''/a'', ''/b''] False"
proof -
  have v: "verifyToken sample_mac 0 sample_tok ''delete'' [''/a'', ''/b''] False sample_tokens = Some sample_raw"
    by (intro sample_verify) (simp_all add: sample_tokens_sel unix_def)
  have s: "sized ''delete'' [''/a'', ''/b'']" "sized ''delete'' [''/b'', ''/a'']"
    by (simp_all add: sized_def)
  have v': "verifyToken sample_mac 0 sample_tok ''delete'' [''/b'', ''/a''] False sample_tokens = Some sample_raw"
    using v by (simp add: verifyToken_Some sample_parts)
  show ?thesis using token_binds_operation [OF v v' refl s] sample_parts by simp
qed

text \<open>
  The ledgers stay bounded. Whatever sequence of Issue, Redeem and Peek calls runs on a guard
  whose ledgers are empty, at most 4096 cost records are remembered, no token has two records, and
  a spent token is remembered with exactly the expiry it carries.
\<close>

theorem ledger_bounded:
  assumes "seen g = []" and "issued g = []"
  shows "tlen (issued (foldl (token_step mac) g evs)) \<le> 4096 \<and>
    table_ok (issued (foldl (token_step mac) g evs)) \<and> table_ok (seen (foldl (token_step mac) g evs)) \<and>
    (tget (seen (foldl (token_step mac) g evs)) raw = None \<or>
     tget (seen (foldl (token_step mac) g evs)) raw = Some (sint (tok_exp raw)))"
proof -
  have "ledger_ok g" using assms by (simp add: ledger_ok_def tlen_def)
  then have "ledger_ok (foldl (token_step mac) g evs)" by (rule ledger.run_inv)
  then show ?thesis
    by (cases "tget (seen (foldl (token_step mac) g evs)) raw") (auto simp: ledger_ok_def maxIssuedCosts_def)
qed

theorem ledger_bounded_witness:
  "tlen (issued (foldl (token_step sample_mac) sample_tokens [EvPeek 0 sample_tok ''delete'' [] False])) \<le> 4096"
proof -
  show ?thesis using sample_tokens_sel(2,3) by (rule ledger_bounded [THEN conjunct1])
qed

end
