(* ===== verification/Perm.thy ===== *)
theory Perm
  imports Confirm
begin

unbundle bit_operations_syntax

section \<open>Modes and ACL states (internal/perm/perm.go, internal/fsx/entry.go)\<close>

text \<open>
  Mode arithmetic on 32-bit words, the rendering of a mode, the comparison of what was asked with
  what the kernel did, and the judgement whether an NFSv4 ACL says more than the mode. Entries carry
  their mode as an octal string, as on the wire.
\<close>

subsection \<open>io/fs.FileMode and strconv\<close>

type_synonym filemode = "32 word"

definition fsModeDir :: filemode where "fsModeDir = push_bit 31 1"
definition fsModeSymlink :: filemode where "fsModeSymlink = push_bit 27 1"
definition fsModeDevice :: filemode where "fsModeDevice = push_bit 26 1"
definition fsModeNamedPipe :: filemode where "fsModeNamedPipe = push_bit 25 1"
definition fsModeSocket :: filemode where "fsModeSocket = push_bit 24 1"
definition fsModeSetuid :: filemode where "fsModeSetuid = push_bit 23 1"
definition fsModeSetgid :: filemode where "fsModeSetgid = push_bit 22 1"
definition fsModeCharDevice :: filemode where "fsModeCharDevice = push_bit 21 1"
definition fsModeSticky :: filemode where "fsModeSticky = push_bit 20 1"
definition fsModeIrregular :: filemode where "fsModeIrregular = push_bit 19 1"

lemmas fsmode_defs = fsModeDir_def fsModeSymlink_def fsModeDevice_def fsModeNamedPipe_def
  fsModeSocket_def fsModeSetuid_def fsModeSetgid_def fsModeCharDevice_def fsModeSticky_def
  fsModeIrregular_def

definition has_flag :: "filemode \<Rightarrow> filemode \<Rightarrow> bool" where
  "has_flag m f \<longleftrightarrow> m AND f \<noteq> 0"

definition fsPerm :: "filemode \<Rightarrow> filemode" where
  "fsPerm m = m AND 511"

definition fsIsRegular :: "filemode \<Rightarrow> bool" where
  "fsIsRegular m \<longleftrightarrow> m AND (fsModeDir OR fsModeSymlink OR fsModeNamedPipe OR fsModeSocket
     OR fsModeDevice OR fsModeCharDevice OR fsModeIrregular) = 0"

text \<open>\<open>strconv.FormatUint(n, 8)\<close> and \<open>strconv.ParseUint(s, 8, 32)\<close>.\<close>

function octal_digits :: "nat \<Rightarrow> string" where
  "octal_digits n =
     (if n < 8 then [char_of (n + 48)] else octal_digits (n div 8) @ [char_of (n mod 8 + 48)])"
  by pat_completeness auto
termination
  by (relation "measure id") auto

declare octal_digits.simps [simp del]

definition octal_val :: "string \<Rightarrow> nat" where
  "octal_val s = foldl (\<lambda>n c. 8 * n + digit_val c) 0 s"

definition is_octal :: "char \<Rightarrow> bool" where
  "is_octal c \<longleftrightarrow> 48 \<le> (of_char c :: nat) \<and> (of_char c :: nat) \<le> 55"

definition parse_octal32 :: "string \<Rightarrow> nat option" where
  "parse_octal32 s =
     (if s = [] \<or> \<not> list_all is_octal s then None
      else if octal_val s < 2 ^ 32 then Some (octal_val s) else None)"

definition pad_zeros :: "nat \<Rightarrow> string \<Rightarrow> string" where
  \<comment> \<open>the loop that prepends zeros until the string has the width\<close>
  "pad_zeros w s = replicate (w - length s) CHR ''0'' @ s"

subsection \<open>unicode/utf8.Valid\<close>

definition in_range :: "nat \<Rightarrow> nat \<Rightarrow> char \<Rightarrow> bool" where
  "in_range lo hi c \<longleftrightarrow> lo \<le> (of_char c :: nat) \<and> (of_char c :: nat) \<le> hi"

fun utf8_valid :: "bytes \<Rightarrow> bool" where
  "utf8_valid [] = True"
| "utf8_valid (a # s) =
     (if in_range 0 127 a then utf8_valid s
      else case s of
        [] \<Rightarrow> False
      | b # s1 \<Rightarrow>
          if in_range 194 223 a then in_range 128 191 b \<and> utf8_valid s1
          else case s1 of
            [] \<Rightarrow> False
          | c # s2 \<Rightarrow>
              if in_range 224 239 a then
                (if a = CHR 0xE0 then in_range 160 191 b
                 else if a = CHR 0xED then in_range 128 159 b else in_range 128 191 b)
                \<and> in_range 128 191 c \<and> utf8_valid s2
              else case s2 of
                [] \<Rightarrow> False
              | d # s3 \<Rightarrow>
                  in_range 240 244 a
                  \<and> (if a = CHR 0xF0 then in_range 144 191 b
                     else if a = CHR 0xF4 then in_range 128 143 b else in_range 128 191 b)
                  \<and> in_range 128 191 c \<and> in_range 128 191 d \<and> utf8_valid s3)"

subsection \<open>entry.go\<close>

record entry =
  ent_Name :: string
  ent_NameB64 :: string
  ent_Path :: string
  ent_PathB64 :: string
  ent_Type :: string
  ent_Size :: int
  ent_Mode :: string
  ent_ModeStr :: string
  ent_UID :: int
  ent_GID :: int
  ent_User :: string
  ent_Group :: string
  ent_MTime :: time
  ent_Nlink :: nat
  ent_IsSymlink :: bool
  ent_LinkTarget :: string
  ent_LinkTargetB64 :: string
  ent_LinkResolved :: string
  ent_LinkResolvedB64 :: string
  ent_TargetType :: string
  ent_Hidden :: bool
  ent_HasACL :: bool
  ent_ACL :: string
  ent_MountPoint :: bool
  ent_Class :: string
  ent_ShareLink :: bool
  ent_VolumeRoot :: bool

definition ACLNone :: string where "ACLNone = ''none''"
definition ACLPosix :: string where "ACLPosix = ''posix''"
definition ACLNFS4 :: string where "ACLNFS4 = ''nfs4''"
definition ACLNFS4Trivial :: string where "ACLNFS4Trivial = ''nfs4-trivial''"
definition ACLUnknown :: string where "ACLUnknown = ''unknown''"

lemmas acl_states = ACLNone_def ACLPosix_def ACLNFS4_def ACLNFS4Trivial_def ACLUnknown_def

definition ACLPresent :: "string \<Rightarrow> bool" where
  "ACLPresent s \<longleftrightarrow> s = ACLPosix \<or> s = ACLNFS4 \<or> s = ACLUnknown"

definition SetACL :: "string \<Rightarrow> entry \<Rightarrow> entry" where
  "SetACL s e = e\<lparr>ent_ACL := s, ent_HasACL := ACLPresent s\<rparr>"

definition raw_companion :: "bytes \<Rightarrow> string" where
  \<comment> \<open>empty for valid UTF-8, else the url-safe spelling of the bytes\<close>
  "raw_companion raw = (if utf8_valid raw then [] else b64_encode raw)"

definition SetName :: "bytes \<Rightarrow> entry \<Rightarrow> entry" where
  "SetName raw e = e\<lparr>ent_Name := raw, ent_NameB64 := raw_companion raw\<rparr>"

definition SetPath :: "bytes \<Rightarrow> entry \<Rightarrow> entry" where
  "SetPath raw e = e\<lparr>ent_Path := raw, ent_PathB64 := raw_companion raw\<rparr>"

definition SetLinkTarget :: "bytes \<Rightarrow> entry \<Rightarrow> entry" where
  "SetLinkTarget raw e = e\<lparr>ent_LinkTarget := raw, ent_LinkTargetB64 := raw_companion raw\<rparr>"

definition SetLinkResolved :: "bytes \<Rightarrow> entry \<Rightarrow> entry" where
  "SetLinkResolved raw e = e\<lparr>ent_LinkResolved := raw, ent_LinkResolvedB64 := raw_companion raw\<rparr>"

definition ValidSortKey :: "string \<Rightarrow> bool" where
  "ValidSortKey s \<longleftrightarrow> s \<in> {'''', ''name'', ''size'', ''mtime'', ''type''}"

definition TypeString :: "filemode \<Rightarrow> string" where
  "TypeString m =
     (if has_flag m fsModeSymlink then ''symlink''
      else if has_flag m fsModeDir then ''dir''
      else if has_flag m fsModeNamedPipe then ''fifo''
      else if has_flag m fsModeSocket then ''socket''
      else if has_flag m fsModeDevice then ''device''
      else if fsIsRegular m then ''file''
      else ''other'')"

definition special_bits :: "filemode \<Rightarrow> 32 word" where
  "special_bits m =
     (if has_flag m fsModeSetuid then 2048 else 0) OR (if has_flag m fsModeSetgid then 1024 else 0)
     OR (if has_flag m fsModeSticky then 512 else 0)"

definition ModeOctal :: "filemode \<Rightarrow> string" where
  "ModeOctal m = pad_zeros 4 (octal_digits (unat (fsPerm m OR special_bits m)))"

definition type_letter :: "filemode \<Rightarrow> char" where
  "type_letter m =
     (if has_flag m fsModeSymlink then CHR ''l''
      else if has_flag m fsModeDir then CHR ''d''
      else if has_flag m fsModeCharDevice then CHR ''c''
      else if has_flag m fsModeDevice then CHR ''b''
      else if has_flag m fsModeNamedPipe then CHR ''p''
      else if has_flag m fsModeSocket then CHR ''s''
      else CHR ''-'')"

definition set_letter :: "nat \<Rightarrow> char \<Rightarrow> char \<Rightarrow> string \<Rightarrow> string" where
  "set_letter i lower upper b = b[i := (if b ! i = CHR ''x'' then lower else upper)]"

definition ModeString :: "filemode \<Rightarrow> string" where
  "ModeString m =
     (let b0 = type_letter m # map (\<lambda>i. if bit (fsPerm m) (8 - i) then ''rwxrwxrwx'' ! i else CHR ''-'') [0..<9];
          b1 = (if has_flag m fsModeSetuid then set_letter 3 CHR ''s'' CHR ''S'' b0 else b0);
          b2 = (if has_flag m fsModeSetgid then set_letter 6 CHR ''s'' CHR ''S'' b1 else b1)
      in if has_flag m fsModeSticky then set_letter 9 CHR ''t'' CHR ''T'' b2 else b2)"

subsection \<open>perm.go\<close>

record mode_spec =
  ms_Mask :: "32 word"
  ms_Value :: "32 word"

definition ModeBits :: "32 word" where "ModeBits = 4095"
definition SpecialBits :: "32 word" where "SpecialBits = 3584"
definition Setuid :: "32 word" where "Setuid = 2048"
definition Setgid :: "32 word" where "Setgid = 1024"
definition Sticky :: "32 word" where "Sticky = 512"

definition Apply :: "mode_spec \<Rightarrow> 32 word \<Rightarrow> 32 word" where
  "Apply s cur =
     (let msk = ms_Mask s AND ModeBits
      in (cur AND ModeBits AND NOT msk) OR (ms_Value s AND msk))"

definition Touches :: "mode_spec \<Rightarrow> bool" where
  "Touches s \<longleftrightarrow> ms_Mask s AND ModeBits \<noteq> 0"

definition SetsSpecial :: "mode_spec \<Rightarrow> bool" where
  "SetsSpecial s \<longleftrightarrow> ms_Mask s AND ms_Value s AND SpecialBits \<noteq> 0"

definition Octal :: "32 word \<Rightarrow> string" where
  "Octal mode = pad_zeros 4 (octal_digits (unat (mode AND ModeBits)))"

definition Bits :: "filemode \<Rightarrow> 32 word" where
  "Bits m = fsPerm m OR (if has_flag m fsModeSetuid then Setuid else 0)
     OR (if has_flag m fsModeSetgid then Setgid else 0) OR (if has_flag m fsModeSticky then Sticky else 0)"

definition FileMode :: "32 word \<Rightarrow> bool \<Rightarrow> filemode" where
  "FileMode mode dir =
     (mode AND 511) OR (if mode AND Setuid \<noteq> 0 then fsModeSetuid else 0)
     OR (if mode AND Setgid \<noteq> 0 then fsModeSetgid else 0)
     OR (if mode AND Sticky \<noteq> 0 then fsModeSticky else 0) OR (if dir then fsModeDir else 0)"

definition EntryMode :: "entry \<Rightarrow> 32 word" where
  "EntryMode e =
     (case parse_octal32 (ent_Mode e) of None \<Rightarrow> 0 | Some v \<Rightarrow> of_nat v AND ModeBits)"

definition Symbolic :: "32 word \<Rightarrow> bool \<Rightarrow> string" where
  "Symbolic mode dir = ModeString (FileMode mode dir)"

record diff =
  df_Field :: string
  df_Want :: string
  df_Got :: string

definition onOff :: "bool \<Rightarrow> string" where
  "onOff b = (if b then ''on'' else ''off'')"

definition special_fields :: "(string \<times> 32 word) list" where
  "special_fields = [(''setuid'', Setuid), (''setgid'', Setgid), (''sticky'', Sticky)]"

definition DiffOf :: "mode_spec \<Rightarrow> int \<Rightarrow> int \<Rightarrow> entry \<Rightarrow> entry \<Rightarrow> diff list" where
  "DiffOf want wantUID wantGID before after =
     (let got = EntryMode after; wantMode = Apply want (EntryMode before)
      in (if ms_Mask want AND ModeBits \<noteq> 0 \<and> wantMode \<noteq> got
          then [\<lparr>df_Field = ''mode'', df_Want = Octal wantMode, df_Got = Octal got\<rparr>] else [])
       @ map (\<lambda>(f, b). \<lparr>df_Field = f, df_Want = onOff (wantMode AND b \<noteq> 0), df_Got = onOff (got AND b \<noteq> 0)\<rparr>)
           (filter (\<lambda>(f, b). wantMode AND b \<noteq> got AND b) special_fields)
       @ (if wantUID \<ge> 0 \<and> ent_UID after \<noteq> wantUID
          then [\<lparr>df_Field = ''uid'', df_Want = itoa wantUID, df_Got = itoa (ent_UID after)\<rparr>] else [])
       @ (if wantGID \<ge> 0 \<and> ent_GID after \<noteq> wantGID
          then [\<lparr>df_Field = ''gid'', df_Want = itoa wantGID, df_Got = itoa (ent_GID after)\<rparr>] else []))"

record caps =
  cap_Chmod :: bool
  cap_ChownUID :: bool
  cap_ChgrpTo :: "int list"
  cap_Reason :: string

definition ownerName :: "entry \<Rightarrow> string" where
  "ownerName e =
     (if ent_User e \<noteq> [] then ent_User e @ '' (uid '' @ itoa (ent_UID e) @ '')''
      else ''uid '' @ itoa (ent_UID e))"

definition CapsFor :: "int \<Rightarrow> int list \<Rightarrow> bool \<Rightarrow> entry \<Rightarrow> caps" where
  "CapsFor uid groups root e =
     (let owner = (uid = ent_UID e); chmod = (root \<or> owner)
      in \<lparr>cap_Chmod = chmod, cap_ChownUID = root,
          cap_ChgrpTo = (if root then [] else if owner then groups else []),
          cap_Reason = (if \<not> chmod then ''Owned by '' @ ownerName e
            @ ''. Only the owner or an administrator can change permissions.'' else [])\<rparr>)"

subsection \<open>The NFSv4 ACL judgement\<close>

definition nfs4BaseBits :: "32 word" where
  "nfs4BaseBits = 128 OR 8 OR push_bit 17 1 OR push_bit 20 1"

definition nfs4OwnerBaseBits :: "32 word" where
  "nfs4OwnerBaseBits = 256 OR 16 OR push_bit 18 1 OR push_bit 19 1"

definition nfs4ReadData :: "32 word" where "nfs4ReadData = 1"
definition nfs4WriteData :: "32 word" where "nfs4WriteData = 2"
definition nfs4AppendData :: "32 word" where "nfs4AppendData = 4"
definition nfs4Execute :: "32 word" where "nfs4Execute = 32"

definition nfs4RWXBits :: "32 word" where
  "nfs4RWXBits = nfs4ReadData OR nfs4WriteData OR nfs4AppendData OR nfs4Execute"

definition representableMask :: "32 word \<Rightarrow> bool \<Rightarrow> bool" where
  "representableMask msk owner =
     (let base = (if owner then nfs4BaseBits OR nfs4OwnerBaseBits else nfs4BaseBits);
          rwx = msk AND NOT base
      in if rwx AND NOT nfs4RWXBits \<noteq> 0 then False
         else if (rwx AND nfs4WriteData = 0) \<noteq> (rwx AND nfs4AppendData = 0) then False
         else True)"

definition trivialACE :: "32 word \<Rightarrow> 32 word \<Rightarrow> 32 word \<Rightarrow> string \<Rightarrow> bool" where
  "trivialACE aceType flag msk who =
     (if aceType \<noteq> 0 then False
      else if flag AND 3 \<noteq> 0 then False
      else if who \<notin> {''OWNER@'', ''GROUP@'', ''EVERYONE@''} then False
      else representableMask msk (who = ''OWNER@''))"

definition get_uint32 :: "bytes \<Rightarrow> nat" where
  "get_uint32 bs = foldl (\<lambda>n b. 256 * n + of_char b) 0 bs"

definition put_uint32 :: "nat \<Rightarrow> bytes" where
  "put_uint32 n = map (\<lambda>i. char_of (n div 256 ^ i mod 256)) [3, 2, 1, 0]"

text \<open>
  The loop over the promised entries, on the bytes not read yet. Padding after a who may be missing
  at the very end only.
\<close>

primrec ace_loop :: "nat \<Rightarrow> bytes \<Rightarrow> bool \<Rightarrow> string" where
  "ace_loop 0 rest trivial =
     (if rest \<noteq> [] then ACLUnknown else if trivial then ACLNFS4Trivial else ACLNFS4)"
| "ace_loop (Suc n) rest trivial =
     (if length rest < 16 then ACLUnknown
      else let aceType = of_nat (get_uint32 (take 4 rest));
               flag = of_nat (get_uint32 (take 4 (drop 4 rest)));
               msk = of_nat (get_uint32 (take 4 (drop 8 rest)));
               whoLen = get_uint32 (take 4 (drop 12 rest));
               rest1 = drop 16 rest
           in if length rest1 < whoLen then ACLUnknown
              else let who = trim_right_char CHR 0x00 (take whoLen rest1);
                       pad = (if whoLen mod 4 \<noteq> 0 then 4 - whoLen mod 4 else 0);
                       rest2 = drop pad (drop whoLen rest1)
                   in ace_loop n rest2 (trivial \<and> trivialACE aceType flag msk who))"

definition NFS4State :: "bytes \<Rightarrow> string" where
  "NFS4State acl =
     (if length acl < 4 then ACLUnknown
      else let cnt = get_uint32 (take 4 acl)
           in if cnt = 0 then ACLNFS4 else ace_loop cnt (drop 4 acl) True)"

subsection \<open>Octal strings\<close>

lemma octal_val_snoc [simp]: "octal_val (s @ [c]) = 8 * octal_val s + digit_val c"
  by (simp add: octal_val_def)

lemma octal_val_Nil [simp]: "octal_val [] = 0"
  by (simp add: octal_val_def)

lemma octal_val_octal_digits: "octal_val (octal_digits n) = n"
proof (induction n rule: octal_digits.induct)
  case (1 n)
  show ?case
  proof (cases "n < 8")
    case True
    then have "octal_val ([] @ [char_of (n + 48)]) = n"
      by (simp only: octal_val_snoc octal_val_Nil digit_val_char_of)
    with True show ?thesis by (simp add: octal_digits.simps [of n])
  next
    case False
    with 1 show ?thesis by (simp add: octal_digits.simps [of n] digit_val_char_of)
  qed
qed

lemma octal_digits_octal: "list_all is_octal (octal_digits n)"
proof (induction n rule: octal_digits.induct)
  case (1 n)
  then show ?case by (auto simp: octal_digits.simps [of n] is_octal_def)
qed

lemma octal_digits_not_Nil [simp]: "octal_digits n \<noteq> []"
  by (simp add: octal_digits.simps [of n])

lemma octal_val_append: "octal_val (s @ t) = octal_val s * 8 ^ length t + octal_val t"
proof (induction t rule: rev_induct)
  case (snoc c t)
  have "octal_val (s @ t @ [c]) = 8 * octal_val (s @ t) + digit_val c"
    using octal_val_snoc [of "s @ t" c] by simp
  with snoc show ?case by simp
qed simp

lemma octal_val_zeros: "octal_val (replicate k CHR ''0'') = 0"
proof (induction k)
  case (Suc k)
  have "replicate (Suc k) CHR ''0'' = replicate k CHR ''0'' @ [CHR ''0'']" by (simp add: replicate_append_same)
  with Suc show ?case by (simp add: digit_val_def del: replicate_Suc)
qed simp

lemma pad_zeros_octal: "list_all is_octal s \<Longrightarrow> list_all is_octal (pad_zeros w s)"
  by (simp add: pad_zeros_def list_all_iff is_octal_def set_replicate_conv_if)

lemma octal_val_pad_zeros: "octal_val (pad_zeros w s) = octal_val s"
  by (simp add: pad_zeros_def octal_val_append octal_val_zeros)

lemma parse_pad_zeros:
  "n < 2 ^ 32 \<Longrightarrow> parse_octal32 (pad_zeros w (octal_digits n)) = Some n"
  using pad_zeros_octal [OF octal_digits_octal, of w n]
  by (simp add: parse_octal32_def octal_val_pad_zeros octal_val_octal_digits) (simp add: pad_zeros_def)

lemma pad_zeros_length: "w \<le> length (pad_zeros w s)"
  by (simp add: pad_zeros_def)

subsection \<open>Bits\<close>

lemma ModeBits_mask: "ModeBits = mask 12"
  by (simp add: ModeBits_def mask_eq_exp_minus_1)

lemma bit_ModeBits [simp]: "bit ModeBits n \<longleftrightarrow> n < 12"
  by (auto simp: ModeBits_mask bit_mask_iff)

lemma bit_511: "bit (511 :: 32 word) n \<longleftrightarrow> n < 9"
proof -
  have m: "(511 :: 32 word) = mask 9" by (simp add: mask_eq_exp_minus_1)
  have "bit (mask 9 :: 32 word) n \<longleftrightarrow> n < 9" by (auto simp add: bit_mask_iff)
  then show ?thesis by (simp only: m)
qed

lemma bit_pow2: "bit ((2 :: 32 word) ^ k) n \<longleftrightarrow> k < 32 \<and> k = n"
  by (auto simp: bit_exp_iff)

lemma flag_pow2:
  "Setuid = 2 ^ 11" "Setgid = 2 ^ 10" "Sticky = 2 ^ 9"
  "fsModeDir = 2 ^ 31" "fsModeSetuid = 2 ^ 23" "fsModeSetgid = 2 ^ 22" "fsModeSticky = 2 ^ 20"
  by (simp_all add: Setuid_def Setgid_def Sticky_def fsmode_defs)

lemma bit_flags [simp]:
  "bit Setuid n \<longleftrightarrow> n = 11" "bit Setgid n \<longleftrightarrow> n = 10" "bit Sticky n \<longleftrightarrow> n = 9"
  "bit fsModeDir n \<longleftrightarrow> n = 31" "bit fsModeSetuid n \<longleftrightarrow> n = 23" "bit fsModeSetgid n \<longleftrightarrow> n = 22"
  "bit fsModeSticky n \<longleftrightarrow> n = 20"
  unfolding flag_pow2 bit_pow2 by auto

lemma and_flags [simp]:
  "(m :: 32 word) AND Setuid = 0 \<longleftrightarrow> \<not> bit m 11" "m AND Setgid = 0 \<longleftrightarrow> \<not> bit m 10"
  "m AND Sticky = 0 \<longleftrightarrow> \<not> bit m 9" "m AND fsModeSetuid = 0 \<longleftrightarrow> \<not> bit m 23"
  "m AND fsModeSetgid = 0 \<longleftrightarrow> \<not> bit m 22" "m AND fsModeSticky = 0 \<longleftrightarrow> \<not> bit m 20"
  unfolding flag_pow2 and_exp_eq_0_iff_not_bit by (rule refl)+

lemma bit_Apply:
  "bit (Apply s cur) n \<longleftrightarrow> n < 12 \<and> (if bit (ms_Mask s) n then bit (ms_Value s) n else bit cur n)"
  by (auto simp: Apply_def Let_def bit_or_iff bit_and_iff bit_not_iff)

lemma bit_if_zero: "bit (if P then x else 0) n \<longleftrightarrow> P \<and> bit x n"
  by simp

lemma bit_FileMode:
  "bit (FileMode m dir) n \<longleftrightarrow>
   (n < 9 \<and> bit m n) \<or> (n = 23 \<and> bit m 11) \<or> (n = 22 \<and> bit m 10) \<or> (n = 20 \<and> bit m 9) \<or> (n = 31 \<and> dir)"
  unfolding FileMode_def bit_or_iff bit_if_zero bit_and_iff bit_511 bit_flags and_flags by auto

lemma has_flag_bits:
  "has_flag m fsModeSetuid = bit m 23" "has_flag m fsModeSetgid = bit m 22" "has_flag m fsModeSticky = bit m 20"
  by (simp_all add: has_flag_def)

lemma bit_Bits:
  "bit (Bits m) n \<longleftrightarrow> (n < 9 \<and> bit m n) \<or> (n = 11 \<and> bit m 23) \<or> (n = 10 \<and> bit m 22) \<or> (n = 9 \<and> bit m 20)"
  unfolding Bits_def fsPerm_def has_flag_bits bit_or_iff bit_if_zero bit_and_iff bit_511 bit_flags by auto

lemma less_12_cases: "(n :: nat) < 12 \<longleftrightarrow> n < 9 \<or> n = 9 \<or> n = 10 \<or> n = 11"
  by auto

lemma Bits_FileMode: "Bits (FileMode m dir) = m AND ModeBits"
  by (rule bit_word_eqI) (auto simp: bit_Bits bit_FileMode bit_and_iff less_12_cases)

lemma ModeOctal_Bits: "ModeOctal m = pad_zeros 4 (octal_digits (unat (Bits m)))"
proof -
  have "fsPerm m OR special_bits m = Bits m"
    by (simp add: special_bits_def Bits_def Setuid_def Setgid_def Sticky_def or.assoc)
  then show ?thesis by (simp add: ModeOctal_def)
qed

lemma EntryMode_Octal: "EntryMode (e\<lparr>ent_Mode := Octal m\<rparr>) = m AND ModeBits"
proof -
  have "unat (m AND ModeBits) < 2 ^ 32" using unsigned_less [of "m AND ModeBits"] by simp
  then have "parse_octal32 (Octal m) = Some (unat (m AND ModeBits))"
    unfolding Octal_def by (rule parse_pad_zeros)
  then show ?thesis by (simp add: EntryMode_def and.assoc)
qed

subsection \<open>ACL encodings\<close>

record ace =
  ace_type :: nat
  ace_flag :: nat
  ace_mask :: nat
  ace_who :: string

definition ace_sized :: "ace \<Rightarrow> bool" where
  "ace_sized a \<longleftrightarrow> ace_type a < 2 ^ 32 \<and> ace_flag a < 2 ^ 32 \<and> ace_mask a < 2 ^ 32 \<and> length (ace_who a) < 2 ^ 32"

definition ace_trivial :: "ace \<Rightarrow> bool" where
  "ace_trivial a \<longleftrightarrow> trivialACE (of_nat (ace_type a)) (of_nat (ace_flag a)) (of_nat (ace_mask a))
     (trim_right_char CHR 0x00 (ace_who a))"

definition ace_pad :: "string \<Rightarrow> nat" where
  "ace_pad who = (if length who mod 4 \<noteq> 0 then 4 - length who mod 4 else 0)"

definition encode_ace :: "ace \<Rightarrow> bytes" where
  "encode_ace a = put_uint32 (ace_type a) @ put_uint32 (ace_flag a) @ put_uint32 (ace_mask a)
     @ put_uint32 (length (ace_who a)) @ ace_who a @ replicate (ace_pad (ace_who a)) CHR 0x00"

definition encode_acl :: "ace list \<Rightarrow> bytes" where
  "encode_acl as = put_uint32 (length as) @ concat (map encode_ace as)"

lemma length_put_uint32 [simp]: "length (put_uint32 n) = 4"
  by (simp add: put_uint32_def)

lemma get_put_uint32 [simp]: "n < 2 ^ 32 \<Longrightarrow> get_uint32 (put_uint32 n) = n"
proof -
  assume n: "n < 2 ^ 32"
  have "rev [0..<4] = [3, 2, 1, 0 :: nat]" by code_simp
  then have "put_uint32 n = map (\<lambda>i. char_of (n div 256 ^ i mod 256)) (rev [0..<4])"
    by (simp add: put_uint32_def)
  then show ?thesis using n get_uint64_digits [of 0 n 4] by (simp add: get_uint32_def)
qed

lemma ace_loop_encode:
  assumes "list_all ace_sized as"
  shows "ace_loop (length as) (concat (map encode_ace as)) tr =
    (if tr \<and> list_all ace_trivial as then ACLNFS4Trivial else ACLNFS4)"
  using assms
proof (induction as arbitrary: tr)
  case (Cons a as)
  define rest where "rest = concat (map encode_ace as)"
  let ?who = "ace_who a" and ?pad = "replicate (ace_pad (ace_who a)) CHR 0x00"
  define all where "all = encode_ace a @ rest"
  have all: "all = put_uint32 (ace_type a) @ put_uint32 (ace_flag a) @ put_uint32 (ace_mask a)
     @ put_uint32 (length ?who) @ ?who @ ?pad @ rest"
    by (simp add: all_def encode_ace_def)
  have t: "take 4 all = put_uint32 (ace_type a)" "take 4 (drop 4 all) = put_uint32 (ace_flag a)"
    "take 4 (drop 8 all) = put_uint32 (ace_mask a)" "take 4 (drop 12 all) = put_uint32 (length ?who)"
    "drop 16 all = ?who @ ?pad @ rest" "\<not> length all < 16"
    by (simp_all add: all)
  have s: "ace_type a < 2 ^ 32" "ace_flag a < 2 ^ 32" "ace_mask a < 2 ^ 32" "length ?who < 2 ^ 32"
    using Cons.prems by (simp_all add: ace_sized_def)
  have "ace_loop (Suc (length as)) all tr = ace_loop (length as) rest (tr \<and> ace_trivial a)"
    by (simp only: ace_loop.simps Let_def t get_put_uint32 s if_False)
      (simp add: ace_trivial_def ace_pad_def)
  moreover have "list_all ace_sized as" using Cons.prems by simp
  ultimately show ?case
    using Cons.IH [of "tr \<and> ace_trivial a"] by (simp add: all_def rest_def)
qed simp

text \<open>What the parser accepts: an exact cover of the bytes by the promised entries.\<close>

lemma representable_sets:
  "nfs4RWXBits = 1 OR 2 OR 4 OR 32"
  by (simp add: nfs4RWXBits_def nfs4ReadData_def nfs4WriteData_def nfs4AppendData_def nfs4Execute_def)

definition rwx_mask :: "bool \<Rightarrow> bool \<Rightarrow> bool \<Rightarrow> 32 word" where
  "rwx_mask r w x = (if r then nfs4ReadData else 0) OR (if w then nfs4WriteData OR nfs4AppendData else 0)
     OR (if x then nfs4Execute else 0)"

definition free_bits :: "bool \<Rightarrow> 32 word" where
  "free_bits owner = (if owner then nfs4BaseBits OR nfs4OwnerBaseBits else nfs4BaseBits)"

lemma rwx_pow2: "nfs4ReadData = 2 ^ 0" "nfs4WriteData = 2 ^ 1" "nfs4AppendData = 2 ^ 2" "nfs4Execute = 2 ^ 5"
  by (simp_all add: nfs4ReadData_def nfs4WriteData_def nfs4AppendData_def nfs4Execute_def)

lemma bit_rwx_mask: "bit (rwx_mask r w x) n \<longleftrightarrow> (n = 0 \<and> r) \<or> (n = 1 \<and> w) \<or> (n = 2 \<and> w) \<or> (n = 5 \<and> x)"
  unfolding rwx_mask_def rwx_pow2 bit_or_iff bit_if_zero bit_pow2 by auto

lemma bit_rwx_all: "bit nfs4RWXBits n \<longleftrightarrow> n = 0 \<or> n = 1 \<or> n = 2 \<or> n = 5"
  unfolding nfs4RWXBits_def rwx_pow2 bit_or_iff bit_pow2 by auto

lemma free_bits_rwx: "free_bits owner AND nfs4RWXBits = 0"
  by (simp add: free_bits_def nfs4BaseBits_def nfs4OwnerBaseBits_def representable_sets)

lemma representable_bits:
  "representableMask m owner \<longleftrightarrow>
     (m AND NOT (free_bits owner)) AND NOT nfs4RWXBits = 0 \<and>
     (bit (m AND NOT (free_bits owner)) 1 \<longleftrightarrow> bit (m AND NOT (free_bits owner)) 2)"
  unfolding representableMask_def Let_def free_bits_def [symmetric] rwx_pow2(2,3) and_exp_eq_0_iff_not_bit
  by auto

lemma free_not_rwx: "bit nfs4RWXBits n \<Longrightarrow> \<not> bit (free_bits owner) n"
  using free_bits_rwx [of owner] by (metis bit_0_eq bit_and_iff bot_apply bot_bool_def)

lemma representable_iff:
  "representableMask m owner \<longleftrightarrow> (\<exists>b r w x. b AND NOT (free_bits owner) = 0 \<and> m = b OR rwx_mask r w x)"
proof
  assume R: "representableMask m owner"
  let ?q = "m AND NOT (free_bits owner)"
  from R have z: "?q AND NOT nfs4RWXBits = 0" and e: "bit ?q 1 \<longleftrightarrow> bit ?q 2"
    by (simp_all add: representable_bits)
  have only: "bit ?q n \<Longrightarrow> n = 0 \<or> n = 1 \<or> n = 2 \<or> n = 5" for n
  proof -
    assume "bit ?q n"
    moreover from z have "\<not> bit (?q AND NOT nfs4RWXBits) n" by simp
    ultimately have "bit nfs4RWXBits n"
      using bit_imp_le_length [of ?q n] by (auto simp: bit_and_iff bit_not_iff)
    then show ?thesis by (simp add: bit_rwx_all)
  qed
  have "?q = rwx_mask (bit ?q 0) (bit ?q 1) (bit ?q 5)"
    by (rule bit_word_eqI) (use only e in \<open>auto simp: bit_rwx_mask\<close>)
  moreover have "m = (m AND free_bits owner) OR ?q"
    by (rule bit_word_eqI) (auto simp: bit_or_iff bit_and_iff bit_not_iff)
  moreover have "(m AND free_bits owner) AND NOT (free_bits owner) = 0"
    by (simp add: and.assoc)
  ultimately show "\<exists>b r w x. b AND NOT (free_bits owner) = 0 \<and> m = b OR rwx_mask r w x"
    by metis
next
  assume "\<exists>b r w x. b AND NOT (free_bits owner) = 0 \<and> m = b OR rwx_mask r w x"
  then obtain b r w x where b: "b AND NOT (free_bits owner) = 0" and m: "m = b OR rwx_mask r w x" by blast
  have nb: "bit b n \<Longrightarrow> bit (free_bits owner) n" for n
  proof -
    assume "bit b n"
    moreover from b have "\<not> bit (b AND NOT (free_bits owner)) n" by simp
    ultimately show ?thesis using bit_imp_le_length [of b n] by (auto simp: bit_and_iff bit_not_iff)
  qed
  have q: "m AND NOT (free_bits owner) = rwx_mask r w x"
  proof (rule bit_word_eqI)
    fix n assume "n < LENGTH(32)"
    then show "bit (m AND NOT (free_bits owner)) n = bit (rwx_mask r w x) n"
      using nb [of n] free_not_rwx [of n owner] unfolding m
      by (auto simp: bit_or_iff bit_and_iff bit_not_iff bit_rwx_mask bit_rwx_all)
  qed
  have "rwx_mask r w x AND NOT nfs4RWXBits = 0"
    by (rule bit_word_eqI) (auto simp: bit_and_iff bit_not_iff bit_rwx_mask bit_rwx_all)
  then show "representableMask m owner" by (simp add: representable_bits q bit_rwx_mask)
qed

lemma bit_SpecialBits: "bit SpecialBits n \<longleftrightarrow> n = 9 \<or> n = 10 \<or> n = 11"
proof -
  have S: "SpecialBits = Setuid OR Setgid OR Sticky"
    by (simp add: SpecialBits_def Setuid_def Setgid_def Sticky_def)
  show ?thesis unfolding S bit_or_iff bit_flags by auto
qed

lemma word_bits_eq: "(a :: 32 word) = b \<longleftrightarrow> (\<forall>n. bit a n = bit b n)"
  by (rule iffI) (simp, rule bit_word_eqI, simp)

lemma word_zero_iff: "(w :: 32 word) = 0 \<longleftrightarrow> (\<forall>n. \<not> bit w n)"
  by (simp add: word_bits_eq)

lemma and_flag_eq:
  "(a :: 32 word) AND Setuid = b AND Setuid \<longleftrightarrow> bit a 11 = bit b 11"
  "a AND Setgid = b AND Setgid \<longleftrightarrow> bit a 10 = bit b 10"
  "a AND Sticky = b AND Sticky \<longleftrightarrow> bit a 9 = bit b 9"
  unfolding word_bits_eq bit_and_iff bit_flags by blast+

lemma and_special_eq:
  "(a :: 32 word) AND SpecialBits = b AND SpecialBits \<longleftrightarrow>
   bit a 11 = bit b 11 \<and> bit a 10 = bit b 10 \<and> bit a 9 = bit b 9"
  unfolding word_bits_eq bit_and_iff bit_SpecialBits by blast

subsection \<open>Properties\<close>

text \<open>
  What a mode change does, bit by bit: inside the mask the result is the spec's value, outside
  it the current mode, and nothing beyond the twelve bits chmod knows; and two changes in a row are
  the one change whose mask is the union and whose value is the second's inside its own mask.
\<close>

theorem Apply_bitwise:
  "(bit (Apply s cur) n \<longleftrightarrow> n < 12 \<and> (if bit (ms_Mask s) n then bit (ms_Value s) n else bit cur n)) \<and>
   Apply s' (Apply s cur) =
     Apply \<lparr>ms_Mask = ms_Mask s OR ms_Mask s',
            ms_Value = (ms_Value s AND NOT (ms_Mask s')) OR (ms_Value s' AND ms_Mask s')\<rparr> cur"
proof
  show "bit (Apply s cur) n \<longleftrightarrow> n < 12 \<and> (if bit (ms_Mask s) n then bit (ms_Value s) n else bit cur n)"
    by (rule bit_Apply)
  show "Apply s' (Apply s cur) =
     Apply \<lparr>ms_Mask = ms_Mask s OR ms_Mask s',
            ms_Value = (ms_Value s AND NOT (ms_Mask s')) OR (ms_Value s' AND ms_Mask s')\<rparr> cur"
    by (rule bit_word_eqI) (auto simp: bit_Apply bit_or_iff bit_and_iff bit_not_iff)
qed

text \<open>
  A mode survives every form it travels in: as FileMode flags, with or without the directory
  bit, and as the octal string of an entry, it reads back as its own twelve bits, and the entry
  rendering and the chmod rendering of it are the same string.
\<close>

theorem mode_roundtrips:
  "Bits (FileMode m dir) = m AND ModeBits \<and>
   EntryMode (e\<lparr>ent_Mode := Octal m\<rparr>) = m AND ModeBits \<and>
   ModeOctal (FileMode m dir) = Octal m"
  by (simp add: Bits_FileMode EntryMode_Octal) (simp add: ModeOctal_Bits Bits_FileMode Octal_def)

text \<open>
  SetsSpecial is exactly the question a recursive chmod asks: a spec passes it exactly when
  there is no current mode to which applying the spec adds setuid, setgid or sticky.
\<close>

theorem SetsSpecial_exact:
  "SetsSpecial s = (\<not> (\<forall>cur. Apply s cur AND SpecialBits AND NOT cur = 0))"
proof -
  have "SetsSpecial s \<longleftrightarrow> (\<exists>n. bit (ms_Mask s) n \<and> bit (ms_Value s) n \<and> bit SpecialBits n)"
    by (auto simp: SetsSpecial_def word_zero_iff bit_and_iff)
  also have "\<dots> \<longleftrightarrow> (\<exists>cur n. bit (Apply s cur AND SpecialBits AND NOT cur) n)"
  proof
    assume "\<exists>n. bit (ms_Mask s) n \<and> bit (ms_Value s) n \<and> bit SpecialBits n"
    then obtain n where "bit (ms_Mask s) n" "bit (ms_Value s) n" "bit SpecialBits n" by blast
    then have "bit (Apply s 0 AND SpecialBits AND NOT 0) n"
      by (auto simp: bit_and_iff bit_Apply bit_SpecialBits)
    then show "\<exists>cur n. bit (Apply s cur AND SpecialBits AND NOT cur) n" by blast
  next
    assume "\<exists>cur n. bit (Apply s cur AND SpecialBits AND NOT cur) n"
    then show "\<exists>n. bit (ms_Mask s) n \<and> bit (ms_Value s) n \<and> bit SpecialBits n"
      by (auto simp: bit_and_iff bit_not_iff bit_Apply split: if_splits)
  qed
  also have "\<dots> \<longleftrightarrow> \<not> (\<forall>cur. Apply s cur AND SpecialBits AND NOT cur = 0)"
    by (simp only: word_zero_iff) blast
  finally show ?thesis .
qed

text \<open>
  DiffOf is silent exactly when the kernel did what was asked: the special bits came out as
  computed from the mode before, the whole mode too when a mode change was asked for, and the owner
  and group are the ids asked for unless they were left alone (negative).
\<close>

theorem DiffOf_silent:
  "DiffOf want uid gid before after = [] \<longleftrightarrow>
   (EntryMode after = Apply want (EntryMode before) \<or>
     (\<not> Touches want \<and> EntryMode after AND SpecialBits = Apply want (EntryMode before) AND SpecialBits)) \<and>
   (uid < 0 \<or> ent_UID after = uid) \<and> (gid < 0 \<or> ent_GID after = gid)"
proof -
  let ?w = "Apply want (EntryMode before)" and ?g = "EntryMode after"
  have one: "(if P then [x] else []) = [] \<longleftrightarrow> \<not> P" for P and x :: diff by simp
  have f: "filter (\<lambda>(f, b). ?w AND b \<noteq> ?g AND b) special_fields = [] \<longleftrightarrow>
      ?g AND SpecialBits = ?w AND SpecialBits"
    unfolding special_fields_def and_special_eq by (simp add: and_flag_eq)
  have "DiffOf want uid gid before after = [] \<longleftrightarrow>
    \<not> (Touches want \<and> ?w \<noteq> ?g) \<and> ?g AND SpecialBits = ?w AND SpecialBits \<and>
    \<not> (0 \<le> uid \<and> ent_UID after \<noteq> uid) \<and> \<not> (0 \<le> gid \<and> ent_GID after \<noteq> gid)"
    unfolding DiffOf_def Let_def append_is_Nil_conv map_is_Nil_conv one f Touches_def by blast
  moreover have "\<not> (0 \<le> i \<and> j \<noteq> i) \<longleftrightarrow> i < 0 \<or> j = i" for i j :: int by linarith
  moreover have "\<not> (Touches want \<and> ?w \<noteq> ?g) \<and> ?g AND SpecialBits = ?w AND SpecialBits \<longleftrightarrow>
      ?g = ?w \<or> (\<not> Touches want \<and> ?g AND SpecialBits = ?w AND SpecialBits)" by metis
  ultimately show ?thesis by (simp only: conj_assoc [symmetric])
qed

text \<open>
  representableMask accepts exactly the masks a mode writes for its principal: some of the bits
  ZFS sets whatever the mode is, together with one of the eight read, write and execute
  combinations.
\<close>

theorem representableMask_exact:
  "representableMask m owner \<longleftrightarrow>
   (\<exists>b r w x. b AND NOT (free_bits owner) = 0 \<and> m = b OR rwx_mask r w x)"
  by (rule representable_iff)

text \<open>
  NFS4State reads what is written: for the XDR encoding of any list of entries whose numbers fit
  32 bits, it answers "nfs4-trivial" exactly when the list is not empty and every entry is trivial,
  and "nfs4" otherwise.
\<close>

theorem NFS4State_encoded:
  assumes "list_all ace_sized as" and "length as < 2 ^ 32"
  shows "NFS4State (encode_acl as) = (if as \<noteq> [] \<and> list_all ace_trivial as then ACLNFS4Trivial else ACLNFS4)"
proof -
  have "take 4 (encode_acl as) = put_uint32 (length as)" "drop 4 (encode_acl as) = concat (map encode_ace as)"
    "\<not> length (encode_acl as) < 4" by (simp_all add: encode_acl_def)
  then show ?thesis
    unfolding NFS4State_def Let_def using ace_loop_encode [OF assms(1), of True] assms(2) by simp
qed

definition sample_acl :: "ace list" where
  "sample_acl =
     [\<lparr>ace_type = 0, ace_flag = 0, ace_mask = 7, ace_who = ''OWNER@''\<rparr>,
      \<lparr>ace_type = 1, ace_flag = 0, ace_mask = 65536, ace_who = ''EVERYONE@''\<rparr>]"

theorem NFS4State_encoded_witness:
  "NFS4State (encode_acl sample_acl) = ACLNFS4 \<and> NFS4State (encode_acl (take 1 sample_acl)) = ACLNFS4Trivial"
proof -
  have "list_all ace_sized sample_acl" "list_all ace_sized (take 1 sample_acl)"
    by (simp_all add: sample_acl_def ace_sized_def)
  moreover have "\<not> list_all ace_trivial sample_acl" "list_all ace_trivial (take 1 sample_acl)" by code_simp+
  ultimately show ?thesis
    using NFS4State_encoded [of sample_acl] NFS4State_encoded [of "take 1 sample_acl"]
    by (simp add: sample_acl_def)
qed

end
