(* ===== verification/Mutations.thy ===== *)
theory Mutations
  imports Perm
begin

section \<open>The mutation routes (internal/web/routes_mutate.go)\<close>

text \<open>
  mkdir, rename, delete and batch delete as state-passing functions. A request leaves a trail of
  effects: audit lines, dispatches to the worker, and the reply. Everything outside the handler
  (the worker behind the mutator, the audit sink, the clock, a concurrent read-only toggle, a
  client going away) is a field of \<open>env\<close>, a function of the trail so far, so it may answer
  differently every time it is asked. Bodies are taken after JSON decoding; message texts and the
  server-side log are left out.
\<close>

subsection \<open>Request paths\<close>

definition b64_std_alphabet :: string where
  "b64_std_alphabet = ''ABCDEFGHIJKLMNOPQRSTUVWXYZabcdefghijklmnopqrstuvwxyz0123456789+/''"

text \<open>\<open>base64.StdEncoding.DecodeString\<close>: padded, CR and LF skipped.\<close>

fun b64_std_groups :: "string \<Rightarrow> bytes option" where
  "b64_std_groups [] = Some []"
| "b64_std_groups (a # b # c # d # s) =
     (case (index_in b64_std_alphabet a, index_in b64_std_alphabet b) of
        (Some x, Some y) \<Rightarrow>
          if c = CHR ''='' then (if d = CHR ''='' \<and> s = [] then b64_groups [x, y] else None)
          else (case index_in b64_std_alphabet c of
              None \<Rightarrow> None
            | Some z \<Rightarrow>
                if d = CHR ''='' then (if s = [] then b64_groups [x, y, z] else None)
                else (case index_in b64_std_alphabet d of
                    None \<Rightarrow> None
                  | Some u \<Rightarrow>
                      (case (b64_groups [x, y, z, u], b64_std_groups s) of
                         (Some h, Some t) \<Rightarrow> Some (h @ t)
                       | _ \<Rightarrow> None)))
      | _ \<Rightarrow> None)"
| "b64_std_groups s = None"

definition b64_std_decode :: "string \<Rightarrow> bytes option" where
  "b64_std_decode s = b64_std_groups (filter (\<lambda>c. c \<noteq> CHR 0x0A \<and> c \<noteq> CHR 0x0D) s)"

definition maxComponentBytes :: nat where
  "maxComponentBytes = 255"

definition b64_either :: "string \<Rightarrow> bytes option" where
  \<comment> \<open>the raw url-safe alphabet first, then the padded standard one\<close>
  "b64_either s = (case b64_decode s of Some raw \<Rightarrow> Some raw | None \<Rightarrow> b64_std_decode s)"

fun dot_or_long :: "string list \<Rightarrow> bool" where
  "dot_or_long [] = False"
| "dot_or_long (c # cs) = (c = ''.'' \<or> c = ''..'' \<or> length c > maxComponentBytes \<or> dot_or_long cs)"

definition bodyPath :: "string \<Rightarrow> string \<Rightarrow> sentinel + string" where
  "bodyPath p pathB64 =
     (case (if pathB64 \<noteq> [] then b64_either pathB64 else Some p) of
        None \<Rightarrow> Inl ErrBadName
      | Some p \<Rightarrow> if dot_or_long (split_on CHR ''/'' p) then Inl ErrBadName else Clean p)"

definition validNewName :: "string \<Rightarrow> sentinel option" where
  "validNewName name =
     (case ValidName name of
        Some e \<Rightarrow> Some e
      | None \<Rightarrow> if length name > maxComponentBytes then Some ErrBadName else None)"

subsection \<open>Who asks, what is recorded, what is dispatched\<close>

record who =
  who_User :: string
  who_UID :: nat
  who_Root :: bool
  who_Admin :: bool
  who_Door :: string

definition DoorLocal :: string where
  "DoorLocal = ''local''"

record mutation =
  mut_op :: string
  mut_path :: string
  mut_dst :: string
  mut_files :: int
  mut_bytes :: int

record audit_line =
  al_who :: who
  al_mut :: mutation
  al_Phase :: string
  al_Result :: string
  al_Code :: string
  al_ForceMilestone :: bool
  al_Detail :: string
  al_Job :: string

datatype dispatch =
    DMkdir string string "nat option"
  | DRename string string bool
  | DDelete string
  | DChmod string mode_spec "(string \<times> string) option"
  | DChown string int int

text \<open>
  A job as a route hands it to the manager: its id and kind, the body for the worker, the roots in the caller's and
  in the resolved spelling, what the guard is asked again when it starts (\<open>jp_checks\<close>, and for a chmod the ACL
  verdict its token was redeemed against), and what its result line says.
\<close>

datatype job_body =
    BDelete "string list" bool bool
  | BSize "string list" bool bool int int
  | BCopy "string list" string string bool "nat option"
  | BChmod "string list" mode_spec mode_spec bool bool
  | BChown "string list" int int bool bool
  | BRestore "string list"
  | BEmpty

record job_plan =
  jp_id :: string
  jp_kind :: string
  jp_op :: string
  jp_body :: job_body
  jp_requested :: "string list"
  jp_resolved :: "string list"
  jp_checks :: "(op \<times> string list) list"
  jp_acl :: "string option"
  jp_path :: string
  jp_detail :: string
  jp_milestone :: bool

record item_result =
  ir_Path :: string
  ir_OK :: bool
  ir_Code :: string

datatype reply =
    RError nat string
  | RConfirm string summary nat   \<comment> \<open>token, summary, grade\<close>
  | REntry string
  | ROk
  | RBatch "item_result list" string nat nat nat
  | RJob string            \<comment> \<open>202, the job's id\<close>
  | RMode "string list"    \<comment> \<open>the warnings of a chmod or chown\<close>

datatype effect =
    Durable audit_line bool   \<comment> \<open>through WriteSync, and whether it was saved\<close>
  | Async audit_line
  | Dispatched dispatch
  | Submitted job_plan     \<comment> \<open>handed to the job manager\<close>
  | Ran job_plan           \<comment> \<open>handed to the worker by the job\<close>
  | Measuring job_plan     \<comment> \<open>a read-only job, handed to the manager\<close>
  | MadeTrash string
  | Replied reply

type_synonym trail = "effect list"

record env =
  env_ready :: bool
  env_auditor :: bool
  env_saves :: "trail \<Rightarrow> bool"
  env_now :: "trail \<Rightarrow> time"
  env_now2 :: "trail \<Rightarrow> time"
  env_nonce :: "trail \<Rightarrow> bytes"
  env_mac :: mac_fun
  env_readOnly :: "trail \<Rightarrow> bool"
  env_gone :: "trail \<Rightarrow> bool"
  env_resolve :: "trail \<Rightarrow> string \<Rightarrow> bool \<Rightarrow> error + string"
  env_stat :: "trail \<Rightarrow> string \<Rightarrow> int option"
  env_worker :: "trail \<Rightarrow> dispatch \<Rightarrow> error option"

record server =
  srv_guard :: token_guard
  srv_trail :: trail   \<comment> \<open>the latest effect first\<close>

definition emit :: "effect \<Rightarrow> server \<Rightarrow> server" where
  "emit x st = st\<lparr>srv_trail := x # srv_trail st\<rparr>"

definition say :: "reply \<Rightarrow> server \<Rightarrow> server" where
  "say r st = emit (Replied r) st"

text \<open>The guard as a check sees it: the read-only switch is read at that moment.\<close>

definition guard_now :: "env \<Rightarrow> server \<Rightarrow> guard" where
  "guard_now env st = guard.truncate (srv_guard st)\<lparr>readOnly := env_readOnly env (srv_trail st)\<rparr>"

subsection \<open>Audit\<close>

definition is_durable :: "string \<Rightarrow> string \<Rightarrow> string \<Rightarrow> bool \<Rightarrow> bool" where
  "is_durable phase result code milestone \<longleftrightarrow>
     phase = ''intent'' \<or> milestone \<or> (result = ''denied'' \<and> code \<noteq> ''confirm_required'')"

text \<open>\<open>writeAudit\<close> returns whether it was refused: a durable line that was not saved.\<close>

definition writeAuditDetail :: "env \<Rightarrow> who \<Rightarrow> mutation \<Rightarrow> string \<Rightarrow> string \<Rightarrow> string \<Rightarrow> string \<Rightarrow> bool \<Rightarrow> server \<Rightarrow> bool \<times> server" where
  "writeAuditDetail env w m phase result code detail milestone st =
     (if \<not> env_auditor env then (False, st)
      else let ev = \<lparr>al_who = w, al_mut = m, al_Phase = phase, al_Result = result, al_Code = code,
                     al_ForceMilestone = milestone, al_Detail = detail, al_Job = []\<rparr>
           in if is_durable phase result code milestone
              then let ok = env_saves env (srv_trail st) in (\<not> ok, emit (Durable ev ok) st)
              else (False, emit (Async ev) st))"

definition writeAudit :: "env \<Rightarrow> who \<Rightarrow> mutation \<Rightarrow> string \<Rightarrow> string \<Rightarrow> string \<Rightarrow> bool \<Rightarrow> server \<Rightarrow> bool \<times> server" where
  "writeAudit env w m phase result code milestone st = writeAuditDetail env w m phase result code [] milestone st"

definition record_line :: "env \<Rightarrow> who \<Rightarrow> mutation \<Rightarrow> string \<Rightarrow> string \<Rightarrow> string \<Rightarrow> bool \<Rightarrow> server \<Rightarrow> server" where
  \<comment> \<open>a call whose result the code drops\<close>
  "record_line env w m phase result code milestone st = snd (writeAudit env w m phase result code milestone st)"

definition auditIntent :: "env \<Rightarrow> who \<Rightarrow> mutation \<Rightarrow> bool \<Rightarrow> string \<Rightarrow> server \<Rightarrow> bool \<times> server" where
  "auditIntent env w m milestone detail st =
     (case writeAuditDetail env w m ''intent'' '''' '''' detail milestone st of
        (refused, st1) \<Rightarrow>
          if refused then (False, say (RError 500 ''audit_unavailable'') st1) else (True, st1))"

subsection \<open>worstGuard and authorize\<close>

fun worst_loop :: "refusal list \<Rightarrow> refusal \<Rightarrow> refusal \<Rightarrow> refusal \<Rightarrow> refusal" where
  "worst_loop [] conf prot ro =
     (case ro of Some e \<Rightarrow> Some e | None \<Rightarrow> (case prot of Some e \<Rightarrow> Some e | None \<Rightarrow> conf))"
| "worst_loop (e # es) conf prot ro =
     (case e of
        None \<Rightarrow> worst_loop es conf prot ro
      | Some (s, why) \<Rightarrow>
          if s = ErrReadOnly then worst_loop es conf prot e
          else if s = ErrProtected then worst_loop es conf e ro
          else if s = ErrConfirmRequired then worst_loop es (if conf = None then e else conf) prot ro
          else e)"

definition worstGuard :: "refusal list \<Rightarrow> refusal" where
  "worstGuard es = worst_loop es None None None"

definition authorizeGraded :: "env \<Rightarrow> who \<Rightarrow> refusal \<Rightarrow> bool \<Rightarrow> mutation \<Rightarrow> string list \<Rightarrow> bool \<Rightarrow> string
    \<Rightarrow> summary \<Rightarrow> nat \<Rightarrow> server \<Rightarrow> bool \<times> server" where
  "authorizeGraded env w guardErr extraConfirm m tokenPaths ordered conf s grade st =
     (if guardErr \<noteq> None \<and> fst (the guardErr) = ErrReadOnly then
        (False, say (RError 403 ''read_only'') (record_line env w m ''result'' ''denied'' ''read_only'' False st))
      else if guardErr \<noteq> None \<and> fst (the guardErr) = ErrProtected then
        (False, say (RError 403 ''protected'') (record_line env w m ''result'' ''denied'' ''protected'' False st))
      else if (guardErr \<noteq> None \<and> fst (the guardErr) = ErrConfirmRequired) \<or> extraConfirm then
        (let challenge = (\<lambda>st1.
           (case Issue (env_mac env) (env_now env (srv_trail st1)) (env_nonce env (srv_trail st1))
                   (env_now2 env (srv_trail st1)) (mut_op m) s tokenPaths ordered (srv_guard st1) of
              (g', token, e) \<Rightarrow> (False, say (RConfirm token s grade) (st1\<lparr>srv_guard := g'\<rparr>))))
         in if conf \<noteq> [] then
              (case Redeem (env_mac env) (env_now env (srv_trail st)) (env_now2 env (srv_trail st)) conf
                      (mut_op m) tokenPaths ordered (srv_guard st) of
                 (None, g') \<Rightarrow> (True, st\<lparr>srv_guard := g'\<rparr>)
               | (Some e, g') \<Rightarrow>
                   challenge (record_line env w m ''result'' ''denied'' ''confirm_invalid'' False (st\<lparr>srv_guard := g'\<rparr>)))
            else challenge (record_line env w m ''result'' ''denied'' ''confirm_required'' False st))
      else if guardErr \<noteq> None then
        (let code = Code (Some [Own (fst (the guardErr))])
         in (False, say (RError (statusCode code) code) (record_line env w m ''result'' ''denied'' code False st)))
      else (True, st))"

text \<open>\<open>finish\<close>: the result line, and the error reply when there was one.\<close>

definition finish :: "env \<Rightarrow> who \<Rightarrow> mutation \<Rightarrow> error option \<Rightarrow> bool \<Rightarrow> server \<Rightarrow> bool \<times> server" where
  "finish env w m err milestone st =
     (case err of
        Some e \<Rightarrow>
          let code = Code (Some e)
          in (False, say (RError (statusCode code) code) (record_line env w m ''result'' ''error'' code milestone st))
      | None \<Rightarrow> (True, record_line env w m ''result'' ''ok'' '''' milestone st))"

definition failResolve :: "error \<Rightarrow> server \<Rightarrow> server" where
  "failResolve e st = (let code = Code (Some e) in say (RError (statusCode code) code) st)"

definition run_worker :: "env \<Rightarrow> dispatch \<Rightarrow> server \<Rightarrow> error option \<times> server" where
  "run_worker env d st = (env_worker env (srv_trail st) d, emit (Dispatched d) st)"

text \<open>The gates every handler puts before its dispatch: authorize, then the intent line.\<close>

definition gated :: "env \<Rightarrow> who \<Rightarrow> refusal \<Rightarrow> bool \<Rightarrow> mutation \<Rightarrow> string list \<Rightarrow> bool \<Rightarrow> string \<Rightarrow> summary \<Rightarrow> nat
    \<Rightarrow> bool \<Rightarrow> string \<Rightarrow> (server \<Rightarrow> server) \<Rightarrow> server \<Rightarrow> server" where
  "gated env w guardErr extra m parts ordered conf s grade milestone detail k st =
     (case authorizeGraded env w guardErr extra m parts ordered conf s grade st of
        (go, st1) \<Rightarrow>
          if \<not> go then st1
          else (case auditIntent env w m milestone detail st1 of (go2, st2) \<Rightarrow> if \<not> go2 then st2 else k st2))"

definition bad_request :: "server \<Rightarrow> server" where
  "bad_request st = say (RError (statusCode ''bad_request'') ''bad_request'') st"

definition one_file :: summary where
  "one_file = \<lparr>sum_Files = 1, sum_Bytes = 0, sum_Warnings = [], sum_Capped = False\<rparr>"

subsection \<open>mkdir\<close>

record mkdir_body =
  mk_Dir :: string
  mk_DirB64 :: string
  mk_Name :: string
  mk_Parents :: bool
  mk_Confirm :: string

definition create_as :: "guard \<Rightarrow> who \<Rightarrow> string \<Rightarrow> string \<Rightarrow> nat option" where
  "create_as g w dir resolvedDir =
     (if who_Root w \<and> who_Door w \<noteq> DoorLocal \<and> Classify g dir = ''normal'' \<and> Classify g resolvedDir = ''normal''
      then Some (who_UID w) else None)"

definition mkdir_dispatch :: "env \<Rightarrow> who \<Rightarrow> mutation \<Rightarrow> string \<Rightarrow> string \<Rightarrow> string \<Rightarrow> server \<Rightarrow> server" where
  "mkdir_dispatch env w m dir resolvedDir name st =
     (case run_worker env (DMkdir resolvedDir name (create_as (guard_now env st) w dir resolvedDir)) st of
        (err, st1) \<Rightarrow>
          if Code err = ''owner_unset'' then
            say (RError (statusCode ''owner_unset'') ''owner_unset'')
              (record_line env w m ''result'' ''error'' ''owner_unset'' False st1)
          else (case finish env w m err False st1 of
            (ok, st2) \<Rightarrow> if \<not> ok then st2 else say (REntry (mut_path m)) st2))"

definition mkdir_checks :: "guard \<Rightarrow> string \<Rightarrow> string \<Rightarrow> string \<Rightarrow> refusal list" where
  "mkdir_checks g dir resolvedDir name =
     [Check g OpCreate dir, Check g OpCreate (Join dir [name]),
      Check g OpCreate resolvedDir, Check g OpCreate (Join resolvedDir [name])]"

definition mkdir :: "env \<Rightarrow> who \<Rightarrow> mkdir_body \<Rightarrow> server \<Rightarrow> server" where
  "mkdir env w b st =
     (if \<not> env_ready env then say (RError 500 ''internal'') st
      else case bodyPath (mk_Dir b) (mk_DirB64 b) of
        Inl e \<Rightarrow> bad_request st
      | Inr dir \<Rightarrow>
          if mk_Parents b then bad_request st
          else if validNewName (mk_Name b) \<noteq> None then bad_request st
          else case env_resolve env (srv_trail st) dir True of
            Inl e \<Rightarrow> failResolve e st
          | Inr resolvedDir \<Rightarrow>
              let target = Join dir [mk_Name b];
                  m = \<lparr>mut_op = ''mkdir'', mut_path = target, mut_dst = [], mut_files = 0, mut_bytes = 0\<rparr>
              in gated env w (worstGuard (mkdir_checks (guard_now env st) dir resolvedDir (mk_Name b)))
                   False m [target] False (mk_Confirm b) one_file 0 False []
                   (mkdir_dispatch env w m dir resolvedDir (mk_Name b)) st)"

subsection \<open>rename\<close>

record rename_body =
  rn_Path :: string
  rn_PathB64 :: string
  rn_To :: string
  rn_ToB64 :: string
  rn_Overwrite :: bool
  rn_Confirm :: string

definition renameTokenParts :: "string \<Rightarrow> string \<Rightarrow> bool \<Rightarrow> string list" where
  "renameTokenParts from to overwrite =
     [''from='' @ from, ''to='' @ to, ''overwrite='' @ (if overwrite then ''true'' else ''false'')]"

definition rename_target :: "string \<Rightarrow> string \<Rightarrow> string \<Rightarrow> string option" where
  \<comment> \<open>where the entry is to go: an absolute path or a new name in the same directory\<close>
  "rename_target from to toB64 =
     (case (if toB64 \<noteq> [] then b64_either toB64 else Some to) of
        None \<Rightarrow> None
      | Some raw \<Rightarrow>
          if has_prefix raw ''/'' then (case bodyPath raw '''' of Inl e \<Rightarrow> None | Inr q \<Rightarrow> Some q)
          else if validNewName raw \<noteq> None then None
          else Some (Join (Parent from) [raw]))"

definition rename_checks :: "guard \<Rightarrow> string \<Rightarrow> string \<Rightarrow> string \<Rightarrow> string \<Rightarrow> bool \<Rightarrow> refusal list" where
  "rename_checks g from guardFrom to guardTo overwrite =
     [Check g OpRename from, Check g OpRename guardFrom, Check g OpDelete from, Check g OpDelete guardFrom,
      Check g OpCreate (Parent to), Check g OpCreate (Parent guardTo), Check g OpCreate to, Check g OpCreate guardTo]
     @ (if overwrite then [Check g OpDelete to, Check g OpDelete guardTo] else [])"

definition rename_dispatch :: "env \<Rightarrow> who \<Rightarrow> mutation \<Rightarrow> string \<Rightarrow> string \<Rightarrow> bool \<Rightarrow> server \<Rightarrow> server" where
  "rename_dispatch env w m guardFrom guardTo overwrite st =
     (case run_worker env (DRename guardFrom guardTo overwrite) st of
        (err, st1) \<Rightarrow> (case finish env w m err False st1 of (ok, st2) \<Rightarrow> if \<not> ok then st2 else say ROk st2))"

definition rename :: "env \<Rightarrow> who \<Rightarrow> rename_body \<Rightarrow> server \<Rightarrow> server" where
  "rename env w b st =
     (if \<not> env_ready env then say (RError 500 ''internal'') st
      else case bodyPath (rn_Path b) (rn_PathB64 b) of
        Inl e \<Rightarrow> bad_request st
      | Inr from \<Rightarrow>
          case rename_target from (rn_To b) (rn_ToB64 b) of
            None \<Rightarrow> bad_request st
          | Some to \<Rightarrow>
              if to = from then bad_request st
              else case env_resolve env (srv_trail st) from False of
                Inl e \<Rightarrow> failResolve e st
              | Inr guardFrom \<Rightarrow>
                  case env_resolve env (srv_trail st) to False of
                    Inl e \<Rightarrow> failResolve e st
                  | Inr guardTo \<Rightarrow>
                      let m = \<lparr>mut_op = ''rename'', mut_path = from, mut_dst = to, mut_files = 0, mut_bytes = 0\<rparr>
                      in gated env w
                           (worstGuard (rename_checks (guard_now env st) from guardFrom to guardTo (rn_Overwrite b)))
                           False m (renameTokenParts from to (rn_Overwrite b)) True (rn_Confirm b) one_file 0 False []
                           (rename_dispatch env w m guardFrom guardTo (rn_Overwrite b)) st)"

subsection \<open>delete\<close>

definition large_delete_note :: "int \<Rightarrow> int \<Rightarrow> string" where
  "large_delete_note files n =
     ''Large permanent delete: '' @ itoa files @ '' item(s), '' @ itoa n @ '' byte(s). This cannot be undone.''"

definition deleteWarnings :: "guard \<Rightarrow> string \<Rightarrow> string \<Rightarrow> bool \<Rightarrow> int \<Rightarrow> int \<Rightarrow> string list" where
  "deleteWarnings g requested resolved big files n =
     foldl add_reason []
       (Reasons g OpDelete requested @ (if resolved \<noteq> requested then Reasons g OpDelete resolved else []))
     @ (if big then [large_delete_note files n] else [])"

definition delete_checks :: "guard \<Rightarrow> string \<Rightarrow> string \<Rightarrow> refusal list" where
  "delete_checks g p q = [Check g OpDelete p, Check g OpDelete q]"

definition delete_dispatch :: "env \<Rightarrow> who \<Rightarrow> mutation \<Rightarrow> string \<Rightarrow> bool \<Rightarrow> server \<Rightarrow> server" where
  "delete_dispatch env w m guardPath big st =
     (case run_worker env (DDelete guardPath) st of
        (err, st1) \<Rightarrow>
          if err \<noteq> None \<and> Code err = ''not_empty'' then
            say (RError (statusCode ''not_empty'') ''not_empty'')
              (record_line env w m ''result'' ''error'' ''not_empty'' big st1)
          else (case finish env w m err big st1 of (ok, st2) \<Rightarrow> if \<not> ok then st2 else say ROk st2))"

definition deleteSingle :: "env \<Rightarrow> who \<Rightarrow> string \<Rightarrow> string \<Rightarrow> server \<Rightarrow> server" where
  "deleteSingle env w p conf st =
     (case env_resolve env (srv_trail st) p False of
        Inl e \<Rightarrow> failResolve e st
      | Inr guardPath \<Rightarrow>
          let size = (case env_stat env (srv_trail st) p of None \<Rightarrow> 0 | Some n \<Rightarrow> n);
              big = (case env_stat env (srv_trail st) p of None \<Rightarrow> False | Some n \<Rightarrow> NeedsConfirm OpDelete 1 n);
              m = \<lparr>mut_op = ''delete'', mut_path = p, mut_dst = [], mut_files = 1, mut_bytes = size\<rparr>;
              s = \<lparr>sum_Files = 1, sum_Bytes = size,
                   sum_Warnings = deleteWarnings (guard_now env st) p guardPath big 1 size, sum_Capped = False\<rparr>
          in gated env w (worstGuard (delete_checks (guard_now env st) p guardPath)) True m [p] False conf s 0 big []
               (delete_dispatch env w m guardPath big) st)"

subsection \<open>batch delete\<close>

text \<open>One item as the measuring pass leaves it: its path, what it resolved to, its size.\<close>

record batch_item =
  bi_Path :: string
  bi_Resolved :: "error + string"
  bi_Size :: int

definition measure_item :: "env \<Rightarrow> server \<Rightarrow> string \<Rightarrow> batch_item" where
  "measure_item env st p =
     (let rp = env_resolve env (srv_trail st) p False
      in \<lparr>bi_Path = p, bi_Resolved = rp,
          bi_Size = (case rp of Inl e \<Rightarrow> 0
            | Inr q \<Rightarrow> (case env_stat env (srv_trail st) p of None \<Rightarrow> 0 | Some n \<Rightarrow> n))\<rparr>)"

definition item_warnings :: "guard \<Rightarrow> batch_item \<Rightarrow> string list" where
  "item_warnings g it =
     (case bi_Resolved it of
        Inl e \<Rightarrow> Reasons g OpDelete (bi_Path it)
      | Inr rp \<Rightarrow> deleteWarnings g (bi_Path it) rp False 0 0)"

text \<open>What the item loop counts.\<close>

record tally =
  t_results :: "item_result list"
  t_succeeded :: nat
  t_failed :: nat
  t_bytes :: int

definition fail_item :: "string \<Rightarrow> string \<Rightarrow> tally \<Rightarrow> tally" where
  "fail_item p code t =
     t\<lparr>t_results := t_results t @ [\<lparr>ir_Path = p, ir_OK = False, ir_Code = code\<rparr>],
       t_failed := Suc (t_failed t)\<rparr>"

definition ok_item :: "string \<Rightarrow> int \<Rightarrow> tally \<Rightarrow> tally" where
  "ok_item p n t =
     t\<lparr>t_results := t_results t @ [\<lparr>ir_Path = p, ir_OK = True, ir_Code = []\<rparr>],
       t_succeeded := Suc (t_succeeded t), t_bytes := wrap64 (t_bytes t + n)\<rparr>"

definition item_mutation :: "string \<Rightarrow> mutation" where
  "item_mutation p = \<lparr>mut_op = ''delete'', mut_path = p, mut_dst = [], mut_files = 0, mut_bytes = 0\<rparr>"

text \<open>
  One turn of the loop: the new tally, whether the loop goes on, the new server. An item the guard
  answered with a confirmation demand goes through when the batch token was redeemed.
\<close>

definition batch_turn :: "env \<Rightarrow> who \<Rightarrow> bool \<Rightarrow> batch_item \<Rightarrow> tally \<Rightarrow> server \<Rightarrow> tally \<times> bool \<times> server" where
  "batch_turn env w tokenRedeemed it t st =
     (if env_gone env (srv_trail st) then (t, False, st)
      else let p = bi_Path it; m = item_mutation p;
               deny = (\<lambda>code. (fail_item p code t, True, record_line env w m ''result'' ''denied'' code False st))
           in case bi_Resolved it of
             Inl e \<Rightarrow> deny (Code (Some e))
           | Inr q \<Rightarrow>
               let err = worstGuard (delete_checks (guard_now env st) p q)
               in if err \<noteq> None \<and> fst (the err) = ErrReadOnly then deny ''read_only''
                  else if err \<noteq> None \<and> fst (the err) = ErrProtected then deny ''protected''
                  else if err \<noteq> None \<and> fst (the err) = ErrConfirmRequired \<and> \<not> tokenRedeemed
                    then deny ''confirm_required''
                  else if err \<noteq> None \<and> fst (the err) \<noteq> ErrConfirmRequired
                    then deny (Code (Some [Own (fst (the err))]))
                  else case writeAudit env w m ''intent'' '''' '''' False st of
                    (refused, st1) \<Rightarrow>
                      if refused then (fail_item p ''audit_unavailable'' t, False, st1)
                      else case run_worker env (DDelete q) st1 of
                        (Some e, st2) \<Rightarrow>
                          (fail_item p (Code (Some e)) t, True,
                           record_line env w m ''result'' ''error'' (Code (Some e)) False st2)
                      | (None, st2) \<Rightarrow>
                          (ok_item p (bi_Size it) t, True, record_line env w m ''result'' ''ok'' '''' False st2))"

fun batch_loop :: "env \<Rightarrow> who \<Rightarrow> bool \<Rightarrow> batch_item list \<Rightarrow> tally \<Rightarrow> server \<Rightarrow> tally \<times> server" where
  "batch_loop env w red [] t st = (t, st)"
| "batch_loop env w red (it # its) t st =
     (case batch_turn env w red it t st of
        (t1, go, st1) \<Rightarrow> if go then batch_loop env w red its t1 st1 else (t1, st1))"

definition batch_outcome :: "nat \<Rightarrow> tally \<Rightarrow> string" where
  "batch_outcome n t =
     (if t_succeeded t = 0 then ''error''
      else if t_failed t > 0 \<or> n - length (t_results t) > 0 then ''partial'' else ''ok'')"

definition empty_tally :: tally where
  "empty_tally = \<lparr>t_results = [], t_succeeded = 0, t_failed = 0, t_bytes = 0\<rparr>"

definition batch_summary :: "guard \<Rightarrow> batch_item list \<Rightarrow> bool \<Rightarrow> int \<Rightarrow> summary" where
  "batch_summary g items big all_bytes =
     \<lparr>sum_Files = int (length items), sum_Bytes = all_bytes,
      sum_Warnings = foldl add_reason [] (concat (map (item_warnings g) items))
        @ (if big then [large_delete_note (int (length items)) all_bytes] else []),
      sum_Capped = False\<rparr>"

definition deleteBatch :: "env \<Rightarrow> who \<Rightarrow> string list \<Rightarrow> string \<Rightarrow> server \<Rightarrow> server" where
  "deleteBatch env w paths conf st =
     (if env_readOnly env (srv_trail st) then
        say (RError 403 ''read_only'')
          (record_line env w (item_mutation []) ''result'' ''denied'' ''read_only'' False st)
      else
        let items = map (measure_item env st) paths;
            all_bytes = add_int64 (map bi_Size items);
            big = NeedsConfirm OpDelete (int (length paths)) all_bytes;
            s = batch_summary (guard_now env st) items big all_bytes;
            bm = (item_mutation [])\<lparr>mut_files := int (length paths), mut_bytes := all_bytes\<rparr>;
            challenge = (\<lambda>code st1. let st2 = record_line env w bm ''result'' ''denied'' code False st1
              in case Issue (env_mac env) (env_now env (srv_trail st2)) (env_nonce env (srv_trail st2))
                        (env_now2 env (srv_trail st2)) ''delete'' s paths False (srv_guard st2) of
                   (g', token, e) \<Rightarrow> say (RConfirm token s 0) (st2\<lparr>srv_guard := g'\<rparr>))
        in if conf = [] then challenge ''confirm_required'' st
           else case Redeem (env_mac env) (env_now env (srv_trail st)) (env_now2 env (srv_trail st)) conf
                       ''delete'' paths False (srv_guard st) of
             (Some e, g') \<Rightarrow> challenge ''confirm_invalid'' (st\<lparr>srv_guard := g'\<rparr>)
           | (None, g') \<Rightarrow>
               (case batch_loop env w True items empty_tally (st\<lparr>srv_guard := g'\<rparr>) of
                  (t, st1) \<Rightarrow>
                    let outcome = batch_outcome (length paths) t;
                        dm = (item_mutation [])\<lparr>mut_files := int (t_succeeded t), mut_bytes := t_bytes t\<rparr>;
                        st2 = (if big then record_line env w dm ''result'' outcome '''' True st1 else st1)
                    in say (RBatch (t_results t) outcome (length (t_results t)) (t_succeeded t) (t_failed t)) st2))"

record delete_body =
  dl_Path :: string
  dl_PathB64 :: string
  dl_Paths :: "(string \<times> string) list"
  dl_Confirm :: string

fun body_paths :: "(string \<times> string) list \<Rightarrow> string list option" where
  "body_paths [] = Some []"
| "body_paths ((p, b) # refs) =
     (case bodyPath p b of
        Inl e \<Rightarrow> None
      | Inr q \<Rightarrow> map_option (\<lambda>qs. q # qs) (body_paths refs))"

definition delete_route :: "env \<Rightarrow> who \<Rightarrow> delete_body \<Rightarrow> server \<Rightarrow> server" where
  "delete_route env w b st =
     (if \<not> env_ready env then say (RError 500 ''internal'') st
      else let refs = (if dl_Paths b = [] \<and> (dl_Path b \<noteq> [] \<or> dl_PathB64 b \<noteq> [])
                       then [(dl_Path b, dl_PathB64 b)] else dl_Paths b)
           in if refs = [] then bad_request st
              else case body_paths refs of
                None \<Rightarrow> bad_request st
              | Some paths \<Rightarrow>
                  if length paths = 1 then deleteSingle env w (hd paths) (dl_Confirm b) st
                  else deleteBatch env w paths (dl_Confirm b) st)"

datatype request = RqMkdir mkdir_body | RqRename rename_body | RqDelete delete_body

fun serve :: "env \<Rightarrow> who \<Rightarrow> request \<Rightarrow> server \<Rightarrow> server" where
  "serve env w (RqMkdir b) st = mkdir env w b st"
| "serve env w (RqRename b) st = rename env w b st"
| "serve env w (RqDelete b) st = delete_route env w b st"

subsection \<open>The stricter verdict\<close>

definition strictest :: "refusal list \<Rightarrow> severity" where
  "strictest es = foldr (\<lambda>e s. max (sev e) s) es Allowed"

lemma strictest_simps [simp]:
  "strictest [] = Allowed" "strictest (e # es) = max (sev e) (strictest es)"
  by (simp_all add: strictest_def)

lemma severity_max [simp]:
  "max Allowed s = s" "max s Allowed = s" "max Denied s = Denied" "max s Denied = Denied"
  "max Confirmable Confirmable = Confirmable"
  by (cases s; simp add: max_def less_eq_severity_def)+

lemma strictest_Denied: "strictest es = Denied \<longleftrightarrow> list_ex (\<lambda>e. sev e = Denied) es"
proof (induction es)
  case (Cons e es)
  then show ?case by (cases "sev e"; cases "strictest es") (simp_all add: max_def less_eq_severity_def)
qed simp

text \<open>What the three variables of the loop hold.\<close>

definition only :: "sentinel \<Rightarrow> refusal \<Rightarrow> bool" where
  "only s e \<longleftrightarrow> (case e of None \<Rightarrow> True | Some (s', _) \<Rightarrow> s' = s)"

lemma only_sev:
  "only ErrConfirmRequired e \<Longrightarrow> sev e = (if e = None then Allowed else Confirmable)"
  "only ErrProtected e \<Longrightarrow> sev e = (if e = None then Allowed else Denied)"
  "only ErrReadOnly e \<Longrightarrow> sev e = (if e = None then Allowed else Denied)"
  by (auto simp: only_def sev_def split: option.splits)

lemma sev_worst_loop:
  "only ErrConfirmRequired conf \<Longrightarrow> only ErrProtected prot \<Longrightarrow> only ErrReadOnly ro \<Longrightarrow>
   sev (worst_loop es conf prot ro) = max (max (sev conf) (max (sev prot) (sev ro))) (strictest es)"
proof (induction es arbitrary: conf prot ro)
  case Nil
  then show ?case by (cases conf; cases prot; cases ro) (auto simp: only_def sev_def)
next
  case (Cons e es)
  show ?case
  proof (cases e)
    case None
    then show ?thesis using Cons by simp
  next
    case (Some sw)
    obtain s why where sw: "sw = (s, why)" by (cases sw)
    consider "s = ErrReadOnly" | "s = ErrProtected" | "s = ErrConfirmRequired"
      | "s \<noteq> ErrReadOnly" "s \<noteq> ErrProtected" "s \<noteq> ErrConfirmRequired" by blast
    then show ?thesis
    proof cases
      case 1
      then show ?thesis using Cons.IH [of conf prot e] Cons.prems Some sw by (simp add: only_def)
    next
      case 2
      then show ?thesis using Cons.IH [of conf e ro] Cons.prems Some sw by (simp add: only_def)
    next
      case 3
      define c where "c = (if conf = None then e else conf)"
      have c: "only ErrConfirmRequired c" "sev c = Confirmable"
        using 3 Some sw Cons.prems(1) by (auto simp: c_def only_sev) (simp add: only_def)
      have "worst_loop (e # es) conf prot ro = worst_loop es c prot ro"
        using 3 Some sw by (simp add: c_def)
      moreover have "max (sev conf) Confirmable = Confirmable"
        using Cons.prems(1) by (simp add: only_sev)
      ultimately show ?thesis
        using Cons.IH [OF c(1) Cons.prems(2,3)] c(2) 3 Some sw
        by (cases "sev conf") (simp_all add: ac_simps)
    next
      case 4
      then have "sev e = Denied" "worst_loop (e # es) conf prot ro = e"
        using Some sw by (simp_all add: sev_def)
      then show ?thesis by simp
    qed
  qed
qed

lemma sev_worstGuard: "sev (worstGuard es) = strictest es"
  unfolding worstGuard_def by (subst sev_worst_loop) (simp_all add: only_def)

subsection \<open>What the gates leave on the trail\<close>

fun dispatches :: "trail \<Rightarrow> dispatch list" where
  "dispatches [] = []"
| "dispatches (Dispatched d # t) = d # dispatches t"
| "dispatches (x # t) = dispatches t"

lemma dispatches_other [simp]:
  "dispatches (Durable ev ok # t) = dispatches t" "dispatches (Async ev # t) = dispatches t"
  "dispatches (Submitted jp # t) = dispatches t" "dispatches (Ran jp # t) = dispatches t" "dispatches (Measuring jp # t) = dispatches t" "dispatches (MadeTrash q # t) = dispatches t"
  "dispatches (Replied r # t) = dispatches t"
  by simp_all

lemma dispatches_writeAudit [simp]:
  "dispatches (srv_trail (snd (writeAuditDetail env w m ph r c d mi st))) = dispatches (srv_trail st)"
  "dispatches (srv_trail (snd (writeAudit env w m ph r c mi st))) = dispatches (srv_trail st)"
  by (simp_all add: writeAudit_def writeAuditDetail_def Let_def emit_def)

lemma dispatches_record_line [simp]:
  "dispatches (srv_trail (record_line env w m ph r c mi st)) = dispatches (srv_trail st)"
  by (simp add: record_line_def)

lemma dispatches_say [simp]: "dispatches (srv_trail (say r st)) = dispatches (srv_trail st)"
  by (simp add: say_def emit_def)

lemma guard_writeAudit [simp]:
  "srv_guard (snd (writeAuditDetail env w m ph r c d mi st)) = srv_guard st"
  "srv_guard (snd (writeAudit env w m ph r c mi st)) = srv_guard st"
  by (simp_all add: writeAudit_def writeAuditDetail_def Let_def emit_def)

lemma guard_record_line [simp]: "srv_guard (record_line env w m ph r c mi st) = srv_guard st"
  by (simp add: record_line_def)

lemma guard_say [simp]: "srv_guard (say r st) = srv_guard st"
  by (simp add: say_def emit_def)

lemma truncate_recordCost [simp]: "guard.truncate (recordCost t k s e g) = guard.truncate g"
  by (simp add: recordCost_def sweepLocked_def Let_def guard.truncate_def)

lemma truncate_Issue [simp]:
  "guard.truncate (fst (Issue mac t n t2 op s parts ordered g)) = guard.truncate g"
  by (simp add: Issue_def Let_def)

lemma truncate_Redeem [simp]:
  "guard.truncate (snd (Redeem mac t t2 tok op parts ordered g)) = guard.truncate g"
  by (auto simp: Redeem_def sweepLocked_def Let_def guard.truncate_def split: option.split)

text \<open>The guard's verdicts carry one of three sentinels, and so does the worst of them.\<close>

definition guard_verdict :: "refusal \<Rightarrow> bool" where
  "guard_verdict v \<longleftrightarrow> v = None \<or> fst (the v) \<in> {ErrReadOnly, ErrProtected, ErrConfirmRequired}"

lemma guard_verdict_check_rules: "guard_verdict (check_rules rs op p w)"
  by (induction rs op p w rule: check_rules.induct) (simp_all add: guard_verdict_def)

lemma guard_verdict_Check [simp]: "guard_verdict (Check g op p)"
  using guard_verdict_check_rules [of "rules g" op p "[]"]
  by (simp add: Check_def split: option.split) (simp add: guard_verdict_def)

lemma guard_verdict_worst_loop:
  "list_all guard_verdict es \<Longrightarrow> guard_verdict conf \<Longrightarrow> guard_verdict prot \<Longrightarrow> guard_verdict ro \<Longrightarrow>
   guard_verdict (worst_loop es conf prot ro)"
  by (induction es conf prot ro rule: worst_loop.induct) (auto split: option.split)

lemma guard_verdict_worstGuard: "list_all guard_verdict es \<Longrightarrow> guard_verdict (worstGuard es)"
  unfolding worstGuard_def by (rule guard_verdict_worst_loop) (simp_all add: guard_verdict_def)

text \<open>authorize lets a request through only without a denial, and against a redeemed token.\<close>

definition token_accepted :: "env \<Rightarrow> string \<Rightarrow> string \<Rightarrow> string list \<Rightarrow> bool \<Rightarrow> server \<Rightarrow> bool" where
  "token_accepted env conf op parts ordered st \<longleftrightarrow>
     conf \<noteq> [] \<and> fst (Redeem (env_mac env) (env_now env (srv_trail st)) (env_now2 env (srv_trail st))
       conf op parts ordered (srv_guard st)) = None"

lemma authorizeGraded_go:
  assumes "authorizeGraded env w v extra m parts ordered conf s grade st = (True, st1)" and v: "guard_verdict v"
  shows "sev v \<noteq> Denied" and "srv_trail st1 = srv_trail st"
    and "guard.truncate (srv_guard st1) = guard.truncate (srv_guard st)"
    and "sev v = Confirmable \<or> extra \<Longrightarrow> token_accepted env conf (mut_op m) parts ordered st"
proof -
  let ?R = "Redeem (env_mac env) (env_now env (srv_trail st)) (env_now2 env (srv_trail st)) conf
    (mut_op m) parts ordered (srv_guard st)"
  have s: "sev v = (case v of None \<Rightarrow> Allowed | Some (x, _) \<Rightarrow> if x = ErrConfirmRequired then Confirmable else Denied)"
    by (simp add: sev_def)
  have "sev v \<noteq> Denied \<and> srv_trail st1 = srv_trail st \<and>
      guard.truncate (srv_guard st1) = guard.truncate (srv_guard st) \<and>
      (sev v = Confirmable \<or> extra \<longrightarrow> conf \<noteq> [] \<and> fst ?R = None)"
    using assms truncate_Redeem [of "env_mac env" "env_now env (srv_trail st)" "env_now2 env (srv_trail st)"
      conf "mut_op m" parts ordered "srv_guard st"]
    unfolding authorizeGraded_def guard_verdict_def
    by (cases v; cases "?R"; cases "fst ?R")
      (auto simp: s Let_def split: if_splits prod.splits option.splits)
  then show "sev v \<noteq> Denied" "srv_trail st1 = srv_trail st"
    "guard.truncate (srv_guard st1) = guard.truncate (srv_guard st)"
    "sev v = Confirmable \<or> extra \<Longrightarrow> token_accepted env conf (mut_op m) parts ordered st"
    by (auto simp: token_accepted_def)
qed

lemma authorizeGraded_trail:
  "dispatches (srv_trail (snd (authorizeGraded env w v extra m parts ordered conf s grade st))) = dispatches (srv_trail st)"
  by (auto simp: authorizeGraded_def Let_def split: prod.split option.split)

text \<open>Every dispatch directly follows the durable, saved intent line of its own operation.\<close>

fun dispatch_op :: "dispatch \<Rightarrow> string" where
  "dispatch_op (DMkdir d n u) = ''mkdir''"
| "dispatch_op (DRename a b ow) = ''rename''"
| "dispatch_op (DDelete p) = ''delete''"
| "dispatch_op (DChmod p s e) = ''chmod''"
| "dispatch_op (DChown p u g) = ''chown''"

fun intent_on_top :: "string \<Rightarrow> trail \<Rightarrow> bool" where
  "intent_on_top op (Durable ev ok # t) = (ok \<and> al_Phase ev = ''intent'' \<and> mut_op (al_mut ev) = op)"
| "intent_on_top op t = False"

fun disciplined :: "trail \<Rightarrow> bool" where
  "disciplined [] = True"
| "disciplined (Dispatched d # t) = (intent_on_top (dispatch_op d) t \<and> disciplined t)"
| "disciplined (Submitted jp # t) = (intent_on_top (jp_op jp) t \<and> disciplined t)"
| "disciplined (x # t) = disciplined t"

lemma disciplined_other [simp]:
  "disciplined (Durable ev ok # t) = disciplined t" "disciplined (Async ev # t) = disciplined t"
  "disciplined (Ran jp # t) = disciplined t" "disciplined (Measuring jp # t) = disciplined t" "disciplined (MadeTrash q # t) = disciplined t"
  "disciplined (Replied r # t) = disciplined t"
  by simp_all

lemma disciplined_writeAudit [simp]:
  "disciplined (srv_trail (snd (writeAuditDetail env w m ph r c d mi st))) = disciplined (srv_trail st)"
  "disciplined (srv_trail (snd (writeAudit env w m ph r c mi st))) = disciplined (srv_trail st)"
  by (simp_all add: writeAudit_def writeAuditDetail_def Let_def emit_def)

lemma disciplined_record_line [simp]:
  "disciplined (srv_trail (record_line env w m ph r c mi st)) = disciplined (srv_trail st)"
  by (simp add: record_line_def)

lemma disciplined_say [simp]: "disciplined (srv_trail (say r st)) = disciplined (srv_trail st)"
  by (simp add: say_def emit_def)

lemma disciplined_authorize:
  "disciplined (srv_trail (snd (authorizeGraded env w v extra m parts ordered conf s grade st))) = disciplined (srv_trail st)"
  by (auto simp: authorizeGraded_def Let_def split: prod.split option.split)

lemma intent_saved:
  assumes "writeAuditDetail env w m ''intent'' r c d mi st = (False, st1)" "env_auditor env"
  shows "intent_on_top (mut_op m) (srv_trail st1)"
  using assms by (auto simp: writeAuditDetail_def is_durable_def Let_def emit_def)

lemma auditIntent_go:
  assumes "auditIntent env w m mi d st = (True, st1)"
  shows "env_auditor env \<Longrightarrow> intent_on_top (mut_op m) (srv_trail st1)"
    and "disciplined (srv_trail st1) = disciplined (srv_trail st)"
    and "dispatches (srv_trail st1) = dispatches (srv_trail st)"
    and "srv_guard st1 = srv_guard st"
proof -
  obtain refused st2 where w: "writeAuditDetail env w m ''intent'' '''' '''' d mi st = (refused, st2)" by fastforce
  with assms have "\<not> refused" "st1 = st2" by (auto simp: auditIntent_def split: if_splits)
  with w show "env_auditor env \<Longrightarrow> intent_on_top (mut_op m) (srv_trail st1)" by (auto intro: intent_saved)
  from w \<open>st1 = st2\<close> show "disciplined (srv_trail st1) = disciplined (srv_trail st)"
    "dispatches (srv_trail st1) = dispatches (srv_trail st)" "srv_guard st1 = srv_guard st"
    using disciplined_writeAudit dispatches_writeAudit guard_writeAudit by (metis snd_conv)+
qed

lemma auditIntent_stop:
  assumes "auditIntent env w m mi d st = (False, st1)"
  shows "disciplined (srv_trail st1) = disciplined (srv_trail st)"
    and "dispatches (srv_trail st1) = dispatches (srv_trail st)"
proof -
  obtain refused st2 where w: "writeAuditDetail env w m ''intent'' '''' '''' d mi st = (refused, st2)" by fastforce
  then have "disciplined (srv_trail st2) = disciplined (srv_trail st)"
    "dispatches (srv_trail st2) = dispatches (srv_trail st)"
    using disciplined_writeAudit dispatches_writeAudit by (metis snd_conv)+
  moreover have "st1 = say (RError 500 ''audit_unavailable'') st2"
    using w assms by (auto simp: auditIntent_def split: if_splits)
  ultimately show "disciplined (srv_trail st1) = disciplined (srv_trail st)"
    "dispatches (srv_trail st1) = dispatches (srv_trail st)" by simp_all
qed

text \<open>One rule for all handlers: what holds after the gates, and what holds when they stop.\<close>

lemma gated_cases:
  assumes "guard_verdict v"
    and stop: "\<And>st'. disciplined (srv_trail st') = disciplined (srv_trail st) \<Longrightarrow>
      dispatches (srv_trail st') = dispatches (srv_trail st) \<Longrightarrow> P st'"
    and go: "\<And>st'. sev v \<noteq> Denied \<Longrightarrow>
      (sev v = Confirmable \<or> extra \<Longrightarrow> token_accepted env conf (mut_op m) parts ordered st) \<Longrightarrow>
      (env_auditor env \<Longrightarrow> intent_on_top (mut_op m) (srv_trail st')) \<Longrightarrow>
      disciplined (srv_trail st') = disciplined (srv_trail st) \<Longrightarrow>
      dispatches (srv_trail st') = dispatches (srv_trail st) \<Longrightarrow>
      guard.truncate (srv_guard st') = guard.truncate (srv_guard st) \<Longrightarrow> P (k st')"
  shows "P (gated env w v extra m parts ordered conf s grade mi d k st)"
proof -
  obtain b st1 where a: "authorizeGraded env w v extra m parts ordered conf s grade st = (b, st1)" by fastforce
  have t: "disciplined (srv_trail st1) = disciplined (srv_trail st)"
    "dispatches (srv_trail st1) = dispatches (srv_trail st)"
    using a disciplined_authorize authorizeGraded_trail by (metis snd_conv)+
  show ?thesis
  proof (cases b)
    case False
    with a t show ?thesis by (simp add: gated_def stop)
  next
    case True
    with a have a: "authorizeGraded env w v extra m parts ordered conf s grade st = (True, st1)" by simp
    note go_facts = authorizeGraded_go [OF a assms(1)]
    obtain b2 st2 where i: "auditIntent env w m mi d st1 = (b2, st2)" by fastforce
    show ?thesis
    proof (cases b2)
      case False
      with i have "auditIntent env w m mi d st1 = (False, st2)" by simp
      note auditIntent_stop [OF this]
      with t have "P st2" by (intro stop) simp_all
      with a i False show ?thesis by (simp add: gated_def)
    next
      case True
      with i have i: "auditIntent env w m mi d st1 = (True, st2)" by simp
      have "P (k st2)"
        using auditIntent_go [OF i] go_facts t by (intro go) simp_all
      with a i show ?thesis by (simp add: gated_def)
    qed
  qed
qed

subsection \<open>What each handler dispatches\<close>

text \<open>The dispatch itself and the lines after it.\<close>

lemma dispatches_finish [simp]:
  "dispatches (srv_trail (snd (finish env w m err mi st))) = dispatches (srv_trail st)"
  "disciplined (srv_trail (snd (finish env w m err mi st))) = disciplined (srv_trail st)"
  by (simp_all add: finish_def Let_def split: option.split)

lemma run_worker_trail:
  "run_worker env d st = (err, st1) \<Longrightarrow> srv_trail st1 = Dispatched d # srv_trail st"
  by (auto simp: run_worker_def emit_def)

lemma after_worker:
  assumes "intent_on_top (dispatch_op d) (srv_trail st)" "disciplined (srv_trail st)"
    and "run_worker env d st = (err, st1)"
  shows "disciplined (srv_trail st1)" "dispatches (srv_trail st1) = d # dispatches (srv_trail st)"
  using assms run_worker_trail [OF assms(3)] by simp_all

lemma dispatches_run_worker:
  "run_worker env d st = (err, st1) \<Longrightarrow> dispatches (srv_trail st1) = d # dispatches (srv_trail st)"
  by (simp add: run_worker_trail)

lemma finish_snd:
  "finish env w m err mi st = (ok, st2) \<Longrightarrow>
   dispatches (srv_trail st2) = dispatches (srv_trail st) \<and> disciplined (srv_trail st2) = disciplined (srv_trail st)"
  using dispatches_finish [of env w m err mi st] by simp

lemma dispatches_mkdir_dispatch:
  "\<exists>u. dispatches (srv_trail (mkdir_dispatch env w m dir rdir name st))
     = DMkdir rdir name u # dispatches (srv_trail st)"
  by (auto simp: mkdir_dispatch_def split: prod.split dest!: dispatches_run_worker finish_snd)

lemma disciplined_mkdir_dispatch:
  "intent_on_top ''mkdir'' (srv_trail st) \<Longrightarrow> disciplined (srv_trail st) \<Longrightarrow>
   disciplined (srv_trail (mkdir_dispatch env w m dir rdir name st))"
  by (auto simp: mkdir_dispatch_def split: prod.split dest!: finish_snd dest: after_worker(1) [rotated 2])

lemma dispatches_rename_dispatch:
  "dispatches (srv_trail (rename_dispatch env w m a b ow st)) = DRename a b ow # dispatches (srv_trail st)"
  by (auto simp: rename_dispatch_def split: prod.split dest!: dispatches_run_worker finish_snd)

lemma disciplined_rename_dispatch:
  "intent_on_top ''rename'' (srv_trail st) \<Longrightarrow> disciplined (srv_trail st) \<Longrightarrow>
   disciplined (srv_trail (rename_dispatch env w m a b ow st))"
  by (auto simp: rename_dispatch_def split: prod.split dest!: finish_snd dest: after_worker(1) [rotated 2])

lemma dispatches_delete_dispatch:
  "dispatches (srv_trail (delete_dispatch env w m q big st)) = DDelete q # dispatches (srv_trail st)"
  by (auto simp: delete_dispatch_def split: prod.split dest!: dispatches_run_worker finish_snd)

lemma disciplined_delete_dispatch:
  "intent_on_top ''delete'' (srv_trail st) \<Longrightarrow> disciplined (srv_trail st) \<Longrightarrow>
   disciplined (srv_trail (delete_dispatch env w m q big st))"
  by (auto simp: delete_dispatch_def split: prod.split dest!: finish_snd dest: after_worker(1) [rotated 2])

text \<open>What a dispatch needs of the guard, in the spelling the worker is given.\<close>

fun dispatch_needs :: "dispatch \<Rightarrow> (op \<times> string) list" where
  "dispatch_needs (DMkdir dir name u) = [(OpCreate, dir), (OpCreate, Join dir [name])]"
| "dispatch_needs (DRename a b ow) =
     [(OpRename, a), (OpDelete, a), (OpCreate, Parent b), (OpCreate, b)] @ (if ow then [(OpDelete, b)] else [])"
| "dispatch_needs (DDelete p) = [(OpDelete, p)]"
| "dispatch_needs (DChmod p s e) = [(OpChmod, p)]"
| "dispatch_needs (DChown p u g) = [(OpChown, p)]"

definition dispatch_allowed :: "guard \<Rightarrow> dispatch \<Rightarrow> bool" where
  "dispatch_allowed g d \<longleftrightarrow> list_all (\<lambda>(op, p). sev (Check g op p) \<noteq> Denied) (dispatch_needs d)"

definition dispatched_only :: "guard \<Rightarrow> server \<Rightarrow> server \<Rightarrow> bool" where
  "dispatched_only g st st' \<longleftrightarrow>
     (\<exists>new. dispatches (srv_trail st') = new @ dispatches (srv_trail st) \<and> list_all (dispatch_allowed g) new)"

lemma dispatched_only_none [simp]:
  "dispatches (srv_trail st') = dispatches (srv_trail st) \<Longrightarrow> dispatched_only g st st'"
  by (simp add: dispatched_only_def)

lemma dispatched_only_one:
  "dispatches (srv_trail st') = d # dispatches (srv_trail st) \<Longrightarrow> dispatch_allowed g d \<Longrightarrow> dispatched_only g st st'"
  unfolding dispatched_only_def by (intro exI [of _ "[d]"]) simp

lemma dispatched_only_trans:
  "dispatched_only g st st1 \<Longrightarrow> dispatched_only g st1 st2 \<Longrightarrow> dispatched_only g st st2"
  unfolding dispatched_only_def by fastforce

lemma mkdir_checks_allowed:
  "strictest (mkdir_checks g dir rdir name) \<noteq> Denied \<Longrightarrow> dispatch_allowed g (DMkdir rdir name u)"
  unfolding strictest_Denied mkdir_checks_def dispatch_allowed_def by simp

lemma rename_checks_allowed:
  "strictest (rename_checks g a ga b gb ow) \<noteq> Denied \<Longrightarrow> dispatch_allowed g (DRename ga gb ow)"
  unfolding strictest_Denied rename_checks_def dispatch_allowed_def by (cases ow) simp_all

lemma delete_checks_allowed:
  "strictest (delete_checks g p q) \<noteq> Denied \<Longrightarrow> dispatch_allowed g (DDelete q)"
  unfolding strictest_Denied delete_checks_def dispatch_allowed_def by simp

lemma checks_verdicts [simp]:
  "guard_verdict (worstGuard (mkdir_checks g dir rdir name))"
  "guard_verdict (worstGuard (rename_checks g a ga b gb ow))"
  "guard_verdict (worstGuard (delete_checks g p q))"
  by (simp_all add: guard_verdict_worstGuard mkdir_checks_def rename_checks_def delete_checks_def)

lemma bad_request_trail [simp]:
  "dispatches (srv_trail (bad_request st)) = dispatches (srv_trail st)"
  "disciplined (srv_trail (bad_request st)) = disciplined (srv_trail st)"
  by (simp_all add: bad_request_def)

lemma failResolve_trail [simp]:
  "dispatches (srv_trail (failResolve e st)) = dispatches (srv_trail st)"
  "disciplined (srv_trail (failResolve e st)) = disciplined (srv_trail st)"
  by (simp_all add: failResolve_def Let_def)

text \<open>What a handler does: it stops without a dispatch, or runs its gates.\<close>

lemma mkdir_cases:
  assumes "\<And>st'. dispatches (srv_trail st') = dispatches (srv_trail st) \<Longrightarrow>
      disciplined (srv_trail st') = disciplined (srv_trail st) \<Longrightarrow> P st'"
    and "\<And>dir rdir. let m = \<lparr>mut_op = ''mkdir'', mut_path = Join dir [mk_Name b], mut_dst = [], mut_files = 0, mut_bytes = 0\<rparr>
      in P (gated env w (worstGuard (mkdir_checks (guard_now env st) dir rdir (mk_Name b))) False m
        [Join dir [mk_Name b]] False (mk_Confirm b) one_file 0 False [] (mkdir_dispatch env w m dir rdir (mk_Name b)) st)"
  shows "P (mkdir env w b st)"
  using assms(2) unfolding mkdir_def Let_def
  by (auto intro!: assms(1) split: sum.split)

lemma rename_cases:
  assumes "\<And>st'. dispatches (srv_trail st') = dispatches (srv_trail st) \<Longrightarrow>
      disciplined (srv_trail st') = disciplined (srv_trail st) \<Longrightarrow> P st'"
    and "\<And>a ga c gc. let m = \<lparr>mut_op = ''rename'', mut_path = a, mut_dst = c, mut_files = 0, mut_bytes = 0\<rparr>
      in P (gated env w (worstGuard (rename_checks (guard_now env st) a ga c gc (rn_Overwrite b))) False m
        (renameTokenParts a c (rn_Overwrite b)) True (rn_Confirm b) one_file 0 False []
        (rename_dispatch env w m ga gc (rn_Overwrite b)) st)"
  shows "P (rename env w b st)"
  using assms(2) unfolding rename_def Let_def
  by (auto intro!: assms(1) split: sum.split option.split)

lemma deleteSingle_cases:
  assumes "\<And>st'. dispatches (srv_trail st') = dispatches (srv_trail st) \<Longrightarrow>
      disciplined (srv_trail st') = disciplined (srv_trail st) \<Longrightarrow> P st'"
    and "\<And>q m s big. mut_op m = ''delete'' \<Longrightarrow>
      P (gated env w (worstGuard (delete_checks (guard_now env st) p q)) True m [p] False conf s 0 big []
        (delete_dispatch env w m q big) st)"
  shows "P (deleteSingle env w p conf st)"
  unfolding deleteSingle_def Let_def
  by (auto intro!: assms split: sum.split)

subsection \<open>The batch loop\<close>

lemma writeAudit_cases:
  assumes "writeAudit env w m ph r c mi st = (refused, st1)"
  shows "dispatches (srv_trail st1) = dispatches (srv_trail st)"
    "disciplined (srv_trail st1) = disciplined (srv_trail st)" "srv_guard st1 = srv_guard st"
  using dispatches_writeAudit(2) [of env w m ph r c mi st] disciplined_writeAudit(2) [of env w m ph r c mi st]
    guard_writeAudit(2) [of env w m ph r c mi st] assms by simp_all

lemma sev_the:
  "sev v = (if v = None then Allowed else if fst (the v) = ErrConfirmRequired then Confirmable else Denied)"
  by (cases v) (auto simp: sev_def)

text \<open>A turn ends the loop, records a failure without a dispatch, or dispatches its own item.\<close>

lemma batch_turn_cases:
  assumes "batch_turn env w red it t st = (t1, go, st1)"
  obtains
    (gone) "t1 = t" "\<not> go" "st1 = st"
  | (failed) code where "t1 = fail_item (bi_Path it) code t" "srv_guard st1 = srv_guard st"
      "dispatches (srv_trail st1) = dispatches (srv_trail st)"
      "disciplined (srv_trail st1) = disciplined (srv_trail st)"
  | (sent) q err where "bi_Resolved it = Inr q" "go" "srv_guard st1 = srv_guard st"
      "strictest (delete_checks (guard_now env st) (bi_Path it) q) \<noteq> Denied"
      "strictest (delete_checks (guard_now env st) (bi_Path it) q) = Confirmable \<Longrightarrow> red"
      "dispatches (srv_trail st1) = DDelete q # dispatches (srv_trail st)"
      "env_auditor env \<Longrightarrow> disciplined (srv_trail st) \<Longrightarrow> disciplined (srv_trail st1)"
      "t1 = (case err of None \<Rightarrow> ok_item (bi_Path it) (bi_Size it) t
         | Some e \<Rightarrow> fail_item (bi_Path it) (Code (Some e)) t)"
proof (cases "env_gone env (srv_trail st)")
  case True
  with assms show ?thesis by (intro gone) (auto simp: batch_turn_def)
next
  case alive: False
  show ?thesis
  proof (cases "bi_Resolved it")
    case (Inl e)
    with assms alive show ?thesis by (intro failed) (auto simp: batch_turn_def Let_def)
  next
    case (Inr q)
    define v where "v = worstGuard (delete_checks (guard_now env st) (bi_Path it) q)"
    have v3: "guard_verdict v" by (simp add: v_def)
    have sv: "strictest (delete_checks (guard_now env st) (bi_Path it) q) = sev v"
      by (simp add: v_def sev_worstGuard)
    show ?thesis
    proof (cases "sev v = Denied \<or> (sev v = Confirmable \<and> \<not> red)")
      case True
      then have "v \<noteq> None \<and> (fst (the v) = ErrReadOnly \<or> fst (the v) = ErrProtected \<or>
          (fst (the v) = ErrConfirmRequired \<and> \<not> red))"
        using v3 by (auto simp: guard_verdict_def sev_the split: if_splits)
      with assms alive Inr have "\<exists>code. t1 = fail_item (bi_Path it) code t \<and>
          st1 = record_line env w (item_mutation (bi_Path it)) ''result'' ''denied'' code False st"
        by (auto simp: batch_turn_def Let_def v_def [symmetric] split: if_splits)
      then show ?thesis using failed by auto
    next
      case False
      then have pass: "v \<noteq> None \<Longrightarrow> fst (the v) = ErrConfirmRequired" "v \<noteq> None \<Longrightarrow> red"
        using v3 by (auto simp: guard_verdict_def sev_the split: if_splits)
      obtain refused st2 where i:
        "writeAudit env w (item_mutation (bi_Path it)) ''intent'' '''' '''' False st = (refused, st2)"
        by fastforce
      show ?thesis
      proof (cases refused)
        case True
        with assms alive Inr pass i writeAudit_cases [OF i] show ?thesis
          by (intro failed) (auto simp: batch_turn_def Let_def v_def [symmetric] split: if_splits)
      next
        case ok: False
        obtain err st3 where r: "run_worker env (DDelete q) st2 = (err, st3)" by fastforce
        have g: "srv_guard st3 = srv_guard st"
          using r writeAudit_cases(3) [OF i] by (auto simp: run_worker_def emit_def)
        have res: "\<exists>r c. st1 = record_line env w (item_mutation (bi_Path it)) ''result'' r c False st3" "go"
          "t1 = (case err of None \<Rightarrow> ok_item (bi_Path it) (bi_Size it) t
             | Some e \<Rightarrow> fail_item (bi_Path it) (Code (Some e)) t)"
          using assms alive Inr pass i r ok
          by (auto simp: batch_turn_def Let_def v_def [symmetric] split: if_splits option.splits)
        have "env_auditor env \<Longrightarrow> intent_on_top ''delete'' (srv_trail st2)"
          using intent_saved [of env w "item_mutation (bi_Path it)" "''''" "''''" "[]" False st st2] i ok
          by (simp add: item_mutation_def writeAudit_def)
        then have "env_auditor env \<Longrightarrow> disciplined (srv_trail st) \<Longrightarrow> disciplined (srv_trail st3)"
          using run_worker_trail [OF r] writeAudit_cases(2) [OF i] by simp
        with res g dispatches_run_worker [OF r] writeAudit_cases(1) [OF i] False sv show ?thesis
          by (intro sent [OF Inr]) auto
      qed
    qed
  qed
qed

lemma guard_now_eq:
  "env_readOnly env = (\<lambda>_. ro) \<Longrightarrow> guard.truncate (srv_guard st1) = guard.truncate (srv_guard st) \<Longrightarrow>
   guard_now env st1 = guard_now env st"
  by (simp add: guard_now_def)

lemma batch_loop_dispatches:
  assumes ro: "env_readOnly env = (\<lambda>_. ro)"
  shows "dispatched_only (guard_now env st) st (snd (batch_loop env w red its t st))"
proof (induction its arbitrary: t st)
  case (Cons it its)
  obtain t1 go st1 where b: "batch_turn env w red it t st = (t1, go, st1)" by (metis prod_cases3)
  then have step: "dispatched_only (guard_now env st) st st1 \<and> (go \<longrightarrow> srv_guard st1 = srv_guard st)"
    by (cases rule: batch_turn_cases)
      (auto intro: dispatched_only_one delete_checks_allowed)
  show ?case
  proof (cases go)
    case True
    with step have "guard_now env st1 = guard_now env st" by (intro guard_now_eq [OF ro]) simp
    with Cons.IH [of st1 t1] step True b show ?thesis
      by (auto intro: dispatched_only_trans)
  qed (use step b in simp)
qed simp

lemma batch_loop_disciplined:
  assumes "env_auditor env"
  shows "disciplined (srv_trail st) \<Longrightarrow> disciplined (srv_trail (snd (batch_loop env w red its t st)))"
proof (induction its arbitrary: t st)
  case (Cons it its)
  obtain t1 go st1 where b: "batch_turn env w red it t st = (t1, go, st1)" by (metis prod_cases3)
  then have "disciplined (srv_trail st1)"
    using assms Cons.prems by (cases rule: batch_turn_cases) auto
  with Cons.IH [of st1 t1] b show ?case by simp
qed simp

text \<open>A turn's tally: one more result, counted once, and an OK one exactly when the delete worked.\<close>

definition tally_ok :: "tally \<Rightarrow> bool" where
  "tally_ok t \<longleftrightarrow> t_succeeded t + t_failed t = length (t_results t) \<and>
     t_succeeded t = length (filter ir_OK (t_results t))"

lemma tally_fail [simp]:
  "tally_ok t \<Longrightarrow> tally_ok (fail_item p c t)" "length (t_results (fail_item p c t)) = Suc (length (t_results t))"
  by (simp_all add: tally_ok_def fail_item_def)

lemma tally_good [simp]:
  "tally_ok t \<Longrightarrow> tally_ok (ok_item p n t)" "length (t_results (ok_item p n t)) = Suc (length (t_results t))"
  by (simp_all add: tally_ok_def ok_item_def)

definition result_paths :: "tally \<Rightarrow> string list" where
  "result_paths t = map ir_Path (t_results t)"

lemma result_paths_simps [simp]:
  "result_paths (fail_item p c t) = result_paths t @ [p]" "result_paths (ok_item p n t) = result_paths t @ [p]"
  by (simp_all add: result_paths_def fail_item_def ok_item_def)

lemma batch_turn_tally:
  assumes "batch_turn env w red it t st = (t1, go, st1)" "tally_ok t"
  shows "tally_ok t1" "(t1 = t \<and> \<not> go) \<or> result_paths t1 = result_paths t @ [bi_Path it]"
  using assms by (cases rule: batch_turn_cases; auto split: option.splits)+

lemma batch_loop_tally:
  assumes "tally_ok t"
  shows "tally_ok (fst (batch_loop env w red its t st)) \<and>
    prefix (result_paths (fst (batch_loop env w red its t st))) (result_paths t @ map bi_Path its) \<and>
    prefix (result_paths t) (result_paths (fst (batch_loop env w red its t st)))"
  using assms
proof (induction its arbitrary: t st)
  case (Cons it its)
  obtain t1 go st1 where b: "batch_turn env w red it t st = (t1, go, st1)" by (metis prod_cases3)
  note tt = batch_turn_tally [OF b Cons.prems]
  show ?case
  proof (cases go)
    case True
    with tt have "result_paths t1 = result_paths t @ [bi_Path it]" by simp
    with True b Cons.IH [OF tt(1), of st1] show ?thesis by (auto dest: append_prefixD)
  next
    case False
    with tt b show ?thesis by (auto simp: append_prefixD)
  qed
qed (simp add: result_paths_def)

lemma empty_tally_ok [simp]: "tally_ok empty_tally" "result_paths empty_tally = []"
  by (simp_all add: tally_ok_def empty_tally_def result_paths_def)

subsection \<open>Whole requests\<close>

text \<open>The batch handler stops at a challenge or runs its loop behind a redeemed token.\<close>

lemma deleteBatch_cases:
  assumes stop: "\<And>st'. dispatches (srv_trail st') = dispatches (srv_trail st) \<Longrightarrow>
      disciplined (srv_trail st') = disciplined (srv_trail st) \<Longrightarrow> P st'"
    and loop: "\<And>st1 st'. token_accepted env conf ''delete'' paths False st \<Longrightarrow>
      srv_trail st1 = srv_trail st \<Longrightarrow> guard.truncate (srv_guard st1) = guard.truncate (srv_guard st) \<Longrightarrow>
      dispatches (srv_trail st') =
        dispatches (srv_trail (snd (batch_loop env w True (map (measure_item env st) paths) empty_tally st1))) \<Longrightarrow>
      disciplined (srv_trail st') =
        disciplined (srv_trail (snd (batch_loop env w True (map (measure_item env st) paths) empty_tally st1))) \<Longrightarrow>
      P st'"
  shows "P (deleteBatch env w paths conf st)"
proof (cases "env_readOnly env (srv_trail st)")
  case True
  then show ?thesis by (simp add: deleteBatch_def stop)
next
  case ro: False
  obtain e g' where r: "Redeem (env_mac env) (env_now env (srv_trail st)) (env_now2 env (srv_trail st)) conf
      ''delete'' paths False (srv_guard st) = (e, g')" by fastforce
  show ?thesis
  proof (cases "conf \<noteq> [] \<and> e = None")
    case False
    then consider "conf = []" | x where "conf \<noteq> []" "e = Some x" by auto
    then show ?thesis
      using ro r by cases (auto simp: deleteBatch_def Let_def intro!: stop split: prod.split)
  next
    case True
    define st1 where "st1 = st\<lparr>srv_guard := g'\<rparr>"
    have acc: "token_accepted env conf ''delete'' paths False st"
      using True r by (simp add: token_accepted_def)
    have st1: "srv_trail st1 = srv_trail st" "guard.truncate (srv_guard st1) = guard.truncate (srv_guard st)"
      using truncate_Redeem [of "env_mac env" "env_now env (srv_trail st)" "env_now2 env (srv_trail st)" conf
        "''delete''" paths False "srv_guard st"] r by (simp_all add: st1_def)
    show ?thesis
      using True ro r unfolding deleteBatch_def Let_def
      by (auto intro!: loop [OF acc st1] simp: st1_def [symmetric] split: prod.split)
  qed
qed

lemma delete_route_cases:
  assumes "\<And>st'. dispatches (srv_trail st') = dispatches (srv_trail st) \<Longrightarrow>
      disciplined (srv_trail st') = disciplined (srv_trail st) \<Longrightarrow> P st'"
    and "\<And>p. P (deleteSingle env w p (dl_Confirm b) st)"
    and "\<And>paths. P (deleteBatch env w paths (dl_Confirm b) st)"
  shows "P (delete_route env w b st)"
  unfolding delete_route_def Let_def using assms by (auto split: option.split)

lemma serve_dispatched_only:
  assumes ro: "env_readOnly env = (\<lambda>_. ro)"
  shows "dispatched_only (guard_now env st) st (serve env w rq st)"
proof (cases rq)
  case (RqMkdir b)
  have "dispatched_only (guard_now env st) st (mkdir env w b st)"
  proof (rule mkdir_cases, simp, unfold Let_def, rule gated_cases, simp, simp)
    fix dir rdir and st' :: server
    assume "sev (worstGuard (mkdir_checks (guard_now env st) dir rdir (mk_Name b))) \<noteq> Denied"
      and d: "dispatches (srv_trail st') = dispatches (srv_trail st)"
    then have "dispatch_allowed (guard_now env st) (DMkdir rdir (mk_Name b) u)" for u
      by (intro mkdir_checks_allowed) (simp add: sev_worstGuard)
    then show "dispatched_only (guard_now env st) st (mkdir_dispatch env w
        \<lparr>mut_op = ''mkdir'', mut_path = Join dir [mk_Name b], mut_dst = [], mut_files = 0, mut_bytes = 0\<rparr>
        dir rdir (mk_Name b) st')"
      using dispatches_mkdir_dispatch d by (metis dispatched_only_one)
  qed
  then show ?thesis using RqMkdir by simp
next
  case (RqRename b)
  have "dispatched_only (guard_now env st) st (rename env w b st)"
  proof (rule rename_cases, simp, unfold Let_def, rule gated_cases, simp, simp)
    fix a ga c gc and st' :: server
    assume "sev (worstGuard (rename_checks (guard_now env st) a ga c gc (rn_Overwrite b))) \<noteq> Denied"
      and d: "dispatches (srv_trail st') = dispatches (srv_trail st)"
    then have "dispatch_allowed (guard_now env st) (DRename ga gc (rn_Overwrite b))"
      by (intro rename_checks_allowed) (simp add: sev_worstGuard)
    then show "dispatched_only (guard_now env st) st (rename_dispatch env w
        \<lparr>mut_op = ''rename'', mut_path = a, mut_dst = c, mut_files = 0, mut_bytes = 0\<rparr>
        ga gc (rn_Overwrite b) st')"
      using dispatches_rename_dispatch d by (metis dispatched_only_one)
  qed
  then show ?thesis using RqRename by simp
next
  case (RqDelete b)
  have single: "dispatched_only (guard_now env st) st (deleteSingle env w p conf st)" for p conf
  proof (rule deleteSingle_cases, simp, rule gated_cases, simp, simp)
    fix q m s big and st' :: server
    assume "sev (worstGuard (delete_checks (guard_now env st) p q)) \<noteq> Denied"
      and d: "dispatches (srv_trail st') = dispatches (srv_trail st)"
    then have "dispatch_allowed (guard_now env st) (DDelete q)"
      by (intro delete_checks_allowed) (simp add: sev_worstGuard)
    then show "dispatched_only (guard_now env st) st (delete_dispatch env w m q big st')"
      using dispatches_delete_dispatch d by (metis dispatched_only_one)
  qed
  have batch: "dispatched_only (guard_now env st) st (deleteBatch env w paths conf st)" for paths conf
  proof (rule deleteBatch_cases, simp)
    fix st1 st' :: server
    let ?L = "snd (batch_loop env w True (map (measure_item env st) paths) empty_tally st1)"
    assume st1: "srv_trail st1 = srv_trail st" "guard.truncate (srv_guard st1) = guard.truncate (srv_guard st)"
      and d: "dispatches (srv_trail st') = dispatches (srv_trail ?L)"
    have "dispatched_only (guard_now env st1) st1 ?L" by (rule batch_loop_dispatches [OF ro])
    then show "dispatched_only (guard_now env st) st st'"
      using st1 d guard_now_eq [OF ro st1(2)] by (simp add: dispatched_only_def)
  qed
  have "dispatched_only (guard_now env st) st (delete_route env w b st)"
    by (rule delete_route_cases, simp, rule single, rule batch)
  then show ?thesis using RqDelete by simp
qed

lemma serve_disciplined:
  assumes au: "env_auditor env" and d: "disciplined (srv_trail st)"
  shows "disciplined (srv_trail (serve env w rq st))"
proof (cases rq)
  case (RqMkdir b)
  have "disciplined (srv_trail (mkdir env w b st))"
    by (rule mkdir_cases, simp add: d, unfold Let_def, rule gated_cases)
      (auto simp: d au intro: disciplined_mkdir_dispatch)
  then show ?thesis using RqMkdir by simp
next
  case (RqRename b)
  have "disciplined (srv_trail (rename env w b st))"
    by (rule rename_cases, simp add: d, unfold Let_def, rule gated_cases)
      (auto simp: d au intro: disciplined_rename_dispatch)
  then show ?thesis using RqRename by simp
next
  case (RqDelete b)
  have single: "disciplined (srv_trail (deleteSingle env w p conf st))" for p conf
    by (rule deleteSingle_cases, simp add: d, rule gated_cases)
      (auto simp: d au intro: disciplined_delete_dispatch)
  have batch: "disciplined (srv_trail (deleteBatch env w paths conf st))" for paths conf
    by (rule deleteBatch_cases) (auto simp: d intro: batch_loop_disciplined [OF au])
  have "disciplined (srv_trail (delete_route env w b st))"
    by (rule delete_route_cases, simp add: d, rule single, rule batch)
  then show ?thesis using RqDelete by simp
qed

text \<open>A sequence of requests, each in its own environment.\<close>

fun route_step :: "server \<Rightarrow> env \<times> who \<times> request \<Rightarrow> server" where
  "route_step st (env, w, rq) = serve (env\<lparr>env_auditor := True\<rparr>) w rq st"

interpretation routes: invariant_machine route_step "\<lambda>st. disciplined (srv_trail st)"
proof unfold_locales
  fix st :: server and e :: "env \<times> who \<times> request"
  assume "disciplined (srv_trail st)"
  then show "disciplined (srv_trail (route_step st e))"
    by (cases e) (simp add: serve_disciplined)
qed

lemma delete_without_token:
  assumes "\<And>paths. \<not> token_accepted env (dl_Confirm b) ''delete'' paths False st"
  shows "dispatches (srv_trail (delete_route env w b st)) = dispatches (srv_trail st)"
proof (rule delete_route_cases, simp)
  fix p
  show "dispatches (srv_trail (deleteSingle env w p (dl_Confirm b) st)) = dispatches (srv_trail st)"
    by (rule deleteSingle_cases, simp, rule gated_cases) (use assms in auto)
next
  fix paths
  show "dispatches (srv_trail (deleteBatch env w paths (dl_Confirm b) st)) = dispatches (srv_trail st)"
    by (rule deleteBatch_cases) (use assms in auto)
qed

lemma write_needs: "dispatch_needs d \<noteq> [] \<and> list_all (\<lambda>(op, p). op AND writeOps \<noteq> 0) (dispatch_needs d)"
  by (cases d) simp_all

lemma read_only_not_allowed: "readOnly g \<Longrightarrow> \<not> dispatch_allowed g d"
  using write_needs [of d]
  by (cases "dispatch_needs d") (auto simp: dispatch_allowed_def Check_readOnly)

subsection \<open>Properties\<close>

text \<open>
  Of several verdicts the strictest governs: worstGuard's answer is as strict as the strictest
  of the checks it is given, wherever that one stands, so a location protected under one of its
  spellings is protected under all of them.
\<close>

theorem stricter_spelling_governs: "sev (worstGuard es) = foldr (\<lambda>e s. max (sev e) s) es Allowed"
  by (simp add: sev_worstGuard strictest_def)

text \<open>
  C5: Nothing the guard denies reaches the worker. Whatever a mkdir, rename, delete or batch delete
  request holds and whatever its environment answers (the read-only switch aside, which stays put
  during the request), every path it dispatches is one the guard does not deny, in the resolved
  spelling the worker is given, for every operation the dispatch amounts to: creating in a directory
  and creating the entry for mkdir; renaming and deleting the source, creating the destination in
  its parent and, with overwrite, deleting it for rename; deleting for delete. A denial is final: the token a request
  brings changes nothing, so creating directly in /share while it is the RAM disk cannot be overridden.
\<close>

theorem denied_never_dispatched:
  assumes "env_readOnly env = (\<lambda>_. ro)"
  shows "\<exists>new. dispatches (srv_trail (serve env w rq st)) = new @ dispatches (srv_trail st) \<and>
    list_all (dispatch_allowed (guard.truncate (srv_guard st)\<lparr>readOnly := ro\<rparr>)) new"
  using serve_dispatched_only [OF assms, of st w rq] assms
  by (simp add: dispatched_only_def guard_now_def)

definition sample_env :: env where
  "sample_env = \<lparr>env_ready = True, env_auditor = True, env_saves = \<lambda>_. True, env_now = \<lambda>_. 0,
     env_now2 = \<lambda>_. 0, env_nonce = \<lambda>_. sample_nonce, env_mac = sample_mac, env_readOnly = \<lambda>_. False,
     env_gone = \<lambda>_. False, env_resolve = \<lambda>_ p _. Inr p, env_stat = \<lambda>_ _. Some 1, env_worker = \<lambda>_ _. None\<rparr>"

definition sample_who :: who where
  "sample_who = \<lparr>who_User = ''ann'', who_UID = 1000, who_Root = False, who_Admin = False, who_Door = ''qts''\<rparr>"

definition sample_server :: server where
  "sample_server = \<lparr>srv_guard = sample_tokens, srv_trail = []\<rparr>"

definition sample_mkdir :: request where
  "sample_mkdir = RqMkdir \<lparr>mk_Dir = ''/share/app'', mk_DirB64 = [], mk_Name = ''x'', mk_Parents = False, mk_Confirm = []\<rparr>"

text \<open>
  A server whose /share is the RAM disk: a directory made in /share is never dispatched, whatever token comes with the
  request; one made in a share is.
\<close>

definition ram_server :: server where
  "ram_server = \<lparr>srv_guard = guard.extend (newGuard ''/share/app'' True) \<lparr>serverKey = ''key'', seen = [], issued = []\<rparr>, srv_trail = []\<rparr>"

definition make_in :: "string \<Rightarrow> string \<Rightarrow> request" where
  "make_in dir conf = RqMkdir \<lparr>mk_Dir = dir, mk_DirB64 = [], mk_Name = ''x'', mk_Parents = False, mk_Confirm = conf\<rparr>"

lemma ram_sel: "guard.truncate (srv_guard ram_server) = newGuard ''/share/app'' True" "srv_trail ram_server = []"
  by (simp_all add: ram_server_def guard.defs newGuard_def)

lemma ram_denied:
  "fst (the (worstGuard (mkdir_checks (newGuard ''/share/app'' True\<lparr>readOnly := False\<rparr>) ''/share'' ''/share'' ''x''))) = ErrProtected"
  "worstGuard (mkdir_checks (newGuard ''/share/app'' True\<lparr>readOnly := False\<rparr>) ''/share'' ''/share'' ''x'') \<noteq> None"
  by code_simp+

lemma ram_answers:
  "bodyPath ''/share'' [] = Inr ''/share''" "validNewName ''x'' = None"
  by code_simp+

lemma sample_guard_now: "guard_now sample_env ram_server = newGuard ''/share/app'' True\<lparr>readOnly := False\<rparr>"
  by (simp add: guard_now_def ram_sel sample_env_def)

lemma ram_refused: "dispatches (srv_trail (serve sample_env sample_who (make_in ''/share'' conf) ram_server)) = []"
proof -
  have e: "env_ready sample_env" "\<And>tr p f. env_resolve sample_env tr p f = Inr p"
    by (simp_all add: sample_env_def)
  show ?thesis using ram_denied
    by (simp add: make_in_def mkdir_def ram_answers e sample_guard_now gated_def authorizeGraded_def ram_sel)
qed

theorem denied_never_dispatched_witness:
  "(\<exists>new. dispatches (srv_trail (serve sample_env sample_who (make_in ''/share/Public'' []) ram_server)) = new @ dispatches (srv_trail ram_server)
      \<and> list_all (dispatch_allowed (guard.truncate (srv_guard ram_server)\<lparr>readOnly := False\<rparr>)) new \<and> new = [DMkdir ''/share/Public'' ''x'' None])
   \<and> (\<forall>conf. dispatches (srv_trail (serve sample_env sample_who (make_in ''/share'' conf) ram_server)) = [])
   \<and> \<not> dispatch_allowed (guard.truncate (srv_guard ram_server)\<lparr>readOnly := False\<rparr>) (DMkdir ''/share'' ''x'' None)"
proof (intro conjI allI)
  have d: "dispatches (srv_trail (serve sample_env sample_who (make_in ''/share/Public'' []) ram_server)) = [DMkdir ''/share/Public'' ''x'' None]"
    by code_simp
  have "env_readOnly sample_env = (\<lambda>_. False)" by (simp add: sample_env_def)
  from denied_never_dispatched [OF this, of sample_who "make_in ''/share/Public'' []" ram_server]
  show "\<exists>new. dispatches (srv_trail (serve sample_env sample_who (make_in ''/share/Public'' []) ram_server)) = new @ dispatches (srv_trail ram_server)
      \<and> list_all (dispatch_allowed (guard.truncate (srv_guard ram_server)\<lparr>readOnly := False\<rparr>)) new \<and> new = [DMkdir ''/share/Public'' ''x'' None]"
    unfolding d by (simp add: ram_sel)
  show "\<not> dispatch_allowed (guard.truncate (srv_guard ram_server)\<lparr>readOnly := False\<rparr>) (DMkdir ''/share'' ''x'' None)"
    unfolding ram_sel by code_simp
qed (rule ram_refused)

text \<open>
  Read-only mode stops every mutation: with the switch on, no request dispatches anything.
\<close>

theorem read_only_dispatches_nothing:
  assumes "env_readOnly env = (\<lambda>_. True)"
  shows "dispatches (srv_trail (serve env w rq st)) = dispatches (srv_trail st)"
proof -
  from serve_dispatched_only [OF assms, of st w rq] obtain new where
    n: "dispatches (srv_trail (serve env w rq st)) = new @ dispatches (srv_trail st)"
    and al: "list_all (dispatch_allowed (guard_now env st)) new"
    by (auto simp: dispatched_only_def)
  have "readOnly (guard_now env st)" using assms by (simp add: guard_now_def)
  with al have "new = []" by (cases new) (auto dest: read_only_not_allowed)
  with n show ?thesis by simp
qed

theorem read_only_dispatches_nothing_witness:
  "dispatches (srv_trail (serve (sample_env\<lparr>env_readOnly := \<lambda>_. True\<rparr>) sample_who sample_mkdir sample_server)) = []"
  using read_only_dispatches_nothing [of "sample_env\<lparr>env_readOnly := \<lambda>_. True\<rparr>" sample_who sample_mkdir sample_server]
  by (simp add: sample_server_def)

text \<open>
  C6: Write-ahead audit: with an auditor wired, over any sequence of requests each in an arbitrary
  environment, every dispatch to the worker comes directly after an intent line of its own operation
  that went through the durable sink and was saved.
\<close>

theorem intent_before_dispatch:
  assumes "disciplined (srv_trail st)"
  shows "disciplined (srv_trail (foldl route_step st rqs))"
  using assms by (rule routes.run_inv)

theorem intent_before_dispatch_witness:
  "disciplined (srv_trail (foldl route_step sample_server [(sample_env, sample_who, sample_mkdir)]))"
  by (rule intent_before_dispatch) (simp add: sample_server_def)

text \<open>
  C7: No delete without a token: a delete request, single or batch, whose confirm field is empty or
  is refused by Redeem for every set of paths, dispatches nothing, whatever the guard's table says.
\<close>

theorem delete_needs_token:
  assumes "\<And>paths. \<not> token_accepted env (dl_Confirm b) ''delete'' paths False st"
  shows "dispatches (srv_trail (serve env w (RqDelete b) st)) = dispatches (srv_trail st)"
  using delete_without_token [OF assms] by simp

definition sample_delete :: delete_body where
  "sample_delete = \<lparr>dl_Path = ''/share/x'', dl_PathB64 = [], dl_Paths = [], dl_Confirm = []\<rparr>"

theorem delete_needs_token_witness:
  "dispatches (srv_trail (serve sample_env sample_who (RqDelete sample_delete) sample_server)) = []"
  using delete_needs_token [of sample_env sample_delete sample_server sample_who]
  by (simp add: sample_server_def sample_delete_def token_accepted_def)

text \<open>
  The batch result is honest. However the item loop ends, the results are those of an initial
  part of the paths in their order, every result is counted as exactly one of succeeded and failed,
  and the outcome is "ok" exactly when there was at least one path, every path was attempted and
  every delete succeeded.
\<close>

theorem batch_outcome_honest:
  "let t = fst (batch_loop env w red items empty_tally st)
   in prefix (map ir_Path (t_results t)) (map bi_Path items) \<and>
    t_succeeded t + t_failed t = length (t_results t) \<and>
    (batch_outcome (length items) t = ''ok'' \<longleftrightarrow>
      items \<noteq> [] \<and> length (t_results t) = length items \<and> list_all ir_OK (t_results t))"
proof -
  define t where "t = fst (batch_loop env w red items empty_tally st)"
  have ok: "tally_ok t" and pre: "prefix (result_paths t) (map bi_Path items)"
    using batch_loop_tally [OF empty_tally_ok(1), of env w red items st] by (simp_all add: t_def)
  then have le: "length (t_results t) \<le> length items"
    using prefix_length_le [OF pre] by (simp add: result_paths_def)
  have all: "list_all ir_OK (t_results t) \<longleftrightarrow> t_failed t = 0"
  proof -
    have "list_all ir_OK (t_results t) \<longleftrightarrow> length (filter ir_OK (t_results t)) = length (t_results t)"
      by (metis filter_True filter_id_conv length_filter_less less_irrefl list_all_iff)
    also have "\<dots> \<longleftrightarrow> t_failed t = 0" using ok by (auto simp: tally_ok_def)
    finally show ?thesis .
  qed
  have s: "t_succeeded t + t_failed t = length (t_results t)" using ok by (simp add: tally_ok_def)
  have "batch_outcome (length items) t = ''ok'' \<longleftrightarrow>
      t_succeeded t \<noteq> 0 \<and> t_failed t = 0 \<and> length items \<le> length (t_results t)"
    by (auto simp: batch_outcome_def)
  also have "\<dots> \<longleftrightarrow> items \<noteq> [] \<and> length (t_results t) = length items \<and> t_failed t = 0"
    using le s by (cases items) auto
  finally show ?thesis using pre s all unfolding Let_def t_def [symmetric] by (simp add: result_paths_def)
qed

end
