(* ===== verification/Gate.thy ===== *)
theory Gate
  imports Complex_Main Prelude "HOL-Library.Word"
begin

section \<open>The break-glass door (internal/breakglass/gate.go, breakglass.go)\<close>

text \<open>
  The bounds around the emergency password: a token bucket and a lockout ladder per source address
  in one LRU table, four admitted attempts, one verification turn at a time. Clock readings are
  arguments. Token counts are Go's float64: rationals, with the rounding of each operation the
  parameter \<open>rnd\<close>. bcrypt is a parameter.
\<close>

definition BucketCapacity :: rat where "BucketCapacity = 10"
definition BucketWindow :: time where "BucketWindow = 60 * 10 ^ 9"
definition MaxSources :: nat where "MaxSources = 256"
definition LockoutAfter :: nat where "LockoutAfter = 5"
definition LockoutBase :: "64 word" where "LockoutBase = 60000000000"
definition LockoutCap :: int where "LockoutCap = 1800000000000"
definition InFlight :: nat where "InFlight = 4"

datatype gate_error = ErrRateLimited | ErrLockedOut

datatype outcome = OutcomeNeutral | OutcomeFailed | OutcomeSucceeded

record verdict =
  v_Locked :: bool
  v_RetryAfter :: time
  v_Left :: bool
  v_Entered :: bool
  v_Failures :: nat

record sourceState =
  tokens :: rat
  lastSeen :: time
  failures :: nat
  lockedUntil :: "time option"   \<comment> \<open>None is the zero time\<close>
  lockAnnounced :: bool

text \<open>The map and the LRU list together: an association list, least recently seen first.\<close>

record gate =
  sources :: "(string, sourceState) table"
  admitted :: nat
  turn :: "(string \<times> bool) option"   \<comment> \<open>who holds the verification slot, and whether a lockout just ended\<close>

definition new_source :: "time \<Rightarrow> sourceState" where
  "new_source now = \<lparr>tokens = BucketCapacity, lastSeen = now, failures = 0, lockedUntil = None, lockAnnounced = False\<rparr>"

text \<open>\<open>lockedAt\<close>: locked, the time left, whether a lockout was seen to end, and the source after it.\<close>

definition lockedAt :: "time \<Rightarrow> sourceState \<Rightarrow> bool \<times> time \<times> bool \<times> sourceState" where
  "lockedAt now s =
     (case lockedUntil s of
        None \<Rightarrow> (False, 0, False, s)
      | Some u \<Rightarrow>
          if now < u then (True, u - now, False, s)
          else (False, 0, lockAnnounced s, s\<lparr>lockedUntil := None, lockAnnounced := False\<rparr>))"

text \<open>The eviction loop and \<open>sourceLocked\<close>. A found entry moves to the back.\<close>

fun evict_to :: "nat \<Rightarrow> (string, sourceState) table \<Rightarrow> (string, sourceState) table" where
  "evict_to n [] = []"
| "evict_to n (e # t) = (if tlen (e # t) \<ge> n then evict_to n t else e # t)"

definition sourceLocked :: "string \<Rightarrow> time \<Rightarrow> (string, sourceState) table \<Rightarrow> sourceState \<times> (string, sourceState) table" where
  "sourceLocked ip now t =
     (case tget t ip of
        Some s \<Rightarrow> (s, tdel ip t @ [(ip, s)])
      | None \<Rightarrow> (new_source now, evict_to MaxSources t @ [(ip, new_source now)]))"

definition with_source :: "string \<Rightarrow> time \<Rightarrow> (sourceState \<Rightarrow> 'a \<times> sourceState) \<Rightarrow> gate \<Rightarrow> 'a \<times> gate" where
  \<comment> \<open>look the source up and mutate it through the pointer\<close>
  "with_source ip now f g =
     (case sourceLocked ip now (sources g) of
        (s, t) \<Rightarrow> (case f s of (r, s') \<Rightarrow> (r, g\<lparr>sources := tput ip s' t\<rparr>)))"

text \<open>\<open>Duration.Seconds()\<close> and the refill, each operation rounded.\<close>

definition seconds :: "(rat \<Rightarrow> rat) \<Rightarrow> time \<Rightarrow> rat" where
  "seconds rnd d = rnd (rnd (of_int (d div 10 ^ 9)) + rnd (rnd (of_int (d mod 10 ^ 9)) / 10 ^ 9))"

definition refill :: "(rat \<Rightarrow> rat) \<Rightarrow> time \<Rightarrow> sourceState \<Rightarrow> sourceState" where
  "refill rnd now s =
     (let elapsed = now - lastSeen s;
          s1 = (if elapsed > 0 then
                  let n = rnd (tokens s + rnd (seconds rnd elapsed * rnd (BucketCapacity / seconds rnd BucketWindow)))
                  in s\<lparr>tokens := (if n > BucketCapacity then BucketCapacity else n)\<rparr>
                else s)
      in s1\<lparr>lastSeen := now\<rparr>)"

definition take_token :: "(rat \<Rightarrow> rat) \<Rightarrow> time \<Rightarrow> sourceState \<Rightarrow> gate_error option \<times> sourceState" where
  "take_token rnd now s =
     (let s1 = refill rnd now s
      in if tokens s1 < 1 then (Some ErrRateLimited, s1)
         else (None, s1\<lparr>tokens := rnd (tokens s1 - 1)\<rparr>))"

definition AllowSource :: "(rat \<Rightarrow> rat) \<Rightarrow> string \<Rightarrow> time \<Rightarrow> gate \<Rightarrow> gate_error option \<times> gate" where
  "AllowSource rnd ip now g = with_source ip now (take_token rnd now) g"

definition TrackedSources :: "gate \<Rightarrow> nat" where
  "TrackedSources g = tlen (sources g)"

text \<open>\<open>Locked\<close> never creates an entry and does not touch the LRU order.\<close>

definition Locked :: "string \<Rightarrow> time \<Rightarrow> gate \<Rightarrow> (bool \<times> time \<times> bool) \<times> gate" where
  "Locked ip now g =
     (case tget (sources g) ip of
        None \<Rightarrow> ((False, 0, False), g)
      | Some s \<Rightarrow>
          (case lockedAt now s of (l, r, left, s') \<Rightarrow> ((l, r, left), g\<lparr>sources := tput ip s' (sources g)\<rparr>)))"

text \<open>The rung: a 64-bit shift, clamped on overflow as on the cap.\<close>

definition lock_duration :: "nat \<Rightarrow> int" where
  "lock_duration n =
     (let d = sint (push_bit (n - LockoutAfter) LockoutBase)
      in if d > LockoutCap \<or> d \<le> 0 then LockoutCap else d)"

definition fail_source :: "time \<Rightarrow> sourceState \<Rightarrow> (bool \<times> time \<times> bool) \<times> sourceState" where
  "fail_source now s =
     (let s1 = s\<lparr>failures := Suc (failures s)\<rparr>
      in if failures s1 < LockoutAfter then ((False, 0, False), s1)
         else let d = lock_duration (failures s1)
              in ((True, d, True), s1\<lparr>lockedUntil := Some (now + d), lockAnnounced := True\<rparr>))"

definition failedLocked :: "string \<Rightarrow> time \<Rightarrow> gate \<Rightarrow> (bool \<times> time \<times> bool) \<times> gate" where
  "failedLocked ip now g = with_source ip now (fail_source now) g"

definition succeed_source :: "sourceState \<Rightarrow> unit \<times> sourceState" where
  "succeed_source s = ((), s\<lparr>failures := 0, lockedUntil := None, lockAnnounced := False\<rparr>)"

definition succeededLocked :: "string \<Rightarrow> time \<Rightarrow> gate \<Rightarrow> gate" where
  "succeededLocked ip now g = snd (with_source ip now succeed_source g)"

definition failuresLocked :: "string \<Rightarrow> gate \<Rightarrow> nat" where
  "failuresLocked ip g = (case tget (sources g) ip of None \<Rightarrow> 0 | Some s \<Rightarrow> failures s)"

definition Admit :: "gate \<Rightarrow> gate_error option \<times> gate" where
  "Admit g = (if admitted g < InFlight then (None, g\<lparr>admitted := Suc (admitted g)\<rparr>) else (Some ErrRateLimited, g))"

definition Release :: "gate \<Rightarrow> gate" where
  "Release g = g\<lparr>admitted := admitted g - 1\<rparr>"

text \<open>
  \<open>Verify\<close> in its two halves around the call of \<open>fn\<close>, with the slot held between them: bucket checks
  of other requests run in between. The first half answers at once for a locked source.
\<close>

definition verify_begin :: "string \<Rightarrow> time \<Rightarrow> gate \<Rightarrow> verdict option \<times> gate" where
  "verify_begin ip now g =
     (case with_source ip now (\<lambda>s. case lockedAt now s of (l, r, left, s') \<Rightarrow> ((l, r, left, failures s'), s')) g of
        ((l, r, left, n), g1) \<Rightarrow>
          if l then (Some \<lparr>v_Locked = True, v_RetryAfter = r, v_Left = left, v_Entered = False, v_Failures = n\<rparr>, g1)
          else (None, g1\<lparr>turn := Some (ip, left)\<rparr>))"

definition verify_commit :: "string \<Rightarrow> bool \<Rightarrow> outcome \<Rightarrow> time \<Rightarrow> gate \<Rightarrow> verdict \<times> gate" where
  "verify_commit ip left out now g =
     (let v = \<lparr>v_Locked = False, v_RetryAfter = 0, v_Left = left, v_Entered = False, v_Failures = 0\<rparr>;
          (v1, g1) = (case out of
             OutcomeFailed \<Rightarrow> (case failedLocked ip now g of
                ((l, r, entered), g') \<Rightarrow> (v\<lparr>v_RetryAfter := r, v_Entered := entered\<rparr>, g'))
           | OutcomeSucceeded \<Rightarrow> (v, succeededLocked ip now g)
           | OutcomeNeutral \<Rightarrow> (v, g))
      in (v1\<lparr>v_Failures := failuresLocked ip g1\<rparr>, g1\<lparr>turn := None\<rparr>))"

subsection \<open>breakglass.go\<close>

datatype password_error = PwTooShort | PwBlank | PwTooLong | PwCost | ErrNoPassword | ErrBadPassword | PwHashing

definition MinPasswordBytes :: nat where "MinPasswordBytes = 12"
definition BcryptLimit :: nat where "BcryptLimit = 72"
definition DefaultCost :: int where "DefaultCost = 11"
definition MinCost :: int where "MinCost = 10"
definition MaxCost :: int where "MaxCost = 15"

definition CheckCost :: "int \<Rightarrow> password_error + int" where
  "CheckCost cost =
     (if cost = 0 then Inr DefaultCost
      else if cost < MinCost \<or> cost > MaxCost then Inl PwCost else Inr cost)"

definition CheckPassword :: "string \<Rightarrow> password_error + bool" where
  \<comment> \<open>the answer is whether the near-the-limit notice is given\<close>
  "CheckPassword pw =
     (if length pw < MinPasswordBytes then Inl PwTooShort
      else if trim_space pw = [] then Inl PwBlank
      else if length pw > BcryptLimit then Inl PwTooLong
      else Inr (length pw > BcryptLimit - 8))"

definition Hash :: "(string \<Rightarrow> int \<Rightarrow> string option) \<Rightarrow> string \<Rightarrow> int \<Rightarrow> password_error + string" where
  "Hash bcrypt pw cost =
     (case CheckCost cost of
        Inl e \<Rightarrow> Inl e
      | Inr c \<Rightarrow> (case CheckPassword pw of
          Inl e \<Rightarrow> Inl e
        | Inr note \<Rightarrow> (case bcrypt pw c of None \<Rightarrow> Inl PwHashing | Some h \<Rightarrow> Inr h)))"

definition Verify :: "(string \<Rightarrow> string \<Rightarrow> bool) \<Rightarrow> string \<Rightarrow> string \<Rightarrow> password_error option" where
  "Verify compare_hash hash pw =
     (if trim_space hash = [] then Some ErrNoPassword
      else if \<not> compare_hash hash pw then Some ErrBadPassword else None)"

subsection \<open>The gate as a step relation\<close>

text \<open>
  What happens at the door, one event at a time. A turn begins only while nobody holds the
  verification slot and commits for the source that began it; every other event may come in between.
\<close>

datatype gate_event =
    GAllow string time | GLocked string time | GAdmit | GRelease
  | GBegin string time | GCommit outcome time

inductive gate_step :: "(rat \<Rightarrow> rat) \<Rightarrow> gate \<Rightarrow> gate_event \<Rightarrow> gate \<Rightarrow> bool" for rnd where
  allow: "gate_step rnd g (GAllow ip t) (snd (AllowSource rnd ip t g))"
| locked: "gate_step rnd g (GLocked ip t) (snd (Locked ip t g))"
| admit: "gate_step rnd g GAdmit (snd (Admit g))"
| release: "0 < admitted g \<Longrightarrow> gate_step rnd g GRelease (Release g)"
| begin_turn: "turn g = None \<Longrightarrow> gate_step rnd g (GBegin ip t) (snd (verify_begin ip t g))"
| commit_turn: "turn g = Some (ip, left) \<Longrightarrow> gate_step rnd g (GCommit out t) (snd (verify_commit ip left out t g))"

inductive_cases gate_stepE: "gate_step rnd g e g'"

inductive gate_run :: "(rat \<Rightarrow> rat) \<Rightarrow> gate \<Rightarrow> gate_event list \<Rightarrow> gate \<Rightarrow> bool" for rnd where
  gate_run_Nil: "gate_run rnd g [] g"
| gate_run_Cons: "gate_step rnd g e g1 \<Longrightarrow> gate_run rnd g1 es g2 \<Longrightarrow> gate_run rnd g (e # es) g2"

inductive_cases gate_run_NilE [elim!]: "gate_run rnd g [] g'"
inductive_cases gate_run_ConsE [elim!]: "gate_run rnd g (e # es) g'"

definition empty_gate :: gate where
  "empty_gate = \<lparr>sources = [], admitted = 0, turn = None\<rparr>"

subsection \<open>The source table\<close>

lemma length_evict_to: "0 < n \<Longrightarrow> length (evict_to n t) < n"
  by (induction t) (auto simp: tlen_def)

lemma evict_to_suffix: "suffix (evict_to n t) t"
  by (induction t) (auto simp: suffix_Cons)

lemma table_ok_suffix: "suffix s t \<Longrightarrow> table_ok t \<Longrightarrow> table_ok s"
  by (auto simp: suffix_def table_ok_def)

lemma tget_suffix:
  assumes "suffix s t" "table_ok t"
  shows "tget s k = None \<or> tget s k = tget t k"
proof (cases "tget s k")
  case (Some v)
  from assms(1) obtain us where t: "t = us @ s" by (auto simp: suffix_def)
  from Some have "k \<in> fst ` set s" by (auto simp: tget_def dest: map_of_SomeD intro: rev_image_eqI)
  with assms(2) t have "k \<notin> fst ` set us" by (auto simp: table_ok_def)
  then have "map_of us k = None" by (simp add: map_of_eq_None_iff)
  with t show ?thesis by (simp add: tget_def map_add_def)
qed simp

lemma table_ok_snoc: "table_ok t \<Longrightarrow> tget t k = None \<Longrightarrow> table_ok (t @ [(k, v)])"
  by (auto simp: table_ok_def tget_def map_of_eq_None_iff)

lemma tget_snoc: "tget (t @ [(k, v)]) j = (case tget t j of None \<Rightarrow> if j = k then Some v else None | Some x \<Rightarrow> Some x)"
  by (simp add: tget_def map_add_def split: option.split)

lemma tlen_snoc [simp]: "tlen (t @ [e]) = Suc (tlen t)"
  by (simp add: tlen_def)

definition sources_ok :: "(string, sourceState) table \<Rightarrow> bool" where
  "sources_ok t \<longleftrightarrow> table_ok t \<and> tlen t \<le> MaxSources"

lemma sourceLocked_props:
  assumes ok: "sources_ok t" and sl: "sourceLocked ip now t = (s, t')"
  shows "sources_ok t'" and "tget t' ip = Some s"
    and "k \<noteq> ip \<Longrightarrow> tget t' k = None \<or> tget t' k = tget t k"
    and "tget t ip = Some s \<or> (tget t ip = None \<and> s = new_source now)"
proof -
  have "sources_ok t' \<and> tget t' ip = Some s \<and>
      (k \<noteq> ip \<longrightarrow> tget t' k = None \<or> tget t' k = tget t k) \<and>
      (tget t ip = Some s \<or> (tget t ip = None \<and> s = new_source now))"
  proof (cases "tget t ip")
    case (Some x)
    then have t': "s = x" "t' = tdel ip t @ [(ip, x)]" using sl Some by (auto simp: sourceLocked_def)
    have "tlen (tdel ip t) < tlen t" using Some by (intro tlen_tdel_present) simp
    with t' Some ok show ?thesis
      by (auto simp: sources_ok_def tget_snoc intro!: table_ok_snoc split: option.split)
  next
    case None
    let ?e = "evict_to MaxSources t"
    have t': "s = new_source now" "t' = ?e @ [(ip, new_source now)]"
      using sl None by (auto simp: sourceLocked_def)
    have e: "suffix ?e t" by (rule evict_to_suffix)
    have "tget ?e ip = None" using tget_suffix [OF e, of ip] ok None by (auto simp: sources_ok_def)
    moreover have "tlen ?e < MaxSources"
      using length_evict_to [of MaxSources t] by (simp add: tlen_def MaxSources_def)
    moreover have "table_ok ?e" using ok e by (auto simp: sources_ok_def intro: table_ok_suffix)
    moreover have "k \<noteq> ip \<Longrightarrow> tget t' k = None \<or> tget t' k = tget t k"
      using tget_suffix [OF e, of k] ok t' by (auto simp: sources_ok_def tget_snoc split: option.split)
    ultimately show ?thesis
      using t' None by (auto simp: sources_ok_def tget_snoc intro: table_ok_snoc)
  qed
  then show "sources_ok t'" "tget t' ip = Some s"
    "k \<noteq> ip \<Longrightarrow> tget t' k = None \<or> tget t' k = tget t k"
    "tget t ip = Some s \<or> (tget t ip = None \<and> s = new_source now)" by blast+
qed

text \<open>One rule for every operation on a source: what it does to its own entry and to the others.\<close>

lemma with_source_props:
  assumes ok: "sources_ok (sources g)" and ws: "with_source ip now f g = (r, g')"
  obtains s where "tget (sources g) ip = Some s \<or> (tget (sources g) ip = None \<and> s = new_source now)"
    "f s = (r, snd (f s))" "tget (sources g') ip = Some (snd (f s))" "sources_ok (sources g')"
    "\<And>k. k \<noteq> ip \<Longrightarrow> tget (sources g') k = None \<or> tget (sources g') k = tget (sources g) k"
    "admitted g' = admitted g" "turn g' = turn g"
proof -
  obtain s t where sl: "sourceLocked ip now (sources g) = (s, t)" by fastforce
  note p = sourceLocked_props [OF ok sl]
  have r: "r = fst (f s)" and g': "g' = g\<lparr>sources := tput ip (snd (f s)) t\<rparr>"
    using ws sl by (simp_all add: with_source_def split: prod.splits)
  have "sources_ok (tput ip (snd (f s)) t)"
    using p(1,2) by (simp add: sources_ok_def tlen_tput_present)
  then show thesis
    using p r g' by (intro that [of s]) auto
qed

lemma sources_ok_tput_present:
  "sources_ok t \<Longrightarrow> tget t k \<noteq> None \<Longrightarrow> sources_ok (tput k v t)"
  by (simp add: sources_ok_def tlen_tput_present)

subsection \<open>Sound sources and the invariant\<close>

definition source_ok :: "sourceState \<Rightarrow> bool" where
  "source_ok s \<longleftrightarrow> tokens s \<le> BucketCapacity \<and> (lockAnnounced s \<longrightarrow> lockedUntil s \<noteq> None) \<and>
     (lockedUntil s \<noteq> None \<longrightarrow> LockoutAfter \<le> failures s)"

definition gate_ok :: "gate \<Rightarrow> bool" where
  "gate_ok g \<longleftrightarrow> sources_ok (sources g) \<and> admitted g \<le> InFlight \<and>
     (\<forall>ip s. tget (sources g) ip = Some s \<longrightarrow> source_ok s)"

text \<open>Rounding that keeps the order and the small integers.\<close>

definition rounds :: "(rat \<Rightarrow> rat) \<Rightarrow> bool" where
  "rounds rnd \<longleftrightarrow> mono rnd \<and> (\<forall>n. 0 \<le> n \<and> n \<le> 10 \<longrightarrow> rnd (of_int n) = of_int n)"

lemma rounds_le:
  assumes "rounds rnd" "x \<le> of_int n" "0 \<le> n" "n \<le> 10"
  shows "rnd x \<le> of_int n"
proof -
  from assms have "rnd x \<le> rnd (of_int n)" by (auto simp: rounds_def dest: monoD)
  also from assms have "rnd (of_int n) = of_int n" by (simp add: rounds_def)
  finally show ?thesis .
qed

lemma source_ok_new [simp]: "source_ok (new_source now)"
  by (simp add: source_ok_def new_source_def)

lemma refill_ok: "source_ok s \<Longrightarrow> source_ok (refill rnd now s)"
  by (simp add: source_ok_def refill_def Let_def)

lemma refill_tokens_le: "tokens s \<le> BucketCapacity \<Longrightarrow> tokens (refill rnd now s) \<le> BucketCapacity"
  by (simp add: refill_def Let_def)

lemma take_token_ok:
  assumes "rounds rnd" "source_ok s"
  shows "source_ok (snd (take_token rnd now s))"
proof -
  let ?s = "refill rnd now s"
  have s: "source_ok ?s" using assms(2) by (rule refill_ok)
  then have "tokens ?s \<le> 10" unfolding source_ok_def BucketCapacity_def by (rule conjunct1)
  then have "tokens ?s - 1 \<le> of_int 9" by simp
  then have "rnd (tokens ?s - 1) \<le> of_int 9" by (rule rounds_le [OF assms(1)]) simp_all
  then have le: "rnd (tokens ?s - 1) \<le> BucketCapacity" unfolding BucketCapacity_def by simp
  show ?thesis
  proof (cases "tokens ?s < 1")
    case True
    then have "snd (take_token rnd now s) = ?s" by (simp add: take_token_def Let_def)
    with s show ?thesis by simp
  next
    case False
    then have "snd (take_token rnd now s) = ?s\<lparr>tokens := rnd (tokens ?s - 1)\<rparr>"
      by (simp add: take_token_def Let_def)
    with s le show ?thesis by (simp add: source_ok_def)
  qed
qed

lemma lockedAt_ok:
  "lockedAt now s = (l, r, left, s') \<Longrightarrow> source_ok s \<Longrightarrow> source_ok s'"
  by (auto simp: lockedAt_def source_ok_def split: option.splits if_splits)

lemma fail_source_ok: "source_ok s \<Longrightarrow> source_ok (snd (fail_source now s))"
  by (auto simp: fail_source_def source_ok_def Let_def)

lemma succeed_source_ok: "source_ok s \<Longrightarrow> source_ok (snd (succeed_source s))"
  by (simp add: succeed_source_def source_ok_def)

lemma with_source_ok:
  assumes "gate_ok g" "\<And>s. source_ok s \<Longrightarrow> source_ok (snd (f s))"
  shows "gate_ok (snd (with_source ip now f g))"
proof -
  obtain r g' where ws: "with_source ip now f g = (r, g')" by fastforce
  have so: "sources_ok (sources g)" using assms(1) by (simp add: gate_ok_def)
  from with_source_props [OF so ws] obtain s where
    s: "tget (sources g) ip = Some s \<or> (tget (sources g) ip = None \<and> s = new_source now)"
    and own: "tget (sources g') ip = Some (snd (f s))" and ok: "sources_ok (sources g')"
    and other: "\<And>k. k \<noteq> ip \<Longrightarrow> tget (sources g') k = None \<or> tget (sources g') k = tget (sources g) k"
    and ad: "admitted g' = admitted g" by metis
  have "source_ok s" using s assms(1) by (auto simp: gate_ok_def)
  then have "source_ok (snd (f s))" by (rule assms(2))
  then have "source_ok x" if "tget (sources g') k = Some x" for k x
    using that own other [of k] assms(1) by (cases "k = ip") (auto simp: gate_ok_def)
  with ok ad assms(1) ws show ?thesis by (simp add: gate_ok_def)
qed

text \<open>Every operation keeps the invariant, and touches no source but its own.\<close>

lemma AllowSource_ok: "rounds rnd \<Longrightarrow> gate_ok g \<Longrightarrow> gate_ok (snd (AllowSource rnd ip t g))"
  unfolding AllowSource_def by (rule with_source_ok) (auto intro: take_token_ok)

lemma failedLocked_ok: "gate_ok g \<Longrightarrow> gate_ok (snd (failedLocked ip t g))"
  unfolding failedLocked_def by (rule with_source_ok) (auto intro: fail_source_ok)

lemma succeededLocked_ok: "gate_ok g \<Longrightarrow> gate_ok (succeededLocked ip t g)"
  unfolding succeededLocked_def by (rule with_source_ok) (auto intro: succeed_source_ok)

lemma Locked_ok:
  assumes "gate_ok g"
  shows "gate_ok (snd (Locked ip t g))"
proof (cases "tget (sources g) ip")
  case (Some s)
  obtain l r left s' where l: "lockedAt t s = (l, r, left, s')" by (metis prod_cases4)
  have "source_ok s'" using lockedAt_ok [OF l] Some assms by (simp add: gate_ok_def)
  with l Some assms show ?thesis
    by (auto simp: Locked_def gate_ok_def sources_ok_tput_present)
qed (use assms in \<open>simp add: Locked_def\<close>)

definition look_locked :: "time \<Rightarrow> sourceState \<Rightarrow> (bool \<times> time \<times> bool \<times> nat) \<times> sourceState" where
  "look_locked now s = (case lockedAt now s of (l, r, left, s') \<Rightarrow> ((l, r, left, failures s'), s'))"

lemma look_locked_ok: "source_ok s \<Longrightarrow> source_ok (snd (look_locked now s))"
  by (auto simp: look_locked_def split: prod.split dest: lockedAt_ok)

lemma verify_begin_look:
  "verify_begin ip now g =
     (case with_source ip now (look_locked now) g of
        ((l, r, left, n), g1) \<Rightarrow>
          if l then (Some \<lparr>v_Locked = True, v_RetryAfter = r, v_Left = left, v_Entered = False, v_Failures = n\<rparr>, g1)
          else (None, g1\<lparr>turn := Some (ip, left)\<rparr>))"
  unfolding verify_begin_def look_locked_def [abs_def] ..

lemma verify_begin_sources:
  "sources (snd (verify_begin ip now g)) = sources (snd (with_source ip now (look_locked now) g))"
  "admitted (snd (verify_begin ip now g)) = admitted (snd (with_source ip now (look_locked now) g))"
  by (auto simp: verify_begin_look split: prod.split)

lemma gate_ok_cong:
  "sources g' = sources g \<Longrightarrow> admitted g' = admitted g \<Longrightarrow> gate_ok g \<Longrightarrow> gate_ok g'"
  by (simp add: gate_ok_def)

lemma verify_begin_ok: "gate_ok g \<Longrightarrow> gate_ok (snd (verify_begin ip now g))"
  using with_source_ok [of g "look_locked now" ip now] look_locked_ok
  by (intro gate_ok_cong [OF verify_begin_sources]) simp

lemma verify_commit_sources:
  "sources (snd (verify_commit ip left out now g)) =
     sources (case out of OutcomeFailed \<Rightarrow> snd (failedLocked ip now g)
       | OutcomeSucceeded \<Rightarrow> succeededLocked ip now g | OutcomeNeutral \<Rightarrow> g)"
  "admitted (snd (verify_commit ip left out now g)) =
     admitted (case out of OutcomeFailed \<Rightarrow> snd (failedLocked ip now g)
       | OutcomeSucceeded \<Rightarrow> succeededLocked ip now g | OutcomeNeutral \<Rightarrow> g)"
  by (auto simp: verify_commit_def Let_def split: outcome.split prod.split)

lemma verify_commit_ok: "gate_ok g \<Longrightarrow> gate_ok (snd (verify_commit ip left out now g))"
  by (rule gate_ok_cong [OF verify_commit_sources])
    (auto split: outcome.split intro: failedLocked_ok succeededLocked_ok)

lemma gate_step_ok:
  assumes "gate_step rnd g e g'" "rounds rnd" "gate_ok g"
  shows "gate_ok g'"
  using assms
proof (induction rule: gate_step.induct)
  case (admit g)
  then show ?case by (auto simp: Admit_def gate_ok_def)
next
  case (release g)
  then show ?case by (auto simp: Release_def gate_ok_def)
qed (simp_all add: AllowSource_ok Locked_ok verify_begin_ok verify_commit_ok)

lemma gate_run_ok: "gate_run rnd g es g' \<Longrightarrow> rounds rnd \<Longrightarrow> gate_ok g \<Longrightarrow> gate_ok g'"
  by (induction rule: gate_run.induct) (auto intro: gate_step_ok)

lemma empty_gate_ok: "gate_ok empty_gate"
  by (simp add: gate_ok_def empty_gate_def sources_ok_def tlen_def)

text \<open>Whom an event is about.\<close>

fun actor :: "gate \<Rightarrow> gate_event \<Rightarrow> string option" where
  "actor g (GAllow ip t) = Some ip"
| "actor g (GLocked ip t) = Some ip"
| "actor g (GBegin ip t) = Some ip"
| "actor g (GCommit out t) = map_option fst (turn g)"
| "actor g e = None"

definition kept_or_gone :: "string \<Rightarrow> gate \<Rightarrow> gate \<Rightarrow> bool" where
  "kept_or_gone k g g' \<longleftrightarrow> tget (sources g') k = None \<or> tget (sources g') k = tget (sources g) k"

lemma with_source_others:
  "sources_ok (sources g) \<Longrightarrow> k \<noteq> ip \<Longrightarrow> kept_or_gone k g (snd (with_source ip now f g))"
  unfolding kept_or_gone_def
  by (cases "with_source ip now f g") (auto elim: with_source_props)

lemma gate_step_others:
  assumes "gate_step rnd g e g'" "gate_ok g" "actor g e \<noteq> Some k"
  shows "kept_or_gone k g g'"
  using assms
proof (induction rule: gate_step.induct)
  case (allow g ip t)
  then show ?case by (simp add: AllowSource_def gate_ok_def with_source_others)
next
  case (locked g ip t)
  then show ?case
    by (auto simp: Locked_def kept_or_gone_def split: option.split prod.split)
next
  case (begin_turn g ip t)
  then have "kept_or_gone k g (snd (with_source ip t (look_locked t) g))"
    by (simp add: gate_ok_def with_source_others)
  then show ?case by (simp add: kept_or_gone_def verify_begin_sources)
next
  case (commit_turn g ip left out t)
  then have "kept_or_gone k g (snd (failedLocked ip t g))" "kept_or_gone k g (succeededLocked ip t g)"
    by (simp_all add: gate_ok_def with_source_others failedLocked_def succeededLocked_def)
  then show ?case by (cases out) (simp_all add: kept_or_gone_def verify_commit_sources)
qed (simp_all add: kept_or_gone_def Admit_def Release_def)

subsection \<open>The ladder\<close>

lemma sint_shifted_base:
  "sint (push_bit k LockoutBase) = (60000000000 * 2 ^ k + 2 ^ 63) mod 2 ^ 64 - 2 ^ 63"
proof -
  have "push_bit k LockoutBase = word_of_int (60000000000 * 2 ^ k)"
    by (simp add: LockoutBase_def push_bit_eq_mult)
  moreover have "sint (word_of_int (60000000000 * 2 ^ k) :: 64 word) = signed_take_bit 63 (60000000000 * 2 ^ k)"
    by (subst sint_sbintrunc') simp
  ultimately have "sint (push_bit k LockoutBase) = signed_take_bit 63 (60000000000 * 2 ^ k)"
    by (simp only:)
  then show ?thesis
    by (simp only: signed_take_bit_eq_take_bit_shift take_bit_eq_mod) (simp add: numeral_eq_Suc)
qed

definition wrapped :: "nat \<Rightarrow> int" where
  "wrapped k = (60000000000 * 2 ^ k + 9223372036854775808) mod 18446744073709551616 - 9223372036854775808"

definition rung_ok :: "nat \<Rightarrow> bool" where
  "rung_ok k \<longleftrightarrow>
     (let d = wrapped k in (if d > 1800000000000 \<or> d \<le> 0 then 1800000000000 else d) = min (60000000000 * 2 ^ k) 1800000000000)"

lemma rung_ok_below: "k < n \<Longrightarrow> list_all rung_ok [0..<n] \<Longrightarrow> rung_ok k"
  by (simp add: list_all_iff)

lemma wrapped_table: "list_all rung_ok [0..<64]"
proof -
  have "[0..<64] = [0..<4] @ [4..<8] @ [8..<16] @ [16..<32] @ [32..<48] @ [48..<64]" by code_simp
  moreover have "list_all rung_ok [0..<4]" by code_simp
  moreover have "list_all rung_ok [4..<8]" by code_simp
  moreover have "list_all rung_ok [8..<16]" by code_simp
  moreover have "list_all rung_ok [16..<32]" by code_simp
  moreover have "list_all rung_ok [32..<48]" by code_simp
  moreover have "list_all rung_ok [48..<64]" by code_simp
  ultimately show ?thesis by (simp only: list_all_append)
qed

lemma lock_duration_wrapped:
  "lock_duration n = (if wrapped (n - 5) > 1800000000000 \<or> wrapped (n - 5) \<le> 0 then 1800000000000 else wrapped (n - 5))"
  by (simp add: lock_duration_def Let_def sint_shifted_base wrapped_def LockoutAfter_def LockoutCap_def)

lemma lock_duration_min: "lock_duration n = min (60 * 10 ^ 9 * 2 ^ (n - 5)) (1800 * 10 ^ 9)"
proof (cases "n - 5 < 64")
  case True
  with wrapped_table have "rung_ok (n - 5)" by (rule rung_ok_below [rotated])
  then have "(if wrapped (n - 5) > 1800000000000 \<or> wrapped (n - 5) \<le> 0 then 1800000000000 else wrapped (n - 5))
     = min (60000000000 * 2 ^ (n - 5)) 1800000000000" by (simp only: rung_ok_def Let_def)
  then show ?thesis unfolding lock_duration_wrapped by simp
next
  case False
  then obtain j where j: "n - 5 = 64 + j" by (metis le_iff_add not_less)
  define x :: int where "x = 60000000000 * 2 ^ j"
  have "(60000000000 * 2 ^ (64 + j) :: int) = 18446744073709551616 * x"
    by (simp add: power_add x_def)
  then have "wrapped (64 + j) = (18446744073709551616 * x + 9223372036854775808) mod 18446744073709551616
      - 9223372036854775808" by (simp only: wrapped_def)
  also have "\<dots> = 0" by simp
  finally have "wrapped (64 + j) = 0" .
  moreover have "(2 :: int) ^ 64 \<le> 2 ^ (64 + j)" by (intro power_increasing) auto
  then have "(18446744073709551616 :: int) \<le> 2 ^ (64 + j)" by simp
  then have "(1800000000000 :: int) \<le> 60000000000 * 2 ^ (64 + j)" by linarith
  ultimately show ?thesis unfolding lock_duration_wrapped j by simp
qed

lemma lock_duration_pos: "0 < lock_duration n"
  by (simp add: lock_duration_min)

subsection \<open>What one turn does to its source\<close>

lemma failedLocked_own:
  assumes "gate_ok g" "failedLocked ip t g = (r, g')"
  shows "failuresLocked ip g' = Suc (failuresLocked ip g)"
    and "LockoutAfter \<le> failuresLocked ip g' \<Longrightarrow>
      \<exists>s. tget (sources g') ip = Some s \<and> lockedUntil s = Some (t + lock_duration (failuresLocked ip g'))"
proof -
  have so: "sources_ok (sources g)" using assms(1) by (simp add: gate_ok_def)
  from with_source_props [OF so assms(2) [unfolded failedLocked_def]] obtain s where
    s: "tget (sources g) ip = Some s \<or> (tget (sources g) ip = None \<and> s = new_source t)"
    and own: "tget (sources g') ip = Some (snd (fail_source t s))" by metis
  have f: "failures (snd (fail_source t s)) = Suc (failures s)"
    by (simp add: fail_source_def Let_def)
  show "failuresLocked ip g' = Suc (failuresLocked ip g)"
    using s own f by (auto simp: failuresLocked_def new_source_def)
  then show "LockoutAfter \<le> failuresLocked ip g' \<Longrightarrow>
      \<exists>s. tget (sources g') ip = Some s \<and> lockedUntil s = Some (t + lock_duration (failuresLocked ip g'))"
    using own f by (auto simp: failuresLocked_def fail_source_def Let_def)
qed

lemma verify_begin_locked:
  assumes "tget (sources g) ip = Some s" "lockedUntil s = Some u" "now < u"
  shows "\<exists>v g'. verify_begin ip now g = (Some v, g') \<and> v_Locked v \<and> v_RetryAfter v = u - now \<and> turn g' = turn g"
  using assms by (simp add: verify_begin_look with_source_def sourceLocked_def look_locked_def lockedAt_def)

text \<open>A locked source stays locked: until its time no event lifts the lock, short of its eviction.\<close>

definition locked_till :: "string \<Rightarrow> time \<Rightarrow> gate \<Rightarrow> bool" where
  "locked_till ip u g \<longleftrightarrow> (\<exists>s. tget (sources g) ip = Some s \<and> lockedUntil s = Some u)"

fun event_time :: "gate_event \<Rightarrow> time option" where
  "event_time (GAllow ip t) = Some t"
| "event_time (GLocked ip t) = Some t"
| "event_time (GBegin ip t) = Some t"
| "event_time (GCommit out t) = Some t"
| "event_time e = None"

definition before :: "time \<Rightarrow> gate_event \<Rightarrow> bool" where
  "before u e \<longleftrightarrow> (case event_time e of None \<Rightarrow> True | Some t \<Rightarrow> t < u)"

definition in_turn :: "string \<Rightarrow> gate \<Rightarrow> bool" where
  "in_turn ip g \<longleftrightarrow> (\<exists>left. turn g = Some (ip, left))"

lemma with_source_own:
  assumes "sources_ok (sources g)" "tget (sources g) ip = Some s"
  shows "tget (sources (snd (with_source ip now f g))) ip = Some (snd (f s))"
  using assms by (simp add: with_source_def sourceLocked_def tget_snoc split: prod.split)

lemma with_source_turn [simp]: "turn (snd (with_source ip now f g)) = turn g"
  by (simp add: with_source_def split: prod.split)

lemma lockedUntil_take_token [simp]: "lockedUntil (snd (take_token rnd t s)) = lockedUntil s"
  by (simp add: take_token_def refill_def Let_def)

lemma verify_begin_turn: "turn (snd (verify_begin ip now g)) = turn g \<or> in_turn ip (snd (verify_begin ip now g))"
  using with_source_turn [of ip now "look_locked now" g]
  by (cases "with_source ip now (look_locked now) g") (auto simp: verify_begin_look in_turn_def split: prod.splits)

lemma own_step_keeps_lock:
  assumes "gate_step rnd g e g'" "gate_ok g" "locked_till ip u g" "\<not> in_turn ip g" "before u e"
    and "actor g e = Some ip"
  shows "locked_till ip u g' \<and> \<not> in_turn ip g'"
proof -
  from assms(3) obtain s where s: "tget (sources g) ip = Some s" "lockedUntil s = Some u"
    by (auto simp: locked_till_def)
  have so: "sources_ok (sources g)" using assms(2) by (simp add: gate_ok_def)
  from assms(1) show ?thesis
  proof (cases rule: gate_step.cases)
    case (allow ip' t)
    then have [simp]: "ip' = ip" using assms(6) by simp
    show ?thesis using allow s so assms(4)
      by (simp add: locked_till_def in_turn_def AllowSource_def with_source_own)
  next
    case (locked ip' t)
    then have [simp]: "ip' = ip" "t < u" using assms(5,6) by (simp_all add: before_def)
    show ?thesis using locked s assms(4)
      by (simp add: locked_till_def in_turn_def Locked_def lockedAt_def)
  next
    case (begin_turn ip' t)
    then have [simp]: "ip' = ip" and t: "t < u" using assms(5,6) by (simp_all add: before_def)
    from verify_begin_locked [OF s t] have "turn g' = turn g" using begin_turn by auto
    moreover have "tget (sources g') ip = Some s"
      using begin_turn s so t by (simp add: verify_begin_sources with_source_own look_locked_def lockedAt_def)
    ultimately show ?thesis using s assms(4) by (simp add: locked_till_def in_turn_def)
  next
    case (commit_turn ip' left out t)
    then show ?thesis using assms(4,6) by (simp add: in_turn_def)
  qed (use assms(6) in simp_all)
qed

lemma other_step_turn:
  assumes "gate_step rnd g e g'" "\<not> in_turn ip g" "actor g e \<noteq> Some ip"
  shows "\<not> in_turn ip g'"
  using assms
proof (cases rule: gate_step.cases)
  case (begin_turn ip' t)
  then show ?thesis using assms(2,3) verify_begin_turn [of ip' t g] by (auto simp: in_turn_def)
qed (auto simp: in_turn_def AllowSource_def Locked_def Admit_def Release_def verify_commit_def Let_def
    split: option.splits prod.splits outcome.splits if_splits)

lemma step_keeps_lock:
  assumes "gate_step rnd g e g'" "gate_ok g" "locked_till ip u g" "\<not> in_turn ip g" "before u e"
  shows "tget (sources g') ip = None \<or> (locked_till ip u g' \<and> \<not> in_turn ip g')"
proof (cases "actor g e = Some ip")
  case True
  with own_step_keeps_lock [OF assms] show ?thesis by blast
next
  case False
  with gate_step_others [OF assms(1,2) False] other_step_turn [OF assms(1,4) False] assms(3)
  show ?thesis by (auto simp: kept_or_gone_def locked_till_def)
qed

subsection \<open>The bucket\<close>

fun accepted :: "(rat \<Rightarrow> rat) \<Rightarrow> string \<Rightarrow> time list \<Rightarrow> gate \<Rightarrow> nat" where
  \<comment> \<open>how many of a sequence of attempts from one source get past the bucket\<close>
  "accepted rnd ip [] g = 0"
| "accepted rnd ip (t # ts) g =
     (case AllowSource rnd ip t g of (r, g') \<Rightarrow> (if r = None then 1 else 0) + accepted rnd ip ts g')"

lemma AllowSource_known:
  assumes "gate_ok g" "tget (sources g) ip = Some s"
  shows "fst (AllowSource rnd ip t g) = fst (take_token rnd t s)"
    and "tget (sources (snd (AllowSource rnd ip t g))) ip = Some (snd (take_token rnd t s))"
  using assms
  by (simp_all add: AllowSource_def with_source_def sourceLocked_def tget_snoc gate_ok_def split: prod.split)

lemma take_token_same_time:
  assumes "rounds rnd" "lastSeen s = t" "tokens s \<le> of_int n" "0 \<le> n" "n \<le> 10"
  shows "fst (take_token rnd t s) = None \<Longrightarrow> 1 \<le> n \<and> tokens (snd (take_token rnd t s)) \<le> of_int (n - 1)"
    and "fst (take_token rnd t s) \<noteq> None \<Longrightarrow> tokens (snd (take_token rnd t s)) \<le> of_int n"
    and "lastSeen (snd (take_token rnd t s)) = t"
proof -
  have r: "refill rnd t s = s" using assms(2) by (simp add: refill_def Let_def)
  have tk: "take_token rnd t s =
      (if tokens s < 1 then (Some ErrRateLimited, s) else (None, s\<lparr>tokens := rnd (tokens s - 1)\<rparr>))"
    by (simp add: take_token_def r Let_def)
  show "lastSeen (snd (take_token rnd t s)) = t" using assms(2) by (simp add: tk)
  show "fst (take_token rnd t s) \<noteq> None \<Longrightarrow> tokens (snd (take_token rnd t s)) \<le> of_int n"
    using assms(3) unfolding tk by (cases "tokens s < 1") simp_all
  assume N: "fst (take_token rnd t s) = None"
  then have not: "\<not> tokens s < 1" unfolding tk by (cases "tokens s < 1") simp_all
  then have "(1 :: rat) \<le> of_int n" using assms(3) by linarith
  then have n: "1 \<le> n" by simp
  have "tokens s - 1 \<le> of_int (n - 1)" using assms(3) by simp
  then have "rnd (tokens s - 1) \<le> of_int (n - 1)"
    by (rule rounds_le [OF assms(1)]) (use n assms(5) in simp_all)
  with n not show "1 \<le> n \<and> tokens (snd (take_token rnd t s)) \<le> of_int (n - 1)"
    unfolding tk by simp
qed

lemma accepted_bound:
  assumes "rounds rnd"
  shows "gate_ok g \<Longrightarrow> tget (sources g) ip = Some s \<Longrightarrow> lastSeen s = t \<Longrightarrow> tokens s \<le> of_int n \<Longrightarrow>
    0 \<le> n \<Longrightarrow> n \<le> 10 \<Longrightarrow> int (accepted rnd ip (replicate k t) g) \<le> n"
proof (induction k arbitrary: g s n)
  case (Suc k)
  obtain r g' where a: "AllowSource rnd ip t g = (r, g')" by fastforce
  let ?s = "snd (take_token rnd t s)"
  have known: "r = fst (take_token rnd t s)" "tget (sources g') ip = Some ?s"
    using AllowSource_known [OF Suc.prems(1,2), of rnd t] a by simp_all
  have ok: "gate_ok g'" using AllowSource_ok [OF assms Suc.prems(1), of ip t] a by simp
  note tt = take_token_same_time [OF assms Suc.prems(3-6)]
  show ?case
  proof (cases "r = None")
    case True
    then have "fst (take_token rnd t s) = None" using known(1) by simp
    from tt(1) [OF this] have "1 \<le> n" "tokens ?s \<le> of_int (n - 1)" by blast+
    then have "int (accepted rnd ip (replicate k t) g') \<le> n - 1"
      using Suc.IH [OF ok known(2) tt(3), of "n - 1"] Suc.prems(6) by simp
    with a True show ?thesis by simp
  next
    case False
    then have "fst (take_token rnd t s) \<noteq> None" using known(1) by simp
    from Suc.IH [OF ok known(2) tt(3) tt(2) [OF this] Suc.prems(5,6)]
    have "int (accepted rnd ip (replicate k t) g') \<le> n" .
    moreover obtain y where "r = Some y" using False by blast
    ultimately show ?thesis using a by simp
  qed
qed simp

lemma accepted_burst:
  assumes "rounds rnd" "gate_ok g"
  shows "accepted rnd ip (replicate k t) g \<le> 10"
proof (cases k)
  case (Suc j)
  obtain r g' where a: "AllowSource rnd ip t g = (r, g')" by fastforce
  have so: "sources_ok (sources g)" using assms(2) by (simp add: gate_ok_def)
  from with_source_props [OF so a [unfolded AllowSource_def]] obtain s where
    s: "tget (sources g) ip = Some s \<or> (tget (sources g) ip = None \<and> s = new_source t)"
    and r: "take_token rnd t s = (r, snd (take_token rnd t s))"
    and own: "tget (sources g') ip = Some (snd (take_token rnd t s))" by metis
  let ?s = "refill rnd t s"
  have "source_ok s" using s assms(2) by (auto simp: gate_ok_def)
  then have le: "tokens ?s \<le> of_int 10"
    using refill_tokens_le [of s rnd t] by (simp add: source_ok_def BucketCapacity_def)
  have rr: "refill rnd t ?s = ?s" by (simp add: refill_def Let_def)
  then have tk: "take_token rnd t s = take_token rnd t ?s" by (simp add: take_token_def)
  have last: "lastSeen ?s = t" by (simp add: refill_def Let_def)
  have ok: "gate_ok g'" using AllowSource_ok [OF assms, of ip t] a by simp
  note tt = take_token_same_time [OF assms(1) last le, folded tk]
  show ?thesis
  proof (cases r)
    case None
    with r have "fst (take_token rnd t s) = None" by (metis fst_conv)
    from tt(1) [OF _ _ this] have "tokens (snd (take_token rnd t s)) \<le> of_int (10 - 1)" by simp
    from accepted_bound [OF assms(1) ok own tt(3) this, of j] show ?thesis using Suc a None by simp
  next
    case (Some e)
    with r have "fst (take_token rnd t s) \<noteq> None" by (metis fst_conv option.distinct(1))
    from tt(2) [OF _ _ this] have "tokens (snd (take_token rnd t s)) \<le> of_int 10" by simp
    from accepted_bound [OF assms(1) ok own tt(3) this, of j] show ?thesis using Suc a Some by simp
  qed
qed simp

lemma run_keeps_lock:
  assumes "gate_run rnd g es g'" "rounds rnd" "gate_ok g" "locked_till ip u g" "\<not> in_turn ip g"
    and "list_all (before u) es"
  shows "locked_till ip u g' \<or>
    (\<exists>es1 es2 g1. es = es1 @ es2 \<and> gate_run rnd g es1 g1 \<and> tget (sources g1) ip = None)"
  using assms
proof (induction rule: gate_run.induct)
  case (gate_run_Cons g e g1 es g2)
  then have ok: "gate_ok g1" by (auto intro: gate_step_ok)
  from gate_run_Cons.prems have "before u e" "list_all (before u) es" by simp_all
  from step_keeps_lock [OF gate_run_Cons.hyps(1) gate_run_Cons.prems(2-4) \<open>before u e\<close>]
  consider "tget (sources g1) ip = None" | "locked_till ip u g1" "\<not> in_turn ip g1" by metis
  then show ?case
  proof cases
    case 1
    have "gate_run rnd g [e] g1" using gate_run_Cons.hyps(1) by (auto intro: gate_run.intros)
    with 1 show ?thesis by (intro disjI2 exI [of _ "[e]"] exI [of _ es] exI [of _ g1]) simp
  next
    case 2
    from gate_run_Cons.IH [OF gate_run_Cons.prems(1) ok 2 \<open>list_all (before u) es\<close>]
    consider "locked_till ip u g2" | es1 es2 g3 where "es = es1 @ es2" "gate_run rnd g1 es1 g3"
        "tget (sources g3) ip = None" by metis
    then show ?thesis
    proof cases
      case (2 es1 es2 g3)
      then have "gate_run rnd g (e # es1) g3" using gate_run_Cons.hyps(1) by (auto intro: gate_run.intros)
      with 2 show ?thesis by (intro disjI2 exI [of _ "e # es1"] exI [of _ es2] exI [of _ g3]) simp
    qed simp
  qed
qed simp

definition sample_locked :: gate where
  "sample_locked = \<lparr>sources = [(''10.0.0.9'', \<lparr>tokens = 3, lastSeen = 0, failures = 5,
     lockedUntil = Some 100, lockAnnounced = True\<rparr>)], admitted = 0, turn = None\<rparr>"

lemma sample_locked_facts:
  "gate_ok sample_locked" "locked_till ''10.0.0.9'' 100 sample_locked" "\<not> in_turn ''10.0.0.9'' sample_locked"
  by (simp_all add: sample_locked_def gate_ok_def sources_ok_def table_ok_def tlen_def MaxSources_def
      source_ok_def BucketCapacity_def LockoutAfter_def tget_def locked_till_def in_turn_def)

lemma rounds_id: "rounds (\<lambda>x. x)"
  by (simp add: rounds_def monoI)

subsection \<open>Properties\<close>

text \<open>
  The lockout ladder in closed form: after n consecutive failures a source is locked for one
  minute doubled n - 5 times, at most half an hour, for every n however large. The 64-bit shift
  wraps long before that, and no wrapped value ever passes for a short or negative lock.
\<close>

theorem lockout_ladder: "lock_duration n = min (60 * 10 ^ 9 * 2 ^ (n - 5)) (1800 * 10 ^ 9)"
  by (rule lock_duration_min)

text \<open>
  The door's bounds hold in every reachable state: from an empty gate, after any interleaving of
  bucket checks, status queries, admissions and verification turns, at most 256 sources are tracked,
  none of them twice, at most four attempts are admitted, no bucket holds more than ten tokens, and
  only a source with at least five failures is locked.
\<close>

theorem gate_bounds:
  assumes "gate_run rnd empty_gate es g" and "rounds rnd"
  shows "TrackedSources g \<le> 256 \<and> table_ok (sources g) \<and> admitted g \<le> 4 \<and>
    (case tget (sources g) ip of None \<Rightarrow> True
     | Some s \<Rightarrow> tokens s \<le> 10 \<and> (lockedUntil s = None \<or> 5 \<le> failures s))"
proof -
  have ok: "gate_ok g" by (rule gate_run_ok [OF assms empty_gate_ok])
  have "tokens s \<le> 10 \<and> (lockedUntil s = None \<or> 5 \<le> failures s)" if "tget (sources g) ip = Some s" for s
  proof -
    from ok that have "source_ok s" by (simp add: gate_ok_def)
    then show ?thesis
      unfolding source_ok_def BucketCapacity_def LockoutAfter_def by blast
  qed
  with ok show ?thesis
    by (auto simp: gate_ok_def sources_ok_def TrackedSources_def MaxSources_def InFlight_def split: option.split)
qed

theorem gate_bounds_witness:
  "TrackedSources (snd (AllowSource (\<lambda>x. x) ''10.0.0.9'' 5 empty_gate)) \<le> 256"
proof -
  have "gate_run (\<lambda>x. x) empty_gate [GAllow ''10.0.0.9'' 5] (snd (AllowSource (\<lambda>x. x) ''10.0.0.9'' 5 empty_gate))"
    by (rule gate_run_Cons [OF gate_step.allow gate_run_Nil])
  from gate_bounds [OF this rounds_id] show ?thesis by blast
qed

text \<open>
  C23: A lockout cannot be shortened. While a source is locked until u, any interleaving of events
  before u, its own and everybody else's, leaves it locked until exactly u, unless its entry was
  evicted from the bounded table on the way; and a verification turn it asks for before u is refused
  without the password ever being looked at, with the time that is left.
\<close>

theorem lockout_holds:
  assumes "gate_run rnd g es g'" and "rounds rnd" and "gate_ok g" and "locked_till ip u g"
    and "\<not> in_turn ip g" and "list_all (before u) es"
  shows "(locked_till ip u g' \<and>
      (now < u \<longrightarrow> (\<exists>v g2. verify_begin ip now g' = (Some v, g2) \<and> v_Locked v \<and> v_RetryAfter v = u - now))) \<or>
    (\<exists>es1 es2 g1. es = es1 @ es2 \<and> gate_run rnd g es1 g1 \<and> tget (sources g1) ip = None)"
  using run_keeps_lock [OF assms] verify_begin_locked [of g' ip _ u now]
  by (fastforce simp: locked_till_def)

theorem lockout_holds_witness:
  "\<exists>v g2. verify_begin ''10.0.0.9'' 40 sample_locked = (Some v, g2) \<and> v_Locked v \<and> v_RetryAfter v = 60"
proof -
  have r: "gate_run (\<lambda>x. x) sample_locked [] sample_locked" by (rule gate_run_Nil)
  have n: "tget (sources sample_locked) ''10.0.0.9'' \<noteq> None" using sample_locked_facts(2) by (auto simp: locked_till_def)
  from lockout_holds [OF r rounds_id sample_locked_facts, of 40] n
  show ?thesis by auto
qed

text \<open>
  A peer can only lock itself out: an event that is not about a source leaves that source's
  tokens, failure count and lock exactly as they were, or evicts the whole entry.
\<close>

theorem peers_are_isolated:
  assumes "gate_step rnd g e g'" and "gate_ok g" and "actor g e \<noteq> Some k"
  shows "tget (sources g') k = None \<or> tget (sources g') k = tget (sources g) k"
  using gate_step_others [OF assms] by (simp add: kept_or_gone_def)

theorem peers_are_isolated_witness:
  "tget (sources (snd (AllowSource (\<lambda>x. x) ''10.0.0.1'' 7 sample_locked))) ''10.0.0.9'' = None \<or>
   tget (sources (snd (AllowSource (\<lambda>x. x) ''10.0.0.1'' 7 sample_locked))) ''10.0.0.9''
     = tget (sources sample_locked) ''10.0.0.9''"
  by (rule peers_are_isolated [OF gate_step.allow sample_locked_facts(1)]) simp

text \<open>
  Each failed turn climbs one rung: committing a rejected password raises the source's failure
  count by exactly one, and from the fifth failure on a turn the source asks for before the end of
  the rung's time is refused as locked.
\<close>

theorem failed_turn_climbs:
  assumes "gate_ok g" and "verify_commit ip left OutcomeFailed t g = (v, g')"
  shows "v_Failures v = Suc (failuresLocked ip g) \<and> failuresLocked ip g' = Suc (failuresLocked ip g) \<and>
    turn g' = None \<and>
    (5 \<le> v_Failures v \<and> now < t + lock_duration (v_Failures v) \<longrightarrow>
      (\<exists>w g2. verify_begin ip now g' = (Some w, g2) \<and> v_Locked w))"
proof -
  obtain r g1 where f: "failedLocked ip t g = (r, g1)" by fastforce
  have g': "g' = g1\<lparr>turn := None\<rparr>" "v_Failures v = failuresLocked ip g1"
    using assms(2) f by (auto simp: verify_commit_def Let_def split: prod.splits)
  have fl: "failuresLocked ip g' = failuresLocked ip g1" by (simp add: g' failuresLocked_def)
  note own = failedLocked_own [OF assms(1) f]
  have "\<exists>w g2. verify_begin ip now g' = (Some w, g2) \<and> v_Locked w"
    if "5 \<le> v_Failures v" "now < t + lock_duration (v_Failures v)"
  proof -
    have "LockoutAfter \<le> failuresLocked ip g1" using that(1) g'(2) by (simp add: LockoutAfter_def)
    from own(2) [OF this] obtain s where s: "tget (sources g1) ip = Some s"
      "lockedUntil s = Some (t + lock_duration (failuresLocked ip g1))" by blast
    then have "tget (sources g') ip = Some s" using g'(1) by simp
    from verify_begin_locked [OF this s(2), of now] that(2) g'(2) show ?thesis by auto
  qed
  then show ?thesis using own(1) g' fl by simp
qed

theorem failed_turn_climbs_witness:
  "\<exists>w g2. verify_begin ''10.0.0.9'' 150 (snd (verify_commit ''10.0.0.9'' False OutcomeFailed 140 sample_locked)) = (Some w, g2) \<and> v_Locked w"
proof -
  obtain v g' where v: "verify_commit ''10.0.0.9'' False OutcomeFailed 140 sample_locked = (v, g')" by fastforce
  have "failuresLocked ''10.0.0.9'' sample_locked = 5"
    by (simp add: sample_locked_def failuresLocked_def tget_def)
  moreover have "150 < 140 + lock_duration 6" by (simp add: lock_duration_min)
  ultimately show ?thesis using failed_turn_climbs [OF sample_locked_facts(1) v, of 150] v by simp
qed

text \<open>
  The bucket bounds a burst: of any number of attempts one source makes at one instant, at most
  ten get past the bucket, whatever the gate held before, for any rounding of the token arithmetic
  that is monotone and exact on the integers up to ten.
\<close>

theorem burst_bounded:
  assumes "rounds rnd" and "gate_ok g"
  shows "accepted rnd ip (replicate k t) g \<le> 10"
  using assms by (rule accepted_burst)

theorem burst_bounded_witness: "accepted (\<lambda>x. x) ''10.0.0.9'' (replicate 25 7) sample_locked \<le> 10"
  by (rule burst_bounded [OF rounds_id sample_locked_facts(1)])

end
