(* ===== verification/Jobs.thy ===== *)
theory Jobs
  imports Complex_Main "HOL-Library.Product_Lexorder" "HOL-Library.Signed_Division" Fsx_Errors
begin

section \<open>The job manager (internal/jobs/jobs.go, progress.go)\<close>

text \<open>
  The manager of long-running operations: two classes with a semaphore and a bounded queue each,
  job states, cancellation, the completion hook, retention and shutdown. A job's goroutine is a
  program counter, one value per point between two lock operations of \<open>run\<close>, so every interleaving
  of goroutines, submitters, cancellers and Close is a sequence of steps. Entries are addressed by
  their sequence number: a goroutine keeps its entry after Reap has dropped it from the map.
\<close>

datatype jclass = ClassByteMover | ClassMetadata

datatype jstate = StateQueued | StateRunning | StateDone | StateFailed | StateCancelled

definition Terminal :: "jstate \<Rightarrow> bool" where
  "Terminal s \<longleftrightarrow> s = StateDone \<or> s = StateFailed \<or> s = StateCancelled"

definition ClassOf :: "string \<Rightarrow> jclass" where
  "ClassOf k = (if k \<in> {''copy'', ''move'', ''archive'', ''extract''} then ClassByteMover else ClassMetadata)"

definition WarnCap :: nat where "WarnCap = 100"

record limits =
  ByteMovers :: int
  Metadata :: int
  QueueDepth :: int
  RetainMinutes :: int
  RetainCount :: int

definition normalise :: "limits \<Rightarrow> limits" where
  "normalise l = l
     \<lparr>ByteMovers := (if ByteMovers l \<le> 0 then 2 else ByteMovers l),
      Metadata := (if Metadata l \<le> 0 then 4 else Metadata l),
      QueueDepth := (if QueueDepth l \<le> 0 then 64 else QueueDepth l),
      RetainMinutes := (if RetainMinutes l < 0 then 0 else RetainMinutes l),
      RetainCount := (if RetainCount l < 0 then 0 else RetainCount l)\<rparr>"

definition class_cap :: "limits \<Rightarrow> jclass \<Rightarrow> int" where
  \<comment> \<open>the capacity New gives the class's semaphore\<close>
  "class_cap l c = (case c of ClassByteMover \<Rightarrow> ByteMovers l | ClassMetadata \<Rightarrow> Metadata l)"

record job =
  j_ID :: string
  j_Kind :: string
  j_State :: jstate
  j_Title :: string
  j_Src :: "string list"
  j_Dst :: string
  j_Files :: int
  j_FilesTotal :: int
  j_Bytes :: int
  j_BytesTotal :: int
  j_Current :: string
  j_Rate :: int
  j_ETA :: int
  j_Phase :: string
  j_Warnings :: "string list"
  j_WarningCount :: nat
  j_Err :: string
  j_ErrCode :: string
  j_Actor :: string
  j_UID :: int
  j_StartedAt :: time
  j_UpdatedAt :: time
  j_FinishedAt :: "time option"
  j_Result :: string
  j_Partial :: bool
  j_Note :: string

record meta =
  m_Src :: "string list"
  m_Dst :: string
  m_Actor :: string
  m_UID :: int
  m_ID :: string
  m_OnFinish :: bool

text \<open>
  Where a job's goroutine is: waiting in the select (\<open>Waiting\<close>); slot taken, still counted as queued
  (\<open>Acquired\<close>); out of the queue (\<open>Holding\<close>); past the closed check (\<open>Starting\<close>) or refused by it
  (\<open>Barred\<close>); in the work function (\<open>Running\<close>); outcome recorded, slot still held (\<open>Ending\<close>);
  cancelled in the queue, before and after it left it (\<open>Quitting\<close>, \<open>Quit\<close>); then the deferred calls:
  slot released (\<open>Released\<close>), context cancelled (\<open>Unwound\<close>), hook run (\<open>Notified\<close>), goroutine gone.
\<close>

datatype pc =
    Waiting | Acquired | Holding | Starting | Barred | Running | Ending
  | Quitting | Quit | Released | Unwound | Notified | Gone

record jentry =
  e_job :: job
  e_class :: jclass
  e_pc :: pc
  e_ctxDone :: bool
  e_cancelRequested :: bool
  e_hook :: bool
  e_notified :: bool
  e_runStart :: "time option"
  e_lastSample :: "time option"
  e_lastBytes :: int
  e_rate :: rat
  e_rateSeen :: bool

record manager =
  mg_limits :: limits
  mg_entries :: "jentry list"            \<comment> \<open>by sequence number, every entry ever made\<close>
  mg_jobs :: "(string, nat) table"
  mg_queued :: "jclass \<Rightarrow> nat"
  mg_slots :: "jclass \<Rightarrow> nat"            \<comment> \<open>how full the class's semaphore channel is\<close>
  mg_guests :: "(jclass \<times> bool) list"   \<comment> \<open>what Admit let in, and whether it still holds its slot\<close>
  mg_closed :: bool
  mg_closing :: "nat list"               \<comment> \<open>the entries a running Close has still to cancel\<close>
  mg_hooks :: "(nat \<times> job) list"         \<comment> \<open>the OnFinish calls made so far, latest first\<close>

definition New :: "limits \<Rightarrow> manager" where
  "New l = \<lparr>mg_limits = normalise l, mg_entries = [], mg_jobs = [], mg_queued = (\<lambda>_. 0),
     mg_slots = (\<lambda>_. 0), mg_guests = [], mg_closed = False, mg_closing = [], mg_hooks = []\<rparr>"

subsection \<open>Job ids\<close>

definition hex_digit :: "nat \<Rightarrow> char" where
  "hex_digit n = ''0123456789abcdef'' ! n"

definition hex_encode :: "bytes \<Rightarrow> string" where
  "hex_encode bs = concat (map (\<lambda>b. [hex_digit (of_char b div 16), hex_digit (of_char b mod 16)]) bs)"

definition NewID :: "bytes \<Rightarrow> string" where
  \<comment> \<open>from eight random bytes\<close>
  "NewID rnd = hex_encode rnd"

definition id_char :: "char \<Rightarrow> bool" where
  "id_char c \<longleftrightarrow> (48 \<le> (of_char c :: nat) \<and> (of_char c :: nat) \<le> 57) \<or> (97 \<le> (of_char c :: nat) \<and> (of_char c :: nat) \<le> 102)"

definition ValidID :: "string \<Rightarrow> bool" where
  "ValidID i \<longleftrightarrow> length i = 16 \<and> list_all id_char i"

subsection \<open>Progress\<close>

definition formatWarn :: "string \<Rightarrow> string \<Rightarrow> string \<Rightarrow> string" where
  "formatWarn path code msg =
     (let out = (if path \<noteq> [] then path @ '': '' else []);
          m = (if msg = [] then code else msg)
      in out @ m @ (if code \<noteq> [] \<and> m \<noteq> code then '' ('' @ code @ '')'' else []))"

definition maxETA :: int where "maxETA = 365 * 24 * 3600"

definition clampETA :: "rat \<Rightarrow> int" where
  \<comment> \<open>NaN and the infinities do not occur: every quotient has a positive divisor\<close>
  "clampETA s = (if s < 0 then -1 else let v = \<lceil>s\<rceil> in if v > maxETA then -1 else v)"

text \<open>
  The estimator. \<open>rnd\<close> rounds each float64 operation and \<open>decay\<close> is the weight
  \<open>1 - exp(-dt/window)\<close>.
\<close>

definition secs :: "(rat \<Rightarrow> rat) \<Rightarrow> time \<Rightarrow> rat" where
  "secs rnd d = rnd (rnd (of_int (d sdiv 10 ^ 9)) + rnd (rnd (of_int (d smod 10 ^ 9)) / 10 ^ 9))"

definition sampleLocked :: "(rat \<Rightarrow> rat) \<Rightarrow> (rat \<Rightarrow> rat) \<Rightarrow> time \<Rightarrow> int \<Rightarrow> jentry \<Rightarrow> jentry" where
  "sampleLocked rnd decay now n e =
     (case e_lastSample e of
        None \<Rightarrow> e\<lparr>e_lastSample := Some now, e_lastBytes := n\<rparr>
      | Some prev \<Rightarrow>
          let dt = secs rnd (now - prev)
          in if dt \<le> 0 then e
             else let delta = (if n - e_lastBytes e < 0 then 0 else n - e_lastBytes e);
                      inst = rnd (rnd (of_int delta) / dt);
                      r = (if \<not> e_rateSeen e then inst
                           else rnd (e_rate e + rnd (decay dt * rnd (inst - e_rate e))));
                      r' = (if r < 0 then 0 else r)
                  in e\<lparr>e_rate := r', e_rateSeen := True, e_lastSample := Some now, e_lastBytes := n,
                       e_job := (e_job e)\<lparr>j_Rate := \<lfloor>r' + 1 / 2\<rfloor>\<rparr>\<rparr>)"

definition etaLocked :: "(rat \<Rightarrow> rat) \<Rightarrow> time \<Rightarrow> jentry \<Rightarrow> jentry" where
  "etaLocked rnd now e =
     (let j = e_job e
      in e\<lparr>e_job := j\<lparr>j_ETA :=
        (if j_BytesTotal j > 0 \<and> e_rate e > 0 then
           (let remain = j_BytesTotal j - j_Bytes j
            in if remain \<le> 0 then 0 else clampETA (rnd (rnd (of_int remain) / e_rate e)))
         else if j_FilesTotal j > 0 \<and> j_Files j > 0 \<and> e_runStart e \<noteq> None then
           (let elapsed = secs rnd (now - the (e_runStart e));
                perSecond = rnd (rnd (of_int (j_Files j)) / elapsed);
                remain = j_FilesTotal j - j_Files j
            in if elapsed \<le> 0 then -1
               else if perSecond \<le> 0 then -1
               else if remain \<le> 0 then 0
               else clampETA (rnd (rnd (of_int remain) / perSecond)))
         else -1)\<rparr>\<rparr>)"

definition Set_counts :: "(rat \<Rightarrow> rat) \<Rightarrow> (rat \<Rightarrow> rat) \<Rightarrow> time \<Rightarrow> int \<Rightarrow> int \<Rightarrow> int \<Rightarrow> int \<Rightarrow> jentry \<Rightarrow> jentry" where
  "Set_counts rnd decay now files filesTotal n nTotal e =
     etaLocked rnd now (sampleLocked rnd decay now n
       (e\<lparr>e_job := (e_job e)\<lparr>j_Files := files, j_FilesTotal := filesTotal, j_Bytes := n, j_BytesTotal := nTotal,
          j_UpdatedAt := now\<rparr>\<rparr>))"

definition Current :: "time \<Rightarrow> string \<Rightarrow> jentry \<Rightarrow> jentry" where
  "Current now path e = e\<lparr>e_job := (e_job e)\<lparr>j_Current := path, j_UpdatedAt := now\<rparr>\<rparr>"

definition Phase :: "time \<Rightarrow> string \<Rightarrow> jentry \<Rightarrow> jentry" where
  "Phase now phase e = e\<lparr>e_job := (e_job e)\<lparr>j_Phase := phase, j_UpdatedAt := now\<rparr>\<rparr>"

definition add_warning :: "string \<Rightarrow> job \<Rightarrow> job" where
  "add_warning s j = j\<lparr>j_WarningCount := Suc (j_WarningCount j),
     j_Warnings := (if length (j_Warnings j) < WarnCap then j_Warnings j @ [s] else j_Warnings j)\<rparr>"

definition Warn :: "time \<Rightarrow> string \<Rightarrow> string \<Rightarrow> string \<Rightarrow> jentry \<Rightarrow> jentry" where
  "Warn now path code msg e =
     e\<lparr>e_job := (add_warning (formatWarn path code msg) (e_job e))\<lparr>j_UpdatedAt := now\<rparr>\<rparr>"

subsection \<open>Outcomes\<close>

text \<open>
  What a work function returned: a value that marshals, one that does not, or nil. The empty
  \<open>j_Result\<close> is the nil one, which no JSON text is.
\<close>

datatype work_result = NoResult | Marshalled string | Unmarshallable string

record work_error =
  we_chain :: error
  we_text :: string
  we_code :: string   \<comment> \<open>what ErrorCode() answers, empty when the error has no such method\<close>

definition errCode :: "work_error \<Rightarrow> string" where
  "errCode e = (if we_code e \<noteq> [] then we_code e else Code (Some (we_chain e)))"

definition cancelNote :: "int \<Rightarrow> int \<Rightarrow> string" where
  "cancelNote files tot =
     (if tot \<ge> 0 then ''Cancelled after '' @ itoa files @ '' of '' @ itoa tot
        @ '' files; partial work remains and was not rolled back.''
      else ''Cancelled after '' @ itoa files @ '' files; partial work remains and was not rolled back.'')"

definition failNote :: "int \<Rightarrow> int \<Rightarrow> string" where
  "failNote files tot =
     (if tot \<ge> 0 then ''Stopped after '' @ itoa files @ '' of '' @ itoa tot
        @ '' files; partial work remains and was not rolled back.''
      else ''Stopped after '' @ itoa files @ '' files; partial work remains and was not rolled back.'')"

definition recordResult :: "work_result \<Rightarrow> job \<Rightarrow> job" where
  "recordResult res j =
     (case res of
        NoResult \<Rightarrow> j
      | Marshalled b \<Rightarrow> j\<lparr>j_Result := b\<rparr>
      | Unmarshallable why \<Rightarrow> add_warning (''the job's result could not be recorded: '' @ why) j)"

definition finish_job :: "time \<Rightarrow> work_result \<Rightarrow> work_error option \<Rightarrow> bool \<Rightarrow> jentry \<Rightarrow> jentry" where
  "finish_job now res err ctxDone e =
     (let j = (e_job e)\<lparr>j_UpdatedAt := now, j_FinishedAt := Some now\<rparr>
      in e\<lparr>e_job :=
        (case err of
           None \<Rightarrow> recordResult res (j\<lparr>j_State := StateDone, j_ETA := 0\<rparr>)
         | Some x \<Rightarrow>
             if e_cancelRequested e \<or> errors_is (we_chain x) CtxCanceled \<or> ctxDone then
               recordResult res (j\<lparr>j_State := StateCancelled, j_Partial := True, j_ETA := -1,
                 j_Note := cancelNote (j_Files j) (j_FilesTotal j), j_Err := we_text x,
                 j_ErrCode := Code (Some [CtxCanceled])\<rparr>)
             else
               recordResult res
                 ((\<lambda>j. if j_Files j > 0 \<or> j_Bytes j > 0
                       then j\<lparr>j_Partial := True, j_Note := failNote (j_Files j) (j_FilesTotal j)\<rparr> else j)
                  (j\<lparr>j_State := StateFailed, j_ETA := -1, j_Err := we_text x, j_ErrCode := errCode x\<rparr>)))\<rparr>)"

definition finishQueued :: "time \<Rightarrow> jentry \<Rightarrow> jentry" where
  "finishQueued now e =
     (if Terminal (j_State (e_job e)) then e
      else e\<lparr>e_job := (e_job e)\<lparr>j_State := StateCancelled, j_UpdatedAt := now, j_FinishedAt := Some now,
        j_Note := ''Cancelled before it started; nothing was changed.''\<rparr>\<rparr>)"

definition start :: "time \<Rightarrow> jentry \<Rightarrow> jentry option" where
  "start now e =
     (if e_cancelRequested e then None
      else Some (e\<lparr>e_job := (e_job e)\<lparr>j_State := StateRunning, j_StartedAt := now, j_UpdatedAt := now\<rparr>,
                   e_runStart := Some now\<rparr>))"

definition requestCancel :: "jentry \<Rightarrow> bool \<times> jentry" where
  "requestCancel e =
     (if Terminal (j_State (e_job e)) then (False, e)
      else (True, e\<lparr>e_cancelRequested := True, e_ctxDone := True\<rparr>))"

subsection \<open>The manager's operations\<close>

datatype submit_error =
    NoKind | NoWork | NoRandom | BadID string | ErrClosed | ErrDuplicateID string | QueueFull nat jclass

definition entry_of :: "string \<Rightarrow> string \<Rightarrow> string \<Rightarrow> meta \<Rightarrow> time \<Rightarrow> jentry" where
  "entry_of i kind title meta now =
     \<lparr>e_job = \<lparr>j_ID = i, j_Kind = kind, j_State = StateQueued, j_Title = title, j_Src = m_Src meta, j_Dst = m_Dst meta,
        j_Files = 0, j_FilesTotal = -1, j_Bytes = 0, j_BytesTotal = -1, j_Current = [], j_Rate = 0, j_ETA = -1,
        j_Phase = [], j_Warnings = [], j_WarningCount = 0, j_Err = [], j_ErrCode = [], j_Actor = m_Actor meta,
        j_UID = m_UID meta, j_StartedAt = now, j_UpdatedAt = now, j_FinishedAt = None, j_Result = [],
        j_Partial = False, j_Note = []\<rparr>,
      e_class = ClassOf kind, e_pc = Waiting, e_ctxDone = False, e_cancelRequested = False,
      e_hook = m_OnFinish meta, e_notified = False, e_runStart = None, e_lastSample = None, e_lastBytes = 0,
      e_rate = 0, e_rateSeen = False\<rparr>"

definition choose_id :: "meta \<Rightarrow> bytes option \<Rightarrow> submit_error + string" where
  \<comment> \<open>\<open>rnd\<close>: what the random source gave, None when it failed\<close>
  "choose_id meta rnd =
     (if m_ID meta = [] then (case rnd of None \<Rightarrow> Inl NoRandom | Some b \<Rightarrow> Inr (NewID b))
      else if ValidID (m_ID meta) then Inr (m_ID meta) else Inl (BadID (m_ID meta)))"

definition register :: "jentry \<Rightarrow> manager \<Rightarrow> manager" where
  "register e m = m\<lparr>mg_queued := (mg_queued m)(e_class e := Suc (mg_queued m (e_class e))),
     mg_jobs := tput (j_ID (e_job e)) (length (mg_entries m)) (mg_jobs m),
     mg_entries := mg_entries m @ [e]\<rparr>"

definition Submit :: "time \<Rightarrow> string \<Rightarrow> string \<Rightarrow> meta \<Rightarrow> bool \<Rightarrow> bytes option \<Rightarrow> manager \<Rightarrow> (submit_error + job) \<times> manager" where
  "Submit now kind title meta hasFn rnd m =
     (if kind = [] then (Inl NoKind, m)
      else if \<not> hasFn then (Inl NoWork, m)
      else case choose_id meta rnd of
        Inl x \<Rightarrow> (Inl x, m)
      | Inr i \<Rightarrow>
          let c = ClassOf kind; e = entry_of i kind title meta now
          in if mg_closed m then (Inl ErrClosed, m)
             else if tget (mg_jobs m) i \<noteq> None then (Inl (ErrDuplicateID i), m)
             else if int (mg_queued m c) \<ge> QueueDepth (mg_limits m) then (Inl (QueueFull (mg_queued m c) c), m)
             else (Inr (e_job e), register e m))"

definition upd :: "nat \<Rightarrow> (jentry \<Rightarrow> jentry) \<Rightarrow> manager \<Rightarrow> manager" where
  "upd i f m = m\<lparr>mg_entries := (mg_entries m)[i := f (mg_entries m ! i)]\<rparr>"

definition goto :: "nat \<Rightarrow> pc \<Rightarrow> manager \<Rightarrow> manager" where
  "goto i p = upd i (\<lambda>e. e\<lparr>e_pc := p\<rparr>)"

definition leaveQueue :: "jclass \<Rightarrow> manager \<Rightarrow> manager" where
  "leaveQueue c m = (if mg_queued m c > 0 then m\<lparr>mg_queued := (mg_queued m)(c := mg_queued m c - 1)\<rparr> else m)"

definition isClosed :: "manager \<Rightarrow> bool" where "isClosed m = mg_closed m"

definition slot_free :: "jclass \<Rightarrow> manager \<Rightarrow> bool" where
  \<comment> \<open>the send on the semaphore channel is ready\<close>
  "slot_free c m \<longleftrightarrow> int (mg_slots m c) < class_cap (mg_limits m) c"

definition take_slot :: "jclass \<Rightarrow> manager \<Rightarrow> manager" where
  "take_slot c m = m\<lparr>mg_slots := (mg_slots m)(c := Suc (mg_slots m c))\<rparr>"

definition give_slot :: "jclass \<Rightarrow> manager \<Rightarrow> manager option" where
  \<comment> \<open>the receive, which blocks on an empty channel\<close>
  "give_slot c m = (if mg_slots m c = 0 then None else Some (m\<lparr>mg_slots := (mg_slots m)(c := mg_slots m c - 1)\<rparr>))"

definition notifyFinish :: "nat \<Rightarrow> manager \<Rightarrow> manager" where
  "notifyFinish i m =
     (let e = mg_entries m ! i
      in if e_notified e then m
         else let m' = upd i (\<lambda>e. e\<lparr>e_notified := True\<rparr>) m
              in if e_hook e then m'\<lparr>mg_hooks := (i, e_job e) # mg_hooks m\<rparr> else m')"

datatype work_outcome = Returned work_result "work_error option" | Panicked string

definition call :: "work_outcome \<Rightarrow> work_result \<times> work_error option" where
  "call w =
     (case w of
        Returned r x \<Rightarrow> (r, x)
      | Panicked v \<Rightarrow> (NoResult, Some \<lparr>we_chain = [Opaque (''the job panicked: '' @ v)],
          we_text = ''the job panicked: '' @ v, we_code = []\<rparr>))"

text \<open>
  One step of a job's goroutine. The schedule decides which ready branch of the select is taken and
  what the work function does; \<open>seen\<close> is the value of \<open>ctx.Err()\<close> read just before the outcome is
  recorded, which a cancellation in between may have outdated.
\<close>

datatype choice = SlotFree | CtxDone | Returns work_outcome bool | Next

definition run :: "time \<Rightarrow> choice \<Rightarrow> nat \<Rightarrow> manager \<Rightarrow> manager option" where
  "run now ch i m =
     (let e = mg_entries m ! i; c = e_class e
      in case e_pc e of
        Waiting \<Rightarrow>
          (case ch of
             SlotFree \<Rightarrow> if slot_free c m then Some (goto i Acquired (take_slot c m)) else None
           | CtxDone \<Rightarrow> if e_ctxDone e then Some (goto i Quitting m) else None
           | _ \<Rightarrow> None)
      | Quitting \<Rightarrow> Some (goto i Quit (leaveQueue c m))
      | Quit \<Rightarrow> Some (upd i (\<lambda>e. (finishQueued now e)\<lparr>e_pc := Released\<rparr>) m)
      | Acquired \<Rightarrow> Some (goto i Holding (leaveQueue c m))
      | Holding \<Rightarrow> Some (goto i (if isClosed m then Barred else Starting) m)
      | Starting \<Rightarrow>
          (case start now e of
             None \<Rightarrow> Some (goto i Barred m)
           | Some e' \<Rightarrow> Some (upd i (\<lambda>_. e'\<lparr>e_pc := Running\<rparr>) m))
      | Barred \<Rightarrow> Some (upd i (\<lambda>e. (finishQueued now e)\<lparr>e_pc := Ending\<rparr>) m)
      | Running \<Rightarrow>
          (case ch of
             Returns w seen \<Rightarrow>
               if seen \<longrightarrow> e_ctxDone e
               then let (res, err) = call w
                    in Some (upd i (\<lambda>e. (finish_job now res err seen e)\<lparr>e_pc := Ending\<rparr>) m)
               else None
           | _ \<Rightarrow> None)
      | Ending \<Rightarrow> map_option (goto i Released) (give_slot c m)
      | Released \<Rightarrow> Some (upd i (\<lambda>e. e\<lparr>e_ctxDone := True, e_pc := Unwound\<rparr>) m)
      | Unwound \<Rightarrow> Some (goto i Notified (notifyFinish i m))
      | Notified \<Rightarrow> Some (goto i Gone m)
      | Gone \<Rightarrow> None)"

definition Admit_slot :: "jclass \<Rightarrow> manager \<Rightarrow> manager option" where
  \<comment> \<open>None while it waits; a caller whose context ends first gives up and changes nothing\<close>
  "Admit_slot c m = (if slot_free c m then Some ((take_slot c m)\<lparr>mg_guests := mg_guests m @ [(c, True)]\<rparr>) else None)"

definition release :: "nat \<Rightarrow> manager \<Rightarrow> manager option" where
  \<comment> \<open>the function Admit returned for guest g; its \<open>once\<close> makes a second call do nothing\<close>
  "release g m =
     (case mg_guests m ! g of
        (c, False) \<Rightarrow> Some m
      | (c, True) \<Rightarrow> map_option (\<lambda>m. m\<lparr>mg_guests := (mg_guests m)[g := (c, False)]\<rparr>) (give_slot c m))"

definition Get :: "string \<Rightarrow> manager \<Rightarrow> job option" where
  "Get i m = map_option (\<lambda>n. e_job (mg_entries m ! n)) (tget (mg_jobs m) i)"

definition List :: "manager \<Rightarrow> job list" where
  "List m = map (\<lambda>n. e_job (mg_entries m ! n)) (rev (sort (map snd (mg_jobs m))))"

definition Cancel :: "string \<Rightarrow> manager \<Rightarrow> bool \<times> manager" where
  "Cancel i m =
     (case tget (mg_jobs m) i of
        None \<Rightarrow> (False, m)
      | Some n \<Rightarrow> (fst (requestCancel (mg_entries m ! n)), upd n (snd \<circ> requestCancel) m))"

definition ReplaceResult :: "string \<Rightarrow> work_result \<Rightarrow> manager \<Rightarrow> (nat \<times> bool) \<times> manager" where
  "ReplaceResult i res m =
     (case tget (mg_jobs m) i of
        None \<Rightarrow> ((0, False), m)
      | Some n \<Rightarrow>
          let j = e_job (mg_entries m ! n); put = (\<lambda>b. upd n (\<lambda>e. e\<lparr>e_job := (e_job e)\<lparr>j_Result := b\<rparr>\<rparr>) m)
          in if \<not> Terminal (j_State j) then ((length (j_Result j), False), m)
             else case res of
               NoResult \<Rightarrow> ((0, True), put [])
             | Unmarshallable why \<Rightarrow> ((length (j_Result j), False), m)
             | Marshalled b \<Rightarrow> ((length b, True), put b))"

text \<open>
  The sweep. \<open>late\<close> are the jobs that ended only after the sweep had looked at them; the others it sees
  as they are. \<open>when_finished\<close> reads the finish time every ended job has.
\<close>

definition when_finished :: "jentry \<Rightarrow> time" where
  "when_finished e = (case j_FinishedAt (e_job e) of None \<Rightarrow> 0 | Some t \<Rightarrow> t)"

definition reap_done :: "nat list \<Rightarrow> manager \<Rightarrow> nat list" where
  "reap_done late m =
     sort_key (\<lambda>n. (- when_finished (mg_entries m ! n), - int n))
       (filter (\<lambda>n. Terminal (j_State (e_job (mg_entries m ! n))) \<and> n \<notin> set late) (map snd (mg_jobs m)))"

definition reap_doomed :: "time \<Rightarrow> nat list \<Rightarrow> manager \<Rightarrow> nat list" where
  "reap_doomed now late m =
     filter (\<lambda>n. \<not> now - RetainMinutes (mg_limits m) * 60 * 10 ^ 9 < when_finished (mg_entries m ! n))
       (drop (nat (RetainCount (mg_limits m))) (reap_done late m))"

definition Reap :: "time \<Rightarrow> nat list \<Rightarrow> manager \<Rightarrow> manager" where
  "Reap now late m = m\<lparr>mg_jobs := tkeep (\<lambda>n. n \<notin> set (reap_doomed now late m)) (mg_jobs m)\<rparr>"

text \<open>
  Close in its steps: the flag and the list under the manager's lock, then one cancellation after the
  other in the map's order, whatever it is, then waiting until every goroutine is gone.
\<close>

definition Close_begin :: "manager \<Rightarrow> manager" where
  "Close_begin m = m\<lparr>mg_closed := True, mg_closing := mg_closing m @ map snd (mg_jobs m)\<rparr>"

definition Close_cancel :: "nat \<Rightarrow> manager \<Rightarrow> manager option" where
  "Close_cancel n m =
     (if n \<in> set (mg_closing m)
      then Some ((upd n (snd \<circ> requestCancel) m)\<lparr>mg_closing := remove1 n (mg_closing m)\<rparr>) else None)"

definition Close_done :: "manager \<Rightarrow> bool" where
  "Close_done m \<longleftrightarrow> list_all (\<lambda>e. e_pc e = Gone) (mg_entries m)"

text \<open>What the work function, or a goroutine it left behind, reports through its handle.\<close>

datatype report =
    RSet int int int int | RCurrent string | RPhase string | RWarn string string string

definition Step :: "jentry \<Rightarrow> error option" where
  "Step e = (if e_ctxDone e then Some [CtxCanceled] else None)"

definition apply_report :: "(rat \<Rightarrow> rat) \<Rightarrow> (rat \<Rightarrow> rat) \<Rightarrow> time \<Rightarrow> report \<Rightarrow> jentry \<Rightarrow> jentry" where
  "apply_report rnd decay now r =
     (case r of
        RSet f ft b bt \<Rightarrow> Set_counts rnd decay now f ft b bt
      | RCurrent p \<Rightarrow> Current now p
      | RPhase p \<Rightarrow> Phase now p
      | RWarn p c s \<Rightarrow> Warn now p c s)"

text \<open>Everything that can happen to a manager, one lock region at a time; what is not enabled changes nothing.\<close>

datatype event =
    Submits time string string meta bool "bytes option"
  | Runs time choice nat
  | Reports time report nat
  | Cancels string
  | Replaces string work_result
  | Reaps time "nat list"
  | Admits jclass
  | GivesBack nat
  | Closes
  | CloseCancels nat

definition attempt :: "manager \<Rightarrow> manager option \<Rightarrow> manager" where
  "attempt m r = (case r of None \<Rightarrow> m | Some m' \<Rightarrow> m')"

definition exec :: "(rat \<Rightarrow> rat) \<Rightarrow> (rat \<Rightarrow> rat) \<Rightarrow> manager \<Rightarrow> event \<Rightarrow> manager" where
  "exec rnd decay m ev =
     (case ev of
        Submits now kind title meta hasFn r \<Rightarrow>
          \<comment> \<open>the random source fills eight bytes or fails\<close>
          if r = None \<or> length (the r) = 8 then snd (Submit now kind title meta hasFn r m) else m
      | Runs now ch i \<Rightarrow> if i < length (mg_entries m) then attempt m (run now ch i m) else m
      | Reports now r i \<Rightarrow>
          if i < length (mg_entries m) \<and> e_runStart (mg_entries m ! i) \<noteq> None
          then upd i (apply_report rnd decay now r) m else m
      | Cancels i \<Rightarrow> snd (Cancel i m)
      | Replaces i res \<Rightarrow> snd (ReplaceResult i res m)
      | Reaps now late \<Rightarrow> Reap now late m
      | Admits c \<Rightarrow> attempt m (Admit_slot c m)
      | GivesBack g \<Rightarrow> if g < length (mg_guests m) then attempt m (release g m) else m
      | Closes \<Rightarrow> Close_begin m
      | CloseCancels n \<Rightarrow> attempt m (Close_cancel n m))"


subsection \<open>The invariant\<close>

definition inQueue :: "pc \<Rightarrow> bool" where
  "inQueue p \<longleftrightarrow> p = Waiting \<or> p = Acquired \<or> p = Quitting"

definition holdsSlot :: "pc \<Rightarrow> bool" where
  "holdsSlot p \<longleftrightarrow> p = Acquired \<or> p = Holding \<or> p = Starting \<or> p = Barred \<or> p = Running \<or> p = Ending"

definition unstarted :: "pc \<Rightarrow> bool" where
  "unstarted p \<longleftrightarrow> inQueue p \<or> p = Holding \<or> p = Starting \<or> p = Barred \<or> p = Quit"

definition told :: "pc \<Rightarrow> bool" where
  "told p \<longleftrightarrow> p = Notified \<or> p = Gone"

text \<open>What the job's record says at each point of its goroutine.\<close>

definition phase_ok :: "jentry \<Rightarrow> bool" where
  "phase_ok e \<longleftrightarrow>
     (if unstarted (e_pc e) then j_State (e_job e) = StateQueued \<and> e_runStart e = None
      else if e_pc e = Running then j_State (e_job e) = StateRunning \<and> e_runStart e \<noteq> None
      else Terminal (j_State (e_job e)))
   \<and> (Terminal (j_State (e_job e)) \<longleftrightarrow> j_FinishedAt (e_job e) \<noteq> None)
   \<and> (e_notified e \<longleftrightarrow> told (e_pc e))"

text \<open>What the outcome says of the work.\<close>

definition honest :: "jentry \<Rightarrow> bool" where
  "honest e \<longleftrightarrow>
     (e_runStart e = None \<longrightarrow>
        j_Files (e_job e) = 0 \<and> j_Bytes (e_job e) = 0 \<and> \<not> j_Partial (e_job e) \<and> j_Err (e_job e) = []
      \<and> j_State (e_job e) \<in> {StateQueued, StateCancelled})
   \<and> (e_runStart e \<noteq> None \<and> j_State (e_job e) = StateCancelled \<longrightarrow> j_Partial (e_job e))
   \<and> (j_State (e_job e) = StateDone \<longrightarrow> \<not> j_Partial (e_job e) \<and> j_Err (e_job e) = [])
   \<and> (\<not> Terminal (j_State (e_job e)) \<longrightarrow> \<not> j_Partial (e_job e) \<and> j_Err (e_job e) = [])
   \<and> (e_cancelRequested e \<longrightarrow> j_State (e_job e) \<noteq> StateFailed)"

definition job_bounds :: "job \<Rightarrow> bool" where
  "job_bounds j \<longleftrightarrow> ValidID (j_ID j) \<and> length (j_Warnings j) = min (j_WarningCount j) WarnCap
     \<and> -1 \<le> j_ETA j \<and> j_ETA j \<le> maxETA"

definition entry_ok :: "jentry \<Rightarrow> bool" where
  "entry_ok e \<longleftrightarrow> phase_ok e \<and> honest e \<and> job_bounds (e_job e)"

text \<open>Counters: the queue counter and the semaphore are what the goroutines' positions say.\<close>

definition head_count :: "(pc \<Rightarrow> bool) \<Rightarrow> jclass \<Rightarrow> jentry list \<Rightarrow> nat" where
  "head_count P c es = length (filter (\<lambda>e. P (e_pc e) \<and> e_class e = c) es)"

definition open_guests :: "jclass \<Rightarrow> (jclass \<times> bool) list \<Rightarrow> nat" where
  "open_guests c gs = length (filter (\<lambda>g. g = (c, True)) gs)"

definition counts_ok :: "manager \<Rightarrow> bool" where
  "counts_ok m \<longleftrightarrow> (\<forall>c.
     mg_queued m c = head_count inQueue c (mg_entries m)
   \<and> mg_slots m c = head_count holdsSlot c (mg_entries m) + open_guests c (mg_guests m)
   \<and> int (mg_queued m c) \<le> QueueDepth (mg_limits m)
   \<and> int (mg_slots m c) \<le> class_cap (mg_limits m) c)"

text \<open>The map of live and retained jobs, and the list Close works through.\<close>

definition index_ok :: "manager \<Rightarrow> bool" where
  "index_ok m \<longleftrightarrow> table_ok (mg_jobs m)
   \<and> (\<forall>i n. tget (mg_jobs m) i = Some n \<longrightarrow> n < length (mg_entries m) \<and> j_ID (e_job (mg_entries m ! n)) = i)
   \<and> (\<forall>n < length (mg_entries m). \<not> Terminal (j_State (e_job (mg_entries m ! n))) \<longrightarrow>
        tget (mg_jobs m) (j_ID (e_job (mg_entries m ! n))) = Some n)
   \<and> list_all (\<lambda>n. n < length (mg_entries m)) (mg_closing m)"

text \<open>The completion hooks: one per notified job that has one, with the job's final state.\<close>

definition hooks_ok :: "manager \<Rightarrow> bool" where
  "hooks_ok m \<longleftrightarrow> distinct (map fst (mg_hooks m))
   \<and> (\<forall>n j. (n, j) \<in> set (mg_hooks m) \<longrightarrow>
        n < length (mg_entries m) \<and> e_notified (mg_entries m ! n) \<and> e_hook (mg_entries m ! n)
      \<and> Terminal (j_State j) \<and> j_State j = j_State (e_job (mg_entries m ! n)))
   \<and> (\<forall>n < length (mg_entries m). e_notified (mg_entries m ! n) \<and> e_hook (mg_entries m ! n) \<longrightarrow>
        n \<in> fst ` set (mg_hooks m))"

definition jobs_ok :: "manager \<Rightarrow> bool" where
  "jobs_ok m \<longleftrightarrow> list_all entry_ok (mg_entries m) \<and> counts_ok m \<and> index_ok m \<and> hooks_ok m"

lemmas entry_defs = entry_ok_def phase_ok_def honest_def job_bounds_def

lemma upd_simps [simp]:
  "mg_entries (upd i f m) = (mg_entries m)[i := f (mg_entries m ! i)]"
  "mg_jobs (upd i f m) = mg_jobs m" "mg_queued (upd i f m) = mg_queued m" "mg_slots (upd i f m) = mg_slots m"
  "mg_guests (upd i f m) = mg_guests m" "mg_closing (upd i f m) = mg_closing m" "mg_hooks (upd i f m) = mg_hooks m"
  "mg_limits (upd i f m) = mg_limits m" "mg_closed (upd i f m) = mg_closed m"
  by (simp_all add: upd_def)

lemma leaveQueue_simps [simp]:
  "mg_entries (leaveQueue c m) = mg_entries m" "mg_jobs (leaveQueue c m) = mg_jobs m"
  "mg_slots (leaveQueue c m) = mg_slots m" "mg_guests (leaveQueue c m) = mg_guests m"
  "mg_closing (leaveQueue c m) = mg_closing m" "mg_hooks (leaveQueue c m) = mg_hooks m"
  "mg_limits (leaveQueue c m) = mg_limits m" "mg_closed (leaveQueue c m) = mg_closed m"
  "mg_queued (leaveQueue c m) = (mg_queued m)(c := mg_queued m c - 1)"
  by (auto simp: leaveQueue_def)

lemma take_slot_simps [simp]:
  "mg_entries (take_slot c m) = mg_entries m" "mg_jobs (take_slot c m) = mg_jobs m"
  "mg_queued (take_slot c m) = mg_queued m" "mg_guests (take_slot c m) = mg_guests m"
  "mg_closing (take_slot c m) = mg_closing m" "mg_hooks (take_slot c m) = mg_hooks m"
  "mg_limits (take_slot c m) = mg_limits m" "mg_closed (take_slot c m) = mg_closed m"
  "mg_slots (take_slot c m) = (mg_slots m)(c := Suc (mg_slots m c))"
  by (auto simp: take_slot_def)

lemma give_slot_Some:
  "give_slot c m = Some m' \<longleftrightarrow> mg_slots m c \<noteq> 0 \<and> m' = m\<lparr>mg_slots := (mg_slots m)(c := mg_slots m c - 1)\<rparr>"
  by (auto simp: give_slot_def)

lemma goto_simps [simp]:
  "mg_entries (goto i p m) = (mg_entries m)[i := (mg_entries m ! i)\<lparr>e_pc := p\<rparr>]"
  "mg_jobs (goto i p m) = mg_jobs m" "mg_queued (goto i p m) = mg_queued m" "mg_slots (goto i p m) = mg_slots m"
  "mg_guests (goto i p m) = mg_guests m" "mg_closing (goto i p m) = mg_closing m" "mg_hooks (goto i p m) = mg_hooks m"
  "mg_limits (goto i p m) = mg_limits m" "mg_closed (goto i p m) = mg_closed m"
  by (simp_all add: goto_def)

lemma tally_update:
  assumes "i < length es" and "e_class y = e_class (es ! i)"
  shows "head_count P c (es[i := y]) + of_bool (P (e_pc (es ! i)) \<and> e_class (es ! i) = c)
    = head_count P c es + of_bool (P (e_pc y) \<and> e_class (es ! i) = c)"
  using filter_length_update [OF assms(1), of "\<lambda>e. P (e_pc e) \<and> e_class e = c" y] assms(2)
  by (simp add: head_count_def)

lemma tally_pos: "i < length es \<Longrightarrow> P (e_pc (es ! i)) \<Longrightarrow> 0 < head_count P (e_class (es ! i)) es"
  using tally_update [of i es "(es ! i)\<lparr>e_pc := e_pc (es ! i)\<rparr>" P "e_class (es ! i)"]
  by (auto simp: head_count_def length_greater_0_conv [symmetric] simp del: length_greater_0_conv
      intro!: length_pos_if_in_set nth_mem)

text \<open>Replacing one entry by one of the same job: the invariant survives when its parts do.\<close>

lemma index_ok_put:
  assumes "index_ok m" "i < length (mg_entries m)" and "mg_entries m' = (mg_entries m)[i := y]"
    and "j_ID (e_job y) = j_ID (e_job (mg_entries m ! i))"
    and "Terminal (j_State (e_job (mg_entries m ! i))) \<longrightarrow> Terminal (j_State (e_job y))"
    and "mg_jobs m' = mg_jobs m" "set (mg_closing m') \<subseteq> set (mg_closing m)"
  shows "index_ok m'"
  using assms unfolding index_ok_def list_all_iff
  by (auto simp: nth_list_update subset_iff split: if_splits)

lemma hooks_ok_put:
  assumes "hooks_ok m" "i < length (mg_entries m)" and "mg_entries m' = (mg_entries m)[i := y]"
    and "e_hook y = e_hook (mg_entries m ! i)" "e_notified y = e_notified (mg_entries m ! i)"
    and "e_notified y \<longrightarrow> j_State (e_job y) = j_State (e_job (mg_entries m ! i))"
    and "mg_hooks m' = mg_hooks m"
  shows "hooks_ok m'"
proof -
  have l: "length (mg_entries m') = length (mg_entries m)"
    and e: "e_hook (mg_entries m' ! n) = e_hook (mg_entries m ! n)"
    "e_notified (mg_entries m' ! n) = e_notified (mg_entries m ! n)"
    "e_notified (mg_entries m ! n) \<Longrightarrow>
      j_State (e_job (mg_entries m' ! n)) = j_State (e_job (mg_entries m ! n))" for n
    using assms by (auto simp: nth_list_update)
  show ?thesis
    using assms(1) unfolding hooks_ok_def l e(1,2) assms(7) by (metis e(3))
qed

lemma entries_ok_put:
  assumes "list_all entry_ok (mg_entries m)" and "mg_entries m' = (mg_entries m)[i := y]" and "entry_ok y"
  shows "list_all entry_ok (mg_entries m')"
  using assms by (auto simp: list_all_iff dest: set_update_subset_insert [THEN subsetD])

text \<open>A change that moves no counter and keeps every position.\<close>

lemma counts_ok_same:
  assumes "counts_ok m" "i < length (mg_entries m)" and "mg_entries m' = (mg_entries m)[i := y]"
    and "e_class y = e_class (mg_entries m ! i)"
    and "inQueue (e_pc y) = inQueue (e_pc (mg_entries m ! i))"
    and "holdsSlot (e_pc y) = holdsSlot (e_pc (mg_entries m ! i))"
    and "mg_queued m' = mg_queued m" "mg_slots m' = mg_slots m" "mg_guests m' = mg_guests m" "mg_limits m' = mg_limits m"
  shows "counts_ok m'"
proof -
  have t: "head_count inQueue c (mg_entries m') = head_count inQueue c (mg_entries m)"
    "head_count holdsSlot c (mg_entries m') = head_count holdsSlot c (mg_entries m)" for c
    using tally_update [OF assms(2) assms(4), of inQueue c] tally_update [OF assms(2) assms(4), of holdsSlot c]
      assms(3,5,6) by simp_all
  show ?thesis using assms(1) unfolding counts_ok_def t assms(7-10) .
qed

lemma counts_ok_move:
  assumes "counts_ok m" "i < length (mg_entries m)" and "mg_entries m' = (mg_entries m)[i := y]"
    and "e_class y = e_class (mg_entries m ! i)"
    and "mg_queued m' = (mg_queued m)(e_class y := q)"
    and q: "q + of_bool (inQueue (e_pc (mg_entries m ! i))) = mg_queued m (e_class y) + of_bool (inQueue (e_pc y))"
    and "mg_slots m' = (mg_slots m)(e_class y := s)"
    and s: "s + of_bool (holdsSlot (e_pc (mg_entries m ! i))) = mg_slots m (e_class y) + of_bool (holdsSlot (e_pc y))"
    and "q \<le> mg_queued m (e_class y)" "int s \<le> class_cap (mg_limits m) (e_class y)"
    and "mg_guests m' = mg_guests m" "mg_limits m' = mg_limits m"
  shows "counts_ok m'"
  unfolding counts_ok_def
proof (rule allI)
  fix c
  note ok = assms(1) [unfolded counts_ok_def, THEN spec, of c]
  note t = tally_update [OF assms(2) assms(4), of inQueue c] tally_update [OF assms(2) assms(4), of holdsSlot c]
  show "mg_queued m' c = head_count inQueue c (mg_entries m')
     \<and> mg_slots m' c = head_count holdsSlot c (mg_entries m') + open_guests c (mg_guests m')
     \<and> int (mg_queued m' c) \<le> QueueDepth (mg_limits m')
     \<and> int (mg_slots m' c) \<le> class_cap (mg_limits m') c"
  proof (cases "e_class (mg_entries m ! i) = c")
    case True
    have "mg_queued m' c = q" "mg_slots m' c = s" "e_class y = c"
      using True assms(4,5,7) by simp_all
    then show ?thesis using ok t q s True assms(3,9-12) by simp
  next
    case False
    have "mg_queued m' c = mg_queued m c" "mg_slots m' c = mg_slots m c"
      using False assms(4,5,7) by simp_all
    then show ?thesis using ok t False assms(3,11,12) by simp
  qed
qed

subsubsection \<open>Entries\<close>

lemmas pc_sets = inQueue_def holdsSlot_def unstarted_def told_def

lemma pc_disjoint: "unstarted p \<Longrightarrow> \<not> told p \<and> p \<noteq> Running"
  by (auto simp: pc_sets)

lemma Terminal_simps [simp]:
  "\<not> Terminal StateQueued" "\<not> Terminal StateRunning" "Terminal StateDone" "Terminal StateFailed" "Terminal StateCancelled"
  by (simp_all add: Terminal_def)

lemma unstarted_facts:
  assumes "entry_ok e" "unstarted (e_pc e)"
  shows "j_State (e_job e) = StateQueued" "e_runStart e = None" "j_FinishedAt (e_job e) = None" "\<not> e_notified e"
    "j_Files (e_job e) = 0" "j_Bytes (e_job e) = 0" "\<not> j_Partial (e_job e)" "j_Err (e_job e) = []"
    "job_bounds (e_job e)" "\<not> told (e_pc e)"
  using assms pc_disjoint [OF assms(2)] unfolding entry_ok_def phase_ok_def honest_def by auto

lemma running_facts:
  assumes "entry_ok e" "e_pc e = Running"
  shows "j_State (e_job e) = StateRunning" "e_runStart e \<noteq> None" "j_FinishedAt (e_job e) = None" "\<not> e_notified e"
    "\<not> j_Partial (e_job e)" "j_Err (e_job e) = []" "job_bounds (e_job e)"
  using assms unfolding entry_ok_def phase_ok_def honest_def by (auto simp: pc_sets)

lemma finished_facts:
  assumes "entry_ok e" "\<not> unstarted (e_pc e)" "e_pc e \<noteq> Running"
  shows "Terminal (j_State (e_job e))" "j_FinishedAt (e_job e) \<noteq> None" "e_notified e = told (e_pc e)" "honest e"
    "job_bounds (e_job e)"
  using assms unfolding entry_ok_def phase_ok_def by auto

lemma entry_ok_goto_unstarted:
  assumes "entry_ok e" "unstarted (e_pc e)" "unstarted p"
  shows "entry_ok (e\<lparr>e_pc := p\<rparr>)"
  using unstarted_facts [OF assms(1,2)] assms(3) pc_disjoint [OF assms(3)]
  by (simp add: entry_ok_def phase_ok_def honest_def)

lemma entry_ok_terminal_goto:
  assumes "entry_ok e" "Terminal (j_State (e_job e))" "p \<noteq> Running" "\<not> unstarted p"
  shows "entry_ok (e\<lparr>e_pc := p, e_notified := told p\<rparr>)"
  using assms by (simp add: entry_defs)

lemma recordResult_simps [simp]:
  "j_State (recordResult r j) = j_State j" "j_ID (recordResult r j) = j_ID j"
  "j_Partial (recordResult r j) = j_Partial j" "j_Err (recordResult r j) = j_Err j"
  "j_FinishedAt (recordResult r j) = j_FinishedAt j" "j_ETA (recordResult r j) = j_ETA j"
  "j_Files (recordResult r j) = j_Files j" "j_Bytes (recordResult r j) = j_Bytes j"
  "j_Note (recordResult r j) = j_Note j" "j_ErrCode (recordResult r j) = j_ErrCode j"
  by (simp_all add: recordResult_def add_warning_def split: work_result.split)

lemma add_warning_bounds: "job_bounds j \<Longrightarrow> job_bounds (add_warning s j)"
  by (auto simp: job_bounds_def add_warning_def min_def)

lemma job_bounds_more:
  "job_bounds j \<Longrightarrow> j_ID j' = j_ID j \<Longrightarrow> j_Warnings j' = j_Warnings j \<Longrightarrow> j_WarningCount j' = j_WarningCount j \<Longrightarrow>
   -1 \<le> j_ETA j' \<Longrightarrow> j_ETA j' \<le> maxETA \<Longrightarrow> job_bounds j'"
  by (simp add: job_bounds_def)

lemma recordResult_bounds: "job_bounds j \<Longrightarrow> job_bounds (recordResult r j)"
  by (auto simp: recordResult_def add_warning_bounds split: work_result.split elim: job_bounds_more intro: job_bounds_more)
    (auto simp: job_bounds_def)

lemma maxETA_nonneg: "0 \<le> maxETA"
  by (simp add: maxETA_def)

lemma entry_ok_start:
  assumes "entry_ok e" "e_pc e = Starting" "start now e = Some e'"
  shows "entry_ok (e'\<lparr>e_pc := Running\<rparr>)"
proof -
  have e': "\<not> e_cancelRequested e" "e' = e\<lparr>e_job := (e_job e)\<lparr>j_State := StateRunning, j_StartedAt := now, j_UpdatedAt := now\<rparr>,
      e_runStart := Some now\<rparr>"
    using assms(3) by (simp_all add: start_def split: if_splits)
  have u: "unstarted (e_pc e)" "\<not> unstarted Running" "\<not> told Running" using assms(2) by (simp_all add: pc_sets)
  show ?thesis using unstarted_facts [OF assms(1) u(1)] u(2,3) unfolding e' entry_ok_def phase_ok_def honest_def job_bounds_def
    by simp
qed

lemma entry_ok_finishQueued:
  assumes "entry_ok e" "unstarted (e_pc e)" "p \<noteq> Running" "\<not> unstarted p" "\<not> told p"
  shows "entry_ok ((finishQueued now e)\<lparr>e_pc := p\<rparr>)"
proof -
  note f = unstarted_facts [OF assms(1,2)]
  show ?thesis using f assms(3-) by (simp add: finishQueued_def entry_ok_def phase_ok_def honest_def job_bounds_def)
qed

lemma finish_simps [simp]:
  "e_class (finish_job now r x seen e) = e_class e" "e_pc (finish_job now r x seen e) = e_pc e"
  "e_hook (finish_job now r x seen e) = e_hook e" "e_notified (finish_job now r x seen e) = e_notified e"
  "e_runStart (finish_job now r x seen e) = e_runStart e" "e_cancelRequested (finish_job now r x seen e) = e_cancelRequested e"
  "j_ID (e_job (finish_job now r x seen e)) = j_ID (e_job e)"
  "e_ctxDone (finish_job now r x seen e) = e_ctxDone e"
  by (auto simp: finish_job_def Let_def split: option.split)

lemma finish_state:
  "j_State (e_job (finish_job now r x seen e)) =
     (case x of None \<Rightarrow> StateDone
      | Some w \<Rightarrow> if e_cancelRequested e \<or> errors_is (we_chain w) CtxCanceled \<or> seen then StateCancelled else StateFailed)"
  by (simp add: finish_job_def Let_def split: option.split)

lemma finish_terminal [simp]: "Terminal (j_State (e_job (finish_job now r x seen e)))"
  by (simp add: finish_state Terminal_def split: option.split)

lemma finish_bounds:
  assumes "job_bounds (e_job e)"
  shows "job_bounds (e_job (finish_job now r x seen e))"
proof -
  have *: "job_bounds j'" if "j_ID j' = j_ID (e_job e)" "j_Warnings j' = j_Warnings (e_job e)"
    "j_WarningCount j' = j_WarningCount (e_job e)" "j_ETA j' = -1 \<or> j_ETA j' = 0" for j'
    using job_bounds_more [OF assms that(1-3)] that(4) maxETA_nonneg by auto
  show ?thesis
    unfolding finish_job_def Let_def
    by (auto split: option.split intro!: recordResult_bounds *)
qed

lemma entry_ok_finish:
  assumes "entry_ok e" "e_pc e = Running"
  shows "entry_ok ((finish_job now r x seen e)\<lparr>e_pc := Ending\<rparr>)"
proof -
  have "honest (finish_job now r x seen e)"
    using assms unfolding entry_defs
    by (auto simp: finish_job_def Let_def Terminal_def pc_sets split: option.split)
  then have "honest ((finish_job now r x seen e)\<lparr>e_pc := Ending\<rparr>)" by (simp add: honest_def)
  moreover have "j_FinishedAt (e_job (finish_job now r x seen e)) \<noteq> None"
    by (auto simp: finish_job_def Let_def split: option.split)
  moreover have "\<not> e_notified e" using assms by (simp add: entry_ok_def phase_ok_def told_def)
  ultimately show ?thesis
    using assms finish_bounds [of e now r x seen] by (simp add: entry_ok_def phase_ok_def pc_sets)
qed

lemma clampETA_bounds: "-1 \<le> clampETA q \<and> clampETA q \<le> maxETA"
proof -
  have "-1 \<le> \<lceil>q\<rceil>" if "\<not> q < 0" using that by linarith
  then show ?thesis using maxETA_nonneg by (auto simp: clampETA_def Let_def)
qed

lemma etaLocked_simps [simp]:
  "e_class (etaLocked rnd now e) = e_class e" "e_pc (etaLocked rnd now e) = e_pc e"
  "e_hook (etaLocked rnd now e) = e_hook e" "e_notified (etaLocked rnd now e) = e_notified e"
  "e_runStart (etaLocked rnd now e) = e_runStart e" "e_cancelRequested (etaLocked rnd now e) = e_cancelRequested e"
  "e_ctxDone (etaLocked rnd now e) = e_ctxDone e"
  by (simp_all add: etaLocked_def Let_def)

lemma etaLocked_job: "\<exists>v. e_job (etaLocked rnd now e) = (e_job e)\<lparr>j_ETA := v\<rparr> \<and> -1 \<le> v \<and> v \<le> maxETA"
proof -
  have "e_job (etaLocked rnd now e) = (e_job e)\<lparr>j_ETA := j_ETA (e_job (etaLocked rnd now e))\<rparr>"
    by (simp add: etaLocked_def Let_def)
  moreover have "-1 \<le> j_ETA (e_job (etaLocked rnd now e)) \<and> j_ETA (e_job (etaLocked rnd now e)) \<le> maxETA"
    using clampETA_bounds maxETA_nonneg by (simp add: etaLocked_def Let_def)
  ultimately show ?thesis by blast
qed

lemma sampleLocked_simps [simp]:
  "e_class (sampleLocked rnd decay now b e) = e_class e" "e_pc (sampleLocked rnd decay now b e) = e_pc e"
  "e_hook (sampleLocked rnd decay now b e) = e_hook e" "e_notified (sampleLocked rnd decay now b e) = e_notified e"
  "e_runStart (sampleLocked rnd decay now b e) = e_runStart e"
  "e_cancelRequested (sampleLocked rnd decay now b e) = e_cancelRequested e"
  "e_ctxDone (sampleLocked rnd decay now b e) = e_ctxDone e"
  by (simp_all add: sampleLocked_def Let_def split: option.split)

lemma sampleLocked_job:
  "e_job (sampleLocked rnd decay now b e) = (e_job e)\<lparr>j_Rate := j_Rate (e_job (sampleLocked rnd decay now b e))\<rparr>"
  by (simp add: sampleLocked_def Let_def split: option.split)

lemma report_simps [simp]:
  "e_class (apply_report rnd decay now r e) = e_class e" "e_pc (apply_report rnd decay now r e) = e_pc e"
  "e_hook (apply_report rnd decay now r e) = e_hook e" "e_notified (apply_report rnd decay now r e) = e_notified e"
  "e_runStart (apply_report rnd decay now r e) = e_runStart e"
  "e_cancelRequested (apply_report rnd decay now r e) = e_cancelRequested e"
  "e_ctxDone (apply_report rnd decay now r e) = e_ctxDone e"
  by (simp_all add: apply_report_def Set_counts_def Current_def Phase_def Warn_def split: report.split)

lemma report_job:
  "j_ID (e_job (apply_report rnd decay now r e)) = j_ID (e_job e)
   \<and> j_State (e_job (apply_report rnd decay now r e)) = j_State (e_job e)
   \<and> j_Partial (e_job (apply_report rnd decay now r e)) = j_Partial (e_job e)
   \<and> j_Err (e_job (apply_report rnd decay now r e)) = j_Err (e_job e)
   \<and> j_FinishedAt (e_job (apply_report rnd decay now r e)) = j_FinishedAt (e_job e)
   \<and> (job_bounds (e_job e) \<longrightarrow> job_bounds (e_job (apply_report rnd decay now r e)))"
proof (cases r)
  case (RSet f ft b bt)
  let ?e = "e\<lparr>e_job := (e_job e)\<lparr>j_Files := f, j_FilesTotal := ft, j_Bytes := b, j_BytesTotal := bt, j_UpdatedAt := now\<rparr>\<rparr>"
  obtain v where v: "e_job (sampleLocked rnd decay now b ?e) = (e_job ?e)\<lparr>j_Rate := v\<rparr>"
    using sampleLocked_job by blast
  obtain w where w: "e_job (etaLocked rnd now (sampleLocked rnd decay now b ?e))
      = (e_job (sampleLocked rnd decay now b ?e))\<lparr>j_ETA := w\<rparr>" "-1 \<le> w" "w \<le> maxETA"
    using etaLocked_job by blast
  show ?thesis by (simp add: apply_report_def RSet Set_counts_def v w job_bounds_def)
qed (auto simp: apply_report_def Current_def Phase_def Warn_def job_bounds_def add_warning_def)

lemma entry_ok_report:
  "entry_ok e \<Longrightarrow> e_runStart e \<noteq> None \<Longrightarrow> entry_ok (apply_report rnd decay now r e)"
  using report_job [of rnd decay now r e] unfolding entry_ok_def phase_ok_def honest_def report_simps
  by (cases "e_runStart e") metis+

lemma requestCancel_simps [simp]:
  "e_class (snd (requestCancel e)) = e_class e" "e_pc (snd (requestCancel e)) = e_pc e"
  "e_hook (snd (requestCancel e)) = e_hook e" "e_notified (snd (requestCancel e)) = e_notified e"
  "e_runStart (snd (requestCancel e)) = e_runStart e" "e_job (snd (requestCancel e)) = e_job e"
  by (simp_all add: requestCancel_def)

lemma entry_ok_requestCancel: "entry_ok e \<Longrightarrow> entry_ok (snd (requestCancel e))"
proof (cases "Terminal (j_State (e_job e))")
  case False
  then have s: "j_State (e_job e) \<noteq> StateFailed" by auto
  assume "entry_ok e"
  then show ?thesis using False s unfolding entry_ok_def phase_ok_def honest_def requestCancel_def
    by (cases "unstarted (e_pc e)"; cases "e_pc e = Running") simp_all
qed (simp add: requestCancel_def)

subsubsection \<open>Every operation keeps the invariant\<close>

lemma jobs_ok_parts:
  assumes "jobs_ok m"
  shows "list_all entry_ok (mg_entries m)" "counts_ok m" "index_ok m" "hooks_ok m"
  using assms by (simp_all add: jobs_ok_def)

lemma entry_ok_nth: "jobs_ok m \<Longrightarrow> i < length (mg_entries m) \<Longrightarrow> entry_ok (mg_entries m ! i)"
  by (simp add: jobs_ok_def list_all_length)

text \<open>The new entry of a step that only touches one, in the terms the invariant asks about.\<close>

definition same_job :: "jentry \<Rightarrow> jentry \<Rightarrow> bool" where
  "same_job e y \<longleftrightarrow> e_class y = e_class e \<and> e_hook y = e_hook e \<and> j_ID (e_job y) = j_ID (e_job e)
     \<and> (Terminal (j_State (e_job e)) \<longrightarrow> j_State (e_job y) = j_State (e_job e))"

lemma jobs_ok_put:
  assumes ok: "jobs_ok m" and i: "i < length (mg_entries m)" and es: "mg_entries m' = (mg_entries m)[i := y]"
    and y: "entry_ok y" "same_job (mg_entries m ! i) y" "e_notified y = e_notified (mg_entries m ! i)"
    and "counts_ok m'"
    and same: "mg_jobs m' = mg_jobs m" "set (mg_closing m') \<subseteq> set (mg_closing m)" "mg_hooks m' = mg_hooks m"
  shows "jobs_ok m'"
proof -
  note parts = jobs_ok_parts [OF ok]
  have j: "j_ID (e_job y) = j_ID (e_job (mg_entries m ! i))" "e_hook y = e_hook (mg_entries m ! i)"
    "Terminal (j_State (e_job (mg_entries m ! i))) \<longrightarrow> Terminal (j_State (e_job y))"
    "Terminal (j_State (e_job (mg_entries m ! i))) \<longrightarrow> j_State (e_job y) = j_State (e_job (mg_entries m ! i))"
    using y(2) by (auto simp: same_job_def)
  have "e_notified y \<longrightarrow> Terminal (j_State (e_job (mg_entries m ! i)))"
    using entry_ok_nth [OF ok i] y(3) unstarted_facts running_facts finished_facts(1) by metis
  with j(4) have n: "e_notified y \<longrightarrow> j_State (e_job y) = j_State (e_job (mg_entries m ! i))" by blast
  show ?thesis
    unfolding jobs_ok_def
    using entries_ok_put [OF parts(1) es y(1)] index_ok_put [OF parts(3) i es j(1,3) same(1,2)]
      hooks_ok_put [OF parts(4) i es j(2) y(3) n same(3)] \<open>counts_ok m'\<close> by blast
qed

text \<open>When the position does not change, or only among positions that hold the same.\<close>

lemma jobs_ok_put_same:
  assumes ok: "jobs_ok m" and i: "i < length (mg_entries m)" and es: "mg_entries m' = (mg_entries m)[i := y]"
    and y: "entry_ok y" "same_job (mg_entries m ! i) y" "e_notified y = e_notified (mg_entries m ! i)"
    and p: "inQueue (e_pc y) = inQueue (e_pc (mg_entries m ! i))" "holdsSlot (e_pc y) = holdsSlot (e_pc (mg_entries m ! i))"
    and same: "mg_jobs m' = mg_jobs m" "set (mg_closing m') \<subseteq> set (mg_closing m)" "mg_hooks m' = mg_hooks m"
      "mg_queued m' = mg_queued m" "mg_slots m' = mg_slots m" "mg_guests m' = mg_guests m" "mg_limits m' = mg_limits m"
  shows "jobs_ok m'"
proof -
  have "e_class y = e_class (mg_entries m ! i)" using y(2) by (simp add: same_job_def)
  from counts_ok_same [OF jobs_ok_parts(2) [OF ok] i es this p same(4-7)]
  show ?thesis by (rule jobs_ok_put [OF ok i es y _ same(1-3)])
qed

lemma upd_ok:
  assumes "jobs_ok m" "i < length (mg_entries m)"
    and "entry_ok (f (mg_entries m ! i))" "same_job (mg_entries m ! i) (f (mg_entries m ! i))"
    and "e_notified (f (mg_entries m ! i)) = e_notified (mg_entries m ! i)"
    and "inQueue (e_pc (f (mg_entries m ! i))) = inQueue (e_pc (mg_entries m ! i))"
      "holdsSlot (e_pc (f (mg_entries m ! i))) = holdsSlot (e_pc (mg_entries m ! i))"
  shows "jobs_ok (upd i f m)"
  by (rule jobs_ok_put_same [OF assms(1,2) _ assms(3-7)]) simp_all

lemma same_job_pc [simp]: "same_job e (e\<lparr>e_pc := p\<rparr>)"
  by (simp add: same_job_def)

lemma same_job_cancel [simp]: "same_job e (snd (requestCancel e))"
  by (simp add: same_job_def)

lemma same_job_report [simp]: "same_job e (apply_report rnd decay now r e)"
  using report_job [of rnd decay now r e] by (simp add: same_job_def)

lemma report_ok [inv_intros]:
  "jobs_ok m \<Longrightarrow> i < length (mg_entries m) \<Longrightarrow> e_runStart (mg_entries m ! i) \<noteq> None \<Longrightarrow>
   jobs_ok (upd i (apply_report rnd decay now r) m)"
  by (rule upd_ok) (simp_all add: entry_ok_report entry_ok_nth)

lemma cancel_entry_ok [inv_intros]:
  "jobs_ok m \<Longrightarrow> i < length (mg_entries m) \<Longrightarrow> jobs_ok (upd i (snd \<circ> requestCancel) m)"
  by (rule upd_ok) (simp_all add: entry_ok_requestCancel entry_ok_nth)

lemma entry_indexed:
  "jobs_ok m \<Longrightarrow> tget (mg_jobs m) i = Some n \<Longrightarrow> n < length (mg_entries m) \<and> j_ID (e_job (mg_entries m ! n)) = i"
  by (simp add: jobs_ok_def index_ok_def)

lemma Cancel_ok [inv_intros]: "jobs_ok m \<Longrightarrow> jobs_ok (snd (Cancel i m))"
  using entry_indexed [of m i] by (auto simp: Cancel_def cancel_entry_ok split: option.split)

lemma entry_ok_result: "entry_ok (e\<lparr>e_job := (e_job e)\<lparr>j_Result := b\<rparr>\<rparr>) = entry_ok e"
  by (simp add: entry_defs)

lemma counts_ok_cong:
  "mg_entries m' = mg_entries m \<Longrightarrow> mg_queued m' = mg_queued m \<Longrightarrow> mg_slots m' = mg_slots m \<Longrightarrow>
   mg_guests m' = mg_guests m \<Longrightarrow> mg_limits m' = mg_limits m \<Longrightarrow> counts_ok m' = counts_ok m"
  by (simp add: counts_ok_def)

lemma hooks_ok_cong:
  "mg_entries m' = mg_entries m \<Longrightarrow> mg_hooks m' = mg_hooks m \<Longrightarrow> hooks_ok m' = hooks_ok m"
  by (simp add: hooks_ok_def)

lemma ReplaceResult_ok [inv_intros]:
  assumes "jobs_ok m" shows "jobs_ok (snd (ReplaceResult i res m))"
proof (cases "tget (mg_jobs m) i")
  case (Some n)
  note n = entry_indexed [OF assms Some]
  note e = entry_ok_nth [OF assms, of n]
  have "jobs_ok (upd n (\<lambda>e. e\<lparr>e_job := (e_job e)\<lparr>j_Result := b\<rparr>\<rparr>) m)" for b
    using e n by (intro upd_ok) (simp_all add: assms same_job_def entry_ok_result)
  then show ?thesis using assms
    by (simp add: ReplaceResult_def Some Let_def split: work_result.split)
qed (simp add: ReplaceResult_def assms)

lemma Close_cancel_ok [inv_intros]:
  assumes "jobs_ok m" "Close_cancel n m = Some m'" shows "jobs_ok m'"
proof -
  have n: "n \<in> set (mg_closing m)" and m': "m' = (upd n (snd \<circ> requestCancel) m)\<lparr>mg_closing := remove1 n (mg_closing m)\<rparr>"
    using assms(2) by (auto simp: Close_cancel_def split: if_splits)
  have i: "n < length (mg_entries m)"
    using n jobs_ok_parts(3) [OF assms(1)] by (auto simp: index_ok_def list_all_iff)
  show ?thesis
    by (rule jobs_ok_put_same [OF assms(1) i, where y = "snd (requestCancel (mg_entries m ! n))"])
      (use i set_remove1_subset in \<open>simp_all add: m' entry_ok_requestCancel entry_ok_nth assms(1)\<close>)
qed

lemma Close_begin_ok [inv_intros]:
  assumes "jobs_ok m" shows "jobs_ok (Close_begin m)"
proof -
  note parts = jobs_ok_parts [OF assms]
  have "list_all (\<lambda>n. n < length (mg_entries m)) (map snd (mg_jobs m))"
    using parts(3) by (force simp: index_ok_def list_all_iff tget_def table_ok_def)
  then have "index_ok (Close_begin m)" using parts(3) by (simp add: Close_begin_def index_ok_def)
  moreover have "counts_ok (Close_begin m)" "hooks_ok (Close_begin m)" "mg_entries (Close_begin m) = mg_entries m"
    using parts counts_ok_cong [of "Close_begin m" m] hooks_ok_cong [of "Close_begin m" m]
    by (simp_all add: Close_begin_def)
  ultimately show ?thesis using parts(1) by (simp add: jobs_ok_def)
qed

lemma Reap_ok [inv_intros]:
  assumes "jobs_ok m" shows "jobs_ok (Reap now late m)"
proof -
  note parts = jobs_ok_parts [OF assms]
  have t: "table_ok (mg_jobs m)" using parts(3) by (simp add: index_ok_def)
  have live: "n \<notin> set (reap_doomed now late m)" if "\<not> Terminal (j_State (e_job (mg_entries m ! n)))" for n
    using that by (auto simp: reap_doomed_def reap_done_def dest!: in_set_dropD)
  have "index_ok (Reap now late m)"
    using parts(3) t live unfolding index_ok_def Reap_def
    by (auto simp: tget_tkeep split: option.splits if_splits)
  moreover have "counts_ok (Reap now late m)" "hooks_ok (Reap now late m)" "mg_entries (Reap now late m) = mg_entries m"
    using parts counts_ok_cong [of "Reap now late m" m] hooks_ok_cong [of "Reap now late m" m]
    by (simp_all add: Reap_def)
  ultimately show ?thesis using parts(1) by (simp add: jobs_ok_def)
qed

lemma Admit_ok [inv_intros]:
  assumes "jobs_ok m" "Admit_slot c m = Some m'" shows "jobs_ok m'"
proof -
  note parts = jobs_ok_parts [OF assms(1)]
  have f: "slot_free c m" and m': "m' = (take_slot c m)\<lparr>mg_guests := mg_guests m @ [(c, True)]\<rparr>"
    using assms(2) by (auto simp: Admit_slot_def split: if_splits)
  have "counts_ok m'"
    unfolding counts_ok_def
  proof (rule allI)
    fix d
    show "mg_queued m' d = head_count inQueue d (mg_entries m')
     \<and> mg_slots m' d = head_count holdsSlot d (mg_entries m') + open_guests d (mg_guests m')
     \<and> int (mg_queued m' d) \<le> QueueDepth (mg_limits m')
     \<and> int (mg_slots m' d) \<le> class_cap (mg_limits m') d"
      using parts(2) [unfolded counts_ok_def, THEN spec, of d] f
      by (auto simp: m' open_guests_def slot_free_def)
  qed
  moreover have "index_ok m'" using parts(3) by (simp add: m' index_ok_def)
  moreover have "hooks_ok m'" using parts(4) hooks_ok_cong [of m' m] by (simp add: m')
  ultimately show ?thesis using parts(1) by (simp add: jobs_ok_def m')
qed

lemma release_ok [inv_intros]:
  assumes "jobs_ok m" "g < length (mg_guests m)" "release g m = Some m'" shows "jobs_ok m'"
proof (cases "snd (mg_guests m ! g)")
  case False
  then have "m' = m" using assms(3) by (auto simp: release_def split: prod.splits)
  then show ?thesis using assms(1) by simp
next
  case True
  note parts = jobs_ok_parts [OF assms(1)]
  obtain c where c: "mg_guests m ! g = (c, True)" using True by (cases "mg_guests m ! g") auto
  have m': "mg_slots m c \<noteq> 0"
    "m' = m\<lparr>mg_slots := (mg_slots m)(c := mg_slots m c - 1), mg_guests := (mg_guests m)[g := (c, False)]\<rparr>"
    using assms(3) c by (auto simp: release_def give_slot_def split: if_splits)
  have "counts_ok m'"
    unfolding counts_ok_def
  proof (rule allI)
    fix d
    have "open_guests d ((mg_guests m)[g := (c, False)]) + of_bool (c = d) = open_guests d (mg_guests m)"
      using filter_length_update [OF assms(2), of "\<lambda>h. h = (d, True)" "(c, False)"] c by (simp add: open_guests_def)
    then show "mg_queued m' d = head_count inQueue d (mg_entries m')
     \<and> mg_slots m' d = head_count holdsSlot d (mg_entries m') + open_guests d (mg_guests m')
     \<and> int (mg_queued m' d) \<le> QueueDepth (mg_limits m')
     \<and> int (mg_slots m' d) \<le> class_cap (mg_limits m') d"
      using parts(2) [unfolded counts_ok_def, THEN spec, of d] m'(1)
      by (cases "c = d") (auto simp: m'(2))
  qed
  moreover have "index_ok m'" using parts(3) by (simp add: m' index_ok_def)
  moreover have "hooks_ok m'" using parts(4) hooks_ok_cong [of m' m] by (simp add: m')
  ultimately show ?thesis using parts(1) by (simp add: jobs_ok_def m')
qed

lemma hex_digit_ok: "n < 16 \<Longrightarrow> id_char (hex_digit n)"
proof -
  have "list_all (\<lambda>n. id_char (hex_digit n)) [0..<16]"
    by (simp add: hex_digit_def id_char_def upt_rec)
  then show "n < 16 \<Longrightarrow> id_char (hex_digit n)" by (simp add: list_all_iff)
qed

lemma hex_encode_Nil [simp]: "hex_encode [] = []"
  by (simp add: hex_encode_def)

lemma hex_encode_Cons [simp]:
  "hex_encode (b # bs) = hex_digit (of_char b div 16) # hex_digit (of_char b mod 16) # hex_encode bs"
  by (simp add: hex_encode_def)

lemma hex_encode_ok: "length (hex_encode bs) = 2 * length bs \<and> list_all id_char (hex_encode bs)"
proof (induction bs)
  case (Cons b bs)
  have "(of_char b :: nat) div 16 < 16" using of_char_less [of b] by (simp add: less_mult_imp_div_less)
  then show ?case using Cons by (simp add: hex_digit_ok)
qed simp

lemma NewID_valid: "length rnd = 8 \<Longrightarrow> ValidID (NewID rnd)"
  using hex_encode_ok [of rnd] by (simp add: ValidID_def NewID_def)

lemma choose_id_valid:
  "choose_id meta r = Inr i \<Longrightarrow> r = None \<or> length (the r) = 8 \<Longrightarrow> ValidID i"
  by (auto simp: choose_id_def NewID_valid split: if_splits option.splits)

lemma register_ok:
  assumes ok: "jobs_ok m" and e: "entry_ok e" "e_pc e = Waiting" and i: "tget (mg_jobs m) (j_ID (e_job e)) = None"
    and room: "int (mg_queued m (e_class e)) < QueueDepth (mg_limits m)"
  shows "jobs_ok (register e m)"
proof -
  note parts = jobs_ok_parts [OF ok]
  have u: "unstarted (e_pc e)" "inQueue (e_pc e)" "\<not> holdsSlot (e_pc e)" using e(2) by (simp_all add: pc_sets)
  have "list_all entry_ok (mg_entries (register e m))" using parts(1) e by (simp add: register_def)
  moreover have "counts_ok (register e m)"
    unfolding counts_ok_def
  proof (rule allI)
    fix d
    show "mg_queued (register e m) d = head_count inQueue d (mg_entries (register e m))
     \<and> mg_slots (register e m) d = head_count holdsSlot d (mg_entries (register e m)) + open_guests d (mg_guests (register e m))
     \<and> int (mg_queued (register e m) d) \<le> QueueDepth (mg_limits (register e m))
     \<and> int (mg_slots (register e m) d) \<le> class_cap (mg_limits (register e m)) d"
      using parts(2) [unfolded counts_ok_def, THEN spec, of d] u room
      by (cases "e_class e = d") (auto simp: register_def head_count_def)
  qed
  moreover have "index_ok (register e m)"
  proof -
    let ?n = "length (mg_entries m)"
    have l: "(mg_entries m @ [e]) ! k = (if k = ?n then e else mg_entries m ! k)" if "k < Suc ?n" for k
      using that by (auto simp: nth_append)
    have 1: "n < Suc ?n \<and> j_ID (e_job ((mg_entries m @ [e]) ! n)) = k"
      if "tget (tput (j_ID (e_job e)) ?n (mg_jobs m)) k = Some n" for k n
    proof (cases "k = j_ID (e_job e)")
      case False
      then have "n < ?n \<and> j_ID (e_job (mg_entries m ! n)) = k" using that entry_indexed [OF ok] by simp
      then show ?thesis by (simp add: nth_append)
    qed (use that in auto)
    have 2: "tget (tput (j_ID (e_job e)) ?n (mg_jobs m)) (j_ID (e_job ((mg_entries m @ [e]) ! n))) = Some n"
      if "n < Suc ?n" "\<not> Terminal (j_State (e_job ((mg_entries m @ [e]) ! n)))" for n
    proof (cases "n = ?n")
      case False
      then have "tget (mg_jobs m) (j_ID (e_job (mg_entries m ! n))) = Some n"
        using parts(3) that l [OF that(1)] by (simp add: index_ok_def)
      then show ?thesis using i False l [OF that(1)] by auto
    qed simp
    have "list_all (\<lambda>n. n < Suc ?n) (mg_closing m)"
      using parts(3) by (auto simp: index_ok_def list_all_iff)
    then show ?thesis using parts(3) 1 2 by (simp add: index_ok_def register_def)
  qed
  moreover have "hooks_ok (register e m)"
  proof -
    have n: "\<not> e_notified e" using unstarted_facts(4) [OF e(1) u(1)] .
    have l: "(mg_entries m @ [e]) ! k = mg_entries m ! k" if "k < length (mg_entries m)" for k
      using that by (simp add: nth_append)
    have 1: "k < length (mg_entries m @ [e]) \<and> e_notified ((mg_entries m @ [e]) ! k) \<and> e_hook ((mg_entries m @ [e]) ! k)
      \<and> Terminal (j_State j) \<and> j_State j = j_State (e_job ((mg_entries m @ [e]) ! k))"
      if "(k, j) \<in> set (mg_hooks m)" for k j
    proof -
      have "k < length (mg_entries m) \<and> e_notified (mg_entries m ! k) \<and> e_hook (mg_entries m ! k)
        \<and> Terminal (j_State j) \<and> j_State j = j_State (e_job (mg_entries m ! k))"
        using parts(4) that unfolding hooks_ok_def by blast
      then show ?thesis by (auto simp: nth_append)
    qed
    have 2: "k \<in> fst ` set (mg_hooks m)"
      if "k < length (mg_entries m @ [e])" "e_notified ((mg_entries m @ [e]) ! k) \<and> e_hook ((mg_entries m @ [e]) ! k)" for k
    proof -
      have "k \<noteq> length (mg_entries m)" using that(2) n by auto
      then have "k < length (mg_entries m)" using that(1) by simp
      then show ?thesis using that(2) parts(4) l by (simp add: hooks_ok_def)
    qed
    have "mg_hooks (register e m) = mg_hooks m" "mg_entries (register e m) = mg_entries m @ [e]"
      by (simp_all add: register_def)
    then show ?thesis using 1 2 parts(4) unfolding hooks_ok_def by (metis (no_types, lifting))
  qed
  ultimately show ?thesis by (simp add: jobs_ok_def)
qed

lemma entry_of_simps [simp]:
  "e_pc (entry_of i kind title meta now) = Waiting" "e_class (entry_of i kind title meta now) = ClassOf kind"
  "j_ID (e_job (entry_of i kind title meta now)) = i"
  by (simp_all add: entry_of_def)

lemma entry_of_ok: "ValidID i \<Longrightarrow> entry_ok (entry_of i kind title meta now)"
  by (simp add: entry_of_def entry_defs pc_sets maxETA_def)

lemma Submit_ok [inv_intros]:
  assumes "jobs_ok m" "r = None \<or> length (the r) = 8"
  shows "jobs_ok (snd (Submit now kind title meta hasFn r m))"
proof (cases "choose_id meta r")
  case (Inr i)
  note v = choose_id_valid [OF Inr assms(2)]
  have "jobs_ok (register (entry_of i kind title meta now) m)"
    if "tget (mg_jobs m) i = None" "\<not> int (mg_queued m (ClassOf kind)) \<ge> QueueDepth (mg_limits m)"
    using that by (intro register_ok) (simp_all add: assms(1) entry_of_ok [OF v])
  then show ?thesis using assms(1) by (auto simp: Submit_def Inr Let_def)
qed (simp add: Submit_def assms(1))

text \<open>The goroutine's steps.\<close>

lemma holder_counted:
  assumes "jobs_ok m" "i < length (mg_entries m)"
  shows "holdsSlot (e_pc (mg_entries m ! i)) \<Longrightarrow> 0 < mg_slots m (e_class (mg_entries m ! i))"
    and "inQueue (e_pc (mg_entries m ! i)) \<Longrightarrow> 0 < mg_queued m (e_class (mg_entries m ! i))"
  using jobs_ok_parts(2) [OF assms(1), unfolded counts_ok_def, THEN spec, of "e_class (mg_entries m ! i)"]
    tally_pos [OF assms(2), of holdsSlot] tally_pos [OF assms(2), of inQueue] by auto

lemma goto_ok:
  assumes "jobs_ok m" "i < length (mg_entries m)" and u: "unstarted (e_pc (mg_entries m ! i))" "unstarted p"
    and "inQueue p = inQueue (e_pc (mg_entries m ! i))" "holdsSlot p = holdsSlot (e_pc (mg_entries m ! i))"
  shows "jobs_ok (goto i p m)"
  unfolding goto_def
  by (rule upd_ok) (use assms in \<open>simp_all add: entry_ok_goto_unstarted entry_ok_nth\<close>)

lemma acquire_ok:
  assumes "jobs_ok m" "i < length (mg_entries m)" "e_pc (mg_entries m ! i) = Waiting"
    and "slot_free (e_class (mg_entries m ! i)) m"
  shows "jobs_ok (goto i Acquired (take_slot (e_class (mg_entries m ! i)) m))" (is "jobs_ok ?m")
proof -
  let ?e = "mg_entries m ! i"
  have es: "mg_entries ?m = (mg_entries m)[i := ?e\<lparr>e_pc := Acquired\<rparr>]" by simp
  have "counts_ok ?m"
    by (rule counts_ok_move [OF jobs_ok_parts(2) [OF assms(1)] assms(2) es,
          where q = "mg_queued m (e_class ?e)" and s = "Suc (mg_slots m (e_class ?e))"])
      (use assms(3,4) in \<open>simp_all add: pc_sets slot_free_def\<close>)
  moreover have "entry_ok (?e\<lparr>e_pc := Acquired\<rparr>)"
    using entry_ok_goto_unstarted [OF entry_ok_nth [OF assms(1,2)]] assms(3) by (simp add: pc_sets)
  ultimately show ?thesis by (intro jobs_ok_put [OF assms(1,2) es]) simp_all
qed

lemma leave_ok:
  assumes "jobs_ok m" "i < length (mg_entries m)"
    and p: "inQueue (e_pc (mg_entries m ! i))" "unstarted p" "\<not> inQueue p"
      "holdsSlot p = holdsSlot (e_pc (mg_entries m ! i))"
  shows "jobs_ok (goto i p (leaveQueue (e_class (mg_entries m ! i)) m))" (is "jobs_ok ?m")
proof -
  let ?e = "mg_entries m ! i"
  have es: "mg_entries ?m = (mg_entries m)[i := ?e\<lparr>e_pc := p\<rparr>]" by simp
  note pos = holder_counted(2) [OF assms(1,2) p(1)]
  note ok = jobs_ok_parts(2) [OF assms(1), unfolded counts_ok_def, THEN spec, of "e_class ?e"]
  have cap: "int (mg_slots m (e_class ?e)) \<le> class_cap (mg_limits m) (e_class ?e)" using ok by blast
  have "counts_ok ?m"
    by (rule counts_ok_move [OF jobs_ok_parts(2) [OF assms(1)] assms(2) es,
          where q = "mg_queued m (e_class ?e) - 1" and s = "mg_slots m (e_class ?e)"])
      (use p pos cap in \<open>simp_all\<close>)
  moreover have "unstarted (e_pc ?e)" using p(1) by (simp add: unstarted_def)
  then have "entry_ok (?e\<lparr>e_pc := p\<rparr>)"
    using entry_ok_goto_unstarted [OF entry_ok_nth [OF assms(1,2)]] p(2) by blast
  ultimately show ?thesis by (intro jobs_ok_put [OF assms(1,2) es]) simp_all
qed

lemma give_back_ok:
  assumes "jobs_ok m" "i < length (mg_entries m)" "e_pc (mg_entries m ! i) = Ending"
    and "give_slot (e_class (mg_entries m ! i)) m = Some m'"
  shows "jobs_ok (goto i Released m')" (is "jobs_ok ?m")
proof -
  let ?e = "mg_entries m ! i"
  have m': "mg_slots m (e_class ?e) \<noteq> 0" "m' = m\<lparr>mg_slots := (mg_slots m)(e_class ?e := mg_slots m (e_class ?e) - 1)\<rparr>"
    using assms(4) by (simp_all add: give_slot_Some)
  have es: "mg_entries ?m = (mg_entries m)[i := ?e\<lparr>e_pc := Released\<rparr>]" by (simp add: m'(2))
  note ok = jobs_ok_parts(2) [OF assms(1), unfolded counts_ok_def, THEN spec, of "e_class ?e"]
  have "counts_ok ?m"
    by (rule counts_ok_move [OF jobs_ok_parts(2) [OF assms(1)] assms(2) es,
          where q = "mg_queued m (e_class ?e)" and s = "mg_slots m (e_class ?e) - 1"])
      (use assms(3) m'(1) ok in \<open>auto simp: pc_sets m'(2)\<close>)
  moreover have "\<not> unstarted (e_pc ?e)" "e_pc ?e \<noteq> Running" using assms(3) by (simp_all add: pc_sets)
  note f = finished_facts [OF entry_ok_nth [OF assms(1,2)] this]
  have "entry_ok (?e\<lparr>e_pc := Released\<rparr>)"
    using f entry_ok_nth [OF assms(1,2)] assms(3) by (simp add: entry_ok_def phase_ok_def honest_def pc_sets)
  ultimately show ?thesis by (intro jobs_ok_put [OF assms(1,2) es]) (simp_all add: m'(2))
qed

lemma notifyFinish_simps [simp]:
  "mg_queued (notifyFinish i m) = mg_queued m" "mg_slots (notifyFinish i m) = mg_slots m"
  "mg_guests (notifyFinish i m) = mg_guests m" "mg_limits (notifyFinish i m) = mg_limits m"
  "mg_jobs (notifyFinish i m) = mg_jobs m" "mg_closing (notifyFinish i m) = mg_closing m"
  "mg_closed (notifyFinish i m) = mg_closed m"
  by (simp_all add: notifyFinish_def Let_def)

lemma notify_ok:
  assumes "jobs_ok m" "i < length (mg_entries m)" "e_pc (mg_entries m ! i) = Unwound"
  shows "jobs_ok (goto i Notified (notifyFinish i m))" (is "jobs_ok ?m")
proof -
  let ?e = "mg_entries m ! i" and ?y = "(mg_entries m ! i)\<lparr>e_notified := True, e_pc := Notified\<rparr>"
  note parts = jobs_ok_parts [OF assms(1)]
  have "\<not> unstarted (e_pc ?e)" "e_pc ?e \<noteq> Running" using assms(3) by (simp_all add: pc_sets)
  note f = finished_facts [OF entry_ok_nth [OF assms(1,2)] this]
  have n: "\<not> e_notified ?e" using f(3) assms(3) by (simp add: pc_sets)
  have es: "mg_entries ?m = (mg_entries m)[i := ?y]"
    using n assms(2) by (simp add: notifyFinish_def Let_def)
  have m: "mg_queued ?m = mg_queued m" "mg_slots ?m = mg_slots m" "mg_guests ?m = mg_guests m" "mg_limits ?m = mg_limits m"
    "mg_jobs ?m = mg_jobs m" "mg_closing ?m = mg_closing m"
    "mg_hooks ?m = (if e_hook ?e then [(i, e_job ?e)] else []) @ mg_hooks m"
    using n by (simp_all add: notifyFinish_def Let_def)
  have "entry_ok ?y" using f by (simp add: entry_ok_def phase_ok_def honest_def pc_sets)
  moreover have "counts_ok ?m"
    by (rule counts_ok_same [OF parts(2) assms(2) es]) (simp_all add: m assms(3) pc_sets)
  moreover have "index_ok ?m"
    by (rule index_ok_put [OF parts(3) assms(2) es]) (simp_all add: m)
  moreover have "hooks_ok ?m"
  proof -
    have fresh: "i \<notin> fst ` set (mg_hooks m)"
      using parts(4) n unfolding hooks_ok_def by fastforce
    have 1: "k < length (mg_entries ?m) \<and> e_notified (mg_entries ?m ! k) \<and> e_hook (mg_entries ?m ! k)
        \<and> Terminal (j_State j) \<and> j_State j = j_State (e_job (mg_entries ?m ! k))"
      if "(k, j) \<in> set (mg_hooks ?m)" for k j
    proof (cases "k = i")
      case True
      then have "(i, j) \<in> set (if e_hook ?e then [(i, e_job ?e)] else [])"
        using that fresh unfolding m(7) by (cases "e_hook ?e") force+
      then have "e_hook ?e \<and> j = e_job ?e" by (cases "e_hook ?e") simp_all
      then show ?thesis using True f(1) assms(2) unfolding es by simp
    next
      case False
      then have "(k, j) \<in> set (mg_hooks m)" using that unfolding m(7) by (cases "e_hook ?e") simp_all
      then show ?thesis using parts(4) False unfolding es hooks_ok_def by (metis length_list_update nth_list_update_neq)
    qed
    have 2: "k \<in> fst ` set (mg_hooks ?m)"
      if "k < length (mg_entries ?m)" "e_notified (mg_entries ?m ! k) \<and> e_hook (mg_entries ?m ! k)" for k
      using that parts(4) assms(2) unfolding es m(7) hooks_ok_def by (cases "k = i") auto
    have "distinct (map fst (mg_hooks ?m))"
      using parts(4) fresh unfolding m(7) hooks_ok_def by auto
    then show ?thesis unfolding hooks_ok_def using 1 2 by blast
  qed
  ultimately show ?thesis using entries_ok_put [OF parts(1) es] by (simp add: jobs_ok_def)
qed

lemma finish_same_job: "e_pc e = Running \<Longrightarrow> entry_ok e \<Longrightarrow> same_job e ((finish_job now r x seen e)\<lparr>e_pc := Ending\<rparr>)"
  using running_facts(1) [of e] by (simp add: same_job_def)

lemma finishQueued_simps [simp]:
  "e_class (finishQueued now e) = e_class e" "e_hook (finishQueued now e) = e_hook e"
  "j_ID (e_job (finishQueued now e)) = j_ID (e_job e)" "e_notified (finishQueued now e) = e_notified e"
  "e_pc (finishQueued now e) = e_pc e" "e_runStart (finishQueued now e) = e_runStart e"
  "Terminal (j_State (e_job e)) \<Longrightarrow> finishQueued now e = e"
  by (simp_all add: finishQueued_def)

lemma same_job_finishQueued: "same_job e ((finishQueued now e)\<lparr>e_pc := p\<rparr>)"
  by (simp add: same_job_def)

lemma finishQueued_ok:
  assumes "jobs_ok m" "i < length (mg_entries m)"
    and "(e_pc (mg_entries m ! i), p) \<in> {(Quit, Released), (Barred, Ending)}"
  shows "jobs_ok (upd i (\<lambda>e. (finishQueued now e)\<lparr>e_pc := p\<rparr>) m)"
proof -
  have p: "unstarted (e_pc (mg_entries m ! i))" "p \<noteq> Running" "\<not> unstarted p" "\<not> told p"
    "inQueue p = inQueue (e_pc (mg_entries m ! i))" "holdsSlot p = holdsSlot (e_pc (mg_entries m ! i))"
    using assms(3) by (auto simp: pc_sets)
  show ?thesis
    by (rule upd_ok [OF assms(1,2)])
      (use p in \<open>simp_all add: entry_ok_finishQueued entry_ok_nth assms(1,2) same_job_finishQueued\<close>)
qed

lemma start_ok:
  assumes "jobs_ok m" "i < length (mg_entries m)" "e_pc (mg_entries m ! i) = Starting"
    and "start now (mg_entries m ! i) = Some e'"
  shows "jobs_ok (upd i (\<lambda>_. e'\<lparr>e_pc := Running\<rparr>) m)"
proof -
  let ?e = "mg_entries m ! i"
  note e = entry_ok_nth [OF assms(1,2)]
  have e': "e_class e' = e_class ?e" "e_hook e' = e_hook ?e" "j_ID (e_job e') = j_ID (e_job ?e)"
    "e_notified e' = e_notified ?e" "j_State (e_job e') = StateRunning"
    using assms(4) by (auto simp: start_def split: if_splits)
  have "unstarted (e_pc ?e)" using assms(3) by (simp add: pc_sets)
  from unstarted_facts(1) [OF e this] have "\<not> Terminal (j_State (e_job ?e))" by simp
  then have "same_job ?e (e'\<lparr>e_pc := Running\<rparr>)" by (simp add: same_job_def e')
  moreover have "entry_ok (e'\<lparr>e_pc := Running\<rparr>)" by (rule entry_ok_start [OF e assms(3,4)])
  ultimately show ?thesis
    by (intro upd_ok [OF assms(1,2)]) (simp_all add: e' assms(3) pc_sets)
qed

lemma conclude_ok:
  assumes "jobs_ok m" "i < length (mg_entries m)" "e_pc (mg_entries m ! i) = Running"
  shows "jobs_ok (upd i (\<lambda>e. (finish_job now res err seen e)\<lparr>e_pc := Ending\<rparr>) m)"
  using entry_ok_nth [OF assms(1,2)] assms(3)
  by (intro upd_ok [OF assms(1,2)]) (simp_all add: entry_ok_finish finish_same_job pc_sets)

lemma unwind_ok:
  assumes "jobs_ok m" "i < length (mg_entries m)" "e_pc (mg_entries m ! i) = Released"
  shows "jobs_ok (upd i (\<lambda>e. e\<lparr>e_ctxDone := True, e_pc := Unwound\<rparr>) m)"
proof -
  have p: "\<not> unstarted (e_pc (mg_entries m ! i))" "e_pc (mg_entries m ! i) \<noteq> Running"
    using assms(3) by (simp_all add: pc_sets)
  note f = finished_facts [OF entry_ok_nth [OF assms(1,2)] p]
  show ?thesis
    by (intro upd_ok [OF assms(1,2)])
      (use f assms(3) in \<open>simp_all add: entry_ok_def phase_ok_def honest_def pc_sets same_job_def\<close>)
qed

lemma depart_ok:
  assumes "jobs_ok m" "i < length (mg_entries m)" "e_pc (mg_entries m ! i) = Notified"
  shows "jobs_ok (goto i Gone m)"
proof -
  have p: "\<not> unstarted (e_pc (mg_entries m ! i))" "e_pc (mg_entries m ! i) \<noteq> Running"
    using assms(3) by (simp_all add: pc_sets)
  note f = finished_facts [OF entry_ok_nth [OF assms(1,2)] p]
  show ?thesis
    unfolding goto_def
    by (intro upd_ok [OF assms(1,2)])
      (use f assms(3) in \<open>simp_all add: entry_ok_def phase_ok_def honest_def pc_sets\<close>)
qed

lemma run_ok [inv_intros]:
  assumes "jobs_ok m" "i < length (mg_entries m)" "run now ch i m = Some m'"
  shows "jobs_ok m'"
proof (cases "e_pc (mg_entries m ! i)")
  case Waiting
  consider (a) "ch = SlotFree" "slot_free (e_class (mg_entries m ! i)) m"
      "m' = goto i Acquired (take_slot (e_class (mg_entries m ! i)) m)"
    | (b) "m' = goto i Quitting m"
    using assms(3) Waiting by (auto simp: run_def Let_def split: choice.splits if_splits)
  then show ?thesis
  proof cases
    case a
    then show ?thesis using acquire_ok [OF assms(1,2) Waiting] by simp
  next
    case b
    then show ?thesis using goto_ok [OF assms(1,2)] Waiting by (simp add: pc_sets)
  qed
next
  case Running
  obtain w seen where "ch = Returns w seen"
    and "m' = upd i (\<lambda>e. (finish_job now (fst (call w)) (snd (call w)) seen e)\<lparr>e_pc := Ending\<rparr>) m"
    using assms(3) Running by (auto simp: run_def Let_def split_def split: choice.splits if_splits)
  then show ?thesis using conclude_ok [OF assms(1,2) Running] by simp
next
  case Starting
  show ?thesis
  proof (cases "start now (mg_entries m ! i)")
    case None
    then have "m' = goto i Barred m" using assms(3) Starting by (simp add: run_def Let_def)
    then show ?thesis using goto_ok [OF assms(1,2)] Starting by (simp add: pc_sets)
  next
    case (Some e')
    then have "m' = upd i (\<lambda>_. e'\<lparr>e_pc := Running\<rparr>) m" using assms(3) Starting by (simp add: run_def Let_def)
    then show ?thesis using start_ok [OF assms(1,2) Starting Some] by simp
  qed
next
  case Acquired
  then have "m' = goto i Holding (leaveQueue (e_class (mg_entries m ! i)) m)"
    using assms(3) by (simp add: run_def Let_def)
  then show ?thesis using leave_ok [OF assms(1,2)] Acquired by (simp add: pc_sets)
next
  case Quitting
  then have "m' = goto i Quit (leaveQueue (e_class (mg_entries m ! i)) m)"
    using assms(3) by (simp add: run_def Let_def)
  then show ?thesis using leave_ok [OF assms(1,2)] Quitting by (simp add: pc_sets)
next
  case Holding
  then have "m' = goto i (if isClosed m then Barred else Starting) m"
    using assms(3) by (simp add: run_def Let_def)
  then show ?thesis using goto_ok [OF assms(1,2)] Holding by (simp add: pc_sets)
next
  case Barred
  then show ?thesis using assms(3) finishQueued_ok [OF assms(1,2), of Ending now] by (simp add: run_def Let_def)
next
  case Quit
  then show ?thesis using assms(3) finishQueued_ok [OF assms(1,2), of Released now] by (simp add: run_def Let_def)
next
  case Ending
  obtain m1 where "give_slot (e_class (mg_entries m ! i)) m = Some m1" "m' = goto i Released m1"
    using assms(3) Ending by (auto simp: run_def Let_def)
  then show ?thesis using give_back_ok [OF assms(1,2) Ending] by simp
next
  case Released
  then show ?thesis using assms(3) unwind_ok [OF assms(1,2)] by (simp add: run_def Let_def)
next
  case Unwound
  then show ?thesis using assms(3) notify_ok [OF assms(1,2)] by (simp add: run_def Let_def)
next
  case Notified
  then show ?thesis using assms(3) depart_ok [OF assms(1,2)] by (simp add: run_def Let_def)
next
  case Gone
  then show ?thesis using assms(3) by (simp add: run_def Let_def)
qed

lemma attempt_ok: "jobs_ok m \<Longrightarrow> (\<And>m'. r = Some m' \<Longrightarrow> jobs_ok m') \<Longrightarrow> jobs_ok (attempt m r)"
  by (simp add: attempt_def split: option.split)

lemma exec_ok:
  assumes "jobs_ok m" shows "jobs_ok (exec rnd decay m ev)"
proof (cases ev)
  case (Submits now kind title meta hasFn r)
  then show ?thesis using assms Submit_ok [OF assms] by (simp add: exec_def)
next
  case (Runs now ch i)
  show ?thesis
    unfolding Runs exec_def using assms attempt_ok [OF assms run_ok [OF assms]] by simp
next
  case (Reports now r i)
  then show ?thesis using assms report_ok [OF assms, of i] by (simp add: exec_def)
next
  case (GivesBack g)
  show ?thesis
    unfolding GivesBack exec_def using assms attempt_ok [OF assms release_ok [OF assms]] by simp
next
  case (Admits c)
  show ?thesis
    unfolding Admits exec_def using attempt_ok [OF assms Admit_ok [OF assms]] by simp
next
  case (CloseCancels n)
  show ?thesis
    unfolding CloseCancels exec_def using attempt_ok [OF assms Close_cancel_ok [OF assms]] by simp
qed (simp_all add: exec_def assms Cancel_ok ReplaceResult_ok Reap_ok Close_begin_ok)

interpretation manager: invariant_machine "exec rnd decay" jobs_ok for rnd decay
  by unfold_locales (rule exec_ok)

lemma New_ok: "jobs_ok (New l)"
proof -
  have "0 \<le> QueueDepth (normalise l)" "0 \<le> class_cap (normalise l) c" for c
    by (auto simp: normalise_def class_cap_def split: jclass.split)
  then show ?thesis
    by (simp add: jobs_ok_def New_def counts_ok_def index_ok_def hooks_ok_def head_count_def open_guests_def)
qed

end
