(* ===== verification/Jobs_Life.thy ===== *)
theory Jobs_Life
  imports Jobs
begin

section \<open>The life of a job under every interleaving\<close>

text \<open>
  What a single step of the manager does to one entry, as an inductive relation; the public life
  cycle it refines; and the properties of jobs, hooks, cancellation, retention and shutdown.
\<close>

subsection \<open>One entry, one step\<close>

text \<open>The moves of a goroutine that change nothing but its position.\<close>

definition moves :: "bool \<Rightarrow> jentry \<Rightarrow> pc \<Rightarrow> bool" where
  "moves shut e p \<longleftrightarrow>
     (case e_pc e of
        Waiting \<Rightarrow> p = Acquired \<or> (p = Quitting \<and> e_ctxDone e)
      | Acquired \<Rightarrow> p = Holding
      | Quitting \<Rightarrow> p = Quit
      | Holding \<Rightarrow> p = (if shut then Barred else Starting)
      | Starting \<Rightarrow> p = Barred \<and> e_cancelRequested e
      | Ending \<Rightarrow> p = Released
      | Notified \<Rightarrow> p = Gone
      | _ \<Rightarrow> False)"

inductive evolves :: "(rat \<Rightarrow> rat) \<Rightarrow> (rat \<Rightarrow> rat) \<Rightarrow> bool \<Rightarrow> jentry \<Rightarrow> jentry \<Rightarrow> bool"
  for rnd decay shut where
  stays: "evolves rnd decay shut e e"
| moved: "moves shut e p \<Longrightarrow> evolves rnd decay shut e (e\<lparr>e_pc := p\<rparr>)"
| started: "e_pc e = Starting \<Longrightarrow> start now e = Some e' \<Longrightarrow> evolves rnd decay shut e (e'\<lparr>e_pc := Running\<rparr>)"
| unqueued: "(e_pc e = Quit \<and> p = Released) \<or> (e_pc e = Barred \<and> p = Ending) \<Longrightarrow>
    evolves rnd decay shut e ((finishQueued now e)\<lparr>e_pc := p\<rparr>)"
| finished: "e_pc e = Running \<Longrightarrow> (seen \<longrightarrow> e_ctxDone e) \<Longrightarrow>
    evolves rnd decay shut e ((finish_job now res err seen e)\<lparr>e_pc := Ending\<rparr>)"
| unwound: "e_pc e = Released \<Longrightarrow> evolves rnd decay shut e (e\<lparr>e_ctxDone := True, e_pc := Unwound\<rparr>)"
| notified: "e_pc e = Unwound \<Longrightarrow> evolves rnd decay shut e (e\<lparr>e_notified := True, e_pc := Notified\<rparr>)"
| reported: "e_runStart e \<noteq> None \<Longrightarrow> evolves rnd decay shut e (apply_report rnd decay now r e)"
| cancelled: "evolves rnd decay shut e (snd (requestCancel e))"
| replaced: "Terminal (j_State (e_job e)) \<Longrightarrow>
    evolves rnd decay shut e (e\<lparr>e_job := (e_job e)\<lparr>j_Result := b\<rparr>\<rparr>)"

inductive_cases evolvesE: "evolves rnd decay shut e e'"

lemma evolves_upd:
  assumes "n < length (mg_entries m)" "evolves rnd decay c (mg_entries m ! i) (f (mg_entries m ! i))"
  shows "evolves rnd decay c (mg_entries m ! n) (mg_entries (upd i f m) ! n)"
proof (cases "n = i")
  case False
  then have "mg_entries (upd i f m) ! n = mg_entries m ! n" by simp
  then show ?thesis by (simp add: evolves.stays)
qed (use assms in simp)

lemma evolves_same: "mg_entries m' ! n = mg_entries m ! n \<Longrightarrow> evolves rnd decay c (mg_entries m ! n) (mg_entries m' ! n)"
  by (simp add: evolves.stays)

lemma evolves_goto:
  assumes "n < length (mg_entries m)" "moves c (mg_entries m ! i) p" "mg_entries m' = mg_entries m"
  shows "evolves rnd decay c (mg_entries m ! n) (mg_entries (goto i p m') ! n)"
  unfolding goto_def
  using evolves_upd [where f = "\<lambda>e. e\<lparr>e_pc := p\<rparr>" and m = m'] evolves.moved [OF assms(2)] assms(1,3) by simp

lemma run_evolves:
  assumes ok: "jobs_ok m" and i: "i < length (mg_entries m)" and r: "run now ch i m = Some m'"
    and n: "n < length (mg_entries m)"
  shows "length (mg_entries m') = length (mg_entries m) \<and> mg_closed m' = mg_closed m \<and>
    evolves rnd decay (mg_closed m) (mg_entries m ! n) (mg_entries m' ! n)"
proof (cases "e_pc (mg_entries m ! i)")
  case Waiting
  consider (a) "m' = goto i Acquired (take_slot (e_class (mg_entries m ! i)) m)"
    | (b) "m' = goto i Quitting m" "e_ctxDone (mg_entries m ! i)"
    using r Waiting by (auto simp: run_def Let_def split: choice.splits if_splits)
  then show ?thesis
  proof cases
    case a
    have "moves (mg_closed m) (mg_entries m ! i) Acquired" using Waiting by (simp add: moves_def)
    from evolves_goto [OF n this] a show ?thesis by simp
  next
    case b
    have "moves (mg_closed m) (mg_entries m ! i) Quitting" using Waiting b(2) by (simp add: moves_def)
    from evolves_goto [OF n this] b show ?thesis by simp
  qed
next
  case Running
  obtain w seen where "seen \<longrightarrow> e_ctxDone (mg_entries m ! i)"
    and m': "m' = upd i (\<lambda>e. (finish_job now (fst (call w)) (snd (call w)) seen e)\<lparr>e_pc := Ending\<rparr>) m"
    using r Running by (auto simp: run_def Let_def split_def split: choice.splits if_splits)
  then show ?thesis
    using evolves_upd [OF n, where f = "\<lambda>e. (finish_job now (fst (call w)) (snd (call w)) seen e)\<lparr>e_pc := Ending\<rparr>"]
      evolves.finished [OF Running] by simp
next
  case Starting
  show ?thesis
  proof (cases "start now (mg_entries m ! i)")
    case None
    then have m': "m' = goto i Barred m" using r Starting by (simp add: run_def Let_def)
    have "moves (mg_closed m) (mg_entries m ! i) Barred"
      using Starting None by (simp add: moves_def start_def split: if_splits)
    from evolves_goto [OF n this] m' show ?thesis by simp
  next
    case (Some e')
    then have "m' = upd i (\<lambda>_. e'\<lparr>e_pc := Running\<rparr>) m" using r Starting by (simp add: run_def Let_def)
    then show ?thesis
      using evolves_upd [OF n, where f = "\<lambda>_. e'\<lparr>e_pc := Running\<rparr>"] evolves.started [OF Starting Some] by simp
  qed
next
  case Acquired
  then have m': "m' = goto i Holding (leaveQueue (e_class (mg_entries m ! i)) m)" using r by (simp add: run_def Let_def)
  have "moves (mg_closed m) (mg_entries m ! i) Holding" using Acquired by (simp add: moves_def)
  from evolves_goto [OF n this] m' show ?thesis by simp
next
  case Quitting
  then have m': "m' = goto i Quit (leaveQueue (e_class (mg_entries m ! i)) m)" using r by (simp add: run_def Let_def)
  have "moves (mg_closed m) (mg_entries m ! i) Quit" using Quitting by (simp add: moves_def)
  from evolves_goto [OF n this] m' show ?thesis by simp
next
  case Holding
  then have m': "m' = goto i (if mg_closed m then Barred else Starting) m"
    using r by (simp add: run_def Let_def isClosed_def)
  have "moves (mg_closed m) (mg_entries m ! i) (if mg_closed m then Barred else Starting)"
    using Holding by (simp add: moves_def)
  from evolves_goto [OF n this] m' show ?thesis by simp
next
  case Barred
  then have m': "m' = upd i (\<lambda>e. (finishQueued now e)\<lparr>e_pc := Ending\<rparr>) m" using r by (simp add: run_def Let_def)
  then show ?thesis
    using evolves_upd [OF n, where f = "\<lambda>e. (finishQueued now e)\<lparr>e_pc := Ending\<rparr>"] evolves.unqueued [of _ Ending] Barred
    by simp
next
  case Quit
  then have m': "m' = upd i (\<lambda>e. (finishQueued now e)\<lparr>e_pc := Released\<rparr>) m" using r by (simp add: run_def Let_def)
  then show ?thesis
    using evolves_upd [OF n, where f = "\<lambda>e. (finishQueued now e)\<lparr>e_pc := Released\<rparr>"] evolves.unqueued [of _ Released] Quit
    by simp
next
  case Ending
  obtain m1 where "give_slot (e_class (mg_entries m ! i)) m = Some m1" and m': "m' = goto i Released m1"
    using r Ending by (auto simp: run_def Let_def)
  then have m1: "mg_entries m1 = mg_entries m" "mg_closed m1 = mg_closed m" by (simp_all add: give_slot_Some)
  have "moves (mg_closed m) (mg_entries m ! i) Released" using Ending by (simp add: moves_def)
  from evolves_goto [OF n this m1(1)] m' m1 show ?thesis by simp
next
  case Released
  then have "m' = upd i (\<lambda>e. e\<lparr>e_ctxDone := True, e_pc := Unwound\<rparr>) m" using r by (simp add: run_def Let_def)
  then show ?thesis
    using evolves_upd [OF n, where f = "\<lambda>e. e\<lparr>e_ctxDone := True, e_pc := Unwound\<rparr>"] evolves.unwound [OF Released] by simp
next
  case Unwound
  then have m': "m' = goto i Notified (notifyFinish i m)" using r by (simp add: run_def Let_def)
  have p: "\<not> unstarted (e_pc (mg_entries m ! i))" "e_pc (mg_entries m ! i) \<noteq> Running" using Unwound by (simp_all add: pc_sets)
  from finished_facts(3) [OF entry_ok_nth [OF ok i] p] Unwound
  have "\<not> e_notified (mg_entries m ! i)" by (simp add: pc_sets)
  then have es: "mg_entries m' = mg_entries (upd i (\<lambda>e. e\<lparr>e_notified := True, e_pc := Notified\<rparr>) m)"
    using i by (simp add: m' notifyFinish_def Let_def)
  have "mg_closed m' = mg_closed m" by (simp add: m')
  then show ?thesis
    using evolves_upd [OF n, where f = "\<lambda>e. e\<lparr>e_notified := True, e_pc := Notified\<rparr>"] evolves.notified [OF Unwound]
    unfolding es by simp
next
  case Notified
  then have m': "m' = goto i Gone m" using r by (simp add: run_def Let_def)
  have "moves (mg_closed m) (mg_entries m ! i) Gone" using Notified by (simp add: moves_def)
  from evolves_goto [OF n this] m' show ?thesis by simp
next
  case Gone
  then show ?thesis using r by (simp add: run_def Let_def)
qed

lemma register_simps [simp]:
  "mg_entries (register e m) = mg_entries m @ [e]" "mg_closed (register e m) = mg_closed m"
  "mg_limits (register e m) = mg_limits m" "mg_closing (register e m) = mg_closing m"
  by (simp_all add: register_def)

lemma Submit_entries:
  "(mg_entries (snd (Submit now kind title meta hasFn r m)) = mg_entries m
    \<or> (\<not> mg_closed m \<and> (\<exists>i. mg_entries (snd (Submit now kind title meta hasFn r m)) = mg_entries m @ [entry_of i kind title meta now])))
   \<and> mg_closed (snd (Submit now kind title meta hasFn r m)) = mg_closed m"
  by (auto simp: Submit_def Let_def split: sum.split)

lemma exec_evolves:
  assumes ok: "jobs_ok m" and n: "n < length (mg_entries m)"
  shows "n < length (mg_entries (exec rnd decay m ev)) \<and>
    evolves rnd decay (mg_closed m) (mg_entries m ! n) (mg_entries (exec rnd decay m ev) ! n)"
proof (cases ev)
  case (Submits now kind title meta hasFn r)
  then show ?thesis
    using Submit_entries [of now kind title meta hasFn r m] n
    by (auto simp: exec_def nth_append evolves.stays)
next
  case (Runs now ch i)
  show ?thesis
  proof (cases "i < length (mg_entries m) \<and> run now ch i m \<noteq> None")
    case True
    then obtain m' where "run now ch i m = Some m'" by blast
    with True run_evolves [OF ok _ this n] n show ?thesis by (simp add: exec_def Runs attempt_def)
  next
    case False
    then have "exec rnd decay m ev = m" by (auto simp: exec_def Runs attempt_def)
    then show ?thesis using n by (simp add: evolves.stays)
  qed
next
  case (Reports now r i)
  then show ?thesis
    using n evolves_upd [OF n, where f = "apply_report rnd decay now r"] evolves.reported [of "mg_entries m ! i" rnd decay]
    by (simp add: exec_def evolves.stays)
next
  case (Cancels i)
  then show ?thesis
    using n evolves_upd [OF n, where f = "snd \<circ> requestCancel"] evolves.cancelled
    by (simp add: exec_def Cancel_def evolves.stays split: option.split)
next
  case (Replaces i res)
  then show ?thesis
    using n evolves_upd [OF n, where f = "\<lambda>e. e\<lparr>e_job := (e_job e)\<lparr>j_Result := b\<rparr>\<rparr>" for b] evolves.replaced
    by (simp add: exec_def ReplaceResult_def Let_def evolves.stays split: option.split work_result.split)
next
  case (CloseCancels k)
  then show ?thesis
    using n evolves_upd [OF n, where f = "snd \<circ> requestCancel"] evolves.cancelled
    by (simp add: exec_def Close_cancel_def attempt_def evolves.stays)
next
  case (GivesBack g)
  then show ?thesis
    using n by (auto simp: exec_def attempt_def release_def give_slot_def evolves.stays split: prod.split bool.split)
qed (use n in \<open>simp_all add: exec_def Reap_def Admit_slot_def attempt_def Close_begin_def evolves.stays\<close>)

lemma exec_closed: "jobs_ok m \<Longrightarrow> mg_closed m \<Longrightarrow> mg_closed (exec rnd decay m ev)"
proof (cases ev)
  case (Submits now kind title meta hasFn r)
  assume "mg_closed m"
  then show ?thesis using Submit_entries [of now kind title meta hasFn r m] by (simp add: exec_def Submits)
next
  case (Runs now ch i)
  assume "jobs_ok m" "mg_closed m"
  then show ?thesis
    using run_evolves [where n = i] by (auto simp: exec_def Runs attempt_def split: option.split)
next
  case (GivesBack g)
  assume "mg_closed m"
  then show ?thesis by (auto simp: exec_def GivesBack attempt_def release_def give_slot_def split: option.split prod.split bool.split)
qed (auto simp: exec_def Cancel_def ReplaceResult_def Let_def Reap_def Admit_slot_def attempt_def Close_begin_def Close_cancel_def
  split: option.split work_result.split)

text \<open>
  A property of one entry that every single-entry step keeps holds of it along every run.
\<close>

lemma entry_run:
  assumes keep: "\<And>e e'. entry_ok e \<Longrightarrow> P e \<Longrightarrow> evolves rnd decay False e e' \<or> evolves rnd decay True e e' \<Longrightarrow> P e'"
    and "jobs_ok m" "n < length (mg_entries m)" "P (mg_entries m ! n)"
  shows "n < length (mg_entries (foldl (exec rnd decay) m evs)) \<and> P (mg_entries (foldl (exec rnd decay) m evs) ! n)"
proof -
  have "n < length (mg_entries (exec rnd decay s e)) \<and> P (mg_entries (exec rnd decay s e) ! n)"
    if "jobs_ok s" "n < length (mg_entries s) \<and> P (mg_entries s ! n)" for s e
    using exec_evolves [OF that(1), of n rnd decay e] that keep [OF entry_ok_nth [OF that(1)]]
    by (cases "mg_closed s") auto
  then show ?thesis
    using manager.run_invariant_of [where P = "\<lambda>s. n < length (mg_entries s) \<and> P (mg_entries s ! n)"
        and Q = "\<lambda>_. True" and rnd = rnd and decay = decay and s = m and es = evs] assms(2-4) by (simp add: list.pred_True)
qed

text \<open>The same for properties that only hold once the manager is closed.\<close>

lemma entry_run_closed:
  assumes keep: "\<And>e e'. entry_ok e \<Longrightarrow> P e \<Longrightarrow> evolves rnd decay True e e' \<Longrightarrow> P e'"
    and "jobs_ok m" "mg_closed m" "n < length (mg_entries m)" "P (mg_entries m ! n)"
  shows "P (mg_entries (foldl (exec rnd decay) m evs) ! n)"
proof -
  let ?I = "\<lambda>s. mg_closed s \<and> n < length (mg_entries s) \<and> P (mg_entries s ! n)"
  have "?I (exec rnd decay s e)" if "jobs_ok s" "?I s" for s e
    using exec_evolves [OF that(1), of n rnd decay e] that keep [OF entry_ok_nth [OF that(1)]] exec_closed [OF that(1)]
    by auto
  then show ?thesis
    using manager.run_invariant_of [where P = ?I and Q = "\<lambda>_. True" and rnd = rnd and decay = decay and s = m and es = evs]
      assms(2-5) by (simp add: list.pred_True)
qed

subsection \<open>The public life cycle\<close>

text \<open>What a reader of the job list may see one state turn into.\<close>

inductive life_step :: "jstate \<Rightarrow> jstate \<Rightarrow> bool" where
  "life_step s s"
| "life_step StateQueued StateRunning"
| "life_step StateQueued StateCancelled"
| "life_step StateRunning StateDone"
| "life_step StateRunning StateFailed"
| "life_step StateRunning StateCancelled"

lemma life_step_Terminal: "life_step s s' \<Longrightarrow> Terminal s \<Longrightarrow> s' = s"
  by (auto elim!: life_step.cases)

text \<open>What is final once the state is.\<close>

definition verdict_of :: "job \<Rightarrow> jstate \<times> time option \<times> bool \<times> string \<times> string \<times> string" where
  "verdict_of j = (j_State j, j_FinishedAt j, j_Partial j, j_Note j, j_Err j, j_ErrCode j)"

lemma report_verdict: "verdict_of (e_job (apply_report rnd decay now r e)) = verdict_of (e_job e)"
proof -
  have "j_Note (e_job (apply_report rnd decay now r e)) = j_Note (e_job e) \<and>
    j_ErrCode (e_job (apply_report rnd decay now r e)) = j_ErrCode (e_job e)"
  proof (cases r)
    case (RSet f ft b bt)
    let ?e = "e\<lparr>e_job := (e_job e)\<lparr>j_Files := f, j_FilesTotal := ft, j_Bytes := b, j_BytesTotal := bt, j_UpdatedAt := now\<rparr>\<rparr>"
    obtain w where w: "e_job (etaLocked rnd now (sampleLocked rnd decay now b ?e))
        = (e_job (sampleLocked rnd decay now b ?e))\<lparr>j_ETA := w\<rparr>"
      using etaLocked_job by blast
    show ?thesis
      by (simp add: apply_report_def RSet Set_counts_def w, subst (1 2) sampleLocked_job, simp)
  qed (simp_all add: apply_report_def Current_def Phase_def Warn_def add_warning_def)
  then show ?thesis using report_job [of rnd decay now r e] by (simp add: verdict_of_def)
qed

lemma evolves_verdict:
  assumes "evolves rnd decay c e e'" "entry_ok e" "Terminal (j_State (e_job e))"
  shows "verdict_of (e_job e') = verdict_of (e_job e)"
proof -
  have p: "\<not> unstarted (e_pc e)" "e_pc e \<noteq> Running"
    using assms(2,3) unstarted_facts(1) running_facts(1) by fastforce+
  show ?thesis
    using assms(1) p assms(3)
  proof (cases rule: evolves.cases)
    case (reported now r)
    then show ?thesis by (simp add: report_verdict)
  next
    case (unqueued p now)
    then show ?thesis using p by (auto simp: pc_sets)
  next
    case (started now x)
    then show ?thesis using p by (simp add: pc_sets)
  next
    case (replaced b)
    then show ?thesis by (simp add: verdict_of_def)
  qed (use p in simp_all)
qed

lemma evolves_life:
  assumes "evolves rnd decay c e e'" "entry_ok e"
  shows "life_step (j_State (e_job e)) (j_State (e_job e'))"
  using assms
proof (cases rule: evolves.cases)
  case (started now x)
  then have "unstarted (e_pc e)" by (simp add: pc_sets)
  from unstarted_facts(1) [OF assms(2) this] started show ?thesis
    by (auto simp: start_def life_step.intros split: if_splits)
next
  case (unqueued p now)
  then have "unstarted (e_pc e)" by (auto simp: pc_sets)
  from unstarted_facts(1) [OF assms(2) this] unqueued show ?thesis
    by (simp add: finishQueued_def life_step.intros)
next
  case (finished seen now res err)
  from running_facts(1) [OF assms(2) finished(2)] finished show ?thesis
    by (auto simp: finish_state life_step.intros split: option.split)
next
  case (reported now r)
  then show ?thesis using report_job by (simp add: life_step.intros)
qed (simp_all add: life_step.intros)

subsection \<open>Retention\<close>

text \<open>Among distinct keys, the place of an element in the sorted list is the number of smaller ones.\<close>

lemma strictly_sorted_nth:
  assumes "sorted_wrt (<) (xs :: 'a::linorder list)" "p < length xs"
  shows "card {y \<in> set xs. y < xs ! p} = p"
proof -
  have "{y \<in> set xs. y < xs ! p} = set (take p xs)"
  proof (rule set_eqI)
    fix y
    show "y \<in> {y \<in> set xs. y < xs ! p} \<longleftrightarrow> y \<in> set (take p xs)"
    proof
      assume "y \<in> {y \<in> set xs. y < xs ! p}"
      then obtain q where q: "q < length xs" "y = xs ! q" "xs ! q < xs ! p" by (auto simp: in_set_conv_nth)
      have "q < p"
      proof (rule ccontr)
        assume "\<not> q < p"
        then have "xs ! p \<le> xs ! q"
          using assms q(1) sorted_wrt_nth_less [OF assms(1), of p q] by (cases "p = q") auto
        then show False using q(3) by simp
      qed
      then show "y \<in> set (take p xs)" using q assms(2) by (auto simp: in_set_conv_nth)
    next
      assume "y \<in> set (take p xs)"
      then obtain q where q: "q < p" "y = xs ! q" using assms(2) by (auto simp: in_set_conv_nth)
      then show "y \<in> {y \<in> set xs. y < xs ! p}" using assms sorted_wrt_nth_less [OF assms(1), of q p] by auto
    qed
  qed
  moreover have "distinct (take p xs)"
    using assms(1) by (simp add: strict_sorted_iff)
  ultimately show ?thesis using assms(2) by (simp add: distinct_card)
qed

lemma drop_sorted_iff:
  fixes f :: "'b \<Rightarrow> 'a::linorder"
  assumes "distinct xs" and inj: "inj_on f (set xs)"
  shows "x \<in> set (drop k (sort_key f xs)) \<longleftrightarrow> x \<in> set xs \<and> k \<le> card {y \<in> set xs. f y < f x}"
proof -
  let ?s = "sort_key f xs"
  have s: "sorted_wrt (<) (map f ?s)"
    unfolding strict_sorted_iff using assms by (simp add: distinct_map)
  have c: "card {y \<in> set xs. f y < f (?s ! p)} = p" if "p < length ?s" for p
  proof -
    have "card {z \<in> set (map f ?s). z < map f ?s ! p} = p" using strictly_sorted_nth [OF s] that by simp
    moreover have "{z \<in> set (map f ?s). z < map f ?s ! p} = f ` {y \<in> set xs. f y < f (?s ! p)}"
      using that by auto
    moreover have "inj_on f {y \<in> set xs. f y < f (?s ! p)}" using inj by (rule inj_on_subset) auto
    ultimately show ?thesis by (simp add: card_image)
  qed
  show ?thesis
  proof
    assume "x \<in> set (drop k ?s)"
    then obtain q where "q < length ?s - k" "x = ?s ! (k + q)" by (auto simp: in_set_conv_nth)
    then have q: "k + q < length ?s" "x = ?s ! (k + q)" by auto
    have "x \<in> set ?s" using q nth_mem by blast
    then show "x \<in> set xs \<and> k \<le> card {y \<in> set xs. f y < f x}" using c [OF q(1)] q(2) by simp
  next
    assume x: "x \<in> set xs \<and> k \<le> card {y \<in> set xs. f y < f x}"
    then have "x \<in> set ?s" by simp
    then obtain p where p: "p < length ?s" "x = ?s ! p" unfolding in_set_conv_nth by metis
    with x c [OF p(1)] have "k \<le> p" by simp
    then have "x = drop k ?s ! (p - k)" "p - k < length (drop k ?s)" using p by auto
    then show "x \<in> set (drop k ?s)" using nth_mem by blast
  qed
qed

definition fresher :: "manager \<Rightarrow> nat \<Rightarrow> nat \<Rightarrow> bool" where
  \<comment> \<open>the order Reap sorts by: finished later, or submitted later at the same instant\<close>
  "fresher m k n \<longleftrightarrow> when_finished (mg_entries m ! n) < when_finished (mg_entries m ! k)
     \<or> (when_finished (mg_entries m ! n) = when_finished (mg_entries m ! k) \<and> n < k)"

definition seen_ended :: "nat list \<Rightarrow> manager \<Rightarrow> nat list" where
  "seen_ended late m =
     filter (\<lambda>n. Terminal (j_State (e_job (mg_entries m ! n))) \<and> n \<notin> set late) (map snd (mg_jobs m))"

lemma jobs_distinct:
  assumes "jobs_ok m" shows "distinct (map snd (mg_jobs m))"
proof -
  have ok: "index_ok m" using assms by (simp add: jobs_ok_def)
  have t: "distinct (map fst (mg_jobs m))" using ok by (simp add: index_ok_def table_ok_def)
  have "inj_on snd (set (mg_jobs m))"
  proof (rule inj_onI)
    fix x y assume x: "x \<in> set (mg_jobs m)" and y: "y \<in> set (mg_jobs m)" and s: "snd x = snd y"
    have "tget (mg_jobs m) (fst x) = Some (snd x)" "tget (mg_jobs m) (fst y) = Some (snd y)"
      using t x y by (simp_all add: tget_def)
    then have "fst x = fst y" using entry_indexed [OF assms] s by metis
    then show "x = y" using s by (simp add: prod_eq_iff)
  qed
  moreover have "distinct (mg_jobs m)" using t by (simp add: distinct_map)
  ultimately show ?thesis by (simp add: distinct_map)
qed

lemma reap_doomed_iff:
  assumes "jobs_ok m"
  shows "n \<in> set (reap_doomed now late m) \<longleftrightarrow>
    n \<in> set (seen_ended late m) \<and> when_finished (mg_entries m ! n) \<le> now - RetainMinutes (mg_limits m) * 60 * 10 ^ 9
    \<and> nat (RetainCount (mg_limits m)) \<le> card {k \<in> set (seen_ended late m). fresher m k n}"
proof -
  let ?f = "\<lambda>n. (- when_finished (mg_entries m ! n), - int n)"
  have "distinct (seen_ended late m)" unfolding seen_ended_def by (rule distinct_filter [OF jobs_distinct [OF assms]])
  moreover have "inj_on ?f (set (seen_ended late m))" by (rule inj_onI) simp
  moreover have "?f k < ?f n \<longleftrightarrow> fresher m k n" for k n by (auto simp: fresher_def less_prod_def)
  ultimately have "n \<in> set (drop j (sort_key ?f (seen_ended late m))) \<longleftrightarrow>
    n \<in> set (seen_ended late m) \<and> j \<le> card {k \<in> set (seen_ended late m). fresher m k n}" for j
    by (simp add: drop_sorted_iff)
  then show ?thesis by (auto simp: reap_doomed_def reap_done_def seen_ended_def)
qed

subsection \<open>Shutdown drains\<close>

text \<open>How many steps a goroutine still has before it is gone, at most.\<close>

definition steps_left :: "pc \<Rightarrow> nat" where
  "steps_left p =
     (case p of Waiting \<Rightarrow> 9 | Acquired \<Rightarrow> 8 | Holding \<Rightarrow> 7 | Starting \<Rightarrow> 6 | Running \<Rightarrow> 5 | Barred \<Rightarrow> 5
      | Ending \<Rightarrow> 4 | Quitting \<Rightarrow> 5 | Quit \<Rightarrow> 4 | Released \<Rightarrow> 3 | Unwound \<Rightarrow> 2 | Notified \<Rightarrow> 1 | Gone \<Rightarrow> 0)"

lemma steps_left_zero: "steps_left p = 0 \<longleftrightarrow> p = Gone"
  by (cases p) (simp_all add: steps_left_def)

text \<open>Once closed, whatever is not final has been cancelled or is on Close's list.\<close>

definition stopping :: "manager \<Rightarrow> bool" where
  "stopping m \<longleftrightarrow> mg_closed m \<and> mg_closing m = []
     \<and> list_all (\<lambda>e. Terminal (j_State (e_job e)) \<or> (e_cancelRequested e \<and> e_ctxDone e)) (mg_entries m)"

lemma run_enabled:
  assumes ok: "jobs_ok m" and st: "stopping m" and i: "i < length (mg_entries m)" "e_pc (mg_entries m ! i) \<noteq> Gone"
  shows "\<exists>ch m'. ch \<noteq> SlotFree \<and> run now ch i m = Some m' \<and> steps_left (e_pc (mg_entries m' ! i)) < steps_left (e_pc (mg_entries m ! i))
    \<and> (\<forall>k < length (mg_entries m). k \<noteq> i \<longrightarrow> mg_entries m' ! k = mg_entries m ! k)
    \<and> length (mg_entries m') = length (mg_entries m) \<and> stopping m'"
proof -
  let ?e = "mg_entries m ! i"
  have stop: "Terminal (j_State (e_job ?e)) \<or> (e_cancelRequested ?e \<and> e_ctxDone ?e)"
    and closed: "mg_closed m" "mg_closing m = []"
    using st i(1) by (simp_all add: stopping_def list_all_length)
  have one: ?thesis
    if "ch \<noteq> SlotFree" and r: "run now ch i m = Some m'" and es: "mg_entries m' = (mg_entries m)[i := y]"
      and "steps_left (e_pc y) < steps_left (e_pc ?e)" "mg_closed m'" "mg_closing m' = []"
      and y: "Terminal (j_State (e_job y)) \<or> (e_cancelRequested y \<and> e_ctxDone y)" for ch m' y
  proof -
    have "stopping m'"
      using st y that(5,6) unfolding stopping_def es list_all_iff
      by (auto dest!: set_update_subset_insert [THEN subsetD])
    then show ?thesis using that i(1) by (intro exI [of _ ch] exI [of _ m']) simp
  qed
  have goes: ?thesis
    if "run now ch i m = Some (goto i p m1)" "ch \<noteq> SlotFree" "mg_entries m1 = mg_entries m" "steps_left p < steps_left (e_pc ?e)"
      "mg_closed m1" "mg_closing m1 = []" for ch p m1
    by (rule one [OF that(2,1), where y = "?e\<lparr>e_pc := p\<rparr>"]) (use that stop in simp_all)
  have live: "e_cancelRequested ?e \<and> e_ctxDone ?e" if "unstarted (e_pc ?e) \<or> e_pc ?e = Running"
    using stop that unstarted_facts(1) [OF entry_ok_nth [OF ok i(1)]] running_facts(1) [OF entry_ok_nth [OF ok i(1)]]
    by auto
  note steps = steps_left_def run_def Let_def closed
  show ?thesis
  proof (cases "e_pc ?e")
    case Waiting
    then have "e_ctxDone ?e" using live by (simp add: pc_sets)
    then show ?thesis using goes [of CtxDone Quitting m] Waiting by (simp add: steps)
  next
    case Acquired
    then show ?thesis using goes [of Next Holding "leaveQueue (e_class ?e) m"] by (simp add: steps)
  next
    case Holding
    then show ?thesis using goes [of Next Barred m] by (simp add: steps isClosed_def)
  next
    case Starting
    then have "e_cancelRequested ?e" using live by (simp add: pc_sets)
    then have "start now ?e = None" by (simp add: start_def)
    then show ?thesis using goes [of Next Barred m] Starting by (simp add: steps)
  next
    case Barred
    have "Terminal (j_State (e_job (finishQueued now ?e)))" by (simp add: finishQueued_def)
    then show ?thesis
      using one [of Next "upd i (\<lambda>e. (finishQueued now e)\<lparr>e_pc := Ending\<rparr>) m" "(finishQueued now ?e)\<lparr>e_pc := Ending\<rparr>"] Barred
      by (simp add: steps)
  next
    case Running
    let ?f = "\<lambda>e. (finish_job now NoResult None False e)\<lparr>e_pc := Ending\<rparr>"
    show ?thesis
      using one [of "Returns (Returned NoResult None) False" "upd i ?f m" "?f ?e"] Running
      by (simp add: steps call_def)
  next
    case Ending
    have "0 < mg_slots m (e_class ?e)" using holder_counted(1) [OF ok i(1)] Ending by (simp add: pc_sets)
    then obtain m1 where m1: "give_slot (e_class ?e) m = Some m1" by (auto simp: give_slot_def)
    then have "mg_entries m1 = mg_entries m" "mg_closed m1" "mg_closing m1 = []"
      using closed by (simp_all add: give_slot_Some)
    then show ?thesis using goes [of Next Released m1] m1 Ending by (simp add: steps)
  next
    case Quitting
    then show ?thesis using goes [of Next Quit "leaveQueue (e_class ?e) m"] by (simp add: steps)
  next
    case Quit
    have "Terminal (j_State (e_job (finishQueued now ?e)))" by (simp add: finishQueued_def)
    then show ?thesis
      using one [of Next "upd i (\<lambda>e. (finishQueued now e)\<lparr>e_pc := Released\<rparr>) m" "(finishQueued now ?e)\<lparr>e_pc := Released\<rparr>"] Quit
      by (simp add: steps)
  next
    case Released
    have p: "\<not> unstarted (e_pc ?e)" "e_pc ?e \<noteq> Running" using Released by (simp_all add: pc_sets)
    note fin = finished_facts(1) [OF entry_ok_nth [OF ok i(1)] p]
    show ?thesis
      using one [of Next "upd i (\<lambda>e. e\<lparr>e_ctxDone := True, e_pc := Unwound\<rparr>) m" "?e\<lparr>e_ctxDone := True, e_pc := Unwound\<rparr>"]
        Released fin by (simp add: steps)
  next
    case Unwound
    have p: "\<not> unstarted (e_pc ?e)" "e_pc ?e \<noteq> Running" using Unwound by (simp_all add: pc_sets)
    note fin = finished_facts [OF entry_ok_nth [OF ok i(1)] p]
    have es: "mg_entries (goto i Notified (notifyFinish i m)) = (mg_entries m)[i := ?e\<lparr>e_notified := True, e_pc := Notified\<rparr>]"
      using fin(3) Unwound i(1) by (simp add: notifyFinish_def Let_def pc_sets)
    show ?thesis
      by (rule one [OF _ _ es, of Next]) (use Unwound fin in \<open>simp_all add: steps\<close>)
  next
    case Notified
    then show ?thesis using goes [of Next Gone m] by (simp add: steps)
  qed (use i(2) in simp)
qed

definition work_left :: "manager \<Rightarrow> nat" where
  "work_left m = sum_list (map (\<lambda>e. steps_left (e_pc e)) (mg_entries m))"

lemma work_left_less:
  assumes "i < length (mg_entries m)" "length (mg_entries m') = length (mg_entries m)"
    and "steps_left (e_pc (mg_entries m' ! i)) < steps_left (e_pc (mg_entries m ! i))"
    and "\<forall>k < length (mg_entries m). k \<noteq> i \<longrightarrow> mg_entries m' ! k = mg_entries m ! k"
  shows "work_left m' < work_left m"
proof -
  have es: "mg_entries m' = (mg_entries m)[i := mg_entries m' ! i]"
    by (rule nth_equalityI) (use assms(1,2,4) in \<open>auto simp: nth_list_update\<close>)
  have "sum_list (map f (xs[i := y])) + f (xs ! i) = sum_list (map f xs) + f y"
    if "i < length xs" for f :: "jentry \<Rightarrow> nat" and xs y
    using that
  proof (induction xs arbitrary: i)
    case (Cons x xs)
    then show ?case by (cases i) auto
  qed simp
  from this [OF assms(1), of "\<lambda>e. steps_left (e_pc e)" "mg_entries m' ! i"] assms(3) show ?thesis
    unfolding work_left_def es [symmetric] by simp
qed

text \<open>A step a job's goroutine makes by itself, without being given a slot.\<close>

definition own_step :: "event \<Rightarrow> bool" where
  "own_step ev = (case ev of Runs now ch i \<Rightarrow> ch \<noteq> SlotFree | _ \<Rightarrow> False)"

lemma drain:
  assumes "jobs_ok m" "stopping m"
  shows "\<exists>evs. list_all own_step evs \<and> length evs \<le> work_left m \<and> Close_done (foldl (exec rnd decay) m evs)"
  using assms
proof (induction "work_left m" arbitrary: m rule: less_induct)
  case less
  show ?case
  proof (cases "Close_done m")
    case True
    then show ?thesis by (intro exI [of _ "[]"]) simp
  next
    case False
    then obtain i where i: "i < length (mg_entries m)" "e_pc (mg_entries m ! i) \<noteq> Gone"
      by (auto simp: Close_done_def list_all_length)
    obtain ch m' where sf: "ch \<noteq> SlotFree" and r: "run 0 ch i m = Some m'" "length (mg_entries m') = length (mg_entries m)" "stopping m'"
      "steps_left (e_pc (mg_entries m' ! i)) < steps_left (e_pc (mg_entries m ! i))"
      "\<forall>k < length (mg_entries m). k \<noteq> i \<longrightarrow> mg_entries m' ! k = mg_entries m ! k"
      using run_enabled [OF less.prems i] by blast
    have w: "work_left m' < work_left m" by (rule work_left_less [OF i(1) r(2,4,5)])
    from less.hyps [OF w run_ok [OF less.prems(1) i(1) r(1)] r(3)]
    obtain evs where e: "list_all own_step evs" "length evs \<le> work_left m'" "Close_done (foldl (exec rnd decay) m' evs)" by blast
    have "exec rnd decay m (Runs 0 ch i) = m'" using i(1) r(1) by (simp add: exec_def attempt_def)
    then show ?thesis using e w sf by (intro exI [of _ "Runs 0 ch i # evs"]) (simp add: own_step_def)
  qed
qed

definition told_to_stop :: "jentry \<Rightarrow> bool" where
  "told_to_stop e \<longleftrightarrow> Terminal (j_State (e_job e)) \<or> (e_cancelRequested e \<and> e_ctxDone e)"

definition shut_ok :: "manager \<Rightarrow> bool" where
  "shut_ok m \<longleftrightarrow> (mg_closed m \<longrightarrow>
     (\<forall>n < length (mg_entries m). told_to_stop (mg_entries m ! n) \<or> n \<in> set (mg_closing m)))"

lemma requestCancel_told: "told_to_stop (snd (requestCancel e))"
  by (simp add: told_to_stop_def requestCancel_def)

lemma evolves_told:
  assumes "evolves rnd decay c e e'" "entry_ok e" "told_to_stop e"
  shows "told_to_stop e'"
  using assms(1)
proof (cases rule: evolves.cases)
  case (started now x)
  then have "unstarted (e_pc e)" by (simp add: pc_sets)
  from unstarted_facts(1) [OF assms(2) this] started assms(3) show ?thesis
    by (auto simp: start_def told_to_stop_def split: if_splits)
next
  case (reported now r)
  then show ?thesis using assms(3) report_job [of rnd decay now r e] by (simp add: told_to_stop_def)
next
  case (unqueued p now)
  then show ?thesis using assms(3) by (simp add: told_to_stop_def finishQueued_def)
next
  case cancelled
  then show ?thesis by (simp add: requestCancel_told)
next
  case unwound
  then show ?thesis using assms(3) unfolding told_to_stop_def by fastforce
qed (use assms(3) in \<open>simp_all add: told_to_stop_def\<close>)

lemma run_frame:
  assumes "run now ch i m = Some m'"
  shows "mg_closing m' = mg_closing m \<and> mg_limits m' = mg_limits m"
proof (cases "e_pc (mg_entries m ! i)")
  case Waiting
  then show ?thesis using assms by (auto simp: run_def Let_def split: choice.splits if_splits)
next
  case Running
  then show ?thesis using assms by (auto simp: run_def Let_def split_def split: choice.splits if_splits)
next
  case Starting
  then show ?thesis using assms by (auto simp: run_def Let_def split: option.splits)
next
  case Ending
  then obtain m1 where "give_slot (e_class (mg_entries m ! i)) m = Some m1" "m' = goto i Released m1"
    using assms by (auto simp: run_def Let_def)
  then show ?thesis by (simp add: give_slot_Some)
qed (use assms in \<open>auto simp: run_def Let_def\<close>)

lemma exec_closing:
  assumes "n \<in> set (mg_closing m)" "n < length (mg_entries m)"
  shows "n \<in> set (mg_closing (exec rnd decay m ev)) \<or> told_to_stop (mg_entries (exec rnd decay m ev) ! n)"
proof (cases ev)
  case (Submits now kind title meta hasFn r)
  have "mg_closing (snd (Submit now kind title meta hasFn r m)) = mg_closing m"
    by (auto simp: Submit_def Let_def split: sum.split)
  then show ?thesis using assms(1) by (simp add: exec_def Submits)
next
  case (Runs now ch i)
  show ?thesis
  proof (cases "run now ch i m")
    case (Some m')
    from run_frame [OF this] assms(1) show ?thesis by (simp add: exec_def Runs attempt_def Some)
  qed (use assms(1) in \<open>simp add: exec_def Runs attempt_def\<close>)
next
  case (CloseCancels k)
  show ?thesis
  proof (cases "k \<in> set (mg_closing m)")
    case True
    then show ?thesis
      using assms by (cases "k = n") (simp_all add: exec_def CloseCancels Close_cancel_def attempt_def requestCancel_told [unfolded comp_def])
  next
    case False
    then show ?thesis using assms(1) by (simp add: exec_def CloseCancels Close_cancel_def attempt_def)
  qed
next
  case (GivesBack g)
  then show ?thesis using assms(1)
    by (auto simp: exec_def attempt_def release_def give_slot_def split: option.split prod.split bool.split)
qed (use assms(1) in \<open>auto simp: exec_def Cancel_def ReplaceResult_def Let_def Reap_def Admit_slot_def attempt_def Close_begin_def
  split: option.split work_result.split\<close>)

lemma exec_shut:
  assumes ok: "jobs_ok m" and sh: "shut_ok m"
  shows "shut_ok (exec rnd decay m ev)"
  unfolding shut_ok_def
proof (intro impI allI)
  let ?m = "exec rnd decay m ev"
  fix n assume closed: "mg_closed ?m" and n: "n < length (mg_entries ?m)"
  show "told_to_stop (mg_entries ?m ! n) \<or> n \<in> set (mg_closing ?m)"
  proof (cases "mg_closed m")
    case True
    have "length (mg_entries ?m) = length (mg_entries m)"
    proof (cases ev)
      case (Submits now kind title meta hasFn r)
      then show ?thesis using Submit_entries [of now kind title meta hasFn r m] True by (auto simp: exec_def)
    next
      case (Runs now ch i)
      then show ?thesis
        using run_evolves [OF ok, where n = i and i = i and now = now and ch = ch]
        by (auto simp: exec_def attempt_def split: option.split)
    next
      case (GivesBack g)
      then show ?thesis by (auto simp: exec_def attempt_def release_def give_slot_def split: option.split prod.split bool.split)
    qed (auto simp: exec_def Cancel_def ReplaceResult_def Let_def Reap_def Admit_slot_def attempt_def Close_begin_def Close_cancel_def
        split: option.split work_result.split)
    then have n': "n < length (mg_entries m)" using n by simp
    with sh True consider "told_to_stop (mg_entries m ! n)" | "n \<in> set (mg_closing m)" by (auto simp: shut_ok_def)
    then show ?thesis
    proof cases
      case 1
      then show ?thesis using exec_evolves [OF ok n', of rnd decay ev] evolves_told [OF _ entry_ok_nth [OF ok n']] by blast
    next
      case 2
      then show ?thesis using exec_closing [OF 2 n'] by blast
    qed
  next
    case False
    have ev: "ev = Closes"
    proof (rule ccontr)
      assume "ev \<noteq> Closes"
      have "mg_closed ?m = mg_closed m"
      proof (cases ev)
        case (Submits now kind title meta hasFn r)
        then show ?thesis using Submit_entries [of now kind title meta hasFn r m] by (simp add: exec_def)
      next
        case (Runs now ch i)
        then show ?thesis
          using run_evolves [OF ok, where n = i and i = i and now = now and ch = ch]
          by (auto simp: exec_def attempt_def split: option.split)
      next
        case (GivesBack g)
        then show ?thesis by (auto simp: exec_def attempt_def release_def give_slot_def split: option.split prod.split bool.split)
      qed (use \<open>ev \<noteq> Closes\<close> in \<open>auto simp: exec_def Cancel_def ReplaceResult_def Let_def Reap_def Admit_slot_def attempt_def Close_cancel_def
          split: option.split work_result.split\<close>)
      then show False using False closed by simp
    qed
    then have n': "n < length (mg_entries m)" and es: "mg_entries ?m = mg_entries m"
      using n by (simp_all add: exec_def Close_begin_def)
    show ?thesis
    proof (cases "Terminal (j_State (e_job (mg_entries m ! n)))")
      case False
      then have "tget (mg_jobs m) (j_ID (e_job (mg_entries m ! n))) = Some n"
        using jobs_ok_parts(3) [OF ok] n' by (simp add: index_ok_def)
      then have "n \<in> snd ` set (mg_jobs m)" by (auto simp: tget_def dest!: map_of_SomeD intro: rev_image_eqI)
      then show ?thesis by (simp add: ev exec_def Close_begin_def)
    qed (simp add: es told_to_stop_def)
  qed
qed

lemma history_ok: "jobs_ok (foldl (exec rnd decay) (New l) evs)"
  by (rule manager.run_inv [OF New_ok])

lemma history_shut: "shut_ok (foldl (exec rnd decay) (New l) evs)"
proof -
  have "shut_ok (New l)" by (simp add: shut_ok_def New_def)
  then show ?thesis
    using manager.run_invariant_of [where P = shut_ok and Q = "\<lambda>_. True", OF exec_shut New_ok] by (simp add: list.pred_True)
qed

lemma history_stopping:
  assumes "mg_closed (foldl (exec rnd decay) (New l) evs)" "mg_closing (foldl (exec rnd decay) (New l) evs) = []"
  shows "stopping (foldl (exec rnd decay) (New l) evs)"
  using history_shut [of rnd decay l evs] assms
  by (auto simp: shut_ok_def stopping_def told_to_stop_def list_all_length)

lemma work_left_le: "work_left m \<le> 9 * length (mg_entries m)"
proof -
  have "sum_list (map (\<lambda>e. steps_left (e_pc e)) es) \<le> 9 * length es" for es :: "jentry list"
    by (induction es) (auto simp: steps_left_def split: pc.split)
  then show ?thesis by (simp add: work_left_def)
qed

lemma history_limits: "mg_limits (foldl (exec rnd decay) (New l) evs) = normalise l"
proof -
  have "mg_limits (exec rnd decay m e) = mg_limits m" for m e
  proof (cases e)
    case (Submits now kind title meta hasFn r)
    then show ?thesis by (auto simp: exec_def Submit_def Let_def split: sum.split)
  next
    case (Runs now ch i)
    show ?thesis
    proof (cases "run now ch i m")
      case (Some m')
      from run_frame [OF this] show ?thesis by (simp add: exec_def Runs attempt_def Some)
    qed (simp add: exec_def Runs attempt_def)
  next
    case (GivesBack g)
    then show ?thesis by (auto simp: exec_def attempt_def release_def give_slot_def split: option.split prod.split bool.split)
  qed (auto simp: exec_def Cancel_def ReplaceResult_def Let_def Reap_def Admit_slot_def attempt_def Close_begin_def Close_cancel_def
      split: option.split work_result.split)
  moreover have "mg_limits (New l) = normalise l" by (simp add: New_def)
  ultimately show ?thesis
    using manager.run_invariant_of [where P = "\<lambda>m. mg_limits m = normalise l" and Q = "\<lambda>_. True", OF _ New_ok]
    by (simp add: list.pred_True)
qed

subsection \<open>Properties\<close>

text \<open>The manager after a sequence of events, from the start.\<close>

definition history :: "(rat \<Rightarrow> rat) \<Rightarrow> (rat \<Rightarrow> rat) \<Rightarrow> limits \<Rightarrow> event list \<Rightarrow> manager" where
  "history rnd decay l evs = foldl (exec rnd decay) (New l) evs"

lemma history_inv: "jobs_ok (history rnd decay l evs)"
  unfolding history_def by (rule history_ok)

lemma history_more: "history rnd decay l (evs @ evs') = foldl (exec rnd decay) (history rnd decay l evs) evs'"
  by (simp add: history_def)

lemma tally_le: "(\<And>p. P p \<Longrightarrow> Q p) \<Longrightarrow> head_count P c es \<le> head_count Q c es"
proof -
  assume pq: "\<And>p. P p \<Longrightarrow> Q p"
  have "length (filter (\<lambda>e. P (e_pc e) \<and> e_class e = c) es) \<le> length (filter (\<lambda>e. Q (e_pc e) \<and> e_class e = c) es)"
    by (induction es) (auto dest: pq)
  then show ?thesis by (simp add: head_count_def)
qed

text \<open>
  C9: The two pools hold. After any interleaving of submissions, goroutine steps, cancellations,
  sweeps, admissions and shutdown: the queue counter is exactly the number of jobs of the class still
  waiting and never above the queue depth, and the jobs of a class that are running, together with the
  guests Admit let in, never exceed the class's slots.
\<close>

theorem pools_bounded:
  "mg_queued (history rnd decay l evs) c = head_count inQueue c (mg_entries (history rnd decay l evs)) \<and>
   int (mg_queued (history rnd decay l evs) c) \<le> QueueDepth (normalise l) \<and>
   int (head_count (\<lambda>p. p = Running) c (mg_entries (history rnd decay l evs))
      + open_guests c (mg_guests (history rnd decay l evs))) \<le> class_cap (normalise l) c"
proof -
  let ?m = "history rnd decay l evs"
  have lim: "mg_limits ?m = normalise l" unfolding history_def by (rule history_limits)
  have k: "mg_queued ?m c = head_count inQueue c (mg_entries ?m)"
    "mg_slots ?m c = head_count holdsSlot c (mg_entries ?m) + open_guests c (mg_guests ?m)"
    "int (mg_queued ?m c) \<le> QueueDepth (normalise l)" "int (mg_slots ?m c) \<le> class_cap (normalise l) c"
    using jobs_ok_parts(2) [OF history_inv [of rnd decay l evs], unfolded counts_ok_def, THEN spec, of c] lim by simp_all
  have "head_count (\<lambda>p. p = Running) c (mg_entries ?m) \<le> head_count holdsSlot c (mg_entries ?m)"
    by (rule tally_le) (simp add: holdsSlot_def)
  then show ?thesis using k by linarith
qed

text \<open>
  C10: The completion hook runs exactly once. In every reachable state no job has been notified twice,
  every job whose goroutine has passed the notification and that has a hook has been notified, no other
  job has, and each hook was handed a terminal state, the one the job still has.
\<close>

theorem hook_exactly_once:
  "distinct (map fst (mg_hooks (history rnd decay l evs))) \<and>
   list_all (\<lambda>(n, j). Terminal (j_State j) \<and> j_State j = j_State (e_job (mg_entries (history rnd decay l evs) ! n)))
     (mg_hooks (history rnd decay l evs)) \<and>
   set (map fst (mg_hooks (history rnd decay l evs)))
     = {n. n < length (mg_entries (history rnd decay l evs)) \<and> told (e_pc (mg_entries (history rnd decay l evs) ! n))
          \<and> e_hook (mg_entries (history rnd decay l evs) ! n)}"
proof -
  let ?m = "history rnd decay l evs"
  note ok = history_inv [of rnd decay l evs]
  note h = jobs_ok_parts(4) [OF ok]
  have told: "e_notified (mg_entries ?m ! n) = told (e_pc (mg_entries ?m ! n))" if "n < length (mg_entries ?m)" for n
    using entry_ok_nth [OF ok that] by (simp add: entry_ok_def phase_ok_def)
  have "list_all (\<lambda>(n, j). Terminal (j_State j) \<and> j_State j = j_State (e_job (mg_entries ?m ! n))) (mg_hooks ?m)"
    using h unfolding hooks_ok_def list_all_iff by blast
  moreover have "set (map fst (mg_hooks ?m)) = {n. n < length (mg_entries ?m) \<and> told (e_pc (mg_entries ?m ! n))
      \<and> e_hook (mg_entries ?m ! n)}"
  proof (rule set_eqI)
    fix n
    show "n \<in> set (map fst (mg_hooks ?m)) \<longleftrightarrow> n \<in> {n. n < length (mg_entries ?m) \<and> told (e_pc (mg_entries ?m ! n))
      \<and> e_hook (mg_entries ?m ! n)}"
    proof
      assume "n \<in> set (map fst (mg_hooks ?m))"
      then obtain j where "(n, j) \<in> set (mg_hooks ?m)" by auto
      then have "n < length (mg_entries ?m)" "e_notified (mg_entries ?m ! n)" "e_hook (mg_entries ?m ! n)"
        using h unfolding hooks_ok_def by blast+
      then show "n \<in> {n. n < length (mg_entries ?m) \<and> told (e_pc (mg_entries ?m ! n)) \<and> e_hook (mg_entries ?m ! n)}"
        using told by blast
    next
      assume "n \<in> {n. n < length (mg_entries ?m) \<and> told (e_pc (mg_entries ?m ! n)) \<and> e_hook (mg_entries ?m ! n)}"
      then have "n < length (mg_entries ?m)" "e_notified (mg_entries ?m ! n) \<and> e_hook (mg_entries ?m ! n)"
        using told by blast+
      then show "n \<in> set (map fst (mg_hooks ?m))" using h unfolding hooks_ok_def by simp
    qed
  qed
  ultimately show ?thesis using h by (simp add: hooks_ok_def)
qed

text \<open>A job with a free slot's worth of history, for the witnesses.\<close>

definition sample_meta :: meta where
  "sample_meta = \<lparr>m_Src = [], m_Dst = [], m_Actor = [], m_UID = 0, m_ID = [], m_OnFinish = True\<rparr>"

definition sample_submit :: event where
  "sample_submit = Submits 5 ''delete'' ''t'' sample_meta True (Some (replicate 8 CHR ''a''))"

definition sample_id :: string where "sample_id = NewID (replicate 8 CHR ''a'')"

definition sample_limits :: limits where
  "sample_limits = \<lparr>ByteMovers = 1, Metadata = 1, QueueDepth = 1, RetainMinutes = 0, RetainCount = 0\<rparr>"

lemma sample_submitted:
  "mg_entries (history rnd decay sample_limits [sample_submit]) = [entry_of sample_id ''delete'' ''t'' sample_meta 5]"
  "mg_jobs (history rnd decay sample_limits [sample_submit]) = [(sample_id, 0)]"
  "mg_closed (history rnd decay sample_limits [sample_submit]) = False"
  "mg_closing (history rnd decay sample_limits [sample_submit]) = []"
  by (simp_all add: history_def exec_def sample_submit_def Submit_def choose_id_def sample_meta_def New_def
      sample_limits_def normalise_def register_def sample_id_def tput_def Let_def)

text \<open>
  C11: A verdict is final. Once a job is done, failed or cancelled, no later event, late progress reports
  of a leaked goroutine, cancellations, result releases, sweeps and shutdown included, changes its state,
  finish time, partial flag, note, error or error code.
\<close>

theorem verdict_final:
  assumes "n < length (mg_entries (history rnd decay l evs))"
    and "Terminal (j_State (e_job (mg_entries (history rnd decay l evs) ! n)))"
  shows "verdict_of (e_job (mg_entries (history rnd decay l (evs @ evs')) ! n))
       = verdict_of (e_job (mg_entries (history rnd decay l evs) ! n))"
proof -
  let ?v = "verdict_of (e_job (mg_entries (history rnd decay l evs) ! n))"
  let ?P = "\<lambda>e. Terminal (j_State (e_job e)) \<and> verdict_of (e_job e) = ?v"
  have keep: "?P e'" if "entry_ok e" "?P e" "evolves rnd decay False e e' \<or> evolves rnd decay True e e'" for e e'
    using that evolves_verdict [of rnd decay _ e e'] evolves_life [of rnd decay _ e e'] life_step_Terminal by metis
  have "n < length (mg_entries (foldl (exec rnd decay) (history rnd decay l evs) evs'))
    \<and> ?P (mg_entries (foldl (exec rnd decay) (history rnd decay l evs) evs') ! n)"
    by (rule entry_run [where P = ?P, OF _ history_inv assms(1)]) (use keep assms(2) in blast)+
  then show ?thesis unfolding history_more by blast
qed

theorem verdict_final_witness:
  "\<exists>n. Terminal (j_State (e_job (mg_entries (history (\<lambda>x. x) (\<lambda>x. x) sample_limits
      [sample_submit, Cancels sample_id, Runs 6 CtxDone 0, Runs 6 Next 0, Runs 7 Next 0]) ! n))) \<and>
    verdict_of (e_job (mg_entries (history (\<lambda>x. x) (\<lambda>x. x) sample_limits
      ([sample_submit, Cancels sample_id, Runs 6 CtxDone 0, Runs 6 Next 0, Runs 7 Next 0] @ [Closes])) ! n))
    = verdict_of (e_job (mg_entries (history (\<lambda>x. x) (\<lambda>x. x) sample_limits
      [sample_submit, Cancels sample_id, Runs 6 CtxDone 0, Runs 6 Next 0, Runs 7 Next 0]) ! n))"
proof -
  let ?e = "[sample_submit, Cancels sample_id, Runs 6 CtxDone 0, Runs 6 Next 0, Runs 7 Next 0]"
  let ?h = "history (\<lambda>x. x) (\<lambda>x. x) sample_limits"
  have s: "?h ?e = foldl (exec (\<lambda>x. x) (\<lambda>x. x)) (?h [sample_submit])
      [Cancels sample_id, Runs 6 CtxDone 0, Runs 6 Next 0, Runs 7 Next 0]"
    by (simp add: history_def)
  have "0 < length (mg_entries (?h ?e))" "Terminal (j_State (e_job (mg_entries (?h ?e) ! 0)))"
    unfolding s
    by (simp_all add: sample_submitted exec_def Cancel_def attempt_def run_def Let_def requestCancel_def entry_of_def
        finishQueued_def tget_def)
  with verdict_final [of 0 "\<lambda>x. x" "\<lambda>x. x" sample_limits ?e "[Closes]"] show ?thesis by blast
qed

text \<open>
  C8: The manager refines the public life cycle: whatever single event happens in whatever reachable
  state, each job's state stays as it is or moves along queued, running, then done, failed or cancelled,
  with the one shortcut from queued to cancelled.
\<close>

theorem life_refined:
  assumes "n < length (mg_entries (history rnd decay l evs))"
  shows "life_step (j_State (e_job (mg_entries (history rnd decay l evs) ! n)))
           (j_State (e_job (mg_entries (history rnd decay l (evs @ [ev])) ! n)))"
proof -
  have "evolves rnd decay (mg_closed (history rnd decay l evs)) (mg_entries (history rnd decay l evs) ! n)
      (mg_entries (exec rnd decay (history rnd decay l evs) ev) ! n)"
    using exec_evolves [OF history_inv assms] by blast
  from evolves_life [OF this entry_ok_nth [OF history_inv assms]] show ?thesis by (simp add: history_more)
qed

theorem life_refined_witness:
  "life_step StateQueued (j_State (e_job (mg_entries (history (\<lambda>x. x) (\<lambda>x. x) sample_limits [sample_submit, Runs 6 SlotFree 0]) ! 0)))"
proof -
  have "0 < length (mg_entries (history (\<lambda>x. x) (\<lambda>x. x) sample_limits [sample_submit]))" by (simp add: sample_submitted)
  from life_refined [OF this, of "Runs 6 SlotFree 0"] show ?thesis by (simp add: sample_submitted entry_of_def)
qed

text \<open>
  Outcomes say what happened. In every reachable state: a job whose function never started is queued or
  cancelled, with no file, no byte, no error and not marked partial; a cancelled job whose function did
  start is marked partial; a done job is neither partial nor in error; and a job somebody asked to stop
  never ends as failed.
\<close>

theorem outcomes_honest: "list_all honest (mg_entries (history rnd decay l evs))"
  using jobs_ok_parts(1) [OF history_inv [of rnd decay l evs]] by (auto simp: list_all_iff entry_ok_def)

text \<open>A cancelled job that had not started never does.\<close>

lemma never_started_keep:
  assumes "evolves rnd decay c e e'" "entry_ok e" "e_cancelRequested e \<and> e_runStart e = None"
  shows "e_cancelRequested e' \<and> e_runStart e' = None"
  using assms(1)
proof (cases rule: evolves.cases)
  case (finished seen now res err)
  then show ?thesis using running_facts(2) [OF assms(2)] assms(3) by simp
next
  case cancelled
  then show ?thesis using assms(3) by (simp add: requestCancel_def)
next
  case (unqueued p now)
  then show ?thesis using assms(3) by (simp add: finishQueued_def)
next
  case (started now x)
  then show ?thesis using assms(3) by (simp add: start_def)
qed (use assms(3) in simp_all)

text \<open>
  A cancellation that was accepted before the job's function started holds: whatever happens
  afterwards, the function is never started and the job is queued or cancelled, with nothing marked
  partial.
\<close>

theorem cancel_prevents_start:
  assumes "tget (mg_jobs (history rnd decay l evs)) i = Some n"
    and "fst (Cancel i (history rnd decay l evs))"
    and "e_runStart (mg_entries (history rnd decay l evs) ! n) = None"
  shows "e_runStart (mg_entries (history rnd decay l (evs @ Cancels i # evs')) ! n) = None \<and>
    j_State (e_job (mg_entries (history rnd decay l (evs @ Cancels i # evs')) ! n)) \<in> {StateQueued, StateCancelled} \<and>
    \<not> j_Partial (e_job (mg_entries (history rnd decay l (evs @ Cancels i # evs')) ! n))"
proof -
  let ?m = "history rnd decay l evs"
  let ?P = "\<lambda>e. e_cancelRequested e \<and> e_runStart e = None"
  note n = entry_indexed [OF history_inv assms(1)]
  let ?m1 = "exec rnd decay ?m (Cancels i)"
  have m1: "jobs_ok ?m1" by (rule exec_ok [OF history_inv])
  have p1: "n < length (mg_entries ?m1)" "?P (mg_entries ?m1 ! n)"
    using n assms by (auto simp: exec_def Cancel_def requestCancel_def split: if_splits)
  have keep: "?P e'" if "entry_ok e" "?P e" "evolves rnd decay False e e' \<or> evolves rnd decay True e e'" for e e'
    using that never_started_keep by blast
  let ?m2 = "history rnd decay l (evs @ Cancels i # evs')"
  have m2: "?m2 = foldl (exec rnd decay) ?m1 evs'" by (simp add: history_def)
  have r: "n < length (mg_entries ?m2) \<and> ?P (mg_entries ?m2 ! n)"
    unfolding m2 by (rule entry_run [where P = ?P, OF _ m1 p1]) (use keep in blast)
  then have "honest (mg_entries ?m2 ! n)"
    using entry_ok_nth [OF history_inv] by (simp add: entry_ok_def)
  with r show ?thesis by (simp add: honest_def)
qed

theorem cancel_prevents_start_witness:
  "e_runStart (mg_entries (history (\<lambda>x. x) (\<lambda>x. x) sample_limits
     ([sample_submit] @ Cancels sample_id # [Runs 6 SlotFree 0, Runs 6 Next 0, Runs 6 Next 0, Runs 7 Next 0])) ! 0) = None"
proof -
  have "tget (mg_jobs (history (\<lambda>x. x) (\<lambda>x. x) sample_limits [sample_submit])) sample_id = Some 0"
    "fst (Cancel sample_id (history (\<lambda>x. x) (\<lambda>x. x) sample_limits [sample_submit]))"
    "e_runStart (mg_entries (history (\<lambda>x. x) (\<lambda>x. x) sample_limits [sample_submit]) ! 0) = None"
    by (simp_all add: sample_submitted tget_def Cancel_def requestCancel_def entry_of_def)
  from cancel_prevents_start [OF this] show ?thesis by blast
qed

lemma barred_keep:
  assumes "evolves rnd decay True e e'" "entry_ok e" "e_runStart e = None \<and> e_pc e \<noteq> Starting"
  shows "e_runStart e' = None \<and> e_pc e' \<noteq> Starting"
  using assms(1)
proof (cases rule: evolves.cases)
  case (moved p)
  then show ?thesis using assms(3) by (auto simp: moves_def split: pc.splits)
next
  case (finished seen now res err)
  then show ?thesis using running_facts(2) [OF assms(2)] assms(3) by simp
next
  case (unqueued p now)
  then show ?thesis using assms(3) by (auto simp: finishQueued_def)
qed (use assms(3) in simp_all)

text \<open>
  Shutdown starts nothing. From the moment Close has set its flag, a job that has not passed the closed
  check yet, even one that wins a slot afterwards, never runs its function: it ends cancelled with nothing
  marked partial.
\<close>

theorem close_starts_nothing:
  assumes "mg_closed (history rnd decay l evs)" and "n < length (mg_entries (history rnd decay l evs))"
    and "e_runStart (mg_entries (history rnd decay l evs) ! n) = None"
    and "e_pc (mg_entries (history rnd decay l evs) ! n) \<noteq> Starting"
  shows "e_runStart (mg_entries (history rnd decay l (evs @ evs')) ! n) = None \<and>
    j_State (e_job (mg_entries (history rnd decay l (evs @ evs')) ! n)) \<in> {StateQueued, StateCancelled} \<and>
    \<not> j_Partial (e_job (mg_entries (history rnd decay l (evs @ evs')) ! n))"
proof -
  let ?m = "history rnd decay l evs" and ?m2 = "history rnd decay l (evs @ evs')"
  let ?P = "\<lambda>e. e_runStart e = None \<and> e_pc e \<noteq> Starting"
  have "?P (mg_entries (foldl (exec rnd decay) ?m evs') ! n)"
    by (rule entry_run_closed [where P = ?P, OF _ history_inv assms(1,2)]) (use barred_keep assms(3,4) in blast)+
  then have p: "?P (mg_entries ?m2 ! n)" by (simp add: history_more)
  have "n < length (mg_entries ?m2)"
    unfolding history_more using entry_run [where P = "\<lambda>_. True", OF _ history_inv assms(2)] by blast
  then have "honest (mg_entries ?m2 ! n)" using entry_ok_nth [OF history_inv] by (simp add: entry_ok_def)
  then show ?thesis using p by (simp add: honest_def)
qed

theorem close_starts_nothing_witness:
  "e_runStart (mg_entries (history (\<lambda>x. x) (\<lambda>x. x) sample_limits
     ([sample_submit, Closes] @ [Runs 6 SlotFree 0, Runs 6 Next 0, Runs 6 Next 0, Runs 7 Next 0])) ! 0) = None"
proof -
  have h: "history (\<lambda>x. x) (\<lambda>x. x) sample_limits [sample_submit, Closes]
      = Close_begin (history (\<lambda>x. x) (\<lambda>x. x) sample_limits [sample_submit])"
    by (simp add: history_def exec_def)
  have "mg_closed (history (\<lambda>x. x) (\<lambda>x. x) sample_limits [sample_submit, Closes])"
    "0 < length (mg_entries (history (\<lambda>x. x) (\<lambda>x. x) sample_limits [sample_submit, Closes]))"
    "e_runStart (mg_entries (history (\<lambda>x. x) (\<lambda>x. x) sample_limits [sample_submit, Closes]) ! 0) = None"
    "e_pc (mg_entries (history (\<lambda>x. x) (\<lambda>x. x) sample_limits [sample_submit, Closes]) ! 0) \<noteq> Starting"
    by (simp_all add: h Close_begin_def sample_submitted entry_of_def)
  from close_starts_nothing [OF this] show ?thesis by blast
qed

text \<open>
  C12: Shutdown finishes. Once Close has set its flag and cancelled every entry on its list, the goroutines
  are driven to their end by their own steps alone, at most nine per job: no further cancellation, no
  slot handed to a waiting job and no other call on the manager is needed, only that a work function
  that was already running returns. Then Close has nothing left to wait for.
\<close>

theorem close_drains:
  assumes "mg_closed (history rnd decay l evs)" and "mg_closing (history rnd decay l evs) = []"
  shows "\<exists>evs'. list_all own_step evs' \<and> length evs' \<le> 9 * length (mg_entries (history rnd decay l evs)) \<and>
    Close_done (history rnd decay l (evs @ evs'))"
proof -
  have "stopping (history rnd decay l evs)"
    using history_stopping assms unfolding history_def by blast
  from drain [OF history_inv this, of rnd decay] show ?thesis
    unfolding history_more using work_left_le le_trans by blast
qed

theorem close_drains_witness:
  "\<exists>evs'. list_all own_step evs' \<and> length evs' \<le> 9 \<and>
    Close_done (history (\<lambda>x. x) (\<lambda>x. x) sample_limits ([sample_submit, Runs 6 SlotFree 0, Closes, CloseCancels 0] @ evs'))"
proof -
  let ?h = "history (\<lambda>x. x) (\<lambda>x. x) sample_limits"
  have s: "?h [sample_submit, Runs 6 SlotFree 0, Closes, CloseCancels 0]
    = foldl (exec (\<lambda>x. x) (\<lambda>x. x)) (?h [sample_submit]) [Runs 6 SlotFree 0, Closes, CloseCancels 0]"
    by (simp add: history_def)
  have f: "slot_free ClassMetadata (?h [sample_submit])"
    using history_limits [of "\<lambda>x. x" "\<lambda>x. x" sample_limits "[sample_submit]"]
    by (simp add: slot_free_def history_def class_cap_def normalise_def sample_limits_def exec_def sample_submit_def
        Submit_def choose_id_def sample_meta_def New_def Let_def register_def)
  have "mg_closed (?h [sample_submit, Runs 6 SlotFree 0, Closes, CloseCancels 0])"
    "mg_closing (?h [sample_submit, Runs 6 SlotFree 0, Closes, CloseCancels 0]) = []"
    "length (mg_entries (?h [sample_submit, Runs 6 SlotFree 0, Closes, CloseCancels 0])) = 1"
    unfolding s
    by (simp_all add: sample_submitted exec_def attempt_def run_def Let_def Close_begin_def Close_cancel_def f ClassOf_def
        entry_of_def)
  then show ?thesis using close_drains [of "\<lambda>x. x" "\<lambda>x. x" sample_limits "[sample_submit, Runs 6 SlotFree 0, Closes, CloseCancels 0]"]
    by simp
qed

text \<open>
  Retention is exactly what is documented: a sweep forgets a job precisely when it is over, finished at
  or before the start of the retention window, and at least RetainCount of the finished jobs the sweep saw
  are fresher; every other job stays, live ones always.
\<close>

theorem reap_exact:
  assumes "tget (mg_jobs (history rnd decay l evs)) i = Some n"
  shows "tget (mg_jobs (Reap now late (history rnd decay l evs))) i =
    (if n \<in> set (seen_ended late (history rnd decay l evs))
        \<and> when_finished (mg_entries (history rnd decay l evs) ! n) \<le> now - RetainMinutes (normalise l) * 60 * 10 ^ 9
        \<and> nat (RetainCount (normalise l))
            \<le> card {k \<in> set (seen_ended late (history rnd decay l evs)). fresher (history rnd decay l evs) k n}
     then None else Some n)"
proof -
  let ?m = "history rnd decay l evs"
  have t: "table_ok (mg_jobs ?m)" using jobs_ok_parts(3) [OF history_inv] by (simp add: index_ok_def)
  have lim: "mg_limits ?m = normalise l" unfolding history_def by (rule history_limits)
  show ?thesis
    using reap_doomed_iff [OF history_inv [of rnd decay l evs], of n now late] assms
    by (simp add: Reap_def tget_tkeep [OF t] lim)
qed

theorem reap_exact_witness:
  "tget (mg_jobs (Reap (10 ^ 20) [] (history (\<lambda>x. x) (\<lambda>x. x) sample_limits [sample_submit]))) sample_id = Some 0"
proof -
  have "tget (mg_jobs (history (\<lambda>x. x) (\<lambda>x. x) sample_limits [sample_submit])) sample_id = Some 0"
    by (simp add: sample_submitted tget_def)
  moreover have "0 \<notin> set (seen_ended [] (history (\<lambda>x. x) (\<lambda>x. x) sample_limits [sample_submit]))"
    by (simp add: seen_ended_def sample_submitted entry_of_def)
  ultimately show ?thesis using reap_exact [of "\<lambda>x. x" "\<lambda>x. x" sample_limits "[sample_submit]" sample_id 0 "10 ^ 20" "[]"]
    by simp
qed

end
