(* ===== verification/Idmap.thy ===== *)
theory Idmap
  imports Prelude
begin

section \<open>User names to Linux identities (internal/idmap/idmap.go)\<close>

text \<open>
  The parsers of /etc/passwd and /etc/group, the reloading view over the two files, the lookups, the
  helper programs behind the name service, the session cache and the admin decision. A file snapshot is
  a value; an operation that loads the files several times takes one snapshot per load, so the files may
  change in between. A helper program is a parameter from its name and operands to its output, None
  when it fails; \<open>LookupNSS\<close> also returns the calls it made, in order. \<open>strings.ToLower\<close> of a group
  name is that of ASCII.
\<close>

datatype idmap_error =
    ErrNotFound | ErrInvalidName | ErrBadOutput | ErrRootRefused | ErrNumericName | ErrNameMismatch
  | HelperFailed string

record ident =
  i_Name :: string
  i_UID :: int
  i_GID :: int
  i_Groups :: "int list"
  i_Home :: string
  i_Source :: string
  i_Partial :: bool

record unix_group =
  gr_GID :: int
  gr_Name :: string
  gr_Members :: "string list"

record passwdEnt =
  pw_name :: string
  pw_uid :: int
  pw_gid :: int
  pw_home :: string

record snapshot =
  uidToName :: "(int, string) table"
  byName :: "(string, passwdEnt) table"
  users :: "ident list"
  gidToGroup :: "(int, unix_group) table"
  groupByGID :: "(int, nat) table"
  groups :: "unix_group list"
  nameToGID :: "(string, int) table"
  foldToGID :: "(string, int) table"
  memberOf :: "(string, int list) table"

definition newSnapshot :: snapshot where
  "newSnapshot = \<lparr>uidToName = [], byName = [], users = [], gidToGroup = [], groupByGID = [], groups = [],
     nameToGID = [], foldToGID = [], memberOf = []\<rparr>"

definition SourcePasswd :: string where "SourcePasswd = ''passwd''"
definition SourceNSS :: string where "SourceNSS = ''nss-helper''"
definition SourceCache :: string where "SourceCache = ''cache''"
definition AdminGroup :: string where "AdminGroup = ''administrators''"

subsection \<open>Names\<close>

text \<open>The whitelist of the regular expression, and the rule about a leading dash.\<close>

definition name_char :: "char \<Rightarrow> bool" where
  "name_char c \<longleftrightarrow>
     (65 \<le> (of_char c :: nat) \<and> (of_char c :: nat) \<le> 90) \<or> (97 \<le> (of_char c :: nat) \<and> (of_char c :: nat) \<le> 122)
   \<or> is_digit c \<or> c \<in> {CHR ''.'', CHR ''_'', CHR ''@'', CHR 0x5C, CHR ''-''}"

definition ValidUser :: "string \<Rightarrow> bool" where
  "ValidUser name \<longleftrightarrow> \<not> has_prefix name ''-'' \<and> 1 \<le> length name \<and> length name \<le> 64 \<and> list_all name_char name"

definition isNumericName :: "string \<Rightarrow> bool" where
  "isNumericName name \<longleftrightarrow> name \<noteq> [] \<and> list_all is_digit name"

subsection \<open>Parsing\<close>

definition lines :: "bytes \<Rightarrow> string list" where
  "lines b = (if b = [] then [] else map (trim_right_char (CHR 0x0D)) (split_on (CHR 0x0A) b))"

definition skipLine :: "string \<Rightarrow> bool" where
  "skipLine line =
     (let t = trim_space line
      in t = [] \<or> hd t = CHR ''#'' \<or> hd t = CHR ''+'' \<or> hd t = CHR ''-'')"

definition atoiStrict :: "string \<Rightarrow> int option" where
  "atoiStrict s =
     (let t = trim_space s
      in if t = [] \<or> \<not> list_all is_digit t then None else atoi t)"

definition parsePasswdRow :: "string \<Rightarrow> passwdEnt option" where
  "parsePasswdRow line =
     (if skipLine line then None
      else let f = split_on (CHR '':'') line
           in if length f < 6 \<or> f ! 0 = [] then None
              else case atoiStrict (f ! 2) of
                None \<Rightarrow> None
              | Some uid \<Rightarrow>
                  (case atoiStrict (f ! 3) of
                     None \<Rightarrow> None
                   | Some gid \<Rightarrow> Some \<lparr>pw_name = f ! 0, pw_uid = uid, pw_gid = gid, pw_home = f ! 5\<rparr>))"

text \<open>The loop that drops repeated neighbours; \<open>v\<close> is the last value kept.\<close>

fun dedup_from :: "int \<Rightarrow> int list \<Rightarrow> int list" where
  "dedup_from v [] = []"
| "dedup_from v (x # xs) = (if x \<noteq> v then x # dedup_from x xs else dedup_from v xs)"

definition sortDedup :: "int list \<Rightarrow> int list" where
  "sortDedup out = (case sort out of [] \<Rightarrow> [] | x # xs \<Rightarrow> x # dedup_from x xs)"

definition mergeGroups :: "int \<Rightarrow> int list \<Rightarrow> int list" where
  "mergeGroups gid extra = sortDedup (gid # extra)"

definition put_new :: "'k \<Rightarrow> 'v \<Rightarrow> ('k, 'v) table \<Rightarrow> ('k, 'v) table" where
  \<comment> \<open>the assignment behind an \<open>if _, dup\<close> test\<close>
  "put_new k v t = (if tget t k = None then tput k v t else t)"

definition gids_at :: "(string, int list) table \<Rightarrow> string \<Rightarrow> int list" where
  \<comment> \<open>indexing the map, nil for a name it does not hold\<close>
  "gids_at t name = (case tget t name of None \<Rightarrow> [] | Some gs \<Rightarrow> gs)"

definition members_of :: "string \<Rightarrow> snapshot \<Rightarrow> int list" where
  "members_of name s = gids_at (memberOf s) name"

definition passwd_row :: "snapshot \<Rightarrow> string \<Rightarrow> snapshot" where
  "passwd_row s line =
     (case parsePasswdRow line of
        None \<Rightarrow> s
      | Some e \<Rightarrow>
          if tget (byName s) (pw_name e) \<noteq> None then s
          else s\<lparr>byName := tput (pw_name e) e (byName s),
                 uidToName := put_new (pw_uid e) (pw_name e) (uidToName s),
                 users := users s @ [\<lparr>i_Name = pw_name e, i_UID = pw_uid e, i_GID = pw_gid e, i_Groups = [],
                   i_Home = pw_home e, i_Source = SourcePasswd, i_Partial = False\<rparr>]\<rparr>)"

definition row_members :: "string list \<Rightarrow> string list" where
  "row_members f =
     (if length f \<ge> 4 then filter (\<lambda>m. m \<noteq> []) (map trim_space (split_on (CHR '','') (f ! 3))) else [])"

definition parseGroupRow :: "string \<Rightarrow> unix_group option" where
  "parseGroupRow line =
     (if skipLine line then None
      else let f = split_on (CHR '':'') line
           in if length f < 3 \<or> f ! 0 = [] then None
              else case atoiStrict (f ! 2) of
                None \<Rightarrow> None
              | Some gid \<Rightarrow> Some \<lparr>gr_GID = gid, gr_Name = f ! 0, gr_Members = row_members f\<rparr>)"

definition add_member :: "int \<Rightarrow> (string, int list) table \<Rightarrow> string \<Rightarrow> (string, int list) table" where
  "add_member gid t mem = tput mem (gids_at t mem @ [gid]) t"

definition group_row :: "snapshot \<Rightarrow> string \<Rightarrow> snapshot" where
  "group_row s line =
     (case parseGroupRow line of
        None \<Rightarrow> s
      | Some g \<Rightarrow>
          s\<lparr>gidToGroup := put_new (gr_GID g) g (gidToGroup s),
            groupByGID := (if tget (gidToGroup s) (gr_GID g) = None
                           then tput (gr_GID g) (length (groups s)) (groupByGID s) else groupByGID s),
            nameToGID := put_new (gr_Name g) (gr_GID g) (nameToGID s),
            foldToGID := put_new (to_lower (gr_Name g)) (gr_GID g) (foldToGID s),
            groups := groups s @ [g],
            memberOf := foldl (add_member (gr_GID g)) (memberOf s) (gr_Members g)\<rparr>)"

definition fill_groups :: "snapshot \<Rightarrow> snapshot" where
  "fill_groups s = s\<lparr>users := map (\<lambda>u. u\<lparr>i_Groups := mergeGroups (i_GID u) (members_of (i_Name u) s)\<rparr>) (users s)\<rparr>"

definition parse :: "bytes \<Rightarrow> bytes \<Rightarrow> snapshot" where
  "parse passwd grp =
     fill_groups (foldl group_row (foldl passwd_row newSnapshot (lines passwd)) (lines grp))"

subsection \<open>The live view of the files\<close>

text \<open>What the two files are at an instant: the size and time \<open>os.Stat\<close> reports, and the contents.\<close>

record files =
  st_passwd :: "(int \<times> time) option"
  st_group :: "(int \<times> time) option"
  in_passwd :: "bytes option"
  in_group :: "bytes option"

record idmap =
  im_snap :: "snapshot option"
  im_interval :: time
  im_lastCheck :: time
  im_passwdSt :: "(int \<times> time) option"
  im_groupSt :: "(int \<times> time) option"

definition defaultCheckInterval :: time where "defaultCheckInterval = 10 ^ 9"

definition Open :: idmap where
  "Open = \<lparr>im_snap = None, im_interval = defaultCheckInterval, im_lastCheck = 0, im_passwdSt = None, im_groupSt = None\<rparr>"

definition readFile :: "bytes option \<Rightarrow> bytes" where
  "readFile r = (case r of None \<Rightarrow> [] | Some b \<Rightarrow> b)"

definition load :: "time \<Rightarrow> files \<Rightarrow> idmap \<Rightarrow> snapshot \<times> idmap" where
  "load now fs m =
     (case im_snap m of
        Some s \<Rightarrow>
          if im_interval m > 0 \<and> now - im_lastCheck m < im_interval m then (s, m)
          else if st_passwd fs = im_passwdSt m \<and> st_group fs = im_groupSt m then (s, m\<lparr>im_lastCheck := now\<rparr>)
          else let s' = parse (readFile (in_passwd fs)) (readFile (in_group fs))
               in (s', m\<lparr>im_lastCheck := now, im_passwdSt := st_passwd fs, im_groupSt := st_group fs, im_snap := Some s'\<rparr>)
      | None \<Rightarrow>
          let s' = parse (readFile (in_passwd fs)) (readFile (in_group fs))
          in (s', m\<lparr>im_lastCheck := now, im_passwdSt := st_passwd fs, im_groupSt := st_group fs, im_snap := Some s'\<rparr>))"

subsection \<open>Lookups in the files\<close>

definition User :: "snapshot \<Rightarrow> int \<Rightarrow> string" where
  "User s uid = (case tget (uidToName s) uid of None \<Rightarrow> [] | Some n \<Rightarrow> n)"

definition Group :: "snapshot \<Rightarrow> int \<Rightarrow> string" where
  "Group s gid = (case tget (gidToGroup s) gid of None \<Rightarrow> [] | Some g \<Rightarrow> gr_Name g)"

definition GroupGID :: "snapshot \<Rightarrow> string \<Rightarrow> int option" where
  "GroupGID s name =
     (case tget (nameToGID s) name of Some gid \<Rightarrow> Some gid | None \<Rightarrow> tget (foldToGID s) (to_lower name))"

definition GroupsOf :: "snapshot \<Rightarrow> string \<Rightarrow> int list" where
  "GroupsOf s name =
     (case tget (byName s) name of
        Some e \<Rightarrow> mergeGroups (pw_gid e) (members_of name s)
      | None \<Rightarrow> if members_of name s = [] then [] else sortDedup (members_of name s))"

definition LookupUser :: "snapshot \<Rightarrow> string \<Rightarrow> idmap_error + ident" where
  "LookupUser s name =
     (case tget (byName s) name of
        None \<Rightarrow> Inl ErrNotFound
      | Some e \<Rightarrow> Inr \<lparr>i_Name = pw_name e, i_UID = pw_uid e, i_GID = pw_gid e,
          i_Groups = mergeGroups (pw_gid e) (members_of (pw_name e) s),
          i_Home = pw_home e, i_Source = SourcePasswd, i_Partial = False\<rparr>)"

definition HasGroup :: "ident \<Rightarrow> int \<Rightarrow> bool" where
  "HasGroup i gid = list_ex (\<lambda>g. g = gid) (i_Groups i)"

subsection \<open>The name service helpers\<close>

type_synonym helper = "string \<Rightarrow> string list \<Rightarrow> bytes option"
type_synonym helper_call = "string \<times> string list"

text \<open>
  \<open>passwdEntFor\<close>: the row that names the user, or else the first row there is, if any: (match, other).
\<close>

fun ent_loop :: "string \<Rightarrow> string list \<Rightarrow> passwdEnt option \<Rightarrow> passwdEnt option \<times> passwdEnt option" where
  "ent_loop want [] other = (None, other)"
| "ent_loop want (l # ls) other =
     (case parsePasswdRow l of
        None \<Rightarrow> ent_loop want ls other
      | Some e \<Rightarrow>
          if pw_name e = want then (Some e, None)
          else ent_loop want ls (case other of None \<Rightarrow> Some e | Some _ \<Rightarrow> other))"

definition passwdEntFor :: "bytes \<Rightarrow> string \<Rightarrow> passwdEnt option \<times> passwdEnt option" where
  "passwdEntFor out want = ent_loop want (lines out) None"

fun first_ent :: "string list \<Rightarrow> passwdEnt option" where
  "first_ent [] = None"
| "first_ent (l # ls) = (case parsePasswdRow l of None \<Rightarrow> first_ent ls | Some e \<Rightarrow> Some e)"

definition firstPasswdEnt :: "bytes \<Rightarrow> passwdEnt option" where
  "firstPasswdEnt out = first_ent (lines out)"

definition singleNumber :: "bytes \<Rightarrow> int option" where
  "singleNumber out = (case go_fields out of [f] \<Rightarrow> atoiStrict f | _ \<Rightarrow> None)"

fun all_numbers :: "string list \<Rightarrow> int list option" where
  "all_numbers [] = Some []"
| "all_numbers (t # ts) =
     (case atoiStrict t of None \<Rightarrow> None | Some n \<Rightarrow> map_option (\<lambda>ns. n # ns) (all_numbers ts))"

definition numberList :: "bytes \<Rightarrow> int list option" where
  "numberList out = (if go_fields out = [] then None else all_numbers (go_fields out))"

text \<open>Supplementary groups, last step of the lookup.\<close>

definition nss_groups :: "helper \<Rightarrow> string \<Rightarrow> ident \<Rightarrow> ident" where
  "nss_groups exec name i =
     (case exec ''id'' [''-G'', name] of
        None \<Rightarrow> i\<lparr>i_Groups := mergeGroups (i_GID i) [], i_Partial := True\<rparr>
      | Some out \<Rightarrow>
          (case numberList out of
             None \<Rightarrow> i\<lparr>i_Groups := mergeGroups (i_GID i) [], i_Partial := True\<rparr>
           | Some gids \<Rightarrow> i\<lparr>i_Groups := mergeGroups (i_GID i) gids\<rparr>))"

text \<open>Without an answer of getent for the name: id -u, the cross-check of the uid, id -g.\<close>

definition getent_name :: "string \<Rightarrow> helper_call" where
  "getent_name name = (''getent'', [''passwd'', name])"

definition nss_by_id :: "helper \<Rightarrow> string \<Rightarrow> ident \<Rightarrow> helper_call list \<times> (idmap_error + ident)" where
  "nss_by_id exec name i =
     (let c0 = [getent_name name, (''id'', [''-u'', name])]
      in case exec ''id'' [''-u'', name] of
        None \<Rightarrow> (c0, Inl (HelperFailed ''id -u''))
      | Some out \<Rightarrow>
          (case singleNumber out of
             None \<Rightarrow> (c0, Inl ErrBadOutput)
           | Some uid \<Rightarrow>
               let c1 = c0 @ [(''getent'', [''passwd'', itoa uid])];
                   stranger = (case exec ''getent'' [''passwd'', itoa uid] of
                       None \<Rightarrow> False
                     | Some cout \<Rightarrow> (case firstPasswdEnt cout of None \<Rightarrow> False | Some e \<Rightarrow> pw_name e \<noteq> name))
               in if stranger then (c1, Inl ErrNameMismatch)
                  else let c2 = c1 @ [(''id'', [''-g'', name])]
                       in case exec ''id'' [''-g'', name] of
                            None \<Rightarrow> (c2, Inl (HelperFailed ''id -g''))
                          | Some out2 \<Rightarrow>
                              (case singleNumber out2 of
                                 None \<Rightarrow> (c2, Inl ErrBadOutput)
                               | Some gid \<Rightarrow>
                                   (c2 @ [(''id'', [''-G'', name])],
                                    Inr (nss_groups exec name (i\<lparr>i_UID := uid, i_GID := gid\<rparr>))))))"

definition LookupNSS :: "helper \<Rightarrow> snapshot \<Rightarrow> string \<Rightarrow> helper_call list \<times> (idmap_error + ident)" where
  "LookupNSS exec s name =
     (if \<not> ValidUser name then ([], Inl ErrInvalidName)
      else if isNumericName name then
        ([], case LookupUser s name of Inr local \<Rightarrow> Inr local | Inl _ \<Rightarrow> Inl ErrNumericName)
      else
        let i = \<lparr>i_Name = name, i_UID = 0, i_GID = 0, i_Groups = [], i_Home = [], i_Source = SourceNSS, i_Partial = False\<rparr>
        in case exec ''getent'' [''passwd'', name] of
             None \<Rightarrow> nss_by_id exec name i
           | Some out \<Rightarrow>
               (case passwdEntFor out name of
                  (Some e, _) \<Rightarrow>
                    ([getent_name name, (''id'', [''-G'', name])],
                     Inr (nss_groups exec name (i\<lparr>i_UID := pw_uid e, i_GID := pw_gid e, i_Home := pw_home e\<rparr>)))
                | (None, Some e) \<Rightarrow> ([getent_name name], Inl ErrNameMismatch)
                | (None, None) \<Rightarrow> nss_by_id exec name i))"

text \<open>\<open>resolveNSS\<close>: the fail-closed root check, over the files as they are then.\<close>

definition resolveNSS :: "helper \<Rightarrow> snapshot \<Rightarrow> snapshot \<Rightarrow> string \<Rightarrow> helper_call list \<times> (idmap_error + ident)" where
  "resolveNSS exec s1 s2 name =
     (case LookupNSS exec s1 name of
        (cs, Inl x) \<Rightarrow> (cs, Inl x)
      | (cs, Inr i) \<Rightarrow>
          if i_UID i = 0 \<and> (case LookupUser s2 name of Inl _ \<Rightarrow> True | Inr local \<Rightarrow> i_UID local \<noteq> 0)
          then (cs, Inl ErrRootRefused) else (cs, Inr i))"

definition Resolve :: "helper \<Rightarrow> snapshot \<Rightarrow> snapshot \<Rightarrow> snapshot \<Rightarrow> string \<Rightarrow> helper_call list \<times> (idmap_error + ident)" where
  "Resolve exec s0 s1 s2 name =
     (case LookupUser s0 name of Inr i \<Rightarrow> ([], Inr i) | Inl _ \<Rightarrow> resolveNSS exec s1 s2 name)"

subsection \<open>The session cache\<close>

record cacheEnt =
  ce_id :: ident
  ce_used :: time

record cache =
  ca_ttl :: time
  ca_entries :: "(string, cacheEnt) table"

definition DefaultCacheTTL :: time where "DefaultCacheTTL = 10 * 60 * 10 ^ 9"

definition NewCache :: "time \<Rightarrow> cache" where
  "NewCache ttl = \<lparr>ca_ttl = (if ttl \<le> 0 then DefaultCacheTTL else ttl), ca_entries = []\<rparr>"

definition pruneLocked :: "time \<Rightarrow> cache \<Rightarrow> cache" where
  "pruneLocked now c = c\<lparr>ca_entries := tkeep (\<lambda>e. \<not> now - ce_used e > ca_ttl c) (ca_entries c)\<rparr>"

text \<open>
  The first lock region decides whether the cache answers; the second stores what the lookup in between
  found. \<open>now2\<close> is the clock at the second.
\<close>

definition cache_hit :: "time \<Rightarrow> string \<Rightarrow> cache \<Rightarrow> ident option \<times> cache" where
  "cache_hit now name c =
     (let c1 = pruneLocked now c
      in case tget (ca_entries c1) name of
           None \<Rightarrow> (None, c1)
         | Some e \<Rightarrow> (Some ((ce_id e)\<lparr>i_Source := SourceCache\<rparr>),
             c1\<lparr>ca_entries := tput name (e\<lparr>ce_used := now\<rparr>) (ca_entries c1)\<rparr>))"

definition cache_store :: "time \<Rightarrow> string \<Rightarrow> ident \<Rightarrow> cache \<Rightarrow> cache" where
  "cache_store now name i c = c\<lparr>ca_entries := tput name \<lparr>ce_id = i, ce_used = now\<rparr> (ca_entries c)\<rparr>"

definition CacheResolve :: "helper \<Rightarrow> snapshot \<Rightarrow> snapshot \<Rightarrow> snapshot \<Rightarrow> time \<Rightarrow> time \<Rightarrow> string \<Rightarrow> cache
    \<Rightarrow> (idmap_error + ident) \<times> cache" where
  "CacheResolve exec s0 s1 s2 now now2 name c =
     (case LookupUser s0 name of
        Inr i \<Rightarrow> (Inr i, c)
      | Inl _ \<Rightarrow>
          (case cache_hit now name c of
             (Some i, c1) \<Rightarrow> (Inr i, c1)
           | (None, c1) \<Rightarrow>
               (case snd (resolveNSS exec s1 s2 name) of
                  Inl x \<Rightarrow> (Inl x, c1)
                | Inr i \<Rightarrow> (Inr i, cache_store now2 name i c1))))"

definition Forget :: "string \<Rightarrow> cache \<Rightarrow> cache" where
  "Forget name c = c\<lparr>ca_entries := tdel name (ca_entries c)\<rparr>"

definition Len :: "time \<Rightarrow> cache \<Rightarrow> nat \<times> cache" where
  "Len now c = (let c1 = pruneLocked now c in (tlen (ca_entries c1), c1))"

subsection \<open>Administrators\<close>

text \<open>\<open>IsLocalAdmin\<close>; None stands for a nil Map, the second snapshot is the one the fallback reads.\<close>

definition IsLocalAdmin :: "ident \<Rightarrow> (snapshot \<times> snapshot) option \<Rightarrow> bool" where
  "IsLocalAdmin i m =
     (if i_UID i = 0 then True
      else case m of
        None \<Rightarrow> False
      | Some (s, s') \<Rightarrow>
          (case GroupGID s AdminGroup of
             None \<Rightarrow> False
           | Some gid \<Rightarrow>
               if HasGroup i gid then True
               else if i_Name i = [] then False
               else list_ex (\<lambda>g. gr_GID g = gid \<and> list_ex (\<lambda>mem. mem = i_Name i) (gr_Members g)) (groups s')))"

definition DecideAdmin :: "bool \<Rightarrow> ident \<Rightarrow> (snapshot \<times> snapshot) option \<Rightarrow> bool \<Rightarrow> bool \<times> string" where
  "DecideAdmin qtsIsAdmin i m requireBoth =
     (let local = IsLocalAdmin i m
      in if qtsIsAdmin \<and> local then (True, [])
         else if qtsIsAdmin then
           (\<not> requireBoth, ''QTS reports admin but the account is not in the '' @ AdminGroup @ '' group'')
         else if local then (False, ''account is in '' @ AdminGroup @ '' but QTS did not report admin'')
         else (False, []))"

subsection \<open>Group sets\<close>

lemma dedup_from_sorted:
  "sorted (v # xs) \<Longrightarrow> sorted_wrt (<) (v # dedup_from v xs) \<and> insert v (set (dedup_from v xs)) = insert v (set xs)"
proof (induction xs arbitrary: v)
  case (Cons x xs)
  show ?case
  proof (cases "x = v")
    case True
    then show ?thesis using Cons.IH [of v] Cons.prems by simp
  next
    case False
    have x: "sorted_wrt (<) (x # dedup_from x xs)" "insert x (set (dedup_from x xs)) = insert x (set xs)"
      using Cons.IH [of x] Cons.prems by auto
    have "v < x" using False Cons.prems by simp
    then have "sorted_wrt (<) (v # x # dedup_from x xs)" using x(1) by auto
    moreover have "insert v (set (x # dedup_from x xs)) = insert v (set (x # xs))" using x(2) by auto
    ultimately show ?thesis using False by simp
  qed
qed simp

lemma sortDedup_sorted: "sorted_wrt (<) (sortDedup xs)"
  and sortDedup_set: "set (sortDedup xs) = set xs"
proof -
  have "sorted_wrt (<) (sortDedup xs) \<and> set (sortDedup xs) = set xs"
  proof (cases "sort xs")
    case Nil
    have "set (sort xs) = set xs" by simp
    then show ?thesis using Nil by (simp add: sortDedup_def)
  next
    case (Cons v ys)
    have s: "set (sort xs) = set xs" "sorted (sort xs)" by simp_all
    from s dedup_from_sorted [of v ys] show ?thesis by (simp add: sortDedup_def Cons)
  qed
  then show "sorted_wrt (<) (sortDedup xs)" "set (sortDedup xs) = set xs" by blast+
qed

lemma mergeGroups_set [simp]: "set (mergeGroups gid extra) = insert gid (set extra)"
  by (simp add: mergeGroups_def sortDedup_set)

lemma mergeGroups_sorted: "sorted_wrt (<) (mergeGroups gid extra)"
  by (simp add: mergeGroups_def sortDedup_sorted)

subsection \<open>What a snapshot holds\<close>

text \<open>The rows of a file, and the reference reading of it: the first row of a name.\<close>

definition passwd_rows :: "bytes \<Rightarrow> passwdEnt list" where
  "passwd_rows b = List.map_filter parsePasswdRow (lines b)"

definition group_rows :: "bytes \<Rightarrow> unix_group list" where
  "group_rows b = List.map_filter parseGroupRow (lines b)"

lemma map_filter_snoc: "List.map_filter f (xs @ [x]) = List.map_filter f xs @ (case f x of None \<Rightarrow> [] | Some y \<Rightarrow> [y])"
  by (simp add: List.map_filter_def split: option.split)

lemma find_snoc: "find P (xs @ [x]) = (case find P xs of Some y \<Rightarrow> Some y | None \<Rightarrow> if P x then Some x else None)"
  by (induction xs) auto

lemma passwd_row_other [simp]:
  "gidToGroup (passwd_row s l) = gidToGroup s" "nameToGID (passwd_row s l) = nameToGID s"
  "foldToGID (passwd_row s l) = foldToGID s" "groups (passwd_row s l) = groups s" "memberOf (passwd_row s l) = memberOf s"
  by (simp_all add: passwd_row_def split: option.split)

lemma passwd_rows_fold:
  "let s = foldl passwd_row newSnapshot ls; rows = List.map_filter parsePasswdRow ls
   in (\<forall>n. tget (byName s) n = find (\<lambda>e. pw_name e = n) rows)
    \<and> (\<forall>u n. tget (uidToName s) u = Some n \<longrightarrow> (\<exists>e. tget (byName s) n = Some e \<and> pw_uid e = u))
    \<and> memberOf s = [] \<and> gidToGroup s = [] \<and> nameToGID s = [] \<and> groups s = []"
proof (induction ls rule: rev_induct)
  case Nil
  show ?case by (simp add: newSnapshot_def List.map_filter_def)
next
  case (snoc l ls)
  let ?s = "foldl passwd_row newSnapshot ls" and ?rows = "List.map_filter parsePasswdRow ls"
  have IH: "tget (byName ?s) n = find (\<lambda>e. pw_name e = n) ?rows"
    "tget (uidToName ?s) u = Some n \<Longrightarrow> \<exists>e. tget (byName ?s) n = Some e \<and> pw_uid e = u"
    "memberOf ?s = []" "gidToGroup ?s = []" "nameToGID ?s = []" "groups ?s = []" for n u
    using snoc by (auto simp: Let_def)
  have one: "tget (byName (passwd_row ?s l)) n = find (\<lambda>e. pw_name e = n) (List.map_filter parsePasswdRow (ls @ [l]))" for n
    by (cases "parsePasswdRow l") (auto simp: passwd_row_def map_filter_snoc find_snoc IH(1) [symmetric] split: option.split)
  have two: "\<exists>e. tget (byName (passwd_row ?s l)) n = Some e \<and> pw_uid e = u"
    if "tget (uidToName (passwd_row ?s l)) u = Some n" for u n
  proof (cases "parsePasswdRow l")
    case None
    then show ?thesis using that IH(2) by (simp add: passwd_row_def)
  next
    case (Some e)
    show ?thesis
    proof (cases "tget (byName ?s) (pw_name e)")
      case None
      have b: "byName (passwd_row ?s l) = tput (pw_name e) e (byName ?s)"
        "uidToName (passwd_row ?s l) = put_new (pw_uid e) (pw_name e) (uidToName ?s)"
        by (simp_all add: passwd_row_def Some None)
      from that consider "tget (uidToName ?s) u = Some n" | "u = pw_uid e" "n = pw_name e"
        by (auto simp: b(2) put_new_def split: if_splits)
      then show ?thesis
      proof cases
        case 1
        from IH(2) [OF this] obtain e' where "tget (byName ?s) n = Some e'" "pw_uid e' = u" by blast
        then show ?thesis using None by (auto simp: b(1))
      qed (simp add: b(1))
    next
      case (Some e')
      then have "passwd_row ?s l = ?s" using \<open>parsePasswdRow l = Some e\<close> by (simp add: passwd_row_def)
      then show ?thesis using that IH(2) by simp
    qed
  qed
  show ?case using one two IH(3-6) by (simp add: Let_def)
qed

lemma group_row_other [simp]:
  "byName (group_row s l) = byName s" "uidToName (group_row s l) = uidToName s"
  by (simp_all add: group_row_def split: option.split)

lemma group_fold_other [simp]:
  "byName (foldl group_row s ls) = byName s" "uidToName (foldl group_row s ls) = uidToName s"
  by (induction ls arbitrary: s) simp_all

lemma fill_groups_simps [simp]:
  "byName (fill_groups s) = byName s" "uidToName (fill_groups s) = uidToName s" "memberOf (fill_groups s) = memberOf s"
  "nameToGID (fill_groups s) = nameToGID s" "gidToGroup (fill_groups s) = gidToGroup s" "groups (fill_groups s) = groups s"
  "foldToGID (fill_groups s) = foldToGID s"
  by (simp_all add: fill_groups_def)

lemma byName_parse: "tget (byName (parse p g)) n = find (\<lambda>e. pw_name e = n) (passwd_rows p)"
  using passwd_rows_fold [of "lines p"] by (simp add: parse_def passwd_rows_def Let_def)

lemma uidToName_parse:
  "tget (uidToName (parse p g)) u = Some n \<Longrightarrow> \<exists>e. tget (byName (parse p g)) n = Some e \<and> pw_uid e = u"
  using passwd_rows_fold [of "lines p"] unfolding parse_def Let_def fill_groups_simps group_fold_other by blast

lemma byName_name: "tget (byName (parse p g)) n = Some e \<Longrightarrow> pw_name e = n"
  unfolding byName_parse by (auto simp: find_Some_iff)

text \<open>Group membership: each time a row lists the user, its gid is appended.\<close>

lemma members_add: "gids_at (add_member gid t mem) n = gids_at t n @ (if mem = n then [gid] else [])"
  by (auto simp: add_member_def gids_at_def split: option.split)

lemma members_fold:
  "set (gids_at (foldl (add_member gid) t mems) n) = set (gids_at t n) \<union> (if n \<in> set mems then {gid} else {})"
  by (induction mems arbitrary: t) (auto simp: members_add)

lemma members_group_row:
  "set (members_of n (group_row s l)) = set (members_of n s)
     \<union> (case parseGroupRow l of None \<Rightarrow> {} | Some g \<Rightarrow> if n \<in> set (gr_Members g) then {gr_GID g} else {})"
  by (cases "parseGroupRow l") (simp_all add: group_row_def members_of_def members_fold)

lemma members_group_fold:
  "set (members_of n (foldl group_row s ls)) = set (members_of n s)
     \<union> {gr_GID g |g. g \<in> set (List.map_filter parseGroupRow ls) \<and> n \<in> set (gr_Members g)}"
proof (induction ls arbitrary: s)
  case Nil
  then show ?case by (simp add: List.map_filter_def)
next
  case (Cons l ls)
  show ?case
    by (cases "parseGroupRow l") (auto simp: Cons.IH members_group_row List.map_filter_def)
qed

lemma members_parse:
  "set (members_of n (parse p g)) = {gr_GID r |r. r \<in> set (group_rows g) \<and> n \<in> set (gr_Members r)}"
proof -
  have "members_of n (foldl passwd_row newSnapshot (lines p)) = []"
    using passwd_rows_fold [of "lines p"] by (simp add: members_of_def gids_at_def Let_def)
  moreover have "members_of n (parse p g) = members_of n (foldl group_row (foldl passwd_row newSnapshot (lines p)) (lines g))"
    by (simp add: members_of_def parse_def)
  ultimately show ?thesis by (simp add: members_group_fold group_rows_def)
qed

subsection \<open>What a lookup returns\<close>

lemma LookupUser_Inr:
  "LookupUser (parse p g) name = Inr i \<longleftrightarrow>
   (\<exists>e. tget (byName (parse p g)) name = Some e \<and> i = \<lparr>i_Name = name, i_UID = pw_uid e, i_GID = pw_gid e,
      i_Groups = mergeGroups (pw_gid e) (members_of name (parse p g)),
      i_Home = pw_home e, i_Source = SourcePasswd, i_Partial = False\<rparr>)"
  using byName_name [of p g name] by (auto simp: LookupUser_def split: option.splits)

text \<open>An identity the program may act on: the name asked for, group set ordered, repetition free, with the gid.\<close>

definition ident_ok :: "string \<Rightarrow> ident \<Rightarrow> bool" where
  "ident_ok name i \<longleftrightarrow> i_Name i = name \<and> sorted_wrt (<) (i_Groups i) \<and> i_GID i \<in> set (i_Groups i)"

lemma LookupUser_ok: "LookupUser (parse p g) name = Inr i \<Longrightarrow> ident_ok name i"
  by (auto simp: LookupUser_Inr ident_ok_def mergeGroups_sorted)

lemma nss_groups_ok: "i_Name i = name \<Longrightarrow> ident_ok name (nss_groups exec name i)"
  by (auto simp: nss_groups_def ident_ok_def mergeGroups_sorted split: option.split)

lemma nss_by_id_ok:
  assumes "snd (nss_by_id exec name i) = Inr j" "i_Name i = name" shows "ident_ok name j"
proof -
  obtain u gd where "j = nss_groups exec name (i\<lparr>i_UID := u, i_GID := gd\<rparr>)"
    using assms(1) by (auto simp: nss_by_id_def Let_def split: option.splits if_splits)
  then show ?thesis using nss_groups_ok [of "i\<lparr>i_UID := u, i_GID := gd\<rparr>" name exec] assms(2) by simp
qed

lemma LookupNSS_ok:
  assumes "snd (LookupNSS exec (parse p g) name) = Inr j" shows "ident_ok name j"
  using assms nss_by_id_ok [of exec name _ j]
  by (auto simp: LookupNSS_def Let_def nss_groups_ok LookupUser_ok split: if_splits sum.splits option.splits prod.splits)

lemma resolveNSS_Inr:
  "snd (resolveNSS exec s1 s2 name) = Inr i \<longleftrightarrow>
   snd (LookupNSS exec s1 name) = Inr i \<and> (i_UID i = 0 \<longrightarrow> (\<exists>j. LookupUser s2 name = Inr j \<and> i_UID j = 0))"
  by (auto simp: resolveNSS_def split: prod.splits sum.splits)

text \<open>The calls a lookup may make for a name, and when it may make any.\<close>

definition call_ok :: "string \<Rightarrow> helper_call \<Rightarrow> bool" where
  "call_ok name c \<longleftrightarrow>
     (case c of (prog, args) \<Rightarrow>
        (prog = ''getent'' \<and> (args = [''passwd'', name] \<or> (\<exists>uid. args = [''passwd'', itoa uid])))
      \<or> (prog = ''id'' \<and> (args = [''-u'', name] \<or> args = [''-g'', name] \<or> args = [''-G'', name])))"

lemma nss_by_id_calls: "list_all (call_ok name) (fst (nss_by_id exec name i))"
  by (auto simp: nss_by_id_def Let_def call_ok_def getent_name_def split: option.splits)

lemma LookupNSS_calls:
  "list_all (call_ok name) (fst (LookupNSS exec s name)) \<and>
   (fst (LookupNSS exec s name) \<noteq> [] \<longrightarrow> ValidUser name \<and> \<not> isNumericName name)"
  using nss_by_id_calls [of name exec]
  by (auto simp: LookupNSS_def Let_def call_ok_def getent_name_def split: option.splits prod.splits)

subsection \<open>The cache\<close>

text \<open>An entry was stored by a lookup of its name that succeeded; it is never older than the lifetime when used.\<close>

lemma cache_hit_Some:
  "cache_hit now name c = (Some i, c') \<Longrightarrow> table_ok (ca_entries c) \<Longrightarrow>
   \<exists>e. tget (ca_entries c) name = Some e \<and> i = (ce_id e)\<lparr>i_Source := SourceCache\<rparr> \<and> now - ce_used e \<le> ca_ttl c"
  by (auto simp: cache_hit_def Let_def pruneLocked_def tget_tkeep split: option.splits if_splits)

subsection \<open>Properties\<close>

text \<open>
  C13: The name service never invents root: when a name resolves to uid 0, through the files or through any
  helper output whatever, then /etc/passwd itself, as it was at the first lookup or at the final check,
  maps that very name to uid 0.
\<close>

theorem nss_never_invents_root:
  assumes "snd (Resolve exec (parse p0 g0) (parse p1 g1) (parse p2 g2) name) = Inr i" and "i_UID i = 0"
  shows "\<exists>e. (find (\<lambda>e. pw_name e = name) (passwd_rows p0) = Some e
            \<or> find (\<lambda>e. pw_name e = name) (passwd_rows p2) = Some e) \<and> pw_uid e = 0"
proof (cases "LookupUser (parse p0 g0) name")
  case (Inr j)
  then have "LookupUser (parse p0 g0) name = Inr i" using assms(1) by (simp add: Resolve_def)
  then show ?thesis using assms(2) by (auto simp: LookupUser_Inr byName_parse)
next
  case (Inl x)
  then have "snd (resolveNSS exec (parse p1 g1) (parse p2 g2) name) = Inr i" using assms(1) by (simp add: Resolve_def)
  then obtain j where "LookupUser (parse p2 g2) name = Inr j" "i_UID j = 0"
    using assms(2) by (auto simp: resolveNSS_Inr)
  then show ?thesis by (auto simp: LookupUser_Inr byName_parse)
qed

definition sample_passwd :: bytes where
  "sample_passwd = ''admin:x:0:0:root:/root:/bin/sh'' @ [CHR 0x0A] @ ''eve:x:1000:100::/home/eve:'' @ [CHR 0x0A]"

lemma sample_passwd_rows:
  "passwd_rows sample_passwd =
    [\<lparr>pw_name = ''admin'', pw_uid = 0, pw_gid = 0, pw_home = ''/root''\<rparr>,
     \<lparr>pw_name = ''eve'', pw_uid = 1000, pw_gid = 100, pw_home = ''/home/eve''\<rparr>]"
  by code_simp

theorem nss_never_invents_root_witness:
  "\<exists>e. find (\<lambda>e. pw_name e = ''admin'') (passwd_rows sample_passwd) = Some e \<and> pw_uid e = 0"
proof -
  have "LookupUser (parse sample_passwd []) ''admin'' = Inr \<lparr>i_Name = ''admin'', i_UID = 0, i_GID = 0,
      i_Groups = mergeGroups 0 (members_of ''admin'' (parse sample_passwd [])),
      i_Home = ''/root'', i_Source = SourcePasswd, i_Partial = False\<rparr>"
    unfolding LookupUser_Inr byName_parse sample_passwd_rows by simp
  then have "snd (Resolve (\<lambda>_ _. None) (parse sample_passwd []) (parse [] []) (parse sample_passwd []) ''admin'')
    = Inr \<lparr>i_Name = ''admin'', i_UID = 0, i_GID = 0,
      i_Groups = mergeGroups 0 (members_of ''admin'' (parse sample_passwd [])),
      i_Home = ''/root'', i_Source = SourcePasswd, i_Partial = False\<rparr>"
    by (simp add: Resolve_def)
  from nss_never_invents_root [OF this] show ?thesis by simp
qed

text \<open>
  The helpers cannot be misled. Whatever the name, every program run is getent or id with one of the
  fixed operand lists, the name only as an operand of its own; and a program is run at all only for a name
  that the whitelist accepts, that cannot be read as an option and that is not all digits.
\<close>

theorem helpers_never_misled:
  "list_all (call_ok name) (fst (Resolve exec s0 s1 s2 name)) \<and>
   (if ValidUser name \<and> \<not> isNumericName name then hd name \<noteq> CHR ''-'' else fst (Resolve exec s0 s1 s2 name) = [])"
proof -
  have "fst (Resolve exec s0 s1 s2 name) = [] \<or> fst (Resolve exec s0 s1 s2 name) = fst (LookupNSS exec s1 name)"
    by (auto simp: Resolve_def resolveNSS_def split: sum.split prod.split)
  moreover have "hd name \<noteq> CHR ''-''" if "ValidUser name"
    using that by (cases name) (auto simp: ValidUser_def)
  ultimately show ?thesis using LookupNSS_calls [of name exec s1] by auto
qed

text \<open>What speaks for an identity: a row of a file, a row getent printed for the name, or the answers of id.\<close>

definition row_speaks :: "passwdEnt list \<Rightarrow> string \<Rightarrow> ident \<Rightarrow> bool" where
  "row_speaks rows name i \<longleftrightarrow>
     (\<exists>e. find (\<lambda>e. pw_name e = name) rows = Some e \<and> i_UID i = pw_uid e \<and> i_GID i = pw_gid e \<and> i_Home i = pw_home e)"

definition getent_rows :: "helper \<Rightarrow> string \<Rightarrow> passwdEnt list" where
  "getent_rows exec arg = (case exec ''getent'' [''passwd'', arg] of None \<Rightarrow> [] | Some out \<Rightarrow> passwd_rows out)"

definition id_speaks :: "helper \<Rightarrow> string \<Rightarrow> ident \<Rightarrow> bool" where
  \<comment> \<open>getent names nobody for the name, id gives both numbers, and getent names nobody else for the uid\<close>
  "id_speaks exec name i \<longleftrightarrow>
     getent_rows exec name = [] \<and>
     Option.bind (exec ''id'' [''-u'', name]) singleNumber = Some (i_UID i) \<and>
     Option.bind (exec ''id'' [''-g'', name]) singleNumber = Some (i_GID i) \<and>
     (case getent_rows exec (itoa (i_UID i)) of [] \<Rightarrow> True | e # es \<Rightarrow> pw_name e = name)"

lemma passwd_rows_lines:
  "passwd_rows b = List.map_filter parsePasswdRow (lines b)"
  by (simp add: passwd_rows_def)

lemma ent_loop_rows:
  "ent_loop want ls other =
     (case find (\<lambda>e. pw_name e = want) (List.map_filter parsePasswdRow ls) of
        Some e \<Rightarrow> (Some e, None)
      | None \<Rightarrow> (None, case other of Some x \<Rightarrow> Some x
                       | None \<Rightarrow> (case List.map_filter parsePasswdRow ls of [] \<Rightarrow> None | e # es \<Rightarrow> Some e)))"
  by (induction want ls other rule: ent_loop.induct)
     (auto simp: List.map_filter_def split: option.splits list.splits)

lemma first_ent_rows: "first_ent ls = (case List.map_filter parsePasswdRow ls of [] \<Rightarrow> None | e # es \<Rightarrow> Some e)"
  by (induction ls) (auto simp: List.map_filter_def split: option.split)

lemma passwdEntFor_rows:
  "passwdEntFor out want =
     (case find (\<lambda>e. pw_name e = want) (passwd_rows out) of
        Some e \<Rightarrow> (Some e, None)
      | None \<Rightarrow> (None, case passwd_rows out of [] \<Rightarrow> None | e # es \<Rightarrow> Some e))"
  by (simp add: passwdEntFor_def passwd_rows_lines ent_loop_rows split: option.split)

lemma nss_groups_keeps:
  "i_UID (nss_groups exec name i) = i_UID i" "i_GID (nss_groups exec name i) = i_GID i"
  "i_Home (nss_groups exec name i) = i_Home i"
  by (simp_all add: nss_groups_def split: option.split)

lemma nss_by_id_speaks:
  assumes "snd (nss_by_id exec name i) = Inr j" "getent_rows exec name = []"
  shows "id_speaks exec name j"
  using assms
  by (auto simp: nss_by_id_def Let_def id_speaks_def nss_groups_keeps getent_rows_def firstPasswdEnt_def first_ent_rows
      passwd_rows_lines split: option.splits if_splits list.splits)

lemma LookupNSS_speaks:
  assumes "snd (LookupNSS exec (parse p g) name) = Inr j"
  shows "row_speaks (passwd_rows p) name j \<or> row_speaks (getent_rows exec name) name j \<or> id_speaks exec name j"
proof (cases "isNumericName name")
  case True
  then show ?thesis using assms
    by (auto simp: LookupNSS_def row_speaks_def LookupUser_Inr byName_parse split: if_splits sum.splits)
next
  case num: False
  then have v: "ValidUser name" using assms by (auto simp: LookupNSS_def split: if_splits)
  show ?thesis
  proof (cases "exec ''getent'' [''passwd'', name]")
    case None
    then have "getent_rows exec name = []" by (simp add: getent_rows_def)
    with nss_by_id_speaks [OF _ this] show ?thesis using assms num v None by (auto simp: LookupNSS_def)
  next
    case (Some out)
    then have rows: "getent_rows exec name = passwd_rows out" by (simp add: getent_rows_def)
    show ?thesis
    proof (cases "find (\<lambda>e. pw_name e = name) (passwd_rows out)")
      case (Some e)
      then show ?thesis using assms num v \<open>exec _ _ = Some out\<close> rows
        by (auto simp: LookupNSS_def passwdEntFor_rows row_speaks_def nss_groups_keeps)
    next
      case None
      then show ?thesis using assms num v \<open>exec _ _ = Some out\<close> rows nss_by_id_speaks [of exec name _ j]
        by (auto simp: LookupNSS_def passwdEntFor_rows split: list.splits)
    qed
  qed
qed

text \<open>
  C40: An identity belongs to the name that was asked for. Whatever the helpers print, a name resolves only when
  somebody speaks for it: the first row of /etc/passwd with that name, the first row of that name among those getent
  prints for it, or, where getent prints no row for it, the two numbers id prints, of which the uid is one getent
  knows under no other name. Uid and gid are the ones that source gives, and the group list is strictly
  increasing and holds the primary gid.
\<close>

theorem identity_bound_to_name:
  assumes "snd (Resolve exec (parse p0 g0) (parse p1 g1) s2 name) = Inr i"
  shows "(row_speaks (passwd_rows p0) name i \<or> row_speaks (passwd_rows p1) name i \<or>
      row_speaks (getent_rows exec name) name i \<or> id_speaks exec name i) \<and>
    i_Name i = name \<and> sorted_wrt (<) (i_Groups i) \<and> i_GID i \<in> set (i_Groups i)"
proof (cases "LookupUser (parse p0 g0) name")
  case (Inr j)
  then have "LookupUser (parse p0 g0) name = Inr i" using assms by (simp add: Resolve_def)
  moreover from this have "row_speaks (passwd_rows p0) name i" by (auto simp: LookupUser_Inr row_speaks_def byName_parse)
  ultimately show ?thesis using LookupUser_ok [of p0 g0 name i] by (simp add: ident_ok_def)
next
  case (Inl x)
  then have "snd (resolveNSS exec (parse p1 g1) s2 name) = Inr i" using assms by (simp add: Resolve_def)
  then have "snd (LookupNSS exec (parse p1 g1) name) = Inr i" by (simp add: resolveNSS_Inr)
  then show ?thesis using LookupNSS_ok LookupNSS_speaks [of exec p1 g1 name i] by (auto simp: ident_ok_def)
qed

text \<open>A NAS whose getent knows no names, only the uid: id speaks for bob, and bob alone.\<close>

definition sample_helper :: helper where
  "sample_helper prog args =
     (if args = [''passwd'', ''2001''] then Some (''bob:*:2001:513::/home/bob:'' @ [CHR 0x0A])
      else if prog = ''getent'' then None
      else if args = [''-u'', ''bob''] \<or> args = [''-u'', ''eve''] then Some ''2001''
      else if args = [''-G'', ''bob''] then Some ''600 513 600'' else Some ''513'')"

lemma sample_helper_bob:
  "snd (Resolve sample_helper (parse [] []) (parse [] []) (parse [] []) ''bob'') = Inr
     \<lparr>i_Name = ''bob'', i_UID = 2001, i_GID = 513, i_Groups = [513, 600], i_Home = [],
      i_Source = ''nss-helper'', i_Partial = False\<rparr>"
  by code_simp

lemma sample_helper_rows: "\<not> row_speaks (passwd_rows []) ''bob'' i" "\<not> row_speaks (getent_rows sample_helper ''bob'') ''bob'' i"
proof -
  have "passwd_rows [] = []" "getent_rows sample_helper ''bob'' = []" by code_simp+
  then show "\<not> row_speaks (passwd_rows []) ''bob'' i" "\<not> row_speaks (getent_rows sample_helper ''bob'') ''bob'' i"
    by (simp_all add: row_speaks_def)
qed

theorem identity_bound_to_name_witness:
  "(\<exists>i. snd (Resolve sample_helper (parse [] []) (parse [] []) (parse [] []) ''bob'') = Inr i \<and> id_speaks sample_helper ''bob'' i) \<and>
   snd (Resolve sample_helper (parse [] []) (parse [] []) (parse [] []) ''eve'') = Inl ErrNameMismatch"
proof -
  have "snd (Resolve sample_helper (parse [] []) (parse [] []) (parse [] []) ''eve'') = Inl ErrNameMismatch" by code_simp
  then show ?thesis using identity_bound_to_name [OF sample_helper_bob] sample_helper_bob sample_helper_rows by blast
qed

text \<open>
  The parsed tables are the documented reading of the files: a name stands for the first row of
  /etc/passwd that names it, whatever follows; a uid is only reported as a name that itself has that uid;
  and the files-only group set of a name is the gids of the group rows that list it plus, for a local
  user, the primary gid.
\<close>

theorem first_row_wins:
  "tget (byName (parse p g)) name = find (\<lambda>e. pw_name e = name) (passwd_rows p) \<and>
   (case tget (uidToName (parse p g)) uid of None \<Rightarrow> True
    | Some n \<Rightarrow> (\<exists>e. find (\<lambda>e. pw_name e = n) (passwd_rows p) = Some e \<and> pw_uid e = uid)) \<and>
   set (GroupsOf (parse p g) name) = {gr_GID r |r. r \<in> set (group_rows g) \<and> name \<in> set (gr_Members r)}
     \<union> (case find (\<lambda>e. pw_name e = name) (passwd_rows p) of None \<Rightarrow> {} | Some e \<Rightarrow> {pw_gid e})"
proof -
  have u: "case tget (uidToName (parse p g)) uid of None \<Rightarrow> True
    | Some n \<Rightarrow> (\<exists>e. find (\<lambda>e. pw_name e = n) (passwd_rows p) = Some e \<and> pw_uid e = uid)"
    using uidToName_parse [of p g uid] by (auto simp: byName_parse split: option.split)
  have "set (GroupsOf (parse p g) name) = set (members_of name (parse p g))
     \<union> (case find (\<lambda>e. pw_name e = name) (passwd_rows p) of None \<Rightarrow> {} | Some e \<Rightarrow> {pw_gid e})"
    unfolding GroupsOf_def byName_parse by (auto simp: sortDedup_set split: option.split)
  then show ?thesis using u by (simp add: byName_parse members_parse)
qed

text \<open>
  Both signals are needed to be an administrator. QTS must say so in every configuration; with
  requireBoth the local account must agree as well, and then exactly the two together decide; the note is
  empty exactly when the two agree.
\<close>

theorem admin_needs_both:
  "fst (DecideAdmin qts i m requireBoth) = (qts \<and> (requireBoth \<longrightarrow> IsLocalAdmin i m)) \<and>
   (snd (DecideAdmin qts i m requireBoth) = []) = (qts = IsLocalAdmin i m)"
  by (auto simp: DecideAdmin_def Let_def)

theorem admin_needs_both_witness:
  "\<not> fst (DecideAdmin True \<lparr>i_Name = ''eve'', i_UID = 1000, i_GID = 100, i_Groups = [100], i_Home = [],
      i_Source = [], i_Partial = False\<rparr> None True)"
  using admin_needs_both [of True "\<lparr>i_Name = ''eve'', i_UID = 1000, i_GID = 100, i_Groups = [100], i_Home = [],
      i_Source = [], i_Partial = False\<rparr>" None True] by (simp add: IsLocalAdmin_def)

end
