(* ===== verification/Mountinfo.thy ===== *)
theory Mountinfo
  imports Fsx_Path
begin

section \<open>Mount rows and their capabilities (internal/platform/mountinfo.go, caps.go)\<close>

text \<open>
  The parser of /proc/self/mountinfo, line by line, and what a row says about its filesystem. The scanner
  in front of the parser is the list of its lines; file system type names are lowered as ASCII.
\<close>

record mount =
  mt_ID :: int
  mt_ParentID :: int
  mt_Major :: int
  mt_Minor :: int
  mt_Root :: string
  mt_MountPoint :: string
  mt_FSType :: string
  mt_Source :: string
  mt_Options :: "string list"
  mt_SuperOptions :: "string list"

definition Dev :: "mount \<Rightarrow> string" where
  "Dev m = itoa (mt_Major m) @ '':'' @ itoa (mt_Minor m)"

subsection \<open>Parsing\<close>

definition octal_digit :: "char \<Rightarrow> bool" where
  "octal_digit c \<longleftrightarrow> 48 \<le> (of_char c :: nat) \<and> (of_char c :: nat) \<le> 55"

definition isOctal :: "string \<Rightarrow> bool" where
  "isOctal s \<longleftrightarrow> list_all octal_digit s \<and> s \<noteq> []"

definition escape_val :: "char \<Rightarrow> char \<Rightarrow> char \<Rightarrow> nat" where
  "escape_val d e f = 64 * digit_val d + 8 * digit_val e + digit_val f"

fun unescape_loop :: "string \<Rightarrow> string" where
  "unescape_loop (c # d # e # f # s) =
     (if c = CHR 0x5C \<and> isOctal [d, e, f] \<and> escape_val d e f \<le> 255
      then char_of (escape_val d e f) # unescape_loop s
      else c # unescape_loop (d # e # f # s))"
| "unescape_loop s = s"

definition unescapeOctal :: "string \<Rightarrow> string" where
  "unescapeOctal s = (if CHR 0x5C \<notin> set s then s else unescape_loop s)"

definition splitOptions :: "string \<Rightarrow> string list" where
  "splitOptions s =
     (if s = [] then [] else map unescapeOctal (filter (\<lambda>p. p \<noteq> []) (split_on CHR '','' s)))"

text \<open>The index of the separator that ends the optional fields, from field 6 on.\<close>

definition find_sep :: "string list \<Rightarrow> nat option" where
  "find_sep f = find (\<lambda>i. f ! i = ''-'') [6..<length f]"

definition parseMountinfoLine :: "string \<Rightarrow> mount option" where
  "parseMountinfoLine line =
     (let f = go_fields line
      in if length f < 10 then None
         else case find_sep f of
           None \<Rightarrow> None
         | Some sep \<Rightarrow>
             if length f < sep + 3 then None
             else case atoi (f ! 0) of
               None \<Rightarrow> None
             | Some i \<Rightarrow> (case atoi (f ! 1) of
                 None \<Rightarrow> None
               | Some parent \<Rightarrow> (case cut_at CHR '':'' (f ! 2) of
                   None \<Rightarrow> None
                 | Some (maj, mnr) \<Rightarrow> (case atoi maj of
                     None \<Rightarrow> None
                   | Some a \<Rightarrow> (case atoi mnr of
                       None \<Rightarrow> None
                     | Some b \<Rightarrow> Some \<lparr>mt_ID = i, mt_ParentID = parent, mt_Major = a, mt_Minor = b,
                         mt_Root = unescapeOctal (f ! 3), mt_MountPoint = unescapeOctal (f ! 4),
                         mt_FSType = unescapeOctal (f ! (sep + 1)), mt_Source = unescapeOctal (f ! (sep + 2)),
                         mt_Options = splitOptions (f ! 5),
                         mt_SuperOptions = (if length f > sep + 3 then splitOptions (f ! (sep + 3)) else [])\<rparr>)))))"

definition ParseMountinfo :: "string list \<Rightarrow> mount list" where
  "ParseMountinfo ls =
     List.map_filter (\<lambda>l. let line = trim_right_char (CHR 0x0D) l
                          in if trim_space line = [] then None else parseMountinfoLine line) ls"

subsection \<open>Capabilities\<close>

record fscaps =
  fs_FSType :: string
  fs_Storage :: bool
  fs_Domain :: string
  fs_Mount :: string
  fs_ACLBackend :: string
  fs_ACLXattr :: string
  fs_ZFSAclmode :: string
  fs_Network :: bool
  fs_Tmpfs :: bool
  fs_RAM :: bool
  fs_Root :: bool

definition no_caps :: fscaps where
  \<comment> \<open>the zero value\<close>
  "no_caps = \<lparr>fs_FSType = [], fs_Storage = False, fs_Domain = [], fs_Mount = [], fs_ACLBackend = [], fs_ACLXattr = [],
     fs_ZFSAclmode = [], fs_Network = False, fs_Tmpfs = False, fs_RAM = False, fs_Root = False\<rparr>"

definition storageFSTypes :: "string list" where
  "storageFSTypes = [''ext2'', ''ext3'', ''ext4'', ''xfs'', ''btrfs'', ''zfs'', ''f2fs'']"

definition networkFSTypes :: "string list" where
  "networkFSTypes = [''nfs'', ''nfs4'', ''cifs'', ''smb3'', ''smbfs'', ''sshfs'']"

definition memoryFSTypes :: "string list" where
  "memoryFSTypes = [''tmpfs'', ''devtmpfs'', ''ramfs'']"

definition IsStorageFS :: "string \<Rightarrow> bool" where
  "IsStorageFS t \<longleftrightarrow> List.member storageFSTypes (to_lower t)"

definition IsNetworkFS :: "string \<Rightarrow> bool" where
  "IsNetworkFS fstype =
     (let t = to_lower fstype
      in if List.member networkFSTypes t then True
         else if t = ''fuse.zfs'' then False
         else t = ''fuse'' \<or> has_prefix t ''fuse.'')"

definition IsMemoryFS :: "string \<Rightarrow> bool" where
  "IsMemoryFS t \<longleftrightarrow> List.member memoryFSTypes (to_lower t)"

definition ZFSPool :: "string \<Rightarrow> string" where
  "ZFSPool source = (case cut_at CHR ''/'' source of None \<Rightarrow> source | Some (a, b) \<Rightarrow> a)"

definition CapsForMount :: "mount \<Rightarrow> fscaps" where
  "CapsForMount m =
     (let t = to_lower (mt_FSType m)
      in no_caps\<lparr>fs_FSType := mt_FSType m, fs_Storage := IsStorageFS t, fs_Mount := mt_MountPoint m,
           fs_Network := IsNetworkFS t, fs_Tmpfs := IsMemoryFS t, fs_RAM := (t = ''tmpfs'' \<or> t = ''ramfs''),
           fs_Root := (mt_MountPoint m = ''/''),
           fs_Domain := (if t = ''zfs'' then ''zfs:'' @ ZFSPool (mt_Source m) else ''dev:'' @ Dev m)\<rparr>)"

text \<open>The volume-name pattern: one of the four stems, then \<open>_DATA\<close>.\<close>

definition strip_stem :: "string \<Rightarrow> string \<Rightarrow> string option" where
  "strip_stem stem tok =
     (if has_prefix tok stem \<and> drop (length stem) tok \<noteq> [] \<and> list_all is_digit (drop (length stem) tok)
      then Some (drop (length stem) tok) else None)"

definition VolumeLabel :: "string \<Rightarrow> string" where
  "VolumeLabel name =
     (if \<not> has_suffix name ''_DATA'' then []
      else let tok = take (length name - 5) name
           in case strip_stem ''CACHEDEV'' tok of
                Some n \<Rightarrow> ''Volume '' @ n
              | None \<Rightarrow> (case strip_stem ''ZFS'' tok of
                  Some n \<Rightarrow> ''Pool volume '' @ n
                | None \<Rightarrow> (case strip_stem ''MD'' tok of
                    Some n \<Rightarrow> ''RAID volume '' @ n
                  | None \<Rightarrow>
                      if length tok = 3 \<and> has_prefix tok ''HD'' \<and> 65 \<le> (of_char (tok ! 2) :: nat) \<and> (of_char (tok ! 2) :: nat) \<le> 90
                      then ''Legacy volume '' @ drop 2 tok else [])))"

subsection \<open>The kernel's escaping is undone exactly\<close>

text \<open>What the kernel writes for a byte of a path: an octal escape for white space and the backslash.\<close>

definition kernel_byte :: "char \<Rightarrow> string" where
  "kernel_byte c =
     (if c = CHR 0x20 \<or> c = CHR 0x09 \<or> c = CHR 0x0A \<or> c = CHR 0x5C
      then [CHR 0x5C, char_of (of_char c div 64 + 48 :: nat), char_of (of_char c div 8 mod 8 + 48 :: nat),
            char_of (of_char c mod 8 + 48 :: nat)]
      else [c])"

definition kernel_escape :: "string \<Rightarrow> string" where
  "kernel_escape s = concat (map kernel_byte s)"

lemma kernel_escape_simps [simp]:
  "kernel_escape [] = []" "kernel_escape (c # s) = kernel_byte c @ kernel_escape s"
  by (simp_all add: kernel_escape_def)

lemma unescape_plain: "c \<noteq> CHR 0x5C \<Longrightarrow> unescape_loop (c # s) = c # unescape_loop s"
  by (cases s; cases "tl s"; cases "tl (tl s)") auto

lemma unescape_space: "unescape_loop (CHR 0x5C # CHR ''0'' # CHR ''4'' # CHR ''0'' # s) = CHR 0x20 # unescape_loop s"
  and unescape_tab: "unescape_loop (CHR 0x5C # CHR ''0'' # CHR ''1'' # CHR ''1'' # s) = CHR 0x09 # unescape_loop s"
  and unescape_newline: "unescape_loop (CHR 0x5C # CHR ''0'' # CHR ''1'' # CHR ''2'' # s) = CHR 0x0A # unescape_loop s"
  and unescape_backslash: "unescape_loop (CHR 0x5C # CHR ''1'' # CHR ''3'' # CHR ''4'' # s) = CHR 0x5C # unescape_loop s"
  by (simp_all add: isOctal_def octal_digit_def escape_val_def digit_val_def char_of_def bit_Suc_0_iff)

lemma unescape_kernel_byte: "unescape_loop (kernel_byte c @ s) = c # unescape_loop s"
proof -
  consider "c = CHR 0x20" | "c = CHR 0x09" | "c = CHR 0x0A" | "c = CHR 0x5C"
    | "c \<noteq> CHR 0x20 \<and> c \<noteq> CHR 0x09 \<and> c \<noteq> CHR 0x0A \<and> c \<noteq> CHR 0x5C" by blast
  then show ?thesis
  proof cases
    case 1
    have "kernel_byte c = [CHR 0x5C, CHR ''0'', CHR ''4'', CHR ''0'']" by (simp add: 1 kernel_byte_def char_of_def bit_Suc_0_iff)
    then show ?thesis by (simp add: 1 unescape_space del: unescape_loop.simps)
  next
    case 2
    have "kernel_byte c = [CHR 0x5C, CHR ''0'', CHR ''1'', CHR ''1'']" by (simp add: 2 kernel_byte_def char_of_def bit_Suc_0_iff)
    then show ?thesis by (simp add: 2 unescape_tab del: unescape_loop.simps)
  next
    case 3
    have "kernel_byte c = [CHR 0x5C, CHR ''0'', CHR ''1'', CHR ''2'']" by (simp add: 3 kernel_byte_def char_of_def bit_Suc_0_iff)
    then show ?thesis by (simp add: 3 unescape_newline del: unescape_loop.simps)
  next
    case 4
    have "kernel_byte c = [CHR 0x5C, CHR ''1'', CHR ''3'', CHR ''4'']" by (simp add: 4 kernel_byte_def char_of_def bit_Suc_0_iff)
    then show ?thesis by (simp add: 4 unescape_backslash del: unescape_loop.simps)
  next
    case 5
    then show ?thesis by (simp add: kernel_byte_def unescape_plain del: unescape_loop.simps)
  qed
qed

lemma unescape_kernel_escape: "unescape_loop (kernel_escape s) = s"
  by (induction s) (simp_all add: unescape_kernel_byte)

lemma no_backslash: "CHR 0x5C \<notin> set (kernel_escape s) \<Longrightarrow> kernel_escape s = s"
proof (induction s)
  case (Cons c s)
  then have "kernel_byte c = [c]" by (auto simp: kernel_byte_def split: if_splits)
  with Cons show ?case by simp
qed simp

text \<open>
  A mount point is read back byte for byte: undoing the octal escapes of what the kernel prints for a
  path (white space and the backslash escaped, every other byte as it is) gives the path, whatever its bytes.
\<close>

theorem mount_point_roundtrip: "unescapeOctal (kernel_escape s) = s"
  by (simp add: unescapeOctal_def unescape_kernel_escape no_backslash)

end
