(* ===== verification/Platform.thy ===== *)
theory Platform
  imports Mountinfo "HOL-Library.Product_Lexorder"
begin

section \<open>The mount table (internal/platform/platform.go)\<close>

text \<open>
  The table of mounts with the facts probed about them, its refresh, the background probing pass, and the
  lookups every operation asks. The clock is an argument. The order in which a Go \<open>range\<close> visits a map is an
  argument too (\<open>vis\<close>), since it decides the incarnation numbers. An incarnation number is a natural
  number: 64 bits of refreshes are not exhausted. The kernel probes (an extended attribute, the zfs
  command) are parameters.
\<close>

definition FamilyQTS :: string where "FamilyQTS = ''qts''"
definition FamilyHero :: string where "FamilyHero = ''quts_hero''"
definition FamilyLinux :: string where "FamilyLinux = ''linux''"

definition refreshInterval :: time where "refreshInterval = 5 * 10 ^ 9"
definition defaultProbeTTL :: time where "defaultProbeTTL = 60 * 10 ^ 9"
definition maxProbesPerRefresh :: nat where "maxProbesPerRefresh = 16"

record platform =
  pf_mounts :: "mount list"
  pf_caps :: "(string, fscaps) table"
  pf_order :: "string list"
  pf_read :: time
  pf_live :: bool
  pf_inc :: "(string, nat) table"
  pf_nextInc :: nat
  pf_probedAt :: "(string, time) table"
  pf_probeTTL :: time
  pf_probing :: bool
  pf_cursor :: string

definition newPlatform :: platform where
  "newPlatform = \<lparr>pf_mounts = [], pf_caps = [], pf_order = [], pf_read = 0, pf_live = False, pf_inc = [], pf_nextInc = 0,
     pf_probedAt = [], pf_probeTTL = defaultProbeTTL, pf_probing = False, pf_cursor = []\<rparr>"

subsection \<open>The identity of a mount\<close>

definition sameMountRow :: "mount \<Rightarrow> mount \<Rightarrow> bool" where
  "sameMountRow a b \<longleftrightarrow> mt_ID a = mt_ID b \<and> mt_Major a = mt_Major b \<and> mt_Minor a = mt_Minor b
     \<and> mt_Root a = mt_Root b \<and> mt_MountPoint a = mt_MountPoint b \<and> mt_FSType a = mt_FSType b
     \<and> mt_Source a = mt_Source b \<and> mt_Options a = mt_Options b \<and> mt_SuperOptions a = mt_SuperOptions b"

definition visibleRows :: "mount list \<Rightarrow> (string, mount) table" where
  "visibleRows mounts = foldl (\<lambda>t m. tput (mt_MountPoint m) m t) [] mounts"

definition no_mount :: mount where
  \<comment> \<open>the zero value, what indexing the map yields for a point it does not hold\<close>
  "no_mount = \<lparr>mt_ID = 0, mt_ParentID = 0, mt_Major = 0, mt_Minor = 0, mt_Root = [], mt_MountPoint = [], mt_FSType = [],
     mt_Source = [], mt_Options = [], mt_SuperOptions = []\<rparr>"

definition row_at :: "mount list \<Rightarrow> string \<Rightarrow> mount" where
  "row_at mounts mp = (case tget (visibleRows mounts) mp of None \<Rightarrow> no_mount | Some m \<Rightarrow> m)"

subsection \<open>Refresh\<close>

definition caps_of_rows :: "mount list \<Rightarrow> (string, fscaps) table" where
  "caps_of_rows mounts = foldl (\<lambda>t m. tput (mt_MountPoint m) (CapsForMount m) t) [] mounts"

definition mount_order :: "string list \<Rightarrow> string list" where
  "mount_order mps = sort_key (\<lambda>s. (- int (length s), s)) mps"

definition probed_from :: "fscaps \<Rightarrow> fscaps \<Rightarrow> fscaps" where
  "probed_from old c = c\<lparr>fs_ACLBackend := fs_ACLBackend old, fs_ACLXattr := fs_ACLXattr old, fs_ZFSAclmode := fs_ZFSAclmode old\<rparr>"

type_synonym carried = "(string, fscaps) table \<times> (string, nat) table \<times> (string, time) table \<times> nat"

text \<open>One turn of the loop that carries probed facts over a refresh.\<close>

definition carry_mount :: "platform \<Rightarrow> mount list \<Rightarrow> carried \<Rightarrow> string \<Rightarrow> carried" where
  "carry_mount p mounts st mp =
     (case st of (caps, inc, at, nxt) \<Rightarrow>
        (case tget (pf_inc p) mp of
           Some n \<Rightarrow>
             if sameMountRow (row_at (pf_mounts p) mp) (row_at mounts mp)
             then (case tget (pf_caps p) mp of
                     None \<Rightarrow> (caps, tput mp n inc, at, nxt)
                   | Some old \<Rightarrow>
                       (case tget caps mp of None \<Rightarrow> caps | Some c \<Rightarrow> tput mp (probed_from old c) caps,
                        tput mp n inc,
                        case tget (pf_probedAt p) mp of None \<Rightarrow> at | Some t \<Rightarrow> tput mp t at,
                        nxt))
             else (caps, tput mp (Suc nxt) inc, at, Suc nxt)
         | None \<Rightarrow> (caps, tput mp (Suc nxt) inc, at, Suc nxt)))"

definition setMounts :: "time \<Rightarrow> string list \<Rightarrow> mount list \<Rightarrow> platform \<Rightarrow> platform" where
  "setMounts now vis mounts p =
     (let caps0 = caps_of_rows mounts
      in case foldl (carry_mount p mounts) (caps0, [], [], pf_nextInc p) vis of
           (caps, inc, at, nxt) \<Rightarrow>
             p\<lparr>pf_mounts := mounts, pf_caps := caps, pf_inc := inc, pf_probedAt := at, pf_nextInc := nxt,
               pf_order := mount_order (map fst caps0), pf_read := now\<rparr>)"

text \<open>\<open>maybeRefresh\<close>: whether a lookup re-reads the table first. \<open>refresh\<close> with what the kernel's table held.\<close>

definition stale :: "time \<Rightarrow> platform \<Rightarrow> bool" where
  "stale now p \<longleftrightarrow> pf_live p \<and> now - pf_read p > refreshInterval"

definition refresh :: "time \<Rightarrow> string list \<Rightarrow> mount list option \<Rightarrow> platform \<Rightarrow> platform" where
  \<comment> \<open>None: the table could not be read\<close>
  "refresh now vis r p =
     (if \<not> pf_live p then p else case r of None \<Rightarrow> p | Some mounts \<Rightarrow> setMounts now vis mounts p)"

subsection \<open>What a lookup may state\<close>

definition probeExpired :: "time \<Rightarrow> platform \<Rightarrow> string \<Rightarrow> bool" where
  "probeExpired now p mp =
     (case tget (pf_probedAt p) mp of None \<Rightarrow> True | Some at \<Rightarrow> now - at > pf_probeTTL p)"

definition capsLocked :: "time \<Rightarrow> platform \<Rightarrow> string \<Rightarrow> fscaps" where
  "capsLocked now p mp =
     (let c = (case tget (pf_caps p) mp of None \<Rightarrow> no_caps | Some c \<Rightarrow> c)
      in if \<not> probeExpired now p mp then c
         else c\<lparr>fs_ACLBackend := [], fs_ACLXattr := [], fs_ZFSAclmode := []\<rparr>)"

definition slash_char :: "char \<Rightarrow> char" where
  "slash_char c = (if c = CHR 0x5C then CHR ''/'' else c)"

definition normalizePath :: "string \<Rightarrow> string" where
  "normalizePath p =
     (if p = [] then []
      else let s = map slash_char p in if \<not> has_prefix s ''/'' then [] else path_clean s)"

definition pathHasPrefix :: "string \<Rightarrow> string \<Rightarrow> bool" where
  "pathHasPrefix p mp \<longleftrightarrow> mp = ''/'' \<or> p = mp \<or> has_prefix p (mp @ ''/'')"

definition literalMountKey :: "string \<Rightarrow> string" where
  "literalMountKey p = (if p = [] \<or> p ! 0 \<noteq> CHR ''/'' then [] else p)"

definition caps_for_key :: "time \<Rightarrow> platform \<Rightarrow> string \<Rightarrow> fscaps option" where
  "caps_for_key now p key = map_option (capsLocked now p) (find (pathHasPrefix key) (pf_order p))"

definition For :: "time \<Rightarrow> platform \<Rightarrow> string \<Rightarrow> fscaps" where
  "For now p osPath =
     (let clean = normalizePath osPath
      in if clean = [] then no_caps
         else case caps_for_key now p clean of None \<Rightarrow> no_caps | Some c \<Rightarrow> c)"

definition ForLiteral :: "time \<Rightarrow> platform \<Rightarrow> string \<Rightarrow> fscaps option" where
  "ForLiteral now p osPath =
     (let key = literalMountKey osPath in if key = [] then None else caps_for_key now p key)"

definition MountByLiteralPath :: "time \<Rightarrow> platform \<Rightarrow> string \<Rightarrow> fscaps option" where
  "MountByLiteralPath now p osPath =
     (let key = literalMountKey osPath
      in if key = [] \<or> tget (pf_caps p) key = None then None else Some (capsLocked now p key))"

text \<open>The loop over the rows that keeps the longest match, the later one on a tie.\<close>

fun best_mount :: "string \<Rightarrow> mount list \<Rightarrow> mount option \<Rightarrow> mount option" where
  "best_mount key [] best = best"
| "best_mount key (m # ms) best =
     (if \<not> pathHasPrefix key (mt_MountPoint m) then best_mount key ms best
      else case best of
        None \<Rightarrow> best_mount key ms (Some m)
      | Some b \<Rightarrow>
          if length (mt_MountPoint m) \<ge> length (mt_MountPoint b) then best_mount key ms (Some m) else best_mount key ms best)"

definition MountForLiteral :: "platform \<Rightarrow> string \<Rightarrow> mount option" where
  "MountForLiteral p osPath =
     (let key = literalMountKey osPath in if key = [] then None else best_mount key (pf_mounts p) None)"

definition MountFor :: "platform \<Rightarrow> string \<Rightarrow> mount option" where
  "MountFor p osPath =
     (let clean = normalizePath osPath in if clean = [] then None else best_mount clean (pf_mounts p) None)"

definition MayCross :: "fscaps \<Rightarrow> fscaps \<Rightarrow> bool" where
  "MayCross a b \<longleftrightarrow> fs_Storage b \<and> \<not> fs_Network b \<and> fs_Domain b = fs_Domain a"

definition MayCrossRead :: "fscaps \<Rightarrow> fscaps \<Rightarrow> bool" where
  "MayCrossRead a b =
     (if MayCross a b then True
      else if fs_Network b \<or> \<not> (fs_Root a \<or> fs_RAM a) then False
      else fs_RAM b \<or> fs_Storage b)"

definition TrashRootFor :: "time \<Rightarrow> platform \<Rightarrow> string \<Rightarrow> (string \<times> fscaps) option" where
  "TrashRootFor now p osPath =
     (case MountFor p osPath of
        None \<Rightarrow> None
      | Some m \<Rightarrow>
          let c = For now p (mt_MountPoint m)
          in if \<not> fs_Storage c \<or> fs_Network c then None else Some (mt_MountPoint m, c))"

definition IsMountPointByTable :: "platform \<Rightarrow> string \<Rightarrow> bool" where
  "IsMountPointByTable p osPath =
     (let clean = normalizePath osPath in if clean = [] then False else tget (pf_caps p) clean \<noteq> None)"

definition IsMountPoint :: "(string \<Rightarrow> bool) \<Rightarrow> platform \<Rightarrow> string \<Rightarrow> bool" where
  \<comment> \<open>\<open>probe\<close>: the comparison of devices with the parent directory\<close>
  "IsMountPoint probe p osPath =
     (if IsMountPointByTable p osPath then True
      else let clean = normalizePath osPath in if clean = [] then False else probe clean)"

fun volume_loop :: "mount list \<Rightarrow> string list \<Rightarrow> mount list" where
  "volume_loop [] seen = []"
| "volume_loop (m # ms) seen =
     (if \<not> IsStorageFS (mt_FSType m) then volume_loop ms seen
      else if path_dir (mt_MountPoint m) \<noteq> ''/share'' \<or> mt_MountPoint m = ''/share'' then volume_loop ms seen
      else if List.member seen (mt_MountPoint m) then volume_loop ms seen
      else m # volume_loop ms (mt_MountPoint m # seen))"

definition VolumeRoots :: "platform \<Rightarrow> mount list" where
  "VolumeRoots p = sort_key mt_MountPoint (volume_loop (pf_mounts p) [])"

subsection \<open>Probing\<close>

record probeTarget =
  pt_mount :: mount
  pt_inc :: nat

definition inc_at :: "platform \<Rightarrow> string \<Rightarrow> nat" where
  "inc_at p mp = (case tget (pf_inc p) mp of None \<Rightarrow> 0 | Some n \<Rightarrow> n)"

text \<open>The rows a pass has to ask about, the never probed ones apart.\<close>

definition probe_due :: "time \<Rightarrow> platform \<Rightarrow> string \<Rightarrow> bool" where
  "probe_due now p mp \<longleftrightarrow>
     \<not> (case tget (pf_caps p) mp of None \<Rightarrow> False | Some c \<Rightarrow> fs_ACLBackend c \<noteq> [] \<and> \<not> probeExpired now p mp)"

fun pending_loop :: "time \<Rightarrow> platform \<Rightarrow> mount list \<Rightarrow> string list \<Rightarrow> probeTarget list \<times> probeTarget list" where
  "pending_loop now p [] seen = ([], [])"
| "pending_loop now p (row # rows) seen =
     (let mp = mt_MountPoint row
      in if List.member seen mp then pending_loop now p rows seen
         else let m = row_at (pf_mounts p) mp; rest = pending_loop now p rows (mp # seen);
                  t = \<lparr>pt_mount = m, pt_inc = inc_at p mp\<rparr>
              in if \<not> IsStorageFS (mt_FSType m) \<or> \<not> probe_due now p mp then rest
                 else if tget (pf_probedAt p) mp \<noteq> None then (fst rest, t # snd rest) else (t # fst rest, snd rest))"

definition probed_time :: "platform \<Rightarrow> probeTarget \<Rightarrow> time" where
  "probed_time p t = (case tget (pf_probedAt p) (mt_MountPoint (pt_mount t)) of None \<Rightarrow> 0 | Some at \<Rightarrow> at)"

fun start_after :: "probeTarget list \<Rightarrow> string \<Rightarrow> nat" where
  \<comment> \<open>the index after the row the cursor names, 0 when it names none\<close>
  "start_after [] cursor = 0"
| "start_after (t # ts) cursor =
     (if mt_MountPoint (pt_mount t) = cursor then 1
      else case start_after ts cursor of 0 \<Rightarrow> 0 | Suc n \<Rightarrow> Suc (Suc n))"

definition resumeAfter :: "probeTarget list \<Rightarrow> string \<Rightarrow> nat \<Rightarrow> probeTarget list" where
  "resumeAfter tier cursor n =
     (if tier = [] \<or> n = 0 then []
      else let start = (if cursor = [] then 0 else start_after tier cursor)
           in map (\<lambda>i. tier ! ((start + i) mod length tier)) [0..<min n (length tier)])"

definition pendingProbes :: "time \<Rightarrow> platform \<Rightarrow> probeTarget list" where
  "pendingProbes now p =
     (case pending_loop now p (pf_mounts p) [] of
        (fresh, aged) \<Rightarrow>
          let fresh' = sort_key (\<lambda>t. mt_MountPoint (pt_mount t)) fresh;
              aged' = sort_key (\<lambda>t. (probed_time p t, mt_MountPoint (pt_mount t))) aged;
              pending = resumeAfter fresh' (pf_cursor p) maxProbesPerRefresh
          in if length pending < maxProbesPerRefresh
             then pending @ resumeAfter aged' (pf_cursor p) (maxProbesPerRefresh - length pending)
             else pending)"

text \<open>The start-up pass asks about every visible storage row.\<close>

fun startup_loop :: "platform \<Rightarrow> mount list \<Rightarrow> string list \<Rightarrow> probeTarget list" where
  "startup_loop p [] seen = []"
| "startup_loop p (row # rows) seen =
     (let mp = mt_MountPoint row
      in if List.member seen mp then startup_loop p rows seen
         else let m = row_at (pf_mounts p) mp
              in if \<not> IsStorageFS (mt_FSType m) then startup_loop p rows (mp # seen)
                 else \<lparr>pt_mount = m, pt_inc = inc_at p (mt_MountPoint m)\<rparr> # startup_loop p rows (mp # seen))"

definition startup_targets :: "platform \<Rightarrow> probeTarget list" where
  "startup_targets p = startup_loop p (pf_mounts p) []"

definition publishProbe :: "time \<Rightarrow> probeTarget \<Rightarrow> string \<Rightarrow> string \<Rightarrow> string \<Rightarrow> bool \<Rightarrow> platform \<Rightarrow> platform" where
  "publishProbe now t backend xattr aclmode overwrite p =
     (let mp = mt_MountPoint (pt_mount t)
      in if inc_at p mp \<noteq> pt_inc t then p
         else if \<not> sameMountRow (row_at (pf_mounts p) mp) (pt_mount t) then p
         else case tget (pf_caps p) mp of
           None \<Rightarrow> p
         | Some c \<Rightarrow>
             if \<not> overwrite \<and> fs_ACLBackend c \<noteq> [] \<and> \<not> probeExpired now p mp then p
             else p\<lparr>pf_caps := tput mp (c\<lparr>fs_ACLBackend := backend, fs_ACLXattr := xattr, fs_ZFSAclmode := aclmode\<rparr>) (pf_caps p),
                    pf_probedAt := tput mp now (pf_probedAt p)\<rparr>)"

text \<open>The background pass: started at most once at a time, its batch, its end.\<close>

definition kickProbe :: "time \<Rightarrow> platform \<Rightarrow> platform option" where
  \<comment> \<open>Some: a pass was started\<close>
  "kickProbe now p = (if pf_probing p \<or> pendingProbes now p = [] then None else Some (p\<lparr>pf_probing := True\<rparr>))"

definition take_batch :: "time \<Rightarrow> platform \<Rightarrow> probeTarget list \<times> platform" where
  "take_batch now p =
     (let pending = pendingProbes now p
      in if pending = [] then ([], p)
         else (pending, p\<lparr>pf_cursor := mt_MountPoint (pt_mount (last pending))\<rparr>))"

definition probe_done :: "platform \<Rightarrow> platform" where
  "probe_done p = p\<lparr>pf_probing := False\<rparr>"

subsection \<open>Asking the kernel\<close>

datatype xattr_answer = HasValue | NoData | OtherError

definition ACLNone_name :: string where "ACLNone_name = ''none''"
definition ACLPosix_name :: string where "ACLPosix_name = ''posix''"
definition ACLNFS4_name :: string where "ACLNFS4_name = ''nfs4''"
definition XattrPosixACL :: string where "XattrPosixACL = ''system.posix_acl_access''"
definition XattrNFS4ACL :: string where "XattrNFS4ACL = ''system.nfs4_acl''"
definition XattrRichACL :: string where "XattrRichACL = ''system.richacl''"

definition xattrSupported :: "(string \<Rightarrow> string \<Rightarrow> xattr_answer) \<Rightarrow> string \<Rightarrow> string \<Rightarrow> bool" where
  "xattrSupported probe path name = (case probe path name of HasValue \<Rightarrow> True | NoData \<Rightarrow> True | OtherError \<Rightarrow> False)"

definition aclBackend :: "(string \<Rightarrow> string \<Rightarrow> xattr_answer) option \<Rightarrow> string \<Rightarrow> string \<times> string" where
  "aclBackend probe mountRoot =
     (case probe of
        None \<Rightarrow> (ACLNone_name, [])
      | Some q \<Rightarrow>
          if xattrSupported q mountRoot XattrPosixACL then (ACLPosix_name, XattrPosixACL)
          else case find (\<lambda>name. xattrSupported q mountRoot name) [XattrNFS4ACL, XattrRichACL] of
            Some name \<Rightarrow> (ACLNFS4_name, name)
          | None \<Rightarrow> (ACLNone_name, []))"

definition line_break :: "char \<Rightarrow> bool" where
  "line_break c \<longleftrightarrow> c = CHR 0x0D \<or> c = CHR 0x0A"

definition ZFSAclmode :: "(string list \<Rightarrow> string option) option \<Rightarrow> string \<Rightarrow> string" where
  \<comment> \<open>\<open>zfs\<close>: the output of the command with these operands, None when it fails; None for no runner\<close>
  "ZFSAclmode zfs dataset =
     (if trim_space dataset = [] then []
      else case zfs of
        None \<Rightarrow> []
      | Some f \<Rightarrow>
          (case f [''get'', ''-Hp'', ''-o'', ''value'', ''aclmode'', dataset] of
             None \<Rightarrow> []
           | Some out \<Rightarrow>
               let v0 = trim_space out;
                   v = (if list_ex line_break v0 then trim_space (takeWhile (\<lambda>c. \<not> line_break c) v0) else v0)
               in if v = [] \<or> v = ''-'' then [] else v))"

definition probeOne :: "(string \<Rightarrow> string \<Rightarrow> xattr_answer) option \<Rightarrow> (string list \<Rightarrow> string option) option \<Rightarrow> mount
    \<Rightarrow> string \<times> string \<times> string" where
  "probeOne probe zfs m =
     (case aclBackend probe (mt_MountPoint m) of
        (backend, xattr) \<Rightarrow>
          (backend, xattr, if equal_fold (mt_FSType m) ''zfs'' then ZFSAclmode zfs (mt_Source m) else []))"

subsection \<open>The firmware label\<close>

definition hasZFSMount :: "platform \<Rightarrow> bool" where
  "hasZFSMount p \<longleftrightarrow> list_ex (\<lambda>m. equal_fold (mt_FSType m) ''zfs'') (pf_mounts p)"

definition deriveFamily :: "string \<Rightarrow> bool \<Rightarrow> bool \<Rightarrow> bool \<Rightarrow> bool \<Rightarrow> string" where
  "deriveFamily version zfsMount spl zfsBin uLinux =
     (let heroVersion = has_prefix (to_lower (trim_space version)) ''h''
      in if uLinux \<and> (heroVersion \<or> zfsMount) then FamilyHero
         else if uLinux then FamilyQTS
         else if zfsMount \<or> spl \<or> zfsBin then FamilyLinux
         else FamilyLinux)"

definition quoted :: "string \<Rightarrow> bool" where
  "quoted v \<longleftrightarrow> length v \<ge> 2 \<and> ((hd v = CHR 0x22 \<and> last v = CHR 0x22) \<or> (hd v = CHR 0x27 \<and> last v = CHR 0x27))"

fun cfg_loop :: "string list \<Rightarrow> string \<Rightarrow> string \<Rightarrow> bool \<Rightarrow> string option" where
  "cfg_loop [] section key inSection = None"
| "cfg_loop (l # ls) section key inSection =
     (let line = trim_space l
      in if line = [] \<or> has_prefix line ''#'' \<or> has_prefix line '';'' then cfg_loop ls section key inSection
         else if has_prefix line ''['' then
           (let inner = tl line;
                name = trim_space (if has_suffix inner '']'' then butlast inner else inner)
            in cfg_loop ls section key (equal_fold name section))
         else if \<not> inSection then cfg_loop ls section key inSection
         else case cut_at CHR ''='' line of
           None \<Rightarrow> cfg_loop ls section key inSection
         | Some (k, v) \<Rightarrow>
             if \<not> equal_fold (trim_space k) key then cfg_loop ls section key inSection
             else let v' = trim_space v in Some (if quoted v' then butlast (tl v') else v'))"

definition GetCfg :: "string list option \<Rightarrow> string \<Rightarrow> string \<Rightarrow> string option" where
  \<comment> \<open>the lines of the file, None when it cannot be opened\<close>
  "GetCfg file section key = (case file of None \<Rightarrow> None | Some ls \<Rightarrow> cfg_loop ls section key False)"

end
