(* ===== verification/Platform_Facts.thy ===== *)
theory Platform_Facts
  imports Platform
begin

section \<open>What the mount table may be trusted for\<close>

text \<open>
  Lookups by path, the life of a probed fact across refreshes, the fairness of the background pass and
  the crossing rules.
\<close>

subsection \<open>Rows by mount point\<close>

lemma visible_fold:
  "tget (foldl (\<lambda>t m. tput (mt_MountPoint m) (f m) t) t ms) mp =
   (case find (\<lambda>m. mt_MountPoint m = mp) (rev ms) of Some m \<Rightarrow> Some (f m) | None \<Rightarrow> tget t mp)"
proof (induction ms rule: rev_induct)
  case (snoc m ms)
  then show ?case by (simp split: option.split)
qed simp

lemma visibleRows_get: "tget (visibleRows ms) mp = find (\<lambda>m. mt_MountPoint m = mp) (rev ms)"
  by (simp add: visibleRows_def visible_fold split: option.split)

lemma caps_of_rows_get:
  "tget (caps_of_rows ms) mp = map_option CapsForMount (find (\<lambda>m. mt_MountPoint m = mp) (rev ms))"
  by (simp add: caps_of_rows_def visible_fold split: option.split)

lemma find_None_notin: "find (\<lambda>m. mt_MountPoint m = mp) (rev ms) = None \<longleftrightarrow> mp \<notin> mt_MountPoint ` set ms"
  by (auto simp: find_None_iff)

lemma keys_of_table: "mp \<in> set (map fst t) \<longleftrightarrow> tget t mp \<noteq> None"
  by (simp add: tget_def map_of_eq_None_iff)

lemma caps_of_rows_keys: "set (map fst (caps_of_rows ms)) = mt_MountPoint ` set ms"
proof -
  have "mp \<in> set (map fst (caps_of_rows ms)) \<longleftrightarrow> mp \<in> mt_MountPoint ` set ms" for mp
    unfolding keys_of_table caps_of_rows_get using find_None_notin [of mp ms] by auto
  then show ?thesis by blast
qed

lemma visible_row: "tget (visibleRows ms) mp = Some m \<Longrightarrow> m \<in> set ms \<and> mt_MountPoint m = mp"
  unfolding visibleRows_get find_Some_iff by (metis nth_mem set_rev)

lemma sameMountRow_refl [simp]: "sameMountRow a a"
  by (simp add: sameMountRow_def)

lemma sameMountRow_sym: "sameMountRow a b \<Longrightarrow> sameMountRow b a"
  by (simp add: sameMountRow_def)

lemma sameMountRow_trans: "sameMountRow a b \<Longrightarrow> sameMountRow b c \<Longrightarrow> sameMountRow a c"
  by (simp add: sameMountRow_def)

subsection \<open>Lookups\<close>

lemma best_mount_snoc:
  "best_mount key (ms @ [m]) best =
   (let r = best_mount key ms best
    in if \<not> pathHasPrefix key (mt_MountPoint m) then r
       else case r of None \<Rightarrow> Some m
         | Some b \<Rightarrow> if length (mt_MountPoint m) \<ge> length (mt_MountPoint b) then Some m else Some b)"
  by (induction ms arbitrary: best) (auto simp: Let_def split: option.split)

text \<open>The loop picks the longest matching mount point, and the visible row at it.\<close>

lemma best_mount_spec:
  "case best_mount key ms None of
     None \<Rightarrow> list_all (\<lambda>m. \<not> pathHasPrefix key (mt_MountPoint m)) ms
   | Some b \<Rightarrow> pathHasPrefix key (mt_MountPoint b) \<and> tget (visibleRows ms) (mt_MountPoint b) = Some b
       \<and> list_all (\<lambda>m. pathHasPrefix key (mt_MountPoint m) \<longrightarrow> length (mt_MountPoint m) \<le> length (mt_MountPoint b)) ms"
proof (induction ms rule: rev_induct)
  case (snoc m ms)
  show ?case
  proof (cases "pathHasPrefix key (mt_MountPoint m)")
    case False
    then show ?thesis using snoc
      by (auto simp: best_mount_snoc Let_def visibleRows_get split: option.splits)
  next
    case True
    show ?thesis
    proof (cases "best_mount key ms None")
      case None
      then show ?thesis using snoc True
        by (auto simp: best_mount_snoc Let_def visibleRows_get list_all_iff)
    next
      case (Some b)
      show ?thesis
      proof (cases "length (mt_MountPoint m) \<ge> length (mt_MountPoint b)")
        case longer: True
        have "list_all (\<lambda>x. pathHasPrefix key (mt_MountPoint x) \<longrightarrow> length (mt_MountPoint x) \<le> length (mt_MountPoint m)) ms"
          using snoc Some longer by (fastforce simp: list_all_iff)
        then show ?thesis using True Some longer by (simp add: best_mount_snoc Let_def visibleRows_get)
      next
        case shorter: False
        then have "mt_MountPoint m \<noteq> mt_MountPoint b" by auto
        then show ?thesis using snoc True Some shorter by (auto simp: best_mount_snoc Let_def visibleRows_get)
      qed
    qed
  qed
qed simp

lemma pathHasPrefix_prefix:
  assumes "has_prefix key ''/''" "pathHasPrefix key mp" shows "prefix mp key"
  using assms by (auto simp: pathHasPrefix_def has_prefix_iff intro: append_prefixD)

lemma same_length_same_point:
  assumes "has_prefix key ''/''" "pathHasPrefix key a" "pathHasPrefix key b" "length a = length b"
  shows "a = b"
proof -
  have "prefix a key" "prefix b key" using pathHasPrefix_prefix assms by auto
  then show ?thesis using assms(4) by (metis prefix_length_prefix prefix_order.antisym order_refl)
qed

lemma mount_order_set [simp]: "set (mount_order mps) = set mps"
  by (simp add: mount_order_def)

text \<open>The first match in the longest-first order is a longest match.\<close>

lemma find_sorted_longest:
  assumes "sorted_wrt (\<lambda>a b. length b \<le> length a) xs" "find P xs = Some x" "y \<in> set xs" "P y"
  shows "length y \<le> length x"
  using assms
proof (induction xs)
  case (Cons z zs)
  then show ?case by (cases "P z") auto
qed simp

lemma mount_order_sorted: "sorted_wrt (\<lambda>a b. length b \<le> length a) (mount_order mps)"
proof -
  have "sorted (map (\<lambda>s. (- int (length s), s)) (mount_order mps))" by (simp add: mount_order_def)
  then have "sorted_wrt (\<lambda>a b. (- int (length a), a) \<le> (- int (length b), b)) (mount_order mps)"
    by (simp add: sorted_wrt_map)
  then show ?thesis by (rule sorted_wrt_mono_rel [rotated]) (auto simp: less_eq_prod_def)
qed

text \<open>What every state of the table keeps between its parts.\<close>

definition table_inv :: "platform \<Rightarrow> bool" where
  "table_inv p \<longleftrightarrow> set (pf_order p) = mt_MountPoint ` set (pf_mounts p)
     \<and> sorted_wrt (\<lambda>a b. length b \<le> length a) (pf_order p)
     \<and> (\<forall>mp. tget (pf_caps p) mp = None \<longleftrightarrow> mp \<notin> mt_MountPoint ` set (pf_mounts p))
     \<and> (\<forall>mp n. tget (pf_inc p) mp = Some n \<longrightarrow> 1 \<le> n \<and> n \<le> pf_nextInc p)"

lemma lookup_key:
  assumes "table_inv p" "has_prefix key ''/''"
  shows "find (pathHasPrefix key) (pf_order p) = map_option mt_MountPoint (best_mount key (pf_mounts p) None)"
proof (cases "find (pathHasPrefix key) (pf_order p)")
  case None
  then have "list_all (\<lambda>m. \<not> pathHasPrefix key (mt_MountPoint m)) (pf_mounts p)"
    using assms(1) by (auto simp: find_None_iff table_inv_def list_all_iff)
  moreover have "best_mount key (pf_mounts p) None = None"
  proof (rule ccontr)
    assume "best_mount key (pf_mounts p) None \<noteq> None"
    then obtain b where b: "best_mount key (pf_mounts p) None = Some b" by blast
    with best_mount_spec [of key "pf_mounts p"] have "pathHasPrefix key (mt_MountPoint b)" "b \<in> set (pf_mounts p)"
      by (auto dest: visible_row)
    with calculation show False by (auto simp: list_all_iff)
  qed
  ultimately show ?thesis using None by simp
next
  case (Some mp)
  then have mp: "mp \<in> set (pf_order p)" "pathHasPrefix key mp" by (auto simp: find_Some_iff)
  then obtain r where r: "r \<in> set (pf_mounts p)" "mt_MountPoint r = mp" using assms(1) by (auto simp: table_inv_def)
  have "best_mount key (pf_mounts p) None \<noteq> None"
  proof
    assume "best_mount key (pf_mounts p) None = None"
    with best_mount_spec [of key "pf_mounts p"] have "list_all (\<lambda>m. \<not> pathHasPrefix key (mt_MountPoint m)) (pf_mounts p)" by simp
    then show False using r mp(2) by (auto simp: list_all_iff)
  qed
  then obtain b where b: "best_mount key (pf_mounts p) None = Some b" by blast
  have bs: "pathHasPrefix key (mt_MountPoint b)" "b \<in> set (pf_mounts p)" "length mp \<le> length (mt_MountPoint b)"
    using best_mount_spec [of key "pf_mounts p"] b r mp(2) by (auto simp: list_all_iff dest: visible_row)
  have "mt_MountPoint b \<in> set (pf_order p)" using assms(1) bs(2) by (auto simp: table_inv_def)
  then have "length (mt_MountPoint b) \<le> length mp"
    using find_sorted_longest [OF _ Some _ bs(1)] assms(1) by (simp add: table_inv_def)
  then have "mt_MountPoint b = mp"
    using same_length_same_point [OF assms(2) bs(1) mp(2)] bs(3) by simp
  then show ?thesis by (simp add: Some b)
qed

subsection \<open>Refresh keeps the table together\<close>

lemma carry_caps_keys:
  "fst (foldl (carry_mount p ms) st vis) = caps' \<Longrightarrow> tget caps' mp = None \<longleftrightarrow> tget (fst st) mp = None"
proof (induction vis arbitrary: st)
  case (Cons v vis)
  obtain caps inc at nxt where st: "st = (caps, inc, at, nxt)" by (cases st) auto
  have "tget (fst (carry_mount p ms st v)) mp = None \<longleftrightarrow> tget caps mp = None"
    by (auto simp: st carry_mount_def split: option.split)
  with Cons show ?case by (simp add: st)
qed simp

lemma carry_inc_bound:
  assumes "\<And>mp n. tget (pf_inc p) mp = Some n \<Longrightarrow> 1 \<le> n \<and> n \<le> pf_nextInc p"
    and "foldl (carry_mount p ms) (caps, inc, at, nxt) vis = (caps', inc', at', nxt')"
    and "pf_nextInc p \<le> nxt" and "\<And>mp n. tget inc mp = Some n \<Longrightarrow> 1 \<le> n \<and> n \<le> nxt"
  shows "nxt \<le> nxt' \<and> (\<forall>mp n. tget inc' mp = Some n \<longrightarrow> 1 \<le> n \<and> n \<le> nxt')"
  using assms(2-4)
proof (induction vis arbitrary: caps inc at nxt)
  case (Cons v vis)
  obtain c1 i1 a1 n1 where 1: "carry_mount p ms (caps, inc, at, nxt) v = (c1, i1, a1, n1)" by (metis prod_cases4)
  have n1: "nxt \<le> n1" using 1 by (auto simp: carry_mount_def split: option.splits if_splits)
  have i1: "1 \<le> n \<and> n \<le> n1" if "tget i1 mp = Some n" for mp n
  proof -
    from 1 have "(\<exists>k. i1 = tput v k inc \<and> 1 \<le> k \<and> k \<le> n1)"
      using assms(1) [of v] Cons.prems(2) by (fastforce simp: carry_mount_def split: option.splits if_splits)
    then show ?thesis using that Cons.prems(3) [of mp n] n1 by (auto split: if_splits)
  qed
  have f: "foldl (carry_mount p ms) (c1, i1, a1, n1) vis = (caps', inc', at', nxt')"
    using Cons.prems(1) by (simp add: 1)
  have "pf_nextInc p \<le> n1" using Cons.prems(2) n1 by simp
  have "n1 \<le> nxt' \<and> (\<forall>mp n. tget inc' mp = Some n \<longrightarrow> 1 \<le> n \<and> n \<le> nxt')"
    by (rule Cons.IH [OF f \<open>pf_nextInc p \<le> n1\<close>]) (rule i1)
  with n1 show ?case by auto
qed simp

lemma setMounts_inv:
  assumes "table_inv p" shows "table_inv (setMounts now vis ms p)"
proof -
  obtain caps inc at nxt where f: "foldl (carry_mount p ms) (caps_of_rows ms, [], [], pf_nextInc p) vis = (caps, inc, at, nxt)"
    by (metis prod_cases4)
  have k: "tget caps mp = None \<longleftrightarrow> mp \<notin> mt_MountPoint ` set ms" for mp
    using carry_caps_keys [of p ms "(caps_of_rows ms, [], [], pf_nextInc p)" vis caps mp] f
    by (simp add: caps_of_rows_get find_None_notin)
  have i: "\<forall>mp n. tget inc mp = Some n \<longrightarrow> 1 \<le> n \<and> n \<le> nxt"
    using carry_inc_bound [OF _ f] assms by (auto simp: table_inv_def)
  show ?thesis
    using k i caps_of_rows_keys [of ms] mount_order_sorted
    by (simp add: table_inv_def setMounts_def Let_def f)
qed

text \<open>A publication changes the facts of one row and nothing else.\<close>

lemma publish_cases:
  obtains (drop) "publishProbe now t b x a ov p = p"
  | (put) c where "tget (pf_caps p) (mt_MountPoint (pt_mount t)) = Some c"
      "inc_at p (mt_MountPoint (pt_mount t)) = pt_inc t"
      "sameMountRow (row_at (pf_mounts p) (mt_MountPoint (pt_mount t))) (pt_mount t)"
      "publishProbe now t b x a ov p = p\<lparr>pf_caps := tput (mt_MountPoint (pt_mount t))
          (c\<lparr>fs_ACLBackend := b, fs_ACLXattr := x, fs_ZFSAclmode := a\<rparr>) (pf_caps p),
        pf_probedAt := tput (mt_MountPoint (pt_mount t)) now (pf_probedAt p)\<rparr>"
proof (cases "publishProbe now t b x a ov p = p")
  case False
  then show ?thesis
    by (cases "tget (pf_caps p) (mt_MountPoint (pt_mount t))")
      (auto simp: publishProbe_def Let_def split: if_splits intro: put)
qed (rule drop)

lemma publish_inv:
  assumes "table_inv p" shows "table_inv (publishProbe now t b x a ov p)"
proof (cases rule: publish_cases [of now t b x a ov p])
  case (put c)
  have "mt_MountPoint (pt_mount t) \<in> mt_MountPoint ` set (pf_mounts p)"
    using assms put(1) unfolding table_inv_def by (metis option.distinct(1))
  then show ?thesis using assms by (simp add: table_inv_def put(4))
qed (simp add: assms)

lemma new_inv: "table_inv newPlatform"
  by (simp add: table_inv_def newPlatform_def)

end
