(* ===== verification/Platform_Life.thy ===== *)
theory Platform_Life
  imports Platform_Facts
begin

section \<open>The mount table over time\<close>

text \<open>
  The table together with the probes that are still running: refreshes, background passes and late answers
  interleave in any order, at any clock reading. A ghost log keeps every answer with the reading at which it
  arrived.
\<close>

subsection \<open>What a refresh carries over\<close>

definition kept_row :: "platform \<Rightarrow> mount list \<Rightarrow> string \<Rightarrow> bool" where
  "kept_row p ms mp \<longleftrightarrow> tget (pf_inc p) mp \<noteq> None \<and> sameMountRow (row_at (pf_mounts p) mp) (row_at ms mp)"

lemma carry_other:
  assumes "mp \<noteq> v" "carry_mount p ms (caps, inc, at, nxt) v = (caps', inc', at', nxt')"
  shows "tget caps' mp = tget caps mp \<and> tget inc' mp = tget inc mp \<and> tget at' mp = tget at mp"
  using assms by (auto simp: carry_mount_def split: option.splits if_splits)

lemma carry_nxt:
  assumes "carry_mount p ms (caps, inc, at, nxt) v = (caps', inc', at', nxt')"
  shows "nxt \<le> nxt'"
  using assms by (auto simp: carry_mount_def split: option.splits if_splits)

lemma carry_new:
  assumes "\<not> kept_row p ms v" "carry_mount p ms (caps, inc, at, nxt) v = (caps', inc', at', nxt')"
  shows "tget inc' v = Some (Suc nxt) \<and> tget caps' v = tget caps v \<and> tget at' v = tget at v"
  using assms by (auto simp: carry_mount_def kept_row_def split: option.splits if_splits)

lemma carry_kept:
  assumes "kept_row p ms v" "carry_mount p ms (caps, inc, at, nxt) v = (caps', inc', at', nxt')"
    and "tget caps v = Some c" "tget at v = None"
  shows "tget inc' v = tget (pf_inc p) v \<and>
    (case tget (pf_caps p) v of
       None \<Rightarrow> tget caps' v = Some c \<and> tget at' v = None
     | Some old \<Rightarrow> tget caps' v = Some (probed_from old c) \<and> tget at' v = tget (pf_probedAt p) v)"
  using assms by (auto simp: carry_mount_def kept_row_def split: option.splits if_splits)

text \<open>The whole loop, at a mount point it has not visited and at one it has.\<close>

lemma carry_all_other:
  assumes "mp \<notin> set vis" "foldl (carry_mount p ms) (caps, inc, at, nxt) vis = (caps', inc', at', nxt')"
  shows "tget caps' mp = tget caps mp \<and> tget inc' mp = tget inc mp \<and> tget at' mp = tget at mp"
  using assms
proof (induction vis arbitrary: caps inc at nxt)
  case (Cons v vis)
  obtain c1 i1 a1 n1 where 1: "carry_mount p ms (caps, inc, at, nxt) v = (c1, i1, a1, n1)" by (metis prod_cases4)
  with Cons.prems Cons.IH [of c1 i1 a1 n1] carry_other [OF _ 1, of mp] show ?case by simp
qed simp

lemma carry_all_nxt:
  assumes "foldl (carry_mount p ms) (caps, inc, at, nxt) vis = (caps', inc', at', nxt')"
  shows "nxt \<le> nxt'"
  using assms
proof (induction vis arbitrary: caps inc at nxt)
  case (Cons v vis)
  obtain c1 i1 a1 n1 where 1: "carry_mount p ms (caps, inc, at, nxt) v = (c1, i1, a1, n1)" by (metis prod_cases4)
  with Cons.prems Cons.IH [of c1 i1 a1 n1] carry_nxt [OF 1] show ?case by simp
qed simp

lemma carry_all_at:
  assumes "mp \<in> set vis" "distinct vis" "foldl (carry_mount p ms) (caps, inc, at, nxt) vis = (caps', inc', at', nxt')"
  obtains c0 i0 a0 n0 c1 i1 a1 n1 where "carry_mount p ms (c0, i0, a0, n0) mp = (c1, i1, a1, n1)" "nxt \<le> n0"
    "tget c0 mp = tget caps mp" "tget a0 mp = tget at mp"
    "tget caps' mp = tget c1 mp" "tget inc' mp = tget i1 mp" "tget at' mp = tget a1 mp"
proof -
  obtain us ws where v: "vis = us @ mp # ws" using assms(1) by (meson split_list)
  obtain c0 i0 a0 n0 where 0: "foldl (carry_mount p ms) (caps, inc, at, nxt) us = (c0, i0, a0, n0)" by (metis prod_cases4)
  obtain c1 i1 a1 n1 where 1: "carry_mount p ms (c0, i0, a0, n0) mp = (c1, i1, a1, n1)" by (metis prod_cases4)
  have 2: "foldl (carry_mount p ms) (c1, i1, a1, n1) ws = (caps', inc', at', nxt')" using assms(3) by (simp add: v 0 1)
  have "mp \<notin> set us" "mp \<notin> set ws" using assms(2) by (auto simp: v)
  then show thesis
    using that [OF 1] carry_all_other [OF _ 0] carry_all_other [OF _ 2] carry_all_nxt [OF 0] by simp
qed

text \<open>A range over the new table visits each of its mount points once.\<close>

definition range_order :: "mount list \<Rightarrow> string list \<Rightarrow> bool" where
  "range_order ms vis \<longleftrightarrow> distinct vis \<and> set vis = mt_MountPoint ` set ms"

definition dated_facts :: "platform \<Rightarrow> string \<Rightarrow> (fscaps \<times> time option) option" where
  "dated_facts p mp = map_option (\<lambda>c. (c, tget (pf_probedAt p) mp)) (tget (pf_caps p) mp)"

lemma setMounts_mounts [simp]: "pf_mounts (setMounts now vis ms p) = ms"
  by (simp add: setMounts_def Let_def split: prod.split)

lemma row_caps: "mp \<in> mt_MountPoint ` set ms \<Longrightarrow> tget (caps_of_rows ms) mp = Some (CapsForMount (row_at ms mp))"
  using find_None_notin [of mp ms] by (auto simp: caps_of_rows_get row_at_def visibleRows_get split: option.split)

lemma setMounts_new:
  assumes "range_order ms vis" "mp \<in> mt_MountPoint ` set ms" "\<not> kept_row p ms mp"
  shows "\<exists>k > pf_nextInc p. tget (pf_inc (setMounts now vis ms p)) mp = Some k"
    and "dated_facts (setMounts now vis ms p) mp = Some (CapsForMount (row_at ms mp), None)"
proof -
  obtain caps inc at nxt where f: "foldl (carry_mount p ms) (caps_of_rows ms, [], [], pf_nextInc p) vis = (caps, inc, at, nxt)"
    by (metis prod_cases4)
  have v: "mp \<in> set vis" "distinct vis" using assms by (auto simp: range_order_def)
  obtain c0 i0 a0 n0 c1 i1 a1 n1 where s: "carry_mount p ms (c0, i0, a0, n0) mp = (c1, i1, a1, n1)" "pf_nextInc p \<le> n0"
    "tget c0 mp = tget (caps_of_rows ms) mp" "tget a0 mp = tget [] mp"
    "tget caps mp = tget c1 mp" "tget inc mp = tget i1 mp" "tget at mp = tget a1 mp"
    by (rule carry_all_at [OF v f])
  show "\<exists>k > pf_nextInc p. tget (pf_inc (setMounts now vis ms p)) mp = Some k"
    using carry_new [OF assms(3) s(1)] s by (simp add: setMounts_def Let_def f)
  show "dated_facts (setMounts now vis ms p) mp = Some (CapsForMount (row_at ms mp), None)"
    using carry_new [OF assms(3) s(1)] s row_caps [OF assms(2)] by (simp add: setMounts_def Let_def f dated_facts_def)
qed

lemma setMounts_kept:
  assumes "range_order ms vis" "mp \<in> mt_MountPoint ` set ms" "kept_row p ms mp"
  shows "tget (pf_inc (setMounts now vis ms p)) mp = tget (pf_inc p) mp"
    and "dated_facts (setMounts now vis ms p) mp = Some (case tget (pf_caps p) mp of
            None \<Rightarrow> (CapsForMount (row_at ms mp), None)
          | Some old \<Rightarrow> (probed_from old (CapsForMount (row_at ms mp)), tget (pf_probedAt p) mp))"
proof -
  obtain caps inc at nxt where f: "foldl (carry_mount p ms) (caps_of_rows ms, [], [], pf_nextInc p) vis = (caps, inc, at, nxt)"
    by (metis prod_cases4)
  have v: "mp \<in> set vis" "distinct vis" using assms by (auto simp: range_order_def)
  obtain c0 i0 a0 n0 c1 i1 a1 n1 where s: "carry_mount p ms (c0, i0, a0, n0) mp = (c1, i1, a1, n1)" "pf_nextInc p \<le> n0"
    "tget c0 mp = tget (caps_of_rows ms) mp" "tget a0 mp = tget [] mp"
    "tget caps mp = tget c1 mp" "tget inc mp = tget i1 mp" "tget at mp = tget a1 mp"
    by (rule carry_all_at [OF v f])
  have "tget c0 mp = Some (CapsForMount (row_at ms mp))" "tget a0 mp = None" using s row_caps [OF assms(2)] by auto
  note k = carry_kept [OF assms(3) s(1) this]
  show "tget (pf_inc (setMounts now vis ms p)) mp = tget (pf_inc p) mp"
    using k s by (simp add: setMounts_def Let_def f)
  show "dated_facts (setMounts now vis ms p) mp = Some (case tget (pf_caps p) mp of
            None \<Rightarrow> (CapsForMount (row_at ms mp), None)
          | Some old \<Rightarrow> (probed_from old (CapsForMount (row_at ms mp)), tget (pf_probedAt p) mp))"
    using k s by (cases "tget (pf_caps p) mp") (simp_all add: setMounts_def Let_def f dated_facts_def)
qed

lemma setMounts_gone:
  assumes "range_order ms vis" "mp \<notin> mt_MountPoint ` set ms"
  shows "tget (pf_inc (setMounts now vis ms p)) mp = None" and "dated_facts (setMounts now vis ms p) mp = None"
proof -
  obtain caps inc at nxt where f: "foldl (carry_mount p ms) (caps_of_rows ms, [], [], pf_nextInc p) vis = (caps, inc, at, nxt)"
    by (metis prod_cases4)
  have "mp \<notin> set vis" using assms by (auto simp: range_order_def)
  note o = carry_all_other [OF this f]
  then show "tget (pf_inc (setMounts now vis ms p)) mp = None" by (simp add: setMounts_def Let_def f)
  have "tget (caps_of_rows ms) mp = None" using assms(2) find_None_notin [of mp ms] by (simp add: caps_of_rows_get)
  with o show "dated_facts (setMounts now vis ms p) mp = None" by (simp add: setMounts_def Let_def f dated_facts_def)
qed

lemma setMounts_nextInc: "pf_nextInc p \<le> pf_nextInc (setMounts now vis ms p)"
proof -
  obtain caps inc at nxt where f: "foldl (carry_mount p ms) (caps_of_rows ms, [], [], pf_nextInc p) vis = (caps, inc, at, nxt)"
    by (metis prod_cases4)
  then show ?thesis using carry_all_nxt [OF f] by (simp add: setMounts_def Let_def)
qed

subsection \<open>The table and its running probes\<close>

record answer =
  an_target :: probeTarget
  an_at :: time
  an_backend :: string
  an_xattr :: string
  an_aclmode :: string

record table_world =
  tw_pf :: platform
  tw_out :: "probeTarget list"
  tw_log :: "answer list"

definition world_start :: "bool \<Rightarrow> table_world" where
  "world_start live = \<lparr>tw_pf = newPlatform\<lparr>pf_live := live\<rparr>, tw_out = [], tw_log = []\<rparr>"

definition world_answer :: "answer \<Rightarrow> bool \<Rightarrow> table_world \<Rightarrow> table_world" where
  "world_answer a overwrite w =
     w\<lparr>tw_pf := publishProbe (an_at a) (an_target a) (an_backend a) (an_xattr a) (an_aclmode a) overwrite (tw_pf w),
       tw_log := a # tw_log w\<rparr>"

text \<open>
  A table read from the kernel or given (\<open>FromMountinfo\<close>), a pass that is kicked, takes its batch and ends,
  the start-up pass, and an answer to a probe that is out. An answer may arrive at any later moment, or twice.
\<close>

inductive table_step :: "table_world \<Rightarrow> table_world \<Rightarrow> bool" where
  Loads: "range_order ms vis \<Longrightarrow> table_step w (w\<lparr>tw_pf := setMounts now vis ms (tw_pf w)\<rparr>)"
| Refreshes: "range_order ms vis \<Longrightarrow> table_step w (w\<lparr>tw_pf := refresh now vis (Some ms) (tw_pf w)\<rparr>)"
| Unreadable: "table_step w (w\<lparr>tw_pf := refresh now vis None (tw_pf w)\<rparr>)"
| Kicks: "kickProbe now (tw_pf w) = Some p \<Longrightarrow> table_step w (w\<lparr>tw_pf := p\<rparr>)"
| Takes: "take_batch now (tw_pf w) = (ts, p) \<Longrightarrow> table_step w (w\<lparr>tw_pf := p, tw_out := ts @ tw_out w\<rparr>)"
| Probes: "table_step w (w\<lparr>tw_out := startup_targets (tw_pf w) @ tw_out w\<rparr>)"
| Answers: "an_target a \<in> set (tw_out w) \<Longrightarrow> table_step w (world_answer a overwrite w)"
| Ends: "table_step w (w\<lparr>tw_pf := probe_done (tw_pf w)\<rparr>)"

subsection \<open>What is invariant\<close>

definition known_rows :: "platform \<Rightarrow> bool" where
  "known_rows p \<longleftrightarrow> (\<forall>mp. tget (pf_inc p) mp = None \<longleftrightarrow> tget (pf_caps p) mp = None)"

text \<open>Every stated fact came with an answer about the row that is still visible, dated by its arrival.\<close>

definition supported :: "answer list \<Rightarrow> platform \<Rightarrow> string \<Rightarrow> fscaps \<Rightarrow> bool" where
  "supported log p mp c \<longleftrightarrow> (\<exists>a \<in> set log.
      mt_MountPoint (pt_mount (an_target a)) = mp \<and> tget (pf_probedAt p) mp = Some (an_at a)
    \<and> tget (pf_inc p) mp = Some (pt_inc (an_target a))
    \<and> sameMountRow (row_at (pf_mounts p) mp) (pt_mount (an_target a))
    \<and> fs_ACLBackend c = an_backend a \<and> fs_ACLXattr c = an_xattr a \<and> fs_ZFSAclmode c = an_aclmode a)"

definition no_facts :: "fscaps \<Rightarrow> bool" where
  "no_facts c \<longleftrightarrow> fs_ACLBackend c = [] \<and> fs_ACLXattr c = [] \<and> fs_ZFSAclmode c = []"

definition facts_supported :: "answer list \<Rightarrow> platform \<Rightarrow> bool" where
  "facts_supported log p \<longleftrightarrow> (\<forall>mp c. tget (pf_caps p) mp = Some c \<longrightarrow> no_facts c \<or> supported log p mp c)"

definition world_inv :: "table_world \<Rightarrow> bool" where
  "world_inv w \<longleftrightarrow> table_inv (tw_pf w) \<and> known_rows (tw_pf w) \<and> facts_supported (tw_log w) (tw_pf w)
     \<and> (\<forall>t \<in> set (tw_out w). 1 \<le> pt_inc t \<and> pt_inc t \<le> pf_nextInc (tw_pf w))"

lemma no_facts_caps [simp]: "no_facts (CapsForMount m)"
  by (simp add: no_facts_def CapsForMount_def Let_def no_caps_def)

lemma dated_facts_caps: "dated_facts p mp = Some (c, at) \<longleftrightarrow> tget (pf_caps p) mp = Some c \<and> tget (pf_probedAt p) mp = at"
  by (auto simp: dated_facts_def)

lemma setMounts_known:
  assumes "range_order ms vis" "known_rows p" shows "known_rows (setMounts now vis ms p)"
  unfolding known_rows_def
proof
  fix mp
  consider (gone) "mp \<notin> mt_MountPoint ` set ms" | (new) "mp \<in> mt_MountPoint ` set ms" "\<not> kept_row p ms mp"
    | (kept) "mp \<in> mt_MountPoint ` set ms" "kept_row p ms mp" by blast
  then show "tget (pf_inc (setMounts now vis ms p)) mp = None \<longleftrightarrow> tget (pf_caps (setMounts now vis ms p)) mp = None"
  proof cases
    case gone
    show ?thesis using setMounts_gone [OF assms(1) gone, of now p] by (auto simp: dated_facts_def)
  next
    case new
    show ?thesis using setMounts_new [OF assms(1) new, of now] by (auto simp: dated_facts_def)
  next
    case kept
    show ?thesis using setMounts_kept [OF assms(1) kept, of now] kept(2) by (auto simp: dated_facts_def kept_row_def)
  qed
qed

lemma setMounts_supported:
  assumes "range_order ms vis" "facts_supported log p" shows "facts_supported log (setMounts now vis ms p)"
  unfolding facts_supported_def
proof (intro allI impI)
  fix mp c
  assume c: "tget (pf_caps (setMounts now vis ms p)) mp = Some c"
  have there: "mp \<in> mt_MountPoint ` set ms" using setMounts_gone(2) [OF assms(1)] c by (fastforce simp: dated_facts_def)
  show "no_facts c \<or> supported log (setMounts now vis ms p) mp c"
  proof (cases "kept_row p ms mp")
    case False
    then show ?thesis using setMounts_new(2) [OF assms(1) there False, of now] c by (auto simp: dated_facts_def)
  next
    case True
    note k = setMounts_kept [OF assms(1) there True, of now]
    show ?thesis
    proof (cases "tget (pf_caps p) mp")
      case None
      then show ?thesis using k(2) c by (auto simp: dated_facts_def)
    next
      case (Some old)
      then have cs: "c = probed_from old (CapsForMount (row_at ms mp))"
        and at: "tget (pf_probedAt (setMounts now vis ms p)) mp = tget (pf_probedAt p) mp"
        using k(2) c by (auto simp: dated_facts_def)
      have same: "sameMountRow (row_at ms mp) (row_at (pf_mounts p) mp)"
        using True by (auto simp: kept_row_def intro: sameMountRow_sym)
      consider "no_facts old" | "supported log p mp old" using assms(2) Some by (auto simp: facts_supported_def)
      then show ?thesis
      proof cases
        case 1
        then show ?thesis by (simp add: cs no_facts_def probed_from_def)
      next
        case 2
        then obtain a where a: "a \<in> set log" "mt_MountPoint (pt_mount (an_target a)) = mp"
          "tget (pf_probedAt p) mp = Some (an_at a)" "tget (pf_inc p) mp = Some (pt_inc (an_target a))"
          "sameMountRow (row_at (pf_mounts p) mp) (pt_mount (an_target a))"
          "fs_ACLBackend old = an_backend a" "fs_ACLXattr old = an_xattr a" "fs_ZFSAclmode old = an_aclmode a"
          unfolding supported_def by blast
        have "sameMountRow (row_at ms mp) (pt_mount (an_target a))" using same a(5) by (rule sameMountRow_trans)
        then have "supported log (setMounts now vis ms p) mp c"
          unfolding supported_def using a at k(1) by (intro bexI [of _ a]) (simp_all add: cs probed_from_def)
        then show ?thesis ..
      qed
    qed
  qed
qed

text \<open>The targets a pass takes carry incarnations the table has handed out.\<close>

lemma resumeAfter_subset: "set (resumeAfter tier cursor n) \<subseteq> set tier"
proof -
  have "tier \<noteq> [] \<Longrightarrow> tier ! (k mod length tier) \<in> set tier" for k by simp
  then show ?thesis by (auto simp: resumeAfter_def Let_def)
qed

lemmas resumeAfter_mem = subsetD [OF resumeAfter_subset]

lemma inc_at_bounds:
  assumes "table_inv p" "known_rows p" "mp \<in> mt_MountPoint ` set (pf_mounts p)"
  shows "1 \<le> inc_at p mp" "inc_at p mp \<le> pf_nextInc p"
proof -
  have "tget (pf_caps p) mp \<noteq> None" using assms(1,3) by (simp add: table_inv_def)
  then have "tget (pf_inc p) mp \<noteq> None" using assms(2) by (simp add: known_rows_def)
  then obtain n where "tget (pf_inc p) mp = Some n" by blast
  then show "1 \<le> inc_at p mp" "inc_at p mp \<le> pf_nextInc p" using assms(1) by (auto simp: inc_at_def table_inv_def)
qed

lemma pending_loop_inc:
  assumes "t \<in> set (fst (pending_loop now p rows seen)) \<union> set (snd (pending_loop now p rows seen))"
  shows "\<exists>row \<in> set rows. pt_inc t = inc_at p (mt_MountPoint row)"
  using assms by (induction now p rows seen rule: pending_loop.induct) (auto simp: Let_def split: if_splits)

lemma pendingProbes_inc:
  assumes "t \<in> set (pendingProbes now p)"
  shows "\<exists>row \<in> set (pf_mounts p). pt_inc t = inc_at p (mt_MountPoint row)"
proof (rule pending_loop_inc [where now = now and seen = "[]"])
  obtain fresh aged where f: "pending_loop now p (pf_mounts p) [] = (fresh, aged)" by fastforce
  have "t \<in> set fresh \<or> t \<in> set aged"
    using assms by (auto simp: pendingProbes_def f Let_def split: if_splits dest!: resumeAfter_mem)
  then show "t \<in> set (fst (pending_loop now p (pf_mounts p) [])) \<union> set (snd (pending_loop now p (pf_mounts p) []))"
    by (simp add: f)
qed

lemma visible_point: "mt_MountPoint m = mp \<Longrightarrow> m \<in> set ms \<Longrightarrow> mt_MountPoint (row_at ms mp) = mp"
  using find_None_notin [of mp ms] visible_row [of ms mp]
  by (auto simp: row_at_def visibleRows_get split: option.splits)

lemma startup_loop_inc:
  assumes "t \<in> set (startup_loop p rows seen)" "set rows \<subseteq> set (pf_mounts p)"
  shows "\<exists>row \<in> set rows. pt_inc t = inc_at p (mt_MountPoint row)"
  using assms
  by (induction p rows seen rule: startup_loop.induct) (auto simp: Let_def visible_point split: if_splits)

lemma taken_inc:
  assumes "table_inv p" "known_rows p" "t \<in> set (pendingProbes now p) \<union> set (startup_targets p)"
  shows "1 \<le> pt_inc t \<and> pt_inc t \<le> pf_nextInc p"
proof -
  have "\<exists>row \<in> set (pf_mounts p). pt_inc t = inc_at p (mt_MountPoint row)"
    using assms(3) pendingProbes_inc startup_loop_inc [of t p "pf_mounts p"] by (auto simp: startup_targets_def)
  then show ?thesis using inc_at_bounds [OF assms(1,2)] by auto
qed

text \<open>An answer changes the facts of its own row only, and supports them.\<close>

lemma publish_known: "known_rows p \<Longrightarrow> known_rows (publishProbe now t b x a ov p)"
  by (cases rule: publish_cases [of now t b x a ov p]) (auto simp: known_rows_def)

lemma publish_frame [simp]:
  "pf_mounts (publishProbe now t b x a ov p) = pf_mounts p" "pf_inc (publishProbe now t b x a ov p) = pf_inc p"
  "pf_nextInc (publishProbe now t b x a ov p) = pf_nextInc p"
  by (cases rule: publish_cases [of now t b x a ov p]; simp)+

lemma supported_mono: "supported log p mp c \<Longrightarrow> supported (a # log) p mp c"
  by (auto simp: supported_def)

lemma answer_supported:
  assumes "facts_supported log p" "table_inv p" "known_rows p"
  shows "facts_supported (a # log) (publishProbe (an_at a) (an_target a) (an_backend a) (an_xattr a) (an_aclmode a) ov p)"
proof (cases rule: publish_cases [of "an_at a" "an_target a" "an_backend a" "an_xattr a" "an_aclmode a" ov p])
  case drop
  then show ?thesis using assms(1) by (simp add: facts_supported_def) (metis supported_mono)
next
  case (put c)
  show ?thesis
    unfolding facts_supported_def
  proof (intro allI impI)
    fix mp c'
    let ?p = "publishProbe (an_at a) (an_target a) (an_backend a) (an_xattr a) (an_aclmode a) ov p"
    assume c': "tget (pf_caps ?p) mp = Some c'"
    show "no_facts c' \<or> supported (a # log) ?p mp c'"
    proof (cases "mp = mt_MountPoint (pt_mount (an_target a))")
      case True
      have "tget (pf_inc p) mp \<noteq> None" using put(1) assms(3) by (simp add: known_rows_def True)
      then have "tget (pf_inc p) mp = Some (pt_inc (an_target a))" using put(2) by (auto simp: inc_at_def True)
      then have "supported (a # log) ?p mp c'"
        using c' put(3) by (auto simp: supported_def put(4) True)
      then show ?thesis ..
    next
      case False
      then have "no_facts c' \<or> supported log p mp c'" using c' assms(1) by (simp add: put(4) facts_supported_def)
      then show ?thesis using False by (auto simp: supported_def put(4))
    qed
  qed
qed

lemma batch_targets: "take_batch now p = (ts, p') \<Longrightarrow> set ts \<subseteq> set (pendingProbes now p)"
  by (auto simp: take_batch_def Let_def split: if_splits)

lemma batch_frame: "take_batch now p = (ts, p') \<Longrightarrow> \<exists>cursor. p' = p\<lparr>pf_cursor := cursor\<rparr>"
  by (auto simp: take_batch_def Let_def split: if_splits intro: exI [of _ "pf_cursor p"])

lemma kick_frame: "kickProbe now p = Some p' \<Longrightarrow> p' = p\<lparr>pf_probing := True\<rparr>"
  by (auto simp: kickProbe_def split: if_splits)

lemma refresh_cases:
  "refresh now vis r p = p \<or> (\<exists>ms. r = Some ms \<and> refresh now vis r p = setMounts now vis ms p)"
  by (auto simp: refresh_def split: option.split)

text \<open>Neither the cursor nor the latch matters to the invariant.\<close>

lemma world_frame:
  assumes "world_inv w" "pf_mounts p = pf_mounts (tw_pf w)" "pf_caps p = pf_caps (tw_pf w)" "pf_order p = pf_order (tw_pf w)"
    "pf_inc p = pf_inc (tw_pf w)" "pf_nextInc p = pf_nextInc (tw_pf w)" "pf_probedAt p = pf_probedAt (tw_pf w)"
    "set ts \<subseteq> set (pendingProbes now (tw_pf w)) \<union> set (startup_targets (tw_pf w))"
  shows "world_inv (w\<lparr>tw_pf := p, tw_out := ts @ tw_out w\<rparr>)"
proof -
  have i: "table_inv (tw_pf w)" "known_rows (tw_pf w)" using assms(1) by (simp_all add: world_inv_def)
  have "1 \<le> pt_inc t \<and> pt_inc t \<le> pf_nextInc (tw_pf w)" if "t \<in> set ts" for t
    by (rule taken_inc [OF i]) (use assms(8) that in blast)
  then show ?thesis
    using assms(1) unfolding world_inv_def
    by (auto simp: table_inv_def known_rows_def facts_supported_def supported_def assms(2-7))
qed

lemma world_setMounts:
  assumes "world_inv w" "range_order ms vis"
  shows "world_inv (w\<lparr>tw_pf := setMounts now vis ms (tw_pf w)\<rparr>)"
  using assms setMounts_inv setMounts_known setMounts_supported setMounts_nextInc [of "tw_pf w" now vis ms]
  by (fastforce simp: world_inv_def)

lemma step_inv:
  assumes "table_step w w'" "world_inv w" shows "world_inv w'"
  using assms(1)
proof cases
  case (Loads ms vis now)
  then show ?thesis using world_setMounts [OF assms(2)] by simp
next
  case (Refreshes ms vis now)
  then show ?thesis
    using world_setMounts [OF assms(2)] assms(2) refresh_cases [of now vis "Some ms" "tw_pf w"] by auto
next
  case (Unreadable now vis)
  then show ?thesis using assms(2) refresh_cases [of now vis None "tw_pf w"] by auto
next
  case (Kicks now p)
  then show ?thesis using world_frame [OF assms(2), of p "[]" now] kick_frame [OF Kicks(2)] by simp
next
  case (Takes now ts p)
  obtain cursor where p: "p = (tw_pf w)\<lparr>pf_cursor := cursor\<rparr>" using batch_frame [OF Takes(2)] by blast
  have "set ts \<subseteq> set (pendingProbes now (tw_pf w)) \<union> set (startup_targets (tw_pf w))"
    using batch_targets [OF Takes(2)] by blast
  then have "world_inv (w\<lparr>tw_pf := p, tw_out := ts @ tw_out w\<rparr>)" by (intro world_frame [OF assms(2)]) (simp_all add: p)
  then show ?thesis by (simp add: Takes(1))
next
  case Probes
  then show ?thesis using world_frame [OF assms(2), of "tw_pf w" "startup_targets (tw_pf w)"] by simp
next
  case (Answers a overwrite)
  then show ?thesis
    using assms(2) publish_inv publish_known answer_supported by (auto simp: world_inv_def world_answer_def)
next
  case Ends
  then show ?thesis using world_frame [OF assms(2), of "probe_done (tw_pf w)" "[]"] by (simp add: probe_done_def)
qed

lemma start_inv: "world_inv (world_start live)"
  by (simp add: world_inv_def world_start_def newPlatform_def table_inv_def known_rows_def facts_supported_def)

lemma reach_inv: "table_step\<^sup>*\<^sup>* w w' \<Longrightarrow> world_inv w \<Longrightarrow> world_inv w'"
  by (induction rule: rtranclp_induct) (auto intro: step_inv)

lemmas reachable_inv = reach_inv [OF _ start_inv]

subsection \<open>Retired incarnations\<close>

definition retired :: "string \<Rightarrow> nat \<Rightarrow> platform \<Rightarrow> bool" where
  "retired mp n p \<longleftrightarrow> n \<le> pf_nextInc p \<and> tget (pf_inc p) mp \<noteq> Some n"

lemma setMounts_inc:
  assumes "range_order ms vis"
  shows "tget (pf_inc (setMounts now vis ms p)) mp = None
    \<or> (\<exists>k > pf_nextInc p. tget (pf_inc (setMounts now vis ms p)) mp = Some k)
    \<or> kept_row p ms mp \<and> tget (pf_inc (setMounts now vis ms p)) mp = tget (pf_inc p) mp"
  using setMounts_gone [OF assms] setMounts_new [OF assms] setMounts_kept [OF assms] by blast

lemma setMounts_retired: "range_order ms vis \<Longrightarrow> retired mp n p \<Longrightarrow> retired mp n (setMounts now vis ms p)"
  using setMounts_inc [of ms vis now p mp] setMounts_nextInc [of p now vis ms] by (auto simp: retired_def)

lemma refresh_retired: "range_order ms vis \<Longrightarrow> retired mp n p \<Longrightarrow> retired mp n (refresh now vis (Some ms) p)"
  using refresh_cases [of now vis "Some ms" p] setMounts_retired by auto

lemma retired_frame: "pf_inc p' = pf_inc p \<Longrightarrow> pf_nextInc p' = pf_nextInc p \<Longrightarrow> retired mp n p' = retired mp n p"
  by (simp add: retired_def)

lemma step_retired:
  assumes "table_step w w'" "retired mp n (tw_pf w)" shows "retired mp n (tw_pf w')"
  using assms(1)
proof cases
  case (Loads ms vis now)
  then show ?thesis using setMounts_retired assms(2) by simp
next
  case (Refreshes ms vis now)
  then show ?thesis using refresh_retired assms(2) by simp
next
  case (Unreadable now vis)
  then show ?thesis using assms(2) refresh_cases [of now vis None "tw_pf w"] by simp
next
  case (Takes now ts p)
  then show ?thesis using batch_frame [OF Takes(2)] assms(2) by (auto simp: retired_def)
qed (use assms(2) in \<open>auto simp: retired_def world_answer_def probe_done_def dest!: kick_frame\<close>)

lemma reach_retired: "table_step\<^sup>*\<^sup>* w w' \<Longrightarrow> retired mp n (tw_pf w) \<Longrightarrow> retired mp n (tw_pf w')"
  by (induction rule: rtranclp_induct) (auto intro: step_retired)

text \<open>A step that changes the visible row retires the incarnation every running probe of it holds.\<close>

lemma changed_row_retires:
  assumes "table_step w w'" "n \<le> pf_nextInc (tw_pf w)"
    and "\<not> sameMountRow (row_at (pf_mounts (tw_pf w)) mp) (row_at (pf_mounts (tw_pf w')) mp)"
  shows "retired mp n (tw_pf w')"
proof -
  have s: "retired mp n (setMounts now vis ms (tw_pf w))"
    if "range_order ms vis" "\<not> sameMountRow (row_at (pf_mounts (tw_pf w)) mp) (row_at ms mp)" for now vis ms
    using setMounts_inc [OF that(1), of now "tw_pf w" mp] setMounts_nextInc [of "tw_pf w" now vis ms] that(2) assms(2)
    by (auto simp: retired_def kept_row_def)
  from assms(1) show ?thesis
  proof cases
    case (Loads ms vis now)
    then show ?thesis using s assms(3) by simp
  next
    case (Refreshes ms vis now)
    then show ?thesis using s [OF Refreshes(2)] assms(3) refresh_cases [of now vis "Some ms" "tw_pf w"] by auto
  next
    case (Unreadable now vis)
    then show ?thesis using assms(3) refresh_cases [of now vis None "tw_pf w"] by simp
  next
    case (Takes now ts p)
    then show ?thesis using batch_frame [OF Takes(2)] assms(3) by auto
  qed (use assms(3) in \<open>auto simp: world_answer_def probe_done_def dest!: kick_frame\<close>)
qed

lemma retired_drops:
  assumes "retired (mt_MountPoint (pt_mount t)) (pt_inc t) p" "1 \<le> pt_inc t"
  shows "publishProbe now t b x a ov p = p"
  using assms by (cases "tget (pf_inc p) (mt_MountPoint (pt_mount t))")
    (auto simp: publishProbe_def Let_def inc_at_def retired_def)

subsection \<open>The pass that resumes where the last one stopped\<close>

definition due_fresh :: "time \<Rightarrow> platform \<Rightarrow> probeTarget list" where
  "due_fresh now p = sort_key (\<lambda>t. mt_MountPoint (pt_mount t)) (fst (pending_loop now p (pf_mounts p) []))"

definition due_aged :: "time \<Rightarrow> platform \<Rightarrow> probeTarget list" where
  "due_aged now p =
     sort_key (\<lambda>t. (probed_time p t, mt_MountPoint (pt_mount t))) (snd (pending_loop now p (pf_mounts p) []))"

text \<open>What \<open>k\<close> passes take while no answer is published.\<close>

primrec taken_in :: "nat \<Rightarrow> time \<Rightarrow> platform \<Rightarrow> probeTarget list" where
  "taken_in 0 now p = []"
| "taken_in (Suc k) now p = (case take_batch now p of (ts, p') \<Rightarrow> ts @ taken_in k now p')"

abbreviation point :: "probeTarget \<Rightarrow> string" where
  "point t \<equiv> mt_MountPoint (pt_mount t)"

definition start_index :: "probeTarget list \<Rightarrow> string \<Rightarrow> nat" where
  "start_index tier cursor = (if cursor = [] then 0 else start_after tier cursor)"

lemma cursor_frame [simp]:
  "inc_at (p\<lparr>pf_cursor := c\<rparr>) mp = inc_at p mp" "probe_due now (p\<lparr>pf_cursor := c\<rparr>) mp = probe_due now p mp"
  "probed_time (p\<lparr>pf_cursor := c\<rparr>) = probed_time p"
  by (simp_all add: inc_at_def probe_due_def probeExpired_def probed_time_def fun_eq_iff split: option.split)

lemma pending_cursor [simp]: "pending_loop now (p\<lparr>pf_cursor := c\<rparr>) rows seen = pending_loop now p rows seen"
  by (induction now p rows seen rule: pending_loop.induct) (simp_all add: Let_def)

lemma due_cursor [simp]: "due_fresh now (p\<lparr>pf_cursor := c\<rparr>) = due_fresh now p" "due_aged now (p\<lparr>pf_cursor := c\<rparr>) = due_aged now p"
  by (simp_all add: due_fresh_def due_aged_def)

lemma pending_tiers:
  "pendingProbes now p =
     (let pending = resumeAfter (due_fresh now p) (pf_cursor p) maxProbesPerRefresh
      in if length pending < maxProbesPerRefresh
         then pending @ resumeAfter (due_aged now p) (pf_cursor p) (maxProbesPerRefresh - length pending)
         else pending)"
  by (simp add: pendingProbes_def due_fresh_def due_aged_def Let_def split: prod.split)

lemma pending_loop_points:
  assumes "pending_loop now p rows seen = (fresh, aged)" "set rows \<subseteq> set (pf_mounts p)"
  shows "distinct (map point (fresh @ aged)) \<and> set (map point (fresh @ aged)) \<subseteq> mt_MountPoint ` set rows - set seen"
  using assms
proof (induction now p rows seen arbitrary: fresh aged rule: pending_loop.induct)
  case (2 now p row rows seen)
  obtain f a where r: "pending_loop now p rows (mt_MountPoint row # seen) = (f, a)" by fastforce
  have v: "mt_MountPoint (row_at (pf_mounts p) (mt_MountPoint row)) = mt_MountPoint row"
    using 2(4) visible_point [OF refl, of row "pf_mounts p"] by simp
  show ?case
  proof (cases "mt_MountPoint row \<in> set seen")
    case True
    then show ?thesis using 2(1) [OF refl _, of fresh aged] 2(3,4) by auto
  next
    case False
    then have ih: "distinct (map point (f @ a))"
      "set (map point (f @ a)) \<subseteq> mt_MountPoint ` set rows - set (mt_MountPoint row # seen)"
      using 2(2) [OF refl _ refl r] 2(4) by auto
    define t where "t = \<lparr>pt_mount = row_at (pf_mounts p) (mt_MountPoint row), pt_inc = inc_at p (mt_MountPoint row)\<rparr>"
    have t: "point t = mt_MountPoint row" by (simp add: t_def v)
    have new: "mt_MountPoint row \<notin> set (map point (f @ a))" using ih(2) by auto
    have "(fresh, aged) = (f, a) \<or> (fresh, aged) = (t # f, a) \<or> (fresh, aged) = (f, t # a)"
      using 2(3) False by (auto simp: Let_def r t_def split: if_splits)
    moreover have "distinct (map point (t # f @ a))" "set (map point (t # f @ a)) \<subseteq> mt_MountPoint ` set (row # rows) - set seen"
      using ih new False by (auto simp: t)
    ultimately show ?thesis by (elim disjE) auto
  qed
qed simp

lemma due_points:
  "distinct (map point (due_fresh now p))" "distinct (map point (due_aged now p))"
  "set (map point (due_fresh now p)) \<union> set (map point (due_aged now p)) \<subseteq> mt_MountPoint ` set (pf_mounts p)"
proof -
  obtain f a where r: "pending_loop now p (pf_mounts p) [] = (f, a)" by fastforce
  note pts = pending_loop_points [OF r subset_refl]
  have "distinct (map point f)" "distinct (map point a)" using pts by auto
  then show "distinct (map point (due_fresh now p))" "distinct (map point (due_aged now p))"
    by (simp_all add: due_fresh_def due_aged_def r distinct_map)
  show "set (map point (due_fresh now p)) \<union> set (map point (due_aged now p)) \<subseteq> mt_MountPoint ` set (pf_mounts p)"
    using pts by (auto simp: due_fresh_def due_aged_def r)
qed

lemma start_after_nth: "distinct (map point tier) \<Longrightarrow> j < length tier \<Longrightarrow> start_after tier (point (tier ! j)) = Suc j"
proof (induction tier arbitrary: j)
  case (Cons t ts)
  show ?case
  proof (cases j)
    case (Suc i)
    then have "point (ts ! i) \<in> point ` set ts" using Cons.prems by simp
    then have "point t \<noteq> point (ts ! i)" using Cons.prems(1) by auto
    then show ?thesis using Cons Suc by simp
  qed simp
qed simp

lemma resume_nth:
  "tier \<noteq> [] \<Longrightarrow> 0 < n \<Longrightarrow>
   resumeAfter tier cursor n = map (\<lambda>i. tier ! ((start_index tier cursor + i) mod length tier)) [0..<min n (length tier)]"
  by (simp add: resumeAfter_def start_index_def Let_def)

lemma resume_length: "length (resumeAfter tier cursor n) = min n (length tier)"
  by (auto simp: resumeAfter_def Let_def)

lemma hits_every_index:
  assumes "j < (N :: nat)" shows "\<exists>i < N. (s + i) mod N = j"
proof (intro exI conjI)
  show "(j + (N - s mod N)) mod N < N" using assms by simp
  have "(s + (j + (N - s mod N)) mod N) mod N = (s mod N + (j + (N - s mod N))) mod N" by (simp add: mod_simps)
  also have "s mod N + (j + (N - s mod N)) = j + N" using assms mod_less_divisor [of N s] by linarith
  finally show "(s + (j + (N - s mod N)) mod N) mod N = j" using assms by simp
qed

lemma resume_all: "0 < n \<Longrightarrow> length tier \<le> n \<Longrightarrow> set (resumeAfter tier cursor n) = set tier"
proof
  assume n: "0 < n" "length tier \<le> n"
  show "set tier \<subseteq> set (resumeAfter tier cursor n)"
  proof
    fix t assume "t \<in> set tier"
    then obtain j where j: "j < length tier" "t = tier ! j" by (auto simp: in_set_conv_nth)
    obtain i where "i < length tier" "(start_index tier cursor + i) mod length tier = j" using hits_every_index [OF j(1)] by blast
    then show "t \<in> set (resumeAfter tier cursor n)"
      using j n by (subst resume_nth) (auto intro!: image_eqI [of _ _ i] simp: min_def)
  qed
qed (rule resumeAfter_subset)

lemma resume_next:
  assumes "tier \<noteq> []" "0 < n" "distinct (map point tier)" "[] \<notin> set (map point tier)"
  shows "start_index tier (point (last (resumeAfter tier cursor n))) mod length tier
    = (start_index tier cursor + min n (length tier)) mod length tier"
proof -
  define m where "m = min n (length tier)"
  have m: "0 < m" using assms by (simp add: m_def)
  define j where "j = (start_index tier cursor + m - Suc 0) mod length tier"
  have j: "j < length tier" using assms(1) by (simp add: j_def)
  have "last (resumeAfter tier cursor n) = tier ! j"
    using m assms by (simp add: resume_nth last_map last_upt flip: m_def j_def)
  moreover have "point (tier ! j) \<noteq> []" using assms(4) j by (metis length_map nth_map nth_mem)
  ultimately have "start_index tier (point (last (resumeAfter tier cursor n))) = Suc j"
    using start_after_nth [OF assms(3) j] by (simp add: start_index_def)
  then show ?thesis using m by (simp add: j_def mod_Suc_eq flip: m_def)
qed

lemma batch_point: "take_batch now p = (ts, p') \<Longrightarrow> ts = pendingProbes now p \<and>
    p' = (if ts = [] then p else p\<lparr>pf_cursor := point (last ts)\<rparr>)"
  by (auto simp: take_batch_def Let_def split: if_splits)

text \<open>One tier, cycled: \<open>k\<close> batches of \<open>m\<close> rows reach the first \<open>k * m\<close> rows after the cursor.\<close>

lemma fresh_cycle:
  assumes "maxProbesPerRefresh \<le> length (due_fresh now p)" "[] \<notin> set (map point (due_fresh now p))"
    and "i < k * maxProbesPerRefresh"
  shows "due_fresh now p ! ((start_index (due_fresh now p) (pf_cursor p) + i) mod length (due_fresh now p)) \<in> set (taken_in k now p)"
  using assms
proof (induction k arbitrary: p i)
  case (Suc k)
  let ?F = "due_fresh now p"
  let ?n = "maxProbesPerRefresh"
  have n: "0 < ?n" "?F \<noteq> []" using Suc.prems(1) by (auto simp: maxProbesPerRefresh_def)
  define b where "b = resumeAfter ?F (pf_cursor p) ?n"
  have len: "length b = ?n" using Suc.prems(1) by (simp add: b_def resume_length)
  obtain ts p' where t: "take_batch now p = (ts, p')" by fastforce
  have ts: "ts = b" using batch_point [OF t] len by (simp add: pending_tiers Let_def flip: b_def)
  have p': "p' = p\<lparr>pf_cursor := point (last b)\<rparr>" using batch_point [OF t] ts len n by auto
  show ?case
  proof (cases "i < ?n")
    case True
    then have "?F ! ((start_index ?F (pf_cursor p) + i) mod length ?F) \<in> set b"
      using Suc.prems(1) n by (auto simp: b_def resume_nth)
    then show ?thesis by (simp add: t ts)
  next
    case False
    then obtain j where j: "i = ?n + j" using nat_le_iff_add not_less by blast
    have "due_fresh now p' ! ((start_index (due_fresh now p') (pf_cursor p') + j) mod length (due_fresh now p')) \<in> set (taken_in k now p')"
      by (rule Suc.IH) (use Suc.prems j p' in auto)
    moreover have "start_index ?F (pf_cursor p') mod length ?F = (start_index ?F (pf_cursor p) + ?n) mod length ?F"
      using resume_next [OF n(2,1) due_points(1) Suc.prems(2), of "pf_cursor p"] Suc.prems(1)
      by (simp add: p' flip: b_def)
    then have "(start_index ?F (pf_cursor p') + j) mod length ?F = (start_index ?F (pf_cursor p) + i) mod length ?F"
      by (metis add.assoc j mod_add_left_eq)
    ultimately show ?thesis by (simp add: t p')
  qed
qed simp

lemma aged_cycle:
  assumes "length (due_fresh now p) < maxProbesPerRefresh" "due_aged now p \<noteq> []" "[] \<notin> set (map point (due_aged now p))"
    and "m = min (maxProbesPerRefresh - length (due_fresh now p)) (length (due_aged now p))" "i < k * m"
  shows "due_aged now p ! ((start_index (due_aged now p) (pf_cursor p) + i) mod length (due_aged now p)) \<in> set (taken_in k now p)"
  using assms
proof (induction k arbitrary: p i)
  case (Suc k)
  let ?A = "due_aged now p"
  define n where "n = maxProbesPerRefresh - length (due_fresh now p)"
  have n: "0 < n" using Suc.prems(1) by (simp add: n_def)
  define b where "b = resumeAfter ?A (pf_cursor p) n"
  have len: "length b = m" using Suc.prems(4) by (simp add: b_def resume_length n_def)
  obtain ts p' where t: "take_batch now p = (ts, p')" by fastforce
  have ts: "ts = resumeAfter (due_fresh now p) (pf_cursor p) maxProbesPerRefresh @ b"
    using batch_point [OF t] Suc.prems(1) by (simp add: pending_tiers Let_def resume_length b_def n_def min_def)
  have "0 < m" using Suc.prems(2,4) n by (simp add: n_def)
  then have "b \<noteq> []" using len by auto
  then have p': "p' = p\<lparr>pf_cursor := point (last b)\<rparr>" using batch_point [OF t] ts by auto
  show ?case
  proof (cases "i < m")
    case True
    then have "?A ! ((start_index ?A (pf_cursor p) + i) mod length ?A) \<in> set b"
      using Suc.prems(2,4) n by (auto simp: b_def resume_nth n_def)
    then show ?thesis by (simp add: t ts)
  next
    case False
    then obtain j where j: "i = m + j" using nat_le_iff_add not_less by blast
    have "due_aged now p' ! ((start_index (due_aged now p') (pf_cursor p') + j) mod length (due_aged now p')) \<in> set (taken_in k now p')"
      by (rule Suc.IH) (use Suc.prems j p' in auto)
    moreover have "start_index ?A (pf_cursor p') mod length ?A = (start_index ?A (pf_cursor p) + m) mod length ?A"
      using resume_next [OF Suc.prems(2) n due_points(2) Suc.prems(3), of "pf_cursor p"] Suc.prems(4)
      by (simp add: p' b_def n_def)
    then have "(start_index ?A (pf_cursor p') + j) mod length ?A = (start_index ?A (pf_cursor p) + i) mod length ?A"
      by (metis add.assoc j mod_add_left_eq)
    ultimately show ?thesis by (simp add: t p')
  qed
qed simp

lemma fresh_first:
  assumes "length (due_fresh now p) < maxProbesPerRefresh" "0 < k"
  shows "set (due_fresh now p) \<subseteq> set (taken_in k now p)"
proof -
  obtain k' where k: "k = Suc k'" using assms(2) gr0_implies_Suc by blast
  obtain ts p' where t: "take_batch now p = (ts, p')" by fastforce
  have "set (resumeAfter (due_fresh now p) (pf_cursor p) maxProbesPerRefresh) = set (due_fresh now p)"
    by (rule resume_all) (use assms in auto)
  moreover have "set (resumeAfter (due_fresh now p) (pf_cursor p) maxProbesPerRefresh) \<subseteq> set ts"
    using batch_point [OF t] by (auto simp: pending_tiers Let_def)
  ultimately show ?thesis by (auto simp: k t)
qed

lemma cycle_all:
  assumes "\<And>i. i < n \<Longrightarrow> xs ! ((s + i) mod length xs) \<in> S" "length xs \<le> n"
  shows "set xs \<subseteq> S"
proof
  fix x assume "x \<in> set xs"
  then obtain j where j: "j < length xs" "x = xs ! j" by (auto simp: in_set_conv_nth)
  obtain i where "i < length xs" "(s + i) mod length xs = j" using hits_every_index [OF j(1)] by blast
  then show "x \<in> S" using assms(1) [of i] assms(2) j by simp
qed

text \<open>Every visible storage row whose facts are missing or too old is in one of the tiers.\<close>

definition target_at :: "platform \<Rightarrow> string \<Rightarrow> probeTarget" where
  "target_at p mp = \<lparr>pt_mount = row_at (pf_mounts p) mp, pt_inc = inc_at p mp\<rparr>"

lemma pending_loop_complete:
  assumes "mp \<in> mt_MountPoint ` set rows" "mp \<notin> set seen" "IsStorageFS (mt_FSType (row_at (pf_mounts p) mp))" "probe_due now p mp"
  shows "if tget (pf_probedAt p) mp = None then target_at p mp \<in> set (fst (pending_loop now p rows seen))
    else target_at p mp \<in> set (snd (pending_loop now p rows seen))"
  using assms
proof (induction now p rows seen rule: pending_loop.induct)
  case (2 now p row rows seen)
  show ?case
  proof (cases "mp = mt_MountPoint row")
    case True
    then show ?thesis using "2.prems" by (auto simp: Let_def target_at_def)
  next
    case False
    then have "mp \<in> mt_MountPoint ` set rows" using "2.prems"(1) by auto
    then show ?thesis
      using "2.IH"(1) [OF refl _ _ "2.prems"(2-4)] "2.IH"(2) [OF refl _ refl _ _ "2.prems"(3,4)] "2.prems"(2) False
      by (auto simp: Let_def)
  qed
qed simp

lemma due_complete:
  assumes "mp \<in> mt_MountPoint ` set (pf_mounts p)" "IsStorageFS (mt_FSType (row_at (pf_mounts p) mp))" "probe_due now p mp"
  shows "tget (pf_probedAt p) mp = None \<Longrightarrow> target_at p mp \<in> set (due_fresh now p)"
    and "tget (pf_probedAt p) mp \<noteq> None \<Longrightarrow> target_at p mp \<in> set (due_aged now p)"
  using pending_loop_complete [OF assms(1) _ assms(2,3), of "[]"] by (simp_all add: due_fresh_def due_aged_def)

subsection \<open>Properties\<close>

lemma normalizePath_rooted: "normalizePath p \<noteq> [] \<Longrightarrow> has_prefix (normalizePath p) ''/''"
  by (auto simp: normalizePath_def Let_def path_clean_def has_prefix_render split: if_splits)

lemma literal_rooted: "literalMountKey p \<noteq> [] \<Longrightarrow> has_prefix (literalMountKey p) ''/''"
  by (cases p) (auto simp: literalMountKey_def has_prefix_iff split: if_splits)

text \<open>
  The two lookups agree: in every state the table can reach, the facts \<open>For\<close> states about a path are
  those of the mount point \<open>MountFor\<close> answers for it, the literal lookups likewise, and that mount is the row
  the kernel makes reachable at the longest mount point above the path.
\<close>

theorem lookups_agree:
  assumes "table_step\<^sup>*\<^sup>* (world_start live) w"
  shows "For now (tw_pf w) p = (case MountFor (tw_pf w) p of None \<Rightarrow> no_caps | Some m \<Rightarrow> capsLocked now (tw_pf w) (mt_MountPoint m))
    \<and> ForLiteral now (tw_pf w) p = map_option (\<lambda>m. capsLocked now (tw_pf w) (mt_MountPoint m)) (MountForLiteral (tw_pf w) p)
    \<and> (case MountFor (tw_pf w) p of
         None \<Rightarrow> normalizePath p = [] \<or> list_all (\<lambda>m. \<not> pathHasPrefix (normalizePath p) (mt_MountPoint m)) (pf_mounts (tw_pf w))
       | Some m \<Rightarrow> row_at (pf_mounts (tw_pf w)) (mt_MountPoint m) = m \<and> pathHasPrefix (normalizePath p) (mt_MountPoint m)
           \<and> list_all (\<lambda>x. pathHasPrefix (normalizePath p) (mt_MountPoint x) \<longrightarrow> length (mt_MountPoint x) \<le> length (mt_MountPoint m))
               (pf_mounts (tw_pf w)))"
proof (intro conjI)
  have inv: "table_inv (tw_pf w)" using reachable_inv [OF assms] by (simp add: world_inv_def)
  show "For now (tw_pf w) p = (case MountFor (tw_pf w) p of None \<Rightarrow> no_caps | Some m \<Rightarrow> capsLocked now (tw_pf w) (mt_MountPoint m))"
    using lookup_key [OF inv normalizePath_rooted, of p]
    by (simp add: For_def MountFor_def caps_for_key_def Let_def split: option.split)
  show "ForLiteral now (tw_pf w) p = map_option (\<lambda>m. capsLocked now (tw_pf w) (mt_MountPoint m)) (MountForLiteral (tw_pf w) p)"
    using lookup_key [OF inv literal_rooted, of p]
    by (simp add: ForLiteral_def MountForLiteral_def caps_for_key_def Let_def option.map_comp comp_def)
  show "case MountFor (tw_pf w) p of
         None \<Rightarrow> normalizePath p = [] \<or> list_all (\<lambda>m. \<not> pathHasPrefix (normalizePath p) (mt_MountPoint m)) (pf_mounts (tw_pf w))
       | Some m \<Rightarrow> row_at (pf_mounts (tw_pf w)) (mt_MountPoint m) = m \<and> pathHasPrefix (normalizePath p) (mt_MountPoint m)
           \<and> list_all (\<lambda>x. pathHasPrefix (normalizePath p) (mt_MountPoint x) \<longrightarrow> length (mt_MountPoint x) \<le> length (mt_MountPoint m))
               (pf_mounts (tw_pf w))"
    using best_mount_spec [of "normalizePath p" "pf_mounts (tw_pf w)"]
    by (auto simp: MountFor_def Let_def row_at_def split: option.splits)
qed

definition sample_mount :: "string \<Rightarrow> string \<Rightarrow> int \<Rightarrow> mount" where
  "sample_mount mp fs n = \<lparr>mt_ID = n, mt_ParentID = 1, mt_Major = 8, mt_Minor = n, mt_Root = ''/'', mt_MountPoint = mp,
     mt_FSType = fs, mt_Source = ''pool/x'', mt_Options = [''rw''], mt_SuperOptions = [''rw'']\<rparr>"

definition sample_rows :: "mount list" where
  "sample_rows = [sample_mount ''/'' ''tmpfs'' 1, sample_mount ''/share/a'' ''zfs'' 2]"

definition sample_loaded :: table_world where
  "sample_loaded = (world_start True)\<lparr>tw_pf := setMounts 0 [''/'', ''/share/a''] sample_rows (tw_pf (world_start True))\<rparr>"

lemma sample_reach: "table_step\<^sup>*\<^sup>* (world_start True) sample_loaded"
  unfolding sample_loaded_def
  by (rule r_into_rtranclp, rule Loads) (auto simp: range_order_def sample_rows_def sample_mount_def)

theorem lookups_agree_witness:
  "MountFor (tw_pf sample_loaded) ''/share/a/b'' = Some (sample_mount ''/share/a'' ''zfs'' 2)
   \<and> For 9 (tw_pf sample_loaded) ''/share/a/b'' = capsLocked 9 (tw_pf sample_loaded) ''/share/a''"
proof -
  have m: "MountFor (tw_pf sample_loaded) ''/share/a/b'' = Some (sample_mount ''/share/a'' ''zfs'' 2)"
    by code_simp
  then show ?thesis
    using lookups_agree [OF sample_reach, of 9 "''/share/a/b''"] by (simp add: sample_mount_def)
qed

text \<open>
  C22: A late answer never describes a replacement: once the row at a mount point has changed in any table read
  since the probe was sent, the probe's answer changes nothing in any later state, even where the
  same row has come back in between.
\<close>

theorem stale_answer_dropped:
  assumes "table_step\<^sup>*\<^sup>* (world_start live) w" "t \<in> set (tw_out w)"
    and "table_step w w1" "\<not> sameMountRow (row_at (pf_mounts (tw_pf w)) (point t)) (row_at (pf_mounts (tw_pf w1)) (point t))"
    and "table_step\<^sup>*\<^sup>* w1 w2"
  shows "publishProbe now t backend xattr aclmode overwrite (tw_pf w2) = tw_pf w2"
proof -
  have "1 \<le> pt_inc t" "pt_inc t \<le> pf_nextInc (tw_pf w)"
    using reachable_inv [OF assms(1)] assms(2) by (simp_all add: world_inv_def)
  then show ?thesis
    using retired_drops reach_retired [OF assms(5)] changed_row_retires [OF assms(3) _ assms(4)] by blast
qed

definition sample_taken :: table_world where
  "sample_taken = (case take_batch 1 (tw_pf sample_loaded) of
     (ts, p) \<Rightarrow> sample_loaded\<lparr>tw_pf := p, tw_out := ts @ tw_out sample_loaded\<rparr>)"

definition sample_gone :: table_world where
  "sample_gone = sample_taken\<lparr>tw_pf := refresh 2 [''/''] (Some [sample_mount ''/'' ''tmpfs'' 1]) (tw_pf sample_taken)\<rparr>"

definition sample_back :: table_world where
  "sample_back = sample_gone\<lparr>tw_pf := refresh 3 [''/share/a'', ''/''] (Some sample_rows) (tw_pf sample_gone)\<rparr>"

definition sample_target :: probeTarget where
  "sample_target = \<lparr>pt_mount = sample_mount ''/share/a'' ''zfs'' 2, pt_inc = 2\<rparr>"

lemma sample_taken_reach: "table_step\<^sup>*\<^sup>* (world_start True) sample_taken"
  by (rule rtranclp.rtrancl_into_rtrancl [OF sample_reach])
    (unfold sample_taken_def, cases "take_batch 1 (tw_pf sample_loaded)", simp add: Takes)

theorem stale_answer_dropped_witness:
  "row_at (pf_mounts (tw_pf sample_back)) ''/share/a'' = pt_mount sample_target
   \<and> publishProbe 4 sample_target ''nfs4'' ''x'' ''passthrough'' False (tw_pf sample_back) = tw_pf sample_back"
proof
  show "row_at (pf_mounts (tw_pf sample_back)) ''/share/a'' = pt_mount sample_target" by code_simp
  have t: "sample_target \<in> set (tw_out sample_taken)" by code_simp
  have "table_step sample_taken sample_gone"
    unfolding sample_gone_def by (rule Refreshes) (simp add: range_order_def sample_mount_def)
  moreover have "\<not> sameMountRow (row_at (pf_mounts (tw_pf sample_taken)) (point sample_target))
      (row_at (pf_mounts (tw_pf sample_gone)) (point sample_target))" by code_simp
  moreover have "table_step\<^sup>*\<^sup>* sample_gone sample_back"
    unfolding sample_back_def
    by (rule r_into_rtranclp, rule Refreshes) (auto simp: range_order_def sample_rows_def sample_mount_def)
  ultimately show "publishProbe 4 sample_target ''nfs4'' ''x'' ''passthrough'' False (tw_pf sample_back) = tw_pf sample_back"
    by (rule stale_answer_dropped [OF sample_taken_reach t])
qed

text \<open>
  A lookup states no old fact: whatever backend, attribute or ACL mode \<open>For\<close> and the literal lookups read for a
  mount point came with an answer about the very mount that is visible there, under the
  incarnation it still has, and no longer ago than the freshness bound.
\<close>

theorem stated_fact_fresh:
  assumes "table_step\<^sup>*\<^sup>* (world_start live) w" "\<not> no_facts (capsLocked now (tw_pf w) mp)"
  shows "\<exists>a \<in> set (tw_log w). point (an_target a) = mp \<and> now - an_at a \<le> pf_probeTTL (tw_pf w)
    \<and> pt_inc (an_target a) = inc_at (tw_pf w) mp
    \<and> sameMountRow (row_at (pf_mounts (tw_pf w)) mp) (pt_mount (an_target a))
    \<and> fs_ACLBackend (capsLocked now (tw_pf w) mp) = an_backend a \<and> fs_ACLXattr (capsLocked now (tw_pf w) mp) = an_xattr a
    \<and> fs_ZFSAclmode (capsLocked now (tw_pf w) mp) = an_aclmode a"
proof -
  have fresh: "\<not> probeExpired now (tw_pf w) mp" using assms(2) by (auto simp: capsLocked_def no_facts_def Let_def)
  have "tget (pf_caps (tw_pf w)) mp \<noteq> None"
  proof
    assume "tget (pf_caps (tw_pf w)) mp = None"
    then show False using assms(2) by (simp add: capsLocked_def Let_def no_facts_def no_caps_def)
  qed
  then obtain c where c: "tget (pf_caps (tw_pf w)) mp = Some c" by blast
  then have cs: "capsLocked now (tw_pf w) mp = c" using fresh by (simp add: capsLocked_def)
  have "supported (tw_log w) (tw_pf w) mp c"
    using reachable_inv [OF assms(1)] c assms(2) by (auto simp: cs world_inv_def facts_supported_def)
  then show ?thesis using fresh unfolding supported_def cs by (auto simp: inc_at_def probeExpired_def)
qed

definition sample_answered :: table_world where
  "sample_answered = world_answer \<lparr>an_target = sample_target, an_at = 5, an_backend = ''nfs4'', an_xattr = ''x'',
     an_aclmode = ''discard''\<rparr> False sample_taken"

theorem stated_fact_fresh_witness:
  "fs_ZFSAclmode (capsLocked 6 (tw_pf sample_answered) ''/share/a'') = ''discard''
   \<and> (\<exists>a \<in> set (tw_log sample_answered). 6 - an_at a \<le> pf_probeTTL (tw_pf sample_answered) \<and> an_aclmode a = ''discard'')
   \<and> no_facts (capsLocked (6 + 60 * 10 ^ 9) (tw_pf sample_answered) ''/share/a'')"
proof -
  have t: "sample_target \<in> set (tw_out sample_taken)" by code_simp
  have r: "table_step\<^sup>*\<^sup>* (world_start True) sample_answered"
    unfolding sample_answered_def
    by (rule rtranclp.rtrancl_into_rtrancl [OF sample_taken_reach], rule Answers) (simp add: t)
  have v: "fs_ZFSAclmode (capsLocked 6 (tw_pf sample_answered) ''/share/a'') = ''discard''" by code_simp
  then have n: "\<not> no_facts (capsLocked 6 (tw_pf sample_answered) ''/share/a'')" by (simp add: no_facts_def)
  have "no_facts (capsLocked (6 + 60 * 10 ^ 9) (tw_pf sample_answered) ''/share/a'')" by code_simp
  then show ?thesis using stated_fact_fresh [OF r n] v by auto
qed

text \<open>
  No row starves: as long as fewer than sixteen mounts were never probed, every visible storage mount
  whose facts are missing or out of date is asked about within the passes it takes to go once round the
  waiting rows, even if no answer is ever published; and the never probed ones always are.
\<close>

theorem no_row_starves:
  assumes "mp \<in> mt_MountPoint ` set (pf_mounts p)" "IsStorageFS (mt_FSType (row_at (pf_mounts p) mp))" "probe_due now p mp"
    and "[] \<notin> mt_MountPoint ` set (pf_mounts p)" "0 < k"
    and "(if tget (pf_probedAt p) mp = None then length (due_fresh now p) \<le> k * maxProbesPerRefresh
      else length (due_fresh now p) < maxProbesPerRefresh
        \<and> length (due_aged now p) \<le> k * (maxProbesPerRefresh - length (due_fresh now p)))"
  shows "target_at p mp \<in> set (taken_in k now p)"
proof (cases "tget (pf_probedAt p) mp = None")
  case True
  have "[] \<notin> set (map point (due_fresh now p))" using due_points(3) [of now p] assms(4) by blast
  then have "set (due_fresh now p) \<subseteq> set (taken_in k now p)" if "maxProbesPerRefresh \<le> length (due_fresh now p)"
    using assms(6) True by (intro cycle_all [OF fresh_cycle [OF that]]) auto
  then show ?thesis
    using due_complete(1) [OF assms(1-3) True] fresh_first [OF _ assms(5), of now p] not_less by blast
next
  case False
  have "[] \<notin> set (map point (due_aged now p))" using due_points(3) [of now p] assms(4) by blast
  moreover have "target_at p mp \<in> set (due_aged now p)" by (rule due_complete(2) [OF assms(1-3) False])
  moreover have "length (due_aged now p) \<le> k * min (maxProbesPerRefresh - length (due_fresh now p)) (length (due_aged now p))"
    using assms(5,6) False by (auto simp: min_def)
  ultimately show ?thesis
    using cycle_all [OF aged_cycle [OF _ _ _ refl]] assms(6) False by (metis empty_iff list.set(1) subsetD)
qed

theorem no_row_starves_witness:
  "target_at (tw_pf sample_loaded) ''/share/a'' \<in> set (taken_in 1 9 (tw_pf sample_loaded))"
proof (rule no_row_starves)
  show "''/share/a'' \<in> mt_MountPoint ` set (pf_mounts (tw_pf sample_loaded))"
    by (simp add: sample_loaded_def sample_rows_def sample_mount_def)
  show "[] \<notin> mt_MountPoint ` set (pf_mounts (tw_pf sample_loaded))"
    by (simp add: sample_loaded_def sample_rows_def sample_mount_def)
  show "IsStorageFS (mt_FSType (row_at (pf_mounts (tw_pf sample_loaded)) ''/share/a''))" by code_simp
  show "probe_due 9 (tw_pf sample_loaded) ''/share/a''" by code_simp
  have "tget (pf_probedAt (tw_pf sample_loaded)) ''/share/a'' = None" by code_simp
  moreover have "length (due_fresh 9 (tw_pf sample_loaded)) \<le> 1 * maxProbesPerRefresh" by code_simp
  ultimately show "if tget (pf_probedAt (tw_pf sample_loaded)) ''/share/a'' = None
    then length (due_fresh 9 (tw_pf sample_loaded)) \<le> 1 * maxProbesPerRefresh
    else length (due_fresh 9 (tw_pf sample_loaded)) < maxProbesPerRefresh
      \<and> length (due_aged 9 (tw_pf sample_loaded)) \<le> 1 * (maxProbesPerRefresh - length (due_fresh 9 (tw_pf sample_loaded)))"
    by simp
qed simp

end
