(* ===== verification/Qtsauth.thy ===== *)
theory Qtsauth
  imports Idmap
begin

section \<open>Asking QTS who a caller is (internal/qtsauth: cred.go, parse.go, client.go)\<close>

text \<open>
  The credential taken from a request, the reading of the endpoint's answer, the client that asks, and the
  decision which user name an answer authorises. Parameters: the XML decoder (from a body to its tokens,
  up to the end or the first fault), the parsing of a URL (its scheme) and the transport (from a URL to what
  came back). An error is the list of sentinels \<open>errors.Is\<close> finds in it.
\<close>

datatype auth_sentinel =
    ErrOverloaded | ErrNotAuthenticated | ErrSIDUnbound | ErrUserMismatch | ErrUnreachable | ErrBadResponse
  | CtxCanceled | CtxDeadlineExceeded

type_synonym auth_error = "auth_sentinel list"

subsection \<open>Credentials (cred.go)\<close>

definition KindQToken :: string where "KindQToken = ''qtoken''"
definition KindSID :: string where "KindSID = ''sid''"
definition CookieUser :: string where "CookieUser = ''NAS_USER''"
definition CookieQToken :: string where "CookieQToken = ''qtoken''"
definition CookieSID :: string where "CookieSID = ''NAS_SID''"
definition maxTokenLen :: nat where "maxTokenLen = 512"

record cred =
  cd_Kind :: string
  cd_User :: string
  cd_Token :: string

record cred_request =
  cr_cookies :: "string list"
  cr_query_sid :: string
  cr_header_sid :: string

definition token_char :: "char \<Rightarrow> bool" where
  "token_char c \<longleftrightarrow> 33 \<le> (of_char c :: nat) \<and> (of_char c :: nat) \<le> 126"

definition validToken :: "string \<Rightarrow> bool" where
  "validToken tok \<longleftrightarrow> tok \<noteq> [] \<and> length tok \<le> maxTokenLen \<and> list_all token_char tok"

text \<open>\<open>url.PathUnescape\<close>, which fails on a malformed escape.\<close>

definition hex_val :: "char \<Rightarrow> nat option" where
  "hex_val c =
     (let n = of_char c :: nat
      in if 48 \<le> n \<and> n \<le> 57 then Some (n - 48) else if 97 \<le> n \<and> n \<le> 102 then Some (n - 87)
         else if 65 \<le> n \<and> n \<le> 70 then Some (n - 55) else None)"

fun PathUnescape :: "string \<Rightarrow> string option" where
  "PathUnescape [] = Some []"
| "PathUnescape (c # s) =
     (if c \<noteq> CHR ''%'' then map_option (\<lambda>t. c # t) (PathUnescape s)
      else case s of
        a # b # r \<Rightarrow>
          (case hex_val a of None \<Rightarrow> None | Some h \<Rightarrow> (case hex_val b of None \<Rightarrow> None
             | Some l \<Rightarrow> map_option (\<lambda>t. char_of (16 * h + l) # t) (PathUnescape r)))
      | _ \<Rightarrow> None)"

definition blank_char :: "char \<Rightarrow> bool" where
  "blank_char c \<longleftrightarrow> c = CHR 0x20 \<or> c = CHR 0x09"

definition cookie_value :: "string \<Rightarrow> string" where
  "cookie_value value =
     (let v = (if length value \<ge> 2 \<and> hd value = CHR 0x22 \<and> last value = CHR 0x22 then butlast (tl value) else value)
      in case PathUnescape v of Some d \<Rightarrow> d | None \<Rightarrow> v)"

fun cookie_pairs :: "string list \<Rightarrow> (string, string) table \<Rightarrow> (string, string) table" where
  "cookie_pairs [] out = out"
| "cookie_pairs (pair # ps) out =
     (case cut_at CHR ''='' (dropWhile blank_char pair) of
        None \<Rightarrow> cookie_pairs ps out
      | Some (name, value) \<Rightarrow>
          if name \<noteq> CookieUser \<and> name \<noteq> CookieQToken \<and> name \<noteq> CookieSID then cookie_pairs ps out
          else if tget out name \<noteq> None then cookie_pairs ps out
          else cookie_pairs ps (tput name (cookie_value value) out))"

definition qtsCookies :: "string list \<Rightarrow> (string, string) table" where
  "qtsCookies headers = foldl (\<lambda>out h. cookie_pairs (split_on CHR '';'' h) out) [] headers"

definition FromRequest :: "cred_request \<Rightarrow> cred option" where
  "FromRequest r =
     (let cookies = qtsCookies (cr_cookies r);
          user = (case tget cookies CookieUser of None \<Rightarrow> [] | Some v \<Rightarrow> v);
          mk = (\<lambda>kind tok. Some \<lparr>cd_Kind = kind, cd_User = user, cd_Token = tok\<rparr>);
          rest = (let q = trim_space (cr_query_sid r); h = trim_space (cr_header_sid r)
                  in if validToken q then mk KindSID q else if validToken h then mk KindSID h else None);
          sid = (case tget cookies CookieSID of None \<Rightarrow> rest | Some tok \<Rightarrow> if validToken tok then mk KindSID tok else rest)
      in if user \<noteq> [] \<and> \<not> ValidUser user then None
         else case tget cookies CookieQToken of
           None \<Rightarrow> sid
         | Some tok \<Rightarrow> if user \<noteq> [] \<and> validToken tok then mk KindQToken tok else sid)"

subsection \<open>The answer (parse.go)\<close>

datatype xml_token = XStart string | XEnd | XChars bytes | XOther

record auth_result =
  q_AuthPassed :: bool
  q_IsAdmin :: "bool option"
  q_Username :: string
  q_AuthSID :: string
  q_ErrorValue :: int
  q_Raw :: "(string, string) table"

definition wantedElements :: "string list" where
  "wantedElements = [''authpassed'', ''isadmin'', ''username'', ''user'', ''authsid'', ''errorvalue'']"

type_synonym xml_frame = "string \<times> bytes"

definition commit_frame :: "xml_frame \<Rightarrow> (string, string) table \<Rightarrow> (string, string) table" where
  "commit_frame f raw =
     (if \<not> List.member wantedElements (fst f) then raw
      else if tget raw (fst f) \<noteq> None then raw
      else tput (fst f) (trim_space (snd f)) raw)"

fun parse_step :: "xml_frame list \<times> (string, string) table \<Rightarrow> xml_token \<Rightarrow> xml_frame list \<times> (string, string) table" where
  \<comment> \<open>the innermost open element first\<close>
  "parse_step (stack, raw) (XStart name) = ((to_lower name, []) # stack, raw)"
| "parse_step ([], raw) XEnd = ([], raw)"
| "parse_step (f # stack, raw) XEnd = (stack, commit_frame f raw)"
| "parse_step ([], raw) (XChars t) = ([], raw)"
| "parse_step (f # stack, raw) (XChars t) =
     (if List.member wantedElements (fst f) then ((fst f, snd f @ t) # stack, raw) else (f # stack, raw))"
| "parse_step s XOther = s"

definition collect_raw :: "xml_token list \<Rightarrow> (string, string) table" where
  "collect_raw toks =
     (case foldl parse_step ([], []) toks of (stack, raw) \<Rightarrow> foldl (\<lambda>r f. commit_frame f r) raw stack)"

definition truthy :: "string \<Rightarrow> bool" where
  "truthy s =
     (let t = trim_space s
      in if t = [] then False
         else case atoi t of Some n \<Rightarrow> n \<noteq> 0 | None \<Rightarrow> List.member [''true'', ''yes'', ''y''] (to_lower t))"

definition raw_text :: "(string, string) table \<Rightarrow> string \<Rightarrow> string" where
  "raw_text raw name = (case tget raw name of None \<Rightarrow> [] | Some v \<Rightarrow> v)"

definition parseResponse :: "xml_token list \<Rightarrow> auth_error + auth_result" where
  "parseResponse toks =
     (let raw = collect_raw toks
      in if raw = [] then Inl [ErrBadResponse]
         else Inr \<lparr>q_AuthPassed = (case tget raw ''authpassed'' of None \<Rightarrow> False | Some v \<Rightarrow> truthy v),
             q_IsAdmin = map_option truthy (tget raw ''isadmin''),
             q_Username = (if raw_text raw ''username'' = [] then raw_text raw ''user'' else raw_text raw ''username''),
             q_AuthSID = raw_text raw ''authsid'',
             q_ErrorValue = (case tget raw ''errorvalue'' of None \<Rightarrow> 0
               | Some v \<Rightarrow> (case atoi (trim_space v) of None \<Rightarrow> 0 | Some n \<Rightarrow> n)),
             q_Raw = raw\<rparr>)"

subsection \<open>The client (client.go)\<close>

definition DefaultPort :: int where "DefaultPort = 8080"
definition DefaultSSLPort :: int where "DefaultSSLPort = 443"
definition AuthDefaultTimeout :: time where "AuthDefaultTimeout = 5 * 10 ^ 9"
definition DefaultMaxBody :: int where "DefaultMaxBody = 65536"
definition AuthPath :: string where "AuthPath = ''/cgi-bin/authLogin.cgi''"

record http_conf =
  hc_insecure :: bool
  hc_timeout :: time

record qclient =
  cl_BaseURL :: string
  cl_HTTP :: "http_conf option"
  cl_MaxBody :: int
  cl_SSLPort :: int

text \<open>The reply of the transport: none with the sentinels of its error, or a status with its Location and body.\<close>

datatype body_read = Body bytes | BodyBroken auth_error
datatype http_reply = NoReply auth_error | Reply int string body_read

record transport =
  tr_url_ok :: "string \<Rightarrow> bool"
  tr_do :: "http_conf \<Rightarrow> string \<Rightarrow> http_reply"
  tr_scheme :: "string \<Rightarrow> string option"
  tr_decode :: "bytes \<Rightarrow> xml_token list"

definition NewHTTPClient :: "string \<Rightarrow> time \<Rightarrow> http_conf" where
  "NewHTTPClient baseURL timeout =
     \<lparr>hc_insecure = has_prefix (to_lower (trim_space baseURL)) ''https://'', hc_timeout = timeout\<rparr>"

definition NewClient :: "string \<Rightarrow> qclient" where
  "NewClient baseURL =
     (let b = trim_right_char CHR ''/'' (trim_space baseURL)
      in \<lparr>cl_BaseURL = b, cl_HTTP = Some (NewHTTPClient b AuthDefaultTimeout), cl_MaxBody = DefaultMaxBody, cl_SSLPort = 0\<rparr>)"

fun ini_lines :: "string list \<Rightarrow> string \<Rightarrow> bool \<Rightarrow> (string, string) table \<Rightarrow> (string, string) table" where
  "ini_lines [] want inside out = out"
| "ini_lines (l # ls) want inside out =
     (let line = trim_space l
      in if line = [] \<or> has_prefix line ''#'' \<or> has_prefix line '';'' then ini_lines ls want inside out
         else if has_prefix line ''['' then
           (case cut_at CHR '']'' line of
              None \<Rightarrow> ini_lines ls want inside out
            | Some (name, rest) \<Rightarrow> ini_lines ls want (equal_fold (trim_space (tl name)) want) out)
         else if \<not> inside then ini_lines ls want inside out
         else case cut_at CHR ''='' line of
           None \<Rightarrow> ini_lines ls want inside out
         | Some (k, v) \<Rightarrow>
             let key = to_lower (trim_space k); v0 = trim_space v;
                 val = (if length v0 \<ge> 2 \<and> ((hd v0 = CHR 0x22 \<and> last v0 = CHR 0x22) \<or> (hd v0 = CHR 0x27 \<and> last v0 = CHR 0x27))
                        then butlast (tl v0) else v0)
             in if key = [] \<or> tget out key \<noteq> None then ini_lines ls want inside out
                else ini_lines ls want inside (tput key val out))"

definition readINISection :: "string list option \<Rightarrow> string \<Rightarrow> (string, string) table option" where
  \<comment> \<open>the lines of the file, None when it cannot be read\<close>
  "readINISection file sec = map_option (\<lambda>ls. ini_lines ls (to_lower sec) False []) file"

definition usable_port :: "string \<Rightarrow> int option" where
  "usable_port v = (case atoi (trim_space v) of Some p \<Rightarrow> if 0 < p \<and> p < 65536 then Some p else None | None \<Rightarrow> None)"

fun first_port :: "(string, string) table \<Rightarrow> string list \<Rightarrow> int \<Rightarrow> int" where
  "first_port sec [] dflt = dflt"
| "first_port sec (key # keys) dflt =
     (case Option.bind (tget sec key) usable_port of Some p \<Rightarrow> p | None \<Rightarrow> first_port sec keys dflt)"

definition DetectPort :: "string list option \<Rightarrow> int" where
  "DetectPort file =
     (case readINISection file ''System'' of
        None \<Rightarrow> DefaultPort
      | Some sec \<Rightarrow> first_port sec [''web access port'', ''web access port enable''] DefaultPort)"

definition DetectSSLPort :: "string list option \<Rightarrow> int" where
  "DetectSSLPort file =
     (case readINISection file ''Stunnel'' of
        None \<Rightarrow> DefaultSSLPort
      | Some sec \<Rightarrow> first_port sec [''port'', ''ssl port''] DefaultSSLPort)"

definition DetectClient :: "string list option \<Rightarrow> qclient" where
  "DetectClient file = (NewClient (''http://127.0.0.1:'' @ itoa (DetectPort file)))\<lparr>cl_SSLPort := DetectSSLPort file\<rparr>"

text \<open>\<open>url.QueryEscape\<close>.\<close>

definition query_plain :: "char \<Rightarrow> bool" where
  "query_plain c \<longleftrightarrow>
     (let n = of_char c :: nat
      in 97 \<le> n \<and> n \<le> 122 \<or> 65 \<le> n \<and> n \<le> 90 \<or> 48 \<le> n \<and> n \<le> 57 \<or> c = CHR ''-'' \<or> c = CHR ''_'' \<or> c = CHR ''.'' \<or> c = CHR ''~'')"

definition hex_upper :: "nat \<Rightarrow> char" where
  "hex_upper n = (if n < 10 then char_of (n + 48) else char_of (n + 55))"

definition escape_byte :: "char \<Rightarrow> string" where
  "escape_byte c =
     (if query_plain c then [c] else if c = CHR 0x20 then [CHR ''+'']
      else [CHR ''%'', hex_upper (of_char c div 16), hex_upper (of_char c mod 16)])"

definition QueryEscape :: "string \<Rightarrow> string" where
  "QueryEscape s = concat (map escape_byte s)"

definition clientFor :: "qclient \<Rightarrow> string \<Rightarrow> http_conf" where
  "clientFor c base =
     (if equal_fold (trim_right_char CHR ''/'' base) (trim_right_char CHR ''/'' (cl_BaseURL c))
      then (case cl_HTTP c of Some h \<Rightarrow> h | None \<Rightarrow> NewHTTPClient (cl_BaseURL c) AuthDefaultTimeout)
      else NewHTTPClient base
        (case cl_HTTP c of Some h \<Rightarrow> if hc_timeout h > 0 then hc_timeout h else AuthDefaultTimeout | None \<Rightarrow> AuthDefaultTimeout))"

definition httpsFallback :: "qclient \<Rightarrow> string \<Rightarrow> string" where
  "httpsFallback c base =
     (if \<not> has_prefix (to_lower (trim_space base)) ''http://'' then []
      else ''https://127.0.0.1:'' @
        itoa (if cl_SSLPort c \<le> 0 \<or> cl_SSLPort c \<ge> 65536 then DefaultSSLPort else cl_SSLPort c))"

definition isHTTPSLocation :: "transport \<Rightarrow> string \<Rightarrow> bool" where
  "isHTTPSLocation tr location =
     (if location = [] then False
      else case tr_scheme tr location of None \<Rightarrow> False | Some sch \<Rightarrow> equal_fold sch ''https'')"

definition transport_cause :: "auth_error \<Rightarrow> auth_error" where
  "transport_cause e =
     (if List.member e CtxCanceled then [CtxCanceled, ErrUnreachable]
      else if List.member e CtxDeadlineExceeded then [CtxDeadlineExceeded, ErrUnreachable] else [ErrUnreachable])"

definition maxBody :: "qclient \<Rightarrow> int" where
  "maxBody c = (if cl_MaxBody c > 0 then cl_MaxBody c else DefaultMaxBody)"

definition getFrom :: "transport \<Rightarrow> qclient \<Rightarrow> string \<Rightarrow> string \<Rightarrow> (auth_error + auth_result) \<times> string" where
  "getFrom tr c base query =
     (let u = base @ AuthPath @ ''?'' @ query
      in if \<not> tr_url_ok tr u then (Inl [ErrUnreachable], [])
         else case tr_do tr (clientFor c base) u of
           NoReply e \<Rightarrow> (Inl (transport_cause e), httpsFallback c base)
         | Reply status location body \<Rightarrow>
             if 300 \<le> status \<and> status < 400 then
               (if isHTTPSLocation tr location \<and> httpsFallback c base \<noteq> []
                then (Inl [ErrBadResponse], httpsFallback c base) else (Inl [ErrBadResponse], []))
             else if status < 200 \<or> status > 299 then (Inl [ErrBadResponse], [])
             else case body of
               BodyBroken e \<Rightarrow> (Inl (e @ [ErrUnreachable]), [])
             | Body b \<Rightarrow> (parseResponse (tr_decode tr (take (nat (maxBody c)) b)), []))"

text \<open>\<open>get\<close>, with the bases it asked, in order.\<close>

definition client_get :: "transport \<Rightarrow> qclient \<Rightarrow> string \<Rightarrow> string list \<times> (auth_error + auth_result)" where
  "client_get tr c query =
     (let base = trim_right_char CHR ''/'' (cl_BaseURL c)
      in if base = [] then ([], Inl [ErrUnreachable])
         else case getFrom tr c base query of
           (res, fallback) \<Rightarrow>
             if (case res of Inr _ \<Rightarrow> True | Inl _ \<Rightarrow> False) \<or> fallback = [] then ([base], res)
             else ([base, fallback], fst (getFrom tr c fallback query)))"

definition qtoken_query :: "string \<Rightarrow> string \<Rightarrow> string" where
  "qtoken_query user qtoken = ''qtoken='' @ QueryEscape qtoken @ ''&user='' @ QueryEscape user"

definition ValidateQToken :: "transport \<Rightarrow> qclient \<Rightarrow> string \<Rightarrow> string \<Rightarrow> auth_error + auth_result" where
  "ValidateQToken tr c user qtoken = snd (client_get tr c (qtoken_query user qtoken))"

definition ValidateSID :: "transport \<Rightarrow> qclient \<Rightarrow> string \<Rightarrow> auth_error + auth_result" where
  "ValidateSID tr c sid = snd (client_get tr c (''sid='' @ QueryEscape sid))"

definition AuthLogin :: "(string \<Rightarrow> string) \<Rightarrow> transport \<Rightarrow> qclient \<Rightarrow> string \<Rightarrow> string \<Rightarrow> auth_error + auth_result" where
  \<comment> \<open>\<open>EncodePassword\<close> is a variable of the package\<close>
  "AuthLogin EncodePassword tr c user password =
     snd (client_get tr c (''user='' @ QueryEscape user @ ''&pwd='' @ QueryEscape (EncodePassword password)))"

subsection \<open>The decision (verifier.go: validate, bindUser)\<close>

record vsession =
  vs_User :: string
  vs_Admin :: "bool option"
  vs_ValidatedAt :: time
  vs_Kind :: string

definition IsAdmin :: "vsession \<Rightarrow> bool" where
  "IsAdmin s \<longleftrightarrow> vs_Admin s = Some True"

definition bindUser :: "cred \<Rightarrow> auth_result \<Rightarrow> bool \<Rightarrow> auth_error + string" where
  "bindUser cr res allowSIDWithoutUsername =
     (let respUser = trim_space (q_Username res)
      in if respUser \<noteq> [] \<and> \<not> ValidUser respUser then Inl [ErrBadResponse]
         else if respUser \<noteq> [] \<and> cd_User cr \<noteq> [] \<and> \<not> equal_fold respUser (cd_User cr) then Inl [ErrUserMismatch]
         else if cd_Kind cr = KindQToken then (if respUser \<noteq> [] then Inr respUser else Inr (cd_User cr))
         else if respUser \<noteq> [] then Inr respUser
         else if \<not> allowSIDWithoutUsername then Inl [ErrSIDUnbound]
         else if cd_User cr = [] then Inl [ErrSIDUnbound]
         else Inr (cd_User cr))"

record verifier_conf =
  vc_Client :: "qclient option"
  vc_AllowSIDWithoutUsername :: bool
  vc_RequireAdminSignal :: bool

definition validate :: "transport \<Rightarrow> verifier_conf \<Rightarrow> time \<Rightarrow> cred \<Rightarrow> auth_error + vsession" where
  \<comment> \<open>\<open>now\<close>: the reading of the clock after the call\<close>
  "validate tr v now cr =
     (case vc_Client v of
        None \<Rightarrow> Inl [ErrUnreachable]
      | Some c \<Rightarrow>
          if \<not> validToken (cd_Token cr) then Inl [ErrNotAuthenticated]
          else if cd_User cr \<noteq> [] \<and> \<not> ValidUser (cd_User cr) then Inl [ErrNotAuthenticated]
          else let r = (if cd_Kind cr = KindQToken
                        then (if cd_User cr = [] then Inl [ErrNotAuthenticated] else ValidateQToken tr c (cd_User cr) (cd_Token cr))
                        else if cd_Kind cr = KindSID then ValidateSID tr c (cd_Token cr)
                        else Inl [ErrNotAuthenticated])
               in case r of
                 Inl e \<Rightarrow> Inl e
               | Inr res \<Rightarrow>
                   if \<not> q_AuthPassed res then Inl [ErrNotAuthenticated]
                   else if vc_RequireAdminSignal v \<and> q_IsAdmin res = None then Inl [ErrBadResponse]
                   else (case bindUser cr res (vc_AllowSIDWithoutUsername v) of
                     Inl e \<Rightarrow> Inl e
                   | Inr user \<Rightarrow> Inr \<lparr>vs_User = user, vs_Admin = q_IsAdmin res, vs_ValidatedAt = now, vs_Kind = cd_Kind cr\<rparr>))"

subsection \<open>Elements that are not there\<close>

definition started :: "xml_token list \<Rightarrow> string set" where
  "started toks = {to_lower n | n. XStart n \<in> set toks}"

lemma commit_keys: "tget (commit_frame f raw) k \<noteq> None \<Longrightarrow> tget raw k \<noteq> None \<or> k = fst f"
  by (auto simp: commit_frame_def split: if_splits)

lemma parse_step_keys:
  assumes "parse_step (stack, raw) t = (stack', raw')" "\<forall>k. tget raw k \<noteq> None \<longrightarrow> k \<in> N" "\<forall>f \<in> set stack. fst f \<in> N"
    and "started [t] \<subseteq> N"
  shows "(\<forall>k. tget raw' k \<noteq> None \<longrightarrow> k \<in> N) \<and> (\<forall>f \<in> set stack'. fst f \<in> N)"
proof (cases t)
  case (XStart n)
  have "to_lower n \<in> N" using assms(4) XStart by (auto simp: started_def)
  then show ?thesis using assms(1-3) XStart by auto
next
  case XEnd
  then show ?thesis using assms commit_keys by (cases stack) (auto, blast+)
next
  case (XChars b)
  then show ?thesis using assms by (cases stack) (auto split: if_splits)
qed (use assms in auto)

lemma parse_keys:
  assumes "foldl parse_step (stack, raw) toks = (stack', raw')" "\<forall>k. tget raw k \<noteq> None \<longrightarrow> k \<in> N" "\<forall>f \<in> set stack. fst f \<in> N"
    and "started toks \<subseteq> N"
  shows "(\<forall>k. tget raw' k \<noteq> None \<longrightarrow> k \<in> N) \<and> (\<forall>f \<in> set stack'. fst f \<in> N)"
  using assms
proof (induction toks arbitrary: stack raw)
  case (Cons t toks)
  obtain s1 r1 where 1: "parse_step (stack, raw) t = (s1, r1)" by fastforce
  have "started [t] \<subseteq> N" "started toks \<subseteq> N" using Cons.prems(4) by (auto simp: started_def)
  then show ?case
    using Cons.IH [of s1 r1] Cons.prems(1) parse_step_keys [OF 1 Cons.prems(2,3)] by (simp add: 1)
qed simp

lemma commit_all_keys:
  "\<forall>k. tget raw k \<noteq> None \<longrightarrow> k \<in> N \<Longrightarrow> \<forall>f \<in> set stack. fst f \<in> N \<Longrightarrow>
   tget (foldl (\<lambda>r f. commit_frame f r) raw stack) k \<noteq> None \<Longrightarrow> k \<in> N"
proof (induction stack arbitrary: raw)
  case (Cons f stack)
  have "k \<in> N" if "tget (commit_frame f raw) k \<noteq> None" for k
    using commit_keys [OF that] Cons.prems(1,2) by auto
  then have "\<forall>k. tget (commit_frame f raw) k \<noteq> None \<longrightarrow> k \<in> N" by blast
  then show ?case using Cons.IH [of "commit_frame f raw"] Cons.prems by simp
qed simp

lemma collect_raw_keys: "tget (collect_raw toks) k \<noteq> None \<Longrightarrow> k \<in> started toks"
proof -
  assume k: "tget (collect_raw toks) k \<noteq> None"
  obtain s r where f: "foldl parse_step ([], []) toks = (s, r)" by fastforce
  then show ?thesis
    using parse_keys [OF f, of "started toks"] commit_all_keys [of r "started toks" s k] k by (simp add: collect_raw_def f)
qed

subsection \<open>Query strings\<close>

text \<open>What the server reads back: \<open>url.QueryUnescape\<close>.\<close>

fun QueryUnescape :: "string \<Rightarrow> string option" where
  "QueryUnescape [] = Some []"
| "QueryUnescape (c # s) =
     (if c = CHR ''+'' then map_option (\<lambda>t. CHR 0x20 # t) (QueryUnescape s)
      else if c \<noteq> CHR ''%'' then map_option (\<lambda>t. c # t) (QueryUnescape s)
      else case s of
        a # b # r \<Rightarrow>
          (case hex_val a of None \<Rightarrow> None | Some h \<Rightarrow> (case hex_val b of None \<Rightarrow> None
             | Some l \<Rightarrow> map_option (\<lambda>t. char_of (16 * h + l) # t) (QueryUnescape r)))
      | _ \<Rightarrow> None)"

lemma hex_val_upper: "n < 16 \<Longrightarrow> hex_val (hex_upper n) = Some n"
  by (auto simp: hex_val_def hex_upper_def Let_def)

lemma query_plain_safe: "query_plain c \<Longrightarrow> c \<noteq> CHR ''+'' \<and> c \<noteq> CHR ''%'' \<and> c \<noteq> CHR ''&'' \<and> c \<noteq> CHR ''='' \<and> c \<noteq> CHR ''#''"
  by (auto simp: query_plain_def Let_def)

lemma hex_upper_safe: "n < 16 \<Longrightarrow> hex_upper n \<noteq> CHR ''&'' \<and> hex_upper n \<noteq> CHR ''='' \<and> hex_upper n \<noteq> CHR ''#''"
proof -
  assume "n < 16"
  then have "(of_char (hex_upper n) :: nat) = (if n < 10 then n + 48 else n + 55)" by (auto simp: hex_upper_def)
  then have "(of_char (hex_upper n) :: nat) \<noteq> of_char (CHR ''&'') \<and> (of_char (hex_upper n) :: nat) \<noteq> of_char (CHR ''='')
      \<and> (of_char (hex_upper n) :: nat) \<noteq> of_char (CHR ''#'')"
    using \<open>n < 16\<close> by (auto split: if_splits)
  then show ?thesis by metis
qed

lemma nibbles: "(of_char c :: nat) div 16 < 16" "(of_char c :: nat) mod 16 < 16"
  using of_char_less [of c] by (simp_all add: less_mult_imp_div_less)

lemma unescape_escape_byte: "QueryUnescape (escape_byte c @ s) = map_option (\<lambda>t. c # t) (QueryUnescape s)"
proof -
  show ?thesis
    using query_plain_safe [of c] nibbles [of c] by (auto simp: escape_byte_def hex_val_upper)
qed

lemma query_escape_roundtrip: "QueryUnescape (QueryEscape s) = Some s"
  by (induction s) (simp_all add: QueryEscape_def unescape_escape_byte)

lemma escape_byte_safe: "x \<in> set (escape_byte c) \<Longrightarrow> x \<noteq> CHR ''&'' \<and> x \<noteq> CHR ''='' \<and> x \<noteq> CHR ''#''"
proof -
  assume x: "x \<in> set (escape_byte c)"
  note hex = hex_upper_safe [OF nibbles(1), of c] hex_upper_safe [OF nibbles(2), of c]
  from hex x show ?thesis using query_plain_safe [of c] unfolding escape_byte_def by (auto split: if_splits)
qed

lemma QueryEscape_safe: "CHR ''&'' \<notin> set (QueryEscape s)" "CHR ''='' \<notin> set (QueryEscape s)" "CHR ''#'' \<notin> set (QueryEscape s)"
  using escape_byte_safe by (auto simp: QueryEscape_def)

lemma cut_at_append: "c \<notin> set a \<Longrightarrow> cut_at c (a @ c # b) = Some (a, b)"
  by (induction a) auto

subsection \<open>Addresses\<close>

definition plain_url_char :: "char \<Rightarrow> bool" where
  "plain_url_char c \<longleftrightarrow> (of_char c :: nat) < 127 \<and> 33 \<le> (of_char c :: nat)"

lemma plain_url_char_not:
  assumes "plain_url_char c"
  shows "\<not> ascii_space c" "\<not> space2 c b" "\<not> space3 c b d" "\<not> space2 b c" "\<not> space3 d b c"
proof -
  have n: "(of_char c :: nat) < 127" "33 \<le> (of_char c :: nat)" using assms by (simp_all add: plain_url_char_def)
  show "\<not> ascii_space c" using n(2) by (auto simp: ascii_space_def)
  show "\<not> space2 c b" "\<not> space2 b c" using n(1) by (auto simp: space2_def)
  show "\<not> space3 c b d" using n(1) by (auto simp: space3_def)
  show "\<not> space3 d b c" using n(1) by (auto simp: space3_def)
qed

lemma space_head_plain: "plain_url_char c \<Longrightarrow> space_head (c # s) = 0"
  by (cases s; cases "tl s") (simp_all add: plain_url_char_not)

lemma space_tail_plain: "plain_url_char c \<Longrightarrow> space_tail (c # s) = 0"
  by (cases s; cases "tl s") (simp_all add: plain_url_char_not)

lemma trim_space_plain: "s \<noteq> [] \<Longrightarrow> plain_url_char (hd s) \<Longrightarrow> plain_url_char (last s) \<Longrightarrow> trim_space s = s"
proof -
  assume s: "s \<noteq> []" "plain_url_char (hd s)" "plain_url_char (last s)"
  have "space_head s = 0" using s by (cases s) (simp_all add: space_head_plain)
  then have "trim_left s = s" by (simp add: trim_left.simps [of s])
  moreover obtain c r where r: "rev s = c # r" using s(1) by (cases "rev s") auto
  then have "last s = c" by (metis last_rev list.sel(1) rev_rev_ident hd_rev)
  then have "trim_tail (rev s) = rev s" using s(3) by (simp add: r trim_tail.simps [of "c # r"] space_tail_plain)
  ultimately show ?thesis by (simp add: trim_space_def)
qed

lemma itoa_port: "0 < p \<Longrightarrow> itoa p \<noteq> [] \<and> list_all is_digit (itoa p)"
  by (simp add: itoa_def nat_digits_digits nat_digits_not_Nil)

lemma is_digit_plain: "is_digit c \<Longrightarrow> plain_url_char c \<and> c \<noteq> CHR ''/''"
  by (auto simp: is_digit_def plain_url_char_def)

lemma last_port: "0 < p \<Longrightarrow> is_digit (last (itoa p))"
  using itoa_port [of p] by (metis last_in_set list_all_iff)

definition loopback_http :: "int \<Rightarrow> string" where
  "loopback_http p = ''http://127.0.0.1:'' @ itoa p"

definition loopback_https :: "int \<Rightarrow> string" where
  "loopback_https p = ''https://127.0.0.1:'' @ itoa p"

lemma loopback_plain:
  assumes "0 < p"
  shows "trim_space (loopback_http p) = loopback_http p" "trim_space (loopback_https p) = loopback_https p"
    "trim_right_char CHR ''/'' (loopback_http p) = loopback_http p" "trim_right_char CHR ''/'' (loopback_https p) = loopback_https p"
proof -
  have l: "last (loopback_http p) = last (itoa p)" "last (loopback_https p) = last (itoa p)"
    using itoa_port [OF assms] by (simp_all add: loopback_http_def loopback_https_def)
  have d: "plain_url_char (last (itoa p))" "last (itoa p) \<noteq> CHR ''/''" using is_digit_plain last_port [OF assms] by auto
  have h: "plain_url_char CHR ''h''" by (simp add: plain_url_char_def)
  have n: "loopback_http p \<noteq> []" "loopback_https p \<noteq> []" "hd (loopback_http p) = CHR ''h''" "hd (loopback_https p) = CHR ''h''"
    by (simp_all add: loopback_http_def loopback_https_def)
  have t: "trim_right_char c s = s" if "s \<noteq> []" "last s \<noteq> c" for c s
    using that by (cases s rule: rev_cases) (simp_all add: trim_right_char_def)
  show "trim_space (loopback_http p) = loopback_http p" "trim_space (loopback_https p) = loopback_https p"
    "trim_right_char CHR ''/'' (loopback_http p) = loopback_http p" "trim_right_char CHR ''/'' (loopback_https p) = loopback_https p"
    by (simp_all add: trim_space_plain t n l d h)
qed

lemma to_lower_append [simp]: "to_lower (a @ b) = to_lower a @ to_lower b"
  by (simp add: to_lower_def)

lemma loopback_schemes:
  "has_prefix (to_lower (loopback_http p)) ''http://''" "\<not> has_prefix (to_lower (loopback_http p)) ''https://''"
  "has_prefix (to_lower (loopback_https p)) ''https://''" "\<not> has_prefix (to_lower (loopback_https p)) ''http://''"
  by (simp_all add: loopback_http_def loopback_https_def to_lower_def lower_char_def)

lemma usable_port_range: "usable_port v = Some p \<Longrightarrow> 0 < p \<and> p < 65536"
  by (auto simp: usable_port_def split: option.splits if_splits)

lemma first_port_range: "0 < d \<and> d < 65536 \<Longrightarrow> 0 < first_port sec keys d \<and> first_port sec keys d < 65536"
proof (induction keys)
  case (Cons k ks)
  then show ?case
    using usable_port_range by (cases "Option.bind (tget sec k) usable_port") (auto simp: bind_eq_Some_conv)
qed simp

lemma DetectPort_range: "0 < DetectPort conf \<and> DetectPort conf < 65536"
  using first_port_range [of DefaultPort] by (simp add: DetectPort_def DefaultPort_def split: option.split del: first_port.simps)

lemma DetectSSLPort_range: "0 < DetectSSLPort conf \<and> DetectSSLPort conf < 65536"
  using first_port_range [of DefaultSSLPort] by (simp add: DetectSSLPort_def DefaultSSLPort_def split: option.split del: first_port.simps)

lemma DetectClient_loopback:
  "DetectClient conf = (NewClient (loopback_http (DetectPort conf)))\<lparr>cl_SSLPort := DetectSSLPort conf\<rparr>"
  unfolding DetectClient_def loopback_http_def by (rule refl)

lemma DetectClient_fields:
  "cl_BaseURL (DetectClient conf) = loopback_http (DetectPort conf)" "cl_SSLPort (DetectClient conf) = DetectSSLPort conf"
  "cl_HTTP (DetectClient conf) = Some \<lparr>hc_insecure = False, hc_timeout = AuthDefaultTimeout\<rparr>"
  using DetectPort_range [of conf] loopback_plain [of "DetectPort conf"] loopback_schemes(2) [of "DetectPort conf"]
  by (simp_all add: DetectClient_loopback NewClient_def Let_def NewHTTPClient_def)

lemma getFrom_fallback: "snd (getFrom tr c base q) = [] \<or> snd (getFrom tr c base q) = httpsFallback c base"
  by (simp add: getFrom_def Let_def split: http_reply.split body_read.split)

lemma DetectClient_fallback: "httpsFallback (DetectClient conf) (loopback_http p) = loopback_https (DetectSSLPort conf)"
  if "0 < p" for p
  using DetectSSLPort_range [of conf] that
  by (auto simp: httpsFallback_def loopback_plain loopback_schemes DetectClient_fields loopback_https_def)

lemma lower_scheme_neq: "\<not> equal_fold (loopback_https p) (loopback_http q)"
  by (simp add: equal_fold_def loopback_http_def loopback_https_def to_lower_def lower_char_def)

lemma DetectClient_conf:
  "0 < p \<Longrightarrow> \<not> hc_insecure (clientFor (DetectClient conf) (loopback_http p))"
  "0 < p \<Longrightarrow> hc_insecure (clientFor (DetectClient conf) (loopback_https p))"
  using DetectPort_range [of conf]
  by (simp_all add: clientFor_def DetectClient_fields loopback_plain lower_scheme_neq NewHTTPClient_def loopback_schemes)

subsection \<open>Properties\<close>

text \<open>
  C20: A session's name comes from the endpoint: what validation returns was passed by it, and the user is the
  one its answer names wherever it names one. Where it names nobody, a pair keeps the name it was validated
  for, and a bare session id is refused unless the experiment flag \<open>AllowSIDWithoutUsername\<close> is set,
  in which case, and only then, the name is the one the cookie claims. The name is a valid one, equal up
  to case to any name claimed, and the admin flag is the answer's.
\<close>

theorem identity_from_answer:
  assumes "validate tr v now cr = Inr s"
  shows "\<exists>c res. vc_Client v = Some c
    \<and> (if cd_Kind cr = KindQToken then cd_User cr \<noteq> [] \<and> ValidateQToken tr c (cd_User cr) (cd_Token cr) = Inr res
       else cd_Kind cr = KindSID \<and> ValidateSID tr c (cd_Token cr) = Inr res)
    \<and> q_AuthPassed res \<and> vs_Admin s = q_IsAdmin res \<and> ValidUser (vs_User s)
    \<and> vs_User s = (if trim_space (q_Username res) \<noteq> [] then trim_space (q_Username res) else cd_User cr)
    \<and> (if cd_Kind cr = KindSID \<and> trim_space (q_Username res) = [] then vc_AllowSIDWithoutUsername v else True)
    \<and> (if cd_User cr \<noteq> [] then equal_fold (vs_User s) (cd_User cr) else True)"
proof -
  obtain c where c: "vc_Client v = Some c" using assms by (auto simp: validate_def split: option.splits)
  have u: "cd_User cr = [] \<or> ValidUser (cd_User cr)"
    using assms by (auto simp: validate_def c split: if_splits)
  obtain res where r: "(if cd_Kind cr = KindQToken then cd_User cr \<noteq> [] \<and> ValidateQToken tr c (cd_User cr) (cd_Token cr) = Inr res
       else cd_Kind cr = KindSID \<and> ValidateSID tr c (cd_Token cr) = Inr res)"
    "q_AuthPassed res" "vs_Admin s = q_IsAdmin res" "bindUser cr res (vc_AllowSIDWithoutUsername v) = Inr (vs_User s)"
    using assms by (auto simp: validate_def c Let_def split: if_splits sum.splits)
  have kinds: "KindSID \<noteq> KindQToken" by (simp add: KindSID_def KindQToken_def)
  have "ValidUser (vs_User s)"
    "vs_User s = (if trim_space (q_Username res) \<noteq> [] then trim_space (q_Username res) else cd_User cr)"
    "if cd_Kind cr = KindSID \<and> trim_space (q_Username res) = [] then vc_AllowSIDWithoutUsername v else True"
    "if cd_User cr \<noteq> [] then equal_fold (vs_User s) (cd_User cr) else True"
    using r(1,4) u kinds by (auto simp: bindUser_def Let_def equal_fold_def split: if_splits)
  with c r show ?thesis by blast
qed

definition sample_answer :: "xml_token list" where
  "sample_answer = [XStart ''QDocRoot'', XStart ''authPassed'', XChars ''1'', XEnd, XStart ''username'', XChars ''ann'', XEnd, XEnd]"

definition sample_transport :: transport where
  "sample_transport = \<lparr>tr_url_ok = (\<lambda>u. True), tr_do = (\<lambda>h u. Reply 200 [] (Body [])), tr_scheme = (\<lambda>l. None),
     tr_decode = (\<lambda>b. sample_answer)\<rparr>"

definition sample_verifier :: verifier_conf where
  "sample_verifier = \<lparr>vc_Client = Some (NewClient ''http://127.0.0.1:8080''), vc_AllowSIDWithoutUsername = False,
     vc_RequireAdminSignal = False\<rparr>"

theorem identity_from_answer_witness:
  "validate sample_transport sample_verifier 5 \<lparr>cd_Kind = KindSID, cd_User = [], cd_Token = ''abc''\<rparr>
     = Inr \<lparr>vs_User = ''ann'', vs_Admin = None, vs_ValidatedAt = 5, vs_Kind = KindSID\<rparr>
   \<and> (\<exists>c res. ValidateSID sample_transport c ''abc'' = Inr res \<and> q_AuthPassed res)
   \<and> validate sample_transport sample_verifier 5 \<lparr>cd_Kind = KindSID, cd_User = ''admin'', cd_Token = ''abc''\<rparr>
     = Inl [ErrUserMismatch]"
proof -
  have v: "validate sample_transport sample_verifier 5 \<lparr>cd_Kind = KindSID, cd_User = [], cd_Token = ''abc''\<rparr>
     = Inr \<lparr>vs_User = ''ann'', vs_Admin = None, vs_ValidatedAt = 5, vs_Kind = KindSID\<rparr>" by code_simp
  moreover have "validate sample_transport sample_verifier 5 \<lparr>cd_Kind = KindSID, cd_User = ''admin'', cd_Token = ''abc''\<rparr>
     = Inl [ErrUserMismatch]" by code_simp
  ultimately show ?thesis
    using identity_from_answer [OF v] by (auto simp: KindSID_def KindQToken_def split: if_splits)
qed

text \<open>
  An answer that lacks an element never grants what the element would have said: without an authPassed
  element anywhere in the body nothing is passed, and without an isAdmin element nobody is an administrator.
\<close>

theorem absent_never_granted:
  assumes "parseResponse toks = Inr r"
  shows "(''authpassed'' \<notin> started toks \<longrightarrow> \<not> q_AuthPassed r)
    \<and> (''isadmin'' \<notin> started toks \<longrightarrow> q_IsAdmin r = None)
    \<and> (''username'' \<notin> started toks \<and> ''user'' \<notin> started toks \<longrightarrow> q_Username r = [])"
proof -
  have "tget (collect_raw toks) k = None" if "k \<notin> started toks" for k using collect_raw_keys that by blast
  then show ?thesis using assms by (auto simp: parseResponse_def Let_def raw_text_def split: if_splits)
qed

theorem absent_never_granted_witness:
  "\<exists>r. parseResponse sample_answer = Inr r \<and> q_IsAdmin r = None"
proof -
  have "case parseResponse sample_answer of Inr r \<Rightarrow> True | Inl _ \<Rightarrow> False" by code_simp
  then obtain r where r: "parseResponse sample_answer = Inr r" by (cases "parseResponse sample_answer") auto
  have "''isadmin'' \<notin> started sample_answer"
    by (auto simp: started_def sample_answer_def to_lower_def lower_char_def)
  with absent_never_granted [OF r] r show ?thesis by blast
qed

text \<open>
  The token and the user name stay in their own parameters: whatever bytes they hold, the query the
  client sends reads back as exactly these two parameters with these two values.
\<close>

theorem query_reads_back:
  "map (\<lambda>part. map_option (\<lambda>(k, v). (k, QueryUnescape v)) (cut_at CHR ''='' part)) (split_on CHR ''&'' (qtoken_query user qtoken))
   = [Some (''qtoken'', Some qtoken), Some (''user'', Some user)]"
proof -
  have s: "split_on CHR ''&'' (qtoken_query user qtoken) = [''qtoken='' @ QueryEscape qtoken, ''user='' @ QueryEscape user]"
    using split_on_append [of "CHR ''&''" "''qtoken='' @ QueryEscape qtoken" "''user='' @ QueryEscape user"]
      split_on_id [of "CHR ''&''" "''user='' @ QueryEscape user"]
    by (simp add: qtoken_query_def QueryEscape_safe)
  show ?thesis
    using cut_at_append [of "CHR ''=''" "''qtoken''" "QueryEscape qtoken"] cut_at_append [of "CHR ''=''" "''user''" "QueryEscape user"]
    by (simp add: s query_escape_roundtrip)
qed

text \<open>
  Validation never leaves the machine: whatever uLinux.conf says and whatever the endpoint answers, the
  client built from it asks at most two addresses, each on 127.0.0.1 at a port in range, the second only
  over https; a certificate goes unchecked only on an https loopback address.
\<close>

theorem calls_stay_on_loopback:
  "length (fst (client_get tr (DetectClient conf) query)) \<le> 2
   \<and> list_all (\<lambda>base. \<exists>p > 0. p < 65536
        \<and> (base = loopback_http p \<and> \<not> hc_insecure (clientFor (DetectClient conf) base)
           \<or> base = loopback_https p \<and> hc_insecure (clientFor (DetectClient conf) base)))
      (fst (client_get tr (DetectClient conf) query))"
proof -
  let ?b = "loopback_http (DetectPort conf)" and ?f = "loopback_https (DetectSSLPort conf)"
  have b: "trim_right_char CHR ''/'' (cl_BaseURL (DetectClient conf)) = ?b"
    using DetectPort_range [of conf] by (simp add: DetectClient_fields loopback_plain)
  have "fst (client_get tr (DetectClient conf) query) = [?b] \<or> fst (client_get tr (DetectClient conf) query) = [?b, ?f]
      \<or> fst (client_get tr (DetectClient conf) query) = []"
    using getFrom_fallback [of tr "DetectClient conf" ?b query] DetectClient_fallback [of "DetectPort conf" conf] DetectPort_range [of conf]
    by (auto simp: client_get_def Let_def b split: prod.split)
  then show ?thesis
    using DetectPort_range [of conf] DetectSSLPort_range [of conf] DetectClient_conf by auto
qed

end
