(* ===== verification/Verifier.thy ===== *)
theory Verifier
  imports Qtsauth
begin

section \<open>The cached, single-flight verifier (internal/qtsauth/verifier.go)\<close>

text \<open>
  Every call of \<open>Verify\<close> is a thread with a program counter; each region under the mutex and each channel
  operation is one atomic step, and the steps of the calls interleave freely with invalidations. A
  context that ends is an input of the step that looks at it. The answer of the endpoint is the argument of
  the step that publishes it. The insert counter is a natural number: its wrap at 2 ^ 64 is
  a multiple of the pruning interval. The log is a ghost: what was published and invalidated, the latest first.
\<close>

definition DefaultPositiveTTL :: time where "DefaultPositiveTTL = 60 * 10 ^ 9"
definition DefaultNegativeTTL :: time where "DefaultNegativeTTL = 10 * 10 ^ 9"
definition DefaultMaxCacheEntries :: nat where "DefaultMaxCacheEntries = 4096"
definition DefaultMaxConcurrentValidations :: nat where "DefaultMaxConcurrentValidations = 8"
definition DefaultMaxValidationWaiters :: nat where "DefaultMaxValidationWaiters = 64"
definition cachePruneInterval :: nat where "cachePruneInterval = 64"

type_synonym vanswer = "auth_error + vsession"

record vsettings =
  vx_PositiveTTL :: time
  vx_NegativeTTL :: time
  vx_MaxCacheEntries :: int
  vx_MaxConcurrent :: int
  vx_MaxWaiters :: int

definition positiveTTL :: "vsettings \<Rightarrow> time" where
  "positiveTTL x = (if vx_PositiveTTL x > 0 then vx_PositiveTTL x else DefaultPositiveTTL)"

definition negativeTTL :: "vsettings \<Rightarrow> time" where
  "negativeTTL x = (if vx_NegativeTTL x > 0 then vx_NegativeTTL x else DefaultNegativeTTL)"

definition maxEntries :: "vsettings \<Rightarrow> nat" where
  "maxEntries x = (if vx_MaxCacheEntries x \<le> 0 then DefaultMaxCacheEntries else nat (vx_MaxCacheEntries x))"

definition maxConcurrent :: "vsettings \<Rightarrow> nat" where
  "maxConcurrent x = (if vx_MaxConcurrent x \<le> 0 then DefaultMaxConcurrentValidations else nat (vx_MaxConcurrent x))"

definition maxWaiters :: "vsettings \<Rightarrow> nat" where
  "maxWaiters x = (if vx_MaxWaiters x \<le> 0 then DefaultMaxValidationWaiters else nat (vx_MaxWaiters x))"

record ventry =
  ve_answer :: vanswer
  ve_expires :: time

text \<open>
  Where a call is: at the top of its loop (with a slot or without), waiting for a slot, granted one but still
  counted as a waiter, following another call's flight, leading its own, done with the mutex after
  publishing, its flight closed, returned.
\<close>

datatype vpc =
    Looping bool | SlotWait | Granted | Following nat | Flying | Published vanswer | FlightClosed vanswer | Answered vanswer

record vcall =
  ca_key :: string
  ca_pc :: vpc

text \<open>The flag of a publication: whether it was cached.\<close>

datatype vlogged = LPublished string vanswer time bool | LInvalidated string | LInvalidatedAll

record vstate =
  vf_cache :: "(string, ventry) table"
  vf_order :: "string list"
  vf_inserts :: nat
  vf_inflight :: "(string, nat) table"
  vf_used :: nat
  vf_waiters :: nat
  vf_calls :: "vcall list"
  vf_log :: "vlogged list"

definition NewVerifier :: vstate where
  "NewVerifier = \<lparr>vf_cache = [], vf_order = [], vf_inserts = 0, vf_inflight = [], vf_used = 0, vf_waiters = 0, vf_calls = [], vf_log = []\<rparr>"

definition call_at :: "vstate \<Rightarrow> nat \<Rightarrow> vpc" where
  "call_at v i = ca_pc (vf_calls v ! i)"

definition move_call :: "nat \<Rightarrow> vpc \<Rightarrow> vstate \<Rightarrow> vstate" where
  "move_call i pc v = v\<lparr>vf_calls := (vf_calls v)[i := (vf_calls v ! i)\<lparr>ca_pc := pc\<rparr>]\<rparr>"

definition removeCached :: "string \<Rightarrow> vstate \<Rightarrow> vstate" where
  "removeCached key v =
     (if tget (vf_cache v) key = None then v
      else v\<lparr>vf_cache := tdel key (vf_cache v), vf_order := remove1 key (vf_order v)\<rparr>)"

text \<open>The deferred release of a slot.\<close>

definition release_slot :: "bool \<Rightarrow> vstate \<Rightarrow> vstate" where
  "release_slot acquired v = (if acquired then v\<lparr>vf_used := vf_used v - 1\<rparr> else v)"

text \<open>Under the mutex: the fast paths, joining a flight, taking a slot, or becoming the leader.\<close>

definition verify_loop :: "vsettings \<Rightarrow> time \<Rightarrow> nat \<Rightarrow> bool \<Rightarrow> vstate \<Rightarrow> vstate" where
  "verify_loop x now i acquired v =
     (let key = ca_key (vf_calls v ! i);
          lead = move_call i Flying (v\<lparr>vf_inflight := tput key i (vf_inflight v)\<rparr>);
          slot = (if acquired then lead
                  else if vf_used v < maxConcurrent x then move_call i (Looping True) (v\<lparr>vf_used := Suc (vf_used v)\<rparr>)
                  else if vf_waiters v \<ge> maxWaiters x then move_call i (Answered (Inl [ErrOverloaded])) v
                  else move_call i SlotWait (v\<lparr>vf_waiters := Suc (vf_waiters v)\<rparr>));
          flight = (case tget (vf_inflight v) key of
              None \<Rightarrow> slot
            | Some f \<Rightarrow>
                if vf_waiters v \<ge> maxWaiters x then move_call i (Answered (Inl [ErrOverloaded])) (release_slot acquired v)
                else move_call i (Following f) ((release_slot acquired v)\<lparr>vf_waiters := Suc (vf_waiters v)\<rparr>))
      in case tget (vf_cache v) key of
           None \<Rightarrow> flight
         | Some e \<Rightarrow> if now < ve_expires e then move_call i (Answered (ve_answer e)) (release_slot acquired v) else flight)"

text \<open>
  The sweep every 64th insertion, and the eviction of the oldest insertions. The code would not return from
  an eviction with an exhausted order or a key without an entry; \<open>cache_ok\<close> below excludes both.
\<close>

definition prune_cache :: "time \<Rightarrow> vstate \<Rightarrow> vstate" where
  "prune_cache now v =
     foldl (\<lambda>v key. case tget (vf_cache v) key of
         None \<Rightarrow> v | Some e \<Rightarrow> if now < ve_expires e then v else removeCached key v) v (map fst (vf_cache v))"

function evict_cache :: "nat \<Rightarrow> vstate \<Rightarrow> vstate" where
  "evict_cache n v =
     (if tlen (vf_cache v) \<le> n then v
      else case vf_order v of [] \<Rightarrow> v
        | key # ks \<Rightarrow> if tget (vf_cache v) key = None then v else evict_cache n (removeCached key v))"
  by pat_completeness auto
termination
  by (relation "measure (\<lambda>(n, v). tlen (vf_cache v))") (auto simp: removeCached_def intro: tlen_tdel_present)

declare evict_cache.simps [simp del]

definition final_answer :: "vanswer \<Rightarrow> auth_error option \<Rightarrow> vanswer" where
  "final_answer ans done = (case done of Some e \<Rightarrow> Inl e | None \<Rightarrow> ans)"

definition answer_ttl :: "vsettings \<Rightarrow> vanswer \<Rightarrow> time" where
  "answer_ttl x ans = (case ans of Inl _ \<Rightarrow> negativeTTL x | Inr _ \<Rightarrow> positiveTTL x)"

text \<open>The leader's second region: the cache, the flight, the log.\<close>

definition store_answer :: "vsettings \<Rightarrow> time \<Rightarrow> string \<Rightarrow> vanswer \<Rightarrow> vstate \<Rightarrow> vstate" where
  "store_answer x now key ans v =
     (let v1 = removeCached key v
      in v1\<lparr>vf_cache := tput key \<lparr>ve_answer = ans, ve_expires = now + answer_ttl x ans\<rparr> (vf_cache v1),
            vf_order := vf_order v1 @ [key]\<rparr>)"

definition publish_answer :: "vsettings \<Rightarrow> time \<Rightarrow> nat \<Rightarrow> vanswer \<Rightarrow> bool \<Rightarrow> vstate \<Rightarrow> vstate" where
  \<comment> \<open>\<open>live\<close>: the context is not done when the region looks at it\<close>
  "publish_answer x now i ans live v =
     (let key = ca_key (vf_calls v ! i);
          v1 = v\<lparr>vf_inserts := Suc (vf_inserts v)\<rparr>;
          v2 = (if vf_inserts v1 mod cachePruneInterval = 0 then prune_cache now v1 else v1);
          v3 = (if live then store_answer x now key ans v2 else v2);
          v4 = evict_cache (maxEntries x) (v3\<lparr>vf_log := LPublished key ans now live # vf_log v3\<rparr>)
      in move_call i (Published ans) (v4\<lparr>vf_inflight := tdel key (vf_inflight v4)\<rparr>))"

definition InvalidateKey :: "string \<Rightarrow> vstate \<Rightarrow> vstate" where
  "InvalidateKey key v = (removeCached key v)\<lparr>vf_log := LInvalidated key # vf_log v\<rparr>"

definition InvalidateAll :: "vstate \<Rightarrow> vstate" where
  "InvalidateAll v = v\<lparr>vf_cache := [], vf_order := [], vf_log := LInvalidatedAll # vf_log v\<rparr>"

datatype vevent =
    Calls string
  | Turns nat time
  | Grabs nat
  | Unwaits nat
  | Publishes nat time vanswer "auth_error option" bool
  | Closes nat
  | Returns nat
  | Joins nat
  | GivesUp nat auth_error
  | Invalidates string
  | InvalidatesAll

definition flight_done :: "vpc \<Rightarrow> vanswer option" where
  "flight_done pc = (case pc of FlightClosed a \<Rightarrow> Some a | Answered a \<Rightarrow> Some a | _ \<Rightarrow> None)"

text \<open>One step; an event that is not enabled changes nothing.\<close>

definition vstep :: "vsettings \<Rightarrow> vstate \<Rightarrow> vevent \<Rightarrow> vstate" where
  "vstep x v ev =
     (let n = length (vf_calls v)
      in case ev of
        Calls key \<Rightarrow> v\<lparr>vf_calls := vf_calls v @ [\<lparr>ca_key = key, ca_pc = Looping False\<rparr>]\<rparr>
      | Turns i now \<Rightarrow> if i < n then (case call_at v i of Looping a \<Rightarrow> verify_loop x now i a v | _ \<Rightarrow> v) else v
      | Grabs i \<Rightarrow>
          if i < n \<and> call_at v i = SlotWait \<and> vf_used v < maxConcurrent x
          then move_call i Granted (v\<lparr>vf_used := Suc (vf_used v)\<rparr>) else v
      | Unwaits i \<Rightarrow>
          if i < n \<and> call_at v i = Granted then move_call i (Looping True) (v\<lparr>vf_waiters := vf_waiters v - 1\<rparr>) else v
      | Publishes i now ans done live \<Rightarrow>
          if i < n \<and> call_at v i = Flying \<and> (done \<noteq> None \<longrightarrow> \<not> live) then publish_answer x now i (final_answer ans done) live v else v
      | Closes i \<Rightarrow> if i < n then (case call_at v i of Published a \<Rightarrow> move_call i (FlightClosed a) v | _ \<Rightarrow> v) else v
      | Returns i \<Rightarrow>
          if i < n then (case call_at v i of FlightClosed a \<Rightarrow> move_call i (Answered a) (v\<lparr>vf_used := vf_used v - 1\<rparr>) | _ \<Rightarrow> v) else v
      | Joins i \<Rightarrow>
          if i < n then (case call_at v i of
              Following f \<Rightarrow> (case flight_done (call_at v f) of
                  Some a \<Rightarrow> move_call i (Answered a) (v\<lparr>vf_waiters := vf_waiters v - 1\<rparr>) | None \<Rightarrow> v)
            | _ \<Rightarrow> v) else v
      | GivesUp i e \<Rightarrow>
          if i < n then (case call_at v i of
              Following f \<Rightarrow> move_call i (Answered (Inl e)) (v\<lparr>vf_waiters := vf_waiters v - 1\<rparr>)
            | SlotWait \<Rightarrow> move_call i (Answered (Inl e)) (v\<lparr>vf_waiters := vf_waiters v - 1\<rparr>)
            | _ \<Rightarrow> v) else v
      | Invalidates key \<Rightarrow> InvalidateKey key v
      | InvalidatesAll \<Rightarrow> InvalidateAll v)"

subsection \<open>The cache\<close>

definition cache_ok :: "vstate \<Rightarrow> bool" where
  "cache_ok v \<longleftrightarrow> table_ok (vf_cache v) \<and> distinct (vf_order v) \<and> (\<forall>key. key \<in> set (vf_order v) \<longleftrightarrow> tget (vf_cache v) key \<noteq> None)"

text \<open>What the log says the cache may hold: the latest cached publication, unless it was invalidated since.\<close>

fun latest :: "vlogged list \<Rightarrow> string \<Rightarrow> (vanswer \<times> time) option" where
  "latest [] key = None"
| "latest (LPublished k a t c # l) key = (if k = key \<and> c then Some (a, t) else latest l key)"
| "latest (LInvalidated k # l) key = (if k = key then None else latest l key)"
| "latest (LInvalidatedAll # l) key = None"

definition cache_logged :: "vsettings \<Rightarrow> vstate \<Rightarrow> bool" where
  "cache_logged x v \<longleftrightarrow> (\<forall>key e. tget (vf_cache v) key = Some e \<longrightarrow>
     (\<exists>t. latest (vf_log v) key = Some (ve_answer e, t) \<and> ve_expires e = t + answer_ttl x (ve_answer e)))"

lemma removeCached_frame [simp]:
  "vf_calls (removeCached key v) = vf_calls v" "vf_used (removeCached key v) = vf_used v"
  "vf_waiters (removeCached key v) = vf_waiters v" "vf_inflight (removeCached key v) = vf_inflight v"
  "vf_log (removeCached key v) = vf_log v" "vf_inserts (removeCached key v) = vf_inserts v"
  by (simp_all add: removeCached_def)

lemma removeCached_get [simp]: "tget (vf_cache (removeCached key v)) k = (if k = key then None else tget (vf_cache v) k)"
  by (simp add: removeCached_def)

lemma removeCached_ok: "cache_ok v \<Longrightarrow> cache_ok (removeCached key v)"
  by (auto simp: cache_ok_def removeCached_def set_remove1_eq)

lemma removeCached_len: "tlen (vf_cache (removeCached key v)) \<le> tlen (vf_cache v)"
  by (simp add: removeCached_def tlen_tdel_le)

text \<open>A cache that only lost entries is still what the log says.\<close>

definition shrunk :: "vstate \<Rightarrow> vstate \<Rightarrow> bool" where
  "shrunk v' v \<longleftrightarrow> vf_calls v' = vf_calls v \<and> vf_used v' = vf_used v \<and> vf_waiters v' = vf_waiters v
     \<and> vf_inflight v' = vf_inflight v \<and> vf_log v' = vf_log v \<and> (cache_ok v \<longrightarrow> cache_ok v')
     \<and> (\<forall>k e. tget (vf_cache v') k = Some e \<longrightarrow> tget (vf_cache v) k = Some e) \<and> tlen (vf_cache v') \<le> tlen (vf_cache v)"

lemma shrunk_refl: "shrunk v v"
  by (simp add: shrunk_def)

lemma shrunk_trans: "shrunk a b \<Longrightarrow> shrunk b c \<Longrightarrow> shrunk a c"
  by (auto simp: shrunk_def)

lemma shrunk_remove: "shrunk (removeCached key v) v"
  by (simp add: shrunk_def removeCached_ok removeCached_len split: if_splits)

lemma shrunk_prune: "shrunk (prune_cache now v) v"
proof -
  have "shrunk (foldl (\<lambda>v key. case tget (vf_cache v) key of
         None \<Rightarrow> v | Some e \<Rightarrow> if now < ve_expires e then v else removeCached key v) w ks) w" for w ks
  proof (induction ks arbitrary: w)
    case (Cons k ks)
    have "shrunk (case tget (vf_cache w) k of None \<Rightarrow> w | Some e \<Rightarrow> if now < ve_expires e then w else removeCached k w) w"
      by (simp add: shrunk_refl shrunk_remove split: option.split)
    then show ?case using Cons.IH shrunk_trans by (simp, blast)
  qed (simp add: shrunk_refl)
  then show ?thesis by (simp add: prune_cache_def)
qed

lemma shrunk_evict: "shrunk (evict_cache n v) v"
proof (induction n v rule: evict_cache.induct)
  case (1 n v)
  show ?case
  proof (cases "tlen (vf_cache v) \<le> n")
    case False
    show ?thesis
    proof (cases "vf_order v")
      case (Cons key ks)
      show ?thesis
      proof (cases "tget (vf_cache v) key")
        case (Some e)
        then show ?thesis
          using 1 [OF False Cons] shrunk_trans [OF _ shrunk_remove] False Cons
          by (simp add: evict_cache.simps [of n v])
      qed (simp add: evict_cache.simps [of n v] False Cons shrunk_refl)
    qed (simp add: evict_cache.simps [of n v] False shrunk_refl)
  qed (simp add: evict_cache.simps [of n v] shrunk_refl)
qed

lemma order_Nil: "cache_ok v \<Longrightarrow> vf_order v = [] \<Longrightarrow> vf_cache v = []"
  by (cases "vf_cache v") (auto simp: cache_ok_def tget_def split: if_splits)

text \<open>The eviction loop ends with the cache within its bound.\<close>

lemma evict_bound: "cache_ok v \<Longrightarrow> tlen (vf_cache (evict_cache n v)) \<le> n"
proof (induction n v rule: evict_cache.induct)
  case (1 n v)
  show ?case
  proof (cases "tlen (vf_cache v) \<le> n")
    case False
    then have "vf_order v \<noteq> []" using order_Nil [OF 1(2)] by (auto simp: tlen_def)
    then obtain key ks where o: "vf_order v = key # ks" by (cases "vf_order v") auto
    then have k: "tget (vf_cache v) key \<noteq> None" using 1(2) unfolding cache_ok_def by (metis list.set_intros(1))
    then have "tlen (vf_cache (evict_cache n (removeCached key v))) \<le> n"
      by (intro 1(1) [OF False o _ removeCached_ok [OF 1(2)]]) simp
    then show ?thesis using False o k by (auto simp: evict_cache.simps [of n v])
  qed (simp add: evict_cache.simps [of n v])
qed

lemma store_ok: "cache_ok v \<Longrightarrow> cache_ok (store_answer x now key ans v)"
proof -
  assume v: "cache_ok v"
  let ?w = "removeCached key v"
  have w: "cache_ok ?w" "tget (vf_cache ?w) key = None" using removeCached_ok [OF v] by simp_all
  then have "key \<notin> set (vf_order ?w)" by (auto simp: cache_ok_def)
  with w show ?thesis by (auto simp: cache_ok_def store_answer_def Let_def)
qed

lemma store_frame [simp]:
  "vf_calls (store_answer x now key ans v) = vf_calls v" "vf_used (store_answer x now key ans v) = vf_used v"
  "vf_waiters (store_answer x now key ans v) = vf_waiters v" "vf_inflight (store_answer x now key ans v) = vf_inflight v"
  "vf_log (store_answer x now key ans v) = vf_log v"
  by (simp_all add: store_answer_def Let_def)

lemma store_get: "tget (vf_cache (store_answer x now key ans v)) k =
    (if k = key then Some \<lparr>ve_answer = ans, ve_expires = now + answer_ttl x ans\<rparr> else tget (vf_cache v) k)"
  by (simp add: store_answer_def Let_def)

lemma logged_shrunk: "cache_logged x v \<Longrightarrow> shrunk v' v \<Longrightarrow> cache_logged x v'"
  by (auto simp: cache_logged_def shrunk_def)

subsection \<open>Slots, waiters and flights\<close>

definition holds_slot :: "vpc \<Rightarrow> bool" where
  "holds_slot pc = (case pc of Looping a \<Rightarrow> a | Granted \<Rightarrow> True | Flying \<Rightarrow> True | Published _ \<Rightarrow> True | FlightClosed _ \<Rightarrow> True | _ \<Rightarrow> False)"

definition is_waiter :: "vpc \<Rightarrow> bool" where
  "is_waiter pc = (case pc of SlotWait \<Rightarrow> True | Granted \<Rightarrow> True | Following _ \<Rightarrow> True | _ \<Rightarrow> False)"

definition has_led :: "vpc \<Rightarrow> bool" where
  "has_led pc = (case pc of Flying \<Rightarrow> True | Published _ \<Rightarrow> True | FlightClosed _ \<Rightarrow> True | Answered _ \<Rightarrow> True | _ \<Rightarrow> False)"

definition slots_ok :: "vsettings \<Rightarrow> vstate \<Rightarrow> bool" where
  "slots_ok x v \<longleftrightarrow> length (filter (\<lambda>c. holds_slot (ca_pc c)) (vf_calls v)) = vf_used v \<and> vf_used v \<le> maxConcurrent x
     \<and> length (filter (\<lambda>c. is_waiter (ca_pc c)) (vf_calls v)) = vf_waiters v \<and> vf_waiters v \<le> maxWaiters x"

definition flights_ok :: "vstate \<Rightarrow> bool" where
  "flights_ok v \<longleftrightarrow>
     (\<forall>i < length (vf_calls v). \<forall>key. (tget (vf_inflight v) key = Some i) = (key = ca_key (vf_calls v ! i) \<and> call_at v i = Flying))
   \<and> (\<forall>key i. tget (vf_inflight v) key = Some i \<longrightarrow> i < length (vf_calls v))
   \<and> (\<forall>i < length (vf_calls v). \<forall>f. call_at v i = Following f \<longrightarrow>
        f < length (vf_calls v) \<and> ca_key (vf_calls v ! f) = ca_key (vf_calls v ! i) \<and> has_led (call_at v f))"

text \<open>What an answer given out rests on: a publication for the same credential.\<close>

definition grounded :: "vlogged list \<Rightarrow> string \<Rightarrow> vanswer \<Rightarrow> bool" where
  "grounded log key a = (case a of Inl _ \<Rightarrow> True | Inr s \<Rightarrow> \<exists>t c. LPublished key a t c \<in> set log)"

definition given :: "vpc \<Rightarrow> vanswer option" where
  "given pc = (case pc of Published a \<Rightarrow> Some a | FlightClosed a \<Rightarrow> Some a | Answered a \<Rightarrow> Some a | _ \<Rightarrow> None)"

definition answers_ok :: "vstate \<Rightarrow> bool" where
  "answers_ok v \<longleftrightarrow> (\<forall>i < length (vf_calls v). \<forall>a. given (call_at v i) = Some a \<longrightarrow> grounded (vf_log v) (ca_key (vf_calls v ! i)) a)"

definition vinv :: "vsettings \<Rightarrow> vstate \<Rightarrow> bool" where
  "vinv x v \<longleftrightarrow> cache_ok v \<and> tlen (vf_cache v) \<le> maxEntries x \<and> cache_logged x v \<and> slots_ok x v \<and> flights_ok v \<and> answers_ok v"

lemma move_frame [simp]:
  "vf_cache (move_call i pc v) = vf_cache v" "vf_order (move_call i pc v) = vf_order v" "vf_used (move_call i pc v) = vf_used v"
  "vf_waiters (move_call i pc v) = vf_waiters v" "vf_inflight (move_call i pc v) = vf_inflight v" "vf_log (move_call i pc v) = vf_log v"
  "length (vf_calls (move_call i pc v)) = length (vf_calls v)"
  by (simp_all add: move_call_def)

lemma move_key [simp]: "j < length (vf_calls v) \<Longrightarrow> ca_key (vf_calls (move_call i pc v) ! j) = ca_key (vf_calls v ! j)"
  by (cases "i = j") (simp_all add: move_call_def)

lemma move_at: "j < length (vf_calls v) \<Longrightarrow> call_at (move_call i pc v) j = (if j = i then pc else call_at v j)"
  by (simp add: move_call_def call_at_def)

text \<open>One call moves: the counters follow it.\<close>

lemma move_slots:
  assumes "slots_ok x v" "i < length (vf_calls v)" "vf_calls w = vf_calls v"
    and "vf_used w + of_bool (holds_slot (call_at v i)) = vf_used v + of_bool (holds_slot pc)" "vf_used w \<le> maxConcurrent x"
    and "vf_waiters w + of_bool (is_waiter (call_at v i)) = vf_waiters v + of_bool (is_waiter pc)" "vf_waiters w \<le> maxWaiters x"
  shows "slots_ok x (move_call i pc w)"
  using filter_length_update [OF assms(2), of "\<lambda>c. holds_slot (ca_pc c)" "(vf_calls v ! i)\<lparr>ca_pc := pc\<rparr>"]
    filter_length_update [OF assms(2), of "\<lambda>c. is_waiter (ca_pc c)" "(vf_calls v ! i)\<lparr>ca_pc := pc\<rparr>"] assms
  by (simp add: slots_ok_def move_call_def call_at_def)

text \<open>The flights follow it: a call takes off, lands, or is not concerned.\<close>

lemma move_flights:
  assumes "flights_ok v" "i < length (vf_calls v)" "vf_calls w = vf_calls v"
    and "has_led (call_at v i) \<Longrightarrow> has_led pc"
    and "\<And>f. pc = Following f \<Longrightarrow> f < length (vf_calls v) \<and> f \<noteq> i \<and> ca_key (vf_calls v ! f) = ca_key (vf_calls v ! i) \<and> has_led (call_at v f)"
    and "if pc = Flying then call_at v i \<noteq> Flying \<and> tget (vf_inflight v) (ca_key (vf_calls v ! i)) = None
           \<and> vf_inflight w = tput (ca_key (vf_calls v ! i)) i (vf_inflight v)
         else if call_at v i = Flying then vf_inflight w = tdel (ca_key (vf_calls v ! i)) (vf_inflight v)
         else vf_inflight w = vf_inflight v"
  shows "flights_ok (move_call i pc w)"
proof -
  have at: "call_at (move_call i pc w) j = (if j = i then pc else call_at v j)" if "j < length (vf_calls v)" for j
    using that by (simp add: move_at assms(3)) (simp add: call_at_def assms(3))
  have key: "ca_key (vf_calls (move_call i pc w) ! j) = ca_key (vf_calls v ! j)" if "j < length (vf_calls v)" for j
    using that by (simp add: assms(3))
  have fl: "(tget (vf_inflight v) k = Some j) = (k = ca_key (vf_calls v ! j) \<and> call_at v j = Flying)" if "j < length (vf_calls v)" for j k
    using assms(1) that unfolding flights_ok_def by blast
  have bd: "tget (vf_inflight v) k = Some j \<Longrightarrow> j < length (vf_calls v)" for j k
    using assms(1) unfolding flights_ok_def by blast
  have fo: "f < length (vf_calls v) \<and> ca_key (vf_calls v ! f) = ca_key (vf_calls v ! j) \<and> has_led (call_at v f)"
    if "j < length (vf_calls v)" "call_at v j = Following f" for j f
    using assms(1) that unfolding flights_ok_def by blast
  have 1: "(tget (vf_inflight w) k = Some j) = (k = ca_key (vf_calls v ! j) \<and> (if j = i then pc else call_at v j) = Flying)"
    if j: "j < length (vf_calls v)" for j k
  proof (cases "pc = Flying")
    case True
    then show ?thesis using assms(6) fl [OF j, of k] by (auto split: if_splits)
  next
    case False
    show ?thesis
    proof (cases "call_at v i = Flying")
      case True
      then have "tget (vf_inflight v) (ca_key (vf_calls v ! i)) = Some i" using fl [OF assms(2)] by simp
      then show ?thesis using assms(6) fl [OF j, of k] False True by (auto split: if_splits)
    next
      case still: False
      then show ?thesis using assms(6) fl [OF j, of k] False by auto
    qed
  qed
  have 2: "j < length (vf_calls v)" if "tget (vf_inflight w) k = Some j" for j k
    using assms(2,6) bd [of k j] that by (auto split: if_splits)
  have 3: "f < length (vf_calls v) \<and> ca_key (vf_calls v ! f) = ca_key (vf_calls v ! j) \<and> has_led (if f = i then pc else call_at v f)"
    if "j < length (vf_calls v)" "(if j = i then pc else call_at v j) = Following f" for j f
    using fo [of j f] assms(4,5) that by (cases "j = i") auto
  have len: "length (vf_calls (move_call i pc w)) = length (vf_calls v)" by (simp add: assms(3))
  show ?thesis
    unfolding flights_ok_def move_frame(5) len
  proof (intro conjI allI impI)
    fix j k assume "j < length (vf_calls v)"
    then show "(tget (vf_inflight w) k = Some j) = (k = ca_key (vf_calls (move_call i pc w) ! j) \<and> call_at (move_call i pc w) j = Flying)"
      using 1 at key by presburger
  next
    fix k j assume "tget (vf_inflight w) k = Some j" then show "j < length (vf_calls v)" by (rule 2)
  next
    fix j f assume j: "j < length (vf_calls v)" "call_at (move_call i pc w) j = Following f"
    from 3 [of j f] j at [of j] have c: "f < length (vf_calls v)" "ca_key (vf_calls v ! f) = ca_key (vf_calls v ! j)"
      "has_led (if f = i then pc else call_at v f)" by auto
    from c(1) show "f < length (vf_calls v)" .
    from c(2) show "ca_key (vf_calls (move_call i pc w) ! f) = ca_key (vf_calls (move_call i pc w) ! j)" by (simp only: key c(1) j(1))
    from c(3) show "has_led (call_at (move_call i pc w) f)" by (simp only: at c(1))
  qed
qed

lemma grounded_mono: "grounded log key a \<Longrightarrow> grounded (l # log) key a"
  by (auto simp: grounded_def split: sum.splits)

lemma move_answers:
  assumes "answers_ok v" "i < length (vf_calls v)" "vf_calls w = vf_calls v" "set (vf_log v) \<subseteq> set (vf_log w)"
    and "\<And>a. given pc = Some a \<Longrightarrow> grounded (vf_log w) (ca_key (vf_calls v ! i)) a"
  shows "answers_ok (move_call i pc w)"
proof -
  have "grounded (vf_log w) k a" if "grounded (vf_log v) k a" for k a
    using that assms(4) by (auto simp: grounded_def split: sum.splits)
  moreover have "call_at w j = call_at v j" for j by (simp add: call_at_def assms(3))
  ultimately show ?thesis using assms by (auto simp: answers_ok_def move_at split: if_splits)
qed

subsection \<open>Every step keeps the invariant\<close>

lemma vinv_parts:
  assumes "vinv x v"
  shows "cache_ok v" "tlen (vf_cache v) \<le> maxEntries x" "cache_logged x v" "slots_ok x v" "flights_ok v" "answers_ok v"
  using assms by (simp_all add: vinv_def)

lemma filter_pos: "i < length xs \<Longrightarrow> P (xs ! i) \<Longrightarrow> 0 < length (filter P xs)"
  by (metis filter_empty_conv length_greater_0_conv nth_mem)

lemma slot_held:
  assumes "slots_ok x v" "i < length (vf_calls v)"
  shows "holds_slot (call_at v i) \<Longrightarrow> 0 < vf_used v" "is_waiter (call_at v i) \<Longrightarrow> 0 < vf_waiters v"
  using assms filter_pos [OF assms(2), of "\<lambda>c. holds_slot (ca_pc c)"] filter_pos [OF assms(2), of "\<lambda>c. is_waiter (ca_pc c)"]
  by (simp_all add: slots_ok_def call_at_def)

lemma move_vinv:
  assumes "vinv x v" "i < length (vf_calls v)" "vf_calls w = vf_calls v" "vf_cache w = vf_cache v" "vf_order w = vf_order v"
    and "vf_log w = vf_log v" "slots_ok x (move_call i pc w)" "flights_ok (move_call i pc w)"
    and "\<And>a. given pc = Some a \<Longrightarrow> grounded (vf_log w) (ca_key (vf_calls v ! i)) a"
  shows "vinv x (move_call i pc w)"
proof -
  have "answers_ok (move_call i pc w)"
    by (rule move_answers [OF vinv_parts(6) [OF assms(1)] assms(2,3)]) (use assms(6,9) in auto)
  then show ?thesis
    using vinv_parts [OF assms(1)] assms(4-8) by (simp add: vinv_def cache_ok_def cache_logged_def)
qed

text \<open>A logged answer is grounded.\<close>

lemma latest_grounded: "latest log key = Some (a, t) \<Longrightarrow> grounded log key a"
proof (induction log key rule: latest.induct)
  case (2 k a' t' c l key)
  then show ?case by (auto split: if_splits simp: grounded_mono) (auto simp: grounded_def split: sum.splits)
qed (auto split: if_splits simp: grounded_mono)

lemma hit_grounded: "vinv x v \<Longrightarrow> tget (vf_cache v) key = Some e \<Longrightarrow> grounded (vf_log v) key (ve_answer e)"
  using vinv_parts(3) [of x v] latest_grounded by (fastforce simp: cache_logged_def)

lemma grounded_Inl [simp]: "grounded log key (Inl e)"
  by (simp add: grounded_def)

lemma release_frame [simp]:
  "vf_calls (release_slot a v) = vf_calls v" "vf_cache (release_slot a v) = vf_cache v" "vf_order (release_slot a v) = vf_order v"
  "vf_log (release_slot a v) = vf_log v" "vf_inflight (release_slot a v) = vf_inflight v" "vf_waiters (release_slot a v) = vf_waiters v"
  by (simp_all add: release_slot_def)

lemma release_used:
  assumes "slots_ok x v" "i < length (vf_calls v)" "call_at v i = Looping a"
  shows "vf_used (release_slot a v) + of_bool a = vf_used v"
  using slot_held(1) [OF assms(1,2)] by (auto simp: release_slot_def assms(3) holds_slot_def)

text \<open>A call in its loop is answered, follows a flight, waits for a slot, takes one, or leads.\<close>

lemma loop_answers:
  assumes "vinv x v" "i < length (vf_calls v)" "call_at v i = Looping a" "grounded (vf_log v) (ca_key (vf_calls v ! i)) ans"
  shows "vinv x (move_call i (Answered ans) (release_slot a v))"
proof (rule move_vinv [OF assms(1,2)])
  note p = vinv_parts [OF assms(1)]
  show "slots_ok x (move_call i (Answered ans) (release_slot a v))"
    by (rule move_slots [OF p(4) assms(2)])
      (use release_used [OF p(4) assms(2,3)] p(4) in \<open>auto simp: assms(3) holds_slot_def is_waiter_def slots_ok_def\<close>)
  show "flights_ok (move_call i (Answered ans) (release_slot a v))"
    by (rule move_flights [OF p(5) assms(2)]) (simp_all add: assms(3) has_led_def)
qed (use assms(4) in \<open>simp_all add: given_def\<close>)

lemma loop_follows:
  assumes "vinv x v" "i < length (vf_calls v)" "call_at v i = Looping a" "tget (vf_inflight v) (ca_key (vf_calls v ! i)) = Some f"
    and "vf_waiters v < maxWaiters x"
  shows "vinv x (move_call i (Following f) ((release_slot a v)\<lparr>vf_waiters := Suc (vf_waiters v)\<rparr>))"
proof (rule move_vinv [OF assms(1,2)])
  note p = vinv_parts [OF assms(1)]
  have "f < length (vf_calls v)" using p(5) assms(4) unfolding flights_ok_def by blast
  then have f: "f < length (vf_calls v)" "ca_key (vf_calls v ! f) = ca_key (vf_calls v ! i)" "call_at v f = Flying"
    using p(5) assms(4) unfolding flights_ok_def by metis+
  show "slots_ok x (move_call i (Following f) ((release_slot a v)\<lparr>vf_waiters := Suc (vf_waiters v)\<rparr>))"
    by (rule move_slots [OF p(4) assms(2)])
      (use release_used [OF p(4) assms(2,3)] p(4) assms(5) in \<open>auto simp: assms(3) holds_slot_def is_waiter_def slots_ok_def\<close>)
  show "flights_ok (move_call i (Following f) ((release_slot a v)\<lparr>vf_waiters := Suc (vf_waiters v)\<rparr>))"
    by (rule move_flights [OF p(5) assms(2)]) (use f assms(3) in \<open>auto simp: has_led_def\<close>)
qed (simp_all add: given_def)

lemma loop_waits:
  assumes "vinv x v" "i < length (vf_calls v)" "call_at v i = Looping False" "vf_waiters v < maxWaiters x"
  shows "vinv x (move_call i SlotWait (v\<lparr>vf_waiters := Suc (vf_waiters v)\<rparr>))"
proof (rule move_vinv [OF assms(1,2)])
  note p = vinv_parts [OF assms(1)]
  show "slots_ok x (move_call i SlotWait (v\<lparr>vf_waiters := Suc (vf_waiters v)\<rparr>))"
    by (rule move_slots [OF p(4) assms(2)]) (use p(4) assms(4) in \<open>auto simp: assms(3) holds_slot_def is_waiter_def slots_ok_def\<close>)
  show "flights_ok (move_call i SlotWait (v\<lparr>vf_waiters := Suc (vf_waiters v)\<rparr>))"
    by (rule move_flights [OF p(5) assms(2)]) (simp_all add: assms(3) has_led_def)
qed (simp_all add: given_def)

lemma loop_takes:
  assumes "vinv x v" "i < length (vf_calls v)" "call_at v i = Looping False" "vf_used v < maxConcurrent x"
  shows "vinv x (move_call i (Looping True) (v\<lparr>vf_used := Suc (vf_used v)\<rparr>))"
proof (rule move_vinv [OF assms(1,2)])
  note p = vinv_parts [OF assms(1)]
  show "slots_ok x (move_call i (Looping True) (v\<lparr>vf_used := Suc (vf_used v)\<rparr>))"
    by (rule move_slots [OF p(4) assms(2)]) (use p(4) assms(4) in \<open>auto simp: assms(3) holds_slot_def is_waiter_def slots_ok_def\<close>)
  show "flights_ok (move_call i (Looping True) (v\<lparr>vf_used := Suc (vf_used v)\<rparr>))"
    by (rule move_flights [OF p(5) assms(2)]) (simp_all add: assms(3) has_led_def)
qed (simp_all add: given_def)

lemma loop_leads:
  assumes "vinv x v" "i < length (vf_calls v)" "call_at v i = Looping True" "tget (vf_inflight v) (ca_key (vf_calls v ! i)) = None"
  shows "vinv x (move_call i Flying (v\<lparr>vf_inflight := tput (ca_key (vf_calls v ! i)) i (vf_inflight v)\<rparr>))"
proof (rule move_vinv [OF assms(1,2)])
  note p = vinv_parts [OF assms(1)]
  let ?w = "v\<lparr>vf_inflight := tput (ca_key (vf_calls v ! i)) i (vf_inflight v)\<rparr>"
  show "slots_ok x (move_call i Flying ?w)"
    by (rule move_slots [OF p(4) assms(2)]) (use p(4) in \<open>auto simp: assms(3) holds_slot_def is_waiter_def slots_ok_def\<close>)
  show "flights_ok (move_call i Flying ?w)"
    by (rule move_flights [OF p(5) assms(2)]) (simp_all add: assms(3,4) has_led_def)
qed (simp_all add: given_def)

lemma verify_loop_inv:
  assumes "vinv x v" "i < length (vf_calls v)" "call_at v i = Looping a"
  shows "vinv x (verify_loop x now i a v)"
proof -
  let ?key = "ca_key (vf_calls v ! i)"
  define slot where "slot = (if a then move_call i Flying (v\<lparr>vf_inflight := tput ?key i (vf_inflight v)\<rparr>)
      else if vf_used v < maxConcurrent x then move_call i (Looping True) (v\<lparr>vf_used := Suc (vf_used v)\<rparr>)
      else if vf_waiters v \<ge> maxWaiters x then move_call i (Answered (Inl [ErrOverloaded])) v
      else move_call i SlotWait (v\<lparr>vf_waiters := Suc (vf_waiters v)\<rparr>))"
  have busy: "vinv x (move_call i (Answered (Inl [ErrOverloaded])) (release_slot a v))"
    by (rule loop_answers [OF assms]) simp
  have slot: "vinv x slot" if "tget (vf_inflight v) ?key = None"
  proof (cases a)
    case True
    then show ?thesis using loop_leads [OF assms(1,2) _ that] assms(3) by (simp add: slot_def)
  next
    case False
    then show ?thesis
      using loop_takes [OF assms(1,2)] loop_waits [OF assms(1,2)] busy assms(3) by (simp add: slot_def release_slot_def)
  qed
  have eq: "verify_loop x now i a v = (
      let flight = (case tget (vf_inflight v) ?key of None \<Rightarrow> slot
          | Some f \<Rightarrow> if vf_waiters v \<ge> maxWaiters x then move_call i (Answered (Inl [ErrOverloaded])) (release_slot a v)
              else move_call i (Following f) ((release_slot a v)\<lparr>vf_waiters := Suc (vf_waiters v)\<rparr>))
      in case tget (vf_cache v) ?key of None \<Rightarrow> flight
        | Some e \<Rightarrow> if now < ve_expires e then move_call i (Answered (ve_answer e)) (release_slot a v) else flight)"
    unfolding verify_loop_def Let_def slot_def by (rule refl)
  have flight: "vinv x (case tget (vf_inflight v) ?key of None \<Rightarrow> slot
          | Some f \<Rightarrow> if vf_waiters v \<ge> maxWaiters x then move_call i (Answered (Inl [ErrOverloaded])) (release_slot a v)
              else move_call i (Following f) ((release_slot a v)\<lparr>vf_waiters := Suc (vf_waiters v)\<rparr>))"
    using slot busy loop_follows [OF assms] by (simp split: option.split)
  show ?thesis
    unfolding eq Let_def using flight loop_answers [OF assms hit_grounded [OF assms(1)]] by (simp split: option.split)
qed

text \<open>Publication: the cache grows by the answer, the flight ends.\<close>

lemma logged_mono:
  assumes "cache_logged x v" "tget (vf_cache v) key = None" "vf_cache w = vf_cache v"
    and "vf_log w = LPublished key a t c # vf_log v"
  shows "cache_logged x w"
  unfolding cache_logged_def
proof (intro allI impI)
  fix k e assume "tget (vf_cache w) k = Some e"
  then have "tget (vf_cache v) k = Some e" "k \<noteq> key" using assms(2,3) by auto
  then show "\<exists>t'. latest (vf_log w) k = Some (ve_answer e, t') \<and> ve_expires e = t' + answer_ttl x (ve_answer e)"
    using assms(1) by (simp add: cache_logged_def assms(4))
qed

lemma publish_cache:
  assumes "cache_ok v" "cache_logged x v" and "v3 = (if live then store_answer x now key ans v else v)"
  defines "w \<equiv> evict_cache (maxEntries x) (v3\<lparr>vf_log := LPublished key ans now live # vf_log v3\<rparr>)"
  shows "cache_ok w \<and> tlen (vf_cache w) \<le> maxEntries x \<and> cache_logged x w \<and> vf_log w = LPublished key ans now live # vf_log v
    \<and> vf_calls w = vf_calls v \<and> vf_used w = vf_used v \<and> vf_waiters w = vf_waiters v \<and> vf_inflight w = vf_inflight v"
proof -
  let ?u = "v3\<lparr>vf_log := LPublished key ans now live # vf_log v3\<rparr>"
  have sh: "shrunk w ?u" unfolding w_def by (rule shrunk_evict)
  have ok: "cache_ok ?u" using assms(1,3) store_ok [of v x now key ans] by (auto simp: cache_ok_def)
  have fr: "vf_log v3 = vf_log v" "vf_calls v3 = vf_calls v" "vf_used v3 = vf_used v" "vf_waiters v3 = vf_waiters v"
    "vf_inflight v3 = vf_inflight v" by (simp_all add: assms(3))
  have "cache_logged x ?u"
    unfolding cache_logged_def
  proof (intro allI impI)
    fix k e assume e: "tget (vf_cache ?u) k = Some e"
    show "\<exists>t. latest (vf_log ?u) k = Some (ve_answer e, t) \<and> ve_expires e = t + answer_ttl x (ve_answer e)"
    proof (cases "live \<and> k = key")
      case True
      then have "e = \<lparr>ve_answer = ans, ve_expires = now + answer_ttl x ans\<rparr>" using e by (simp add: assms(3) store_get)
      then show ?thesis using True by simp
    next
      case False
      then have "tget (vf_cache v) k = Some e" using e by (auto simp: assms(3) store_get split: if_splits)
      then show ?thesis using False assms(2) by (auto simp: cache_logged_def fr)
    qed
  qed
  then have "cache_logged x w" using sh by (rule logged_shrunk)
  moreover have "tlen (vf_cache w) \<le> maxEntries x" unfolding w_def using ok by (rule evict_bound)
  ultimately show ?thesis using sh ok by (simp add: shrunk_def fr)
qed

lemma publish_vinv:
  assumes "vinv x v" "i < length (vf_calls v)" "call_at v i = Flying"
  shows "vinv x (publish_answer x now i ans live v)"
proof -
  note p = vinv_parts [OF assms(1)]
  let ?key = "ca_key (vf_calls v ! i)"
  define v1 where "v1 = v\<lparr>vf_inserts := Suc (vf_inserts v)\<rparr>"
  define v2 where "v2 = (if vf_inserts v1 mod cachePruneInterval = 0 then prune_cache now v1 else v1)"
  define v3 where "v3 = (if live then store_answer x now ?key ans v2 else v2)"
  define v4 where "v4 = evict_cache (maxEntries x) (v3\<lparr>vf_log := LPublished ?key ans now live # vf_log v3\<rparr>)"
  have eq: "publish_answer x now i ans live v = move_call i (Published ans) (v4\<lparr>vf_inflight := tdel ?key (vf_inflight v4)\<rparr>)"
    by (simp only: publish_answer_def Let_def v1_def v2_def v3_def v4_def)
  have sh: "shrunk v2 v1" by (simp add: v2_def shrunk_prune shrunk_refl)
  have "cache_ok v1" "cache_logged x v1" using p by (simp_all add: v1_def cache_ok_def cache_logged_def)
  then have "cache_ok v2" "cache_logged x v2" using sh logged_shrunk by (auto simp: shrunk_def)
  from publish_cache [OF this v3_def, folded v4_def] sh
  have w: "cache_ok v4" "tlen (vf_cache v4) \<le> maxEntries x" "cache_logged x v4" "vf_log v4 = LPublished ?key ans now live # vf_log v"
    "vf_calls v4 = vf_calls v" "vf_used v4 = vf_used v" "vf_waiters v4 = vf_waiters v" "vf_inflight v4 = vf_inflight v"
    by (simp_all add: shrunk_def v1_def)
  let ?w = "v4\<lparr>vf_inflight := tdel ?key (vf_inflight v4)\<rparr>"
  have "slots_ok x (move_call i (Published ans) ?w)"
    by (rule move_slots [OF p(4) assms(2)]) (use w p(4) in \<open>auto simp: assms(3) holds_slot_def is_waiter_def slots_ok_def\<close>)
  moreover have "flights_ok (move_call i (Published ans) ?w)"
    by (rule move_flights [OF p(5) assms(2)]) (use w in \<open>auto simp: assms(3) has_led_def\<close>)
  moreover have "answers_ok (move_call i (Published ans) ?w)"
    by (rule move_answers [OF p(6) assms(2)]) (use w in \<open>auto simp: given_def grounded_def split: sum.split\<close>)
  ultimately show ?thesis using w by (simp add: eq vinv_def cache_ok_def cache_logged_def)
qed

text \<open>Invalidation, and a new call.\<close>

lemma flights_cong: "vf_calls w = vf_calls v \<Longrightarrow> vf_inflight w = vf_inflight v \<Longrightarrow> flights_ok w = flights_ok v"
  by (simp only: flights_ok_def call_at_def)

lemma slots_cong:
  "vf_calls w = vf_calls v \<Longrightarrow> vf_used w = vf_used v \<Longrightarrow> vf_waiters w = vf_waiters v \<Longrightarrow> slots_ok x w = slots_ok x v"
  by (simp only: slots_ok_def)

lemma answers_more: "answers_ok v \<Longrightarrow> vf_calls w = vf_calls v \<Longrightarrow> vf_log w = l # vf_log v \<Longrightarrow> answers_ok w"
  by (auto simp: answers_ok_def call_at_def grounded_mono)

lemma invalidate_vinv:
  assumes "vinv x v" shows "vinv x (InvalidateKey key v)"
proof -
  note p = vinv_parts [OF assms]
  have f: "vf_calls (InvalidateKey key v) = vf_calls v" "vf_inflight (InvalidateKey key v) = vf_inflight v"
    "vf_used (InvalidateKey key v) = vf_used v" "vf_waiters (InvalidateKey key v) = vf_waiters v"
    "vf_log (InvalidateKey key v) = LInvalidated key # vf_log v" by (simp_all add: InvalidateKey_def)
  have "cache_logged x (InvalidateKey key v)"
    using p(3) by (auto simp: cache_logged_def InvalidateKey_def split: if_splits)
  moreover have "cache_ok (InvalidateKey key v)"
    using removeCached_ok [OF p(1), of key] by (simp add: InvalidateKey_def cache_ok_def)
  moreover have "tlen (vf_cache (InvalidateKey key v)) \<le> maxEntries x"
    using removeCached_len [of key v] p(2) by (simp add: InvalidateKey_def)
  ultimately show ?thesis
    using p(4,5) answers_more [OF p(6) f(1,5)] flights_cong [OF f(1,2)] slots_cong [OF f(1,3,4)] by (simp add: vinv_def)
qed

lemma invalidate_all_vinv:
  assumes "vinv x v" shows "vinv x (InvalidateAll v)"
proof -
  note p = vinv_parts [OF assms]
  have f: "vf_calls (InvalidateAll v) = vf_calls v" "vf_inflight (InvalidateAll v) = vf_inflight v"
    "vf_used (InvalidateAll v) = vf_used v" "vf_waiters (InvalidateAll v) = vf_waiters v"
    "vf_log (InvalidateAll v) = LInvalidatedAll # vf_log v" by (simp_all add: InvalidateAll_def)
  have "cache_ok (InvalidateAll v)" "cache_logged x (InvalidateAll v)" "tlen (vf_cache (InvalidateAll v)) \<le> maxEntries x"
    by (simp_all add: cache_ok_def cache_logged_def InvalidateAll_def tlen_def)
  then show ?thesis
    using p(4,5) answers_more [OF p(6) f(1,5)] flights_cong [OF f(1,2)] slots_cong [OF f(1,3,4)] by (simp add: vinv_def)
qed

lemma flightsD:
  assumes "flights_ok v"
  shows "i < length (vf_calls v) \<Longrightarrow> (tget (vf_inflight v) key = Some i) = (key = ca_key (vf_calls v ! i) \<and> call_at v i = Flying)"
    and "tget (vf_inflight v) key = Some i \<Longrightarrow> i < length (vf_calls v)"
    and "i < length (vf_calls v) \<Longrightarrow> call_at v i = Following f \<Longrightarrow>
      f < length (vf_calls v) \<and> ca_key (vf_calls v ! f) = ca_key (vf_calls v ! i) \<and> has_led (call_at v f)"
  using assms unfolding flights_ok_def by blast+

lemma new_call_vinv: "vinv x v \<Longrightarrow> vinv x (v\<lparr>vf_calls := vf_calls v @ [\<lparr>ca_key = key, ca_pc = Looping False\<rparr>]\<rparr>)"
proof -
  assume v: "vinv x v"
  note p = vinv_parts [OF v]
  let ?w = "v\<lparr>vf_calls := vf_calls v @ [\<lparr>ca_key = key, ca_pc = Looping False\<rparr>]\<rparr>"
  have at: "call_at ?w j = (if j < length (vf_calls v) then call_at v j else Looping False)" if "j < Suc (length (vf_calls v))" for j
    using that by (auto simp: call_at_def nth_append)
  have k: "ca_key (vf_calls ?w ! j) = (if j < length (vf_calls v) then ca_key (vf_calls v ! j) else key)" if "j < Suc (length (vf_calls v))" for j
    using that by (auto simp: nth_append)
  have a: "answers_ok ?w"
    unfolding answers_ok_def
  proof (intro allI impI)
    fix j a assume j: "j < length (vf_calls ?w)" "given (call_at ?w j) = Some a"
    then have l: "j < length (vf_calls v)" using at [of j] by (cases "j < length (vf_calls v)") (auto simp: given_def)
    then show "grounded (vf_log ?w) (ca_key (vf_calls ?w ! j)) a" using p(6) j at [of j] k [of j] by (simp add: answers_ok_def)
  qed
  have s: "slots_ok x ?w" using p(4) by (simp add: slots_ok_def holds_slot_def is_waiter_def)
  have "flights_ok ?w"
    unfolding flights_ok_def
  proof (intro conjI allI impI)
    fix j k' assume j: "j < length (vf_calls ?w)"
    show "(tget (vf_inflight ?w) k' = Some j) = (k' = ca_key (vf_calls ?w ! j) \<and> call_at ?w j = Flying)"
    proof (cases "j < length (vf_calls v)")
      case True
      have "call_at ?w j = call_at v j" "ca_key (vf_calls ?w ! j) = ca_key (vf_calls v ! j)" using True at [of j] k [of j] by simp_all
      moreover have "vf_inflight ?w = vf_inflight v" by simp
      ultimately show ?thesis using flightsD(1) [OF p(5) True, of k'] by (simp only:)
    next
      case False
      then have "call_at ?w j = Looping False" using j at [of j] by simp
      moreover have "tget (vf_inflight v) k' \<noteq> Some j" using flightsD(2) [OF p(5), of k' j] False by blast
      ultimately show ?thesis by simp
    qed
  next
    fix k' j assume "tget (vf_inflight ?w) k' = Some j"
    then have "j < length (vf_calls v)" using flightsD(2) [OF p(5), of k' j] by simp
    then show "j < length (vf_calls ?w)" by simp
  next
    fix j f assume j: "j < length (vf_calls ?w)" "call_at ?w j = Following f"
    then have l: "j < length (vf_calls v)" "call_at v j = Following f"
      using at [of j] by (cases "j < length (vf_calls v)"; simp)+
    from flightsD(3) [OF p(5) l] have c: "f < length (vf_calls v)" "ca_key (vf_calls v ! f) = ca_key (vf_calls v ! j)" "has_led (call_at v f)"
      by simp_all
    show "f < length (vf_calls ?w)" using c(1) by simp
    show "ca_key (vf_calls ?w ! f) = ca_key (vf_calls ?w ! j)" using k [of f] k [of j] c l by simp
    show "has_led (call_at ?w f)" using at [of f] c by simp
  qed
  with a s p(1-3) show ?thesis by (simp add: vinv_def cache_ok_def cache_logged_def)
qed

lemma small_move:
  assumes "vinv x v" "i < length (vf_calls v)" "vf_calls w = vf_calls v" "vf_cache w = vf_cache v" "vf_order w = vf_order v"
    and "vf_log w = vf_log v" "vf_inflight w = vf_inflight v" "call_at v i \<noteq> Flying" "pc \<noteq> Flying" "\<And>f. pc \<noteq> Following f"
    and "has_led (call_at v i) \<Longrightarrow> has_led pc"
    and "vf_used w + of_bool (holds_slot (call_at v i)) = vf_used v + of_bool (holds_slot pc)" "vf_used w \<le> maxConcurrent x"
    and "vf_waiters w + of_bool (is_waiter (call_at v i)) = vf_waiters v + of_bool (is_waiter pc)" "vf_waiters w \<le> maxWaiters x"
    and "\<And>a. given pc = Some a \<Longrightarrow> grounded (vf_log v) (ca_key (vf_calls v ! i)) a"
  shows "vinv x (move_call i pc w)"
proof (rule move_vinv [OF assms(1-6)])
  note p = vinv_parts [OF assms(1)]
  show "slots_ok x (move_call i pc w)" by (rule move_slots [OF p(4) assms(2,3,12-15)])
  show "flights_ok (move_call i pc w)" by (rule move_flights [OF p(5) assms(2,3)]) (use assms(7-11) in simp_all)
qed (use assms(6,16) in simp)

lemma given_grounded:
  "vinv x v \<Longrightarrow> i < length (vf_calls v) \<Longrightarrow> given (call_at v i) = Some a \<Longrightarrow> grounded (vf_log v) (ca_key (vf_calls v ! i)) a"
  using vinv_parts(6) [of x v] by (simp add: answers_ok_def)

lemma bounds_of:
  "vinv x v \<Longrightarrow> vf_used v \<le> maxConcurrent x \<and> vf_waiters v \<le> maxWaiters x
     \<and> vf_used v - Suc 0 \<le> maxConcurrent x \<and> vf_waiters v - Suc 0 \<le> maxWaiters x"
  using vinv_parts(4) [of x v] by (auto simp: slots_ok_def)

lemmas held = slot_held [OF vinv_parts(4)]

lemma step_vinv:
  assumes "vinv x v" shows "vinv x (vstep x v ev)"
proof (cases ev)
  case (Calls key)
  then show ?thesis using new_call_vinv [OF assms] by (simp add: vstep_def)
next
  case (Turns i now)
  then show ?thesis using verify_loop_inv [OF assms] assms by (simp add: vstep_def Let_def split: vpc.split)
next
  case (Grabs i)
  have "vinv x (move_call i Granted (v\<lparr>vf_used := Suc (vf_used v)\<rparr>))"
    if "i < length (vf_calls v)" "call_at v i = SlotWait" "vf_used v < maxConcurrent x"
    by (rule small_move [OF assms that(1)]) (use that bounds_of [OF assms] in \<open>simp_all add: has_led_def holds_slot_def is_waiter_def given_def\<close>)
  then show ?thesis using Grabs assms by (simp add: vstep_def Let_def)
next
  case (Unwaits i)
  have "vinv x (move_call i (Looping True) (v\<lparr>vf_waiters := vf_waiters v - 1\<rparr>))"
    if "i < length (vf_calls v)" "call_at v i = Granted"
    by (rule small_move [OF assms that(1)])
      (use that bounds_of [OF assms] held(2) [OF assms that(1)] in \<open>simp_all add: has_led_def holds_slot_def is_waiter_def given_def\<close>)
  then show ?thesis using Unwaits assms by (simp add: vstep_def Let_def)
next
  case (Publishes i now ans dn live)
  then show ?thesis using publish_vinv [OF assms] assms by (simp add: vstep_def Let_def)
next
  case (Closes i)
  have "vinv x (move_call i (FlightClosed a) v)" if "i < length (vf_calls v)" "call_at v i = Published a" for a
    by (rule small_move [OF assms that(1)])
      (use that bounds_of [OF assms] given_grounded [OF assms that(1), of a] in \<open>simp_all add: has_led_def holds_slot_def is_waiter_def given_def\<close>)
  then show ?thesis using Closes assms by (simp add: vstep_def Let_def split: vpc.split)
next
  case (Returns i)
  have "vinv x (move_call i (Answered a) (v\<lparr>vf_used := vf_used v - 1\<rparr>))" if "i < length (vf_calls v)" "call_at v i = FlightClosed a" for a
    by (rule small_move [OF assms that(1)])
      (use that bounds_of [OF assms] held(1) [OF assms that(1)] given_grounded [OF assms that(1), of a]
       in \<open>simp_all add: has_led_def holds_slot_def is_waiter_def given_def\<close>)
  then show ?thesis using Returns assms by (simp add: vstep_def Let_def split: vpc.split)
next
  case (Joins i)
  have "vinv x (move_call i (Answered a) (v\<lparr>vf_waiters := vf_waiters v - 1\<rparr>))"
    if "i < length (vf_calls v)" "call_at v i = Following f" "flight_done (call_at v f) = Some a" for f a
  proof -
    have f: "f < length (vf_calls v)" "ca_key (vf_calls v ! f) = ca_key (vf_calls v ! i)"
      using flightsD(3) [OF vinv_parts(5) [OF assms] that(1,2)] by simp_all
    have "given (call_at v f) = Some a" using that(3) by (simp add: flight_done_def given_def split: vpc.splits)
    then have "grounded (vf_log v) (ca_key (vf_calls v ! i)) a" using given_grounded [OF assms f(1)] f(2) by simp
    then show ?thesis
      by (intro small_move [OF assms that(1)])
        (use that bounds_of [OF assms] held(2) [OF assms that(1)] in \<open>simp_all add: has_led_def holds_slot_def is_waiter_def given_def\<close>)
  qed
  then show ?thesis using Joins assms by (simp add: vstep_def Let_def split: vpc.split option.split)
next
  case (GivesUp i e)
  have "vinv x (move_call i (Answered (Inl e)) (v\<lparr>vf_waiters := vf_waiters v - 1\<rparr>))"
    if "i < length (vf_calls v)" "call_at v i = SlotWait \<or> call_at v i = Following f" for f
    by (rule small_move [OF assms that(1)])
      (use that bounds_of [OF assms] held(2) [OF assms that(1)] in \<open>auto simp: has_led_def holds_slot_def is_waiter_def given_def\<close>)
  then show ?thesis using GivesUp assms by (simp add: vstep_def Let_def split: vpc.split)
next
  case (Invalidates key)
  then show ?thesis using invalidate_vinv [OF assms] by (simp add: vstep_def)
next
  case InvalidatesAll
  then show ?thesis using invalidate_all_vinv [OF assms] by (simp add: vstep_def)
qed

interpretation verifier: invariant_machine "vstep x" "vinv x" for x
  by unfold_locales (rule step_vinv)

lemma New_vinv: "vinv x NewVerifier"
  by (simp add: vinv_def NewVerifier_def cache_ok_def cache_logged_def slots_ok_def flights_ok_def answers_ok_def tlen_def)

subsection \<open>Properties\<close>

lemmas verifier_reachable = verifier.run_inv [OF New_vinv]

lemma count_flying:
  "length (filter (\<lambda>c. ca_pc c = Flying) cs) \<le> length (filter (\<lambda>c. holds_slot (ca_pc c)) cs)"
  by (induction cs) (auto simp: holds_slot_def)

text \<open>
  Whatever the interleaving, the endpoint is being asked by at most the configured number of calls, at
  most one per credential, the calls that wait are bounded, the cache is bounded once a step is over, and
  nothing leaks: when every call has returned, all slots, waiting places and flights are free again.
\<close>

theorem verifier_bounded:
  fixes x :: vsettings and evs :: "vevent list"
  defines "v \<equiv> foldl (vstep x) NewVerifier evs"
  shows "length (filter (\<lambda>c. ca_pc c = Flying) (vf_calls v)) \<le> maxConcurrent x
    \<and> length (filter (\<lambda>c. is_waiter (ca_pc c)) (vf_calls v)) \<le> maxWaiters x
    \<and> tlen (vf_cache v) \<le> maxEntries x
    \<and> (\<forall>i < length (vf_calls v). \<forall>j < length (vf_calls v).
         call_at v i = Flying \<and> call_at v j = Flying \<and> ca_key (vf_calls v ! i) = ca_key (vf_calls v ! j) \<longrightarrow> i = j)
    \<and> (list_all (\<lambda>c. \<exists>a. ca_pc c = Answered a) (vf_calls v) \<longrightarrow>
         vf_used v = 0 \<and> vf_waiters v = 0 \<and> (\<forall>key. tget (vf_inflight v) key = None))"
proof -
  have inv: "vinv x v" unfolding v_def by (rule verifier_reachable)
  note p = vinv_parts [OF inv]
  have bounds: "length (filter (\<lambda>c. ca_pc c = Flying) (vf_calls v)) \<le> maxConcurrent x"
    "length (filter (\<lambda>c. is_waiter (ca_pc c)) (vf_calls v)) \<le> maxWaiters x"
    using p(4) count_flying [of "vf_calls v"] by (simp_all add: slots_ok_def)
  have single: "i = j" if "i < length (vf_calls v)" "j < length (vf_calls v)" "call_at v i = Flying" "call_at v j = Flying"
    "ca_key (vf_calls v ! i) = ca_key (vf_calls v ! j)" for i j
    using flightsD(1) [OF p(5) that(1), of "ca_key (vf_calls v ! i)"] flightsD(1) [OF p(5) that(2), of "ca_key (vf_calls v ! i)"] that
    by simp
  have free: "vf_used v = 0 \<and> vf_waiters v = 0 \<and> (\<forall>key. tget (vf_inflight v) key = None)"
    if all: "list_all (\<lambda>c. \<exists>a. ca_pc c = Answered a) (vf_calls v)"
  proof -
    have "filter (\<lambda>c. holds_slot (ca_pc c)) (vf_calls v) = []" "filter (\<lambda>c. is_waiter (ca_pc c)) (vf_calls v) = []"
      using all by (auto simp: filter_empty_conv list_all_iff holds_slot_def is_waiter_def)
    then have "vf_used v = 0 \<and> vf_waiters v = 0" using p(4) by (simp add: slots_ok_def)
    moreover have "tget (vf_inflight v) key = None" for key
    proof (cases "tget (vf_inflight v) key")
      case (Some i)
      then have "i < length (vf_calls v)" "call_at v i = Flying" using flightsD(1,2) [OF p(5), where key = key] by blast+
      then show ?thesis using all by (auto simp: list_all_length call_at_def)
    qed
    ultimately show ?thesis by blast
  qed
  show ?thesis using bounds p(2) single free by blast
qed

definition small_settings :: vsettings where
  "small_settings = \<lparr>vx_PositiveTTL = 0, vx_NegativeTTL = 0, vx_MaxCacheEntries = 2, vx_MaxConcurrent = 1, vx_MaxWaiters = 1\<rparr>"

definition sample_session :: vsession where
  "sample_session = \<lparr>vs_User = ''ann'', vs_Admin = Some True, vs_ValidatedAt = 1, vs_Kind = KindQToken\<rparr>"

definition sample_run :: "vevent list" where
  "sample_run = [Calls ''k'', Turns 0 0, Turns 0 0, Publishes 0 5 (Inr sample_session) None True, Closes 0, Returns 0]"

theorem verifier_bounded_witness:
  "vf_used (foldl (vstep small_settings) NewVerifier sample_run) = 0
   \<and> tlen (vf_cache (foldl (vstep small_settings) NewVerifier sample_run)) \<le> 2"
proof -
  have "list_all (\<lambda>c. case ca_pc c of Answered a \<Rightarrow> True | _ \<Rightarrow> False) (vf_calls (foldl (vstep small_settings) NewVerifier sample_run))"
    by code_simp
  then have "list_all (\<lambda>c. \<exists>a. ca_pc c = Answered a) (vf_calls (foldl (vstep small_settings) NewVerifier sample_run))"
    by (auto simp: list_all_iff split: vpc.splits) (metis vpc.exhaust)
  then show ?thesis
    using verifier_bounded [of small_settings sample_run] by (simp add: small_settings_def maxEntries_def)
qed

text \<open>
  A cached answer is never stale and never someone else's: what the loop hands out without asking (other
  than a refusal for overload) is the latest answer published for that very credential, not invalidated since, and less than
  its lifetime old; and every positive answer any call returns was published for its own credential.
\<close>

theorem served_answer_fresh:
  fixes x :: vsettings and evs :: "vevent list"
  defines "v \<equiv> foldl (vstep x) NewVerifier evs"
  assumes "i < length (vf_calls v)"
  shows "(\<forall>a ans. call_at v i = Looping a \<and> call_at (vstep x v (Turns i now)) i = Answered ans \<and> ans \<noteq> Inl [ErrOverloaded] \<longrightarrow>
      (\<exists>t. latest (vf_log v) (ca_key (vf_calls v ! i)) = Some (ans, t) \<and> now < t + answer_ttl x ans))
    \<and> (\<forall>s. call_at v i = Answered (Inr s) \<longrightarrow> (\<exists>t c. LPublished (ca_key (vf_calls v ! i)) (Inr s) t c \<in> set (vf_log v)))"
proof (intro conjI allI impI)
  have inv: "vinv x v" unfolding v_def by (rule verifier_reachable)
  note p = vinv_parts [OF inv]
  let ?key = "ca_key (vf_calls v ! i)"
  fix a ans
  assume h: "call_at v i = Looping a \<and> call_at (vstep x v (Turns i now)) i = Answered ans \<and> ans \<noteq> Inl [ErrOverloaded]"
  then have "call_at v i = Looping a" by simp
  then have "vstep x v (Turns i now) = verify_loop x now i a v" using assms(2) by (simp add: vstep_def Let_def)
  then have t: "call_at (verify_loop x now i a v) i = Answered ans" using h by simp
  have m: "call_at (move_call i pc w) i = pc" if "vf_calls w = vf_calls v" for pc w
    using assms(2) that by (simp add: move_at)
  show "\<exists>t. latest (vf_log v) ?key = Some (ans, t) \<and> now < t + answer_ttl x ans"
  proof (cases "\<exists>e. tget (vf_cache v) ?key = Some e \<and> now < ve_expires e")
    case True
    then obtain e where e: "tget (vf_cache v) ?key = Some e" "now < ve_expires e" by blast
    then have "ve_answer e = ans" using t m by (simp add: verify_loop_def Let_def)
    moreover obtain t where "latest (vf_log v) ?key = Some (ve_answer e, t)" "ve_expires e = t + answer_ttl x (ve_answer e)"
      using p(3) e(1) unfolding cache_logged_def by blast
    ultimately show ?thesis using e(2) by auto
  next
    case False
    then have "call_at (verify_loop x now i a v) i \<noteq> Answered ans"
      using h m by (auto simp: verify_loop_def Let_def split: option.split)
    with t show ?thesis by contradiction
  qed
next
  have inv: "vinv x v" unfolding v_def by (rule verifier_reachable)
  fix s assume "call_at v i = Answered (Inr s)"
  then show "\<exists>t c. LPublished (ca_key (vf_calls v ! i)) (Inr s) t c \<in> set (vf_log v)"
    using given_grounded [OF inv assms(2), of "Inr s"] by (simp add: given_def grounded_def)
qed

theorem served_answer_fresh_witness:
  "call_at (foldl (vstep small_settings) NewVerifier (sample_run @ [Calls ''k'', Turns 1 9])) 1 = Answered (Inr sample_session)
   \<and> (\<exists>t. latest (vf_log (foldl (vstep small_settings) NewVerifier (sample_run @ [Calls ''k'']))) ''k'' = Some (Inr sample_session, t)
      \<and> 9 < t + positiveTTL small_settings)"
proof -
  let ?v = "foldl (vstep small_settings) NewVerifier (sample_run @ [Calls ''k''])"
  have c: "call_at (foldl (vstep small_settings) NewVerifier (sample_run @ [Calls ''k'', Turns 1 9])) 1 = Answered (Inr sample_session)"
    by code_simp
  have l: "1 < length (vf_calls ?v)" "call_at ?v 1 = Looping False" "ca_key (vf_calls ?v ! 1) = ''k''" by code_simp+
  have s: "vstep small_settings ?v (Turns 1 9) = foldl (vstep small_settings) NewVerifier (sample_run @ [Calls ''k'', Turns 1 9])"
    by simp
  note f = served_answer_fresh [OF l(1), THEN conjunct1, rule_format, of False 9 "Inr sample_session", unfolded l(3)]
  have "\<exists>t. latest (vf_log ?v) ''k'' = Some (Inr sample_session, t) \<and> 9 < t + answer_ttl small_settings (Inr sample_session)"
    by (rule f) (simp only: l(2) s c, simp)
  then show ?thesis using c by (simp only: answer_ttl_def sum.case)
qed

text \<open>
  An invalidation does not reach a flight: a call that begins after \<open>Invalidate\<close>, as a caller about to
  write makes it, can be answered by a flight whose question was sent before, so before a sign-out in between, without the endpoint being asked again.
\<close>

theorem older_flight_joined:
  "let v1 = foldl (vstep small_settings) NewVerifier [Calls ''k'', Turns 0 0, Turns 0 0];
       v2 = foldl (vstep small_settings) v1 [Invalidates ''k'', Calls ''k'', Turns 1 1];
       v3 = foldl (vstep small_settings) v2 [Publishes 0 2 (Inr sample_session) None True, Closes 0, Joins 1]
   in call_at v1 0 = Flying \<and> length (vf_calls v1) = 1 \<and> call_at v2 1 = Following 0
      \<and> call_at v3 1 = Answered (Inr sample_session)
      \<and> length (filter (\<lambda>l. case l of LPublished k a t c \<Rightarrow> True | _ \<Rightarrow> False) (vf_log v3)) = 1"
  by code_simp

end
