(* ===== verification/Auth_Limits.thy ===== *)
theory Auth_Limits
  imports Verifier
begin

section \<open>Admission of credential checks (internal/web/auth_limits.go)\<close>

text \<open>
  The budget of failed credentials per client, and the slots a credential check runs in. The zero time of
  a deadline, which no reading is before, is None. The locks and channels are atomic steps.
\<close>

definition authFailureBurst :: nat where "authFailureBurst = 20"
definition unattributedFailureBurst :: nat where "unattributedFailureBurst = 200"
definition authRecoveryInterval :: time where "authRecoveryInterval = 10 ^ 9"
definition unattributedRecoveryInterval :: time where "unattributedRecoveryInterval = 10 ^ 9 div 5"
definition reservedAuthClassSlots :: nat where "reservedAuthClassSlots = 2"
definition authFailureWindow :: time where "authFailureWindow = 60 * 10 ^ 9"
definition maxFailureClients :: nat where "maxFailureClients = 4096"

record fbucket =
  fb_credentials :: "(string, time) table"
  fb_next :: "time option"

record flimiter =
  fl_clients :: "(string, fbucket) table"
  fl_unattributed :: fbucket
  fl_overflowNext :: "time option"

definition new_bucket :: fbucket where
  "new_bucket = \<lparr>fb_credentials = [], fb_next = None\<rparr>"

definition new_limiter :: flimiter where
  "new_limiter = \<lparr>fl_clients = [], fl_unattributed = new_bucket, fl_overflowNext = None\<rparr>"

definition before_deadline :: "time \<Rightarrow> time option \<Rightarrow> bool" where
  "before_deadline now t = (case t of None \<Rightarrow> False | Some d \<Rightarrow> now < d)"

definition bucket_prune :: "time \<Rightarrow> fbucket \<Rightarrow> fbucket" where
  "bucket_prune now b = b\<lparr>fb_credentials := tkeep (\<lambda>expires. now < expires) (fb_credentials b)\<rparr>"

definition bucket_failed :: "string \<Rightarrow> time \<Rightarrow> nat \<Rightarrow> time \<Rightarrow> fbucket \<Rightarrow> fbucket" where
  "bucket_failed key now limit recovery b0 =
     (let b = bucket_prune now b0
      in if tget (fb_credentials b) key \<noteq> None \<or> tlen (fb_credentials b) \<ge> limit then b
         else let b1 = b\<lparr>fb_credentials := tput key (now + authFailureWindow) (fb_credentials b)\<rparr>
              in if tlen (fb_credentials b1) = limit then b1\<lparr>fb_next := Some (now + recovery)\<rparr> else b1)"

text \<open>\<open>authFailureClient\<close>: the forwarded address, or the claimed name (\<open>forwarded\<close> empty when the proxy gave none).\<close>

definition authFailureClient :: "string \<Rightarrow> cred \<Rightarrow> string" where
  "authFailureClient forwarded cr =
     (if forwarded \<noteq> [] then ''ip:'' @ forwarded
      else ''user:'' @ (if ValidUser (cd_User cr) then to_lower (cd_User cr) else []))"

definition kept_bucket :: "time \<Rightarrow> fbucket \<Rightarrow> fbucket option" where
  "kept_bucket now b0 =
     (let b = bucket_prune now b0 in if fb_credentials b = [] \<and> \<not> before_deadline now (fb_next b) then None else Some b)"

fun keep_buckets :: "time \<Rightarrow> (string, fbucket) table \<Rightarrow> (string, fbucket) table" where
  "keep_buckets now [] = []"
| "keep_buckets now ((k, b) # t) =
     (case kept_bucket now b of None \<Rightarrow> keep_buckets now t | Some b' \<Rightarrow> (k, b') # keep_buckets now t)"

definition pruneClients :: "time \<Rightarrow> flimiter \<Rightarrow> flimiter" where
  "pruneClients now l = l\<lparr>fl_clients := keep_buckets now (fl_clients l)\<rparr>"

definition unattributed :: "string \<Rightarrow> bool" where
  "unattributed ip \<longleftrightarrow> has_prefix ip ''user:''"

definition charge_unattributed :: "string \<Rightarrow> string \<Rightarrow> time \<Rightarrow> flimiter \<Rightarrow> flimiter" where
  "charge_unattributed ip key now l =
     (if unattributed ip
      then l\<lparr>fl_unattributed := bucket_failed key now unattributedFailureBurst unattributedRecoveryInterval (fl_unattributed l)\<rparr>
      else l)"

definition sweep_if_full :: "string \<Rightarrow> time \<Rightarrow> flimiter \<Rightarrow> flimiter" where
  "sweep_if_full ip now l =
     (if tget (fl_clients l) ip = None \<and> tlen (fl_clients l) \<ge> maxFailureClients then pruneClients now l else l)"

definition limiter_failed :: "string \<Rightarrow> string \<Rightarrow> time \<Rightarrow> flimiter \<Rightarrow> bool \<times> flimiter" where
  \<comment> \<open>False: the table of clients is full\<close>
  "limiter_failed ip key now l0 =
     (let l1 = charge_unattributed ip key now l0; l2 = sweep_if_full ip now l1
      in case tget (fl_clients l1) ip of
           None \<Rightarrow>
             if tlen (fl_clients l2) \<ge> maxFailureClients then (False, l2)
             else (True, l2\<lparr>fl_clients :=
               tput ip (bucket_failed key now authFailureBurst authRecoveryInterval new_bucket) (fl_clients l2)\<rparr>)
         | Some b \<Rightarrow> (True, l2\<lparr>fl_clients :=
               tput ip (bucket_failed key now authFailureBurst authRecoveryInterval b) (fl_clients l2)\<rparr>))"

text \<open>Which recovery deadline a check is measured against, found while the tables are pruned.\<close>

datatype recovery_slot = NoRecovery | BucketNext fbucket | Overflow

definition find_recovery :: "string \<Rightarrow> time \<Rightarrow> flimiter \<Rightarrow> recovery_slot \<times> flimiter" where
  "find_recovery ip now l =
     (case tget (fl_clients l) ip of
        Some b0 \<Rightarrow>
          let b = bucket_prune now b0
          in (if tlen (fb_credentials b) \<ge> authFailureBurst then BucketNext b else NoRecovery,
              l\<lparr>fl_clients := tput ip b (fl_clients l)\<rparr>)
      | None \<Rightarrow>
          let l1 = sweep_if_full ip now l
          in (if tlen (fl_clients l1) \<ge> maxFailureClients then Overflow else NoRecovery, l1))"

definition prune_unattributed :: "string \<Rightarrow> time \<Rightarrow> flimiter \<Rightarrow> flimiter" where
  "prune_unattributed ip now l =
     (if unattributed ip then l\<lparr>fl_unattributed := bucket_prune now (fl_unattributed l)\<rparr> else l)"

definition coarse_limit :: "string \<Rightarrow> flimiter \<Rightarrow> bool" where
  "coarse_limit ip l \<longleftrightarrow> unattributed ip \<and> tlen (fb_credentials (fl_unattributed l)) \<ge> unattributedFailureBurst"

definition recovery_deadline :: "recovery_slot \<Rightarrow> flimiter \<Rightarrow> time option" where
  "recovery_deadline rs l = (case rs of NoRecovery \<Rightarrow> None | BucketNext b \<Rightarrow> fb_next b | Overflow \<Rightarrow> fl_overflowNext l)"

definition consume_recovery :: "string \<Rightarrow> time \<Rightarrow> recovery_slot \<Rightarrow> flimiter \<Rightarrow> flimiter" where
  "consume_recovery ip now rs l =
     (case rs of
        NoRecovery \<Rightarrow> l
      | BucketNext b \<Rightarrow> l\<lparr>fl_clients := tput ip (b\<lparr>fb_next := Some (now + authRecoveryInterval)\<rparr>) (fl_clients l)\<rparr>
      | Overflow \<Rightarrow> l\<lparr>fl_overflowNext := Some (now + authRecoveryInterval)\<rparr>)"

definition consume_coarse :: "string \<Rightarrow> time \<Rightarrow> flimiter \<Rightarrow> flimiter" where
  "consume_coarse ip now l =
     (if coarse_limit ip l
      then l\<lparr>fl_unattributed := (fl_unattributed l)\<lparr>fb_next := Some (now + unattributedRecoveryInterval)\<rparr>\<rparr> else l)"

definition limiter_allow :: "string \<Rightarrow> time \<Rightarrow> flimiter \<Rightarrow> bool \<times> flimiter" where
  "limiter_allow ip now l0 =
     (case find_recovery ip now l0 of
        (rs, l1) \<Rightarrow>
          let l2 = prune_unattributed ip now l1
          in if before_deadline now (recovery_deadline rs l2) \<or> (coarse_limit ip l2 \<and> before_deadline now (fb_next (fl_unattributed l2)))
             then (False, l2)
             else (True, consume_coarse ip now (consume_recovery ip now rs l2)))"

subsection \<open>Bounds\<close>

definition bucket_ok :: "nat \<Rightarrow> fbucket \<Rightarrow> bool" where
  "bucket_ok limit b \<longleftrightarrow> table_ok (fb_credentials b) \<and> tlen (fb_credentials b) \<le> limit"

definition limiter_ok :: "flimiter \<Rightarrow> bool" where
  "limiter_ok l \<longleftrightarrow> table_ok (fl_clients l) \<and> tlen (fl_clients l) \<le> maxFailureClients
     \<and> (\<forall>ip b. tget (fl_clients l) ip = Some b \<longrightarrow> bucket_ok authFailureBurst b) \<and> bucket_ok unattributedFailureBurst (fl_unattributed l)"

lemma prune_ok: "bucket_ok n b \<Longrightarrow> bucket_ok n (bucket_prune now b)"
  using tlen_tkeep_le [of "\<lambda>expires. now < expires" "fb_credentials b"] by (simp add: bucket_ok_def bucket_prune_def)

lemma failed_ok: "bucket_ok n b \<Longrightarrow> bucket_ok n (bucket_failed key now n r b)"
  using prune_ok [of n b now] by (auto simp: bucket_failed_def Let_def bucket_ok_def tlen_tput_absent)

lemma new_ok: "bucket_ok n new_bucket"
  by (simp add: bucket_ok_def new_bucket_def tlen_def)

lemma keep_keys: "set (map fst (keep_buckets now t)) \<subseteq> set (map fst t) \<and> length (keep_buckets now t) \<le> length t"
  by (induction now t rule: keep_buckets.induct) (auto split: option.split)

lemma keep_ok: "table_ok t \<Longrightarrow> table_ok (keep_buckets now t)"
proof (induction now t rule: keep_buckets.induct)
  case (2 now k b t)
  then show ?case using keep_keys [of now t] by (auto simp: table_ok_def split: option.split)
qed simp

lemma keep_get: "table_ok t \<Longrightarrow> tget (keep_buckets now t) k = Option.bind (tget t k) (kept_bucket now)"
proof (induction now t rule: keep_buckets.induct)
  case (2 now k1 b t)
  have "tget (keep_buckets now t) k1 = None"
    using 2(3) keep_keys [of now t] by (auto simp: table_ok_def tget_def map_of_eq_None_iff)
  with 2 show ?case by (auto simp: tget_def table_ok_def split: option.split)
qed (simp add: tget_def)

lemma pruneClients_get:
  "table_ok (fl_clients l) \<Longrightarrow> tget (fl_clients (pruneClients now l)) ip = Option.bind (tget (fl_clients l) ip) (kept_bucket now)"
  by (simp add: pruneClients_def keep_get)

lemma pruneClients_frame [simp]:
  "fl_unattributed (pruneClients now l) = fl_unattributed l" "fl_overflowNext (pruneClients now l) = fl_overflowNext l"
  by (simp_all add: pruneClients_def)

lemma pruneClients_ok: "limiter_ok l \<Longrightarrow> limiter_ok (pruneClients now l)"
proof -
  assume l: "limiter_ok l"
  have t: "table_ok (fl_clients (pruneClients now l))" "tlen (fl_clients (pruneClients now l)) \<le> tlen (fl_clients l)"
    using l keep_ok keep_keys [of now "fl_clients l"] by (simp_all add: limiter_ok_def pruneClients_def tlen_def)
  have b: "bucket_ok authFailureBurst b" if h: "tget (fl_clients (pruneClients now l)) ip = Some b" for ip b
  proof -
    obtain b0 where b0: "tget (fl_clients l) ip = Some b0" "kept_bucket now b0 = Some b"
      using h l pruneClients_get [of l now ip] by (cases "tget (fl_clients l) ip") (auto simp: limiter_ok_def)
    then have "b = bucket_prune now b0" by (auto simp: kept_bucket_def Let_def split: if_splits)
    then show ?thesis using b0(1) l prune_ok by (auto simp: limiter_ok_def)
  qed
  show ?thesis using l t b by (auto simp: limiter_ok_def)
qed

lemma put_client_ok:
  assumes "limiter_ok l" "bucket_ok authFailureBurst b" "tget (fl_clients l) ip \<noteq> None \<or> tlen (fl_clients l) < maxFailureClients"
  shows "limiter_ok (l\<lparr>fl_clients := tput ip b (fl_clients l)\<rparr>)"
  using assms alist.put_bounded [of "fl_clients l" maxFailureClients ip b] by (auto simp: limiter_ok_def)

lemma unattributed_ok: "limiter_ok l \<Longrightarrow> bucket_ok unattributedFailureBurst b \<Longrightarrow> limiter_ok (l\<lparr>fl_unattributed := b\<rparr>)"
  by (simp add: limiter_ok_def)

lemma client_ok: "limiter_ok l \<Longrightarrow> tget (fl_clients l) ip = Some b \<Longrightarrow> bucket_ok authFailureBurst b"
  by (simp add: limiter_ok_def)

lemma limiter_unattributed: "limiter_ok l \<Longrightarrow> bucket_ok unattributedFailureBurst (fl_unattributed l)"
  by (simp add: limiter_ok_def)

lemma bucket_next_ok: "bucket_ok n (b\<lparr>fb_next := d\<rparr>) = bucket_ok n b"
  by (simp add: bucket_ok_def)

lemma charge_ok [inv_intros]: "limiter_ok l \<Longrightarrow> limiter_ok (charge_unattributed ip key now l)"
  by (simp add: charge_unattributed_def unattributed_ok failed_ok limiter_unattributed)

lemma sweep_ok [inv_intros]: "limiter_ok l \<Longrightarrow> limiter_ok (sweep_if_full ip now l)"
  by (simp add: sweep_if_full_def pruneClients_ok)

lemma prune_unattributed_ok [inv_intros]: "limiter_ok l \<Longrightarrow> limiter_ok (prune_unattributed ip now l)"
  by (simp add: prune_unattributed_def unattributed_ok prune_ok limiter_unattributed)

lemma consume_coarse_ok [inv_intros]: "limiter_ok l \<Longrightarrow> limiter_ok (consume_coarse ip now l)"
  by (simp add: consume_coarse_def unattributed_ok bucket_next_ok limiter_unattributed)

lemma charge_clients [simp]: "fl_clients (charge_unattributed ip key now l) = fl_clients l"
  by (simp add: charge_unattributed_def)

lemma prune_unattributed_clients [simp]: "fl_clients (prune_unattributed ip now l) = fl_clients l"
  by (simp add: prune_unattributed_def)

lemma consume_coarse_clients [simp]: "fl_clients (consume_coarse ip now l) = fl_clients l"
  by (simp add: consume_coarse_def)

lemma sweep_present: "tget (fl_clients l) ip = Some b \<Longrightarrow> sweep_if_full ip now l = l"
  by (simp add: sweep_if_full_def)

lemma limiter_failed_ok:
  assumes "limiter_ok l" shows "limiter_ok (snd (limiter_failed ip key now l))"
proof -
  let ?l1 = "charge_unattributed ip key now l" and ?l2 = "sweep_if_full ip now (charge_unattributed ip key now l)"
  have 1: "limiter_ok ?l1" "limiter_ok ?l2" using assms by (simp_all add: inv_intros)
  show ?thesis
  proof (cases "tget (fl_clients l) ip")
    case None
    have "limiter_ok (?l2\<lparr>fl_clients := tput ip (bucket_failed key now authFailureBurst authRecoveryInterval new_bucket) (fl_clients ?l2)\<rparr>)"
      if "tlen (fl_clients ?l2) < maxFailureClients"
      by (rule put_client_ok [OF 1(2) failed_ok [OF new_ok]]) (use that in simp)
    then show ?thesis using 1(2) None by (simp add: limiter_failed_def Let_def)
  next
    case (Some b)
    have e: "?l2 = ?l1" using sweep_present [of ?l1 ip b] Some by simp
    have "limiter_ok (?l1\<lparr>fl_clients := tput ip (bucket_failed key now authFailureBurst authRecoveryInterval b) (fl_clients ?l1)\<rparr>)"
      by (rule put_client_ok [OF 1(1) failed_ok [OF client_ok [OF assms Some]]]) (simp add: Some)
    then show ?thesis by (simp add: limiter_failed_def Let_def Some e)
  qed
qed

lemma find_recovery_ok:
  assumes "limiter_ok l" "find_recovery ip now l = (rs, l1)"
  shows "limiter_ok l1 \<and> (\<forall>b. rs = BucketNext b \<longrightarrow> tget (fl_clients l1) ip = Some b \<and> bucket_ok authFailureBurst b)"
proof (cases "tget (fl_clients l) ip")
  case None
  then show ?thesis using assms sweep_ok [OF assms(1), of ip now] by (auto simp: find_recovery_def Let_def split: if_splits)
next
  case (Some b0)
  have b: "bucket_ok authFailureBurst (bucket_prune now b0)" by (rule prune_ok [OF client_ok [OF assms(1) Some]])
  then show ?thesis
    using assms(2) put_client_ok [OF assms(1) b, of ip] Some by (auto simp: find_recovery_def Let_def split: if_splits)
qed

lemma consume_recovery_ok:
  assumes "limiter_ok l" "\<And>b. rs = BucketNext b \<Longrightarrow> tget (fl_clients l) ip = Some b \<and> bucket_ok authFailureBurst b"
  shows "limiter_ok (consume_recovery ip now rs l)"
proof (cases rs)
  case (BucketNext b)
  then show ?thesis using assms(2) put_client_ok [OF assms(1), of "b\<lparr>fb_next := Some (now + authRecoveryInterval)\<rparr>" ip]
    by (simp add: consume_recovery_def bucket_next_ok)
next
  case Overflow
  then show ?thesis using assms(1) by (simp add: consume_recovery_def limiter_ok_def)
qed (use assms(1) in \<open>simp add: consume_recovery_def\<close>)

lemma limiter_allow_ok:
  assumes "limiter_ok l" shows "limiter_ok (snd (limiter_allow ip now l))"
proof -
  obtain rs l1 where f: "find_recovery ip now l = (rs, l1)" by fastforce
  note 1 = find_recovery_ok [OF assms f]
  have 2: "limiter_ok (prune_unattributed ip now l1)" using 1 by (simp add: inv_intros)
  have "limiter_ok (consume_coarse ip now (consume_recovery ip now rs (prune_unattributed ip now l1)))"
    by (rule consume_coarse_ok, rule consume_recovery_ok [OF 2]) (use 1 in simp)
  with 2 show ?thesis by (simp add: limiter_allow_def f Let_def)
qed

datatype limiter_event = LFailed string string time | LAllows string time

definition limiter_step :: "flimiter \<Rightarrow> limiter_event \<Rightarrow> flimiter" where
  "limiter_step l ev = (case ev of LFailed ip key now \<Rightarrow> snd (limiter_failed ip key now l) | LAllows ip now \<Rightarrow> snd (limiter_allow ip now l))"

definition limiter_event_time :: "limiter_event \<Rightarrow> time" where
  "limiter_event_time ev = (case ev of LFailed ip key now \<Rightarrow> now | LAllows ip now \<Rightarrow> now)"

interpretation limiter: invariant_machine limiter_step limiter_ok
  by unfold_locales (auto simp: limiter_step_def limiter_failed_ok limiter_allow_ok split: limiter_event.split)

lemma new_limiter_ok: "limiter_ok new_limiter"
  by (simp add: limiter_ok_def new_limiter_def bucket_ok_def new_bucket_def tlen_def)

subsection \<open>A held recovery deadline\<close>

text \<open>The client is on record and its next check is due no earlier than \<open>d\<close>.\<close>

definition held_until :: "string \<Rightarrow> time \<Rightarrow> flimiter \<Rightarrow> bool" where
  "held_until ip d l \<longleftrightarrow> (\<exists>b t. tget (fl_clients l) ip = Some b \<and> fb_next b = Some t \<and> d \<le> t)"

lemma prune_next [simp]: "fb_next (bucket_prune now b) = fb_next b"
  by (simp add: bucket_prune_def)

lemma failed_next: "fb_next (bucket_failed key now n r b) = fb_next b \<or> fb_next (bucket_failed key now n r b) = Some (now + r)"
  by (simp add: bucket_failed_def Let_def)

lemma held_put:
  "held_until ip d l \<Longrightarrow> (ip' = ip \<Longrightarrow> \<exists>t. fb_next b = Some t \<and> d \<le> t) \<Longrightarrow> held_until ip d (l\<lparr>fl_clients := tput ip' b (fl_clients l)\<rparr>)"
  by (auto simp: held_until_def)

lemma held_prune:
  assumes "limiter_ok l" "held_until ip d l" "now < d" shows "held_until ip d (pruneClients now l)"
proof -
  obtain b t where b: "tget (fl_clients l) ip = Some b" "fb_next b = Some t" "d \<le> t" using assms(2) by (auto simp: held_until_def)
  then have "kept_bucket now b = Some (bucket_prune now b)" using assms(3) by (simp add: kept_bucket_def Let_def before_deadline_def)
  then show ?thesis using assms(1) b pruneClients_get [of l now ip] by (simp add: held_until_def limiter_ok_def)
qed

lemma held_sweep: "limiter_ok l \<Longrightarrow> held_until ip d l \<Longrightarrow> now < d \<Longrightarrow> held_until ip d (sweep_if_full ip' now l)"
  by (simp add: sweep_if_full_def held_prune)

lemma held_clients: "fl_clients l' = fl_clients l \<Longrightarrow> held_until ip d l' = held_until ip d l"
  by (simp add: held_until_def)

lemma held_failed:
  assumes "limiter_ok l" "held_until ip d l" "now < d" "d \<le> now + authRecoveryInterval"
  shows "held_until ip d (snd (limiter_failed ip' key now l))"
proof -
  let ?l1 = "charge_unattributed ip' key now l" and ?l2 = "sweep_if_full ip' now (charge_unattributed ip' key now l)"
  have h1: "held_until ip d ?l1" using assms(2) by (simp add: held_clients [of ?l1 l])
  have h2: "held_until ip d ?l2" by (rule held_sweep [OF charge_ok [OF assms(1)] h1 assms(3)])
  show ?thesis
  proof (cases "tget (fl_clients l) ip'")
    case None
    then have "ip' \<noteq> ip" using assms(2) by (auto simp: held_until_def)
    then show ?thesis using h2 None by (simp add: limiter_failed_def Let_def held_put)
  next
    case (Some b)
    have "\<exists>t. fb_next (bucket_failed key now authFailureBurst authRecoveryInterval b) = Some t \<and> d \<le> t" if "ip' = ip"
      using failed_next [of key now authFailureBurst authRecoveryInterval b] assms(2,4) Some that by (auto simp: held_until_def)
    then show ?thesis using h2 Some by (simp add: limiter_failed_def Let_def held_put)
  qed
qed

lemma held_allow:
  assumes "limiter_ok l" "held_until ip d l" "now < d" "d \<le> now + authRecoveryInterval"
  shows "held_until ip d (snd (limiter_allow ip' now l))"
proof -
  obtain rs l1 where f: "find_recovery ip' now l = (rs, l1)" by fastforce
  have 1: "held_until ip d l1"
  proof (cases "tget (fl_clients l) ip'")
    case None
    then show ?thesis using f held_sweep [OF assms(1-3)] by (auto simp: find_recovery_def Let_def)
  next
    case (Some b)
    have "held_until ip d (l\<lparr>fl_clients := tput ip' (bucket_prune now b) (fl_clients l)\<rparr>)"
      by (rule held_put [OF assms(2)]) (use assms(2) Some in \<open>auto simp: held_until_def\<close>)
    then show ?thesis using f Some by (auto simp: find_recovery_def Let_def)
  qed
  let ?l2 = "prune_unattributed ip' now l1"
  have 2: "held_until ip d ?l2" using 1 by (simp add: held_clients [of ?l2 l1])
  have "held_until ip d (consume_recovery ip' now rs ?l2)"
  proof (cases rs)
    case (BucketNext b)
    then show ?thesis using held_put [OF 2, of ip' "b\<lparr>fb_next := Some (now + authRecoveryInterval)\<rparr>"] assms(4)
      by (simp add: consume_recovery_def)
  next
    case Overflow
    then show ?thesis using 2 by (simp add: consume_recovery_def held_until_def)
  qed (use 2 in \<open>simp add: consume_recovery_def\<close>)
  then have "held_until ip d (consume_coarse ip' now (consume_recovery ip' now rs ?l2))"
    by (simp add: held_clients [of "consume_coarse ip' now (consume_recovery ip' now rs ?l2)" "consume_recovery ip' now rs ?l2"])
  with 2 show ?thesis by (simp add: limiter_allow_def f Let_def)
qed

lemma held_run:
  assumes "limiter_ok l" "held_until ip d l" "list_all (\<lambda>e. limiter_event_time e < d \<and> d \<le> limiter_event_time e + authRecoveryInterval) evs"
  shows "held_until ip d (foldl limiter_step l evs)"
proof (rule limiter.run_invariant_of [where Q = "\<lambda>e. limiter_event_time e < d \<and> d \<le> limiter_event_time e + authRecoveryInterval"])
  fix l e assume "limiter_ok l" "held_until ip d l" "limiter_event_time e < d \<and> d \<le> limiter_event_time e + authRecoveryInterval"
  then show "held_until ip d (limiter_step l e)"
    by (cases e) (auto simp: limiter_step_def limiter_event_time_def held_failed held_allow)
qed (use assms in auto)

text \<open>The client has used up its burst: as many live failures on record as the burst allows.\<close>

definition saturated :: "string \<Rightarrow> time \<Rightarrow> flimiter \<Rightarrow> bool" where
  "saturated ip now l \<longleftrightarrow>
     (case tget (fl_clients l) ip of None \<Rightarrow> False | Some b \<Rightarrow> authFailureBurst \<le> tlen (fb_credentials (bucket_prune now b)))"

lemma allow_sets:
  assumes "saturated ip now l" "fst (limiter_allow ip now l)"
  shows "held_until ip (now + authRecoveryInterval) (snd (limiter_allow ip now l))"
proof -
  obtain b where b: "tget (fl_clients l) ip = Some b" "authFailureBurst \<le> tlen (fb_credentials (bucket_prune now b))"
    using assms(1) by (auto simp: saturated_def split: option.splits)
  then have f: "find_recovery ip now l = (BucketNext (bucket_prune now b), l\<lparr>fl_clients := tput ip (bucket_prune now b) (fl_clients l)\<rparr>)"
    by (simp add: find_recovery_def Let_def)
  show ?thesis
    using assms(2) by (auto simp: limiter_allow_def f Let_def consume_recovery_def held_until_def split: if_splits)
qed

lemma held_refuses:
  assumes "saturated ip now l" "held_until ip d l" "now < d"
  shows "\<not> fst (limiter_allow ip now l)"
proof -
  obtain b t where b: "tget (fl_clients l) ip = Some b" "fb_next b = Some t" "d \<le> t" "authFailureBurst \<le> tlen (fb_credentials (bucket_prune now b))"
    using assms(1,2) by (auto simp: saturated_def held_until_def)
  then have f: "find_recovery ip now l = (BucketNext (bucket_prune now b), l\<lparr>fl_clients := tput ip (bucket_prune now b) (fl_clients l)\<rparr>)"
    by (simp add: find_recovery_def Let_def)
  show ?thesis using b assms(3) by (simp add: limiter_allow_def f Let_def recovery_deadline_def before_deadline_def)
qed

subsection \<open>Properties of the budget\<close>

text \<open>
  The failure budget stays bounded whatever is thrown at it: at most 4096 clients are on record, each with
  at most twenty failed credentials, and the unattributed ones share at most two hundred.
\<close>

theorem failure_budget_bounded:
  fixes evs :: "limiter_event list"
  defines "l \<equiv> foldl limiter_step new_limiter evs"
  shows "tlen (fl_clients l) \<le> 4096
    \<and> list_all (\<lambda>ip. case tget (fl_clients l) ip of None \<Rightarrow> True | Some b \<Rightarrow> tlen (fb_credentials b) \<le> 20) ips
    \<and> tlen (fb_credentials (fl_unattributed l)) \<le> 200"
proof -
  have "limiter_ok l" unfolding l_def by (rule limiter.run_inv [OF new_limiter_ok])
  then show ?thesis
    by (auto simp: limiter_ok_def bucket_ok_def maxFailureClients_def authFailureBurst_def unattributedFailureBurst_def list_all_iff
        split: option.split)
qed

text \<open>
  C21: Past the burst a client gets one question a second: once a client with twenty live failures has been
  let through, no check of that client is let through again within the next second while it still has
  twenty live failures, whatever other failures and checks are accounted in between. (A failure that
  expires within the second ends the throttling; the hypotheses ask for twenty at both moments.)
\<close>

theorem failures_throttled:
  assumes "l = foldl limiter_step new_limiter evs0" "saturated ip t l" "fst (limiter_allow ip t l)"
    and "list_all (\<lambda>e. t \<le> limiter_event_time e \<and> limiter_event_time e \<le> t') evs" "t' < t + 10 ^ 9"
    and "l' = foldl limiter_step (snd (limiter_allow ip t l)) evs" "saturated ip t' l'"
  shows "\<not> fst (limiter_allow ip t' l')"
proof -
  have ok: "limiter_ok (snd (limiter_allow ip t l))"
    unfolding assms(1) by (rule limiter_allow_ok, rule limiter.run_inv [OF new_limiter_ok])
  have "list_all (\<lambda>e. limiter_event_time e < t + authRecoveryInterval \<and> t + authRecoveryInterval \<le> limiter_event_time e + authRecoveryInterval) evs"
    using assms(4,5) by (auto simp: list_all_iff authRecoveryInterval_def)
  then have "held_until ip (t + authRecoveryInterval) l'"
    unfolding assms(6) by (rule held_run [OF ok allow_sets [OF assms(2,3)]])
  then show ?thesis using held_refuses [OF assms(7)] assms(5) by (simp add: authRecoveryInterval_def)
qed

definition sample_failures :: "limiter_event list" where
  "sample_failures = map (\<lambda>i. LFailed ''ip:1'' (nat_digits i) 0) [0..<20]"

theorem failures_throttled_witness:
  "fst (limiter_allow ''ip:1'' (10 ^ 9) (foldl limiter_step new_limiter sample_failures))
   \<and> \<not> fst (limiter_allow ''ip:1'' (10 ^ 9 + 5)
         (foldl limiter_step (snd (limiter_allow ''ip:1'' (10 ^ 9) (foldl limiter_step new_limiter sample_failures)))
           [LFailed ''ip:1'' ''x'' (10 ^ 9 + 2)]))"
proof -
  let ?l = "foldl limiter_step new_limiter sample_failures"
  have s: "saturated ''ip:1'' (10 ^ 9) ?l" by code_simp
  have a: "fst (limiter_allow ''ip:1'' (10 ^ 9) ?l)" by code_simp
  have s': "saturated ''ip:1'' (10 ^ 9 + 5) (foldl limiter_step (snd (limiter_allow ''ip:1'' (10 ^ 9) ?l)) [LFailed ''ip:1'' ''x'' (10 ^ 9 + 2)])"
    by code_simp
  have "list_all (\<lambda>e. 10 ^ 9 \<le> limiter_event_time e \<and> limiter_event_time e \<le> 10 ^ 9 + 5) [LFailed ''ip:1'' ''x'' (10 ^ 9 + 2)]"
    by (simp add: limiter_event_time_def)
  from failures_throttled [OF refl s a this _ refl s'] a show ?thesis by simp
qed

subsection \<open>Admission\<close>

text \<open>
  A thread in \<open>enter\<close> takes a place of its class, then an execution slot; it counts as a waiter from the first
  time it has to wait until it returns. \<open>Entered\<close> and \<open>Quits\<close> are the moments before the deferred release of
  that waiting place, \<open>Leaving\<close> the moment between the two releases of \<open>leave\<close>. Followers of a flight and
  of a session lock share the waiting bound.
\<close>

datatype apc = AtClass | ClassWait | AtSlot bool | SlotQueue | Entered | Inside | Leaving | Quits | Follower | Out bool

record athread =
  at_reval :: bool
  at_pc :: apc

record admission =
  ad_slots :: nat
  ad_class :: "bool \<Rightarrow> nat"
  ad_waiters :: nat
  ad_threads :: "athread list"

definition slot_cap :: nat where "slot_cap = DefaultMaxConcurrentValidations"
definition auth_class_cap :: nat where "auth_class_cap = DefaultMaxConcurrentValidations - reservedAuthClassSlots"
definition waiter_cap :: nat where "waiter_cap = DefaultMaxValidationWaiters"

definition new_admission :: admission where
  "new_admission = \<lparr>ad_slots = 0, ad_class = (\<lambda>_. 0), ad_waiters = 0, ad_threads = []\<rparr>"

definition thread_at :: "admission \<Rightarrow> nat \<Rightarrow> apc" where
  "thread_at a i = at_pc (ad_threads a ! i)"

definition class_of :: "admission \<Rightarrow> nat \<Rightarrow> bool" where
  "class_of a i = at_reval (ad_threads a ! i)"

definition move_thread :: "nat \<Rightarrow> apc \<Rightarrow> admission \<Rightarrow> admission" where
  "move_thread i pc a = a\<lparr>ad_threads := (ad_threads a)[i := (ad_threads a ! i)\<lparr>at_pc := pc\<rparr>]\<rparr>"

definition add_class :: "bool \<Rightarrow> admission \<Rightarrow> admission" where
  "add_class c a = a\<lparr>ad_class := (ad_class a)(c := Suc (ad_class a c))\<rparr>"

definition drop_class :: "bool \<Rightarrow> admission \<Rightarrow> admission" where
  "drop_class c a = a\<lparr>ad_class := (ad_class a)(c := ad_class a c - 1)\<rparr>"

text \<open>The non-blocking attempt of \<open>acquire\<close>, on the class and on the slots.\<close>

definition try_class :: "bool \<Rightarrow> nat \<Rightarrow> admission \<Rightarrow> admission" where
  "try_class cancelled i a =
     (if cancelled then move_thread i (Out False) a
      else if ad_class a (class_of a i) < auth_class_cap then move_thread i (AtSlot False) (add_class (class_of a i) a)
      else if ad_waiters a < waiter_cap then move_thread i ClassWait (a\<lparr>ad_waiters := Suc (ad_waiters a)\<rparr>)
      else move_thread i (Out False) a)"

definition try_slot :: "bool \<Rightarrow> nat \<Rightarrow> bool \<Rightarrow> admission \<Rightarrow> admission" where
  "try_slot cancelled i waiting a =
     (let give_up = move_thread i (if waiting then Quits else Out False) (drop_class (class_of a i) a)
      in if cancelled then give_up
         else if ad_slots a < slot_cap then move_thread i (if waiting then Entered else Inside) (a\<lparr>ad_slots := Suc (ad_slots a)\<rparr>)
         else if waiting then move_thread i SlotQueue a
         else if ad_waiters a < waiter_cap then move_thread i SlotQueue (a\<lparr>ad_waiters := Suc (ad_waiters a)\<rparr>)
         else give_up)"

datatype admission_event = Enters bool | Tries nat bool | Gets nat | Cancels nat | Settles nat | Leaves nat | Follows | Unfollows nat

definition admission_step :: "admission \<Rightarrow> admission_event \<Rightarrow> admission" where
  "admission_step a ev =
     (let n = length (ad_threads a)
      in case ev of
        Enters c \<Rightarrow> a\<lparr>ad_threads := ad_threads a @ [\<lparr>at_reval = c, at_pc = AtClass\<rparr>]\<rparr>
      | Follows \<Rightarrow>
          if ad_waiters a < waiter_cap
          then a\<lparr>ad_threads := ad_threads a @ [\<lparr>at_reval = False, at_pc = Follower\<rparr>], ad_waiters := Suc (ad_waiters a)\<rparr> else a
      | Tries i cancelled \<Rightarrow>
          if i < n then (case thread_at a i of AtClass \<Rightarrow> try_class cancelled i a | AtSlot w \<Rightarrow> try_slot cancelled i w a | _ \<Rightarrow> a) else a
      | Gets i \<Rightarrow>
          if i < n then (case thread_at a i of
              ClassWait \<Rightarrow> if ad_class a (class_of a i) < auth_class_cap
                then move_thread i (AtSlot True) (add_class (class_of a i) a) else a
            | SlotQueue \<Rightarrow> if ad_slots a < slot_cap then move_thread i Entered (a\<lparr>ad_slots := Suc (ad_slots a)\<rparr>) else a
            | _ \<Rightarrow> a) else a
      | Cancels i \<Rightarrow>
          if i < n then (case thread_at a i of
              ClassWait \<Rightarrow> move_thread i Quits a
            | SlotQueue \<Rightarrow> move_thread i Quits (drop_class (class_of a i) a)
            | _ \<Rightarrow> a) else a
      | Settles i \<Rightarrow>
          if i < n then (case thread_at a i of
              Entered \<Rightarrow> move_thread i Inside (a\<lparr>ad_waiters := ad_waiters a - 1\<rparr>)
            | Quits \<Rightarrow> move_thread i (Out False) (a\<lparr>ad_waiters := ad_waiters a - 1\<rparr>)
            | _ \<Rightarrow> a) else a
      | Leaves i \<Rightarrow>
          if i < n then (case thread_at a i of
              Inside \<Rightarrow> move_thread i Leaving (a\<lparr>ad_slots := ad_slots a - 1\<rparr>)
            | Leaving \<Rightarrow> move_thread i (Out True) (drop_class (class_of a i) a)
            | _ \<Rightarrow> a) else a
      | Unfollows i \<Rightarrow>
          if i < n then (case thread_at a i of
              Follower \<Rightarrow> move_thread i (Out True) (a\<lparr>ad_waiters := ad_waiters a - 1\<rparr>)
            | _ \<Rightarrow> a) else a)"

definition in_exec :: "apc \<Rightarrow> bool" where
  "in_exec pc \<longleftrightarrow> pc = Entered \<or> pc = Inside"

definition in_class :: "apc \<Rightarrow> bool" where
  "in_class pc = (case pc of AtSlot _ \<Rightarrow> True | SlotQueue \<Rightarrow> True | Entered \<Rightarrow> True | Inside \<Rightarrow> True | Leaving \<Rightarrow> True | _ \<Rightarrow> False)"

definition in_wait :: "apc \<Rightarrow> bool" where
  "in_wait pc = (case pc of ClassWait \<Rightarrow> True | AtSlot w \<Rightarrow> w | SlotQueue \<Rightarrow> True | Entered \<Rightarrow> True | Quits \<Rightarrow> True | Follower \<Rightarrow> True
     | _ \<Rightarrow> False)"

definition threads_in :: "(athread \<Rightarrow> bool) \<Rightarrow> admission \<Rightarrow> nat" where
  "threads_in P a = length (filter P (ad_threads a))"

definition admission_ok :: "admission \<Rightarrow> bool" where
  "admission_ok a \<longleftrightarrow>
     threads_in (\<lambda>t. in_exec (at_pc t)) a = ad_slots a \<and> ad_slots a \<le> slot_cap
   \<and> (\<forall>c. threads_in (\<lambda>t. in_class (at_pc t) \<and> at_reval t = c) a = ad_class a c \<and> ad_class a c \<le> auth_class_cap)
   \<and> threads_in (\<lambda>t. in_wait (at_pc t)) a = ad_waiters a \<and> ad_waiters a \<le> waiter_cap"

text \<open>One thread moves and the three counters follow it.\<close>

lemma move_admission:
  assumes "admission_ok a" "i < length (ad_threads a)" "ad_threads b = ad_threads a"
    and "ad_slots b + of_bool (in_exec (thread_at a i)) = ad_slots a + of_bool (in_exec pc)" "ad_slots b \<le> slot_cap"
    and "ad_class b = (ad_class a)(class_of a i := k)"
    and "k + of_bool (in_class (thread_at a i)) = ad_class a (class_of a i) + of_bool (in_class pc)" "k \<le> auth_class_cap"
    and "ad_waiters b + of_bool (in_wait (thread_at a i)) = ad_waiters a + of_bool (in_wait pc)" "ad_waiters b \<le> waiter_cap"
  shows "admission_ok (move_thread i pc b)"
proof -
  let ?t = "(ad_threads a ! i)\<lparr>at_pc := pc\<rparr>"
  note u = filter_length_update [OF assms(2)]
  have "threads_in (\<lambda>t. in_exec (at_pc t)) (move_thread i pc b) = ad_slots b"
    using u [of "\<lambda>t. in_exec (at_pc t)" ?t] assms(1,3,4) by (simp add: admission_ok_def threads_in_def move_thread_def thread_at_def)
  moreover have "threads_in (\<lambda>t. in_wait (at_pc t)) (move_thread i pc b) = ad_waiters b"
    using u [of "\<lambda>t. in_wait (at_pc t)" ?t] assms(1,3,9) by (simp add: admission_ok_def threads_in_def move_thread_def thread_at_def)
  moreover have "threads_in (\<lambda>t. in_class (at_pc t) \<and> at_reval t = c) (move_thread i pc b) = ad_class b c" for c
    using u [of "\<lambda>t. in_class (at_pc t) \<and> at_reval t = c" ?t] assms(1,3,6,7)
    by (auto simp: admission_ok_def threads_in_def move_thread_def thread_at_def class_of_def split: if_splits)
  moreover have "ad_class b c \<le> auth_class_cap" for c using assms(1,6,8) by (simp add: admission_ok_def)
  ultimately show ?thesis using assms(5,10) by (simp add: admission_ok_def move_thread_def)
qed

lemma admission_held:
  assumes "admission_ok a" "i < length (ad_threads a)"
  shows "in_exec (thread_at a i) \<Longrightarrow> 0 < ad_slots a" "in_class (thread_at a i) \<Longrightarrow> 0 < ad_class a (class_of a i)"
    "in_wait (thread_at a i) \<Longrightarrow> 0 < ad_waiters a"
  using assms filter_pos [OF assms(2), of "\<lambda>t. in_exec (at_pc t)"] filter_pos [OF assms(2), of "\<lambda>t. in_wait (at_pc t)"]
    filter_pos [OF assms(2), of "\<lambda>t. in_class (at_pc t) \<and> at_reval t = class_of a i"]
  by (auto simp: admission_ok_def threads_in_def thread_at_def class_of_def)

lemma admission_bounds:
  "admission_ok a \<Longrightarrow> ad_slots a \<le> slot_cap \<and> ad_class a c \<le> auth_class_cap \<and> ad_waiters a \<le> waiter_cap
    \<and> ad_slots a - Suc 0 \<le> slot_cap \<and> ad_class a c - Suc 0 \<le> auth_class_cap \<and> ad_waiters a - Suc 0 \<le> waiter_cap"
  by (auto simp: admission_ok_def intro: le_trans [OF diff_le_self])

lemmas pc_sets = in_exec_def in_class_def in_wait_def

lemma class_same: "(ad_class a)(c := ad_class a c) = ad_class a"
  by simp

lemma try_class_ok:
  assumes "admission_ok a" "i < length (ad_threads a)" "thread_at a i = AtClass"
  shows "admission_ok (try_class cancelled i a)"
proof -
  note m = move_admission [OF assms(1,2)] and b = admission_bounds [OF assms(1), of "class_of a i"]
  have "admission_ok (move_thread i (Out False) a)"
    by (rule m [where k = "ad_class a (class_of a i)"]) (use b in \<open>simp_all add: assms(3) pc_sets\<close>)
  moreover have "admission_ok (move_thread i (AtSlot False) (add_class (class_of a i) a))" if "ad_class a (class_of a i) < auth_class_cap"
    by (rule m [where k = "Suc (ad_class a (class_of a i))"]) (use b that in \<open>simp_all add: assms(3) pc_sets add_class_def\<close>)
  moreover have "admission_ok (move_thread i ClassWait (a\<lparr>ad_waiters := Suc (ad_waiters a)\<rparr>))" if "ad_waiters a < waiter_cap"
    by (rule m [where k = "ad_class a (class_of a i)"]) (use b that in \<open>simp_all add: assms(3) pc_sets\<close>)
  ultimately show ?thesis by (simp add: try_class_def)
qed

lemma try_slot_ok:
  assumes "admission_ok a" "i < length (ad_threads a)" "thread_at a i = AtSlot w"
  shows "admission_ok (try_slot cancelled i w a)"
proof -
  note m = move_admission [OF assms(1,2)] and b = admission_bounds [OF assms(1), of "class_of a i"]
  have c: "0 < ad_class a (class_of a i)" using admission_held(2) [OF assms(1,2)] assms(3) by (simp add: in_class_def)
  have "admission_ok (move_thread i (if w then Quits else Out False) (drop_class (class_of a i) a))"
    by (rule m [where k = "ad_class a (class_of a i) - 1"]) (use b c in \<open>simp_all add: assms(3) pc_sets drop_class_def\<close>)
  moreover have "admission_ok (move_thread i (if w then Entered else Inside) (a\<lparr>ad_slots := Suc (ad_slots a)\<rparr>))" if "ad_slots a < slot_cap"
    by (rule m [where k = "ad_class a (class_of a i)"]) (use b that in \<open>simp_all add: assms(3) pc_sets\<close>)
  moreover have "admission_ok (move_thread i SlotQueue a)" if w
    by (rule m [where k = "ad_class a (class_of a i)"]) (use b that in \<open>simp_all add: assms(3) pc_sets\<close>)
  moreover have "admission_ok (move_thread i SlotQueue (a\<lparr>ad_waiters := Suc (ad_waiters a)\<rparr>))" if "\<not> w" "ad_waiters a < waiter_cap"
    by (rule m [where k = "ad_class a (class_of a i)"]) (use b that in \<open>simp_all add: assms(3) pc_sets\<close>)
  ultimately show ?thesis unfolding try_slot_def Let_def by (cases w) simp_all
qed

lemma thread_moves:
  assumes "admission_ok a" "i < length (ad_threads a)"
  shows "thread_at a i = ClassWait \<Longrightarrow> ad_class a (class_of a i) < auth_class_cap \<Longrightarrow>
      admission_ok (move_thread i (AtSlot True) (add_class (class_of a i) a))"
    and "thread_at a i = SlotQueue \<Longrightarrow> ad_slots a < slot_cap \<Longrightarrow> admission_ok (move_thread i Entered (a\<lparr>ad_slots := Suc (ad_slots a)\<rparr>))"
    and "thread_at a i = ClassWait \<Longrightarrow> admission_ok (move_thread i Quits a)"
    and "thread_at a i = SlotQueue \<Longrightarrow> admission_ok (move_thread i Quits (drop_class (class_of a i) a))"
    and "thread_at a i = Entered \<Longrightarrow> admission_ok (move_thread i Inside (a\<lparr>ad_waiters := ad_waiters a - 1\<rparr>))"
    and "thread_at a i = Quits \<Longrightarrow> admission_ok (move_thread i (Out False) (a\<lparr>ad_waiters := ad_waiters a - 1\<rparr>))"
    and "thread_at a i = Inside \<Longrightarrow> admission_ok (move_thread i Leaving (a\<lparr>ad_slots := ad_slots a - 1\<rparr>))"
    and "thread_at a i = Leaving \<Longrightarrow> admission_ok (move_thread i (Out True) (drop_class (class_of a i) a))"
    and "thread_at a i = Follower \<Longrightarrow> admission_ok (move_thread i (Out True) (a\<lparr>ad_waiters := ad_waiters a - 1\<rparr>))"
proof -
  note m = move_admission [OF assms] and b = admission_bounds [OF assms(1), of "class_of a i"] and h = admission_held [OF assms]
  let ?k = "ad_class a (class_of a i)"
  show "thread_at a i = ClassWait \<Longrightarrow> ?k < auth_class_cap \<Longrightarrow> admission_ok (move_thread i (AtSlot True) (add_class (class_of a i) a))"
    by (rule m [where k = "Suc ?k"]) (use b in \<open>simp_all add: pc_sets add_class_def\<close>)
  show "thread_at a i = SlotQueue \<Longrightarrow> ad_slots a < slot_cap \<Longrightarrow> admission_ok (move_thread i Entered (a\<lparr>ad_slots := Suc (ad_slots a)\<rparr>))"
    by (rule m [where k = ?k]) (use b in \<open>simp_all add: pc_sets\<close>)
  show "thread_at a i = ClassWait \<Longrightarrow> admission_ok (move_thread i Quits a)"
    by (rule m [where k = ?k]) (use b in \<open>simp_all add: pc_sets\<close>)
  show "thread_at a i = SlotQueue \<Longrightarrow> admission_ok (move_thread i Quits (drop_class (class_of a i) a))"
    by (rule m [where k = "?k - 1"]) (use b h in \<open>simp_all add: pc_sets drop_class_def\<close>)
  show "thread_at a i = Entered \<Longrightarrow> admission_ok (move_thread i Inside (a\<lparr>ad_waiters := ad_waiters a - 1\<rparr>))"
    by (rule m [where k = ?k]) (use b h in \<open>simp_all add: pc_sets\<close>)
  show "thread_at a i = Quits \<Longrightarrow> admission_ok (move_thread i (Out False) (a\<lparr>ad_waiters := ad_waiters a - 1\<rparr>))"
    by (rule m [where k = ?k]) (use b h in \<open>simp_all add: pc_sets\<close>)
  show "thread_at a i = Inside \<Longrightarrow> admission_ok (move_thread i Leaving (a\<lparr>ad_slots := ad_slots a - 1\<rparr>))"
    by (rule m [where k = ?k]) (use b h in \<open>simp_all add: pc_sets\<close>)
  show "thread_at a i = Leaving \<Longrightarrow> admission_ok (move_thread i (Out True) (drop_class (class_of a i) a))"
    by (rule m [where k = "?k - 1"]) (use b h in \<open>simp_all add: pc_sets drop_class_def\<close>)
  show "thread_at a i = Follower \<Longrightarrow> admission_ok (move_thread i (Out True) (a\<lparr>ad_waiters := ad_waiters a - 1\<rparr>))"
    by (rule m [where k = ?k]) (use b h in \<open>simp_all add: pc_sets\<close>)
qed

lemma admission_step_ok:
  assumes "admission_ok a" shows "admission_ok (admission_step a ev)"
proof (cases ev)
  case (Enters c)
  have "admission_ok (a\<lparr>ad_threads := ad_threads a @ [\<lparr>at_reval = c, at_pc = AtClass\<rparr>]\<rparr>)"
    using assms by (simp add: admission_ok_def threads_in_def pc_sets)
  then show ?thesis by (simp add: admission_step_def Enters)
next
  case Follows
  have "admission_ok (a\<lparr>ad_threads := ad_threads a @ [\<lparr>at_reval = False, at_pc = Follower\<rparr>], ad_waiters := Suc (ad_waiters a)\<rparr>)"
    if "ad_waiters a < waiter_cap"
    using assms that by (simp add: admission_ok_def threads_in_def pc_sets)
  then show ?thesis using assms by (simp add: admission_step_def Follows)
next
  case (Tries i cancelled)
  then show ?thesis using assms try_class_ok try_slot_ok by (simp add: admission_step_def Let_def split: apc.split)
next
  case (Gets i)
  then show ?thesis using assms thread_moves(1,2) by (simp add: admission_step_def Let_def split: apc.split)
next
  case (Cancels i)
  then show ?thesis using assms thread_moves(3,4) by (simp add: admission_step_def Let_def split: apc.split)
next
  case (Settles i)
  then show ?thesis using assms thread_moves(5,6) by (simp add: admission_step_def Let_def split: apc.split)
next
  case (Leaves i)
  then show ?thesis using assms thread_moves(7,8) by (simp add: admission_step_def Let_def split: apc.split)
next
  case (Unfollows i)
  then show ?thesis using assms thread_moves(9) by (simp add: admission_step_def Let_def split: apc.split)
qed

interpretation admissions: invariant_machine admission_step admission_ok
  by unfold_locales (rule admission_step_ok)

lemma new_admission_ok: "admission_ok new_admission"
  by (simp add: admission_ok_def new_admission_def threads_in_def)

lemma exec_in_class: "in_exec pc \<Longrightarrow> in_class pc"
  by (auto simp: pc_sets)

lemma filter_length_mono: "(\<And>x. P x \<Longrightarrow> Q x) \<Longrightarrow> length (filter P xs) \<le> length (filter Q xs)"
  by (induction xs) auto

text \<open>
  Credential checks stay bounded and neither kind starves the other: however the threads interleave, at
  most eight run at once and at most 64 wait, and the new sign-ins, like the revalidations, never hold more than six of the
  eight slots, so the other kind always has two.
\<close>

theorem admission_reserved:
  fixes evs :: "admission_event list"
  defines "a \<equiv> foldl admission_step new_admission evs"
  shows "threads_in (\<lambda>t. in_exec (at_pc t)) a \<le> 8
    \<and> threads_in (\<lambda>t. in_exec (at_pc t) \<and> at_reval t = c) a \<le> 6
    \<and> threads_in (\<lambda>t. in_wait (at_pc t)) a \<le> 64"
proof -
  have ok: "admission_ok a" unfolding a_def by (rule admissions.run_inv [OF new_admission_ok])
  have "threads_in (\<lambda>t. in_exec (at_pc t) \<and> at_reval t = c) a \<le> threads_in (\<lambda>t. in_class (at_pc t) \<and> at_reval t = c) a"
    unfolding threads_in_def by (rule filter_length_mono) (auto dest: exec_in_class)
  moreover have "threads_in (\<lambda>t. in_class (at_pc t) \<and> at_reval t = c) a \<le> auth_class_cap" using ok by (auto simp: admission_ok_def)
  ultimately have "threads_in (\<lambda>t. in_exec (at_pc t) \<and> at_reval t = c) a \<le> auth_class_cap" by (rule le_trans)
  then show ?thesis
    using ok by (auto simp: admission_ok_def slot_cap_def auth_class_cap_def waiter_cap_def
      DefaultMaxConcurrentValidations_def reservedAuthClassSlots_def DefaultMaxValidationWaiters_def)
qed

text \<open>Whether some step of a thread is possible that is neither a new request nor a context that ends.\<close>

definition can_move :: "admission \<Rightarrow> nat \<Rightarrow> bool" where
  "can_move a i = (case thread_at a i of
      AtSlot _ \<Rightarrow> True | Entered \<Rightarrow> True | Inside \<Rightarrow> True | Leaving \<Rightarrow> True
    | ClassWait \<Rightarrow> ad_class a (class_of a i) < auth_class_cap
    | SlotQueue \<Rightarrow> ad_slots a < slot_cap
    | _ \<Rightarrow> False)"

lemma thread_of_count: "0 < threads_in P a \<Longrightarrow> \<exists>i < length (ad_threads a). P (ad_threads a ! i)"
  by (auto simp: threads_in_def filter_empty_conv in_set_conv_nth)

lemma queue_moves:
  assumes "admission_ok a" "i < length (ad_threads a)" "thread_at a i = SlotQueue"
  shows "\<exists>j < length (ad_threads a). can_move a j"
proof (cases "ad_slots a < slot_cap")
  case True
  then show ?thesis using assms(2,3) by (auto simp: can_move_def)
next
  case False
  then have "0 < threads_in (\<lambda>t. in_exec (at_pc t)) a"
    using assms(1) by (simp add: admission_ok_def slot_cap_def DefaultMaxConcurrentValidations_def)
  then obtain j where "j < length (ad_threads a)" "in_exec (at_pc (ad_threads a ! j))" using thread_of_count by blast
  then show ?thesis by (auto simp: can_move_def thread_at_def in_exec_def intro!: exI [of _ j])
qed

text \<open>
  The two-stage admission never locks itself up: whenever a check waits, for its class or for a slot, some
  check can take a step of its own, without any context ending and without any new request.
\<close>

theorem admission_no_deadlock:
  assumes "a = foldl admission_step new_admission evs" "i < length (ad_threads a)"
    and "thread_at a i = ClassWait \<or> thread_at a i = SlotQueue"
  shows "\<exists>j < length (ad_threads a). can_move a j"
proof -
  have ok: "admission_ok a" unfolding assms(1) by (rule admissions.run_inv [OF new_admission_ok])
  show ?thesis
  proof (cases "thread_at a i = SlotQueue \<or> ad_class a (class_of a i) < auth_class_cap")
    case True
    then show ?thesis using queue_moves [OF ok assms(2)] assms(2,3) by (auto simp: can_move_def)
  next
    case False
    then have "0 < threads_in (\<lambda>t. in_class (at_pc t) \<and> at_reval t = class_of a i) a"
      using ok by (simp add: admission_ok_def auth_class_cap_def DefaultMaxConcurrentValidations_def reservedAuthClassSlots_def)
    then obtain j where j: "j < length (ad_threads a)" "in_class (thread_at a j)" 
      using thread_of_count [of "\<lambda>t. in_class (at_pc t) \<and> at_reval t = class_of a i" a] by (auto simp: thread_at_def)
    show ?thesis
    proof (cases "thread_at a j = SlotQueue")
      case True
      then show ?thesis using queue_moves [OF ok j(1)] by blast
    next
      case False
      then show ?thesis using j by (auto simp: in_class_def can_move_def intro!: exI [of _ j] split: apc.splits)
    qed
  qed
qed

definition sample_admission :: "admission_event list" where
  "sample_admission = concat (map (\<lambda>i. [Enters True, Tries i False, Tries i False]) [0..<6])
     @ concat (map (\<lambda>i. [Enters False, Tries i False, Tries i False]) [6..<9])"

theorem admission_no_deadlock_witness:
  "thread_at (foldl admission_step new_admission sample_admission) 8 = SlotQueue
   \<and> (\<exists>j < length (ad_threads (foldl admission_step new_admission sample_admission)).
        can_move (foldl admission_step new_admission sample_admission) j)"
proof -
  have w: "8 < length (ad_threads (foldl admission_step new_admission sample_admission))"
    "thread_at (foldl admission_step new_admission sample_admission) 8 = SlotQueue" by code_simp+
  then show ?thesis using admission_no_deadlock [OF refl w(1)] by blast
qed

end
