(* ===== verification/Sessions.thy ===== *)
theory Sessions
  imports Auth_Limits
begin

section \<open>The session store (internal/web/session.go)\<close>

text \<open>
  The sessions of the main listener and their three indexes. A session is an object the indexes share, so the
  store has a heap and a pointer is its index there; objects are never freed. Both eviction queues
  are lists in insertion order. \<open>linked\<close> is the test of the order link: a pointer is linked exactly when it is
  in the queue. The hash of a credential (\<open>qtsauth.CacheKey\<close>) is a parameter.
\<close>

definition sessionTTL :: time where "sessionTTL = 12 * 3600 * 10 ^ 9"
definition qtsUnavailableGrace :: time where "qtsUnavailableGrace = 5 * 60 * 10 ^ 9"
definition DefaultMaxSessions :: nat where "DefaultMaxSessions = 10000"
definition DefaultMaxSessionsPerUser :: nat where "DefaultMaxSessionsPerUser = 16"
definition maxSessionAuthWaiters :: nat where "maxSessionAuthWaiters = 8"

record principal =
  pr_User :: string
  pr_UID :: int
  pr_GID :: int
  pr_Groups :: "int list"
  pr_Root :: bool

definition principal_of :: "ident \<Rightarrow> principal" where
  "principal_of i = \<lparr>pr_User = i_Name i, pr_UID = i_UID i, pr_GID = i_GID i, pr_Groups = i_Groups i, pr_Root = False\<rparr>"

record sess =
  se_id :: string
  se_csrf :: string
  se_binding :: string
  se_kind :: string
  se_who :: principal
  se_admin :: bool
  se_partial :: bool
  se_door :: string
  se_dead :: bool
  se_user :: string
  se_note :: string
  se_cred :: cred
  se_checked :: time
  se_unavailableSince :: "time option"
  se_expires :: time

record sstore =
  ss_heap :: "sess list"
  ss_sessions :: "(string, nat) table"
  ss_byCredential :: "(string, nat) table"
  ss_order :: "nat list"
  ss_byUser :: "(string, nat list) table"
  ss_archiveSelections :: "(string, string list) table"
  ss_lookups :: nat

definition new_store :: sstore where
  "new_store = \<lparr>ss_heap = [], ss_sessions = [], ss_byCredential = [], ss_order = [], ss_byUser = [], ss_archiveSelections = [], ss_lookups = 0\<rparr>"

definition update_sess :: "nat \<Rightarrow> (sess \<Rightarrow> sess) \<Rightarrow> sstore \<Rightarrow> sstore" where
  "update_sess p f st = st\<lparr>ss_heap := (ss_heap st)[p := f (ss_heap st ! p)]\<rparr>"

definition users_of :: "sstore \<Rightarrow> string \<Rightarrow> nat list" where
  \<comment> \<open>nil and the empty list alike\<close>
  "users_of st u = (case tget (ss_byUser st) u of None \<Rightarrow> [] | Some l \<Rightarrow> l)"

definition unlink_session :: "nat \<Rightarrow> sstore \<Rightarrow> sstore" where
  "unlink_session p st =
     (if \<not> List.member (ss_order st) p then st
      else let u = se_user (ss_heap st ! p); l = remove1 p (users_of st u)
           in st\<lparr>ss_order := remove1 p (ss_order st),
                 ss_byUser := (if l = [] then tdel u (ss_byUser st) else tput u l (ss_byUser st))\<rparr>)"

definition removeSession :: "nat option \<Rightarrow> sstore \<Rightarrow> sstore" where
  "removeSession old st =
     (case old of
        None \<Rightarrow> st
      | Some p \<Rightarrow>
          let s = ss_heap st ! p;
              st1 = update_sess p (\<lambda>s. s\<lparr>se_dead := True\<rparr>) st;
              st2 = st1\<lparr>ss_sessions := tdel (se_id s) (ss_sessions st1),
                        ss_archiveSelections := tdel (se_id s) (ss_archiveSelections st1)\<rparr>;
              st3 = (if tget (ss_byCredential st2) (se_binding s) = Some p
                     then st2\<lparr>ss_byCredential := tdel (se_binding s) (ss_byCredential st2)\<rparr> else st2)
          in unlink_session p st3)"

definition destroy :: "string \<Rightarrow> sstore \<Rightarrow> sstore" where
  "destroy sid st = removeSession (tget (ss_sessions st) sid) st"

definition reclaimExpired :: "nat \<Rightarrow> time \<Rightarrow> sstore \<Rightarrow> bool \<times> sstore" where
  "reclaimExpired p now st =
     (let expired = \<not> now < se_expires (ss_heap st ! p)
      in (expired, if expired then removeSession (Some p) st else st))"

definition lookupSession :: "string \<Rightarrow> string \<Rightarrow> sstore \<Rightarrow> nat option \<times> sstore" where
  "lookupSession sid binding st =
     (if sid \<noteq> [] then tget (ss_sessions st) sid else if binding \<noteq> [] then tget (ss_byCredential st) binding else None,
      st\<lparr>ss_lookups := Suc (ss_lookups st)\<rparr>)"

text \<open>The sweep under pressure, over the sessions of the map.\<close>

definition sweep_sessions :: "time \<Rightarrow> sstore \<Rightarrow> sstore" where
  "sweep_sessions now st = foldl (\<lambda>st p. snd (reclaimExpired p now st)) st (map snd (ss_sessions st))"

text \<open>
  The eviction loop over the inserter's own sessions; False when it has none left and the store is still full.
  The code would not return if a queued session were not linked, which \<open>sessions_ok\<close> below excludes.
\<close>

function evict_own :: "nat \<Rightarrow> string \<Rightarrow> sstore \<Rightarrow> bool \<times> sstore" where
  "evict_own maxTotal u st =
     (if tlen (ss_sessions st) < maxTotal then (True, st)
      else case users_of st u of
        [] \<Rightarrow> (False, st)
      | p # ps \<Rightarrow> if \<not> List.member (ss_order st) p then (False, st)
          else evict_own maxTotal u (removeSession (Some p) st))"
  by pat_completeness auto

definition limit_or :: "int \<Rightarrow> nat \<Rightarrow> nat" where
  "limit_or n d = (if n \<le> 0 then d else nat n)"

lemma update_sess_frame [simp]:
  "ss_sessions (update_sess p f st) = ss_sessions st" "ss_byCredential (update_sess p f st) = ss_byCredential st"
  "ss_order (update_sess p f st) = ss_order st" "ss_byUser (update_sess p f st) = ss_byUser st"
  "ss_archiveSelections (update_sess p f st) = ss_archiveSelections st" "length (ss_heap (update_sess p f st)) = length (ss_heap st)"
  by (simp_all add: update_sess_def)

lemma removeSession_order [simp]: "ss_order (removeSession (Some p) st) = remove1 p (ss_order st)"
  by (auto simp: removeSession_def unlink_session_def Let_def remove1_idem)

termination evict_own
  by (relation "measure (\<lambda>(m, u, st). length (ss_order st))")
    (auto simp: length_remove1 dest: length_pos_if_in_set)

declare evict_own.simps [simp del]

definition link_session :: "nat \<Rightarrow> sstore \<Rightarrow> sstore" where
  "link_session p st =
     (let s = ss_heap st ! p
      in st\<lparr>ss_order := ss_order st @ [p], ss_byUser := tput (se_user s) (users_of st (se_user s) @ [p]) (ss_byUser st),
            ss_sessions := tput (se_id s) p (ss_sessions st),
            ss_byCredential := (if se_binding s = [] then ss_byCredential st else tput (se_binding s) p (ss_byCredential st))\<rparr>)"

definition evict_over :: "nat \<Rightarrow> string \<Rightarrow> sstore \<Rightarrow> sstore" where
  "evict_over maxUser u st =
     (case users_of st u of [] \<Rightarrow> st | q # qs \<Rightarrow> if length (users_of st u) \<ge> maxUser then removeSession (Some q) st else st)"

definition pressed :: "nat \<Rightarrow> nat \<Rightarrow> string \<Rightarrow> sstore \<Rightarrow> bool" where
  "pressed maxTotal maxUser u st \<longleftrightarrow> tlen (ss_sessions st) \<ge> maxTotal \<or> users_of st u \<noteq> [] \<and> length (users_of st u) \<ge> maxUser"

definition add_object :: "sess \<Rightarrow> sstore \<Rightarrow> sstore" where
  "add_object s st = st\<lparr>ss_heap := ss_heap st @ [s]\<rparr>"

definition insertSession :: "int \<Rightarrow> int \<Rightarrow> time \<Rightarrow> time \<Rightarrow> sess \<Rightarrow> sstore \<Rightarrow> nat option \<times> sstore" where
  \<comment> \<open>\<open>now1\<close>, \<open>now2\<close>: the readings at the duplicate and at the sweep; None: the store is full\<close>
  "insertSession maxSessions maxPerUser now1 now2 s0 st0 =
     (let p = length (ss_heap st0); s = s0\<lparr>se_user := pr_User (se_who s0)\<rparr>; u = se_user s;
          maxTotal = limit_or maxSessions DefaultMaxSessions; maxUser = limit_or maxPerUser DefaultMaxSessionsPerUser;
          old = (if se_binding s = [] then None else tget (ss_byCredential st0) (se_binding s));
          dup = (case old of None \<Rightarrow> (True, st0) | Some q \<Rightarrow> reclaimExpired q now1 st0)
      in if \<not> fst dup then (old, st0)
         else let st1 = add_object s (snd dup);
                  st2 = (if pressed maxTotal maxUser u st1 then sweep_sessions now2 st1 else st1)
              in case evict_own maxTotal u (evict_over maxUser u st2) of
                   (False, st4) \<Rightarrow> (None, st4)
                 | (True, st4) \<Rightarrow> (Some p, link_session p st4))"

subsection \<open>What the store keeps\<close>

definition indexes_ok :: "sstore \<Rightarrow> bool" where
  "indexes_ok st \<longleftrightarrow> distinct (ss_order st) \<and> table_ok (ss_sessions st)
     \<and> (\<forall>sid p. (tget (ss_sessions st) sid = Some p) = (p \<in> set (ss_order st) \<and> se_id (ss_heap st ! p) = sid))
     \<and> (\<forall>p \<in> set (ss_order st). p < length (ss_heap st) \<and> \<not> se_dead (ss_heap st ! p))
     \<and> (\<forall>b p. (tget (ss_byCredential st) b = Some p) = (p \<in> set (ss_order st) \<and> b \<noteq> [] \<and> se_binding (ss_heap st ! p) = b))
     \<and> (\<forall>u. users_of st u = filter (\<lambda>p. se_user (ss_heap st ! p) = u) (ss_order st))"

lemma indexesD:
  assumes "indexes_ok st"
  shows "distinct (ss_order st)" "table_ok (ss_sessions st)"
    and "(tget (ss_sessions st) sid = Some p) = (p \<in> set (ss_order st) \<and> se_id (ss_heap st ! p) = sid)"
    and "p \<in> set (ss_order st) \<Longrightarrow> p < length (ss_heap st) \<and> \<not> se_dead (ss_heap st ! p)"
    and "(tget (ss_byCredential st) b = Some p) = (p \<in> set (ss_order st) \<and> b \<noteq> [] \<and> se_binding (ss_heap st ! p) = b)"
    and "users_of st u = filter (\<lambda>p. se_user (ss_heap st ! p) = u) (ss_order st)"
  using assms unfolding indexes_ok_def by blast+

lemma users_mem: "indexes_ok st \<Longrightarrow> q \<in> set (users_of st u) \<longleftrightarrow> q \<in> set (ss_order st) \<and> se_user (ss_heap st ! q) = u"
  using indexesD(6) [of st u] by simp

text \<open>The map holds the queued sessions, each once.\<close>

lemma sessions_pointers:
  assumes "indexes_ok st"
  shows "distinct (map snd (ss_sessions st))" "set (map snd (ss_sessions st)) = set (ss_order st)"
proof -
  note D = indexesD [OF assms]
  have d: "distinct (map fst (ss_sessions st))" using D(2) by (simp add: table_ok_def)
  have get: "tget (ss_sessions st) sid = Some p \<longleftrightarrow> (sid, p) \<in> set (ss_sessions st)" for sid p
    using d by (simp add: tget_def)
  have key: "p \<in> set (ss_order st) \<and> se_id (ss_heap st ! p) = sid" if "(sid, p) \<in> set (ss_sessions st)" for sid p
    using that get [of sid p] D(3) [of sid p] by simp
  have "inj_on snd (set (ss_sessions st))"
  proof (rule inj_onI)
    fix a b assume ab: "a \<in> set (ss_sessions st)" "b \<in> set (ss_sessions st)" "snd a = snd b"
    have "se_id (ss_heap st ! snd a) = fst a" using key [of "fst a" "snd a"] ab(1) by simp
    moreover have "se_id (ss_heap st ! snd b) = fst b" using key [of "fst b" "snd b"] ab(2) by simp
    ultimately show "a = b" using ab(3) by (simp add: prod_eq_iff)
  qed
  moreover have "distinct (ss_sessions st)" using d by (simp add: distinct_map)
  ultimately show "distinct (map snd (ss_sessions st))" by (simp add: distinct_map)
  have "p \<in> snd ` set (ss_sessions st)" if "p \<in> set (ss_order st)" for p
  proof -
    have "(se_id (ss_heap st ! p), p) \<in> set (ss_sessions st)"
      using that D(3) [of "se_id (ss_heap st ! p)" p] get [of "se_id (ss_heap st ! p)" p] by simp
    then show ?thesis by force
  qed
  moreover have "q \<in> set (ss_order st)" if q: "q \<in> snd ` set (ss_sessions st)" for q
  proof -
    obtain e where "e \<in> set (ss_sessions st)" "q = snd e" using q by blast
    then show ?thesis using key [of "fst e" q] by simp
  qed
  ultimately show "set (map snd (ss_sessions st)) = set (ss_order st)" by (simp only: set_map) blast
qed

lemma indexes_len: "indexes_ok st \<Longrightarrow> tlen (ss_sessions st) = length (ss_order st)"
proof -
  assume ok: "indexes_ok st"
  have "length (map snd (ss_sessions st)) = card (set (map snd (ss_sessions st)))"
    using sessions_pointers(1) [OF ok] by (rule distinct_card [symmetric])
  also have "\<dots> = length (ss_order st)" unfolding sessions_pointers(2) [OF ok] using indexesD(1) [OF ok] by (rule distinct_card)
  finally show ?thesis by (simp add: tlen_def)
qed

text \<open>Removal: the object is dead, the queue loses it, every other object is untouched.\<close>

lemma remove_heap:
  "p < length (ss_heap st) \<Longrightarrow> ss_heap (removeSession (Some p) st) ! q = (if q = p then (ss_heap st ! p)\<lparr>se_dead := True\<rparr> else ss_heap st ! q)"
  by (auto simp: removeSession_def unlink_session_def update_sess_def Let_def)

lemma remove_heap_len [simp]: "length (ss_heap (removeSession p st)) = length (ss_heap st)"
  by (auto simp: removeSession_def unlink_session_def Let_def split: option.split)

lemma remove_users:
  "users_of (removeSession (Some p) st) u =
    (if p \<in> set (ss_order st) \<and> u = se_user (ss_heap st ! p) then remove1 p (users_of st u) else users_of st u)"
proof -
  have f: "se_user (ss_heap (update_sess p (\<lambda>s. s\<lparr>se_dead := True\<rparr>) st) ! p) = se_user (ss_heap st ! p)"
    by (cases "p < length (ss_heap st)") (simp_all add: update_sess_def list_update_beyond)
  show ?thesis by (auto simp: removeSession_def unlink_session_def Let_def users_of_def f split: option.splits)
qed

lemma remove_sessions: "ss_sessions (removeSession (Some p) st) = tdel (se_id (ss_heap st ! p)) (ss_sessions st)"
  by (auto simp: removeSession_def unlink_session_def Let_def)

lemma remove_credentials:
  "ss_byCredential (removeSession (Some p) st) =
    (if tget (ss_byCredential st) (se_binding (ss_heap st ! p)) = Some p then tdel (se_binding (ss_heap st ! p)) (ss_byCredential st)
     else ss_byCredential st)"
  by (auto simp: removeSession_def unlink_session_def Let_def)

lemma remove_indexes:
  assumes "indexes_ok st" "p \<in> set (ss_order st)" shows "indexes_ok (removeSession (Some p) st)"
proof -
  note d = indexesD [OF assms(1)]
  have p: "p < length (ss_heap st)" using d(4) assms(2) by blast
  let ?w = "removeSession (Some p) st"
  have o: "set (ss_order ?w) = set (ss_order st) - {p}" using d(1) by (simp add: set_remove1_eq)
  have same: "q \<noteq> p \<Longrightarrow> ss_heap ?w ! q = ss_heap st ! q" for q using remove_heap [OF p] by simp
  have 1: "(tget (ss_sessions ?w) sid = Some q) = (q \<in> set (ss_order ?w) \<and> se_id (ss_heap ?w ! q) = sid)" for sid q
  proof (cases "q = p")
    case True
    then show ?thesis using d(3) [of sid p] o by (auto simp: remove_sessions)
  next
    case False
    have "se_id (ss_heap st ! q) \<noteq> se_id (ss_heap st ! p)" if "q \<in> set (ss_order st)"
      using d(3) [of "se_id (ss_heap st ! p)" p] d(3) [of "se_id (ss_heap st ! p)" q] assms(2) that False by auto
    then show ?thesis using d(3) [of sid q] o False same [OF False] by (auto simp: remove_sessions)
  qed
  have 2: "q < length (ss_heap ?w) \<and> \<not> se_dead (ss_heap ?w ! q)" if "q \<in> set (ss_order ?w)" for q
    using that d(4) [of q] o same [of q] by auto
  have 3: "(tget (ss_byCredential ?w) b = Some q) = (q \<in> set (ss_order ?w) \<and> b \<noteq> [] \<and> se_binding (ss_heap ?w ! q) = b)" for b q
  proof (cases "q = p")
    case True
    then show ?thesis using d(5) [of b p] o by (auto simp: remove_credentials)
  next
    case False
    have "se_binding (ss_heap st ! q) \<noteq> se_binding (ss_heap st ! p)" if "q \<in> set (ss_order st)" "se_binding (ss_heap st ! p) \<noteq> []"
      using d(5) [of "se_binding (ss_heap st ! p)" p] d(5) [of "se_binding (ss_heap st ! p)" q] assms(2) that False by auto
    then show ?thesis using d(5) [of b q] d(5) [of "se_binding (ss_heap st ! p)" p] o False same [OF False] by (auto simp: remove_credentials)
  qed
  have 4: "users_of ?w u = filter (\<lambda>q. se_user (ss_heap ?w ! q) = u) (ss_order ?w)" for u
  proof -
    have "filter (\<lambda>q. se_user (ss_heap ?w ! q) = u) (ss_order ?w) = filter (\<lambda>q. se_user (ss_heap st ! q) = u) (remove1 p (ss_order st))"
      using d(1) same by (intro filter_cong) auto
    also have "\<dots> = remove1 p (filter (\<lambda>q. se_user (ss_heap st ! q) = u) (ss_order st))"
      by (simp add: filter_remove1)
    finally show ?thesis
      using assms(2) d(6) [of u] by (auto simp: remove_users intro!: remove1_idem [symmetric])
  qed
  show ?thesis
    unfolding indexes_ok_def using d(1,2) 1 2 3 4 by (simp only: removeSession_order distinct_remove1 remove_sessions table_ok_tdel) blast
qed

subsection \<open>What an insertion removes\<close>

text \<open>A run of removals of queued sessions, each satisfying the test.\<close>

inductive removes :: "(nat \<Rightarrow> bool) \<Rightarrow> sstore \<Rightarrow> sstore \<Rightarrow> bool" for R where
  removes_refl: "removes R st st"
| removes_more: "removes R st st' \<Longrightarrow> p \<in> set (ss_order st') \<Longrightarrow> R p \<Longrightarrow> removes R st (removeSession (Some p) st')"

lemma removes_trans: "removes R st' st'' \<Longrightarrow> removes R st st' \<Longrightarrow> removes R st st''"
  by (induction rule: removes.induct) (auto intro: removes.intros)

lemma removes_weaken: "removes R st st' \<Longrightarrow> (\<And>p. R p \<Longrightarrow> Q p) \<Longrightarrow> removes Q st st'"
  by (induction rule: removes.induct) (auto intro: removes.intros)

lemma removes_indexes: "removes R st st' \<Longrightarrow> indexes_ok st \<Longrightarrow> indexes_ok st'"
  by (induction rule: removes.induct) (auto intro: remove_indexes)

lemma removes_length [simp]: "removes R st st' \<Longrightarrow> length (ss_heap st') = length (ss_heap st)"
  by (induction rule: removes.induct) auto

lemma removes_order: "removes R st st' \<Longrightarrow> set (ss_order st') \<subseteq> set (ss_order st) \<and> length (ss_order st') \<le> length (ss_order st)"
proof (induction rule: removes.induct)
  case (removes_more st st' p)
  have "set (remove1 p (ss_order st')) \<subseteq> set (ss_order st')" "length (remove1 p (ss_order st')) \<le> length (ss_order st')"
    using set_remove1_subset [of p "ss_order st'"] by (auto simp: length_remove1 simp del: set_remove1_eq)
  with removes_more.IH show ?case unfolding removeSession_order by (meson order_trans)
qed simp

lemma removes_users_length: "removes R st st' \<Longrightarrow> length (users_of st' u) \<le> length (users_of st u)"
  by (induction rule: removes.induct) (auto simp: remove_users length_remove1)

lemma removes_sessions_length: "removes R st st' \<Longrightarrow> tlen (ss_sessions st') \<le> tlen (ss_sessions st)"
proof (induction rule: removes.induct)
  case (removes_more st st' p)
  then show ?case using tlen_tdel_le [of "se_id (ss_heap st' ! p)" "ss_sessions st'"] by (simp add: remove_sessions)
qed simp

lemma removes_credential: "removes R st st' \<Longrightarrow> tget (ss_byCredential st) b = None \<Longrightarrow> tget (ss_byCredential st') b = None"
  by (induction rule: removes.induct) (auto simp: remove_credentials)

lemma removes_heap:
  "removes R st st' \<Longrightarrow> indexes_ok st \<Longrightarrow>
   (q \<in> set (ss_order st) \<and> q \<notin> set (ss_order st') \<and> R q \<and> ss_heap st' ! q = (ss_heap st ! q)\<lparr>se_dead := True\<rparr>)
   \<or> (q \<in> set (ss_order st) \<longrightarrow> q \<in> set (ss_order st')) \<and> ss_heap st' ! q = ss_heap st ! q"
proof (induction rule: removes.induct)
  case (removes_more st st' p)
  have ok: "indexes_ok st'" using removes_indexes removes_more.hyps(1) removes_more.prems by blast
  have p: "p < length (ss_heap st')" "p \<in> set (ss_order st)"
    using indexesD(4) [OF ok] removes_more.hyps(2) removes_order [OF removes_more.hyps(1)] by blast+
  have o: "set (ss_order (removeSession (Some p) st')) = set (ss_order st') - {p}"
    using indexesD(1) [OF ok] by (simp add: set_remove1_eq)
  note h = remove_heap [OF p(1), of q]
  show ?case
  proof (cases "q = p")
    case True
    have "ss_heap st' ! p = ss_heap st ! p" using removes_more.IH [OF removes_more.prems] removes_more.hyps(2) True by auto
    then show ?thesis using True h o p(2) removes_more.hyps(3) by simp
  next
    case False
    then show ?thesis using h o removes_more.IH [OF removes_more.prems] by auto
  qed
qed simp

lemma removes_fields:
  assumes "removes R st st'" "indexes_ok st"
  shows "se_user (ss_heap st' ! q) = se_user (ss_heap st ! q)" "se_expires (ss_heap st' ! q) = se_expires (ss_heap st ! q)"
    and "se_id (ss_heap st' ! q) = se_id (ss_heap st ! q)" "se_binding (ss_heap st' ! q) = se_binding (ss_heap st ! q)"
  using removes_heap [OF assms, of q] by auto

lemma removes_live:
  assumes "removes R st st'" "indexes_ok st" "q \<in> set (ss_order st')" shows "ss_heap st' ! q = ss_heap st ! q"
  using removes_heap [OF assms(1,2), of q] assms(3) by auto

lemma reclaim_removes:
  assumes "indexes_ok st" "q \<in> set (ss_order st)"
  shows "removes (\<lambda>p. \<not> now < se_expires (ss_heap st ! p)) st (snd (reclaimExpired q now st))"
  using removes_more [OF removes_refl assms(2), of "\<lambda>p. \<not> now < se_expires (ss_heap st ! p)"]
  by (simp add: reclaimExpired_def Let_def removes_refl)

lemma sweep_from:
  assumes "indexes_ok st0"
  shows "distinct ps \<Longrightarrow> set ps \<subseteq> set (ss_order st) \<Longrightarrow> removes (\<lambda>p. \<not> now < se_expires (ss_heap st0 ! p)) st0 st \<Longrightarrow>
    removes (\<lambda>p. \<not> now < se_expires (ss_heap st0 ! p)) st0 (foldl (\<lambda>st p. snd (reclaimExpired p now st)) st ps)"
proof (induction ps arbitrary: st)
  case (Cons p ps)
  let ?st = "snd (reclaimExpired p now st)"
  have ok: "indexes_ok st" using removes_indexes Cons.prems(3) assms by blast
  have p: "p \<in> set (ss_order st)" using Cons.prems(2) by simp
  have e: "ss_heap st ! p = ss_heap st0 ! p" using removes_live [OF Cons.prems(3) assms p] .
  have r: "removes (\<lambda>p. \<not> now < se_expires (ss_heap st0 ! p)) st0 ?st"
    using removes_more [OF Cons.prems(3) p] Cons.prems(3) e by (simp add: reclaimExpired_def Let_def)
  have "set ps \<subseteq> set (ss_order ?st)"
    using Cons.prems(1,2) indexesD(1) [OF ok] by (auto simp: reclaimExpired_def Let_def set_remove1_eq)
  then show ?case using Cons.IH [of ?st] Cons.prems(1) r by simp
qed simp

lemma sweep_removes:
  assumes "indexes_ok st"
  shows "removes (\<lambda>p. \<not> now < se_expires (ss_heap st ! p)) st (sweep_sessions now st)"
  unfolding sweep_sessions_def
  by (rule sweep_from [OF assms sessions_pointers(1) [OF assms] _ removes_refl]) (simp only: sessions_pointers(2) [OF assms] order.refl)

lemma evict_over_removes:
  assumes "indexes_ok st"
  shows "removes (\<lambda>p. se_user (ss_heap st ! p) = u) st (evict_over m u st)"
    and "length (users_of st u) \<le> m \<Longrightarrow> 0 < m \<Longrightarrow> length (users_of (evict_over m u st) u) < m"
proof -
  have "removes (\<lambda>p. se_user (ss_heap st ! p) = u) st (evict_over m u st) \<and>
    (length (users_of st u) \<le> m \<longrightarrow> 0 < m \<longrightarrow> length (users_of (evict_over m u st) u) < m)"
  proof (cases "users_of st u")
    case Nil
    then show ?thesis by (simp add: evict_over_def removes_refl)
  next
    case (Cons q qs)
    have q: "q \<in> set (ss_order st)" "se_user (ss_heap st ! q) = u"
      using users_mem [OF assms, of q u] Cons by simp_all
    show ?thesis using removes_more [OF removes_refl q(1), of "\<lambda>p. se_user (ss_heap st ! p) = u"] q
      by (auto simp: evict_over_def Cons removes_refl remove_users)
  qed
  then show "removes (\<lambda>p. se_user (ss_heap st ! p) = u) st (evict_over m u st)"
    "length (users_of st u) \<le> m \<Longrightarrow> 0 < m \<Longrightarrow> length (users_of (evict_over m u st) u) < m" by simp_all
qed

lemma evict_own_from:
  assumes "indexes_ok st0"
  shows "removes (\<lambda>p. se_user (ss_heap st0 ! p) = u) st0 st \<Longrightarrow>
    removes (\<lambda>p. se_user (ss_heap st0 ! p) = u) st0 (snd (evict_own m u st))
    \<and> (fst (evict_own m u st) \<longrightarrow> tlen (ss_sessions (snd (evict_own m u st))) < m)
    \<and> (\<not> fst (evict_own m u st) \<longrightarrow> users_of (snd (evict_own m u st)) u = [] \<and> m \<le> tlen (ss_sessions (snd (evict_own m u st))))"
proof (induction m u st rule: evict_own.induct)
  case (1 m u st)
  show ?case
  proof (cases "tlen (ss_sessions st) < m")
    case True
    then show ?thesis using 1(2) by (simp add: evict_own.simps [of m u st])
  next
    case False
    show ?thesis
    proof (cases "users_of st u")
      case Nil
      then show ?thesis using False 1(2) by (simp add: evict_own.simps [of m u st])
    next
      case (Cons p ps)
      have ok: "indexes_ok st" using removes_indexes 1(2) assms by blast
      have p: "p \<in> set (ss_order st)" "se_user (ss_heap st ! p) = u"
        using users_mem [OF ok, of p u] Cons by simp_all
      have r: "removes (\<lambda>p. se_user (ss_heap st0 ! p) = u) st0 (removeSession (Some p) st)"
        using removes_more [OF 1(2) p(1)] removes_fields(1) [OF 1(2) assms] p(2) by simp
      have m: "List.member (ss_order st) p" using p(1) by simp
      show ?thesis using 1(1) [OF False Cons _ r] False Cons m by (simp add: evict_own.simps [of m u st])
    qed
  qed
qed

lemma evict_own_removes:
  assumes "indexes_ok st"
  shows "removes (\<lambda>p. se_user (ss_heap st ! p) = u) st (snd (evict_own m u st))"
    and "fst (evict_own m u st) \<Longrightarrow> tlen (ss_sessions (snd (evict_own m u st))) < m"
    and "\<not> fst (evict_own m u st) \<Longrightarrow> users_of (snd (evict_own m u st)) u = []"
  using evict_own_from [OF assms removes_refl, where m = m and u = u] by blast+

subsection \<open>Insertion\<close>

lemma add_object_frame [simp]:
  "ss_sessions (add_object s st) = ss_sessions st" "ss_byCredential (add_object s st) = ss_byCredential st"
  "ss_order (add_object s st) = ss_order st" "users_of (add_object s st) u = users_of st u"
  "ss_heap (add_object s st) = ss_heap st @ [s]"
  by (simp_all add: add_object_def users_of_def)

lemma add_object_indexes:
  assumes "indexes_ok st" shows "indexes_ok (add_object s st)"
proof -
  note D = indexesD [OF assms]
  have n: "p \<in> set (ss_order st) \<Longrightarrow> (ss_heap st @ [s]) ! p = ss_heap st ! p" for p using D(4) [of p] by (simp add: nth_append)
  have "users_of st u = filter (\<lambda>p. se_user ((ss_heap st @ [s]) ! p) = u) (ss_order st)" for u
    unfolding D(6) [of u] using n by (intro filter_cong) auto
  moreover have "(tget (ss_sessions st) sid = Some p) = (p \<in> set (ss_order st) \<and> se_id ((ss_heap st @ [s]) ! p) = sid)" for sid p
    using D(3) [of sid p] n [of p] by auto
  moreover have "(tget (ss_byCredential st) b = Some p) = (p \<in> set (ss_order st) \<and> b \<noteq> [] \<and> se_binding ((ss_heap st @ [s]) ! p) = b)" for b p
    using D(5) [of b p] n [of p] by auto
  moreover have "p < length (ss_heap st @ [s]) \<and> \<not> se_dead ((ss_heap st @ [s]) ! p)" if "p \<in> set (ss_order st)" for p
    using D(4) [OF that] n [OF that] by simp
  ultimately show ?thesis unfolding indexes_ok_def add_object_frame using D(1,2) by blast
qed

lemma add_remove_object:
  "q < length (ss_heap st) \<Longrightarrow> add_object s (removeSession (Some q) st) = removeSession (Some q) (add_object s st)"
  by (auto simp: removeSession_def unlink_session_def update_sess_def add_object_def users_of_def Let_def nth_append list_update_append
      split: option.splits)

lemma link_frame [simp]:
  "ss_heap (link_session p st) = ss_heap st" "ss_order (link_session p st) = ss_order st @ [p]"
  by (simp_all add: link_session_def Let_def)

lemma link_users: "users_of (link_session p st) u = (if u = se_user (ss_heap st ! p) then users_of st u @ [p] else users_of st u)"
  by (simp add: link_session_def Let_def users_of_def)

lemma link_indexes:
  assumes "indexes_ok st" "p < length (ss_heap st)" "p \<notin> set (ss_order st)" "\<not> se_dead (ss_heap st ! p)"
    and "\<forall>q \<in> set (ss_order st). se_id (ss_heap st ! q) \<noteq> se_id (ss_heap st ! p)"
    and "se_binding (ss_heap st ! p) = [] \<or> tget (ss_byCredential st) (se_binding (ss_heap st ! p)) = None"
  shows "indexes_ok (link_session p st)"
proof -
  note D = indexesD [OF assms(1)]
  let ?w = "link_session p st"
  have 1: "(tget (ss_sessions ?w) sid = Some q) = (q \<in> set (ss_order ?w) \<and> se_id (ss_heap ?w ! q) = sid)" for sid q
    using D(3) [of sid q] assms(3,5) by (auto simp: link_session_def Let_def)
  have 2: "q < length (ss_heap ?w) \<and> \<not> se_dead (ss_heap ?w ! q)" if "q \<in> set (ss_order ?w)" for q
    using that D(4) [of q] assms(2,4) by auto
  have nb: "se_binding (ss_heap st ! q) \<noteq> se_binding (ss_heap st ! p)" if "q \<in> set (ss_order st)" "se_binding (ss_heap st ! p) \<noteq> []" for q
    using that assms(6) D(5) [of "se_binding (ss_heap st ! p)" q] by auto
  have 3: "(tget (ss_byCredential ?w) b = Some q) = (q \<in> set (ss_order ?w) \<and> b \<noteq> [] \<and> se_binding (ss_heap ?w ! q) = b)" for b q
    using D(5) [of b q] nb [of q] assms(3) by (auto simp: link_session_def Let_def)
  have 4: "users_of ?w u = filter (\<lambda>q. se_user (ss_heap ?w ! q) = u) (ss_order ?w)" for u
    unfolding link_users link_frame filter_append D(6) [of u] by simp
  have 5: "distinct (ss_order ?w)" "table_ok (ss_sessions ?w)" using D(1,2) assms(3) by (simp_all add: link_session_def Let_def)
  show ?thesis unfolding indexes_ok_def using 1 2 3 4 5 by blast
qed

text \<open>Which queued sessions an insertion by \<open>u\<close> may remove: the user's own, and those expired at one of its two readings.\<close>

definition evictable :: "sstore \<Rightarrow> string \<Rightarrow> time \<Rightarrow> time \<Rightarrow> nat \<Rightarrow> bool" where
  "evictable st u now1 now2 q \<longleftrightarrow>
     se_user (ss_heap st ! q) = u \<or> se_expires (ss_heap st ! q) \<le> now1 \<or> se_expires (ss_heap st ! q) \<le> now2"

definition owned :: "sess \<Rightarrow> sess" where
  "owned s = s\<lparr>se_user := pr_User (se_who s)\<rparr>"

definition fresh_for :: "sess \<Rightarrow> sstore \<Rightarrow> bool" where
  "fresh_for s st \<longleftrightarrow> \<not> se_dead s \<and> (\<forall>q \<in> set (ss_order st). se_id (ss_heap st ! q) \<noteq> se_id s)"

lemma limit_or_pos: "0 < d \<Longrightarrow> 0 < limit_or n d"
  by (simp add: limit_or_def)

text \<open>Making room, from any store reached by allowed removals.\<close>

lemma room_made:
  fixes mt mu now2 u st
  defines "st2 \<equiv> (if pressed mt mu u st then sweep_sessions now2 st else st)"
  assumes "indexes_ok st" "0 < mu" "length (users_of st u) \<le> mu"
  shows "removes (\<lambda>q. se_user (ss_heap st ! q) = u \<or> se_expires (ss_heap st ! q) \<le> now2) st (snd (evict_own mt u (evict_over mu u st2)))"
    and "length (users_of (snd (evict_own mt u (evict_over mu u st2))) u) < mu"
    and "fst (evict_own mt u (evict_over mu u st2)) \<Longrightarrow> tlen (ss_sessions (snd (evict_own mt u (evict_over mu u st2)))) < mt"
proof -
  let ?R = "\<lambda>q. se_user (ss_heap st ! q) = u \<or> se_expires (ss_heap st ! q) \<le> now2"
  have 2: "removes ?R st st2"
    unfolding st2_def using sweep_removes [OF assms(2), of now2] by (auto intro: removes_refl removes_weaken)
  have ok2: "indexes_ok st2" using removes_indexes [OF 2 assms(2)] .
  have len2: "length (users_of st2 u) \<le> mu" using removes_users_length [OF 2, of u] assms(4) by simp
  let ?st3 = "evict_over mu u st2"
  have 3: "removes ?R st2 ?st3"
    using evict_over_removes(1) [OF ok2, of u mu] removes_fields [OF 2 assms(2)] by (auto intro: removes_weaken)
  have ok3: "indexes_ok ?st3" using removes_indexes [OF 3 ok2] .
  have st3: "removes ?R st ?st3" using removes_trans [OF 3 2] .
  have 4: "removes ?R ?st3 (snd (evict_own mt u ?st3))"
    using evict_own_removes(1) [OF ok3, of u mt] removes_fields [OF st3 assms(2)] by (auto intro: removes_weaken)
  show "removes ?R st (snd (evict_own mt u ?st3))" using removes_trans [OF 4 st3] .
  show "length (users_of (snd (evict_own mt u ?st3)) u) < mu"
    using evict_over_removes(2) [OF ok2 len2 assms(3)] removes_users_length [OF 4, of u] by simp
  show "fst (evict_own mt u ?st3) \<Longrightarrow> tlen (ss_sessions (snd (evict_own mt u ?st3))) < mt"
    using evict_own_removes(2) [OF ok3] .
qed

text \<open>
  What an insertion does: it hands out the live session of the same credential, or makes room by allowed
  removals and then either refuses or links the new object.
\<close>

lemma insert_cases:
  assumes "indexes_ok st0" "fresh_for s0 st0"
    and "length (users_of st0 (pr_User (se_who s0))) \<le> limit_or mu DefaultMaxSessionsPerUser"
    and "insertSession ms mu now1 now2 s0 st0 = (r, st')"
  shows "(\<exists>q. r = Some q \<and> st' = st0 \<and> se_binding s0 \<noteq> [] \<and> tget (ss_byCredential st0) (se_binding s0) = Some q
        \<and> now1 < se_expires (ss_heap st0 ! q))
    \<or> (\<exists>st4. removes (evictable (add_object (owned s0) st0) (pr_User (se_who s0)) now1 now2) (add_object (owned s0) st0) st4
        \<and> length (users_of st4 (pr_User (se_who s0))) < limit_or mu DefaultMaxSessionsPerUser
        \<and> (se_binding s0 = [] \<or> tget (ss_byCredential st4) (se_binding s0) = None)
        \<and> (r = None \<and> st' = st4
           \<or> r = Some (length (ss_heap st0)) \<and> st' = link_session (length (ss_heap st0)) st4
             \<and> tlen (ss_sessions st4) < limit_or ms DefaultMaxSessions))"
proof -
  let ?s = "owned s0" let ?u = "pr_User (se_who s0)" let ?p = "length (ss_heap st0)"
  let ?mt = "limit_or ms DefaultMaxSessions" let ?mu = "limit_or mu DefaultMaxSessionsPerUser"
  let ?old = "if se_binding s0 = [] then None else tget (ss_byCredential st0) (se_binding s0)"
  let ?dup = "case ?old of None \<Rightarrow> (True, st0) | Some q \<Rightarrow> reclaimExpired q now1 st0"
  let ?base = "add_object ?s st0"
  have okb: "indexes_ok ?base" using add_object_indexes [OF assms(1)] .
  show ?thesis
  proof (cases "fst ?dup")
    case False
    then obtain q where q: "?old = Some q" by (cases ?old) auto
    then have "now1 < se_expires (ss_heap st0 ! q)" using False by (simp add: reclaimExpired_def Let_def)
    moreover have "(r, st') = (?old, st0)"
      using assms(4) False by (cases "se_binding s0 = []") (auto simp: insertSession_def owned_def Let_def cong: if_cong)
    ultimately show ?thesis using q by (auto split: if_splits)
  next
    case True
    define st1 where "st1 = add_object ?s (snd ?dup)"
    have 1: "removes (evictable ?base ?u now1 now2) ?base st1 \<and> (se_binding s0 = [] \<or> tget (ss_byCredential st1) (se_binding s0) = None)"
    proof (cases ?old)
      case None
      then show ?thesis by (auto simp: st1_def removes_refl split: if_splits)
    next
      case (Some q)
      have b: "se_binding s0 \<noteq> []" "tget (ss_byCredential st0) (se_binding s0) = Some q" using Some by (auto split: if_splits)
      have q: "q \<in> set (ss_order st0)" "se_binding (ss_heap st0 ! q) = se_binding s0" using indexesD(5) [OF assms(1)] b(2) by blast+
      have ql: "q < length (ss_heap st0)" using indexesD(4) [OF assms(1) q(1)] by blast
      have e: "se_expires (ss_heap st0 ! q) \<le> now1" using True Some by (simp add: reclaimExpired_def Let_def)
      have st1: "st1 = removeSession (Some q) ?base"
        using Some e add_remove_object [OF ql, of ?s] by (simp add: st1_def reclaimExpired_def Let_def)
      have "evictable ?base ?u now1 now2 q" using e ql by (simp add: evictable_def nth_append)
      then have "removes (evictable ?base ?u now1 now2) ?base st1" unfolding st1 using q(1) by (auto intro: removes.intros)
      moreover have "tget (ss_byCredential st1) (se_binding s0) = None"
        using b(2) q(2) ql by (simp add: st1 remove_credentials nth_append)
      ultimately show ?thesis by blast
    qed
    define st2 where "st2 = (if pressed ?mt ?mu ?u st1 then sweep_sessions now2 st1 else st1)"
    have ok1: "indexes_ok st1" using removes_indexes 1 okb by blast
    have l1: "length (users_of st1 ?u) \<le> ?mu" using removes_users_length 1 assms(3) add_object_frame(4) by (metis order_trans)
    have mu: "0 < ?mu" by (rule limit_or_pos) (simp add: DefaultMaxSessionsPerUser_def)
    note room = room_made [OF ok1 mu l1, where mt = ?mt and ?now2.0 = now2, folded st2_def]
    let ?e = "evict_own ?mt ?u (evict_over ?mu ?u st2)"
    have same: "se_user (ss_heap st1 ! q) = se_user (ss_heap ?base ! q)" "se_expires (ss_heap st1 ! q) = se_expires (ss_heap ?base ! q)" for q
      using removes_fields [OF conjunct1 [OF 1] okb] by blast+
    have "removes (evictable ?base ?u now1 now2) st1 (snd ?e)"
      by (rule removes_weaken [OF room(1)]) (simp only: evictable_def same, blast)
    then have 4: "removes (evictable ?base ?u now1 now2) ?base (snd ?e)" using conjunct1 [OF 1] by (rule removes_trans)
    have c: "se_binding s0 = [] \<or> tget (ss_byCredential (snd ?e)) (se_binding s0) = None"
      using conjunct2 [OF 1] removes_credential [OF room(1), of "se_binding s0"] by argo
    have "(r, st') = (case ?e of (False, st4) \<Rightarrow> (None, st4) | (True, st4) \<Rightarrow> (Some ?p, link_session ?p st4))"
      using assms(4) True unfolding st2_def st1_def by (simp add: insertSession_def owned_def Let_def cong: if_cong)
    then show ?thesis using 4 c room(2,3) by (cases ?e; cases "fst ?e") auto
  qed
qed

subsection \<open>The store as a machine\<close>

text \<open>The writes of \<open>authenticateSession\<close> to the session it holds the lock of.\<close>

definition record_identity :: "nat \<Rightarrow> ident \<Rightarrow> bool \<times> string \<Rightarrow> time \<Rightarrow> sstore \<Rightarrow> sstore" where
  "record_identity p i decision at =
     update_sess p (\<lambda>s. s\<lparr>se_who := (principal_of i)\<lparr>pr_Root := fst decision\<rparr>, se_admin := fst decision, se_note := snd decision,
       se_partial := i_Partial i, se_checked := at, se_unavailableSince := None\<rparr>)"

definition note_outage :: "nat \<Rightarrow> time \<Rightarrow> sstore \<Rightarrow> sstore" where
  "note_outage p now =
     update_sess p (\<lambda>s. s\<lparr>se_unavailableSince := (case se_unavailableSince s of None \<Rightarrow> Some now | Some t \<Rightarrow> Some t)\<rparr>)"

definition extend_session :: "nat \<Rightarrow> time \<Rightarrow> sstore \<Rightarrow> sstore" where
  "extend_session p now = update_sess p (\<lambda>s. s\<lparr>se_expires := now + sessionTTL\<rparr>)"

datatype store_event =
    Inserts time time sess | Destroys string | Looks string string
  | Records nat ident "bool \<times> string" time | Outages nat time | Extends nat time

definition store_step :: "int \<Rightarrow> int \<Rightarrow> sstore \<Rightarrow> store_event \<Rightarrow> sstore" where
  \<comment> \<open>an insertion comes with an id no stored session has, as \<open>rand.Text\<close> gives it\<close>
  "store_step ms mu st ev =
     (case ev of
        Inserts now1 now2 s \<Rightarrow> if fresh_for s st then snd (insertSession ms mu now1 now2 s st) else st
      | Destroys sid \<Rightarrow> destroy sid st
      | Looks sid b \<Rightarrow> snd (lookupSession sid b st)
      | Records p i d at \<Rightarrow> record_identity p i d at st
      | Outages p now \<Rightarrow> note_outage p now st
      | Extends p now \<Rightarrow> extend_session p now st)"

definition sessions_ok :: "int \<Rightarrow> int \<Rightarrow> sstore \<Rightarrow> bool" where
  "sessions_ok ms mu st \<longleftrightarrow> indexes_ok st \<and> tlen (ss_sessions st) \<le> limit_or ms DefaultMaxSessions
     \<and> (\<forall>u. length (users_of st u) \<le> limit_or mu DefaultMaxSessionsPerUser)"

lemma update_indexes:
  assumes "indexes_ok st"
    and "\<And>s. se_id (f s) = se_id s \<and> se_binding (f s) = se_binding s \<and> se_user (f s) = se_user s \<and> se_dead (f s) = se_dead s"
  shows "indexes_ok (update_sess p f st)"
proof -
  note D = indexesD [OF assms(1)]
  have n: "se_id (ss_heap (update_sess p f st) ! q) = se_id (ss_heap st ! q)" "se_binding (ss_heap (update_sess p f st) ! q) = se_binding (ss_heap st ! q)"
    "se_user (ss_heap (update_sess p f st) ! q) = se_user (ss_heap st ! q)" "se_dead (ss_heap (update_sess p f st) ! q) = se_dead (ss_heap st ! q)" for q
    using assms(2) by (cases "p < length (ss_heap st)"; cases "q = p"; simp add: update_sess_def list_update_beyond)+
  have u: "users_of (update_sess p f st) v = users_of st v" for v by (simp add: users_of_def)
  show ?thesis unfolding indexes_ok_def update_sess_frame n u using D by blast
qed

lemma update_store: "sessions_ok ms mu st \<Longrightarrow>
    (\<And>s. se_id (f s) = se_id s \<and> se_binding (f s) = se_binding s \<and> se_user (f s) = se_user s \<and> se_dead (f s) = se_dead s) \<Longrightarrow>
    sessions_ok ms mu (update_sess p f st)"
  using update_indexes [of st f p] by (auto simp: sessions_ok_def users_of_def)

lemma removes_store: "removes R st st' \<Longrightarrow> sessions_ok ms mu st \<Longrightarrow> sessions_ok ms mu st'"
  using removes_indexes [of R st st'] removes_sessions_length [of R st st'] removes_users_length [of R st st']
  unfolding sessions_ok_def by (meson order_trans)

lemma destroy_removes: "indexes_ok st \<Longrightarrow> removes (\<lambda>p. se_id (ss_heap st ! p) = sid) st (destroy sid st)"
proof (cases "tget (ss_sessions st) sid")
  case (Some p)
  assume "indexes_ok st"
  then have "p \<in> set (ss_order st)" "se_id (ss_heap st ! p) = sid" using indexesD(3) Some by blast+
  then show ?thesis using Some by (auto simp: destroy_def intro: removes.intros)
qed (simp add: destroy_def removeSession_def removes_refl)

lemma insert_store:
  assumes "sessions_ok ms mu st0" "fresh_for s0 st0"
  shows "sessions_ok ms mu (snd (insertSession ms mu now1 now2 s0 st0))"
proof -
  obtain r st' where e: "insertSession ms mu now1 now2 s0 st0 = (r, st')" by fastforce
  have ok: "indexes_ok st0" and l: "length (users_of st0 (pr_User (se_who s0))) \<le> limit_or mu DefaultMaxSessionsPerUser"
    using assms(1) by (simp_all add: sessions_ok_def)
  let ?base = "add_object (owned s0) st0" let ?p = "length (ss_heap st0)"
  have base: "sessions_ok ms mu ?base" using assms(1) add_object_indexes [OF ok] by (simp add: sessions_ok_def)
  consider "st' = st0" | st4 R where "removes R ?base st4" "length (users_of st4 (pr_User (se_who s0))) < limit_or mu DefaultMaxSessionsPerUser"
      "se_binding s0 = [] \<or> tget (ss_byCredential st4) (se_binding s0) = None"
      "st' = st4 \<or> st' = link_session ?p st4 \<and> tlen (ss_sessions st4) < limit_or ms DefaultMaxSessions"
    using insert_cases [OF ok assms(2) l e] by blast
  then have "sessions_ok ms mu st'"
  proof cases
    case 1
    then show ?thesis using assms(1) by simp
  next
    case 2
    have ok4: "sessions_ok ms mu st4" using removes_store [OF 2(1) base] .
    show ?thesis
    proof (cases "st' = st4")
      case False
      have okb: "indexes_ok ?base" and i4: "indexes_ok st4" using base ok4 by (simp_all add: sessions_ok_def)
      have o4: "set (ss_order st4) \<subseteq> set (ss_order st0)" using removes_order [OF 2(1)] by simp
      have pn: "?p \<notin> set (ss_order st0)" using indexesD(4) [OF ok, of ?p] by blast
      have hp: "ss_heap st4 ! ?p = owned s0" using removes_heap [OF 2(1) okb, of ?p] pn by auto
      have hq: "ss_heap st4 ! q = ss_heap st0 ! q" if "q \<in> set (ss_order st4)" for q
        using removes_live [OF 2(1) okb that] indexesD(4) [OF ok, of q] that o4 by (auto simp: nth_append)
      have "indexes_ok (link_session ?p st4)"
        using link_indexes [OF i4, of ?p] assms(2) o4 pn hp hq 2(3) removes_length [OF 2(1)] by (auto simp: owned_def fresh_for_def)
      moreover have "tlen (ss_sessions (link_session ?p st4)) \<le> Suc (tlen (ss_sessions st4))"
        by (simp add: link_session_def Let_def tlen_tput_le)
      ultimately show ?thesis using False 2(2,4) ok4 hp by (auto simp: sessions_ok_def link_users owned_def)
    qed (simp add: ok4)
  qed
  then show ?thesis using e by simp
qed

lemma store_ok_lookups: "sessions_ok ms mu (st\<lparr>ss_lookups := n\<rparr>) = sessions_ok ms mu st"
  by (simp add: sessions_ok_def indexes_ok_def users_of_def)

interpretation sessions: invariant_machine "store_step ms mu" "sessions_ok ms mu" for ms mu
proof
  fix st ev assume ok: "sessions_ok ms mu st"
  then have i: "indexes_ok st" by (simp add: sessions_ok_def)
  show "sessions_ok ms mu (store_step ms mu st ev)"
  proof (cases ev)
    case (Inserts now1 now2 s)
    then show ?thesis using ok insert_store by (simp add: store_step_def)
  next
    case (Destroys sid)
    then show ?thesis using removes_store [OF destroy_removes [OF i] ok] by (simp add: store_step_def)
  next
    case (Looks sid b)
    then show ?thesis using ok by (simp add: store_step_def lookupSession_def store_ok_lookups)
  qed (use ok in \<open>auto simp: store_step_def record_identity_def note_outage_def extend_session_def intro!: update_store\<close>)
qed

lemma new_sessions_ok: "sessions_ok ms mu new_store"
  by (simp add: sessions_ok_def new_store_def indexes_ok_def users_of_def tlen_def)

subsection \<open>Properties\<close>

text \<open>
  The session store stays bounded and consistent whatever is inserted, destroyed, looked up and refreshed:
  the configured totals hold overall and for every user, an id finds only the live session that carries it,
  and no two stored sessions share a credential.
\<close>

theorem sessions_bounded:
  fixes ms mu :: int and evs :: "store_event list"
  defines "st \<equiv> foldl (store_step ms mu) new_store evs"
  shows "tlen (ss_sessions st) \<le> limit_or ms DefaultMaxSessions
    \<and> length (users_of st u) \<le> limit_or mu DefaultMaxSessionsPerUser
    \<and> (tget (ss_sessions st) sid = Some p \<longrightarrow> se_id (ss_heap st ! p) = sid \<and> \<not> se_dead (ss_heap st ! p) \<and> p \<in> set (users_of st (se_user (ss_heap st ! p))))
    \<and> (tget (ss_sessions st) sid = Some p \<and> tget (ss_sessions st) sid' = Some q
        \<and> se_binding (ss_heap st ! p) = se_binding (ss_heap st ! q) \<and> se_binding (ss_heap st ! p) \<noteq> [] \<longrightarrow> p = q)"
proof -
  have ok: "sessions_ok ms mu st" unfolding st_def by (rule sessions.run_inv [OF new_sessions_ok])
  then have i: "indexes_ok st" by (simp add: sessions_ok_def)
  note D = indexesD [OF i]
  have mem: "p \<in> set (ss_order st) \<and> se_id (ss_heap st ! p) = sid" if "tget (ss_sessions st) sid = Some p" for sid p
    using that D(3) by blast
  have "p = q" if "tget (ss_sessions st) sid = Some p" "tget (ss_sessions st) sid' = Some q"
    "se_binding (ss_heap st ! p) = se_binding (ss_heap st ! q)" "se_binding (ss_heap st ! p) \<noteq> []"
    using mem [OF that(1)] mem [OF that(2)] that(3,4) D(5) [of "se_binding (ss_heap st ! p)" p] D(5) [of "se_binding (ss_heap st ! p)" q] by auto
  then show ?thesis using ok mem [of sid p] D(4) [of p] users_mem [OF i, of p] by (auto simp: sessions_ok_def)
qed

definition sample_sess :: "string \<Rightarrow> string \<Rightarrow> string \<Rightarrow> time \<Rightarrow> sess" where
  "sample_sess sid b u expires =
     \<lparr>se_id = sid, se_csrf = ''t'', se_binding = b, se_kind = KindQToken,
      se_who = \<lparr>pr_User = u, pr_UID = 1000, pr_GID = 100, pr_Groups = [100], pr_Root = False\<rparr>, se_admin = False, se_partial = False,
      se_door = ''qts'', se_dead = False, se_user = [], se_note = [], se_cred = \<lparr>cd_Kind = KindQToken, cd_User = u, cd_Token = b\<rparr>,
      se_checked = 0, se_unavailableSince = None, se_expires = expires\<rparr>"

theorem sessions_bounded_witness:
  "let st = foldl (store_step 2 2) new_store
     [Inserts 0 0 (sample_sess ''a'' ''k1'' ''ann'' 9), Inserts 0 0 (sample_sess ''b'' ''k2'' ''bob'' 9), Inserts 1 1 (sample_sess ''c'' ''k3'' ''ann'' 9)]
   in tget (ss_sessions st) ''c'' = Some 2 \<and> tget (ss_sessions st) ''a'' = None \<and> tget (ss_sessions st) ''b'' = Some 1
      \<and> se_id (ss_heap st ! 2) = ''c'' \<and> tlen (ss_sessions st) \<le> 2"
proof -
  let ?evs = "[Inserts 0 0 (sample_sess ''a'' ''k1'' ''ann'' 9), Inserts 0 0 (sample_sess ''b'' ''k2'' ''bob'' 9), Inserts 1 1 (sample_sess ''c'' ''k3'' ''ann'' 9)]"
  have t: "tget (ss_sessions (foldl (store_step 2 2) new_store ?evs)) ''c'' = Some 2
    \<and> tget (ss_sessions (foldl (store_step 2 2) new_store ?evs)) ''a'' = None
    \<and> tget (ss_sessions (foldl (store_step 2 2) new_store ?evs)) ''b'' = Some 1" by code_simp
  moreover have "limit_or 2 DefaultMaxSessions = 2" by (simp add: limit_or_def)
  ultimately show ?thesis
    using sessions_bounded [of 2 2 ?evs "''ann''" "''c''" 2 "''c''" 2] by (simp only: Let_def)
qed

text \<open>
  Pressure never signs anybody else out: an insertion, whatever it has to evict and even when it is refused, leaves
  every stored session of another user that has not expired exactly as it was, and still stored.
\<close>

theorem eviction_spares_others:
  assumes "st = foldl (store_step ms mu) new_store evs" "fresh_for s st" "insertSession ms mu now1 now2 s st = (r, st')"
    and "tget (ss_sessions st) sid = Some p" "se_user (ss_heap st ! p) \<noteq> pr_User (se_who s)"
    and "now1 < se_expires (ss_heap st ! p)" "now2 < se_expires (ss_heap st ! p)"
  shows "tget (ss_sessions st') sid = Some p \<and> ss_heap st' ! p = ss_heap st ! p"
proof -
  have ok: "sessions_ok ms mu st" unfolding assms(1) by (rule sessions.run_inv [OF new_sessions_ok])
  then have i: "indexes_ok st" and l: "length (users_of st (pr_User (se_who s))) \<le> limit_or mu DefaultMaxSessionsPerUser"
    by (simp_all add: sessions_ok_def)
  have p: "p \<in> set (ss_order st)" "se_id (ss_heap st ! p) = sid" using indexesD(3) [OF i] assms(4) by blast+
  have pl: "p < length (ss_heap st)" using indexesD(4) [OF i p(1)] by blast
  let ?base = "add_object (owned s) st"
  have hp: "ss_heap ?base ! p = ss_heap st ! p" using pl by (simp add: nth_append)
  have ib: "indexes_ok ?base" using add_object_indexes [OF i] .
  have kept: "p \<in> set (ss_order st4) \<and> ss_heap st4 ! p = ss_heap st ! p"
    if r: "removes (evictable ?base (pr_User (se_who s)) now1 now2) ?base st4" for st4
  proof -
    have "\<not> evictable ?base (pr_User (se_who s)) now1 now2 p" using assms(5-7) hp by (simp add: evictable_def)
    then show ?thesis using removes_heap [OF r ib, of p] p(1) hp by auto
  qed
  have ok': "indexes_ok st'" using insert_store [OF ok assms(2), of now1 now2] assms(3) by (simp add: sessions_ok_def)
  have "p \<in> set (ss_order st') \<and> ss_heap st' ! p = ss_heap st ! p"
    using insert_cases [OF i assms(2) l assms(3)] kept p(1) by auto
  then show ?thesis using indexesD(3) [OF ok', of sid p] p(2) by simp
qed

theorem eviction_spares_others_witness:
  "tget (ss_sessions (snd (insertSession 1 1 5 5 (sample_sess ''b'' ''k2'' ''bob'' 99)
      (foldl (store_step 1 1) new_store [Inserts 0 0 (sample_sess ''a'' ''k1'' ''ann'' 9)])))) ''a'' = Some 0"
proof -
  let ?st = "foldl (store_step 1 1) new_store [Inserts 0 0 (sample_sess ''a'' ''k1'' ''ann'' 9)]"
  have f: "fresh_for (sample_sess ''b'' ''k2'' ''bob'' 99) ?st" by code_simp
  have g: "tget (ss_sessions ?st) ''a'' = Some 0" by code_simp
  have u: "se_user (ss_heap ?st ! 0) \<noteq> pr_User (se_who (sample_sess ''b'' ''k2'' ''bob'' 99))" by code_simp
  have e: "5 < se_expires (ss_heap ?st ! 0)" by code_simp
  show ?thesis using eviction_spares_others [OF refl f _ g u e e, of "fst (insertSession 1 1 5 5 (sample_sess ''b'' ''k2'' ''bob'' 99) ?st)"
      "snd (insertSession 1 1 5 5 (sample_sess ''b'' ''k2'' ''bob'' 99) ?st)"] by simp
qed

end
