(* ===== verification/Session_Auth.thy ===== *)
theory Session_Auth
  imports Sessions
begin

section \<open>Who a request is (internal/web/session.go, security.go)\<close>

text \<open>
  \<open>authenticate\<close> and what it calls: the choice between a stored session and a bootstrap, the checks on a stored
  session, and its revalidation. A request is a record of what the code reads: its method, its token
  and origin headers, the credential it carries, and the answers of everything that is asked on the way
  (the lock, the admission, the verifier, the identity map, the clock). What other requests did to the
  store while this one was out is a function of the store; they never write the fields the lock protects.
\<close>

text \<open>
  What can stop a check: the sentinels of the verifier and the context, the failure budget of this package, a
  network error that reports a timeout and wraps none of the sentinels.
\<close>

datatype check_error = CheckErr auth_error | RateLimited | NetTimeout

definition qtsUnavailable :: "check_error \<Rightarrow> bool" where
  "qtsUnavailable e =
     (case e of
        CheckErr l \<Rightarrow> List.member l ErrUnreachable \<or> List.member l ErrBadResponse \<or> List.member l CtxDeadlineExceeded
      | RateLimited \<Rightarrow> False
      | NetTimeout \<Rightarrow> True)"

definition admissionError :: "check_error \<Rightarrow> bool" where
  "admissionError e =
     (case e of
        CheckErr l \<Rightarrow> List.member l ErrOverloaded \<or> List.member l CtxCanceled \<or> List.member l CtxDeadlineExceeded
      | RateLimited \<Rightarrow> True
      | NetTimeout \<Rightarrow> False)"

text \<open>The headers of the cross-site check; \<open>url.Parse\<close> is a parameter giving scheme, user info and host.\<close>

record url_parts =
  up_scheme :: string
  up_user :: bool
  up_host :: string

record origin_headers =
  oh_csrf :: string
  oh_fetch_site :: string
  oh_origin :: string
  oh_referer :: string
  oh_host :: string

definition safeMethod :: "string \<Rightarrow> bool" where
  "safeMethod m \<longleftrightarrow> m = ''GET'' \<or> m = ''HEAD''"

definition validOrigin :: "(string \<Rightarrow> url_parts option) \<Rightarrow> origin_headers \<Rightarrow> bool" where
  "validOrigin url_parse h =
     (if equal_fold (oh_fetch_site h) ''cross-site'' then False
      else case url_parse (if oh_origin h = [] then oh_referer h else oh_origin h) of
        None \<Rightarrow> False
      | Some u \<Rightarrow> (up_scheme u = ''https'' \<or> up_scheme u = ''http'') \<and> \<not> up_user u \<and> equal_fold (up_host u) (oh_host h))"

definition validCSRF :: "(string \<Rightarrow> url_parts option) \<Rightarrow> origin_headers \<Rightarrow> string \<Rightarrow> bool" where
  "validCSRF url_parse h token \<longleftrightarrow> token \<noteq> [] \<and> oh_csrf h = token \<and> validOrigin url_parse h"

record auth_call =
  ac_method :: string
  ac_path :: string
  ac_headers :: origin_headers
  ac_sid :: string
  ac_cred :: "(cred \<times> string) option"
  ac_waiting :: nat
  ac_lock :: "check_error option"
  ac_now :: time
  ac_verifier :: bool
  ac_enter :: "check_error option"
  ac_verify :: "bool \<Rightarrow> check_error + vsession"
  ac_ended :: "check_error option"
  ac_after :: time
  ac_resolve :: "string \<Rightarrow> ident option"
  ac_ended2 :: "check_error option"

text \<open>
  The server around it: a pinned principal of the dev loop, the view of the group file for the admin
  decision, whether an administrator needs both sources, the parser.
\<close>

record auth_server =
  as_pinned :: "principal option"
  as_ids :: "(snapshot \<times> snapshot) option"
  as_requireBoth :: bool
  as_parse :: "string \<Rightarrow> url_parts option"
  as_MaxSessions :: int
  as_MaxSessionsPerUser :: int

datatype auth_refusal = CsrfRefused | Overloaded | CheckFailed check_error | SessionRefused | StoreFull

datatype auth_reply = Granted sess | Refused auth_refusal | Anonymous

definition snapshot_sess :: "sess \<Rightarrow> sess" where
  "snapshot_sess s =
     \<lparr>se_id = se_id s, se_csrf = se_csrf s, se_binding = [], se_kind = se_kind s, se_who = se_who s, se_admin = se_admin s,
      se_partial = se_partial s, se_door = se_door s, se_dead = False, se_user = [], se_note = se_note s,
      se_cred = \<lparr>cd_Kind = [], cd_User = [], cd_Token = []\<rparr>, se_checked = 0, se_unavailableSince = None, se_expires = 0\<rparr>"

definition binding_of :: "auth_server \<Rightarrow> auth_call \<Rightarrow> string" where
  "binding_of sv c = (case (ac_cred c, as_pinned sv) of (Some (cr, key), None) \<Rightarrow> key | _ \<Rightarrow> [])"

text \<open>The first look at the session under the store's lock.\<close>

definition look_invalid :: "auth_server \<Rightarrow> auth_call \<Rightarrow> sess \<Rightarrow> bool" where
  "look_invalid sv c s \<longleftrightarrow>
     se_dead s \<or> \<not> ac_now c < se_expires s
     \<or> (as_pinned sv = None \<and> (case ac_cred c of None \<Rightarrow> False | Some (cr, key) \<Rightarrow> key \<noteq> se_binding s))"

definition revalidation_due :: "auth_server \<Rightarrow> auth_call \<Rightarrow> sess \<Rightarrow> bool" where
  "revalidation_due sv c s \<longleftrightarrow>
     as_pinned sv = None \<and> (\<not> safeMethod (ac_method c) \<or> se_unavailableSince s \<noteq> None \<or> ac_now c - se_checked s \<ge> 60 * 10 ^ 9)"

definition drops_cached :: "auth_call \<Rightarrow> sess \<Rightarrow> bool" where
  \<comment> \<open>whether the cached answer is invalidated first\<close>
  "drops_cached c s \<longleftrightarrow> \<not> safeMethod (ac_method c) \<or> se_unavailableSince s \<noteq> None"

text \<open>The last region: grant and extend, or destroy.\<close>

definition settle :: "auth_call \<Rightarrow> nat \<Rightarrow> bool \<Rightarrow> sstore \<Rightarrow> auth_reply \<times> sstore" where
  "settle c p invalid st =
     (if \<not> invalid \<and> \<not> se_dead (ss_heap st ! p)
      then let st1 = extend_session p (ac_now c) st in (Granted (snapshot_sess (ss_heap st1 ! p)), st1)
      else (Refused SessionRefused, destroy (se_id (ss_heap st ! p)) st))"

definition outage :: "auth_call \<Rightarrow> check_error \<Rightarrow> nat \<Rightarrow> sstore \<Rightarrow> auth_reply \<times> sstore" where
  "outage c e p st =
     (let st1 = note_outage p (ac_now c) st
      in (Refused (CheckFailed e),
          case se_unavailableSince (ss_heap st1 ! p) of
            None \<Rightarrow> st1
          | Some since \<Rightarrow> if \<not> ac_after c < since + qtsUnavailableGrace then destroy (se_id (ss_heap st1 ! p)) st1 else st1))"

definition decision_of :: "auth_server \<Rightarrow> vsession \<Rightarrow> ident \<Rightarrow> bool \<times> string" where
  "decision_of sv v i = DecideAdmin (IsAdmin v) i (as_ids sv) (as_requireBoth sv)"

definition revalidate :: "auth_server \<Rightarrow> auth_call \<Rightarrow> nat \<Rightarrow> sstore \<Rightarrow> auth_reply \<times> sstore" where
  "revalidate sv c p st =
     (let s = ss_heap st ! p
      in case ac_enter c of
        Some e \<Rightarrow> (Refused (CheckFailed e), st)
      | None \<Rightarrow>
          (case (case ac_ended c of Some e \<Rightarrow> Inl e | None \<Rightarrow> ac_verify c (drops_cached c s)) of
             Inl e \<Rightarrow>
               if qtsUnavailable e then outage c e p st
               else if admissionError e then (Refused (CheckFailed e), st)
               else settle c p True st
           | Inr v \<Rightarrow>
               if vs_User v \<noteq> pr_User (se_who s) then settle c p True st
               else case ac_ended2 c of
                 Some e \<Rightarrow> (Refused (CheckFailed e), st)
               | None \<Rightarrow>
                   (case ac_resolve c (vs_User v) of
                      None \<Rightarrow> settle c p True st
                    | Some i \<Rightarrow> settle c p False (record_identity p i (decision_of sv v i) (vs_ValidatedAt v) st))))"

definition authenticateSession :: "auth_server \<Rightarrow> auth_call \<Rightarrow> (sstore \<Rightarrow> sstore) \<Rightarrow> nat \<Rightarrow> sstore \<Rightarrow> auth_reply \<times> sstore" where
  "authenticateSession sv c others p st =
     (let s = ss_heap st ! p
      in if \<not> safeMethod (ac_method c) \<and> \<not> validCSRF (as_parse sv) (ac_headers c) (se_csrf s) then (Refused CsrfRefused, st)
         else if ac_waiting c > maxSessionAuthWaiters + 1 then (Refused Overloaded, st)
         else case ac_lock c of
           Some e \<Rightarrow> (Refused (CheckFailed e), st)
         | None \<Rightarrow>
             if look_invalid sv c s then settle c p True (others st)
             else if \<not> revalidation_due sv c s then settle c p False (others st)
             else if \<not> ac_verifier c then settle c p True (others st)
             else revalidate sv c p (others st))"

subsection \<open>Bootstrap\<close>

text \<open>
  The first request of a credential. \<open>bc_leader\<close> is None for the call that leads the credential's flight
  (\<open>authAdmission.credential\<close>), and what the leader's flight gave otherwise.
\<close>

record boot_call =
  bc_id :: string
  bc_csrf :: string
  bc_now :: time
  bc_leader :: "(auth_refusal + nat) option"
  bc_verifier :: bool
  bc_enter :: "check_error option"
  bc_verify :: "check_error + vsession"
  bc_ended :: "check_error option"
  bc_resolve :: "string \<Rightarrow> ident option"
  bc_ended2 :: "check_error option"
  bc_now1 :: time
  bc_now2 :: time

definition DoorQTS :: string where "DoorQTS = ''qts''"

definition blank_session :: "boot_call \<Rightarrow> sess" where
  "blank_session b =
     \<lparr>se_id = bc_id b, se_csrf = bc_csrf b, se_binding = [], se_kind = [],
      se_who = \<lparr>pr_User = [], pr_UID = 0, pr_GID = 0, pr_Groups = [], pr_Root = False\<rparr>, se_admin = False, se_partial = False,
      se_door = DoorQTS, se_dead = False, se_user = [], se_note = [],
      se_cred = \<lparr>cd_Kind = [], cd_User = [], cd_Token = []\<rparr>, se_checked = bc_now b, se_unavailableSince = None,
      se_expires = bc_now b + sessionTTL\<rparr>"

definition authenticateCredential :: "auth_server \<Rightarrow> boot_call \<Rightarrow> cred \<times> string \<Rightarrow> sess \<Rightarrow> auth_refusal + sess" where
  "authenticateCredential sv b ck s =
     (if \<not> bc_verifier b then Inl SessionRefused
      else case bc_enter b of
        Some e \<Rightarrow> Inl (CheckFailed e)
      | None \<Rightarrow>
          (case bc_verify b of
             Inl e \<Rightarrow> Inl (CheckFailed e)
           | Inr v \<Rightarrow>
               (case bc_ended b of
                  Some e \<Rightarrow> Inl (CheckFailed e)
                | None \<Rightarrow>
                    (case bc_resolve b (vs_User v) of
                       None \<Rightarrow> Inl SessionRefused
                     | Some i \<Rightarrow>
                         let d = decision_of sv v i
                         in Inr (s\<lparr>se_who := (principal_of i)\<lparr>pr_Root := fst d\<rparr>, se_admin := fst d, se_note := snd d,
                              se_partial := i_Partial i, se_binding := snd ck, se_kind := cd_Kind (fst ck),
                              se_cred := fst ck, se_checked := vs_ValidatedAt v\<rparr>)))))"

definition pinned_session :: "auth_server \<Rightarrow> principal \<Rightarrow> sess \<Rightarrow> sess" where
  "pinned_session sv pr s =
     s\<lparr>se_who := pr,
       se_admin := IsLocalAdmin \<lparr>i_Name = pr_User pr, i_UID = pr_UID pr, i_GID = pr_GID pr, i_Groups = pr_Groups pr,
         i_Home = [], i_Source = [], i_Partial = False\<rparr> (as_ids sv)\<rparr>"

definition createSession :: "auth_server \<Rightarrow> boot_call \<Rightarrow> (cred \<times> string) option \<Rightarrow> sstore \<Rightarrow> (auth_refusal + nat) \<times> sstore" where
  "createSession sv b cred st =
     (let made = (case as_pinned sv of
          Some pr \<Rightarrow> Inr (pinned_session sv pr (blank_session b))
        | None \<Rightarrow> (case cred of None \<Rightarrow> Inl SessionRefused | Some ck \<Rightarrow> authenticateCredential sv b ck (blank_session b)))
      in case made of
        Inl e \<Rightarrow> (Inl e, st)
      | Inr s \<Rightarrow>
          (case bc_ended2 b of
             Some e \<Rightarrow> (Inl (CheckFailed e), st)
           | None \<Rightarrow>
               (case insertSession (as_MaxSessions sv) (as_MaxSessionsPerUser sv) (bc_now1 b) (bc_now2 b) s st of
                  (None, st1) \<Rightarrow> (Inl StoreFull, st1)
                | (Some p, st1) \<Rightarrow> (Inr p, st1))))"

definition bootstrap :: "auth_server \<Rightarrow> auth_call \<Rightarrow> boot_call \<Rightarrow> sstore \<Rightarrow> (auth_refusal + nat) \<times> sstore" where
  "bootstrap sv c b st =
     (if as_pinned sv \<noteq> None then createSession sv b (ac_cred c) st
      else case bc_leader b of
        Some r \<Rightarrow> (r, st)
      | None \<Rightarrow>
          (case tget (ss_byCredential st) (binding_of sv c) of
             Some p \<Rightarrow> (Inr p, st)
           | None \<Rightarrow> createSession sv b (ac_cred c) st))"

definition credential_differs :: "auth_server \<Rightarrow> auth_call \<Rightarrow> sess \<Rightarrow> bool" where
  "credential_differs sv c s \<longleftrightarrow> as_pinned sv = None \<and> ac_cred c \<noteq> None \<and> binding_of sv c \<noteq> se_binding s"

definition authenticate :: "auth_server \<Rightarrow> auth_call \<Rightarrow> boot_call \<Rightarrow> (sstore \<Rightarrow> sstore) \<Rightarrow> sstore \<Rightarrow> auth_reply \<times> sstore" where
  "authenticate sv c b others st0 =
     (case lookupSession (ac_sid c) (binding_of sv c) st0 of
        (found, st) \<Rightarrow>
          let differs = (case found of None \<Rightarrow> False | Some p \<Rightarrow> credential_differs sv c (ss_heap st ! p))
          in if differs \<and> (\<not> safeMethod (ac_method c) \<or> ac_path c \<noteq> ''/api/session'') then (Refused SessionRefused, st)
             else case (if differs then None else found) of
               Some p \<Rightarrow> authenticateSession sv c others p st
             | None \<Rightarrow>
                 if \<not> safeMethod (ac_method c) then (Refused SessionRefused, st)
                 else if as_pinned sv = None \<and> ac_cred c = None then (Anonymous, st)
                 else (case bootstrap sv c b st of
                     (Inl e, st1) \<Rightarrow> (Refused e, st1)
                   | (Inr p, st1) \<Rightarrow>
                       (case authenticateSession sv c others p st1 of
                          (Granted g, st2) \<Rightarrow>
                            (Granted g, case found of None \<Rightarrow> st2 | Some q \<Rightarrow> destroy (se_id (ss_heap st2 ! q)) st2)
                        | (r, st2) \<Rightarrow> (r, st2))))"

subsection \<open>Properties\<close>

text \<open>Other requests may end the session; what its lock protects they leave as it is.\<close>

definition others_ok :: "(sstore \<Rightarrow> sstore) \<Rightarrow> nat \<Rightarrow> sstore \<Rightarrow> bool" where
  "others_ok others p st \<longleftrightarrow>
     p < length (ss_heap (others st)) \<and> (\<exists>b. ss_heap (others st) ! p = (ss_heap st ! p)\<lparr>se_dead := b\<rparr>)"

lemma update_at [simp]: "p < length (ss_heap st) \<Longrightarrow> ss_heap (update_sess p f st) ! p = f (ss_heap st ! p)"
  by (simp add: update_sess_def)

lemma settle_Granted:
  assumes "settle c p invalid st = (Granted g, st')" "p < length (ss_heap st)"
  shows "\<not> invalid" "\<not> se_dead (ss_heap st ! p)" "se_id g = se_id (ss_heap st ! p)" "se_who g = se_who (ss_heap st ! p)"
    "se_admin g = se_admin (ss_heap st ! p)" "se_csrf g = se_csrf (ss_heap st ! p)"
  using assms by (auto simp: settle_def Let_def extend_session_def snapshot_sess_def split: if_splits)

lemma outage_refuses: "fst (outage c e p st) = Refused (CheckFailed e)"
  by (simp add: outage_def Let_def)

text \<open>
  C14: Nobody acts on a session that does not justify it: a grant means a live, unexpired session, the credential it was
  bound to if one is presented, the session's own anti-forgery token from the same origin for anything unsafe, and
  either an identity checked less than a minute ago with no outage since, for a safe request, or an answer
  obtained for this very request (never a cached one when it is unsafe) that names the session's user again, from which the
  granted identity and rights are taken.
\<close>

theorem grant_justified:
  assumes "authenticateSession sv c others p st = (Granted g, st')" "others_ok others p st"
  shows "(safeMethod (ac_method c) \<or> validCSRF (as_parse sv) (ac_headers c) (se_csrf (ss_heap st ! p)))
    \<and> \<not> se_dead (ss_heap st ! p) \<and> \<not> se_dead (ss_heap (others st) ! p) \<and> ac_now c < se_expires (ss_heap st ! p)
    \<and> se_id g = se_id (ss_heap st ! p)
    \<and> (as_pinned sv = None \<longrightarrow>
        (\<forall>cr key. ac_cred c = Some (cr, key) \<longrightarrow> key = se_binding (ss_heap st ! p))
        \<and> (safeMethod (ac_method c) \<and> se_unavailableSince (ss_heap st ! p) = None
             \<and> ac_now c < se_checked (ss_heap st ! p) + 60 * 10 ^ 9 \<and> se_who g = se_who (ss_heap st ! p) \<and> se_admin g = se_admin (ss_heap st ! p)
           \<or> (\<exists>v i. ac_verify c (\<not> safeMethod (ac_method c) \<or> se_unavailableSince (ss_heap st ! p) \<noteq> None) = Inr v
               \<and> vs_User v = pr_User (se_who (ss_heap st ! p)) \<and> ac_resolve c (vs_User v) = Some i
               \<and> se_admin g = fst (decision_of sv v i) \<and> se_who g = (principal_of i)\<lparr>pr_Root := fst (decision_of sv v i)\<rparr>)))"
proof -
  let ?s = "ss_heap st ! p" let ?st = "others st"
  obtain b where b: "ss_heap ?st ! p = ?s\<lparr>se_dead := b\<rparr>" and pl: "p < length (ss_heap ?st)" using assms(2) by (auto simp: others_ok_def)
  have nl: "\<not> look_invalid sv c ?s" and csrf: "safeMethod (ac_method c) \<or> validCSRF (as_parse sv) (ac_headers c) (se_csrf ?s)"
    using assms(1) settle_Granted(1) [OF _ pl, of c True]
    by (auto simp: authenticateSession_def Let_def split: if_splits option.splits)
  have look: "\<not> se_dead ?s" "ac_now c < se_expires ?s" "as_pinned sv = None \<Longrightarrow> ac_cred c = Some (cr, key) \<Longrightarrow> key = se_binding ?s" for cr key
    using nl by (auto simp: look_invalid_def)
  show ?thesis
  proof (cases "revalidation_due sv c ?s")
    case False
    then have "settle c p False ?st = (Granted g, st')"
      using assms(1) nl by (auto simp: authenticateSession_def Let_def split: if_splits option.splits)
    note g = settle_Granted [OF this pl]
    show ?thesis using csrf look g b False by (auto simp: revalidation_due_def)
  next
    case True
    then have r: "revalidate sv c p ?st = (Granted g, st')"
      using assms(1) nl settle_Granted(1) [OF _ pl, of c True]
      by (auto simp: authenticateSession_def Let_def split: if_splits option.splits)
    then obtain v i where v: "ac_verify c (drops_cached c (ss_heap ?st ! p)) = Inr v" "vs_User v = pr_User (se_who (ss_heap ?st ! p))"
      "ac_resolve c (vs_User v) = Some i"
      "settle c p False (record_identity p i (decision_of sv v i) (vs_ValidatedAt v) ?st) = (Granted g, st')"
      using settle_Granted(1) [OF _ pl, of c True] outage_refuses
      by (auto simp: revalidate_def Let_def split: option.splits sum.splits if_splits dest: arg_cong [where f = fst])
    have pl': "p < length (ss_heap (record_identity p i (decision_of sv v i) (vs_ValidatedAt v) ?st))"
      using pl by (simp add: record_identity_def)
    note g = settle_Granted [OF v(4) pl']
    show ?thesis using csrf look g v(1-3) b pl by (auto simp: record_identity_def drops_cached_def)
  qed
qed

text \<open>Ending a stored session.\<close>

lemma destroy_ends:
  assumes "indexes_ok st" "tget (ss_sessions st) sid = Some p"
  shows "tget (ss_sessions (destroy sid st)) sid = None" "se_dead (ss_heap (destroy sid st) ! p)"
    and "se_binding (ss_heap st ! p) \<noteq> [] \<Longrightarrow> tget (ss_byCredential (destroy sid st)) (se_binding (ss_heap st ! p)) = None"
proof -
  have p: "p \<in> set (ss_order st)" "se_id (ss_heap st ! p) = sid" using indexesD(3) [OF assms(1)] assms(2) by blast+
  have pl: "p < length (ss_heap st)" using indexesD(4) [OF assms(1) p(1)] by blast
  have d: "destroy sid st = removeSession (Some p) st" using assms(2) by (simp add: destroy_def)
  show "tget (ss_sessions (destroy sid st)) sid = None" using p(2) by (simp add: d remove_sessions)
  show "se_dead (ss_heap (destroy sid st) ! p)" using remove_heap [OF pl] by (simp add: d)
  show "tget (ss_byCredential (destroy sid st)) (se_binding (ss_heap st ! p)) = None" if "se_binding (ss_heap st ! p) \<noteq> []"
    using indexesD(5) [OF assms(1), of "se_binding (ss_heap st ! p)" p] p(1) that by (simp add: d remove_credentials)
qed

text \<open>A stored session as a revalidation finds it, after whatever others did.\<close>

definition revalidates :: "auth_server \<Rightarrow> auth_call \<Rightarrow> (sstore \<Rightarrow> sstore) \<Rightarrow> nat \<Rightarrow> sstore \<Rightarrow> bool" where
  "revalidates sv c others p st \<longleftrightarrow>
     (safeMethod (ac_method c) \<or> validCSRF (as_parse sv) (ac_headers c) (se_csrf (ss_heap st ! p)))
     \<and> ac_waiting c \<le> maxSessionAuthWaiters + 1 \<and> ac_lock c = None \<and> \<not> look_invalid sv c (ss_heap st ! p)
     \<and> revalidation_due sv c (ss_heap st ! p) \<and> ac_verifier c \<and> ac_enter c = None
     \<and> others_ok others p st \<and> indexes_ok (others st) \<and> tget (ss_sessions (others st)) (se_id (ss_heap st ! p)) = Some p"

definition asked :: "auth_call \<Rightarrow> sess \<Rightarrow> check_error + vsession" where
  "asked c s = (case ac_ended c of Some e \<Rightarrow> Inl e | None \<Rightarrow> ac_verify c (drops_cached c s))"

lemma revalidates_call:
  assumes "revalidates sv c others p st"
  shows "authenticateSession sv c others p st = revalidate sv c p (others st)"
    and "asked c (ss_heap (others st) ! p) = asked c (ss_heap st ! p)"
    and "se_unavailableSince (ss_heap (others st) ! p) = se_unavailableSince (ss_heap st ! p)"
    and "se_id (ss_heap (others st) ! p) = se_id (ss_heap st ! p)" "se_binding (ss_heap (others st) ! p) = se_binding (ss_heap st ! p)"
    and "se_who (ss_heap (others st) ! p) = se_who (ss_heap st ! p)" "p < length (ss_heap (others st))"
  using assms by (auto simp: revalidates_def authenticateSession_def Let_def others_ok_def asked_def drops_cached_def split: option.split)

lemma revalidate_asked:
  assumes "ac_enter c = None"
  shows "revalidate sv c p st =
    (case asked c (ss_heap st ! p) of
       Inl e \<Rightarrow> if qtsUnavailable e then outage c e p st else if admissionError e then (Refused (CheckFailed e), st) else settle c p True st
     | Inr v \<Rightarrow> if vs_User v \<noteq> pr_User (se_who (ss_heap st ! p)) then settle c p True st
         else case ac_ended2 c of Some e \<Rightarrow> (Refused (CheckFailed e), st)
           | None \<Rightarrow> (case ac_resolve c (vs_User v) of None \<Rightarrow> settle c p True st
               | Some i \<Rightarrow> settle c p False (record_identity p i (decision_of sv v i) (vs_ValidatedAt v) st)))"
  using assms by (simp add: revalidate_def Let_def asked_def)

lemma settle_True: "settle c p True st = (Refused SessionRefused, destroy (se_id (ss_heap st ! p)) st)"
  by (simp add: settle_def)

text \<open>
  C15: An outage of the endpoint never authorizes anything and does not last: a request whose revalidation
  meets one is refused; the session survives, marked with the first failure so that every later request must ask
  again, until five minutes after that failure, and is ended then.
\<close>

theorem outage_grace_bounded:
  assumes "revalidates sv c others p st" "asked c (ss_heap st ! p) = Inl e" "qtsUnavailable e"
    and "since = (case se_unavailableSince (ss_heap st ! p) of None \<Rightarrow> ac_now c | Some t \<Rightarrow> t)"
  shows "case authenticateSession sv c others p st of (r, st') \<Rightarrow>
    r = Refused (CheckFailed e)
    \<and> (if ac_after c < since + 5 * 60 * 10 ^ 9
       then tget (ss_sessions st') (se_id (ss_heap st ! p)) = Some p \<and> se_unavailableSince (ss_heap st' ! p) = Some since
         \<and> (as_pinned sv = None \<longrightarrow> revalidation_due sv c' (ss_heap st' ! p) \<and> drops_cached c' (ss_heap st' ! p))
       else tget (ss_sessions st') (se_id (ss_heap st ! p)) = None \<and> se_dead (ss_heap st' ! p))"
proof -
  note rv = revalidates_call [OF assms(1)]
  let ?st = "others st" let ?n = "note_outage p (ac_now c) (others st)"
  have en: "ac_enter c = None" and i: "indexes_ok ?st" and g: "tget (ss_sessions ?st) (se_id (ss_heap st ! p)) = Some p"
    using assms(1) by (simp_all add: revalidates_def)
  have call: "authenticateSession sv c others p st = outage c e p ?st"
    using rv(1,2) revalidate_asked [OF en] assms(2,3) by simp
  have n: "se_unavailableSince (ss_heap ?n ! p) = Some since" "se_id (ss_heap ?n ! p) = se_id (ss_heap st ! p)"
    using rv(3,4,7) assms(4) by (simp_all add: note_outage_def split: option.split)
  have "indexes_ok ?n" unfolding note_outage_def by (rule update_indexes [OF i]) simp
  moreover have "tget (ss_sessions ?n) (se_id (ss_heap st ! p)) = Some p" using g by (simp add: note_outage_def)
  ultimately show ?thesis
    using n destroy_ends(1,2) [of ?n "se_id (ss_heap st ! p)" p]
    by (simp add: call outage_def Let_def qtsUnavailableGrace_def revalidation_due_def drops_cached_def)
qed

text \<open>
  A sign-out takes the session with it: when the endpoint answers that the credential is not good, or names another
  user, or that user no longer resolves, the request is refused and its session is dead and gone from the store, under its
  id and under its credential.
\<close>

theorem refusal_ends_session:
  assumes "revalidates sv c others p st"
    and "(case asked c (ss_heap st ! p) of
        Inl e \<Rightarrow> \<not> qtsUnavailable e \<and> \<not> admissionError e
      | Inr v \<Rightarrow> vs_User v \<noteq> pr_User (se_who (ss_heap st ! p)) \<or> ac_ended2 c = None \<and> ac_resolve c (vs_User v) = None)"
  shows "case authenticateSession sv c others p st of (r, st') \<Rightarrow>
    r = Refused SessionRefused \<and> se_dead (ss_heap st' ! p) \<and> tget (ss_sessions st') (se_id (ss_heap st ! p)) = None
    \<and> (se_binding (ss_heap st ! p) \<noteq> [] \<longrightarrow> tget (ss_byCredential st') (se_binding (ss_heap st ! p)) = None)"
proof -
  note rv = revalidates_call [OF assms(1)]
  have en: "ac_enter c = None" and i: "indexes_ok (others st)" and g: "tget (ss_sessions (others st)) (se_id (ss_heap st ! p)) = Some p"
    using assms(1) by (simp_all add: revalidates_def)
  have "revalidate sv c p (others st) = settle c p True (others st)"
    using assms(2) rv(2,6) by (auto simp: revalidate_asked [OF en] split: sum.splits option.splits)
  then show ?thesis using destroy_ends [OF i g] rv(1,4,5) by (simp add: settle_True)
qed

text \<open>
  An unsafe request never bootstraps: it acts through a session already stored under its id or its credential, exactly as that
  session's checks decide, or it is refused with the store as it was; no credential is validated and no session created for it.
\<close>

theorem unsafe_never_bootstraps:
  assumes "\<not> safeMethod (ac_method c)"
  shows "(\<exists>p. (tget (ss_sessions st) (ac_sid c) = Some p \<or> tget (ss_byCredential st) (binding_of sv c) = Some p)
          \<and> \<not> credential_differs sv c (ss_heap st ! p)
          \<and> authenticate sv c b others st = authenticateSession sv c others p (snd (lookupSession (ac_sid c) (binding_of sv c) st)))
    \<or> authenticate sv c b others st = (Refused SessionRefused, snd (lookupSession (ac_sid c) (binding_of sv c) st))"
  using assms by (auto simp: authenticate_def lookupSession_def Let_def split: option.splits if_splits)

definition sample_web :: auth_server where
  "sample_web = \<lparr>as_pinned = None, as_ids = None, as_requireBoth = False,
     as_parse = (\<lambda>s. if s = ''https://nas'' then Some \<lparr>up_scheme = ''https'', up_user = False, up_host = ''nas''\<rparr> else None),
     as_MaxSessions = 0, as_MaxSessionsPerUser = 0\<rparr>"

definition sample_ident :: ident where
  "sample_ident = \<lparr>i_Name = ''ann'', i_UID = 1000, i_GID = 100, i_Groups = [100], i_Home = [], i_Source = [], i_Partial = False\<rparr>"

definition sample_call :: "string \<Rightarrow> time \<Rightarrow> (check_error + vsession) \<Rightarrow> time \<Rightarrow> auth_call" where
  "sample_call m now ans after =
     \<lparr>ac_method = m, ac_path = ''/api/delete'',
      ac_headers = \<lparr>oh_csrf = ''t'', oh_fetch_site = [], oh_origin = ''https://nas'', oh_referer = [], oh_host = ''NAS''\<rparr>,
      ac_sid = ''a'', ac_cred = None, ac_waiting = 1, ac_lock = None, ac_now = now, ac_verifier = True, ac_enter = None,
      ac_verify = (\<lambda>fresh. ans), ac_ended = None, ac_after = after, ac_resolve = (\<lambda>u. Some sample_ident), ac_ended2 = None\<rparr>"

definition sample_answered_session :: vsession where
  "sample_answered_session = \<lparr>vs_User = ''ann'', vs_Admin = None, vs_ValidatedAt = 7, vs_Kind = KindQToken\<rparr>"

definition sample_stored :: sstore where
  "sample_stored = foldl (store_step 0 0) new_store [Inserts 0 0 (sample_sess ''a'' ''k1'' ''ann'' (10 ^ 15))]"

theorem grant_justified_witness:
  "validCSRF (as_parse sample_web) (ac_headers (sample_call ''POST'' 5 (Inr sample_answered_session) 6)) ''t''
   \<and> (\<exists>g st'. authenticateSession sample_web (sample_call ''POST'' 5 (Inr sample_answered_session) 6) id 0 sample_stored = (Granted g, st'))"
proof -
  let ?c = "sample_call ''POST'' 5 (Inr sample_answered_session) 6"
  have e: "(case authenticateSession sample_web ?c id 0 sample_stored of (Granted g, st') \<Rightarrow> True | _ \<Rightarrow> False)" by code_simp
  then obtain g st' where g: "authenticateSession sample_web ?c id 0 sample_stored = (Granted g, st')"
    by (auto split: prod.splits auth_reply.splits)
  have l: "0 < length (ss_heap sample_stored) \<and> ss_heap sample_stored ! 0 = (ss_heap sample_stored ! 0)\<lparr>se_dead := False\<rparr>
    \<and> se_csrf (ss_heap sample_stored ! 0) = ''t'' \<and> \<not> safeMethod (ac_method ?c)" by code_simp
  then have "others_ok id 0 sample_stored" by (auto simp: others_ok_def)
  from grant_justified [OF g this] show ?thesis using l g by auto
qed

theorem outage_grace_bounded_witness:
  "fst (authenticateSession sample_web (sample_call ''GET'' (61 * 10 ^ 9) (Inl NetTimeout) (62 * 10 ^ 9)) id 0 sample_stored)
     = Refused (CheckFailed NetTimeout)"
proof -
  let ?c = "sample_call ''GET'' (61 * 10 ^ 9) (Inl NetTimeout) (62 * 10 ^ 9)"
  have i: "indexes_ok sample_stored"
    using sessions.run_inv [OF new_sessions_ok, of 0 0] unfolding sample_stored_def sessions_ok_def by blast
  have l: "0 < length (ss_heap sample_stored) \<and> ss_heap sample_stored ! 0 = (ss_heap sample_stored ! 0)\<lparr>se_dead := False\<rparr>
    \<and> safeMethod (ac_method ?c) \<and> ac_waiting ?c \<le> maxSessionAuthWaiters + 1 \<and> ac_lock ?c = None \<and> \<not> look_invalid sample_web ?c (ss_heap sample_stored ! 0)
    \<and> revalidation_due sample_web ?c (ss_heap sample_stored ! 0) \<and> ac_verifier ?c \<and> ac_enter ?c = None
    \<and> tget (ss_sessions sample_stored) (se_id (ss_heap sample_stored ! 0)) = Some 0" by code_simp
  then have r: "revalidates sample_web ?c id 0 sample_stored" using i by (auto simp: revalidates_def others_ok_def)
  have a: "asked ?c (ss_heap sample_stored ! 0) = Inl NetTimeout" by (simp add: asked_def sample_call_def)
  show ?thesis
    by (rule conjunct1 [OF outage_grace_bounded [OF r a _ refl, of ?c, unfolded case_prod_beta]]) (simp add: qtsUnavailable_def)
qed

theorem refusal_ends_session_witness:
  "tget (ss_sessions (snd (authenticateSession sample_web (sample_call ''POST'' 5 (Inl (CheckErr [ErrNotAuthenticated])) 6) id 0 sample_stored))) ''a'' = None"
proof -
  let ?c = "sample_call ''POST'' 5 (Inl (CheckErr [ErrNotAuthenticated])) 6"
  have i: "indexes_ok sample_stored"
    using sessions.run_inv [OF new_sessions_ok, of 0 0] unfolding sample_stored_def sessions_ok_def by blast
  have l: "0 < length (ss_heap sample_stored) \<and> ss_heap sample_stored ! 0 = (ss_heap sample_stored ! 0)\<lparr>se_dead := False\<rparr>
    \<and> validCSRF (as_parse sample_web) (ac_headers ?c) (se_csrf (ss_heap sample_stored ! 0))
    \<and> ac_waiting ?c \<le> maxSessionAuthWaiters + 1 \<and> ac_lock ?c = None \<and> \<not> look_invalid sample_web ?c (ss_heap sample_stored ! 0)
    \<and> revalidation_due sample_web ?c (ss_heap sample_stored ! 0) \<and> ac_verifier ?c \<and> ac_enter ?c = None
    \<and> se_id (ss_heap sample_stored ! 0) = ''a'' \<and> tget (ss_sessions sample_stored) (se_id (ss_heap sample_stored ! 0)) = Some 0" by code_simp
  then have r: "revalidates sample_web ?c id 0 sample_stored" using i by (auto simp: revalidates_def others_ok_def)
  have a: "asked ?c (ss_heap sample_stored ! 0) = Inl (CheckErr [ErrNotAuthenticated])" by (simp add: asked_def sample_call_def)
  show ?thesis using refusal_ends_session [OF r] a l by (auto simp: qtsUnavailable_def admissionError_def split: prod.splits)
qed

definition sample_boot :: boot_call where
  "sample_boot = \<lparr>bc_id = ''b'', bc_csrf = ''u'', bc_now = 5, bc_leader = None, bc_verifier = True, bc_enter = None,
     bc_verify = Inr sample_answered_session, bc_ended = None, bc_resolve = (\<lambda>u. Some sample_ident), bc_ended2 = None, bc_now1 = 5, bc_now2 = 5\<rparr>"

theorem unsafe_never_bootstraps_witness:
  "fst (authenticate sample_web (sample_call ''POST'' 5 (Inr sample_answered_session) 6) sample_boot id new_store) = Refused SessionRefused"
proof -
  have "\<not> safeMethod (ac_method (sample_call ''POST'' 5 (Inr sample_answered_session) 6))" by code_simp
  from unsafe_never_bootstraps [OF this, of new_store sample_web sample_boot id] show ?thesis
    by (auto simp: new_store_def)
qed

end
