(* ===== verification/Pool.thy ===== *)
theory Pool
  imports Sessions
begin

section \<open>The pool of worker processes (internal/workerpool/workerpool.go, client.go)\<close>

text \<open>
  One worker process per key, at most \<open>Max\<close> processes whatever their state. The pool's mutex makes every region
  of \<open>get\<close>, \<open>reapIdle\<close>, \<open>detach\<close>, \<open>stopRetired\<close> and the sweep of a shutdown one step; a caller is a thread with a
  program counter; a process, once started, stays in the list of clients, which is addressed by
  index. What the outside does (a process starting, answering hello, dying, exiting) are events of their own, and
  so is \<open>detach\<close>, which any failing call may run at any time.
\<close>

subsection \<open>Whose worker it is\<close>

text \<open>\<open>Principal.Key\<close> and \<open>credsOf\<close>.\<close>

definition principal_key :: "principal \<Rightarrow> string" where
  "principal_key who = (if pr_Root who then ''root'' else ''uid:'' @ itoa (pr_UID who))"

record creds =
  cs_uid :: int
  cs_gid :: int
  cs_groups :: string
  cs_root :: bool

fun first_seen :: "int list \<Rightarrow> int list \<Rightarrow> int list" where
  "first_seen seen [] = []"
| "first_seen seen (g # gs) = (if List.member seen g then first_seen seen gs else g # first_seen (g # seen) gs)"

definition credsOf :: "principal \<Rightarrow> creds" where
  "credsOf who =
     \<lparr>cs_uid = pr_UID who, cs_gid = pr_GID who,
      cs_groups = join_with CHR '','' (map itoa (sort (first_seen [] (pr_Groups who)))), cs_root = pr_Root who\<rparr>"

subsection \<open>State\<close>

definition DefaultMax :: int where "DefaultMax = 8"
definition DefaultIdleTimeout :: time where "DefaultIdleTimeout = 10 * 60 * 10 ^ 9"
definition DefaultRestartBudget :: int where "DefaultRestartBudget = 5"
definition DefaultRestartWindow :: time where "DefaultRestartWindow = 60 * 10 ^ 9"
definition DefaultRestartCooldown :: time where "DefaultRestartCooldown = 60 * 10 ^ 9"
definition pingAfterIdle :: time where "pingAfterIdle = 5 * 10 ^ 9"

record pool_options =
  op_Max :: int
  op_IdleTimeout :: time
  op_RestartBudget :: int
  op_RestartWindow :: time
  op_RestartCooldown :: time
  op_process :: bool

definition normalise_pool :: "pool_options \<Rightarrow> pool_options" where
  "normalise_pool o1 =
     o1\<lparr>op_Max := (if op_Max o1 \<le> 0 then DefaultMax else op_Max o1),
        op_IdleTimeout := (if op_IdleTimeout o1 \<le> 0 then DefaultIdleTimeout else op_IdleTimeout o1),
        op_RestartBudget := (if op_RestartBudget o1 \<le> 0 then DefaultRestartBudget else op_RestartBudget o1),
        op_RestartWindow := (if op_RestartWindow o1 \<le> 0 then DefaultRestartWindow else op_RestartWindow o1),
        op_RestartCooldown := (if op_RestartCooldown o1 \<le> 0 then DefaultRestartCooldown else op_RestartCooldown o1)\<rparr>"

text \<open>
  One process. \<open>pc_stop\<close>: a goroutine is in \<open>stopRetired\<close> for it. \<open>pc_faulty\<close> is a ghost: it was detached by a failing
  call, found dead, never registered, or collected by a shutdown; \<open>pc_starting\<close> that its startup is not over.
\<close>

record pclient =
  pc_key :: string
  pc_cred :: creds
  pc_kernel_uid :: int
  pc_dead :: bool
  pc_inflight :: nat
  pc_lastUsed :: "time option"
  pc_terminating :: bool
  pc_retiring :: bool
  pc_exited :: bool
  pc_stop :: bool
  pc_faulty :: bool
  pc_starting :: bool

record restart_budget =
  rb_times :: "time list"
  rb_blockedUntil :: "time option"

datatype pool_error = PClosed | PBusy | PUnavailable | PCancelled | PStartFailed

text \<open>
  A caller: in the loop of \<open>get\<close>, about to mark a superseded worker, waiting for another caller's startup, starting one
  (None: the process does not exist yet), proving an idle worker is alive, holding one, gone.
  \<open>pt_cancel\<close>: it is a \<open>CancelJob\<close>, which takes whatever worker the key has.
\<close>

datatype tpc = AtLoop | AtMark nat | AtWait | AtSpawn "nat option" | AtPing nat | Has nat | Gone "pool_error option"

record pthread =
  pt_who :: principal
  pt_attempt :: nat
  pt_cancel :: bool
  pt_pc :: tpc

record pool =
  po_clients :: "pclient list"
  po_workers :: "(string, nat) table"
  po_spawning :: "(string, nat) table"
  po_retiring :: "nat list"
  po_budgets :: "(string, restart_budget) table"
  po_closed :: bool
  po_collected :: "nat list"
  po_drained :: bool
  po_done :: bool
  po_threads :: "pthread list"

definition new_pool :: pool where
  "new_pool = \<lparr>po_clients = [], po_workers = [], po_spawning = [], po_retiring = [], po_budgets = [], po_closed = False,
     po_collected = [], po_drained = False, po_done = False, po_threads = []\<rparr>"

definition set_client :: "nat \<Rightarrow> (pclient \<Rightarrow> pclient) \<Rightarrow> pool \<Rightarrow> pool" where
  "set_client i f p = p\<lparr>po_clients := (po_clients p)[i := f (po_clients p ! i)]\<rparr>"

definition move_caller :: "nat \<Rightarrow> tpc \<Rightarrow> pool \<Rightarrow> pool" where
  "move_caller t pc p = p\<lparr>po_threads := (po_threads p)[t := (po_threads p ! t)\<lparr>pt_pc := pc\<rparr>]\<rparr>"

definition caller_at :: "pool \<Rightarrow> nat \<Rightarrow> tpc" where
  "caller_at p t = pt_pc (po_threads p ! t)"

definition caller_key :: "pool \<Rightarrow> nat \<Rightarrow> string" where
  "caller_key p t = principal_key (pt_who (po_threads p ! t))"

text \<open>A set as a list: the retiring map.\<close>

definition retire_entry :: "nat \<Rightarrow> pool \<Rightarrow> pool" where
  "retire_entry i p = (if List.member (po_retiring p) i then p else p\<lparr>po_retiring := i # po_retiring p\<rparr>)"

subsection \<open>Operations\<close>

text \<open>\<open>hold\<close> and \<open>done\<close> of a client, and \<open>idleSince\<close>.\<close>

definition hold_idle :: "time \<Rightarrow> pclient \<Rightarrow> time" where
  "hold_idle now c = (case pc_lastUsed c of None \<Rightarrow> 0 | Some l \<Rightarrow> if pc_inflight c = 0 then now - l else 0)"

definition hold_client :: "time \<Rightarrow> pclient \<Rightarrow> pclient" where
  "hold_client now c = c\<lparr>pc_inflight := Suc (pc_inflight c), pc_lastUsed := Some now\<rparr>"

definition done_client :: "time \<Rightarrow> pclient \<Rightarrow> bool \<times> pclient" where
  "done_client now c =
     (let c' = c\<lparr>pc_inflight := pc_inflight c - 1, pc_lastUsed := Some now\<rparr>
      in (pc_retiring c' \<and> pc_inflight c' = 0 \<and> \<not> pc_terminating c', c'))"

definition idleSince :: "time \<Rightarrow> time \<Rightarrow> pclient \<Rightarrow> bool" where
  "idleSince now d c =
     (if pc_inflight c > 0 then False else case pc_lastUsed c of None \<Rightarrow> False | Some l \<Rightarrow> now - l \<ge> d)"

definition noteRestart :: "pool_options \<Rightarrow> string \<Rightarrow> time \<Rightarrow> pool \<Rightarrow> bool \<times> pool" where
  "noteRestart opt key now p =
     (let b = (case tget (po_budgets p) key of None \<Rightarrow> \<lparr>rb_times = [], rb_blockedUntil = None\<rparr> | Some b \<Rightarrow> b);
          times = filter (\<lambda>t. t > now - op_RestartWindow opt) (rb_times b) @ [now];
          b' = b\<lparr>rb_times := times,
                 rb_blockedUntil := (if int (length times) > op_RestartBudget opt then Some (now + op_RestartCooldown opt) else rb_blockedUntil b)\<rparr>
      in (before_deadline now (rb_blockedUntil b'), p\<lparr>po_budgets := tput key b' (po_budgets p)\<rparr>))"

definition key_blocked :: "time \<Rightarrow> string \<Rightarrow> pool \<Rightarrow> bool" where
  "key_blocked now key p = (case tget (po_budgets p) key of None \<Rightarrow> False | Some b \<Rightarrow> before_deadline now (rb_blockedUntil b))"

text \<open>The worker \<open>makeRoomLocked\<close> picks: the least recently used idle one. A worker nobody ever used has the zero time.\<close>

definition used_before :: "pclient \<Rightarrow> pclient \<Rightarrow> bool" where
  "used_before c d = (case (pc_lastUsed c, pc_lastUsed d) of (None, None) \<Rightarrow> False | (None, Some _) \<Rightarrow> True | (Some _, None) \<Rightarrow> False | (Some a, Some b) \<Rightarrow> a < b)"

fun pick_victim :: "pclient list \<Rightarrow> (string \<times> nat) list \<Rightarrow> (string \<times> nat) option \<Rightarrow> (string \<times> nat) option" where
  "pick_victim cs [] best = best"
| "pick_victim cs ((k, i) # ws) best =
     pick_victim cs ws
       (if pc_inflight (cs ! i) > 0 then best
        else case best of None \<Rightarrow> Some (k, i) | Some (bk, bi) \<Rightarrow> if used_before (cs ! i) (cs ! bi) then Some (k, i) else best)"

definition pool_full :: "pool_options \<Rightarrow> pool \<Rightarrow> bool" where
  "pool_full opt p \<longleftrightarrow> int (tlen (po_workers p) + tlen (po_spawning p) + length (po_retiring p)) \<ge> op_Max opt"

definition schedule_stop :: "nat \<Rightarrow> pool \<Rightarrow> pool" where
  "schedule_stop i p = set_client i (\<lambda>c. c\<lparr>pc_stop := True\<rparr>) p"

definition mark_faulty :: "nat \<Rightarrow> pool \<Rightarrow> pool" where
  "mark_faulty i p = set_client i (\<lambda>c. c\<lparr>pc_faulty := True\<rparr>) p"

text \<open>A worker leaves the map for the retiring ones.\<close>

definition unregister :: "string \<Rightarrow> nat \<Rightarrow> pool \<Rightarrow> pool" where
  "unregister key i p = retire_entry i (p\<lparr>po_workers := tdel key (po_workers p)\<rparr>)"

text \<open>One pass of the loop of \<open>get\<close>, under the lock. \<open>cancelled\<close>: the caller's context, looked at first.\<close>

definition get_pass :: "pool_options \<Rightarrow> time \<Rightarrow> bool \<Rightarrow> nat \<Rightarrow> pool \<Rightarrow> pool" where
  "get_pass opt now cancelled t p =
     (let key = caller_key p t; want = credsOf (pt_who (po_threads p ! t))
      in if cancelled then move_caller t (Gone (Some PCancelled)) p
         else if po_closed p then move_caller t (Gone (Some PClosed)) p
         else case tget (po_workers p) key of
           Some i \<Rightarrow>
             let c = po_clients p ! i
             in if pc_dead c then schedule_stop i (mark_faulty i (snd (noteRestart opt key now (unregister key i p))))
                else if pc_cred c \<noteq> want then move_caller t (AtMark i) (unregister key i p)
                else move_caller t (if hold_idle now c < pingAfterIdle then Has i else AtPing i) (set_client i (hold_client now) p)
         | None \<Rightarrow>
             if tget (po_spawning p) key \<noteq> None then move_caller t AtWait p
             else if key_blocked now key p then move_caller t (Gone (Some PUnavailable)) p
             else if \<not> pool_full opt p then move_caller t (AtSpawn None) (p\<lparr>po_spawning := tput key t (po_spawning p)\<rparr>)
             else (case pick_victim (po_clients p) (po_workers p) None of
                 None \<Rightarrow> move_caller t (Gone (Some PBusy)) p
               | Some (k, i) \<Rightarrow> schedule_stop i (unregister k i p)))"

text \<open>\<open>markRetired\<close>, outside the pool's lock: a superseded worker with nothing in flight is stopped at once.\<close>

definition mark_retired :: "nat \<Rightarrow> nat \<Rightarrow> pool \<Rightarrow> pool" where
  "mark_retired t i p =
     (let c = po_clients p ! i; p1 = set_client i (\<lambda>c. c\<lparr>pc_retiring := True\<rparr>) (move_caller t AtLoop p)
      in if pc_inflight c = 0 \<and> \<not> pc_terminating c then schedule_stop i p1 else p1)"

text \<open>The process of a startup exists: its credentials were fixed when it was started.\<close>

definition started_client :: "principal \<Rightarrow> int \<Rightarrow> pclient" where
  "started_client who kuid =
     \<lparr>pc_key = principal_key who, pc_cred = credsOf who, pc_kernel_uid = kuid, pc_dead = False, pc_inflight = 0, pc_lastUsed = None,
      pc_terminating = False, pc_retiring = False, pc_exited = False, pc_stop = False, pc_faulty = False, pc_starting = True\<rparr>"

definition start_process :: "nat \<Rightarrow> int \<Rightarrow> pool \<Rightarrow> pool" where
  "start_process t kuid p =
     move_caller t (AtSpawn (Some (length (po_clients p))))
       (p\<lparr>po_clients := po_clients p @ [started_client (pt_who (po_threads p ! t)) kuid]\<rparr>)"

text \<open>The last check of \<open>spawn\<close>: the kernel made it who it was asked to be.\<close>

definition hello_accepted :: "pool_options \<Rightarrow> principal \<Rightarrow> int \<Rightarrow> bool" where
  "hello_accepted opt who kuid \<longleftrightarrow> \<not> (op_process opt \<and> \<not> pr_Root who \<and> kuid \<noteq> pr_UID who)"

text \<open>The second region of \<open>get\<close>: \<open>answered\<close> is whether spawn returned without an error, \<open>cancelled\<close> the caller's context.\<close>

definition end_startup :: "nat option \<Rightarrow> pool \<Rightarrow> pool" where
  "end_startup nc p = (case nc of None \<Rightarrow> p | Some i \<Rightarrow> set_client i (\<lambda>c. c\<lparr>pc_starting := False\<rparr>) p)"

definition refuse_startup :: "nat \<Rightarrow> pool_error \<Rightarrow> nat option \<Rightarrow> pool \<Rightarrow> pool" where
  "refuse_startup t e nc p =
     (case nc of
        None \<Rightarrow> move_caller t (Gone (Some e)) p
      | Some i \<Rightarrow> schedule_stop i (mark_faulty i (move_caller t (Gone (Some e)) (end_startup nc (retire_entry i p)))))"

definition accept_startup :: "time \<Rightarrow> nat \<Rightarrow> string \<Rightarrow> nat \<Rightarrow> pool \<Rightarrow> pool" where
  "accept_startup now t key i p =
     move_caller t (Has i) (set_client i (hold_client now) (end_startup (Some i) (p\<lparr>po_workers := tput key i (po_workers p)\<rparr>)))"

definition finish_spawn :: "pool_options \<Rightarrow> time \<Rightarrow> bool \<Rightarrow> bool \<Rightarrow> nat \<Rightarrow> nat option \<Rightarrow> pool \<Rightarrow> pool" where
  "finish_spawn opt now answered cancelled t nc p =
     (let key = caller_key p t; p1 = p\<lparr>po_spawning := tdel key (po_spawning p)\<rparr>;
          failed = (\<lambda>charged. case (if charged then noteRestart opt key now p1 else (False, p1)) of
              (blocked, p2) \<Rightarrow> refuse_startup t (if blocked then PUnavailable else PStartFailed) nc p2)
      in case nc of
        None \<Rightarrow> failed (\<not> cancelled)
      | Some i \<Rightarrow>
          if \<not> answered \<or> \<not> hello_accepted opt (pt_who (po_threads p ! t)) (pc_kernel_uid (po_clients p ! i)) then failed True
          else if po_closed p then refuse_startup t PClosed nc p1
          else accept_startup now t key i p1)"

text \<open>\<open>release\<close>: the caller lets go of its worker, and stops a superseded one it was the last to use.\<close>

definition release_hold :: "time \<Rightarrow> nat \<Rightarrow> pool \<Rightarrow> pool" where
  "release_hold now i p =
     (let (stop, c) = done_client now (po_clients p ! i); p1 = set_client i (\<lambda>_. c) p
      in if stop then schedule_stop i p1 else p1)"

text \<open>\<open>detach\<close>, with the \<open>stopRetired\<close> that follows it in \<open>retire\<close>.\<close>

definition detach_client :: "pool_options \<Rightarrow> time \<Rightarrow> nat \<Rightarrow> pool \<Rightarrow> pool" where
  "detach_client opt now i p =
     (let key = pc_key (po_clients p ! i);
          p1 = (if tget (po_workers p) key = Some i
                then snd (noteRestart opt key now (p\<lparr>po_workers := tdel key (po_workers p)\<rparr>)) else p)
      in schedule_stop i (mark_faulty i (retire_entry i p1)))"

text \<open>\<open>reapIdle\<close>, over the workers of the map.\<close>

fun reap_idle :: "pool_options \<Rightarrow> time \<Rightarrow> (string \<times> nat) list \<Rightarrow> pool \<Rightarrow> pool" where
  "reap_idle opt now [] p = p"
| "reap_idle opt now ((k, i) # ws) p =
     reap_idle opt now ws
       (if idleSince now (op_IdleTimeout opt) (po_clients p ! i) then schedule_stop i (unregister k i p) else p)"

text \<open>One sweep of a shutdown: everything that exists is collected for termination; what is starting is cancelled.\<close>

definition sweep_pool :: "pool \<Rightarrow> pool" where
  "sweep_pool p =
     (let all = map snd (po_workers p) @ po_retiring p
      in foldl (\<lambda>p i. mark_faulty i p) (p\<lparr>po_workers := [], po_retiring := [], po_collected := all @ po_collected p\<rparr>) all)"

definition bump_attempt :: "nat \<Rightarrow> pool \<Rightarrow> pool" where
  "bump_attempt t p = p\<lparr>po_threads := (po_threads p)[t := (po_threads p ! t)\<lparr>pt_attempt := Suc (pt_attempt (po_threads p ! t))\<rparr>]\<rparr>"

definition retry_caller :: "nat \<Rightarrow> pool \<Rightarrow> pool" where
  \<comment> \<open>two attempts at a worker that does not answer\<close>
  "retry_caller t p = move_caller t (if Suc (pt_attempt (po_threads p ! t)) < 2 then AtLoop else Gone (Some PUnavailable)) (bump_attempt t p)"

text \<open>The shutdown is over when a sweep finds nothing and everything collected has exited.\<close>

definition sweep_empty :: "pool \<Rightarrow> bool" where
  "sweep_empty p \<longleftrightarrow> po_workers p = [] \<and> po_retiring p = [] \<and> po_spawning p = []"

datatype pool_event =
    Wants principal
  | Passes nat time bool
  | Marks nat
  | Wakes nat bool
  | Starts nat int
  | Spawned nat time bool bool
  | Pinged nat time bool
  | Releases nat time
  | CancelJobs principal time
  | Detaches nat time
  | Dies nat
  | Terminates nat
  | Exits nat
  | Clears nat
  | Reaps time
  | ShutsDown
  | Sweeps
  | Completes

definition pool_step :: "pool_options \<Rightarrow> pool \<Rightarrow> pool_event \<Rightarrow> pool" where
  "pool_step opt p ev =
     (let n = length (po_threads p); m = length (po_clients p)
      in case ev of
        Wants who \<Rightarrow> p\<lparr>po_threads := po_threads p @ [\<lparr>pt_who = who, pt_attempt = 0, pt_cancel = False, pt_pc = AtLoop\<rparr>]\<rparr>
      | Passes t now cancelled \<Rightarrow> if t < n \<and> caller_at p t = AtLoop then get_pass opt now cancelled t p else p
      | Marks t \<Rightarrow> if t < n then (case caller_at p t of AtMark i \<Rightarrow> mark_retired t i p | _ \<Rightarrow> p) else p
      | Wakes t cancelled \<Rightarrow>
          if t < n \<and> caller_at p t = AtWait
          then (if cancelled then move_caller t (Gone (Some PCancelled)) p
                else if tget (po_spawning p) (caller_key p t) = None then move_caller t AtLoop p else p)
          else p
      | Starts t kuid \<Rightarrow> if t < n \<and> caller_at p t = AtSpawn None then start_process t kuid p else p
      | Spawned t now answered cancelled \<Rightarrow>
          if t < n then (case caller_at p t of AtSpawn nc \<Rightarrow> finish_spawn opt now answered cancelled t nc p | _ \<Rightarrow> p) else p
      | Pinged t now ok \<Rightarrow>
          if t < n then (case caller_at p t of
              AtPing i \<Rightarrow>
                if ok then move_caller t (Has i) p else detach_client opt now i (retry_caller t (release_hold now i p))
            | _ \<Rightarrow> p) else p
      | Releases t now \<Rightarrow>
          if t < n then (case caller_at p t of Has i \<Rightarrow> move_caller t (Gone None) (release_hold now i p) | _ \<Rightarrow> p) else p
      | CancelJobs who now \<Rightarrow>
          (case tget (po_workers p) (principal_key who) of
             None \<Rightarrow> p
           | Some i \<Rightarrow>
               if po_closed p \<or> pc_dead (po_clients p ! i) then p
               else (set_client i (hold_client now) p)\<lparr>po_threads := po_threads p @ [\<lparr>pt_who = who, pt_attempt = 0, pt_cancel = True, pt_pc = Has i\<rparr>]\<rparr>)
      | Detaches i now \<Rightarrow> if i < m then detach_client opt now i p else p
      | Dies i \<Rightarrow> if i < m then set_client i (\<lambda>c. c\<lparr>pc_dead := True\<rparr>) p else p
      | Terminates i \<Rightarrow>
          if i < m \<and> (pc_stop (po_clients p ! i) \<or> List.member (po_collected p) i)
          then set_client i (\<lambda>c. c\<lparr>pc_terminating := True\<rparr>) p else p
      | Exits i \<Rightarrow> if i < m then set_client i (\<lambda>c. c\<lparr>pc_exited := True\<rparr>) p else p
      | Clears i \<Rightarrow>
          if i < m \<and> pc_stop (po_clients p ! i) \<and> pc_exited (po_clients p ! i)
          then p\<lparr>po_retiring := remove1 i (po_retiring p)\<rparr> else p
      | Reaps now \<Rightarrow> reap_idle opt now (po_workers p) p
      | ShutsDown \<Rightarrow> p\<lparr>po_closed := True\<rparr>
      | Sweeps \<Rightarrow>
          if po_closed p \<and> \<not> po_drained p then (if sweep_empty p then p\<lparr>po_drained := True\<rparr> else sweep_pool p) else p
      | Completes \<Rightarrow>
          if po_drained p \<and> list_all (\<lambda>i. pc_exited (po_clients p ! i)) (po_collected p) then p\<lparr>po_done := True\<rparr> else p)"

subsection \<open>What every interleaving keeps\<close>

definition in_workers :: "pool \<Rightarrow> nat \<Rightarrow> bool" where
  "in_workers p i \<longleftrightarrow> (\<exists>k. tget (po_workers p) k = Some i)"

definition spawning_at :: "tpc \<Rightarrow> bool" where
  "spawning_at pc \<longleftrightarrow> (case pc of AtSpawn nc \<Rightarrow> True | _ \<Rightarrow> False)"

definition holds_at :: "nat \<Rightarrow> tpc \<Rightarrow> bool" where
  "holds_at i pc \<longleftrightarrow> pc = Has i \<or> pc = AtPing i"

definition served :: "pclient \<Rightarrow> bool" where
  "served c \<longleftrightarrow> \<not> pc_exited c \<and> \<not> pc_starting c"

definition kernel_ok :: "pool_options \<Rightarrow> pclient \<Rightarrow> bool" where
  "kernel_ok opt c \<longleftrightarrow> op_process opt \<and> \<not> cs_root (pc_cred c) \<longrightarrow> pc_kernel_uid c = cs_uid (pc_cred c)"

definition maps_ok :: "pool \<Rightarrow> bool" where
  "maps_ok p \<longleftrightarrow> table_ok (po_workers p) \<and> table_ok (po_spawning p) \<and> distinct (po_retiring p)
     \<and> (\<forall>i \<in> set (po_retiring p). i < length (po_clients p)) \<and> (\<forall>i \<in> set (po_collected p). i < length (po_clients p))
     \<and> (\<forall>k i. tget (po_workers p) k = Some i \<longrightarrow> i < length (po_clients p) \<and> pc_key (po_clients p ! i) = k \<and> \<not> pc_starting (po_clients p ! i) \<and> tget (po_spawning p) k = None)"

definition spawns_ok :: "pool \<Rightarrow> bool" where
  "spawns_ok p \<longleftrightarrow>
     (\<forall>k t. (tget (po_spawning p) k = Some t) = (t < length (po_threads p) \<and> spawning_at (caller_at p t) \<and> caller_key p t = k))
     \<and> (\<forall>i < length (po_clients p). pc_starting (po_clients p ! i) \<longrightarrow> (\<exists>t < length (po_threads p). caller_at p t = AtSpawn (Some i)))
     \<and> (\<forall>t < length (po_threads p). \<forall>i. caller_at p t = AtSpawn (Some i) \<longrightarrow>
          i < length (po_clients p) \<and> pc_starting (po_clients p ! i) \<and> pc_inflight (po_clients p ! i) = 0
          \<and> pc_cred (po_clients p ! i) = credsOf (pt_who (po_threads p ! t)) \<and> pc_key (po_clients p ! i) = caller_key p t)
     \<and> (\<forall>t < length (po_threads p). \<forall>t' < length (po_threads p). \<forall>i.
          caller_at p t = AtSpawn (Some i) \<and> caller_at p t' = AtSpawn (Some i) \<longrightarrow> t = t')"

definition tracked :: "pool \<Rightarrow> bool" where
  "tracked p \<longleftrightarrow>
     (\<forall>i < length (po_clients p). served (po_clients p ! i) \<longrightarrow> in_workers p i \<or> i \<in> set (po_retiring p) \<or> i \<in> set (po_collected p))
     \<and> (po_collected p \<noteq> [] \<longrightarrow> po_closed p) \<and> (\<forall>i \<in> set (po_collected p). pc_faulty (po_clients p ! i))"

definition within_max :: "pool_options \<Rightarrow> pool \<Rightarrow> bool" where
  "within_max opt p \<longleftrightarrow> int (length (filter served (po_clients p)) + tlen (po_spawning p)) \<le> op_Max opt"

definition holds_ok :: "pool \<Rightarrow> bool" where
  "holds_ok p \<longleftrightarrow>
     (\<forall>i < length (po_clients p). pc_inflight (po_clients p ! i) = length (filter (\<lambda>th. holds_at i (pt_pc th)) (po_threads p)))
     \<and> (\<forall>t < length (po_threads p). \<forall>i. holds_at i (caller_at p t) \<longrightarrow> i < length (po_clients p))"

definition stops_ok :: "pool \<Rightarrow> bool" where
  "stops_ok p \<longleftrightarrow>
     (\<forall>i < length (po_clients p). (pc_stop (po_clients p ! i) \<or> pc_terminating (po_clients p ! i)) \<and> \<not> pc_faulty (po_clients p ! i) \<longrightarrow>
        pc_inflight (po_clients p ! i) = 0 \<and> \<not> in_workers p i \<and> \<not> pc_starting (po_clients p ! i))
     \<and> (\<forall>i < length (po_clients p). pc_retiring (po_clients p ! i) \<longrightarrow> \<not> in_workers p i \<and> \<not> pc_starting (po_clients p ! i))
     \<and> (\<forall>t < length (po_threads p). \<forall>i. caller_at p t = AtMark i \<longrightarrow>
          i < length (po_clients p) \<and> \<not> in_workers p i \<and> \<not> pc_starting (po_clients p ! i))"

definition identity_ok :: "pool_options \<Rightarrow> pool \<Rightarrow> bool" where
  "identity_ok opt p \<longleftrightarrow>
     (\<forall>k i. tget (po_workers p) k = Some i \<longrightarrow> kernel_ok opt (po_clients p ! i))
     \<and> (\<forall>t < length (po_threads p). \<forall>i. holds_at i (caller_at p t) \<and> \<not> pt_cancel (po_threads p ! t) \<longrightarrow>
          pc_cred (po_clients p ! i) = credsOf (pt_who (po_threads p ! t)) \<and> kernel_ok opt (po_clients p ! i))"

definition closing_ok :: "pool \<Rightarrow> bool" where
  "closing_ok p \<longleftrightarrow>
     (po_drained p \<longrightarrow> po_closed p \<and> po_spawning p = []
        \<and> (\<forall>i < length (po_clients p). pc_exited (po_clients p ! i) \<or> i \<in> set (po_collected p)))
     \<and> (po_done p \<longrightarrow> po_drained p \<and> (\<forall>i \<in> set (po_collected p). pc_exited (po_clients p ! i)))"

definition pool_inv :: "pool_options \<Rightarrow> pool \<Rightarrow> bool" where
  "pool_inv opt p \<longleftrightarrow> maps_ok p \<and> spawns_ok p \<and> tracked p \<and> within_max opt p \<and> holds_ok p \<and> stops_ok p \<and> identity_ok opt p \<and> closing_ok p"

end
