(* ===== verification/Pool_Facts.thy ===== *)
theory Pool_Facts
  imports Pool
begin

section \<open>Every region of the pool keeps its invariant\<close>

text \<open>
  First what the small state changes are made of (a change of one client, a move of one caller, a worker leaving the
  map, a change of the budgets), each with the condition under which it keeps \<open>pool_inv\<close>; then the regions as
  their compositions.
\<close>

lemma set_client_frame [simp]:
  "length (po_clients (set_client i f p)) = length (po_clients p)" "po_workers (set_client i f p) = po_workers p"
  "po_spawning (set_client i f p) = po_spawning p" "po_retiring (set_client i f p) = po_retiring p"
  "po_closed (set_client i f p) = po_closed p" "po_collected (set_client i f p) = po_collected p"
  "po_drained (set_client i f p) = po_drained p" "po_done (set_client i f p) = po_done p"
  "po_threads (set_client i f p) = po_threads p" "caller_at (set_client i f p) t = caller_at p t"
  "caller_key (set_client i f p) t = caller_key p t" "in_workers (set_client i f p) j = in_workers p j"
  by (simp_all add: set_client_def caller_at_def caller_key_def in_workers_def)

lemma nth_set_client [simp]:
  "i < length (po_clients p) \<Longrightarrow> po_clients (set_client i f p) ! j = (if j = i then f (po_clients p ! i) else po_clients p ! j)"
  by (simp add: set_client_def)

lemma move_caller_frame [simp]:
  "po_clients (move_caller t pc p) = po_clients p" "po_workers (move_caller t pc p) = po_workers p"
  "po_spawning (move_caller t pc p) = po_spawning p" "po_retiring (move_caller t pc p) = po_retiring p"
  "po_closed (move_caller t pc p) = po_closed p" "po_collected (move_caller t pc p) = po_collected p"
  "po_drained (move_caller t pc p) = po_drained p" "po_done (move_caller t pc p) = po_done p"
  "length (po_threads (move_caller t pc p)) = length (po_threads p)" "in_workers (move_caller t pc p) j = in_workers p j"
  by (simp_all add: move_caller_def in_workers_def)

lemma move_caller_at [simp]:
  "t < length (po_threads p) \<Longrightarrow> caller_at (move_caller t pc p) t' = (if t' = t then pc else caller_at p t')"
  "pt_who (po_threads (move_caller t pc p) ! t') = pt_who (po_threads p ! t')"
  "pt_cancel (po_threads (move_caller t pc p) ! t') = pt_cancel (po_threads p ! t')"
  "caller_key (move_caller t pc p) t' = caller_key p t'"
  by (cases "t < length (po_threads p)"; auto simp: move_caller_def caller_at_def caller_key_def nth_list_update list_update_beyond)+

lemma retire_entry_frame [simp]:
  "po_clients (retire_entry i p) = po_clients p" "po_workers (retire_entry i p) = po_workers p"
  "po_spawning (retire_entry i p) = po_spawning p" "po_threads (retire_entry i p) = po_threads p"
  "po_closed (retire_entry i p) = po_closed p" "po_collected (retire_entry i p) = po_collected p"
  "po_drained (retire_entry i p) = po_drained p" "po_done (retire_entry i p) = po_done p"
  "set (po_retiring (retire_entry i p)) = insert i (set (po_retiring p))"
  "caller_at (retire_entry i p) t = caller_at p t" "caller_key (retire_entry i p) t = caller_key p t"
  "in_workers (retire_entry i p) j = in_workers p j"
  by (auto simp: retire_entry_def caller_at_def caller_key_def in_workers_def)

lemma poolD:
  assumes "pool_inv opt p"
  shows "maps_ok p" "spawns_ok p" "tracked p" "within_max opt p" "holds_ok p" "stops_ok p" "identity_ok opt p" "closing_ok p"
  using assms unfolding pool_inv_def by blast+

lemma mapsD:
  assumes "maps_ok p"
  shows "table_ok (po_workers p)" "table_ok (po_spawning p)" "distinct (po_retiring p)"
    and "i \<in> set (po_retiring p) \<Longrightarrow> i < length (po_clients p)" "i \<in> set (po_collected p) \<Longrightarrow> i < length (po_clients p)"
    and "tget (po_workers p) k = Some i \<Longrightarrow> i < length (po_clients p) \<and> pc_key (po_clients p ! i) = k \<and> \<not> pc_starting (po_clients p ! i) \<and> tget (po_spawning p) k = None"
  using assms unfolding maps_ok_def by blast+

lemma workers_inject: "maps_ok p \<Longrightarrow> tget (po_workers p) k = Some i \<Longrightarrow> tget (po_workers p) k' = Some i \<Longrightarrow> k = k'"
  using mapsD(6) by blast

lemma spawnsD:
  assumes "spawns_ok p"
  shows "(tget (po_spawning p) k = Some t) = (t < length (po_threads p) \<and> spawning_at (caller_at p t) \<and> caller_key p t = k)"
    and "i < length (po_clients p) \<Longrightarrow> pc_starting (po_clients p ! i) \<Longrightarrow> \<exists>t < length (po_threads p). caller_at p t = AtSpawn (Some i)"
    and "t < length (po_threads p) \<Longrightarrow> caller_at p t = AtSpawn (Some i) \<Longrightarrow>
      i < length (po_clients p) \<and> pc_starting (po_clients p ! i) \<and> pc_inflight (po_clients p ! i) = 0
      \<and> pc_cred (po_clients p ! i) = credsOf (pt_who (po_threads p ! t)) \<and> pc_key (po_clients p ! i) = caller_key p t"
    and "t < length (po_threads p) \<Longrightarrow> t' < length (po_threads p) \<Longrightarrow> caller_at p t = AtSpawn (Some i) \<Longrightarrow> caller_at p t' = AtSpawn (Some i) \<Longrightarrow> t = t'"
  using assms unfolding spawns_ok_def by blast+

lemma stopsD:
  assumes "stops_ok p"
  shows "i < length (po_clients p) \<Longrightarrow> pc_stop (po_clients p ! i) \<or> pc_terminating (po_clients p ! i) \<Longrightarrow> \<not> pc_faulty (po_clients p ! i) \<Longrightarrow>
      pc_inflight (po_clients p ! i) = 0 \<and> \<not> in_workers p i \<and> \<not> pc_starting (po_clients p ! i)"
    and "i < length (po_clients p) \<Longrightarrow> pc_retiring (po_clients p ! i) \<Longrightarrow> \<not> in_workers p i \<and> \<not> pc_starting (po_clients p ! i)"
    and "t < length (po_threads p) \<Longrightarrow> caller_at p t = AtMark i \<Longrightarrow> i < length (po_clients p) \<and> \<not> in_workers p i \<and> \<not> pc_starting (po_clients p ! i)"
  using assms unfolding stops_ok_def by blast+

lemma holdsD:
  assumes "holds_ok p"
  shows "i < length (po_clients p) \<Longrightarrow> pc_inflight (po_clients p ! i) = length (filter (\<lambda>th. holds_at i (pt_pc th)) (po_threads p))"
    and "t < length (po_threads p) \<Longrightarrow> holds_at i (caller_at p t) \<Longrightarrow> i < length (po_clients p)"
  using assms unfolding holds_ok_def by blast+

text \<open>A change of one client that keeps who it is and how many calls it has.\<close>

lemma client_inv:
  assumes inv: "pool_inv opt p" and i: "i < length (po_clients p)" and c': "c' = f (po_clients p ! i)"
    and same: "pc_key c' = pc_key (po_clients p ! i)" "pc_cred c' = pc_cred (po_clients p ! i)"
      "pc_kernel_uid c' = pc_kernel_uid (po_clients p ! i)" "pc_starting c' = pc_starting (po_clients p ! i)"
      "pc_inflight c' = pc_inflight (po_clients p ! i)"
    and mono: "pc_exited (po_clients p ! i) \<longrightarrow> pc_exited c'" "pc_faulty (po_clients p ! i) \<longrightarrow> pc_faulty c'"
    and stop: "(pc_stop c' \<or> pc_terminating c') \<and> \<not> pc_faulty c' \<longrightarrow>
        pc_inflight (po_clients p ! i) = 0 \<and> \<not> in_workers p i \<and> \<not> pc_starting (po_clients p ! i)"
    and ret: "pc_retiring c' \<longrightarrow> \<not> in_workers p i \<and> \<not> pc_starting (po_clients p ! i)"
  shows "pool_inv opt (set_client i f p)"
proof -
  let ?q = "set_client i f p"
  note P = poolD [OF inv]
  have n: "po_clients ?q ! j = (if j = i then c' else po_clients p ! j)" for j using i c' by simp
  have k: "pc_key (po_clients ?q ! j) = pc_key (po_clients p ! j)" "pc_cred (po_clients ?q ! j) = pc_cred (po_clients p ! j)"
    "pc_kernel_uid (po_clients ?q ! j) = pc_kernel_uid (po_clients p ! j)" "pc_starting (po_clients ?q ! j) = pc_starting (po_clients p ! j)"
    "pc_inflight (po_clients ?q ! j) = pc_inflight (po_clients p ! j)" for j
    unfolding n using same by simp_all
  have e: "pc_exited (po_clients p ! j) \<longrightarrow> pc_exited (po_clients ?q ! j)" "pc_faulty (po_clients p ! j) \<longrightarrow> pc_faulty (po_clients ?q ! j)" for j
    unfolding n using mono by simp_all
  have s: "served (po_clients ?q ! j) \<longrightarrow> served (po_clients p ! j)" for j using e k by (auto simp: served_def)
  have 1: "maps_ok ?q" using P(1) unfolding maps_ok_def set_client_frame k .
  have 2: "spawns_ok ?q" using P(2) unfolding spawns_ok_def set_client_frame k .
  have 3: "tracked ?q" using P(3) s e(2) unfolding tracked_def set_client_frame by blast
  have 4: "within_max opt ?q"
  proof -
    have "served c' \<longrightarrow> served (po_clients p ! i)" using s [of i] n [of i] by simp
    then have "length (filter served (po_clients ?q)) \<le> length (filter served (po_clients p))"
      using filter_length_update [OF i, of served c'] c' by (cases "served c'") (auto simp: set_client_def)
    then show ?thesis using P(4) unfolding within_max_def set_client_frame by linarith
  qed
  have 5: "holds_ok ?q" using P(5) unfolding holds_ok_def set_client_frame k .
  have 6: "stops_ok ?q"
    unfolding stops_ok_def set_client_frame k
  proof (intro conjI allI impI)
    fix j assume j: "j < length (po_clients p)"
      and "(pc_stop (po_clients ?q ! j) \<or> pc_terminating (po_clients ?q ! j)) \<and> \<not> pc_faulty (po_clients ?q ! j)"
    then show "pc_inflight (po_clients p ! j) = 0" "\<not> in_workers p j" "\<not> pc_starting (po_clients p ! j)"
      using stop stopsD(1) [OF P(6) j] n [of j] by (cases "j = i"; simp)+
  next
    fix j assume j: "j < length (po_clients p)" and "pc_retiring (po_clients ?q ! j)"
    then show "\<not> in_workers p j" "\<not> pc_starting (po_clients p ! j)"
      using ret stopsD(2) [OF P(6) j] n [of j] by (cases "j = i"; simp)+
  qed (use stopsD(3) [OF P(6)] in blast)+
  have 7: "identity_ok opt ?q" using P(7) unfolding identity_ok_def set_client_frame kernel_ok_def k .
  have 8: "closing_ok ?q" using P(8) e(1) unfolding closing_ok_def set_client_frame by blast
  show ?thesis unfolding pool_inv_def using 1 2 3 4 5 6 7 8 by blast
qed

text \<open>Only the budgets differ.\<close>

lemma budgets_inv: "pool_inv opt (p\<lparr>po_budgets := b\<rparr>) = pool_inv opt p"
  by (simp add: pool_inv_def maps_ok_def spawns_ok_def tracked_def within_max_def holds_ok_def stops_ok_def identity_ok_def
      closing_ok_def in_workers_def caller_at_def caller_key_def)

lemma noted_budgets: "\<exists>b. snd (noteRestart opt key now p) = p\<lparr>po_budgets := b\<rparr>"
  by (auto simp: noteRestart_def Let_def)

lemma note_frame [simp]:
  "po_clients (snd (noteRestart opt key now p)) = po_clients p" "po_workers (snd (noteRestart opt key now p)) = po_workers p"
  "po_spawning (snd (noteRestart opt key now p)) = po_spawning p" "po_retiring (snd (noteRestart opt key now p)) = po_retiring p"
  "po_closed (snd (noteRestart opt key now p)) = po_closed p" "po_collected (snd (noteRestart opt key now p)) = po_collected p"
  "po_threads (snd (noteRestart opt key now p)) = po_threads p" "po_drained (snd (noteRestart opt key now p)) = po_drained p"
  "caller_at (snd (noteRestart opt key now p)) t = caller_at p t" "caller_key (snd (noteRestart opt key now p)) t = caller_key p t"
  "in_workers (snd (noteRestart opt key now p)) i = in_workers p i"
  by (simp_all add: noteRestart_def Let_def caller_at_def caller_key_def in_workers_def)

lemma note_inv [simp]: "pool_inv opt (snd (noteRestart opt' key now p)) = pool_inv opt p"
  using noted_budgets [of opt' key now p] budgets_inv by auto

text \<open>A caller moves between two points at which it holds nothing and starts nothing.\<close>

definition neutral_at :: "tpc \<Rightarrow> bool" where
  "neutral_at pc \<longleftrightarrow> (case pc of AtSpawn nc \<Rightarrow> False | AtPing i \<Rightarrow> False | Has i \<Rightarrow> False | _ \<Rightarrow> True)"

lemma neutral_simps [simp]:
  "neutral_at AtLoop" "neutral_at (AtMark i)" "neutral_at AtWait" "neutral_at (Gone e)" "\<not> neutral_at (AtSpawn nc)" "\<not> neutral_at (AtPing i)" "\<not> neutral_at (Has i)"
  by (simp_all add: neutral_at_def)

lemma neutral_not: "neutral_at pc \<Longrightarrow> \<not> holds_at i pc \<and> \<not> spawning_at pc \<and> pc \<noteq> AtSpawn nc"
  by (auto simp: neutral_at_def holds_at_def spawning_at_def split: tpc.splits)

lemma holds_moved:
  assumes "t < length (po_threads p)"
  shows "length (filter (\<lambda>th. holds_at i (pt_pc th)) (po_threads (move_caller t pc p))) + of_bool (holds_at i (caller_at p t))
    = length (filter (\<lambda>th. holds_at i (pt_pc th)) (po_threads p)) + of_bool (holds_at i pc)"
  using filter_length_update [OF assms, of "\<lambda>th. holds_at i (pt_pc th)" "(po_threads p ! t)\<lparr>pt_pc := pc\<rparr>"]
  by (simp add: move_caller_def caller_at_def)

lemma move_same_inv:
  assumes inv: "pool_inv opt p" and t: "t < length (po_threads p)"
    and no: "\<not> spawning_at (caller_at p t)" "\<not> spawning_at pc" and ho: "\<And>i. holds_at i pc = holds_at i (caller_at p t)"
    and mark: "\<And>i. pc = AtMark i \<Longrightarrow> i < length (po_clients p) \<and> \<not> in_workers p i \<and> \<not> pc_starting (po_clients p ! i)"
  shows "pool_inv opt (move_caller t pc p)"
proof -
  note P = poolD [OF inv]
  let ?q = "move_caller t pc p"
  note at = move_caller_at(1) [OF t, of pc]
  have no': "caller_at p t \<noteq> AtSpawn nc" "pc \<noteq> AtSpawn nc" for nc using no by (auto simp: spawning_at_def)
  have 1: "maps_ok ?q" using P(1) unfolding maps_ok_def move_caller_frame .
  have sp: "spawning_at (caller_at ?q t') = spawning_at (caller_at p t')" "(caller_at ?q t' = AtSpawn nc) = (caller_at p t' = AtSpawn nc)" for t' nc
    unfolding at using no no' by auto
  have 2: "spawns_ok ?q" using P(2) unfolding spawns_ok_def move_caller_frame move_caller_at(2-4) sp .
  have 3: "tracked ?q" using P(3) unfolding tracked_def move_caller_frame .
  have 4: "within_max opt ?q" using P(4) unfolding within_max_def move_caller_frame .
  have hq: "holds_at i (caller_at ?q t') = holds_at i (caller_at p t')" for i t' unfolding at using ho by simp
  have fq: "length (filter (\<lambda>th. holds_at i (pt_pc th)) (po_threads ?q)) = length (filter (\<lambda>th. holds_at i (pt_pc th)) (po_threads p))" for i
    using holds_moved [OF t, of i pc] ho [of i] by simp
  have 5: "holds_ok ?q" using P(5) unfolding holds_ok_def move_caller_frame fq hq .
  have 6: "stops_ok ?q"
    unfolding stops_ok_def move_caller_frame at using stopsD [OF P(6)] mark by (simp split: if_splits)
  have 7: "identity_ok opt ?q" using P(7) unfolding identity_ok_def move_caller_frame move_caller_at(2,3) hq .
  have 8: "closing_ok ?q" using P(8) unfolding closing_ok_def move_caller_frame .
  show ?thesis unfolding pool_inv_def using 1 2 3 4 5 6 7 8 by blast
qed

lemma move_inv:
  assumes "pool_inv opt p" "t < length (po_threads p)" and ne: "neutral_at (caller_at p t)" "neutral_at pc"
    and "\<And>i. pc = AtMark i \<Longrightarrow> i < length (po_clients p) \<and> \<not> in_workers p i \<and> \<not> pc_starting (po_clients p ! i)"
  shows "pool_inv opt (move_caller t pc p)"
  by (rule move_same_inv [OF assms(1,2) _ _ _ assms(5)]) (use neutral_not [OF ne(1)] neutral_not [OF ne(2)] in blast)+

lemma schedule_stop_inv:
  assumes "pool_inv opt p" "i < length (po_clients p)" "\<not> pc_faulty (po_clients p ! i) \<Longrightarrow> pc_inflight (po_clients p ! i) = 0 \<and> \<not> in_workers p i \<and> \<not> pc_starting (po_clients p ! i)"
  shows "pool_inv opt (schedule_stop i p)"
  unfolding schedule_stop_def
  by (rule client_inv [OF assms(1,2) refl]) (use assms(3) stopsD(2) [OF poolD(6) [OF assms(1)] assms(2)] in auto)

lemma mark_faulty_inv:
  assumes "pool_inv opt p" "i < length (po_clients p)" shows "pool_inv opt (mark_faulty i p)"
  unfolding mark_faulty_def
  by (rule client_inv [OF assms refl]) (use stopsD(2) [OF poolD(6) [OF assms(1)] assms(2)] in auto)

lemma flag_frame [simp]:
  "po_threads (schedule_stop i p) = po_threads p" "po_threads (mark_faulty i p) = po_threads p"
  "length (po_clients (schedule_stop i p)) = length (po_clients p)" "length (po_clients (mark_faulty i p)) = length (po_clients p)"
  "caller_at (schedule_stop i p) t = caller_at p t" "caller_at (mark_faulty i p) t = caller_at p t"
  "po_workers (schedule_stop i p) = po_workers p" "po_workers (mark_faulty i p) = po_workers p"
  by (simp_all add: schedule_stop_def mark_faulty_def)

lemma faulty_stop_inv:
  assumes "pool_inv opt p" "i < length (po_clients p)" shows "pool_inv opt (schedule_stop i (mark_faulty i p))"
  by (rule schedule_stop_inv [OF mark_faulty_inv [OF assms]]) (use assms(2) in \<open>simp_all add: mark_faulty_def\<close>)

text \<open>A process among the retiring ones.\<close>

lemma retire_entry_inv:
  assumes inv: "pool_inv opt p" and i: "i < length (po_clients p)"
  shows "pool_inv opt (retire_entry i p)"
proof -
  let ?q = "retire_entry i p"
  note P = poolD [OF inv]
  have "distinct (po_retiring ?q)" using mapsD(3) [OF P(1)] by (simp add: retire_entry_def)
  then have 1: "maps_ok ?q" using P(1) i unfolding maps_ok_def retire_entry_frame by blast
  have 2: "spawns_ok ?q" using P(2) unfolding spawns_ok_def retire_entry_frame .
  have 3: "tracked ?q" using P(3) unfolding tracked_def retire_entry_frame by blast
  have 4: "within_max opt ?q" using P(4) unfolding within_max_def retire_entry_frame .
  have 5: "holds_ok ?q" using P(5) unfolding holds_ok_def retire_entry_frame .
  have 6: "stops_ok ?q" using P(6) unfolding stops_ok_def retire_entry_frame .
  have 7: "identity_ok opt ?q" using P(7) unfolding identity_ok_def retire_entry_frame .
  have 8: "closing_ok ?q" using P(8) unfolding closing_ok_def retire_entry_frame .
  show ?thesis unfolding pool_inv_def using 1 2 3 4 5 6 7 8 by blast
qed

text \<open>A worker leaves the map.\<close>

lemma unregister_frame [simp]:
  "po_clients (unregister k i p) = po_clients p" "po_threads (unregister k i p) = po_threads p"
  "po_workers (unregister k i p) = tdel k (po_workers p)" "caller_at (unregister k i p) t = caller_at p t"
  "caller_key (unregister k i p) t = caller_key p t" "po_spawning (unregister k i p) = po_spawning p"
  "po_closed (unregister k i p) = po_closed p" "po_collected (unregister k i p) = po_collected p"
  "po_drained (unregister k i p) = po_drained p" "po_done (unregister k i p) = po_done p"
  "set (po_retiring (unregister k i p)) = insert i (set (po_retiring p))"
  by (auto simp: unregister_def caller_at_def caller_key_def retire_entry_def)

lemma unregister_inv:
  assumes inv: "pool_inv opt p" and k: "tget (po_workers p) k = Some i"
  shows "pool_inv opt (unregister k i p)" "\<not> in_workers (unregister k i p) i"
proof -
  let ?q = "unregister k i p"
  note P = poolD [OF inv]
  note M = mapsD [OF P(1)]
  have i: "i < length (po_clients p)" "\<not> pc_starting (po_clients p ! i)" using M(6) k by blast+
  have w: "tget (po_workers ?q) k' = Some j \<longleftrightarrow> k' \<noteq> k \<and> tget (po_workers p) k' = Some j" for k' j by simp
  have iw: "in_workers ?q j \<longleftrightarrow> j \<noteq> i \<and> in_workers p j" for j
  proof (cases "j = i")
    case True
    have "k' = k" if "tget (po_workers p) k' = Some i" for k' using workers_inject [OF P(1) that k] .
    then show ?thesis unfolding in_workers_def w using True by blast
  next
    case False
    then have "k' \<noteq> k" if "tget (po_workers p) k' = Some j" for k' using that k by auto
    then show ?thesis unfolding in_workers_def w using False by blast
  qed
  then show "\<not> in_workers ?q i" by simp
  have "distinct (po_retiring ?q)" using M(3) by (simp add: unregister_def retire_entry_def)
  moreover have "table_ok (po_workers ?q)" using M(1) by simp
  ultimately have 1: "maps_ok ?q"
    using M(2,4-6) i(1) unfolding maps_ok_def w unfolding unregister_frame by blast
  have 2: "spawns_ok ?q" using P(2) unfolding spawns_ok_def unregister_frame .
  have 3: "tracked ?q" using P(3) unfolding tracked_def unregister_frame(1,7-11) iw by blast
  have 4: "within_max opt ?q" using P(4) unfolding within_max_def unregister_frame .
  have 5: "holds_ok ?q" using P(5) unfolding holds_ok_def unregister_frame .
  have 6: "stops_ok ?q" using P(6) unfolding stops_ok_def unregister_frame(1,2,4) iw by blast
  have 7: "identity_ok opt ?q" using P(7) unfolding identity_ok_def w unfolding unregister_frame(1,2,4) by blast
  have 8: "closing_ok ?q" using P(8) unfolding closing_ok_def unregister_frame .
  show "pool_inv opt ?q" unfolding pool_inv_def using 1 2 3 4 5 6 7 8 by blast
qed

text \<open>A registered worker whose stop is scheduled must be idle or faulty.\<close>

lemma stop_unregistered_inv:
  assumes "pool_inv opt p" "tget (po_workers p) k = Some i" "pc_inflight (po_clients p ! i) = 0"
  shows "pool_inv opt (schedule_stop i (unregister k i p))"
proof -
  have i: "i < length (po_clients p)" "\<not> pc_starting (po_clients p ! i)" using mapsD(6) [OF poolD(1) [OF assms(1)] assms(2)] by blast+
  show ?thesis
    by (rule schedule_stop_inv [OF unregister_inv(1) [OF assms(1,2)]]) (use i assms(3) unregister_inv(2) [OF assms(1,2)] in simp_all)
qed

lemma detach_inv:
  assumes inv: "pool_inv opt p" and i: "i < length (po_clients p)"
  shows "pool_inv opt (detach_client opt' now i p)"
proof (cases "tget (po_workers p) (pc_key (po_clients p ! i)) = Some i")
  case True
  let ?k = "pc_key (po_clients p ! i)"
  obtain b where b: "snd (noteRestart opt' ?k now (p\<lparr>po_workers := tdel ?k (po_workers p)\<rparr>)) = (p\<lparr>po_workers := tdel ?k (po_workers p)\<rparr>)\<lparr>po_budgets := b\<rparr>"
    using noted_budgets by blast
  have "retire_entry i (snd (noteRestart opt' ?k now (p\<lparr>po_workers := tdel ?k (po_workers p)\<rparr>))) = (unregister ?k i p)\<lparr>po_budgets := b\<rparr>"
    unfolding b by (simp add: unregister_def retire_entry_def)
  then have "detach_client opt' now i p = schedule_stop i (mark_faulty i ((unregister ?k i p)\<lparr>po_budgets := b\<rparr>))"
    using True by (simp add: detach_client_def Let_def)
  then show ?thesis using faulty_stop_inv [of opt "(unregister ?k i p)\<lparr>po_budgets := b\<rparr>" i] unregister_inv(1) [OF inv True] i
    by (simp add: budgets_inv)
next
  case False
  then show ?thesis using faulty_stop_inv [OF retire_entry_inv [OF inv i]] i by (simp add: detach_client_def Let_def)
qed

lemma reap_inv:
  "pool_inv opt p \<Longrightarrow> (\<And>k i. (k, i) \<in> set ws \<Longrightarrow> tget (po_workers p) k = Some i) \<Longrightarrow> distinct (map fst ws) \<Longrightarrow>
   pool_inv opt (reap_idle opt' now ws p)"
proof (induction opt' now ws p rule: reap_idle.induct)
  case (2 opt' now k i ws p)
  let ?q = "if idleSince now (op_IdleTimeout opt') (po_clients p ! i) then schedule_stop i (unregister k i p) else p"
  have k: "tget (po_workers p) k = Some i" using 2(3) by simp
  have "pool_inv opt ?q"
    using stop_unregistered_inv [OF 2(2) k] 2(2) by (auto simp: idleSince_def split: if_splits)
  moreover have "tget (po_workers ?q) k' = Some i'" if "(k', i') \<in> set ws" for k' i'
  proof -
    have "k' \<noteq> k" using that 2(4) by force
    then show ?thesis using 2(3) [of k' i'] that by simp
  qed
  ultimately show ?case using 2(1) [of] 2(4) by simp
qed simp

text \<open>A caller takes hold of a worker.\<close>

lemma hold_inv:
  assumes inv: "pool_inv opt p" and t: "t < length (po_threads p)" and ne: "neutral_at (caller_at p t)"
    and i: "tget (po_workers p) k = Some i" and pc: "pc = Has i \<or> pc = AtPing i"
    and who: "\<not> pt_cancel (po_threads p ! t) \<Longrightarrow> pc_cred (po_clients p ! i) = credsOf (pt_who (po_threads p ! t))"
  shows "pool_inv opt (move_caller t pc (set_client i (hold_client now) p))"
proof -
  note P = poolD [OF inv]
  let ?p = "set_client i (hold_client now) p" let ?q = "move_caller t pc ?p"
  have t': "t < length (po_threads ?p)" using t by simp
  note at = move_caller_at(1) [OF t', of pc, unfolded set_client_frame]
  have il: "i < length (po_clients p)" "\<not> pc_starting (po_clients p ! i)" using mapsD(6) [OF P(1) i] by blast+
  have iw: "in_workers p i" unfolding in_workers_def using i by blast
  have n: "po_clients ?p ! j = (if j = i then hold_client now (po_clients p ! i) else po_clients p ! j)" for j using il by simp
  have k: "pc_key (po_clients ?p ! j) = pc_key (po_clients p ! j)" "pc_cred (po_clients ?p ! j) = pc_cred (po_clients p ! j)"
    "pc_kernel_uid (po_clients ?p ! j) = pc_kernel_uid (po_clients p ! j)" "pc_starting (po_clients ?p ! j) = pc_starting (po_clients p ! j)"
    "pc_exited (po_clients ?p ! j) = pc_exited (po_clients p ! j)" "pc_faulty (po_clients ?p ! j) = pc_faulty (po_clients p ! j)"
    "pc_stop (po_clients ?p ! j) = pc_stop (po_clients p ! j)" "pc_terminating (po_clients ?p ! j) = pc_terminating (po_clients p ! j)"
    "pc_retiring (po_clients ?p ! j) = pc_retiring (po_clients p ! j)"
    "pc_inflight (po_clients ?p ! j) = pc_inflight (po_clients p ! j) + of_bool (j = i)" for j
    unfolding n by (simp_all add: hold_client_def)
  have s: "served (po_clients ?p ! j) = served (po_clients p ! j)" for j by (simp only: served_def k)
  have sp: "\<not> spawning_at (caller_at p t)" "\<not> holds_at j (caller_at p t)" "caller_at p t \<noteq> AtSpawn nc" for j nc
    using neutral_not [OF ne] by blast+
  have pcs: "\<not> spawning_at pc" "holds_at j pc = (j = i)" "pc \<noteq> AtSpawn nc" "pc \<noteq> AtMark j" for j nc
    using pc by (auto simp: holds_at_def spawning_at_def)
  have sq: "spawning_at (caller_at ?q t') = spawning_at (caller_at p t')" "(caller_at ?q t' = AtSpawn nc) = (caller_at p t' = AtSpawn nc)" for t' nc
    unfolding at using sp pcs by auto
  have 1: "maps_ok ?q" using P(1) unfolding maps_ok_def move_caller_frame set_client_frame k .
  have nz: "caller_at p t' = AtSpawn (Some j) \<Longrightarrow> t' < length (po_threads p) \<Longrightarrow> j \<noteq> i" for t' j
    using spawnsD(3) [OF P(2)] il by blast
  have 2: "spawns_ok ?q"
    using P(2) nz unfolding spawns_ok_def move_caller_frame set_client_frame move_caller_at(2-4) sq k by (simp add: of_bool_def)
  have 3: "tracked ?q" using P(3) unfolding tracked_def move_caller_frame set_client_frame s k .
  have "length (filter served (po_clients ?p)) = length (filter served (po_clients p))"
    using filter_length_update [OF il(1), of served "hold_client now (po_clients p ! i)"] s [of i] n [of i] by (simp add: set_client_def)
  then have 4: "within_max opt ?q" using P(4) unfolding within_max_def move_caller_frame set_client_frame by simp
  have "length (filter (\<lambda>th. holds_at j (pt_pc th)) (po_threads ?q)) = length (filter (\<lambda>th. holds_at j (pt_pc th)) (po_threads p)) + of_bool (j = i)" for j
    using holds_moved [OF t', of j pc] sp(2) [of j] pcs(2) [of j] by simp
  then have 5: "holds_ok ?q"
    using P(5) pcs(2) il(1) unfolding holds_ok_def move_caller_frame set_client_frame at k by simp
  have 6: "stops_ok ?q"
    unfolding stops_ok_def move_caller_frame set_client_frame at k using stopsD [OF P(6)] iw pcs(4) by (simp split: if_splits) blast
  have 7: "identity_ok opt ?q"
    unfolding identity_ok_def move_caller_frame set_client_frame at move_caller_at(2,3) kernel_ok_def k
    using P(7) i who pcs(2) unfolding identity_ok_def kernel_ok_def by (simp split: if_splits)
  have 8: "closing_ok ?q" using P(8) unfolding closing_ok_def move_caller_frame set_client_frame k .
  show ?thesis unfolding pool_inv_def using 1 2 3 4 5 6 7 8 by blast
qed

text \<open>A caller lets go of its worker.\<close>

lemma release_move_inv:
  assumes inv: "pool_inv opt p" and t: "t < length (po_threads p)" and h: "holds_at i (caller_at p t)"
    and ne: "neutral_at pc" "\<And>j. pc \<noteq> AtMark j"
  shows "pool_inv opt (move_caller t pc (set_client i (\<lambda>_. snd (done_client now (po_clients p ! i))) p))"
proof -
  note P = poolD [OF inv]
  let ?p = "set_client i (\<lambda>_. snd (done_client now (po_clients p ! i))) p" let ?q = "move_caller t pc ?p"
  have t': "t < length (po_threads ?p)" using t by simp
  note at = move_caller_at(1) [OF t', of pc, unfolded set_client_frame]
  have il: "i < length (po_clients p)" using holdsD(2) [OF P(5) t h] .
  have n: "po_clients ?p ! j = (if j = i then snd (done_client now (po_clients p ! i)) else po_clients p ! j)" for j using il by simp
  have k: "pc_key (po_clients ?p ! j) = pc_key (po_clients p ! j)" "pc_cred (po_clients ?p ! j) = pc_cred (po_clients p ! j)"
    "pc_kernel_uid (po_clients ?p ! j) = pc_kernel_uid (po_clients p ! j)" "pc_starting (po_clients ?p ! j) = pc_starting (po_clients p ! j)"
    "pc_exited (po_clients ?p ! j) = pc_exited (po_clients p ! j)" "pc_faulty (po_clients ?p ! j) = pc_faulty (po_clients p ! j)"
    "pc_stop (po_clients ?p ! j) = pc_stop (po_clients p ! j)" "pc_terminating (po_clients ?p ! j) = pc_terminating (po_clients p ! j)"
    "pc_retiring (po_clients ?p ! j) = pc_retiring (po_clients p ! j)"
    "pc_inflight (po_clients ?p ! j) = pc_inflight (po_clients p ! j) - of_bool (j = i)" for j
    unfolding n by (simp_all add: done_client_def)
  have s: "served (po_clients ?p ! j) = served (po_clients p ! j)" for j by (simp only: served_def k)
  have pcs: "\<not> spawning_at pc" "\<not> holds_at j pc" "pc \<noteq> AtSpawn nc" "pc \<noteq> AtMark j" for j nc
    using neutral_not [OF ne(1)] ne(2) by blast+
  have sp: "\<not> spawning_at (caller_at p t)" "caller_at p t \<noteq> AtSpawn nc" "holds_at j (caller_at p t) = (j = i)" for nc j
    using h by (auto simp: holds_at_def spawning_at_def)
  have sq: "spawning_at (caller_at ?q t') = spawning_at (caller_at p t')" "(caller_at ?q t' = AtSpawn nc) = (caller_at p t' = AtSpawn nc)" for t' nc
    unfolding at using sp pcs by auto
  have 1: "maps_ok ?q" using P(1) unfolding maps_ok_def move_caller_frame set_client_frame k .
  have 2: "spawns_ok ?q"
    using P(2) unfolding spawns_ok_def move_caller_frame set_client_frame move_caller_at(2-4) sq k by simp
  have 3: "tracked ?q" using P(3) unfolding tracked_def move_caller_frame set_client_frame s k .
  have "length (filter served (po_clients ?p)) = length (filter served (po_clients p))"
    using filter_length_update [OF il, of served "snd (done_client now (po_clients p ! i))"] s [of i] n [of i] by (simp add: set_client_def)
  then have 4: "within_max opt ?q" using P(4) unfolding within_max_def move_caller_frame set_client_frame by simp
  have "length (filter (\<lambda>th. holds_at j (pt_pc th)) (po_threads ?q)) = length (filter (\<lambda>th. holds_at j (pt_pc th)) (po_threads p)) - of_bool (j = i)" for j
    using holds_moved [OF t', of j pc] sp(3) [of j] pcs(2) [of j] by simp
  then have 5: "holds_ok ?q"
    using P(5) pcs(2) unfolding holds_ok_def move_caller_frame set_client_frame at k by simp
  have 6: "stops_ok ?q"
    unfolding stops_ok_def move_caller_frame set_client_frame at k using stopsD [OF P(6)] pcs(4) by (simp split: if_splits)
  have hq: "holds_at j (caller_at ?q t') = (t' \<noteq> t \<and> holds_at j (caller_at p t'))" for j t' unfolding at using pcs(2) by simp
  have 7: "identity_ok opt ?q"
    unfolding identity_ok_def move_caller_frame set_client_frame hq move_caller_at(2,3) kernel_ok_def k
    using P(7) unfolding identity_ok_def kernel_ok_def by blast
  have 8: "closing_ok ?q" using P(8) unfolding closing_ok_def move_caller_frame set_client_frame k .
  show ?thesis unfolding pool_inv_def using 1 2 3 4 5 6 7 8 by blast
qed

lemma move_schedule: "move_caller t pc (schedule_stop i p) = schedule_stop i (move_caller t pc p)"
  by (simp add: move_caller_def schedule_stop_def set_client_def)

lemma release_inv:
  assumes inv: "pool_inv opt p" and t: "t < length (po_threads p)" and h: "holds_at i (caller_at p t)"
    and ne: "neutral_at pc" "\<And>j. pc \<noteq> AtMark j"
  shows "pool_inv opt (move_caller t pc (release_hold now i p))"
proof -
  let ?p = "set_client i (\<lambda>_. snd (done_client now (po_clients p ! i))) p"
  have q: "pool_inv opt (move_caller t pc ?p)" by (rule release_move_inv [OF assms])
  have il: "i < length (po_clients p)" using holdsD(2) [OF poolD(5) [OF inv] t h] .
  show ?thesis
  proof (cases "fst (done_client now (po_clients p ! i))")
    case False
    then show ?thesis using q by (simp add: release_hold_def case_prod_beta Let_def)
  next
    case True
    then have r: "pc_retiring (po_clients p ! i)" "pc_inflight (snd (done_client now (po_clients p ! i))) = 0"
      by (simp_all add: done_client_def)
    have "pool_inv opt (schedule_stop i (move_caller t pc ?p))"
      by (rule schedule_stop_inv [OF q])
        (use il r stopsD(2) [OF poolD(6) [OF inv] il r(1)] in \<open>simp_all add: done_client_def\<close>)
    then show ?thesis using True by (simp add: release_hold_def case_prod_beta Let_def move_schedule)
  qed
qed

lemma bump_frame [simp]:
  "po_clients (bump_attempt t p) = po_clients p" "po_workers (bump_attempt t p) = po_workers p"
  "po_spawning (bump_attempt t p) = po_spawning p" "po_retiring (bump_attempt t p) = po_retiring p"
  "po_closed (bump_attempt t p) = po_closed p" "po_collected (bump_attempt t p) = po_collected p"
  "po_drained (bump_attempt t p) = po_drained p" "po_done (bump_attempt t p) = po_done p"
  "length (po_threads (bump_attempt t p)) = length (po_threads p)" "in_workers (bump_attempt t p) j = in_workers p j"
  "caller_at (bump_attempt t p) t' = caller_at p t'" "caller_key (bump_attempt t p) t' = caller_key p t'"
  "pt_who (po_threads (bump_attempt t p) ! t') = pt_who (po_threads p ! t')"
  "pt_cancel (po_threads (bump_attempt t p) ! t') = pt_cancel (po_threads p ! t')"
  by (cases "t < length (po_threads p)";
      auto simp: bump_attempt_def in_workers_def caller_at_def caller_key_def nth_list_update list_update_beyond)+

lemma bump_holds:
  "length (filter (\<lambda>th. holds_at i (pt_pc th)) (po_threads (bump_attempt t p))) = length (filter (\<lambda>th. holds_at i (pt_pc th)) (po_threads p))"
proof (cases "t < length (po_threads p)")
  case True
  show ?thesis using filter_length_update [OF True, of "\<lambda>th. holds_at i (pt_pc th)" "(po_threads p ! t)\<lparr>pt_attempt := Suc (pt_attempt (po_threads p ! t))\<rparr>"]
    by (simp add: bump_attempt_def)
qed (simp add: bump_attempt_def list_update_beyond)

lemma bump_inv [simp]: "pool_inv opt (bump_attempt t p) = pool_inv opt p"
  by (simp only: pool_inv_def maps_ok_def spawns_ok_def tracked_def within_max_def holds_ok_def stops_ok_def identity_ok_def
      closing_ok_def bump_frame bump_holds)

lemma bump_release: "bump_attempt t (release_hold now i p) = release_hold now i (bump_attempt t p)"
  by (simp add: release_hold_def case_prod_beta Let_def bump_attempt_def set_client_def schedule_stop_def)

lemma retry_inv:
  assumes inv: "pool_inv opt p" and t: "t < length (po_threads p)" and h: "caller_at p t = AtPing i"
  shows "pool_inv opt (detach_client opt' now i (retry_caller t (release_hold now i p)))"
proof -
  have il: "i < length (po_clients p)" using holdsD(2) [OF poolD(5) [OF inv] t] h by (simp add: holds_at_def)
  have "pool_inv opt (retry_caller t (release_hold now i p))"
    unfolding retry_caller_def bump_release
    by (rule release_inv) (use inv t h in \<open>auto simp: holds_at_def\<close>)
  then show ?thesis
    by (rule detach_inv) (use il in \<open>simp add: retry_caller_def release_hold_def case_prod_beta Let_def schedule_stop_def\<close>)
qed

text \<open>A slot is reserved: while the pool is open, every process counted is a worker or retiring.\<close>

lemma spawning_drained: "pool_inv opt p \<Longrightarrow> t < length (po_threads p) \<Longrightarrow> spawning_at (caller_at p t) \<Longrightarrow> \<not> po_drained p"
  using poolD(8) spawnsD(1) [OF poolD(2), of opt p "caller_key p t" t] by (fastforce simp: closing_ok_def)

lemma served_slots:
  assumes inv: "pool_inv opt p" and op: "\<not> po_closed p"
  shows "length (filter served (po_clients p)) \<le> tlen (po_workers p) + length (po_retiring p)"
proof -
  have sub: "{i. i < length (po_clients p) \<and> served (po_clients p ! i)} \<subseteq> set (map snd (po_workers p)) \<union> set (po_retiring p)"
  proof
    fix i assume "i \<in> {i. i < length (po_clients p) \<and> served (po_clients p ! i)}"
    then have "in_workers p i \<or> i \<in> set (po_retiring p)" using poolD(3) [OF inv] op unfolding tracked_def by force
    then show "i \<in> set (map snd (po_workers p)) \<union> set (po_retiring p)"
      by (force simp: in_workers_def tget_def dest: map_of_SomeD)
  qed
  have "length (filter served (po_clients p)) = card {i. i < length (po_clients p) \<and> served (po_clients p ! i)}"
    by (rule length_filter_conv_card)
  also have "\<dots> \<le> card (set (map snd (po_workers p)) \<union> set (po_retiring p))" by (rule card_mono [OF _ sub]) simp
  also have "\<dots> \<le> card (set (map snd (po_workers p))) + card (set (po_retiring p))" by (rule card_Un_le)
  also have "\<dots> \<le> tlen (po_workers p) + length (po_retiring p)"
    using card_length [of "map snd (po_workers p)"] card_length [of "po_retiring p"] by (simp add: tlen_def)
  finally show ?thesis .
qed

lemma reserve_inv:
  assumes inv: "pool_inv opt p" and t: "t < length (po_threads p)" and at: "caller_at p t = AtLoop"
    and op: "\<not> po_closed p" and nw: "tget (po_workers p) (caller_key p t) = None" "tget (po_spawning p) (caller_key p t) = None"
    and room: "\<not> pool_full opt p"
  shows "pool_inv opt (move_caller t (AtSpawn None) (p\<lparr>po_spawning := tput (caller_key p t) t (po_spawning p)\<rparr>))"
proof -
  note P = poolD [OF inv]
  let ?p = "p\<lparr>po_spawning := tput (caller_key p t) t (po_spawning p)\<rparr>" let ?q = "move_caller t (AtSpawn None) ?p"
  have f: "po_clients ?p = po_clients p" "po_workers ?p = po_workers p" "po_threads ?p = po_threads p" "po_retiring ?p = po_retiring p"
    "po_collected ?p = po_collected p" "po_closed ?p = po_closed p" "po_drained ?p = po_drained p" "po_done ?p = po_done p"
    "caller_at ?p t' = caller_at p t'" "caller_key ?p t' = caller_key p t'" "in_workers ?p j = in_workers p j"
    "tget (po_spawning ?p) k = (if k = caller_key p t then Some t else tget (po_spawning p) k)" for t' j k
    by (simp_all add: caller_at_def caller_key_def in_workers_def)
  have t': "t < length (po_threads ?p)" using t by simp
  note at' = move_caller_at(1) [OF t', of "AtSpawn None", unfolded f]
  have h: "holds_at j (AtSpawn None) = holds_at j (caller_at p t)" for j using at by (simp add: holds_at_def)
  have hq: "holds_at j (caller_at ?q t') = holds_at j (caller_at p t')" for j t' unfolding at' using h by simp
  have sn: "(caller_at ?q t' = AtSpawn (Some i)) = (caller_at p t' = AtSpawn (Some i))" for t' i unfolding at' using at by simp
  have sq: "spawning_at (caller_at ?q t') = (t' = t \<or> spawning_at (caller_at p t'))" for t' unfolding at' by (simp add: spawning_at_def)
  have "table_ok (po_spawning ?p)" using mapsD(2) [OF P(1)] by simp
  then have 1: "maps_ok ?q" using P(1) nw(1) unfolding maps_ok_def move_caller_frame f by auto
  have nt: "\<not> spawning_at (caller_at p t)" using at by (simp add: spawning_at_def)
  have s1: "((if k = caller_key p t then Some t else tget (po_spawning p) k) = Some t')
      = (t' < length (po_threads p) \<and> (t' = t \<or> spawning_at (caller_at p t')) \<and> caller_key p t' = k)" for k t'
  proof (cases "k = caller_key p t")
    case True
    then show ?thesis using spawnsD(1) [OF P(2), of k t'] nw(2) t by auto
  next
    case False
    then show ?thesis using spawnsD(1) [OF P(2), of k t'] nt by auto
  qed
  have 2: "spawns_ok ?q"
    unfolding spawns_ok_def move_caller_frame f sn sq move_caller_at(2-4)
    by (intro conjI allI impI) (rule s1 | (use spawnsD(2-4) [OF P(2)] in blast))+
  have 3: "tracked ?q" using P(3) unfolding tracked_def move_caller_frame f .
  have "tlen (po_spawning ?p) = Suc (tlen (po_spawning p))" using nw(2) by (simp add: tlen_tput_absent)
  then have 4: "within_max opt ?q"
    using served_slots [OF inv op] room unfolding within_max_def pool_full_def move_caller_frame f by linarith
  have 5: "holds_ok ?q" using P(5) holds_moved [OF t', of _ "AtSpawn None", unfolded f] h
    unfolding holds_ok_def move_caller_frame f hq by simp
  have 6: "stops_ok ?q"
    unfolding stops_ok_def move_caller_frame f at' using stopsD [OF P(6)] by (simp split: if_splits)
  have 7: "identity_ok opt ?q" using P(7) unfolding identity_ok_def move_caller_frame f move_caller_at(2,3) hq .
  have "\<not> po_drained p" using P(8) op unfolding closing_ok_def by blast
  then have 8: "closing_ok ?q" using P(8) unfolding closing_ok_def move_caller_frame f by blast
  show ?thesis unfolding pool_inv_def using 1 2 3 4 5 6 7 8 by blast
qed

text \<open>The process of a startup comes to exist.\<close>

lemma process_started_inv:
  assumes inv: "pool_inv opt p" and t: "t < length (po_threads p)" and at: "caller_at p t = AtSpawn None"
  shows "pool_inv opt (start_process t kuid p)"
proof -
  note P = poolD [OF inv]
  let ?n = "length (po_clients p)" let ?c = "started_client (pt_who (po_threads p ! t)) kuid"
  let ?p = "p\<lparr>po_clients := po_clients p @ [?c]\<rparr>" let ?q = "move_caller t (AtSpawn (Some ?n)) ?p"
  have f: "length (po_clients ?p) = Suc ?n" "po_workers ?p = po_workers p" "po_threads ?p = po_threads p" "po_retiring ?p = po_retiring p"
    "po_spawning ?p = po_spawning p"
    "po_collected ?p = po_collected p" "po_closed ?p = po_closed p" "po_drained ?p = po_drained p" "po_done ?p = po_done p"
    "caller_at ?p t' = caller_at p t'" "caller_key ?p t' = caller_key p t'" "in_workers ?p j = in_workers p j" for t' j
    by (simp_all add: caller_at_def caller_key_def in_workers_def)
  have old: "j < ?n \<Longrightarrow> po_clients ?p ! j = po_clients p ! j" for j by (simp add: nth_append)
  have new: "po_clients ?p ! ?n = ?c" by simp
  have c: "pc_starting ?c" "pc_inflight ?c = 0" "\<not> served ?c" "\<not> pc_stop ?c" "\<not> pc_terminating ?c" "\<not> pc_retiring ?c"
    "pc_cred ?c = credsOf (pt_who (po_threads p ! t))" "pc_key ?c = caller_key p t"
    by (simp_all add: started_client_def served_def caller_key_def)
  have t': "t < length (po_threads ?p)" using t by simp
  note at' = move_caller_at(1) [OF t', of "AtSpawn (Some ?n)", unfolded f]
  have h: "holds_at j (AtSpawn nc) = False" for j nc by (simp add: holds_at_def)
  have hq: "holds_at j (caller_at ?q t') = holds_at j (caller_at p t')" for j t' unfolding at' using at h by simp
  have sq: "spawning_at (caller_at ?q t') = spawning_at (caller_at p t')" for t' unfolding at' using at by (simp add: spawning_at_def)
  note M = mapsD [OF P(1)]
  have 1: "maps_ok ?q"
    unfolding maps_ok_def move_caller_frame f
    by (intro conjI ballI allI impI) (use M old in \<open>fastforce+\<close>)
  have sold: "caller_at p t' = AtSpawn (Some i) \<Longrightarrow> t' < length (po_threads p) \<Longrightarrow> i < ?n" for t' i using spawnsD(3) [OF P(2)] by blast
  have sn: "caller_at ?q t' = AtSpawn (Some i) \<longleftrightarrow> (t' = t \<and> i = ?n) \<or> (t' \<noteq> t \<and> caller_at p t' = AtSpawn (Some i))" for t' i
    unfolding at' by auto
  have 2: "spawns_ok ?q"
    unfolding spawns_ok_def move_caller_frame f sq move_caller_at(2-4)
  proof (intro conjI allI impI)
    fix k t' show "(tget (po_spawning p) k = Some t') = (t' < length (po_threads p) \<and> spawning_at (caller_at p t') \<and> caller_key p t' = k)"
      by (rule spawnsD(1) [OF P(2)])
  next
    fix i assume i: "i < Suc ?n" and s: "pc_starting (po_clients ?p ! i)"
    show "\<exists>t'<length (po_threads p). caller_at ?q t' = AtSpawn (Some i)"
    proof (cases "i = ?n")
      case True
      then show ?thesis using t sn by blast
    next
      case False
      then have "i < ?n" "pc_starting (po_clients p ! i)" using i s old [of i] by simp_all
      then obtain t' where "t' < length (po_threads p)" "caller_at p t' = AtSpawn (Some i)" using spawnsD(2) [OF P(2)] by blast
      then show ?thesis using sn [of t' i] at by auto
    qed
  next
    fix t' i assume t2: "t' < length (po_threads p)" and a: "caller_at ?q t' = AtSpawn (Some i)"
    then have d: "(t' = t \<and> i = ?n) \<or> (caller_at p t' = AtSpawn (Some i) \<and> i < ?n)" using sn sold by blast
    then show "i < Suc ?n" by auto
    show "pc_starting (po_clients ?p ! i)" "pc_inflight (po_clients ?p ! i) = 0"
      "pc_cred (po_clients ?p ! i) = credsOf (pt_who (po_threads p ! t'))" "pc_key (po_clients ?p ! i) = caller_key p t'"
      using d spawnsD(3) [OF P(2) t2, of i] old [of i] new c by auto
  next
    fix t1 t2 i assume "t1 < length (po_threads p)" "t2 < length (po_threads p)" "caller_at ?q t1 = AtSpawn (Some i) \<and> caller_at ?q t2 = AtSpawn (Some i)"
    then show "t1 = t2" using sn sold spawnsD(4) [OF P(2), of t1 t2 i] by (metis less_irrefl)
  qed
  have 3: "tracked ?q"
    unfolding tracked_def move_caller_frame f
  proof (intro conjI allI impI ballI)
    fix i assume "i < Suc ?n" "served (po_clients ?p ! i)"
    moreover from this have "i < ?n" using new c(3) by (metis less_antisym)
    ultimately show "in_workers p i \<or> i \<in> set (po_retiring p) \<or> i \<in> set (po_collected p)"
      using P(3) old [of i] unfolding tracked_def by simp
  next
    fix i assume "i \<in> set (po_collected p)"
    then show "pc_faulty (po_clients ?p ! i)" using P(3) M(5) [of i] old [of i] unfolding tracked_def by simp
  qed (use P(3) tracked_def in blast)
  have 4: "within_max opt ?q" using P(4) c(3) unfolding within_max_def move_caller_frame f by simp
  have fil: "length (filter (\<lambda>th. holds_at j (pt_pc th)) (po_threads ?q)) = length (filter (\<lambda>th. holds_at j (pt_pc th)) (po_threads p))" for j
    using holds_moved [OF t', of j "AtSpawn (Some ?n)", unfolded f] h at by simp
  have none: "length (filter (\<lambda>th. holds_at ?n (pt_pc th)) (po_threads p)) = 0"
    using holdsD(2) [OF P(5), of _ ?n] by (force simp: filter_empty_conv in_set_conv_nth caller_at_def)
  have 5: "holds_ok ?q"
    unfolding holds_ok_def move_caller_frame f hq fil
  proof (intro conjI allI impI)
    fix i assume "i < Suc ?n"
    then show "pc_inflight (po_clients ?p ! i) = length (filter (\<lambda>th. holds_at i (pt_pc th)) (po_threads p))"
      using holdsD(1) [OF P(5), of i] none c(2) old [of i] new by (cases "i = ?n") auto
  qed (use holdsD(2) [OF P(5)] in \<open>blast intro: less_SucI\<close>)
  have niw: "\<not> in_workers p ?n" using M(6) by (auto simp: in_workers_def)
  have 6: "stops_ok ?q"
    unfolding stops_ok_def move_caller_frame f
  proof (intro conjI allI impI)
    fix i assume i: "i < Suc ?n" and s: "(pc_stop (po_clients ?p ! i) \<or> pc_terminating (po_clients ?p ! i)) \<and> \<not> pc_faulty (po_clients ?p ! i)"
    then have "i < ?n" using new c by (metis less_antisym)
    then show "pc_inflight (po_clients ?p ! i) = 0" "\<not> in_workers p i" "\<not> pc_starting (po_clients ?p ! i)"
      using stopsD(1) [OF P(6), of i] s old [of i] by simp_all
  next
    fix i assume i: "i < Suc ?n" and s: "pc_retiring (po_clients ?p ! i)"
    then have "i < ?n" using new c by (metis less_antisym)
    then show "\<not> in_workers p i" "\<not> pc_starting (po_clients ?p ! i)" using stopsD(2) [OF P(6), of i] s old [of i] by simp_all
  next
    fix t' i assume "t' < length (po_threads p)" "caller_at ?q t' = AtMark i"
    then have "i < ?n \<and> \<not> in_workers p i \<and> \<not> pc_starting (po_clients p ! i)" using stopsD(3) [OF P(6), of t' i] unfolding at' by (simp split: if_splits)
    then show "i < Suc ?n" "\<not> in_workers p i" "\<not> pc_starting (po_clients ?p ! i)" using old [of i] by simp_all
  qed
  have 7: "identity_ok opt ?q"
    using P(7) M(6) holdsD(2) [OF P(5)] old unfolding identity_ok_def move_caller_frame f move_caller_at(2,3) hq by simp
  have "\<not> po_drained p" using spawning_drained [OF inv t] at by (simp add: spawning_at_def)
  then have 8: "closing_ok ?q" using P(8) unfolding closing_ok_def move_caller_frame f by blast
  show ?thesis unfolding pool_inv_def start_process_def using 1 2 3 4 5 6 7 8 by blast
qed

text \<open>
  A startup is over: its reservation is gone, its process counts, and it is in the map (\<open>reg\<close>) or retiring.
\<close>

lemma spawn_over_inv:
  assumes inv: "pool_inv opt p" and t: "t < length (po_threads p)" and at: "caller_at p t = AtSpawn nc"
    and ne: "neutral_at pc" "\<And>j. pc \<noteq> AtMark j"
    and Q: "po_threads q = po_threads (move_caller t pc p)" "po_clients q = po_clients (end_startup nc p)"
      "po_spawning q = tdel (caller_key p t) (po_spawning p)" "po_closed q = po_closed p" "po_collected q = po_collected p"
      "po_drained q = po_drained p" "po_done q = po_done p"
    and R: "distinct (po_retiring q)" "set (po_retiring p) \<subseteq> set (po_retiring q)" "\<And>i. i \<in> set (po_retiring q) \<Longrightarrow> i \<in> set (po_retiring p) \<or> nc = Some i"
    and W: "table_ok (po_workers q)" "\<And>k j. (tget (po_workers q) k = Some j) = (tget (po_workers p) k = Some j \<or> reg \<and> k = caller_key p t \<and> nc = Some j)"
    and K: "\<And>j. reg \<Longrightarrow> nc = Some j \<Longrightarrow> kernel_ok opt (po_clients p ! j)"
    and A: "\<And>j. nc = Some j \<Longrightarrow> reg \<or> j \<in> set (po_retiring q)"
  shows "pool_inv opt q"
proof -
  note P = poolD [OF inv]
  note M = mapsD [OF P(1)]
  have ncl: "j < length (po_clients p) \<and> pc_starting (po_clients p ! j) \<and> pc_inflight (po_clients p ! j) = 0
      \<and> pc_cred (po_clients p ! j) = credsOf (pt_who (po_threads p ! t)) \<and> pc_key (po_clients p ! j) = caller_key p t" if "nc = Some j" for j
    using spawnsD(3) [OF P(2) t] at that by blast
  have len: "length (po_clients q) = length (po_clients p)" "length (po_threads q) = length (po_threads p)"
    unfolding Q by (simp_all add: end_startup_def split: option.split)
  have n: "po_clients q ! j = (if nc = Some j then (po_clients p ! j)\<lparr>pc_starting := False\<rparr> else po_clients p ! j)" for j
    unfolding Q using ncl by (auto simp: end_startup_def split: option.split)
  have k: "pc_key (po_clients q ! j) = pc_key (po_clients p ! j)" "pc_cred (po_clients q ! j) = pc_cred (po_clients p ! j)"
    "pc_kernel_uid (po_clients q ! j) = pc_kernel_uid (po_clients p ! j)" "pc_inflight (po_clients q ! j) = pc_inflight (po_clients p ! j)"
    "pc_exited (po_clients q ! j) = pc_exited (po_clients p ! j)" "pc_faulty (po_clients q ! j) = pc_faulty (po_clients p ! j)"
    "pc_stop (po_clients q ! j) = pc_stop (po_clients p ! j)" "pc_terminating (po_clients q ! j) = pc_terminating (po_clients p ! j)"
    "pc_retiring (po_clients q ! j) = pc_retiring (po_clients p ! j)"
    "pc_starting (po_clients q ! j) = (pc_starting (po_clients p ! j) \<and> nc \<noteq> Some j)" for j
    unfolding n by simp_all
  have cat: "caller_at q t' = caller_at (move_caller t pc p) t'" "caller_key q t' = caller_key p t'"
    "pt_who (po_threads q ! t') = pt_who (po_threads p ! t')" "pt_cancel (po_threads q ! t') = pt_cancel (po_threads p ! t')" for t'
    using move_caller_at(4) [of t pc p t'] unfolding caller_at_def caller_key_def Q by simp_all
  note at' = cat(1) [unfolded move_caller_at(1) [OF t]]
  have pcs: "\<not> holds_at j pc" "\<not> spawning_at pc" "pc \<noteq> AtSpawn nc'" "pc \<noteq> AtMark j" for j nc' using neutral_not [OF ne(1)] ne(2) by blast+
  have spt: "spawning_at (caller_at p t)" "\<not> holds_at j (caller_at p t)" "caller_at p t \<noteq> AtMark j" for j using at by (auto simp: spawning_at_def holds_at_def)
  have key: "tget (po_spawning p) (caller_key p t) = Some t" using spawnsD(1) [OF P(2)] t spt(1) by blast
  have nowork: "tget (po_workers p) (caller_key p t) = None" using M(6) [of "caller_key p t"] key by (cases "tget (po_workers p) (caller_key p t)") auto
  have iw: "in_workers q j = (in_workers p j \<or> reg \<and> nc = Some j)" for j unfolding in_workers_def W(2) by blast
  have niw: "nc = Some j \<Longrightarrow> \<not> in_workers p j" for j using M(6) ncl by (auto simp: in_workers_def)
  have 1: "maps_ok q"
    unfolding maps_ok_def len k
  proof (intro conjI allI impI ballI)
    show "table_ok (po_spawning q)" unfolding Q using M(2) by simp
    fix i assume "i \<in> set (po_retiring q)" then show "i < length (po_clients p)" using R(3) M(4) ncl by blast
  next
    fix i assume "i \<in> set (po_collected q)" then show "i < length (po_clients p)" unfolding Q using M(5) by blast
  next
    fix k j assume kj: "tget (po_workers q) k = Some j"
    show "j < length (po_clients p)" "pc_key (po_clients p ! j) = k" using kj M(6) [of k j] ncl unfolding W(2) by blast+
    show "\<not> (pc_starting (po_clients p ! j) \<and> nc \<noteq> Some j)" using kj M(6) [of k j] unfolding W(2) by blast
    show "tget (po_spawning q) k = None" unfolding Q using kj M(6) [of k j] unfolding W(2) by auto
  qed (use W(1) R(1) in auto)
  have sp1: "(tget (po_spawning q) k = Some t') = (t' < length (po_threads p) \<and> spawning_at (caller_at q t') \<and> caller_key p t' = k)" for k t'
    unfolding Q at' using spawnsD(1) [OF P(2), of k t'] key pcs(2) spawnsD(1) [OF P(2), of "caller_key p t" t'] by auto
  have other: "t' < length (po_threads p) \<Longrightarrow> t' \<noteq> t \<Longrightarrow> caller_at p t' = AtSpawn (Some i) \<Longrightarrow> nc \<noteq> Some i" for t' i
    using spawnsD(4) [OF P(2) _ t, of t' i] at by blast
  have sn: "(caller_at q t' = AtSpawn (Some i)) = (t' \<noteq> t \<and> caller_at p t' = AtSpawn (Some i))" for t' i unfolding at' using pcs(3) by simp
  have 2: "spawns_ok q"
    unfolding spawns_ok_def len cat(2,3) sn k
  proof (intro conjI allI impI)
    fix i assume "i < length (po_clients p)" "pc_starting (po_clients p ! i) \<and> nc \<noteq> Some i"
    then show "\<exists>t'<length (po_threads p). t' \<noteq> t \<and> caller_at p t' = AtSpawn (Some i)"
      using spawnsD(2) [OF P(2), of i] at by (metis tpc.inject(2))
  qed (use sp1 spawnsD(3,4) [OF P(2)] other in blast)+
  have sv: "served (po_clients q ! j) \<Longrightarrow> served (po_clients p ! j) \<or> nc = Some j" for j by (auto simp: served_def k)
  have 3: "tracked q"
    unfolding tracked_def len k Q(4,5) iw
  proof (intro conjI allI impI ballI)
    fix i assume i: "i < length (po_clients p)" "served (po_clients q ! i)"
    show "(in_workers p i \<or> reg \<and> nc = Some i) \<or> i \<in> set (po_retiring q) \<or> i \<in> set (po_collected p)"
      using sv [OF i(2)] A [of i] R(2) i(1) P(3) unfolding tracked_def by blast
  qed (use P(3) tracked_def in blast)+
  have "tlen (po_spawning q) < tlen (po_spawning p)" unfolding Q using tlen_tdel_present [of "po_spawning p" "caller_key p t"] key by simp
  moreover have "length (filter served (po_clients q)) \<le> Suc (length (filter served (po_clients p)))"
  proof (cases nc)
    case None
    then show ?thesis by (simp add: Q end_startup_def)
  next
    case (Some i)
    then have "i < length (po_clients p)" using ncl by blast
    from filter_length_update [OF this, of served "(po_clients p ! i)\<lparr>pc_starting := False\<rparr>"] Some
    show ?thesis unfolding Q by (simp add: end_startup_def set_client_def of_bool_def split: if_splits)
  qed
  ultimately have 4: "within_max opt q" using P(4) unfolding within_max_def by linarith
  have hq: "holds_at j (caller_at q t') = holds_at j (caller_at p t')" for j t' unfolding at' using pcs(1) spt(2) by simp
  have fq: "length (filter (\<lambda>th. holds_at j (pt_pc th)) (po_threads q)) = length (filter (\<lambda>th. holds_at j (pt_pc th)) (po_threads p))" for j
    unfolding Q using holds_moved [OF t, of j pc] pcs(1) [of j] spt(2) [of j] by simp
  have 5: "holds_ok q" using P(5) unfolding holds_ok_def len k hq fq .
  have 6: "stops_ok q"
    unfolding stops_ok_def len k iw at'
    using stopsD [OF P(6)] ncl by (intro conjI allI impI) (auto simp: pcs(4) split: if_splits)
  have 7: "identity_ok opt q"
    using P(7) K unfolding identity_ok_def len cat(3,4) hq kernel_ok_def k W(2) by blast
  have "\<not> po_drained p" using spawning_drained [OF inv t spt(1)] .
  then have 8: "closing_ok q" using P(8) unfolding closing_ok_def Q by blast
  show ?thesis unfolding pool_inv_def using 1 2 3 4 5 6 7 8 by blast
qed

lemma end_startup_frame [simp]:
  "po_workers (end_startup nc p) = po_workers p" "po_spawning (end_startup nc p) = po_spawning p" "po_retiring (end_startup nc p) = po_retiring p"
  "po_closed (end_startup nc p) = po_closed p" "po_collected (end_startup nc p) = po_collected p" "po_drained (end_startup nc p) = po_drained p"
  "po_done (end_startup nc p) = po_done p" "po_threads (end_startup nc p) = po_threads p"
  "length (po_clients (end_startup nc p)) = length (po_clients p)"
  by (simp_all add: end_startup_def split: option.split)

lemma end_startup_clients: "po_clients p = po_clients q \<Longrightarrow> po_clients (end_startup nc p) = po_clients (end_startup nc q)"
  by (simp add: end_startup_def set_client_def split: option.split)

lemma retired_distinct: "maps_ok p \<Longrightarrow> distinct (po_retiring (retire_entry i p))"
  using mapsD(3) [of p] by (simp add: retire_entry_def)

lemma refuse_inv:
  assumes inv: "pool_inv opt p" and t: "t < length (po_threads p)" and at: "caller_at p t = AtSpawn nc"
  shows "pool_inv opt (refuse_startup t e nc (p\<lparr>po_spawning := tdel (caller_key p t) (po_spawning p), po_budgets := b\<rparr>))"
proof (cases nc)
  case None
  show ?thesis unfolding None refuse_startup_def option.case
    by (rule spawn_over_inv [OF inv t at, where pc = "Gone (Some e)" and reg = False])
      (use None mapsD(1,3) [OF poolD(1) [OF inv]] in \<open>simp_all add: end_startup_def move_caller_def\<close>)
next
  case (Some i)
  let ?p = "p\<lparr>po_spawning := tdel (caller_key p t) (po_spawning p), po_budgets := b\<rparr>"
  have il: "i < length (po_clients p)" using spawnsD(3) [OF poolD(2) [OF inv] t] at Some by blast
  have r: "po_clients (retire_entry i ?p) = po_clients p" "po_retiring (retire_entry i ?p) = po_retiring (retire_entry i p)" by (simp_all add: retire_entry_def)
  have "pool_inv opt (move_caller t (Gone (Some e)) (end_startup nc (retire_entry i ?p)))"
    by (rule spawn_over_inv [OF inv t at, where pc = "Gone (Some e)" and reg = False])
      (use Some r mapsD(1) [OF poolD(1) [OF inv]] retired_distinct [OF poolD(1) [OF inv], of i] end_startup_clients [OF r(1), of nc]
        retire_entry_frame(9) [of i p] in \<open>auto simp: move_caller_def\<close>)
  then show ?thesis unfolding refuse_startup_def Some option.case
    by (rule faulty_stop_inv) (use il in simp)
qed

lemma accept_inv:
  assumes inv: "pool_inv opt p" and t: "t < length (po_threads p)" and at: "caller_at p t = AtSpawn (Some i)"
    and k: "hello_accepted opt (pt_who (po_threads p ! t)) (pc_kernel_uid (po_clients p ! i))"
  shows "pool_inv opt (accept_startup now t (caller_key p t) i (p\<lparr>po_spawning := tdel (caller_key p t) (po_spawning p)\<rparr>))"
proof -
  let ?k = "caller_key p t"
  let ?p = "p\<lparr>po_spawning := tdel ?k (po_spawning p), po_workers := tput ?k i (po_workers p)\<rparr>"
  let ?q = "move_caller t AtLoop (end_startup (Some i) ?p)"
  note P = poolD [OF inv]
  have il: "i < length (po_clients p)" "pc_cred (po_clients p ! i) = credsOf (pt_who (po_threads p ! t))"
    using spawnsD(3) [OF P(2) t at] by blast+
  have key: "tget (po_spawning p) ?k = Some t" using spawnsD(1) [OF P(2)] t at by (simp add: spawning_at_def)
  have nw: "tget (po_workers p) ?k = None" using mapsD(6) [OF P(1), of ?k] key by (cases "tget (po_workers p) ?k") auto
  have "pool_inv opt ?q"
    by (rule spawn_over_inv [OF inv t at, where pc = AtLoop and reg = True])
      (use nw k il mapsD(1,3) [OF P(1)] end_startup_clients [of ?p p "Some i"] in
        \<open>auto simp: move_caller_def kernel_ok_def hello_accepted_def credsOf_def\<close>)
  then have "pool_inv opt (move_caller t (Has i) (set_client i (hold_client now) ?q))"
    by (rule hold_inv) (use t il in \<open>auto simp: end_startup_def\<close>)
  moreover have "move_caller t (Has i) (set_client i (hold_client now) ?q) =
      accept_startup now t ?k i (p\<lparr>po_spawning := tdel ?k (po_spawning p)\<rparr>)"
    using t by (simp add: accept_startup_def move_caller_def set_client_def end_startup_def)
  ultimately show ?thesis by simp
qed

lemma finish_inv:
  assumes inv: "pool_inv opt p" and t: "t < length (po_threads p)" and at: "caller_at p t = AtSpawn nc"
  shows "pool_inv opt (finish_spawn opt now answered cancelled t nc p)"
proof -
  let ?p = "p\<lparr>po_spawning := tdel (caller_key p t) (po_spawning p)\<rparr>"
  have ref: "pool_inv opt (refuse_startup t e nc ?p)" for e using refuse_inv [OF assms, of e "po_budgets p"] by simp
  have nref: "pool_inv opt (refuse_startup t e nc (snd (noteRestart opt (caller_key p t) now ?p)))" for e
    using noted_budgets [of opt "caller_key p t" now ?p] refuse_inv [OF assms, of e] by auto
  have failed: "pool_inv opt (case (if ch then noteRestart opt (caller_key p t) now ?p else (False, ?p)) of
      (blocked, p2) \<Rightarrow> refuse_startup t (if blocked then PUnavailable else PStartFailed) nc p2)" for ch
    using ref nref by (simp add: case_prod_beta)
  show ?thesis
  proof (cases nc)
    case None
    then show ?thesis using failed unfolding finish_spawn_def Let_def by simp
  next
    case (Some i)
    then show ?thesis using failed [of True] ref [of PClosed] accept_inv [OF inv t at [unfolded Some], of now] unfolding finish_spawn_def Let_def
      by (simp split: if_split)
  qed
qed

lemma mark_inv:
  assumes inv: "pool_inv opt p" and t: "t < length (po_threads p)" and at: "caller_at p t = AtMark i"
  shows "pool_inv opt (mark_retired t i p)"
proof -
  note m = stopsD(3) [OF poolD(6) [OF inv] t at]
  let ?p = "set_client i (\<lambda>c. c\<lparr>pc_retiring := True\<rparr>) (move_caller t AtLoop p)"
  have q: "pool_inv opt (move_caller t AtLoop p)" by (rule move_inv [OF inv t]) (use at in simp_all)
  have r: "pool_inv opt ?p"
    by (rule client_inv [OF q _ refl]) (use m stopsD(1) [OF poolD(6) [OF inv], of i] in auto)
  have "pool_inv opt (schedule_stop i ?p)" if "pc_inflight (po_clients p ! i) = 0"
    by (rule schedule_stop_inv [OF r]) (use m that in auto)
  then show ?thesis using r by (simp add: mark_retired_def Let_def)
qed

lemma victim_registered:
  "pick_victim cs ws best = Some (k, i) \<Longrightarrow>
   (k, i) \<in> set ws \<and> pc_inflight (cs ! i) = 0 \<or> best = Some (k, i)"
proof (induction cs ws best rule: pick_victim.induct)
  case (2 cs k' i' ws best)
  then show ?case by (auto split: if_splits option.splits prod.splits)
qed simp

lemma table_entry: "table_ok t \<Longrightarrow> (k, v) \<in> set t \<Longrightarrow> tget t k = Some v"
  by (simp add: table_ok_def tget_def)

lemma pass_inv:
  assumes inv: "pool_inv opt p" and t: "t < length (po_threads p)" and at: "caller_at p t = AtLoop"
  shows "pool_inv opt (get_pass opt now cancelled t p)"
proof -
  note P = poolD [OF inv]
  have gone: "pool_inv opt (move_caller t pc p)" if "neutral_at pc" "\<And>i. pc \<noteq> AtMark i" for pc
    by (rule move_inv [OF inv t]) (use at that in auto)
  show ?thesis
  proof (cases "cancelled \<or> po_closed p")
    case True
    then have "get_pass opt now cancelled t p = move_caller t (Gone (Some (if cancelled then PCancelled else PClosed))) p"
      by (auto simp: get_pass_def Let_def)
    then show ?thesis using gone by simp
  next
    case op: False
    show ?thesis
    proof (cases "tget (po_workers p) (caller_key p t)")
      case (Some i)
      let ?u = "unregister (caller_key p t) i p"
      note u = unregister_inv [OF inv Some]
      have i: "i < length (po_clients p)" "\<not> pc_starting (po_clients p ! i)" using mapsD(6) [OF P(1) Some] by blast+
      consider (dead) "pc_dead (po_clients p ! i)"
        | (stale) "\<not> pc_dead (po_clients p ! i)" "pc_cred (po_clients p ! i) \<noteq> credsOf (pt_who (po_threads p ! t))"
        | (good) "\<not> pc_dead (po_clients p ! i)" "pc_cred (po_clients p ! i) = credsOf (pt_who (po_threads p ! t))" by blast
      then show ?thesis
      proof cases
        case dead
        have "pool_inv opt (schedule_stop i (mark_faulty i (snd (noteRestart opt (caller_key p t) now ?u))))"
          by (rule faulty_stop_inv) (use u i in simp_all)
        then show ?thesis using dead op Some by (simp add: get_pass_def Let_def)
      next
        case stale
        have "pool_inv opt (move_caller t (AtMark i) ?u)"
          by (rule move_inv [OF u(1)]) (use t at i u(2) in auto)
        then show ?thesis using stale op Some by (simp add: get_pass_def Let_def)
      next
        case good
        then show ?thesis using op Some hold_inv [OF inv t _ Some, of _ now] at by (simp add: get_pass_def Let_def)
      qed
    next
      case None
      have evict: "pool_inv opt (schedule_stop i (unregister k i p))" if "pick_victim (po_clients p) (po_workers p) None = Some (k, i)" for k i
        using victim_registered [OF that] stop_unregistered_inv [OF inv] table_entry [OF mapsD(1) [OF P(1)]] by blast
      show ?thesis
        using None op gone reserve_inv [OF inv t at] evict
        by (auto simp: get_pass_def Let_def split: option.split)
    qed
  qed
qed

subsection \<open>The events that change little\<close>

lemma caller_inv:
  assumes inv: "pool_inv opt p"
  shows "pool_inv opt (p\<lparr>po_threads := po_threads p @ [\<lparr>pt_who = who, pt_attempt = 0, pt_cancel = c, pt_pc = AtLoop\<rparr>]\<rparr>)"
proof -
  note P = poolD [OF inv]
  let ?n = "length (po_threads p)"
  let ?th = "\<lparr>pt_who = who, pt_attempt = 0, pt_cancel = c, pt_pc = AtLoop\<rparr>"
  let ?q = "p\<lparr>po_threads := po_threads p @ [?th]\<rparr>"
  have old: "t < ?n \<Longrightarrow> caller_at ?q t = caller_at p t" "t < ?n \<Longrightarrow> caller_key ?q t = caller_key p t"
    "t < ?n \<Longrightarrow> po_threads ?q ! t = po_threads p ! t" for t
    by (simp_all add: caller_at_def caller_key_def nth_append)
  have new: "caller_at ?q ?n = AtLoop" by (simp add: caller_at_def)
  have f: "po_clients ?q = po_clients p" "po_workers ?q = po_workers p" "po_spawning ?q = po_spawning p" "po_retiring ?q = po_retiring p"
    "po_closed ?q = po_closed p" "po_collected ?q = po_collected p" "po_drained ?q = po_drained p" "po_done ?q = po_done p"
    "length (po_threads ?q) = Suc ?n" "in_workers ?q i = in_workers p i" for i by (simp_all add: in_workers_def)
  have all: "(t < Suc ?n \<and> caller_at ?q t = pc) = (t < ?n \<and> caller_at p t = pc)" if "pc \<noteq> AtLoop" for pc t
    using that new old(1) [of t] by (cases "t = ?n") (auto simp: less_Suc_eq)
  have sp: "(t < Suc ?n \<and> spawning_at (caller_at ?q t)) = (t < ?n \<and> spawning_at (caller_at p t))" for t
    using new old(1) [of t] by (cases "t = ?n") (auto simp: less_Suc_eq spawning_at_def)
  have ho: "(t < Suc ?n \<and> holds_at i (caller_at ?q t)) = (t < ?n \<and> holds_at i (caller_at p t))" for t i
    using new old(1) [of t] by (cases "t = ?n") (auto simp: less_Suc_eq holds_at_def)
  have 1: "maps_ok ?q" using P(1) unfolding maps_ok_def f .
  have 2: "spawns_ok ?q"
    unfolding spawns_ok_def f
  proof (intro conjI allI impI)
    fix k t show "(tget (po_spawning p) k = Some t) = (t < Suc ?n \<and> spawning_at (caller_at ?q t) \<and> caller_key ?q t = k)"
      using spawnsD(1) [OF P(2), of k t] sp [of t] old(2) [of t] by metis
  next
    fix i assume "i < length (po_clients p)" "pc_starting (po_clients p ! i)"
    then show "\<exists>t<Suc ?n. caller_at ?q t = AtSpawn (Some i)" using spawnsD(2) [OF P(2), of i] all [of "AtSpawn (Some i)"] by blast
  next
    fix t i assume "t < Suc ?n" "caller_at ?q t = AtSpawn (Some i)"
    then have t: "t < ?n" "caller_at p t = AtSpawn (Some i)" using all [of "AtSpawn (Some i)" t] by blast+
    show "i < length (po_clients p)" "pc_starting (po_clients p ! i)" "pc_inflight (po_clients p ! i) = 0"
      "pc_cred (po_clients p ! i) = credsOf (pt_who (po_threads ?q ! t))" "pc_key (po_clients p ! i) = caller_key ?q t"
      using spawnsD(3) [OF P(2) t] old [OF t(1)] by simp_all
  next
    fix t t' i assume "t < Suc ?n" "t' < Suc ?n" "caller_at ?q t = AtSpawn (Some i) \<and> caller_at ?q t' = AtSpawn (Some i)"
    then show "t = t'" using all [of "AtSpawn (Some i)"] spawnsD(4) [OF P(2), of t t' i] by blast
  qed
  have 3: "tracked ?q" using P(3) unfolding tracked_def f .
  have 4: "within_max opt ?q" using P(4) unfolding within_max_def f .
  have fil: "length (filter (\<lambda>th. holds_at i (pt_pc th)) (po_threads ?q)) = length (filter (\<lambda>th. holds_at i (pt_pc th)) (po_threads p))" for i
    by (simp add: holds_at_def)
  have 5: "holds_ok ?q" using holdsD [OF P(5)] ho unfolding holds_ok_def f fil by blast
  have 6: "stops_ok ?q"
    unfolding stops_ok_def f using stopsD [OF P(6)] all [of "AtMark i" for i] by (intro conjI allI impI) blast+
  have 7: "identity_ok opt ?q"
    unfolding identity_ok_def f
  proof (intro conjI allI impI)
    fix t i assume "t < Suc ?n" "holds_at i (caller_at ?q t) \<and> \<not> pt_cancel (po_threads ?q ! t)"
    then have "t < ?n" "holds_at i (caller_at p t)" "\<not> pt_cancel (po_threads p ! t)" using ho [of t i] old(3) [of t] by auto
    then show "pc_cred (po_clients p ! i) = credsOf (pt_who (po_threads ?q ! t))" "kernel_ok opt (po_clients p ! i)"
      using P(7) old(3) [of t] unfolding identity_ok_def by auto
  qed (use P(7) identity_ok_def in blast)
  have 8: "closing_ok ?q" using P(8) unfolding closing_ok_def f .
  show ?thesis unfolding pool_inv_def using 1 2 3 4 5 6 7 8 by blast
qed

lemma cancel_job_inv:
  assumes inv: "pool_inv opt p" and i: "tget (po_workers p) k = Some i"
  shows "pool_inv opt ((set_client i (hold_client now) p)\<lparr>po_threads := po_threads p @ [\<lparr>pt_who = who, pt_attempt = 0, pt_cancel = True, pt_pc = Has i\<rparr>]\<rparr>)"
proof -
  let ?q = "p\<lparr>po_threads := po_threads p @ [\<lparr>pt_who = who, pt_attempt = 0, pt_cancel = True, pt_pc = AtLoop\<rparr>]\<rparr>"
  let ?n = "length (po_threads p)"
  have "pool_inv opt (move_caller ?n (Has i) (set_client i (hold_client now) ?q))"
    by (rule hold_inv [OF caller_inv [OF inv]]) (use i in \<open>simp_all add: caller_at_def\<close>)
  then show ?thesis by (simp add: move_caller_def set_client_def)
qed

lemma clear_inv:
  assumes inv: "pool_inv opt p" and e: "pc_exited (po_clients p ! i)"
  shows "pool_inv opt (p\<lparr>po_retiring := remove1 i (po_retiring p)\<rparr>)"
proof -
  note P = poolD [OF inv]
  let ?q = "p\<lparr>po_retiring := remove1 i (po_retiring p)\<rparr>"
  have f: "po_clients ?q = po_clients p" "po_workers ?q = po_workers p" "po_spawning ?q = po_spawning p" "po_threads ?q = po_threads p"
    "po_closed ?q = po_closed p" "po_collected ?q = po_collected p" "po_drained ?q = po_drained p" "po_done ?q = po_done p"
    "caller_at ?q t = caller_at p t" "caller_key ?q t = caller_key p t"
    "in_workers ?q j = in_workers p j" "set (po_retiring ?q) = set (po_retiring p) - {i}" for j t
    using mapsD(3) [OF P(1)] by (simp_all add: in_workers_def caller_at_def caller_key_def)
  have "distinct (po_retiring ?q)" using mapsD(3) [OF P(1)] by simp
  then have 1: "maps_ok ?q" using P(1) unfolding maps_ok_def f by blast
  have 2: "spawns_ok ?q" using P(2) unfolding spawns_ok_def f .
  have "\<not> served (po_clients p ! i)" using e by (simp add: served_def)
  then have 3: "tracked ?q" using P(3) unfolding tracked_def f by blast
  have 4: "within_max opt ?q" using P(4) unfolding within_max_def f .
  have 5: "holds_ok ?q" using P(5) unfolding holds_ok_def f .
  have 6: "stops_ok ?q" using P(6) unfolding stops_ok_def f .
  have 7: "identity_ok opt ?q" using P(7) unfolding identity_ok_def f .
  have 8: "closing_ok ?q" using P(8) unfolding closing_ok_def f .
  show ?thesis unfolding pool_inv_def using 1 2 3 4 5 6 7 8 by blast
qed

lemma registered_bound: "maps_ok p \<Longrightarrow> i \<in> set (map snd (po_workers p) @ po_retiring p) \<Longrightarrow> i < length (po_clients p)"
  using mapsD(4,6) [of p] table_entry [OF mapsD(1), of p] by fastforce

text \<open>A sweep: first what it collects is counted out, then it is collected.\<close>

lemma fold_faulty:
  "pool_inv opt p \<Longrightarrow> list_all (\<lambda>i. i < length (po_clients p)) is \<Longrightarrow>
   (let q = foldl (\<lambda>p i. mark_faulty i p) p is
    in pool_inv opt q \<and> length (po_clients q) = length (po_clients p) \<and> (\<forall>i \<in> set is. pc_faulty (po_clients q ! i))
       \<and> (\<forall>i. pc_faulty (po_clients p ! i) \<longrightarrow> pc_faulty (po_clients q ! i))
       \<and> po_workers q = po_workers p \<and> po_retiring q = po_retiring p \<and> po_collected q = po_collected p
       \<and> po_closed q = po_closed p \<and> po_drained q = po_drained p)"
proof (induction "is" arbitrary: p)
  case (Cons i "is")
  let ?p = "mark_faulty i p"
  have i: "i < length (po_clients p)" using Cons(3) by simp
  have l: "list_all (\<lambda>i. i < length (po_clients ?p)) is" using Cons(3) by (simp add: mark_faulty_def)
  have "pc_faulty (po_clients ?p ! j) = (j = i \<or> pc_faulty (po_clients p ! j))" for j using i by (simp add: mark_faulty_def)
  moreover have "po_retiring ?p = po_retiring p" "po_collected ?p = po_collected p" "po_closed ?p = po_closed p" "po_drained ?p = po_drained p"
    by (simp_all add: mark_faulty_def)
  ultimately show ?case using Cons(1) [OF mark_faulty_inv [OF Cons(2) i] l] by (simp add: Let_def)
qed simp

lemma fold_faulty_frame:
  "foldl (\<lambda>p i. mark_faulty i p) (p\<lparr>po_workers := w, po_retiring := r, po_collected := c\<rparr>) is =
   (foldl (\<lambda>p i. mark_faulty i p) p is)\<lparr>po_workers := w, po_retiring := r, po_collected := c\<rparr>"
proof (induction "is" arbitrary: p)
  case (Cons i "is")
  have "mark_faulty i (p\<lparr>po_workers := w, po_retiring := r, po_collected := c\<rparr>) = (mark_faulty i p)\<lparr>po_workers := w, po_retiring := r, po_collected := c\<rparr>"
    by (simp add: mark_faulty_def set_client_def)
  then show ?case by (simp only: foldl_Cons Cons)
qed simp

lemma collect_inv:
  assumes inv: "pool_inv opt p" and cl: "po_closed p" "\<not> po_drained p" and al: "all = map snd (po_workers p) @ po_retiring p"
    and fa: "\<forall>i \<in> set all. pc_faulty (po_clients p ! i)"
  shows "pool_inv opt (p\<lparr>po_workers := [], po_retiring := [], po_collected := all @ po_collected p\<rparr>)"
proof -
  note P = poolD [OF inv]
  note M = mapsD [OF P(1)]
  let ?q = "p\<lparr>po_workers := [], po_retiring := [], po_collected := all @ po_collected p\<rparr>"
  have f: "po_clients ?q = po_clients p" "po_workers ?q = []" "po_spawning ?q = po_spawning p" "po_threads ?q = po_threads p"
    "po_closed ?q = po_closed p" "set (po_collected ?q) = set all \<union> set (po_collected p)" "po_drained ?q = po_drained p" "po_done ?q = po_done p"
    "caller_at ?q t = caller_at p t" "caller_key ?q t = caller_key p t"
    "in_workers ?q j = False" "po_retiring ?q = []" "tget [] k = None" for j t k
    by (simp_all add: in_workers_def caller_at_def caller_key_def tget_def)
  have al': "i \<in> set all" if "in_workers p i \<or> i \<in> set (po_retiring p)" for i
    using that unfolding al in_workers_def by (force simp: tget_def dest: map_of_SomeD)
  have mem: "i < length (po_clients p)" if "i \<in> set all" for i
    using registered_bound [OF P(1)] that unfolding al by blast
  have 1: "maps_ok ?q" using M(2,5) mem unfolding maps_ok_def f by auto
  have 2: "spawns_ok ?q" using P(2) unfolding spawns_ok_def f .
  have cne: "po_collected ?q \<noteq> [] \<longrightarrow> po_closed p" using cl by simp
  have 3: "tracked ?q" unfolding tracked_def using P(3) al' fa cne unfolding tracked_def f by blast
  have 4: "within_max opt ?q" using P(4) unfolding within_max_def f .
  have 5: "holds_ok ?q" using P(5) unfolding holds_ok_def f .
  have 6: "stops_ok ?q" using P(6) unfolding stops_ok_def f by blast
  have 7: "identity_ok opt ?q" using P(7) unfolding identity_ok_def f by blast
  have "\<not> po_done p" using P(8) cl unfolding closing_ok_def by blast
  then have 8: "closing_ok ?q" using cl unfolding closing_ok_def f by blast
  show ?thesis unfolding pool_inv_def using 1 2 3 4 5 6 7 8 by blast
qed

lemma sweep_inv:
  assumes inv: "pool_inv opt p" and cl: "po_closed p" "\<not> po_drained p"
  shows "pool_inv opt (sweep_pool p)"
proof -
  let ?all = "map snd (po_workers p) @ po_retiring p" let ?f = "foldl (\<lambda>p i. mark_faulty i p) p ?all"
  have "list_all (\<lambda>i. i < length (po_clients p)) ?all"
    unfolding list_all_iff using registered_bound [OF poolD(1) [OF inv]] by blast
  note F = fold_faulty [OF inv this, unfolded Let_def]
  have "pool_inv opt (?f\<lparr>po_workers := [], po_retiring := [], po_collected := ?all @ po_collected ?f\<rparr>)"
    by (rule collect_inv) (use F cl in simp_all)
  then show ?thesis using F by (simp add: sweep_pool_def Let_def fold_faulty_frame)
qed

lemma flags_frame:
  assumes "po_clients q = po_clients p" "po_workers q = po_workers p" "po_spawning q = po_spawning p" "po_retiring q = po_retiring p"
    "po_threads q = po_threads p" "po_collected q = po_collected p"
    and inv: "pool_inv opt p" and cl: "po_closed p \<longrightarrow> po_closed q" and co: "closing_ok q"
  shows "pool_inv opt q"
proof -
  note P = poolD [OF inv]
  have f: "caller_at q t = caller_at p t" "caller_key q t = caller_key p t" "in_workers q i = in_workers p i" for t i
    using assms(1-6) by (simp_all add: caller_at_def caller_key_def in_workers_def)
  have 1: "maps_ok q" using P(1) unfolding maps_ok_def assms(1-6) .
  have 2: "spawns_ok q" using P(2) unfolding spawns_ok_def assms(1-6) f .
  have 3: "tracked q" using P(3) cl unfolding tracked_def assms(1-6) f by blast
  have 4: "within_max opt q" using P(4) unfolding within_max_def assms(1-6) .
  have 5: "holds_ok q" using P(5) unfolding holds_ok_def assms(1-6) f .
  have 6: "stops_ok q" using P(6) unfolding stops_ok_def assms(1-6) f .
  have 7: "identity_ok opt q" using P(7) unfolding identity_ok_def assms(1-6) f .
  show ?thesis unfolding pool_inv_def using 1 2 3 4 5 6 7 co by blast
qed

lemma drained_out:
  assumes inv: "pool_inv opt p" and e: "sweep_empty p" and i: "i < length (po_clients p)"
  shows "pc_exited (po_clients p ! i) \<or> i \<in> set (po_collected p)"
proof (rule ccontr)
  note P = poolD [OF inv]
  assume n: "\<not> ?thesis"
  have "\<not> pc_starting (po_clients p ! i)"
  proof
    assume "pc_starting (po_clients p ! i)"
    then obtain t where "t < length (po_threads p)" "caller_at p t = AtSpawn (Some i)" using spawnsD(2) [OF P(2) i] by blast
    then have "tget (po_spawning p) (caller_key p t) = Some t" using spawnsD(1) [OF P(2)] by (simp add: spawning_at_def)
    then show False using e by (simp add: sweep_empty_def tget_def)
  qed
  then have "served (po_clients p ! i)" using n by (simp add: served_def)
  then show False using P(3) n i e by (auto simp: tracked_def sweep_empty_def in_workers_def tget_def)
qed

lemma closed_inv: "pool_inv opt p \<Longrightarrow> pool_inv opt (p\<lparr>po_closed := True\<rparr>)"
  by (rule flags_frame [of _ p]) (use poolD(8) [of opt p] in \<open>auto simp: closing_ok_def\<close>)

lemma drained_inv:
  assumes inv: "pool_inv opt p" and cl: "po_closed p" and e: "sweep_empty p"
  shows "pool_inv opt (p\<lparr>po_drained := True\<rparr>)"
  by (rule flags_frame [OF _ _ _ _ _ _ inv])
    (use poolD(8) [OF inv] cl drained_out [OF inv e] e in \<open>auto simp: closing_ok_def sweep_empty_def\<close>)

lemma done_inv:
  assumes inv: "pool_inv opt p" and "po_drained p" "list_all (\<lambda>i. pc_exited (po_clients p ! i)) (po_collected p)"
  shows "pool_inv opt (p\<lparr>po_done := True\<rparr>)"
  by (rule flags_frame [OF _ _ _ _ _ _ inv]) (use poolD(8) [OF inv] assms(2,3) in \<open>auto simp: closing_ok_def list_all_iff\<close>)

subsection \<open>Every step\<close>

lemma process_inv:
  assumes inv: "pool_inv opt p" and i: "i < length (po_clients p)"
  shows "pool_inv opt (set_client i (\<lambda>c. c\<lparr>pc_dead := True\<rparr>) p)" "pool_inv opt (set_client i (\<lambda>c. c\<lparr>pc_exited := True\<rparr>) p)"
    and "pc_stop (po_clients p ! i) \<or> List.member (po_collected p) i \<Longrightarrow> pool_inv opt (set_client i (\<lambda>c. c\<lparr>pc_terminating := True\<rparr>) p)"
proof -
  note s = stopsD(1,2) [OF poolD(6) [OF inv] i]
  show "pool_inv opt (set_client i (\<lambda>c. c\<lparr>pc_dead := True\<rparr>) p)" "pool_inv opt (set_client i (\<lambda>c. c\<lparr>pc_exited := True\<rparr>) p)"
    by (rule client_inv [OF inv i refl]; use s in auto)+
  assume st: "pc_stop (po_clients p ! i) \<or> List.member (po_collected p) i"
  then have "pc_stop (po_clients p ! i) \<or> pc_faulty (po_clients p ! i)"
    using poolD(3) [OF inv] unfolding tracked_def List.member_iff by blast
  then show "pool_inv opt (set_client i (\<lambda>c. c\<lparr>pc_terminating := True\<rparr>) p)"
    by (intro client_inv [OF inv i refl]) (use s in auto)
qed

lemma pool_step_inv:
  assumes inv: "pool_inv opt p"
  shows "pool_inv opt (pool_step opt p ev)"
proof (cases ev)
  case (Wants who)
  then show ?thesis using caller_inv [OF inv] by (simp add: pool_step_def)
next
  case (Passes t now c)
  then show ?thesis using inv pass_inv [OF inv] by (simp add: pool_step_def)
next
  case (Marks t)
  then show ?thesis using inv mark_inv [OF inv] by (auto simp: pool_step_def split: tpc.split)
next
  case (Wakes t c)
  have "pool_inv opt (move_caller t pc p)" if "t < length (po_threads p)" "caller_at p t = AtWait" "pc = AtLoop \<or> pc = Gone (Some PCancelled)" for pc
    by (rule move_inv [OF inv that(1)]) (use that in auto)
  then show ?thesis using Wakes inv by (simp add: pool_step_def)
next
  case (Starts t kuid)
  then show ?thesis using inv process_started_inv [OF inv] by (simp add: pool_step_def)
next
  case (Spawned t now a c)
  then show ?thesis using inv finish_inv [OF inv] by (auto simp: pool_step_def split: tpc.split)
next
  case (Pinged t now ok)
  have "pool_inv opt (move_caller t (Has i) p)" if "t < length (po_threads p)" "caller_at p t = AtPing i" for i
    by (rule move_same_inv [OF inv that(1)]) (use that in \<open>auto simp: spawning_at_def holds_at_def\<close>)
  then show ?thesis using Pinged inv retry_inv [OF inv] by (auto simp: pool_step_def split: tpc.split)
next
  case (Releases t now)
  have "pool_inv opt (move_caller t (Gone None) (release_hold now i p))" if "t < length (po_threads p)" "caller_at p t = Has i" for i
    by (rule release_inv [OF inv that(1)]) (use that in \<open>auto simp: holds_at_def\<close>)
  then show ?thesis using Releases inv by (auto simp: pool_step_def split: tpc.split)
next
  case (CancelJobs who now)
  then show ?thesis using inv cancel_job_inv [OF inv] by (auto simp: pool_step_def split: option.split)
next
  case (Detaches i now)
  then show ?thesis using inv detach_inv [OF inv] by (simp add: pool_step_def)
next
  case (Dies i)
  then show ?thesis using inv process_inv(1) [OF inv] by (simp add: pool_step_def)
next
  case (Terminates i)
  then show ?thesis using inv process_inv(3) [OF inv] by (simp add: pool_step_def)
next
  case (Exits i)
  then show ?thesis using inv process_inv(2) [OF inv] by (simp add: pool_step_def)
next
  case (Clears i)
  then show ?thesis using inv clear_inv [OF inv] by (simp add: pool_step_def)
next
  case (Reaps now)
  note M = mapsD(1) [OF poolD(1) [OF inv]]
  have "pool_inv opt (reap_idle opt now (po_workers p) p)"
    by (rule reap_inv [OF inv]) (use M table_entry [OF M] in \<open>auto simp: table_ok_def\<close>)
  then show ?thesis using Reaps by (simp add: pool_step_def)
next
  case ShutsDown
  then show ?thesis using closed_inv [OF inv] by (simp add: pool_step_def)
next
  case Sweeps
  then show ?thesis using inv sweep_inv [OF inv] drained_inv [OF inv] by (simp add: pool_step_def)
next
  case Completes
  then show ?thesis using inv done_inv [OF inv] by (simp add: pool_step_def)
qed

interpretation pool: invariant_machine "pool_step opt" "pool_inv opt"
  by unfold_locales (rule pool_step_inv)

lemma new_pool_inv: "0 \<le> op_Max opt \<Longrightarrow> pool_inv opt new_pool"
  by (simp add: pool_inv_def new_pool_def maps_ok_def spawns_ok_def tracked_def within_max_def holds_ok_def stops_ok_def identity_ok_def closing_ok_def
      tget_def tlen_def in_workers_def)

end
