(* ===== verification/Pool_Life.thy ===== *)
theory Pool_Life
  imports Pool_Facts
begin

section \<open>What the worker pool promises\<close>

text \<open>
  Over every sequence of events from a new pool: the number of processes, whose worker a caller gets, when a
  process may be stopped, what a shutdown leaves, and what a crash loop costs.
\<close>

definition pool_run :: "pool_options \<Rightarrow> pool_event list \<Rightarrow> pool" where
  "pool_run o1 evs = foldl (pool_step (normalise_pool o1)) new_pool evs"

lemma run_pool_inv: "pool_inv (normalise_pool o1) (pool_run o1 evs)"
  unfolding pool_run_def by (rule pool.run_inv [OF new_pool_inv]) (simp add: normalise_pool_def DefaultMax_def)

subsection \<open>The identity in the credentials\<close>

lemma first_seen_set: "set (first_seen seen gs) = set gs - set seen"
  by (induction seen gs rule: first_seen.induct) (auto simp: List.member_iff)

lemma first_seen_distinct: "distinct (first_seen seen gs)"
  by (induction seen gs rule: first_seen.induct) (auto simp: first_seen_set List.member_iff)

text \<open>
  two principals are given the same worker exactly when uid, gid, the set of supplementary groups and root mode
  are the same; the order of the groups and repetitions in the list make no difference.
\<close>

theorem credsOf_same_identity:
  "credsOf v = credsOf w \<longleftrightarrow> pr_UID v = pr_UID w \<and> pr_GID v = pr_GID w \<and> pr_Root v = pr_Root w \<and> set (pr_Groups v) = set (pr_Groups w)"
proof -
  let ?g = "\<lambda>u. sort (first_seen [] (pr_Groups u))"
  have "?g v = ?g w \<longleftrightarrow> set (pr_Groups v) = set (pr_Groups w)"
  proof
    assume "?g v = ?g w"
    then show "set (pr_Groups v) = set (pr_Groups w)" by (metis set_sort first_seen_set Diff_empty list.set(1))
  next
    assume "set (pr_Groups v) = set (pr_Groups w)"
    then show "?g v = ?g w"
      by (intro sorted_distinct_set_unique) (simp_all add: first_seen_set first_seen_distinct)
  qed
  moreover have "map itoa (?g v) = map itoa (?g w) \<longleftrightarrow> ?g v = ?g w"
    by (rule inj_map_eq_map) (simp add: inj_def)
  moreover have "join_with CHR '','' (map itoa (?g v)) = join_with CHR '','' (map itoa (?g w)) \<longleftrightarrow> map itoa (?g v) = map itoa (?g w)"
  proof
    assume e: "join_with CHR '','' (map itoa (?g v)) = join_with CHR '','' (map itoa (?g w))"
    show "map itoa (?g v) = map itoa (?g w)" by (rule join_inject [OF _ e]) (use itoa_no_comma itoa_not_Nil in auto)
  qed simp
  ultimately show ?thesis by (auto simp: credsOf_def)
qed

text \<open>
  C16: whatever the interleaving of requests, startups, crashes, retirements, reaping and shutdown, a request that
  holds a worker (or is about to ping it) holds one that was started with its own uid, gid, groups and mode,
  and, when workers are processes and it is not root's, runs in the kernel under the caller's uid. The one
  exception is stated as a hypothesis: a request to cancel a job takes whatever worker its key has, and for a key
  several callers share that may be one that was started for another of them.
\<close>

theorem worker_is_the_callers:
  assumes "p = pool_run o1 evs" "t < length (po_threads p)" "holds_at i (caller_at p t)" "\<not> pt_cancel (po_threads p ! t)"
  shows "i < length (po_clients p) \<and> pc_cred (po_clients p ! i) = credsOf (pt_who (po_threads p ! t))
    \<and> (op_process o1 \<and> \<not> pr_Root (pt_who (po_threads p ! t)) \<longrightarrow> pc_kernel_uid (po_clients p ! i) = pr_UID (pt_who (po_threads p ! t)))"
proof -
  note P = poolD [OF run_pool_inv [of o1 evs]]
  have "pc_cred (po_clients p ! i) = credsOf (pt_who (po_threads p ! t))" "kernel_ok (normalise_pool o1) (po_clients p ! i)"
    using P(7) assms(2-4) unfolding identity_ok_def assms(1) by blast+
  moreover have "i < length (po_clients p)" using holdsD(2) [OF P(5)] assms(2,3) unfolding assms(1) by blast
  ultimately show ?thesis by (simp add: kernel_ok_def credsOf_def normalise_pool_def)
qed

lemma starting_reserved:
  assumes inv: "pool_inv opt p"
  shows "length (filter pc_starting (po_clients p)) \<le> tlen (po_spawning p)"
proof -
  note P = poolD [OF inv]
  let ?S = "{i. i < length (po_clients p) \<and> pc_starting (po_clients p ! i)}"
  define own where "own = (\<lambda>i. SOME t. t < length (po_threads p) \<and> caller_at p t = AtSpawn (Some i))"
  have own: "own i < length (po_threads p) \<and> caller_at p (own i) = AtSpawn (Some i)" if "i \<in> ?S" for i
  proof -
    have "\<exists>t. t < length (po_threads p) \<and> caller_at p t = AtSpawn (Some i)" using spawnsD(2) [OF P(2), of i] that by simp
    then show ?thesis unfolding own_def by (rule someI_ex)
  qed
  have "inj_on own ?S"
  proof (rule inj_onI)
    fix i j assume ij: "i \<in> ?S" "j \<in> ?S" "own i = own j"
    have "AtSpawn (Some i) = AtSpawn (Some j)" using own [OF ij(1)] own [OF ij(2)] unfolding ij(3) by (elim conjE) (rule trans [OF sym])
    then show "i = j" by simp
  qed
  moreover have "own ` ?S \<subseteq> set (map snd (po_spawning p))"
  proof
    fix t assume "t \<in> own ` ?S"
    then have "t < length (po_threads p)" "spawning_at (caller_at p t)" using own by (auto simp: spawning_at_def)
    then have "tget (po_spawning p) (caller_key p t) = Some t" using spawnsD(1) [OF P(2)] by blast
    then show "t \<in> set (map snd (po_spawning p))" by (force simp: tget_def dest: map_of_SomeD)
  qed
  ultimately have "card ?S \<le> card (set (map snd (po_spawning p)))" by (rule card_inj_on_le) simp
  also have "\<dots> \<le> tlen (po_spawning p)" using card_length [of "map snd (po_spawning p)"] by (simp add: tlen_def)
  finally show ?thesis by (simp add: length_filter_conv_card)
qed

lemma live_split: "length (filter (\<lambda>c. \<not> pc_exited c) cs) \<le> length (filter served cs) + length (filter pc_starting cs)"
  by (induction cs) (auto simp: served_def)

text \<open>
  C17: there are never more worker processes alive than the maximum, counting those that are starting, serving,
  superseded and still finishing, being stopped, or collected by a shutdown.
\<close>

theorem processes_within_max:
  "int (length (filter (\<lambda>c. \<not> pc_exited c) (po_clients (pool_run o1 evs)))) \<le> op_Max (normalise_pool o1)"
proof -
  let ?p = "pool_run o1 evs"
  have "int (length (filter served (po_clients ?p)) + tlen (po_spawning ?p)) \<le> op_Max (normalise_pool o1)"
    using poolD(4) [OF run_pool_inv [of o1 evs]] by (simp add: within_max_def)
  then show ?thesis using live_split [of "po_clients ?p"] starting_reserved [OF run_pool_inv [of o1 evs]] by linarith
qed

subsection \<open>A worker nobody holds any more\<close>

text \<open>Out of the map, past its startup and held by no caller: from then on nobody can take it.\<close>

definition let_go :: "nat \<Rightarrow> pool \<Rightarrow> bool" where
  "let_go i p \<longleftrightarrow> i < length (po_clients p) \<and> \<not> in_workers p i \<and> \<not> pc_starting (po_clients p ! i) \<and>
     list_all (\<lambda>th. \<not> holds_at i (pt_pc th) \<and> pt_pc th \<noteq> AtSpawn (Some i)) (po_threads p)"

lemma let_go_threads:
  "let_go i p \<Longrightarrow> t < length (po_threads p) \<Longrightarrow> \<not> holds_at i (caller_at p t) \<and> caller_at p t \<noteq> AtSpawn (Some i)"
  by (simp add: let_go_def list_all_length caller_at_def)

lemma let_go_client:
  "let_go i p \<Longrightarrow> (pc_starting (f (po_clients p ! j)) \<Longrightarrow> pc_starting (po_clients p ! j)) \<Longrightarrow> let_go i (set_client j f p)"
  by (cases "j = i") (auto simp: let_go_def set_client_def in_workers_def)

lemma let_go_move: "let_go i p \<Longrightarrow> \<not> holds_at i pc \<Longrightarrow> pc \<noteq> AtSpawn (Some i) \<Longrightarrow> let_go i (move_caller t pc p)"
  by (auto simp: let_go_def move_caller_def in_workers_def list_all_iff dest!: set_update_subset_insert [THEN subsetD])

lemma let_go_frame:
  "let_go i (p\<lparr>po_spawning := a\<rparr>) = let_go i p" "let_go i (p\<lparr>po_budgets := b\<rparr>) = let_go i p"
  "let_go i (p\<lparr>po_retiring := r\<rparr>) = let_go i p" "let_go i (p\<lparr>po_closed := x\<rparr>) = let_go i p"
  "let_go i (p\<lparr>po_drained := x\<rparr>) = let_go i p" "let_go i (p\<lparr>po_done := x\<rparr>) = let_go i p"
  "let_go i (p\<lparr>po_collected := c\<rparr>) = let_go i p" "let_go i (retire_entry j p) = let_go i p"
  "let_go i (snd (noteRestart opt k now p)) = let_go i p"
  by (simp_all add: let_go_def in_workers_def retire_entry_def noteRestart_def Let_def)

lemma let_go_workers:
  "let_go i p \<Longrightarrow> let_go i (p\<lparr>po_workers := tdel k (po_workers p)\<rparr>)"
  "let_go i p \<Longrightarrow> j \<noteq> i \<Longrightarrow> let_go i (p\<lparr>po_workers := tput k j (po_workers p)\<rparr>)"
  "let_go i p \<Longrightarrow> let_go i (p\<lparr>po_workers := []\<rparr>)"
  by (auto simp: let_go_def in_workers_def tget_tdel tget_tput split: if_splits)

lemma let_go_stop: "let_go i p \<Longrightarrow> let_go i (schedule_stop j p)"
  unfolding schedule_stop_def by (rule let_go_client) simp_all

lemma let_go_release: "let_go i p \<Longrightarrow> let_go i (release_hold now j p)"
  by (auto simp: release_hold_def done_client_def Let_def intro!: let_go_stop let_go_client)

lemma let_go_marks:
  "let_go i p \<Longrightarrow> let_go i (schedule_stop j p)" "let_go i p \<Longrightarrow> let_go i (mark_faulty j p)"
  "let_go i p \<Longrightarrow> let_go i (unregister k j p)" "let_go i p \<Longrightarrow> let_go i (release_hold now j p)"
  "let_go i p \<Longrightarrow> let_go i (end_startup nc p)"
  by (auto simp: mark_faulty_def unregister_def end_startup_def let_go_frame let_go_workers let_go_stop let_go_release
      intro!: let_go_client split: option.split)

lemma taken_other: "let_go i p \<Longrightarrow> tget (po_workers p) k = Some j \<Longrightarrow> j \<noteq> i"
  by (auto simp: let_go_def in_workers_def)

lemma let_go_get: "let_go i p \<Longrightarrow> let_go i (get_pass opt now cancelled t p)"
  by (auto simp: get_pass_def Let_def let_go_frame holds_at_def hold_client_def dest: taken_other
      intro!: let_go_move let_go_marks let_go_client split: option.split)

lemma let_go_retired: "let_go i p \<Longrightarrow> let_go i (mark_retired t j p)"
  by (auto simp: mark_retired_def Let_def holds_at_def intro!: let_go_move let_go_marks let_go_client)

lemma let_go_start: "let_go i p \<Longrightarrow> let_go i (start_process t kuid p)"
proof -
  assume g: "let_go i p"
  then have "i < length (po_clients p)" by (simp add: let_go_def)
  moreover have "let_go i (p\<lparr>po_clients := po_clients p @ [c]\<rparr>)" for c
    using g by (auto simp: let_go_def in_workers_def nth_append)
  ultimately show ?thesis unfolding start_process_def by (intro let_go_move) (auto simp: holds_at_def)
qed

lemma let_go_refuse: "let_go i p \<Longrightarrow> let_go i (refuse_startup t e nc p)"
  by (auto simp: refuse_startup_def holds_at_def let_go_frame intro!: let_go_move let_go_marks split: option.split)

lemma let_go_accept: "let_go i p \<Longrightarrow> j \<noteq> i \<Longrightarrow> let_go i (accept_startup now t k j p)"
  unfolding accept_startup_def
  by (intro let_go_move let_go_client let_go_marks let_go_workers) (auto simp: holds_at_def hold_client_def)

lemma let_go_spawned: "let_go i p \<Longrightarrow> nc \<noteq> Some i \<Longrightarrow> let_go i (finish_spawn opt now answered cancelled t nc p)"
  by (auto simp: finish_spawn_def Let_def case_prod_beta let_go_frame intro!: let_go_refuse let_go_accept split: option.split)

lemma let_go_detach: "let_go i p \<Longrightarrow> let_go i (detach_client opt now j p)"
  by (auto simp: detach_client_def Let_def let_go_frame intro!: let_go_marks let_go_workers)

lemma let_go_retry: "let_go i p \<Longrightarrow> let_go i (retry_caller t p)"
proof -
  assume g: "let_go i p"
  then have "let_go i (bump_attempt t p)"
    by (cases "t < length (po_threads p)")
       (auto simp: let_go_def bump_attempt_def in_workers_def list_all_length nth_list_update)
  then show ?thesis unfolding retry_caller_def by (intro let_go_move) (auto simp: holds_at_def)
qed

lemma let_go_reap: "let_go i p \<Longrightarrow> let_go i (reap_idle opt now ws p)"
  by (induction opt now ws p rule: reap_idle.induct) (simp_all add: let_go_marks)

lemma let_go_sweep: "let_go i p \<Longrightarrow> let_go i (sweep_pool p)"
proof -
  assume g: "let_go i p"
  have f: "let_go i q \<Longrightarrow> let_go i (foldl (\<lambda>p i. mark_faulty i p) q js)" for q js
    by (induction js arbitrary: q) (auto intro: let_go_marks)
  have "let_go i (p\<lparr>po_workers := []\<rparr>)" using g by (rule let_go_workers)
  then have "let_go i (p\<lparr>po_workers := [], po_retiring := r, po_collected := c\<rparr>)" for r c
    by (simp add: let_go_def in_workers_def)
  then show ?thesis unfolding sweep_pool_def Let_def by (rule f)
qed

lemma let_go_thread:
  "let_go i p \<Longrightarrow> \<not> holds_at i (pt_pc th) \<Longrightarrow> pt_pc th \<noteq> AtSpawn (Some i) \<Longrightarrow> let_go i (p\<lparr>po_threads := po_threads p @ [th]\<rparr>)"
  by (simp add: let_go_def in_workers_def)

lemma let_go_step: "let_go i p \<Longrightarrow> let_go i (pool_step opt p ev)"
proof (cases ev)
  case (CancelJobs who now)
  assume g: "let_go i p"
  show ?thesis
  proof (cases "tget (po_workers p) (principal_key who)")
    case (Some j)
    note ne = taken_other [OF g Some]
    have "let_go i (set_client j (hold_client now) p)" using g by (rule let_go_client) (simp add: hold_client_def)
    from let_go_thread [OF this, of "\<lparr>pt_who = who, pt_attempt = 0, pt_cancel = True, pt_pc = Has j\<rparr>"] ne
    show ?thesis using g Some by (simp add: pool_step_def CancelJobs holds_at_def set_client_def)
  qed (use g in \<open>simp add: pool_step_def CancelJobs\<close>)
next
  case (Wants who)
  assume "let_go i p"
  then show ?thesis using let_go_thread [of i p] by (simp add: pool_step_def Wants holds_at_def)
qed (auto simp: pool_step_def Let_def let_go_frame holds_at_def dest: let_go_threads
      intro!: let_go_get let_go_retired let_go_move let_go_start let_go_spawned let_go_detach let_go_retry let_go_marks
        let_go_client let_go_reap let_go_sweep split: tpc.split)

lemma let_go_steps: "let_go i p \<Longrightarrow> let_go i (foldl (pool_step opt) p later)"
  by (induction later arbitrary: p) (auto intro: let_go_step)

text \<open>
  C18: a worker that is being stopped, and was not given up by a failing call, found dead or collected by a
  shutdown, has no call in flight and no caller holding it; and however the run goes on, shutdown included, no
  caller ever holds it again. The question an archive's reader may still put to its worker after the stream was
  closed is not a hold and is not modelled.
\<close>

theorem accepted_calls_finish:
  assumes "p = pool_run o1 evs" "i < length (po_clients p)" "pc_stop (po_clients p ! i) \<or> pc_terminating (po_clients p ! i)"
    "\<not> pc_faulty (po_clients p ! i)"
  shows "pc_inflight (po_clients p ! i) = 0 \<and> list_all (\<lambda>th. \<not> holds_at i (pt_pc th)) (po_threads p) \<and> \<not> in_workers p i \<and>
    list_all (\<lambda>th. \<not> holds_at i (pt_pc th)) (po_threads (pool_run o1 (evs @ later)))"
proof -
  note P = poolD [OF run_pool_inv [of o1 evs]]
  have s: "pc_inflight (po_clients p ! i) = 0" "\<not> in_workers p i" "\<not> pc_starting (po_clients p ! i)"
    using P(6) assms(2-4) unfolding assms(1) stops_ok_def by blast+
  moreover have "pc_inflight (po_clients p ! i) = length (filter (\<lambda>th. holds_at i (pt_pc th)) (po_threads p))"
    using holdsD(1) [OF P(5)] assms(2) unfolding assms(1) by blast
  ultimately have h: "list_all (\<lambda>th. \<not> holds_at i (pt_pc th)) (po_threads p)" by (simp add: list_all_iff filter_empty_conv)
  have sp: "caller_at p t \<noteq> AtSpawn (Some i)" if "t < length (po_threads p)" for t
    using P(2) s(3) that unfolding spawns_ok_def assms(1) by blast
  have "let_go i p" using s h sp assms(2) by (simp add: let_go_def list_all_length caller_at_def)
  from let_go_steps [OF this, of "normalise_pool o1" later] have "let_go i (pool_run o1 (evs @ later))"
    by (simp add: pool_run_def assms(1))
  then show ?thesis using s h by (auto simp: let_go_def list_all_iff)
qed

subsection \<open>After a shutdown\<close>

text \<open>How many processes were ever started, and whether the shutdown is over.\<close>

definition extent :: "pool \<Rightarrow> nat \<times> bool" where
  "extent p = (length (po_clients p), po_done p)"

lemma extent_basic [simp]:
  "extent (set_client i f p) = extent p" "extent (move_caller t pc p) = extent p" "extent (retire_entry i p) = extent p"
  "extent (unregister k i p) = extent p" "extent (snd (noteRestart opt k now p)) = extent p" "extent (schedule_stop i p) = extent p"
  "extent (mark_faulty i p) = extent p" "extent (bump_attempt t p) = extent p" "extent (end_startup nc p) = extent p"
  "extent (release_hold now i p) = extent p"
  "extent (p\<lparr>po_threads := ths\<rparr>) = extent p" "extent (p\<lparr>po_spawning := s\<rparr>) = extent p" "extent (p\<lparr>po_workers := w\<rparr>) = extent p"
  "extent (p\<lparr>po_retiring := r\<rparr>) = extent p" "extent (p\<lparr>po_closed := b\<rparr>) = extent p" "extent (p\<lparr>po_drained := b\<rparr>) = extent p"
  "extent (p\<lparr>po_collected := c\<rparr>) = extent p"
  by (simp_all add: extent_def schedule_stop_def mark_faulty_def release_hold_def case_prod_beta Let_def noteRestart_def)

lemma extent_composed [simp]:
  "extent (get_pass opt now c t p) = extent p" "extent (mark_retired t i p) = extent p" "extent (detach_client opt now i p) = extent p"
  "extent (retry_caller t p) = extent p" "extent (refuse_startup t e nc p) = extent p" "extent (accept_startup now t k i p) = extent p"
  by (auto simp: get_pass_def Let_def mark_retired_def detach_client_def retry_caller_def refuse_startup_def accept_startup_def split: option.split)

lemma extent_rest [simp]:
  "extent (finish_spawn opt now a c t nc p) = extent p" "extent (reap_idle opt now ws p) = extent p" "extent (sweep_pool p) = extent p"
proof -
  show "extent (finish_spawn opt now a c t nc p) = extent p"
    by (auto simp: finish_spawn_def Let_def case_prod_beta split: option.split)
  show "extent (reap_idle opt now ws p) = extent p" by (induction opt now ws p rule: reap_idle.induct) auto
  have "extent (foldl (\<lambda>p i. mark_faulty i p) p is) = extent p" for "is" p by (induction "is" arbitrary: p) simp_all
  then show "extent (sweep_pool p) = extent p" by (simp add: sweep_pool_def Let_def)
qed

lemma step_extent:
  assumes inv: "pool_inv opt p" and d: "po_done p"
  shows "extent (pool_step opt p ev) = extent p"
proof -
  have dr: "po_drained p" using poolD(8) [OF inv] d by (simp add: closing_ok_def)
  have "\<not> (t < length (po_threads p) \<and> caller_at p t = AtSpawn None)" for t
    using spawning_drained [OF inv, of t] dr by (auto simp: spawning_at_def)
  moreover have "extent (p\<lparr>po_done := True\<rparr>) = extent p" using d by (simp add: extent_def)
  ultimately show ?thesis by (auto simp: pool_step_def Let_def split: pool_event.split tpc.split option.split)
qed

lemma done_stays: "pool_inv opt p \<Longrightarrow> po_done p \<Longrightarrow> extent (foldl (pool_step opt) p evs) = extent p"
proof (induction evs arbitrary: p)
  case (Cons ev evs)
  have e: "extent (pool_step opt p ev) = extent p" by (rule step_extent [OF Cons(2,3)])
  then have "po_done (pool_step opt p ev)" using Cons(3) by (simp add: extent_def)
  then show ?case using Cons(1) [OF pool_step_inv [OF Cons(2)]] e by simp
qed simp

text \<open>
  C19: once \<open>Shutdown\<close> reports that it is over, every worker process there ever was has exited, and no
  sequence of events that follows (late requests, startups that were under way, failing calls) starts another.
\<close>

theorem shutdown_leaves_nothing:
  assumes "po_done (pool_run o1 evs)"
  shows "list_all pc_exited (po_clients (pool_run o1 (evs @ later))) \<and>
    length (po_clients (pool_run o1 (evs @ later))) = length (po_clients (pool_run o1 evs))"
proof -
  let ?q = "pool_run o1 (evs @ later)"
  have e: "extent ?q = extent (pool_run o1 evs)"
    using done_stays [OF run_pool_inv [of o1 evs] assms, of later] by (simp add: pool_run_def)
  then have "po_done ?q" using assms by (simp add: extent_def)
  then have "list_all pc_exited (po_clients ?q)"
    using poolD(8) [OF run_pool_inv [of o1 "evs @ later"]] by (auto simp: closing_ok_def list_all_length)
  then show ?thesis using e by (simp add: extent_def)
qed

subsection \<open>Crash loops\<close>

text \<open>Restarts of one key at the times of a list, one after another.\<close>

definition restarts :: "pool_options \<Rightarrow> string \<Rightarrow> time list \<Rightarrow> pool \<Rightarrow> pool" where
  "restarts opt key ts p = foldl (\<lambda>p now. snd (noteRestart opt key now p)) p ts"

definition budget_times :: "pool \<Rightarrow> string \<Rightarrow> time list" where
  "budget_times p key = (case tget (po_budgets p) key of None \<Rightarrow> [] | Some b \<Rightarrow> rb_times b)"

lemma note_times: "budget_times (snd (noteRestart opt key now p)) key = filter (\<lambda>t. t > now - op_RestartWindow opt) (budget_times p key) @ [now]"
  by (simp add: noteRestart_def Let_def budget_times_def split: option.split)

lemma restarts_keep:
  "\<forall>t \<in> set ts. \<forall>u \<in> set ts. u - op_RestartWindow opt < t \<Longrightarrow> \<exists>old. budget_times (restarts opt key ts p) key = old @ ts"
proof (induction ts rule: rev_induct)
  case (snoc now ts)
  then obtain old where old: "budget_times (restarts opt key ts p) key = old @ ts" by auto
  have "filter (\<lambda>t. now - op_RestartWindow opt < t) ts = ts" using snoc(2) by (simp add: filter_id_conv)
  then show ?case using note_times [of opt key now "restarts opt key ts p"] old by (simp add: restarts_def)
qed (simp add: restarts_def)

lemma restarts_frame:
  "po_workers (restarts opt key ts p) = po_workers p \<and> po_spawning (restarts opt key ts p) = po_spawning p \<and>
   po_closed (restarts opt key ts p) = po_closed p \<and> po_threads (restarts opt key ts p) = po_threads p"
  by (induction ts rule: rev_induct) (simp_all add: restarts_def)

lemma restarts_block:
  assumes "ts \<noteq> []" "\<forall>t \<in> set ts. \<forall>u \<in> set ts. u - op_RestartWindow opt < t" "op_RestartBudget opt < int (length ts)"
    and "now < last ts + op_RestartCooldown opt"
  shows "key_blocked now key (restarts opt key ts p)"
proof -
  obtain ts' l where ts: "ts = ts' @ [l]" using assms(1) by (metis append_butlast_last_id)
  let ?q = "restarts opt key ts' p"
  have r: "restarts opt key ts p = snd (noteRestart opt key l ?q)" by (simp add: restarts_def ts)
  obtain old where "budget_times (restarts opt key ts p) key = old @ ts" using restarts_keep [OF assms(2)] by blast
  then have "filter (\<lambda>t. t > l - op_RestartWindow opt) (budget_times ?q key) @ [l] = old @ ts" unfolding r note_times .
  then have "op_RestartBudget opt < int (length (filter (\<lambda>t. t > l - op_RestartWindow opt) (budget_times ?q key) @ [l]))"
    using assms(3) by simp
  moreover have "now < l + op_RestartCooldown opt" using assms(4) by (simp add: ts)
  ultimately show ?thesis
    unfolding r by (simp add: noteRestart_def Let_def key_blocked_def budget_times_def before_deadline_def split: option.splits)
qed

text \<open>
  a key whose process was replaced more often than the restart budget allows within one window is refused,
  without a process being started for it, until the cooldown counted from the last of these restarts is over.
\<close>

theorem crash_loop_refused:
  assumes "ts \<noteq> []" "\<forall>s \<in> set ts. \<forall>u \<in> set ts. u - op_RestartWindow opt < s" "op_RestartBudget opt < int (length ts)"
    "now < last ts + op_RestartCooldown opt"
    and "\<not> po_closed p" "tget (po_workers p) (caller_key p t) = None" "tget (po_spawning p) (caller_key p t) = None"
  shows "get_pass opt now False t (restarts opt (caller_key p t) ts p)
    = move_caller t (Gone (Some PUnavailable)) (restarts opt (caller_key p t) ts p)"
proof -
  let ?q = "restarts opt (caller_key p t) ts p"
  note f = restarts_frame [of opt "caller_key p t" ts p]
  have k: "caller_key ?q t = caller_key p t" using f by (simp add: caller_key_def)
  show ?thesis
    using restarts_block [OF assms(1-4), of "caller_key p t" p] assms(5-7) f k by (simp add: get_pass_def Let_def)
qed

text \<open>
  The worker of root mode has the key \<open>root\<close> whoever the administrator is, but its credentials are compared with
  the administrator's own uid, gid and groups: an administrator's request retires the worker another one is using.
\<close>

lemma root_worker_not_shared:
  assumes "pr_Root (pt_who (po_threads p ! t))" "tget (po_workers p) ''root'' = Some i" "\<not> pc_dead (po_clients p ! i)"
    "pc_cred (po_clients p ! i) = credsOf a" "pr_UID a \<noteq> pr_UID (pt_who (po_threads p ! t))" "\<not> po_closed p"
  shows "tget (po_workers (get_pass opt now False t p)) ''root'' = None \<and> i \<in> set (po_retiring (get_pass opt now False t p))"
proof -
  have "caller_key p t = ''root''" using assms(1) by (simp add: caller_key_def principal_key_def)
  moreover have "credsOf a \<noteq> credsOf (pt_who (po_threads p ! t))" using assms(5) by (auto simp: credsOf_def)
  ultimately show ?thesis using assms by (simp add: get_pass_def Let_def)
qed

subsection \<open>Witnesses\<close>

definition sample_options :: pool_options where
  "sample_options = \<lparr>op_Max = 2, op_IdleTimeout = 0, op_RestartBudget = 1, op_RestartWindow = 0, op_RestartCooldown = 0, op_process = True\<rparr>"

definition sample_caller :: principal where
  "sample_caller = \<lparr>pr_User = ''ann'', pr_UID = 1001, pr_GID = 100, pr_Groups = [100, 7, 100], pr_Root = False\<rparr>"

definition sample_start :: "pool_event list" where
  "sample_start = [Wants sample_caller, Passes 0 0 False, Starts 0 1001, Spawned 0 5 True False]"

lemmas sample_pool_defs = sample_options_def sample_caller_def sample_start_def

definition sample_end :: "pool_event list" where
  "sample_end = sample_start @ [Releases 0 9, ShutsDown, Sweeps, Terminates 0, Exits 0, Sweeps, Completes]"

lemma sample_holds:
  "caller_at (pool_run sample_options sample_start) 0 = Has 0 \<and> length (po_threads (pool_run sample_options sample_start)) = 1
   \<and> \<not> pt_cancel (po_threads (pool_run sample_options sample_start) ! 0)"
  by code_simp

theorem worker_is_the_callers_witness:
  "pc_cred (po_clients (pool_run sample_options sample_start) ! 0) = credsOf sample_caller"
proof -
  have "pt_who (po_threads (pool_run sample_options sample_start) ! 0) = sample_caller" by code_simp
  then show ?thesis
    using worker_is_the_callers [of _ sample_options sample_start 0 0, OF refl] sample_holds by (simp add: holds_at_def)
qed

theorem accepted_calls_finish_witness:
  "pc_inflight (po_clients (pool_run sample_options (sample_start @ [Releases 0 9, Reaps (10 ^ 13)])) ! 0) = 0 \<and>
   (let q = pool_run sample_options ((sample_start @ [Releases 0 9, Reaps (10 ^ 13)]) @
        [Wants sample_caller, Passes 1 (10 ^ 13) False, Starts 1 1001, Spawned 1 (10 ^ 13) True False])
    in caller_at q 1 = Has 1 \<and> list_all (\<lambda>th. \<not> holds_at 0 (pt_pc th)) (po_threads q))"
proof -
  let ?evs = "sample_start @ [Releases 0 9, Reaps (10 ^ 13)]"
  let ?p = "pool_run sample_options ?evs"
  have "0 < length (po_clients ?p) \<and> pc_stop (po_clients ?p ! 0) \<and> \<not> pc_faulty (po_clients ?p ! 0)" by code_simp
  moreover have "caller_at (pool_run sample_options (?evs @
      [Wants sample_caller, Passes 1 (10 ^ 13) False, Starts 1 1001, Spawned 1 (10 ^ 13) True False])) 1 = Has 1" by code_simp
  ultimately show ?thesis using accepted_calls_finish [of ?p sample_options ?evs 0, OF refl] by (simp add: Let_def)
qed

theorem shutdown_leaves_nothing_witness:
  "length (po_clients (pool_run sample_options (sample_end @ [Wants sample_caller, Passes 1 0 False, Starts 1 1001]))) = 1"
proof -
  have "po_done (pool_run sample_options sample_end) \<and> length (po_clients (pool_run sample_options sample_end)) = 1" by code_simp
  then show ?thesis using shutdown_leaves_nothing [of sample_options sample_end] by simp
qed

theorem crash_loop_refused_witness:
  "caller_at (get_pass (normalise_pool sample_options) 7 False 0
     (restarts (normalise_pool sample_options) ''uid:1001'' [1, 2] (pool_run sample_options [Wants sample_caller]))) 0 = Gone (Some PUnavailable)"
proof -
  let ?p = "pool_run sample_options [Wants sample_caller]"
  have k: "caller_key ?p 0 = ''uid:1001'' \<and> \<not> po_closed ?p \<and> po_workers ?p = [] \<and> po_spawning ?p = [] \<and> length (po_threads ?p) = 1" by code_simp
  have o: "op_RestartWindow (normalise_pool sample_options) = 60000000000 \<and> op_RestartBudget (normalise_pool sample_options) = 1
    \<and> op_RestartCooldown (normalise_pool sample_options) = 60000000000" by code_simp
  have l: "length (po_threads (restarts (normalise_pool sample_options) ''uid:1001'' [1, 2] ?p)) = 1" using restarts_frame k by metis
  show ?thesis
    using crash_loop_refused [of "[1, 2]" "normalise_pool sample_options" 7 ?p 0] k o l by (simp add: tget_def)
qed

end
