(* ===== verification/Job_Routes.thy ===== *)
theory Job_Routes
  imports Mutations Jobs
begin

section \<open>Jobs at the HTTP routes (internal/web/routes_jobs.go)\<close>

text \<open>
  Recursive delete, folder size, the job list, cancellation, and what every job shares: the check that is
  repeated when a queued job starts, the mapping of the worker's paths back into the caller's spelling, and the
  result line the manager's hook writes. A route runs on the \<open>server\<close> of the mutation routes; the work function
  and the hook of a job run later, on whatever trail there is by then.
\<close>

subsection \<open>What a job asks of its surroundings\<close>

record job_result =
  jr_Files :: int
  jr_Dirs :: int
  jr_Bytes :: int
  jr_Skipped :: int
  jr_Warnings :: nat
  jr_Detail :: string
  jr_TrashIDs :: "string list"
  jr_MountsSkipped :: int
  jr_MountsNetwork :: int
  jr_HiddenSkipped :: int
  jr_Capped :: bool
  jr_Cancelled :: bool

record trash_item =
  ti_ID :: string
  ti_OrigPath :: string
  ti_Size :: int
  ti_DeletedAt :: int

datatype trash_answer = NoTrash | EnsureFailed | Ensured string bool

record job_env = env +
  je_jobs :: bool
  je_trash :: bool
  je_id :: "trail \<Rightarrow> string option"
  je_submit :: "trail \<Rightarrow> job_plan \<Rightarrow> submit_error option"
  je_runner :: "trail \<Rightarrow> job_plan \<Rightarrow> job_result \<times> error option"
  je_budget :: "trail \<Rightarrow> nat \<Rightarrow> bool"
  je_os :: "string \<Rightarrow> string option"
  je_trashRoot :: "string \<Rightarrow> string option"
  je_ensure :: "trail \<Rightarrow> string \<Rightarrow> trash_answer"
  je_trashList :: "trail \<Rightarrow> trash_item list option"
  je_now :: "trail \<Rightarrow> time"

abbreviation base_env :: "job_env \<Rightarrow> env" where
  "base_env e \<equiv> env.truncate e"

subsection \<open>Small things\<close>

definition permanentWarning :: string where "permanentWarning = ''This delete is permanent and cannot be undone.''"
definition trashGradeRoots :: nat where "trashGradeRoots = 100"
definition maxJobRoots :: nat where "maxJobRoots = 1000"
definition milestoneFiles :: int where "milestoneFiles = 100"
definition milestoneBytes :: int where "milestoneBytes = 2 ^ 30"
definition sizeJobMaxEntries :: int where "sizeJobMaxEntries = 10000000"
definition sizeJobMaxDuration :: time where "sizeJobMaxDuration = 10 * 60 * 10 ^ 9"

definition format_bool :: "bool \<Rightarrow> string" where
  "format_bool b = (if b then ''true'' else ''false'')"

definition jobPath :: "string \<Rightarrow> (string \<times> string) option" where
  "jobPath p =
     (let pre = ''/api/jobs/''
      in if \<not> has_prefix p pre \<or> p = pre then None
         else let rest = drop (length pre) p;
                  (rest, action) = (if has_suffix rest ''/cancel'' then (take (length rest - 7) rest, ''cancel'') else (rest, ''''))
              in if ValidID rest then Some (rest, action) else None)"

text \<open>\<open>clipUTF8\<close>: never in the middle of a character; the ellipsis is three bytes.\<close>

definition RuneStart :: "char \<Rightarrow> bool" where
  "RuneStart c \<longleftrightarrow> \<not> in_range 128 191 c"

fun back_to_rune :: "string \<Rightarrow> nat \<Rightarrow> nat" where
  "back_to_rune s 0 = 0"
| "back_to_rune s (Suc n) = (if RuneStart (s ! Suc n) then Suc n else back_to_rune s n)"

definition ellipsis :: string where "ellipsis = [CHR 0xE2, CHR 0x80, CHR 0xA6]"

definition clipUTF8 :: "string \<Rightarrow> nat \<Rightarrow> string" where
  "clipUTF8 s n =
     (if length s \<le> n then s
      else if n \<le> length ellipsis then []
      else take (back_to_rune s (n - length ellipsis)) s @ ellipsis)"

subsection \<open>Requested and resolved roots\<close>

definition trim_suffix_slash :: "string \<Rightarrow> string" where
  "trim_suffix_slash s = (if has_suffix s ''/'' then butlast s else s)"

definition underRoot :: "string \<Rightarrow> string \<Rightarrow> bool" where
  "underRoot p r = (if r = [] then False else p = r \<or> has_prefix p (trim_suffix_slash r @ ''/''))"

fun better_root :: "string \<Rightarrow> (string \<times> string) option \<Rightarrow> string \<times> string \<Rightarrow> (string \<times> string) option" where
  "better_root p best (req, res) =
     (if \<not> underRoot p res then best
      else case best of None \<Rightarrow> Some (req, res) | Some (_, b) \<Rightarrow> if length res > length b then Some (req, res) else best)"

definition best_root :: "string \<Rightarrow> (string \<times> string) list \<Rightarrow> (string \<times> string) option" where
  "best_root p rs = foldl (better_root p) None rs"

definition mapPath :: "string list \<Rightarrow> string list \<Rightarrow> string \<Rightarrow> string" where
  "mapPath requested resolved p =
     (if p = [] then []
      else case best_root p (zip requested resolved) of
        None \<Rightarrow> (case requested of [] \<Rightarrow> [] | r # _ \<Rightarrow> r)
      | Some (req, res) \<Rightarrow> if p = res then req else Join req [drop (length (trim_suffix_slash res) + 1) p])"

subsection \<open>What is published about one item\<close>

definition maxModeWarnBytes :: nat where "maxModeWarnBytes = 240"

definition modeWarnFallback :: string where
  "modeWarnFallback = ''The kernel did not apply this item's change exactly as asked.''"

definition modeWarnMessage :: "string \<Rightarrow> string" where
  "modeWarnMessage raw =
     (if raw = [] \<or> CHR ''/'' \<in> set raw \<or> CHR 0x5C \<in> set raw then modeWarnFallback else clipUTF8 raw maxModeWarnBytes)"

definition isModeJob :: "string \<Rightarrow> bool" where
  "isModeJob op1 \<longleftrightarrow> op1 = ''chmod'' \<or> op1 = ''chown''"

text \<open>\<open>warnSink\<close>: the path, the code, and the worker's sentence only where it is the answer.\<close>

definition warn_published :: "job_plan \<Rightarrow> string \<Rightarrow> string \<Rightarrow> string \<Rightarrow> string \<times> string \<times> string option" where
  "warn_published jp path code msg =
     (mapPath (jp_requested jp) (jp_resolved jp) path, code,
      if isModeJob (jp_op jp) \<and> code = ''unchanged'' then Some (modeWarnMessage msg) else None)"

subsection \<open>The check when a queued job starts\<close>

fun recheck_loop :: "guard \<Rightarrow> (op \<times> string) list \<Rightarrow> string option" where
  "recheck_loop g [] = None"
| "recheck_loop g ((op1, p) # cs) =
     (case Check g op1 p of
        None \<Rightarrow> recheck_loop g cs
      | Some (s, why) \<Rightarrow>
          if s = ErrConfirmRequired then recheck_loop g cs
          else if s = ErrReadOnly then Some ''read_only''
          else if s = ErrProtected then Some ''protected''
          else Some (Code (Some [Own s])))"

definition flat_checks :: "(op \<times> string list) list \<Rightarrow> (op \<times> string) list" where
  "flat_checks cs = concat (map (\<lambda>(op1, ps). map (\<lambda>p. (op1, p)) ps) cs)"

definition recheckGuard :: "guard \<Rightarrow> (op \<times> string list) list \<Rightarrow> string option" where
  "recheckGuard g cs = (if readOnly g then Some ''read_only'' else recheck_loop g (flat_checks cs))"

definition guardRefuses :: "refusal \<Rightarrow> bool" where
  "guardRefuses err \<longleftrightarrow> err \<noteq> None \<and> fst (the err) \<noteq> ErrConfirmRequired"

subsection \<open>The work function and the result line\<close>

definition viewOf :: "job_result \<Rightarrow> job_result" where
  "viewOf res = res\<lparr>jr_TrashIDs := [], jr_Cancelled := False\<rparr>"

definition trashIDsFor :: "job_env \<Rightarrow> string list \<Rightarrow> time \<Rightarrow> server \<Rightarrow> string list" where
  "trashIDsFor e paths started st =
     (case je_trashList e (srv_trail st) of
        None \<Rightarrow> []
      | Some items \<Rightarrow>
          let cutoff = (started - 10 ^ 9) div 10 ^ 9
          in map ti_ID (filter (\<lambda>it. ti_DeletedAt it \<ge> cutoff \<and> ti_OrigPath it \<in> set paths) items))"

text \<open>
  What the manager is given back: the view, if the worker was asked, and the published error code.
\<close>

definition run_plan :: "job_env \<Rightarrow> job_plan \<Rightarrow> server \<Rightarrow> (job_result \<times> string option) \<times> server" where
  "run_plan e jp st =
     (case je_runner e (srv_trail st) jp of
        (res, err) \<Rightarrow> ((res, map_option (\<lambda>x. Code (Some x)) err), emit (Ran jp) st))"

definition delete_view :: "job_env \<Rightarrow> job_plan \<Rightarrow> time \<Rightarrow> job_result \<Rightarrow> string option \<Rightarrow> server \<Rightarrow> job_result" where
  "delete_view e jp started res err st =
     (let ids = (if jr_TrashIDs res = [] \<and> err = None \<and> jr_Files res + jr_Dirs res > 0
                 then trashIDsFor e (jp_requested jp) started st else jr_TrashIDs res)
      in (viewOf res)\<lparr>jr_TrashIDs := ids\<rparr>)"

text \<open>A recursive delete is checked again when it leaves the queue; a measurement is not, in read-only mode either.\<close>

definition stopped_work :: "string \<Rightarrow> server \<Rightarrow> (job_result option \<times> string option) \<times> server" where
  "stopped_work code st = ((None, Some code), st)"

definition delete_work :: "job_env \<Rightarrow> job_plan \<Rightarrow> bool \<Rightarrow> time \<Rightarrow> server \<Rightarrow> (job_result option \<times> string option) \<times> server" where
  "delete_work e jp permanent started st =
     (case recheckGuard (guard_now (base_env e) st) (jp_checks jp) of
        Some code \<Rightarrow> stopped_work code st
      | None \<Rightarrow>
          case run_plan e jp st of
            ((res, err), st1) \<Rightarrow>
              ((Some (if permanent then viewOf res else delete_view e jp started res err st1), err), st1))"

definition measure_work :: "job_env \<Rightarrow> job_plan \<Rightarrow> server \<Rightarrow> (job_result option \<times> string option) \<times> server" where
  "measure_work e jp st = (case run_plan e jp st of ((res, err), st1) \<Rightarrow> ((Some (viewOf res), err), st1))"

definition jobMilestone :: "bool \<Rightarrow> string \<Rightarrow> int \<Rightarrow> int \<Rightarrow> bool" where
  "jobMilestone force result files n \<longleftrightarrow> force \<or> result = ''denied'' \<or> files \<ge> milestoneFiles \<or> n \<ge> milestoneBytes"

definition denial_codes :: "string list" where
  "denial_codes = [''read_only'', ''readonly'', ''protected'', ''confirm_required'', ''confirm_invalid'']"

definition jobFinishOutcome :: "job \<Rightarrow> nat \<Rightarrow> int \<Rightarrow> string \<times> string" where
  "jobFinishOutcome j warnings skipped =
     (if j_State j = StateCancelled then (''cancelled'', Code (Some [CtxCanceled]))
      else if j_State j = StateFailed then
        (let code = (if j_ErrCode j = [] then ''internal'' else j_ErrCode j)
         in if code \<in> set denial_codes then (''denied'', code) else (''error'', code))
      else if warnings > 0 \<or> skipped > 0 then (''partial'', '''') else (''ok'', ''''))"

text \<open>The counts of the result line: the worker's own when its view reads back, else the manager's.\<close>

definition finish_counts :: "job \<Rightarrow> job_result option \<Rightarrow> int \<times> int \<times> nat \<times> int" where
  "finish_counts j view =
     (case view of
        None \<Rightarrow> (j_Files j, j_Bytes j, j_WarningCount j, 0)
      | Some v \<Rightarrow> (jr_Files v, jr_Bytes v, max (j_WarningCount j) (jr_Warnings v), jr_Skipped v))"

definition finish_detail :: "job \<Rightarrow> string \<Rightarrow> string \<times> string \<Rightarrow> int \<times> int \<times> nat \<times> int \<Rightarrow> string" where
  "finish_detail j detail verdict counts =
     (case (verdict, counts) of ((result, code), (files, n, warnings, skipped)) \<Rightarrow>
        detail @ '': '' @ itoa files @ '' item(s), '' @ itoa n @ '' byte(s)''
        @ (if warnings > 0 then '', '' @ itoa (int warnings) @ '' warning(s)'' else '''')
        @ (if skipped > 0 then '', '' @ itoa skipped @ '' skipped'' else '''')
        @ (if result = ''cancelled'' then
             (if j_Partial j then ''; cancelled, partial work remains and was not rolled back''
              else ''; cancelled before it started, nothing was changed'')
           else if result = ''denied'' \<or> result = ''error'' then ''; '' @ code else ''''))"

definition jobAudit :: "job_env \<Rightarrow> audit_line \<Rightarrow> server \<Rightarrow> server" where
  "jobAudit e ev st =
     (if \<not> env_auditor e then st
      else if al_ForceMilestone ev \<or> al_Phase ev = ''intent'' then emit (Durable ev (env_saves e (srv_trail st))) st
      else emit (Async ev) st)"

definition auditJobFinish :: "job_env \<Rightarrow> who \<Rightarrow> job_plan \<Rightarrow> job \<Rightarrow> job_result option \<Rightarrow> server \<Rightarrow> server" where
  "auditJobFinish e actor jp j view st =
     (case finish_counts j view of (files, n, warnings, skipped) \<Rightarrow>
        case jobFinishOutcome j warnings skipped of (result, code) \<Rightarrow>
          jobAudit e
            \<lparr>al_who = actor,
             al_mut = \<lparr>mut_op = jp_op jp, mut_path = jp_path jp, mut_dst = [], mut_files = files, mut_bytes = n\<rparr>,
             al_Phase = ''result'', al_Result = result, al_Code = code,
             al_ForceMilestone = jobMilestone (jp_milestone jp) result files n,
             al_Detail = finish_detail j (jp_detail jp) (result, code) (files, n, warnings, skipped), al_Job = jp_id jp\<rparr> st)"

subsection \<open>Submitting\<close>

definition submit_code :: "submit_error \<Rightarrow> string" where
  "submit_code x = (case x of ErrClosed \<Rightarrow> ''worker_gone'' | QueueFull n c \<Rightarrow> Code (Some [Own ErrQueueFull]) | _ \<Rightarrow> ''internal'')"

definition failJobSubmit :: "job_env \<Rightarrow> who \<Rightarrow> mutation \<Rightarrow> string \<Rightarrow> submit_error \<Rightarrow> server \<Rightarrow> server" where
  "failJobSubmit e w m i x st =
     (let code = submit_code x;
          detail = (if i = [] then [] else ''job '' @ i @ '': not started ('' @ code @ '')'')
      in say (RError (statusCode code) code) (snd (writeAuditDetail (base_env e) w m ''result'' ''error'' code detail False st)))"

definition submit_plan :: "job_env \<Rightarrow> who \<Rightarrow> mutation \<Rightarrow> job_plan \<Rightarrow> server \<Rightarrow> server" where
  "submit_plan e w m jp st =
     (case je_submit e (srv_trail st) jp of
        Some x \<Rightarrow> failJobSubmit e w m (jp_id jp) x st
      | None \<Rightarrow> say (RJob (jp_id jp)) (emit (Submitted jp) st))"

definition internal_error :: "server \<Rightarrow> server" where
  "internal_error st = say (RError (statusCode ''internal'') ''internal'') st"

text \<open>The tail every mutating job route shares: an id, the durable intent line that names it, the submission.\<close>

definition intend_submit :: "job_env \<Rightarrow> who \<Rightarrow> mutation \<Rightarrow> bool \<Rightarrow> (string \<Rightarrow> string) \<Rightarrow> (string \<Rightarrow> job_plan) \<Rightarrow> server \<Rightarrow> server" where
  "intend_submit e w m big detail plan st =
     (case je_id e (srv_trail st) of
        None \<Rightarrow> internal_error st
      | Some i \<Rightarrow>
          (case auditIntent (base_env e) w m big (detail i) st of
             (go, st1) \<Rightarrow> if go then submit_plan e w m (plan i) st1 else st1))"

definition jobPaths :: "(string \<times> string) list \<Rightarrow> string list option" where
  "jobPaths refs = (if refs = [] \<or> length refs > maxJobRoots then None else body_paths refs)"

fun resolve_all :: "env \<Rightarrow> trail \<Rightarrow> bool \<Rightarrow> string list \<Rightarrow> error + string list" where
  "resolve_all env tr follow [] = Inr []"
| "resolve_all env tr follow (p # ps) =
     (case env_resolve env tr p follow of
        Inl e \<Rightarrow> Inl e
      | Inr q \<Rightarrow> (case resolve_all env tr follow ps of Inl e \<Rightarrow> Inl e | Inr qs \<Rightarrow> Inr (q # qs)))"

definition audit_name :: "string \<Rightarrow> string" where
  "audit_name p = (if utf8_valid p then p else ''b64:'' @ b64_encode p)"

fun comma_list :: "string list \<Rightarrow> string" where
  "comma_list [] = []"
| "comma_list [p] = p"
| "comma_list (p # q # ps) = p @ '', '' @ comma_list (q # ps)"

definition jobIntentDetail :: "string \<Rightarrow> string \<Rightarrow> string list \<Rightarrow> string" where
  "jobIntentDetail i what paths =
     ''job '' @ i @ '': '' @ what @ '', '' @ itoa (int (length paths)) @ '' root(s): ''
     @ comma_list (map audit_name (take 20 paths))
     @ (if length paths > 20 then '', and '' @ itoa (int (length paths - 20)) @ '' more'' else [])"

definition result_detail :: "string \<Rightarrow> string \<Rightarrow> nat \<Rightarrow> string" where
  "result_detail i what n = ''job '' @ i @ '': '' @ what @ '', '' @ itoa (int n) @ '' root(s)''"

subsection \<open>Recursive delete\<close>

record job_delete_body =
  jd_Paths :: "(string \<times> string) list"
  jd_Mode :: string
  jd_CrossMounts :: bool
  jd_Confirm :: string

definition deleteJobTokenParts :: "string \<Rightarrow> bool \<Rightarrow> string list \<Rightarrow> string list" where
  "deleteJobTokenParts mode cross paths =
     [''job=delete'', ''mode='' @ mode, ''cross='' @ format_bool cross] @ sort paths"

text \<open>\<open>ensureTrashRoots\<close>: the trash directory of every distinct trash root the selection touches.\<close>

definition trash_made :: "job_env \<Rightarrow> who \<Rightarrow> string \<Rightarrow> server \<Rightarrow> bool \<times> server" where
  "trash_made e w dir st =
     writeAuditDetail (base_env e) w \<lparr>mut_op = ''trash-root'', mut_path = dir, mut_dst = [], mut_files = 0, mut_bytes = 0\<rparr>
       ''result'' ''ok'' [] (''created the trash directory '' @ dir) True (emit (MadeTrash dir) st)"

fun ensure_loop :: "job_env \<Rightarrow> who \<Rightarrow> (string \<times> string) list \<Rightarrow> string list \<Rightarrow> server \<Rightarrow> bool \<times> server" where
  "ensure_loop e w [] done1 st = (True, st)"
| "ensure_loop e w ((req, p) # rs) done1 st =
     (case je_os e p of
        None \<Rightarrow> (False, internal_error st)
      | Some osPath \<Rightarrow>
          let r = je_trashRoot e osPath
          in if r \<noteq> None \<and> List.member done1 (the r) then ensure_loop e w rs done1 st
             else let done2 = (case r of None \<Rightarrow> done1 | Some x \<Rightarrow> x # done1)
                  in case je_ensure e (srv_trail st) osPath of
                    NoTrash \<Rightarrow> (False, say (RError 409 ''no_trash'') st)
                  | EnsureFailed \<Rightarrow> (False, internal_error st)
                  | Ensured dir made \<Rightarrow>
                      if \<not> made then ensure_loop e w rs done2 st
                      else (case trash_made e w dir st of
                        (refused, st1) \<Rightarrow>
                          if refused then (False, say (RError 500 ''audit_unavailable'') st1) else ensure_loop e w rs done2 st1))"

definition ensureTrashRoots :: "job_env \<Rightarrow> who \<Rightarrow> string list \<Rightarrow> string list \<Rightarrow> server \<Rightarrow> bool \<times> server" where
  "ensureTrashRoots e w requested resolved st = ensure_loop e w (zip requested resolved) [] st"

definition delete_job_warnings :: "guard \<Rightarrow> bool \<Rightarrow> (string \<times> string) list \<Rightarrow> string list" where
  "delete_job_warnings g permanent roots =
     (let w1 = foldl add_reason [] (filter (\<lambda>r. r \<noteq> []) (concat (map (\<lambda>(p, q). deleteWarnings g p q False 0 0) roots)));
          w2 = (if permanent \<and> permanentWarning \<notin> set w1 then w1 @ [permanentWarning] else w1)
      in if length roots > trashGradeRoots then w2 @ [itoa (int (length roots)) @ '' items are selected.''] else w2)"

text \<open>The sizes the pre-flight had the time to ask for.\<close>

definition measured_bytes :: "job_env \<Rightarrow> server \<Rightarrow> string list \<Rightarrow> int" where
  "measured_bytes e st paths =
     add_int64 (map (\<lambda>(i, p). if je_budget e (srv_trail st) i then (case env_stat e (srv_trail st) p of None \<Rightarrow> 0 | Some n \<Rightarrow> n) else 0)
       (enumerate 0 paths))"

definition delete_plan :: "job_delete_body \<Rightarrow> string \<Rightarrow> string list \<Rightarrow> string list \<Rightarrow> bool \<Rightarrow> string \<Rightarrow> string \<Rightarrow> job_plan" where
  "delete_plan b mode paths resolved big modeDetail i =
     \<lparr>jp_id = i, jp_kind = ''delete'', jp_op = ''delete'', jp_body = BDelete resolved (mode \<noteq> ''permanent'') (jd_CrossMounts b),
      jp_requested = paths, jp_resolved = resolved, jp_checks = [(OpDelete, paths), (OpDelete, resolved)], jp_acl = None,
      jp_path = hd paths, jp_detail = result_detail i modeDetail (length paths), jp_milestone = big\<rparr>"

definition delete_verdict :: "guard \<Rightarrow> string list \<Rightarrow> string list \<Rightarrow> refusal" where
  "delete_verdict g paths resolved = worstGuard (concat (map (\<lambda>(p, q). delete_checks g p q) (zip paths resolved)))"

definition delete_confirmed :: "job_env \<Rightarrow> who \<Rightarrow> job_delete_body \<Rightarrow> string \<Rightarrow> string list \<Rightarrow> string list \<Rightarrow> int \<Rightarrow> server \<Rightarrow> server" where
  "delete_confirmed e w b mode paths resolved tot st =
     (let permanent = (mode = ''permanent''); n = int (length paths);
          m = \<lparr>mut_op = ''delete'', mut_path = hd paths, mut_dst = [], mut_files = n, mut_bytes = tot\<rparr>;
          big = (permanent \<or> n \<ge> milestoneFiles \<or> tot \<ge> milestoneBytes);
          modeDetail = mode @ (if jd_CrossMounts b then '', including mounted sub-folders'' else []);
          s = \<lparr>sum_Files = n, sum_Bytes = tot,
               sum_Warnings = delete_job_warnings (guard_now (base_env e) st) permanent (zip paths resolved), sum_Capped = False\<rparr>
      in case authorizeGraded (base_env e) w (delete_verdict (guard_now (base_env e) st) paths resolved) True m
            (deleteJobTokenParts mode (jd_CrossMounts b) paths) True (jd_Confirm b) s 0 st of
           (go, st1) \<Rightarrow>
             if \<not> go then st1
             else (case (if permanent then (True, st1) else ensureTrashRoots e w paths resolved st1) of
               (ok, st2) \<Rightarrow>
                 if \<not> ok then st2
                 else intend_submit e w m big (\<lambda>i. jobIntentDetail i modeDetail paths)
                   (delete_plan b mode paths resolved big modeDetail) st2))"

definition jobDelete :: "job_env \<Rightarrow> who \<Rightarrow> job_delete_body \<Rightarrow> server \<Rightarrow> server" where
  "jobDelete e w b st =
     (let mode = (if jd_Mode b = [] then ''trash'' else jd_Mode b)
      in if \<not> env_ready e \<or> \<not> je_jobs e then say (RError 500 ''internal'') st
         else if mode \<noteq> ''trash'' \<and> mode \<noteq> ''permanent'' then bad_request st
         else case jobPaths (jd_Paths b) of
           None \<Rightarrow> bad_request st
         | Some paths \<Rightarrow>
             case resolve_all (base_env e) (srv_trail st) False paths of
               Inl x \<Rightarrow> failResolve x st
             | Inr resolved \<Rightarrow>
                 if mode = ''trash'' \<and> \<not> je_trash e \<and> \<not> guardRefuses (delete_verdict (guard_now (base_env e) st) paths resolved)
                 then say (RError 409 ''no_trash'') st
                 else delete_confirmed e w b mode paths resolved (measured_bytes e st paths) st)"

subsection \<open>Folder size\<close>

record size_body =
  sz_Paths :: "(string \<times> string) list"
  sz_CrossMounts :: bool
  sz_ReadCross :: bool

fun first_refusal :: "guard \<Rightarrow> op \<Rightarrow> string list \<Rightarrow> sentinel option" where
  "first_refusal g op1 [] = None"
| "first_refusal g op1 (p # ps) = (case Check g op1 p of None \<Rightarrow> first_refusal g op1 ps | Some (s, why) \<Rightarrow> Some s)"

definition size_plan :: "size_body \<Rightarrow> string list \<Rightarrow> string \<Rightarrow> job_plan" where
  "size_plan b paths i =
     \<lparr>jp_id = i, jp_kind = ''size'', jp_op = ''size'',
      jp_body = BSize paths (sz_CrossMounts b) (sz_ReadCross b) sizeJobMaxEntries (sizeJobMaxDuration div 10 ^ 9),
      jp_requested = paths, jp_resolved = paths, jp_checks = [], jp_acl = None, jp_path = [], jp_detail = [], jp_milestone = False\<rparr>"

definition jobSize :: "job_env \<Rightarrow> who \<Rightarrow> size_body \<Rightarrow> server \<Rightarrow> server" where
  "jobSize e w b st =
     (if \<not> je_jobs e then say (RError 500 ''internal'') st
      else case jobPaths (sz_Paths b) of
        None \<Rightarrow> bad_request st
      | Some paths \<Rightarrow>
          case first_refusal (guard_now (base_env e) st) OpTraverse paths of
            Some s \<Rightarrow> let code = Code (Some [Own s]) in say (RError (statusCode code) code) st
          | None \<Rightarrow>
              case je_id e (srv_trail st) of
                None \<Rightarrow> internal_error st
              | Some i \<Rightarrow>
                  (case je_submit e (srv_trail st) (size_plan b paths i) of
                    None \<Rightarrow> say (RJob i) (emit (Measuring (size_plan b paths i)) st)
                  | Some x \<Rightarrow> failJobSubmit e w \<lparr>mut_op = ''size'', mut_path = [], mut_dst = [], mut_files = 0, mut_bytes = 0\<rparr> i x st))"

subsection \<open>Seeing and cancelling jobs\<close>

definition maySeeJob :: "who \<Rightarrow> job \<Rightarrow> bool" where
  "maySeeJob w j \<longleftrightarrow> who_Admin w \<or> (j_Actor j = who_User w \<and> j_UID j = int (who_UID w))"

definition jobList :: "who \<Rightarrow> manager \<Rightarrow> job list" where
  "jobList w m = filter (maySeeJob w) (List m)"

text \<open>\<open>jobGet\<close> before the admission of a large result: \<open>live\<close> is whether the search ledger still has it.\<close>

datatype get_reply = NoSuchJob | JobGone | JobFound job

definition jobGet :: "(job \<Rightarrow> bool) \<Rightarrow> who \<Rightarrow> string \<Rightarrow> manager \<Rightarrow> get_reply" where
  "jobGet live w i m =
     (case Get i m of None \<Rightarrow> NoSuchJob
      | Some j \<Rightarrow> if \<not> maySeeJob w j then NoSuchJob else if \<not> live j then JobGone else JobFound j)"

datatype cancel_reply = NotFound | CancelAnswer bool

text \<open>Whether the worker is told directly as well: only for the caller's own job.\<close>

definition own_job :: "who \<Rightarrow> job \<Rightarrow> bool" where
  "own_job w j \<longleftrightarrow> j_Actor j = who_User w \<and> j_UID j = int (who_UID w)"

definition jobCancel :: "job_env \<Rightarrow> who \<Rightarrow> string \<Rightarrow> manager \<Rightarrow> server \<Rightarrow> cancel_reply \<times> bool \<times> manager \<times> server" where
  "jobCancel e w i m st =
     (case Get i m of
        None \<Rightarrow> (NotFound, False, m, st)
      | Some j \<Rightarrow>
          if \<not> maySeeJob w j then (NotFound, False, m, st)
          else case Cancel i m of
            (cancelled, m1) \<Rightarrow>
              (CancelAnswer cancelled, own_job w j, m1,
               snd (writeAuditDetail (base_env e) w
                 \<lparr>mut_op = ''cancel'', mut_path = [], mut_dst = [], mut_files = 0, mut_bytes = 0\<rparr>
                 ''result'' ''ok'' [] (''cancel requested for job '' @ i) False st)))"

end
