(* ===== verification/Ladder.thy ===== *)
theory Ladder
  imports Job_Routes Platform
begin

section \<open>The confirmation ladder of a permissions change (internal/web/routes_perm.go)\<close>

text \<open>
  What a mode change would do to the ACLs it lands on, judged from the daemon's mount table and the worker's answer
  about the entry, and folded into a grade, the sentences shown, and the verdict the confirmation token binds. The
  table is a value of the mount table's own model, looked up at one moment; a nil platform is None.
\<close>

subsection \<open>Grades and sentences\<close>

definition gradeNone :: nat where "gradeNone = 0"
definition gradeConfirm :: nat where "gradeConfirm = 1"
definition gradeTyped :: nat where "gradeTyped = 2"

definition aclPosixMaskNotice :: string where
  "aclPosixMaskNotice = ''This item has a POSIX ACL. Changing the mode rewrites the ACL mask, so named users and groups may lose effective access. The ACL itself survives.''"

definition aclGroupmaskNotice :: string where
  "aclGroupmaskNotice = ''This dataset uses aclmode=groupmask, so the NFSv4 ACL will be silently reduced to the group bits of the mode you set.''"

definition aclPassthroughNotice :: string where
  "aclPassthroughNotice = ''This dataset uses aclmode=passthrough: the mode is set and the owner, group and everyone entries are regenerated. Other entries are kept.''"

definition aclRestrictedNotice :: string where
  "aclRestrictedNotice = ''This dataset uses aclmode=restricted, so the kernel may refuse this change outright. The result will say what happened.''"

definition aclDiscardFmt :: "string \<Rightarrow> string" where
  "aclDiscardFmt on1 = ''This item's real permissions are an NFSv4 ACL on '' @ on1
     @ ''. Changing the mode will DESTROY that ACL, and it cannot be restored from this app.''"

definition aclDiscardJobFmt :: "string \<Rightarrow> string" where
  "aclDiscardJobFmt on1 = ''This change reaches '' @ on1
     @ '' and will DESTROY the NFSv4 ACLs there. They cannot be restored from this app.''"

definition aclUnknownModeSuffix :: string where
  "aclUnknownModeSuffix = '' The dataset's aclmode could not be read, so it is treated as discard.''"

definition chownClearsNotice :: string where
  "chownClearsNotice = ''Changing the owner clears the setuid bit, and the setgid bit when the file is group-executable. The kernel does this and it cannot be kept.''"

definition setuidOutsideNormalNotice :: string where
  "setuidOutsideNormalNotice = ''This sets the setuid bit on an item outside ordinary storage. A setuid program runs with its owner's privileges.''"

definition recursiveScaleFmt :: "string \<Rightarrow> string" where
  "recursiveScaleFmt n = ''This applies to '' @ n @ '' and cannot be undone.''"

definition recursiveNoUndoNotice :: string where
  "recursiveNoUndoNotice = ''A permissions job cannot be undone, and cancelling one leaves the change half applied.''"

definition recursiveScaleItems :: int where "recursiveScaleItems = 500"
definition modeScanMaxEntries :: int where "modeScanMaxEntries = 500000"
definition maxNamedDatasets :: nat where "maxNamedDatasets = 3"

subsection \<open>Facts about one path\<close>

record acl_facts =
  af_backend :: string
  af_aclmode :: string
  af_dataset :: string
  af_altDataset :: string
  af_mount :: string
  af_state :: string
  af_storage :: bool
  af_unknown :: bool

definition blank_facts :: acl_facts where
  "blank_facts = \<lparr>af_backend = [], af_aclmode = [], af_dataset = [], af_altDataset = [], af_mount = [], af_state = [],
     af_storage = False, af_unknown = False\<rparr>"

definition facts_key :: "acl_facts \<Rightarrow> string" where
  "facts_key f = (if af_dataset f \<noteq> [] then ''dataset:'' @ af_dataset f else ''mount:'' @ af_mount f)"

definition verdictKey :: "acl_facts \<Rightarrow> string" where
  "verdictKey f = (if af_altDataset f = [] then facts_key f else facts_key f @ CHR 0x00 # ''alt:'' @ af_altDataset f)"

definition datasetNames :: "acl_facts \<Rightarrow> string list" where
  "datasetNames f = (if af_altDataset f = [] then [af_dataset f] else [af_dataset f, af_altDataset f])"

definition osPathFor :: "(string \<Rightarrow> string option) \<Rightarrow> string \<Rightarrow> string" where
  "osPathFor os p = (case os p of Some q \<Rightarrow> q | None \<Rightarrow> p)"

definition mountFacts :: "time \<Rightarrow> platform option \<Rightarrow> (string \<Rightarrow> string option) \<Rightarrow> string \<Rightarrow> acl_facts" where
  "mountFacts now pf os apiPath =
     (case pf of
        None \<Rightarrow> blank_facts
      | Some p \<Rightarrow>
          let osPath = osPathFor os apiPath
          in case ForLiteral now p osPath of
               None \<Rightarrow> blank_facts\<lparr>af_unknown := (pf_mounts p \<noteq> [])\<rparr>
             | Some c \<Rightarrow>
                 let f = blank_facts\<lparr>af_backend := fs_ACLBackend c, af_aclmode := fs_ZFSAclmode c, af_storage := fs_Storage c\<rparr>
                 in case MountForLiteral p osPath of
                      None \<Rightarrow> f
                    | Some m \<Rightarrow> f\<lparr>af_dataset := mt_Source m, af_mount := mt_MountPoint m\<rparr>)"

definition slashPath :: "string \<Rightarrow> string" where
  "slashPath p = map slash_char p"

definition child_facts :: "time \<Rightarrow> platform \<Rightarrow> mount \<Rightarrow> acl_facts" where
  "child_facts now p m =
     (let f = blank_facts\<lparr>af_dataset := mt_Source m, af_mount := mt_MountPoint m, af_state := ACLUnknown\<rparr>
      in case ForLiteral now p (mt_MountPoint m) of
           None \<Rightarrow> f\<lparr>af_unknown := True\<rparr>
         | Some c \<Rightarrow> f\<lparr>af_backend := fs_ACLBackend c, af_aclmode := fs_ZFSAclmode c, af_storage := fs_Storage c\<rparr>)"

definition ladderFacts :: "time \<Rightarrow> platform option \<Rightarrow> (string \<Rightarrow> string option) \<Rightarrow> string \<Rightarrow> bool \<Rightarrow> acl_facts list" where
  "ladderFacts now pf os apiRoot cross =
     (let out = [(mountFacts now pf os apiRoot)\<lparr>af_state := ACLUnknown\<rparr>]
      in case pf of
           None \<Rightarrow> out
         | Some p \<Rightarrow>
             if \<not> cross then out
             else let rootOS = slashPath (osPathFor os apiRoot)
                  in out @ map (child_facts now p)
                       (filter (\<lambda>m. slashPath (mt_MountPoint m) \<noteq> rootOS \<and> underRoot (slashPath (mt_MountPoint m)) rootOS) (pf_mounts p)))"

subsection \<open>The worker's answer about the entry\<close>

record props_answer =
  pa_Entry :: entry
  pa_Mount :: string
  pa_Domain :: string
  pa_Backend :: string
  pa_State :: string
  pa_Aclmode :: string
  pa_Dataset :: string
  pa_MountID :: "int option"   \<comment> \<open>of the identity, when it carries one\<close>
  pa_Identity :: string

definition aclBackendRank :: "string \<Rightarrow> nat" where
  "aclBackendRank name =
     (if name = ACLNFS4_name then 3 else if name = ACLPosix_name then 2 else if name = ACLNone_name then 0 else 1)"

definition aclmodeDestroys :: "string \<Rightarrow> bool" where
  "aclmodeDestroys mode \<longleftrightarrow> mode = [] \<or> mode = ''discard''"

definition worstAclmode :: "string \<Rightarrow> string \<Rightarrow> string" where
  "worstAclmode daemon worker =
     (if aclmodeDestroys daemon \<or> aclmodeDestroys worker then [] else if daemon \<noteq> worker then [] else daemon)"

definition workerMountAgrees :: "time \<Rightarrow> platform option \<Rightarrow> (string \<Rightarrow> string option) \<Rightarrow> string \<Rightarrow> props_answer \<Rightarrow> bool \<times> bool" where
  "workerMountAgrees now pf os apiPath resp =
     (case pf of
        None \<Rightarrow> (False, False)
      | Some p \<Rightarrow>
          let osPath = osPathFor os apiPath
          in case MountForLiteral p osPath of
               None \<Rightarrow> (False, False)
             | Some row \<Rightarrow>
                 if pa_Mount resp = [] then (False, True)
                 else if slashPath (pa_Mount resp) \<noteq> slashPath (mt_MountPoint row) then (False, True)
                 else if (case ForLiteral now p osPath of None \<Rightarrow> False
                          | Some c \<Rightarrow> pa_Domain resp \<noteq> [] \<and> fs_Domain c \<noteq> [] \<and> pa_Domain resp \<noteq> fs_Domain c) then (False, True)
                 else if pf_live p \<and> pa_MountID resp \<noteq> None \<and> mt_ID row \<ge> 0 \<and> the (pa_MountID resp) \<noteq> mt_ID row then (False, True)
                 else (True, True))"

definition observed_state :: "props_answer \<Rightarrow> string" where
  "observed_state resp = (if pa_State resp = [] then ent_ACL (pa_Entry resp) else pa_State resp)"

definition with_worker_row :: "props_answer \<Rightarrow> bool \<Rightarrow> acl_facts \<Rightarrow> acl_facts" where
  "with_worker_row resp elsewhere f =
     (let f1 = f\<lparr>af_aclmode := worstAclmode (af_aclmode f) (pa_Aclmode resp)\<rparr>;
          f2 = (if pa_Dataset resp = [] then f1
                else if af_dataset f1 = [] then f1\<lparr>af_dataset := pa_Dataset resp\<rparr>
                else if pa_Dataset resp \<noteq> af_dataset f1 then f1\<lparr>af_altDataset := pa_Dataset resp\<rparr>
                else f1)
      in if elsewhere then f2\<lparr>af_unknown := True, af_aclmode := []\<rparr> else f2)"

definition with_worker_state :: "props_answer \<Rightarrow> acl_facts \<Rightarrow> acl_facts" where
  "with_worker_state resp f =
     (let trusted = (pa_Backend resp = [] \<or> aclBackendRank (pa_Backend resp) \<ge> aclBackendRank (af_backend f));
          f1 = (if pa_Backend resp \<noteq> [] \<and> trusted then f\<lparr>af_backend := pa_Backend resp\<rparr> else f)
      in if trusted \<and> observed_state resp \<noteq> [] then f1\<lparr>af_state := observed_state resp\<rparr> else f1)"

definition entryACLFacts ::
    "time \<Rightarrow> platform option \<Rightarrow> (string \<Rightarrow> string option) \<Rightarrow> props_answer option \<Rightarrow> string \<Rightarrow> acl_facts \<times> (string \<times> string) option" where
  "entryACLFacts now pf os answer apiPath =
     (let f = (mountFacts now pf os apiPath)\<lparr>af_state := ACLUnknown\<rparr>
      in case answer of
           None \<Rightarrow> (f, None)
         | Some resp \<Rightarrow>
             let expect = Some (observed_state resp, pa_Identity resp);
                 (agrees, haveRow) = workerMountAgrees now pf os apiPath resp;
                 elsewhere = (haveRow \<and> pa_Mount resp \<noteq> [] \<and> \<not> agrees);
                 f1 = with_worker_row resp elsewhere f
             in if af_unknown f1 \<or> (af_storage f1 \<and> af_backend f1 = []) then (f1, expect)
                else (with_worker_state resp f1, expect))"

subsection \<open>The notice\<close>

fun joined_names :: "string list \<Rightarrow> string" where
  "joined_names [] = []"
| "joined_names [x] = x"
| "joined_names (x # y # ys) = x @ '', '' @ joined_names (y # ys)"

definition datasetList :: "string list \<Rightarrow> string" where
  "datasetList sources =
     (let named = filter (\<lambda>s. s \<noteq> []) sources; extra = length (filter (\<lambda>s. s = []) sources)
      in if named = [] then (if extra > 1 then ''these datasets'' else ''this dataset'')
         else let word1 = (if length named + extra > 1 then ''datasets '' else ''dataset '');
                  extra2 = (if length named > maxNamedDatasets then extra + (length named - maxNamedDatasets) else extra);
                  out = word1 @ joined_names (take maxNamedDatasets named)
              in if extra2 > 0 then out @ '' and '' @ itoa (int extra2) @ '' more'' else out)"

definition aclmode_notice :: "acl_facts \<Rightarrow> nat \<times> string \<times> bool" where
  "aclmode_notice f =
     (if af_aclmode f = ''groupmask'' then (gradeConfirm, aclGroupmaskNotice, False)
      else if af_aclmode f = ''passthrough'' then (gradeConfirm, aclPassthroughNotice, False)
      else if af_aclmode f = ''restricted'' then (gradeConfirm, aclRestrictedNotice, False)
      else (gradeTyped, aclDiscardFmt (datasetList (datasetNames f)) @ (if af_aclmode f = [] then aclUnknownModeSuffix else []), True))"

definition chmodACLNotice :: "acl_facts \<Rightarrow> nat \<times> string \<times> bool" where
  "chmodACLNotice f =
     (if af_backend f = ACLPosix_name \<and> \<not> af_unknown f then
        (if af_state f = ACLPosix \<or> af_state f = ACLUnknown \<or> af_state f = [] then (gradeConfirm, aclPosixMaskNotice, False)
         else (gradeNone, [], False))
      else if af_backend f = ACLNFS4_name \<or> af_unknown f \<or> (af_storage f \<and> af_backend f = []) then
        (if af_state f = ACLNone \<or> af_state f = ACLNFS4Trivial then (gradeNone, [], False) else aclmode_notice f)
      else (gradeNone, [], False))"

subsection \<open>The ladder and the verdict\<close>

record ladder =
  ld_grade :: nat
  ld_warnings :: "string list"
  ld_discards :: bool

definition no_ladder :: ladder where
  "no_ladder = \<lparr>ld_grade = 0, ld_warnings = [], ld_discards = False\<rparr>"

definition add_sentence :: "string list \<Rightarrow> string \<Rightarrow> string list" where
  "add_sentence ws s = (if s = [] \<or> List.member ws s then ws else ws @ [s])"

definition ladder_add :: "nat \<Rightarrow> string list \<Rightarrow> ladder \<Rightarrow> ladder" where
  "ladder_add grade sentences l = l\<lparr>ld_grade := max grade (ld_grade l), ld_warnings := foldl add_sentence (ld_warnings l) sentences\<rparr>"

definition guardReasons :: "guard \<Rightarrow> op \<Rightarrow> string list \<Rightarrow> ladder \<Rightarrow> ladder" where
  "guardReasons g op1 paths l = foldl (\<lambda>l r. ladder_add gradeTyped [r] l) l (concat (map (Reasons g op1) paths))"

definition scaleNotice :: "int \<Rightarrow> ladder \<Rightarrow> ladder" where
  "scaleNotice scanned l =
     (if scanned < 0 then ladder_add gradeTyped [recursiveScaleFmt ''an unknown number of items'', recursiveNoUndoNotice] l
      else if scanned > recursiveScaleItems then
        ladder_add gradeTyped [recursiveScaleFmt (itoa scanned @ '' items''), recursiveNoUndoNotice] l
      else ladder_add gradeNone [recursiveNoUndoNotice] l)"

record consequence =
  cq_key :: string
  cq_rung :: string
  cq_grade :: nat
  cq_discards :: bool

record acl_verdict =
  av_grade :: nat
  av_discards :: bool
  av_per :: "consequence list"

definition no_verdict :: acl_verdict where
  "no_verdict = \<lparr>av_grade = 0, av_discards = False, av_per = []\<rparr>"

definition aclModeUnknownRung :: string where "aclModeUnknownRung = ''?''"

definition verdict_fold :: "acl_facts \<Rightarrow> nat \<Rightarrow> bool \<Rightarrow> acl_verdict \<Rightarrow> acl_verdict" where
  "verdict_fold f grade discards v =
     (let v1 = v\<lparr>av_grade := max grade (av_grade v), av_discards := (discards \<or> av_discards v)\<rparr>
      in if grade = gradeNone \<and> \<not> discards then v1
         else let c = \<lparr>cq_key = verdictKey f, cq_rung = (if af_aclmode f = [] then aclModeUnknownRung else af_aclmode f),
                       cq_grade = grade, cq_discards = discards\<rparr>
              in if List.member (av_per v) c then v1 else v1\<lparr>av_per := av_per v @ [c]\<rparr>)"

definition verdict_row :: "consequence \<Rightarrow> string" where
  "verdict_row c = cq_key c @ CHR 0x00 # cq_rung c @ CHR 0x00 # itoa (int (cq_grade c)) @ CHR 0x00 # format_bool (cq_discards c)"

definition verdict_bytes :: "acl_verdict \<Rightarrow> string" where
  "verdict_bytes v = concat (map (\<lambda>r. itoa (int (length r)) @ CHR '':'' # r) (sort (map verdict_row (av_per v))))"

definition verdict_digest :: "(bytes \<Rightarrow> bytes) \<Rightarrow> acl_verdict \<Rightarrow> string" where
  "verdict_digest sha v = (if av_per v = [] then [] else hex_encode (take 16 (sha (verdict_bytes v))))"

definition verdict_part :: "(bytes \<Rightarrow> bytes) \<Rightarrow> acl_verdict \<Rightarrow> string" where
  "verdict_part sha v = ''acl='' @ itoa (int (av_grade v)) @ ''/'' @ format_bool (av_discards v) @ ''/'' @ verdict_digest sha v"

subsection \<open>The ladder of a job\<close>

record job_ladder =
  jl_ladder :: ladder
  jl_acl :: acl_verdict
  jl_discarding :: "string list"
  jl_keys :: "string list"
  jl_unreadable :: bool

definition job_rung :: "job_ladder \<Rightarrow> acl_facts \<Rightarrow> job_ladder" where
  "job_rung j f =
     (case chmodACLNotice f of (grade, notice, discards) \<Rightarrow>
        let j1 = j\<lparr>jl_acl := verdict_fold f grade discards (jl_acl j)\<rparr>
        in if \<not> discards then j1\<lparr>jl_ladder := ladder_add grade [notice] (jl_ladder j)\<rparr>
           else let j2 = j1\<lparr>jl_ladder := (jl_ladder j)\<lparr>ld_discards := True\<rparr>,
                            jl_unreadable := (af_aclmode f = [] \<or> jl_unreadable j)\<rparr>
                in if List.member (jl_keys j) (facts_key f) then j2
                   else j2\<lparr>jl_keys := facts_key f # jl_keys j, jl_discarding := jl_discarding j @ [af_dataset f]\<rparr>)"

definition chmodJobLadder :: "(string \<Rightarrow> acl_facts list) \<Rightarrow> ladder \<Rightarrow> string list \<Rightarrow> acl_verdict \<times> ladder" where
  "chmodJobLadder facts l targets =
     (let j = foldl job_rung \<lparr>jl_ladder = l, jl_acl = no_verdict, jl_discarding = [], jl_keys = [], jl_unreadable = False\<rparr>
                (concat (map facts targets))
      in if jl_discarding j = [] then (jl_acl j, jl_ladder j)
         else (jl_acl j, ladder_add gradeTyped
                [aclDiscardJobFmt (datasetList (sort (jl_discarding j))) @ (if jl_unreadable j then aclUnknownModeSuffix else [])]
                (jl_ladder j)))"

subsection \<open>Token parts\<close>

definition tokenKindSync :: string where "tokenKindSync = ''sync''"
definition tokenKindJob :: string where "tokenKindJob = ''job''"

definition permTokenParts ::
    "(bytes \<Rightarrow> bytes) \<Rightarrow> string \<Rightarrow> string \<Rightarrow> mode_spec \<Rightarrow> mode_spec \<Rightarrow> int \<Rightarrow> int \<Rightarrow> bool \<Rightarrow> bool \<Rightarrow> acl_verdict \<Rightarrow> string list \<Rightarrow> string list" where
  "permTokenParts sha kind op1 files dirs uid gid recursive cross acl roots =
     [''kind='' @ kind, ''op='' @ op1, ''mask='' @ Octal (ms_Mask files), ''value='' @ Octal (ms_Value files),
      ''dirs='' @ Octal (ms_Mask dirs) @ ''/'' @ Octal (ms_Value dirs), ''uid='' @ itoa uid, ''gid='' @ itoa gid,
      ''recursive='' @ format_bool recursive, ''cross='' @ format_bool cross, verdict_part sha acl]
     @ sort roots"

subsection \<open>What the kernel did differently\<close>

record mode_resp =
  mr_Before :: entry
  mr_Entry :: entry
  mr_Diffs :: "diff list"

definition groupLabel :: "entry \<Rightarrow> string" where
  "groupLabel e = (if ent_Group e \<noteq> [] then ent_Group e else itoa (ent_GID e))"

definition em_dash :: string where "em_dash = [CHR 0xE2, CHR 0x80, CHR 0x94]"

definition diffWarning :: "string \<Rightarrow> entry \<Rightarrow> bool \<Rightarrow> diff \<Rightarrow> string" where
  "diffWarning op1 before groupmask d =
     (if op1 = ''chown'' \<and> (df_Field d = ''setuid'' \<or> df_Field d = ''setgid'') \<and> df_Got d = ''off'' then
        ''The '' @ df_Field d @ '' bit was cleared by the change of owner '' @ em_dash @ '' the kernel does this, and it cannot be kept.''
      else if op1 = ''chmod'' \<and> df_Field d = ''setgid'' \<and> df_Got d = ''off'' then
        ''The setgid bit was not applied: you are not a member of group '' @ groupLabel before @ ''.''
      else if df_Field d = ''mode'' \<and> groupmask then
        ''The filesystem reduced the permissions to the group bits (aclmode=groupmask): the mode is '' @ df_Got d @ '', not the ''
        @ df_Want d @ '' that was asked for.''
      else if df_Field d = ''mode'' then
        ''The mode is '' @ df_Got d @ '', not the '' @ df_Want d @ '' that was asked for.''
      else df_Field d @ '' was not applied as asked: '' @ df_Want d @ '' was requested, '' @ df_Got d @ '' is what it is now.'')"

definition diffWarnings :: "string \<Rightarrow> mode_resp \<Rightarrow> bool \<Rightarrow> string list" where
  "diffWarnings op1 resp groupmask = map (diffWarning op1 (mr_Before resp) groupmask) (mr_Diffs resp)"

definition diffDetail :: "diff list \<Rightarrow> string" where
  "diffDetail ds =
     (if ds = [] then []
      else '' ('' @ joined_names (map (\<lambda>d. df_Field d @ '' '' @ df_Want d @ ''->'' @ df_Got d) (take 6 ds))
           @ (if length ds > 6 then '', and '' @ itoa (int (length ds - 6)) @ '' more'' else []) @ '')'')"

subsection \<open>Refusals and rules\<close>

definition pathDepth :: "string \<Rightarrow> nat" where
  "pathDepth p =
     (let q = trim_right_char CHR ''/'' (dropWhile (\<lambda>c. c = CHR ''/'') p)
      in if q = [] then 0 else length (filter (\<lambda>c. c = CHR ''/'') q) + 1)"

definition validSpec :: "mode_spec \<Rightarrow> bool" where
  "validSpec s \<longleftrightarrow> ms_Mask s AND NOT ModeBits = 0 \<and> ms_Value s AND NOT ModeBits = 0"

definition sets_setuid :: "mode_spec \<Rightarrow> bool" where
  "sets_setuid s \<longleftrightarrow> ms_Mask s AND ms_Value s AND Setuid \<noteq> 0"

definition normalClass :: "guard \<Rightarrow> string list \<Rightarrow> bool" where
  "normalClass g paths = list_all (\<lambda>p. Classify g p = ''normal'') paths"

definition maxID :: int where "maxID = 4294967294"

definition chown_half :: "int option \<Rightarrow> int option" where
  "chown_half v = (case v of None \<Rightarrow> Some (-1) | Some n \<Rightarrow> if n < 0 \<or> n > maxID then None else Some n)"

definition chownIDs :: "int option \<Rightarrow> int option \<Rightarrow> (int \<times> int) option" where
  "chownIDs uid gid =
     (case (chown_half uid, chown_half gid) of
        (Some u, Some g) \<Rightarrow> if u < 0 \<and> g < 0 then None else Some (u, g)
      | _ \<Rightarrow> None)"

definition permMilestone :: "string \<Rightarrow> bool \<Rightarrow> bool \<Rightarrow> bool \<Rightarrow> int \<Rightarrow> bool" where
  "permMilestone op1 discards ordinary recursive scanned =
     (if op1 = ''chown'' then True
      else discards \<or> \<not> ordinary \<or> (recursive \<and> (scanned < 0 \<or> scanned \<ge> milestoneFiles)))"

definition specDetail :: "mode_spec \<Rightarrow> string" where
  "specDetail s = ''mask='' @ Octal (ms_Mask s) @ '' value='' @ Octal (ms_Value s)"

definition scannedLabel :: "int \<Rightarrow> string" where
  "scannedLabel scanned = (if scanned < 0 then ''an unknown number of items'' else itoa scanned @ '' item(s)'')"

end
