(* ===== verification/Perm_Routes.thy ===== *)
theory Perm_Routes
  imports Ladder
begin

section \<open>chmod, chown and properties at the HTTP routes (internal/web/routes_perm.go)\<close>

text \<open>
  The handlers on top of the ladder: one item at once, many items or a tree as a job, and the properties dialog. The
  mount table, the worker's answers and the measurements are fields of the environment, functions of the trail; within
  one ladder the table is read once.
\<close>

subsection \<open>Surroundings\<close>

record perm_env = job_env +
  pe_platform :: "trail \<Rightarrow> platform option"
  pe_props :: "trail \<Rightarrow> string \<Rightarrow> props_answer option"
  pe_mode :: "trail \<Rightarrow> dispatch \<Rightarrow> mode_resp"
  pe_sha :: "bytes \<Rightarrow> bytes"
  pe_size :: "trail \<Rightarrow> string \<Rightarrow> bool \<Rightarrow> int \<Rightarrow> job_result option"
  pe_admit :: "trail \<Rightarrow> bool"   \<comment> \<open>time left, and a metadata slot within it\<close>

abbreviation env_of :: "perm_env \<Rightarrow> env" where
  "env_of e \<equiv> env.truncate e"

abbreviation job_env_of :: "perm_env \<Rightarrow> job_env" where
  "job_env_of e \<equiv> job_env.truncate e"

lemma truncate_truncate [simp]: "env.truncate (job_env.truncate e) = env.truncate e"
  by (simp add: env.truncate_def job_env.truncate_def)

lemma truncate_fields [simp]:
  "je_id (job_env.truncate e) = je_id e" "je_submit (job_env.truncate e) = je_submit e" "je_jobs (job_env.truncate e) = je_jobs e"
  "env_auditor (job_env.truncate e) = env_auditor e" "env_ready (job_env.truncate e) = env_ready e"
  by (simp_all add: job_env.truncate_def)

subsection \<open>The end of a mode change\<close>

definition finishMode :: "env \<Rightarrow> who \<Rightarrow> mutation \<Rightarrow> error option \<Rightarrow> bool \<Rightarrow> string \<Rightarrow> server \<Rightarrow> bool \<times> server" where
  "finishMode env w m err milestone detail st =
     (case err of
        Some x \<Rightarrow>
          let code = Code (Some x)
          in (False, say (RError (statusCode code) code) (snd (writeAuditDetail env w m ''result'' ''error'' code detail milestone st)))
      | None \<Rightarrow> (True, snd (writeAuditDetail env w m ''result'' ''ok'' [] detail milestone st)))"

definition refuse_guarded :: "env \<Rightarrow> who \<Rightarrow> refusal \<Rightarrow> mutation \<Rightarrow> string \<Rightarrow> int \<Rightarrow> server \<Rightarrow> server" where
  \<comment> \<open>the refusal of the guard's, answered on its own terms\<close>
  "refuse_guarded env w verdict m conf files st =
     snd (authorizeGraded env w verdict False m [] True conf
       \<lparr>sum_Files = files, sum_Bytes = 0, sum_Warnings = [], sum_Capped = False\<rparr> 0 st)"

subsection \<open>POST /api/fs/chmod\<close>

record chmod_body =
  cm_Path :: string
  cm_PathB64 :: string
  cm_Spec :: mode_spec
  cm_Follow :: bool
  cm_Confirm :: string

definition zero_spec :: mode_spec where "zero_spec = \<lparr>ms_Mask = 0, ms_Value = 0\<rparr>"

definition one_item :: "string \<Rightarrow> string \<Rightarrow> mutation" where
  "one_item op1 p = \<lparr>mut_op = op1, mut_path = p, mut_dst = [], mut_files = 1, mut_bytes = 0\<rparr>"

definition chmod_ladder :: "guard \<Rightarrow> acl_facts \<Rightarrow> mode_spec \<Rightarrow> string list \<Rightarrow> ladder \<times> acl_verdict" where
  "chmod_ladder g facts spec spellings =
     (case chmodACLNotice facts of (grade, notice, discards) \<Rightarrow>
        let l1 = (ladder_add grade [notice] (guardReasons g OpChmod spellings no_ladder))\<lparr>ld_discards := discards\<rparr>;
            l2 = (if sets_setuid spec \<and> \<not> normalClass g spellings then ladder_add gradeTyped [setuidOutsideNormalNotice] l1 else l1)
        in (l2, verdict_fold facts grade discards no_verdict))"

definition chmod_dispatch :: "perm_env \<Rightarrow> who \<Rightarrow> mutation \<Rightarrow> string \<Rightarrow> mode_spec \<Rightarrow> acl_facts \<Rightarrow> (string \<times> string) option \<Rightarrow> bool \<Rightarrow> server \<Rightarrow> server" where
  "chmod_dispatch e w m target spec facts expect milestone st =
     (let d = DChmod target spec expect; resp = pe_mode e (srv_trail st) d; asked = specDetail spec
      in case run_worker (env_of e) d st of
        (err, st1) \<Rightarrow>
          case finishMode (env_of e) w m err milestone
                 (if err = None then asked @ '' -> '' @ ent_Mode (mr_Entry resp) @ diffDetail (mr_Diffs resp) else asked) st1 of
            (ok, st2) \<Rightarrow> if \<not> ok then st2 else say (RMode (diffWarnings ''chmod'' resp (af_aclmode facts = ''groupmask''))) st2)"

definition chmod_guarded :: "perm_env \<Rightarrow> who \<Rightarrow> string \<Rightarrow> string \<Rightarrow> string \<Rightarrow> mode_spec \<Rightarrow> string \<Rightarrow> server \<Rightarrow> server" where
  "chmod_guarded e w p guardPath target spec conf st =
     (let g = guard_now (env_of e) st; m = one_item ''chmod'' p;
          verdict = worstGuard [Check g OpChmod p, Check g OpChmod guardPath, Check g OpChmod target]
      in if guardRefuses verdict then refuse_guarded (env_of e) w verdict m conf 1 st
         else case entryACLFacts (je_now e (srv_trail st)) (pe_platform e (srv_trail st)) (je_os e) (pe_props e (srv_trail st) target) target of
           (facts, expect) \<Rightarrow>
             case chmod_ladder g facts spec [p, guardPath, target] of
               (l, acl) \<Rightarrow>
                 let milestone = permMilestone ''chmod'' (ld_discards l) (normalClass g [p, guardPath, target]) False 0
                 in gated (env_of e) w verdict (ld_grade l > gradeNone \<or> conf \<noteq> []) m
                      (permTokenParts (pe_sha e) tokenKindSync ''chmod'' spec zero_spec (-1) (-1) False False acl [target]) True conf
                      \<lparr>sum_Files = 1, sum_Bytes = 0, sum_Warnings = ld_warnings l, sum_Capped = False\<rparr> (ld_grade l)
                      milestone (specDetail spec) (chmod_dispatch e w m target spec facts expect milestone) st)"

definition chmod_route :: "perm_env \<Rightarrow> who \<Rightarrow> chmod_body \<Rightarrow> server \<Rightarrow> server" where
  "chmod_route e w b st =
     (if \<not> env_ready e then say (RError 500 ''internal'') st
      else case bodyPath (cm_Path b) (cm_PathB64 b) of
        Inl x \<Rightarrow> bad_request st
      | Inr p \<Rightarrow>
          if \<not> validSpec (cm_Spec b) \<or> \<not> Touches (cm_Spec b) then bad_request st
          else case env_resolve e (srv_trail st) p False of
            Inl x \<Rightarrow> failResolve x st
          | Inr guardPath \<Rightarrow>
              case (if cm_Follow b then env_resolve e (srv_trail st) p True else Inr guardPath) of
                Inl x \<Rightarrow> failResolve x st
              | Inr target \<Rightarrow> chmod_guarded e w p guardPath target (cm_Spec b) (cm_Confirm b) st)"

subsection \<open>POST /api/fs/chown\<close>

record chown_body =
  co_Path :: string
  co_PathB64 :: string
  co_UID :: "int option"
  co_GID :: "int option"
  co_Confirm :: string

definition chown_dispatch :: "perm_env \<Rightarrow> who \<Rightarrow> mutation \<Rightarrow> string \<Rightarrow> int \<Rightarrow> int \<Rightarrow> server \<Rightarrow> server" where
  "chown_dispatch e w m guardPath uid gid st =
     (let d = DChown guardPath uid gid; resp = pe_mode e (srv_trail st) d; b = mr_Before resp; a = mr_Entry resp;
          asked = ''uid='' @ itoa uid @ '' gid='' @ itoa gid
      in case run_worker (env_of e) d st of
        (err, st1) \<Rightarrow>
          case finishMode (env_of e) w m err True
                 (if err = None then ''uid '' @ itoa (ent_UID b) @ ''->'' @ itoa (ent_UID a) @ '' gid '' @ itoa (ent_GID b) @ ''->'' @ itoa (ent_GID a)
                    @ diffDetail (mr_Diffs resp) else asked) st1 of
            (ok, st2) \<Rightarrow> if \<not> ok then st2 else say (RMode (diffWarnings ''chown'' resp False)) st2)"

definition chown_guarded :: "perm_env \<Rightarrow> who \<Rightarrow> string \<Rightarrow> string \<Rightarrow> int \<Rightarrow> int \<Rightarrow> string \<Rightarrow> server \<Rightarrow> server" where
  "chown_guarded e w p guardPath uid gid conf st =
     (let g = guard_now (env_of e) st; m = one_item ''chown'' p;
          verdict = worstGuard [Check g OpChown p, Check g OpChown guardPath];
          l = ladder_add gradeConfirm [chownClearsNotice] (guardReasons g OpChown [p, guardPath] no_ladder)
      in if guardRefuses verdict then refuse_guarded (env_of e) w verdict m conf 1 st
         else gated (env_of e) w verdict True m
           (permTokenParts (pe_sha e) tokenKindSync ''chown'' zero_spec zero_spec uid gid False False no_verdict [guardPath]) True conf
           \<lparr>sum_Files = 1, sum_Bytes = 0, sum_Warnings = ld_warnings l, sum_Capped = False\<rparr> (ld_grade l)
           True (''uid='' @ itoa uid @ '' gid='' @ itoa gid) (chown_dispatch e w m guardPath uid gid) st)"

definition chown_route :: "perm_env \<Rightarrow> who \<Rightarrow> chown_body \<Rightarrow> server \<Rightarrow> server" where
  "chown_route e w b st =
     (if \<not> env_ready e then say (RError 500 ''internal'') st
      else case bodyPath (co_Path b) (co_PathB64 b) of
        Inl x \<Rightarrow> bad_request st
      | Inr p \<Rightarrow>
          case chownIDs (co_UID b) (co_GID b) of
            None \<Rightarrow> bad_request st
          | Some (uid, gid) \<Rightarrow>
              case env_resolve e (srv_trail st) p False of
                Inl x \<Rightarrow> failResolve x st
              | Inr guardPath \<Rightarrow> chown_guarded e w p guardPath uid gid (co_Confirm b) st)"

subsection \<open>The permissions jobs\<close>

record perm_job =
  pj_op :: string
  pj_files :: mode_spec
  pj_dirs :: mode_spec
  pj_uid :: int
  pj_gid :: int
  pj_recursive :: bool
  pj_cross :: bool
  pj_confirm :: string

definition pj_guard_op :: "perm_job \<Rightarrow> op" where
  "pj_guard_op pj = (if pj_op pj = ''chown'' then OpChown else OpChmod)"

fun perm_resolve :: "env \<Rightarrow> trail \<Rightarrow> bool \<Rightarrow> string list \<Rightarrow> error + (string \<times> string) list" where
  "perm_resolve env tr follow [] = Inr []"
| "perm_resolve env tr follow (p # ps) =
     (case env_resolve env tr p False of
        Inl x \<Rightarrow> Inl x
      | Inr rp \<Rightarrow>
          case (if follow then env_resolve env tr p True else Inr rp) of
            Inl x \<Rightarrow> Inl x
          | Inr t \<Rightarrow> (case perm_resolve env tr follow ps of Inl x \<Rightarrow> Inl x | Inr rs \<Rightarrow> Inr ((rp, t) # rs)))"

definition contain_checks :: "guard \<Rightarrow> string list \<Rightarrow> (refusal \<times> string) list" where
  "contain_checks g spellings =
     concat (map (\<lambda>p. case Contains g p of
                        None \<Rightarrow> []
                      | Some h \<Rightarrow> [(Some (if con_Deny h then ErrProtected else ErrConfirmRequired, []), con_Reason h)]) spellings)"

text \<open>The first root with a spelling of at most one component.\<close>

definition other_spellings :: "string \<Rightarrow> string list \<Rightarrow> string list" where
  "other_spellings p qs = p # filter (\<lambda>q. q \<noteq> [] \<and> q \<noteq> p) qs"

definition shallow_root :: "(string \<times> string \<times> string) list \<Rightarrow> string option" where
  "shallow_root roots =
     map_option fst (find (\<lambda>(p, rp, t). list_ex (\<lambda>q. pathDepth q \<le> 1) (other_spellings p [rp, t])) roots)"

definition refuseShallowRecursion :: "env \<Rightarrow> who \<Rightarrow> string \<Rightarrow> string \<Rightarrow> server \<Rightarrow> server" where
  "refuseShallowRecursion env w op1 p st =
     say (RError 403 ''protected'')
       (snd (writeAuditDetail env w \<lparr>mut_op = op1, mut_path = p, mut_dst = [], mut_files = 0, mut_bytes = 0\<rparr> ''result'' ''denied'' ''protected''
          ''recursive apply refused at the top of the filesystem'' False st))"

definition aclVerdictNow :: "perm_env \<Rightarrow> trail \<Rightarrow> perm_job \<Rightarrow> ladder \<Rightarrow> string list \<Rightarrow> acl_verdict \<times> ladder" where
  "aclVerdictNow e tr pj l targets =
     (if pj_op pj \<noteq> ''chmod'' then (no_verdict, l)
      else chmodJobLadder (\<lambda>p. ladderFacts (je_now e tr) (pe_platform e tr) (je_os e) p (pj_cross pj \<and> pj_recursive pj)) l targets)"

text \<open>The pre-scan: what is left of the allowance for each root, and -1 for everything that is not a count.\<close>

fun scan_loop :: "(string \<Rightarrow> int \<Rightarrow> job_result option) \<Rightarrow> string list \<Rightarrow> int \<Rightarrow> int" where
  "scan_loop sz [] tot = tot"
| "scan_loop sz (r # rs) tot =
     (let remaining = modeScanMaxEntries - tot
      in if remaining \<le> 0 then -1
         else case sz r remaining of
           None \<Rightarrow> -1
         | Some res \<Rightarrow>
             if jr_Cancelled res \<or> jr_Capped res \<or> jr_Files res < 0 \<or> jr_Dirs res < 0 then -1
             else let tot' = wrap64 (tot + wrap64 (jr_Files res + jr_Dirs res))
                  in if tot' < 0 then -1 else scan_loop sz rs tot')"

definition permScan :: "perm_env \<Rightarrow> trail \<Rightarrow> string list \<Rightarrow> bool \<Rightarrow> int" where
  "permScan e tr roots cross = (if \<not> pe_admit e tr then -1 else scan_loop (\<lambda>r n. pe_size e tr r cross n) roots 0)"

definition peekScan :: "env \<Rightarrow> server \<Rightarrow> string \<Rightarrow> string \<Rightarrow> string list \<Rightarrow> int option" where
  "peekScan env st token op1 parts =
     (if token = [] then None
      else case Peek (env_mac env) (env_now env (srv_trail st)) token op1 parts True (srv_guard st) of
        None \<Rightarrow> None
      | Some cost \<Rightarrow> if sum_Capped cost then Some (-1) else if sum_Files cost \<le> 0 then None else Some (sum_Files cost))"

definition permJobWhat :: "perm_job \<Rightarrow> string" where
  "permJobWhat pj =
     (if pj_op pj = ''chown'' then ''uid='' @ itoa (pj_uid pj) @ '' gid='' @ itoa (pj_gid pj)
      else ''files '' @ specDetail (pj_files pj) @ '', dirs '' @ specDetail (pj_dirs pj))"

definition perm_what :: "perm_job \<Rightarrow> int \<Rightarrow> string" where
  "perm_what pj scanned =
     (let what = pj_op pj @ '' '' @ permJobWhat pj
      in if pj_recursive pj then ''recursive '' @ what @ '', '' @ scannedLabel scanned @ '' scanned'' else what)"

definition perm_plan :: "(bytes \<Rightarrow> bytes) \<Rightarrow> perm_job \<Rightarrow> string list \<Rightarrow> string list \<Rightarrow> string list \<Rightarrow> acl_verdict \<Rightarrow> bool \<Rightarrow> string \<Rightarrow> string \<Rightarrow> job_plan" where
  "perm_plan sha pj paths targets spellings acl big what i =
     \<lparr>jp_id = i, jp_kind = pj_op pj, jp_op = pj_op pj,
      jp_body = (if pj_op pj = ''chmod'' then BChmod targets (pj_files pj) (pj_dirs pj) (pj_recursive pj) (pj_cross pj)
                 else BChown targets (pj_uid pj) (pj_gid pj) (pj_recursive pj) (pj_cross pj)),
      jp_requested = paths, jp_resolved = targets, jp_checks = [(pj_guard_op pj, spellings)],
      jp_acl = Some (verdict_part sha acl), jp_path = hd paths, jp_detail = result_detail i what (length paths), jp_milestone = big\<rparr>"

text \<open>Everything the ladder of a job says before the scan.\<close>

definition perm_ladder :: "perm_env \<Rightarrow> server \<Rightarrow> perm_job \<Rightarrow> string list \<Rightarrow> string list \<Rightarrow> string list \<Rightarrow> acl_verdict \<times> ladder" where
  "perm_ladder e st pj targets spellings reasons =
     (let g = guard_now (env_of e) st; l0 = guardReasons g (pj_guard_op pj) spellings no_ladder;
          l1 = (if reasons = [] then l0 else ladder_add gradeTyped reasons l0)
      in if pj_op pj = ''chown'' then (no_verdict, ladder_add gradeConfirm [chownClearsNotice] l1)
         else case aclVerdictNow e (srv_trail st) pj l1 targets of
           (acl, l2) \<Rightarrow>
             (acl, if (sets_setuid (pj_files pj) \<or> sets_setuid (pj_dirs pj)) \<and> \<not> normalClass g spellings
                   then ladder_add gradeTyped [setuidOutsideNormalNotice] l2 else l2))"

definition perm_scanned :: "perm_env \<Rightarrow> server \<Rightarrow> perm_job \<Rightarrow> string list \<Rightarrow> string list \<Rightarrow> int" where
  "perm_scanned e st pj targets parts =
     (if \<not> pj_recursive pj then 0
      else case peekScan (env_of e) st (pj_confirm pj) (pj_op pj) parts of
        Some n \<Rightarrow> n
      | None \<Rightarrow> permScan e (srv_trail st) targets (pj_cross pj))"

definition perm_confirmed :: "perm_env \<Rightarrow> who \<Rightarrow> perm_job \<Rightarrow> string list \<Rightarrow> string list \<Rightarrow> string list \<Rightarrow> refusal \<Rightarrow> string list \<Rightarrow> server \<Rightarrow> server" where
  "perm_confirmed e w pj paths targets spellings verdict reasons st =
     (case perm_ladder e st pj targets spellings reasons of
        (acl, l1) \<Rightarrow>
          let parts = permTokenParts (pe_sha e) tokenKindJob (pj_op pj) (pj_files pj) (pj_dirs pj) (pj_uid pj) (pj_gid pj)
                        (pj_recursive pj) (pj_cross pj) acl targets;
              scanned = perm_scanned e st pj targets parts;
              l = (if pj_recursive pj then scaleNotice scanned l1 else l1);
              files = (if pj_recursive pj then max scanned 0 else int (length paths));
              m = \<lparr>mut_op = pj_op pj, mut_path = hd paths, mut_dst = [], mut_files = files, mut_bytes = 0\<rparr>;
              big = permMilestone (pj_op pj) (ld_discards l) (normalClass (guard_now (env_of e) st) spellings) (pj_recursive pj) scanned;
              what = perm_what pj scanned
          in case authorizeGraded (env_of e) w verdict (ld_grade l > gradeNone \<or> pj_confirm pj \<noteq> []) m parts True (pj_confirm pj)
                    \<lparr>sum_Files = files, sum_Bytes = 0, sum_Warnings = ld_warnings l, sum_Capped = (pj_recursive pj \<and> scanned < 0)\<rparr>
                    (ld_grade l) st of
               (go, st1) \<Rightarrow>
                 if \<not> go then st1
                 else intend_submit (job_env_of e) w m big (\<lambda>i. jobIntentDetail i what paths)
                        (perm_plan (pe_sha e) pj paths targets spellings acl big what) st1)"

definition submitPermJob :: "perm_env \<Rightarrow> who \<Rightarrow> perm_job \<Rightarrow> string list \<Rightarrow> server \<Rightarrow> server" where
  "submitPermJob e w pj paths st =
     (case perm_resolve (env_of e) (srv_trail st) (pj_recursive pj) paths of
        Inl x \<Rightarrow> failResolve x st
      | Inr rs \<Rightarrow>
          let resolved = map fst rs; targets = map snd rs; g = guard_now (env_of e) st;
              checks = concat (map (\<lambda>(p, rp, t). [Check g (pj_guard_op pj) p, Check g (pj_guard_op pj) rp, Check g (pj_guard_op pj) t]) (zip paths rs));
              spellings = paths @ resolved @ targets;
              inside = (if pj_recursive pj then contain_checks g spellings else []);
              verdict = worstGuard (checks @ map fst inside)
          in if guardRefuses verdict then
               refuse_guarded (env_of e) w verdict
                 \<lparr>mut_op = pj_op pj, mut_path = hd paths, mut_dst = [], mut_files = int (length paths), mut_bytes = 0\<rparr>
                 (pj_confirm pj) (int (length paths)) st
             else if pj_recursive pj \<and> shallow_root (zip paths rs) \<noteq> None then
               refuseShallowRecursion (env_of e) w (pj_op pj) (the (shallow_root (zip paths rs))) st
             else perm_confirmed e w pj paths targets spellings verdict (map snd inside) st)"

record job_chmod_body =
  jc_Paths :: "(string \<times> string) list"
  jc_Files :: mode_spec
  jc_Dirs :: mode_spec
  jc_Recursive :: bool
  jc_CrossMounts :: bool
  jc_Confirm :: string

definition chmod_job :: "job_chmod_body \<Rightarrow> perm_job" where
  "chmod_job b =
     \<lparr>pj_op = ''chmod'', pj_files = jc_Files b, pj_dirs = jc_Dirs b, pj_uid = -1, pj_gid = -1, pj_recursive = jc_Recursive b,
      pj_cross = jc_CrossMounts b, pj_confirm = jc_Confirm b\<rparr>"

definition jobChmod :: "perm_env \<Rightarrow> who \<Rightarrow> job_chmod_body \<Rightarrow> server \<Rightarrow> server" where
  "jobChmod e w b st =
     (if \<not> env_ready e \<or> \<not> je_jobs e then say (RError 500 ''internal'') st
      else if \<not> validSpec (jc_Files b) \<or> \<not> validSpec (jc_Dirs b) then bad_request st
      else if \<not> Touches (jc_Files b) \<and> \<not> Touches (jc_Dirs b) then bad_request st
      else if jc_Recursive b \<and> (SetsSpecial (jc_Files b) \<or> SetsSpecial (jc_Dirs b)) then bad_request st
      else case jobPaths (jc_Paths b) of
        None \<Rightarrow> bad_request st
      | Some paths \<Rightarrow> submitPermJob e w (chmod_job b) paths st)"

record job_chown_body =
  jo_Paths :: "(string \<times> string) list"
  jo_UID :: "int option"
  jo_GID :: "int option"
  jo_Recursive :: bool
  jo_CrossMounts :: bool
  jo_Confirm :: string

definition chown_job :: "job_chown_body \<Rightarrow> int \<Rightarrow> int \<Rightarrow> perm_job" where
  "chown_job b uid gid =
     \<lparr>pj_op = ''chown'', pj_files = zero_spec, pj_dirs = zero_spec, pj_uid = uid, pj_gid = gid, pj_recursive = jo_Recursive b,
      pj_cross = jo_CrossMounts b, pj_confirm = jo_Confirm b\<rparr>"

definition jobChown :: "perm_env \<Rightarrow> who \<Rightarrow> job_chown_body \<Rightarrow> server \<Rightarrow> server" where
  "jobChown e w b st =
     (if \<not> env_ready e \<or> \<not> je_jobs e then say (RError 500 ''internal'') st
      else case chownIDs (jo_UID b) (jo_GID b) of
        None \<Rightarrow> bad_request st
      | Some (uid, gid) \<Rightarrow>
          case jobPaths (jo_Paths b) of
            None \<Rightarrow> bad_request st
          | Some paths \<Rightarrow> submitPermJob e w (chown_job b uid gid) paths st)"

text \<open>The work of a permissions job: the guard again, and the ACL verdict as it stands when it starts.\<close>

definition recheckACLVerdict :: "perm_env \<Rightarrow> trail \<Rightarrow> perm_job \<Rightarrow> string list \<Rightarrow> string \<Rightarrow> string option" where
  "recheckACLVerdict e tr pj targets redeemed =
     (if verdict_part (pe_sha e) (fst (aclVerdictNow e tr pj no_ladder targets)) = redeemed then None else Some ''confirm_required'')"

definition perm_work :: "perm_env \<Rightarrow> perm_job \<Rightarrow> job_plan \<Rightarrow> server \<Rightarrow> (job_result option \<times> string option) \<times> server" where
  "perm_work e pj jp st =
     (case recheckGuard (guard_now (env_of e) st) (jp_checks jp) of
        Some code \<Rightarrow> stopped_work code st
      | None \<Rightarrow>
          case recheckACLVerdict e (srv_trail st) pj (jp_resolved jp) (the (jp_acl jp)) of
            Some code \<Rightarrow> stopped_work code st
          | None \<Rightarrow> (case run_plan (job_env_of e) jp st of ((res, err), st1) \<Rightarrow> ((Some (viewOf res), err), st1)))"

subsection \<open>GET /api/fs/properties\<close>

datatype props_reply = PropsRefused string | PropsAsk string string

definition readable :: "guard \<Rightarrow> string \<Rightarrow> bool" where
  "readable g p \<longleftrightarrow> Check g OpRead p = None"

definition properties :: "perm_env \<Rightarrow> string \<Rightarrow> bool \<Rightarrow> server \<Rightarrow> props_reply" where
  "properties e p follow st =
     (let g = guard_now (env_of e) st; read_ok = readable g
      in if \<not> read_ok p then PropsRefused ''protected''
         else if \<not> env_ready e then PropsAsk p []
         else case env_resolve e (srv_trail st) p False of
           Inl x \<Rightarrow> PropsRefused (Code (Some x))
         | Inr asked \<Rightarrow>
             if \<not> read_ok asked then PropsRefused ''protected''
             else if \<not> follow then PropsAsk asked []
             else case env_resolve e (srv_trail st) p True of
               Inl x \<Rightarrow> PropsAsk asked []
             | Inr target \<Rightarrow> if \<not> read_ok target then PropsRefused ''protected'' else PropsAsk asked target)"

end
