(* ===== verification/Job_Route_Facts.thy ===== *)
theory Job_Route_Facts
  imports Job_Routes
begin

section \<open>What the job routes keep\<close>

subsection \<open>Submissions and runs on a trail\<close>

fun submissions :: "trail \<Rightarrow> job_plan list" where
  "submissions [] = []"
| "submissions (x # t) = (case x of Submitted jp \<Rightarrow> jp # submissions t | _ \<Rightarrow> submissions t)"

fun runs :: "trail \<Rightarrow> job_plan list" where
  "runs [] = []"
| "runs (x # t) = (case x of Ran jp \<Rightarrow> jp # runs t | _ \<Rightarrow> runs t)"

text \<open>Steps that only speak: replies, audit lines, trash directories.\<close>

definition spoken :: "trail \<Rightarrow> trail \<Rightarrow> bool" where
  "spoken t0 t1 \<longleftrightarrow> submissions t1 = submissions t0 \<and> runs t1 = runs t0 \<and> dispatches t1 = dispatches t0 \<and> disciplined t1 = disciplined t0"

lemma spoken_refl [simp]: "spoken t t"
  by (simp add: spoken_def)

lemma spoken_trans: "spoken a b \<Longrightarrow> spoken b c \<Longrightarrow> spoken a c"
  by (simp add: spoken_def)

lemma spoken_cons [simp]:
  "spoken t (Durable ev ok # t)" "spoken t (Async ev # t)" "spoken t (Replied r # t)" "spoken t (MadeTrash d # t)" "spoken t (Measuring jp # t)"
  by (simp_all add: spoken_def)

lemma spoken_say [simp]: "spoken t0 (srv_trail (say r st)) = spoken t0 (srv_trail st)"
  by (simp add: say_def emit_def spoken_def)

lemma spoken_audit [simp]: "spoken t0 (srv_trail (snd (writeAuditDetail env w m ph r c d mi st))) = spoken t0 (srv_trail st)"
  by (simp add: writeAuditDetail_def Let_def emit_def spoken_def)

lemma spoken_line [simp]: "spoken t0 (srv_trail (record_line env w m ph r c mi st)) = spoken t0 (srv_trail st)"
  by (simp add: record_line_def writeAudit_def)

lemma spoken_plain [simp]:
  "spoken t0 (srv_trail (bad_request st)) = spoken t0 (srv_trail st)" "spoken t0 (srv_trail (internal_error st)) = spoken t0 (srv_trail st)"
  "spoken t0 (srv_trail (failResolve x st)) = spoken t0 (srv_trail st)"
  "spoken t0 (srv_trail (failJobSubmit e w m i y st)) = spoken t0 (srv_trail st)"
  by (simp_all add: bad_request_def internal_error_def failResolve_def failJobSubmit_def Let_def)

lemma spoken_authorize: "spoken (srv_trail st) (srv_trail (snd (authorizeGraded env w v extra m parts ordered conf s grade st)))"
  by (auto simp: authorizeGraded_def Let_def split: prod.split option.split)

lemma spoken_made: "spoken t0 (srv_trail st) \<Longrightarrow> spoken t0 (srv_trail (snd (trash_made e w dir st)))"
proof -
  assume "spoken t0 (srv_trail st)"
  then have "spoken t0 (srv_trail (emit (MadeTrash dir) st))" by (simp add: emit_def spoken_def)
  then show ?thesis by (simp add: trash_made_def)
qed

lemma spoken_ensure: "spoken t0 (srv_trail st) \<Longrightarrow> spoken t0 (srv_trail (snd (ensure_loop e w rs dn st)))"
proof (induction rs arbitrary: dn st)
  case (Cons r rs)
  obtain req p where r: "r = (req, p)" by fastforce
  show ?case
  proof (cases "je_os e p")
    case None
    then show ?thesis using Cons.prems r by simp
  next
    case (Some os)
    show ?thesis
    proof (cases "je_ensure e (srv_trail st) os")
      case (Ensured dir made)
      obtain refused st1 where m: "trash_made e w dir st = (refused, st1)" by fastforce
      have "spoken t0 (srv_trail st1)" using spoken_made [OF Cons.prems, of e w dir] m by simp
      then show ?thesis using Some Ensured m Cons.prems r Cons.IH by (simp add: Let_def)
    qed (use Some Cons.prems r Cons.IH in \<open>simp_all add: Let_def\<close>)
  qed
qed simp

text \<open>The end of a mutating route: nothing, or one submission right behind its intent line.\<close>

definition submitted_only :: "server \<Rightarrow> job_plan \<Rightarrow> server \<Rightarrow> bool" where
  "submitted_only st jp st' \<longleftrightarrow>
     submissions (srv_trail st') = jp # submissions (srv_trail st) \<and> runs (srv_trail st') = runs (srv_trail st)
     \<and> dispatches (srv_trail st') = dispatches (srv_trail st)"

lemma intend_submit_cases:
  assumes "\<And>st'. spoken (srv_trail st) (srv_trail st') \<Longrightarrow> Q st'"
    and "\<And>i st'. submitted_only st (plan i) st' \<Longrightarrow>
      (env_auditor e \<Longrightarrow> jp_op (plan i) = mut_op m \<Longrightarrow> disciplined (srv_trail st') = disciplined (srv_trail st)) \<Longrightarrow> Q st'"
  shows "Q (intend_submit e w m big detail plan st)"
proof (cases "je_id e (srv_trail st)")
  case None
  then show ?thesis by (simp add: intend_submit_def assms(1))
next
  case (Some i)
  obtain go st1 where a: "auditIntent (base_env e) w m big (detail i) st = (go, st1)" by fastforce
  have sp: "spoken (srv_trail st) (srv_trail st1)"
  proof -
    obtain refused st2 where w: "writeAuditDetail (base_env e) w m ''intent'' [] [] (detail i) big st = (refused, st2)" by fastforce
    have "spoken (srv_trail st) (srv_trail st2)" using spoken_audit [of "srv_trail st" "base_env e" w m "''intent''" "[]" "[]" "detail i" big st] w by simp
    then show ?thesis using a w by (auto simp: auditIntent_def split: if_splits)
  qed
  show ?thesis
  proof (cases go)
    case False
    then show ?thesis using Some a assms(1) sp by (simp add: intend_submit_def)
  next
    case True
    show ?thesis
    proof (cases "je_submit e (srv_trail st1) (plan i)")
      case (Some x)
      then show ?thesis using \<open>je_id e (srv_trail st) = Some i\<close> a True assms(1) sp by (simp add: intend_submit_def submit_plan_def)
    next
      case None
      let ?st = "say (RJob (jp_id (plan i))) (emit (Submitted (plan i)) st1)"
      have r: "intend_submit e w m big detail plan st = ?st" using Some a True None by (simp add: intend_submit_def submit_plan_def)
      have "submitted_only st (plan i) ?st" using sp by (simp add: submitted_only_def spoken_def say_def emit_def)
      moreover have "disciplined (srv_trail ?st) = disciplined (srv_trail st)" if "env_auditor e" "jp_op (plan i) = mut_op m"
        using auditIntent_go(1) [of "base_env e" w m big "detail i" st st1] a True that sp by (simp add: spoken_def say_def emit_def env.defs)
      ultimately show ?thesis unfolding r by (rule assms(2))
    qed
  qed
qed

subsection \<open>Recursive delete\<close>

lemma submitted_after: "spoken (srv_trail st) (srv_trail st1) \<Longrightarrow> submitted_only st1 jp st' \<Longrightarrow> submitted_only st jp st'"
  by (simp add: submitted_only_def spoken_def)

lemma verdict_delete: "guard_verdict (delete_verdict g paths resolved)"
  unfolding delete_verdict_def
  by (rule guard_verdict_worstGuard) (auto simp: list_all_iff delete_checks_def)

lemma verdict_delete_allows:
  assumes "sev (delete_verdict g paths resolved) \<noteq> Denied" "length resolved = length paths" "p \<in> set paths \<union> set resolved"
  shows "sev (Check g OpDelete p) \<noteq> Denied"
proof -
  obtain n where n: "n < length paths" "p = paths ! n \<or> p = resolved ! n" using assms(2,3) by (auto simp: in_set_conv_nth)
  then have "(paths ! n, resolved ! n) \<in> set (zip paths resolved)" using assms(2) by (auto simp: set_zip)
  then have "Check g OpDelete p \<in> set (concat (map (\<lambda>(p, q). delete_checks g p q) (zip paths resolved)))"
    using n(2) by (force simp: delete_checks_def)
  then show ?thesis
    using assms(1) unfolding delete_verdict_def sev_worstGuard strictest_Denied by (auto simp: list_ex_iff)
qed

lemma delete_confirmed_cases:
  assumes stop: "\<And>st'. spoken (srv_trail st) (srv_trail st') \<Longrightarrow> Q st'"
    and go: "\<And>i big d st'. sev (delete_verdict (guard_now (base_env e) st) paths resolved) \<noteq> Denied \<Longrightarrow>
      token_accepted (base_env e) (jd_Confirm b) ''delete'' (deleteJobTokenParts mode (jd_CrossMounts b) paths) True st \<Longrightarrow>
      submitted_only st (delete_plan b mode paths resolved big d i) st' \<Longrightarrow>
      (env_auditor e \<Longrightarrow> disciplined (srv_trail st') = disciplined (srv_trail st)) \<Longrightarrow> Q st'"
  shows "Q (delete_confirmed e w b mode paths resolved tot st)"
proof -
  let ?v = "delete_verdict (guard_now (base_env e) st) paths resolved"
  let ?m = "\<lparr>mut_op = ''delete'', mut_path = hd paths, mut_dst = [], mut_files = int (length paths), mut_bytes = tot\<rparr>"
  let ?s = "\<lparr>sum_Files = int (length paths), sum_Bytes = tot,
     sum_Warnings = delete_job_warnings (guard_now (base_env e) st) (mode = ''permanent'') (zip paths resolved), sum_Capped = False\<rparr>"
  obtain b1 st1 where a: "authorizeGraded (base_env e) w ?v True ?m (deleteJobTokenParts mode (jd_CrossMounts b) paths) True
      (jd_Confirm b) ?s 0 st = (b1, st1)" by fastforce
  have sp1: "spoken (srv_trail st) (srv_trail st1)"
    using spoken_authorize [of st "base_env e" w ?v True ?m "deleteJobTokenParts mode (jd_CrossMounts b) paths" True "jd_Confirm b" ?s 0] a by simp
  show ?thesis
  proof (cases b1)
    case False
    then show ?thesis using a stop sp1 by (simp add: delete_confirmed_def Let_def)
  next
    case True
    obtain ok st2 where en: "(if mode = ''permanent'' then (True, st1) else ensureTrashRoots e w paths resolved st1) = (ok, st2)" by fastforce
    have sp2: "spoken (srv_trail st) (srv_trail st2)"
      using spoken_ensure [OF sp1, of e w "zip paths resolved" "[]"] en sp1 by (auto simp: ensureTrashRoots_def split: if_splits)
    have "authorizeGraded (base_env e) w ?v True ?m (deleteJobTokenParts mode (jd_CrossMounts b) paths) True (jd_Confirm b) ?s 0 st = (True, st1)"
      using a True by simp
    note ag = authorizeGraded_go [OF this verdict_delete]
    show ?thesis
    proof (cases ok)
      case False
      then show ?thesis using a True en stop sp2 by (simp add: delete_confirmed_def Let_def)
    next
      case ok: True
      have "Q (intend_submit e w ?m big det (delete_plan b mode paths resolved big md) st2)" for big det md
      proof (rule intend_submit_cases)
        fix st' :: server assume "spoken (srv_trail st2) (srv_trail st')"
        then show "Q st'" by (intro stop) (rule spoken_trans [OF sp2])
      next
        fix i st'
        assume s: "submitted_only st2 (delete_plan b mode paths resolved big md i) st'"
          and d: "env_auditor e \<Longrightarrow> jp_op (delete_plan b mode paths resolved big md i) = mut_op ?m \<Longrightarrow> disciplined (srv_trail st') = disciplined (srv_trail st2)"
        have "jp_op (delete_plan b mode paths resolved big md i) = mut_op ?m" by (simp add: delete_plan_def)
        then show "Q st'" using go [OF _ _ submitted_after [OF sp2 s]] ag(1,4) d sp2 by (simp add: spoken_def)
      qed
      then show ?thesis using a True en ok by (simp add: delete_confirmed_def Let_def)
    qed
  qed
qed

lemma resolve_all_length: "resolve_all env tr f ps = Inr qs \<Longrightarrow> length qs = length ps"
  by (induction ps arbitrary: qs) (auto split: sum.splits)

definition delete_mode :: "job_delete_body \<Rightarrow> string" where
  "delete_mode b = (if jd_Mode b = [] then ''trash'' else jd_Mode b)"

lemma jobDelete_cases:
  assumes "\<And>st'. spoken (srv_trail st) (srv_trail st') \<Longrightarrow> Q st'"
    and "\<And>paths resolved i big d st'. jobPaths (jd_Paths b) = Some paths \<Longrightarrow> resolve_all (base_env e) (srv_trail st) False paths = Inr resolved \<Longrightarrow>
      sev (delete_verdict (guard_now (base_env e) st) paths resolved) \<noteq> Denied \<Longrightarrow>
      token_accepted (base_env e) (jd_Confirm b) ''delete'' (deleteJobTokenParts (delete_mode b) (jd_CrossMounts b) paths) True st \<Longrightarrow>
      submitted_only st (delete_plan b (delete_mode b) paths resolved big d i) st' \<Longrightarrow>
      (env_auditor e \<Longrightarrow> disciplined (srv_trail st') = disciplined (srv_trail st)) \<Longrightarrow> Q st'"
  shows "Q (jobDelete e w b st)"
proof -
  have c: "Q (delete_confirmed e w b (delete_mode b) paths resolved tot st)"
    if "jobPaths (jd_Paths b) = Some paths" "resolve_all (base_env e) (srv_trail st) False paths = Inr resolved" for paths resolved tot
    by (rule delete_confirmed_cases [OF assms(1)], assumption) (rule assms(2) [OF that])
  show ?thesis
    using c assms(1) unfolding jobDelete_def Let_def delete_mode_def [symmetric]
    by (auto split: option.split sum.split)
qed

subsection \<open>Roots\<close>

lemma prefixed_by_join: "xs \<noteq> [] \<Longrightarrow> prefixed_by c xs = c # join_with c xs"
  by (induction xs rule: induct_list012) (auto simp: prefixed_by_def)

lemma join_with_append: "xs \<noteq> [] \<Longrightarrow> ys \<noteq> [] \<Longrightarrow> join_with c (xs @ ys) = join_with c xs @ c # join_with c ys"
  by (induction xs rule: induct_list012) (auto simp: neq_Nil_conv)

lemma trim_suffix_slash_render:
  assumes "\<And>c. c \<in> set cs \<Longrightarrow> valid_comp c"
  shows "trim_suffix_slash (render cs) = (if cs = [] then [] else render cs)"
proof (cases "cs = []")
  case False
  have l: "last cs \<noteq> []" "CHR ''/'' \<notin> set (last cs)" using assms [of "last cs"] False by (auto simp: valid_comp_iff)
  have "render cs = prefixed_by CHR ''/'' (butlast cs) @ CHR ''/'' # last cs"
    using False by (subst append_butlast_last_id [of cs, symmetric]) (simp_all add: render_def prefixed_by_def del: append_butlast_last_id)
  then have "last (render cs) = last (last cs)" using l by simp
  then have "last (render cs) \<noteq> CHR ''/''" using l last_in_set by fastforce
  then have "\<not> has_suffix (render cs) ''/''"
    by (auto simp: has_suffix_iff suffix_def)
  then show ?thesis using False by (simp add: trim_suffix_slash_def)
qed (simp add: trim_suffix_slash_def render_def has_suffix_iff)

lemma clean_path_facts:
  assumes "clean_path p"
  shows "p = render (comps p)" and "c \<in> set (comps p) \<Longrightarrow> valid_comp c"
  using clean_pathE [OF assms] by auto

lemma underRoot_clean:
  assumes "clean_path p" "clean_path r"
  shows "underRoot p r \<longleftrightarrow> prefix (comps r) (comps p)"
proof -
  note rp = clean_path_facts [OF assms(1)] and rr = clean_path_facts [OF assms(2)]
  have t: "trim_suffix_slash r = (if comps r = [] then [] else r)"
    using trim_suffix_slash_render [of "comps r"] rr by metis
  have "underRoot p r \<longleftrightarrow> IsWithin p r"
  proof (cases "comps r = []")
    case True
    then have "r = ''/''" using rr by (metis render_def)
    then show ?thesis using t True rp has_prefix_render path_clean_id assms
      by (metis IsWithin_def append_Nil underRoot_def list.distinct(1))
  next
    case False
    then have "r \<noteq> ''/''" using rr render_root_iff by metis
    moreover have "r \<noteq> []" using assms(2) by (auto simp: clean_path_def Clean_def)
    ultimately show ?thesis using t False assms by (simp add: underRoot_def IsWithin_def path_clean_id)
  qed
  then show ?thesis using assms by (simp add: IsWithin_comps)
qed

lemma Join_rel:
  assumes "clean_path req" "ds \<noteq> []" "\<And>d. d \<in> set ds \<Longrightarrow> valid_comp d"
  shows "Join req [join_with CHR ''/'' ds] = render (comps req @ ds)"
proof -
  note rr = clean_path_facts [OF assms(1)]
  let ?j = "join_with CHR ''/'' ds"
  have nj: "?j \<noteq> []" using assms(2,3) by (cases ds rule: remdups_adj.cases) (auto simp: valid_comp_iff)
  have nr: "req \<noteq> []" using assms(1) by (auto simp: clean_path_def Clean_def)
  have sl: "\<And>d. d \<in> set ds \<Longrightarrow> CHR ''/'' \<notin> set d" using assms(3) by (simp add: valid_comp_iff)
  have sj: "split_on CHR ''/'' ?j = ds" using assms(2) sl by (intro split_join) auto
  have sp: "foldl (clean_step True) [] (split_on CHR ''/'' (req @ CHR ''/'' # ?j)) = rev (comps req @ ds)"
  proof (cases "comps req = []")
    case True
    then have "req = ''/''" using rr by (metis render_def)
    then have "split_on CHR ''/'' (req @ CHR ''/'' # ?j) = [] # [] # ds" using sj by simp
    then show ?thesis using True foldl_clean_step [OF assms(3), of ds True "[]"] by (simp add: clean_step_def)
  next
    case False
    have "req @ CHR ''/'' # ?j = prefixed_by CHR ''/'' (comps req @ ds)"
      using rr(1) False assms(2) by (metis prefixed_by_append prefixed_by_join render_def)
    then have "split_on CHR ''/'' (req @ CHR ''/'' # ?j) = [] # (comps req @ ds)"
      using split_on_prefixed_by [of "comps req @ ds" "CHR ''/''"] rr(2) sl by (auto simp: valid_comp_iff)
    moreover have "foldl (clean_step True) [] (comps req @ ds) = rev (comps req @ ds)"
      using foldl_clean_step [of "comps req @ ds" True "[]"] rr(2) assms(3) by auto
    ultimately show ?thesis by (simp add: clean_step_def)
  qed
  have "has_prefix (req @ CHR ''/'' # ?j) ''/''"
    using has_prefix_render [of "comps req"] rr(1) by (auto simp: has_prefix_iff prefix_def)
  then show ?thesis using nj nr sp by (simp add: Join_def path_join_def path_clean_def)
qed

text \<open>The loop keeps the longest resolved root containing the path, the first of equals.\<close>

definition root_inv :: "string \<Rightarrow> (string \<times> string) set \<Rightarrow> (string \<times> string) option \<Rightarrow> bool" where
  "root_inv p rs best \<longleftrightarrow> (case best of
       None \<Rightarrow> (\<forall>(q, r) \<in> rs. \<not> underRoot p r)
     | Some (req, res) \<Rightarrow> (req, res) \<in> rs \<and> underRoot p res \<and> (\<forall>(q, r) \<in> rs. underRoot p r \<longrightarrow> length r \<le> length res))"

lemma root_inv_step: "root_inv p rs best \<Longrightarrow> root_inv p (insert (q, r) rs) (better_root p best (q, r))"
  by (cases best) (fastforce simp: root_inv_def)+

lemma root_inv_fold: "root_inv p rs best \<Longrightarrow> root_inv p (rs \<union> set xs) (foldl (better_root p) best xs)"
proof (induction xs arbitrary: rs best)
  case (Cons x xs)
  obtain q r where x: "x = (q, r)" by fastforce
  show ?case using Cons.IH [OF root_inv_step [OF Cons.prems, of q r]] x by simp
qed simp

lemma root_inv_best: "root_inv p (set rs) (best_root p rs)"
  using root_inv_fold [of p "{}" None rs] by (simp add: best_root_def root_inv_def)

lemma mapPath_under:
  assumes "clean_path p" "clean_path req" "clean_path res" "best_root p (zip reqs ress) = Some (req, res)"
  shows "comps (mapPath reqs ress p) = comps req @ drop (length (comps res)) (comps p)" and "clean_path (mapPath reqs ress p)"
proof -
  note rp = clean_path_facts [OF assms(1)] and rr = clean_path_facts [OF assms(3)]
  have "underRoot p res" using root_inv_best [of p "zip reqs ress"] assms(4) by (simp add: root_inv_def)
  then have "prefix (comps res) (comps p)" using underRoot_clean assms(1,3) by blast
  then obtain ds where ds: "comps p = comps res @ ds" by (auto simp: prefix_def)
  have vd: "\<And>d. d \<in> set ds \<Longrightarrow> valid_comp d" using ds rp(2) by auto
  have pn: "p \<noteq> []" using assms(1) by (auto simp: clean_path_def Clean_def)
  have m: "mapPath reqs ress p = render (comps req @ ds)"
  proof (cases "p = res")
    case True
    then have "ds = []" using ds by simp
    then show ?thesis using True pn assms(4) clean_path_facts [OF assms(2)] by (simp add: mapPath_def)
  next
    case False
    then have dn: "ds \<noteq> []" using ds clean_path_comps_inject [OF assms(1,3)] by auto
    have t: "trim_suffix_slash res = prefixed_by CHR ''/'' (comps res)"
      using trim_suffix_slash_render [of "comps res"] rr by (metis prefixed_by_Nil_iff render_def)
    have "p = prefixed_by CHR ''/'' (comps res) @ CHR ''/'' # join_with CHR ''/'' ds"
      using rp(1) ds dn prefixed_by_join [OF dn] by (simp add: render_def)
    then have "drop (length (trim_suffix_slash res) + 1) p = join_with CHR ''/'' ds" using t by simp
    then show ?thesis using False pn assms(4) Join_rel [OF assms(2) dn vd] by (simp add: mapPath_def)
  qed
  have v: "valid_comp c" if "c \<in> set (comps req @ ds)" for c using that vd clean_path_facts [OF assms(2)] by auto
  show "comps (mapPath reqs ress p) = comps req @ drop (length (comps res)) (comps p)"
    using m comps_render [of "comps req @ ds"] v ds by simp
  show "clean_path (mapPath reqs ress p)" unfolding m clean_path_iff using v by blast
qed

subsection \<open>When a queued job starts\<close>

lemma recheck_loop_None: "recheck_loop g cs = None \<longleftrightarrow> list_all (\<lambda>(op1, p). sev (Check g op1 p) \<noteq> Denied) cs"
proof (induction g cs rule: recheck_loop.induct)
  case (2 g op1 p cs)
  show ?case
  proof (cases "Check g op1 p")
    case None
    then show ?thesis using 2 by (simp add: sev_def)
  next
    case (Some r)
    obtain s why where "r = (s, why)" by fastforce
    then show ?thesis using 2(2) [OF Some, of s why] Some by (simp add: sev_def)
  qed
qed simp

lemma recheck_loop_Some: "recheck_loop g cs = Some code \<Longrightarrow> code = ''read_only'' \<or> code = ''protected''"
proof (induction g cs rule: recheck_loop.induct)
  case (2 g op1 p cs)
  show ?case
  proof (cases "Check g op1 p")
    case None
    then show ?thesis using 2 by simp
  next
    case (Some r)
    obtain s why where r: "r = (s, why)" by fastforce
    have "s \<in> {ErrReadOnly, ErrProtected, ErrConfirmRequired}"
      using guard_verdict_Check [of g op1 p] Some r by (simp add: guard_verdict_def)
    then show ?thesis using 2 Some r by auto
  qed
qed simp

lemma recheckGuard_None:
  "recheckGuard g cs = None \<longleftrightarrow> \<not> readOnly g \<and> list_all (\<lambda>(op1, p). sev (Check g op1 p) \<noteq> Denied) (flat_checks cs)"
  by (simp add: recheckGuard_def recheck_loop_None)

lemma recheckGuard_Some: "recheckGuard g cs = Some code \<Longrightarrow> code \<in> set denial_codes"
  using recheck_loop_Some [of g "flat_checks cs" code] by (auto simp: recheckGuard_def denial_codes_def split: if_splits)

subsection \<open>The result line\<close>

lemma finish_cases:
  fixes j warnings skipped
  defines "r \<equiv> fst (jobFinishOutcome j warnings skipped)"
  shows "r = ''ok'' \<longleftrightarrow> j_State j \<noteq> StateCancelled \<and> j_State j \<noteq> StateFailed \<and> warnings = 0 \<and> skipped \<le> 0"
    and "r = ''denied'' \<longleftrightarrow> j_State j = StateFailed \<and> j_ErrCode j \<in> set denial_codes"
    and "r = ''cancelled'' \<longleftrightarrow> j_State j = StateCancelled"
  unfolding r_def jobFinishOutcome_def denial_codes_def by (auto simp: Let_def)

definition finish_event :: "who \<Rightarrow> job_plan \<Rightarrow> job \<Rightarrow> job_result option \<Rightarrow> audit_line" where
  "finish_event actor jp j view =
     (case finish_counts j view of (files, n, warnings, skipped) \<Rightarrow>
        case jobFinishOutcome j warnings skipped of (result, code) \<Rightarrow>
            \<lparr>al_who = actor,
             al_mut = \<lparr>mut_op = jp_op jp, mut_path = jp_path jp, mut_dst = [], mut_files = files, mut_bytes = n\<rparr>,
             al_Phase = ''result'', al_Result = result, al_Code = code,
             al_ForceMilestone = jobMilestone (jp_milestone jp) result files n,
             al_Detail = finish_detail j (jp_detail jp) (result, code) (files, n, warnings, skipped), al_Job = jp_id jp\<rparr>)"

lemma auditJobFinish_event: "auditJobFinish e actor jp j view st = jobAudit e (finish_event actor jp j view) st"
  by (simp add: auditJobFinish_def finish_event_def split: prod.split)

definition skipped_of :: "job_result option \<Rightarrow> int" where
  "skipped_of view = (case view of None \<Rightarrow> 0 | Some v \<Rightarrow> jr_Skipped v)"

definition warnings_of :: "job \<Rightarrow> job_result option \<Rightarrow> nat" where
  "warnings_of j view = (case view of None \<Rightarrow> j_WarningCount j | Some v \<Rightarrow> max (j_WarningCount j) (jr_Warnings v))"

lemma finish_event_result:
  "al_Result (finish_event actor jp j view) = fst (jobFinishOutcome j (warnings_of j view) (skipped_of view))"
  by (simp add: finish_event_def finish_counts_def warnings_of_def skipped_of_def split: option.split prod.split)

text \<open>
  C26: One result line per job, and it is honest: the hook writes exactly one line, carrying the job's id and the
  account that submitted it; it says "ok" only for a job that finished with no warning counted by the manager or
  by the worker and nothing skipped, "denied" exactly when the job failed with one of the five denial codes (read_only,
  readonly, protected, confirm_required, confirm_invalid), whichever of the check at its start and the worker gave it,
  and a denial goes through the durable sink.
\<close>

theorem result_line_honest:
  assumes "env_auditor e"
  shows "\<exists>x ev. srv_trail (auditJobFinish e actor jp j view st) = x # srv_trail st
     \<and> (if al_ForceMilestone ev then \<exists>saved. x = Durable ev saved else x = Async ev)
     \<and> al_Phase ev = ''result'' \<and> al_Job ev = jp_id jp \<and> al_who ev = actor \<and> mut_op (al_mut ev) = jp_op jp
     \<and> (al_Result ev = ''ok'' \<longleftrightarrow> j_State j \<noteq> StateCancelled \<and> j_State j \<noteq> StateFailed
                              \<and> j_WarningCount j = 0 \<and> warnings_of j view = 0 \<and> skipped_of view \<le> 0)
     \<and> (al_Result ev = ''denied'' \<longleftrightarrow> j_State j = StateFailed \<and> j_ErrCode j \<in> set denial_codes)
     \<and> \<not> (al_Result ev = ''denied'' \<and> \<not> al_ForceMilestone ev)"
proof -
  let ?ev = "finish_event actor jp j view"
  have w: "warnings_of j view = 0 \<Longrightarrow> j_WarningCount j = 0"
    by (auto simp: warnings_of_def split: option.splits)
  have f: "al_Phase ?ev = ''result''" "al_Job ?ev = jp_id jp" "al_who ?ev = actor" "mut_op (al_mut ?ev) = jp_op jp"
    "al_Result ?ev = ''denied'' \<Longrightarrow> al_ForceMilestone ?ev"
    by (simp_all add: finish_event_def jobMilestone_def split: prod.splits)
  have t: "srv_trail (auditJobFinish e actor jp j view st)
      = (if al_ForceMilestone ?ev then Durable ?ev (env_saves e (srv_trail st)) else Async ?ev) # srv_trail st"
    using assms f(1) by (simp add: auditJobFinish_event jobAudit_def emit_def)
  show ?thesis
    using t f finish_cases(1,2) [of j "warnings_of j view" "skipped_of view"] w
    by (intro exI [of _ ?ev] exI [of _ "if al_ForceMilestone ?ev then Durable ?ev (env_saves e (srv_trail st)) else Async ?ev"])
       (auto simp: finish_event_result)
qed

subsection \<open>The caller's own jobs\<close>

text \<open>
  A job belongs to the account that started it: whoever is neither its owner nor an administrator gets for its
  id exactly the answer of an id that does not exist, cancels nothing, writes no line, and never sees it listed.
\<close>

theorem jobs_private:
  assumes "Get i m = Some j" and "\<not> maySeeJob w j"
  shows "jobGet live w i m = NoSuchJob \<and> jobCancel e w i m st = (NotFound, False, m, st) \<and> j \<notin> set (jobList w m)"
  using assms by (simp add: jobGet_def jobCancel_def jobList_def)

subsection \<open>The recursive delete is guarded\<close>

text \<open>What the route may have submitted: nothing, or the one job the user confirmed and the guard lets through.\<close>

definition delete_admitted :: "job_env \<Rightarrow> job_delete_body \<Rightarrow> server \<Rightarrow> job_plan list \<Rightarrow> bool" where
  "delete_admitted e b st new \<longleftrightarrow> new = [] \<or> (\<exists>paths resolved jp.
     new = [jp] \<and> jobPaths (jd_Paths b) = Some paths \<and> resolve_all (base_env e) (srv_trail st) False paths = Inr resolved \<and>
     jp_op jp = ''delete'' \<and> jp_body jp = BDelete resolved (delete_mode b \<noteq> ''permanent'') (jd_CrossMounts b) \<and>
     jp_requested jp = paths \<and> jp_checks jp = [(OpDelete, paths), (OpDelete, resolved)] \<and>
     token_accepted (base_env e) (jd_Confirm b) ''delete'' (deleteJobTokenParts (delete_mode b) (jd_CrossMounts b) paths) True st \<and>
     list_all (\<lambda>p. sev (Check (guard_now (base_env e) st) OpDelete p) \<noteq> Denied) (paths @ resolved))"

text \<open>
  C25: A recursive delete reaches the queue only past every check. Whatever it is asked, the route asks the worker for
  nothing itself, and it submits at most one job. That job dispatches exactly the resolved selection in the asked
  mode and scope and will be checked again on both spellings when it starts; a token for this delete, mode, scope
  and selection was accepted, and the guard denies the delete of no requested and no resolved path.
\<close>

theorem job_delete_guarded:
  "\<exists>new. submissions (srv_trail (jobDelete e w b st)) = new @ submissions (srv_trail st) \<and> delete_admitted e b st new
    \<and> runs (srv_trail (jobDelete e w b st)) = runs (srv_trail st)
    \<and> dispatches (srv_trail (jobDelete e w b st)) = dispatches (srv_trail st)"
proof (rule jobDelete_cases)
  fix st' :: server assume "spoken (srv_trail st) (srv_trail st')"
  then show "\<exists>new. submissions (srv_trail st') = new @ submissions (srv_trail st) \<and> delete_admitted e b st new
    \<and> runs (srv_trail st') = runs (srv_trail st) \<and> dispatches (srv_trail st') = dispatches (srv_trail st)"
    by (simp add: spoken_def delete_admitted_def)
next
  fix paths resolved i big d and st' :: server
  assume p: "jobPaths (jd_Paths b) = Some paths" and r: "resolve_all (base_env e) (srv_trail st) False paths = Inr resolved"
    and v: "sev (delete_verdict (guard_now (base_env e) st) paths resolved) \<noteq> Denied"
    and t: "token_accepted (base_env e) (jd_Confirm b) ''delete'' (deleteJobTokenParts (delete_mode b) (jd_CrossMounts b) paths) True st"
    and s: "submitted_only st (delete_plan b (delete_mode b) paths resolved big d i) st'"
  have "list_all (\<lambda>p. sev (Check (guard_now (base_env e) st) OpDelete p) \<noteq> Denied) (paths @ resolved)"
    unfolding list_all_iff using verdict_delete_allows [OF v resolve_all_length [OF r]] by simp
  with p r t have "delete_admitted e b st [delete_plan b (delete_mode b) paths resolved big d i]"
    unfolding delete_admitted_def by (auto simp: delete_plan_def)
  with s show "\<exists>new. submissions (srv_trail st') = new @ submissions (srv_trail st) \<and> delete_admitted e b st new
    \<and> runs (srv_trail st') = runs (srv_trail st) \<and> dispatches (srv_trail st') = dispatches (srv_trail st)"
    unfolding submitted_only_def by (intro exI [of _ "[delete_plan b (delete_mode b) paths resolved big d i]"]) simp
qed

subsection \<open>Spellings and sentences\<close>

lemma best_root_map:
  assumes "length ress = length reqs" "best_root p (zip reqs ress) = Some (req, res)"
  shows "(req, res) \<in> set (zip reqs ress) \<and> underRoot p res \<and> list_all (\<lambda>r. \<not> (underRoot p r \<and> length res < length r)) ress"
proof -
  have i: "root_inv p (set (zip reqs ress)) (Some (req, res))" using root_inv_best [of p "zip reqs ress"] assms(2) by simp
  have "\<exists>q. (q, r) \<in> set (zip reqs ress)" if "r \<in> set ress" for r
    using that assms(1) by (auto simp: in_set_conv_nth set_zip)
  then show ?thesis using i by (force simp: root_inv_def list_all_iff)
qed

text \<open>
  The path a job publishes is the caller's own spelling. For clean paths, a path the worker reports under a
  resolved root becomes the root as it was asked for followed by exactly the remaining components, the root being
  the longest of those that contain it, so the published path is inside the selection; a path under no resolved
  root is published as the first root asked for.
\<close>

theorem mapPath_confined:
  assumes "Clean p = Inr p" and "list_all (\<lambda>r. Clean r = Inr r) requested" and "list_all (\<lambda>r. Clean r = Inr r) resolved"
    and "length resolved = length requested" and "requested \<noteq> []"
  shows "if list_ex (\<lambda>r. prefix (comps r) (comps p)) resolved
    then \<exists>req res. (req, res) \<in> set (zip requested resolved) \<and> prefix (comps res) (comps p)
      \<and> list_all (\<lambda>r. \<not> (prefix (comps r) (comps p) \<and> length res < length r)) resolved
      \<and> Clean (mapPath requested resolved p) = Inr (mapPath requested resolved p)
      \<and> comps (mapPath requested resolved p) = comps req @ drop (length (comps res)) (comps p)
    else mapPath requested resolved p = hd requested"
proof -
  have cp: "clean_path p" using assms(1) by (simp add: clean_path_def)
  have cr: "\<And>r. r \<in> set requested \<Longrightarrow> clean_path r" "\<And>r. r \<in> set resolved \<Longrightarrow> clean_path r"
    using assms(2,3) by (simp_all add: clean_path_def list_all_iff)
  have u: "\<And>r. r \<in> set resolved \<Longrightarrow> underRoot p r \<longleftrightarrow> prefix (comps r) (comps p)"
    using underRoot_clean [OF cp] cr(2) by blast
  show ?thesis
  proof (cases "best_root p (zip requested resolved)")
    case None
    have ex: "\<exists>q. (q, r) \<in> set (zip requested resolved)" if "r \<in> set resolved" for r
      using that assms(4) by (auto simp: in_set_conv_nth set_zip)
    have "root_inv p (set (zip requested resolved)) None" using root_inv_best [of p "zip requested resolved"] None by simp
    then have "\<not> list_ex (\<lambda>r. prefix (comps r) (comps p)) resolved"
      using ex u unfolding root_inv_def list_ex_iff by force
    moreover have "p \<noteq> []" using assms(1) by (auto simp: Clean_def)
    then have "mapPath requested resolved p = hd requested"
      using None assms(5) by (cases requested) (simp_all add: mapPath_def)
    ultimately show ?thesis by simp
  next
    case (Some x)
    obtain req res where x: "best_root p (zip requested resolved) = Some (req, res)" using Some by (cases x) simp
    note b = best_root_map [OF assms(4) x]
    have m: "req \<in> set requested" "res \<in> set resolved" using b by (auto dest: set_zip_leftD set_zip_rightD)
    note mp = mapPath_under [OF cp cr(1) [OF m(1)] cr(2) [OF m(2)] x]
    have pr: "prefix (comps res) (comps p)" using b u [OF m(2)] by simp
    then have "list_ex (\<lambda>r. prefix (comps r) (comps p)) resolved" using m(2) by (auto simp: list_ex_iff)
    moreover have "list_all (\<lambda>r. \<not> (prefix (comps r) (comps p) \<and> length res < length r)) resolved"
      using b u by (auto simp: list_all_iff)
    ultimately show ?thesis using b pr mp unfolding clean_path_def by auto
  qed
qed

theorem mapPath_confined_witness:
  "mapPath [''/share/Public''] [''/share/CACHEDEV1_DATA/Public''] ''/share/CACHEDEV1_DATA/Public/a/b'' = ''/share/Public/a/b'' \<and>
   comps (mapPath [''/share/Public''] [''/share/CACHEDEV1_DATA/Public''] ''/share/CACHEDEV1_DATA/Public/a/b'') = [''share'', ''Public'', ''a'', ''b'']"
proof -
  have h: "Clean ''/share/CACHEDEV1_DATA/Public/a/b'' = Inr ''/share/CACHEDEV1_DATA/Public/a/b''"
    "list_all (\<lambda>r. Clean r = Inr r) [''/share/Public'']" "list_all (\<lambda>r. Clean r = Inr r) [''/share/CACHEDEV1_DATA/Public'']"
    "length [''/share/CACHEDEV1_DATA/Public''] = length [''/share/Public'']" "[''/share/Public''] \<noteq> []"
    by code_simp+
  have c: "comps ''/share/CACHEDEV1_DATA/Public/a/b'' = [''share'', ''CACHEDEV1_DATA'', ''Public'', ''a'', ''b'']"
    "comps ''/share/CACHEDEV1_DATA/Public'' = [''share'', ''CACHEDEV1_DATA'', ''Public'']" "comps ''/share/Public'' = [''share'', ''Public'']"
    by code_simp+
  have m: "mapPath [''/share/Public''] [''/share/CACHEDEV1_DATA/Public''] ''/share/CACHEDEV1_DATA/Public/a/b'' = ''/share/Public/a/b''"
    by code_simp
  have "list_ex (\<lambda>r. prefix (comps r) (comps ''/share/CACHEDEV1_DATA/Public/a/b'')) [''/share/CACHEDEV1_DATA/Public'']"
    by (simp add: c)
  then show ?thesis using mapPath_confined [OF h] m by (simp add: c)
qed

lemma utf8_take:
  "utf8_valid s \<Longrightarrow> k < length s \<Longrightarrow> RuneStart (s ! k) \<Longrightarrow> utf8_valid (take k s)"
proof (induction s arbitrary: k rule: utf8_valid.induct)
  case (2 a s)
  show ?case
  proof (cases k)
    case (Suc k1)
    show ?thesis
    proof (cases "in_range 0 127 a")
      case True
      then show ?thesis using 2 Suc by simp
    next
      case na: False
      then obtain b s1 where s: "s = b # s1" using 2(5) by (cases s) auto
      have nb: "in_range 128 191 b" using 2(5) na s
        by (auto simp: in_range_def split: list.splits if_splits)
      then obtain k2 where k2: "k1 = Suc k2" using 2(6,7) Suc s by (cases k1) (auto simp: RuneStart_def)
      show ?thesis
      proof (cases "in_range 194 223 a")
        case True
        then show ?thesis using 2(2) [OF na s True] 2(5,6,7) na s Suc k2 by simp
      next
        case n2: False
        then obtain c s2 where s1: "s1 = c # s2" using 2(5) na s by (cases s1) auto
        have nc: "in_range 128 191 c" using 2(5) na s n2 s1 by (auto split: list.splits if_splits)
        then obtain k3 where k3: "k2 = Suc k3" using 2(6,7) Suc s k2 s1 by (cases k2) (auto simp: RuneStart_def)
        show ?thesis
        proof (cases "in_range 224 239 a")
          case True
          then show ?thesis using 2(3) [OF na s n2 s1 True] 2(5,6,7) na s n2 s1 Suc k2 k3 by (simp split: if_splits)
        next
          case n3: False
          then obtain d s3 where s2: "s2 = d # s3" using 2(5) na s n2 s1 by (cases s2) auto
          have nd: "in_range 128 191 d" using 2(5) na s n2 s1 n3 s2 by simp
          then obtain k4 where k4: "k3 = Suc k4" using 2(6,7) Suc s k2 s1 k3 s2 by (cases k3) (auto simp: RuneStart_def)
          show ?thesis
            using 2(4) [OF na s n2 s1 n3 s2] 2(5,6,7) na s n2 s1 n3 s2 Suc k2 k3 k4 by (simp split: if_splits)
        qed
      qed
    qed
  qed simp
qed simp

lemma utf8_append: "utf8_valid s \<Longrightarrow> utf8_valid t \<Longrightarrow> utf8_valid (s @ t)"
proof (induction s rule: utf8_valid.induct)
  case (2 a s)
  show ?case
  proof (cases "in_range 0 127 a")
    case True
    then show ?thesis using 2 by simp
  next
    case na: False
    then obtain b s1 where s: "s = b # s1" using 2(5) by (cases s) auto
    show ?thesis
    proof (cases "in_range 194 223 a")
      case True
      then show ?thesis using 2(2) [OF na s True] 2(5,6) na s by simp
    next
      case n2: False
      then obtain c s2 where s1: "s1 = c # s2" using 2(5) na s by (cases s1) auto
      show ?thesis
      proof (cases "in_range 224 239 a")
        case True
        then show ?thesis using 2(3) [OF na s n2 s1 True] 2(5,6) na s n2 s1 by (simp split: if_splits)
      next
        case n3: False
        then obtain d s3 where s2: "s2 = d # s3" using 2(5) na s n2 s1 by (cases s2) auto
        show ?thesis
          using 2(4) [OF na s n2 s1 n3 s2] 2(5,6) na s n2 s1 n3 s2 by (simp split: if_splits)
      qed
    qed
  qed
qed simp

lemma back_to_rune_stop: "back_to_rune s n \<le> n \<and> (back_to_rune s n = 0 \<or> RuneStart (s ! back_to_rune s n))"
  by (induction n) auto

lemma utf8_ellipsis: "utf8_valid ellipsis" "length ellipsis = 3"
  by code_simp+

lemma clipUTF8_utf8: "utf8_valid s \<Longrightarrow> utf8_valid (clipUTF8 s n)"
proof -
  assume v: "utf8_valid s"
  let ?k = "back_to_rune s (n - length ellipsis)"
  show ?thesis
  proof (cases "length s \<le> n \<or> n \<le> length ellipsis")
    case False
    then have "?k < length s" using back_to_rune_stop [of s "n - length ellipsis"] by (simp add: utf8_ellipsis) linarith
    then have "utf8_valid (take ?k s)"
      using back_to_rune_stop [of s "n - length ellipsis"] utf8_take [OF v] by (cases "?k = 0") auto
    then show ?thesis using False utf8_append utf8_ellipsis(1) by (simp add: clipUTF8_def)
  qed (use v in \<open>auto simp: clipUTF8_def\<close>)
qed

lemma clipUTF8_bound: "length (clipUTF8 s n) \<le> n"
  using back_to_rune_stop [of s "n - length ellipsis"] by (auto simp: clipUTF8_def utf8_ellipsis)

lemma clipUTF8_set: "set (clipUTF8 s n) \<subseteq> set s \<union> set ellipsis"
  using set_take_subset [of "back_to_rune s (n - length ellipsis)" s] by (auto simp: clipUTF8_def)

lemma fallback_facts:
  "length modeWarnFallback \<le> maxModeWarnBytes" "CHR ''/'' \<notin> set modeWarnFallback" "CHR 0x5C \<notin> set modeWarnFallback" "utf8_valid modeWarnFallback"
  by code_simp+

text \<open>
  The worker's sentence about one item never leaks a path and never grows: what the console publishes has at most
  240 bytes, no slash and no backslash, and is valid UTF-8 whenever the worker's sentence was.
\<close>

theorem mode_warning_contained:
  "length (modeWarnMessage raw) \<le> 240 \<and> CHR ''/'' \<notin> set (modeWarnMessage raw) \<and> CHR 0x5C \<notin> set (modeWarnMessage raw)
   \<and> (if utf8_valid raw then utf8_valid (modeWarnMessage raw) else True)"
proof (cases "raw = [] \<or> CHR ''/'' \<in> set raw \<or> CHR 0x5C \<in> set raw")
  case True
  then show ?thesis using fallback_facts by (simp add: modeWarnMessage_def maxModeWarnBytes_def)
next
  case False
  have "CHR ''/'' \<notin> set ellipsis" "CHR 0x5C \<notin> set ellipsis" by code_simp+
  then show ?thesis
    using False clipUTF8_bound [of raw 240] clipUTF8_set [of raw 240] clipUTF8_utf8 [of raw 240]
    by (auto simp: modeWarnMessage_def maxModeWarnBytes_def)
qed

subsection \<open>A concrete delete\<close>

definition sample_result :: job_result where
  "sample_result = \<lparr>jr_Files = 1, jr_Dirs = 0, jr_Bytes = 10, jr_Skipped = 0, jr_Warnings = 0, jr_Detail = [], jr_TrashIDs = [],
     jr_MountsSkipped = 0, jr_MountsNetwork = 0, jr_HiddenSkipped = 0, jr_Capped = False, jr_Cancelled = False\<rparr>"

definition sample_job_env :: job_env where
  "sample_job_env = env.extend sample_env
     \<lparr>je_jobs = True, je_trash = True, je_id = \<lambda>_. Some ''0011223344556677'', je_submit = \<lambda>_ _. None,
      je_runner = \<lambda>_ _. (sample_result, None), je_budget = \<lambda>_ _. True, je_os = \<lambda>p. Some p,
      je_trashRoot = \<lambda>_. Some ''/share/CACHEDEV1_DATA'', je_ensure = \<lambda>_ _. Ensured ''/share/CACHEDEV1_DATA/.trash'' False,
      je_trashList = \<lambda>_. Some [], je_now = \<lambda>_. 0\<rparr>"

definition sample_plan :: job_plan where
  "sample_plan = delete_plan \<lparr>jd_Paths = [], jd_Mode = ''trash'', jd_CrossMounts = False, jd_Confirm = []\<rparr> ''trash''
     [''/share/Public/x''] [''/share/CACHEDEV1_DATA/Public/x''] False ''trash'' ''j1''"

definition others_meta :: meta where
  "others_meta = \<lparr>m_Src = [], m_Dst = [], m_Actor = ''bob'', m_UID = 1001, m_ID = ''0011223344556677'', m_OnFinish = True\<rparr>"

definition others_job :: job where
  "others_job = e_job (entry_of ''0011223344556677'' ''delete'' ''t'' others_meta 0)"

definition others_manager :: manager where
  "others_manager = snd (Submit 0 ''delete'' ''t'' others_meta True None
     (New \<lparr>ByteMovers = 1, Metadata = 1, QueueDepth = 1, RetainMinutes = 0, RetainCount = 0\<rparr>))"

text \<open>A delete that the check at its start refused, and one that ran with a warning of the worker's.\<close>

definition denied_job :: job where
  "denied_job = others_job\<lparr>j_State := StateFailed, j_ErrCode := ''protected''\<rparr>"

definition done_job :: job where
  "done_job = others_job\<lparr>j_State := StateDone\<rparr>"

lemma job_states: "StateDone \<noteq> StateCancelled" "StateDone \<noteq> StateFailed" "StateFailed \<noteq> StateCancelled"
  by simp_all

theorem result_line_honest_witness:
  "(\<exists>ev saved. srv_trail (auditJobFinish sample_job_env sample_who sample_plan denied_job None sample_server) = [Durable ev saved]
      \<and> al_Result ev = ''denied'' \<and> al_Job ev = ''j1'')
   \<and> (\<exists>x ev. srv_trail (auditJobFinish sample_job_env sample_who sample_plan done_job (Some sample_result) sample_server) = [x]
      \<and> (if al_ForceMilestone ev then \<exists>saved. x = Durable ev saved else x = Async ev) \<and> al_Result ev = ''ok'')
   \<and> (\<exists>x ev. srv_trail (auditJobFinish sample_job_env sample_who sample_plan done_job (Some (sample_result\<lparr>jr_Warnings := 1\<rparr>)) sample_server) = [x]
      \<and> (if al_ForceMilestone ev then \<exists>saved. x = Durable ev saved else x = Async ev) \<and> al_Result ev \<noteq> ''ok'')"
proof (intro conjI)
  have a: "env_auditor sample_job_env" by (simp add: sample_job_env_def sample_env_def env.defs)
  have t: "srv_trail sample_server = []" "jp_id sample_plan = ''j1''"
    by (simp_all add: sample_server_def sample_plan_def delete_plan_def)
  have w: "j_WarningCount done_job = 0" by (simp add: done_job_def others_job_def entry_of_def)
  have ok: "j_State done_job = StateDone" "warnings_of done_job (Some sample_result) = 0" "skipped_of (Some sample_result) \<le> 0"
    using w by (simp_all add: done_job_def warnings_of_def skipped_of_def sample_result_def)
  have warned: "warnings_of done_job (Some (sample_result\<lparr>jr_Warnings := 1\<rparr>)) \<noteq> 0"
    by (simp add: warnings_of_def)
  have d: "j_State denied_job = StateFailed" "j_ErrCode denied_job \<in> set denial_codes"
    by (simp_all add: denied_job_def denial_codes_def)
  show "\<exists>ev saved. srv_trail (auditJobFinish sample_job_env sample_who sample_plan denied_job None sample_server) = [Durable ev saved]
      \<and> al_Result ev = ''denied'' \<and> al_Job ev = ''j1''"
    using result_line_honest [OF a, of sample_who sample_plan denied_job None sample_server] d unfolding t by auto
  show "\<exists>x ev. srv_trail (auditJobFinish sample_job_env sample_who sample_plan done_job (Some sample_result) sample_server) = [x]
      \<and> (if al_ForceMilestone ev then \<exists>saved. x = Durable ev saved else x = Async ev) \<and> al_Result ev = ''ok''"
    using result_line_honest [OF a, of sample_who sample_plan done_job "Some sample_result" sample_server] unfolding t ok w
    by (elim exE conjE) (intro exI conjI, assumption, assumption, use ok(3) in simp)
  show "\<exists>x ev. srv_trail (auditJobFinish sample_job_env sample_who sample_plan done_job (Some (sample_result\<lparr>jr_Warnings := 1\<rparr>)) sample_server) = [x]
      \<and> (if al_ForceMilestone ev then \<exists>saved. x = Durable ev saved else x = Async ev) \<and> al_Result ev \<noteq> ''ok''"
    using result_line_honest [OF a, of sample_who sample_plan done_job "Some (sample_result\<lparr>jr_Warnings := 1\<rparr>)" sample_server] unfolding t
    by (elim exE conjE) (intro exI conjI, assumption, assumption, use warned in simp)
qed

theorem jobs_private_witness:
  "jobGet (\<lambda>_. True) sample_who ''0011223344556677'' others_manager = NoSuchJob
   \<and> jobCancel sample_job_env sample_who ''0011223344556677'' others_manager sample_server = (NotFound, False, others_manager, sample_server)"
proof -
  have v: "ValidID ''0011223344556677''" by code_simp
  have g: "Get ''0011223344556677'' others_manager = Some others_job"
    using v by (simp add: Get_def others_manager_def others_job_def Submit_def choose_id_def others_meta_def New_def normalise_def
      register_def tput_def tget_def Let_def ClassOf_def)
  have s: "\<not> maySeeJob sample_who others_job"
    by (simp add: maySeeJob_def sample_who_def others_job_def entry_of_def others_meta_def)
  show ?thesis using jobs_private [OF g s, of "\<lambda>_. True" sample_job_env sample_server] by simp
qed

end
