(* ===== verification/Ladder_Facts.thy ===== *)
theory Ladder_Facts
  imports Ladder Job_Route_Facts
begin

section \<open>What the ladder promises\<close>

subsection \<open>Destruction is always typed\<close>

text \<open>The modes under which the kernel keeps, reduces or refuses; every other one may destroy the ACL.\<close>

definition gentle_aclmode :: "string \<Rightarrow> bool" where
  "gentle_aclmode m \<longleftrightarrow> m = ''groupmask'' \<or> m = ''passthrough'' \<or> m = ''restricted''"

definition may_destroy :: "acl_facts \<Rightarrow> bool" where
  "may_destroy f \<longleftrightarrow>
     (af_unknown f \<or> af_backend f = ACLNFS4_name \<or> (af_storage f \<and> af_backend f = []))
     \<and> af_state f \<noteq> ACLNone \<and> af_state f \<noteq> ACLNFS4Trivial \<and> \<not> gentle_aclmode (af_aclmode f)"

lemma backend_names: "ACLNFS4_name \<noteq> ACLPosix_name" "ACLPosix_name \<noteq> []"
  by (simp_all add: ACLNFS4_name_def ACLPosix_name_def)

lemma aclmode_typed:
  "\<not> gentle_aclmode (af_aclmode f) \<Longrightarrow> aclmode_notice f =
     (gradeTyped, aclDiscardFmt (datasetList (datasetNames f)) @ (if af_aclmode f = [] then aclUnknownModeSuffix else []), True)"
  by (simp add: aclmode_notice_def gentle_aclmode_def)

lemma aclmode_mild: "gentle_aclmode (af_aclmode f) \<Longrightarrow> fst (aclmode_notice f) = gradeConfirm \<and> \<not> snd (snd (aclmode_notice f))"
  unfolding gentle_aclmode_def by (elim disjE) (simp_all add: aclmode_notice_def)

lemma notice_destroys:
  "may_destroy f \<Longrightarrow> chmodACLNotice f =
     (gradeTyped, aclDiscardFmt (datasetList (datasetNames f)) @ (if af_aclmode f = [] then aclUnknownModeSuffix else []), True)"
  using backend_names aclmode_typed [of f] unfolding may_destroy_def chmodACLNotice_def by (elim conjE disjE) simp_all

lemma notice_mild: "\<not> may_destroy f \<Longrightarrow> fst (chmodACLNotice f) \<le> gradeConfirm \<and> \<not> snd (snd (chmodACLNotice f))"
proof -
  assume m: "\<not> may_destroy f"
  have g: "gradeNone \<le> gradeConfirm" by (simp add: gradeNone_def gradeConfirm_def)
  show ?thesis
  proof (cases "af_backend f = ACLPosix_name \<and> \<not> af_unknown f")
    case True
    then show ?thesis using g by (simp add: chmodACLNotice_def)
  next
    case np: False
    note n = chmodACLNotice_def [of f, unfolded if_not_P [OF np]]
    show ?thesis
    proof (cases "af_backend f = ACLNFS4_name \<or> af_unknown f \<or> (af_storage f \<and> af_backend f = [])")
      case on: True
      note n1 = n [unfolded if_P [OF on]]
      show ?thesis
      proof (cases "af_state f = ACLNone \<or> af_state f = ACLNFS4Trivial")
        case True
        then show ?thesis using g unfolding n1 if_P [OF True] by simp
      next
        case False
        have "gentle_aclmode (af_aclmode f)" using m on False unfolding may_destroy_def by blast
        from aclmode_mild [OF this] show ?thesis unfolding n1 if_not_P [OF False] by simp
      qed
    next
      case False
      show ?thesis using g unfolding n if_not_P [OF False] by simp
    qed
  qed
qed

text \<open>
  C27: No ACL is destroyed behind a lesser dialog: the notice of a mode change says that the ACL goes, and asks for a
  typed phrase, exactly when the path lies on an NFSv4 mount, on storage nobody has probed or on no known mount, its
  ACL is not known to be absent or trivial, and the dataset's aclmode is not one of the three that keep, reduce or
  refuse; the sentence then names the datasets in play, and a mode that was not read is said to be one.
\<close>

theorem destruction_is_typed:
  "case chmodACLNotice f of (grade, notice, discards) \<Rightarrow>
     (discards \<longleftrightarrow> may_destroy f) \<and> (grade = gradeTyped \<longleftrightarrow> discards) \<and>
     notice = (if discards then aclDiscardFmt (datasetList (datasetNames f)) @ (if af_aclmode f = [] then aclUnknownModeSuffix else [])
               else notice)"
proof (cases "may_destroy f")
  case True
  then show ?thesis by (simp add: notice_destroys)
next
  case False
  obtain grade notice discards where n: "chmodACLNotice f = (grade, notice, discards)" by (cases "chmodACLNotice f")
  then have "\<not> discards" "grade \<noteq> gradeTyped"
    using notice_mild [OF False] by (simp_all add: gradeConfirm_def gradeTyped_def)
  then show ?thesis using n False by simp
qed

subsection \<open>The worker may add alarm, never take it away\<close>

lemma worst_gentle: "gentle_aclmode (worstAclmode a b) \<Longrightarrow> gentle_aclmode a \<and> b = a"
  by (auto simp: worstAclmode_def gentle_aclmode_def aclmodeDestroys_def split: if_splits)

lemma row_aclmode:
  "af_aclmode (with_worker_row r e f) = (if e then [] else worstAclmode (af_aclmode f) (pa_Aclmode r))"
  by (simp add: with_worker_row_def Let_def)

lemma row_facts:
  "af_state (with_worker_row r e f) = af_state f" "af_backend (with_worker_row r e f) = af_backend f"
  "af_storage (with_worker_row r e f) = af_storage f" "af_unknown (with_worker_row r e f) = (e \<or> af_unknown f)"
  by (simp_all add: with_worker_row_def Let_def)

lemma row_gentle: "gentle_aclmode (af_aclmode (with_worker_row r e f)) \<Longrightarrow> gentle_aclmode (af_aclmode f)"
proof (cases e)
  case False
  moreover assume "gentle_aclmode (af_aclmode (with_worker_row r e f))"
  ultimately show ?thesis using worst_gentle [of "af_aclmode f" "pa_Aclmode r"] by (simp add: row_aclmode)
qed (simp add: row_aclmode gentle_aclmode_def)

lemma rank_nfs4: "aclBackendRank b \<ge> aclBackendRank ACLNFS4_name \<Longrightarrow> b = ACLNFS4_name"
  by (auto simp: aclBackendRank_def split: if_splits)

lemma state_facts:
  "af_aclmode (with_worker_state r f) = af_aclmode f" "af_unknown (with_worker_state r f) = af_unknown f"
  "af_storage (with_worker_state r f) = af_storage f"
  "af_backend f = ACLNFS4_name \<Longrightarrow> af_backend (with_worker_state r f) = ACLNFS4_name"
  by (auto simp: with_worker_state_def Let_def dest: rank_nfs4)

lemma state_unknown:
  "af_state f = ACLUnknown \<Longrightarrow> af_state (with_worker_state r f) = ACLUnknown \<or>
   (af_state (with_worker_state r f) = observed_state r \<and> (pa_Backend r = [] \<or> aclBackendRank (pa_Backend r) \<ge> aclBackendRank (af_backend f)))"
  by (auto simp: with_worker_state_def Let_def)

lemma unknown_names: "ACLUnknown \<noteq> ACLNone" "ACLUnknown \<noteq> ACLNFS4Trivial"
  by (simp_all add: ACLUnknown_def ACLNone_def ACLNFS4Trivial_def)

text \<open>
  C28: A worker's answer cannot talk the ladder down. If the daemon's own table leaves the path unplaced, or on storage
  it has not probed, in a mode it cannot call gentle, the change is graded as destroying whatever the worker answers;
  and on a mount the table knows to carry NFSv4 ACLs in such a mode, only a worker that reports an ACL that is absent or
  trivial, naming that same ACL model or none at all, lowers the grade.
\<close>

theorem worker_cannot_reassure:
  assumes "may_destroy ((mountFacts now pf os p)\<lparr>af_state := ACLUnknown\<rparr>)"
  shows "may_destroy (fst (entryACLFacts now pf os answer p)) \<or>
    (\<exists>r. answer = Some r \<and> af_backend (mountFacts now pf os p) = ACLNFS4_name \<and> \<not> af_unknown (mountFacts now pf os p)
       \<and> (pa_Backend r = [] \<or> pa_Backend r = ACLNFS4_name)
       \<and> (observed_state r = ACLNone \<or> observed_state r = ACLNFS4Trivial))"
proof (cases answer)
  case None
  then show ?thesis using assms by (simp add: entryACLFacts_def)
next
  case (Some r)
  let ?f = "(mountFacts now pf os p)\<lparr>af_state := ACLUnknown\<rparr>"
  obtain agrees haveRow where w: "workerMountAgrees now pf os p r = (agrees, haveRow)" by fastforce
  let ?f1 = "with_worker_row r (haveRow \<and> pa_Mount r \<noteq> [] \<and> \<not> agrees) ?f"
  have ans: "fst (entryACLFacts now pf os answer p)
      = (if af_unknown ?f1 \<or> (af_storage ?f1 \<and> af_backend ?f1 = []) then ?f1 else with_worker_state r ?f1)"
    using Some w by (simp add: entryACLFacts_def Let_def)
  have g1: "\<not> gentle_aclmode (af_aclmode ?f1)" using assms row_gentle unfolding may_destroy_def by blast
  have s1: "af_state ?f1 = ACLUnknown" by (simp add: row_facts)
  show ?thesis
  proof (cases "af_unknown ?f1 \<or> (af_storage ?f1 \<and> af_backend ?f1 = [])")
    case True
    then have "may_destroy ?f1" using g1 s1 unknown_names by (auto simp: may_destroy_def)
    then show ?thesis using ans True by simp
  next
    case False
    let ?g = "with_worker_state r ?f1"
    have kb: "\<not> af_unknown (mountFacts now pf os p)" "af_backend (mountFacts now pf os p) = ACLNFS4_name"
      using False assms by (auto simp: may_destroy_def row_facts)
    then have nb: "af_backend ?f1 = ACLNFS4_name" by (simp add: row_facts)
    have gb: "af_backend ?g = ACLNFS4_name" "\<not> gentle_aclmode (af_aclmode ?g)"
      using nb g1 by (simp_all add: state_facts)
    consider "af_state ?g = ACLUnknown" | "af_state ?g = observed_state r" "pa_Backend r = [] \<or> pa_Backend r = ACLNFS4_name"
      using state_unknown [OF s1, of r] nb rank_nfs4 by auto
    then show ?thesis
    proof cases
      case 1
      then have "may_destroy ?g" using gb unknown_names by (simp add: may_destroy_def)
      then show ?thesis using ans False by simp
    next
      case 2
      show ?thesis
      proof (cases "observed_state r = ACLNone \<or> observed_state r = ACLNFS4Trivial")
        case True
        then show ?thesis using Some kb 2(2) by blast
      next
        case False
        then have "may_destroy ?g" using gb 2(1) by (simp add: may_destroy_def)
        then show ?thesis using ans \<open>\<not> (af_unknown ?f1 \<or> _)\<close> by simp
      qed
    qed
  qed
qed

text \<open>A dataset under a discarding aclmode, and workers that call it gentle, another file system, or name a trivial ACL.\<close>

definition sample_hero :: platform where
  "sample_hero = newPlatform
     \<lparr>pf_mounts := [\<lparr>mt_ID = 1, mt_ParentID = 0, mt_Major = 0, mt_Minor = 1, mt_Root = ''/'', mt_MountPoint = ''/'', mt_FSType = ''zfs'',
        mt_Source = ''pool/a'', mt_Options = [], mt_SuperOptions = []\<rparr>],
      pf_caps := [(''/'', no_caps\<lparr>fs_Storage := True, fs_ACLBackend := ACLNFS4_name, fs_ZFSAclmode := ''discard''\<rparr>)],
      pf_order := [''/''], pf_probedAt := [(''/'', 0)]\<rparr>"

definition sample_entry :: entry where
  "sample_entry = \<lparr>ent_Name = ''x'', ent_NameB64 = [], ent_Path = ''/x'', ent_PathB64 = [], ent_Type = ''file'', ent_Size = 0,
     ent_Mode = ''0644'', ent_ModeStr = [], ent_UID = 0, ent_GID = 0, ent_User = [], ent_Group = [], ent_MTime = 0, ent_Nlink = 1,
     ent_IsSymlink = False, ent_LinkTarget = [], ent_LinkTargetB64 = [], ent_LinkResolved = [], ent_LinkResolvedB64 = [],
     ent_TargetType = [], ent_Hidden = False, ent_HasACL = True, ent_ACL = ACLNFS4, ent_MountPoint = False, ent_Class = [],
     ent_ShareLink = False, ent_VolumeRoot = False\<rparr>"

definition sample_props :: "string \<Rightarrow> string \<Rightarrow> string \<Rightarrow> props_answer" where
  "sample_props backend st m =
     \<lparr>pa_Entry = sample_entry, pa_Mount = ''/'', pa_Domain = [], pa_Backend = backend, pa_State = st, pa_Aclmode = m,
      pa_Dataset = [], pa_MountID = None, pa_Identity = []\<rparr>"

theorem worker_cannot_reassure_witness:
  "may_destroy (fst (entryACLFacts 0 (Some sample_hero) (\<lambda>p. Some p) None ''/x'')) \<and>
   may_destroy (fst (entryACLFacts 0 (Some sample_hero) (\<lambda>p. Some p) (Some (sample_props ACLNFS4_name ACLNFS4 ''passthrough'')) ''/x'')) \<and>
   may_destroy (fst (entryACLFacts 0 (Some sample_hero) (\<lambda>p. Some p) (Some (sample_props ACLPosix_name ACLNone ''passthrough'')) ''/x'')) \<and>
   \<not> may_destroy (fst (entryACLFacts 0 (Some sample_hero) (\<lambda>p. Some p) (Some (sample_props ACLNFS4_name ACLNFS4Trivial [])) ''/x''))"
proof (intro conjI)
  have h: "may_destroy ((mountFacts 0 (Some sample_hero) (\<lambda>p. Some p) ''/x'')\<lparr>af_state := ACLUnknown\<rparr>)" by code_simp
  note wr = worker_cannot_reassure [OF h]
  have o: "observed_state (sample_props b st m) = (if st = [] then ACLNFS4 else st)" for b st m
    by (simp add: sample_props_def sample_entry_def observed_state_def)
  have n: "ACLNFS4 \<noteq> []" "ACLNFS4 \<noteq> ACLNone" "ACLNFS4 \<noteq> ACLNFS4Trivial" by (simp_all add: acl_states)
  have b: "pa_Backend (sample_props ACLPosix_name st m) \<noteq> []" "pa_Backend (sample_props ACLPosix_name st m) \<noteq> ACLNFS4_name" for st m
    by (simp_all add: sample_props_def ACLNFS4_name_def ACLPosix_name_def)
  show "may_destroy (fst (entryACLFacts 0 (Some sample_hero) (\<lambda>p. Some p) None ''/x''))"
    using wr [of None] by simp
  show "may_destroy (fst (entryACLFacts 0 (Some sample_hero) (\<lambda>p. Some p) (Some (sample_props ACLNFS4_name ACLNFS4 ''passthrough'')) ''/x''))"
    using wr [of "Some (sample_props ACLNFS4_name ACLNFS4 ''passthrough'')"] by (auto simp: o n)
  show "may_destroy (fst (entryACLFacts 0 (Some sample_hero) (\<lambda>p. Some p) (Some (sample_props ACLPosix_name ACLNone ''passthrough'')) ''/x''))"
    using wr [of "Some (sample_props ACLPosix_name ACLNone ''passthrough'')"] by (auto simp: b)
  show "\<not> may_destroy (fst (entryACLFacts 0 (Some sample_hero) (\<lambda>p. Some p) (Some (sample_props ACLNFS4_name ACLNFS4Trivial [])) ''/x''))"
    by code_simp
qed

subsection \<open>What a token binds\<close>

lemma sep_inject:
  "c \<notin> set x \<Longrightarrow> c \<notin> set x' \<Longrightarrow> x @ c # y = x' @ c # y' \<longleftrightarrow> x = x' \<and> y = y'"
proof (induction x arbitrary: x')
  case Nil
  then show ?case by (cases x') auto
next
  case (Cons a x)
  then show ?case by (cases x') auto
qed

lemma sep_inject_right:
  assumes "c \<notin> set y" "c \<notin> set y'"
  shows "x @ c # y = x' @ c # y' \<longleftrightarrow> x = x' \<and> y = y'"
proof
  assume "x @ c # y = x' @ c # y'"
  then have "rev y @ c # rev x = rev y' @ c # rev x'" by (metis append.assoc append_Cons append_Nil rev.simps(2) rev_append rev_rev_ident)
  then show "x = x' \<and> y = y'" using assms sep_inject [of c "rev y" "rev y'" "rev x" "rev x'"] by simp
qed simp

lemma format_bool_inject [simp]: "format_bool a = format_bool b \<longleftrightarrow> a = b"
  by (cases a; cases b; simp add: format_bool_def)

lemma itoa_clean: "\<not> is_digit c \<Longrightarrow> c \<noteq> CHR ''-'' \<Longrightarrow> c \<notin> set (itoa n)"
  using nat_digits_digits [of "nat n"] nat_digits_digits [of "nat (- n)"] by (auto simp: itoa_def list_all_iff)

lemma octal_val_Octal: "octal_val (Octal m) = unat (m AND ModeBits)"
  by (simp add: Octal_def octal_val_pad_zeros octal_val_octal_digits)

lemma Octal_inject: "Octal m = Octal n \<longleftrightarrow> m AND ModeBits = n AND ModeBits"
proof
  assume "Octal m = Octal n"
  then have "unat (m AND ModeBits) = unat (n AND ModeBits)" unfolding octal_val_Octal [symmetric] by (rule arg_cong)
  then show "m AND ModeBits = n AND ModeBits" by (simp add: word_unat_eq_iff)
qed (simp add: Octal_def)

lemma Octal_no_slash: "CHR ''/'' \<notin> set (Octal m)"
proof -
  have "list_all is_octal (Octal m)" unfolding Octal_def by (intro pad_zeros_octal octal_digits_octal)
  then show ?thesis by (auto simp: list_all_iff is_octal_def)
qed

definition framed :: "string list \<Rightarrow> string" where
  "framed rs = concat (map (\<lambda>r. itoa (int (length r)) @ CHR '':'' # r) rs)"

lemma framed_inject: "framed rs = framed rs' \<Longrightarrow> rs = rs'"
proof (induction rs arbitrary: rs')
  case Nil
  then show ?case by (cases rs') (auto simp: framed_def)
next
  case (Cons r rs)
  then obtain r' s' where rs': "rs' = r' # s'" by (cases rs') (auto simp: framed_def)
  have c: "CHR '':'' \<notin> set (itoa n)" for n by (rule itoa_clean) (simp_all add: is_digit_def)
  have "itoa (int (length r)) @ CHR '':'' # (r @ framed rs) = itoa (int (length r')) @ CHR '':'' # (r' @ framed s')"
    using Cons.prems rs' by (simp add: framed_def)
  then have "itoa (int (length r)) = itoa (int (length r'))" "r @ framed rs = r' @ framed s'" using sep_inject [OF c c] by blast+
  then have "length r = length r'" by simp
  then have "r = r'" "framed rs = framed s'" using \<open>r @ framed rs = r' @ framed s'\<close> by simp_all
  then show ?case using Cons.IH rs' by simp
qed

lemma verdict_row_inject:
  assumes "CHR 0x00 \<notin> set (cq_rung c)" "CHR 0x00 \<notin> set (cq_rung d)" "verdict_row c = verdict_row d"
  shows "c = d"
proof -
  have b: "CHR 0x00 \<notin> set (format_bool x)" for x by (cases x) (simp_all add: format_bool_def)
  have i: "CHR 0x00 \<notin> set (itoa n)" for n by (rule itoa_clean) (simp_all add: is_digit_def)
  let ?g = "\<lambda>c. itoa (int (cq_grade c))" and ?b = "\<lambda>c. format_bool (cq_discards c)"
  have "((cq_key c @ CHR 0x00 # cq_rung c) @ CHR 0x00 # ?g c) @ CHR 0x00 # ?b c
      = ((cq_key d @ CHR 0x00 # cq_rung d) @ CHR 0x00 # ?g d) @ CHR 0x00 # ?b d" using assms(3) by (simp add: verdict_row_def)
  then have 1: "(cq_key c @ CHR 0x00 # cq_rung c) @ CHR 0x00 # ?g c = (cq_key d @ CHR 0x00 # cq_rung d) @ CHR 0x00 # ?g d"
    and 2: "?b c = ?b d" using sep_inject_right [OF b b] by blast+
  from 1 have 3: "cq_key c @ CHR 0x00 # cq_rung c = cq_key d @ CHR 0x00 # cq_rung d" and 4: "?g c = ?g d"
    using sep_inject_right [OF i i] by blast+
  from 3 have "cq_key c = cq_key d" "cq_rung c = cq_rung d" using sep_inject_right [OF assms(1,2)] by blast+
  then show ?thesis using 2 4 by simp
qed

definition nul_free :: "acl_verdict \<Rightarrow> bool" where
  "nul_free v \<longleftrightarrow> list_all (\<lambda>c. CHR 0x00 \<notin> set (cq_rung c)) (av_per v)"

lemma verdict_bytes_inject:
  assumes "nul_free v" "nul_free w" "verdict_bytes v = verdict_bytes w"
  shows "set (av_per v) = set (av_per w)"
proof -
  have "sort (map verdict_row (av_per v)) = sort (map verdict_row (av_per w))"
    using assms(3) by (intro framed_inject) (simp add: verdict_bytes_def framed_def)
  then have "set (map verdict_row (av_per v)) = set (map verdict_row (av_per w))" by (metis set_sort)
  then have rows: "verdict_row ` set (av_per v) = verdict_row ` set (av_per w)" by simp
  have "inj_on verdict_row (set (av_per v) \<union> set (av_per w))"
    using assms(1,2) verdict_row_inject by (intro inj_onI) (auto simp: nul_free_def list_all_iff)
  then show ?thesis using rows by (simp add: inj_on_image_eq_iff)
qed

lemma digest_Nil: "verdict_digest sha v = [] \<Longrightarrow> length (sha (verdict_bytes v)) \<ge> 16 \<Longrightarrow> av_per v = []"
proof (rule ccontr)
  assume d: "verdict_digest sha v = []" and l: "length (sha (verdict_bytes v)) \<ge> 16" and n: "av_per v \<noteq> []"
  obtain x xs where "sha (verdict_bytes v) = x # xs" using l by (cases "sha (verdict_bytes v)") auto
  then show False using d n by (simp add: verdict_digest_def hex_encode_def)
qed

lemma hex_digit_inject: "m < 16 \<Longrightarrow> n < 16 \<Longrightarrow> hex_digit m = hex_digit n \<Longrightarrow> m = n"
proof -
  have d: "distinct ''0123456789abcdef''" "length ''0123456789abcdef'' = 16" by simp_all
  show "m < 16 \<Longrightarrow> n < 16 \<Longrightarrow> hex_digit m = hex_digit n \<Longrightarrow> m = n"
    unfolding hex_digit_def using nth_eq_iff_index_eq [OF d(1), of m n] d(2) by simp
qed

lemma hex_encode_inject: "hex_encode a = hex_encode b \<Longrightarrow> a = b"
proof (induction a arbitrary: b)
  case Nil
  then show ?case by (cases b) (simp_all add: hex_encode_def)
next
  case (Cons x a)
  then obtain y c where b: "b = y # c" by (cases b) (simp_all add: hex_encode_def)
  have lt: "(of_char z :: nat) div 16 < 16" for z using nat_of_char_less_256 [of z] by (simp add: less_mult_imp_div_less)
  have "(of_char x :: nat) div 16 = of_char y div 16" "(of_char x :: nat) mod 16 = of_char y mod 16"
    using Cons.prems b lt [of x] lt [of y]
    by (auto simp: hex_encode_def intro!: hex_digit_inject)
  then have "(of_char x :: nat) = of_char y" by (metis div_mult_mod_eq)
  then have "x = y" by simp
  then show ?case using Cons.IH [of c] Cons.prems b by (simp add: hex_encode_def)
qed

text \<open>
  A confirmation fits one change and one set of facts. If two changes give the same token descriptor, they are the
  same operation by the same route, with the same mode bits for files and folders, the same owner and group, the same
  recursion and crossing, the same roots, and an ACL verdict of the same grade and the same judgement on destruction;
  and, the 16-byte prefix of the hash telling the two tables apart, the consequences per dataset are the same, so a
  token minted before any one dataset changed its aclmode is not accepted after.
\<close>

theorem token_binds_verdict:
  assumes "permTokenParts sha k op1 f d u g r x v roots = permTokenParts sha k' op2 f' d' u' g' r' x' v' roots'"
    and "length (sha (verdict_bytes v)) \<ge> 16" "length (sha (verdict_bytes v')) \<ge> 16"
    and "take 16 (sha (verdict_bytes v)) = take 16 (sha (verdict_bytes v')) \<Longrightarrow> verdict_bytes v = verdict_bytes v'"
    and "nul_free v" "nul_free v'"
  shows "k = k' \<and> op1 = op2 \<and> ms_Mask f AND ModeBits = ms_Mask f' AND ModeBits \<and> ms_Value f AND ModeBits = ms_Value f' AND ModeBits
    \<and> ms_Mask d AND ModeBits = ms_Mask d' AND ModeBits \<and> ms_Value d AND ModeBits = ms_Value d' AND ModeBits
    \<and> u = u' \<and> g = g' \<and> r = r' \<and> x = x' \<and> mset roots = mset roots'
    \<and> av_grade v = av_grade v' \<and> av_discards v = av_discards v' \<and> set (av_per v) = set (av_per v')"
proof -
  note p = assms(1) [unfolded permTokenParts_def append_Cons append_Nil list.inject append_same_eq same_append_eq]
  have sl: "CHR ''/'' \<notin> set (itoa n)" "CHR ''/'' \<notin> set (format_bool q)" for n q
    by (rule itoa_clean; simp add: is_digit_def) (cases q; simp add: format_bool_def)
  have vp: "itoa (int (av_grade v)) @ CHR ''/'' # (format_bool (av_discards v) @ CHR ''/'' # verdict_digest sha v)
      = itoa (int (av_grade v')) @ CHR ''/'' # (format_bool (av_discards v') @ CHR ''/'' # verdict_digest sha v')"
    using p by (simp add: verdict_part_def)
  then have gr: "av_grade v = av_grade v'" and
    r1: "format_bool (av_discards v) @ CHR ''/'' # verdict_digest sha v = format_bool (av_discards v') @ CHR ''/'' # verdict_digest sha v'"
    using sep_inject [OF sl(1) sl(1)] by auto
  from r1 have di: "av_discards v = av_discards v'" and dg: "verdict_digest sha v = verdict_digest sha v'"
    using sep_inject [OF sl(2) sl(2)] by auto
  have per: "set (av_per v) = set (av_per v')"
  proof (cases "av_per v = [] \<or> av_per v' = []")
    case True
    moreover have "av_per w = [] \<Longrightarrow> verdict_digest sha w = []" for w by (simp add: verdict_digest_def)
    ultimately have "verdict_digest sha v = []" "verdict_digest sha v' = []" using dg by metis+
    then have "av_per v = []" "av_per v' = []" using digest_Nil assms(2,3) by blast+
    then show ?thesis by simp
  next
    case False
    then have "hex_encode (take 16 (sha (verdict_bytes v))) = hex_encode (take 16 (sha (verdict_bytes v')))"
      using dg unfolding verdict_digest_def by (metis (full_types))
    then have "take 16 (sha (verdict_bytes v)) = take 16 (sha (verdict_bytes v'))" by (rule hex_encode_inject)
    then have "verdict_bytes v = verdict_bytes v'" by (rule assms(4))
    then show ?thesis by (rule verdict_bytes_inject [OF assms(5,6)])
  qed
  have oc: "Octal (ms_Mask d) = Octal (ms_Mask d')" "Octal (ms_Value d) = Octal (ms_Value d')"
    using p sep_inject [OF Octal_no_slash Octal_no_slash] by auto
  have ro: "sort roots = sort roots'" using p by simp
  then have "mset roots = mset roots'" by (metis mset_sort)
  moreover have "k = k'" "op1 = op2" "Octal (ms_Mask f) = Octal (ms_Mask f')" "Octal (ms_Value f) = Octal (ms_Value f')"
    "u = u'" "g = g'" "r = r'" "x = x'" using p by simp_all
  ultimately show ?thesis using gr di per oc unfolding Octal_inject by blast
qed

text \<open>A hash that is the identity on what it is asked.\<close>

definition sample_verdict :: acl_verdict where
  "sample_verdict = \<lparr>av_grade = 2, av_discards = True,
     av_per = [\<lparr>cq_key = ''dataset:pool/a'', cq_rung = ''discard'', cq_grade = 2, cq_discards = True\<rparr>]\<rparr>"

theorem token_binds_verdict_witness:
  "ms_Mask \<lparr>ms_Mask = 511, ms_Value = 493\<rparr> AND ModeBits = (511 :: 32 word) \<and> set (av_per sample_verdict) \<noteq> {}"
proof -
  let ?s = "\<lparr>ms_Mask = 511, ms_Value = 493\<rparr>"
  have l: "length (verdict_bytes sample_verdict) \<ge> 16" by code_simp
  have n: "nul_free sample_verdict" by code_simp
  show ?thesis
    using token_binds_verdict [where sha = "\<lambda>x. x" and v = sample_verdict and v' = sample_verdict and f = ?s and f' = ?s, OF refl l l _ n n]
    by (simp add: sample_verdict_def ModeBits_def)
qed

subsection \<open>The ladder of a job covers every dataset it reaches\<close>

definition rung_of :: "acl_facts \<Rightarrow> consequence" where
  "rung_of f = \<lparr>cq_key = verdictKey f, cq_rung = (if af_aclmode f = [] then aclModeUnknownRung else af_aclmode f),
     cq_grade = fst (chmodACLNotice f), cq_discards = snd (snd (chmodACLNotice f))\<rparr>"

definition says_something :: "acl_facts \<Rightarrow> bool" where
  "says_something f \<longleftrightarrow> fst (chmodACLNotice f) \<noteq> gradeNone \<or> may_destroy f"

definition ladder_ok :: "acl_facts list \<Rightarrow> job_ladder \<Rightarrow> bool" where
  "ladder_ok fs j \<longleftrightarrow>
     (av_discards (jl_acl j) \<longleftrightarrow> list_ex may_destroy fs)
     \<and> list_all (\<lambda>f. fst (chmodACLNotice f) \<le> av_grade (jl_acl j)) fs
     \<and> set (av_per (jl_acl j)) = rung_of ` set (filter says_something fs)
     \<and> list_all (\<lambda>f. may_destroy f \<or> fst (chmodACLNotice f) \<le> ld_grade (jl_ladder j)) fs
     \<and> (jl_discarding j = [] \<longleftrightarrow> \<not> list_ex may_destroy fs)
     \<and> (jl_keys j = [] \<longleftrightarrow> \<not> list_ex may_destroy fs)
     \<and> (list_ex may_destroy fs \<longrightarrow> ld_discards (jl_ladder j))"

lemma notice_discards: "snd (snd (chmodACLNotice f)) = may_destroy f"
  using notice_mild [of f] by (cases "may_destroy f") (simp_all add: notice_destroys)

lemma ladder_add_simps [simp]:
  "ld_grade (ladder_add g ss l) = max g (ld_grade l)" "ld_discards (ladder_add g ss l) = ld_discards l"
  by (simp_all add: ladder_add_def)

lemma verdict_fold_simps:
  "av_grade (verdict_fold f g d v) = max g (av_grade v)" "av_discards (verdict_fold f g d v) = (d \<or> av_discards v)"
  by (simp_all add: verdict_fold_def Let_def)

lemma verdict_fold_rows:
  "set (av_per (verdict_fold f (fst (chmodACLNotice f)) (snd (snd (chmodACLNotice f))) v))
   = (if says_something f then insert (rung_of f) (set (av_per v)) else set (av_per v))"
  by (auto simp: verdict_fold_def Let_def says_something_def rung_of_def notice_discards List.member_iff)

lemma job_rung_ok:
  assumes "ladder_ok fs j"
  shows "ladder_ok (fs @ [f]) (job_rung j f)"
proof -
  obtain g n d where c: "chmodACLNotice f = (g, n, d)" by (cases "chmodACLNotice f")
  have d: "d = may_destroy f" using notice_discards [of f] c by simp
  note rows = verdict_fold_rows [of f "jl_acl j", unfolded c fst_conv snd_conv]
  show ?thesis
  proof (cases d)
    case False
    then show ?thesis
      using assms c d rows unfolding ladder_ok_def
      by (auto simp: job_rung_def Let_def verdict_fold_simps list_all_iff le_max_iff_disj)
  next
    case True
    then show ?thesis
      using assms c d rows unfolding ladder_ok_def
      by (auto simp: job_rung_def Let_def verdict_fold_simps list_all_iff le_max_iff_disj List.member_iff)
  qed
qed

lemma job_rungs_ok: "ladder_ok fs j \<Longrightarrow> ladder_ok (fs @ gs) (foldl job_rung j gs)"
proof (induction gs arbitrary: fs j)
  case (Cons g gs)
  then show ?case using Cons.IH [OF job_rung_ok [OF Cons.prems, of g]] by simp
qed simp

lemma job_ladder_all:
  "case chmodJobLadder facts l targets of (acl, l') \<Rightarrow>
     (av_discards acl \<longleftrightarrow> list_ex may_destroy (concat (map facts targets)))
     \<and> ld_grade l' \<ge> (if av_discards acl then gradeTyped else 0)
     \<and> (if av_discards acl then ld_discards l' else True)
     \<and> list_all (\<lambda>f. fst (chmodACLNotice f) \<le> av_grade acl \<and> fst (chmodACLNotice f) \<le> ld_grade l') (concat (map facts targets))
     \<and> set (av_per acl) = rung_of ` set (filter says_something (concat (map facts targets)))"
proof -
  let ?fs = "concat (map facts targets)"
  let ?start = "\<lparr>jl_ladder = l, jl_acl = no_verdict, jl_discarding = [], jl_keys = [], jl_unreadable = False\<rparr>"
  let ?j = "foldl job_rung ?start ?fs"
  have "ladder_ok [] ?start" by (simp add: ladder_ok_def no_verdict_def)
  from job_rungs_ok [OF this, of ?fs] have ok: "ladder_ok ?fs ?j" by simp
  show ?thesis
  proof (cases "list_ex may_destroy ?fs")
    case False
    then have "chmodJobLadder facts l targets = (jl_acl ?j, jl_ladder ?j)"
      using ok by (simp add: chmodJobLadder_def ladder_ok_def Let_def)
    moreover have "\<And>f. f \<in> set ?fs \<Longrightarrow> \<not> may_destroy f" using False by (auto simp: list_ex_iff)
    ultimately show ?thesis using ok False unfolding ladder_ok_def by (auto simp: list_all_iff)
  next
    case True
    obtain s where "chmodJobLadder facts l targets = (jl_acl ?j, ladder_add gradeTyped [s] (jl_ladder ?j))"
      using True ok by (simp add: chmodJobLadder_def ladder_ok_def Let_def)
    moreover have "fst (chmodACLNotice f) \<le> gradeTyped" for f
      using notice_mild [of f] by (cases "may_destroy f") (simp_all add: notice_destroys gradeConfirm_def gradeTyped_def)
    ultimately show ?thesis using ok True unfolding ladder_ok_def by (auto simp: list_all_iff le_max_iff_disj)
  qed
qed

text \<open>
  C29: A job's dialog covers every dataset it reaches. Over the facts of all its roots, and of every mount below them
  when it crosses, the verdict says "destroys" exactly when some dataset's ACLs may be destroyed, and then the ladder
  is at the typed grade; every dataset with something to say has its own row in the table the token binds; and no
  rung is above the grade of the verdict or of the dialog.
\<close>

theorem job_ladder_covers:
  "case chmodJobLadder facts l targets of (acl, l') \<Rightarrow>
     (av_discards acl \<longleftrightarrow> list_ex may_destroy (concat (map facts targets)))
     \<and> ld_grade l' \<ge> (if av_discards acl then gradeTyped else 0)
     \<and> (if av_discards acl then ld_discards l' else True)
     \<and> list_all (\<lambda>f. fst (chmodACLNotice f) \<le> av_grade acl \<and> fst (chmodACLNotice f) \<le> ld_grade l') (concat (map facts targets))
     \<and> set (av_per acl) = rung_of ` set (filter says_something (concat (map facts targets)))"
  by (rule job_ladder_all)

end
