(* ===== verification/Perm_Route_Facts.thy ===== *)
theory Perm_Route_Facts
  imports Perm_Routes Ladder_Facts
begin

section \<open>What the permission routes keep\<close>

subsection \<open>Small frames\<close>

lemma worst_allows: "sev (worstGuard es) \<noteq> Denied \<Longrightarrow> e \<in> set es \<Longrightarrow> sev e \<noteq> Denied"
  unfolding sev_worstGuard strictest_Denied by (auto simp: list_ex_iff)

lemma finishMode_trail:
  "finishMode env w m err mi d st = (ok, st1) \<Longrightarrow>
   dispatches (srv_trail st1) = dispatches (srv_trail st) \<and> disciplined (srv_trail st1) = disciplined (srv_trail st)"
  by (auto simp: finishMode_def Let_def split: option.splits)

lemma refuse_guarded_trail [simp]:
  "dispatches (srv_trail (refuse_guarded env w v m c n st)) = dispatches (srv_trail st)"
  "disciplined (srv_trail (refuse_guarded env w v m c n st)) = disciplined (srv_trail st)"
  by (simp_all add: refuse_guarded_def disciplined_authorize authorizeGraded_trail)

lemma spoken_refuse_guarded [simp]: "spoken (srv_trail st) (srv_trail (refuse_guarded env w v m c n st))"
  unfolding refuse_guarded_def by (rule spoken_authorize)

lemma plain_replies [simp]:
  "dispatches (srv_trail (bad_request st)) = dispatches (srv_trail st)" "disciplined (srv_trail (bad_request st)) = disciplined (srv_trail st)"
  "dispatches (srv_trail (failResolve x st)) = dispatches (srv_trail st)" "disciplined (srv_trail (failResolve x st)) = disciplined (srv_trail st)"
  by (simp_all add: bad_request_def failResolve_def Let_def)

lemma one_item_op [simp]: "mut_op (one_item op1 p) = op1"
  by (simp add: one_item_def)

subsection \<open>One item\<close>

lemma chmod_dispatch_trail:
  "dispatches (srv_trail (chmod_dispatch e w m target spec facts expect mi st)) = DChmod target spec expect # dispatches (srv_trail st)"
  "intent_on_top ''chmod'' (srv_trail st) \<Longrightarrow> disciplined (srv_trail st) \<Longrightarrow>
   disciplined (srv_trail (chmod_dispatch e w m target spec facts expect mi st))"
  by (auto simp: chmod_dispatch_def Let_def split: prod.split dest!: run_worker_trail finishMode_trail)

lemma chown_dispatch_trail:
  "dispatches (srv_trail (chown_dispatch e w m p uid gid st)) = DChown p uid gid # dispatches (srv_trail st)"
  "intent_on_top ''chown'' (srv_trail st) \<Longrightarrow> disciplined (srv_trail st) \<Longrightarrow> disciplined (srv_trail (chown_dispatch e w m p uid gid st))"
  by (auto simp: chown_dispatch_def Let_def split: prod.split dest!: run_worker_trail finishMode_trail)

definition sync_parts :: "perm_env \<Rightarrow> mode_spec \<Rightarrow> acl_facts \<Rightarrow> string \<Rightarrow> string list" where
  "sync_parts e spec facts target =
     (case chmodACLNotice facts of (grade, notice, discards) \<Rightarrow>
        permTokenParts (pe_sha e) tokenKindSync ''chmod'' spec zero_spec (-1) (-1) False False (verdict_fold facts grade discards no_verdict) [target])"

definition facts_at :: "perm_env \<Rightarrow> server \<Rightarrow> string \<Rightarrow> acl_facts \<times> (string \<times> string) option" where
  "facts_at e st target =
     entryACLFacts (je_now e (srv_trail st)) (pe_platform e (srv_trail st)) (je_os e) (pe_props e (srv_trail st) target) target"

text \<open>What a mode change may have dispatched: nothing, or the one change its gates let through.\<close>

definition chmod_admitted :: "perm_env \<Rightarrow> chmod_body \<Rightarrow> server \<Rightarrow> dispatch list \<Rightarrow> bool" where
  "chmod_admitted e b st new \<longleftrightarrow> new = [] \<or> (\<exists>p gp target facts expect.
     new = [DChmod target (cm_Spec b) expect] \<and> facts_at e st target = (facts, expect) \<and>
     bodyPath (cm_Path b) (cm_PathB64 b) = Inr p \<and> env_resolve e (srv_trail st) p False = Inr gp \<and>
     (if cm_Follow b then env_resolve e (srv_trail st) p True = Inr target else target = gp) \<and>
     validSpec (cm_Spec b) \<and> Touches (cm_Spec b) \<and>
     list_all (\<lambda>q. sev (Check (guard_now (env_of e) st) OpChmod q) \<noteq> Denied) [p, gp, target] \<and>
     (if fst (chmodACLNotice facts) > gradeNone \<or> (sets_setuid (cm_Spec b) \<and> \<not> normalClass (guard_now (env_of e) st) [p, gp, target])
      then token_accepted (env_of e) (cm_Confirm b) ''chmod'' (sync_parts e (cm_Spec b) facts target) True st else True))"

lemma foldl_grade_mono: "ld_grade l \<le> ld_grade (foldl (\<lambda>l r. ladder_add g [r] l) l rs)"
proof (induction rs arbitrary: l)
  case (Cons r rs)
  have "ld_grade l \<le> ld_grade (ladder_add g [r] l)" by simp
  also have "\<dots> \<le> ld_grade (foldl (\<lambda>l r. ladder_add g [r] l) (ladder_add g [r] l) rs)" by (rule Cons.IH)
  finally show ?case by simp
qed simp

lemma chmod_ladder_grade:
  assumes "chmod_ladder g facts spec ss = (l, acl)"
  shows "ld_grade l \<ge> fst (chmodACLNotice facts)" "sets_setuid spec \<Longrightarrow> \<not> normalClass g ss \<Longrightarrow> ld_grade l \<ge> gradeTyped"
    and "acl = verdict_fold facts (fst (chmodACLNotice facts)) (snd (snd (chmodACLNotice facts))) no_verdict"
  using assms by (auto simp: chmod_ladder_def Let_def split: prod.splits if_splits)

lemma guarded_verdict: "guard_verdict (worstGuard (map (Check g op1) ps))"
  by (rule guard_verdict_worstGuard) (simp add: list_all_iff)

text \<open>The route's cases: silence, or the dispatch behind its gates and its intent line.\<close>

lemma chmod_guarded_cases:
  assumes stop: "\<And>st'. disciplined (srv_trail st') = disciplined (srv_trail st) \<Longrightarrow> dispatches (srv_trail st') = dispatches (srv_trail st) \<Longrightarrow> Q st'"
    and go: "\<And>facts expect st'. facts_at e st target = (facts, expect) \<Longrightarrow>
      list_all (\<lambda>q. sev (Check (guard_now (env_of e) st) OpChmod q) \<noteq> Denied) [p, gp, target] \<Longrightarrow>
      (fst (chmodACLNotice facts) > gradeNone \<or> (sets_setuid spec \<and> \<not> normalClass (guard_now (env_of e) st) [p, gp, target]) \<Longrightarrow>
        token_accepted (env_of e) conf ''chmod'' (sync_parts e spec facts target) True st) \<Longrightarrow>
      dispatches (srv_trail st') = DChmod target spec expect # dispatches (srv_trail st) \<Longrightarrow>
      (env_auditor e \<Longrightarrow> disciplined (srv_trail st) \<Longrightarrow> disciplined (srv_trail st')) \<Longrightarrow> Q st'"
  shows "Q (chmod_guarded e w p gp target spec conf st)"
proof -
  let ?g = "guard_now (env_of e) st"
  let ?v = "worstGuard [Check ?g OpChmod p, Check ?g OpChmod gp, Check ?g OpChmod target]"
  show ?thesis
  proof (cases "guardRefuses ?v")
    case True
    then show ?thesis by (simp add: chmod_guarded_def Let_def stop)
  next
    case False
    obtain facts expect where f: "facts_at e st target = (facts, expect)" by fastforce
    obtain l acl where l: "chmod_ladder ?g facts spec [p, gp, target] = (l, acl)" by fastforce
    note lg = chmod_ladder_grade [OF l]
    let ?parts = "permTokenParts (pe_sha e) tokenKindSync ''chmod'' spec zero_spec (-1) (-1) False False acl [target]"
    have parts: "?parts = sync_parts e spec facts target" using lg(3) by (simp add: sync_parts_def split: prod.split)
    let ?mi = "permMilestone ''chmod'' (ld_discards l) (normalClass ?g [p, gp, target]) False 0"
    have v: "guard_verdict ?v" using guarded_verdict [of ?g OpChmod "[p, gp, target]"] by simp
    have eq: "chmod_guarded e w p gp target spec conf st
      = gated (env_of e) w ?v (ld_grade l > gradeNone \<or> conf \<noteq> []) (one_item ''chmod'' p) ?parts True conf
          \<lparr>sum_Files = 1, sum_Bytes = 0, sum_Warnings = ld_warnings l, sum_Capped = False\<rparr> (ld_grade l) ?mi (specDetail spec)
          (chmod_dispatch e w (one_item ''chmod'' p) target spec facts expect ?mi) st"
      using False f l by (simp add: chmod_guarded_def facts_at_def Let_def)
    show ?thesis
      unfolding eq
    proof (rule gated_cases [OF v])
      fix st' :: server
      assume "disciplined (srv_trail st') = disciplined (srv_trail st)" "dispatches (srv_trail st') = dispatches (srv_trail st)"
      then show "Q st'" by (rule stop)
    next
      fix st' :: server
      let ?r = "chmod_dispatch e w (one_item ''chmod'' p) target spec facts expect ?mi st'"
      assume s: "sev ?v \<noteq> Denied"
        and t: "sev ?v = Confirmable \<or> ld_grade l > gradeNone \<or> conf \<noteq> [] \<Longrightarrow>
          token_accepted (env_of e) conf (mut_op (one_item ''chmod'' p)) ?parts True st"
        and i: "env_auditor (env_of e) \<Longrightarrow> intent_on_top (mut_op (one_item ''chmod'' p)) (srv_trail st')"
        and d: "disciplined (srv_trail st') = disciplined (srv_trail st)" "dispatches (srv_trail st') = dispatches (srv_trail st)"
      show "Q ?r"
      proof (rule go [OF f])
        show "list_all (\<lambda>q. sev (Check ?g OpChmod q) \<noteq> Denied) [p, gp, target]" using worst_allows [OF s] by simp
        show "token_accepted (env_of e) conf ''chmod'' (sync_parts e spec facts target) True st"
          if h: "fst (chmodACLNotice facts) > gradeNone \<or> (sets_setuid spec \<and> \<not> normalClass ?g [p, gp, target])"
        proof -
          have "ld_grade l > gradeNone" using h lg(1,2) by (auto simp: gradeNone_def gradeTyped_def)
          then show ?thesis using t parts by simp
        qed
        show "dispatches (srv_trail ?r) = DChmod target spec expect # dispatches (srv_trail st)" using d chmod_dispatch_trail(1) by simp
        show "disciplined (srv_trail ?r)" if "env_auditor e" "disciplined (srv_trail st)"
          using that i d(1) by (intro chmod_dispatch_trail(2)) (simp_all add: env.truncate_def)
      qed
    qed
  qed
qed

lemma chmod_silent:
  "dispatches (srv_trail st') = dispatches (srv_trail st) \<Longrightarrow>
   \<exists>new. dispatches (srv_trail st') = new @ dispatches (srv_trail st) \<and> chmod_admitted e b st new"
  by (rule exI [of _ "[]"]) (simp add: chmod_admitted_def)

lemma chmod_route_cases:
  assumes "\<And>st'. disciplined (srv_trail st') = disciplined (srv_trail st) \<Longrightarrow> dispatches (srv_trail st') = dispatches (srv_trail st) \<Longrightarrow> Q st'"
    and "\<And>p gp target. validSpec (cm_Spec b) \<Longrightarrow> Touches (cm_Spec b) \<Longrightarrow> bodyPath (cm_Path b) (cm_PathB64 b) = Inr p \<Longrightarrow>
      env_resolve e (srv_trail st) p False = Inr gp \<Longrightarrow>
      (if cm_Follow b then env_resolve e (srv_trail st) p True = Inr target else target = gp) \<Longrightarrow>
      Q (chmod_guarded e w p gp target (cm_Spec b) (cm_Confirm b) st)"
  shows "Q (chmod_route e w b st)"
  using assms unfolding chmod_route_def by (simp split: sum.split)

text \<open>
  C30: A mode change reaches the worker only past its gates. Whatever the request, at most one chmod is dispatched, on the
  spelling the change lands on and with the state and identity the worker had reported as its precondition; the guard
  denies none of the three spellings, the bits are mode bits, and whenever the change could touch an ACL, or sets the
  setuid bit outside ordinary storage, a token for exactly this change and this judgement of the ACL was redeemed.
\<close>

theorem chmod_confirmed:
  "\<exists>new. dispatches (srv_trail (chmod_route e w b st)) = new @ dispatches (srv_trail st) \<and> chmod_admitted e b st new"
proof (rule chmod_route_cases)
  fix p gp target
  assume ok: "validSpec (cm_Spec b)" "Touches (cm_Spec b)" and p: "bodyPath (cm_Path b) (cm_PathB64 b) = Inr p"
    and gp: "env_resolve e (srv_trail st) p False = Inr gp"
    and tt: "if cm_Follow b then env_resolve e (srv_trail st) p True = Inr target else target = gp"
  show "\<exists>new. dispatches (srv_trail (chmod_guarded e w p gp target (cm_Spec b) (cm_Confirm b) st)) = new @ dispatches (srv_trail st)
      \<and> chmod_admitted e b st new"
  proof (rule chmod_guarded_cases)
    fix facts expect and st' :: server
    assume f: "facts_at e st target = (facts, expect)"
      and a: "list_all (\<lambda>q. sev (Check (guard_now (env_of e) st) OpChmod q) \<noteq> Denied) [p, gp, target]"
      and k: "fst (chmodACLNotice facts) > gradeNone \<or> (sets_setuid (cm_Spec b) \<and> \<not> normalClass (guard_now (env_of e) st) [p, gp, target]) \<Longrightarrow>
        token_accepted (env_of e) (cm_Confirm b) ''chmod'' (sync_parts e (cm_Spec b) facts target) True st"
      and d: "dispatches (srv_trail st') = DChmod target (cm_Spec b) expect # dispatches (srv_trail st)"
    have "chmod_admitted e b st [DChmod target (cm_Spec b) expect]"
      unfolding chmod_admitted_def using f a k p gp tt ok by (intro disjI2 exI [of _ p] exI [of _ gp] exI [of _ target] exI [of _ facts] exI [of _ expect]) simp
    then show "\<exists>new. dispatches (srv_trail st') = new @ dispatches (srv_trail st) \<and> chmod_admitted e b st new"
      using d by (intro exI [of _ "[DChmod target (cm_Spec b) expect]"]) simp
  qed (rule chmod_silent)
qed (rule chmod_silent)

subsection \<open>Ownership\<close>

lemma chown_guarded_cases:
  assumes stop: "\<And>st'. disciplined (srv_trail st') = disciplined (srv_trail st) \<Longrightarrow> dispatches (srv_trail st') = dispatches (srv_trail st) \<Longrightarrow> Q st'"
    and go: "\<And>st'. list_all (\<lambda>q. sev (Check (guard_now (env_of e) st) OpChown q) \<noteq> Denied) [p, gp] \<Longrightarrow>
      token_accepted (env_of e) conf ''chown''
        (permTokenParts (pe_sha e) tokenKindSync ''chown'' zero_spec zero_spec uid gid False False no_verdict [gp]) True st \<Longrightarrow>
      dispatches (srv_trail st') = DChown gp uid gid # dispatches (srv_trail st) \<Longrightarrow>
      (env_auditor e \<Longrightarrow> disciplined (srv_trail st) \<Longrightarrow> disciplined (srv_trail st')) \<Longrightarrow> Q st'"
  shows "Q (chown_guarded e w p gp uid gid conf st)"
proof -
  let ?g = "guard_now (env_of e) st"
  let ?v = "worstGuard [Check ?g OpChown p, Check ?g OpChown gp]"
  show ?thesis
  proof (cases "guardRefuses ?v")
    case True
    then show ?thesis by (simp add: chown_guarded_def Let_def stop)
  next
    case False
    let ?l = "ladder_add gradeConfirm [chownClearsNotice] (guardReasons ?g OpChown [p, gp] no_ladder)"
    let ?parts = "permTokenParts (pe_sha e) tokenKindSync ''chown'' zero_spec zero_spec uid gid False False no_verdict [gp]"
    have v: "guard_verdict ?v" using guarded_verdict [of ?g OpChown "[p, gp]"] by simp
    have eq: "chown_guarded e w p gp uid gid conf st
      = gated (env_of e) w ?v True (one_item ''chown'' p) ?parts True conf
          \<lparr>sum_Files = 1, sum_Bytes = 0, sum_Warnings = ld_warnings ?l, sum_Capped = False\<rparr> (ld_grade ?l) True
          (''uid='' @ itoa uid @ '' gid='' @ itoa gid) (chown_dispatch e w (one_item ''chown'' p) gp uid gid) st"
      unfolding chown_guarded_def Let_def if_not_P [OF False] ..
    show ?thesis
      unfolding eq
    proof (rule gated_cases [OF v])
      fix st' :: server
      assume "disciplined (srv_trail st') = disciplined (srv_trail st)" "dispatches (srv_trail st') = dispatches (srv_trail st)"
      then show "Q st'" by (rule stop)
    next
      fix st' :: server
      let ?r = "chown_dispatch e w (one_item ''chown'' p) gp uid gid st'"
      assume s: "sev ?v \<noteq> Denied"
        and t: "sev ?v = Confirmable \<or> True \<Longrightarrow> token_accepted (env_of e) conf (mut_op (one_item ''chown'' p)) ?parts True st"
        and i: "env_auditor (env_of e) \<Longrightarrow> intent_on_top (mut_op (one_item ''chown'' p)) (srv_trail st')"
        and d: "disciplined (srv_trail st') = disciplined (srv_trail st)" "dispatches (srv_trail st') = dispatches (srv_trail st)"
      show "Q ?r"
      proof (rule go)
        show "list_all (\<lambda>q. sev (Check ?g OpChown q) \<noteq> Denied) [p, gp]" using worst_allows [OF s] by simp
        show "token_accepted (env_of e) conf ''chown'' ?parts True st" using t by simp
        show "dispatches (srv_trail ?r) = DChown gp uid gid # dispatches (srv_trail st)" using d chown_dispatch_trail(1) by simp
        show "disciplined (srv_trail ?r)" if "env_auditor e" "disciplined (srv_trail st)"
          using that i d(1) by (intro chown_dispatch_trail(2)) (simp_all add: env.truncate_def)
      qed
    qed
  qed
qed

lemma chown_route_cases:
  assumes "\<And>st'. disciplined (srv_trail st') = disciplined (srv_trail st) \<Longrightarrow> dispatches (srv_trail st') = dispatches (srv_trail st) \<Longrightarrow> Q st'"
    and "\<And>p gp uid gid. bodyPath (co_Path b) (co_PathB64 b) = Inr p \<Longrightarrow> chownIDs (co_UID b) (co_GID b) = Some (uid, gid) \<Longrightarrow>
      env_resolve e (srv_trail st) p False = Inr gp \<Longrightarrow> Q (chown_guarded e w p gp uid gid (co_Confirm b) st)"
  shows "Q (chown_route e w b st)"
  using assms unfolding chown_route_def by (simp split: sum.split option.split)

lemma chown_half_range: "chown_half v = Some n \<Longrightarrow> -1 \<le> n \<and> n \<le> maxID \<and> (n = -1 \<longleftrightarrow> v = None) \<and> (v = None \<or> v = Some n)"
  by (auto simp: chown_half_def maxID_def split: option.splits if_splits)

lemma chownIDs_range:
  "chownIDs u g = Some (uid, gid) \<Longrightarrow> -1 \<le> uid \<and> uid < 2 ^ 32 - 1 \<and> -1 \<le> gid \<and> gid < 2 ^ 32 - 1 \<and> \<not> (uid = -1 \<and> gid = -1)
     \<and> (if u = None then uid = -1 else u = Some uid) \<and> (if g = None then gid = -1 else g = Some gid)"
  using chown_half_range [of u uid] chown_half_range [of g gid]
  by (auto simp: chownIDs_def maxID_def split: option.splits if_splits)

definition chown_admitted :: "perm_env \<Rightarrow> chown_body \<Rightarrow> server \<Rightarrow> dispatch list \<Rightarrow> bool" where
  "chown_admitted e b st new \<longleftrightarrow> new = [] \<or> (\<exists>p gp uid gid.
     new = [DChown gp uid gid] \<and> bodyPath (co_Path b) (co_PathB64 b) = Inr p \<and> env_resolve e (srv_trail st) p False = Inr gp \<and>
     (if co_UID b = None then uid = -1 else co_UID b = Some uid) \<and> (if co_GID b = None then gid = -1 else co_GID b = Some gid) \<and>
     -1 \<le> uid \<and> uid < 2 ^ 32 - 1 \<and> -1 \<le> gid \<and> gid < 2 ^ 32 - 1 \<and>
     list_all (\<lambda>q. sev (Check (guard_now (env_of e) st) OpChown q) \<noteq> Denied) [p, gp] \<and>
     token_accepted (env_of e) (co_Confirm b) ''chown''
       (permTokenParts (pe_sha e) tokenKindSync ''chown'' zero_spec zero_spec uid gid False False no_verdict [gp]) True st)"

lemma chown_silent:
  "dispatches (srv_trail st') = dispatches (srv_trail st) \<Longrightarrow>
   \<exists>new. dispatches (srv_trail st') = new @ dispatches (srv_trail st) \<and> chown_admitted e b st new"
  by (rule exI [of _ "[]"]) (simp add: chown_admitted_def)

text \<open>
  No owner changes without a confirmation, and never to another one than was asked: a chown dispatches at most one
  change, of the resolved item, to exactly the ids in the request, an absent half being left alone, each a number that
  32 bits hold and that is not the kernel's "leave alone"; a token for those ids and that item was redeemed, and the
  guard denies neither spelling.
\<close>

theorem chown_exact:
  "\<exists>new. dispatches (srv_trail (chown_route e w b st)) = new @ dispatches (srv_trail st) \<and> chown_admitted e b st new"
proof (rule chown_route_cases)
  fix p gp uid gid
  assume p: "bodyPath (co_Path b) (co_PathB64 b) = Inr p" and i: "chownIDs (co_UID b) (co_GID b) = Some (uid, gid)"
    and gp: "env_resolve e (srv_trail st) p False = Inr gp"
  show "\<exists>new. dispatches (srv_trail (chown_guarded e w p gp uid gid (co_Confirm b) st)) = new @ dispatches (srv_trail st)
      \<and> chown_admitted e b st new"
  proof (rule chown_guarded_cases)
    fix st' :: server
    assume a: "list_all (\<lambda>q. sev (Check (guard_now (env_of e) st) OpChown q) \<noteq> Denied) [p, gp]"
      and k: "token_accepted (env_of e) (co_Confirm b) ''chown''
        (permTokenParts (pe_sha e) tokenKindSync ''chown'' zero_spec zero_spec uid gid False False no_verdict [gp]) True st"
      and d: "dispatches (srv_trail st') = DChown gp uid gid # dispatches (srv_trail st)"
    have "chown_admitted e b st [DChown gp uid gid]"
      unfolding chown_admitted_def using a k p gp chownIDs_range [OF i]
      by (intro disjI2 exI [of _ p] exI [of _ gp] exI [of _ uid] exI [of _ gid]) simp
    then show "\<exists>new. dispatches (srv_trail st') = new @ dispatches (srv_trail st) \<and> chown_admitted e b st new"
      using d by (intro exI [of _ "[DChown gp uid gid]"]) simp
  qed (rule chown_silent)
qed (rule chown_silent)

subsection \<open>The pre-scan and the properties dialog\<close>

text \<open>
  The properties dialog reads nothing the guard hides: it asks the worker only about spellings on which the guard
  allows reading, the requested one, the resolved one it sends and, when a link is followed, the target it sends.
\<close>

theorem properties_guarded:
  "case properties e p follow st of
     PropsAsk asked target \<Rightarrow>
       Check (guard_now (env_of e) st) OpRead p = None \<and>
       Check (guard_now (env_of e) st) OpRead asked = None \<and>
       (if target = [] then True else Check (guard_now (env_of e) st) OpRead target = None \<and> follow)
   | PropsRefused code \<Rightarrow> True"
  unfolding readable_def [symmetric] properties_def Let_def by (simp split: sum.split)

lemma scan_never_below: "0 \<le> tot \<Longrightarrow> -1 \<le> scan_loop sz rs tot"
  by (induction sz rs tot rule: scan_loop.induct) (auto simp: Let_def split: option.split)

text \<open>What was counted, root after root, when every root was answered in full.\<close>

fun counted :: "(string \<Rightarrow> int \<Rightarrow> job_result option) \<Rightarrow> string list \<Rightarrow> int \<Rightarrow> int option" where
  "counted sz [] tot = Some tot"
| "counted sz (r # rs) tot =
     (if tot \<ge> modeScanMaxEntries then None
      else case sz r (modeScanMaxEntries - tot) of
        None \<Rightarrow> None
      | Some res \<Rightarrow> if jr_Cancelled res \<or> jr_Capped res \<or> jr_Files res < 0 \<or> jr_Dirs res < 0 then None
                    else counted sz rs (tot + (jr_Files res + jr_Dirs res)))"

definition sane_sizes :: "(string \<Rightarrow> int \<Rightarrow> job_result option) \<Rightarrow> bool" where
  "sane_sizes sz \<longleftrightarrow> (\<forall>r n res. sz r n = Some res \<longrightarrow> jr_Files res < 2 ^ 60 \<and> jr_Dirs res < 2 ^ 60)"

text \<open>
  C32: A pre-scan's number is the whole truth or it is no number: while the worker's counts stay below 2^60, the answer
  is the exact count of all roots together, each asked only for what is left of the allowance, and -1, which the ladder
  reads as "too large to say", as soon as one root was not answered in full or the allowance was spent.
\<close>

theorem scan_exact:
  assumes "sane_sizes sz" and "0 \<le> tot" and "tot < 2 ^ 62"
  shows "scan_loop sz rs tot = (case counted sz rs tot of None \<Rightarrow> -1 | Some n \<Rightarrow> n)"
  using assms(2,3)
proof (induction rs arbitrary: tot)
  case (Cons r rs)
  show ?case
  proof (cases "tot \<ge> modeScanMaxEntries \<or> sz r (modeScanMaxEntries - tot) = None")
    case True
    then show ?thesis by (auto simp: Let_def)
  next
    case False
    then obtain res where res: "sz r (modeScanMaxEntries - tot) = Some res" by auto
    show ?thesis
    proof (cases "jr_Cancelled res \<or> jr_Capped res \<or> jr_Files res < 0 \<or> jr_Dirs res < 0")
      case True
      then show ?thesis using False res by (auto simp: Let_def)
    next
      case ok: False
      let ?n = "jr_Files res + jr_Dirs res"
      have b: "jr_Files res < 2 ^ 60" "jr_Dirs res < 2 ^ 60" using assms(1) res by (auto simp: sane_sizes_def)
      have m: "tot < 500000" using False by (simp add: modeScanMaxEntries_def)
      have w: "wrap64 ?n = ?n" using b ok by (intro wrap64_small) auto
      have w2: "wrap64 (tot + ?n) = tot + ?n" using b ok m Cons.prems by (intro wrap64_small) auto
      have "scan_loop sz rs (tot + ?n) = (case counted sz rs (tot + ?n) of None \<Rightarrow> -1 | Some n \<Rightarrow> n)"
        using b ok m Cons.prems by (intro Cons.IH) auto
      moreover have "\<not> tot + ?n < 0" using ok Cons.prems by simp
      ultimately show ?thesis using False res ok w w2 by (simp add: Let_def)
    qed
  qed
qed simp

definition sample_size :: job_result where
  "sample_size = \<lparr>jr_Files = 3, jr_Dirs = 1, jr_Bytes = 10, jr_Skipped = 0, jr_Warnings = 0, jr_Detail = [], jr_TrashIDs = [],
     jr_MountsSkipped = 0, jr_MountsNetwork = 0, jr_HiddenSkipped = 0, jr_Capped = False, jr_Cancelled = False\<rparr>"

theorem scan_exact_witness: "scan_loop (\<lambda>_ _. Some sample_size) [''/share/a'', ''/share/b''] 0 = 8"
proof -
  have s: "sane_sizes (\<lambda>_ _. Some sample_size)" by (simp add: sane_sizes_def sample_size_def)
  show ?thesis
    using scan_exact [OF s, of 0 "[''/share/a'', ''/share/b'']"] by (simp add: sample_size_def modeScanMaxEntries_def)
qed

text \<open>The guard against wrapping misses one case: a count that wraps to -2 behind a root that was counted.\<close>

lemma scan_wraps:
  "scan_loop (\<lambda>r _. Some (if r = ''a'' then sample_size else sample_size\<lparr>jr_Files := 2 ^ 63 - 1, jr_Dirs := 2 ^ 63 - 1\<rparr>)) [''a'', ''b''] 0 = 2"
  by code_simp

subsection \<open>The permissions jobs\<close>

lemma perm_resolve_length: "perm_resolve env tr follow ps = Inr rs \<Longrightarrow> length rs = length ps"
  by (induction ps arbitrary: rs) (auto split: sum.splits)

text \<open>The verdict does not depend on what the ladder said before.\<close>

lemma job_rung_acl: "jl_acl j = jl_acl k \<Longrightarrow> jl_acl (job_rung j f) = jl_acl (job_rung k f)"
  by (simp add: job_rung_def Let_def split: prod.split)

lemma job_rungs_acl: "jl_acl j = jl_acl k \<Longrightarrow> jl_acl (foldl job_rung j fs) = jl_acl (foldl job_rung k fs)"
proof (induction fs arbitrary: j k)
  case (Cons f fs)
  show ?case unfolding foldl_Cons by (rule Cons.IH [OF job_rung_acl [OF Cons.prems]])
qed simp

lemma chmodJobLadder_fst:
  "fst (chmodJobLadder facts l targets) = jl_acl (foldl job_rung
     \<lparr>jl_ladder = l, jl_acl = no_verdict, jl_discarding = [], jl_keys = [], jl_unreadable = False\<rparr> (concat (map facts targets)))"
  unfolding chmodJobLadder_def Let_def by (simp only: fst_conv if_distrib [of fst] if_cancel)

lemma chmodJobLadder_acl: "fst (chmodJobLadder facts l targets) = fst (chmodJobLadder facts l' targets)"
  unfolding chmodJobLadder_fst by (rule job_rungs_acl) simp

lemma aclVerdictNow_acl: "fst (aclVerdictNow e tr pj l targets) = fst (aclVerdictNow e tr pj l' targets)"
  using chmodJobLadder_acl [where l = l and l' = l'] by (simp add: aclVerdictNow_def)

definition job_facts :: "perm_env \<Rightarrow> server \<Rightarrow> perm_job \<Rightarrow> string \<Rightarrow> acl_facts list" where
  "job_facts e st pj p = ladderFacts (je_now e (srv_trail st)) (pe_platform e (srv_trail st)) (je_os e) p (pj_cross pj \<and> pj_recursive pj)"

definition verdict_at :: "perm_env \<Rightarrow> server \<Rightarrow> perm_job \<Rightarrow> string list \<Rightarrow> acl_verdict" where
  "verdict_at e st pj targets = fst (aclVerdictNow e (srv_trail st) pj no_ladder targets)"

lemma perm_ladder_grade:
  assumes "perm_ladder e st pj targets spellings reasons = (acl, l)" "pj_op pj = ''chmod'' \<or> pj_op pj = ''chown''"
  shows "acl = verdict_at e st pj targets"
    and "pj_op pj = ''chown'' \<Longrightarrow> ld_grade l > gradeNone"
    and "pj_op pj = ''chmod'' \<Longrightarrow> f \<in> set (concat (map (job_facts e st pj) targets)) \<Longrightarrow> fst (chmodACLNotice f) \<le> ld_grade l"
proof -
  let ?said = "guardReasons (guard_now (env_of e) st) (pj_guard_op pj) spellings no_ladder"
  let ?base = "if reasons = [] then ?said else ladder_add gradeTyped reasons ?said"
  obtain a l2 where v: "aclVerdictNow e (srv_trail st) pj ?base targets = (a, l2)" by fastforce
  have av: "a = verdict_at e st pj targets" unfolding verdict_at_def using aclVerdictNow_acl [where l = ?base and l' = no_ladder and tr = "srv_trail st" and e = e and pj = pj and targets = targets] v by simp
  show "acl = verdict_at e st pj targets"
    using assms v av by (auto simp: perm_ladder_def Let_def verdict_at_def aclVerdictNow_def split: if_splits)
  show "pj_op pj = ''chown'' \<Longrightarrow> ld_grade l > gradeNone"
    using assms(1) by (auto simp: perm_ladder_def Let_def gradeNone_def gradeConfirm_def)
  assume c: "pj_op pj = ''chmod''" and f: "f \<in> set (concat (map (job_facts e st pj) targets))"
  have "ld_grade l2 \<le> ld_grade l" using assms(1) v c by (auto simp: perm_ladder_def Let_def split: if_splits)
  moreover have "fst (chmodACLNotice f) \<le> ld_grade l2"
    using job_ladder_all [where facts = "job_facts e st pj" and l = ?base and targets = targets] f v c
    by (auto simp: aclVerdictNow_def job_facts_def [abs_def] list_all_iff split: prod.splits)
  ultimately show "fst (chmodACLNotice f) \<le> ld_grade l" by simp
qed

definition perm_parts :: "perm_env \<Rightarrow> perm_job \<Rightarrow> acl_verdict \<Rightarrow> string list \<Rightarrow> string list" where
  "perm_parts e pj acl targets =
     permTokenParts (pe_sha e) tokenKindJob (pj_op pj) (pj_files pj) (pj_dirs pj) (pj_uid pj) (pj_gid pj) (pj_recursive pj) (pj_cross pj) acl targets"

lemma perm_confirmed_cases:
  assumes op1: "pj_op pj = ''chmod'' \<or> pj_op pj = ''chown''" and v: "guard_verdict verdict"
    and stop: "\<And>st'. spoken (srv_trail st) (srv_trail st') \<Longrightarrow> Q st'"
    and go: "\<And>big what i st'. sev verdict \<noteq> Denied \<Longrightarrow>
      (pj_op pj = ''chown'' \<or> list_ex (\<lambda>f. fst (chmodACLNotice f) > gradeNone) (concat (map (job_facts e st pj) targets)) \<Longrightarrow>
        token_accepted (env_of e) (pj_confirm pj) (pj_op pj) (perm_parts e pj (verdict_at e st pj targets) targets) True st) \<Longrightarrow>
      submitted_only st (perm_plan (pe_sha e) pj paths targets spellings (verdict_at e st pj targets) big what i) st' \<Longrightarrow>
      (env_auditor e \<Longrightarrow> disciplined (srv_trail st') = disciplined (srv_trail st)) \<Longrightarrow> Q st'"
  shows "Q (perm_confirmed e w pj paths targets spellings verdict reasons st)"
proof -
  obtain acl l1 where l: "perm_ladder e st pj targets spellings reasons = (acl, l1)" by fastforce
  note lg = perm_ladder_grade [OF l op1]
  let ?parts = "perm_parts e pj acl targets"
  let ?n = "perm_scanned e st pj targets ?parts"
  let ?l = "if pj_recursive pj then scaleNotice ?n l1 else l1"
  let ?files = "if pj_recursive pj then max ?n 0 else int (length paths)"
  let ?m = "\<lparr>mut_op = pj_op pj, mut_path = hd paths, mut_dst = [], mut_files = ?files, mut_bytes = 0\<rparr>"
  let ?s = "\<lparr>sum_Files = ?files, sum_Bytes = 0, sum_Warnings = ld_warnings ?l, sum_Capped = (pj_recursive pj \<and> ?n < 0)\<rparr>"
  let ?big = "permMilestone (pj_op pj) (ld_discards ?l) (normalClass (guard_now (env_of e) st) spellings) (pj_recursive pj) ?n"
  let ?auth = "authorizeGraded (env_of e) w verdict (ld_grade ?l > gradeNone \<or> pj_confirm pj \<noteq> []) ?m ?parts True (pj_confirm pj) ?s (ld_grade ?l) st"
  obtain b1 st1 where a: "?auth = (b1, st1)" by fastforce
  have eq: "perm_confirmed e w pj paths targets spellings verdict reasons st
    = (if \<not> b1 then st1 else intend_submit (job_env_of e) w ?m ?big (\<lambda>i. jobIntentDetail i (perm_what pj ?n) paths)
         (perm_plan (pe_sha e) pj paths targets spellings acl ?big (perm_what pj ?n)) st1)"
    using a unfolding perm_confirmed_def l perm_parts_def by (simp add: Let_def)
  have gl: "ld_grade l1 \<le> ld_grade ?l" by (simp add: scaleNotice_def)
  have sp: "spoken (srv_trail st) (srv_trail st1)"
    using spoken_authorize [of st "env_of e" w verdict "ld_grade ?l > gradeNone \<or> pj_confirm pj \<noteq> []" ?m ?parts True "pj_confirm pj" ?s "ld_grade ?l"] a by simp
  show ?thesis
  proof (cases b1)
    case False
    then show ?thesis unfolding eq using stop [OF sp] by simp
  next
    case True
    then have "?auth = (True, st1)" using a by simp
    note ag = authorizeGraded_go [OF this v]
    have tk: "token_accepted (env_of e) (pj_confirm pj) (pj_op pj) (perm_parts e pj (verdict_at e st pj targets) targets) True st"
      if h: "pj_op pj = ''chown'' \<or> list_ex (\<lambda>f. fst (chmodACLNotice f) > gradeNone) (concat (map (job_facts e st pj) targets))"
    proof -
      have "ld_grade l1 > gradeNone"
      proof (cases "pj_op pj = ''chown''")
        case True
        then show ?thesis by (rule lg(2))
      next
        case False
        then obtain f where "f \<in> set (concat (map (job_facts e st pj) targets))" "fst (chmodACLNotice f) > gradeNone"
          using h by (auto simp: list_ex_iff)
        then show ?thesis using lg(3) [of f] False op1 by (auto intro: less_le_trans)
      qed
      then have "ld_grade ?l > gradeNone" using gl by (rule less_le_trans)
      then show ?thesis using ag(4) lg(1) by simp
    qed
    have "Q (intend_submit (job_env_of e) w ?m ?big (\<lambda>i. jobIntentDetail i (perm_what pj ?n) paths)
         (perm_plan (pe_sha e) pj paths targets spellings acl ?big (perm_what pj ?n)) st1)"
    proof (rule intend_submit_cases)
      fix st' :: server assume "spoken (srv_trail st1) (srv_trail st')"
      then show "Q st'" by (intro stop) (rule spoken_trans [OF sp])
    next
      fix i and st' :: server
      let ?p = "perm_plan (pe_sha e) pj paths targets spellings acl ?big (perm_what pj ?n) i"
      assume s: "submitted_only st1 ?p st'"
        and d: "env_auditor (job_env_of e) \<Longrightarrow> jp_op ?p = mut_op ?m \<Longrightarrow> disciplined (srv_trail st') = disciplined (srv_trail st1)"
      have p: "jp_op ?p = mut_op ?m" by (simp add: perm_plan_def)
      show "Q st'"
        using go [OF ag(1) tk submitted_after [OF sp s [unfolded lg(1)]]] d p sp by (simp add: spoken_def)
    qed
    then show ?thesis unfolding eq using True by simp
  qed
qed

definition no_denied_inside :: "guard \<Rightarrow> string list \<Rightarrow> bool" where
  "no_denied_inside g ss \<longleftrightarrow> list_all (\<lambda>q. case Contains g q of None \<Rightarrow> True | Some h \<Rightarrow> \<not> con_Deny h) ss"

lemma contain_checks_verdict: "list_all guard_verdict (map fst (contain_checks g ss))"
  by (auto simp: contain_checks_def list_all_iff guard_verdict_def split: option.splits)

lemma contain_checks_allow:
  assumes "\<And>x. x \<in> set (map fst (contain_checks g ss)) \<Longrightarrow> sev x \<noteq> Denied"
  shows "no_denied_inside g ss"
proof -
  have "\<not> con_Deny h" if q: "q \<in> set ss" "Contains g q = Some h" for q h
  proof
    assume d: "con_Deny h"
    have "(Some (ErrProtected, []), con_Reason h) \<in> set (contain_checks g ss)"
      using q d unfolding contain_checks_def by (auto intro!: bexI [of _ q])
    then have "Some (ErrProtected, []) \<in> set (map fst (contain_checks g ss))" by force
    from assms [OF this] show False by (simp add: sev_def)
  qed
  then show ?thesis unfolding no_denied_inside_def list_all_iff by (auto split: option.split)
qed

lemma shallow_none:
  assumes "shallow_root (zip ps rs) = None" "length rs = length ps" "q \<in> set (ps @ map fst rs @ map snd rs)"
  shows "q = [] \<or> pathDepth q > 1"
proof -
  obtain n where n: "n < length ps" "q = ps ! n \<or> q = fst (rs ! n) \<or> q = snd (rs ! n)"
    using assms(2,3) by (auto simp: in_set_conv_nth)
  obtain rp t where rt: "rs ! n = (rp, t)" by fastforce
  have "(ps ! n, rs ! n) \<in> set (zip ps rs)" using n(1) assms(2) by (auto simp: set_zip)
  then have "(ps ! n, rp, t) \<in> set (zip ps rs)" using rt by simp
  then have "\<not> list_ex (\<lambda>q. pathDepth q \<le> 1) (other_spellings (ps ! n) [rp, t])"
    using assms(1) by (force simp: shallow_root_def find_None_iff)
  then have deep: "pathDepth x > 1" if "x \<in> set (other_spellings (ps ! n) [rp, t])" for x
    using that by (auto simp: list_ex_iff not_le)
  have "q = [] \<or> q \<in> set (other_spellings (ps ! n) [rp, t])"
    using n(2) rt by (auto simp: other_spellings_def)
  then show ?thesis using deep by blast
qed

text \<open>The one job a permissions route may have submitted.\<close>

definition perm_admitted :: "perm_env \<Rightarrow> perm_job \<Rightarrow> string list \<Rightarrow> server \<Rightarrow> job_plan list \<Rightarrow> bool" where
  "perm_admitted e pj paths st new \<longleftrightarrow> new = [] \<or> (\<exists>rs jp. let targets = map snd rs; spellings = paths @ map fst rs @ map snd rs; g = guard_now (env_of e) st in
     new = [jp] \<and> perm_resolve (env_of e) (srv_trail st) (pj_recursive pj) paths = Inr rs \<and>
     jp_op jp = pj_op pj \<and> jp_requested jp = paths \<and> jp_resolved jp = targets \<and> jp_checks jp = [(pj_guard_op pj, spellings)] \<and> jp_acl jp = Some (verdict_part (pe_sha e) (verdict_at e st pj targets)) \<and>
     jp_body jp = (if pj_op pj = ''chmod'' then BChmod targets (pj_files pj) (pj_dirs pj) (pj_recursive pj) (pj_cross pj)
                   else BChown targets (pj_uid pj) (pj_gid pj) (pj_recursive pj) (pj_cross pj)) \<and>
     list_all (\<lambda>q. sev (Check g (pj_guard_op pj) q) \<noteq> Denied) spellings \<and>
     (if pj_recursive pj then no_denied_inside g spellings \<and> list_all (\<lambda>q. q = [] \<or> pathDepth q > 1) spellings else True) \<and>
     (if pj_op pj = ''chown'' \<or> list_ex (\<lambda>f. fst (chmodACLNotice f) > gradeNone) (concat (map (job_facts e st pj) targets))
      then token_accepted (env_of e) (pj_confirm pj) (pj_op pj) (perm_parts e pj (verdict_at e st pj targets) targets) True st else True))"

definition perm_submitted :: "perm_env \<Rightarrow> perm_job \<Rightarrow> string list \<Rightarrow> server \<Rightarrow> server \<Rightarrow> bool" where
  "perm_submitted e pj paths st st' \<longleftrightarrow>
     (\<exists>new. submissions (srv_trail st') = new @ submissions (srv_trail st) \<and> perm_admitted e pj paths st new)
     \<and> runs (srv_trail st') = runs (srv_trail st) \<and> dispatches (srv_trail st') = dispatches (srv_trail st)
     \<and> (env_auditor e \<longrightarrow> disciplined (srv_trail st') = disciplined (srv_trail st))"

lemma perm_submitted_silent: "spoken (srv_trail st) (srv_trail st') \<Longrightarrow> perm_submitted e pj paths st st'"
  unfolding perm_submitted_def spoken_def by (auto simp: perm_admitted_def)

lemma spoken_refuseShallow [simp]: "spoken t0 (srv_trail (refuseShallowRecursion env w op1 p st)) = spoken t0 (srv_trail st)"
  by (simp add: refuseShallowRecursion_def)

lemma perm_checks_verdict:
  "list_all guard_verdict (concat (map (\<lambda>(p, rp, t). [Check g o1 p, Check g o1 rp, Check g o1 t]) xs))"
  by (auto simp: list_all_iff)

lemma submitPermJob_ok:
  assumes op1: "pj_op pj = ''chmod'' \<or> pj_op pj = ''chown''"
  shows "perm_submitted e pj paths st (submitPermJob e w pj paths st)"
proof (cases "perm_resolve (env_of e) (srv_trail st) (pj_recursive pj) paths")
  case (Inl x)
  then show ?thesis by (intro perm_submitted_silent) (simp add: submitPermJob_def)
next
  case (Inr rs)
  let ?g = "guard_now (env_of e) st" and ?o = "pj_guard_op pj"
  let ?targets = "map snd rs"
  let ?checks = "concat (map (\<lambda>(p, rp, t). [Check ?g ?o p, Check ?g ?o rp, Check ?g ?o t]) (zip paths rs))"
  let ?all = "paths @ map fst rs @ ?targets"
  let ?inside = "if pj_recursive pj then contain_checks ?g ?all else []"
  let ?v = "worstGuard (?checks @ map fst ?inside)"
  have len: "length rs = length paths" using perm_resolve_length [OF Inr] .
  show ?thesis
  proof (cases "guardRefuses ?v \<or> (pj_recursive pj \<and> shallow_root (zip paths rs) \<noteq> None)")
    case True
    then show ?thesis using Inr by (intro perm_submitted_silent) (auto simp: submitPermJob_def Let_def)
  next
    case False
    have eq: "submitPermJob e w pj paths st = perm_confirmed e w pj paths ?targets ?all ?v (map snd ?inside) st"
    proof -
      have n: "\<not> guardRefuses ?v" "\<not> (pj_recursive pj \<and> shallow_root (zip paths rs) \<noteq> None)" using False by blast+
      show ?thesis unfolding submitPermJob_def Inr sum.case Let_def if_not_P [OF n(1)] if_not_P [OF n(2)] ..
    qed
    have v: "guard_verdict ?v"
      using perm_checks_verdict contain_checks_verdict by (intro guard_verdict_worstGuard) simp
    show ?thesis
      unfolding eq
    proof (rule perm_confirmed_cases [OF op1 v])
      fix st' :: server assume "spoken (srv_trail st) (srv_trail st')"
      then show "perm_submitted e pj paths st st'" by (rule perm_submitted_silent)
    next
      fix big what i and st' :: server
      let ?jp = "perm_plan (pe_sha e) pj paths ?targets ?all (verdict_at e st pj ?targets) big what i"
      assume s: "sev ?v \<noteq> Denied"
        and t: "pj_op pj = ''chown'' \<or> list_ex (\<lambda>f. fst (chmodACLNotice f) > gradeNone) (concat (map (job_facts e st pj) ?targets)) \<Longrightarrow>
          token_accepted (env_of e) (pj_confirm pj) (pj_op pj) (perm_parts e pj (verdict_at e st pj ?targets) ?targets) True st"
        and sub: "submitted_only st ?jp st'" and d: "env_auditor e \<Longrightarrow> disciplined (srv_trail st') = disciplined (srv_trail st)"
      have al: "list_all (\<lambda>q. sev (Check ?g ?o q) \<noteq> Denied) ?all"
      proof -
        have "Check ?g ?o q \<in> set ?checks" if q: "q \<in> set ?all" for q
        proof -
          obtain n where n: "n < length paths" "q = paths ! n \<or> q = fst (rs ! n) \<or> q = snd (rs ! n)"
            using q len by (auto simp: in_set_conv_nth)
          have "(paths ! n, rs ! n) \<in> set (zip paths rs)" using n(1) len by (auto simp: set_zip)
          then show ?thesis using n(2) by (cases "rs ! n") force
        qed
        then show ?thesis using worst_allows [OF s] by (simp add: list_all_iff)
      qed
      have ins: "no_denied_inside ?g ?all" if "pj_recursive pj"
        by (rule contain_checks_allow) (use worst_allows [OF s] that in simp)
      have sh: "list_all (\<lambda>q. q = [] \<or> pathDepth q > 1) ?all" if "pj_recursive pj"
        unfolding list_all_iff using shallow_none [OF _ len] False that by blast
      have "perm_admitted e pj paths st [?jp]"
        unfolding perm_admitted_def Let_def using Inr al ins sh t
        by (intro disjI2 exI [of _ rs] exI [of _ ?jp]) (simp add: perm_plan_def)
      then show "perm_submitted e pj paths st st'"
        unfolding perm_submitted_def using sub d by (auto simp: submitted_only_def intro!: exI [of _ "[?jp]"])
    qed
  qed
qed

lemma jobChmod_cases:
  assumes "\<And>st'. spoken (srv_trail st) (srv_trail st') \<Longrightarrow> Q st'"
    and "\<And>paths. jobPaths (jc_Paths b) = Some paths \<Longrightarrow> validSpec (jc_Files b) \<Longrightarrow> validSpec (jc_Dirs b) \<Longrightarrow>
      \<not> (jc_Recursive b \<and> (SetsSpecial (jc_Files b) \<or> SetsSpecial (jc_Dirs b))) \<Longrightarrow> Q (submitPermJob e w (chmod_job b) paths st)"
  shows "Q (jobChmod e w b st)"
  using assms unfolding jobChmod_def by (simp split: option.split)

lemma jobChown_cases:
  assumes "\<And>st'. spoken (srv_trail st) (srv_trail st') \<Longrightarrow> Q st'"
    and "\<And>uid gid paths. jobPaths (jo_Paths b) = Some paths \<Longrightarrow> chownIDs (jo_UID b) (jo_GID b) = Some (uid, gid) \<Longrightarrow>
      Q (submitPermJob e w (chown_job b uid gid) paths st)"
  shows "Q (jobChown e w b st)"
  using assms unfolding jobChown_def by (simp split: option.split)

lemma perm_job_ops: "pj_op (chmod_job b) = ''chmod''" "pj_op (chown_job c u g) = ''chown''"
  by (simp_all add: chmod_job_def chown_job_def)

text \<open>
  C31: Recursive permission changes are fenced. A chmod or chown job is submitted at most once per request, for exactly
  the spellings the work lands on, to be checked again on all three spellings and against the confirmed ACL verdict
  when it starts. The guard denies none of the spellings; a recursion has no root at the top of the file system and
  nothing denied inside, and a recursive chmod sets no special bit; a chown, and a chmod any dataset has something to
  say about, was confirmed with a token for that very change and verdict.
\<close>

theorem perm_jobs_guarded:
  "(let st' = jobChmod e w b st in
      (if submissions (srv_trail st') = submissions (srv_trail st) then True
       else (\<exists>paths. jobPaths (jc_Paths b) = Some paths \<and> perm_submitted e (chmod_job b) paths st st')
            \<and> \<not> (jc_Recursive b \<and> (SetsSpecial (jc_Files b) \<or> SetsSpecial (jc_Dirs b)))))
   \<and> (let st' = jobChown e w c st in
      (if submissions (srv_trail st') = submissions (srv_trail st) then True
       else \<exists>paths uid gid. jobPaths (jo_Paths c) = Some paths \<and> chownIDs (jo_UID c) (jo_GID c) = Some (uid, gid)
            \<and> perm_submitted e (chown_job c uid gid) paths st st'))"
  unfolding Let_def
proof (rule conjI)
  show "if submissions (srv_trail (jobChmod e w b st)) = submissions (srv_trail st) then True
       else (\<exists>paths. jobPaths (jc_Paths b) = Some paths \<and> perm_submitted e (chmod_job b) paths st (jobChmod e w b st))
            \<and> \<not> (jc_Recursive b \<and> (SetsSpecial (jc_Files b) \<or> SetsSpecial (jc_Dirs b)))"
  proof (rule jobChmod_cases)
    fix paths
    assume p: "jobPaths (jc_Paths b) = Some paths" and s: "\<not> (jc_Recursive b \<and> (SetsSpecial (jc_Files b) \<or> SetsSpecial (jc_Dirs b)))"
    have "perm_submitted e (chmod_job b) paths st (submitPermJob e w (chmod_job b) paths st)"
      by (rule submitPermJob_ok) (simp add: perm_job_ops)
    then show "if submissions (srv_trail (submitPermJob e w (chmod_job b) paths st)) = submissions (srv_trail st) then True
       else (\<exists>paths'. jobPaths (jc_Paths b) = Some paths' \<and> perm_submitted e (chmod_job b) paths' st (submitPermJob e w (chmod_job b) paths st))
            \<and> \<not> (jc_Recursive b \<and> (SetsSpecial (jc_Files b) \<or> SetsSpecial (jc_Dirs b)))"
      using p s by auto
  qed (simp add: spoken_def)
  show "if submissions (srv_trail (jobChown e w c st)) = submissions (srv_trail st) then True
       else \<exists>paths uid gid. jobPaths (jo_Paths c) = Some paths \<and> chownIDs (jo_UID c) (jo_GID c) = Some (uid, gid)
            \<and> perm_submitted e (chown_job c uid gid) paths st (jobChown e w c st)"
  proof (rule jobChown_cases)
    fix uid gid paths
    assume p: "jobPaths (jo_Paths c) = Some paths" "chownIDs (jo_UID c) (jo_GID c) = Some (uid, gid)"
    have "perm_submitted e (chown_job c uid gid) paths st (submitPermJob e w (chown_job c uid gid) paths st)"
      by (rule submitPermJob_ok) (simp add: perm_job_ops)
    then show "if submissions (srv_trail (submitPermJob e w (chown_job c uid gid) paths st)) = submissions (srv_trail st) then True
       else \<exists>paths' uid' gid'. jobPaths (jo_Paths c) = Some paths' \<and> chownIDs (jo_UID c) (jo_GID c) = Some (uid', gid')
            \<and> perm_submitted e (chown_job c uid' gid') paths' st (submitPermJob e w (chown_job c uid gid) paths st)"
      using p by auto
  qed (simp add: spoken_def)
qed

subsection \<open>When a queued job starts\<close>

text \<open>The plans a route added to the queue, and the two ways a plan may start: it reaches the worker, or nothing happens.\<close>

definition new_jobs :: "server \<Rightarrow> server \<Rightarrow> job_plan list" where
  "new_jobs st st' = take (length (submissions (srv_trail st')) - length (submissions (srv_trail st))) (submissions (srv_trail st'))"

definition starts :: "bool \<Rightarrow> job_plan \<Rightarrow> server \<Rightarrow> (job_result option \<times> string option) \<times> server \<Rightarrow> bool" where
  "starts allowed jp later r \<longleftrightarrow>
     (if allowed then srv_trail (snd r) = Ran jp # srv_trail later
      else \<exists>code. r = ((None, Some code), later) \<and> code \<in> set denial_codes)"

definition guard_allows :: "guard \<Rightarrow> op \<Rightarrow> string list \<Rightarrow> bool" where
  "guard_allows g op1 ps \<longleftrightarrow> \<not> readOnly g \<and> list_all (\<lambda>p. sev (Check g op1 p) \<noteq> Denied) ps"

definition delete_allowed :: "job_env \<Rightarrow> job_delete_body \<Rightarrow> server \<Rightarrow> server \<Rightarrow> bool" where
  "delete_allowed e b st later \<longleftrightarrow> (\<exists>paths resolved. jobPaths (jd_Paths b) = Some paths \<and>
     resolve_all (base_env e) (srv_trail st) False paths = Inr resolved \<and>
     guard_allows (guard_now (base_env e) later) OpDelete (paths @ resolved))"

definition perm_allowed :: "perm_env \<Rightarrow> perm_job \<Rightarrow> (string \<times> string) list \<Rightarrow> server \<Rightarrow> server \<Rightarrow> bool" where
  "perm_allowed e pj refs st later \<longleftrightarrow> (\<exists>paths rs. jobPaths refs = Some paths \<and>
     perm_resolve (env_of e) (srv_trail st) (pj_recursive pj) paths = Inr rs \<and>
     guard_allows (guard_now (env_of e) later) (pj_guard_op pj) (paths @ map fst rs @ map snd rs) \<and>
     verdict_part (pe_sha e) (verdict_at e later pj (map snd rs)) = verdict_part (pe_sha e) (verdict_at e st pj (map snd rs)))"

lemma new_jobs_append: "submissions (srv_trail st') = new @ submissions (srv_trail st) \<Longrightarrow> new_jobs st st' = new"
  by (simp add: new_jobs_def)

lemma new_jobs_silent: "spoken (srv_trail st) (srv_trail st') \<Longrightarrow> new_jobs st st' = []"
  by (simp add: new_jobs_def spoken_def)

lemma recheck_allows: "recheckGuard g [(op1, ps)] = None \<longleftrightarrow> guard_allows g op1 ps"
  by (simp add: recheckGuard_None guard_allows_def flat_checks_def list_all_iff)

lemma recheck_allows2: "recheckGuard g [(op1, ps), (op1, qs)] = None \<longleftrightarrow> guard_allows g op1 (ps @ qs)"
  by (auto simp: recheckGuard_None guard_allows_def flat_checks_def list_all_iff)

lemma run_plan_trail: "run_plan e jp st = (r, st1) \<Longrightarrow> srv_trail st1 = Ran jp # srv_trail st"
  by (auto simp: run_plan_def emit_def split: prod.splits)

lemma delete_work_starts:
  "starts (recheckGuard (guard_now (base_env e) later) (jp_checks jp) = None) jp later (delete_work e jp permanent started later)"
proof (cases "recheckGuard (guard_now (base_env e) later) (jp_checks jp)")
  case None
  then show ?thesis by (simp add: starts_def delete_work_def run_plan_trail split: prod.split)
next
  case (Some code)
  then show ?thesis using recheckGuard_Some [OF Some] by (simp add: starts_def delete_work_def stopped_work_def)
qed

lemma perm_work_starts:
  assumes "jp_acl jp = Some redeemed"
  shows "starts (recheckGuard (guard_now (env_of e) later) (jp_checks jp) = None
     \<and> verdict_part (pe_sha e) (verdict_at e later pj (jp_resolved jp)) = redeemed) jp later (perm_work e pj jp later)"
proof (cases "recheckGuard (guard_now (env_of e) later) (jp_checks jp)")
  case None
  then show ?thesis
    using assms run_plan_trail
    by (auto simp: starts_def perm_work_def stopped_work_def recheckACLVerdict_def verdict_at_def denial_codes_def split: prod.split)
next
  case (Some code)
  then show ?thesis using recheckGuard_Some [OF Some] by (simp add: starts_def perm_work_def stopped_work_def)
qed

lemma delete_jobs_start:
  "list_all (\<lambda>jp. starts (delete_allowed e b st later) jp later (delete_work e jp (delete_mode b = ''permanent'') started later))
     (new_jobs st (jobDelete e w b st))"
proof (rule jobDelete_cases)
  fix st' :: server assume "spoken (srv_trail st) (srv_trail st')"
  then show "list_all (\<lambda>jp. starts (delete_allowed e b st later) jp later (delete_work e jp (delete_mode b = ''permanent'') started later)) (new_jobs st st')"
    by (simp add: new_jobs_silent)
next
  fix paths resolved i big d and st' :: server
  let ?jp = "delete_plan b (delete_mode b) paths resolved big d i"
  assume p: "jobPaths (jd_Paths b) = Some paths" "resolve_all (base_env e) (srv_trail st) False paths = Inr resolved"
    and s: "submitted_only st ?jp st'"
  have n: "new_jobs st st' = [?jp]" using s by (intro new_jobs_append) (simp add: submitted_only_def)
  have "jp_checks ?jp = [(OpDelete, paths), (OpDelete, resolved)]" by (simp add: delete_plan_def)
  then have "(recheckGuard (guard_now (base_env e) later) (jp_checks ?jp) = None) = delete_allowed e b st later"
    using p by (simp add: delete_allowed_def recheck_allows2)
  then show "list_all (\<lambda>jp. starts (delete_allowed e b st later) jp later (delete_work e jp (delete_mode b = ''permanent'') started later)) (new_jobs st st')"
    unfolding n using delete_work_starts [of e later ?jp "delete_mode b = ''permanent''" started] by simp
qed

lemma perm_jobs_start:
  assumes "perm_submitted e pj paths st st'" and "jobPaths refs = Some paths"
  shows "list_all (\<lambda>jp. starts (perm_allowed e pj refs st later) jp later (perm_work e pj jp later)) (new_jobs st st')"
proof -
  obtain new where n: "submissions (srv_trail st') = new @ submissions (srv_trail st)" and a: "perm_admitted e pj paths st new"
    using assms(1) by (auto simp: perm_submitted_def)
  show ?thesis
  proof (cases "new = []")
    case True
    then show ?thesis using new_jobs_append [OF n] by simp
  next
    case False
    then obtain rs jp where jp: "new = [jp]" "perm_resolve (env_of e) (srv_trail st) (pj_recursive pj) paths = Inr rs"
        "jp_resolved jp = map snd rs" "jp_checks jp = [(pj_guard_op pj, paths @ map fst rs @ map snd rs)]"
        "jp_acl jp = Some (verdict_part (pe_sha e) (verdict_at e st pj (map snd rs)))"
      using a unfolding perm_admitted_def Let_def by blast
    have "perm_allowed e pj refs st later \<longleftrightarrow> recheckGuard (guard_now (env_of e) later) (jp_checks jp) = None
       \<and> verdict_part (pe_sha e) (verdict_at e later pj (jp_resolved jp)) = verdict_part (pe_sha e) (verdict_at e st pj (map snd rs))"
      using assms(2) jp by (simp add: perm_allowed_def recheck_allows)
    then show ?thesis using perm_work_starts [OF jp(5), of e later pj] new_jobs_append [OF n] jp(1) by simp
  qed
qed

text \<open>
  C24: A change that waited in the queue is checked again when it starts, on whatever the server has become by then. A
  delete job runs exactly when read-only mode is off and the guard denies the delete of no requested and no resolved
  path; a chmod or chown job when it denies none of the three spellings and the ACL verdict the user confirmed is
  still the one that holds. Otherwise the worker is asked nothing and the job fails with a denial code. A size job,
  which changes nothing, is not checked again and always reaches the worker.
\<close>

theorem queued_job_rechecked:
  "list_all (\<lambda>jp. starts (delete_allowed e b st later) jp later (delete_work e jp (delete_mode b = ''permanent'') started later))
     (new_jobs st (jobDelete e w b st))
   \<and> list_all (\<lambda>jp. starts (perm_allowed pe (chmod_job bm) (jc_Paths bm) st later) jp later (perm_work pe (chmod_job bm) jp later))
       (new_jobs st (jobChmod pe w bm st))
   \<and> (case chownIDs (jo_UID bo) (jo_GID bo) of
        None \<Rightarrow> new_jobs st (jobChown pe w bo st) = []
      | Some (uid, gid) \<Rightarrow>
          list_all (\<lambda>jp. starts (perm_allowed pe (chown_job bo uid gid) (jo_Paths bo) st later) jp later
              (perm_work pe (chown_job bo uid gid) jp later)) (new_jobs st (jobChown pe w bo st)))
   \<and> starts True (size_plan bs ps i) later (measure_work e (size_plan bs ps i) later)"
proof (intro conjI)
  show "list_all (\<lambda>jp. starts (perm_allowed pe (chmod_job bm) (jc_Paths bm) st later) jp later (perm_work pe (chmod_job bm) jp later))
       (new_jobs st (jobChmod pe w bm st))"
    by (rule jobChmod_cases) (simp add: new_jobs_silent, rule perm_jobs_start [OF submitPermJob_ok], simp_all add: perm_job_ops)
  show "case chownIDs (jo_UID bo) (jo_GID bo) of
        None \<Rightarrow> new_jobs st (jobChown pe w bo st) = []
      | Some (uid, gid) \<Rightarrow>
          list_all (\<lambda>jp. starts (perm_allowed pe (chown_job bo uid gid) (jo_Paths bo) st later) jp later
              (perm_work pe (chown_job bo uid gid) jp later)) (new_jobs st (jobChown pe w bo st))"
    by (rule jobChown_cases) (simp add: new_jobs_silent split: option.split prod.split, auto simp: perm_job_ops intro!: perm_jobs_start [OF submitPermJob_ok])
  show "starts True (size_plan bs ps i) later (measure_work e (size_plan bs ps i) later)"
    by (simp add: starts_def measure_work_def run_plan_trail split: prod.split)
qed (rule delete_jobs_start)

text \<open>A chmod job that needs no confirmation, queued before read-only mode goes on.\<close>

definition sample_perm_env :: perm_env where
  "sample_perm_env = job_env.extend (sample_job_env\<lparr>env_readOnly := \<lambda>t. 10 < length t\<rparr>)
     \<lparr>pe_platform = \<lambda>_. None, pe_props = \<lambda>_ _. None, pe_mode = \<lambda>_ _. \<lparr>mr_Before = sample_entry, mr_Entry = sample_entry, mr_Diffs = []\<rparr>, pe_sha = id, pe_size = \<lambda>_ _ _ _. None,
      pe_admit = \<lambda>_. True\<rparr>"

definition sample_chmod_job :: job_chmod_body where
  "sample_chmod_job = \<lparr>jc_Paths = [(''/share/Public/x'', [])], jc_Files = \<lparr>ms_Mask = 511, ms_Value = 420\<rparr>,
     jc_Dirs = \<lparr>ms_Mask = 511, ms_Value = 493\<rparr>, jc_Recursive = False, jc_CrossMounts = False, jc_Confirm = []\<rparr>"

definition read_only_server :: server where
  "read_only_server = sample_server\<lparr>srv_trail := replicate 11 (MadeTrash [])\<rparr>"

lemma sample_chmod_queued: "\<exists>jp. new_jobs sample_server (jobChmod sample_perm_env sample_who sample_chmod_job sample_server) = [jp]"
proof -
  have "length (new_jobs sample_server (jobChmod sample_perm_env sample_who sample_chmod_job sample_server)) = 1" by code_simp
  then show ?thesis by (simp add: length_Suc_conv)
qed

lemma sample_chmod_allowed:
  "perm_allowed sample_perm_env (chmod_job sample_chmod_job) (jc_Paths sample_chmod_job) sample_server sample_server"
proof -
  have "jobPaths (jc_Paths sample_chmod_job) = Some [''/share/Public/x'']"
    "perm_resolve (env_of sample_perm_env) (srv_trail sample_server) (pj_recursive (chmod_job sample_chmod_job)) [''/share/Public/x'']
      = Inr [(''/share/Public/x'', ''/share/Public/x'')]"
    "guard_allows (guard_now (env_of sample_perm_env) sample_server) (pj_guard_op (chmod_job sample_chmod_job))
      ([''/share/Public/x''] @ map fst [(''/share/Public/x'', ''/share/Public/x'')] @ map snd [(''/share/Public/x'', ''/share/Public/x'')])"
    by code_simp+
  then show ?thesis unfolding perm_allowed_def by blast
qed

lemma sample_chmod_stopped:
  "\<not> perm_allowed sample_perm_env (chmod_job sample_chmod_job) (jc_Paths sample_chmod_job) sample_server read_only_server"
proof -
  have "readOnly (guard_now (env_of sample_perm_env) read_only_server)" by code_simp
  then show ?thesis by (simp add: perm_allowed_def guard_allows_def)
qed

theorem queued_job_rechecked_witness:
  "\<exists>jp code. new_jobs sample_server (jobChmod sample_perm_env sample_who sample_chmod_job sample_server) = [jp] \<and>
     srv_trail (snd (perm_work sample_perm_env (chmod_job sample_chmod_job) jp sample_server)) = [Ran jp] \<and>
     perm_work sample_perm_env (chmod_job sample_chmod_job) jp read_only_server = ((None, Some code), read_only_server) \<and>
     code \<in> set denial_codes"
proof -
  obtain jp where jp: "new_jobs sample_server (jobChmod sample_perm_env sample_who sample_chmod_job sample_server) = [jp]"
    using sample_chmod_queued by blast
  have q: "starts (perm_allowed sample_perm_env (chmod_job sample_chmod_job) (jc_Paths sample_chmod_job) sample_server later) jp later
      (perm_work sample_perm_env (chmod_job sample_chmod_job) jp later)" for later
    using queued_job_rechecked [where st = sample_server and w = sample_who and pe = sample_perm_env and bm = sample_chmod_job
        and later = later] unfolding jp by simp
  have t: "srv_trail sample_server = []" by (simp add: sample_server_def)
  show ?thesis
    using q [of sample_server] q [of read_only_server] sample_chmod_allowed sample_chmod_stopped jp
    by (simp add: starts_def t)
qed

end
