(* ===== verification/Root.thy ===== *)
theory Root
  imports Fsx_Errors
begin

section \<open>The jail mapping (internal/fsx/root.go)\<close>

text \<open>
  A \<open>Root\<close> maps API paths to OS paths and back, as the Linux build does it (the Windows branches
  of \<open>pathEqual\<close>, \<open>isPathSeparator\<close> and \<open>cleanAPI\<close> are not taken). \<open>filepath.Clean\<close> and
  \<open>filepath.Join\<close> are the lexical functions of \<open>Fsx_Path\<close>. The canonical spelling of the base,
  read from the handle when it is opened, is a field. What is shown: \<open>OS\<close> never answers with a
  path outside the jail and never fails, and \<open>API\<close> and \<open>OS\<close> undo each other.
\<close>

subsection \<open>The operations\<close>

record fsroot =
  base :: string
  canon :: string

definition trim_slash :: "string \<Rightarrow> string" where
  "trim_slash s = (if has_prefix s ''/'' then tl s else s)"

definition cleanAPI :: "string \<Rightarrow> string" where
  "cleanAPI p = path_clean (CHR ''/'' # trim_slash p)"

definition Rel :: "string \<Rightarrow> string" where
  "Rel p = (let rel = trim_slash (cleanAPI p) in if rel = [] then ''.'' else rel)"

definition Jailed :: "fsroot \<Rightarrow> bool" where
  "Jailed r \<longleftrightarrow> base r \<noteq> []"

definition RootContains :: "fsroot \<Rightarrow> string \<Rightarrow> bool" where
  "RootContains r osPath =
     (if \<not> Jailed r then True
      else let p = path_clean osPath; b = base r
           in if p = b then True
              else if last b = CHR ''/'' then length b < length p \<and> take (length b) p = b
              else length b < length p \<and> p ! length b = CHR ''/'' \<and> take (length b) p = b)"

definition OS :: "fsroot \<Rightarrow> string \<Rightarrow> sentinel + string" where
  "OS r p =
     (let c = cleanAPI p
      in if \<not> Jailed r then Inr c
         else let rel = trim_slash c
              in if rel = [] then Inr (base r)
                 else let osPath = path_clean (path_join [base r, rel])
                      in if \<not> RootContains r osPath then Inl ErrOutsideRoot else Inr osPath)"

definition API :: "fsroot \<Rightarrow> string \<Rightarrow> sentinel + string" where
  "API r osPath =
     (if osPath = [] then Inl ErrNotAbsolute
      else let p = path_clean osPath
           in if \<not> Jailed r then Inr (path_clean (CHR ''/'' # trim_slash p))
              else if p = base r then Inr ''/''
              else if RootContains r p
                then Inr (path_clean (CHR ''/'' # dropWhile (\<lambda>c. c = CHR ''/'') (drop (length (base r)) p)))
              else Inl ErrOutsideRoot)"

definition CanonicalAlias :: "fsroot \<Rightarrow> fsroot option" where
  "CanonicalAlias r =
     (if canon r = [] \<or> canon r = base r then None else Some (r\<lparr>base := canon r\<rparr>))"

text \<open>
  \<open>NewRoot\<close>: the configured directory, made absolute against the working directory (\<open>None\<close> when
  the kernel does not name it) and without a trailing separator.
\<close>

definition trim_separators :: "string \<Rightarrow> string" where
  "trim_separators p = (if trim_right_char CHR ''/'' p = [] then take 1 p else trim_right_char CHR ''/'' p)"

definition NewRoot :: "string option \<Rightarrow> string \<Rightarrow> fsroot option" where
  "NewRoot cwd dir =
     (if dir = [] \<or> dir = ''/'' then Some \<lparr>base = [], canon = []\<rparr>
      else if has_prefix dir ''/'' then Some \<lparr>base = trim_separators (path_clean dir), canon = []\<rparr>
      else case cwd of
             None \<Rightarrow> None
           | Some w \<Rightarrow> Some \<lparr>base = trim_separators (path_clean (path_join [w, dir])), canon = []\<rparr>)"

subsection \<open>What a rooted path is made of\<close>

definition plain :: "string \<Rightarrow> bool" where
  "plain c \<longleftrightarrow> c \<noteq> [] \<and> c \<noteq> ''.'' \<and> c \<noteq> ''..'' \<and> CHR ''/'' \<notin> set c"

lemma valid_plain: "valid_comp c \<Longrightarrow> plain c"
  by (simp add: plain_def valid_comp_iff)

lemma clean_step_plain:
  "CHR ''/'' \<notin> set el \<Longrightarrow> list_all plain out \<Longrightarrow> list_all plain (clean_step True out el)"
  by (auto simp: clean_step_def plain_def split: list.splits)

lemma fold_clean_plain:
  "(\<And>el. el \<in> set els \<Longrightarrow> CHR ''/'' \<notin> set el) \<Longrightarrow> list_all plain out \<Longrightarrow>
   list_all plain (foldl (clean_step True) out els)"
  by (induction els arbitrary: out) (auto simp: clean_step_plain)

lemma path_clean_rooted:
  obtains cs where "path_clean (CHR ''/'' # s) = render cs" "list_all plain cs"
proof
  let ?cs = "rev (foldl (clean_step True) [] (split_on CHR ''/'' (CHR ''/'' # s)))"
  show "path_clean (CHR ''/'' # s) = render ?cs" by (simp add: path_clean_def)
  show "list_all plain ?cs" by (simp add: fold_clean_plain split_on_no_sep del: split_on.simps)
qed

lemma plain_clean_step: "plain c \<Longrightarrow> clean_step r out c = c # out"
  by (simp add: plain_def clean_step_def)

lemma fold_plain: "list_all plain cs \<Longrightarrow> foldl (clean_step r) out cs = rev cs @ out"
  by (induction cs arbitrary: out) (auto simp: plain_clean_step)

lemma render_plain_split:
  "list_all plain cs \<Longrightarrow> split_on CHR ''/'' (render cs) = (if cs = [] then [[], []] else [] # cs)"
  using split_on_prefixed_by [of cs "CHR ''/''"] by (auto simp: render_def plain_def list_all_iff)

text \<open>Extra separators and the rendered components mean the same to \<open>path.Clean\<close>.\<close>

lemma path_clean_split:
  assumes "has_prefix p ''/''"
  shows "path_clean p = render (rev (foldl (clean_step True) [] (split_on CHR ''/'' p)))"
proof -
  from assms have "p \<noteq> []" by (cases p) simp_all
  with assms show ?thesis by (simp add: path_clean_def)
qed

lemma clean_step_skip: "clean_step r out [] = out"
  by (simp add: clean_step_def)

lemma path_clean_plain: "list_all plain cs \<Longrightarrow> path_clean (render cs) = render cs"
proof -
  assume p: "list_all plain cs"
  then have "foldl (clean_step True) [] (split_on CHR ''/'' (render cs)) = rev cs"
    using fold_plain [of cs True "[]"] by (simp add: render_plain_split clean_step_skip)
  then show ?thesis by (simp add: path_clean_split has_prefix_render)
qed

lemma trim_slash_render: "trim_slash (render cs) = (if cs = [] then [] else join_with CHR ''/'' cs)"
proof -
  have "cs \<noteq> [] \<Longrightarrow> tl (prefixed_by CHR ''/'' cs) = join_with CHR ''/'' cs"
    by (induction cs rule: join_with.induct) (auto simp: prefixed_by_def)
  then show ?thesis unfolding trim_slash_def if_P [OF has_prefix_render] by (auto simp: render_def)
qed

lemma cleanAPI_plain:
  obtains cs where "cleanAPI p = render cs" "list_all plain cs"
  unfolding cleanAPI_def by (rule path_clean_rooted)

lemma split_on_append2: "split_on c (x @ c # s) = split_on c x @ split_on c s"
  by (induction x) (auto split: list.splits)

lemma fold_spaced:
  "list_all (\<lambda>c. c = [] \<or> plain c) els \<Longrightarrow>
   foldl (clean_step r) out els = rev (filter (\<lambda>c. c \<noteq> []) els) @ out"
  by (induction els arbitrary: out) (auto simp: plain_clean_step clean_step_skip)

lemma path_clean_spaced:
  assumes "has_prefix p ''/''" and "list_all (\<lambda>c. c = [] \<or> plain c) (split_on CHR ''/'' p)"
  shows "path_clean p = render (filter (\<lambda>c. c \<noteq> []) (split_on CHR ''/'' p))"
  unfolding path_clean_split [OF assms(1)] fold_spaced [OF assms(2)] by simp

lemma plain_filter: "list_all plain cs \<Longrightarrow> filter (\<lambda>c. c \<noteq> []) cs = cs"
  by (induction cs) (auto simp: plain_def)

lemma split_render_spaced:
  "list_all plain cs \<Longrightarrow> list_all (\<lambda>c. c = [] \<or> plain c) (split_on CHR ''/'' (render cs))"
  by (auto simp: render_plain_split list_all_iff)

lemma split_render_filter:
  "list_all plain cs \<Longrightarrow> filter (\<lambda>c. c \<noteq> []) (split_on CHR ''/'' (render cs)) = cs"
  by (simp add: render_plain_split plain_filter)

lemma has_prefix_append: "has_prefix p ''/'' \<Longrightarrow> has_prefix (p @ q) ''/''"
  by (cases p) simp_all

lemma render_join:
  assumes "list_all plain bs" "list_all plain cs" "cs \<noteq> []"
  shows "path_clean (render bs @ CHR ''/'' # join_with CHR ''/'' cs) = render (bs @ cs)"
proof -
  have j: "split_on CHR ''/'' (join_with CHR ''/'' cs) = cs"
    using assms(2,3) by (intro split_join) (auto simp: list_all_iff plain_def)
  show ?thesis
    using assms split_render_spaced [OF assms(1)]
    by (subst path_clean_spaced)
      (auto simp: has_prefix_append has_prefix_render split_on_append2 j list_all_iff
        split_render_filter plain_filter)
qed

subsection \<open>OS and API on component lists\<close>

definition root_ok :: "fsroot \<Rightarrow> bool" where
  "root_ok r \<longleftrightarrow> base r = [] \<or> (\<exists>bs. list_all plain bs \<and> base r = render bs)"

lemma render_not_Nil: "render cs \<noteq> []"
  by (simp add: render_def)

lemma last_render: "list_all plain bs \<Longrightarrow> bs \<noteq> [] \<Longrightarrow> last (render bs) \<noteq> CHR ''/''"
proof (induction bs rule: rev_induct)
  case (snoc b bs)
  then have "b \<noteq> []" "CHR ''/'' \<notin> set b" by (simp_all add: plain_def)
  then show ?case by (auto simp: render_def prefixed_by_def dest: last_in_set)
qed simp

lemma prefix_take: "prefix (b @ [c]) p \<longleftrightarrow> length b < length p \<and> p ! length b = c \<and> take (length b) p = b"
  by (auto simp: prefix_def nth_append take_Suc_conv_app_nth id_take_nth_drop [symmetric])
    (metis append.assoc append_Cons append_Nil id_take_nth_drop)

lemma RootContains_render:
  assumes "list_all plain bs" "list_all plain ds" "base r = render bs"
  shows "RootContains r (render ds) \<longleftrightarrow> prefix bs ds"
proof (cases "bs = []")
  case True
  then have b: "base r = ''/''" using assms(3) by (simp add: render_def)
  have "render ds \<noteq> ''/'' \<Longrightarrow> 1 < length (render ds) \<and> take 1 (render ds) = ''/''"
    using has_prefix_render [of ds] by (cases "render ds"; cases "tl (render ds)") auto
  then show ?thesis using True
    by (auto simp: RootContains_def Let_def Jailed_def b path_clean_plain [OF assms(2)])
next
  case False
  then have l: "last (base r) \<noteq> CHR ''/''" "Jailed r"
    using last_render [OF assms(1)] by (simp_all add: assms(3) Jailed_def render_not_Nil)
  have eq: "RootContains r (render ds) \<longleftrightarrow> render ds = render bs \<or> prefix (render bs @ ''/'') (render ds)"
    using l by (simp add: RootContains_def Let_def path_clean_plain [OF assms(2)] assms(3) prefix_take)
  show ?thesis
  proof (cases "ds = []")
    case True
    have "\<not> prefix (render bs @ ''/'') ''/''" using render_not_Nil [of bs] by (auto dest: prefix_length_le)
    moreover have "render bs \<noteq> ''/''" using l(1) assms(3) by auto
    moreover have "render ds = ''/''" using True by (simp add: render_def)
    ultimately show ?thesis using True False unfolding eq by auto
  next
    case ds: False
    have "\<And>c. c \<in> set ds \<union> set bs \<Longrightarrow> CHR ''/'' \<notin> set c" using assms by (auto simp: list_all_iff plain_def)
    note pp = prefix_prefixed_by [OF this]
    have R: "render ds = prefixed_by CHR ''/'' ds" "render bs = prefixed_by CHR ''/'' bs"
      using ds False by (simp_all add: render_def)
    have "render ds = render bs \<or> prefix (render bs @ ''/'') (render ds) \<longleftrightarrow> prefix bs ds" unfolding R by (rule pp)
    then show ?thesis using eq by simp
  qed
qed

lemma join_plain_not_Nil: "list_all plain cs \<Longrightarrow> cs \<noteq> [] \<Longrightarrow> join_with CHR ''/'' cs \<noteq> []"
  using join_empty [of cs "CHR ''/''"] by (auto simp: list_all_iff plain_def)

lemma OS_jailed:
  assumes "list_all plain bs" "base r = render bs" "list_all plain cs" "cleanAPI p = render cs"
  shows "OS r p = Inr (render (bs @ cs))"
proof (cases "cs = []")
  case True
  then show ?thesis using assms
    by (simp add: OS_def Let_def Jailed_def render_not_Nil trim_slash_render)
next
  case False
  note j = join_plain_not_Nil [OF assms(3) False]
  have "path_join [base r, join_with CHR ''/'' cs] = render (bs @ cs)"
    using j render_not_Nil [of bs] render_join [OF assms(1,3) False]
    by (simp add: path_join_def Let_def assms(2))
  moreover have "list_all plain (bs @ cs)" using assms by simp
  moreover have "RootContains r (render (bs @ cs))"
    using RootContains_render [of bs "bs @ cs" r] assms by simp
  ultimately show ?thesis using j False
    by (simp add: OS_def Let_def Jailed_def assms(2,4) render_not_Nil trim_slash_render path_clean_plain)
qed

lemma OS_unjailed: "\<not> Jailed r \<Longrightarrow> OS r p = Inr (cleanAPI p)"
  by (simp add: OS_def Let_def)

lemma drop_join:
  assumes "list_all plain cs" "cs \<noteq> []"
  shows "dropWhile (\<lambda>c. c = CHR ''/'') (join_with CHR ''/'' cs) = join_with CHR ''/'' cs"
proof -
  obtain c cs' where cs: "cs = c # cs'" using assms(2) by (cases cs) auto
  with assms have "c \<noteq> []" "CHR ''/'' \<notin> set c" by (simp_all add: plain_def)
  then obtain x c' where "c = x # c'" "x \<noteq> CHR ''/''" by (cases c) auto
  then show ?thesis using cs by (cases cs') simp_all
qed

lemma render_rooted: "cs \<noteq> [] \<Longrightarrow> CHR ''/'' # join_with CHR ''/'' cs = render cs"
  by (induction "CHR ''/''" cs rule: join_with.induct) (auto simp: render_def prefixed_by_def)

lemma render_append_drop:
  assumes "list_all plain bs" "list_all plain cs" "cs \<noteq> []"
  shows "dropWhile (\<lambda>c. c = CHR ''/'') (drop (length (render bs)) (render (bs @ cs))) = join_with CHR ''/'' cs"
proof (cases "bs = []")
  case True
  then show ?thesis using assms drop_join [OF assms(2,3)] render_rooted [OF assms(3)]
    by (simp add: render_def) (metis drop0 drop_Suc_Cons)
next
  case False
  then have "drop (length (render bs)) (render (bs @ cs)) = render cs"
    using assms(3) by (simp add: render_def)
  also have "\<dots> = CHR ''/'' # join_with CHR ''/'' cs" using render_rooted [OF assms(3)] by simp
  finally show ?thesis using drop_join [OF assms(2,3)] by simp
qed

lemma API_jailed:
  assumes "list_all plain bs" "base r = render bs" "list_all plain cs"
  shows "API r (render (bs @ cs)) = Inr (render cs)"
proof -
  have pl: "list_all plain (bs @ cs)" using assms by simp
  have c: "RootContains r (render (bs @ cs))" using RootContains_render [OF assms(1) pl assms(2)] by simp
  have j: "Jailed r" using assms(2) by (simp add: Jailed_def render_not_Nil)
  show ?thesis
  proof (cases "cs = []")
    case True
    then show ?thesis using j assms path_clean_plain [OF assms(1)]
      by (simp add: API_def Let_def render_not_Nil) (simp add: render_def)
  next
    case False
    have "render (bs @ cs) \<noteq> render bs"
    proof
      assume "render (bs @ cs) = render bs"
      then have "bs @ cs = bs" using assms(1) pl
        by (metis render_plain_split split_render_filter)
      with False show False by simp
    qed
    then show ?thesis
      using j c render_append_drop [OF assms(1,3) False] render_rooted [OF False] path_clean_plain [OF assms(3)]
      by (simp add: API_def Let_def render_not_Nil path_clean_plain [OF pl] assms(2))
  qed
qed

lemma path_clean_render_cs:
  assumes "has_prefix p ''/''"
  obtains cs where "path_clean p = render cs" "list_all plain cs"
proof -
  from assms obtain s where "p = CHR ''/'' # s" by (cases p) auto
  then show ?thesis using path_clean_rooted [of s] that by metis
qed

lemma cleanAPI_clean: "path_clean (cleanAPI p) = cleanAPI p"
  by (metis cleanAPI_plain path_clean_plain)

lemma root_okE:
  assumes "root_ok r" "Jailed r"
  obtains bs where "list_all plain bs" "base r = render bs"
  using assms by (auto simp: root_ok_def Jailed_def)

lemma OS_inside: "root_ok r \<Longrightarrow> \<exists>q. OS r p = Inr q \<and> RootContains r q \<and> path_clean q = q"
proof (cases "Jailed r")
  case True
  assume "root_ok r"
  from root_okE [OF this True] obtain bs where b: "list_all plain bs" "base r = render bs" by blast
  obtain cs where c: "cleanAPI p = render cs" "list_all plain cs" by (rule cleanAPI_plain)
  have "list_all plain (bs @ cs)" using b c by simp
  then show ?thesis using OS_jailed [OF b c(2,1)] RootContains_render [OF b(1) _ b(2)]
    by (auto simp: path_clean_plain)
qed (auto simp: OS_unjailed cleanAPI_clean RootContains_def)

lemma trim_slash_rooted: "has_prefix p ''/'' \<Longrightarrow> CHR ''/'' # trim_slash p = p"
  by (cases p) (auto simp: trim_slash_def)

lemma has_prefix_cleanAPI: "has_prefix (cleanAPI p) ''/''"
  by (metis cleanAPI_plain has_prefix_render)

lemma cleanAPI_rooted: "has_prefix p ''/'' \<Longrightarrow> cleanAPI p = path_clean p"
  by (simp add: cleanAPI_def trim_slash_rooted)

lemma API_OS_id: "root_ok r \<Longrightarrow> OS r p = Inr q \<Longrightarrow> API r q = Inr (cleanAPI p)"
proof (cases "Jailed r")
  case True
  assume r: "root_ok r" and q: "OS r p = Inr q"
  from root_okE [OF r True] obtain bs where b: "list_all plain bs" "base r = render bs" by blast
  obtain cs where c: "cleanAPI p = render cs" "list_all plain cs" by (rule cleanAPI_plain)
  show ?thesis using q OS_jailed [OF b c(2,1)] API_jailed [OF b c(2)] c(1) by simp
next
  case False
  assume "OS r p = Inr q"
  with False have "q = cleanAPI p" by (simp add: OS_unjailed)
  moreover have "cleanAPI p \<noteq> []" using has_prefix_cleanAPI [of p] by (cases "cleanAPI p") auto
  ultimately show ?thesis using False
    by (simp add: API_def Let_def cleanAPI_clean trim_slash_rooted has_prefix_cleanAPI)
qed

lemma OS_API_id:
  assumes "root_ok r" "has_prefix q ''/''"
  shows "(case API r q of Inl e \<Rightarrow> e = ErrOutsideRoot \<and> \<not> RootContains r q
          | Inr p \<Rightarrow> RootContains r q \<and> OS r p = Inr (path_clean q))"
proof -
  obtain ds where d: "path_clean q = render ds" "list_all plain ds"
    using path_clean_render_cs [OF assms(2)] by blast
  have pc: "path_clean (path_clean q) = path_clean q" using d path_clean_plain by simp
  have q: "q \<noteq> []" using assms(2) by (cases q) auto
  have c: "RootContains r (path_clean q) = RootContains r q" by (simp add: RootContains_def pc)
  show ?thesis
  proof (cases "Jailed r")
    case True
    from root_okE [OF assms(1) this] obtain bs where b: "list_all plain bs" "base r = render bs" by blast
    show ?thesis
    proof (cases "prefix bs ds")
      case True
      then obtain cs where ds: "ds = bs @ cs" by (auto simp: prefix_def)
      with d have cs: "list_all plain cs" by simp
      have "API r q = API r (path_clean q)" using q by (simp add: API_def Let_def pc) (simp add: d render_not_Nil)
      then have a: "API r q = Inr (render cs)" using API_jailed [OF b cs] d ds by simp
      moreover have "cleanAPI (render cs) = render cs"
        using path_clean_plain [OF cs] cleanAPI_rooted [OF has_prefix_render] by simp
      moreover have "RootContains r q" using RootContains_render [OF b(1) d(2) b(2)] True c d(1) by simp
      ultimately show ?thesis using OS_jailed [OF b cs] d ds by simp
    next
      case F: False
      then have "\<not> RootContains r q" using RootContains_render [OF b(1) d(2) b(2)] c d(1) by simp
      moreover from this have "path_clean q \<noteq> base r" using \<open>Jailed r\<close> by (auto simp: RootContains_def Let_def)
      ultimately show ?thesis using q \<open>Jailed r\<close> c by (simp add: API_def Let_def pc)
    qed
  next
    case False
    have "has_prefix (path_clean q) ''/''" using d has_prefix_render by simp
    then show ?thesis using False q
      by (simp add: API_def Let_def RootContains_def OS_unjailed trim_slash_rooted pc cleanAPI_rooted)
  qed
qed

lemma trim_right_last: "s \<noteq> [] \<Longrightarrow> last s \<noteq> c \<Longrightarrow> trim_right_char c s = s"
  by (cases s rule: rev_cases) (auto simp: trim_right_char_def)

lemma trim_separators_render: "list_all plain bs \<Longrightarrow> trim_separators (render bs) = render bs"
  using last_render [of bs] trim_right_last [of "render bs" "CHR ''/''"] render_not_Nil [of bs]
  by (cases "bs = []") (simp_all add: trim_separators_def, simp add: render_def trim_right_char_def)

lemma has_prefix_path_clean: "has_prefix (path_clean (CHR ''/'' # s)) ''/''"
  by (metis path_clean_rooted has_prefix_render)

text \<open>
  A root built by NewRoot from an absolute directory is well formed: no jail, or a cleaned absolute
  base without a trailing separator.
\<close>

lemma NewRoot_ok:
  assumes "NewRoot cwd dir = Some r" "\<And>w. cwd = Some w \<Longrightarrow> has_prefix w ''/''"
  shows "root_ok r"
proof -
  have k: "root_ok \<lparr>base = trim_separators (path_clean p), canon = []\<rparr>" if "has_prefix p ''/''" for p
    using path_clean_render_cs [OF that] trim_separators_render unfolding root_ok_def fsroot.simps by metis
  have "has_prefix (path_join [w, dir]) ''/''" if "has_prefix w ''/''" for w
    using that has_prefix_path_clean by (cases w; cases dir) (auto simp: path_join_def)
  then show ?thesis using assms k
    by (auto simp: NewRoot_def root_ok_def [of "\<lparr>base = [], canon = []\<rparr>"] split: if_splits option.splits)
qed

subsection \<open>Properties\<close>

text \<open>A cleaned relative path stays relative.\<close>

definition seg :: "string \<Rightarrow> bool" where
  "seg c \<longleftrightarrow> c \<noteq> [] \<and> CHR ''/'' \<notin> set c"

lemma clean_step_segs: "list_all seg acc \<Longrightarrow> CHR ''/'' \<notin> set c \<Longrightarrow> list_all seg (clean_step rooted acc c)"
  by (cases acc) (auto simp: clean_step_def seg_def)

lemma clean_segs:
  "list_all seg acc \<Longrightarrow> list_all (\<lambda>c. CHR ''/'' \<notin> set c) cs \<Longrightarrow> list_all seg (foldl (clean_step rooted) acc cs)"
  by (induction cs arbitrary: acc) (auto intro: clean_step_segs)

lemma path_clean_relative:
  assumes "q \<noteq> []" "\<not> has_prefix q ''/''"
  shows "path_clean q \<noteq> [] \<and> \<not> has_prefix (path_clean q) ''/''"
proof -
  let ?out = "rev (foldl (clean_step False) [] (split_on CHR ''/'' q))"
  have "list_all (\<lambda>c. CHR ''/'' \<notin> set c) (split_on CHR ''/'' q)" by (auto simp: list_all_iff dest: split_on_no_sep)
  then have s: "list_all seg ?out" using clean_segs [of "[]" "split_on CHR ''/'' q" False] by (simp add: list_all_iff)
  have "join_with CHR ''/'' ?out \<noteq> [] \<and> \<not> has_prefix (join_with CHR ''/'' ?out) ''/''" if "?out \<noteq> []"
  proof -
    obtain c cs where o1: "?out = c # cs" using \<open>?out \<noteq> []\<close> by (cases ?out) auto
    then obtain x ys where c: "c = x # ys" "x \<noteq> CHR ''/''" using s by (cases c) (auto simp: seg_def)
    then have "\<exists>zs. join_with CHR ''/'' (c # cs) = x # zs" by (cases cs) auto
    then show ?thesis unfolding o1 using c(2) by (auto simp: has_prefix_iff prefix_def)
  qed
  then show ?thesis using assms by (simp add: path_clean_def Let_def has_prefix_iff)
qed

lemma API_relative:
  assumes "root_ok r" "q \<noteq> []" "\<not> has_prefix q ''/''"
  shows "API r q = (if Jailed r then Inl ErrOutsideRoot else Inr (cleanAPI (path_clean q)))"
proof (cases "Jailed r")
  case True
  obtain bs where b: "list_all plain bs" "base r = render bs" by (rule root_okE [OF assms(1) True])
  note rel = path_clean_relative [OF assms(2,3)]
  have hp: "has_prefix (base r) ''/''" by (simp add: b(2) has_prefix_render)
  have ne: "path_clean q \<noteq> base r" using rel hp by auto
  obtain zs where z: "base r = CHR ''/'' # zs" using hp by (auto simp: has_prefix_iff prefix_def)
  have out: "s \<noteq> base r \<and> take (length (base r)) s \<noteq> base r" if "\<not> has_prefix s ''/''" for s
    using that by (cases s) (auto simp: z has_prefix_iff prefix_def)
  have "\<not> has_prefix (path_clean (path_clean q)) ''/''" using path_clean_relative rel by blast
  from out [OF this] have "\<not> RootContains r (path_clean q)" using True by (simp add: RootContains_def Let_def)
  then show ?thesis using True ne assms(2) by (simp add: API_def Let_def)
next
  case False
  then show ?thesis using assms(2) by (simp add: API_def cleanAPI_def Let_def)
qed

text \<open>
  C37: OS and API are inverse to each other on a well-formed root, jailed or not. OS answers for
  every API path, with a clean path inside the jail, and API takes the answer back to the cleaned
  request. API answers an absolute OS path exactly when it is inside the jail, OS takes its answer
  back to the cleaned OS path, and an absolute path outside is refused as outside the root. The
  empty path is refused as not absolute, and a relative one is outside every jail; without a jail it
  is read as if it hung below the root.
\<close>

theorem root_mapping_inverse:
  assumes "root_ok r"
  shows "(\<exists>o1. OS r p = Inr o1 \<and> RootContains r o1 \<and> path_clean o1 = o1 \<and> API r o1 = Inr (cleanAPI p)) \<and>
         (if q = [] then API r q = Inl ErrNotAbsolute
          else if has_prefix q ''/'' then
            (case API r q of Inl e \<Rightarrow> e = ErrOutsideRoot \<and> \<not> RootContains r q
             | Inr a \<Rightarrow> RootContains r q \<and> OS r a = Inr (path_clean q))
          else API r q = (if Jailed r then Inl ErrOutsideRoot else Inr (cleanAPI (path_clean q))))"
proof -
  have "API r [] = Inl ErrNotAbsolute" by (simp add: API_def)
  then show ?thesis
    using OS_inside [OF assms(1), of p] API_OS_id [OF assms(1), of p] OS_API_id [OF assms, of q] API_relative [OF assms, of q]
    by auto
qed

definition fake_root :: fsroot where
  "fake_root = \<lparr>base = ''/srv/fake'', canon = []\<rparr>"

definition no_jail :: fsroot where
  "no_jail = \<lparr>base = [], canon = []\<rparr>"

theorem root_mapping_inverse_witness:
  "OS fake_root ''/../share//x'' = Inr ''/srv/fake/share/x'' \<and>
   API fake_root ''/srv/fakery/x'' = Inl ErrOutsideRoot \<and> API fake_root ''/srv/fake/share/x'' = Inr ''/share/x'' \<and>
   API fake_root ''share'' = Inl ErrOutsideRoot \<and> API no_jail ''share'' = Inr ''/share''"
proof -
  have "base fake_root = render [''srv'', ''fake'']" "list_all plain [''srv'', ''fake'']" by code_simp+
  then have ok: "root_ok fake_root" unfolding root_ok_def by blast
  have "cleanAPI ''/../share//x'' = ''/share/x''" "OS fake_root ''/../share//x'' = Inr ''/srv/fake/share/x''"
    "\<not> RootContains fake_root ''/srv/fakery/x''" "has_prefix ''/srv/fakery/x'' ''/''" "\<not> has_prefix ''share'' ''/''"
    "Jailed fake_root" "\<not> Jailed no_jail" "cleanAPI (path_clean ''share'') = ''/share''" by code_simp+
  moreover have "root_ok no_jail" by (simp add: root_ok_def no_jail_def)
  ultimately show ?thesis
    using root_mapping_inverse [OF ok, of "''/../share//x''" "''/srv/fakery/x''"] root_mapping_inverse [OF ok, of _ "''share''"]
      root_mapping_inverse [of no_jail _ "''share''"] by (auto split: sum.splits)
qed

end
