(* ===== verification/Resolve.thy ===== *)
theory Resolve
  imports Root
begin

section \<open>Path resolution inside the jail (internal/fsops/fsops.go)\<close>

text \<open>
  \<open>resolve\<close> walks an API path one component at a time and follows symlinks itself. The kernel is a
  parameter: a record of the three questions the walk asks (\<open>statAt\<close>, \<open>readlinkAt\<close>,
  \<open>checkTraversable\<close>, with \<open>r.Open\<close> as the fourth), each a function of a state of the world it may
  change, so other processes may rename things between any two of them. Shown for every kernel:
  the walk ends after a bounded number of questions, never asks about a name with \<open>..\<close>, \<open>.\<close> or an
  empty component in it, and leaves a path without symlinks as it is.
\<close>

subsection \<open>Names (splitRel, splitLink, relOf, apiOf, splitFinal)\<close>

definition maxLinkHops :: nat where "maxLinkHops = 40"
definition dirMark :: string where "dirMark = ''/''"

definition trim_left_slashes :: "string \<Rightarrow> string" where
  "trim_left_slashes s = dropWhile (\<lambda>c. c = CHR ''/'') s"

definition trim_slashes :: "string \<Rightarrow> string" where
  "trim_slashes s = trim_right_char CHR ''/'' (trim_left_slashes s)"

definition splitRel :: "string \<Rightarrow> string list" where
  "splitRel rel = (if rel = [] \<or> rel = ''.'' then [] else split_on CHR ''/'' (trim_slashes rel))"

definition endsInSeparator :: "string \<Rightarrow> bool" where
  "endsInSeparator p = has_suffix p ''/''"

definition splitLink :: "string \<Rightarrow> string list" where
  "splitLink link =
     (let dirOnly = endsInSeparator link; l = trim_slashes link
      in if l = [] then (if dirOnly then [dirMark] else [])
         else split_on CHR ''/'' l @ (if dirOnly then [dirMark] else []))"

definition splitOSPath :: "string \<Rightarrow> string list" where
  "splitOSPath p =
     filter (\<lambda>c. c \<noteq> []) (split_on CHR ''/'' p) @ (if endsInSeparator p then [dirMark] else [])"

definition relOf :: "string list \<Rightarrow> string" where
  "relOf parts = (if parts = [] then ''.'' else join_with CHR ''/'' parts)"

definition relJoin :: "string \<Rightarrow> string \<Rightarrow> string" where
  "relJoin dir name = (if dir = [] \<or> dir = ''.'' then name else dir @ CHR ''/'' # name)"

definition apiOf :: "string list \<Rightarrow> string" where
  "apiOf parts = (if parts = [] then ''/'' else CHR ''/'' # join_with CHR ''/'' parts)"

definition splitFinal :: "string \<Rightarrow> string \<times> string" where
  "splitFinal rel =
     (if CHR ''/'' \<in> set rel
      then let name = rev (takeWhile (\<lambda>c. c \<noteq> CHR ''/'') (rev rel));
               dir = take (length rel - length name - 1) rel
           in (if dir = [] then ''.'' else dir, name)
      else (''.'', rel))"

subsection \<open>linkParts\<close>

definition baseFor :: "fsroot \<Rightarrow> string \<Rightarrow> fsroot option" where
  "baseFor r osPath =
     (if RootContains r osPath then Some r
      else case CanonicalAlias r of
             None \<Rightarrow> None
           | Some al \<Rightarrow> if RootContains al osPath then Some al else None)"

text \<open>The components of the head the jail base accounts for are dropped, dots and marks with them.\<close>

fun drop_located :: "nat \<Rightarrow> string list \<Rightarrow> string list" where
  "drop_located skip [] = []"
| "drop_located skip (c # rest) =
     (if skip = 0 then c # rest
      else drop_located (if c \<noteq> ''.'' \<and> c \<noteq> dirMark then skip - 1 else skip) rest)"

definition linkParts :: "fsroot \<Rightarrow> string \<Rightarrow> sentinel + string list \<times> bool" where
  "linkParts r link =
     (if link = [] then Inl ErrBadName
      else if \<not> has_prefix link ''/'' then Inr (splitLink link, False)
      else let cs = splitOSPath link;
               front = takeWhile (\<lambda>c. c \<noteq> ''..'') cs;
               located = filter (\<lambda>c. c \<noteq> ''.'' \<and> c \<noteq> dirMark) front;
               osHead = path_join (''/'' # located)
           in case baseFor r osHead of
                None \<Rightarrow> Inl ErrOutsideRoot
              | Some b \<Rightarrow>
                  case API b osHead of
                    Inl e \<Rightarrow> Inl e
                  | Inr api \<Rightarrow>
                      let skip = length located - length (splitRel (trim_slash api))
                      in Inr (drop_located skip front @ drop (length front) cs, True))"

subsection \<open>The kernel's side and resolve\<close>

datatype ftype = Directory | Symlink | Regular | Special

record finfo =
  ftype :: ftype
  fsize :: int
  fdev :: "nat option"

definition isDir :: "finfo \<Rightarrow> bool" where
  "isDir fi \<longleftrightarrow> ftype fi = Directory"

record 'w jailfs =
  open_jail :: "'w \<Rightarrow> error option \<times> 'w"
  stat_at :: "string \<Rightarrow> 'w \<Rightarrow> (error + finfo) \<times> 'w"
  readlink_at :: "string \<Rightarrow> 'w \<Rightarrow> (error + string) \<times> 'w"
  traverse_at :: "string \<Rightarrow> 'w \<Rightarrow> error option \<times> 'w"

record jailPath =
  jp_rel :: string
  jp_api :: string

function resolve_loop :: "fsroot \<Rightarrow> 'w jailfs \<Rightarrow> bool \<Rightarrow> string list \<Rightarrow> string list \<Rightarrow> nat \<Rightarrow>
    error option \<Rightarrow> 'w \<Rightarrow> (error + jailPath) \<times> 'w" where
  "resolve_loop r K fin dn [] hops blocked w = (Inr \<lparr>jp_rel = relOf dn, jp_api = apiOf dn\<rparr>, w)"
| "resolve_loop r K fin dn (part # rest) hops blocked w =
     (if part = [] then resolve_loop r K fin dn rest hops blocked w
      else if part = ''.'' then
        (case blocked of
           Some e \<Rightarrow> (Inl e, w)
         | None \<Rightarrow>
             (case traverse_at K (relOf dn) w of
                (Some e, w) \<Rightarrow> (Inl e, w)
              | (None, w) \<Rightarrow> resolve_loop r K fin dn rest hops blocked w))
      else if part = dirMark then
        (case blocked of
           Some e \<Rightarrow> (Inl e, w)
         | None \<Rightarrow> resolve_loop r K fin dn rest hops blocked w)
      else if part = ''..'' then
        (case blocked of
           Some e \<Rightarrow> (Inl e, w)
         | None \<Rightarrow>
             if dn = [] then
               (if Jailed r then (Inl [Own ErrOutsideRoot], w)
                else resolve_loop r K fin dn rest hops blocked w)
             else
               (case traverse_at K (relOf dn) w of
                  (Some e, w) \<Rightarrow> (Inl e, w)
                | (None, w) \<Rightarrow> resolve_loop r K fin (butlast dn) rest hops blocked w))
      else if rest = [] \<and> \<not> fin then resolve_loop r K fin (dn @ [part]) rest hops blocked w
      else
        let cand = relJoin (relOf dn) part
        in case stat_at K cand w of
             (Inl e, w) \<Rightarrow>
               resolve_loop r K fin (dn @ [part]) rest hops
                 (if blocked = None \<and> rest \<noteq> [] then Some e else blocked) w
           | (Inr fi, w) \<Rightarrow>
               if ftype fi \<noteq> Symlink then
                 resolve_loop r K fin (dn @ [part]) rest hops
                   (if blocked = None \<and> rest \<noteq> [] \<and> \<not> isDir fi then Some [Own ErrBadName] else blocked) w
               else if hops + 1 > maxLinkHops then (Inl [Own ErrUnsupported], w)
               else
                 (case readlink_at K cand w of
                    (Inl e, w) \<Rightarrow> (Inl e, w)
                  | (Inr link, w) \<Rightarrow>
                      (case linkParts r link of
                         Inl e \<Rightarrow> (Inl [Own e], w)
                       | Inr (parts, absolute) \<Rightarrow>
                           resolve_loop r K fin (if absolute then [] else dn) (parts @ rest)
                             (hops + 1) blocked w)))"
  by pat_completeness auto

termination
  by (relation "measures [\<lambda>(r, K, fin, dn, rest, hops, blocked, w). maxLinkHops - hops,
                          \<lambda>(r, K, fin, dn, rest, hops, blocked, w). length rest]") auto

definition resolve :: "fsroot \<Rightarrow> 'w jailfs \<Rightarrow> string \<Rightarrow> bool \<Rightarrow> 'w \<Rightarrow> (error + jailPath) \<times> 'w" where
  "resolve r K apiPath followFinal w =
     (case open_jail K w of
        (Some e, w) \<Rightarrow> (Inl e, w)
      | (None, w) \<Rightarrow> resolve_loop r K followFinal [] (splitRel (Rel apiPath)) 0 None w)"

subsection \<open>The components stay plain\<close>

definition plain_rel :: "string \<Rightarrow> bool" where
  "plain_rel p \<longleftrightarrow> (\<exists>cs. list_all plain cs \<and> p = relOf cs)"

definition good_part :: "string \<Rightarrow> bool" where
  "good_part c \<longleftrightarrow> c = dirMark \<or> CHR ''/'' \<notin> set c"

lemma good_plain: "good_part c \<Longrightarrow> c \<noteq> [] \<Longrightarrow> c \<noteq> ''.'' \<Longrightarrow> c \<noteq> dirMark \<Longrightarrow> c \<noteq> ''..'' \<Longrightarrow> plain c"
  by (auto simp: good_part_def plain_def)

lemma plain_not: "plain c \<Longrightarrow> c \<noteq> []" "plain c \<Longrightarrow> c \<noteq> ''.''" "plain c \<Longrightarrow> c \<noteq> dirMark" "plain c \<Longrightarrow> c \<noteq> ''..''"
  by (auto simp: plain_def dirMark_def)

lemma join_not_dot: "list_all plain cs \<Longrightarrow> cs \<noteq> [] \<Longrightarrow> join_with CHR ''/'' cs \<noteq> ''.''"
  by (induction "CHR ''/''" cs rule: join_with.induct) (auto simp: plain_def append_eq_Cons_conv)

lemma relJoin_relOf:
  assumes "list_all plain cs" "plain c"
  shows "relJoin (relOf cs) c = relOf (cs @ [c])"
proof -
  have "cs \<noteq> [] \<Longrightarrow> join_with CHR ''/'' (cs @ [c]) = join_with CHR ''/'' cs @ CHR ''/'' # c"
    by (induction "CHR ''/''" cs rule: join_with.induct) auto
  then show ?thesis using assms join_not_dot [of cs] join_plain_not_Nil [of cs]
    by (auto simp: relJoin_def relOf_def)
qed

lemma plain_rel_relOf: "list_all plain cs \<Longrightarrow> plain_rel (relOf cs)"
  by (auto simp: plain_rel_def)

lemma plain_rel_cand: "list_all plain cs \<Longrightarrow> plain c \<Longrightarrow> plain_rel (relJoin (relOf cs) c)"
  unfolding plain_rel_def by (rule exI [of _ "cs @ [c]"]) (simp add: relJoin_relOf)

lemma apiOf_render: "apiOf cs = render cs"
  using render_rooted [of cs] by (simp add: apiOf_def) (simp add: render_def)

lemma good_split: "list_all good_part (split_on CHR ''/'' s)"
  using split_on_no_sep [of _ "CHR ''/''" s] by (auto simp: list_all_iff good_part_def)

lemma good_mark: "good_part dirMark"
  by (simp add: good_part_def)

lemma good_filter: "list_all P xs \<Longrightarrow> list_all P (filter Q xs)"
  by (induction xs) auto

lemma set_drop_located: "set (drop_located n cs) \<subseteq> set cs"
  by (induction n cs rule: drop_located.induct) auto

lemma good_links: "list_all good_part (splitLink link)" "list_all good_part (splitOSPath link)"
  by (simp_all add: splitLink_def splitOSPath_def Let_def good_split good_mark good_filter)

lemma linkParts_good:
  assumes "linkParts r link = Inr (parts, absolute)"
  shows "list_all good_part parts"
proof -
  let ?cs = "splitOSPath link"
  have "set (drop_located n (takeWhile P ?cs) @ drop m ?cs) \<subseteq> set ?cs" for n m P
    using set_drop_located [of n "takeWhile P ?cs"] set_takeWhileD [of _ P ?cs] in_set_dropD [of _ m ?cs]
    by fastforce
  then have "list_all good_part (drop_located n (takeWhile P ?cs) @ drop m ?cs)" for n m P
    using good_links(2) [of link] unfolding list_all_iff by blast
  then show ?thesis using assms good_links(1) [of link]
    by (auto simp: linkParts_def Let_def split: if_splits option.splits sum.splits)
qed

subsection \<open>What every resolution keeps\<close>

text \<open>
  The interface: a property of the world that survives the kernel's answers about plain names
  survives a whole resolution, and what a resolution returns is a plain name.
\<close>

definition plain_path :: "jailPath \<Rightarrow> bool" where
  "plain_path jp \<longleftrightarrow> (\<exists>cs. list_all plain cs \<and> jp = \<lparr>jp_rel = relOf cs, jp_api = apiOf cs\<rparr>)"

definition fine :: "('w \<Rightarrow> bool) \<Rightarrow> (error + jailPath) \<times> 'w \<Rightarrow> bool" where
  "fine good x \<longleftrightarrow> good (snd x) \<and> (case fst x of Inl _ \<Rightarrow> True | Inr jp \<Rightarrow> plain_path jp)"

lemma fine_simps [simp]:
  "fine good (Inl e, w) \<longleftrightarrow> good w"
  "fine good (Inr jp, w) \<longleftrightarrow> good w \<and> plain_path jp"
  by (simp_all add: fine_def)

lemma plain_path_done: "list_all plain cs \<Longrightarrow> plain_path \<lparr>jp_rel = relOf cs, jp_api = apiOf cs\<rparr>"
  by (auto simp: plain_path_def)

locale plain_lookups =
  fixes K :: "'w jailfs" and ok :: "'w \<Rightarrow> bool"
  assumes open_ok: "ok w \<Longrightarrow> ok (snd (open_jail K w))"
    and stat_ok: "ok w \<Longrightarrow> plain_rel p \<Longrightarrow> ok (snd (stat_at K p w))"
    and readlink_ok: "ok w \<Longrightarrow> plain_rel p \<Longrightarrow> ok (snd (readlink_at K p w))"
    and traverse_ok: "ok w \<Longrightarrow> plain_rel p \<Longrightarrow> ok (snd (traverse_at K p w))"
begin

lemma resolve_loop_ok:
  "ok w \<Longrightarrow> list_all plain dn \<Longrightarrow> list_all good_part rest \<Longrightarrow> k = K \<Longrightarrow>
   fine ok (resolve_loop r k fin dn rest hops blocked w)"
proof (induction r k fin dn rest hops blocked w rule: resolve_loop.induct [case_names finished step])
  case (finished r k fin dn hops blocked w)
  then show ?case by (simp add: plain_path_done)
next
  case (step r k fin dn part rest hops blocked w)
  note t = stat_ok [OF step.prems(1)] readlink_ok traverse_ok [OF step.prems(1)]
  from step.prems have g: "good_part part" "list_all good_part rest" by simp_all
  have drop_last: "list_all plain (butlast dn)" using step.prems(2) by (auto simp: list_all_iff dest: in_set_butlastD)
  have snoc: "plain part \<Longrightarrow> list_all plain (dn @ [part])" using step.prems(2) by simp
  have rd: "ok w' \<Longrightarrow> plain part \<Longrightarrow> readlink_at K (relJoin (relOf dn) part) w' = (a, w'') \<Longrightarrow> ok w''" for w' a w''
    using readlink_ok [of w' "relJoin (relOf dn) part"] plain_rel_cand [OF step.prems(2), of part] by (metis snd_conv)
  have st: "plain part \<Longrightarrow> stat_at K (relJoin (relOf dn) part) w = (a, w') \<Longrightarrow> ok w'" for a w'
    using stat_ok [OF step.prems(1), of "relJoin (relOf dn) part"] plain_rel_cand [OF step.prems(2), of part] by (metis snd_conv)
  have tr: "traverse_at K (relOf dn) w = (a, w') \<Longrightarrow> ok w'" for a w'
    using traverse_ok [OF step.prems(1), of "relOf dn"] plain_rel_relOf [OF step.prems(2)] by (metis snd_conv)
  consider "part = []" | "part = ''.''" | "part = dirMark" | "part = ''..''" | "plain part" using g good_plain by blast
  then show ?case
  proof cases
    case 1
    then show ?thesis using step by simp
  next
    case 2
    then show ?thesis using step tr by (auto split: option.splits prod.splits)
  next
    case 3
    then show ?thesis using step by (auto simp: dirMark_def split: option.splits prod.splits)
  next
    case 4
    then show ?thesis using step tr drop_last by (auto simp: dirMark_def split: option.splits prod.splits)
  next
    case 5
    let ?c = "relJoin (relOf dn) part"
    note ne = plain_not [OF 5]
    show ?thesis
    proof (cases "rest = [] \<and> \<not> fin")
      case True
      then show ?thesis using step.IH(6) [OF ne True] step.prems snoc 5 by (simp add: ne plain_path_done)
    next
      case False
      obtain x w' where x: "stat_at K ?c w = (x, w')" by fastforce
      have ok': "ok w'" by (rule st [OF 5 x])
      show ?thesis
      proof (cases x)
        case (Inl e)
        then show ?thesis using step.IH(7) [OF ne False refl] x ok' step.prems snoc 5 False by (simp add: ne Let_def plain_path_done)
      next
        case (Inr fi)
        show ?thesis
        proof (cases "ftype fi \<noteq> Symlink \<or> maxLinkHops < hops + 1")
          case True
          then show ?thesis using step.IH(8) [OF ne False refl] x ok' step.prems snoc 5 False Inr
            by (auto simp: ne Let_def plain_path_done)
        next
          case sy: False
          obtain y w'' where y: "readlink_at K ?c w' = (y, w'')" by fastforce
          have ok'': "ok w''" by (rule rd [OF ok' 5 y])
          show ?thesis using step.IH(9) [OF ne False refl] x y ok'' step.prems 5 False Inr sy linkParts_good g
            by (auto simp: ne Let_def plain_path_done split: sum.splits prod.splits)
        qed
      qed
    qed
  qed
qed

lemma resolve_fine:
  assumes "ok w" shows "fine ok (resolve r K p fin w)"
proof -
  obtain a w' where o1: "open_jail K w = (a, w')" by fastforce
  have "ok w'" using open_ok [OF assms] o1 by simp
  moreover have "list_all good_part (splitRel (Rel p))" by (simp add: splitRel_def good_split)
  ultimately show ?thesis using resolve_loop_ok [of w' "[]" _ K]
    by (auto simp: resolve_def o1 split: option.splits)
qed

end

subsection \<open>The questions a resolution asks\<close>

datatype kcall = KOpen | KStat string | KReadlink string | KTraverse string

definition logged :: "'w jailfs \<Rightarrow> ('w \<times> kcall list) jailfs" where
  "logged K =
     \<lparr>open_jail = \<lambda>(w, tr). (let (a, w') = open_jail K w in (a, (w', tr @ [KOpen]))),
      stat_at = \<lambda>p (w, tr). (let (a, w') = stat_at K p w in (a, (w', tr @ [KStat p]))),
      readlink_at = \<lambda>p (w, tr). (let (a, w') = readlink_at K p w in (a, (w', tr @ [KReadlink p]))),
      traverse_at = \<lambda>p (w, tr). (let (a, w') = traverse_at K p w in (a, (w', tr @ [KTraverse p])))\<rparr>"

fun plain_call :: "kcall \<Rightarrow> bool" where
  "plain_call KOpen = True"
| "plain_call (KStat p) = plain_rel p"
| "plain_call (KReadlink p) = plain_rel p"
| "plain_call (KTraverse p) = plain_rel p"

definition plain_calls :: "'w \<times> kcall list \<Rightarrow> bool" where
  "plain_calls s = list_all plain_call (snd s)"

interpretation logged: plain_lookups "logged K" plain_calls for K :: "'w jailfs"
  by unfold_locales (auto simp: logged_def plain_calls_def split: prod.splits)

lemma resolve_asks_plain:
  "fine plain_calls (resolve r (logged K) p fin (w, []))"
  by (rule logged.resolve_fine) (simp add: plain_calls_def)

subsection \<open>How many questions\<close>

lemma length_split: "length (split_on c s) \<le> Suc (length s)"
  by (induction s) (auto split: list.splits)

lemma length_trim_right: "length (trim_right_char c s) \<le> length s"
  using length_dropWhile_le [of "\<lambda>x. x = c" "rev s"] by (simp add: trim_right_char_def)

lemma length_trim_left_slashes: "length (trim_left_slashes s) \<le> length s"
  by (simp add: trim_left_slashes_def length_dropWhile_le)

lemma length_trim: "length (trim_slashes s) \<le> length s"
  unfolding trim_slashes_def by (rule order.trans [OF length_trim_right length_trim_left_slashes])

lemma trim_slashes_end: "endsInSeparator s \<Longrightarrow> length (trim_slashes s) < length s"
proof -
  assume "endsInSeparator s"
  then have "suffix ''/'' s" by (simp add: endsInSeparator_def has_suffix_iff)
  then obtain t where s: "s = t @ ''/''" by (auto simp: suffix_def)
  have "length (trim_slashes s) \<le> length t"
  proof (cases "list_all (\<lambda>c. c = CHR ''/'') t")
    case True
    then have "trim_slashes s = []"
      by (auto simp: s trim_slashes_def trim_left_slashes_def trim_right_char_def list_all_iff)
    then show ?thesis by simp
  next
    case False
    then have "trim_left_slashes s = trim_left_slashes t @ ''/''"
      by (auto simp: s trim_left_slashes_def list_all_iff dropWhile_append)
    then have "trim_slashes s = trim_slashes t" by (simp add: trim_slashes_def trim_right_char_def)
    then show ?thesis using length_trim [of t] by simp
  qed
  then show ?thesis by (simp add: s)
qed

lemma length_splitLink: "length (splitLink link) \<le> Suc (length link)"
  using length_split [of "CHR ''/''" "trim_slashes link"] length_trim [of link] trim_slashes_end [of link]
  by (auto simp: splitLink_def Let_def)

lemma length_splitOSPath: "has_prefix p ''/'' \<Longrightarrow> length (splitOSPath p) \<le> Suc (length p)"
proof -
  assume "has_prefix p ''/''"
  then obtain q where p: "p = CHR ''/'' # q" by (cases p) auto
  have "length (filter (\<lambda>c. c \<noteq> []) (split_on CHR ''/'' q)) \<le> Suc (length q)"
    using length_split [of "CHR ''/''" q] by (meson le_trans length_filter_le)
  then show ?thesis by (simp add: splitOSPath_def p)
qed

lemma length_drop_located: "length (drop_located n cs) \<le> length cs"
  by (induction n cs rule: drop_located.induct) (auto intro: le_SucI)

lemma linkParts_length:
  assumes "linkParts r link = Inr (parts, absolute)" shows "length parts \<le> Suc (length link)"
proof -
  let ?cs = "splitOSPath link"
  have "length (drop_located n (takeWhile P ?cs) @ drop (length (takeWhile P ?cs)) ?cs) \<le> length ?cs" for n P
    using length_drop_located [of n "takeWhile P ?cs"] length_takeWhile_le [of P ?cs] by simp
  note a = this [THEN order.trans, OF length_splitOSPath]
  show ?thesis using assms length_splitLink [of link] a
    by (auto simp: linkParts_def Let_def split: if_splits option.splits sum.splits)
qed

definition short_links :: "'w jailfs \<Rightarrow> nat \<Rightarrow> bool" where
  "short_links K n \<longleftrightarrow> (\<forall>p w. case fst (readlink_at K p w) of Inl _ \<Rightarrow> True | Inr l \<Rightarrow> length l \<le> n)"

lemma short_linksD: "short_links K n \<Longrightarrow> readlink_at K p w = (Inr l, w') \<Longrightarrow> length l \<le> n"
  unfolding short_links_def by (metis (mono_tags) fst_conv sum.case(2))

definition n_asked :: "(error + jailPath) \<times> 'w \<times> kcall list \<Rightarrow> nat" where
  "n_asked x = length (snd (snd x))"

lemma n_asked_simps [simp]: "n_asked (a, w, tr) = length tr"
  by (simp add: n_asked_def)

lemma logged_answers:
  "open_jail (logged K) (w, tr) = (fst (open_jail K w), snd (open_jail K w), tr @ [KOpen])"
  "stat_at (logged K) p (w, tr) = (fst (stat_at K p w), snd (stat_at K p w), tr @ [KStat p])"
  "readlink_at (logged K) p (w, tr) = (fst (readlink_at K p w), snd (readlink_at K p w), tr @ [KReadlink p])"
  "traverse_at (logged K) p (w, tr) = (fst (traverse_at K p w), snd (traverse_at K p w), tr @ [KTraverse p])"
  by (simp_all add: logged_def Let_def split_beta)

lemma resolve_loop_asked:
  "short_links K n \<Longrightarrow> k = logged K \<Longrightarrow> hops \<le> maxLinkHops \<Longrightarrow>
   n_asked (resolve_loop r k fin dn rest hops blocked s)
     \<le> length (snd s) + length rest + (maxLinkHops - hops) * (n + 2)"
proof (induction r k fin dn rest hops blocked s rule: resolve_loop.induct [case_names finished step])
  case (finished r k fin dn hops blocked s)
  then show ?case by (cases s) simp
next
  case (step r k fin dn part rest hops blocked s)
  obtain w tr where s: "s = (w, tr)" by (cases s)
  note log = logged_answers [of K]
  show ?case
  proof (cases "part = [] \<or> part = ''.'' \<or> part = dirMark \<or> part = ''..''")
    case True
    obtain a w' where t: "traverse_at K (relOf dn) w = (a, w')" by fastforce
    then have tk: "traverse_at k (relOf dn) s = (a, w', tr @ [KTraverse (relOf dn)])"
      by (simp add: s step.prems log)
    show ?thesis
    proof (cases blocked)
      case None
      from True show ?thesis
      proof (elim disjE)
        assume "part = []"
        then show ?thesis using step.IH(1) step.prems by (simp add: s)
      next
        assume p: "part = ''.''"
        then show ?thesis using step.IH(2) [OF _ p None tk [symmetric]] step.prems None tk
          by (cases a) (simp_all add: s)
      next
        assume p: "part = dirMark"
        then show ?thesis using step.IH(3) [OF _ _ p None] step.prems None by (simp add: s dirMark_def)
      next
        assume p: "part = ''..''"
        then have q: "part \<noteq> []" "part \<noteq> ''.''" "part \<noteq> dirMark" by (simp_all add: dirMark_def)
        show ?thesis
        proof (cases "dn = []")
          case True
          then show ?thesis using step.IH(4) [OF q p None True] step.prems None q p by (cases "Jailed r") (simp_all add: s)
        next
          case False
          then show ?thesis using step.IH(5) [OF q p None False tk [symmetric]] step.prems None q p tk
            by (cases a) (simp_all add: s)
        qed
      qed
    next
      case (Some e)
      then show ?thesis using True step.IH(1) step.prems by (auto simp: dirMark_def s)
    qed
  next
    case False
    then have ne: "part \<noteq> []" "part \<noteq> ''.''" "part \<noteq> dirMark" "part \<noteq> ''..''" by simp_all
    let ?c = "relJoin (relOf dn) part"
    show ?thesis
    proof (cases "rest = [] \<and> \<not> fin")
      case True
      then show ?thesis using step.IH(6) [OF ne True] step.prems by (simp add: ne)
    next
      case F: False
      obtain x w' where x: "stat_at K ?c w = (x, w')" by fastforce
      then have xk: "(x, w', tr @ [KStat ?c]) = stat_at k ?c s" by (simp add: s step.prems log)
      show ?thesis
      proof (cases x)
        case (Inl e)
        then show ?thesis using step.IH(7) [OF ne F refl xk Inl] step.prems F xk [symmetric] by (auto simp: ne s Let_def)
      next
        case (Inr fi)
        show ?thesis
        proof (cases "ftype fi \<noteq> Symlink \<or> maxLinkHops < hops + 1")
          case True
          then show ?thesis using step.IH(8) [OF ne F refl xk Inr] step.prems F xk [symmetric] Inr by (auto simp: ne s Let_def)
        next
          case sy: False
          obtain y w'' where y: "readlink_at K ?c w' = (y, w'')" by fastforce
          then have yk: "(y, w'', tr @ [KStat ?c, KReadlink ?c]) = readlink_at k ?c (w', tr @ [KStat ?c])"
            by (simp add: step.prems log)
          show ?thesis
          proof (cases y)
            case (Inl e)
            then show ?thesis using step.prems F xk [symmetric] yk [symmetric] Inr sy by (auto simp: ne s Let_def)
          next
            case (Inr link)
            note l = short_linksD [OF step.prems(1) y [unfolded Inr]]
            have hops: "(maxLinkHops - hops) * (n + 2) = n + 2 + (maxLinkHops - (hops + 1)) * (n + 2)"
            proof -
              have "maxLinkHops - hops = Suc (maxLinkHops - (hops + 1))" using sy by linarith
              then show ?thesis by (simp only: mult_Suc)
            qed
            show ?thesis
            proof (cases "linkParts r link")
              case (Inl e)
              then show ?thesis using step.prems F xk [symmetric] yk [symmetric] \<open>x = Inr fi\<close> Inr sy hops
                by (auto simp: ne s Let_def)
            next
              case parts: (Inr pa)
              obtain ps ab where pa: "pa = (ps, ab)" by (cases pa)
              show ?thesis
                using step.IH(9) [OF ne F refl xk \<open>x = Inr fi\<close> _ _ yk Inr parts pa [symmetric]] step.prems F
                  xk [symmetric] yk [symmetric] \<open>x = Inr fi\<close> Inr sy hops l linkParts_length [of r link ps ab] parts pa
                by (auto simp: ne s Let_def)
            qed
          qed
        qed
      qed
    qed
  qed
qed

subsection \<open>A path without symlinks\<close>

definition linkless :: "'w jailfs \<Rightarrow> bool" where
  "linkless K \<longleftrightarrow> (\<forall>p w. case fst (stat_at K p w) of Inl _ \<Rightarrow> True | Inr fi \<Rightarrow> ftype fi \<noteq> Symlink)"

lemma linklessD: "linkless K \<Longrightarrow> stat_at K p w = (Inr fi, w') \<Longrightarrow> ftype fi \<noteq> Symlink"
  unfolding linkless_def by (metis (mono_tags) fst_conv sum.case(2))

lemma resolve_loop_linkless:
  assumes "linkless K" "list_all plain rest"
  shows "\<exists>w'. resolve_loop r K fin dn rest hops blocked w =
    (Inr \<lparr>jp_rel = relOf (dn @ rest), jp_api = apiOf (dn @ rest)\<rparr>, w')"
  using assms(2)
proof (induction rest arbitrary: dn blocked w)
  case (Cons part rest)
  then have ne: "part \<noteq> []" "part \<noteq> ''.''" "part \<noteq> dirMark" "part \<noteq> ''..''"
    using plain_not [of part] by simp_all
  have ih: "\<exists>w'. resolve_loop r K fin (dn @ [part]) rest hops b v =
      (Inr \<lparr>jp_rel = relOf (dn @ part # rest), jp_api = apiOf (dn @ part # rest)\<rparr>, w')" for b v
    using Cons.IH [of "dn @ [part]" b v] Cons.prems by simp
  show ?case
  proof (cases "rest = [] \<and> \<not> fin")
    case False
    obtain x w' where x: "stat_at K (relJoin (relOf dn) part) w = (x, w')" by fastforce
    show ?thesis
    proof (cases x)
      case (Inl e)
      then show ?thesis using ih False x by (auto simp: ne Let_def)
    next
      case (Inr fi)
      then have "ftype fi \<noteq> Symlink" using linklessD [OF assms(1)] x by blast
      then show ?thesis using ih False x Inr by (auto simp: ne Let_def)
    qed
  qed (simp add: ne)
qed simp

lemma splitRel_relOf: "list_all plain cs \<Longrightarrow> splitRel (relOf cs) = cs"
proof (cases "cs = []")
  case False
  assume p: "list_all plain cs"
  let ?j = "join_with CHR ''/'' cs"
  have r: "render cs \<noteq> []" "last ?j \<noteq> CHR ''/''"
    using last_render [OF p False] render_rooted [OF False] join_plain_not_Nil [OF p False]
    by (simp_all add: render_not_Nil) (metis last_ConsR)
  have "trim_slashes ?j = ?j"
    using drop_join [OF p False] trim_right_last [OF join_plain_not_Nil [OF p False] r(2)]
    by (simp add: trim_slashes_def trim_left_slashes_def)
  moreover have "split_on CHR ''/'' ?j = cs"
    using p False by (intro split_join) (auto simp: list_all_iff plain_def)
  ultimately show ?thesis
    using False join_not_dot [OF p False] join_plain_not_Nil [OF p False] by (simp add: splitRel_def relOf_def)
qed (simp add: relOf_def splitRel_def)

lemma Rel_relOf: "cleanAPI p = render cs \<Longrightarrow> list_all plain cs \<Longrightarrow> Rel p = relOf cs"
  using join_plain_not_Nil [of cs] by (auto simp: Rel_def Let_def trim_slash_render relOf_def)

lemma resolve_linkless:
  assumes "linkless K" "fst (open_jail K w) = None"
  shows "fst (resolve r K p fin w) = Inr \<lparr>jp_rel = Rel p, jp_api = cleanAPI p\<rparr>"
proof -
  obtain cs where c: "cleanAPI p = render cs" "list_all plain cs" by (rule cleanAPI_plain)
  obtain w' where o1: "open_jail K w = (None, w')" using assms(2) by (metis prod.collapse)
  show ?thesis using resolve_loop_linkless [OF assms(1) c(2), of r fin "[]" 0 None w']
    by (auto simp: resolve_def o1 Rel_relOf [OF c] splitRel_relOf [OF c(2)] c(1) apiOf_render)
qed

subsection \<open>Properties\<close>

text \<open>
  C38: a resolution never leaves the jail by name. Whatever the kernel answers and whatever happens
  between its answers, every name resolve looks up, reads as a link or asks to traverse is "." or a
  slash-separated list of components none of which is empty, "." or "..", and the name and the API
  path it returns are two spellings of one such list.
\<close>

theorem resolve_stays_inside:
  "list_all plain_call (snd (snd (resolve r (logged K) p followFinal (w, [])))) \<and>
   (case fst (resolve r (logged K) p followFinal (w, [])) of Inl _ \<Rightarrow> True
    | Inr jp \<Rightarrow> \<exists>cs. list_all plain cs \<and> jp_rel jp = relOf cs \<and> jp_api jp = render cs)"
  using resolve_asks_plain [of r K p followFinal w]
  by (auto simp: fine_def plain_calls_def plain_path_def apiOf_render split: sum.splits)

text \<open>The kernel again, counting the links it was asked to describe and described as links.\<close>

definition link_counter :: "'w jailfs \<Rightarrow> ('w \<times> nat) jailfs" where
  "link_counter K =
     \<lparr>open_jail = (\<lambda>s. case open_jail K (fst s) of (a, w) \<Rightarrow> (a, w, snd s)),
      stat_at = (\<lambda>p s. case stat_at K p (fst s) of
        (a, w) \<Rightarrow> (a, w, case a of Inl _ \<Rightarrow> snd s | Inr fi \<Rightarrow> if ftype fi = Symlink then snd s + 1 else snd s)),
      readlink_at = (\<lambda>p s. case readlink_at K p (fst s) of (a, w) \<Rightarrow> (a, w, snd s)),
      traverse_at = (\<lambda>p s. case traverse_at K p (fst s) of (a, w) \<Rightarrow> (a, w, snd s))\<rparr>"

definition links_bounded :: "(error + jailPath) \<times> 'w \<times> nat \<Rightarrow> bool" where
  \<comment> \<open>at most forty links followed, and the next one met is the error\<close>
  "links_bounded x \<longleftrightarrow>
     (case x of (a, w, n) \<Rightarrow> n \<le> maxLinkHops + 1 \<and> (if n = maxLinkHops + 1 then a = Inl [Own ErrUnsupported] else True))"

lemma links_bounded_at [simp]: "n \<le> maxLinkHops \<Longrightarrow> links_bounded (a, w, n)"
  by (simp add: links_bounded_def)

lemma counted_calls:
  "open_jail (link_counter K) (w, n) = (a, s') \<Longrightarrow> snd s' = n"
  "traverse_at (link_counter K) p (w, n) = (b, s') \<Longrightarrow> snd s' = n"
  "readlink_at (link_counter K) p (w, n) = (c, s') \<Longrightarrow> snd s' = n"
  "stat_at (link_counter K) p (w, n) = (d, s') \<Longrightarrow>
     snd s' = (case d of Inl _ \<Rightarrow> n | Inr fi \<Rightarrow> if ftype fi = Symlink then n + 1 else n)"
  by (auto simp: link_counter_def split: prod.splits sum.splits)

lemma resolve_loop_links:
  "k = link_counter K \<Longrightarrow> snd s = hops \<Longrightarrow> hops \<le> maxLinkHops \<Longrightarrow>
   links_bounded (resolve_loop r k fin dn rest hops blocked s)"
proof (induction r k fin dn rest hops blocked s rule: resolve_loop.induct [case_names finished step])
  case (finished r k fin dn hops blocked s)
  then show ?case by (cases s) simp
next
  case (step r k fin dn part rest hops blocked s)
  obtain w where s: "s = (w, hops)" using step.prems(2) by (cases s) simp
  obtain a s1 where t: "traverse_at k (relOf dn) s = (a, s1)" by (metis surj_pair)
  have n1: "snd s1 = hops" using counted_calls(2) [of K "relOf dn" w hops a s1] t s step.prems(1) by simp
  have here: "links_bounded (x, s)" "links_bounded (x, s1)" for x using s n1 step.prems(3) by (cases s1; simp)+
  consider "part = []" | "part = ''.''" | "part = dirMark" | "part = ''..''"
    | "part \<noteq> []" "part \<noteq> ''.''" "part \<noteq> dirMark" "part \<noteq> ''..''" by blast
  then show ?case
  proof cases
    case 1
    then show ?thesis using step.IH(1) step.prems by simp
  next
    case 2
    then show ?thesis using step.IH(2) [OF _ 2 _ t [symmetric]] step.prems t n1 here by (auto split: option.splits)
  next
    case 3
    then show ?thesis using step.IH(3) step.prems here by (auto simp: dirMark_def split: option.splits)
  next
    case 4
    then have q: "part \<noteq> []" "part \<noteq> ''.''" "part \<noteq> dirMark" by (simp_all add: dirMark_def)
    show ?thesis using step.IH(4) [OF q 4] step.IH(5) [OF q 4 _ _ t [symmetric]] step.prems t n1 here 4 q
      by (auto split: option.splits)
  next
    case ne: 5
    let ?c = "relJoin (relOf dn) part"
    obtain x s2 where x: "stat_at k ?c s = (x, s2)" by (metis surj_pair)
    note n2 = counted_calls(4) [of K ?c w hops x s2, folded s step.prems(1), OF x]
    show ?thesis
    proof (cases "rest = [] \<and> \<not> fin")
      case True
      then show ?thesis using step.IH(6) [OF ne True] step.prems by (simp add: ne)
    next
      case F: False
      show ?thesis
      proof (cases x)
        case (Inl e)
        then show ?thesis using step.IH(7) [OF ne F refl x [symmetric] Inl] step.prems F x n2 by (auto simp: ne Let_def)
      next
        case (Inr fi)
        show ?thesis
        proof (cases "ftype fi \<noteq> Symlink")
          case True
          then show ?thesis using step.IH(8) [OF ne F refl x [symmetric] Inr True] step.prems F x n2 Inr
            by (auto simp: ne Let_def)
        next
          case sy: False
          then have n3: "snd s2 = hops + 1" using n2 Inr by simp
          show ?thesis
          proof (cases "hops + 1 > maxLinkHops")
            case True
            then show ?thesis using step.prems F x Inr sy n3 by (cases s2) (auto simp: ne Let_def links_bounded_def)
          next
            case h: False
            obtain y s4 where y: "readlink_at k ?c s2 = (y, s4)" by (metis surj_pair)
            have n4: "snd s4 = hops + 1"
              using counted_calls(3) [of K ?c "fst s2" "hops + 1" y s4] y n3 step.prems(1) by (cases s2) simp
            have end4: "links_bounded (z, s4)" for z using n4 h by (cases s4) simp
            show ?thesis
            proof (cases y)
              case (Inl e)
              then show ?thesis using F x \<open>x = Inr fi\<close> sy h y end4 by (auto simp: ne Let_def)
            next
              case link: (Inr link)
              show ?thesis
              proof (cases "linkParts r link")
                case (Inl e)
                then show ?thesis using F x \<open>x = Inr fi\<close> sy h y link end4 by (auto simp: ne Let_def)
              next
                case parts: (Inr pa)
                obtain ps ab where pa: "pa = (ps, ab)" by (cases pa)
                show ?thesis
                  using step.IH(9) [OF ne F refl x [symmetric] Inr sy h y [symmetric] link parts pa [symmetric]] step.prems F x
                    \<open>x = Inr fi\<close> sy h y link parts pa n4 by (auto simp: ne Let_def)
              qed
            qed
          qed
        qed
      qed
    qed
  qed
qed

lemma resolve_links: "links_bounded (resolve r (link_counter K) p fin (w, 0))"
proof -
  obtain a s where o1: "open_jail (link_counter K) (w, 0) = (a, s)" by (metis surj_pair)
  then have n: "snd s = 0" by (rule counted_calls(1))
  then have "links_bounded (Inl e, s)" for e by (cases s) simp
  then show ?thesis using resolve_loop_links [OF refl n] by (auto simp: resolve_def o1 split: option.splits)
qed

text \<open>
  C39: resolution ends. Against any kernel, even one whose links lead to each other or change while
  they are followed, resolving a path of n components makes at most n + 40 * (L + 2) questions
  after opening the jail, where L bounds the length of a link's text; and however many links there
  are, no more than forty-one are described, of which the forty-first is never followed: the answer
  is then the "too many levels" error.
\<close>

theorem resolve_terminates:
  assumes "short_links K n"
  shows "length (snd (snd (resolve r (logged K) p followFinal (w, []))))
         \<le> 1 + length (splitRel (Rel p)) + maxLinkHops * (n + 2) \<and>
    (case resolve r (link_counter K) p followFinal (w, 0) of
       (x, _, links) \<Rightarrow> links \<le> 41 \<and> (if links = 41 then x = Inl [Own ErrUnsupported] else True))"
proof -
  obtain a w' where o1: "open_jail (logged K) (w, []) = (a, w', [KOpen])"
    by (simp add: logged_answers)
  have "length (snd (snd (resolve r (logged K) p followFinal (w, []))))
         \<le> 1 + length (splitRel (Rel p)) + maxLinkHops * (n + 2)"
    using resolve_loop_asked [OF assms refl, of 0 r followFinal "[]" "splitRel (Rel p)" None "(w', [KOpen])"]
    by (auto simp: resolve_def o1 n_asked_def split: option.splits)
  then show ?thesis using resolve_links [of r K p followFinal w] by (simp add: links_bounded_def maxLinkHops_def)
qed

text \<open>A world with one link, at every name, to itself.\<close>

definition loop_fs :: "unit jailfs" where
  "loop_fs =
     \<lparr>open_jail = \<lambda>w. (None, w), stat_at = \<lambda>p w. (Inr \<lparr>ftype = Symlink, fsize = 1, fdev = None\<rparr>, w),
      readlink_at = \<lambda>p w. (Inr ''x'', w), traverse_at = \<lambda>p w. (None, w)\<rparr>"

theorem resolve_terminates_witness:
  "length (snd (snd (resolve fake_root (logged loop_fs) ''/x'' True ((), [])))) = 82 \<and>
   (82::nat) \<le> 1 + length (splitRel (Rel ''/x'')) + maxLinkHops * 3 \<and>
   fst (resolve fake_root (link_counter loop_fs) ''/x'' True ((), 0)) = Inl [Own ErrUnsupported]"
proof -
  have "snd (snd (resolve fake_root (link_counter loop_fs) ''/x'' True ((), 0))) = 41" by code_simp
  moreover have "short_links loop_fs 1" by (simp add: short_links_def loop_fs_def)
  moreover have "length (snd (snd (resolve fake_root (logged loop_fs) ''/x'' True ((), [])))) = 82" by code_simp
  ultimately show ?thesis using resolve_terminates [of loop_fs 1 fake_root "''/x''" True "()"]
    by (simp add: split_beta)
qed

text \<open>
  Where no component is a symlink, resolution is the identity: it answers with the request's
  own name and its cleaned API path, whether or not the last component is to be followed and also
  where components are missing or unreadable, so the caller's own operation reports the failure.
\<close>

theorem resolve_plain_path:
  assumes "linkless K" and "fst (open_jail K w) = None"
  shows "fst (resolve r K p followFinal w) = Inr \<lparr>jp_rel = Rel p, jp_api = cleanAPI p\<rparr>"
  using assms by (rule resolve_linkless)

definition empty_fs :: "unit jailfs" where
  "empty_fs =
     \<lparr>open_jail = \<lambda>w. (None, w), stat_at = \<lambda>p w. (Inl [Sys ENOENT, FsNotExist], w),
      readlink_at = \<lambda>p w. (Inl [Sys ENOENT], w), traverse_at = \<lambda>p w. (None, w)\<rparr>"

theorem resolve_plain_path_witness:
  "fst (resolve fake_root empty_fs ''/share/../x'' True ()) = Inr \<lparr>jp_rel = ''x'', jp_api = ''/x''\<rparr>"
proof -
  have "linkless empty_fs" "fst (open_jail empty_fs ()) = None" by (simp_all add: linkless_def empty_fs_def)
  moreover have "Rel ''/share/../x'' = ''x''" "cleanAPI ''/share/../x'' = ''/x''" by code_simp+
  ultimately show ?thesis using resolve_plain_path [of empty_fs "()" fake_root "''/share/../x''" True] by simp
qed

end
