(* ===== verification/Walk.thy ===== *)
theory Walk
  imports Resolve Platform Guard
begin

section \<open>The tree walk (internal/fsops/walk.go, never_write.go)\<close>

text \<open>
  The one recursion of the worker. A directory is a kernel handle; the walk opens each child
  relative to the handle above it, decides from the opened descriptor whether it may be entered,
  and calls the visitor's hooks. The kernel is a parameter, as in \<open>Resolve\<close>: every call answers
  and moves a state of the world, so anything may happen between two calls. What the mount table
  says is read from that state; the decisions over it are \<open>Platform\<close>'s. Whether the table is live is
  read with it: the code remembers it for a walk, and it is fixed when the platform is made.

  A Go error of the walk is a \<open>signal\<close>: an ordinary failure, or one of the three values the hooks
  use to steer. \<open>Exhausted\<close> is not in the code: it is the model's answer when one directory stream
  has been read more often than the fuel \<open>N\<close> allows.
\<close>

subsection \<open>The never-write components (never_write.go)\<close>

datatype protect = ProtectNone | ProtectSnapshots | ProtectWrite

definition refuses :: "protect \<Rightarrow> string \<Rightarrow> bool" where
  "refuses p name =
     (if name = ''.zfs'' then p = ProtectSnapshots \<or> p = ProtectWrite
      else if name = ''@Recycle'' then p = ProtectWrite
      else False)"

fun refuses_loop :: "protect \<Rightarrow> string \<Rightarrow> string \<Rightarrow> bool" where
  \<comment> \<open>the component read so far, then the rest of the path\<close>
  "refuses_loop p cur [] = (cur \<noteq> [] \<and> refuses p cur)"
| "refuses_loop p cur (c # s) =
     (if c \<noteq> CHR ''/'' then refuses_loop p (cur @ [c]) s
      else if cur \<noteq> [] \<and> refuses p cur then True
      else refuses_loop p [] s)"

definition refusesPath :: "protect \<Rightarrow> string \<Rightarrow> bool" where
  "refusesPath p apiPath = refuses_loop p [] apiPath"

definition neverWritePath :: "string \<Rightarrow> bool" where
  "neverWritePath apiPath = refusesPath ProtectWrite apiPath"

definition pseudoFSTypes :: "string list" where
  "pseudoFSTypes =
     [''proc'', ''procfs'', ''sysfs'', ''devtmpfs'', ''devpts'', ''cgroup'', ''cgroup2'', ''debugfs'', ''tracefs'',
      ''securityfs'', ''bpf'', ''pstore'', ''configfs'', ''fusectl'', ''mqueue'', ''hugetlbfs'', ''binfmt_misc'',
      ''selinuxfs'', ''nsfs'', ''efivarfs'', ''autofs'', ''rpc_pipefs'', ''sunrpc'']"

text \<open>The mount table at an instant: \<open>None\<close> when the process has no platform knowledge.\<close>

type_synonym table_now = "(time \<times> platform) option"

definition os_of :: "fsroot \<Rightarrow> string \<Rightarrow> string" where
  \<comment> \<open>the OS spelling, empty when there is none\<close>
  "os_of r p = (case OS r p of Inl _ \<Rightarrow> [] | Inr q \<Rightarrow> q)"

definition refuseRootMount :: "fsroot \<Rightarrow> table_now \<Rightarrow> string \<Rightarrow> sentinel option" where
  "refuseRootMount r tb spelling =
     (case tb of None \<Rightarrow> None
      | Some (now, p) \<Rightarrow>
          if os_of r spelling = [] then None
          else case ForLiteral now p (os_of r spelling) of
                 None \<Rightarrow> None
               | Some c \<Rightarrow>
                   if List.member pseudoFSTypes (to_lower (fs_FSType c)) then Some ErrProtected
                   else if fs_Network c then Some ErrProtected
                   else None)"

definition refuseRoot :: "fsroot \<Rightarrow> table_now \<Rightarrow> string \<Rightarrow> string \<Rightarrow> protect \<Rightarrow> sentinel option" where
  "refuseRoot r tb requested resolved p =
     (if refusesPath p requested \<or> refusesPath p resolved then Some ErrProtected
      else refuseRootMount r tb resolved)"

definition refuseRootPath :: "fsroot \<Rightarrow> table_now \<Rightarrow> string \<Rightarrow> protect \<Rightarrow> sentinel option" where
  "refuseRootPath r tb requested p =
     (if refusesPath p requested then Some ErrProtected else refuseRootMount r tb requested)"

subsection \<open>Items, hooks and the kernel's side\<close>

definition maxWalkDepth :: nat where "maxWalkDepth = 256"
definition maxDirPasses :: nat where "maxDirPasses = 1000"

definition beyondWalkDepth :: "nat \<Rightarrow> bool" where
  "beyondWalkDepth depth \<longleftrightarrow> depth \<ge> maxWalkDepth"

record walkOptions =
  CrossMounts :: bool
  Mutating :: bool
  ReadCrossing :: bool
  Protect :: protect

record mountIdentity =
  mi_mnt :: "nat option"
  mi_dev :: "nat option"

definition unidentifiedMount :: "mountIdentity \<Rightarrow> mountIdentity \<Rightarrow> bool" where
  "unidentifiedMount child parent \<longleftrightarrow> mi_mnt child = None \<or> mi_mnt parent = None"

definition differsFrom :: "mountIdentity \<Rightarrow> mountIdentity \<Rightarrow> bool" where
  "differsFrom a b =
     (case (mi_mnt a, mi_mnt b) of
        (Some m, Some n) \<Rightarrow> m \<noteq> n
      | _ \<Rightarrow> (case (mi_dev a, mi_dev b) of (Some m, Some n) \<Rightarrow> m \<noteq> n | _ \<Rightarrow> False))"

record ('w, 'h) walkItem =
  it_path :: string
  it_name :: string
  it_info :: finfo
  it_depth :: nat
  it_mount :: bool
  it_searchable :: bool
  it_remove :: "bool \<Rightarrow> 'w \<Rightarrow> error option \<times> 'w"
  it_parent :: "'h option"
  it_held :: "'h option"
  it_opened :: bool

datatype signal = SkipDir | RetryDir | ScanCapped | Failed error | Exhausted

datatype read_end = More | EOF | ReadErr error

record ('w, 'h) treefs =
  ctx_err :: "'w \<Rightarrow> error option"
  mount_table :: "'w \<Rightarrow> table_now"
  refresh_table :: "'w \<Rightarrow> 'w"
  open_root :: "string \<Rightarrow> 'w \<Rightarrow> (error + 'h) \<times> 'w"
  open_child :: "'h \<Rightarrow> string \<Rightarrow> 'w \<Rightarrow> (error + 'h) \<times> 'w"
  read_names :: "'h \<Rightarrow> nat \<Rightarrow> 'w \<Rightarrow> (string list \<times> read_end) \<times> 'w"
  lstat_held :: "'h \<Rightarrow> string \<Rightarrow> 'w \<Rightarrow> (error + finfo \<times> 'h option) \<times> 'w"
  unlink_in :: "'h \<Rightarrow> string \<Rightarrow> bool \<Rightarrow> 'w \<Rightarrow> error option \<times> 'w"
  unlink_at :: "string \<Rightarrow> string \<Rightarrow> bool \<Rightarrow> 'w \<Rightarrow> error option \<times> 'w"
  fstat :: "'h \<Rightarrow> 'w \<Rightarrow> (error + finfo) \<times> 'w"
  identity_of :: "'h \<Rightarrow> 'w \<Rightarrow> mountIdentity \<times> 'w"
  close_dir :: "'h \<Rightarrow> 'w \<Rightarrow> error option \<times> 'w"

text \<open>A hook works on the world and on its own state \<open>'v\<close>; a nil hook is one that does nothing.\<close>

record ('w, 'h, 'v) visitor =
  v_Pre :: "('w, 'h) walkItem \<Rightarrow> 'w \<times> 'v \<Rightarrow> signal option \<times> 'w \<times> 'v"
  v_Post :: "(('w, 'h) walkItem \<Rightarrow> 'w \<times> 'v \<Rightarrow> signal option \<times> 'w \<times> 'v) option"
  v_Opened :: "(('w, 'h) walkItem \<Rightarrow> finfo \<Rightarrow> 'w \<times> 'v \<Rightarrow> signal option \<times> 'w \<times> 'v) option"
  v_Unopened :: "(('w, 'h) walkItem \<Rightarrow> error \<Rightarrow> 'w \<times> 'v \<Rightarrow> 'w \<times> 'v) option"
  v_Warn :: "string \<Rightarrow> error \<Rightarrow> 'w \<times> 'v \<Rightarrow> 'w \<times> 'v"

definition kern :: "('w \<Rightarrow> 'a \<times> 'w) \<Rightarrow> 'w \<times> 'v \<Rightarrow> 'a \<times> 'w \<times> 'v" where
  "kern f s = (case f (fst s) of (a, w) \<Rightarrow> (a, w, snd s))"

record ('w, 'h, 'v) walker =
  wk_r :: fsroot
  wk_fs :: "('w, 'h) treefs"
  wk_opts :: walkOptions
  wk_v :: "('w, 'h, 'v) visitor"

definition mutating :: "walkOptions \<Rightarrow> bool" where
  "mutating o1 \<longleftrightarrow> Mutating o1 \<or> Protect o1 = ProtectWrite"

definition is_dir_item :: "('w, 'h) walkItem \<Rightarrow> bool" where
  "is_dir_item it \<longleftrightarrow> isDir (it_info it)"

subsection \<open>The crossing rule\<close>

text \<open>\<open>capsForMount\<close>: the row of the descriptor's own mount ID first, a name only where the table has no real IDs.\<close>

definition capsFor :: "table_now \<Rightarrow> mountIdentity \<Rightarrow> string \<Rightarrow> bool \<Rightarrow> fscaps option" where
  "capsFor tb ident osPath requireMount =
     (case tb of None \<Rightarrow> None
      | Some (now, p) \<Rightarrow>
          let by_name = (if requireMount \<and> \<not> IsMountPointByTable p osPath then None else Some (For now p osPath))
          in case mi_mnt ident of
               None \<Rightarrow> by_name
             | Some mnt \<Rightarrow>
                 (case find (\<lambda>m. mt_ID m = int mnt) (pf_mounts p) of
                    Some m \<Rightarrow> Some (CapsForMount m)
                  | None \<Rightarrow> if pf_live p then None else by_name))"

definition mayCross :: "walkOptions \<Rightarrow> fscaps \<Rightarrow> fscaps \<Rightarrow> bool" where
  "mayCross o1 a b = (if ReadCrossing o1 \<and> \<not> mutating o1 then MayCrossRead a b else MayCross a b)"

definition literalChild :: "string \<Rightarrow> string \<Rightarrow> string" where
  "literalChild parentOS name =
     (if parentOS \<noteq> [] \<and> last parentOS = CHR ''/'' then parentOS @ name else parentOS @ CHR ''/'' # name)"

definition refusedByTable :: "table_now \<Rightarrow> walkOptions \<Rightarrow> string \<Rightarrow> string \<Rightarrow> bool" where
  "refusedByTable tb o1 parentOS name =
     (case tb of None \<Rightarrow> False
      | Some (now, p) \<Rightarrow>
          if parentOS = [] then False
          else case MountByLiteralPath now p (literalChild parentOS name) of
                 None \<Rightarrow> False
               | Some c \<Rightarrow>
                   if \<not> fs_Network c then False
                   else if CrossMounts o1 \<and> mayCross o1 (For now p parentOS) c then False
                   else True)"

text \<open>What the refusal reports; the type \<open>mountNotEntered\<close> is the first value of its chain.\<close>

definition mountNotEntered :: error where
  "mountNotEntered = [Opaque ''mountNotEntered'', Own ErrProtected]"

definition isMountNotEntered :: "error \<Rightarrow> bool" where
  "isMountNotEntered e \<longleftrightarrow> errors_is e (Opaque ''mountNotEntered'')"

definition isMountPoint :: "fsroot \<Rightarrow> table_now \<Rightarrow> string \<Rightarrow> mountIdentity \<Rightarrow> mountIdentity \<Rightarrow> bool" where
  "isMountPoint r tb childPath childID parentID =
     ((case tb of None \<Rightarrow> False
       | Some (now, p) \<Rightarrow> os_of r childPath \<noteq> [] \<and> IsMountPointByTable p (os_of r childPath)) \<or>
      differsFrom childID parentID)"

text \<open>Whether the walk descends, and the child's capabilities if they were identified.\<close>

definition mayCrossInto :: "('w, 'h, 'v) walker \<Rightarrow> string \<Rightarrow> mountIdentity \<Rightarrow> string \<Rightarrow> mountIdentity \<Rightarrow>
    'w \<times> 'v \<Rightarrow> (bool \<times> fscaps option) \<times> 'w \<times> 'v" where
  "mayCrossInto k parentOS parentID childPath childID s =
     (let childOS = os_of (wk_r k) childPath
      in if \<not> CrossMounts (wk_opts k) \<or> mount_table (wk_fs k) (fst s) = None then ((False, None), s)
         else if childOS = [] \<or> parentOS = [] then ((False, None), s)
         else let s = (refresh_table (wk_fs k) (fst s), snd s);
                  tb = mount_table (wk_fs k) (fst s)
              in case capsFor tb childID childOS True of
                   None \<Rightarrow> ((False, None), s)
                 | Some child \<Rightarrow>
                     (case capsFor tb parentID parentOS False of
                        None \<Rightarrow> ((False, Some child), s)
                      | Some parent \<Rightarrow> ((mayCross (wk_opts k) parent child, Some child), s)))"

definition boundaryCaps :: "('w, 'h, 'v) walker \<Rightarrow> string \<Rightarrow> mountIdentity \<Rightarrow> 'w \<times> 'v \<Rightarrow> fscaps option" where
  "boundaryCaps k childPath childID s =
     (if os_of (wk_r k) childPath = [] then None
      else capsFor (mount_table (wk_fs k) (fst s)) childID (os_of (wk_r k) childPath) True)"

definition searchable :: "fscaps option \<Rightarrow> bool" where
  "searchable c = (case c of None \<Rightarrow> False | Some c \<Rightarrow> \<not> fs_Network c \<and> (fs_Storage c \<or> fs_RAM c))"

datatype 'h opened = OpenErr error | Boundary bool | Opened 'h

definition openChild :: "('w, 'h, 'v) walker \<Rightarrow> 'h \<Rightarrow> string \<Rightarrow> string \<Rightarrow> string \<Rightarrow> mountIdentity \<Rightarrow>
    'w \<times> 'v \<Rightarrow> 'h opened \<times> 'w \<times> 'v" where
  "openChild k parentDir name childPath parentOS parentID s =
     (case kern (open_child (wk_fs k) parentDir name) s of
        (Inl e, s) \<Rightarrow> (OpenErr e, s)
      | (Inr child, s) \<Rightarrow>
          (case kern (identity_of (wk_fs k) child) s of
             (childID, s) \<Rightarrow>
               if mutating (wk_opts k) \<and> unidentifiedMount childID parentID then
                 (case kern (close_dir (wk_fs k) child) s of (_, s) \<Rightarrow> (OpenErr [Own ErrProtected], s))
               else if \<not> isMountPoint (wk_r k) (mount_table (wk_fs k) (fst s)) childPath childID parentID then (Opened child, s)
               else
                 (case mayCrossInto k parentOS parentID childPath childID s of
                    ((cross, caps), s) \<Rightarrow>
                      if cross then (Opened child, s)
                      else
                        (case kern (close_dir (wk_fs k) child) s of
                           (_, s) \<Rightarrow>
                             (Boundary (searchable (if caps = None then boundaryCaps k childPath childID s else caps)), s)))))"

subsection \<open>The walk\<close>

text \<open>
  How a directory is opened, and what is left of the descriptor that is already held: by name from
  the root of the walk, from the held root of \<open>walkFrom\<close>, or below a parent descriptor.
\<close>

datatype 'h opener =
    NoOpener
  | RootOpener string
  | HeldOpener "'h option"
  | ChildOpener "'h option" 'h string mountIdentity

fun open_pass :: "('w, 'h, 'v) walker \<Rightarrow> ('w, 'h) walkItem \<Rightarrow> 'h opener \<Rightarrow> 'w \<times> 'v \<Rightarrow>
    (error + 'h) \<times> 'h opener \<times> 'w \<times> 'v" where
  "open_pass k it NoOpener s = (Inl [Own ErrUnsupported], NoOpener, s)"
| "open_pass k it (RootOpener rel) s =
     (case kern (open_root (wk_fs k) rel) s of (x, s) \<Rightarrow> (x, RootOpener rel, s))"
| "open_pass k it (HeldOpener (Some d)) s = (Inr d, HeldOpener None, s)"
| "open_pass k it (HeldOpener None) s = (Inl [Own ErrUnsupported], HeldOpener None, s)"
| "open_pass k it (ChildOpener (Some d) par parentOS parentID) s = (Inr d, ChildOpener None par parentOS parentID, s)"
| "open_pass k it (ChildOpener None par parentOS parentID) s =
     (case openChild k par (it_name it) (it_path it) parentOS parentID s of
        (OpenErr e, s) \<Rightarrow> (Inl e, ChildOpener None par parentOS parentID, s)
      | (Boundary _, s) \<Rightarrow> (Inl [Own ErrProtected], ChildOpener None par parentOS parentID, s)
      | (Opened d, s) \<Rightarrow> (Inr d, ChildOpener None par parentOS parentID, s))"

definition close_unused :: "('w, 'h, 'v) walker \<Rightarrow> 'h opener \<Rightarrow> 'w \<times> 'v \<Rightarrow> 'w \<times> 'v" where
  "close_unused k op s =
     (case op of
        ChildOpener (Some d) _ _ _ \<Rightarrow> snd (kern (close_dir (wk_fs k) d) s)
      | HeldOpener (Some d) \<Rightarrow> snd (kern (close_dir (wk_fs k) d) s)
      | _ \<Rightarrow> s)"

text \<open>The Opened hook, with the fstat of the descriptor; nothing is asked when there is no hook.\<close>

definition tell_opened :: "('w, 'h, 'v) walker \<Rightarrow> ('w, 'h) walkItem \<Rightarrow> 'h \<Rightarrow> 'w \<times> 'v \<Rightarrow> signal option \<times> 'w \<times> 'v" where
  "tell_opened k it d s =
     (case v_Opened (wk_v k) of
        None \<Rightarrow> (None, s)
      | Some hook \<Rightarrow>
          (case kern (fstat (wk_fs k) d) s of
             (Inr fi, s) \<Rightarrow> hook it fi s
           | (Inl e, s) \<Rightarrow> (None, v_Warn (wk_v k) (it_path it) e s)))"

definition child_item :: "('w, 'h, 'v) walker \<Rightarrow> 'h \<Rightarrow> ('w, 'h) walkItem \<Rightarrow> string \<Rightarrow> finfo \<Rightarrow> 'h option \<Rightarrow> ('w, 'h) walkItem" where
  "child_item k d parent name fi held =
     \<lparr>it_path = Join (it_path parent) [name], it_name = name, it_info = fi, it_depth = it_depth parent + 1,
      it_mount = False, it_searchable = False, it_remove = unlink_in (wk_fs k) d name,
      it_parent = Some d, it_held = held, it_opened = False\<rparr>"

text \<open>Depth bounds the descent, \<open>maxDirPasses\<close> the passes, the fuel the reads and the list the entries.\<close>

definition down :: "nat \<Rightarrow> nat" where
  "down depth = 2 * (maxWalkDepth + 1 - depth)"

lemma down_child: "down (it_depth (child_item k d it name fi held)) \<le> down (it_depth it) - Suc 0"
  by (auto simp: down_def child_item_def)

lemma down_open: "\<not> beyondWalkDepth depth \<Longrightarrow> down depth - Suc 0 < down depth"
  by (simp add: down_def beyondWalkDepth_def)

function visit :: "('w, 'h, 'v) walker \<Rightarrow> nat \<Rightarrow> ('w, 'h) walkItem \<Rightarrow> 'h opener \<Rightarrow> 'w \<times> 'v \<Rightarrow>
      signal option \<times> 'h opener \<times> 'w \<times> 'v"
  and passes :: "('w, 'h, 'v) walker \<Rightarrow> nat \<Rightarrow> ('w, 'h) walkItem \<Rightarrow> 'h opener \<Rightarrow> nat \<Rightarrow> 'w \<times> 'v \<Rightarrow>
      signal option \<times> 'h opener \<times> 'w \<times> 'v"
  and children :: "('w, 'h, 'v) walker \<Rightarrow> nat \<Rightarrow> 'h \<Rightarrow> ('w, 'h) walkItem \<Rightarrow> string \<Rightarrow> mountIdentity \<Rightarrow> nat \<Rightarrow> 'w \<times> 'v \<Rightarrow>
      signal option \<times> 'w \<times> 'v"
  and entries :: "('w, 'h, 'v) walker \<Rightarrow> nat \<Rightarrow> 'h \<Rightarrow> ('w, 'h) walkItem \<Rightarrow> string \<Rightarrow> mountIdentity \<Rightarrow> string list \<Rightarrow> 'w \<times> 'v \<Rightarrow>
      signal option \<times> 'w \<times> 'v"
  and directory :: "('w, 'h, 'v) walker \<Rightarrow> nat \<Rightarrow> 'h \<Rightarrow> ('w, 'h) walkItem \<Rightarrow> string \<Rightarrow> mountIdentity \<Rightarrow> 'w \<times> 'v \<Rightarrow>
      signal option \<times> 'w \<times> 'v"
where
  "visit k N it op s =
     (case ctx_err (wk_fs k) (fst s) of
        Some e \<Rightarrow> (Some (Failed e), op, s)
      | None \<Rightarrow>
          (case v_Pre (wk_v k) it s of
             (Some SkipDir, s) \<Rightarrow> (None, op, s)
           | (Some x, s) \<Rightarrow> (Some x, op, s)
           | (None, s) \<Rightarrow>
               if \<not> is_dir_item it \<or> it_mount it \<or> op = NoOpener then (None, op, s)
               else if beyondWalkDepth (it_depth it) then
                 (None, op, v_Warn (wk_v k) (it_path it) [Own ErrUnsupported] s)
               else passes k N it op 0 s))"
| "passes k N it op pass s =
     (case open_pass k it op s of
        (Inl e, op, s) \<Rightarrow> (None, op, v_Warn (wk_v k) (it_path it) e s)
      | (Inr d, op, s) \<Rightarrow>
          (case tell_opened k it d s of
             (Some x, s) \<Rightarrow> (Some x, op, snd (kern (close_dir (wk_fs k) d) s))
           | (None, s) \<Rightarrow>
               (case kern (identity_of (wk_fs k) d) s of
                  (parentID, s) \<Rightarrow>
                    (case children k N d it (os_of (wk_r k) (it_path it)) parentID 0 s of
                       (sig, s) \<Rightarrow>
                         (case kern (close_dir (wk_fs k) d) s of
                            (closeErr, s) \<Rightarrow>
                              if sig \<noteq> None then (sig, op, s)
                              else
                                let s = (case closeErr of None \<Rightarrow> s | Some e \<Rightarrow> v_Warn (wk_v k) (it_path it) e s)
                                in case v_Post (wk_v k) of
                                     None \<Rightarrow> (None, op, s)
                                   | Some post \<Rightarrow>
                                       (case post it s of
                                          (None, s) \<Rightarrow> (None, op, s)
                                        | (Some x, s) \<Rightarrow>
                                            if x \<noteq> RetryDir then (Some x, op, s)
                                            else if \<not> Mutating (wk_opts k) \<or> pass \<ge> maxDirPasses then
                                              (None, op, v_Warn (wk_v k) (it_path it) [Own ErrUnsupported] s)
                                            else passes k N it op (pass + 1) s))))))"
| "children k N d it parentOS parentID j s =
     (if j \<ge> N then (Some Exhausted, s)
      else
        case kern (read_names (wk_fs k) d j) s of
          ((names, rend), s) \<Rightarrow>
            (case entries k N d it parentOS parentID names s of
               (Some x, s) \<Rightarrow> (Some x, s)
             | (None, s) \<Rightarrow>
                 (case rend of
                    EOF \<Rightarrow> (None, s)
                  | ReadErr e \<Rightarrow> (None, v_Warn (wk_v k) (it_path it) e s)
                  | More \<Rightarrow>
                      if names = [] then (None, s)
                      else children k N d it parentOS parentID (j + 1) s)))"
| "entries k N d it parentOS parentID [] s = (None, s)"
| "entries k N d it parentOS parentID (name # names) s =
     (case ctx_err (wk_fs k) (fst s) of
        Some e \<Rightarrow> (Some (Failed e), s)
      | None \<Rightarrow>
          let childPath = Join (it_path it) [name]
          in if refuses (Protect (wk_opts k)) name then
               entries k N d it parentOS parentID names (v_Warn (wk_v k) childPath [Own ErrProtected] s)
             else if refusedByTable (mount_table (wk_fs k) (fst s)) (wk_opts k) parentOS name then
               entries k N d it parentOS parentID names (v_Warn (wk_v k) childPath mountNotEntered s)
             else
               (case kern (lstat_held (wk_fs k) d name) s of
                  (Inl e, s) \<Rightarrow>
                    entries k N d it parentOS parentID names
                      (if errors_is e FsNotExist then s else v_Warn (wk_v k) childPath e s)
                | (Inr (fi, held), s) \<Rightarrow>
                    let child = child_item k d it name fi held
                    in if \<not> isDir fi then
                         (case visit k N child NoOpener s of
                            (Some x, _, s) \<Rightarrow> (Some x, s)
                          | (None, _, s) \<Rightarrow> entries k N d it parentOS parentID names s)
                       else
                         (case directory k N d child parentOS parentID s of
                            (sig, s) \<Rightarrow>
                              let s = (case held of None \<Rightarrow> s | Some h \<Rightarrow> snd (kern (close_dir (wk_fs k) h) s))
                              in (case sig of
                                    Some x \<Rightarrow> (Some x, s)
                                  | None \<Rightarrow> entries k N d it parentOS parentID names s))))"
| "directory k N d child parentOS parentID s =
     (case openChild k d (it_name child) (it_path child) parentOS parentID s of
        (OpenErr e, s) \<Rightarrow>
          (case visit k N child NoOpener s of
             (Some x, _, s) \<Rightarrow> (Some x, s)
           | (None, _, s) \<Rightarrow>
               (case v_Unopened (wk_v k) of
                  Some hook \<Rightarrow> (None, hook child e s)
                | None \<Rightarrow> (None, v_Warn (wk_v k) (it_path child) e s)))
      | (Boundary sb, s) \<Rightarrow>
          (case visit k N (child\<lparr>it_mount := True, it_searchable := sb\<rparr>) NoOpener s of (sig, _, s) \<Rightarrow> (sig, s))
      | (Opened h, s) \<Rightarrow>
          (case visit k N (child\<lparr>it_opened := \<not> beyondWalkDepth (it_depth child)\<rparr>)
                  (ChildOpener (Some h) d parentOS parentID) s of
             (sig, op, s) \<Rightarrow> (sig, close_unused k op s)))"
  by pat_completeness auto


termination
proof (relation "measures
    [case_sum (case_sum (\<lambda>(k, N, it, op, s). down (it_depth it)) (\<lambda>(k, N, it, op, pass, s). down (it_depth it) - 1))
       (case_sum (\<lambda>(k, N, d, it, x). down (it_depth it) - 1)
         (case_sum (\<lambda>(k, N, d, it, x). down (it_depth it) - 1) (\<lambda>(k, N, d, it, x). down (it_depth it)))),
     case_sum (case_sum (\<lambda>x. 0) (\<lambda>x. 4)) (case_sum (\<lambda>x. 3) (case_sum (\<lambda>x. 2) (\<lambda>x. 1))),
     case_sum (case_sum (\<lambda>x. 0) (\<lambda>(k, N, it, op, pass, s). Suc maxDirPasses - pass))
       (case_sum (\<lambda>(k, N, d, it, a, b, j, s). N - j)
         (case_sum (\<lambda>(k, N, d, it, a, b, names, s). length names) (\<lambda>x. 0)))]",
    goal_cases)
qed (auto simp: down_open order.not_eq_order_implies_strict [OF _ down_child])

declare visit.simps [simp del] passes.simps [simp del] children.simps [simp del] entries.simps [simp del]
  directory.simps [simp del]

text \<open>\<open>Walk\<close>: resolve the path without following its last component, and visit what it names.\<close>

definition root_item :: "('w, 'h, 'v) walker \<Rightarrow> jailPath \<Rightarrow> finfo \<Rightarrow> ('w, 'h) walkItem" where
  "root_item k tg fi =
     (case splitFinal (jp_rel tg) of
        (parentRel, name) \<Rightarrow>
          \<lparr>it_path = jp_api tg, it_name = Base (jp_api tg), it_info = fi, it_depth = 0,
           it_mount = False, it_searchable = False,
           it_remove = (\<lambda>dir w.
             if jp_rel tg = ''.'' \<or> jp_rel tg = [] \<or> name = [] then (Some [Own ErrBadName], w)
             else unlink_at (wk_fs k) parentRel name dir w),
           it_parent = None, it_held = None, it_opened = False\<rparr>)"

definition WalkTree :: "'w jailfs \<Rightarrow> ('w, 'h, 'v) walker \<Rightarrow> nat \<Rightarrow> string \<Rightarrow> 'w \<times> 'v \<Rightarrow> signal option \<times> 'w \<times> 'v" where
  "WalkTree J k N apiPath s =
     (case Clean apiPath of
        Inl e \<Rightarrow> (Some (Failed [Own e]), s)
      | Inr cleaned \<Rightarrow>
          (case ctx_err (wk_fs k) (fst s) of
             Some e \<Rightarrow> (Some (Failed e), s)
           | None \<Rightarrow>
               (case kern (resolve (wk_r k) J cleaned False) s of
                  (Inl e, s) \<Rightarrow> (Some (Failed e), s)
                | (Inr tg, s) \<Rightarrow>
                    (case kern (stat_at J (jp_rel tg)) s of
                       (Inl e, s) \<Rightarrow> (Some (Failed e), s)
                     | (Inr fi, s) \<Rightarrow>
                         (case visit k N (root_item k tg fi) (RootOpener (jp_rel tg)) s of
                            (sig, _, s) \<Rightarrow> (sig, s))))))"

text \<open>\<open>walkFrom\<close>: the same from a directory that is already held, which is never named again.\<close>

definition walkFrom :: "('w, 'h, 'v) walker \<Rightarrow> nat \<Rightarrow> 'h \<Rightarrow> string \<Rightarrow> finfo \<Rightarrow> 'w \<times> 'v \<Rightarrow> signal option \<times> 'w \<times> 'v" where
  "walkFrom k N held apiPath fi s =
     (case ctx_err (wk_fs k) (fst s) of
        Some e \<Rightarrow> (Some (Failed e), snd (kern (close_dir (wk_fs k) held) s))
      | None \<Rightarrow>
          (case visit k N
              \<lparr>it_path = apiPath, it_name = Base apiPath, it_info = fi, it_depth = 0, it_mount = False,
               it_searchable = False, it_remove = (\<lambda>dir w. (None, w)), it_parent = None, it_held = None, it_opened = False\<rparr>
              (HeldOpener (Some held)) s of
             (sig, op, s) \<Rightarrow> (sig, close_unused k op s)))"

end
