(* ===== verification/Walk_Facts.thy ===== *)
theory Walk_Facts
  imports Walk
begin

section \<open>What every walk keeps\<close>

text \<open>The kernel moves the world and leaves the visitor's state alone.\<close>

lemma snd_kern: "kern f s = (a, s') \<Longrightarrow> snd s' = snd s"
  by (auto simp: kern_def split: prod.splits)

text \<open>
  One induction over the five functions of the walk, for any relation between the state before and
  the state after that the kernel's answers and the visitor's hooks satisfy. The relation is indexed
  by a depth: what happens below a directory only has to keep the part of the state that belongs to
  the directories above. A walk that ends with a signal satisfies a second relation, which may be
  weaker and may depend on the signal.
\<close>

locale walk_relation =
  fixes k :: "('w, 'h, 'v) walker"
    and R :: "nat \<Rightarrow> 'w \<times> 'v \<Rightarrow> 'w \<times> 'v \<Rightarrow> bool"
    and A :: "signal \<Rightarrow> nat \<Rightarrow> 'w \<times> 'v \<Rightarrow> 'w \<times> 'v \<Rightarrow> bool"
    and item_ok :: "'w \<times> 'v \<Rightarrow> ('w, 'h) walkItem \<Rightarrow> bool"
    and pass_ok :: "'w \<times> 'v \<Rightarrow> ('w, 'h) walkItem \<Rightarrow> bool"
    and id_ok :: "'w \<times> 'v \<Rightarrow> 'h \<Rightarrow> mountIdentity \<Rightarrow> bool"
  assumes R_refl: "R d s s"
    and R_trans: "R d s1 s2 \<Longrightarrow> R d s2 s3 \<Longrightarrow> R d s1 s3"
    and R_mono: "R (Suc d) s1 s2 \<Longrightarrow> R d s1 s2"
    and A_ends: "R d s1 s2 \<Longrightarrow> A (Failed e) d s1 s2" "R d s1 s2 \<Longrightarrow> A Exhausted d s1 s2"
    and A_trans: "R d s1 s2 \<Longrightarrow> A y d s2 s3 \<Longrightarrow> A y d s1 s3"
    and A_mono: "A y (Suc d) s1 s2 \<Longrightarrow> A y d s1 s2"
    and A_close: "A y d s1 s2 \<Longrightarrow> kern (close_dir (wk_fs k) h) s2 = (a6, s3) \<Longrightarrow> A y d s1 s3"
    and refresh_ok: "R d (w, v) (refresh_table (wk_fs k) w, v)"
    and root_ok: "kern (open_root (wk_fs k) p) s = (a1, s') \<Longrightarrow> R d s s'"
    and child_open_ok: "kern (open_child (wk_fs k) h p) s = (a1, s') \<Longrightarrow> R d s s'"
    and names_ok: "kern (read_names (wk_fs k) h j) s = (a2, s') \<Longrightarrow> R d s s'"
    and lstat_ok: "kern (lstat_held (wk_fs k) h p) s = (a3, s') \<Longrightarrow> R d s s'"
    and fstat_ok: "kern (fstat (wk_fs k) h) s = (a4, s') \<Longrightarrow> R d s s'"
    and ident_ok: "kern (identity_of (wk_fs k) h) s = (a5, s') \<Longrightarrow> R d s s'"
    and close_ok: "kern (close_dir (wk_fs k) h) s = (a6, s') \<Longrightarrow> R d s s'"
    and warn_ok: "R d s (v_Warn (wk_v k) p e s)"
    and pre_ok: "item_ok s it \<Longrightarrow> v_Pre (wk_v k) it s = (x, s') \<Longrightarrow>
      (case x of None \<Rightarrow> R (it_depth it) s s' | Some y \<Rightarrow> (if y = SkipDir then R else A y) (it_depth it) s s')"
    and post_ok: "pass_ok s it \<Longrightarrow> v_Post (wk_v k) = Some f \<Longrightarrow> f it s = (x, s') \<Longrightarrow>
      (case x of None \<Rightarrow> R (it_depth it) s s' | Some y \<Rightarrow> (if y = RetryDir then R else A y) (it_depth it) s s')"
    and opened_ok: "item_ok s it \<Longrightarrow> v_Opened (wk_v k) = Some g \<Longrightarrow> g it fi s = (x, s') \<Longrightarrow>
      (case x of None \<Rightarrow> R (it_depth it) s s' | Some y \<Rightarrow> A y (it_depth it) s s')"
    and unopened_ok: "item_ok s it \<Longrightarrow> v_Unopened (wk_v k) = Some u \<Longrightarrow> R (it_depth it) s (u it e s)"
    and item_keep: "R d s1 s2 \<Longrightarrow> item_ok s1 it \<Longrightarrow> item_ok s2 it"
    and pass_keep: "R d s1 s2 \<Longrightarrow> pass_ok s1 it \<Longrightarrow> pass_ok s2 it"
    and id_keep: "R d s1 s2 \<Longrightarrow> id_ok s1 h i \<Longrightarrow> id_ok s2 h i"
    and id_known: "kern (identity_of (wk_fs k) h) s = (i, s') \<Longrightarrow> id_ok s' h i"
    and item_child: "\<not> refuses (Protect (wk_opts k)) name \<Longrightarrow> item_ok s (child_item k h it name fi held)"
    and item_mount: "\<not> refuses (Protect (wk_opts k)) name \<Longrightarrow>
      item_ok s ((child_item k h it name fi held)\<lparr>it_mount := True, it_searchable := b\<rparr>)"
    and item_opened: "\<not> refuses (Protect (wk_opts k)) name \<Longrightarrow> id_ok s h i \<Longrightarrow>
      openChild k h name (it_path (child_item k h it name fi held)) parentOS i s = (Opened c, s') \<Longrightarrow>
      item_ok s' ((child_item k h it name fi held)\<lparr>it_opened := b\<rparr>) \<and>
      (b \<longrightarrow> pass_ok s' ((child_item k h it name fi held)\<lparr>it_opened := b\<rparr>))"
begin

definition Q :: "signal option \<Rightarrow> nat \<Rightarrow> 'w \<times> 'v \<Rightarrow> 'w \<times> 'v \<Rightarrow> bool" where
  "Q x d s s' = (case x of None \<Rightarrow> R d s s' | Some y \<Rightarrow> A y d s s')"

lemma Q_simps [simp]: "Q None d s s' = R d s s'" "Q (Some y) d s s' = A y d s s'"
  by (simp_all add: Q_def)

lemma Q_trans: "R d s1 s2 \<Longrightarrow> Q x d s2 s3 \<Longrightarrow> Q x d s1 s3"
  using R_trans A_trans by (cases x) auto

lemma Q_mono: "Q x (Suc d) s1 s2 \<Longrightarrow> Q x d s1 s2"
  using R_mono A_mono by (cases x) auto

lemma A_here: "A (Failed e) d s s" "A Exhausted d s s"
  using A_ends R_refl by blast+

lemmas kernel_ok = root_ok child_open_ok names_ok lstat_ok fstat_ok ident_ok close_ok

lemma warn_after: "R d s1 s2 \<Longrightarrow> R d s1 (v_Warn (wk_v k) p e s2)"
  using R_trans warn_ok by blast

lemma close_after: "R d s1 s2 \<Longrightarrow> R d s1 (snd (kern (close_dir (wk_fs k) h) s2))"
  by (metis R_trans close_ok prod.collapse)

lemma Q_close: "Q x d s1 s2 \<Longrightarrow> kern (close_dir (wk_fs k) h) s2 = (a1, s3) \<Longrightarrow> Q x d s1 s3"
  using R_trans [OF _ close_ok] A_close by (cases x) auto

lemma mayCrossInto_ok: "mayCrossInto k a b c e s = (x, s') \<Longrightarrow> R d s s'"
  by (auto simp: mayCrossInto_def Let_def R_refl refresh_ok [of d "fst s" "snd s", simplified]
      split: if_splits option.splits)

lemma openChild_ok: "openChild k h n p o1 i s = (x, s') \<Longrightarrow> R d s s'"
proof -
  assume a: "openChild k h n p o1 i s = (x, s')"
  obtain y s1 where 1: "kern (open_child (wk_fs k) h n) s = (y, s1)" by (metis surj_pair)
  note r1 = child_open_ok [OF 1, of d]
  show ?thesis
  proof (cases y)
    case (Inl e)
    with a 1 r1 show ?thesis by (simp add: openChild_def)
  next
    case (Inr c)
    obtain ci s2 where 2: "kern (identity_of (wk_fs k) c) s1 = (ci, s2)" by (metis surj_pair)
    have r2: "R d s s2" using R_trans [OF r1 ident_ok [OF 2]] .
    obtain z s3 where 3: "mayCrossInto k o1 i p ci s2 = (z, s3)" by (metis surj_pair)
    have r3: "R d s s3" using R_trans [OF r2 mayCrossInto_ok [OF 3]] .
    show ?thesis using a 1 2 3 Inr r2 r3 close_after [OF r2, of c] close_after [OF r3, of c]
      by (auto simp: openChild_def split: if_splits prod.splits)
  qed
qed

lemma open_pass_ok: "open_pass k it op s = (x, op', s') \<Longrightarrow> R d s s'"
  by (cases "(k, it, op, s)" rule: open_pass.cases)
    (auto simp: R_refl root_ok split: prod.splits opened.splits intro: openChild_ok root_ok)

lemma close_unused_ok: "Q x d s1 s2 \<Longrightarrow> Q x d s1 (close_unused k op s2)"
  by (auto simp: close_unused_def split: opener.splits option.splits intro: Q_close surjective_pairing)

lemma tell_opened_ok: "item_ok s it \<Longrightarrow> tell_opened k it h s = (x, s') \<Longrightarrow> Q x (it_depth it) s s'"
proof -
  assume it: "item_ok s it" and a: "tell_opened k it h s = (x, s')"
  obtain y s1 where 1: "kern (fstat (wk_fs k) h) s = (y, s1)" by (metis surj_pair)
  show ?thesis
  proof (cases "v_Opened (wk_v k)")
    case None
    with a show ?thesis by (simp add: tell_opened_def R_refl)
  next
    case (Some g)
    show ?thesis
    proof (cases y)
      case (Inl e)
      then show ?thesis using a 1 Some warn_after [OF fstat_ok [OF 1]] by (auto simp: tell_opened_def)
    next
      case (Inr fi)
      with a 1 Some have "g it fi s1 = (x, s')" by (simp add: tell_opened_def)
      from opened_ok [OF item_keep [OF fstat_ok [OF 1] it] Some this] have "Q x (it_depth it) s1 s'" by (cases x) simp_all
      then show ?thesis by (rule Q_trans [OF fstat_ok [OF 1]])
    qed
  qed
qed

definition below :: "'h \<Rightarrow> ('w, 'h) walkItem \<Rightarrow> bool" where
  "below d it \<longleftrightarrow> (\<exists>par name fi held. it = child_item k d par name fi held \<and> \<not> refuses (Protect (wk_opts k)) name)"

lemma walk_R:
  "K = k \<Longrightarrow> item_ok s it \<Longrightarrow> op \<noteq> NoOpener \<longrightarrow> \<not> beyondWalkDepth (it_depth it) \<longrightarrow> pass_ok s it \<Longrightarrow>
     Q (fst (visit K N it op s)) (it_depth it) s (snd (snd (visit K N it op s)))"
  "K = k \<Longrightarrow> item_ok s it \<Longrightarrow> pass_ok s it \<Longrightarrow>
     Q (fst (passes K N it op pass s)) (it_depth it) s (snd (snd (passes K N it op pass s)))"
  "K = k \<Longrightarrow> id_ok s d parentID \<Longrightarrow>
     Q (fst (children K N d it parentOS parentID j s)) (Suc (it_depth it)) s (snd (children K N d it parentOS parentID j s))"
  "K = k \<Longrightarrow> id_ok s d parentID \<Longrightarrow>
     Q (fst (entries K N d it parentOS parentID names s)) (Suc (it_depth it)) s (snd (entries K N d it parentOS parentID names s))"
  "K = k \<Longrightarrow> id_ok s d parentID \<Longrightarrow> below d it \<Longrightarrow>
     Q (fst (directory K N d it parentOS parentID s)) (it_depth it) s (snd (directory K N d it parentOS parentID s))"
proof (induction K N it op s and K N it op pass s and K N d it parentOS parentID j s
    and K N d it parentOS parentID names s and K N d it parentOS parentID s
    rule: visit_passes_children_entries_directory.induct
    [case_names visit passes children entries_Nil entries_Cons directory])
  case (visit K N it op s)
  show ?case
  proof (cases "ctx_err (wk_fs k) (fst s)")
    case (Some e)
    then show ?thesis using visit.prems by (subst (1 2) visit.simps) (simp add: A_here)
  next
    case None
    obtain x s1 where p: "v_Pre (wk_v k) it s = (x, s1)" by (metis surj_pair)
    note pre = pre_ok [OF visit.prems(2) p]
    show ?thesis
    proof (cases x)
      case (Some y)
      then show ?thesis using visit.prems None p pre by (subst (1 2) visit.simps) (auto split: if_splits signal.splits)
    next
      case x: None
      have r: "R (it_depth it) s s1" using pre x by simp
      show ?thesis
      proof (cases "\<not> is_dir_item it \<or> it_mount it \<or> op = NoOpener \<or> beyondWalkDepth (it_depth it)")
        case True
        then show ?thesis using visit.prems None p r x warn_after [OF r] by (subst (1 2) visit.simps) auto
      next
        case False
        then show ?thesis using visit.IH visit.prems None p x Q_trans [OF r] item_keep [OF r visit.prems(2)]
            pass_keep [OF r] by (subst (1 2) visit.simps) auto
      qed
    qed
  qed
next
  case (passes K N it op pass s)
  note K = passes.prems(1) and it = passes.prems(2) and ps = passes.prems(3)
  obtain x op1 s1 where o1: "open_pass k it op s = (x, op1, s1)" by (metis surj_pair)
  note r1 = open_pass_ok [OF o1, of "it_depth it"]
  show ?case
  proof (cases x)
    case (Inl e)
    then show ?thesis using o1 K warn_after [OF r1] unfolding K by (subst (1 2) passes.simps) simp
  next
    case (Inr d)
    obtain t s2 where t: "tell_opened k it d s1 = (t, s2)" by (metis surj_pair)
    note it1 = item_keep [OF r1 it]
    note r2 = Q_trans [OF r1 tell_opened_ok [OF it1 t]]
    show ?thesis
    proof (cases t)
      case (Some y)
      have "A y (it_depth it) s (snd (kern (close_dir (wk_fs k) d) s2))"
        using Q_close [OF r2 surjective_pairing] Some by simp
      then show ?thesis using o1 t K Inr Some unfolding K by (subst (1 2) passes.simps) simp
    next
      case None
      obtain pid s3 where i: "kern (identity_of (wk_fs k) d) s2 = (pid, s3)" by (metis surj_pair)
      obtain sig s4 where c: "children k N d it (os_of (wk_r k) (it_path it)) pid 0 s3 = (sig, s4)" by (metis surj_pair)
      obtain ce s5 where cl: "kern (close_dir (wk_fs k) d) s4 = (ce, s5)" by (metis surj_pair)
      define s6 where "s6 = (case ce of None \<Rightarrow> s5 | Some e \<Rightarrow> v_Warn (wk_v k) (it_path it) e s5)"
      note r3 = R_trans [OF r2 [unfolded None Q_simps] ident_ok [OF i]]
      have "Q sig (Suc (it_depth it)) s3 s4"
        using passes.IH(1) [of "Inr d" "(op1, s1)" d op1 s1 None s2 pid s3] id_known [OF i] o1 t i c K None Inr by simp
      note r4 = Q_trans [OF r3 Q_mono [OF this]]
      note r5 = Q_close [OF r4 cl]
      have r6: "sig = None \<Longrightarrow> R (it_depth it) s s6" using r5 warn_after by (simp add: s6_def split: option.split)
      show ?thesis
      proof (cases "sig \<noteq> None \<or> v_Post (wk_v k) = None")
        case True
        then show ?thesis using o1 t i c cl K None Inr r5 r6
          unfolding K by (subst (1 2) passes.simps) (auto simp: s6_def [symmetric] Let_def)
      next
        case False
        then obtain f where f: "v_Post (wk_v k) = Some f" "sig = None" by auto
        obtain px s7 where px: "f it s6 = (px, s7)" by (metis surj_pair)
        note r6 = r6 [OF f(2)]
        note post = post_ok [OF pass_keep [OF r6 ps] f(1) px]
        show ?thesis
        proof (cases "px = Some RetryDir \<and> Mutating (wk_opts k) \<and> pass < maxDirPasses")
          case True
          have r7: "R (it_depth it) s s7" using R_trans [OF r6] post True by simp
          have "Q (fst (passes k N it op1 (pass + 1) s7)) (it_depth it) s7 (snd (snd (passes k N it op1 (pass + 1) s7)))"
            using passes.IH(2) [unfolded K, of "Inr d" "(op1, s1)" d op1 s1 None s2 pid s3 sig s4 ce s5 s6 f px s7 RetryDir]
              o1 t i c cl K None Inr f px True item_keep [OF r7 it] pass_keep [OF r7 ps] by (simp add: s6_def)
          then show ?thesis using o1 t i c cl K None Inr f px True Q_trans [OF r7]
            unfolding K by (subst (1 2) passes.simps) (simp add: s6_def [symmetric] Let_def)
        next
          case F: False
          have "Q px (it_depth it) s s7" if "px \<noteq> Some RetryDir"
            using Q_trans [OF r6, of px s7] post that by (cases px) simp_all
          moreover have "R (it_depth it) s s7" if "px = Some RetryDir" using R_trans [OF r6] post that by simp
          ultimately show ?thesis using F o1 t i c cl K None Inr f px warn_after
            unfolding K by (subst (1 2) passes.simps) (auto simp: s6_def [symmetric] Let_def split: option.splits)
        qed
      qed
    qed
  qed
next
  case (children K N d it parentOS parentID j s)
  obtain names rend s1 where n: "kern (read_names (wk_fs k) d j) s = ((names, rend), s1)" by (metis surj_pair)
  obtain x s2 where e: "entries k N d it parentOS parentID names s1 = (x, s2)" by (metis surj_pair)
  show ?case
  proof (cases "j \<ge> N")
    case True
    then show ?thesis by (subst (1 2) children.simps) (simp add: A_here)
  next
    case False
    have i1: "id_ok s1 d parentID" by (rule id_keep [OF names_ok [OF n] children.prems(2)])
    have "Q x (Suc (it_depth it)) s1 s2"
      using children.IH(1) [OF False n [symmetric, folded children.prems(1)]] children.prems e i1 by (simp add: n)
    then have r: "Q x (Suc (it_depth it)) s s2" by (rule Q_trans [OF names_ok [OF n]])
    show ?thesis
    proof (cases x)
      case (Some y)
      then show ?thesis using False children.prems n e r by (subst (1 2) children.simps) simp
    next
      case None
      have r': "R (Suc (it_depth it)) s s2" using r None by simp
      show ?thesis using False children.prems n e r' None warn_after [OF r'] children.IH(2) Q_trans [OF r']
          id_keep [OF r' children.prems(2)]
        by (subst (1 2) children.simps) (auto split: read_end.splits)
    qed
  qed
next
  case (entries_Nil K N d it parentOS parentID s)
  then show ?case by (simp add: entries.simps R_refl)
next
  case (entries_Cons K N d it parentOS parentID name names s)
  note K = entries_Cons.prems(1) and id = entries_Cons.prems(2) and IH = entries_Cons.IH [unfolded entries_Cons.prems(1)]
  let ?D = "Suc (it_depth it)" and ?p = "Join (it_path it) [name]"
  let ?refused = "refuses (Protect (wk_opts k)) name"
  let ?tabled = "refusedByTable (mount_table (wk_fs k) (fst s)) (wk_opts k) parentOS name"
  show ?case
  proof (cases "ctx_err (wk_fs k) (fst s) \<noteq> None \<or> ?refused \<or> ?tabled")
    case True
    then consider e where "ctx_err (wk_fs k) (fst s) = Some e" | "ctx_err (wk_fs k) (fst s) = None" "?refused"
      | "ctx_err (wk_fs k) (fst s) = None" "\<not> ?refused" "?tabled" by auto
    then show ?thesis
    proof cases
      case (1 e)
      then show ?thesis unfolding K by (subst (1 2) entries.simps) (simp add: A_here)
    next
      case 2
      show ?thesis using 2 Q_trans [OF warn_ok IH(1) [OF 2(1) refl 2(2) refl id_keep [OF warn_ok id]]] unfolding K by (subst (1 2) entries.simps) simp
    next
      case 3
      show ?thesis using 3 Q_trans [OF warn_ok IH(2) [OF 3(1) refl 3(2,3) refl id_keep [OF warn_ok id]]] unfolding K by (subst (1 2) entries.simps) simp
    qed
  next
    case False
    then have c: "ctx_err (wk_fs k) (fst s) = None" "\<not> ?refused" "\<not> ?tabled" by simp_all
    obtain x s1 where l: "kern (lstat_held (wk_fs k) d name) s = (x, s1)" by (metis surj_pair)
    have r1: "R ?D s s1" by (rule lstat_ok [OF l])
    show ?thesis
    proof (cases x)
      case (Inl e)
      define s2 where "s2 = (if errors_is e FsNotExist then s1 else v_Warn (wk_v k) ?p e s1)"
      have r2: "R ?D s s2" using r1 warn_after [OF r1] by (simp add: s2_def)
      have "Q (fst (entries k N d it parentOS parentID names s2)) ?D s2 (snd (entries k N d it parentOS parentID names s2))"
        using IH(3) [OF c(1) refl c(2,3) l [symmetric] Inl refl id_keep [OF r2 [unfolded s2_def] id]] by (simp add: s2_def)
      then show ?thesis using Inl c l Q_trans [OF r2] unfolding K
        by (subst (1 2) entries.simps) (simp add: Let_def s2_def [symmetric])
    next
      case (Inr b)
      obtain fi held where b: "b = (fi, held)" by (cases b)
      let ?it = "child_item k d it name fi held"
      have ok: "item_ok s1 ?it" using item_child c(2) by blast
      have bl: "below d ?it" using c(2) by (auto simp: below_def)
      have dep: "it_depth ?it = ?D" by (simp add: child_item_def)
      note xb = Inr [unfolded b]
      show ?thesis
      proof (cases "isDir fi")
        case nd: False
        obtain sig op s2 where v: "visit k N ?it NoOpener s1 = (sig, op, s2)" by (metis surj_pair)
        have r2: "Q sig ?D s s2"
          using Q_trans [OF r1] IH(4) [OF c(1) refl c(2,3) l [symmetric] xb refl refl nd refl ok] dep v by simp
        have nx: "sig = None \<Longrightarrow> Q (fst (entries k N d it parentOS parentID names s2)) ?D s2
            (snd (entries k N d it parentOS parentID names s2))"
          using IH(5) [OF c(1) refl c(2,3) l [symmetric] xb refl refl nd v [symmetric] _ refl refl] r2 id_keep [OF _ id] by auto
        show ?thesis using c l xb nd v r2 Q_trans [of ?D s s2, OF _ nx] unfolding K
          by (subst (1 2) entries.simps) (auto simp: Let_def split: option.splits)
      next
        case nd: True
        obtain sig s2 where v: "directory k N d ?it parentOS parentID s1 = (sig, s2)" by (metis surj_pair)
        define s3 where "s3 = (case held of None \<Rightarrow> s2 | Some h \<Rightarrow> snd (kern (close_dir (wk_fs k) h) s2))"
        have r2: "Q sig ?D s s2"
          using Q_trans [OF r1] IH(6) [OF c(1) refl c(2,3) l [symmetric] xb refl refl _ refl id_keep [OF r1 id] bl] nd dep v by simp
        have r3: "Q sig ?D s s3" using r2 Q_close [OF r2 surjective_pairing] by (simp add: s3_def split: option.split)
        have nx: "sig = None \<Longrightarrow> Q (fst (entries k N d it parentOS parentID names s3)) ?D s3
            (snd (entries k N d it parentOS parentID names s3))"
          using IH(7) [OF c(1) refl c(2,3) l [symmetric] xb refl refl _ v [symmetric] s3_def] nd r3 id_keep [OF _ id] by auto
        show ?thesis using c l xb nd v r3 Q_trans [of ?D s s3, OF _ nx] unfolding K
          by (subst (1 2) entries.simps) (auto simp: Let_def s3_def [symmetric] split: option.splits)
      qed
    qed
  qed
next
  case (directory K N d it parentOS parentID s)
  note K = directory.prems(1) and id = directory.prems(2)
  obtain par name fi held where it: "it = child_item k d par name fi held" and nr: "\<not> refuses (Protect (wk_opts k)) name"
    using directory.prems(3) by (auto simp: below_def)
  note IH = directory.IH [unfolded directory.prems(1)]
  have ok: "item_ok s' it" for s' unfolding it by (rule item_child [OF nr])
  let ?D = "it_depth it"
  obtain x s1 where o1: "openChild k d (it_name it) (it_path it) parentOS parentID s = (x, s1)" by (metis surj_pair)
  note r1 = openChild_ok [OF o1, of ?D]
  show ?case
  proof (cases x)
    case (OpenErr e)
    obtain sig op s2 where v: "visit k N it NoOpener s1 = (sig, op, s2)" by (metis surj_pair)
    have r2: "Q sig ?D s s2" using Q_trans [OF r1] IH(1) [OF o1 [symmetric] OpenErr refl ok] v by simp
    show ?thesis using o1 OpenErr v r2 warn_after [of ?D s s2] R_trans [of ?D s s2, OF _ unopened_ok [OF ok]] unfolding K
      by (subst (1 2) directory.simps) (auto split: option.splits)
  next
    case (Boundary sb)
    let ?it = "it\<lparr>it_mount := True, it_searchable := sb\<rparr>"
    obtain sig op s2 where v: "visit k N ?it NoOpener s1 = (sig, op, s2)" by (metis surj_pair)
    have mnt: "item_ok s1 ?it" unfolding it by (rule item_mount [OF nr])
    have "Q sig ?D s s2" using Q_trans [OF r1] IH(2) [OF o1 [symmetric] Boundary refl mnt] v by simp
    then show ?thesis using o1 Boundary v unfolding K by (subst (1 2) directory.simps) simp
  next
    case (Opened h)
    let ?it = "it\<lparr>it_opened := \<not> beyondWalkDepth (it_depth it)\<rparr>"
    obtain sig op s2 where v: "visit k N ?it (ChildOpener (Some h) d parentOS parentID) s1 = (sig, op, s2)" by (metis surj_pair)
    have nm: "it_name it = name" by (simp add: it child_item_def)
    have adm: "item_ok s1 ?it \<and> (\<not> beyondWalkDepth (it_depth it) \<longrightarrow> pass_ok s1 ?it)"
      unfolding it by (rule item_opened [OF nr id]) (use o1 Opened nm it in simp)
    have "Q sig ?D s s2" using Q_trans [OF r1] IH(3) [OF o1 [symmetric] Opened refl] adm v by simp
    then show ?thesis using o1 Opened v close_unused_ok unfolding K by (subst (1 2) directory.simps) simp
  qed
qed

text \<open>The whole walk, for a relation that resolving and describing the root also satisfy.\<close>

lemma WalkTree_Q:
  assumes "\<And>p s x s'. kern (resolve (wk_r k) J p False) s = (x, s') \<Longrightarrow> R 0 s s'"
    and "\<And>p s x s'. kern (stat_at J p) s = (x, s') \<Longrightarrow> R 0 s s'"
    and "\<And>tg fi p s0 s1 s2. Clean apiPath = Inr p \<Longrightarrow> kern (resolve (wk_r k) J p False) (s0 :: 'w \<times> 'v) = (Inr tg, s1) \<Longrightarrow>
      item_ok s2 (root_item k tg fi) \<and> pass_ok s2 (root_item k tg fi)"
    and "WalkTree J k N apiPath s = (x, s')"
  shows "Q x 0 s s'"
proof (cases "Clean apiPath")
  case (Inl e)
  then show ?thesis using assms(4) by (auto simp: WalkTree_def intro: A_here)
next
  case (Inr p)
  show ?thesis
  proof (cases "ctx_err (wk_fs k) (fst s)")
    case (Some e)
    then show ?thesis using assms(4) Inr by (auto simp: WalkTree_def intro: A_here)
  next
    case None
    obtain y s1 where 1: "kern (resolve (wk_r k) J p False) s = (y, s1)" by (metis surj_pair)
    note r1 = assms(1) [OF 1]
    show ?thesis
    proof (cases y)
      case (Inl e)
      then show ?thesis using assms(4) A_ends(1) [OF r1] None \<open>Clean apiPath = Inr p\<close> 1 by (auto simp: WalkTree_def)
    next
      case tg: (Inr tg)
      obtain z s2 where 2: "kern (stat_at J (jp_rel tg)) s1 = (z, s2)" by (metis surj_pair)
      note r2 = R_trans [OF r1 assms(2) [OF 2]]
      show ?thesis
      proof (cases z)
        case (Inl e)
        then show ?thesis using assms(4) A_ends(1) [OF r2] None Inr 1 2 tg by (auto simp: WalkTree_def)
      next
        case fi: (Inr fi)
        have "it_depth (root_item k tg fi) = 0" by (simp add: root_item_def split: prod.split)
        moreover have "Q (fst (visit k N (root_item k tg fi) (RootOpener (jp_rel tg)) s2)) (it_depth (root_item k tg fi)) s2
            (snd (snd (visit k N (root_item k tg fi) (RootOpener (jp_rel tg)) s2)))"
          using walk_R(1) [OF refl] assms(3) [OF \<open>Clean apiPath = Inr p\<close> 1 [unfolded tg]] by blast
        ultimately show ?thesis using assms(4) None Inr 1 2 tg fi Q_trans [OF r2]
          by (auto simp: WalkTree_def split: prod.splits)
      qed
    qed
  qed
qed

end

section \<open>Every walk ends\<close>

text \<open>
  The recursion is bounded by the depth, the passes over a directory by \<open>maxDirPasses\<close> and the entries
  by what one read returns; what is left to the kernel is that a directory stream ends. Where every
  stream ends within \<open>n\<close> reads, fuel above \<open>n\<close> is never used up, whatever the visitor does.
\<close>

definition last_read :: "string list \<times> read_end \<Rightarrow> bool" where
  "last_read x \<longleftrightarrow> fst x = [] \<or> snd x \<noteq> More"

definition streams_end :: "('w, 'h) treefs \<Rightarrow> nat \<Rightarrow> bool" where
  "streams_end fs n \<longleftrightarrow> (\<forall>h j w. n \<le> j \<longrightarrow> last_read (fst (read_names fs h j w)))"

definition hooks_real :: "('w, 'h, 'v) visitor \<Rightarrow> bool" where
  \<comment> \<open>no hook answers with the model's own signal\<close>
  "hooks_real v \<longleftrightarrow>
     (\<forall>it s. fst (v_Pre v it s) \<noteq> Some Exhausted) \<and>
     (\<forall>f it s. v_Post v = Some f \<longrightarrow> fst (f it s) \<noteq> Some Exhausted) \<and>
     (\<forall>g it fi s. v_Opened v = Some g \<longrightarrow> fst (g it fi s) \<noteq> Some Exhausted)"

lemma hooks_realD:
  "hooks_real v \<Longrightarrow> v_Pre v it s = (x, s') \<Longrightarrow> x \<noteq> Some Exhausted"
  "hooks_real v \<Longrightarrow> v_Post v = Some f \<Longrightarrow> f it s = (x, s') \<Longrightarrow> x \<noteq> Some Exhausted"
  "hooks_real v \<Longrightarrow> v_Opened v = Some g \<Longrightarrow> g it fi s = (x, s') \<Longrightarrow> x \<noteq> Some Exhausted"
  unfolding hooks_real_def by (metis fst_conv)+

lemma tell_opened_real: "hooks_real (wk_v k) \<Longrightarrow> tell_opened k it d s = (x, s') \<Longrightarrow> x \<noteq> Some Exhausted"
  by (auto simp: tell_opened_def split: option.splits prod.splits sum.splits dest: hooks_realD(3))

lemma kern_read: "kern (read_names fs d j) s = (x, s') \<Longrightarrow> x = fst (read_names fs d j (fst s))"
  by (auto simp: kern_def split: prod.splits)

lemma walk_real:
  "hooks_real (wk_v k) \<Longrightarrow> streams_end (wk_fs k) n \<Longrightarrow> n < N \<Longrightarrow> fst (visit k N it op s) \<noteq> Some Exhausted"
  "hooks_real (wk_v k) \<Longrightarrow> streams_end (wk_fs k) n \<Longrightarrow> n < N \<Longrightarrow> fst (passes k N it op pass s) \<noteq> Some Exhausted"
  "hooks_real (wk_v k) \<Longrightarrow> streams_end (wk_fs k) n \<Longrightarrow> n < N \<Longrightarrow> j \<le> n \<Longrightarrow>
     fst (children k N d it parentOS parentID j s) \<noteq> Some Exhausted"
  "hooks_real (wk_v k) \<Longrightarrow> streams_end (wk_fs k) n \<Longrightarrow> n < N \<Longrightarrow>
     fst (entries k N d it parentOS parentID names s) \<noteq> Some Exhausted"
  "hooks_real (wk_v k) \<Longrightarrow> streams_end (wk_fs k) n \<Longrightarrow> n < N \<Longrightarrow>
     fst (directory k N d it parentOS parentID s) \<noteq> Some Exhausted"
proof (induction k N it op s and k N it op pass s and k N d it parentOS parentID j s
    and k N d it parentOS parentID names s and k N d it parentOS parentID s
    rule: visit_passes_children_entries_directory.induct
    [case_names visit passes children entries_Nil entries_Cons directory])
  case (visit k N it op s)
  obtain x s1 where p: "v_Pre (wk_v k) it s = (x, s1)" by (metis surj_pair)
  have x: "x \<noteq> Some Exhausted" by (rule hooks_realD(1) [OF visit.prems(1) p])
  show ?case
  proof (cases "ctx_err (wk_fs k) (fst s) = None \<and> x = None \<and> is_dir_item it \<and> \<not> it_mount it \<and> op \<noteq> NoOpener \<and>
      \<not> beyondWalkDepth (it_depth it)")
    case True
    then show ?thesis using visit.IH visit.prems p by (subst visit.simps) auto
  next
    case False
    then show ?thesis using x p by (subst visit.simps) (auto split: option.splits signal.splits)
  qed
next
  case (passes k N it op pass s)
  obtain x op1 s1 where o1: "open_pass k it op s = (x, op1, s1)" by (metis surj_pair)
  show ?case
  proof (cases x)
    case (Inl e)
    then show ?thesis using o1 by (subst passes.simps) simp
  next
    case (Inr d)
    obtain t s2 where t: "tell_opened k it d s1 = (t, s2)" by (metis surj_pair)
    show ?thesis
    proof (cases t)
      case (Some y)
      then show ?thesis using o1 t Inr tell_opened_real [OF passes.prems(1) t] by (subst passes.simps) simp
    next
      case None
      obtain pid s3 where i: "kern (identity_of (wk_fs k) d) s2 = (pid, s3)" by (metis surj_pair)
      obtain sig s4 where c: "children k N d it (os_of (wk_r k) (it_path it)) pid 0 s3 = (sig, s4)" by (metis surj_pair)
      obtain ce s5 where cl: "kern (close_dir (wk_fs k) d) s4 = (ce, s5)" by (metis surj_pair)
      define s6 where "s6 = (case ce of None \<Rightarrow> s5 | Some e \<Rightarrow> v_Warn (wk_v k) (it_path it) e s5)"
      have sig: "sig \<noteq> Some Exhausted"
        using passes.IH(1) [of "Inr d" "(op1, s1)" d op1 s1 None s2 pid s3] passes.prems o1 t i c None Inr by simp
      show ?thesis
      proof (cases "sig \<noteq> None \<or> v_Post (wk_v k) = None")
        case True
        then show ?thesis using o1 t i c cl None Inr sig by (subst passes.simps) (auto simp: s6_def [symmetric] Let_def)
      next
        case False
        then obtain f where f: "v_Post (wk_v k) = Some f" "sig = None" by auto
        obtain px s7 where px: "f it s6 = (px, s7)" by (metis surj_pair)
        note real = hooks_realD(2) [OF passes.prems(1) f(1) px]
        show ?thesis
        proof (cases "px = Some RetryDir \<and> Mutating (wk_opts k) \<and> pass < maxDirPasses")
          case True
          have "fst (passes k N it op1 (pass + 1) s7) \<noteq> Some Exhausted"
            using passes.IH(2) [of "Inr d" "(op1, s1)" d op1 s1 None s2 pid s3 sig s4 ce s5 s6 f px s7 RetryDir]
              passes.prems o1 t i c cl None Inr f px True by (simp add: s6_def)
          then show ?thesis using o1 t i c cl None Inr f px True
            by (subst passes.simps) (simp add: s6_def [symmetric] Let_def)
        next
          case F: False
          then show ?thesis using o1 t i c cl None Inr f px real
            by (subst passes.simps) (auto simp: s6_def [symmetric] Let_def split: option.splits)
        qed
      qed
    qed
  qed
next
  case (children k N d it parentOS parentID j s)
  obtain names rend s1 where n: "kern (read_names (wk_fs k) d j) s = ((names, rend), s1)" by (metis surj_pair)
  obtain x s2 where e: "entries k N d it parentOS parentID names s1 = (x, s2)" by (metis surj_pair)
  have j: "\<not> j \<ge> N" using children.prems by simp
  have x: "x \<noteq> Some Exhausted" using children.IH(1) [OF j n [symmetric] refl] children.prems e by simp
  have more: "rend = More \<Longrightarrow> names \<noteq> [] \<Longrightarrow> j < n"
    using children.prems(2) kern_read [OF n] unfolding streams_end_def last_read_def
    by (metis fst_conv snd_conv not_le_imp_less)
  show ?case using j n e x children.IH(2) [OF j n [symmetric] refl e [symmetric]] children.prems more
    by (subst children.simps) (auto split: option.splits read_end.splits)
next
  case (entries_Nil k N d it parentOS parentID s)
  then show ?case by (simp add: entries.simps)
next
  case (entries_Cons k N d it parentOS parentID name names s)
  let ?refused = "refuses (Protect (wk_opts k)) name"
  let ?tabled = "refusedByTable (mount_table (wk_fs k) (fst s)) (wk_opts k) parentOS name"
  note IH = entries_Cons.IH and pr = entries_Cons.prems
  consider e where "ctx_err (wk_fs k) (fst s) = Some e" | "ctx_err (wk_fs k) (fst s) = None" "?refused"
      | "ctx_err (wk_fs k) (fst s) = None" "\<not> ?refused" "?tabled"
      | "ctx_err (wk_fs k) (fst s) = None" "\<not> ?refused" "\<not> ?tabled" by (meson not_Some_eq)
  then show ?case
  proof cases
    case (1 e)
    then show ?thesis by (subst entries.simps) simp
  next
    case 2
    show ?thesis using 2 IH(1) [OF 2(1) refl 2(2) pr] by (subst entries.simps) simp
  next
    case 3
    show ?thesis using 3 IH(2) [OF 3(1) refl 3(2,3) pr] by (subst entries.simps) simp
  next
    case c: 4
    obtain x s1 where l: "kern (lstat_held (wk_fs k) d name) s = (x, s1)" by (metis surj_pair)
    show ?thesis
    proof (cases x)
      case (Inl e)
      then show ?thesis using IH(3) [OF c(1) refl c(2,3) l [symmetric] Inl pr] c l
        by (subst entries.simps) (simp add: Let_def)
    next
      case (Inr b)
      obtain fi held where b: "b = (fi, held)" by (cases b)
      let ?it = "child_item k d it name fi held"
      note xb = Inr [unfolded b]
      show ?thesis
      proof (cases "isDir fi")
        case nd: False
        obtain sig op s2 where v: "visit k N ?it NoOpener s1 = (sig, op, s2)" by (metis surj_pair)
        show ?thesis using c l xb nd v IH(4) [OF c(1) refl c(2,3) l [symmetric] xb refl refl nd pr]
            IH(5) [OF c(1) refl c(2,3) l [symmetric] xb refl refl nd v [symmetric] _ refl pr]
          by (subst entries.simps) (auto simp: Let_def split: option.splits)
      next
        case nd: True
        obtain sig s2 where v: "directory k N d ?it parentOS parentID s1 = (sig, s2)" by (metis surj_pair)
        define s3 where "s3 = (case held of None \<Rightarrow> s2 | Some h \<Rightarrow> snd (kern (close_dir (wk_fs k) h) s2))"
        show ?thesis using c l xb nd v IH(6) [OF c(1) refl c(2,3) l [symmetric] xb refl refl _ pr]
            IH(7) [OF c(1) refl c(2,3) l [symmetric] xb refl refl _ v [symmetric] s3_def _ pr]
          by (subst entries.simps) (auto simp: Let_def s3_def [symmetric] split: option.splits)
      qed
    qed
  qed
next
  case (directory k N d it parentOS parentID s)
  obtain x s1 where o1: "openChild k d (it_name it) (it_path it) parentOS parentID s = (x, s1)" by (metis surj_pair)
  show ?case using directory.IH(1) [OF o1 [symmetric] _ directory.prems] directory.IH(2) [OF o1 [symmetric] _ directory.prems]
      directory.IH(3) [OF o1 [symmetric] _ directory.prems] o1
    by (subst directory.simps) (auto split: option.splits prod.splits opened.splits)
qed

lemma WalkTree_real:
  assumes "hooks_real (wk_v k)" "streams_end (wk_fs k) n" "n < N"
  shows "fst (WalkTree J k N apiPath s) \<noteq> Some Exhausted"
  using walk_real(1) [OF assms]
  by (auto simp: WalkTree_def split: sum.splits option.splits prod.splits) (metis fst_conv)+

end
