(* ===== verification/Size.thy ===== *)
theory Size
  imports Walk_Facts
begin

section \<open>Counting a tree (internal/fsops/size.go)\<close>

text \<open>
  \<open>scanTrees\<close>, the counting pass behind the folder-size job and in front of every change of a tree,
  and \<open>Size\<close>, the job itself. The visitor's state holds the result, the item counter between two
  clock readings, and what was emitted: the progress values and the warnings' paths and codes.
\<close>

subsection \<open>The result and its counter\<close>

definition MaxInt64 :: int where "MaxInt64 = 2 ^ 63 - 1"
definition scanTimeCheck :: nat where "scanTimeCheck = 128"
definition scanCappedCode :: string where "scanCappedCode = ''capped''"

record scanLimits =
  lim_deadline :: "time option"
  lim_maxEntries :: int

record scanResult =
  sc_files :: int
  sc_dirs :: int
  sc_bytes :: int
  sc_capped :: bool
  sc_incomplete :: bool
  sc_mounts :: int
  sc_network :: int
  sc_rootInfo :: "finfo option"

definition no_scan :: scanResult where
  \<comment> \<open>the zero value\<close>
  "no_scan = \<lparr>sc_files = 0, sc_dirs = 0, sc_bytes = 0, sc_capped = False, sc_incomplete = False,
     sc_mounts = 0, sc_network = 0, sc_rootInfo = None\<rparr>"

definition addBytes :: "int \<Rightarrow> scanResult \<Rightarrow> scanResult option" where
  "addBytes n res =
     (if n < 0 \<or> sc_bytes res > MaxInt64 - n then None else Some (res\<lparr>sc_bytes := sc_bytes res + n\<rparr>))"

text \<open>What an emitter was told: progress as files, bytes and path; warnings as path and code.\<close>

datatype emitted = Prog int int string | Warning string string

record scanState =
  st_res :: scanResult
  st_since :: nat
  st_emit :: "emitted list"

definition warnErr :: "string \<Rightarrow> error \<Rightarrow> emitted" where
  "warnErr apiPath e = Warning apiPath (Code (Some e))"

definition emit_now :: "emitted \<Rightarrow> 'w \<times> scanState \<Rightarrow> 'w \<times> scanState" where
  "emit_now x s = (fst s, (snd s)\<lparr>st_emit := st_emit (snd s) @ [x]\<rparr>)"

definition on_res :: "(scanResult \<Rightarrow> scanResult) \<Rightarrow> 'w \<times> scanState \<Rightarrow> 'w \<times> scanState" where
  "on_res f s = (fst s, (snd s)\<lparr>st_res := f (st_res (snd s))\<rparr>)"

subsection \<open>The visitor\<close>

definition scan_mount :: "('w, 'h) walkItem \<Rightarrow> scanResult \<Rightarrow> scanResult" where
  "scan_mount it res =
     (if \<not> it_mount it then res
      else if it_searchable it then res\<lparr>sc_incomplete := True, sc_mounts := sc_mounts res + 1\<rparr>
      else res\<lparr>sc_incomplete := True\<rparr>)"

definition scan_capped :: "scanResult \<Rightarrow> scanResult" where
  "scan_capped res = res\<lparr>sc_capped := True\<rparr>"

text \<open>After the counting: progress, the bound on entries, and the clock every so many items.\<close>

definition scan_bounds :: "('w \<Rightarrow> time) \<Rightarrow> scanLimits \<Rightarrow> ('w, 'h) walkItem \<Rightarrow> 'w \<times> scanState \<Rightarrow>
    signal option \<times> 'w \<times> scanState" where
  "scan_bounds clock lim it s0 =
     (let res = st_res (snd s0);
          s = emit_now (Prog (sc_files res) (sc_bytes res) (it_path it)) s0
      in if lim_maxEntries lim > 0 \<and> sc_files res + sc_dirs res \<ge> lim_maxEntries lim
           then (Some ScanCapped, on_res scan_capped s)
         else let n = st_since (snd s) + 1; s1 = (fst s, (snd s)\<lparr>st_since := n\<rparr>)
           in case lim_deadline lim of
                None \<Rightarrow> (None, s1)
              | Some dl \<Rightarrow>
                  if n < scanTimeCheck then (None, s1)
                  else let s2 = (fst s, (snd s)\<lparr>st_since := 0\<rparr>)
                    in if clock (fst s2) > dl then (Some ScanCapped, on_res scan_capped s2) else (None, s2))"

definition scan_pre :: "('w \<Rightarrow> time) \<Rightarrow> scanLimits \<Rightarrow> ('w, 'h) walkItem \<Rightarrow> 'w \<times> scanState \<Rightarrow>
    signal option \<times> 'w \<times> scanState" where
  "scan_pre clock lim it s0 =
     (let s = on_res (scan_mount it) s0
      in if is_dir_item it then scan_bounds clock lim it (on_res (\<lambda>r. r\<lparr>sc_dirs := sc_dirs r + 1\<rparr>) s)
         else let s1 = on_res (\<lambda>r. r\<lparr>sc_files := sc_files r + 1\<rparr>) s
           in case addBytes (fsize (it_info it)) (st_res (snd s1)) of
                None \<Rightarrow> (Some ScanCapped, on_res scan_capped s1)
              | Some r \<Rightarrow> scan_bounds clock lim it (on_res (\<lambda>_. r) s1))"

definition scan_opened :: "('w, 'h) walkItem \<Rightarrow> finfo \<Rightarrow> 'w \<times> scanState \<Rightarrow> signal option \<times> 'w \<times> scanState" where
  "scan_opened it fi s =
     (None, if it_depth it = 0 \<and> sc_rootInfo (st_res (snd s)) = None
            then on_res (\<lambda>r. r\<lparr>sc_rootInfo := Some fi\<rparr>) s else s)"

definition scan_warn :: "bool \<Rightarrow> string \<Rightarrow> error \<Rightarrow> 'w \<times> scanState \<Rightarrow> 'w \<times> scanState" where
  "scan_warn quiet apiPath e s0 =
     (let s = on_res (\<lambda>r. r\<lparr>sc_incomplete := True,
                sc_network := (if isMountNotEntered e then sc_network r + 1 else sc_network r)\<rparr>) s0
      in if quiet then s else emit_now (warnErr apiPath e) s)"

definition scan_visitor :: "('w \<Rightarrow> time) \<Rightarrow> scanLimits \<Rightarrow> bool \<Rightarrow> ('w, 'h, scanState) visitor" where
  "scan_visitor clock lim quiet =
     \<lparr>v_Pre = scan_pre clock lim, v_Post = None, v_Opened = Some scan_opened, v_Unopened = None,
      v_Warn = scan_warn quiet\<rparr>"

text \<open>What a worker job runs in: its root, its two kernels and its clock.\<close>

record ('w, 'h) jobEnv =
  je_root :: fsroot
  je_jail :: "'w jailfs"
  je_fs :: "('w, 'h) treefs"
  je_clock :: "'w \<Rightarrow> time"

definition scan_walker :: "('w, 'h) jobEnv \<Rightarrow> walkOptions \<Rightarrow> scanLimits \<Rightarrow> bool \<Rightarrow> ('w, 'h, scanState) walker" where
  "scan_walker e o1 lim quiet =
     \<lparr>wk_r = je_root e, wk_fs = je_fs e, wk_opts = o1, wk_v = scan_visitor (je_clock e) lim quiet\<rparr>"

fun scan_paths :: "('w, 'h) jobEnv \<Rightarrow> walkOptions \<Rightarrow> scanLimits \<Rightarrow> bool \<Rightarrow> nat \<Rightarrow> string list \<Rightarrow> 'w \<times> scanState \<Rightarrow>
    signal option \<times> 'w \<times> scanState" where
  "scan_paths e o1 lim quiet N [] s = (None, s)"
| "scan_paths e o1 lim quiet N (p # ps) s =
     (case ctx_err (je_fs e) (fst s) of
        Some x \<Rightarrow> (Some (Failed x), s)
      | None \<Rightarrow>
          (case WalkTree (je_jail e) (scan_walker e o1 lim quiet) N p s of
             (None, s) \<Rightarrow> scan_paths e o1 lim quiet N ps s
           | (Some Exhausted, s) \<Rightarrow> (Some Exhausted, s)
           | (Some ScanCapped, s) \<Rightarrow> (None, s)
           | (Some x, s) \<Rightarrow>
               (case ctx_err (je_fs e) (fst s) of
                  Some y \<Rightarrow> (Some (Failed y), s)
                | None \<Rightarrow>
                    let s1 = on_res (\<lambda>r. r\<lparr>sc_incomplete := True\<rparr>) s;
                        err = (case x of Failed y \<Rightarrow> y | _ \<Rightarrow> [Opaque ''walk''])
                    in scan_paths e o1 lim quiet N ps (if quiet then s1 else emit_now (warnErr p err) s1))))"

definition scanTrees :: "('w, 'h) jobEnv \<Rightarrow> string list \<Rightarrow> bool \<Rightarrow> bool \<Rightarrow> scanLimits \<Rightarrow> bool \<Rightarrow> protect \<Rightarrow> nat \<Rightarrow>
    'w \<times> emitted list \<Rightarrow> signal option \<times> 'w \<times> scanState" where
  "scanTrees e paths crossMounts readCross lim quiet prot N s =
     scan_paths e \<lparr>CrossMounts = crossMounts, Mutating = False, ReadCrossing = readCross, Protect = prot\<rparr>
       lim quiet N paths (fst s, \<lparr>st_res = no_scan, st_since = 0, st_emit = snd s\<rparr>)"

subsection \<open>The folder-size job\<close>

record sizeOptions =
  so_CrossMounts :: bool
  so_ReadCross :: bool
  so_MaxEntries :: int
  so_MaxDuration :: int

record jobResult =
  jr_Files :: int
  jr_Dirs :: int
  jr_Bytes :: int
  jr_Skipped :: int
  jr_Capped :: bool
  jr_MountsSkipped :: int
  jr_MountsNetwork :: int

definition size_result :: "scanResult \<Rightarrow> jobResult" where
  "size_result r =
     \<lparr>jr_Files = sc_files r, jr_Dirs = sc_dirs r, jr_Bytes = sc_bytes r, jr_Skipped = 0, jr_Capped = sc_capped r,
      jr_MountsSkipped = sc_mounts r, jr_MountsNetwork = sc_network r\<rparr>"

text \<open>The walk's own context: the caller's, or past the deadline a deadline error.\<close>

definition with_deadline :: "('w \<Rightarrow> time) \<Rightarrow> time option \<Rightarrow> ('w, 'h) treefs \<Rightarrow> ('w, 'h) treefs" where
  "with_deadline clock dl fs =
     (case dl of None \<Rightarrow> fs
      | Some t \<Rightarrow> fs\<lparr>ctx_err := (\<lambda>w. case ctx_err fs w of Some e \<Rightarrow> Some e
                                    | None \<Rightarrow> if clock w \<ge> t then Some [CtxDeadline] else None)\<rparr>)"

definition size_limits :: "time \<Rightarrow> sizeOptions \<Rightarrow> scanLimits" where
  "size_limits now o1 =
     \<lparr>lim_deadline = (if so_MaxDuration o1 > 0 then Some (now + so_MaxDuration o1) else None),
      lim_maxEntries = (if so_MaxEntries o1 > 0 then so_MaxEntries o1 else 0)\<rparr>"

definition scan_capped_warning :: emitted where
  "scan_capped_warning = Warning [] scanCappedCode"

definition SizeJob :: "('w, 'h) jobEnv \<Rightarrow> string list \<Rightarrow> sizeOptions \<Rightarrow> nat \<Rightarrow> 'w \<Rightarrow>
    (signal option \<times> jobResult) \<times> 'w \<times> emitted list" where
  "SizeJob e paths o1 N w =
     (let lim = size_limits (je_clock e w) o1;
          fs = with_deadline (je_clock e) (lim_deadline lim) (je_fs e)
      in case scanTrees (e\<lparr>je_fs := fs\<rparr>) paths (so_CrossMounts o1) (so_ReadCross o1) lim False ProtectSnapshots N (w, []) of
           (err, w, st) \<Rightarrow>
             let out = size_result (st_res st); em = st_emit st
             in if err = Some Exhausted then ((err, out), w, em)
                else case ctx_err (je_fs e) w of
                  Some cerr \<Rightarrow>
                    if err \<noteq> None \<or> jr_Capped out then ((Some (Failed cerr), out\<lparr>jr_Capped := False\<rparr>), w, em)
                    else ((None, out), w, em)
                | None \<Rightarrow>
                    if err \<noteq> None \<and> ctx_err fs w \<noteq> None
                      then ((None, out\<lparr>jr_Capped := True\<rparr>), w, em @ [scan_capped_warning])
                    else if err \<noteq> None then ((err, out), w, em)
                    else ((None, out), w, if jr_Capped out then em @ [scan_capped_warning] else em))"

subsection \<open>The totals stay in their range\<close>

definition scan_counts_ok :: "scanResult \<Rightarrow> bool" where
  "scan_counts_ok r \<longleftrightarrow> 0 \<le> sc_files r \<and> 0 \<le> sc_dirs r \<and> 0 \<le> sc_bytes r \<and> sc_bytes r \<le> MaxInt64"

definition below_max :: "scanLimits \<Rightarrow> scanResult \<Rightarrow> bool" where
  "below_max lim r \<longleftrightarrow> (lim_maxEntries lim > 0 \<longrightarrow> sc_files r + sc_dirs r < lim_maxEntries lim)"

definition scan_within :: "scanLimits \<Rightarrow> scanResult \<Rightarrow> bool" where
  "scan_within lim r \<longleftrightarrow> (lim_maxEntries lim > 0 \<longrightarrow> sc_files r + sc_dirs r \<le> lim_maxEntries lim)"

lemmas range_defs = scan_counts_ok_def below_max_def scan_within_def

definition scan_going :: "scanLimits \<Rightarrow> 'w \<times> scanState \<Rightarrow> bool" where
  "scan_going lim s \<longleftrightarrow> scan_counts_ok (st_res (snd s)) \<and> below_max lim (st_res (snd s))"

definition scan_ended :: "scanLimits \<Rightarrow> 'w \<times> scanState \<Rightarrow> bool" where
  "scan_ended lim s \<longleftrightarrow> scan_counts_ok (st_res (snd s)) \<and> scan_within lim (st_res (snd s))"

lemma going_ended: "scan_going lim s \<Longrightarrow> scan_ended lim s"
  by (auto simp: scan_going_def scan_ended_def range_defs)

lemma emit_now_res [simp]: "st_res (snd (emit_now x s)) = st_res (snd s)"
  by (simp add: emit_now_def)

lemma on_res_res [simp]: "st_res (snd (on_res f s)) = f (st_res (snd s))"
  by (simp add: on_res_def)

lemma scan_mount_counts [simp]:
  "sc_files (scan_mount it r) = sc_files r" "sc_dirs (scan_mount it r) = sc_dirs r"
  "sc_bytes (scan_mount it r) = sc_bytes r"
  by (simp_all add: scan_mount_def)

lemma scan_capped_counts [simp]:
  "sc_files (scan_capped r) = sc_files r" "sc_dirs (scan_capped r) = sc_dirs r" "sc_bytes (scan_capped r) = sc_bytes r"
  by (simp_all add: scan_capped_def)

lemma scan_bounds_ok:
  assumes "scan_ended lim s" "scan_bounds clock lim it s = (x, s')"
  shows "(x = None \<and> scan_going lim s') \<or> (x = Some ScanCapped \<and> scan_ended lim s')"
  using assms
  by (auto simp: scan_bounds_def Let_def scan_ended_def scan_going_def range_defs split: if_splits option.splits)

lemma scan_pre_ok:
  assumes "scan_going lim s" "scan_pre clock lim it s = (x, s')"
  shows "(x = None \<and> scan_going lim s') \<or> (x = Some ScanCapped \<and> scan_ended lim s')"
proof -
  let ?m = "on_res (scan_mount it) s"
  let ?d = "on_res (\<lambda>r. r\<lparr>sc_dirs := sc_dirs r + 1\<rparr>) ?m"
  let ?f = "on_res (\<lambda>r. r\<lparr>sc_files := sc_files r + 1\<rparr>) ?m"
  have d: "scan_ended lim ?d" and f: "scan_ended lim ?f"
    using assms(1) by (auto simp: scan_going_def scan_ended_def range_defs)
  have "scan_ended lim (on_res (\<lambda>_. r) ?f)" if "addBytes n (st_res (snd ?f)) = Some r" for r n
    using f that by (auto simp: addBytes_def scan_ended_def range_defs split: if_splits)
  with d f assms(2) show ?thesis
    by (auto simp: scan_pre_def Let_def scan_ended_def range_defs split: if_splits option.splits
        dest!: scan_bounds_ok [rotated])
qed

lemma scan_warn_going: "scan_going lim s \<Longrightarrow> scan_going lim (scan_warn quiet p e s)"
  by (simp add: scan_warn_def Let_def scan_going_def range_defs)

lemma scan_opened_going: "scan_going lim s \<Longrightarrow> scan_going lim (snd (scan_opened it fi s))"
  by (simp add: scan_opened_def scan_going_def range_defs)

lemma scan_kern:
  "kern f s = (a, s') \<Longrightarrow> scan_going lim s' = scan_going lim s"
  "kern f s = (a, s') \<Longrightarrow> scan_ended lim s' = scan_ended lim s"
  by (auto simp: scan_going_def scan_ended_def dest: snd_kern)

lemma scan_walker_parts [simp]:
  "wk_fs (scan_walker e o1 lim quiet) = je_fs e" "wk_r (scan_walker e o1 lim quiet) = je_root e"
  "v_Pre (wk_v (scan_walker e o1 lim quiet)) = scan_pre (je_clock e) lim"
  "v_Post (wk_v (scan_walker e o1 lim quiet)) = None" "v_Unopened (wk_v (scan_walker e o1 lim quiet)) = None"
  "v_Opened (wk_v (scan_walker e o1 lim quiet)) = Some scan_opened"
  "v_Warn (wk_v (scan_walker e o1 lim quiet)) = scan_warn quiet"
  by (simp_all add: scan_walker_def scan_visitor_def)

lemma scan_pre_case:
  "scan_pre clock lim it s = (x, s') \<Longrightarrow>
   (case x of None \<Rightarrow> scan_going lim s \<longrightarrow> scan_going lim s'
    | Some y \<Rightarrow> scan_going lim s \<longrightarrow> (if y = ScanCapped then scan_ended lim s' else scan_going lim s'))"
  using scan_pre_ok [of lim s clock it x s'] by (auto split: option.split)

lemma scan_opened_case:
  "scan_opened it fi s = (x, s') \<Longrightarrow> x = None \<and> (scan_going lim s \<longrightarrow> scan_going lim s')"
  using scan_opened_going [of lim s it fi] by (auto simp: scan_opened_def)

lemma scan_going_world: "scan_going lim (refresh_table fs w, v) = scan_going lim (w, v)"
  by (simp add: scan_going_def)

interpretation scan: walk_relation "scan_walker e o1 lim quiet"
  "\<lambda>d s s'. scan_going lim s \<longrightarrow> scan_going lim s'"
  "\<lambda>y d s s'. scan_going lim s \<longrightarrow> (if y = ScanCapped then scan_ended lim s' else scan_going lim s')"
  "\<lambda>s it. True" "\<lambda>s it. True" "\<lambda>s h i. True"
  for e :: "('w, 'h) jobEnv" and o1 lim quiet
  by unfold_locales (auto simp: scan_kern scan_warn_going scan_going_world split: option.splits if_splits
    dest!: scan_pre_case [of _ lim] scan_opened_case [of _ _ _ _ _ lim])

lemma WalkTree_scan:
  "WalkTree J (scan_walker e o1 lim quiet) N p s = (x, s') \<Longrightarrow> scan_going lim s \<Longrightarrow>
   (case x of None \<Rightarrow> scan_going lim s' | Some y \<Rightarrow> if y = ScanCapped then scan_ended lim s' else scan_going lim s')"
  using scan.WalkTree_Q [of e o1 lim quiet J p N s x s']
  by (cases x) (simp_all add: scan_kern)

lemma scan_paths_ok: "scan_going lim s \<Longrightarrow> scan_ended lim (snd (scan_paths e o1 lim quiet N ps s))"
proof (induction ps arbitrary: s)
  case Nil
  then show ?case by (simp add: going_ended)
next
  case (Cons p ps)
  obtain x s1 where w: "WalkTree (je_jail e) (scan_walker e o1 lim quiet) N p s = (x, s1)" by (metis surj_pair)
  let ?i = "on_res (\<lambda>r. r\<lparr>sc_incomplete := True\<rparr>) s1"
  have i: "scan_going lim s1 \<Longrightarrow> scan_going lim ?i" "scan_going lim s1 \<Longrightarrow> scan_going lim (emit_now y ?i)" for y
    by (simp_all add: scan_going_def range_defs)
  have nx: "scan_going lim s1 \<Longrightarrow>
      scan_ended lim (snd (scan_paths e o1 lim quiet N ps (if quiet then ?i else emit_now y ?i)))" for y
    using Cons.IH i by simp
  show ?case using WalkTree_scan [OF w Cons.prems] Cons.prems
    by (auto simp: w Let_def intro: going_ended Cons.IH nx split: option.splits signal.splits split del: if_split)
qed

lemma scanTrees_ok: "scan_ended lim (snd (scanTrees e paths cm rc lim quiet prot N s))"
  unfolding scanTrees_def
  by (rule scan_paths_ok) (simp add: scan_going_def range_defs no_scan_def MaxInt64_def)

lemma scan_hooks_real: "hooks_real (wk_v (scan_walker e o1 lim quiet))"
  by (auto simp: hooks_real_def scan_pre_def scan_bounds_def scan_opened_def Let_def split: option.splits)

lemma scan_paths_real:
  assumes "streams_end (je_fs e) n" "n < N"
  shows "fst (scan_paths e o1 lim quiet N ps s) \<noteq> Some Exhausted"
proof (induction ps arbitrary: s)
  case (Cons p ps)
  obtain x s1 where w: "WalkTree (je_jail e) (scan_walker e o1 lim quiet) N p s = (x, s1)" by (metis surj_pair)
  have "x \<noteq> Some Exhausted"
    using WalkTree_real [OF scan_hooks_real _ assms(2), of e o1 lim quiet "je_jail e" p s] assms(1) w by simp
  with Cons.IH show ?case by (auto simp: w Let_def split: option.splits signal.splits)
qed simp

lemma with_deadline_reads [simp]: "read_names (with_deadline clock dl fs) = read_names fs"
  by (simp add: with_deadline_def split: option.split)

lemma streams_end_deadline [simp]: "streams_end (with_deadline clock dl fs) n = streams_end fs n"
  by (simp add: streams_end_def)

subsection \<open>Properties\<close>

text \<open>
  C36: a size is never a wrapped number and never ignores its bound. Whatever sizes the kernel
  reports, however often a tree names one file and however the world changes during the walk, a
  folder-size job reports between 0 and the largest int64 bytes, no negative count, and at most
  MaxEntries items where a bound is set.
\<close>

theorem size_in_range:
  "(let out = snd (fst (SizeJob e paths o1 N w))
    in 0 \<le> jr_Bytes out \<and> jr_Bytes out \<le> MaxInt64 \<and> 0 \<le> jr_Files out \<and> 0 \<le> jr_Dirs out \<and>
       (if so_MaxEntries o1 > 0 then jr_Files out + jr_Dirs out \<le> so_MaxEntries o1 else True))"
proof -
  let ?lim = "size_limits (je_clock e w) o1"
  let ?e = "e\<lparr>je_fs := with_deadline (je_clock e) (lim_deadline ?lim) (je_fs e)\<rparr>"
  obtain err w1 st where s: "scanTrees ?e paths (so_CrossMounts o1) (so_ReadCross o1) ?lim False ProtectSnapshots N (w, [])
      = (err, w1, st)" by (metis surj_pair)
  have ok: "scan_ended ?lim (w1, st)"
    using scanTrees_ok [of ?lim ?e paths "so_CrossMounts o1" "so_ReadCross o1" False ProtectSnapshots N "(w, [])"]
    unfolding s by simp
  have "snd (fst (SizeJob e paths o1 N w)) \<in> {size_result (st_res st), (size_result (st_res st))\<lparr>jr_Capped := False\<rparr>,
      (size_result (st_res st))\<lparr>jr_Capped := True\<rparr>}"
    by (auto simp: SizeJob_def Let_def s split: option.splits)
  then show ?thesis using ok
    by (auto simp: size_result_def scan_ended_def range_defs size_limits_def Let_def split: if_splits)
qed

text \<open>
  A folder-size job ends: with fuel above the number of reads any directory stream takes, it answers.
\<close>

lemma size_returns:
  assumes "streams_end (je_fs e) n" "n < N"
  shows "fst (fst (SizeJob e paths o1 N w)) \<noteq> Some Exhausted"
proof -
  let ?lim = "size_limits (je_clock e w) o1"
  let ?e = "e\<lparr>je_fs := with_deadline (je_clock e) (lim_deadline ?lim) (je_fs e)\<rparr>"
  obtain err w1 st where s: "scanTrees ?e paths (so_CrossMounts o1) (so_ReadCross o1) ?lim False ProtectSnapshots N (w, [])
      = (err, w1, st)" by (metis surj_pair)
  have "err \<noteq> Some Exhausted"
    using scan_paths_real [of ?e n N _ ?lim False paths] assms s by (auto simp: scanTrees_def) (metis fst_conv)
  then show ?thesis by (auto simp: SizeJob_def Let_def s split: option.splits)
qed

end
