(* ===== verification/Delete_Tree.thy ===== *)
theory Delete_Tree
  imports Size
begin

section \<open>The recursive delete (internal/fsops/delete_tree.go)\<close>

text \<open>
  \<open>DeleteTree\<close>: the pre-scan that gives the job its denominator, then each selected path, walked and
  unlinked children first. The deleter's state is the visitor's state of the walk: its counters, its
  frames, one per depth, and what it emitted. The byte counter is the 64-bit sum the code keeps.
\<close>

subsection \<open>State and bookkeeping\<close>

definition scanMaxDuration :: int where "scanMaxDuration = 30 * 10 ^ 9"
definition scanMaxEntries :: int where "scanMaxEntries = 500000"
definition maxDirAttempts :: nat where "maxDirAttempts = 16"

record dirFrame =
  fr_removed :: nat
  fr_attempts :: nat

record treeDeleter =
  d_files :: int
  d_dirs :: int
  d_bytes :: "64 word"
  d_skipped :: int
  d_filesTotal :: int
  d_bytesTotal :: int
  d_frames :: "dirFrame list"
  d_emit :: "emitted list"

record deleteOptions =
  do_Recursive :: bool
  do_CrossMounts :: bool

definition grown :: "nat \<Rightarrow> dirFrame list \<Rightarrow> dirFrame list" where
  "grown depth fs = fs @ replicate (Suc depth - length fs) \<lparr>fr_removed = 0, fr_attempts = 0\<rparr>"

definition frame :: "nat \<Rightarrow> treeDeleter \<Rightarrow> dirFrame" where
  "frame depth d = grown depth (d_frames d) ! depth"

definition set_frame :: "nat \<Rightarrow> dirFrame \<Rightarrow> treeDeleter \<Rightarrow> treeDeleter" where
  "set_frame depth f d = d\<lparr>d_frames := (grown depth (d_frames d))[depth := f]\<rparr>"

definition d_tell :: "emitted \<Rightarrow> treeDeleter \<Rightarrow> treeDeleter" where
  "d_tell x d = d\<lparr>d_emit := d_emit d @ [x]\<rparr>"

definition d_progress :: "string \<Rightarrow> treeDeleter \<Rightarrow> treeDeleter" where
  "d_progress apiPath d = d_tell (Prog (d_files d + d_dirs d) (sint (d_bytes d)) apiPath) d"

definition d_refuse :: "string \<Rightarrow> error \<Rightarrow> treeDeleter \<Rightarrow> treeDeleter" where
  "d_refuse apiPath e d = (d_tell (warnErr apiPath e) d)\<lparr>d_skipped := d_skipped d + 1\<rparr>"

definition d_notEmpty :: "string \<Rightarrow> treeDeleter \<Rightarrow> treeDeleter" where
  "d_notEmpty apiPath d = (d_tell (Warning apiPath ''not_empty'') d)\<lparr>d_skipped := d_skipped d + 1\<rparr>"

definition isNotEmpty :: "error \<Rightarrow> bool" where
  "isNotEmpty e \<longleftrightarrow> errors_is e (Sys ENOTEMPTY) \<or> errors_is e FsExist"

definition d_removed :: "string \<Rightarrow> finfo \<Rightarrow> error option \<Rightarrow> treeDeleter \<Rightarrow> treeDeleter" where
  "d_removed apiPath fi err d =
     (case err of
        None \<Rightarrow>
          d_progress apiPath
            (if isDir fi then d\<lparr>d_dirs := d_dirs d + 1\<rparr>
             else d\<lparr>d_files := d_files d + 1, d_bytes := d_bytes d + word_of_int (fsize fi)\<rparr>)
      | Some e \<Rightarrow> if errors_is e FsNotExist then d else d_refuse apiPath e d)"

definition bump_removed :: "nat \<Rightarrow> treeDeleter \<Rightarrow> treeDeleter" where
  \<comment> \<open>the pass over the parent of an item at this depth made progress\<close>
  "bump_removed depth d =
     (if depth = 0 then d
      else let f = frame (depth - 1) d in set_frame (depth - 1) (f\<lparr>fr_removed := fr_removed f + 1\<rparr>) d)"

subsection \<open>The visitor\<close>

definition del_pre :: "('w, 'h) walkItem \<Rightarrow> 'w \<times> treeDeleter \<Rightarrow> signal option \<times> 'w \<times> treeDeleter" where
  "del_pre it s =
     (if it_mount it then (Some SkipDir, fst s, d_refuse (it_path it) [Own ErrProtected] (snd s))
      else if is_dir_item it then
        (None, fst s, set_frame (it_depth it) \<lparr>fr_removed = 0, fr_attempts = 0\<rparr> (snd s))
      else case it_remove it False (fst s) of
             (err, w) \<Rightarrow>
               (None, w, d_removed (it_path it) (it_info it) err
                  (if err = None then bump_removed (it_depth it) (snd s) else snd s)))"

definition del_post :: "('w, 'h) walkItem \<Rightarrow> 'w \<times> treeDeleter \<Rightarrow> signal option \<times> 'w \<times> treeDeleter" where
  "del_post it s =
     (case it_remove it True (fst s) of
        (None, w) \<Rightarrow>
          (None, w, d_progress (it_path it) (bump_removed (it_depth it) ((snd s)\<lparr>d_dirs := d_dirs (snd s) + 1\<rparr>)))
      | (Some e, w) \<Rightarrow>
          if isNotEmpty e then
            (let f = frame (it_depth it) (snd s)
             in if fr_removed f > 0 \<and> fr_attempts f < maxDirAttempts then
                  (Some RetryDir, w, set_frame (it_depth it) \<lparr>fr_removed = 0, fr_attempts = fr_attempts f + 1\<rparr> (snd s))
                else (None, w, d_notEmpty (it_path it) (snd s)))
          else (None, w, d_refuse (it_path it) e (snd s)))"

definition del_warn :: "string \<Rightarrow> error \<Rightarrow> 'w \<times> treeDeleter \<Rightarrow> 'w \<times> treeDeleter" where
  "del_warn apiPath e s = (fst s, d_refuse apiPath e (snd s))"

definition del_visitor :: "('w, 'h, treeDeleter) visitor" where
  "del_visitor =
     \<lparr>v_Pre = del_pre, v_Post = Some del_post, v_Opened = None, v_Unopened = None, v_Warn = del_warn\<rparr>"

definition del_walker :: "('w, 'h) jobEnv \<Rightarrow> bool \<Rightarrow> ('w, 'h, treeDeleter) walker" where
  "del_walker e crossMounts =
     \<lparr>wk_r = je_root e, wk_fs = je_fs e,
      wk_opts = \<lparr>CrossMounts = crossMounts, Mutating = True, ReadCrossing = False, Protect = ProtectWrite\<rparr>,
      wk_v = del_visitor\<rparr>"

subsection \<open>One selected path\<close>

text \<open>\<open>crossesDevice\<close> and \<open>mountPointAt\<close> of fsops.go.\<close>

definition crossesDevice :: "('w, 'h) jobEnv \<Rightarrow> jailPath \<Rightarrow> finfo \<Rightarrow> 'w \<Rightarrow> bool \<times> 'w" where
  "crossesDevice e tg fi w =
     (if jp_rel tg = ''.'' \<or> jp_rel tg = [] then (\<not> Jailed (je_root e), w)
      else case fdev fi of
             None \<Rightarrow> (False, w)
           | Some self \<Rightarrow>
               (case stat_at (je_jail e) (path_dir (jp_rel tg)) w of
                  (Inl _, w) \<Rightarrow> (False, w)
                | (Inr pfi, w) \<Rightarrow> (case fdev pfi of None \<Rightarrow> (False, w) | Some up \<Rightarrow> (self \<noteq> up, w))))"

definition mountPointAt :: "('w, 'h) jobEnv \<Rightarrow> jailPath \<Rightarrow> finfo \<Rightarrow> 'w \<Rightarrow> bool \<times> 'w" where
  "mountPointAt e tg fi w =
     (case mount_table (je_fs e) w of
        None \<Rightarrow> (False, w)
      | Some (now, p) \<Rightarrow>
          if os_of (je_root e) (jp_api tg) \<noteq> [] \<and> IsMountPointByTable p (os_of (je_root e) (jp_api tg)) then (True, w)
          else crossesDevice e tg fi w)"

definition on_del :: "(treeDeleter \<Rightarrow> treeDeleter) \<Rightarrow> 'w \<times> treeDeleter \<Rightarrow> 'w \<times> treeDeleter" where
  "on_del f s = (fst s, f (snd s))"

definition delete_found :: "('w, 'h) jobEnv \<Rightarrow> deleteOptions \<Rightarrow> nat \<Rightarrow> jailPath \<Rightarrow> finfo \<Rightarrow> 'w \<times> treeDeleter \<Rightarrow>
    signal option \<times> 'w \<times> treeDeleter" where
  \<comment> \<open>what happens once the path is resolved, described and no mount point\<close>
  "delete_found e o1 N tg fi s =
     (case splitFinal (jp_rel tg) of
        (parentRel, name) \<Rightarrow>
          if jp_rel tg = ''.'' \<or> jp_rel tg = [] \<or> name = [] then
            (None, on_del (d_refuse (jp_api tg) [Own ErrBadName]) s)
          else if \<not> isDir fi then
            (case kern (unlink_at (je_fs e) parentRel name False) s of
               (err, s) \<Rightarrow> (None, on_del (d_removed (jp_api tg) fi err) s))
          else if \<not> do_Recursive o1 then
            (case kern (unlink_at (je_fs e) parentRel name True) s of
               (err, s) \<Rightarrow>
                 (None, on_del (if (case err of Some x \<Rightarrow> isNotEmpty x | None \<Rightarrow> False) then d_notEmpty (jp_api tg)
                                else d_removed (jp_api tg) fi err) s))
          else WalkTree (je_jail e) (del_walker e (do_CrossMounts o1)) N (jp_api tg) s)"

definition delete_one :: "('w, 'h) jobEnv \<Rightarrow> deleteOptions \<Rightarrow> nat \<Rightarrow> string \<Rightarrow> 'w \<times> treeDeleter \<Rightarrow>
    signal option \<times> 'w \<times> treeDeleter" where
  "delete_one e o1 N p s =
     (case Clean p of
        Inl x \<Rightarrow> (None, on_del (d_refuse p [Own x]) s)
      | Inr cleaned \<Rightarrow>
          if neverWritePath cleaned then (None, on_del (d_refuse cleaned [Own ErrProtected]) s)
          else
            (case kern (resolve (je_root e) (je_jail e) cleaned False) s of
               (Inl x, s) \<Rightarrow> (None, on_del (d_refuse cleaned x) s)
             | (Inr tg, s) \<Rightarrow>
                 (case kern (stat_at (je_jail e) (jp_rel tg)) s of
                    (Inl x, s) \<Rightarrow> (None, on_del (d_refuse cleaned x) s)
                  | (Inr fi, s) \<Rightarrow>
                      (case kern (mountPointAt e tg fi) s of
                         (True, s) \<Rightarrow> (None, on_del (d_refuse (jp_api tg) [Own ErrProtected]) s)
                       | (False, s) \<Rightarrow> delete_found e o1 N tg fi s))))"

fun delete_paths :: "('w, 'h) jobEnv \<Rightarrow> deleteOptions \<Rightarrow> nat \<Rightarrow> string list \<Rightarrow> 'w \<times> treeDeleter \<Rightarrow>
    signal option \<times> 'w \<times> treeDeleter" where
  "delete_paths e o1 N [] s = (None, s)"
| "delete_paths e o1 N (p # ps) s =
     (case ctx_err (je_fs e) (fst s) of
        Some x \<Rightarrow> (Some (Failed x), s)
      | None \<Rightarrow>
          (case delete_one e o1 N p s of
             (Some x, s) \<Rightarrow> (Some x, s)
           | (None, s) \<Rightarrow> delete_paths e o1 N ps s))"

definition new_deleter :: treeDeleter where
  "new_deleter = \<lparr>d_files = 0, d_dirs = 0, d_bytes = 0, d_skipped = 0, d_filesTotal = -1, d_bytesTotal = -1,
     d_frames = [], d_emit = []\<rparr>"

text \<open>The pre-scan: the totals, or the one warning that says why there are none.\<close>

definition del_scan :: "('w, 'h) jobEnv \<Rightarrow> string list \<Rightarrow> deleteOptions \<Rightarrow> nat \<Rightarrow> 'w \<Rightarrow> signal option \<times> 'w \<times> treeDeleter" where
  "del_scan e paths o1 N w =
     (if \<not> do_Recursive o1 then (None, w, new_deleter)
      else
        case scanTrees e paths (do_CrossMounts o1) False
          \<lparr>lim_deadline = Some (je_clock e w + scanMaxDuration), lim_maxEntries = scanMaxEntries\<rparr> True ProtectWrite N (w, []) of
          (err, w, st) \<Rightarrow>
            let d = new_deleter\<lparr>d_emit := st_emit st\<rparr>; r = st_res st
            in if err \<noteq> None then (err, w, d)
               else (None, w, if \<not> sc_capped r then d\<lparr>d_filesTotal := sc_files r + sc_dirs r, d_bytesTotal := sc_bytes r\<rparr>
                              else d_tell scan_capped_warning d))"

definition DeleteTree :: "('w, 'h) jobEnv \<Rightarrow> string list \<Rightarrow> deleteOptions \<Rightarrow> nat \<Rightarrow> 'w \<Rightarrow> signal option \<times> 'w \<times> treeDeleter" where
  "DeleteTree e paths o1 N w =
     (case del_scan e paths o1 N w of
        (Some x, s) \<Rightarrow> (Some x, s)
      | (None, s) \<Rightarrow> delete_paths e o1 N paths s)"

end
