(* ===== verification/Resolve_Last.thy ===== *)
theory Resolve_Last
  imports Resolve Walk
begin

section \<open>Where a resolution ends (internal/fsops/fsops.go)\<close>

text \<open>
  With \<open>followFinal\<close> off the last component is never followed: whatever the kernel answers, the
  name an operation ends up with is the last component of the request. This is what makes a check
  of the requested name a check of the name that is unlinked.
\<close>

lemma resolve_loop_last:
  "resolve_loop r K fin dn rest hops blocked w = (Inr jp, w') \<Longrightarrow> \<not> fin \<Longrightarrow> rest \<noteq> [] \<Longrightarrow> plain (last rest) \<Longrightarrow>
   list_all plain dn \<Longrightarrow> list_all good_part rest \<Longrightarrow>
   \<exists>cs. list_all plain cs \<and> jp = \<lparr>jp_rel = relOf (cs @ [last rest]), jp_api = apiOf (cs @ [last rest])\<rparr>"
proof (induction r K fin dn rest hops blocked w rule: resolve_loop.induct [case_names finished step])
  case (finished r K fin dn hops blocked w)
  then show ?case by simp
next
  case (step r K fin dn part rest hops blocked w)
  have drop_last: "list_all plain (butlast dn)" using step.prems(5) by (auto simp: list_all_iff dest: in_set_butlastD)
  have g: "good_part part" "list_all good_part rest" using step.prems(6) by simp_all
  show ?case
  proof (cases "rest = []")
    case True
    then have "plain part" using step.prems(4) by simp
    then show ?thesis using step.prems True plain_not [of part] by auto
  next
    case ne: False
    then have lst: "last (part # rest) = last rest" by simp
    note prems = step.prems [unfolded lst]
    consider "part = []" | "part = ''.''" | "part = dirMark" | "part = ''..''" | "plain part" using g good_plain by blast
    then show ?thesis
    proof cases
      case 1
      then show ?thesis using step.IH(1) prems ne g by (simp add: lst)
    next
      case 2
      then show ?thesis using step.IH(2) prems ne g by (auto simp: lst split: option.splits prod.splits)
    next
      case 3
      then show ?thesis using step.IH(3) prems ne g by (auto simp: lst dirMark_def split: option.splits)
    next
      case 4
      have q: "part \<noteq> []" "part \<noteq> ''.''" "part \<noteq> dirMark" using 4 by (simp_all add: dirMark_def)
      have b: "blocked = None" using prems(1) 4 by (auto simp: dirMark_def split: option.splits)
      show ?thesis
      proof (cases "dn = []")
        case True
        then have nj: "\<not> Jailed r" using prems(1) 4 b by (auto simp: dirMark_def split: if_splits)
        then show ?thesis using step.IH(4) [OF q 4 b True nj] prems(1-4) True ne g 4 b by (auto simp: lst dirMark_def)
      next
        case False
        obtain a v where t: "traverse_at K (relOf dn) w = (a, v)" by (metis surj_pair)
        then have "a = None" using prems(1) 4 b False by (cases a) (auto simp: dirMark_def)
        then show ?thesis using step.IH(5) [OF q 4 b False t [symmetric] _] prems(1-4) False ne g 4 b t drop_last
          by (auto simp: lst dirMark_def)
      qed
    next
      case 5
      note nn = plain_not [OF 5]
      have nf: "\<not> (rest = [] \<and> \<not> fin)" using ne by simp
      let ?c = "relJoin (relOf dn) part"
      obtain x v where x: "stat_at K ?c w = (x, v)" by (metis surj_pair)
      show ?thesis
      proof (cases x)
        case (Inl e)
        then show ?thesis using step.IH(7) [OF nn nf refl x [symmetric] Inl] prems ne g 5 x
          by (simp add: nn Let_def lst)
      next
        case (Inr fi)
        show ?thesis
        proof (cases "ftype fi \<noteq> Symlink")
          case True
          then show ?thesis using step.IH(8) [OF nn nf refl x [symmetric] Inr True] prems ne g 5 x Inr
            by (simp add: nn Let_def lst)
        next
          case sy: False
          then have h: "\<not> hops + 1 > maxLinkHops" using prems(1) Inr x ne by (auto simp: nn Let_def split: if_splits)
          obtain y u where y: "readlink_at K ?c v = (y, u)" by (metis surj_pair)
          obtain link where link: "y = Inr link" using prems(1) Inr x ne sy h y by (cases y) (auto simp: nn Let_def)
          obtain ps ab where lp: "linkParts r link = Inr (ps, ab)"
            using prems(1) Inr x ne sy h y link by (cases "linkParts r link") (auto simp: nn Let_def)
          have "list_all good_part (ps @ rest)" using linkParts_good [OF lp] g by simp
          moreover have "list_all plain (if ab then [] else dn)" using prems(5) by simp
          ultimately show ?thesis
            using step.IH(9) [OF nn nf refl x [symmetric] Inr sy h y [symmetric] link lp refl] prems(1-4) ne x Inr sy h y link lp
            by (simp add: nn Let_def lst)
        qed
      qed
    qed
  qed
qed

lemma takeWhile_last:
  assumes "list_all plain (cs @ [c])"
  shows "takeWhile (\<lambda>x. x \<noteq> CHR ''/'') (rev (join_with CHR ''/'' (cs @ [c]))) = rev c"
proof -
  have c: "CHR ''/'' \<notin> set c" using assms by (simp add: plain_def)
  have "cs \<noteq> [] \<Longrightarrow> join_with CHR ''/'' (cs @ [c]) = join_with CHR ''/'' cs @ CHR ''/'' # c"
    by (induction "CHR ''/''" cs rule: join_with.induct) auto
  then show ?thesis using c by (cases "cs = []") (auto simp: takeWhile_tail)
qed

lemma splitFinal_last: "list_all plain (cs @ [c]) \<Longrightarrow> snd (splitFinal (relOf (cs @ [c]))) = c"
proof (cases "cs = []")
  case True
  moreover assume "list_all plain (cs @ [c])"
  ultimately show ?thesis by (simp add: splitFinal_def relOf_def plain_def)
next
  case False
  assume p: "list_all plain (cs @ [c])"
  have "join_with CHR ''/'' (cs @ [c]) = join_with CHR ''/'' cs @ CHR ''/'' # c"
    using False by (induction "CHR ''/''" cs rule: join_with.induct) auto
  then have "CHR ''/'' \<in> set (join_with CHR ''/'' (cs @ [c]))" by simp
  then show ?thesis using takeWhile_last [OF p] by (simp add: splitFinal_def relOf_def Let_def)
qed

text \<open>The never-write test of a path is the one of its components.\<close>

lemma refuses_loop_iff:
  "CHR ''/'' \<notin> set cur \<Longrightarrow>
   refuses_loop p cur s \<longleftrightarrow> (\<exists>c \<in> set (split_on CHR ''/'' (cur @ s)). c \<noteq> [] \<and> refuses p c)"
proof (induction p cur s rule: refuses_loop.induct)
  case (1 p cur)
  then show ?case by (simp add: split_on_id)
next
  case (2 p cur c s)
  then show ?case by (auto simp: split_on_append split_on_append2 split_on_id)
qed

lemma refusesPath_comps: "refusesPath p path \<longleftrightarrow> (\<exists>c \<in> set (comps path). refuses p c)"
  by (auto simp: refusesPath_def refuses_loop_iff comps_def)

lemma Clean_cleanAPI: "Clean p = Inr q \<Longrightarrow> cleanAPI q = q \<and> splitRel (Rel q) = comps q \<and> list_all plain (comps q)"
proof -
  assume c: "Clean p = Inr q"
  then have q: "clean_path q" by (rule Clean_clean_path)
  then have r: "q = render (comps q)" "list_all plain (comps q)" by (auto simp: list_all_iff elim: clean_pathE dest: valid_plain)
  have hp: "has_prefix q ''/''" using r(1) has_prefix_render [of "comps q"] by simp
  have "cleanAPI q = q" using cleanAPI_rooted [OF hp] path_clean_id [OF q] by simp
  moreover from this have "splitRel (Rel q) = comps q"
    using Rel_relOf [of q "comps q"] splitRel_relOf [OF r(2)] r by simp
  ultimately show ?thesis using r by simp
qed

text \<open>Where a path with components resolves to: some directory, and the literal last component.\<close>

lemma resolve_final:
  assumes "resolve r K q False w = (Inr jp, w')" "Clean p = Inr q" "comps q \<noteq> []"
  shows "\<exists>cs. list_all plain cs \<and> jp = \<lparr>jp_rel = relOf (cs @ [last (comps q)]), jp_api = apiOf (cs @ [last (comps q)])\<rparr>"
proof -
  from assms(1) obtain v where "resolve_loop r K False [] (splitRel (Rel q)) 0 None v = (Inr jp, w')"
    by (auto simp: resolve_def split: prod.splits option.splits)
  moreover have "list_all good_part (comps q)" "plain (last (comps q))" "splitRel (Rel q) = comps q"
    using Clean_cleanAPI [OF assms(2)] assms(3) by (auto simp: list_all_iff good_part_def plain_def)
  ultimately show ?thesis using resolve_loop_last [of r K False "[]" "comps q" 0 None v jp w'] assms(3) by simp
qed

end
