(* ===== verification/Delete_Facts.thy ===== *)
theory Delete_Facts
  imports Delete_Tree Resolve_Last
begin

section \<open>What a recursive delete does to the disk\<close>

text \<open>
  The kernel of a job is wrapped so that its world also holds the calls that matter: which directory
  was opened from which, what mount the kernel named for a descriptor, and every unlink with its
  outcome. Statements about that log are statements about what the code asks of the kernel.
\<close>

subsection \<open>The log\<close>

datatype 'h ucall =
    UOpen 'h string 'h
  | UIdent 'h mountIdentity
  | UUnlink 'h string bool bool
  | URoot string string bool bool

definition lift_op :: "('w \<Rightarrow> 'a \<times> 'w) \<Rightarrow> 'w \<times> 'c \<Rightarrow> 'a \<times> 'w \<times> 'c" where
  "lift_op f s = (case f (fst s) of (a, w) \<Rightarrow> (a, w, snd s))"

definition log_op :: "('w \<Rightarrow> 'a \<times> 'w) \<Rightarrow> ('a \<Rightarrow> 'c list) \<Rightarrow> 'w \<times> 'c list \<Rightarrow> 'a \<times> 'w \<times> 'c list" where
  "log_op f g s = (case f (fst s) of (a, w) \<Rightarrow> (a, w, snd s @ g a))"

definition logged_jail :: "'w jailfs \<Rightarrow> ('w \<times> 'c) jailfs" where
  "logged_jail J =
     \<lparr>open_jail = lift_op (open_jail J), stat_at = (\<lambda>p. lift_op (stat_at J p)),
      readlink_at = (\<lambda>p. lift_op (readlink_at J p)), traverse_at = (\<lambda>p. lift_op (traverse_at J p))\<rparr>"

definition logged_fs :: "('w, 'h) treefs \<Rightarrow> ('w \<times> 'h ucall list, 'h) treefs" where
  "logged_fs fs =
     \<lparr>ctx_err = (\<lambda>s. ctx_err fs (fst s)), mount_table = (\<lambda>s. mount_table fs (fst s)),
      refresh_table = (\<lambda>s. (refresh_table fs (fst s), snd s)),
      open_root = (\<lambda>p. lift_op (open_root fs p)),
      open_child = (\<lambda>h n. log_op (open_child fs h n) (\<lambda>a. case a of Inl _ \<Rightarrow> [] | Inr c \<Rightarrow> [UOpen h n c])),
      read_names = (\<lambda>h j. lift_op (read_names fs h j)),
      lstat_held = (\<lambda>h n. lift_op (lstat_held fs h n)),
      unlink_in = (\<lambda>h n dir. log_op (unlink_in fs h n dir) (\<lambda>a. [UUnlink h n dir (a = None)])),
      unlink_at = (\<lambda>p n dir. log_op (unlink_at fs p n dir) (\<lambda>a. [URoot p n dir (a = None)])),
      fstat = (\<lambda>h. lift_op (fstat fs h)),
      identity_of = (\<lambda>h. log_op (identity_of fs h) (\<lambda>i. [UIdent h i])),
      close_dir = (\<lambda>h. lift_op (close_dir fs h))\<rparr>"

definition logged_env :: "('w, 'h) jobEnv \<Rightarrow> ('w \<times> 'h ucall list, 'h) jobEnv" where
  "logged_env e =
     \<lparr>je_root = je_root e, je_jail = logged_jail (je_jail e), je_fs = logged_fs (je_fs e),
      je_clock = (\<lambda>s. je_clock e (fst s))\<rparr>"

definition log_of :: "('w \<times> 'c) \<times> 'v \<Rightarrow> 'c" where
  "log_of s = snd (fst s)"

lemma kern_lift: "kern (lift_op f) s = (a, s') \<Longrightarrow> log_of s' = log_of s \<and> snd s' = snd s"
  by (auto simp: kern_def lift_op_def log_of_def split: prod.splits)

lemma kern_log: "kern (log_op f g) s = (a, s') \<Longrightarrow> log_of s' = log_of s @ g a \<and> snd s' = snd s"
  by (auto simp: kern_def log_op_def log_of_def split: prod.splits)

subsection \<open>What every entry of the log satisfies\<close>

definition same_mount :: "'h ucall list \<Rightarrow> 'h \<Rightarrow> string \<Rightarrow> bool" where
  "same_mount log h n \<longleftrightarrow>
     (\<exists>c i j. UOpen h n c \<in> set log \<and> UIdent h i \<in> set log \<and> UIdent c j \<in> set log \<and>
        mi_mnt j = mi_mnt i \<and> mi_mnt i \<noteq> None)"

fun justified :: "bool \<Rightarrow> 'h ucall list \<Rightarrow> 'h ucall \<Rightarrow> bool" where
  "justified cm log (UUnlink h n dir done') =
     (\<not> refuses ProtectWrite n \<and> (if dir \<and> \<not> cm then same_mount log h n else True))"
| "justified cm log (URoot p n dir done') = (\<not> refuses ProtectWrite n)"
| "justified cm log (UOpen h n c) = True"
| "justified cm log (UIdent h i) = True"

definition log_ok :: "bool \<Rightarrow> 'h ucall list \<Rightarrow> bool" where
  "log_ok cm log \<longleftrightarrow> (\<forall>x \<in> set log. justified cm log x)"

fun unlinked :: "bool \<Rightarrow> 'h ucall \<Rightarrow> bool" where
  "unlinked dir (UUnlink h n d done') = (done' \<and> d = dir)"
| "unlinked dir (URoot p n d done') = (done' \<and> d = dir)"
| "unlinked dir x = False"

definition removals :: "bool \<Rightarrow> 'h ucall list \<Rightarrow> int" where
  "removals dir log = int (length (filter (unlinked dir) log))"

fun is_warning :: "emitted \<Rightarrow> bool" where
  "is_warning (Warning p c) = True"
| "is_warning (Prog f b p) = False"

definition warnings :: "emitted list \<Rightarrow> int" where
  "warnings em = int (length (filter is_warning em))"

definition booked :: "int \<Rightarrow> 'h ucall list \<Rightarrow> treeDeleter \<Rightarrow> bool" where
  "booked c log d \<longleftrightarrow>
     d_files d = removals False log \<and> d_dirs d = removals True log \<and> d_skipped d + c = warnings (d_emit d)"

definition del_inv :: "bool \<Rightarrow> int \<Rightarrow> ('w \<times> 'h ucall list) \<times> treeDeleter \<Rightarrow> bool" where
  "del_inv cm c s \<longleftrightarrow> log_ok cm (log_of s) \<and> booked c (log_of s) (snd s)"

definition del_rel :: "bool \<Rightarrow> int \<Rightarrow> ('w \<times> 'h ucall list) \<times> treeDeleter \<Rightarrow> ('w \<times> 'h ucall list) \<times> treeDeleter \<Rightarrow> bool" where
  "del_rel cm c s s' \<longleftrightarrow> set (log_of s) \<subseteq> set (log_of s') \<and> (del_inv cm c s \<longrightarrow> del_inv cm c s')"

lemma same_mount_mono: "same_mount l h n \<Longrightarrow> set l \<subseteq> set l' \<Longrightarrow> same_mount l' h n"
  unfolding same_mount_def by blast

lemma justified_mono: "justified cm l x \<Longrightarrow> set l \<subseteq> set l' \<Longrightarrow> justified cm l' x"
  by (cases x) (auto intro: same_mount_mono)

lemma log_ok_append:
  assumes "log_ok cm l" "\<And>x. x \<in> set l' \<Longrightarrow> justified cm (l @ l') x"
  shows "log_ok cm (l @ l')"
  using assms justified_mono [of cm l _ "l @ l'"] by (auto simp: log_ok_def)

lemma removals_append: "removals dir (l @ l') = removals dir l + removals dir l'"
  by (simp add: removals_def)

lemma warnings_append: "warnings (l @ l') = warnings l + warnings l'"
  by (simp add: warnings_def)

lemma removals_simps [simp]:
  "removals dir [] = 0" "removals dir [UOpen h n c] = 0" "removals dir [UIdent h i] = 0"
  "removals dir [UUnlink h n d ok] = (if ok \<and> d = dir then 1 else 0)"
  "removals dir [URoot p n d ok] = (if ok \<and> d = dir then 1 else 0)"
  by (simp_all add: removals_def)

lemma warnings_simps [simp]:
  "warnings [] = 0" "warnings [Warning p c] = 1" "warnings [Prog f b p] = 0"
  by (simp_all add: warnings_def)

lemma del_rel_refl [simp]: "del_rel cm c s s"
  by (simp add: del_rel_def)

lemma del_rel_trans: "del_rel cm c s1 s2 \<Longrightarrow> del_rel cm c s2 s3 \<Longrightarrow> del_rel cm c s1 s3"
  by (auto simp: del_rel_def)

text \<open>The kernel's silent calls, and its logged ones that are no unlink.\<close>

lemma lift_rel: "kern (lift_op f) s = (a, s') \<Longrightarrow> del_rel cm c s s'"
  using kern_lift [of f s a s'] by (auto simp: del_rel_def del_inv_def)

lemma log_rel:
  assumes "kern (log_op f g) s = (a, s')" "\<And>x. x \<in> set (g a) \<Longrightarrow> (\<exists>h n ch. x = UOpen h n ch) \<or> (\<exists>h i. x = UIdent h i)"
  shows "del_rel cm c s s'"
proof -
  have l: "log_of s' = log_of s @ g a" "snd s' = snd s" using kern_log [OF assms(1)] by simp_all
  have "removals dir (g a) = 0" for dir
    using assms(2) by (fastforce simp: removals_def filter_empty_conv)
  moreover have "justified cm (log_of s @ g a) x" if "x \<in> set (g a)" for x using assms(2) [OF that] by auto
  ultimately show ?thesis using log_ok_append [of cm "log_of s" "g a"] l
    by (auto simp: del_rel_def del_inv_def booked_def removals_append)
qed

subsection \<open>The deleter's steps\<close>

lemma inv_same:
  assumes "del_inv cm c s" "log_of s' = log_of s"
    and "d_files (snd s') = d_files (snd s)" "d_dirs (snd s') = d_dirs (snd s)"
    and "d_skipped (snd s') - warnings (d_emit (snd s')) = d_skipped (snd s) - warnings (d_emit (snd s))"
  shows "del_inv cm c s'"
  using assms by (auto simp: del_inv_def booked_def)

lemma tell_parts [simp]:
  "d_files (d_tell x d) = d_files d" "d_dirs (d_tell x d) = d_dirs d" "d_skipped (d_tell x d) = d_skipped d"
  "d_emit (d_tell x d) = d_emit d @ [x]" "d_frames (d_tell x d) = d_frames d"
  by (simp_all add: d_tell_def)

lemma refuse_parts [simp]:
  "d_files (d_refuse p e d) = d_files d" "d_dirs (d_refuse p e d) = d_dirs d"
  "d_skipped (d_refuse p e d) = d_skipped d + 1" "warnings (d_emit (d_refuse p e d)) = warnings (d_emit d) + 1"
  "d_frames (d_refuse p e d) = d_frames d"
  by (simp_all add: d_refuse_def warnErr_def warnings_append)

lemma notEmpty_parts [simp]:
  "d_files (d_notEmpty p d) = d_files d" "d_dirs (d_notEmpty p d) = d_dirs d"
  "d_skipped (d_notEmpty p d) = d_skipped d + 1" "warnings (d_emit (d_notEmpty p d)) = warnings (d_emit d) + 1"
  "d_frames (d_notEmpty p d) = d_frames d"
  by (simp_all add: d_notEmpty_def warnings_append)

lemma progress_parts [simp]:
  "d_files (d_progress p d) = d_files d" "d_dirs (d_progress p d) = d_dirs d"
  "d_skipped (d_progress p d) = d_skipped d" "warnings (d_emit (d_progress p d)) = warnings (d_emit d)"
  "d_frames (d_progress p d) = d_frames d"
  by (simp_all add: d_progress_def warnings_append)

lemma set_frame_parts [simp]:
  "d_files (set_frame n f d) = d_files d" "d_dirs (set_frame n f d) = d_dirs d"
  "d_skipped (set_frame n f d) = d_skipped d" "d_emit (set_frame n f d) = d_emit d"
  by (simp_all add: set_frame_def)

lemma bump_parts [simp]:
  "d_files (bump_removed n d) = d_files d" "d_dirs (bump_removed n d) = d_dirs d"
  "d_skipped (bump_removed n d) = d_skipped d" "d_emit (bump_removed n d) = d_emit d"
  by (simp_all add: bump_removed_def Let_def)

lemma removed_parts [simp]:
  "d_files (d_removed p fi err d) = d_files d + (if err = None \<and> \<not> isDir fi then 1 else 0)"
  "d_dirs (d_removed p fi err d) = d_dirs d + (if err = None \<and> isDir fi then 1 else 0)"
  "d_skipped (d_removed p fi err d) - warnings (d_emit (d_removed p fi err d)) = d_skipped d - warnings (d_emit d)"
  by (auto simp: d_removed_def split: option.split)

text \<open>An unlink: one logged call, and the counters that go with its outcome.\<close>

definition one_unlink :: "(bool \<Rightarrow> 'w \<times> 'h ucall list \<Rightarrow> error option \<times> 'w \<times> 'h ucall list) \<Rightarrow> (bool \<Rightarrow> bool \<Rightarrow> 'h ucall) \<Rightarrow> bool" where
  "one_unlink f call \<longleftrightarrow>
     (\<forall>dir w err w'. f dir w = (err, w') \<longrightarrow>
        (\<exists>u. snd w' = snd w @ u \<and> (u = [call dir (err = None)] \<or> u = [] \<and> err \<noteq> None)))"

definition honest_call :: "(bool \<Rightarrow> bool \<Rightarrow> 'h ucall) \<Rightarrow> bool" where
  "honest_call call \<longleftrightarrow> (\<forall>dir dir' ok. unlinked dir (call dir' ok) = (ok \<and> dir = dir'))"

definition may_unlink :: "'h ucall list \<Rightarrow> bool \<Rightarrow> bool \<Rightarrow>
    (bool \<Rightarrow> 'w \<times> 'h ucall list \<Rightarrow> error option \<times> 'w \<times> 'h ucall list) \<Rightarrow> bool" where
  \<comment> \<open>an unlink function that may be called after this log, for a directory or not\<close>
  "may_unlink log cm dir f \<longleftrightarrow> (\<exists>call. one_unlink f call \<and> honest_call call \<and> (\<forall>ok. justified cm log (call dir ok)))"

lemma may_unlink_mono: "may_unlink l cm dir f \<Longrightarrow> set l \<subseteq> set l' \<Longrightarrow> may_unlink l' cm dir f"
  unfolding may_unlink_def by (metis justified_mono)

lemma unlink_inv:
  assumes "may_unlink (log_of s) cm dir f" "f dir (fst s) = (err, w)" "del_inv cm c s"
    and "d_files d = d_files (snd s) + (if err = None \<and> \<not> dir then 1 else 0)"
    and "d_dirs d = d_dirs (snd s) + (if err = None \<and> dir then 1 else 0)"
    and "d_skipped d - warnings (d_emit d) = d_skipped (snd s) - warnings (d_emit (snd s))"
  shows "del_inv cm c (w, d)"
proof -
  obtain call where call: "one_unlink f call" "honest_call call" "\<And>ok. justified cm (log_of s) (call dir ok)"
    using assms(1) unfolding may_unlink_def by blast
  obtain u where u: "snd w = snd (fst s) @ u" "u = [call dir (err = None)] \<or> u = [] \<and> err \<noteq> None"
    using call(1) assms(2) unfolding one_unlink_def by blast
  have "justified cm (log_of s @ u) x" if "x \<in> set u" for x
    proof -
    have "x = call dir (err = None)" using u(2) that by auto
    then show ?thesis using justified_mono [OF call(3) [of "err = None"], of "log_of s @ u"] by simp
  qed
  then have "log_ok cm (log_of s @ u)" using log_ok_append assms(3) by (auto simp: del_inv_def)
  moreover have "removals True u = (if err = None \<and> dir then 1 else 0)" "removals False u = (if err = None \<and> \<not> dir then 1 else 0)"
    using u(2) call(2) by (auto simp: removals_def honest_call_def)
  ultimately show ?thesis using assms(3-6) u(1)
    by (auto simp: del_inv_def booked_def log_of_def removals_append)
qed

lemma unlink_grows: "may_unlink l cm dir f \<Longrightarrow> f dir w = (err, w') \<Longrightarrow> set (snd w) \<subseteq> set (snd w')"
proof -
  assume a: "may_unlink l cm dir f" "f dir w = (err, w')"
  from a(1) obtain call where "one_unlink f call" unfolding may_unlink_def by blast
  with a(2) obtain u where "snd w' = snd w @ u" unfolding one_unlink_def by blast
  then show ?thesis by simp
qed

subsection \<open>The hooks and the admission of a directory\<close>

lemma unlink_in_logged: "one_unlink (unlink_in (logged_fs fs) h n) (UUnlink h n)"
  by (auto simp: one_unlink_def logged_fs_def log_op_def split: prod.splits)

lemma unlink_at_logged: "one_unlink (unlink_at (logged_fs fs) p n) (URoot p n)"
  by (auto simp: one_unlink_def logged_fs_def log_op_def split: prod.splits)

lemma honest_calls: "honest_call (UUnlink h n)" "honest_call (URoot p n)"
  by (auto simp: honest_call_def)

lemma may_unlink_in:
  "\<not> refuses ProtectWrite n \<Longrightarrow> \<not> dir \<or> cm \<or> same_mount l h n \<Longrightarrow> may_unlink l cm dir (unlink_in (logged_fs fs) h n)"
  unfolding may_unlink_def by (rule exI [of _ "UUnlink h n"]) (auto simp: unlink_in_logged honest_calls)

lemma may_unlink_at: "\<not> refuses ProtectWrite n \<Longrightarrow> may_unlink l cm dir (unlink_at (logged_fs fs) p n)"
  unfolding may_unlink_def by (rule exI [of _ "URoot p n"]) (auto simp: unlink_at_logged honest_calls)

lemma rel_same:
  assumes "log_of s' = log_of s" "d_files (snd s') = d_files (snd s)" "d_dirs (snd s') = d_dirs (snd s)"
    and "d_skipped (snd s') - warnings (d_emit (snd s')) = d_skipped (snd s) - warnings (d_emit (snd s))"
  shows "del_rel cm c s s'"
  using inv_same [of cm c s s'] assms by (auto simp: del_rel_def)

lemma rel_unlink:
  assumes "may_unlink (log_of s) cm dir f" "f dir (fst s) = (err, w)"
    and "d_files d = d_files (snd s) + (if err = None \<and> \<not> dir then 1 else 0)"
    and "d_dirs d = d_dirs (snd s) + (if err = None \<and> dir then 1 else 0)"
    and "d_skipped d - warnings (d_emit d) = d_skipped (snd s) - warnings (d_emit (snd s))"
  shows "del_rel cm c s (w, d)"
  using unlink_inv [OF assms(1,2) _ assms(3-5), of c] unlink_grows [OF assms(1,2)]
  by (auto simp: del_rel_def log_of_def)

lemma pre_rel:
  assumes "may_unlink (log_of s) cm False (it_remove it)" "del_pre it s = (x, s')"
  shows "del_rel cm c s s' \<and> x \<in> {None, Some SkipDir}"
proof (cases "it_mount it \<or> is_dir_item it")
  case True
  then show ?thesis using assms(2)
    by (auto simp: del_pre_def log_of_def split: if_splits intro!: rel_same)
next
  case False
  obtain err w where u: "it_remove it False (fst s) = (err, w)" by (metis surj_pair)
  show ?thesis using False assms(2) u rel_unlink [OF assms(1) u]
    by (auto simp: del_pre_def is_dir_item_def)
qed

lemma post_rel:
  assumes "may_unlink (log_of s) cm True (it_remove it)" "del_post it s = (x, s')"
  shows "del_rel cm c s s' \<and> x \<in> {None, Some RetryDir}"
proof -
  obtain err w where u: "it_remove it True (fst s) = (err, w)" by (metis surj_pair)
  show ?thesis using assms(2) u rel_unlink [OF assms(1) u]
    by (cases err) (auto simp: del_post_def Let_def split: if_splits)
qed

lemma warn_rel: "del_rel cm c s (del_warn p e s)"
  by (rule rel_same) (simp_all add: del_warn_def log_of_def)

lemma openChild_admits:
  assumes "openChild (del_walker (logged_env e) cm) h n p po i s = (Opened ch, s')" "UIdent h i \<in> set (log_of s)"
  shows "cm \<or> same_mount (log_of s') h n"
proof (rule ccontr)
  assume no: "\<not> (cm \<or> same_mount (log_of s') h n)"
  let ?k = "del_walker (logged_env e) cm"
  obtain x s1 where o1: "kern (open_child (wk_fs ?k) h n) s = (x, s1)" by (metis surj_pair)
  from assms(1) obtain c where x: "x = Inr c" by (cases x) (auto simp: openChild_def o1)
  have l1: "log_of s1 = log_of s @ [UOpen h n c]"
    using o1 kern_log x by (fastforce simp: del_walker_def logged_env_def logged_fs_def)
  obtain j s2 where i2: "kern (identity_of (wk_fs ?k) c) s1 = (j, s2)" by (metis surj_pair)
  have l2: "log_of s2 = log_of s1 @ [UIdent c j]"
    using i2 kern_log by (fastforce simp: del_walker_def logged_env_def logged_fs_def)
  have mut: "mutating (wk_opts ?k)" "\<not> CrossMounts (wk_opts ?k)" using no by (simp_all add: del_walker_def mutating_def)
  have b: "s' = s2 \<and> \<not> unidentifiedMount j i \<and> \<not> differsFrom j i"
    using assms(1) o1 x i2 mut
    by (auto simp: openChild_def mayCrossInto_def Let_def isMountPoint_def split: if_splits prod.splits)
  then obtain m m' where m: "mi_mnt j = Some m'" "mi_mnt i = Some m" by (auto simp: unidentifiedMount_def)
  with b have "m' = m" by (simp add: differsFrom_def)
  then have "same_mount (log_of s') h n"
    using assms(2) l1 l2 m b unfolding same_mount_def by (intro exI [of _ c] exI [of _ i] exI [of _ j]) simp
  with no show False by simp
qed

lemma del_walker_parts:
  "wk_fs (del_walker (logged_env e) cm) = logged_fs (je_fs e)" "wk_r (del_walker (logged_env e) cm) = je_root e"
  "Protect (wk_opts (del_walker e' cm)) = ProtectWrite"
  "v_Pre (wk_v (del_walker e' cm)) = del_pre" "v_Post (wk_v (del_walker e' cm)) = Some del_post"
  "v_Opened (wk_v (del_walker e' cm)) = None" "v_Unopened (wk_v (del_walker e' cm)) = None"
  "v_Warn (wk_v (del_walker e' cm)) = del_warn"
  by (simp_all add: del_walker_def del_visitor_def logged_env_def)

lemma logged_ops:
  "open_root (logged_fs fs) p = lift_op (open_root fs p)" "read_names (logged_fs fs) h j = lift_op (read_names fs h j)"
  "lstat_held (logged_fs fs) h n = lift_op (lstat_held fs h n)" "fstat (logged_fs fs) h = lift_op (fstat fs h)"
  "close_dir (logged_fs fs) h = lift_op (close_dir fs h)"
  "refresh_table (logged_fs fs) x = (refresh_table fs (fst x), snd x)"
  by (simp_all add: logged_fs_def)

lemma open_logged: "kern (open_child (logged_fs fs) h n) s = (a, s') \<Longrightarrow> del_rel cm c s s'"
  by (rule log_rel) (auto simp: logged_fs_def split: sum.splits)

lemma ident_logged: "kern (identity_of (logged_fs fs) h) s = (a, s') \<Longrightarrow> del_rel cm c s s'"
  by (rule log_rel) (auto simp: logged_fs_def)

lemma ident_known: "kern (identity_of (logged_fs fs) h) s = (i, s') \<Longrightarrow> UIdent h i \<in> set (log_of s')"
  using kern_log by (fastforce simp: logged_fs_def)

lemma refresh_logged: "del_rel cm c (w, v) (refresh_table (logged_fs fs) w, v)"
  by (auto simp: del_rel_def del_inv_def logged_ops log_of_def)

lemma child_remove [simp]: "it_remove (child_item k h it name fi held) = unlink_in (wk_fs k) h name"
  by (simp add: child_item_def)

lemma rel_mono: "del_rel cm c s s' \<Longrightarrow> may_unlink (log_of s) b dir f \<Longrightarrow> may_unlink (log_of s') b dir f"
  by (rule may_unlink_mono) (auto simp: del_rel_def)

interpretation del: walk_relation "del_walker (logged_env e) cm" "\<lambda>d. del_rel cm c" "\<lambda>y d. del_rel cm c"
  "\<lambda>s it. may_unlink (log_of s) cm False (it_remove it)" "\<lambda>s it. may_unlink (log_of s) cm True (it_remove it)"
  "\<lambda>s h i. UIdent h i \<in> set (log_of s)"
  for e :: "('w, 'h) jobEnv" and cm c
proof (unfold_locales, unfold del_walker_parts logged_ops child_remove, goal_cases)
  case 1
  show ?case by simp
next
  case 2
  then show ?case by (rule del_rel_trans)
next
  case 3
  then show ?case .
next
  case 4
  then show ?case .
next
  case 5
  then show ?case by (rule del_rel_trans)
next
  case 6
  then show ?case .
next
  case 7
  then show ?case by (rule del_rel_trans [OF _ lift_rel])
next
  case 8
  show ?case by (rule refresh_logged [unfolded logged_ops])
next
  case 9
  then show ?case by (rule lift_rel)
next
  case 10
  then show ?case by (rule open_logged)
next
  case 11
  then show ?case by (rule lift_rel)
next
  case 12
  then show ?case by (rule lift_rel)
next
  case 13
  then show ?case by (rule lift_rel)
next
  case 14
  then show ?case by (rule ident_logged)
next
  case 15
  then show ?case by (rule lift_rel)
next
  case 16
  show ?case by (rule warn_rel)
next
  case (17 s it x s')
  then show ?case using pre_rel [OF 17] by (auto split: option.split)
next
  case (18 s it f x s')
  then show ?case using post_rel [of s cm it x s'] by (auto split: option.split)
next
  case 21
  then show ?case by (rule rel_mono)
next
  case 22
  then show ?case by (rule rel_mono)
next
  case 23
  then show ?case by (auto simp: del_rel_def)
next
  case 24
  then show ?case by (rule ident_known)
next
  case 25
  then show ?case by (simp add: may_unlink_in del_walker_parts)
next
  case 26
  then show ?case by (simp add: may_unlink_in del_walker_parts)
next
  case 27
  then show ?case using openChild_admits [OF 27(3,2)] by (simp add: may_unlink_in del_walker_parts)
qed simp_all

subsection \<open>A selected path\<close>

interpretation silent: plain_lookups "logged_jail J" "\<lambda>s. snd s = l" for J :: "'w jailfs" and l :: "'c"
  by unfold_locales (auto simp: logged_jail_def lift_op_def split: prod.splits)

lemma resolve_silent: "kern (resolve r (logged_jail J) p fin) s = (a, s') \<Longrightarrow> log_of s' = log_of s \<and> snd s' = snd s"
  using silent.resolve_fine [of "fst s" "snd (fst s)" r J p fin]
  by (auto simp: kern_def log_of_def fine_def split: prod.splits)

lemma stat_silent: "kern (stat_at (logged_jail J) p) s = (a, s') \<Longrightarrow> log_of s' = log_of s \<and> snd s' = snd s"
  using kern_lift [of "stat_at J p" s a s'] by (simp add: logged_jail_def)

lemma silent_rel: "log_of s' = log_of s \<and> snd s' = snd s \<Longrightarrow> del_rel cm c s s'"
  by (rule rel_same) simp_all

text \<open>A path whose last component may be unlinked, and what such a path resolves to.\<close>

definition allowed_name :: "string \<Rightarrow> bool" where
  "allowed_name q \<longleftrightarrow> comps q = [] \<or> \<not> refuses ProtectWrite (last (comps q))"

lemma allowed_final:
  assumes "Clean p = Inr q" "allowed_name q" "kern (resolve r J q False) s = (Inr tg, s')"
  shows "(jp_rel tg = ''.'' \<or> \<not> refuses ProtectWrite (snd (splitFinal (jp_rel tg)))) \<and>
    (\<forall>x. Clean (jp_api tg) = Inr x \<longrightarrow> allowed_name x)"
proof (cases "comps q = []")
  case True
  then have "splitRel (Rel q) = []" using Clean_cleanAPI [OF assms(1)] by simp
  then have "tg = \<lparr>jp_rel = ''.'', jp_api = ''/''\<rparr>" using assms(3)
    by (auto simp: kern_def resolve_def relOf_def apiOf_def split: prod.splits option.splits)
  moreover have "Clean ''/'' = Inr ''/''" "comps ''/'' = []" by code_simp+
  ultimately show ?thesis by (auto simp: allowed_name_def)
next
  case False
  let ?l = "last (comps q)"
  from assms(3) obtain w' where "resolve r J q False (fst s) = (Inr tg, w')" by (auto simp: kern_def split: prod.splits)
  from resolve_final [OF this assms(1) False]
  obtain cs where cs: "list_all plain cs" "jp_rel tg = relOf (cs @ [?l])" "jp_api tg = apiOf (cs @ [?l])" by auto
  have "plain ?l" using Clean_cleanAPI [OF assms(1)] False by (auto simp: list_all_iff)
  then have pl: "list_all plain (cs @ [?l])" using cs by simp
  have nr: "\<not> refuses ProtectWrite ?l" using assms(2) False by (auto simp: allowed_name_def)
  have "allowed_name x" if "Clean (jp_api tg) = Inr x" for x
  proof -
    have "x = render (comps (render (cs @ [?l])))" using that by (simp add: cs(3) apiOf_render Clean_ok)
    then have "comps x = cs @ [?l]" using split_render_filter [OF pl] by (simp add: comps_def)
    then show ?thesis using nr by (simp add: allowed_name_def)
  qed
  then show ?thesis using cs(2) splitFinal_last [OF pl] nr by simp
qed

lemma root_removes:
  assumes "jp_rel tg = ''.'' \<or> \<not> refuses ProtectWrite (snd (splitFinal (jp_rel tg)))"
  shows "may_unlink l cm dir (it_remove (root_item (del_walker (logged_env e) cm') tg fi))"
proof -
  obtain p n where sf: "splitFinal (jp_rel tg) = (p, n)" by (metis surj_pair)
  let ?bad = "jp_rel tg = ''.'' \<or> jp_rel tg = [] \<or> n = []"
  let ?n = "if ?bad then [] else n"
  have f: "it_remove (root_item (del_walker (logged_env e) cm') tg fi) =
      (\<lambda>dir w. if ?bad then (Some [Own ErrBadName], w) else unlink_at (logged_fs (je_fs e)) p n dir w)"
    unfolding root_item_def sf prod.case walkItem.simps del_walker_parts ..
  have "one_unlink (\<lambda>dir w. if ?bad then (Some [Own ErrBadName], w) else unlink_at (logged_fs (je_fs e)) p n dir w) (URoot p ?n)"
    using unlink_at_logged [of "je_fs e" p n] by (auto simp: one_unlink_def)
  moreover have "\<not> refuses ProtectWrite ?n" using assms sf by (auto simp: refuses_def)
  ultimately show ?thesis unfolding may_unlink_def f by (intro exI [of _ "URoot p ?n"]) (simp add: honest_calls)
qed

lemma WalkTree_del:
  fixes s :: "('w \<times> 'h ucall list) \<times> treeDeleter"
  assumes "WalkTree (logged_jail J) (del_walker (logged_env e) cm) N p s = (x, s')"
    and "\<And>q. Clean p = Inr q \<Longrightarrow> allowed_name q"
  shows "del_rel cm c s s'"
proof -
  have "del.Q cm c x 0 s s'"
  proof (rule del.WalkTree_Q [OF _ _ _ assms(1)])
    fix p y and s s' :: "('w \<times> 'h ucall list) \<times> treeDeleter" assume "kern (resolve (wk_r (del_walker (logged_env e) cm)) (logged_jail J) p False) s = (y, s')"
    then show "del_rel cm c s s'" by (rule silent_rel [OF resolve_silent])
  next
    fix p y and s s' :: "('w \<times> 'h ucall list) \<times> treeDeleter" assume "kern (stat_at (logged_jail J) p) s = (y, s')"
    then show "del_rel cm c s s'" by (rule silent_rel [OF stat_silent])
  next
    fix tg fi q and s0 s1 s2 :: "('w \<times> 'h ucall list) \<times> treeDeleter"
    assume "Clean p = Inr q" "kern (resolve (wk_r (del_walker (logged_env e) cm)) (logged_jail J) q False) s0 = (Inr tg, s1)"
    then show "may_unlink (log_of s2) cm False (it_remove (root_item (del_walker (logged_env e) cm) tg fi)) \<and>
        may_unlink (log_of s2) cm True (it_remove (root_item (del_walker (logged_env e) cm) tg fi))"
      using root_removes allowed_final assms(2) by blast
  qed
  then show ?thesis by (cases x) simp_all
qed

lemma logged_parts:
  "je_root (logged_env e) = je_root e" "je_jail (logged_env e) = logged_jail (je_jail e)"
  "je_fs (logged_env e) = logged_fs (je_fs e)"
  by (simp_all add: logged_env_def)

lemma on_del_rel:
  assumes "d_files (f (snd s)) = d_files (snd s)" "d_dirs (f (snd s)) = d_dirs (snd s)"
    and "d_skipped (f (snd s)) - warnings (d_emit (f (snd s))) = d_skipped (snd s) - warnings (d_emit (snd s))"
  shows "del_rel cm c s (on_del f s)"
  using assms by (intro rel_same) (simp_all add: on_del_def log_of_def)

lemma unlink_direct:
  assumes "kern (unlink_at (logged_fs fs) p n dir) s = (err, s1)" "\<not> refuses ProtectWrite n"
    and "d_files (f (snd s)) = d_files (snd s) + (if err = None \<and> \<not> dir then 1 else 0)"
    and "d_dirs (f (snd s)) = d_dirs (snd s) + (if err = None \<and> dir then 1 else 0)"
    and "d_skipped (f (snd s)) - warnings (d_emit (f (snd s))) = d_skipped (snd s) - warnings (d_emit (snd s))"
  shows "del_rel cm c s (on_del f s1)"
proof -
  have "unlink_at (logged_fs fs) p n dir (fst s) = (err, fst s1)" "snd s1 = snd s"
    using assms(1) by (auto simp: kern_def split: prod.splits)
  with rel_unlink [OF may_unlink_at [OF assms(2)] this(1), of "f (snd s)" cm c] assms(3-5)
  show ?thesis by (simp add: on_del_def)
qed

lemma delete_found_rel:
  fixes s :: "('w \<times> 'h ucall list) \<times> treeDeleter"
  assumes "delete_found (logged_env e) o1 N tg fi s = (x, s')"
    and "jp_rel tg = ''.'' \<or> \<not> refuses ProtectWrite (snd (splitFinal (jp_rel tg)))"
    and "\<And>q. Clean (jp_api tg) = Inr q \<Longrightarrow> allowed_name q"
  shows "del_rel (do_CrossMounts o1) c s s'"
proof -
  obtain p n where sf: "splitFinal (jp_rel tg) = (p, n)" by (metis surj_pair)
  show ?thesis
  proof (cases "jp_rel tg = ''.'' \<or> jp_rel tg = [] \<or> n = []")
    case True
    then show ?thesis using assms(1) sf by (auto simp: delete_found_def intro!: on_del_rel)
  next
    case False
    then have n: "\<not> refuses ProtectWrite n" using assms(2) sf by simp
    show ?thesis
    proof (cases "isDir fi \<and> do_Recursive o1")
      case True
      then show ?thesis using assms(1) False sf WalkTree_del [OF _ assms(3)]
        by (simp add: delete_found_def logged_parts)
    next
      case nr: False
      obtain err s1 where u: "kern (unlink_at (logged_fs (je_fs e)) p n (isDir fi)) s = (err, s1)" by (metis surj_pair)
      note d = unlink_direct [OF u n]
      show ?thesis using assms(1) False sf nr u
        by (cases "isDir fi"; cases err) (auto simp: delete_found_def logged_parts intro!: d)
    qed
  qed
qed

lemma mount_silent: "kern (mountPointAt (logged_env e) tg fi) s = (b, s') \<Longrightarrow> log_of s' = log_of s \<and> snd s' = snd s"
  by (auto simp: kern_def mountPointAt_def crossesDevice_def logged_parts logged_fs_def logged_jail_def lift_op_def log_of_def
      split: prod.splits option.splits if_splits sum.splits)

lemma delete_one_rel:
  fixes s :: "('w \<times> 'h ucall list) \<times> treeDeleter"
  assumes "delete_one (logged_env e) o1 N p s = (x, s')"
  shows "del_rel (do_CrossMounts o1) c s s'"
proof (cases "Clean p")
  case (Inl y)
  then show ?thesis using assms by (auto simp: delete_one_def intro!: on_del_rel)
next
  case q: (Inr q)
  show ?thesis
  proof (cases "neverWritePath q")
    case True
    then show ?thesis using assms q by (auto simp: delete_one_def intro!: on_del_rel)
  next
    case False
    then have an: "allowed_name q" by (auto simp: allowed_name_def neverWritePath_def refusesPath_comps)
    have od: "del_rel (do_CrossMounts o1) c s (on_del (d_refuse a b) s1)" if "del_rel (do_CrossMounts o1) c s s1" for a b s1
      by (rule del_rel_trans [OF that on_del_rel]) simp_all
    obtain y s1 where 1: "kern (resolve (je_root e) (logged_jail (je_jail e)) q False) s = (y, s1)" by (metis surj_pair)
    have r1: "del_rel (do_CrossMounts o1) c s s1" by (rule silent_rel [OF resolve_silent [OF 1]])
    show ?thesis
    proof (cases y)
      case (Inl z)
      then show ?thesis using assms q False 1 od [OF r1] by (auto simp: delete_one_def logged_parts)
    next
      case tg: (Inr tg)
      obtain z s2 where 2: "kern (stat_at (logged_jail (je_jail e)) (jp_rel tg)) s1 = (z, s2)" by (metis surj_pair)
      have r2: "del_rel (do_CrossMounts o1) c s s2" by (rule del_rel_trans [OF r1 silent_rel [OF stat_silent [OF 2]]])
      show ?thesis
      proof (cases z)
        case (Inl z)
        then show ?thesis using assms q False 1 2 tg od [OF r2] by (auto simp: delete_one_def logged_parts)
      next
        case fi: (Inr fi)
        obtain b s3 where 3: "kern (mountPointAt (logged_env e) tg fi) s2 = (b, s3)" by (metis surj_pair)
        have r3: "del_rel (do_CrossMounts o1) c s s3" by (rule del_rel_trans [OF r2 silent_rel [OF mount_silent [OF 3]]])
        show ?thesis
        proof (cases b)
          case True
          then show ?thesis using assms q False 1 2 3 tg fi od [OF r3] by (auto simp: delete_one_def logged_parts)
        next
          case nb: False
          note fin = allowed_final [OF q an 1 [unfolded tg]]
          have "delete_found (logged_env e) o1 N tg fi s3 = (x, s')"
            using assms q False 1 2 3 tg fi nb by (simp add: delete_one_def logged_parts)
          from delete_found_rel [OF this] fin show ?thesis using del_rel_trans [OF r3] by blast
        qed
      qed
    qed
  qed
qed

lemma delete_paths_rel: "delete_paths (logged_env e) o1 N ps s = (x, s') \<Longrightarrow> del_rel (do_CrossMounts o1) c s s'"
proof (induction ps arbitrary: s)
  case (Cons p ps)
  obtain y s1 where o1: "delete_one (logged_env e) o1 N p s = (y, s1)" by (metis surj_pair)
  note r = delete_one_rel [OF o1, of c]
  show ?case using Cons.prems o1 r del_rel_trans [OF r Cons.IH] by (auto split: option.splits)
qed simp

subsection \<open>The pre-scan unlinks nothing\<close>

fun looks :: "'h ucall \<Rightarrow> bool" where
  "looks (UOpen h n c) = True"
| "looks (UIdent h i) = True"
| "looks (UUnlink h n dir ok) = False"
| "looks (URoot p n dir ok) = False"

definition calm :: "('w \<times> 'h ucall list) \<times> scanState \<Rightarrow> bool" where
  "calm s \<longleftrightarrow> list_all looks (log_of s) \<and> warnings (st_emit (snd s)) = 0"

lemma calm_lift: "kern (lift_op f) s = (a, s') \<Longrightarrow> calm s' = calm s"
  using kern_lift [of f s a s'] by (simp add: calm_def)

lemma calm_open: "kern (open_child (logged_fs fs) h n) s = (a, s') \<Longrightarrow> calm s' = calm s"
  using kern_log [of "open_child fs h n" _ s a s'] by (fastforce simp: logged_fs_def calm_def split: sum.splits)

lemma calm_ident: "kern (identity_of (logged_fs fs) h) s = (a, s') \<Longrightarrow> calm s' = calm s"
  using kern_log [of "identity_of fs h" _ s a s'] by (fastforce simp: logged_fs_def calm_def)

lemma calm_emit: "calm (on_res f s) = calm s" "calm (emit_now (Prog a b p) s) = calm s"
  by (simp_all add: calm_def on_res_def emit_now_def log_of_def warnings_append)

lemma calm_since: "calm (fst s, (snd s)\<lparr>st_since := n\<rparr>) = calm s"
  by (simp add: calm_def log_of_def)

lemma calm_bounds: "scan_bounds clock lim it s = (x, s') \<Longrightarrow> calm s' = calm s"
  by (auto simp: scan_bounds_def Let_def calm_emit calm_since [of "(_, _)", simplified] calm_since [of "emit_now _ _"]
      split: if_splits option.splits)

lemma calm_pre: "scan_pre clock lim it s = (x, s') \<Longrightarrow> calm s' = calm s"
  by (auto simp: scan_pre_def Let_def calm_emit dest!: calm_bounds split: if_splits option.splits)

lemma calm_opened: "scan_opened it fi s = (x, s') \<Longrightarrow> calm s' = calm s"
  by (auto simp: scan_opened_def calm_emit split: if_splits)

lemma calm_warn: "calm (scan_warn True p e s) = calm s"
  by (simp add: scan_warn_def calm_emit)

interpretation calm: walk_relation "scan_walker (logged_env e) o1 lim True" "\<lambda>d s s'. calm s \<longrightarrow> calm s'"
  "\<lambda>y d s s'. calm s \<longrightarrow> calm s'" "\<lambda>s it. True" "\<lambda>s it. True" "\<lambda>s h i. True"
  for e :: "('w, 'h) jobEnv" and o1 lim
proof (unfold_locales, unfold scan_walker_parts logged_parts logged_ops, goal_cases)
  case 8
  show ?case by (simp add: calm_def log_of_def)
qed (auto simp: calm_lift calm_open calm_ident calm_warn split: option.splits dest: calm_pre calm_opened)

lemma WalkTree_calm:
  assumes "WalkTree (logged_jail J) (scan_walker (logged_env e) o1 lim True) N p s = (x, s')" "calm s"
  shows "calm s'"
proof -
  have "calm s1 \<longrightarrow> calm s2" if "log_of s2 = log_of s1 \<and> snd s2 = snd s1" for s1 s2 :: "('a \<times> 'b ucall list) \<times> scanState"
    using that by (simp add: calm_def)
  then have "calm.Q x 0 s s'"
    using calm.WalkTree_Q [OF _ _ _ assms(1)] resolve_silent stat_silent by blast
  then show ?thesis using assms(2) by (cases x) simp_all
qed

lemma scan_paths_calm: "calm s \<Longrightarrow> calm (snd (scan_paths (logged_env e) o1 lim True N ps s))"
proof (induction ps arbitrary: s)
  case (Cons p ps)
  obtain x s1 where w: "WalkTree (logged_jail (je_jail e)) (scan_walker (logged_env e) o1 lim True) N p s = (x, s1)"
    by (metis surj_pair)
  show ?case using WalkTree_calm [OF w Cons.prems] Cons
    by (auto simp: w logged_parts Let_def calm_emit split: option.splits signal.splits)
qed simp

definition extra_warning :: "treeDeleter \<Rightarrow> int" where
  \<comment> \<open>the warning that says the pre-scan hit its bound, which is no skipped entry\<close>
  "extra_warning d = warnings (d_emit d)"

lemma del_scan_inv:
  assumes "del_scan (logged_env e) paths o1 N (w, []) = (x, s)"
  shows "del_inv cm (extra_warning (snd s)) s \<and> extra_warning (snd s) \<in> {0, 1}"
proof -
  let ?lim = "\<lparr>lim_deadline = Some (je_clock (logged_env e) (w, []) + scanMaxDuration), lim_maxEntries = scanMaxEntries\<rparr>"
  obtain err v st where sc: "scanTrees (logged_env e) paths (do_CrossMounts o1) False ?lim True ProtectWrite N ((w, []), [])
      = (err, v, st)" by (metis surj_pair)
  have "calm (v, st)"
    using sc scan_paths_calm [of "((w, []), \<lparr>st_res = no_scan, st_since = 0, st_emit = []\<rparr>)" e _ ?lim N paths]
    by (auto simp: scanTrees_def calm_def log_of_def) (metis fst_conv snd_conv)+
  then have l: "list_all looks (snd v)" "warnings (st_emit st) = 0" by (simp_all add: calm_def log_of_def)
  have nf: "\<not> unlinked dir u" if "looks u" for dir and u :: "'b ucall" using that by (cases u) simp_all
  have r: "removals dir (snd v) = 0" for dir
    using l(1) nf by (auto simp: removals_def filter_empty_conv list_all_iff)
  have jn: "justified cm log u" if "looks u" for log and u :: "'b ucall" using that by (cases u) simp_all
  have ok: "log_ok cm (snd v)" using l(1) jn by (auto simp: log_ok_def list_all_iff)
  show ?thesis
  proof (cases "do_Recursive o1")
    case False
    then show ?thesis using assms
      by (auto simp: del_scan_def del_inv_def booked_def log_of_def log_ok_def new_deleter_def extra_warning_def)
  next
    case True
    then show ?thesis using assms sc l r ok
      by (auto simp: del_scan_def Let_def del_inv_def booked_def log_of_def new_deleter_def extra_warning_def
          scan_capped_warning_def warnings_append split: if_splits)
  qed
qed

subsection \<open>Properties\<close>

lemma DeleteTree_inv:
  assumes "DeleteTree (logged_env e) paths o1 N (w, []) = (x, s)"
  shows "\<exists>c \<in> {0, 1}. del_inv (do_CrossMounts o1) c s"
proof -
  obtain y s1 where s1: "del_scan (logged_env e) paths o1 N (w, []) = (y, s1)" by (metis surj_pair)
  note i = del_scan_inv [OF s1, of "do_CrossMounts o1"]
  show ?thesis
  proof (cases y)
    case (Some z)
    then show ?thesis using assms s1 i by (auto simp: DeleteTree_def)
  next
    case None
    then have "delete_paths (logged_env e) o1 N paths s1 = (x, s)" using assms s1 by (simp add: DeleteTree_def)
    from delete_paths_rel [OF this] i show ?thesis by (auto simp: del_rel_def)
  qed
qed

text \<open>
  C34: the counts a recursive delete reports are the unlinks that succeeded, no more and no less:
  files are the successful unlinks of non-directories, directories the successful rmdirs, and every
  entry it skipped is a warning it sent, the only other warning being the pre-scan's. However the
  kernel answers, however the tree changes underneath, whether the job ends, fails or is cancelled.
\<close>

theorem delete_books:
  "(case DeleteTree (logged_env e) paths o1 N (w, []) of
      (x, s, d) \<Rightarrow>
        d_files d = removals False (snd s) \<and> d_dirs d = removals True (snd s) \<and>
        warnings (d_emit d) - d_skipped d \<in> {0, 1})"
proof -
  obtain x s d where r: "DeleteTree (logged_env e) paths o1 N (w, []) = (x, s, d)" by (metis surj_pair)
  from DeleteTree_inv [OF r] show ?thesis by (auto simp: r del_inv_def booked_def log_of_def)
qed

text \<open>
  C33: a recursive delete never unlinks a name called .zfs or @Recycle, and unless it was told to
  cross mounts every directory it removes inside a tree was opened from its parent's own descriptor
  and named by the kernel as the same mount as that parent. This holds of every call the job makes,
  whatever the kernel answers and however the tree changes while it runs.
\<close>

theorem delete_fenced:
  "log_ok (do_CrossMounts o1) (snd (fst (snd (DeleteTree (logged_env e) paths o1 N (w, [])))))"
proof -
  obtain x s where r: "DeleteTree (logged_env e) paths o1 N (w, []) = (x, s)" by (metis surj_pair)
  from DeleteTree_inv [OF r] show ?thesis by (auto simp: r del_inv_def log_of_def)
qed

subsection \<open>The job ends\<close>

lemma del_hooks_real: "hooks_real (wk_v (del_walker e cm))"
  by (auto simp: hooks_real_def del_walker_def del_visitor_def del_pre_def del_post_def Let_def
      split: option.splits prod.splits)

lemma delete_one_real:
  assumes "streams_end (je_fs e) n" "n < N"
  shows "fst (delete_one e o1 N p s) \<noteq> Some Exhausted"
  using WalkTree_real [OF del_hooks_real _ assms(2), of e "do_CrossMounts o1" "je_jail e"] assms(1)
  by (auto simp: delete_one_def delete_found_def del_walker_def split: sum.splits prod.splits bool.splits)

lemma delete_paths_real:
  assumes "streams_end (je_fs e) n" "n < N"
  shows "fst (delete_paths e o1 N ps s) \<noteq> Some Exhausted"
proof (induction ps arbitrary: s)
  case (Cons p ps)
  then show ?case using delete_one_real [OF assms, of o1 p s]
    by (auto split: option.splits prod.splits)
qed simp

text \<open>
  C35: a recursive delete ends. If every directory stream ends within n reads, then with fuel above n
  the job returns, whatever else the kernel does: the depth, the passes over one directory and the
  retries of its rmdir are bounded by the code itself, however many entries appear while it runs.
\<close>

theorem delete_returns:
  assumes "streams_end (je_fs e) n" "n < N"
  shows "fst (DeleteTree e paths o1 N w) \<noteq> Some Exhausted"
proof -
  have "fst (del_scan e paths o1 N w) \<noteq> Some Exhausted"
    using scan_paths_real [OF assms] by (auto simp: del_scan_def scanTrees_def Let_def split: prod.splits) (metis fst_conv)
  then show ?thesis using delete_paths_real [OF assms]
    by (auto simp: DeleteTree_def split: prod.splits option.splits)
qed

text \<open>
  A small kernel: one directory \<open>/d\<close> with the entries of the world's list, all of them files. The
  world's number is how often a name below the root is still found.
\<close>

definition small_stat :: "string \<Rightarrow> nat \<times> string list \<Rightarrow> (error + finfo) \<times> nat \<times> string list" where
  "small_stat p w =
     (if fst w = 0 then (Inl [Sys ENOENT, FsNotExist], w)
      else (Inr \<lparr>ftype = Directory, fsize = 0, fdev = Some 1\<rparr>, fst w - 1, snd w))"

definition small_fs :: "(nat \<times> string list, nat) treefs" where
  "small_fs =
     \<lparr>ctx_err = (\<lambda>w. None), mount_table = (\<lambda>w. None), refresh_table = (\<lambda>w. w),
      open_root = (\<lambda>p w. (Inr 0, w)), open_child = (\<lambda>h n w. (Inr (h + 1), w)),
      read_names = (\<lambda>h j w. ((snd w, EOF), w)),
      lstat_held = (\<lambda>h n w. (Inr (\<lparr>ftype = Regular, fsize = 3, fdev = Some 1\<rparr>, None), w)),
      unlink_in = (\<lambda>h n dir w. (None, fst w, removeAll n (snd w))),
      unlink_at = (\<lambda>p n dir w. if snd w = [] then (None, w) else (Some [Sys ENOTEMPTY], w)),
      fstat = (\<lambda>h w. (Inr \<lparr>ftype = Directory, fsize = 0, fdev = Some 1\<rparr>, w)),
      identity_of = (\<lambda>h w. (\<lparr>mi_mnt = Some 7, mi_dev = Some 1\<rparr>, w)), close_dir = (\<lambda>h w. (None, w))\<rparr>"

definition small_env :: "(nat \<times> string list, nat) jobEnv" where
  "small_env =
     \<lparr>je_root = fake_root,
      je_jail = \<lparr>open_jail = (\<lambda>w. (None, w)), stat_at = small_stat, readlink_at = (\<lambda>p w. (Inl [Opaque ''not a link''], w)),
                 traverse_at = (\<lambda>p w. (None, w))\<rparr>,
      je_fs = small_fs, je_clock = (\<lambda>w. 0)\<rparr>"

definition recursive_delete :: deleteOptions where
  "recursive_delete = \<lparr>do_Recursive = True, do_CrossMounts = False\<rparr>"

theorem delete_returns_witness:
  "streams_end (je_fs small_env) 0 \<and>
   fst (DeleteTree small_env [''/d''] recursive_delete 1 (10, [''a'', ''b''])) \<noteq> Some Exhausted"
proof -
  have "streams_end (je_fs small_env) 0" by (simp add: streams_end_def last_read_def small_env_def small_fs_def)
  then show ?thesis using delete_returns [of small_env 0 1] by simp
qed

text \<open>
  A selected directory that vanishes between its own description and the walk ends the whole job:
  the next path is not touched and no warning names either.
\<close>

lemma vanished_root_ends_job:
  "(case DeleteTree small_env [''/d'', ''/e''] recursive_delete 1 (3, [''a'']) of
      (x, w, d) \<Rightarrow> x = Some (Failed [Sys ENOENT, FsNotExist]) \<and> snd w = [''a''] \<and>
        d_files d = 0 \<and> d_skipped d = 0 \<and> warnings (d_emit d) = 0)"
  by code_simp

text \<open>
  An entry that is refused is counted again on every further pass over its directory: one kept entry
  beside a removed one is two skipped entries, and the directory itself is the third.
\<close>

lemma retry_counts_again:
  "(case DeleteTree small_env [''/d''] recursive_delete 1 (10, [''a'', ''@Recycle'']) of
      (x, w, d) \<Rightarrow> x = None \<and> snd w = [''@Recycle''] \<and> d_skipped d = 3)"
  by code_simp

end
