(* ===== verification/Spec2Isabelle.thy ===== *)
theory Spec2Isabelle
  imports Mutations Perm Gate Jobs_Life Idmap Platform_Life Session_Auth Pool_Life Perm_Route_Facts Delete_Facts
begin

text \<open>
  Taproot, a file manager for QNAP NAS devices (Go, under src/internal and src/cmd). A root daemon serves the pages
  and the JSON API; for every account it starts one worker process with that account's credentials, and only workers
  touch the shares. The development models the parts that decide who may do what: authentication, the guard with its
  confirmation tokens, the mutating routes, the job manager, the worker pool, the mount table, and at the worker the
  path resolution, the tree walk, the folder size and the recursive delete.

  \<^bold>\<open>How the parts interact.\<close> A request is authenticated (\<open>Session_Auth\<close> over \<open>Sessions\<close>, which asks \<open>Verifier\<close>,
  which asks \<open>Qtsauth\<close>, under the budgets of \<open>Auth_Limits\<close>) and its account is resolved (\<open>Idmap\<close>). A mutating route
  (\<open>Mutations\<close>, \<open>Job_Routes\<close>, \<open>Perm_Routes\<close>) takes the strictest verdict of \<open>Guard\<close> over every spelling of its
  paths, demands and redeems a token of \<open>Confirm\<close>, writes an intent line and only then dispatches to a worker of
  \<open>Pool\<close>, or submits a job to \<open>Jobs\<close>, whose work is checked again when it starts. A mode change also asks \<open>Ladder\<close>
  what it would do to ACLs, judged from the mount table of \<open>Platform\<close>. At the worker, \<open>Resolve\<close> turns an API path into
  a name under the root (\<open>Root\<close>), and \<open>Delete_Tree\<close> and \<open>Size\<close> run on \<open>Walk\<close>.

  \<^bold>\<open>Theories and sources\<close> (paths under src/internal).
  \<^item> \<open>Prelude\<close>: Go strings, association lists standing for maps that are also counted and swept, 64-bit sums, and the
    locales \<open>keyed_table\<close> (lookup, update, delete, size) and \<open>invariant_machine\<close> (a step function, an invariant).
  \<^item> \<open>Fsx_Path\<close>, \<open>Fsx_Errors\<close>: fsx/path.go, fsx/errors.go, the worker client's RemoteError, statusCode of
    web/jsonhttp.go. An error is the list of sentinels and errno values its chain of \<open>Unwrap\<close> calls reaches.
  \<^item> \<open>Guard\<close>, \<open>Confirm\<close>: guard/guard.go, rules.go, confirm.go. Operations are bits of a 16-bit word; the token guard
    extends the guard's record by the key, the spent tokens and the ledger of measured costs.
  \<^item> \<open>Perm\<close>: perm/perm.go and fsx/entry.go, modes on 32-bit words.
  \<^item> \<open>Mutations\<close>: web/routes_mutate.go. A request maps a \<open>server\<close> (token guard and trail of effects) to a server; a
    trail holds audit lines, dispatches, submissions, runs and replies, the latest first.
  \<^item> \<open>Jobs\<close>, \<open>Jobs_Life\<close>: jobs/jobs.go, progress.go. A goroutine is a program counter, a step is one region between
    two lock operations, so the sequences of steps are the interleavings; \<open>Jobs_Life\<close> holds the life cycle it refines.
  \<^item> \<open>Job_Routes\<close>, \<open>Job_Route_Facts\<close>: web/routes_jobs.go. \<open>delete_work\<close> and \<open>measure_work\<close> are the functions a job runs.
  \<^item> \<open>Ladder\<close>, \<open>Ladder_Facts\<close>, \<open>Perm_Routes\<close>, \<open>Perm_Route_Facts\<close>: web/routes_perm.go.
  \<^item> \<open>Idmap\<close>: idmap/idmap.go. \<open>Qtsauth\<close>, \<open>Verifier\<close>: qtsauth. \<open>Auth_Limits\<close>, \<open>Sessions\<close>, \<open>Session_Auth\<close>:
    web/auth_limits.go, session.go, security.go. \<open>Gate\<close>: breakglass/gate.go, breakglass.go.
  \<^item> \<open>Pool\<close>, \<open>Pool_Facts\<close>, \<open>Pool_Life\<close>: workerpool/workerpool.go, client.go. One step is one region under the pool's
    mutex or one thing a process does on its own.
  \<^item> \<open>Mountinfo\<close>, \<open>Platform\<close>, \<open>Platform_Facts\<close>, \<open>Platform_Life\<close>: platform/mountinfo.go, caps.go, platform.go.
  \<^item> \<open>Root\<close>, \<open>Resolve\<close>, \<open>Resolve_Last\<close>: fsx/root.go and the resolver of fsops/fsops.go.
  \<^item> \<open>Walk\<close>, \<open>Walk_Facts\<close>, \<open>Size\<close>, \<open>Delete_Tree\<close>, \<open>Delete_Facts\<close>: fsops/walk.go, never_write.go, size.go, delete_tree.go.

  \<^bold>\<open>What is shown.\<close> Guard and tokens: the decision table of Check, the sealing of the installation tree, single use of a
  token and what it binds. Routes: nothing denied is dispatched or submitted, the intent line comes first, deletes need
  a token, a queued change is checked again, the result line is honest, no worker's answer hides a loss of ACLs. Job
  manager and pool: bounded slots and processes, hooks run exactly once, verdicts stay, a close drains, a caller gets
  only a worker with its own credentials, accepted calls finish, a shutdown leaves no process. Identity: root is never
  invented, a name is never bound to another account's evidence, a grant is justified by the session, the outage grace
  and the lockout hold. Files: the resolution never leaves the root and ends, a late probe is dropped, every unlink of
  a delete is fenced and accounted for, the delete returns, and the counters of a measurement stay in range.

  \<^bold>\<open>Parameters.\<close> Code that is not in the repository is an argument of the definitions: HMAC, SHA-256, bcrypt and float
  rounding as functions; the XML decoder, the URL parser and the transport of the QTS endpoint; the name service
  programs as a function from operands to output; the kernel as a record of functions from a world to an answer and a
  new world, so it may answer anything at any call and the tree may change under the walk. The route environment's
  fields (clock, nonces, worker, resolver, audit sink, read-only switch, a client that goes away) are functions of the
  trail so far, so each may answer differently every time. Clock readings are arguments, one per reading.

  \<^bold>\<open>Bounds.\<close> A directory stream is read at most \<open>N\<close> times per pass; a stream that delivers more ends the walk with a
  signal of its own, and the termination theorem of the delete gives an \<open>N\<close> above which this never happens when every
  stream ends. Symlinks are followed at most forty times, the source's own limit, and the recursion of the resolver is
  measured by it. The depth of the walk is the source's \<open>maxWalkDepth\<close>. All other functions end by structure or measure.

  \<^bold>\<open>Integers.\<close> Modes and flags are words; int64 sums that the source does not guard wrap (\<open>wrap64\<close>); counters that the
  source guards or that count steps are integers or naturals.

  \<^bold>\<open>Simplifications.\<close> strings.ToLower and strings.EqualFold fold ASCII only. The verifier's Invalidate against a flight
  is one Bool of the caller; the deadline and the slot of a permissions pre-scan are one Bool. The kernel is Linux, which
  reports mount ids. Message texts, the server log and JSON encoding are left out unless a token or an audit line
  depends on them. In the pool an upload's pin on its worker and the question a held archive stream asks its worker
  after giving its hold back (stream.go:113-129) are not modelled.

  \<^bold>\<open>Not modelled.\<close> Copy and move, uploads, archives, search, trash and restore, listing and download; chmod and chown of a
  tree at the worker and the ACL readers; the wire protocol and the creation of processes; audit files, configuration,
  the TLS listener of the emergency login and its pages; process start. They are file or network I/O, wrappers of one
  system call, or parts a later extension takes up on the modelled walk, routes and pool.
\<close>

end
